(* ===== verification/Prelude.thy ===== *)
theory Prelude
  imports Main "HOL-Library.Word" "HOL-Library.Char_ord" "HOL-Library.List_Lexorder"
begin

text \<open>
  Shared vocabulary of the development: the machine types of the Rust sources, fallible
  results as sums, byte order conversion, slices, checked arithmetic, UTF-8 (as Rust's
  standard library validates and iterates it) and decimal printing.

  Conventions. A Rust \<open>u8\<close>, \<open>u16\<close>, \<open>u32\<close>, \<open>u64\<close> is a word of that width; an \<open>i32\<close> or
  \<open>i64\<close> is a word read with \<open>sint\<close>; an \<open>f32\<close> or \<open>f64\<close> is the word of its bits. A \<open>usize\<close>
  is a \<open>nat\<close>, with the \<open>checked_add\<close> of the sources refusing results of 64 bits or more. A
  Rust \<open>str\<close> is a HOL \<open>string\<close>, whose characters are the bytes of the string.
\<close>

section \<open>Types and collections\<close>

type_synonym u8 = "8 word"
type_synonym u16 = "16 word"
type_synonym u32 = "32 word"
type_synonym u64 = "64 word"
type_synonym i32 = "32 word"
type_synonym i64 = "64 word"
type_synonym f32 = "32 word"
type_synonym f64 = "64 word"
type_synonym bytes = "u8 list"

named_theorems cursor_rules
  \<open>evaluation of a cursor read at a position where the expected bytes stand\<close>

named_theorems codec_defs
  \<open>unfolding rules of the encoders\<close>

section \<open>Fallible results\<close>

definition rbind :: "'e + 'a \<Rightarrow> ('a \<Rightarrow> 'e + 'b) \<Rightarrow> 'e + 'b" where
  "rbind r f = (case r of Inl e \<Rightarrow> Inl e | Inr x \<Rightarrow> f x)"

definition ok_or :: "'e \<Rightarrow> 'a option \<Rightarrow> 'e + 'a" where
  "ok_or e r = (case r of None \<Rightarrow> Inl e | Some x \<Rightarrow> Inr x)"

definition map_err :: "('e \<Rightarrow> 'f) \<Rightarrow> 'e + 'a \<Rightarrow> 'f + 'a" where
  "map_err h r = (case r of Inl e \<Rightarrow> Inl (h e) | Inr x \<Rightarrow> Inr x)"

definition require :: "bool \<Rightarrow> 'e \<Rightarrow> 'e + unit" where
  "require c e = (if c then Inr () else Inl e)"

definition opt_filter :: "('a \<Rightarrow> bool) \<Rightarrow> 'a option \<Rightarrow> 'a option" where
  "opt_filter p o' = (case o' of Some x \<Rightarrow> if p x then Some x else None | None \<Rightarrow> None)"

definition is_ok :: "'e + 'a \<Rightarrow> bool" where
  "is_ok r = (case r of Inl _ \<Rightarrow> False | Inr _ \<Rightarrow> True)"

lemma rbind_simps [simp]:
  "rbind (Inl e) f = Inl e"
  "rbind (Inr x) f = f x"
  by (simp_all add: rbind_def)

lemma rbind_eq_Inr: "rbind r f = Inr y \<longleftrightarrow> (\<exists>x. r = Inr x \<and> f x = Inr y)"
  by (cases r) simp_all

lemma rbind_cong [fundef_cong]:
  "r = r' \<Longrightarrow> (\<And>x. r' = Inr x \<Longrightarrow> f x = g x) \<Longrightarrow> rbind r f = rbind r' g"
  by (cases r') simp_all

lemma ok_or_simps [simp]:
  "ok_or e None = Inl e"
  "ok_or e (Some x) = Inr x"
  by (simp_all add: ok_or_def)

lemma ok_or_eq_Inr: "ok_or e r = Inr x \<longleftrightarrow> r = Some x"
  by (cases r) simp_all

lemma map_err_simps [simp]:
  "map_err h (Inl e) = Inl (h e)"
  "map_err h (Inr x) = Inr x"
  by (simp_all add: map_err_def)

lemma map_err_eq_Inr: "map_err h r = Inr x \<longleftrightarrow> r = Inr x"
  by (cases r) simp_all

lemma require_eq_Inr: "require c e = Inr u \<longleftrightarrow> c"
  by (simp add: require_def)

lemma require_simps [simp]:
  "require True e = Inr ()"
  "require False e = Inl e"
  by (simp_all add: require_def)

lemma is_ok_simps [simp]:
  "is_ok (Inl e) = False"
  "is_ok (Inr x) = True"
  by (simp_all add: is_ok_def)

lemma is_ok_iff: "is_ok r \<longleftrightarrow> (\<exists>x. r = Inr x)"
  by (cases r) simp_all

lemma opt_filter_eq_Some: "opt_filter p o' = Some x \<longleftrightarrow> o' = Some x \<and> p x"
  by (auto simp: opt_filter_def split: option.splits)

lemmas result_dests = rbind_eq_Inr ok_or_eq_Inr map_err_eq_Inr require_eq_Inr opt_filter_eq_Some

section \<open>Byte order\<close>

fun le_bytes :: "nat \<Rightarrow> nat \<Rightarrow> bytes" where
  "le_bytes 0 v = []"
| "le_bytes (Suc n) v = of_nat (v mod 256) # le_bytes n (v div 256)"

fun le_nat :: "bytes \<Rightarrow> nat" where
  "le_nat [] = 0"
| "le_nat (b # bs) = unat b + 256 * le_nat bs"

definition be_bytes :: "nat \<Rightarrow> nat \<Rightarrow> bytes" where
  "be_bytes n v = rev (le_bytes n v)"

definition be_nat :: "bytes \<Rightarrow> nat" where
  "be_nat bs = le_nat (rev bs)"

text \<open>Rust's \<open>to_le_bytes\<close> and \<open>from_le_bytes\<close>, and their big-endian twins, at any width.\<close>

definition to_le_bytes :: "'a::len word \<Rightarrow> bytes" where
  "to_le_bytes w = le_bytes (LENGTH('a) div 8) (unat w)"

definition from_le_bytes :: "bytes \<Rightarrow> 'a::len word" where
  "from_le_bytes bs = of_nat (le_nat bs)"

definition to_be_bytes :: "'a::len word \<Rightarrow> bytes" where
  "to_be_bytes w = be_bytes (LENGTH('a) div 8) (unat w)"

definition from_be_bytes :: "bytes \<Rightarrow> 'a::len word" where
  "from_be_bytes bs = of_nat (be_nat bs)"

lemma length_le_bytes [simp]: "length (le_bytes n v) = n"
  by (induction n arbitrary: v) simp_all

lemma length_be_bytes [simp]: "length (be_bytes n v) = n"
  by (simp add: be_bytes_def)

lemma le_nat_le_bytes: "le_nat (le_bytes n v) = v mod 256 ^ n"
proof (induction n arbitrary: v)
  case (Suc n)
  have "unat (of_nat (v mod 256) :: u8) = v mod 256"
    by (simp add: unat_of_nat)
  then have "le_nat (le_bytes (Suc n) v) = v mod 256 + 256 * (v div 256 mod 256 ^ n)"
    by (simp add: Suc.IH)
  also have "\<dots> = v mod (256 * 256 ^ n)"
    by (simp add: mod_mult2_eq)
  finally show ?case by simp
qed simp

lemma unat_bound: "unat (w::'a::len word) < 2 ^ LENGTH('a)"
  by (rule unsigned_less)

lemma unat_minus_one: "unat (- 1 :: 'a::len word) = 2 ^ LENGTH('a) - 1"
  by (simp add: unsigned_minus_1_eq_mask mask_eq_exp_minus_1)

lemma unat_succ:
  fixes w :: "'a::len word"
  assumes "w \<noteq> - 1"
  shows "unat (w + 1) = Suc (unat w)"
proof -
  have "unat w \<noteq> 2 ^ LENGTH('a) - 1"
    using assms by (metis unat_minus_one unsigned_word_eqI)
  with unat_bound [of w] have "Suc (unat w) < 2 ^ LENGTH('a)" by linarith
  then show ?thesis by (simp add: unat_word_ariths)
qed

lemma u8_bound: "unat (b::u8) < 256"
  using unat_bound [of b] by simp

lemma power_256: "8 dvd n \<Longrightarrow> (256::nat) ^ (n div 8) = 2 ^ n"
  by (auto simp: power_mult elim: dvdE)

lemma le_nat_bound: "le_nat bs < 256 ^ length bs"
proof (induction bs)
  case (Cons b bs)
  have "unat b + 256 * le_nat bs < 256 * (le_nat bs + 1)"
    using u8_bound [of b] by simp
  also have "\<dots> \<le> 256 * 256 ^ length bs"
    using Cons.IH by (intro mult_le_mono2) simp
  finally show ?case by simp
qed simp

lemma le_bytes_le_nat: "le_bytes (length bs) (le_nat bs) = bs"
proof (induction bs)
  case (Cons b bs)
  have "unat b < 256" by (rule u8_bound)
  then show ?case using Cons.IH by simp
qed simp

lemma be_nat_be_bytes: "be_nat (be_bytes n v) = v mod 256 ^ n"
  by (simp add: be_nat_def be_bytes_def le_nat_le_bytes)

lemma length_to_bytes [simp]:
  "length (to_le_bytes (w::'a::len word)) = LENGTH('a) div 8"
  "length (to_be_bytes (w::'a::len word)) = LENGTH('a) div 8"
  by (simp_all add: to_le_bytes_def to_be_bytes_def)

lemma unat_fits_bytes:
  fixes w :: "'a::len word"
  assumes "8 dvd LENGTH('a)"
  shows "unat w mod 256 ^ (LENGTH('a) div 8) = unat w"
  using assms unat_bound [of w] by (simp add: power_256)

lemma from_to_le_bytes:
  "8 dvd LENGTH('a::len) \<Longrightarrow> from_le_bytes (to_le_bytes (w::'a word)) = w"
  by (simp add: from_le_bytes_def to_le_bytes_def le_nat_le_bytes unat_fits_bytes)

lemma from_to_be_bytes:
  "8 dvd LENGTH('a::len) \<Longrightarrow> from_be_bytes (to_be_bytes (w::'a word)) = w"
  by (simp add: from_be_bytes_def to_be_bytes_def be_nat_be_bytes unat_fits_bytes)

lemma from_to_le_bytes_word [simp]:
  "from_le_bytes (to_le_bytes w) = (w::u8)"
  "from_le_bytes (to_le_bytes x) = (x::u16)"
  "from_le_bytes (to_le_bytes y) = (y::u32)"
  "from_le_bytes (to_le_bytes z) = (z::u64)"
  by (simp_all add: from_to_le_bytes)

lemma from_to_be_bytes_word [simp]:
  "from_be_bytes (to_be_bytes x) = (x::u16)"
  "from_be_bytes (to_be_bytes y) = (y::u32)"
  "from_be_bytes (to_be_bytes z) = (z::u64)"
  by (simp_all add: from_to_be_bytes)

lemma to_le_bytes_inject:
  "8 dvd LENGTH('a::len) \<Longrightarrow> to_le_bytes (x::'a word) = to_le_bytes y \<longleftrightarrow> x = y"
  by (metis from_to_le_bytes)

lemma to_from_le_bytes:
  assumes "length bs = LENGTH('a::len) div 8" and "8 dvd LENGTH('a)"
  shows "to_le_bytes (from_le_bytes bs :: 'a word) = bs"
proof -
  have "le_nat bs < 2 ^ LENGTH('a)"
    using le_nat_bound [of bs] assms by (simp add: power_256)
  then have "unat (of_nat (le_nat bs) :: 'a word) = le_nat bs"
    by (simp add: unat_of_nat)
  then show ?thesis
    using assms by (simp add: to_le_bytes_def from_le_bytes_def) (metis le_bytes_le_nat)
qed

section \<open>Slices and checked arithmetic\<close>

definition usize_limit :: nat where
  "usize_limit = 2 ^ 64"

definition checked_add :: "nat \<Rightarrow> nat \<Rightarrow> nat option" where
  "checked_add a b = (if a + b < usize_limit then Some (a + b) else None)"

definition checked_mul :: "nat \<Rightarrow> nat \<Rightarrow> nat option" where
  "checked_mul a b = (if a * b < usize_limit then Some (a * b) else None)"

definition saturating_add :: "nat \<Rightarrow> nat \<Rightarrow> nat" where
  "saturating_add a b = min (a + b) (usize_limit - 1)"

text \<open>Rust's \<open>buf.get(a..b)\<close>.\<close>

definition get_range :: "'a list \<Rightarrow> nat \<Rightarrow> nat \<Rightarrow> 'a list option" where
  "get_range xs a b = (if a \<le> b \<and> b \<le> length xs then Some (take (b - a) (drop a xs)) else None)"

definition get_at :: "'a list \<Rightarrow> nat \<Rightarrow> 'a option" where
  "get_at xs i = (if i < length xs then Some (xs ! i) else None)"

definition fits_u16 :: "nat \<Rightarrow> bool" where
  "fits_u16 n \<longleftrightarrow> n < 2 ^ 16"

definition fits_u32 :: "nat \<Rightarrow> bool" where
  "fits_u32 n \<longleftrightarrow> n < 2 ^ 32"

lemma get_range_append [simp]:
  "get_range (xs @ ys @ zs) (length xs) (length xs + length ys) = Some ys"
  by (simp add: get_range_def)

lemma get_range_length: "get_range xs a b = Some ys \<Longrightarrow> length ys = b - a \<and> b \<le> length xs \<and> a \<le> b"
  by (auto simp: get_range_def split: if_splits)

lemma checked_add_Some: "checked_add a b = Some c \<Longrightarrow> c = a + b"
  by (simp add: checked_add_def split: if_splits)

lemma unat_of_nat_u16: "fits_u16 n \<Longrightarrow> unat (of_nat n :: u16) = n"
  by (simp add: fits_u16_def unat_of_nat)

lemma unat_of_nat_u32: "fits_u32 n \<Longrightarrow> unat (of_nat n :: u32) = n"
  by (simp add: fits_u32_def unat_of_nat)

section \<open>Positions in a buffer\<close>

text \<open>
  \<open>cursor_at buf pos rest\<close>: the position is inside the buffer, the bytes from it on are
  \<open>rest\<close>, and the buffer is one Rust can hold (its length fits a \<open>usize\<close>). Every decoder
  lemma is stated over it: the bytes an encoder wrote stand at the cursor, followed by
  anything.
\<close>

definition cursor_at :: "bytes \<Rightarrow> nat \<Rightarrow> bytes \<Rightarrow> bool" where
  "cursor_at buf pos rest \<longleftrightarrow> pos \<le> length buf \<and> drop pos buf = rest \<and> length buf < usize_limit"

lemma cursor_at_start: "length buf < usize_limit \<Longrightarrow> cursor_at buf 0 buf"
  by (simp add: cursor_at_def)

lemma cursor_at_append: "cursor_at buf pos (xs @ rest) \<Longrightarrow> cursor_at buf (pos + length xs) rest"
proof -
  assume at: "cursor_at buf pos (xs @ rest)"
  have "drop (pos + length xs) buf = drop (length xs) (drop pos buf)"
    by (simp add: add.commute)
  also have "\<dots> = rest"
    using at by (simp add: cursor_at_def)
  finally have "drop (pos + length xs) buf = rest" .
  moreover have "length buf = pos + length (xs @ rest)"
    using at by (auto simp: cursor_at_def dest: arg_cong [of _ _ length])
  ultimately show ?thesis using at by (simp add: cursor_at_def)
qed

lemma cursor_at_Cons: "cursor_at buf pos (x # rest) \<Longrightarrow> cursor_at buf (Suc pos) rest"
  using cursor_at_append [of buf pos "[x]" rest] by simp

lemma cursor_at_length: "cursor_at buf pos rest \<Longrightarrow> length buf = pos + length rest"
  by (auto simp: cursor_at_def)

lemma cursor_at_limit: "cursor_at buf pos rest \<Longrightarrow> pos + length rest < usize_limit"
  by (auto simp: cursor_at_def)

lemma cursor_at_range:
  assumes "cursor_at buf pos (xs @ rest)"
  shows "get_range buf pos (pos + length xs) = Some xs"
  using assms cursor_at_length [OF assms] by (auto simp: cursor_at_def get_range_def)

lemma cursor_at_checked_add:
  "cursor_at buf pos (xs @ rest) \<Longrightarrow> checked_add pos (length xs) = Some (pos + length xs)"
  by (auto simp: checked_add_def dest!: cursor_at_limit)

lemma cursor_at_take: "cursor_at buf pos (xs @ rest) \<Longrightarrow> take (length xs) (drop pos buf) = xs"
  by (auto simp: cursor_at_def)

lemma cursor_at_nth: "cursor_at buf pos (x # rest) \<Longrightarrow> get_at buf pos = Some x"
  by (auto simp: cursor_at_def get_at_def nth_via_drop) (metis drop_eq_Nil list.distinct(1) not_less)

lemma cursor_at_split:
  "cursor_at buf pos rest \<Longrightarrow> \<exists>pre. buf = pre @ rest \<and> length pre = pos"
  by (intro exI [of _ "take pos buf"]) (auto simp: cursor_at_def)

lemma cursor_at_concat: "length (pre @ rest) < usize_limit \<Longrightarrow> cursor_at (pre @ rest) (length pre) rest"
  by (simp add: cursor_at_def)

section \<open>Strings\<close>

definition byte_of :: "char \<Rightarrow> u8" where
  "byte_of c = of_nat (of_char c)"

definition char_at :: "u8 \<Rightarrow> char" where
  "char_at b = char_of (unat b)"

definition as_bytes :: "string \<Rightarrow> bytes" where
  "as_bytes s = map byte_of s"

definition str_of :: "bytes \<Rightarrow> string" where
  "str_of bs = map char_at bs"

lemma unat_byte_of: "unat (byte_of c) = of_char c"
  by (simp add: byte_of_def unat_of_nat)

lemma char_at_byte_of [simp]: "char_at (byte_of c) = c"
  by (simp add: char_at_def unat_byte_of)

lemma byte_of_char_at [simp]: "byte_of (char_at b) = b"
  by (rule unsigned_word_eqI [where 'a = nat]) (simp add: unat_byte_of char_at_def u8_bound)

lemma str_of_as_bytes [simp]: "str_of (as_bytes s) = s"
  by (induction s) (simp_all add: str_of_def as_bytes_def)

lemma as_bytes_str_of [simp]: "as_bytes (str_of bs) = bs"
  by (induction bs) (simp_all add: str_of_def as_bytes_def)

lemma length_as_bytes [simp]: "length (as_bytes s) = length s"
  by (simp add: as_bytes_def)

lemma length_str_of [simp]: "length (str_of bs) = length bs"
  by (simp add: str_of_def)

lemma as_bytes_inject [simp]: "as_bytes s = as_bytes t \<longleftrightarrow> s = t"
  by (metis str_of_as_bytes)

lemma as_bytes_append [simp]: "as_bytes (s @ t) = as_bytes s @ as_bytes t"
  by (simp add: as_bytes_def)

lemma byte_of_less: "byte_of c < byte_of d \<longleftrightarrow> c < d"
  by (simp add: word_less_nat_alt unat_byte_of less_char_def)

text \<open>The order of strings is the order of their bytes, as Rust's \<open>str::cmp\<close> has it.\<close>

lemma as_bytes_less: "as_bytes s < as_bytes t \<longleftrightarrow> s < t"
proof (induction s arbitrary: t)
  case Nil
  then show ?case by (cases t) (simp_all add: as_bytes_def)
next
  case (Cons c s)
  have "byte_of c = byte_of d \<longleftrightarrow> c = d" for d
    by (metis char_at_byte_of)
  with Cons.IH show ?case
    by (cases t) (auto simp: as_bytes_def byte_of_less)
qed

section \<open>UTF-8\<close>

text \<open>
  The validity that \<open>std::str::from_utf8\<close> checks: the well-formed byte sequences of the
  Unicode standard (no overlong form, no surrogate, nothing above 10FFFF).
  \<open>utf8_next\<close> takes one scalar value off the front; \<open>utf8_decode\<close> is \<open>str::chars\<close>.
\<close>

definition utf8_cont :: "u8 \<Rightarrow> bool" where
  "utf8_cont b \<longleftrightarrow> 0x80 \<le> b \<and> b \<le> 0xBF"

definition utf8_second :: "u8 \<Rightarrow> u8 \<Rightarrow> bool" where
  "utf8_second b0 b1 \<longleftrightarrow>
     (if b0 = 0xE0 then 0xA0 \<le> b1 \<and> b1 \<le> 0xBF
      else if b0 = 0xED then 0x80 \<le> b1 \<and> b1 \<le> 0x9F
      else if b0 = 0xF0 then 0x90 \<le> b1 \<and> b1 \<le> 0xBF
      else if b0 = 0xF4 then 0x80 \<le> b1 \<and> b1 \<le> 0x8F
      else utf8_cont b1)"

fun utf8_next :: "bytes \<Rightarrow> (nat \<times> bytes) option" where
  "utf8_next [] = None"
| "utf8_next (b0 # bs) =
     (if b0 < 0x80 then Some (unat b0, bs)
      else if 0xC2 \<le> b0 \<and> b0 \<le> 0xDF then
        (case bs of
           b1 # rest \<Rightarrow> if utf8_cont b1
             then Some ((unat b0 - 0xC0) * 64 + (unat b1 - 0x80), rest) else None
         | _ \<Rightarrow> None)
      else if 0xE0 \<le> b0 \<and> b0 \<le> 0xEF then
        (case bs of
           b1 # b2 # rest \<Rightarrow> if utf8_second b0 b1 \<and> utf8_cont b2
             then Some ((unat b0 - 0xE0) * 4096 + (unat b1 - 0x80) * 64 + (unat b2 - 0x80), rest)
             else None
         | _ \<Rightarrow> None)
      else if 0xF0 \<le> b0 \<and> b0 \<le> 0xF4 then
        (case bs of
           b1 # b2 # b3 # rest \<Rightarrow> if utf8_second b0 b1 \<and> utf8_cont b2 \<and> utf8_cont b3
             then Some ((unat b0 - 0xF0) * 262144 + (unat b1 - 0x80) * 4096
                        + (unat b2 - 0x80) * 64 + (unat b3 - 0x80), rest)
             else None
         | _ \<Rightarrow> None)
      else None)"

lemma utf8_next_shorter: "utf8_next bs = Some (c, rest) \<Longrightarrow> length rest < length bs"
  by (cases bs) (auto split: if_splits list.splits)

function utf8_decode :: "bytes \<Rightarrow> nat list option" where
  "utf8_decode bs =
     (if bs = [] then Some []
      else case utf8_next bs of
             None \<Rightarrow> None
           | Some (c, rest) \<Rightarrow> map_option ((#) c) (utf8_decode rest))"
  by pat_completeness auto
termination
  by (relation "measure length") (auto dest: utf8_next_shorter)

declare utf8_decode.simps [simp del]

definition valid_utf8 :: "bytes \<Rightarrow> bool" where
  "valid_utf8 bs \<longleftrightarrow> utf8_decode bs \<noteq> None"

definition from_utf8 :: "bytes \<Rightarrow> string option" where
  "from_utf8 bs = (if valid_utf8 bs then Some (str_of bs) else None)"

text \<open>The invariant of a Rust \<open>String\<close>: its bytes are valid UTF-8.\<close>

definition rust_str :: "string \<Rightarrow> bool" where
  "rust_str s \<longleftrightarrow> valid_utf8 (as_bytes s)"

definition chars :: "string \<Rightarrow> nat list" where
  "chars s = (case utf8_decode (as_bytes s) of None \<Rightarrow> [] | Some cs \<Rightarrow> cs)"

definition is_ascii :: "bytes \<Rightarrow> bool" where
  "is_ascii bs \<longleftrightarrow> list_all (\<lambda>b. b < 0x80) bs"

lemma utf8_decode_Nil [simp]: "utf8_decode [] = Some []"
  by (simp add: utf8_decode.simps)

lemma utf8_decode_ascii: "is_ascii bs \<Longrightarrow> utf8_decode bs = Some (map unat bs)"
  by (induction bs) (simp_all add: is_ascii_def utf8_decode.simps)

lemma is_ascii_valid_utf8: "is_ascii bs \<Longrightarrow> valid_utf8 bs"
  by (simp add: valid_utf8_def utf8_decode_ascii)

lemma from_utf8_as_bytes: "rust_str s \<Longrightarrow> from_utf8 (as_bytes s) = Some s"
  by (simp add: from_utf8_def rust_str_def)

lemma from_utf8_Some: "from_utf8 bs = Some s \<Longrightarrow> as_bytes s = bs \<and> rust_str s"
  by (auto simp: from_utf8_def rust_str_def split: if_splits)

lemma rust_str_Nil [simp]: "rust_str []"
  by (simp add: rust_str_def valid_utf8_def as_bytes_def)

lemma byte_of_ascii: "byte_of (Char b0 b1 b2 b3 b4 b5 b6 False) < 0x80"
  unfolding word_less_nat_alt unat_byte_of by (simp add: of_char_def)

lemma rust_str_ascii [simp]: "rust_str (Char b0 b1 b2 b3 b4 b5 b6 False # s) = rust_str s"
  unfolding rust_str_def valid_utf8_def as_bytes_def list.map
  by (subst utf8_decode.simps) (simp add: byte_of_ascii)

section \<open>Decimal printing\<close>

definition digit_char :: "nat \<Rightarrow> char" where
  "digit_char d = char_of (48 + d)"

function show_nat :: "nat \<Rightarrow> string" where
  "show_nat n = (if n < 10 then [digit_char n] else show_nat (n div 10) @ [digit_char (n mod 10)])"
  by pat_completeness auto
termination
  by (relation "measure id") auto

declare show_nat.simps [simp del]

text \<open>\<open>str::parse::<u32>\<close>: an optional plus sign, then decimal digits, refusing overflow.\<close>

definition digit_val :: "char \<Rightarrow> nat option" where
  "digit_val c = (let n = of_char c in if 48 \<le> n \<and> n \<le> (57::nat) then Some (n - 48) else None)"

fun parse_digits :: "nat \<Rightarrow> string \<Rightarrow> nat option" where
  "parse_digits acc [] = Some acc"
| "parse_digits acc (c # cs) =
     (case digit_val c of Some d \<Rightarrow> parse_digits (10 * acc + d) cs | None \<Rightarrow> None)"

definition parse_nat :: "nat \<Rightarrow> string \<Rightarrow> nat option" where
  "parse_nat limit s =
     (let digits = (case s of c # rest \<Rightarrow> if c = CHR ''+'' \<and> rest \<noteq> [] then rest else s | [] \<Rightarrow> s) in
      if digits = [] then None
      else opt_filter (\<lambda>n. n < limit) (parse_digits 0 digits))"

definition parse_u32 :: "string \<Rightarrow> u32 option" where
  "parse_u32 s = map_option of_nat (parse_nat (2 ^ 32) s)"

text \<open>\<open>format!("{n:06}")\<close>: decimal, padded with zeros to at least six characters.\<close>

definition pad_zero :: "nat \<Rightarrow> string \<Rightarrow> string" where
  "pad_zero w s = replicate (w - length s) (CHR ''0'') @ s"

definition strip_suffix :: "string \<Rightarrow> string \<Rightarrow> string option" where
  "strip_suffix suf s =
     (if length suf \<le> length s \<and> drop (length s - length suf) s = suf
      then Some (take (length s - length suf) s) else None)"

lemma strip_suffix_append [simp]: "strip_suffix suf (s @ suf) = Some s"
  by (simp add: strip_suffix_def)

lemma digit_val_digit_char [simp]: "d < 10 \<Longrightarrow> digit_val (digit_char d) = Some d"
  by (simp add: digit_val_def digit_char_def)

lemma digit_char_0 [simp]: "digit_char 0 = CHR ''0''"
  by (simp add: digit_char_def char_of_def bit_iff_odd)

lemma parse_digits_append:
  "parse_digits acc (s @ t) = (case parse_digits acc s of Some n \<Rightarrow> parse_digits n t | None \<Rightarrow> None)"
  by (induction s arbitrary: acc) (auto split: option.split)

lemma parse_digits_zeros: "parse_digits 0 (replicate k (CHR ''0'')) = Some 0"
  by (induction k) (simp_all flip: digit_char_0)

lemma parse_digits_show_nat: "parse_digits 0 (show_nat n) = Some n"
proof (induction n rule: show_nat.induct)
  case (1 n)
  then show ?case
    by (cases "n < 10") (subst show_nat.simps, simp add: parse_digits_append)+
qed

lemma show_nat_nonempty [simp]: "show_nat n \<noteq> []"
  by (subst show_nat.simps) simp

lemma parse_nat_pad_zero: "n < limit \<Longrightarrow> parse_nat limit (pad_zero w (show_nat n)) = Some n"
proof -
  assume "n < limit"
  let ?s = "pad_zero w (show_nat n)"
  have digits: "parse_digits 0 ?s = Some n"
    by (simp add: pad_zero_def parse_digits_append parse_digits_zeros parse_digits_show_nat)
  moreover have "digit_val (CHR ''+'') = None" by (simp add: digit_val_def of_char_def)
  ultimately have "\<not> (\<exists>rest. ?s = CHR ''+'' # rest)" by auto
  moreover have "?s \<noteq> []" by (simp add: pad_zero_def)
  ultimately show ?thesis
    using digits \<open>n < limit\<close> by (auto simp: parse_nat_def opt_filter_def Let_def split: list.split)
qed

definition show_int :: "int \<Rightarrow> string" where
  "show_int i = (if i < 0 then CHR ''-'' # show_nat (nat (- i)) else show_nat (nat i))"

section \<open>Signed and bitwise views of 64-bit words\<close>

unbundle bit_operations_syntax

lemma bit_63: "bit (w::64 word) 63 \<longleftrightarrow> 2 ^ 63 \<le> unat w"
proof -
  have "bit w 63 = bit (unat w) 63"
    by (simp add: bit_unsigned_iff)
  also have "\<dots> = odd (unat w div 2 ^ 63)" by (simp add: bit_iff_odd)
  finally have "bit w 63 = odd (unat w div 2 ^ 63)" .
  moreover have "unat w div 2 ^ 63 < 2" using unat_bound [of w] by (simp add: div_less_iff_less_mult)
  ultimately show ?thesis
    by (cases "unat w div 2 ^ 63") (auto simp: div_eq_0_iff)
qed

lemma wrap_signed:
  fixes k :: int
  assumes "0 \<le> k" "k < 2 * h"
  shows "(k + h) mod (2 * h) - h = (if k < h then k else k - 2 * h)"
proof (cases "k < h")
  case True
  then have "(k + h) mod (2 * h) = k + h"
    using assms by (intro mod_pos_pos_trivial) auto
  with True show ?thesis by simp
next
  case False
  have "(k + h) mod (2 * h) = (k - h + 2 * h) mod (2 * h)" by (simp add: algebra_simps)
  also have "\<dots> = (k - h) mod (2 * h)" by (rule mod_add_self2)
  also have "\<dots> = k - h"
    using assms False by (intro mod_pos_pos_trivial) auto
  finally show ?thesis using False by simp
qed

lemma sint_64: "sint (w::64 word) = (if uint w < 2 ^ 63 then uint w else uint w - 2 ^ 64)"
proof -
  have "sint w = (uint w + 2 ^ 63) mod (2 * 2 ^ 63) - 2 ^ 63"
    by (simp add: sint_uint signed_take_bit_eq_take_bit_shift take_bit_eq_mod)
  moreover have "uint w < 2 * 2 ^ 63" using unsigned_less [of w] by simp
  ultimately show ?thesis using wrap_signed [of "uint w" "2 ^ 63"] by simp
qed

lemma sint_32: "sint (w::32 word) = (if uint w < 2 ^ 31 then uint w else uint w - 2 ^ 32)"
proof -
  have "sint w = (uint w + 2 ^ 31) mod (2 * 2 ^ 31) - 2 ^ 31"
    by (simp add: sint_uint signed_take_bit_eq_take_bit_shift take_bit_eq_mod)
  moreover have "uint w < 2 * 2 ^ 31" using unsigned_less [of w] by simp
  ultimately show ?thesis using wrap_signed [of "uint w" "2 ^ 31"] by simp
qed

lemma sint_64_nat: "sint (w::64 word) + 2 ^ 63 = int (if unat w < 2 ^ 63 then unat w + 2 ^ 63 else unat w - 2 ^ 63)"
proof -
  have "uint w < 2 ^ 63 \<longleftrightarrow> int (unat w) < int (2 ^ 63)" by simp
  also have "\<dots> \<longleftrightarrow> unat w < 2 ^ 63" by (simp only: of_nat_less_iff)
  finally show ?thesis by (simp add: sint_64)
qed

lemma flip_63: "unat ((w::64 word) XOR push_bit 63 1) = (if unat w < 2 ^ 63 then unat w + 2 ^ 63 else unat w - 2 ^ 63)"
proof -
  have "w XOR push_bit 63 1 = flip_bit 63 w" by (simp add: flip_bit_eq_xor)
  also have "\<dots> = (if bit w 63 then w - 2 ^ 63 else w + 2 ^ 63)"
    by (simp add: flip_bit_eq_if set_bit_eq unset_bit_eq)
  finally show ?thesis using unat_bound [of w]
    by (auto simp: bit_63 unat_word_ariths unat_sub word_le_nat_alt)
qed

lemma not_64: "unat (NOT (w::64 word)) = 2 ^ 64 - 1 - unat w"
proof -
  have "NOT w = - 1 - w" by (simp add: not_eq_complement)
  moreover have "unat (- 1 :: 64 word) = 2 ^ 64 - 1" by (simp add: unsigned_minus_1_eq_mask mask_eq_exp_minus_1)
  ultimately show ?thesis by (simp add: unat_sub)
qed

lemma or_63: "unat ((w::64 word) OR push_bit 63 1) = (if unat w < 2 ^ 63 then unat w + 2 ^ 63 else unat w)"
proof -
  have "w OR push_bit 63 1 = set_bit 63 w" by (rule set_bit_eq_or [symmetric])
  also have "\<dots> = (if bit w 63 then w else w + 2 ^ 63)"
    by (simp add: set_bit_eq)
  finally show ?thesis using unat_bound [of w]
    by (auto simp: bit_63 unat_word_ariths)
qed

lemma and_63: "(w::64 word) AND push_bit 63 1 \<noteq> 0 \<longleftrightarrow> 2 ^ 63 \<le> unat w"
  unfolding bit_63 [symmetric] bit_iff_and_push_bit_not_eq_0 ..

lemma be_nat_Cons: "be_nat (x # xs) = unat x * 256 ^ length xs + be_nat xs"
proof -
  have "le_nat (ys @ [x]) = le_nat ys + 256 ^ length ys * unat x" for ys
    by (induction ys) (simp_all add: algebra_simps)
  then show ?thesis by (simp add: be_nat_def)
qed

lemma be_nat_bound: "be_nat xs < 256 ^ length xs"
  using le_nat_bound [of "rev xs"] by (simp add: be_nat_def)

text \<open>Byte strings of one length compare as the numbers they spell big-endian.\<close>

lemma be_nat_less: "length xs = length ys \<Longrightarrow> xs < ys \<longleftrightarrow> be_nat xs < be_nat ys"
proof (induction xs ys rule: list_induct2)
  case Nil
  then show ?case by simp
next
  case (Cons x xs y ys)
  have "be_nat (x # xs) < be_nat (y # ys)"
    if "length xs = length ys" "unat x < unat y" for x y :: u8 and xs ys :: bytes
  proof -
    from that(2)
    have "(unat x + 1) * 256 ^ length xs \<le> unat y * 256 ^ length xs"
      by (intro mult_le_mono1) simp
    with that(1) be_nat_bound [of xs] show ?thesis by (simp add: be_nat_Cons)
  qed
  from this [of xs ys x y] this [of ys xs y x] Cons
  show ?case
    by (cases x y rule: linorder_cases) (auto simp: word_less_nat_alt be_nat_Cons)
qed

lemma to_be_bytes_less: "to_be_bytes (v::64 word) < to_be_bytes (w::64 word) \<longleftrightarrow> unat v < unat w"
  using unat_fits_bytes [of v] unat_fits_bytes [of w]
  by (simp add: be_nat_less to_be_bytes_def be_nat_be_bytes)

lemma to_be_bytes_inject: "to_be_bytes (v::64 word) = to_be_bytes (w::64 word) \<longleftrightarrow> v = w"
  by (metis from_to_be_bytes_word(3))

text \<open>Appending to keys of one length: the order of the keys decides first.\<close>

lemma append_less_same_length:
  fixes xs ys :: "'a::linorder list"
  shows "length xs = length ys \<Longrightarrow> xs @ us < ys @ vs \<longleftrightarrow> xs < ys \<or> (xs = ys \<and> us < vs)"
  by (induction xs ys rule: list_induct2) auto

text \<open>Padding with the smallest byte and cutting keeps the order where it still shows.\<close>

lemma padded_less:
  "take n (xs @ replicate n 0) < take n (ys @ replicate n 0) \<Longrightarrow> xs < ys" for xs ys :: bytes
proof (induction n arbitrary: xs ys)
  case (Suc n)
  have pad: "take (Suc n) ((z # zs) @ replicate (Suc n) 0) = z # take n (zs @ replicate n 0)"
    for z :: u8 and zs
    by (simp del: replicate_Suc)
  have nil: "take (Suc n) ([] @ replicate (Suc n) 0) = (0::u8) # take n ([] @ replicate n 0)"
    by simp
  show ?case
  proof (cases xs)
    case Nil
    with Suc.prems show ?thesis by (cases ys) auto
  next
    case xs: (Cons x xs')
    show ?thesis
    proof (cases ys)
      case Nil
      with Suc.prems have "x = 0 \<and> take n (xs' @ replicate n 0) < take n ([] @ replicate n 0)"
        unfolding xs Nil pad nil by (auto simp: word_less_nat_alt)
      with Suc.IH [of xs' "[]"] show ?thesis by simp
    next
      case (Cons y ys')
      with Suc.prems have "x < y \<or> (x = y \<and> take n (xs' @ replicate n 0) < take n (ys' @ replicate n 0))"
        unfolding xs Cons pad by auto
      with Suc.IH [of xs' ys'] show ?thesis by (auto simp: xs Cons)
    qed
  qed
qed simp

end
