(* ===== verification/Cursor.thy ===== *)
theory Cursor
  imports Prelude
begin

text \<open>
  The engine's error type (\<open>error.rs\<close>), the third-party functions the storage formats call
  (parameters of the model), and the cursor helpers at the end of \<open>value.rs\<close> that every
  decoder of the engine is built from. A Rust function that takes \<open>pos: &mut usize\<close> becomes
  a function that also returns the advanced position.

  The lemmas come in two groups: \<open>cursor_rules\<close> evaluate a read where the bytes an encoder
  wrote stand at the cursor, and \<open>read_bounds\<close> say that a read that succeeds stays inside
  the buffer and how far it advances.
\<close>

section \<open>Errors\<close>

datatype error =
    Io string
  | Corrupt string
  | TableExists string
  | TableNotFound string
  | RecordNotFound (rnf_table: string) (rnf_id: string)
  | DuplicateId (dup_table: string) (dup_id: string)
  | SchemaViolation string
  | InvalidArgument string
  | Conflict string
  | DatabaseLocked string
  | UniqueViolation (uv_table: string) (uv_column: string)
  | Sql string
  | ReadOnly
  | ColumnNotFound (cnf_table: string) (cnf_column: string)
  | IndexNotFound (inf_table: string) (inf_column: string)
  | MemoryLimit string
  | CommitUnknown string
  | QueryInterrupted string

type_synonym 'a result = "error + 'a"

fun code :: "error \<Rightarrow> u32" where
  "code (Io _) = 1"
| "code (Corrupt _) = 2"
| "code (TableExists _) = 3"
| "code (TableNotFound _) = 4"
| "code (RecordNotFound _ _) = 5"
| "code (DuplicateId _ _) = 6"
| "code (SchemaViolation _) = 7"
| "code (InvalidArgument _) = 8"
| "code (Conflict _) = 9"
| "code (DatabaseLocked _) = 10"
| "code (UniqueViolation _ _) = 11"
| "code (Sql _) = 12"
| "code ReadOnly = 13"
| "code (ColumnNotFound _ _) = 14"
| "code (IndexNotFound _ _) = 15"
| "code (MemoryLimit _) = 16"
| "code (CommitUnknown _) = 17"
| "code (QueryInterrupted _) = 18"

fun display_error :: "error \<Rightarrow> string" where
  "display_error (Io e) = ''io error: '' @ e"
| "display_error (Corrupt msg) = ''corrupt database: '' @ msg"
| "display_error (TableExists name) = ''table already exists: '' @ name"
| "display_error (TableNotFound name) = ''table not found: '' @ name"
| "display_error (RecordNotFound t i) = ''record not found: '' @ t @ ''/'' @ i"
| "display_error (DuplicateId t i) = ''duplicate id: '' @ t @ ''/'' @ i"
| "display_error (SchemaViolation msg) = ''schema violation: '' @ msg"
| "display_error (InvalidArgument msg) = ''invalid argument: '' @ msg"
| "display_error (Conflict msg) = ''conflict, retry transaction: '' @ msg"
| "display_error (DatabaseLocked path) = ''database is locked by another process: '' @ path"
| "display_error (UniqueViolation t c) = ''unique index violation on '' @ t @ ''.'' @ c"
| "display_error (Sql msg) = ''sql error: '' @ msg"
| "display_error ReadOnly = ''database opened read-only; writes are rejected''"
| "display_error (ColumnNotFound t c) = ''column not found: '' @ t @ ''.'' @ c"
| "display_error (IndexNotFound t c) = ''index not found on '' @ t @ ''.'' @ c"
| "display_error (MemoryLimit msg) = ''memory limit exceeded: '' @ msg"
| "display_error (CommitUnknown msg) = ''commit outcome unknown: '' @ msg"
| "display_error (QueryInterrupted msg) = ''query interrupted: '' @ msg"

section \<open>Third-party functions\<close>

text \<open>
  \<open>crc32fast::hash\<close> and \<open>serde_json\<close> are not part of the repository: they are arguments of
  the definitions that use them. \<open>'j\<close> stands for \<open>serde_json::Value\<close>.
\<close>

record 'j ext =
  crc32 :: "bytes \<Rightarrow> u32"
  json_to_vec :: "'j \<Rightarrow> bytes"
  json_from_slice :: "bytes \<Rightarrow> 'j option"
  json_eq :: "'j \<Rightarrow> 'j \<Rightarrow> bool"

text \<open>An instance for concrete inputs: an additive checksum, and documents that are their own
  serialization.\<close>

definition sample_ext :: "bytes ext" where
  "sample_ext = \<lparr>crc32 = (\<lambda>bs. of_nat (sum_list (map unat bs))), json_to_vec = (\<lambda>j. j),
     json_from_slice = Some, json_eq = (=)\<rparr>"

section \<open>Cursor helpers\<close>

definition read_u8 :: "bytes \<Rightarrow> nat \<Rightarrow> (u8 \<times> nat) result" where
  "read_u8 buf pos =
     rbind (ok_or (Corrupt ''unexpected end of data'') (get_at buf pos)) (\<lambda>b.
     Inr (b, pos + 1))"

definition read_array :: "nat \<Rightarrow> bytes \<Rightarrow> nat \<Rightarrow> (bytes \<times> nat) result" where
  "read_array n buf pos =
     rbind (ok_or (Corrupt ''length overflow'') (checked_add pos n)) (\<lambda>end_pos.
     rbind (ok_or (Corrupt ''unexpected end of data'') (get_range buf pos end_pos)) (\<lambda>slice.
     Inr (slice, end_pos)))"

definition read_u16 :: "bytes \<Rightarrow> nat \<Rightarrow> (u16 \<times> nat) result" where
  "read_u16 buf pos = rbind (read_array 2 buf pos) (\<lambda>(bs, pos). Inr (from_le_bytes bs, pos))"

definition read_u32 :: "bytes \<Rightarrow> nat \<Rightarrow> (u32 \<times> nat) result" where
  "read_u32 buf pos = rbind (read_array 4 buf pos) (\<lambda>(bs, pos). Inr (from_le_bytes bs, pos))"

definition read_u64 :: "bytes \<Rightarrow> nat \<Rightarrow> (u64 \<times> nat) result" where
  "read_u64 buf pos = rbind (read_array 8 buf pos) (\<lambda>(bs, pos). Inr (from_le_bytes bs, pos))"

definition read_len_prefixed :: "bytes \<Rightarrow> nat \<Rightarrow> (bytes \<times> nat) result" where
  "read_len_prefixed buf pos =
     rbind (read_u32 buf pos) (\<lambda>(len, pos).
     rbind (ok_or (Corrupt ''length overflow'') (checked_add pos (unat len))) (\<lambda>end_pos.
     rbind (ok_or (Corrupt ''unexpected end of data'') (get_range buf pos end_pos)) (\<lambda>slice.
     Inr (slice, end_pos))))"

definition text_str :: "bytes \<Rightarrow> string result" where
  "text_str bs =
     (if is_ascii bs then Inr (str_of bs)
      else ok_or (Corrupt ''invalid utf8 in text value'') (from_utf8 bs))"

section \<open>Reads where the expected bytes stand at the cursor\<close>

lemma read_u8_at [cursor_rules]:
  "cursor_at buf pos (b # rest) \<Longrightarrow> read_u8 buf pos = Inr (b, Suc pos)"
  by (simp add: read_u8_def cursor_at_nth)

lemma read_array_at [cursor_rules]:
  assumes "cursor_at buf pos (xs @ rest)" and "length xs = n"
  shows "read_array n buf pos = Inr (xs, pos + n)"
  using cursor_at_checked_add [OF assms(1)] cursor_at_range [OF assms(1)] assms(2)
  by (simp add: read_array_def)

lemma read_u16_at [cursor_rules]:
  "cursor_at buf pos (to_le_bytes (w::u16) @ rest) \<Longrightarrow> read_u16 buf pos = Inr (w, pos + 2)"
  by (simp add: read_u16_def read_array_at)

lemma read_u32_at [cursor_rules]:
  "cursor_at buf pos (to_le_bytes (w::u32) @ rest) \<Longrightarrow> read_u32 buf pos = Inr (w, pos + 4)"
  by (simp add: read_u32_def read_array_at)

lemma read_u64_at [cursor_rules]:
  "cursor_at buf pos (to_le_bytes (w::u64) @ rest) \<Longrightarrow> read_u64 buf pos = Inr (w, pos + 8)"
  by (simp add: read_u64_def read_array_at)

text \<open>Stepping the cursor over a fixed-width field.\<close>

lemma cursor_at_u16:
  "cursor_at buf pos (to_le_bytes (w::u16) @ rest) \<Longrightarrow> cursor_at buf (pos + 2) rest"
  using cursor_at_append by force

lemma cursor_at_u32:
  "cursor_at buf pos (to_le_bytes (w::u32) @ rest) \<Longrightarrow> cursor_at buf (pos + 4) rest"
  using cursor_at_append by force

lemma cursor_at_u64:
  "cursor_at buf pos (to_le_bytes (w::u64) @ rest) \<Longrightarrow> cursor_at buf (pos + 8) rest"
  using cursor_at_append by force

lemmas cursor_steps = cursor_at_Cons cursor_at_u16 cursor_at_u32 cursor_at_u64 cursor_at_append

lemma read_len_prefixed_at [cursor_rules]:
  assumes at: "cursor_at buf pos (to_le_bytes (of_nat (length xs) :: u32) @ xs @ rest)"
    and fits: "fits_u32 (length xs)"
  shows "read_len_prefixed buf pos = Inr (xs, pos + 4 + length xs)"
proof -
  note at' = cursor_at_u32 [OF at]
  show ?thesis
    using at cursor_at_checked_add [OF at'] cursor_at_range [OF at']
    by (simp add: read_len_prefixed_def read_u32_at unat_of_nat_u32 [OF fits])
qed

lemma text_str_eq: "text_str bs = ok_or (Corrupt ''invalid utf8 in text value'') (from_utf8 bs)"
  by (simp add: text_str_def from_utf8_def is_ascii_valid_utf8)

lemma text_str_as_bytes: "rust_str s \<Longrightarrow> text_str (as_bytes s) = Inr s"
  by (simp add: text_str_eq from_utf8_as_bytes)

section \<open>Reads stay inside the buffer\<close>

lemma read_u8_bounds: "read_u8 buf pos = Inr (b, pos') \<Longrightarrow> pos' = Suc pos \<and> pos' \<le> length buf"
  by (auto simp: read_u8_def get_at_def result_dests split: if_splits)

lemma read_array_bounds:
  "read_array n buf pos = Inr (bs, pos') \<Longrightarrow> pos' = pos + n \<and> pos' \<le> length buf \<and> length bs = n"
  by (auto simp: read_array_def result_dests dest!: checked_add_Some get_range_length)

lemma read_u16_bounds: "read_u16 buf pos = Inr (w, pos') \<Longrightarrow> pos' = pos + 2 \<and> pos' \<le> length buf"
  by (auto simp: read_u16_def result_dests dest: read_array_bounds)

lemma read_u32_bounds: "read_u32 buf pos = Inr (w, pos') \<Longrightarrow> pos' = pos + 4 \<and> pos' \<le> length buf"
  by (auto simp: read_u32_def result_dests dest: read_array_bounds)

lemma read_u64_bounds: "read_u64 buf pos = Inr (w, pos') \<Longrightarrow> pos' = pos + 8 \<and> pos' \<le> length buf"
  by (auto simp: read_u64_def result_dests dest: read_array_bounds)

lemma read_len_prefixed_bounds:
  "read_len_prefixed buf pos = Inr (bs, pos') \<Longrightarrow> pos' = pos + 4 + length bs \<and> pos' \<le> length buf"
  by (auto simp: read_len_prefixed_def result_dests
      dest!: read_u32_bounds checked_add_Some get_range_length)

lemmas read_bounds = read_u8_bounds read_array_bounds read_u16_bounds read_u32_bounds
  read_u64_bounds read_len_prefixed_bounds

end
