(* ===== verification/Frames.thy ===== *)
theory Frames
  imports Cursor
begin

text \<open>
  The interface that the engine's log and record formats share: an encoder that writes a
  self-delimiting frame, and a reader that takes one frame off a buffer at a position. The
  locale \<open>frame_codec\<close> states what a format promises its users (reading back what was
  written, ignoring what follows, staying inside the buffer), \<open>frame_log\<close> adds a scan that
  reads frames until the end or the first bad one. The users' lemmas are proved once here:
  a counted loop over frames, a scan of a whole log, and what a scan finds in a log whose
  last frame was torn by a crash.
\<close>

section \<open>Reads ignore what follows\<close>

lemma get_at_extend: "get_at xs i = Some x \<Longrightarrow> get_at (xs @ ys) i = Some x"
  by (auto simp: get_at_def nth_append split: if_splits)

lemma get_range_extend: "get_range xs a b = Some zs \<Longrightarrow> get_range (xs @ ys) a b = Some zs"
  by (auto simp: get_range_def split: if_splits)

lemma read_u8_extend: "read_u8 buf pos = Inr r \<Longrightarrow> read_u8 (buf @ ext) pos = Inr r"
  by (auto simp: read_u8_def result_dests get_at_extend)

lemma read_array_extend: "read_array n buf pos = Inr r \<Longrightarrow> read_array n (buf @ ext) pos = Inr r"
  by (auto simp: read_array_def result_dests get_range_extend)

lemma read_u16_extend: "read_u16 buf pos = Inr r \<Longrightarrow> read_u16 (buf @ ext) pos = Inr r"
  by (auto simp: read_u16_def result_dests read_array_extend)

lemma read_u32_extend: "read_u32 buf pos = Inr r \<Longrightarrow> read_u32 (buf @ ext) pos = Inr r"
  by (auto simp: read_u32_def result_dests read_array_extend)

lemma read_u64_extend: "read_u64 buf pos = Inr r \<Longrightarrow> read_u64 (buf @ ext) pos = Inr r"
  by (auto simp: read_u64_def result_dests read_array_extend)

lemma read_len_prefixed_extend:
  "read_len_prefixed buf pos = Inr r \<Longrightarrow> read_len_prefixed (buf @ ext) pos = Inr r"
  by (auto simp: read_len_prefixed_def result_dests read_u32_extend get_range_extend)

lemmas read_extends = get_at_extend get_range_extend read_u8_extend read_array_extend
  read_u16_extend read_u32_extend read_u64_extend read_len_prefixed_extend

section \<open>Counted loops\<close>

text \<open>The loop \<open>for _ in 0..n { out.push(read(buf, pos)?); }\<close>.\<close>

fun repeat_read :: "(bytes \<Rightarrow> nat \<Rightarrow> 'e + ('b \<times> nat)) \<Rightarrow> nat \<Rightarrow> bytes \<Rightarrow> nat \<Rightarrow> 'e + ('b list \<times> nat)" where
  "repeat_read rd 0 buf pos = Inr ([], pos)"
| "repeat_read rd (Suc n) buf pos =
     rbind (rd buf pos) (\<lambda>(x, pos).
     rbind (repeat_read rd n buf pos) (\<lambda>(xs, pos).
     Inr (x # xs, pos)))"

text \<open>What a reader makes of frames written one after another from a position on: a reader
  may report where a frame stood.\<close>

fun placed :: "(nat \<Rightarrow> 'a \<Rightarrow> 'b) \<Rightarrow> ('a \<Rightarrow> bytes) \<Rightarrow> nat \<Rightarrow> 'a list \<Rightarrow> 'b list" where
  "placed view enc pos [] = []"
| "placed view enc pos (a # as) = view pos a # placed view enc (pos + length (enc a)) as"

lemma placed_const [simp]: "placed (\<lambda>_. f) enc pos as = map f as"
  by (induction as arbitrary: pos) simp_all

lemma length_placed [simp]: "length (placed view enc pos as) = length as"
  by (induction as arbitrary: pos) simp_all

lemma placed_nth:
  "i < length as \<Longrightarrow> placed view enc pos as ! i = view (pos + length (concat (map enc (take i as)))) (as ! i)"
  by (induction as arbitrary: pos i) (auto simp: nth_Cons take_Cons add.assoc split: nat.split)

lemma repeat_read_length: "repeat_read rd n buf pos = Inr (xs, pos') \<Longrightarrow> length xs = n"
  by (induction n arbitrary: pos xs pos') (auto simp: result_dests)

lemma repeat_read_extend:
  assumes "\<And>pos r. rd buf pos = Inr r \<Longrightarrow> rd (buf @ ext) pos = Inr r"
  shows "repeat_read rd n buf pos = Inr r \<Longrightarrow> repeat_read rd n (buf @ ext) pos = Inr r"
  by (induction n arbitrary: pos r) (fastforce simp: result_dests dest: assms)+

lemma repeat_read_bounds:
  assumes "\<And>pos x pos'. rd buf pos = Inr (x, pos') \<Longrightarrow> pos \<le> pos' \<and> pos' \<le> length buf"
  shows "repeat_read rd n buf pos = Inr (xs, pos') \<Longrightarrow> pos \<le> length buf \<Longrightarrow> pos \<le> pos' \<and> pos' \<le> length buf"
  by (induction n arbitrary: pos xs pos') (fastforce simp: result_dests dest: assms)+

section \<open>The interface of a format\<close>

locale frame_codec =
  fixes enc :: "'a \<Rightarrow> bytes"
    and rd :: "bytes \<Rightarrow> nat \<Rightarrow> 'e + ('b \<times> nat)"
    and wf :: "'a \<Rightarrow> bool"
    and view :: "nat \<Rightarrow> 'a \<Rightarrow> 'b"
  assumes rd_enc: "wf a \<Longrightarrow> cursor_at buf pos (enc a @ rest) \<Longrightarrow>
      rd buf pos = Inr (view pos a, pos + length (enc a))"
    and rd_extend: "rd buf pos = Inr r \<Longrightarrow> rd (buf @ ext) pos = Inr r"
    and rd_bounds: "rd buf pos = Inr (x, pos') \<Longrightarrow> pos < pos' \<and> pos' \<le> length buf"
begin

text \<open>A counted loop reads back what a counted loop wrote.\<close>

lemma repeat_read_enc:
  assumes "list_all wf as" and "cursor_at buf pos (concat (map enc as) @ rest)"
  shows "repeat_read rd (length as) buf pos =
    Inr (placed view enc pos as, pos + length (concat (map enc as)))"
  using assms
proof (induction as arbitrary: pos)
  case Nil
  then show ?case by simp
next
  case (Cons a as)
  from Cons.prems have at: "cursor_at buf pos (enc a @ concat (map enc as) @ rest)"
    and wf: "wf a" "list_all wf as"
    by simp_all
  have "cursor_at buf (pos + length (enc a)) (concat (map enc as) @ rest)"
    using at by (rule cursor_at_append)
  with Cons.IH [OF wf(2)] rd_enc [OF wf(1) at] show ?case
    by (simp add: add.assoc)
qed

text \<open>A frame cut short by a crash is never taken for a frame.\<close>

lemma torn_frame_fails:
  assumes "wf a" and "length pre + length (enc a) < usize_limit" and "k < length (enc a)"
  shows "\<exists>e. rd (pre @ take k (enc a)) (length pre) = Inl e"
proof (cases "rd (pre @ take k (enc a)) (length pre)")
  case (Inr r)
  obtain x pos' where r: "r = (x, pos')" by force
  from Inr have "rd ((pre @ take k (enc a)) @ drop k (enc a)) (length pre) = Inr (x, pos')"
    unfolding r by (rule rd_extend)
  then have whole: "rd (pre @ enc a) (length pre) = Inr (x, pos')" by simp
  have "cursor_at (pre @ enc a) (length pre) (enc a @ [])"
    using assms(2) by (simp add: cursor_at_def)
  with assms(1) whole have "pos' = length pre + length (enc a)"
    by (simp add: rd_enc)
  moreover from Inr have "pos' \<le> length (pre @ take k (enc a))"
    unfolding r using rd_bounds by blast
  ultimately show ?thesis using assms(3) by simp
qed blast

lemma enc_nonempty:
  assumes "wf a" and "length (enc a) < usize_limit"
  shows "enc a \<noteq> []"
proof
  assume "enc a = []"
  then have "cursor_at [] 0 (enc a @ [])"
    using assms(2) by (simp add: cursor_at_def)
  with assms(1) have "rd [] 0 = Inr (view 0 a, 0 + length (enc a))"
    by (rule rd_enc)
  then have "0 < 0 + length (enc a)"
    using rd_bounds by blast
  with \<open>enc a = []\<close> show False by simp
qed

end

section \<open>Logs: scanning frames to the first bad one\<close>

locale frame_log = frame_codec +
  fixes scan :: "bytes \<Rightarrow> nat \<Rightarrow> 'b list \<times> nat \<times> bool"
  assumes scan_unfold: "scan buf pos =
      (if length buf \<le> pos then ([], pos, True)
       else case rd buf pos of
              Inl _ \<Rightarrow> ([], pos, False)
            | Inr (x, pos') \<Rightarrow> (case scan buf pos' of (xs, valid, clean) \<Rightarrow> (x # xs, valid, clean)))"
begin

text \<open>Whole frames at the cursor are found, and the scan goes on behind them.\<close>

lemma scan_enc:
  assumes "list_all wf as" and "cursor_at buf pos (concat (map enc as) @ rest)"
  shows "scan buf pos =
    (case scan buf (pos + length (concat (map enc as))) of
       (xs, valid, clean) \<Rightarrow> (placed view enc pos as @ xs, valid, clean))"
  using assms
proof (induction as arbitrary: pos)
  case Nil
  then show ?case by (simp split: prod.split)
next
  case (Cons a as)
  from Cons.prems have at: "cursor_at buf pos (enc a @ concat (map enc as) @ rest)"
    and wf: "wf a" "list_all wf as"
    by simp_all
  have "length (enc a) < usize_limit"
    using cursor_at_limit [OF at] by simp
  then have "pos < length buf"
    using enc_nonempty [OF wf(1)] cursor_at_length [OF at] by simp
  moreover have "cursor_at buf (pos + length (enc a)) (concat (map enc as) @ rest)"
    using at by (rule cursor_at_append)
  ultimately show ?case
    using Cons.IH [OF wf(2)] rd_enc [OF wf(1) at]
    by (subst scan_unfold) (simp add: add.assoc split: prod.split)
qed

lemma scan_end: "length buf \<le> pos \<Longrightarrow> scan buf pos = ([], pos, True)"
  by (subst scan_unfold) simp

text \<open>A complete log scans clean and yields every frame.\<close>

lemma scan_complete:
  assumes "list_all wf as" and "length (concat (map enc as)) < usize_limit"
  shows "scan (concat (map enc as)) 0 =
    (placed view enc 0 as, length (concat (map enc as)), True)"
proof -
  have "cursor_at (concat (map enc as)) 0 (concat (map enc as) @ [])"
    using assms(2) by (simp add: cursor_at_def)
  from scan_enc [OF assms(1) this] show ?thesis
    by (simp add: scan_end)
qed

text \<open>A log whose last frame is torn yields every frame before it and the offset where the
  torn one starts.\<close>

lemma scan_torn:
  assumes wf: "list_all wf as" "wf a"
    and size: "length (concat (map enc as)) + length (enc a) < usize_limit"
    and k: "0 < k" "k < length (enc a)"
  shows "scan (concat (map enc as) @ take k (enc a)) 0 =
    (placed view enc 0 as, length (concat (map enc as)), False)"
proof -
  let ?pre = "concat (map enc as)"
  have "cursor_at (?pre @ take k (enc a)) 0 (?pre @ take k (enc a))"
    using size k by (simp add: cursor_at_def)
  note found = scan_enc [OF wf(1) this]
  obtain e where "rd (?pre @ take k (enc a)) (length ?pre) = Inl e"
    using torn_frame_fails [OF wf(2), of ?pre k] size k by auto
  then have "scan (?pre @ take k (enc a)) (length ?pre) = ([], length ?pre, False)"
    using k by (subst scan_unfold) simp
  with found show ?thesis by simp
qed

end

end
