(* ===== verification/Segment.thy ===== *)
theory Segment
  imports Frames
begin

text \<open>
  Immutable segments (\<open>segment.rs\<close>): the entry format, its parser, the three scans (collecting,
  visiting, validating) and what recovery relies on: reading back whole entries, and stopping
  exactly at a torn or corrupt one.

  A segment entry is a table name, a record id, a commit version and an optional payload
  (\<open>None\<close> is a tombstone), followed by the CRC of everything before it.
\<close>

section \<open>Entries\<close>

abbreviation "KIND_PUT \<equiv> (1::u8)"
abbreviation "KIND_TOMBSTONE \<equiv> (2::u8)"

record entry_ref =
  er_version :: u64
  er_table :: string
  er_id :: string
  er_tombstone :: bool
  er_payload_offset :: nat
  er_payload_len :: u32

definition segment_file_name :: "u32 \<Rightarrow> string" where
  "segment_file_name fid = pad_zero 6 (show_nat (unat fid)) @ ''.seg''"

text \<open>\<open>encode_entry_into\<close> clears and fills a caller's buffer; the model returns the filled
  buffer and the payload offset relative to the entry's start.\<close>

definition encode_entry_into ::
    "'j ext \<Rightarrow> u64 \<Rightarrow> string \<Rightarrow> string \<Rightarrow> bytes option \<Rightarrow> (bytes \<times> nat) result" where
  "encode_entry_into E version table rid payload =
     (let kind = (if payload \<noteq> None then KIND_PUT else KIND_TOMBSTONE);
          payload = (case payload of Some p \<Rightarrow> p | None \<Rightarrow> []) in
      rbind (require (fits_u16 (length table))
              (InvalidArgument ''table name exceeds the 65535-byte storage limit'')) (\<lambda>_.
      rbind (require (fits_u16 (length rid))
              (InvalidArgument ''record id exceeds the 65535-byte storage limit'')) (\<lambda>_.
      rbind (require (fits_u32 (length payload))
              (InvalidArgument ''segment payload exceeds the 4-GiB storage limit'')) (\<lambda>_.
      let head = kind # to_le_bytes version
            @ to_le_bytes (of_nat (length table) :: u16) @ as_bytes table
            @ to_le_bytes (of_nat (length rid) :: u16) @ as_bytes rid
            @ to_le_bytes (of_nat (length payload) :: u32);
          buf = head @ payload
      in Inr (buf @ to_le_bytes (crc32 E buf), length head)))))"

section \<open>Parsing\<close>

definition read_short_str :: "bytes \<Rightarrow> nat \<Rightarrow> (string \<times> nat) result" where
  "read_short_str data pos =
     rbind (read_u16 data pos) (\<lambda>(len, pos).
     rbind (ok_or (Corrupt ''length overflow'') (checked_add pos (unat len))) (\<lambda>end_pos.
     rbind (ok_or (Corrupt ''unexpected end of data'') (get_range data pos end_pos)) (\<lambda>slice.
     rbind (ok_or (Corrupt ''invalid utf8'') (from_utf8 slice)) (\<lambda>s.
     Inr (s, end_pos)))))"

definition parse_entry :: "'j ext \<Rightarrow> bytes \<Rightarrow> nat \<Rightarrow> (entry_ref \<times> nat) result" where
  "parse_entry E data entry_start =
     rbind (read_u8 data entry_start) (\<lambda>(kind, pos).
     rbind (require (kind = KIND_PUT \<or> kind = KIND_TOMBSTONE)
             (Corrupt (''unknown entry kind '' @ show_nat (unat kind)))) (\<lambda>_.
     rbind (read_u64 data pos) (\<lambda>(version, pos).
     rbind (read_short_str data pos) (\<lambda>(table, pos).
     rbind (read_short_str data pos) (\<lambda>(rid, pos).
     rbind (read_u32 data pos) (\<lambda>(payload_len, payload_start).
     rbind (ok_or (Corrupt ''payload length overflow'')
             (checked_add payload_start (unat payload_len))) (\<lambda>payload_end.
     rbind (require (\<not> payload_end > length data) (Corrupt ''truncated payload'')) (\<lambda>_.
     rbind (read_u32 data payload_end) (\<lambda>(stored_crc, pos).
     let actual_crc = crc32 E (take (payload_end - entry_start) (drop entry_start data)) in
     rbind (require (stored_crc = actual_crc) (Corrupt ''entry crc mismatch'')) (\<lambda>_.
     rbind (require (\<not> (kind = KIND_TOMBSTONE \<and> payload_len \<noteq> 0))
             (Corrupt ''tombstone with payload'')) (\<lambda>_.
     Inr (\<lparr>er_version = version, er_table = table, er_id = rid,
            er_tombstone = (kind = KIND_TOMBSTONE), er_payload_offset = payload_start,
            er_payload_len = payload_len\<rparr>, pos))))))))))))"

definition validate_short_str :: "bytes \<Rightarrow> nat \<Rightarrow> nat result" where
  "validate_short_str data pos =
     rbind (read_u16 data pos) (\<lambda>(len, pos).
     rbind (ok_or (Corrupt ''unexpected end of data'')
             (opt_filter (\<lambda>end_pos. end_pos \<le> length data) (checked_add pos (unat len)))) (\<lambda>end_pos.
     rbind (ok_or (Corrupt ''invalid utf8'')
             (from_utf8 (take (end_pos - pos) (drop pos data)))) (\<lambda>_.
     Inr end_pos)))"

definition validate_entry :: "'j ext \<Rightarrow> bytes \<Rightarrow> nat \<Rightarrow> nat result" where
  "validate_entry E data entry_start =
     rbind (read_u8 data entry_start) (\<lambda>(kind, pos).
     rbind (require (kind = KIND_PUT \<or> kind = KIND_TOMBSTONE)
             (Corrupt (''unknown entry kind '' @ show_nat (unat kind)))) (\<lambda>_.
     rbind (read_u64 data pos) (\<lambda>(_, pos).
     rbind (validate_short_str data pos) (\<lambda>pos.
     rbind (validate_short_str data pos) (\<lambda>pos.
     rbind (read_u32 data pos) (\<lambda>(payload_len, pos).
     rbind (ok_or (Corrupt ''truncated payload'')
             (opt_filter (\<lambda>end_pos. end_pos \<le> length data) (checked_add pos (unat payload_len)))) (\<lambda>payload_end.
     rbind (read_u32 data payload_end) (\<lambda>(stored_crc, pos).
     rbind (require (stored_crc = crc32 E (take (payload_end - entry_start) (drop entry_start data)))
             (Corrupt ''entry crc mismatch'')) (\<lambda>_.
     rbind (require (\<not> (kind = KIND_TOMBSTONE \<and> payload_len \<noteq> 0))
             (Corrupt ''tombstone with payload'')) (\<lambda>_.
     Inr pos))))))))))"

lemma read_short_str_bounds:
  "read_short_str data pos = Inr (s, pos') \<Longrightarrow> pos' = pos + 2 + length s \<and> pos' \<le> length data"
  by (auto simp: read_short_str_def result_dests
      dest!: read_bounds checked_add_Some get_range_length from_utf8_Some)

lemma parse_entry_bounds:
  "parse_entry E data pos = Inr (e, pos') \<Longrightarrow> pos < pos' \<and> pos' \<le> length data"
  by (auto simp: parse_entry_def result_dests Let_def dest!: read_bounds read_short_str_bounds
      checked_add_Some)

text \<open>Validating is parsing without building the entry.\<close>

lemma validate_short_str_iff:
  "validate_short_str data pos = Inr p \<longleftrightarrow> (\<exists>s. read_short_str data pos = Inr (s, p))"
  by (auto simp: validate_short_str_def read_short_str_def result_dests get_range_def
      split: if_splits dest: checked_add_Some; fastforce dest: checked_add_Some)

lemma validate_entry_iff:
  "validate_entry E data pos = Inr p \<longleftrightarrow> (\<exists>e. parse_entry E data pos = Inr (e, p))"
  by (fastforce simp: validate_entry_def parse_entry_def result_dests Let_def validate_short_str_iff
      split: option.splits if_splits)

section \<open>Scans\<close>

record scan_outcome =
  valid_len :: nat
  clean :: bool

text \<open>The three scans are one loop: the collecting scan pushes each entry, the visiting scan
  hands it to a callback that threads the caller's state and may fail, the validating scan
  builds nothing.\<close>

function scan_segment_from :: "'j ext \<Rightarrow> bytes \<Rightarrow> nat \<Rightarrow> entry_ref list \<times> scan_outcome" where
  "scan_segment_from E data pos =
     (if length data \<le> pos then ([], \<lparr>valid_len = pos, clean = True\<rparr>)
      else case parse_entry E data pos of
             Inr (entry, pos') \<Rightarrow>
               (case scan_segment_from E data pos' of (out, oc) \<Rightarrow> (entry # out, oc))
           | Inl _ \<Rightarrow> ([], \<lparr>valid_len = pos, clean = False\<rparr>))"
  by pat_completeness auto
termination
  by (relation "measure (\<lambda>(E, data, pos). length data - pos)") (auto dest!: parse_entry_bounds)

declare scan_segment_from.simps [simp del]

definition scan_segment :: "'j ext \<Rightarrow> bytes \<Rightarrow> entry_ref list \<times> scan_outcome" where
  "scan_segment E data = scan_segment_from E data 0"

function visit_segment_from ::
    "'j ext \<Rightarrow> (entry_ref \<Rightarrow> 's \<Rightarrow> 's result) \<Rightarrow> bytes \<Rightarrow> nat \<Rightarrow> 's \<Rightarrow> ('s \<times> scan_outcome) result" where
  "visit_segment_from E visit data pos s =
     (if length data \<le> pos then Inr (s, \<lparr>valid_len = pos, clean = True\<rparr>)
      else case parse_entry E data pos of
             Inr (entry, pos') \<Rightarrow>
               (case visit entry s of
                  Inr s' \<Rightarrow> visit_segment_from E visit data pos' s'
                | Inl e \<Rightarrow> Inl e)
           | Inl _ \<Rightarrow> Inr (s, \<lparr>valid_len = pos, clean = False\<rparr>))"
  by pat_completeness auto
termination
  by (relation "measure (\<lambda>(E, visit, data, pos, s). length data - pos)")
    (auto dest!: parse_entry_bounds)

declare visit_segment_from.simps [simp del]

definition visit_segment ::
    "'j ext \<Rightarrow> (entry_ref \<Rightarrow> 's \<Rightarrow> 's result) \<Rightarrow> bytes \<Rightarrow> 's \<Rightarrow> ('s \<times> scan_outcome) result" where
  "visit_segment E visit data s = visit_segment_from E visit data 0 s"

lemma validate_entry_bounds:
  "validate_entry E data pos = Inr pos' \<Longrightarrow> pos < pos' \<and> pos' \<le> length data"
  by (auto simp: validate_entry_iff dest: parse_entry_bounds)

function validate_segment_from :: "'j ext \<Rightarrow> bytes \<Rightarrow> nat \<Rightarrow> scan_outcome" where
  "validate_segment_from E data pos =
     (if length data \<le> pos then \<lparr>valid_len = pos, clean = True\<rparr>
      else case validate_entry E data pos of
             Inr pos' \<Rightarrow> validate_segment_from E data pos'
           | Inl _ \<Rightarrow> \<lparr>valid_len = pos, clean = False\<rparr>)"
  by pat_completeness auto
termination
  by (relation "measure (\<lambda>(E, data, pos). length data - pos)") (auto dest!: validate_entry_bounds)

declare validate_segment_from.simps [simp del]

definition validate_segment :: "'j ext \<Rightarrow> bytes \<Rightarrow> scan_outcome" where
  "validate_segment E data = validate_segment_from E data 0"

section \<open>The entry format as a frame format\<close>

text \<open>What a writer hands to \<open>encode_entry_into\<close>, and the limits under which it is accepted.\<close>

record entry =
  en_version :: u64
  en_table :: string
  en_id :: string
  en_payload :: "bytes option"

definition wf_entry :: "entry \<Rightarrow> bool" where
  "wf_entry e \<longleftrightarrow> rust_str (en_table e) \<and> rust_str (en_id e)
     \<and> fits_u16 (length (en_table e)) \<and> fits_u16 (length (en_id e))
     \<and> (case en_payload e of Some p \<Rightarrow> fits_u32 (length p) | None \<Rightarrow> True)"

definition entry_payload_offset :: "entry \<Rightarrow> nat" where
  "entry_payload_offset e = 17 + length (en_table e) + length (en_id e)"

definition entry_bytes :: "'j ext \<Rightarrow> entry \<Rightarrow> bytes" where
  "entry_bytes E e =
     (case encode_entry_into E (en_version e) (en_table e) (en_id e) (en_payload e) of
        Inr (buf, _) \<Rightarrow> buf | Inl _ \<Rightarrow> [])"

definition entry_view :: "nat \<Rightarrow> entry \<Rightarrow> entry_ref" where
  "entry_view pos e =
     \<lparr>er_version = en_version e, er_table = en_table e, er_id = en_id e,
      er_tombstone = (en_payload e = None),
      er_payload_offset = pos + entry_payload_offset e,
      er_payload_len = (case en_payload e of Some p \<Rightarrow> of_nat (length p) | None \<Rightarrow> 0)\<rparr>"

lemma encode_entry_ok:
  assumes "wf_entry e"
  shows "encode_entry_into E (en_version e) (en_table e) (en_id e) (en_payload e) =
    Inr (entry_bytes E e, entry_payload_offset e)"
  using assms
  by (auto simp: entry_bytes_def wf_entry_def encode_entry_into_def entry_payload_offset_def Let_def
      require_def fits_u32_def split: option.splits)

definition entry_data :: "entry \<Rightarrow> bytes" where
  "entry_data e = (case en_payload e of Some p \<Rightarrow> p | None \<Rightarrow> [])"

definition entry_head :: "entry \<Rightarrow> bytes" where
  "entry_head e = (if en_payload e = None then KIND_TOMBSTONE else KIND_PUT)
     # to_le_bytes (en_version e)
     @ to_le_bytes (of_nat (length (en_table e)) :: u16) @ as_bytes (en_table e)
     @ to_le_bytes (of_nat (length (en_id e)) :: u16) @ as_bytes (en_id e)
     @ to_le_bytes (of_nat (length (entry_data e)) :: u32)"

lemma length_entry_head: "length (entry_head e) = entry_payload_offset e"
  by (simp add: entry_head_def entry_payload_offset_def)

lemma wf_entry_fits:
  assumes "wf_entry e"
  shows "rust_str (en_table e)" "rust_str (en_id e)" "fits_u16 (length (en_table e))"
    "fits_u16 (length (en_id e))" "fits_u32 (length (entry_data e))"
  using assms by (auto simp: wf_entry_def entry_data_def fits_u32_def split: option.splits)

lemma entry_bytes_eq:
  assumes "wf_entry e"
  shows "entry_bytes E e =
    entry_head e @ entry_data e @ to_le_bytes (crc32 E (entry_head e @ entry_data e))"
  using wf_entry_fits [OF assms]
  by (simp add: entry_bytes_def encode_entry_into_def Let_def entry_head_def entry_data_def)

lemma read_short_str_at [cursor_rules]:
  assumes at: "cursor_at buf pos (to_le_bytes (of_nat (length s) :: u16) @ as_bytes s @ rest)"
    and "fits_u16 (length s)" "rust_str s"
  shows "read_short_str buf pos = Inr (s, pos + 2 + length s)"
proof -
  note at' = cursor_at_u16 [OF at]
  show ?thesis
    using assms cursor_at_checked_add [OF at'] cursor_at_range [OF at']
    by (simp add: read_short_str_def read_u16_at unat_of_nat_u16 from_utf8_as_bytes)
qed

lemma read_short_str_extend:
  "read_short_str data pos = Inr r \<Longrightarrow> read_short_str (data @ ext) pos = Inr r"
  by (auto simp: read_short_str_def result_dests read_extends)

lemma parse_entry_extend:
  assumes "parse_entry E data pos = Inr r"
  shows "parse_entry E (data @ ext) pos = Inr r"
  using assms
  by (auto simp: parse_entry_def result_dests Let_def read_extends read_short_str_extend)

lemma parse_entry_at:
  assumes wf: "wf_entry e" and at: "cursor_at buf pos (entry_bytes E e @ rest)"
  shows "parse_entry E buf pos = Inr (entry_view pos e, pos + length (entry_bytes E e))"
proof -
  note fits = wf_entry_fits [OF wf]
  let ?p = "entry_data e"
  have at0: "cursor_at buf pos (entry_head e @ ?p @ to_le_bytes (crc32 E (entry_head e @ ?p)) @ rest)"
    using at unfolding entry_bytes_eq [OF wf] by simp
  note at0' = at0 [unfolded entry_head_def append_Cons append_assoc]
  note at1 = cursor_at_Cons [OF at0']
  note at2 = cursor_at_u64 [OF at1]
  note at3 = cursor_at_append [OF cursor_at_u16 [OF at2]]
  note at4 = cursor_at_append [OF cursor_at_u16 [OF at3]]
  note at5 = cursor_at_u32 [OF at4]
  note at6 = cursor_at_append [OF at5]
  have crc: "take (length (entry_head e @ ?p)) (drop pos buf) = entry_head e @ ?p"
    by (rule cursor_at_take [where rest = "to_le_bytes (crc32 E (entry_head e @ ?p)) @ rest"])
      (use at0 in simp)
  note reads = read_u8_at [OF at0'] read_u64_at [OF at1]
    read_short_str_at [OF at2 fits(3,1)] read_short_str_at [OF at3 [unfolded length_as_bytes] fits(4,2)]
    read_u32_at [OF at4] read_u32_at [OF at6]
  have view: "entry_view pos e = \<lparr>er_version = en_version e, er_table = en_table e, er_id = en_id e,
      er_tombstone = (en_payload e = None), er_payload_offset = pos + entry_payload_offset e,
      er_payload_len = of_nat (length ?p)\<rparr>"
    by (simp add: entry_view_def entry_data_def split: option.split)
  show ?thesis
    using cursor_at_length [OF at6] cursor_at_checked_add [OF at5] crc
    by (cases "en_payload e"; simp add: parse_entry_def reads [simplified] entry_bytes_eq [OF wf]
        unat_of_nat_u32 [OF fits(5)] view entry_payload_offset_def entry_head_def)
      (simp add: entry_data_def)
qed

lemma entry_payload_located:
  assumes "wf_entry e"
  shows "get_range (pre @ entry_bytes E e @ post) (er_payload_offset (entry_view (length pre) e))
      (er_payload_offset (entry_view (length pre) e) + unat (er_payload_len (entry_view (length pre) e))) =
    Some (case en_payload e of Some p \<Rightarrow> p | None \<Rightarrow> [])"
proof -
  have "unat (er_payload_len (entry_view (length pre) e)) = length (entry_data e)"
    using wf_entry_fits(5) [OF assms] unat_of_nat_u32
    by (auto simp: entry_view_def entry_data_def split: option.splits)
  then show ?thesis
    by (simp add: entry_bytes_eq [OF assms] get_range_def entry_view_def flip: length_entry_head entry_data_def)
qed

section \<open>Segments as logs of entries\<close>

interpretation segment_log: frame_log
  "entry_bytes E" "parse_entry E" wf_entry entry_view
  "\<lambda>buf pos. case scan_segment_from E buf pos of (out, oc) \<Rightarrow> (out, valid_len oc, clean oc)"
  for E :: "'j ext"
proof unfold_locales
  fix buf pos
  show "(case scan_segment_from E buf pos of (out, oc) \<Rightarrow> (out, valid_len oc, clean oc)) =
    (if length buf \<le> pos then ([], pos, True)
     else case parse_entry E buf pos of
            Inl _ \<Rightarrow> ([], pos, False)
          | Inr (x, pos') \<Rightarrow>
              (case case scan_segment_from E buf pos' of (out, oc) \<Rightarrow> (out, valid_len oc, clean oc) of
                 (xs, valid, cl) \<Rightarrow> (x # xs, valid, cl)))"
    by (subst scan_segment_from.simps) (simp split: sum.split prod.split)
qed (blast intro: parse_entry_at parse_entry_extend dest: parse_entry_bounds)+

text \<open>The visiting scan is the collecting scan followed by the visitor on each entry.\<close>

fun visit_all :: "('a \<Rightarrow> 's \<Rightarrow> 's result) \<Rightarrow> 'a list \<Rightarrow> 's \<Rightarrow> 's result" where
  "visit_all visit [] s = Inr s"
| "visit_all visit (x # xs) s = rbind (visit x s) (visit_all visit xs)"

lemma visit_segment_from_eq:
  "visit_segment_from E visit data pos s =
     rbind (visit_all visit (fst (scan_segment_from E data pos)) s) (\<lambda>s.
     Inr (s, snd (scan_segment_from E data pos)))"
proof (induction E visit data pos s rule: visit_segment_from.induct)
  case (1 E visit data pos s)
  then show ?case
    by (subst visit_segment_from.simps, subst (1 2) scan_segment_from.simps)
      (auto split: sum.split prod.split)
qed

lemma validate_segment_from_eq:
  "validate_segment_from E data pos = snd (scan_segment_from E data pos)"
proof (induction E data pos rule: validate_segment_from.induct)
  case (1 E data pos)
  show ?case
  proof (cases "parse_entry E data pos")
    case (Inl e)
    then have "\<exists>e. validate_entry E data pos = Inl e"
      by (metis Inr_not_Inl obj_sumE validate_entry_iff)
    with Inl show ?thesis
      by (subst validate_segment_from.simps, subst scan_segment_from.simps) auto
  next
    case (Inr r)
    then obtain e p where r: "parse_entry E data pos = Inr (e, p)" by (cases r) auto
    then have "validate_entry E data pos = Inr p" by (auto simp: validate_entry_iff)
    with 1 r show ?thesis
      by (subst validate_segment_from.simps, subst scan_segment_from.simps)
        (auto split: prod.split)
  qed
qed

section \<open>Properties\<close>

text \<open>A segment written entry by entry with \<open>encode_entry_into\<close> and then cut anywhere inside
  its last entry, as a crash leaves it, is scanned back to exactly the entries written before
  the torn one, each with its version, table, id, tombstone flag and payload location; the
  reported valid length is where the torn entry starts and the scan is not clean.\<close>

theorem segment_scan_torn:
  assumes "list_all wf_entry es" and "wf_entry e"
    and "length (concat (map (entry_bytes E) es)) + length (entry_bytes E e) < usize_limit"
    and "0 < k" and "k < length (entry_bytes E e)"
  shows "scan_segment E (concat (map (entry_bytes E) es) @ take k (entry_bytes E e)) =
    (placed entry_view (entry_bytes E) 0 es,
     \<lparr>valid_len = length (concat (map (entry_bytes E) es)), clean = False\<rparr>)"
  using segment_log.scan_torn [OF assms]
  by (auto simp: scan_segment_def split: prod.splits)

theorem segment_scan_torn_witness:
  "let e1 = \<lparr>en_version = 7, en_table = ''t'', en_id = ''a'', en_payload = Some [1, 2]\<rparr>;
       e2 = \<lparr>en_version = 8, en_table = ''t'', en_id = ''b'', en_payload = None\<rparr> in
   scan_segment sample_ext (entry_bytes sample_ext e1 @ take 5 (entry_bytes sample_ext e2)) =
     ([entry_view 0 e1], \<lparr>valid_len = 25, clean = False\<rparr>)"
  using segment_scan_torn [of "[\<lparr>en_version = 7, en_table = ''t'', en_id = ''a'', en_payload = Some [1, 2]\<rparr>]"
      "\<lparr>en_version = 8, en_table = ''t'', en_id = ''b'', en_payload = None\<rparr>" sample_ext 5]
  by (simp add: wf_entry_def entry_bytes_def encode_entry_into_def Let_def usize_limit_def
      fits_u16_def fits_u32_def)

text \<open>A segment of complete entries scans clean to its end and yields every entry; and the
  payload of the \<open>i\<close>-th entry stands in the file at the offset and with the length that its
  reference carries (the empty payload for a tombstone).\<close>

theorem segment_scan_complete:
  assumes "list_all wf_entry es" and "length (concat (map (entry_bytes E) es)) < usize_limit"
    and "i < length es"
  shows "scan_segment E (concat (map (entry_bytes E) es)) =
      (placed entry_view (entry_bytes E) 0 es,
       \<lparr>valid_len = length (concat (map (entry_bytes E) es)), clean = True\<rparr>) \<and>
    (let r = placed entry_view (entry_bytes E) 0 es ! i in
     get_range (concat (map (entry_bytes E) es)) (er_payload_offset r)
       (er_payload_offset r + unat (er_payload_len r)) =
     Some (case en_payload (es ! i) of Some p \<Rightarrow> p | None \<Rightarrow> []))"
proof -
  have scan: "scan_segment E (concat (map (entry_bytes E) es)) =
      (placed entry_view (entry_bytes E) 0 es,
       \<lparr>valid_len = length (concat (map (entry_bytes E) es)), clean = True\<rparr>)"
    using segment_log.scan_complete [OF assms(1,2)]
    by (auto simp: scan_segment_def split: prod.splits)
  have "wf_entry (es ! i)" using assms(1,3) by (simp add: list_all_length)
  moreover have "concat (map (entry_bytes E) es) =
      concat (map (entry_bytes E) (take i es)) @ entry_bytes E (es ! i)
        @ concat (map (entry_bytes E) (drop (Suc i) es))"
    using assms(3) by (metis concat_append id_take_nth_drop list.simps(9) map_append concat.simps(2))
  ultimately show ?thesis
    using scan assms(3) entry_payload_located by (simp add: placed_nth Let_def)
qed

theorem segment_scan_complete_witness:
  "let es = [\<lparr>en_version = 7, en_table = ''t'', en_id = ''a'', en_payload = Some [1, 2]\<rparr>,
             \<lparr>en_version = 8, en_table = ''t'', en_id = ''a'', en_payload = None\<rparr>];
       data = concat (map (entry_bytes sample_ext) es) in
   scan_segment sample_ext data =
     (placed entry_view (entry_bytes sample_ext) 0 es, \<lparr>valid_len = 48, clean = True\<rparr>)
   \<and> get_range data 19 21 = Some [1, 2]"
  using segment_scan_complete [of "[\<lparr>en_version = 7, en_table = ''t'', en_id = ''a'', en_payload = Some [1, 2]\<rparr>,
             \<lparr>en_version = 8, en_table = ''t'', en_id = ''a'', en_payload = None\<rparr>]" sample_ext 0]
  by (simp add: wf_entry_def entry_bytes_def encode_entry_into_def Let_def usize_limit_def
      fits_u16_def fits_u32_def entry_view_def entry_payload_offset_def)

text \<open>Validating a segment without building its entries, and visiting it entry by entry,
  report exactly what the collecting scan reports, on every byte sequence: the optimised
  paths accept the same prefix.\<close>

theorem segment_scans_agree:
  "validate_segment E data = snd (scan_segment E data) \<and>
   visit_segment E visit data s =
     rbind (visit_all visit (fst (scan_segment E data)) s) (\<lambda>s. Inr (s, validate_segment E data))"
  by (simp add: validate_segment_def scan_segment_def visit_segment_def validate_segment_from_eq
      visit_segment_from_eq)

end
