(* ===== verification/Wal.thy ===== *)
theory Wal
  imports Segment
begin

text \<open>
  The write-ahead log (\<open>wal.rs\<close>): the commit record format, its parser, the version patch that
  the commit path applies under its lock, the scan that recovery runs over one file, and the
  preflight of the whole chain of files before an open changes anything.

  A commit record holds the data changes of one transaction and, as puts into a reserved
  pseudo-table, the identity high-water marks it published.
\<close>

section \<open>Commit records\<close>

definition IDENTITY_META_TABLE :: string where
  "IDENTITY_META_TABLE = CHR 0x00 # ''elitesql_identity''"

record wal_change =
  wc_table :: string
  wc_id :: string
  wc_payload :: "bytes option"

record wal_record =
  wr_version :: u64
  wr_changes :: "wal_change list"
  wr_identity :: "(string \<times> i64) list"

definition encode_change :: "wal_change \<Rightarrow> bytes result" where
  "encode_change c =
     (let kind = (if wc_payload c \<noteq> None then KIND_PUT else KIND_TOMBSTONE) in
      rbind (require (fits_u16 (length (wc_table c)))
              (InvalidArgument ''table name exceeds the 65535-byte storage limit'')) (\<lambda>_.
      rbind (require (fits_u16 (length (wc_id c)))
              (InvalidArgument ''record id exceeds the 65535-byte storage limit'')) (\<lambda>_.
      let p = (case wc_payload c of Some p \<Rightarrow> p | None \<Rightarrow> []) in
      rbind (require (fits_u32 (length p))
              (InvalidArgument ''WAL payload exceeds the 4-GiB storage limit'')) (\<lambda>_.
      Inr (kind # to_le_bytes (of_nat (length (wc_table c)) :: u16) @ as_bytes (wc_table c)
           @ to_le_bytes (of_nat (length (wc_id c)) :: u16) @ as_bytes (wc_id c)
           @ to_le_bytes (of_nat (length p) :: u32) @ p)))))"

definition encode_identity :: "string \<times> i64 \<Rightarrow> bytes result" where
  "encode_identity iv =
     (case iv of (table, val) \<Rightarrow>
      rbind (require (fits_u16 (length table))
              (InvalidArgument ''table name exceeds the 65535-byte storage limit'')) (\<lambda>_.
      Inr (KIND_PUT # to_le_bytes (of_nat (length IDENTITY_META_TABLE) :: u16)
           @ as_bytes IDENTITY_META_TABLE
           @ to_le_bytes (of_nat (length table) :: u16) @ as_bytes table
           @ to_le_bytes (8 :: u32) @ to_le_bytes val)))"

fun encode_each :: "('a \<Rightarrow> bytes result) \<Rightarrow> 'a list \<Rightarrow> bytes result" where
  "encode_each enc [] = Inr []"
| "encode_each enc (x # xs) =
     rbind (enc x) (\<lambda>b. rbind (encode_each enc xs) (\<lambda>bs. Inr (b @ bs)))"

definition encode_commit ::
    "'j ext \<Rightarrow> u64 \<Rightarrow> wal_change list \<Rightarrow> (string \<times> i64) list \<Rightarrow> bytes result" where
  "encode_commit E version changes identity_high_water =
     rbind (ok_or (InvalidArgument ''WAL change count overflow'')
             (checked_add (length changes) (length identity_high_water))) (\<lambda>count.
     rbind (require (fits_u32 count)
             (InvalidArgument ''WAL has more than u32::MAX changes'')) (\<lambda>_.
     rbind (encode_each encode_change changes) (\<lambda>cs.
     rbind (encode_each encode_identity identity_high_water) (\<lambda>ids.
     let buf = to_le_bytes version @ to_le_bytes (of_nat count :: u32) @ cs @ ids
     in Inr (buf @ to_le_bytes (crc32 E buf))))))"

text \<open>\<open>set_encoded_commit_version\<close> asserts that the record has a header and a checksum; the
  failed assertion is \<open>None\<close>.\<close>

definition set_encoded_commit_version :: "'j ext \<Rightarrow> bytes \<Rightarrow> u64 \<Rightarrow> bytes option" where
  "set_encoded_commit_version E rec version =
     (if length rec < 12 then None
      else
        let rec = to_le_bytes version @ drop 8 rec;
            crc_offset = length rec - 4;
            crc = crc32 E (take crc_offset rec)
        in Some (take crc_offset rec @ to_le_bytes crc))"

section \<open>Parsing\<close>

datatype wal_parse_error = Incomplete | WalCorrupt string

definition wal_read_short_str :: "bytes \<Rightarrow> nat \<Rightarrow> wal_parse_error + (string \<times> nat)" where
  "wal_read_short_str data pos =
     rbind (map_err (\<lambda>_. Incomplete) (read_u16 data pos)) (\<lambda>(len, pos).
     rbind (ok_or (WalCorrupt ''wal: length overflow'') (checked_add pos (unat len))) (\<lambda>end_pos.
     rbind (ok_or Incomplete (get_range data pos end_pos)) (\<lambda>slice.
     rbind (ok_or (WalCorrupt ''wal: invalid utf8'') (from_utf8 slice)) (\<lambda>s.
     Inr (s, end_pos)))))"

text \<open>One turn of the loop over changes: a data change, or an identity mark.\<close>

datatype wal_item = Data wal_change | Mark "string \<times> i64"

definition parse_change :: "bytes \<Rightarrow> nat \<Rightarrow> wal_parse_error + (wal_item \<times> nat)" where
  "parse_change data pos =
     rbind (map_err (\<lambda>_. Incomplete) (read_u8 data pos)) (\<lambda>(kind, pos).
     rbind (require (kind = KIND_PUT \<or> kind = KIND_TOMBSTONE)
             (WalCorrupt (''wal: unknown change kind '' @ show_nat (unat kind)))) (\<lambda>_.
     rbind (wal_read_short_str data pos) (\<lambda>(table, pos).
     rbind (wal_read_short_str data pos) (\<lambda>(rid, pos).
     rbind (map_err (\<lambda>_. Incomplete) (read_u32 data pos)) (\<lambda>(payload_len, pos).
     rbind (ok_or (WalCorrupt ''wal: length overflow'')
             (checked_add pos (unat payload_len))) (\<lambda>end_pos.
     rbind (ok_or Incomplete (get_range data pos end_pos)) (\<lambda>payload_bytes.
     rbind (require (\<not> (kind = KIND_TOMBSTONE \<and> payload_len \<noteq> 0))
             (WalCorrupt ''wal: tombstone with payload'')) (\<lambda>_.
     if table = IDENTITY_META_TABLE then
       rbind (require (\<not> (kind \<noteq> KIND_PUT \<or> payload_len \<noteq> 8))
               (WalCorrupt ''wal: invalid identity metadata'')) (\<lambda>_.
       let val = (from_le_bytes payload_bytes :: i64) in
       rbind (require (\<not> sint val < 1) (WalCorrupt ''wal: invalid identity high-water'')) (\<lambda>_.
       Inr (Mark (rid, val), end_pos)))
     else
       Inr (Data \<lparr>wc_table = table, wc_id = rid,
                  wc_payload = (if kind = KIND_PUT then Some payload_bytes else None)\<rparr>,
            end_pos)))))))))"

fun item_changes :: "wal_item list \<Rightarrow> wal_change list" where
  "item_changes [] = []"
| "item_changes (Data c # items) = c # item_changes items"
| "item_changes (Mark _ # items) = item_changes items"

fun item_marks :: "wal_item list \<Rightarrow> (string \<times> i64) list" where
  "item_marks [] = []"
| "item_marks (Data _ # items) = item_marks items"
| "item_marks (Mark m # items) = m # item_marks items"

definition parse_record :: "'j ext \<Rightarrow> bytes \<Rightarrow> nat \<Rightarrow> wal_parse_error + (wal_record \<times> nat)" where
  "parse_record E data start =
     rbind (map_err (\<lambda>_. Incomplete) (read_u64 data start)) (\<lambda>(version, pos).
     rbind (map_err (\<lambda>_. Incomplete) (read_u32 data pos)) (\<lambda>(count, pos).
     rbind (require (\<not> unat count > length data) Incomplete) (\<lambda>_.
     rbind (repeat_read parse_change (unat count) data pos) (\<lambda>(items, crc_pos).
     rbind (map_err (\<lambda>_. Incomplete) (read_u32 data crc_pos)) (\<lambda>(stored_crc, pos).
     rbind (require (crc32 E (take (crc_pos - start) (drop start data)) = stored_crc)
             (WalCorrupt ''wal: record crc mismatch'')) (\<lambda>_.
     Inr (\<lparr>wr_version = version, wr_changes = item_changes items,
            wr_identity = item_marks items\<rparr>, pos)))))))"

section \<open>Scanning one file\<close>

lemma wal_read_short_str_bounds:
  "wal_read_short_str data pos = Inr (s, pos') \<Longrightarrow> pos' = pos + 2 + length s \<and> pos' \<le> length data"
  by (auto simp: wal_read_short_str_def result_dests
      dest!: read_bounds checked_add_Some get_range_length from_utf8_Some)

lemma parse_change_bounds:
  "parse_change data pos = Inr (x, pos') \<Longrightarrow> pos < pos' \<and> pos' \<le> length data"
  by (auto simp: parse_change_def result_dests Let_def dest!: read_bounds wal_read_short_str_bounds
      checked_add_Some get_range_length split: if_splits)

lemma parse_changes_bounds:
  "repeat_read parse_change n data pos = Inr (xs, pos') \<Longrightarrow> pos \<le> length data \<Longrightarrow>
    pos \<le> pos' \<and> pos' \<le> length data"
  by (rule repeat_read_bounds) (auto dest: parse_change_bounds)

lemma parse_record_bounds:
  "parse_record E data pos = Inr (r, pos') \<Longrightarrow> pos < pos' \<and> pos' \<le> length data"
  by (auto simp: parse_record_def result_dests dest!: read_bounds parse_changes_bounds)

record wal_scan =
  ws_records :: "wal_record list"
  ws_valid_len :: nat
  ws_clean :: bool
  ws_corruption :: "string option"

definition later_valid_record :: "'j ext \<Rightarrow> bytes \<Rightarrow> nat \<Rightarrow> u64 option \<Rightarrow> bool" where
  "later_valid_record E data start previous_version \<longleftrightarrow>
     list_ex (\<lambda>offset.
         case parse_record E data offset of
           Inr (r, _) \<Rightarrow> wr_version r > (case previous_version of Some v \<Rightarrow> v | None \<Rightarrow> 0)
         | Inl _ \<Rightarrow> False)
       [start + 1..<length data - 15]"

function scan_wal_from ::
    "'j ext \<Rightarrow> bytes \<Rightarrow> u64 option \<Rightarrow> nat \<Rightarrow> wal_scan" where
  "scan_wal_from E data previous_version start =
     (if length data \<le> start then
        \<lparr>ws_records = [], ws_valid_len = start, ws_clean = True, ws_corruption = None\<rparr>
      else case parse_record E data start of
        Inr (r, pos) \<Rightarrow>
          if (case previous_version of Some previous \<Rightarrow> wr_version r > previous | None \<Rightarrow> True) then
            let rest = scan_wal_from E data (Some (wr_version r)) pos
            in rest\<lparr>ws_records := r # ws_records rest\<rparr>
          else
            \<lparr>ws_records = [], ws_valid_len = start, ws_clean = False,
             ws_corruption = Some ''WAL versions are not strictly increasing''\<rparr>
      | Inl e \<Rightarrow>
          \<lparr>ws_records = [], ws_valid_len = start, ws_clean = False,
           ws_corruption =
             (if later_valid_record E data start previous_version then
                Some (case e of
                        Incomplete \<Rightarrow> ''incomplete record precedes a valid WAL record''
                      | WalCorrupt msg \<Rightarrow> msg)
              else None)\<rparr>)"
  by pat_completeness auto
termination
  by (relation "measure (\<lambda>(E, data, previous, pos). length data - pos)")
    (auto dest!: parse_record_bounds)

declare scan_wal_from.simps [simp del]

definition scan_wal :: "'j ext \<Rightarrow> bytes \<Rightarrow> wal_scan" where
  "scan_wal E data = scan_wal_from E data None 0"

section \<open>Preflight of the chain\<close>

text \<open>The \<open>wal\<close> directory is the list of its files with their contents, in the order the
  operating system reports them.\<close>

type_synonym wal_dir = "(string \<times> bytes) list"

definition wal_file_name :: "u32 \<Rightarrow> string" where
  "wal_file_name fid = pad_zero 6 (show_nat (unat fid)) @ ''.wal''"

definition wal_file_id :: "string \<Rightarrow> u32 option" where
  "wal_file_id name = Option.bind (strip_suffix ''.wal'' name) parse_u32"

definition u32_saturating_succ :: "u32 \<Rightarrow> u32" where
  "u32_saturating_succ n = (if n = - 1 then n else n + 1)"

definition u64_checked_succ :: "u64 \<Rightarrow> u64 option" where
  "u64_checked_succ n = (if n = - 1 then None else Some (n + 1))"

fun scan_chain :: "'j ext \<Rightarrow> wal_dir \<Rightarrow> u32 \<Rightarrow> u32 list \<Rightarrow> (u32 \<times> wal_scan) list result" where
  "scan_chain E dir expected_id [] = Inr []"
| "scan_chain E dir expected_id (fid # ids) =
     rbind (require (\<not> fid \<noteq> expected_id)
             (Corrupt (''required wal '' @ show_nat (unat expected_id) @ '' is missing before ''
               @ show_nat (unat fid)))) (\<lambda>_.
     rbind (ok_or (Io ''No such file or directory'') (map_of dir (wal_file_name fid))) (\<lambda>data.
     let scan = scan_wal E data in
     case ws_corruption scan of
       Some message \<Rightarrow>
         Inl (Corrupt (''wal '' @ show_nat (unat fid) @ '' at offset ''
           @ show_nat (ws_valid_len scan) @ '': '' @ message))
     | None \<Rightarrow>
         rbind (scan_chain E dir (u32_saturating_succ fid) ids) (\<lambda>scans.
         Inr ((fid, scan) # scans))))"

fun check_torn :: "(u32 \<times> wal_scan) list \<Rightarrow> unit result" where
  "check_torn [] = Inr ()"
| "check_torn ((fid, scan) # later) =
     (if \<not> ws_clean scan \<and> list_ex (\<lambda>(_, s). ws_records s \<noteq> []) later then
        Inl (Corrupt (''wal '' @ show_nat (unat fid)
          @ '': incomplete record before a successor WAL with commits''))
      else check_torn later)"

fun check_versions :: "u32 \<Rightarrow> u64 \<Rightarrow> wal_record list \<Rightarrow> u64 result" where
  "check_versions fid version [] = Inr version"
| "check_versions fid version (r # rs) =
     (if wr_version r \<le> version then check_versions fid version rs
      else if u64_checked_succ version \<noteq> Some (wr_version r) then
        Inl (Corrupt (''wal '' @ show_nat (unat fid) @ '': commit version gap after ''
          @ show_nat (unat version) @ '': '' @ show_nat (unat (wr_version r))))
      else check_versions fid (wr_version r) rs)"

fun check_chain_versions :: "u64 \<Rightarrow> (u32 \<times> wal_scan) list \<Rightarrow> u64 result" where
  "check_chain_versions version [] = Inr version"
| "check_chain_versions version ((fid, scan) # scans) =
     rbind (check_versions fid version (ws_records scan)) (\<lambda>version.
     check_chain_versions version scans)"

definition validate_wal_chain :: "'j ext \<Rightarrow> wal_dir \<Rightarrow> u32 \<Rightarrow> u32 \<Rightarrow> u64 \<Rightarrow> u32 list result" where
  "validate_wal_chain E dir anchor required watermark =
     (let ids = sort (filter (\<lambda>fid. anchor \<le> fid)
                  (List.map_filter (\<lambda>(name, _). wal_file_id name) dir)) in
      rbind (require (\<not> (ids = [] \<or> hd ids \<noteq> anchor \<or> last ids < max required anchor))
              (Corrupt (''required wal chain '' @ show_nat (unat anchor) @ ''..=''
                @ show_nat (unat (max required anchor)) @ '' is incomplete''))) (\<lambda>_.
      rbind (scan_chain E dir anchor ids) (\<lambda>scans.
      rbind (check_torn scans) (\<lambda>_.
      rbind (check_chain_versions watermark scans) (\<lambda>_.
      Inr ids)))))"

section \<open>The change and record formats as frame formats\<close>

fun item_bytes :: "wal_item \<Rightarrow> bytes" where
  "item_bytes (Data c) = (case encode_change c of Inr b \<Rightarrow> b | Inl _ \<Rightarrow> [])"
| "item_bytes (Mark m) = (case encode_identity m of Inr b \<Rightarrow> b | Inl _ \<Rightarrow> [])"

definition wf_change :: "wal_change \<Rightarrow> bool" where
  "wf_change c \<longleftrightarrow> rust_str (wc_table c) \<and> rust_str (wc_id c) \<and> wc_table c \<noteq> IDENTITY_META_TABLE
     \<and> fits_u16 (length (wc_table c)) \<and> fits_u16 (length (wc_id c))
     \<and> (case wc_payload c of Some p \<Rightarrow> fits_u32 (length p) | None \<Rightarrow> True)"

definition wf_mark :: "string \<times> i64 \<Rightarrow> bool" where
  "wf_mark m \<longleftrightarrow> rust_str (fst m) \<and> fits_u16 (length (fst m)) \<and> 1 \<le> sint (snd m)"

fun wf_item :: "wal_item \<Rightarrow> bool" where
  "wf_item (Data c) = wf_change c"
| "wf_item (Mark m) = wf_mark m"

lemma IDENTITY_META_TABLE_facts:
  "rust_str IDENTITY_META_TABLE" "length IDENTITY_META_TABLE = 18"
  "fits_u16 (length IDENTITY_META_TABLE)"
  by (simp_all add: IDENTITY_META_TABLE_def fits_u16_def)

text \<open>Every item is written as kind, two short strings and a length-prefixed payload.\<close>

definition raw_item :: "u8 \<Rightarrow> string \<Rightarrow> string \<Rightarrow> bytes \<Rightarrow> bytes" where
  "raw_item kind table rid p =
     kind # to_le_bytes (of_nat (length table) :: u16) @ as_bytes table
     @ to_le_bytes (of_nat (length rid) :: u16) @ as_bytes rid
     @ to_le_bytes (of_nat (length p) :: u32) @ p"

lemma item_bytes_raw:
  "wf_change c \<Longrightarrow> encode_change c = Inr (item_bytes (Data c))"
  "wf_change c \<Longrightarrow> item_bytes (Data c) =
     raw_item (if wc_payload c \<noteq> None then KIND_PUT else KIND_TOMBSTONE) (wc_table c) (wc_id c)
       (case wc_payload c of Some p \<Rightarrow> p | None \<Rightarrow> [])"
  "wf_mark m \<Longrightarrow> encode_identity m = Inr (item_bytes (Mark m))"
  "wf_mark m \<Longrightarrow> item_bytes (Mark m) =
     raw_item KIND_PUT IDENTITY_META_TABLE (fst m) (to_le_bytes (snd m))"
  by (auto simp: wf_change_def wf_mark_def encode_change_def encode_identity_def raw_item_def
      Let_def fits_u32_def split: prod.splits option.splits)

lemma wal_read_short_str_at [cursor_rules]:
  assumes at: "cursor_at buf pos (to_le_bytes (of_nat (length s) :: u16) @ as_bytes s @ rest)"
    and "fits_u16 (length s)" "rust_str s"
  shows "wal_read_short_str buf pos = Inr (s, pos + 2 + length s)"
proof -
  note at' = cursor_at_u16 [OF at]
  show ?thesis
    using assms cursor_at_checked_add [OF at'] cursor_at_range [OF at']
    by (simp add: wal_read_short_str_def read_u16_at unat_of_nat_u16 from_utf8_as_bytes map_err_def)
qed

lemma wal_read_short_str_extend:
  "wal_read_short_str data pos = Inr r \<Longrightarrow> wal_read_short_str (data @ ext) pos = Inr r"
  by (auto simp: wal_read_short_str_def result_dests read_extends)

lemma parse_change_extend:
  "parse_change data pos = Inr r \<Longrightarrow> parse_change (data @ ext) pos = Inr r"
  by (auto simp: parse_change_def result_dests Let_def read_extends wal_read_short_str_extend
      split: if_splits)

lemma parse_record_extend:
  assumes "parse_record E data pos = Inr r"
  shows "parse_record E (data @ ext) pos = Inr r"
  using assms
  by (fastforce simp: parse_record_def result_dests read_extends repeat_read_extend
      parse_change_extend dest: read_bounds parse_changes_bounds)

text \<open>The header of an item at the cursor.\<close>

lemma parse_raw_item:
  assumes at: "cursor_at buf pos (raw_item kind table rid p @ rest)"
    and kind: "kind = KIND_PUT \<or> kind = KIND_TOMBSTONE \<and> p = []"
    and strs: "rust_str table" "rust_str rid" "fits_u16 (length table)" "fits_u16 (length rid)"
    and fits: "fits_u32 (length p)"
    and mark: "table = IDENTITY_META_TABLE \<Longrightarrow>
      kind = KIND_PUT \<and> length p = 8 \<and> 1 \<le> sint (from_le_bytes p :: i64)"
  shows "parse_change buf pos =
    Inr (if table = IDENTITY_META_TABLE then Mark (rid, from_le_bytes p)
         else Data \<lparr>wc_table = table, wc_id = rid,
                    wc_payload = (if kind = KIND_PUT then Some p else None)\<rparr>,
         pos + length (raw_item kind table rid p))"
proof -
  note at0 = at [unfolded raw_item_def append_Cons append_assoc]
  note at1 = cursor_at_Cons [OF at0]
  note at2 = cursor_at_append [OF cursor_at_u16 [OF at1], unfolded length_as_bytes]
  note at3 = cursor_at_append [OF cursor_at_u16 [OF at2], unfolded length_as_bytes]
  note at4 = cursor_at_u32 [OF at3]
  note reads = read_u8_at [OF at0] wal_read_short_str_at [OF at1 strs(3,1)]
    wal_read_short_str_at [OF at2 strs(4,2)] read_u32_at [OF at3]
    cursor_at_checked_add [OF at4] cursor_at_range [OF at4]
  show ?thesis
  proof (cases "table = IDENTITY_META_TABLE")
    case True
    with mark have "kind = KIND_PUT" by simp
    then show ?thesis
      by (simp add: True parse_change_def reads [unfolded True, simplified] map_err_def Let_def
          unat_of_nat_u32 [OF fits] raw_item_def) (use mark [OF True] in simp)
  next
    case False
    with kind show ?thesis
      by (auto simp: parse_change_def reads [simplified] map_err_def Let_def raw_item_def
          unat_of_nat_u32 [OF fits])
  qed
qed

lemma parse_change_at:
  assumes "wf_item x" and "cursor_at buf pos (item_bytes x @ rest)"
  shows "parse_change buf pos = Inr (x, pos + length (item_bytes x))"
proof (cases x)
  case (Data c)
  with assms(1) have wf: "wf_change c" by simp
  let ?p = "case wc_payload c of Some p \<Rightarrow> p | None \<Rightarrow> []"
  have "fits_u32 (length ?p)"
    using wf by (auto simp: wf_change_def fits_u32_def split: option.split)
  with wf assms(2) show ?thesis
    unfolding Data item_bytes_raw(2) [OF wf]
    by (subst parse_raw_item) (auto simp: wf_change_def split: option.splits)
next
  case (Mark m)
  with assms(1) have wf: "wf_mark m" by simp
  with assms(2) show ?thesis
    unfolding Mark item_bytes_raw(4) [OF wf]
    by (subst parse_raw_item) (auto simp: wf_mark_def IDENTITY_META_TABLE_facts fits_u32_def fits_u16_def)
qed

interpretation change_frames: frame_codec item_bytes parse_change wf_item "\<lambda>_ x. x"
  by unfold_locales (blast intro: parse_change_at parse_change_extend dest: parse_change_bounds)+

definition record_items :: "wal_record \<Rightarrow> wal_item list" where
  "record_items r = map Data (wr_changes r) @ map Mark (wr_identity r)"

definition wf_record :: "wal_record \<Rightarrow> bool" where
  "wf_record r \<longleftrightarrow> list_all wf_change (wr_changes r) \<and> list_all wf_mark (wr_identity r)
     \<and> fits_u32 (length (wr_changes r) + length (wr_identity r))"

definition commit_bytes :: "'j ext \<Rightarrow> wal_record \<Rightarrow> bytes" where
  "commit_bytes E r =
     (case encode_commit E (wr_version r) (wr_changes r) (wr_identity r) of
        Inr b \<Rightarrow> b | Inl _ \<Rightarrow> [])"

lemma items_of_record [simp]:
  "item_changes (record_items r) = wr_changes r" "item_marks (record_items r) = wr_identity r"
proof -
  have "item_changes (map Data cs @ map Mark ms) = cs" "item_marks (map Data cs @ map Mark ms) = ms"
    for cs ms
    by (induction cs; induction ms; simp)+
  then show "item_changes (record_items r) = wr_changes r" "item_marks (record_items r) = wr_identity r"
    by (simp_all add: record_items_def)
qed

lemma encode_each_ok:
  "(\<And>x. x \<in> set xs \<Longrightarrow> enc x = Inr (g x)) \<Longrightarrow> encode_each enc xs = Inr (concat (map g xs))"
  by (induction xs) simp_all

lemma encode_commit_ok:
  assumes "wf_record r"
  shows "encode_commit E v (wr_changes r) (wr_identity r) =
    (let buf = to_le_bytes v @ to_le_bytes (of_nat (length (record_items r)) :: u32)
           @ concat (map item_bytes (record_items r))
     in Inr (buf @ to_le_bytes (crc32 E buf)))"
proof -
  have "encode_each encode_change (wr_changes r) = Inr (concat (map (item_bytes \<circ> Data) (wr_changes r)))"
    "encode_each encode_identity (wr_identity r) = Inr (concat (map (item_bytes \<circ> Mark) (wr_identity r)))"
    using assms by (auto intro!: encode_each_ok simp: wf_record_def list_all_iff item_bytes_raw(1,3)
        simp del: item_bytes.simps)
  moreover have "checked_add (length (wr_changes r)) (length (wr_identity r)) =
      Some (length (record_items r))"
    using assms by (simp add: wf_record_def fits_u32_def checked_add_def usize_limit_def record_items_def)
  ultimately show ?thesis
    using assms by (simp add: encode_commit_def wf_record_def record_items_def Let_def)
qed

text \<open>A committed record as one frame: header, items, checksum.\<close>

definition record_body :: "wal_record \<Rightarrow> bytes" where
  "record_body r = to_le_bytes (wr_version r) @ to_le_bytes (of_nat (length (record_items r)) :: u32)
     @ concat (map item_bytes (record_items r))"

lemma commit_bytes_eq:
  "wf_record r \<Longrightarrow> commit_bytes E r = record_body r @ to_le_bytes (crc32 E (record_body r))"
  by (simp add: commit_bytes_def encode_commit_ok record_body_def Let_def)

lemma wf_record_items: "wf_record r \<Longrightarrow> list_all wf_item (record_items r)"
  by (simp add: wf_record_def record_items_def list.pred_map o_def)

lemma length_items: "list_all wf_item xs \<Longrightarrow> length xs \<le> length (concat (map item_bytes xs))"
proof (induction xs)
  case (Cons x xs)
  then have "0 < length (item_bytes x)"
    by (cases x) (auto simp: item_bytes_raw raw_item_def simp del: item_bytes.simps)
  moreover have "length xs \<le> length (concat (map item_bytes xs))" using Cons by simp
  ultimately show ?case by (simp del: length_greater_0_conv)
qed simp

lemma parse_record_at:
  assumes wf: "wf_record r" and at: "cursor_at buf pos (commit_bytes E r @ rest)"
  shows "parse_record E buf pos = Inr (r, pos + length (commit_bytes E r))"
proof -
  let ?items = "concat (map item_bytes (record_items r))"
  have fits: "fits_u32 (length (record_items r))"
    using wf by (simp add: wf_record_def record_items_def)
  have at0: "cursor_at buf pos (record_body r @ to_le_bytes (crc32 E (record_body r)) @ rest)"
    using at by (simp add: commit_bytes_eq [OF wf])
  note at0' = at0 [unfolded record_body_def append_assoc, folded record_body_def]
  note at1 = cursor_at_u64 [OF at0']
  note at2 = cursor_at_u32 [OF at1]
  note at3 = cursor_at_append [OF at2]
  note items = change_frames.repeat_read_enc [OF wf_record_items [OF wf] at2]
  have "length (record_items r) \<le> length buf"
    using length_items [OF wf_record_items [OF wf]] cursor_at_length [OF at2] by simp
  moreover have "take (length (record_body r)) (drop pos buf) = record_body r"
    using at0 by (rule cursor_at_take)
  ultimately show ?thesis
    by (simp add: parse_record_def map_err_def read_u64_at [OF at0'] read_u32_at [OF at1, simplified]
        items [simplified] read_u32_at [OF at3, simplified] unat_of_nat_u32 [OF fits]
        commit_bytes_eq [OF wf] record_body_def)
qed

interpretation commit_frames: frame_codec
  "commit_bytes E" "parse_record E" wf_record "\<lambda>_ r. r"
  for E :: "'j ext"
  by unfold_locales (blast intro: parse_record_at parse_record_extend dest: parse_record_bounds)+

section \<open>What a scan of a log finds\<close>

fun increasing_from :: "u64 option \<Rightarrow> wal_record list \<Rightarrow> bool" where
  "increasing_from _ [] = True"
| "increasing_from prev (r # rs) =
     ((case prev of Some v \<Rightarrow> v < wr_version r | None \<Rightarrow> True) \<and> increasing_from (Some (wr_version r)) rs)"

fun last_version :: "u64 option \<Rightarrow> wal_record list \<Rightarrow> u64 option" where
  "last_version prev [] = prev"
| "last_version prev (r # rs) = last_version (Some (wr_version r)) rs"

lemma scan_wal_from_enc:
  assumes "list_all wf_record rs" and "increasing_from prev rs"
    and "cursor_at buf pos (concat (map (commit_bytes E) rs) @ rest)"
  shows "scan_wal_from E buf prev pos =
    (let later = scan_wal_from E buf (last_version prev rs) (pos + length (concat (map (commit_bytes E) rs)))
     in later\<lparr>ws_records := rs @ ws_records later\<rparr>)"
  using assms
proof (induction rs arbitrary: pos prev)
  case (Cons r rs)
  let ?enc = "commit_bytes E"
  from Cons.prems have at: "cursor_at buf pos (?enc r @ concat (map ?enc rs) @ rest)"
    and wf: "wf_record r" "list_all wf_record rs"
    by simp_all
  have "length (?enc r) < usize_limit"
    using cursor_at_limit [OF at] by simp
  then have "pos < length buf"
    using commit_frames.enc_nonempty [OF wf(1), of E] cursor_at_length [OF at] by simp
  moreover have "cursor_at buf (pos + length (?enc r)) (concat (map ?enc rs) @ rest)"
    using at by (rule cursor_at_append)
  ultimately show ?case
    using Cons.IH [OF wf(2)] Cons.prems(2) parse_record_at [OF wf(1) at]
    by (subst scan_wal_from.simps) (simp add: add.assoc Let_def)
qed simp

lemma scan_wal_from_end:
  "length data \<le> pos \<Longrightarrow> scan_wal_from E data prev pos =
     \<lparr>ws_records = [], ws_valid_len = pos, ws_clean = True, ws_corruption = None\<rparr>"
  by (subst scan_wal_from.simps) simp

lemma wal_torn_tail:
  assumes wf: "list_all wf_record rs" "increasing_from None rs" "wf_record r"
    and size: "length (concat (map (commit_bytes E) rs)) + length (commit_bytes E r) < usize_limit"
    and k: "0 < k" "k < length (commit_bytes E r)"
    and data: "data = concat (map (commit_bytes E) rs) @ take k (commit_bytes E r)"
  shows "ws_records (scan_wal E data) = rs"
    and "ws_valid_len (scan_wal E data) = length (concat (map (commit_bytes E) rs))"
    and "\<not> ws_clean (scan_wal E data)"
    and "ws_corruption (scan_wal E data) = None \<longleftrightarrow>
      \<not> later_valid_record E data (length (concat (map (commit_bytes E) rs))) (last_version None rs)"
proof -
  let ?pre = "concat (map (commit_bytes E) rs)"
  have "cursor_at data 0 (?pre @ take k (commit_bytes E r))"
    using size k unfolding data by (simp add: cursor_at_def)
  note found = scan_wal_from_enc [OF wf(1,2) this]
  obtain e where "parse_record E data (length ?pre) = Inl e"
    using commit_frames.torn_frame_fails [OF wf(3), of ?pre E k] size k unfolding data by auto
  then have "scan_wal_from E data (last_version None rs) (length ?pre) =
      \<lparr>ws_records = [], ws_valid_len = length ?pre, ws_clean = False,
       ws_corruption =
         (if later_valid_record E data (length ?pre) (last_version None rs) then
            Some (case e of Incomplete \<Rightarrow> ''incomplete record precedes a valid WAL record''
                  | WalCorrupt msg \<Rightarrow> msg)
          else None)\<rparr>"
    using k by (subst scan_wal_from.simps) (simp add: data)
  with found show "ws_records (scan_wal E data) = rs"
    and "ws_valid_len (scan_wal E data) = length ?pre"
    and "\<not> ws_clean (scan_wal E data)"
    and "ws_corruption (scan_wal E data) = None \<longleftrightarrow>
      \<not> later_valid_record E data (length ?pre) (last_version None rs)"
    by (simp_all add: scan_wal_def Let_def)
qed

text \<open>Every record a scan returns has a greater version than the one before it, whatever the
  bytes are.\<close>

lemma scan_wal_from_increasing: "increasing_from prev (ws_records (scan_wal_from E data prev pos))"
proof (induction E data prev pos rule: scan_wal_from.induct)
  case (1 E data prev pos)
  then show ?case
    by (subst scan_wal_from.simps) (auto simp: Let_def split: sum.split)
qed

section \<open>What the preflight establishes\<close>

text \<open>The records a replay from a watermark applies: those above the version reached so far.\<close>

fun applied :: "u64 \<Rightarrow> wal_record list \<Rightarrow> wal_record list" where
  "applied v [] = []"
| "applied v (r # rs) = (if wr_version r \<le> v then applied v rs else r # applied (wr_version r) rs)"

lemma wal_file_id_name [simp]: "wal_file_id (wal_file_name fid) = Some fid"
  using unat_bound [of fid] by (simp add: wal_file_id_def wal_file_name_def parse_u32_def parse_nat_pad_zero)

lemma unat_saturating_succ: "unat (u32_saturating_succ n) = min (Suc (unat n)) (2 ^ 32 - 1)"
  using unat_bound [of "n + 1"]
  by (cases "n = - 1") (auto simp: u32_saturating_succ_def unat_succ unat_minus_one)

lemma checked_succ_Some: "u64_checked_succ v = Some w \<Longrightarrow> unat w = Suc (unat v)"
  by (auto simp: u64_checked_succ_def unat_succ split: if_splits)

lemma scan_chain_sound:
  assumes "scan_chain E dir expected ids = Inr scans"
  shows "map fst scans = ids"
    and "i < length ids \<Longrightarrow> unat (ids ! i) = min (unat expected + i) (2 ^ 32 - 1)"
    and "(fid, scan) \<in> set scans \<Longrightarrow> \<exists>data. map_of dir (wal_file_name fid) = Some data
        \<and> scan = scan_wal E data \<and> ws_corruption scan = None"
  using assms
proof (induction ids arbitrary: expected scans i)
  case (Cons f ids)
  {
    case 1
    then show ?case using Cons.IH(1) by (auto simp: result_dests Let_def split: option.splits)
  next
    case 2
    then show ?case
    proof (cases i)
      case 0
      with 2 unat_bound [of expected] show ?thesis by (auto simp: result_dests)
    next
      case (Suc j)
      with 2 obtain scans' where "scan_chain E dir (u32_saturating_succ f) ids = Inr scans'"
        and "f = expected"
        by (auto simp: result_dests Let_def split: option.splits)
      with Cons.IH(2) [of j "u32_saturating_succ f" scans'] 2 Suc show ?thesis
        by (auto simp: unat_saturating_succ)
    qed
  next
    case 3
    then show ?case using Cons.IH(3) by (auto simp: result_dests Let_def split: option.splits)
  }
qed auto

lemma check_versions_le: "check_versions fid v rs = Inr w \<Longrightarrow> unat v \<le> unat w"
proof (induction rs arbitrary: v)
  case (Cons r rs)
  show ?case
  proof (cases "wr_version r \<le> v")
    case False
    with Cons.prems have "unat (wr_version r) = Suc (unat v)" "check_versions fid (wr_version r) rs = Inr w"
      by (auto split: if_splits dest: checked_succ_Some)
    with Cons.IH show ?thesis by fastforce
  qed (use Cons in simp)
qed simp

lemma check_versions_applied:
  "check_versions fid v rs = Inr w \<Longrightarrow>
     map (\<lambda>r. unat (wr_version r)) (applied v rs) = [Suc (unat v)..<Suc (unat w)]"
proof (induction rs arbitrary: v)
  case (Cons r rs)
  show ?case
  proof (cases "wr_version r \<le> v")
    case False
    with Cons.prems have succ: "unat (wr_version r) = Suc (unat v)"
      and rest: "check_versions fid (wr_version r) rs = Inr w"
      by (auto split: if_splits dest: checked_succ_Some)
    from check_versions_le [OF rest] show ?thesis
      by (simp add: False Cons.IH [OF rest] succ upt_conv_Cons del: upt_Suc)
  qed (use Cons in simp)
qed simp

lemma check_versions_append:
  "check_versions fid v rs = Inr w \<Longrightarrow> applied v (rs @ rs') = applied v rs @ applied w rs'"
  by (induction rs arbitrary: v) (auto split: if_splits)

lemma check_chain_versions_sound:
  assumes "check_chain_versions v scans = Inr w"
  shows "map (\<lambda>r. unat (wr_version r)) (applied v (concat (map (ws_records \<circ> snd) scans))) =
      [Suc (unat v)..<Suc (unat w)] \<and> unat v \<le> unat w"
  using assms
proof (induction scans arbitrary: v)
  case (Cons s scans)
  obtain fid scan where s: "s = (fid, scan)" by force
  with Cons.prems obtain u where here: "check_versions fid v (ws_records scan) = Inr u"
    and later: "check_chain_versions u scans = Inr w"
    by (auto simp: result_dests)
  have "[Suc (unat v)..<Suc (unat w)] = [Suc (unat v)..<Suc (unat u)] @ [Suc (unat u)..<Suc (unat w)]"
    using check_versions_le [OF here] Cons.IH [OF later]
    by (metis Suc_le_mono le_add_diff_inverse upt_add_eq_append)
  with check_versions_le [OF here] Cons.IH [OF later] show ?case
    by (simp add: s check_versions_append [OF here] check_versions_applied [OF here] del: upt_Suc)
qed auto

lemma check_torn_sound:
  "check_torn scans = Inr u \<Longrightarrow>
     sorted_wrt (\<lambda>s later. \<not> ws_clean (snd s) \<longrightarrow> ws_records (snd later) = []) scans"
  by (induction scans rule: check_torn.induct) (auto simp: list_ex_iff split: if_splits)

text \<open>A complete record inside the torn bytes is what the scan looks for behind the failure.\<close>

lemma later_valid_record_embedded:
  assumes wf: "wf_record inner" and size: "length data < usize_limit"
    and data: "data = pre @ commit_bytes E inner @ post" and start: "start < length pre"
    and newer: "(case prev of Some v \<Rightarrow> v | None \<Rightarrow> 0) < wr_version inner"
  shows "later_valid_record E data start prev"
proof -
  have "cursor_at data (length pre) (commit_bytes E inner @ post)"
    using size unfolding data by (rule cursor_at_concat)
  from parse_record_at [OF wf this] have "parse_record E data (length pre) =
      Inr (inner, length pre + length (commit_bytes E inner))" .
  moreover have "16 \<le> length (commit_bytes E inner)"
    by (simp add: commit_bytes_eq [OF wf] record_body_def)
  ultimately show ?thesis
    using start newer unfolding later_valid_record_def list_ex_iff
    by (intro bexI [of _ "length pre"]) (auto simp: data)
qed

lemma commit_bytes_single:
  assumes "wf_record r" and "wr_changes r = [\<lparr>wc_table = t, wc_id = i, wc_payload = Some p\<rparr>]"
    and "wr_identity r = []"
  obtains pre post where "commit_bytes E r = pre @ p @ post" and "pre \<noteq> []" and "post \<noteq> []"
proof -
  let ?c = "\<lparr>wc_table = t, wc_id = i, wc_payload = Some p\<rparr>"
  have "wf_change ?c" using assms by (simp add: wf_record_def)
  note raw = item_bytes_raw(2) [OF this]
  let ?pre = "to_le_bytes (wr_version r) @ to_le_bytes (1 :: u32) @ KIND_PUT
     # to_le_bytes (of_nat (length t) :: u16) @ as_bytes t
     @ to_le_bytes (of_nat (length i) :: u16) @ as_bytes i @ to_le_bytes (of_nat (length p) :: u32)"
  have "commit_bytes E r = ?pre @ p @ to_le_bytes (crc32 E (record_body r))"
    using assms by (simp add: commit_bytes_eq record_body_def record_items_def raw raw_item_def
        del: item_bytes.simps)
  moreover have "to_le_bytes (crc32 E (record_body r)) \<noteq> []"
    by (simp flip: length_0_conv)
  ultimately show thesis using that [of ?pre] by blast
qed

text \<open>A chain of one file with one record, for concrete inputs.\<close>

definition sample_record :: wal_record where
  "sample_record = \<lparr>wr_version = 5, wr_changes = [], wr_identity = []\<rparr>"

definition sample_dir :: wal_dir where
  "sample_dir = [(wal_file_name 1, commit_bytes sample_ext sample_record)]"

lemma sample_scan: "scan_wal sample_ext (commit_bytes sample_ext sample_record) =
    \<lparr>ws_records = [sample_record], ws_valid_len = 16, ws_clean = True, ws_corruption = None\<rparr>"
proof -
  have wf: "wf_record sample_record" by (simp add: wf_record_def fits_u32_def sample_record_def)
  then have "length (commit_bytes sample_ext sample_record) = 16"
    by (simp add: commit_bytes_eq record_body_def record_items_def sample_record_def)
  then show ?thesis
    using scan_wal_from_enc [of "[sample_record]" None "commit_bytes sample_ext sample_record" 0 sample_ext "[]"] wf
    by (simp add: cursor_at_def usize_limit_def scan_wal_def scan_wal_from_end)
qed

lemma sample_chain: "validate_wal_chain sample_ext sample_dir 1 1 4 = Inr [1]"
  by (simp add: validate_wal_chain_def map_filter_def Let_def u64_checked_succ_def sample_dir_def
      sample_scan) (simp add: sample_record_def)

section \<open>Properties\<close>

text \<open>C11. Crash recovery of one log file. When a log of complete commit records with increasing
  versions ends in a record cut anywhere by a crash, the scan returns exactly the complete
  records, in order, with their changes and identity marks; it reports the offset where the
  torn record starts; and it calls the file corrupt only when the torn bytes contain a whole
  later record.\<close>

theorem wal_scan_torn:
  assumes "list_all wf_record rs" and "increasing_from None rs" and "wf_record r"
    and "length (concat (map (commit_bytes E) rs)) + length (commit_bytes E r) < usize_limit"
    and "0 < k" and "k < length (commit_bytes E r)"
  shows "let start = length (concat (map (commit_bytes E) rs));
             data = concat (map (commit_bytes E) rs) @ take k (commit_bytes E r);
             scan = scan_wal E data in
         ws_records scan = rs \<and> ws_valid_len scan = start \<and> \<not> ws_clean scan
         \<and> (ws_corruption scan = None \<longleftrightarrow> \<not> later_valid_record E data start (last_version None rs))"
  using wal_torn_tail [OF assms refl] by (simp add: Let_def)

theorem wal_scan_torn_witness:
  "let r1 = \<lparr>wr_version = 1, wr_changes = [\<lparr>wc_table = ''t'', wc_id = ''a'', wc_payload = Some [7]\<rparr>],
            wr_identity = [(''t'', 3)]\<rparr>;
       r2 = \<lparr>wr_version = 2, wr_changes = [], wr_identity = []\<rparr>;
       scan = scan_wal sample_ext (commit_bytes sample_ext r1 @ take 9 (commit_bytes sample_ext r2))
   in ws_records scan = [r1] \<and> \<not> ws_clean scan"
  using wal_scan_torn [of "[\<lparr>wr_version = 1,
          wr_changes = [\<lparr>wc_table = ''t'', wc_id = ''a'', wc_payload = Some [7]\<rparr>],
          wr_identity = [(''t'', 3)]\<rparr>]" "\<lparr>wr_version = 2, wr_changes = [], wr_identity = []\<rparr>"
      sample_ext 9]
  by (simp add: Let_def wf_record_def wf_change_def wf_mark_def fits_u16_def fits_u32_def usize_limit_def
      IDENTITY_META_TABLE_def commit_bytes_eq record_body_def record_items_def item_bytes_raw raw_item_def
      del: item_bytes.simps)

text \<open>A log of complete commit records with increasing versions scans clean to its end and
  gives back every record.\<close>

theorem wal_scan_complete:
  assumes "list_all wf_record rs" and "increasing_from None rs"
    and "length (concat (map (commit_bytes E) rs)) < usize_limit"
  shows "scan_wal E (concat (map (commit_bytes E) rs)) =
    \<lparr>ws_records = rs, ws_valid_len = length (concat (map (commit_bytes E) rs)), ws_clean = True,
     ws_corruption = None\<rparr>"
proof -
  have "cursor_at (concat (map (commit_bytes E) rs)) 0 (concat (map (commit_bytes E) rs) @ [])"
    using assms(3) by (simp add: cursor_at_def)
  from scan_wal_from_enc [OF assms(1,2) this] show ?thesis
    by (simp add: scan_wal_def scan_wal_from_end)
qed

theorem wal_scan_complete_witness:
  "scan_wal sample_ext (commit_bytes sample_ext \<lparr>wr_version = 5, wr_changes = [], wr_identity = [(''t'', 3)]\<rparr>) =
    \<lparr>ws_records = [\<lparr>wr_version = 5, wr_changes = [], wr_identity = [(''t'', 3)]\<rparr>], ws_valid_len = 52,
     ws_clean = True, ws_corruption = None\<rparr>"
  using wal_scan_complete [of "[\<lparr>wr_version = 5, wr_changes = [], wr_identity = [(''t'', 3)]\<rparr>]" sample_ext]
  by (simp add: wf_record_def wf_mark_def fits_u16_def fits_u32_def usize_limit_def IDENTITY_META_TABLE_facts
      commit_bytes_eq record_body_def record_items_def item_bytes_raw raw_item_def del: item_bytes.simps)

text \<open>Patching the version into an encoded commit under the commit lock gives byte for byte
  the record that encoding it with that version from the start gives: the cheap path and the
  full path agree for every record the encoder accepts.\<close>

theorem set_encoded_commit_version_exact:
  assumes "encode_commit E v0 changes marks = Inr b"
  shows "map_option Inr (set_encoded_commit_version E b v) = Some (encode_commit E v changes marks)"
proof -
  from assms obtain cs ms where "encode_each encode_change changes = Inr cs"
    and "encode_each encode_identity marks = Inr ms"
    and "checked_add (length changes) (length marks) = Some (length changes + length marks)"
    and "fits_u32 (length changes + length marks)"
    and b: "b = (let buf = to_le_bytes v0 @ to_le_bytes (of_nat (length changes + length marks) :: u32)
                       @ cs @ ms in buf @ to_le_bytes (crc32 E buf))"
    by (fastforce simp: encode_commit_def result_dests Let_def dest: checked_add_Some)
  then have "encode_commit E v changes marks =
      (let buf = to_le_bytes v @ to_le_bytes (of_nat (length changes + length marks) :: u32) @ cs @ ms
       in Inr (buf @ to_le_bytes (crc32 E buf)))"
    by (simp add: encode_commit_def)
  then show ?thesis
    by (simp add: b set_encoded_commit_version_def Let_def)
qed

theorem set_encoded_commit_version_exact_witness:
  "let b = (case encode_commit sample_ext 0 [\<lparr>wc_table = ''t'', wc_id = ''a'', wc_payload = None\<rparr>] [] of
              Inr b \<Rightarrow> b | Inl _ \<Rightarrow> []) in
   map_option Inr (set_encoded_commit_version sample_ext b 42) =
     Some (encode_commit sample_ext 42 [\<lparr>wc_table = ''t'', wc_id = ''a'', wc_payload = None\<rparr>] [])"
proof -
  have "is_ok (encode_commit sample_ext 0 [\<lparr>wc_table = ''t'', wc_id = ''a'', wc_payload = None\<rparr>] [])"
    by (simp add: encode_commit_def encode_change_def is_ok_def checked_add_def usize_limit_def
        fits_u16_def fits_u32_def Let_def)
  then obtain b where b: "encode_commit sample_ext 0
      [\<lparr>wc_table = ''t'', wc_id = ''a'', wc_payload = None\<rparr>] [] = Inr b"
    by (auto simp: is_ok_def split: sum.splits)
  show ?thesis
    using set_encoded_commit_version_exact [OF b, of 42] by (simp add: b)
qed

text \<open>C12. What an accepted preflight guarantees: the files are consecutive from the anchor and
  reach at least the required one; each parses without interior corruption; nothing but empty
  files follows a torn one; and the versions a replay applies above the watermark are
  consecutive, with no gap across files.\<close>

theorem wal_chain_sound:
  assumes "validate_wal_chain E dir anchor required watermark = Inr ids"
  shows "let scans = map (\<lambda>fid. scan_wal E (the (map_of dir (wal_file_name fid)))) ids in
    ids \<noteq> [] \<and> max required anchor \<le> last ids \<and>
    (\<forall>i < length ids. unat (ids ! i) = min (unat anchor + i) (2 ^ 32 - 1)) \<and>
    list_all (\<lambda>s. ws_corruption s = None) scans \<and>
    sorted_wrt (\<lambda>s later. \<not> ws_clean s \<longrightarrow> ws_records later = []) scans \<and>
    (\<exists>w. map (\<lambda>r. unat (wr_version r)) (applied watermark (concat (map ws_records scans))) =
       [Suc (unat watermark)..<Suc w])"
proof -
  from assms obtain scans w where ids: "ids \<noteq> []" "\<not> last ids < max required anchor"
    and scans: "scan_chain E dir anchor ids = Inr scans"
    and torn: "check_torn scans = Inr ()" and versions: "check_chain_versions watermark scans = Inr w"
    by (auto simp: validate_wal_chain_def result_dests Let_def)
  note sound = scan_chain_sound [OF scans]
  have "map (\<lambda>fid. scan_wal E (the (map_of dir (wal_file_name fid)))) ids = map snd scans"
    unfolding sound(1) [symmetric] by (auto simp: o_def dest!: sound(3))
  moreover have "list_all (\<lambda>s. ws_corruption s = None) (map snd scans)"
    using sound(3) by (fastforce simp: list_all_iff)
  moreover have "sorted_wrt (\<lambda>s later. \<not> ws_clean s \<longrightarrow> ws_records later = []) (map snd scans)"
    using check_torn_sound [OF torn] by (simp add: sorted_wrt_map)
  ultimately show ?thesis
    using ids sound(2) check_chain_versions_sound [OF versions]
    by (auto simp: Let_def not_less o_def)
qed

text \<open>C36. The scan's test for interior corruption also fires on an honest crash. A commit whose
  stored payload happens to be a complete encoded commit with a newer version, torn after that
  payload, makes the preflight of its log fail, although every byte behind the last complete
  record belongs to the one torn record.\<close>

theorem wal_torn_payload_refused:
  assumes "wf_record inner" and "wf_record r"
    and "wr_changes r = [\<lparr>wc_table = t, wc_id = i, wc_payload = Some (commit_bytes E inner)\<rparr>]"
    and "wr_identity r = []" and "0 < wr_version inner" and "length (commit_bytes E r) < usize_limit"
  shows "\<exists>k < length (commit_bytes E r). \<exists>msg.
    validate_wal_chain E [(wal_file_name anchor, take k (commit_bytes E r))] anchor anchor watermark =
      Inl (Corrupt msg)"
proof -
  obtain pre post where r: "commit_bytes E r = pre @ commit_bytes E inner @ post"
    and ne: "pre \<noteq> []" "post \<noteq> []"
    using commit_bytes_single [OF assms(2-4), of E] by metis
  define k where "k = length (pre @ commit_bytes E inner)"
  have k: "0 < k" "k < length (commit_bytes E r)" using ne by (simp_all add: r k_def)
  have "later_valid_record E (take k (commit_bytes E r)) 0 None"
    using later_valid_record_embedded [OF assms(1), of "take k (commit_bytes E r)" pre E "[]" 0 None]
      assms(5,6) ne by (simp add: r k_def)
  then have "ws_corruption (scan_wal E (take k (commit_bytes E r))) \<noteq> None"
    using wal_torn_tail(4) [OF _ _ assms(2), of "[]" E k] assms(6) k by simp
  then show ?thesis
    using k by (auto simp: validate_wal_chain_def map_filter_def Let_def)
qed

theorem wal_torn_payload_refused_witness:
  "let inner = \<lparr>wr_version = 9, wr_changes = [], wr_identity = []\<rparr>;
       r = \<lparr>wr_version = 1, wr_changes = [\<lparr>wc_table = ''t'', wc_id = ''a'',
              wc_payload = Some (commit_bytes sample_ext inner)\<rparr>], wr_identity = []\<rparr> in
   \<exists>k < length (commit_bytes sample_ext r). \<exists>msg.
    validate_wal_chain sample_ext [(wal_file_name 1, take k (commit_bytes sample_ext r))] 1 1 0 =
      Inl (Corrupt msg)"
proof -
  let ?inner = "\<lparr>wr_version = 9, wr_changes = [], wr_identity = []\<rparr>"
  let ?r = "\<lparr>wr_version = 1, wr_changes = [\<lparr>wc_table = ''t'', wc_id = ''a'',
              wc_payload = Some (commit_bytes sample_ext ?inner)\<rparr>], wr_identity = []\<rparr>"
  have inner: "wf_record ?inner" by (simp add: wf_record_def fits_u32_def)
  then have len: "length (commit_bytes sample_ext ?inner) = 16"
    by (simp add: commit_bytes_eq record_body_def record_items_def)
  then have r: "wf_record ?r"
    by (simp add: wf_record_def wf_change_def fits_u32_def fits_u16_def IDENTITY_META_TABLE_def)
  then have "length (commit_bytes sample_ext ?r) < usize_limit"
    using len by (simp add: commit_bytes_eq record_body_def record_items_def item_bytes_raw raw_item_def
        wf_record_def usize_limit_def del: item_bytes.simps)
  with wal_torn_payload_refused [OF inner r, of "''t''" "''a''" sample_ext 1 0] show ?thesis
    by (simp add: Let_def)
qed

theorem wal_chain_sound_witness:
  "let scans = map (\<lambda>fid. scan_wal sample_ext (the (map_of sample_dir (wal_file_name fid)))) [1] in
   validate_wal_chain sample_ext sample_dir 1 1 4 = Inr [1] \<and>
   (\<exists>w. map (\<lambda>r. unat (wr_version r)) (applied 4 (concat (map ws_records scans))) = [5..<Suc w])"
  using wal_chain_sound [OF sample_chain] sample_chain by (simp add: Let_def)

end
