(* ===== verification/Wal_Writer.thy ===== *)
theory Wal_Writer
  imports Wal
begin

text \<open>
  The appending side of the log (\<open>WalWriter\<close> in \<open>wal.rs\<close>): single and vectored appends, the
  roll back of a partial write, poisoning, and the durability barriers, one of which runs
  outside the commit mutex while appends go on.

  What the operating system does is an input of each operation: how much of a write reached
  the file and whether truncating or syncing succeeded. The writer carries the bytes of its
  file and, as ghost state, how many of them a successful barrier has covered.
\<close>

section \<open>The writer\<close>

datatype durability = Safe | Balanced | Fast

record wal_writer =
  ww_id :: u32
  ww_file :: bytes
  ww_len :: nat
  ww_last_sync :: nat
  ww_unsynced :: bool
  ww_poisoned :: "string option"
  ww_durable :: nat

datatype wal_append_outcome = Complete | SyncFailed string

record unlocked_sync =
  us_id :: u32
  us_len :: nat

definition open_writer :: "u32 \<Rightarrow> bytes \<Rightarrow> nat \<Rightarrow> wal_writer" where
  "open_writer fid contents now =
     \<lparr>ww_id = fid, ww_file = contents, ww_len = length contents, ww_last_sync = now,
      ww_unsynced = False, ww_poisoned = None, ww_durable = length contents\<rparr>"

text \<open>Truncating the file back to the start of the failed append either works (\<open>None\<close>) or fails
  with an error and leaves the file as it is.\<close>

definition rollback_partial_append ::
    "wal_writer \<Rightarrow> nat \<Rightarrow> string \<Rightarrow> string option \<Rightarrow> wal_writer \<times> error" where
  "rollback_partial_append w start write_error set_len_error =
     (case set_len_error of
        Some rollback_error \<Rightarrow>
          (let message = ''write failed ('' @ write_error @ ''); truncating to '' @ show_nat start
                 @ '' also failed ('' @ rollback_error @ '')''
           in (w\<lparr>ww_poisoned := Some message\<rparr>, Io message))
      | None \<Rightarrow> (w\<lparr>ww_file := take start (ww_file w)\<rparr>, Io write_error))"

definition unusable :: "string \<Rightarrow> error" where
  "unusable message =
     Io (''WAL writer is unusable after an earlier append failure: '' @ message)"

text \<open>\<open>write_all\<close> either writes everything or fails after emitting some prefix.\<close>

datatype write_all_outcome = WroteAll | WroteSome nat string

definition append_commit_unflushed ::
    "wal_writer \<Rightarrow> bytes \<Rightarrow> write_all_outcome \<Rightarrow> string option \<Rightarrow> wal_writer \<times> nat result" where
  "append_commit_unflushed w bs outcome set_len_error =
     (case ww_poisoned w of
        Some message \<Rightarrow> (w, Inl (unusable message))
      | None \<Rightarrow>
          (let start = ww_len w in
           case outcome of
             WroteSome n write_error \<Rightarrow>
               (let w = w\<lparr>ww_file := ww_file w @ take n bs\<rparr>;
                    (w, e) = rollback_partial_append w start write_error set_len_error
                in (w, Inl e))
           | WroteAll \<Rightarrow>
               (let len = saturating_add (ww_len w) (length bs)
                in (w\<lparr>ww_file := ww_file w @ bs, ww_len := len, ww_unsynced := True\<rparr>, Inr len))))"

section \<open>Vectored appends\<close>

text \<open>One \<open>write_vectored\<close> call: it wrote some bytes of the slices offered, was interrupted, or
  failed.\<close>

datatype write_outcome = Wrote nat | Interrupted | WriteFailed string

text \<open>The slices of one call: the rest of the current record and at most 63 more.\<close>

definition io_slices :: "bytes list \<Rightarrow> nat \<Rightarrow> nat \<Rightarrow> bytes" where
  "io_slices records index offset =
     drop offset (records ! index) @ concat (take 63 (drop (index + 1) records))"

function advance :: "bytes list \<Rightarrow> nat \<Rightarrow> nat \<Rightarrow> nat \<Rightarrow> nat \<times> nat" where
  "advance records index offset remaining =
     (if index < length records then
        let available = length (records ! index) - offset in
        if remaining < available then (index, offset + remaining)
        else
          let remaining = remaining - available in
          if remaining = 0 then (index + 1, 0)
          else advance records (index + 1) 0 remaining
      else (index, offset))"
  by pat_completeness auto
termination
  by (relation "measure (\<lambda>(records, index, offset, remaining). length records - index)") auto

declare advance.simps [simp del]

datatype batch_end = BatchDone | BatchFailed string

text \<open>The loop over calls, driven by the list of their outcomes: \<open>None\<close> while calls are still to
  come. The bytes appended to the file are returned with the end of the loop.\<close>

fun write_batch :: "bytes list \<Rightarrow> nat \<Rightarrow> nat \<Rightarrow> write_outcome list \<Rightarrow> (bytes \<times> batch_end) option" where
  "write_batch records index offset outcomes =
     (if index < length records then
        (case outcomes of
           [] \<Rightarrow> None
         | Interrupted # outcomes \<Rightarrow> write_batch records index offset outcomes
         | WriteFailed e # _ \<Rightarrow> Some ([], BatchFailed e)
         | Wrote n # outcomes \<Rightarrow>
             (let written = take n (io_slices records index offset) in
              if length written = 0 then
                Some ([], BatchFailed ''failed to append coordinated WAL batch'')
              else
                (case advance records index offset (length written) of
                   (index', offset') \<Rightarrow>
                     (case write_batch records index' offset' outcomes of
                        None \<Rightarrow> None
                      | Some (rest, r) \<Rightarrow> Some (written @ rest, r)))))
      else Some ([], BatchDone))"

fun total_len :: "nat \<Rightarrow> bytes list \<Rightarrow> nat result" where
  "total_len acc [] = Inr acc"
| "total_len acc (r # rs) =
     rbind (ok_or (InvalidArgument ''WAL batch length overflow'') (checked_add acc (length r)))
       (\<lambda>acc. total_len acc rs)"

definition append_commits_unflushed ::
    "wal_writer \<Rightarrow> bytes list \<Rightarrow> write_outcome list \<Rightarrow> string option
      \<Rightarrow> (wal_writer \<times> nat result) option" where
  "append_commits_unflushed w records outcomes set_len_error =
     (case ww_poisoned w of
        Some message \<Rightarrow> Some (w, Inl (unusable message))
      | None \<Rightarrow>
          (case total_len 0 records of
             Inl e \<Rightarrow> Some (w, Inl e)
           | Inr count \<Rightarrow>
               if count = 0 then Some (w, Inr (ww_len w))
               else
                 let start = ww_len w in
                 (case write_batch records 0 0 outcomes of
                    None \<Rightarrow> None
                  | Some (written, BatchFailed write_error) \<Rightarrow>
                      (let w = w\<lparr>ww_file := ww_file w @ written\<rparr>;
                           (w, e) = rollback_partial_append w start write_error set_len_error
                       in Some (w, Inl e))
                  | Some (written, BatchDone) \<Rightarrow>
                      (let len = saturating_add (ww_len w) count
                       in Some (w\<lparr>ww_file := ww_file w @ written, ww_len := len,
                                  ww_unsynced := True\<rparr>, Inr len)))))"

section \<open>Durability barriers\<close>

definition begin_unlocked_sync :: "wal_writer \<Rightarrow> unlocked_sync" where
  "begin_unlocked_sync w = \<lparr>us_id = ww_id w, us_len = ww_len w\<rparr>"

text \<open>\<open>UnlockedSync::sync\<close> on the duplicated handle: the file is the one the handle was taken
  from, whatever the writer has appended since.\<close>

definition unlocked_sync_ok :: "wal_writer \<Rightarrow> unlocked_sync \<Rightarrow> wal_writer" where
  "unlocked_sync_ok w s =
     (if ww_id w = us_id s then w\<lparr>ww_durable := max (ww_durable w) (us_len s)\<rparr> else w)"

definition finish_unlocked_sync :: "wal_writer \<Rightarrow> unlocked_sync \<Rightarrow> nat \<Rightarrow> wal_writer" where
  "finish_unlocked_sync w s now =
     (if ww_id w \<noteq> us_id s then w
      else
        let w = w\<lparr>ww_last_sync := now\<rparr>
        in if ww_len w = us_len s then w\<lparr>ww_unsynced := False\<rparr> else w)"

definition sync_due :: "wal_writer \<Rightarrow> durability \<Rightarrow> nat \<Rightarrow> nat \<Rightarrow> bool" where
  "sync_due w d balanced_interval_ms now =
     (case d of
        Safe \<Rightarrow> True
      | Balanced \<Rightarrow> now - ww_last_sync w \<ge> balanced_interval_ms
      | Fast \<Rightarrow> False)"

definition sync_data :: "wal_writer \<Rightarrow> string option \<Rightarrow> nat \<Rightarrow> wal_writer \<times> wal_append_outcome" where
  "sync_data w sync_error now =
     (case sync_error of
        None \<Rightarrow> (w\<lparr>ww_last_sync := now, ww_unsynced := False, ww_durable := ww_len w\<rparr>, Complete)
      | Some e \<Rightarrow> (w, SyncFailed e))"

declare write_batch.simps [simp del]

section \<open>A batch writes its records exactly once\<close>

definition pending :: "bytes list \<Rightarrow> nat \<Rightarrow> nat \<Rightarrow> bytes" where
  "pending records index offset =
     (if index < length records then drop offset (records ! index) @ concat (drop (index + 1) records)
      else [])"

lemma pending_start: "pending records 0 0 = concat records"
  by (cases records) (simp_all add: pending_def)

lemma pending_next:
  "pending records (Suc index) 0 = concat (drop (Suc index) records)"
  by (auto simp: pending_def Cons_nth_drop_Suc [symmetric])

lemma io_slices_prefix:
  "index < length records \<Longrightarrow> pending records index offset =
     io_slices records index offset @ concat (drop 63 (drop (index + 1) records))"
  using concat_append [of "take 63 (drop (index + 1) records)" "drop 63 (drop (index + 1) records)"]
  unfolding append_take_drop_id by (simp add: pending_def io_slices_def)

lemma advance_pending:
  "index < length records \<Longrightarrow> n \<le> length (pending records index offset) \<Longrightarrow>
   advance records index offset n = (index', offset') \<Longrightarrow>
   pending records index' offset' = drop n (pending records index offset)"
proof (induction records index offset n arbitrary: index' offset' rule: advance.induct)
  case (1 records index offset n)
  let ?avail = "length (records ! index) - offset"
  have split: "pending records index offset =
      drop offset (records ! index) @ pending records (Suc index) 0"
    using "1.prems"(1) unfolding pending_next by (simp add: pending_def)
  consider "n < ?avail" | "n = ?avail" | "?avail < n" by linarith
  then show ?case
  proof cases
    case 1
    with "1.prems" have "index' = index" "offset' = offset + n"
      by (auto simp: advance.simps [of records])
    with 1 "1.prems"(1) show ?thesis by (simp add: pending_def add.commute)
  next
    case 2
    with "1.prems" have "index' = Suc index" "offset' = 0"
      by (auto simp: advance.simps [of records] Let_def)
    with 2 show ?thesis unfolding split by simp
  next
    case 3
    with "1.prems" have step: "advance records (index + 1) 0 (n - ?avail) = (index', offset')"
      by (simp add: advance.simps [of records index] Let_def)
    have long: "n - ?avail \<le> length (pending records (Suc index) 0)"
      using "1.prems"(2) unfolding split by simp
    with 3 have "index + 1 < length records"
      by (auto simp: pending_def split: if_splits)
    with "1.IH" [OF "1.prems"(1) refl _ refl _ _ _ step] 3 long show ?thesis
      unfolding split by simp
  qed
qed

lemma write_batch_written:
  "write_batch records index offset outcomes = Some (written, r) \<Longrightarrow>
   \<exists>rest. pending records index offset = written @ rest \<and> (r = BatchDone \<longrightarrow> rest = [])"
proof (induction records index offset outcomes arbitrary: written rule: write_batch.induct)
  case (1 records index offset outcomes)
  show ?case
  proof (cases "index < length records")
    case False
    with "1.prems" show ?thesis by (simp add: write_batch.simps [of records index] pending_def)
  next
    case True
    show ?thesis
    proof (cases outcomes)
      case Nil
      with True "1.prems" show ?thesis by (simp add: write_batch.simps [of records index])
    next
      case (Cons out outs)
      show ?thesis
      proof (cases out)
        case (Wrote n)
        let ?w = "take n (io_slices records index offset)"
        obtain i' o' where adv: "advance records index offset (length ?w) = (i', o')" by force
        show ?thesis
        proof (cases "length ?w = 0")
          case True
          then have "n = 0 \<or> io_slices records index offset = []" by (auto simp: min_def split: if_splits)
          with \<open>index < length records\<close> Cons Wrote "1.prems" show ?thesis
            by (auto simp: write_batch.simps [of records index] Let_def)
        next
          case False
          from "1.prems" True Cons Wrote False adv obtain more' where
            rec: "write_batch records i' o' outs = Some (more', r)" and w: "written = ?w @ more'"
            by (auto simp: write_batch.simps [of records index] Let_def split: option.splits)
          have "pending records i' o' = drop (length ?w) (pending records index offset)"
            by (rule advance_pending [OF True _ adv]) (simp add: io_slices_prefix [OF True])
          moreover have "take (length ?w) (pending records index offset) = ?w"
            by (simp add: io_slices_prefix [OF True] take_append min.commute flip: take_take)
          ultimately have "pending records index offset = ?w @ pending records i' o'"
            by (metis append_take_drop_id)
          with "1.IH"(1) [OF True Cons Wrote refl False adv [symmetric] rec] w show ?thesis
            by auto
        qed
      next
        case Interrupted
        with True Cons "1.prems" "1.IH"(2) [OF True Cons] show ?thesis
          by (simp add: write_batch.simps [of records index])
      next
        case (WriteFailed e)
        with True Cons "1.prems" show ?thesis by (auto simp: write_batch.simps [of records index])
      qed
    qed
  qed
qed

lemma total_len_sum: "total_len acc rs = Inr n \<Longrightarrow> n = acc + length (concat rs)"
  by (induction acc rs rule: total_len.induct) (auto simp: result_dests, fastforce dest: checked_add_Some)

section \<open>Histories of a writer\<close>

text \<open>
  The acknowledged records are a ghost list: an append that returns \<open>Ok\<close> adds its records. A
  barrier that runs outside the mutex is in the set of pending barriers between its begin and
  its completion. \<open>Rotate\<close> replaces the writer by a fresh one on another file.
\<close>

record history =
  hi_writer :: wal_writer
  hi_acked :: "bytes list"
  hi_barriers :: "unlocked_sync set"

inductive writer_step :: "history \<Rightarrow> history \<Rightarrow> bool" where
  Append: "append_commit_unflushed (hi_writer h) bs outcome err = (w, r) \<Longrightarrow>
     length (ww_file (hi_writer h)) + length bs < usize_limit \<Longrightarrow>
     writer_step h (h\<lparr>hi_writer := w, hi_acked := hi_acked h @ (if is_ok r then [bs] else [])\<rparr>)"
| AppendBatch: "append_commits_unflushed (hi_writer h) records outcomes err = Some (w, r) \<Longrightarrow>
     length (ww_file (hi_writer h)) + length (concat records) < usize_limit \<Longrightarrow>
     writer_step h (h\<lparr>hi_writer := w, hi_acked := hi_acked h @ (if is_ok r then records else [])\<rparr>)"
| Sync: "sync_data (hi_writer h) err now = (w, out) \<Longrightarrow> writer_step h (h\<lparr>hi_writer := w\<rparr>)"
| BeginSync: "writer_step h (h\<lparr>hi_barriers := insert (begin_unlocked_sync (hi_writer h)) (hi_barriers h)\<rparr>)"
| FinishSync: "s \<in> hi_barriers h \<Longrightarrow>
     writer_step h (h\<lparr>hi_writer := finish_unlocked_sync (unlocked_sync_ok (hi_writer h) s) s now\<rparr>)"

inductive reachable :: "u32 \<Rightarrow> bytes \<Rightarrow> history \<Rightarrow> bool" for fid contents where
  Open: "length contents < usize_limit \<Longrightarrow>
     reachable fid contents \<lparr>hi_writer = open_writer fid contents now, hi_acked = [], hi_barriers = {}\<rparr>"
| Step: "reachable fid contents h \<Longrightarrow> writer_step h h' \<Longrightarrow> reachable fid contents h'"

text \<open>The invariant: the file holds the opened contents and every acknowledged record, whole and
  in order; unless the writer is poisoned it holds nothing else; and a writer that does not
  report unsynced appends has everything under a barrier.\<close>

definition writer_inv :: "bytes \<Rightarrow> history \<Rightarrow> bool" where
  "writer_inv contents h \<longleftrightarrow>
     (let w = hi_writer h; log = contents @ concat (hi_acked h) in
      (\<exists>junk. ww_file w = log @ junk \<and> (ww_poisoned w = None \<longrightarrow> junk = []))
      \<and> ww_len w = length log \<and> ww_len w < usize_limit
      \<and> ww_durable w \<le> ww_len w \<and> (\<not> ww_unsynced w \<longrightarrow> ww_durable w = ww_len w)
      \<and> (\<forall>s \<in> hi_barriers h. us_id s = ww_id w \<and> us_len s \<le> ww_len w))"

lemma rollback_inv:
  assumes "writer_inv contents h" and "ww_poisoned (hi_writer h) = None"
    and "rollback_partial_append ((hi_writer h)\<lparr>ww_file := ww_file (hi_writer h) @ part\<rparr>)
      (ww_len (hi_writer h)) e err = (w, e')"
  shows "writer_inv contents (h\<lparr>hi_writer := w\<rparr>)"
  using assms by (auto simp: writer_inv_def rollback_partial_append_def Let_def split: option.splits)

lemma saturating_add_exact: "a + b < usize_limit \<Longrightarrow> saturating_add a b = a + b"
  unfolding saturating_add_def by linarith

lemma writer_step_inv:
  assumes "writer_step h h'" and "writer_inv contents h"
  shows "writer_inv contents h'"
  using assms
proof cases
  case (Append bs outcome err w r)
  show ?thesis
  proof (cases "ww_poisoned (hi_writer h)")
    case None
    show ?thesis
    proof (cases outcome)
      case WroteAll
      with Append None assms(2) show ?thesis
        by (auto simp: append_commit_unflushed_def Let_def writer_inv_def is_ok_def saturating_add_exact)
    next
      case (WroteSome n e)
      with Append None assms(2) show ?thesis
        by (auto simp: append_commit_unflushed_def Let_def is_ok_def split: prod.splits
            intro: rollback_inv)
    qed
  next
    case (Some m)
    with Append assms(2) show ?thesis
      by (auto simp: append_commit_unflushed_def is_ok_def)
  qed
next
  case (AppendBatch records outcomes err w r)
  show ?thesis
  proof (cases "ww_poisoned (hi_writer h) = None \<and> is_ok (total_len 0 records) \<and> concat records \<noteq> []")
    case True
    then have count: "total_len 0 records = Inr (length (concat records))"
      by (auto simp: is_ok_def split: sum.splits dest: total_len_sum)
    from AppendBatch True count obtain part e where
      wb: "write_batch records 0 0 outcomes = Some (part, e)"
      by (auto simp: append_commits_unflushed_def Let_def split: option.splits prod.splits if_splits)
    show ?thesis
    proof (cases e)
      case BatchDone
      with write_batch_written [OF wb] have "part = concat records" by (simp add: pending_start)
      with AppendBatch True count wb BatchDone assms(2) show ?thesis
        by (auto simp: append_commits_unflushed_def Let_def writer_inv_def is_ok_def saturating_add_exact
            split: if_splits)
    next
      case (BatchFailed msg)
      with AppendBatch True count wb assms(2) show ?thesis
        by (auto simp: append_commits_unflushed_def Let_def is_ok_def split: prod.splits if_splits
            intro: rollback_inv)
    qed
  next
    case False
    with AppendBatch have "w = hi_writer h \<and> (is_ok r \<longrightarrow> concat records = [])"
      by (auto simp: append_commits_unflushed_def is_ok_def split: option.splits sum.splits if_splits
          dest: total_len_sum)
    with AppendBatch(1) assms(2) show ?thesis
      by (auto simp: writer_inv_def Let_def simp del: concat_eq_Nil_conv)
  qed
next
  case (Sync err now w out)
  with assms(2) show ?thesis
    by (auto simp: sync_data_def writer_inv_def Let_def split: option.splits)
next
  case BeginSync
  with assms(2) show ?thesis
    by (auto simp: begin_unlocked_sync_def writer_inv_def Let_def)
next
  case (FinishSync s now)
  with assms(2) show ?thesis
    by (auto simp: finish_unlocked_sync_def unlocked_sync_ok_def writer_inv_def Let_def)
qed

lemma reachable_inv: "reachable fid contents h \<Longrightarrow> writer_inv contents h"
proof (induction rule: reachable.induct)
  case (Open now)
  then show ?case by (simp add: writer_inv_def open_writer_def)
next
  case (Step h h')
  then show ?case by (blast intro: writer_step_inv)
qed

section \<open>Properties\<close>

text \<open>C10. Whatever sequence of single appends, vectored batches, partial and failed writes, failed
  truncations, barriers and concurrent barriers a writer goes through, its file starts with the
  contents it was opened on followed by exactly the acknowledged records, whole and in order;
  bytes of a failed append remain only in a writer that is poisoned.\<close>

theorem writer_keeps_whole_records:
  assumes "reachable fid contents h"
  shows "\<exists>junk. ww_file (hi_writer h) = contents @ concat (hi_acked h) @ junk
    \<and> (ww_poisoned (hi_writer h) = None \<longrightarrow> junk = [])
    \<and> ww_len (hi_writer h) = length (contents @ concat (hi_acked h))"
  using reachable_inv [OF assms] by (auto simp: writer_inv_def Let_def)

theorem writer_keeps_whole_records_witness:
  "\<exists>junk. ww_file (open_writer 1 [7] 0) = [7] @ concat [] @ junk"
  using writer_keeps_whole_records [OF reachable.Open [of "[7]" 1 0]]
  by (simp add: usize_limit_def open_writer_def)



text \<open>A vectored batch that reports success has appended every record once and in order, for
  every way the operating system splits the writes, interrupts them, or limits them to 64
  slices; and a failed batch whose truncation works leaves the file as it was.\<close>

theorem batch_append_exact:
  assumes "append_commits_unflushed w records outcomes err = Some (w', r)"
    and "ww_len w = length (ww_file w)" and "ww_poisoned w = None"
    and "ww_len w + length (concat records) < usize_limit"
  shows "(is_ok r \<longrightarrow> ww_file w' = ww_file w @ concat records \<and> ww_len w' = length (ww_file w')
            \<and> r = Inr (ww_len w'))
    \<and> (\<not> is_ok r \<longrightarrow> err = None \<longrightarrow> ww_file w' = ww_file w \<and> ww_len w' = ww_len w \<and> ww_poisoned w' = None)"
proof (cases "total_len 0 records")
  case (Inl e)
  from assms(1) have "w' = w \<and> r = Inl e" by (simp add: append_commits_unflushed_def assms(3) Inl)
  with assms(3) show ?thesis by (simp add: is_ok_def)
next
  case (Inr n)
  note n = total_len_sum [OF Inr]
  show ?thesis
  proof (cases "write_batch records 0 0 outcomes")
    case None
    with assms Inr n show ?thesis
      by (auto simp: append_commits_unflushed_def is_ok_def split: if_splits)
  next
    case (Some wb)
    then obtain part e where wb: "write_batch records 0 0 outcomes = Some (part, e)" by (cases wb) auto
    then have "e = BatchDone \<Longrightarrow> part = concat records"
      using write_batch_written [OF wb] by (simp add: pending_start)
    with assms Inr n wb show ?thesis
      by (cases e) (auto simp: append_commits_unflushed_def is_ok_def Let_def rollback_partial_append_def
          saturating_add_exact split: if_splits option.splits)
  qed
qed

theorem batch_append_exact_witness:
  "\<exists>w'. append_commits_unflushed (open_writer 1 [] 0) [[1, 2], [3]] [Interrupted, Wrote 1, Wrote 2] None =
      Some (w', Inr 3) \<and> ww_file w' = [1, 2, 3]"
proof -
  have "\<exists>w'. append_commits_unflushed (open_writer 1 [] 0) [[1, 2], [3]] [Interrupted, Wrote 1, Wrote 2] None =
      Some (w', Inr 3)"
    by (simp add: append_commits_unflushed_def open_writer_def checked_add_def usize_limit_def
        write_batch.simps advance.simps io_slices_def saturating_add_def)
  then obtain w' where w': "append_commits_unflushed (open_writer 1 [] 0) [[1, 2], [3]]
      [Interrupted, Wrote 1, Wrote 2] None = Some (w', Inr 3)" by blast
  with batch_append_exact [OF w'] show ?thesis
    by (simp add: open_writer_def usize_limit_def is_ok_def)
qed

end
