(* ===== verification/Wal_Recovery.thy ===== *)
theory Wal_Recovery
  imports Wal_Writer "HOL-Library.AList"
begin

text \<open>
  Crash recovery of the log at open (the replay loop of \<open>Db::open\<close> in \<open>db.rs\<close>): the chain of
  files is read from the manifest's anchor on, torn tails are cut off, and every record above
  the recovered watermark is applied to the primary index and the identity marks.

  The main facts: after an accepted preflight the replay succeeds and applies exactly the
  committed records; and the files it leaves behind recover to the same state again.
\<close>

section \<open>Reads of a truncated buffer\<close>

text \<open>A read that succeeded inside a prefix succeeds on the prefix.\<close>

lemma get_range_take: "get_range xs a b = Some zs \<Longrightarrow> b \<le> n \<Longrightarrow> get_range (take n xs) a b = Some zs"
  by (auto simp: get_range_def drop_take min_def split: if_splits)

lemma read_array_take:
  "read_array k buf pos = Inr (bs, pos') \<Longrightarrow> pos' \<le> n \<Longrightarrow> read_array k (take n buf) pos = Inr (bs, pos')"
  by (auto simp: read_array_def result_dests get_range_take)

lemma read_take:
  "read_u8 buf pos = Inr (b, pos') \<Longrightarrow> pos' \<le> n \<Longrightarrow> read_u8 (take n buf) pos = Inr (b, pos')"
  "read_u16 buf pos = Inr (x, pos') \<Longrightarrow> pos' \<le> n \<Longrightarrow> read_u16 (take n buf) pos = Inr (x, pos')"
  "read_u32 buf pos = Inr (y, pos') \<Longrightarrow> pos' \<le> n \<Longrightarrow> read_u32 (take n buf) pos = Inr (y, pos')"
  "read_u64 buf pos = Inr (z, pos') \<Longrightarrow> pos' \<le> n \<Longrightarrow> read_u64 (take n buf) pos = Inr (z, pos')"
  by (auto simp: read_u8_def read_u16_def read_u32_def read_u64_def result_dests get_at_def
      read_array_take split: if_splits)

lemma wal_read_short_str_take:
  assumes "wal_read_short_str buf pos = Inr (s, pos')" and "pos' \<le> n"
  shows "wal_read_short_str (take n buf) pos = Inr (s, pos')"
proof -
  from assms(1) obtain len p slice where "read_u16 buf pos = Inr (len, p)"
    and "checked_add p (unat len) = Some pos'" and "get_range buf p pos' = Some slice"
    and "from_utf8 slice = Some s"
    by (auto simp: wal_read_short_str_def result_dests)
  moreover from this have "p \<le> n" using assms(2) by (auto dest: checked_add_Some)
  ultimately show ?thesis
    using assms(2) by (simp add: wal_read_short_str_def read_take get_range_take map_err_def)
qed

lemma parse_change_take:
  assumes "parse_change buf pos = Inr (x, pos')" and "pos' \<le> n"
  shows "parse_change (take n buf) pos = Inr (x, pos')"
proof -
  from assms(1) obtain kind p1 table p2 rid p3 len p4 payload where
    kind: "read_u8 buf pos = Inr (kind, p1)" "kind = KIND_PUT \<or> kind = KIND_TOMBSTONE"
    and table: "wal_read_short_str buf p1 = Inr (table, p2)"
    and rid: "wal_read_short_str buf p2 = Inr (rid, p3)"
    and len: "read_u32 buf p3 = Inr (len, p4)"
    and add: "checked_add p4 (unat len) = Some pos'"
    and payload: "get_range buf p4 pos' = Some payload"
    by (auto simp: parse_change_def result_dests Let_def split: if_splits)
  have "p1 \<le> p2 \<and> p2 \<le> p3 \<and> p3 \<le> p4 \<and> p4 \<le> pos'"
    using read_u32_bounds [OF len] wal_read_short_str_bounds [OF table] wal_read_short_str_bounds [OF rid]
      checked_add_Some [OF add] by simp
  then have "p1 \<le> n" "p2 \<le> n" "p3 \<le> n" "p4 \<le> n" using assms(2) by simp_all
  with assms kind table rid len add payload show ?thesis
    by (simp add: parse_change_def map_err_def read_take wal_read_short_str_take get_range_take)
qed

lemma parse_changes_take:
  "repeat_read parse_change k buf pos = Inr (xs, pos') \<Longrightarrow> pos' \<le> n \<Longrightarrow>
     repeat_read parse_change k (take n buf) pos = Inr (xs, pos') \<and> pos + k \<le> pos'"
proof (induction k arbitrary: pos xs)
  case 0
  then show ?case by simp
next
  case (Suc k)
  from Suc.prems(1) obtain x p ys where x: "parse_change buf pos = Inr (x, p)"
    and ys: "repeat_read parse_change k buf p = Inr (ys, pos')" and xs: "xs = x # ys"
    by (auto simp: result_dests)
  have p: "pos < p" "p \<le> length buf" using parse_change_bounds [OF x] by simp_all
  with parse_changes_bounds [OF ys] have "p \<le> pos'" by simp
  with Suc.IH [OF ys Suc.prems(2)] parse_change_take [OF x, of n] p xs Suc.prems(2) show ?case
    by simp
qed

lemma parse_record_take:
  assumes "parse_record E buf pos = Inr (r, pos')" and "pos' \<le> n"
  shows "parse_record E (take n buf) pos = Inr (r, pos')"
proof -
  from assms(1) obtain v p1 count p2 items crc_pos crc where
    v: "read_u64 buf pos = Inr (v, p1)" and count: "read_u32 buf p1 = Inr (count, p2)"
    and items: "repeat_read parse_change (unat count) buf p2 = Inr (items, crc_pos)"
    and crc: "read_u32 buf crc_pos = Inr (crc, pos')"
      "crc32 E (take (crc_pos - pos) (drop pos buf)) = crc"
    and r: "r = \<lparr>wr_version = v, wr_changes = item_changes items, wr_identity = item_marks items\<rparr>"
    by (auto simp: parse_record_def result_dests)
  have le: "pos \<le> p1" "p1 \<le> p2" "p2 \<le> length buf" "crc_pos + 4 = pos'"
    using read_u64_bounds [OF v] read_u32_bounds [OF count] read_u32_bounds [OF crc(1)] by auto
  note items' = parse_changes_take [OF items, of n] parse_changes_bounds [OF items le(3)]
  then have "\<not> length (take n buf) < unat count"
    using le assms(2) read_u32_bounds [OF crc(1)] by auto
  moreover have "take (crc_pos - pos) (drop pos (take n buf)) = take (crc_pos - pos) (drop pos buf)"
    using le assms(2) by (simp add: drop_take min_def)
  ultimately show ?thesis
    using items' le assms(2) v count crc
    by (simp add: parse_record_def map_err_def read_take r del: length_take)
qed

section \<open>Rescanning a truncated log\<close>

lemma scan_wal_from_truncate:
  assumes "scan_wal_from E data prev pos = scan" and "pos \<le> length data"
  shows "scan_wal_from E (take (ws_valid_len scan) data) prev pos =
      \<lparr>ws_records = ws_records scan, ws_valid_len = ws_valid_len scan, ws_clean = True, ws_corruption = None\<rparr>
    \<and> pos \<le> ws_valid_len scan \<and> ws_valid_len scan \<le> length data"
  using assms
proof (induction E data prev pos arbitrary: scan rule: scan_wal_from.induct)
  case (1 E data prev pos)
  show ?case
  proof (cases "pos < length data \<and> (\<exists>r p. parse_record E data pos = Inr (r, p) \<and>
      (case prev of Some previous \<Rightarrow> wr_version r > previous | None \<Rightarrow> True))")
    case True
    then obtain r p where r: "parse_record E data pos = Inr (r, p)"
      and newer: "case prev of Some previous \<Rightarrow> wr_version r > previous | None \<Rightarrow> True"
      and pos: "pos < length data" by auto
    let ?rest = "scan_wal_from E data (Some (wr_version r)) p"
    have scan: "scan = ?rest\<lparr>ws_records := r # ws_records ?rest\<rparr>"
      using "1.prems"(1) r newer pos by (simp add: scan_wal_from.simps [of E data prev] Let_def)
    note p = parse_record_bounds [OF r]
    have IH: "scan_wal_from E (take (ws_valid_len ?rest) data) (Some (wr_version r)) p =
        \<lparr>ws_records = ws_records ?rest, ws_valid_len = ws_valid_len ?rest, ws_clean = True,
         ws_corruption = None\<rparr> \<and> p \<le> ws_valid_len ?rest \<and> ws_valid_len ?rest \<le> length data"
      by (rule "1.IH" [OF _ r refl newer refl]) (use pos p in simp_all)
    then have "parse_record E (take (ws_valid_len ?rest) data) pos = Inr (r, p)"
      using parse_record_take [OF r] by blast
    with IH newer p show ?thesis
      by (simp add: scan scan_wal_from.simps [of E "take (ws_valid_len ?rest) data" prev pos] Let_def)
  next
    case False
    then have "ws_records scan = []" "ws_valid_len scan = pos"
      using "1.prems" by (auto simp: scan_wal_from.simps [of E data prev] split: sum.splits if_splits)
    with "1.prems"(2) show ?thesis by (simp add: scan_wal_from_end)
  qed
qed

lemma scan_wal_truncate:
  "scan_wal E (take (ws_valid_len (scan_wal E data)) data) =
     \<lparr>ws_records = ws_records (scan_wal E data), ws_valid_len = ws_valid_len (scan_wal E data),
      ws_clean = True, ws_corruption = None\<rparr>"
  using scan_wal_from_truncate [OF refl, of 0 data E None] by (simp add: scan_wal_def)

section \<open>The replay loop\<close>

text \<open>What a replay has recovered: the version reached, the identity marks, the versions pushed
  into the primary index (newest last), the bytes they hold in memory, and the last file read.\<close>

record replay =
  rp_version :: u64
  rp_identity :: "string \<rightharpoonup> i64"
  rp_pushed :: "(string \<times> string \<times> u64 \<times> bytes option) list"
  rp_memtable_bytes :: nat
  rp_active_wal :: u32

fun merge_marks :: "(string \<rightharpoonup> i64) \<Rightarrow> (string \<times> i64) list \<Rightarrow> string \<rightharpoonup> i64" where
  "merge_marks m [] = m"
| "merge_marks m ((table, v) # marks) =
     merge_marks
       (case m table of
          Some high \<Rightarrow> m(table \<mapsto> (if sint high \<le> sint v then v else high))
        | None \<Rightarrow> m(table \<mapsto> v))
       marks"

fun push_changes :: "u64 \<Rightarrow> replay \<Rightarrow> wal_change list \<Rightarrow> replay" where
  "push_changes version st [] = st"
| "push_changes version st (ch # chs) =
     push_changes version
       (st\<lparr>rp_pushed := rp_pushed st @ [(wc_table ch, wc_id ch, version, wc_payload ch)],
           rp_memtable_bytes := rp_memtable_bytes st
             + (case wc_payload ch of Some p \<Rightarrow> length p | None \<Rightarrow> 0)\<rparr>)
       chs"

fun replay_records :: "replay \<Rightarrow> wal_record list \<Rightarrow> replay result" where
  "replay_records st [] = Inr st"
| "replay_records st (r # rs) =
     (if wr_version r \<le> rp_version st then replay_records st rs
      else
        rbind (ok_or (Corrupt ''commit version exhausted while replaying WAL'')
                (u64_checked_succ (rp_version st))) (\<lambda>expected.
        rbind (require (\<not> wr_version r \<noteq> expected)
                (Corrupt (''WAL commit version gap: expected '' @ show_nat (unat expected)
                  @ '', found '' @ show_nat (unat (wr_version r))))) (\<lambda>_.
        let st = st\<lparr>rp_identity := merge_marks (rp_identity st) (wr_identity r)\<rparr>;
            st = push_changes (wr_version r) st (wr_changes r)
        in replay_records (st\<lparr>rp_version := wr_version r\<rparr>) rs)))"

text \<open>The loop over files. It returns the directory as well: unless the database is opened
  read-only, torn tails are cut off before their records are applied.\<close>

function replay_wals :: "'j ext \<Rightarrow> bool \<Rightarrow> wal_dir \<Rightarrow> u32 \<Rightarrow> replay \<Rightarrow> wal_dir \<times> replay result" where
  "replay_wals E ro dir fid st =
     (case map_of dir (wal_file_name fid) of
        None \<Rightarrow> (dir, Inr st)
      | Some data \<Rightarrow>
          (let scan = scan_wal E data;
               dir = (if \<not> ws_clean scan \<and> \<not> ro
                      then AList.update (wal_file_name fid) (take (ws_valid_len scan) data) dir
                      else dir) in
           case replay_records st (ws_records scan) of
             Inl e \<Rightarrow> (dir, Inl e)
           | Inr st \<Rightarrow>
               (let st = st\<lparr>rp_active_wal := fid\<rparr> in
                if \<not> ws_clean scan then (dir, Inr st)
                else if fid = - 1 then (dir, Inr st)
                else replay_wals E ro dir (fid + 1) st)))"
  by pat_completeness auto
termination
proof (relation "measure (\<lambda>(E, ro, dir, fid, st). 2 ^ 32 - unat fid)", goal_cases)
  case (2 E ro dir fid st data scan dir' st1 st2)
  then show ?case using unat_bound [of fid] by (simp add: unat_succ diff_less_mono2)
qed simp

declare replay_wals.simps [simp del]

section \<open>The replay applies what the preflight accepted\<close>

definition apply_record :: "replay \<Rightarrow> wal_record \<Rightarrow> replay" where
  "apply_record st r =
     (push_changes (wr_version r) (st\<lparr>rp_identity := merge_marks (rp_identity st) (wr_identity r)\<rparr>)
        (wr_changes r))\<lparr>rp_version := wr_version r\<rparr>"

definition record_pushes :: "wal_record \<Rightarrow> (string \<times> string \<times> u64 \<times> bytes option) list" where
  "record_pushes r = map (\<lambda>c. (wc_table c, wc_id c, wr_version r, wc_payload c)) (wr_changes r)"

lemma push_changes_simps [simp]:
  "rp_version (push_changes v st cs) = rp_version st"
  "rp_identity (push_changes v st cs) = rp_identity st"
  "rp_pushed (push_changes v st cs) = rp_pushed st @ map (\<lambda>c. (wc_table c, wc_id c, v, wc_payload c)) cs"
  by (induction cs arbitrary: st) simp_all

lemma foldl_apply_record:
  "rp_pushed (foldl apply_record st rs) = rp_pushed st @ concat (map record_pushes rs)"
  "rp_identity (foldl apply_record st rs) = merge_marks (rp_identity st) (concat (map wr_identity rs))"
proof -
  have "merge_marks m (xs @ ys) = merge_marks (merge_marks m xs) ys" for m xs ys
    by (induction xs arbitrary: m) auto
  then show "rp_pushed (foldl apply_record st rs) = rp_pushed st @ concat (map record_pushes rs)"
    "rp_identity (foldl apply_record st rs) = merge_marks (rp_identity st) (concat (map wr_identity rs))"
    by (induction rs arbitrary: st) (simp_all add: apply_record_def record_pushes_def)
qed

lemma replay_records_applied:
  "check_versions fid (rp_version st) rs = Inr w \<Longrightarrow>
     replay_records st rs = Inr (foldl apply_record st (applied (rp_version st) rs))
     \<and> rp_version (foldl apply_record st (applied (rp_version st) rs)) = w"
proof (induction rs arbitrary: st)
  case (Cons r rs)
  show ?case
  proof (cases "wr_version r \<le> rp_version st")
    case False
    with Cons.prems have "u64_checked_succ (rp_version st) = Some (wr_version r)"
      and "check_versions fid (wr_version r) rs = Inr w"
      by (auto split: if_splits)
    moreover have "rp_version (apply_record st r) = wr_version r" by (simp add: apply_record_def)
    ultimately show ?thesis
      using False Cons.IH [of "apply_record st r"] by (simp add: apply_record_def Let_def)
  qed (use Cons in simp)
qed simp

text \<open>Two replays agree when they recovered the same, wherever they stopped.\<close>

definition recovered :: "replay \<Rightarrow> u64 \<times> (string \<rightharpoonup> i64) \<times> (string \<times> string \<times> u64 \<times> bytes option) list" where
  "recovered st = (rp_version st, rp_identity st, rp_pushed st)"

lemma apply_record_active [simp]:
  "apply_record (st\<lparr>rp_active_wal := a\<rparr>) r = (apply_record st r)\<lparr>rp_active_wal := a\<rparr>"
proof -
  have swap: "st\<lparr>rp_active_wal := a, rp_pushed := x, rp_memtable_bytes := y\<rparr> =
      st\<lparr>rp_pushed := x, rp_memtable_bytes := y, rp_active_wal := a\<rparr>" for st x y
    by simp
  have "push_changes v (st\<lparr>rp_active_wal := a\<rparr>) cs = (push_changes v st cs)\<lparr>rp_active_wal := a\<rparr>" for v st cs
    by (induction cs arbitrary: st) (simp_all add: swap)
  moreover have swap': "st\<lparr>rp_active_wal := a, rp_identity := i\<rparr> = st\<lparr>rp_identity := i, rp_active_wal := a\<rparr>" for i
    by simp
  ultimately show ?thesis by (simp add: apply_record_def swap')
qed

lemma recovered_active [simp]: "recovered (foldl apply_record (st\<lparr>rp_active_wal := a\<rparr>) rs) =
    recovered (foldl apply_record st rs)"
proof -
  have "foldl apply_record (st\<lparr>rp_active_wal := a\<rparr>) rs = (foldl apply_record st rs)\<lparr>rp_active_wal := a\<rparr>"
    by (induction rs arbitrary: st) simp_all
  then show ?thesis by (simp add: recovered_def)
qed

lemma replay_chain:
  assumes "scan_chain E dir expected ids = Inr scans" and "check_torn scans = Inr u"
    and "check_chain_versions (rp_version st) scans = Inr w"
    and "\<And>f. expected \<le> f \<Longrightarrow> map_of dir (wal_file_name f) \<noteq> None \<Longrightarrow> f \<in> set ids" and "- 1 \<notin> set ids"
  shows "\<exists>st'. snd (replay_wals E ro dir expected st) = Inr st' \<and>
    recovered st' = recovered (foldl apply_record st
      (applied (rp_version st) (concat (map (\<lambda>s. ws_records (snd s)) scans))))"
  using assms
proof (induction ids arbitrary: expected scans st)
  case Nil
  then have "map_of dir (wal_file_name expected) = None" by (metis empty_iff list.set(1) order_refl)
  with Nil.prems(1) show ?case by (simp add: replay_wals.simps [of E ro dir expected])
next
  case (Cons f ids)
  then obtain data later where f: "f = expected" and data: "map_of dir (wal_file_name f) = Some data"
    and scans: "scans = (f, scan_wal E data) # later"
    and later: "scan_chain E dir (u32_saturating_succ f) ids = Inr later"
    by (auto simp: result_dests Let_def split: option.splits)
  let ?scan = "scan_wal E data"
  from Cons.prems(3) obtain v where here: "check_versions f (rp_version st) (ws_records ?scan) = Inr v"
    and rest: "check_chain_versions v later = Inr w"
    by (auto simp: scans result_dests)
  let ?st = "foldl apply_record st (applied (rp_version st) (ws_records ?scan))"
  note applied_here = replay_records_applied [OF here]
  show ?case
  proof (cases "ws_clean ?scan")
    case False
    have "concat (map (\<lambda>s. ws_records (snd s)) later) = []"
      using Cons.prems(2) False by (auto simp: scans list_ex_iff split: if_splits)
    then show ?thesis
      using False data f applied_here
      by (simp add: replay_wals.simps [of E ro dir expected] scans Let_def recovered_def
          del: concat_eq_Nil_conv)
  next
    case True
    have "f \<noteq> - 1" using Cons.prems(5) by auto
    then have next': "u32_saturating_succ f = f + 1" by (simp add: u32_saturating_succ_def)
    have files: "g \<in> set ids" if "f + 1 \<le> g" "map_of dir (wal_file_name g) \<noteq> None" for g
    proof -
      have "unat f < unat g"
        using that(1) \<open>f \<noteq> - 1\<close> by (simp add: word_le_nat_alt unat_succ)
      then have "expected \<le> g" "g \<noteq> f" by (auto simp: f word_le_nat_alt)
      with Cons.prems(4) [of g] that(2) show ?thesis by auto
    qed
    have torn: "check_torn later = Inr u" using Cons.prems(2) by (simp add: scans split: if_splits)
    have "\<exists>st'. snd (replay_wals E ro dir (f + 1) (?st\<lparr>rp_active_wal := f\<rparr>)) = Inr st' \<and>
        recovered st' = recovered (foldl apply_record (?st\<lparr>rp_active_wal := f\<rparr>)
          (applied v (concat (map (\<lambda>s. ws_records (snd s)) later))))"
      using Cons.IH [OF later [unfolded next'] torn, of "?st\<lparr>rp_active_wal := f\<rparr>"] rest applied_here files
        Cons.prems(5) by simp
    then show ?thesis
      using True data f \<open>f \<noteq> - 1\<close> applied_here check_versions_append [OF here]
      by (simp add: replay_wals.simps [of E ro dir expected] scans Let_def)
  qed
qed

section \<open>Recovering twice\<close>

lemma wal_file_name_inject [simp]: "wal_file_name f = wal_file_name g \<longleftrightarrow> f = g"
  by (metis option.inject wal_file_id_name)

definition mended :: "u32 \<Rightarrow> u32 \<times> wal_scan \<Rightarrow> u32 \<times> wal_scan" where
  "mended f s = (fst s, if fst s = f then (snd s)\<lparr>ws_clean := True\<rparr> else snd s)"

lemma mended_simps [simp]:
  "fst (mended f s) = fst s" "ws_records (snd (mended f s)) = ws_records (snd s)"
  "ws_clean (snd s) \<Longrightarrow> ws_clean (snd (mended f s))"
  by (auto simp: mended_def)

lemma scan_chain_truncate:
  assumes "map_of dir (wal_file_name f) = Some data" and "scan_chain E dir expected ids = Inr scans"
  shows "scan_chain E (AList.update (wal_file_name f) (take (ws_valid_len (scan_wal E data)) data) dir)
    expected ids = Inr (map (mended f) scans)"
  using assms(2)
proof (induction ids arbitrary: expected scans)
  case (Cons g ids)
  then obtain data' later where g: "g = expected" and data': "map_of dir (wal_file_name g) = Some data'"
    and scans: "scans = (g, scan_wal E data') # later" and none: "ws_corruption (scan_wal E data') = None"
    and later: "scan_chain E dir (u32_saturating_succ g) ids = Inr later"
    by (auto simp: result_dests Let_def split: option.splits)
  have "scan_wal E (take (ws_valid_len (scan_wal E data')) data') = (scan_wal E data')\<lparr>ws_clean := True\<rparr>"
    using none unfolding scan_wal_truncate by simp
  with Cons.IH [OF later] g data' none assms(1) show ?case
    by (auto simp: scans mended_def update_conv' Let_def)
qed simp

lemma check_torn_mended: "check_torn scans = Inr u \<Longrightarrow> check_torn (map (mended f) scans) = Inr ()"
proof (induction scans)
  case (Cons s scans)
  have "list_ex (\<lambda>(_, s). ws_records s \<noteq> []) (map (mended f) scans) =
      list_ex (\<lambda>(_, s). ws_records s \<noteq> []) scans"
    by (auto simp: list_ex_iff case_prod_beta)
  with Cons show ?case
    by (cases s) (auto simp: mended_def [of f "(_, _)"] split: if_splits)
qed simp

lemma check_chain_versions_mended:
  "check_chain_versions v (map (mended f) scans) = check_chain_versions v scans"
proof (induction scans arbitrary: v)
  case (Cons s scans)
  then show ?case by (cases s) (simp add: mended_def [of f "(_, _)"])
qed simp

text \<open>What a replay does to the files: nothing, or it cuts one torn file of the chain.\<close>

lemma replay_wals_dir:
  "fst (replay_wals E ro dir fid st) = dir \<or>
   (\<exists>f data. map_of dir (wal_file_name f) = Some data \<and> fst (replay_wals E ro dir fid st) =
      AList.update (wal_file_name f) (take (ws_valid_len (scan_wal E data)) data) dir)"
proof (induction E ro dir fid st rule: replay_wals.induct)
  case (1 E ro dir fid st)
  show ?case
  proof (cases "map_of dir (wal_file_name fid)")
    case (Some data)
    show ?thesis
    proof (cases "ws_clean (scan_wal E data) \<and> is_ok (replay_records st (ws_records (scan_wal E data))) \<and> fid \<noteq> - 1")
      case True
      then obtain st' where st': "replay_records st (ws_records (scan_wal E data)) = Inr st'"
        by (auto simp: is_ok_def split: sum.splits)
      with "1.IH" [OF Some refl refl st' refl] True Some show ?thesis
        by (simp add: replay_wals.simps [of E ro dir fid] Let_def)
    next
      case False
      with Some show ?thesis
        by (auto simp: replay_wals.simps [of E ro dir fid] Let_def is_ok_def split: sum.splits)
    qed
  qed (simp add: replay_wals.simps [of E ro dir fid])
qed

lemma validate_wal_chain_parts:
  assumes "validate_wal_chain E dir anchor required watermark = Inr ids"
  obtains scans w where "scan_chain E dir anchor ids = Inr scans" and "check_torn scans = Inr ()"
    and "check_chain_versions watermark scans = Inr w"
    and "ids = sort (filter (\<lambda>fid. anchor \<le> fid) (List.map_filter (\<lambda>(name, _). wal_file_id name) dir))"
    and "ids \<noteq> []" and "hd ids = anchor" and "\<not> last ids < max required anchor"
    and "map (\<lambda>fid. scan_wal E (the (map_of dir (wal_file_name fid)))) ids = map snd scans"
proof -
  from assms obtain scans w where parts: "scan_chain E dir anchor ids = Inr scans" "check_torn scans = Inr ()"
      "check_chain_versions watermark scans = Inr w"
      "ids = sort (filter (\<lambda>fid. anchor \<le> fid) (List.map_filter (\<lambda>(name, _). wal_file_id name) dir))"
      "ids \<noteq> []" "hd ids = anchor" "\<not> last ids < max required anchor"
    by (auto simp: validate_wal_chain_def result_dests Let_def)
  note sound = scan_chain_sound [OF parts(1)]
  have "map (\<lambda>fid. scan_wal E (the (map_of dir (wal_file_name fid)))) ids = map snd scans"
    unfolding sound(1) [symmetric] by (auto simp: o_def dest!: sound(3))
  with parts show thesis using that by blast
qed

lemma files_in_chain:
  assumes "ids = sort (filter (\<lambda>fid. anchor \<le> fid) (List.map_filter (\<lambda>(name, _). wal_file_id name) dir))"
    and "anchor \<le> f" and "map_of dir (wal_file_name f) \<noteq> None"
  shows "f \<in> set ids"
proof -
  from assms(3) obtain data where "(wal_file_name f, data) \<in> set dir"
    by (auto dest: map_of_SomeD)
  then have "f \<in> set (List.map_filter (\<lambda>(name, _). wal_file_id name) dir)"
    by (force simp: map_filter_def)
  with assms(1,2) show ?thesis by simp
qed

definition sample_replay :: replay where
  "sample_replay = \<lparr>rp_version = 4, rp_identity = Map.empty, rp_pushed = [], rp_memtable_bytes = 0,
     rp_active_wal = 1\<rparr>"

section \<open>Properties\<close>

text \<open>C7. Recovery after an accepted preflight never fails, whatever files a crash left behind: the
  replay reaches a state whose index pushes are those of the initial state followed by exactly
  the changes of the committed records above the watermark, in commit order, and whose identity
  marks are merged with the marks of the same records.\<close>

theorem recovery_applies_committed:
  assumes "validate_wal_chain E dir anchor required (rp_version st) = Inr ids" and "- 1 \<notin> set ids"
  shows "let recs = applied (rp_version st)
           (concat (map (\<lambda>fid. ws_records (scan_wal E (the (map_of dir (wal_file_name fid))))) ids)) in
    \<exists>st'. snd (replay_wals E ro dir anchor st) = Inr st'
      \<and> rp_pushed st' = rp_pushed st @ concat (map record_pushes recs)
      \<and> rp_identity st' = merge_marks (rp_identity st) (concat (map wr_identity recs))
      \<and> (recs \<noteq> [] \<longrightarrow> rp_version st' = wr_version (last recs))"
proof -
  obtain scans w where parts: "scan_chain E dir anchor ids = Inr scans" "check_torn scans = Inr ()"
      "check_chain_versions (rp_version st) scans = Inr w"
      "ids = sort (filter (\<lambda>fid. anchor \<le> fid) (List.map_filter (\<lambda>(name, _). wal_file_id name) dir))"
    and scans: "map (\<lambda>fid. scan_wal E (the (map_of dir (wal_file_name fid)))) ids = map snd scans"
    using validate_wal_chain_parts [OF assms(1)] by metis
  let ?recs = "applied (rp_version st) (concat (map (\<lambda>s. ws_records (snd s)) scans))"
  have "map (\<lambda>fid. ws_records (scan_wal E (the (map_of dir (wal_file_name fid))))) ids =
      map (\<lambda>s. ws_records (snd s)) scans"
    using arg_cong [OF scans, of "map ws_records"] by (simp add: o_def)
  moreover obtain st' where "snd (replay_wals E ro dir anchor st) = Inr st'"
      and "recovered st' = recovered (foldl apply_record st ?recs)"
    using replay_chain [OF parts(1-3) files_in_chain [OF parts(4)] assms(2), of ro] by blast
  moreover have "?recs \<noteq> [] \<longrightarrow> rp_version (foldl apply_record st ?recs) = wr_version (last ?recs)"
    by (cases ?recs rule: rev_cases) (simp_all add: apply_record_def)
  ultimately show ?thesis
    by (simp add: recovered_def foldl_apply_record)
qed

theorem recovery_applies_committed_witness:
  "\<exists>st'. snd (replay_wals sample_ext False sample_dir 1 sample_replay) = Inr st' \<and> rp_version st' = 5"
  using recovery_applies_committed [of sample_ext sample_dir 1 1 sample_replay "[1]" False] sample_chain sample_scan
  by (auto simp: sample_replay_def sample_dir_def sample_record_def Let_def)

text \<open>C13. Recovery is idempotent. The files a recovery leaves behind (with the torn tail cut off)
  pass the preflight again, and replaying them from the same starting state recovers the same
  version, the same index pushes and the same identity marks: a crash during recovery loses
  nothing and repeats nothing.\<close>

theorem recovery_idempotent:
  assumes "validate_wal_chain E dir anchor required (rp_version st) = Inr ids" and "- 1 \<notin> set ids"
    and "replay_wals E False dir anchor st = (dir', Inr st')"
  shows "validate_wal_chain E dir' anchor required (rp_version st) = Inr ids
    \<and> (\<exists>st''. snd (replay_wals E False dir' anchor st) = Inr st'' \<and> recovered st'' = recovered st')"
proof -
  obtain scans w where parts: "scan_chain E dir anchor ids = Inr scans" "check_torn scans = Inr ()"
      "check_chain_versions (rp_version st) scans = Inr w"
      "ids = sort (filter (\<lambda>fid. anchor \<le> fid) (List.map_filter (\<lambda>(name, _). wal_file_id name) dir))"
      "ids \<noteq> []" "hd ids = anchor" "\<not> last ids < max required anchor"
    using validate_wal_chain_parts [OF assms(1)] by metis
  have old: "recovered st' = recovered (foldl apply_record st
      (applied (rp_version st) (concat (map (\<lambda>s. ws_records (snd s)) scans))))"
    using replay_chain [OF parts(1-3) files_in_chain [OF parts(4)] assms(2), of False] assms(3) by auto
  obtain scans' where scans': "scan_chain E dir' anchor ids = Inr scans'" "check_torn scans' = Inr ()"
      "check_chain_versions (rp_version st) scans' = Inr w"
      "map (\<lambda>s. ws_records (snd s)) scans' = map (\<lambda>s. ws_records (snd s)) scans"
    and names: "map fst dir' = map fst dir"
    using replay_wals_dir [of E False dir anchor st]
  proof
    assume "fst (replay_wals E False dir anchor st) = dir"
    then show thesis using that [of scans] parts assms(3) by simp
  next
    assume "\<exists>f data. map_of dir (wal_file_name f) = Some data \<and> fst (replay_wals E False dir anchor st) =
      AList.update (wal_file_name f) (take (ws_valid_len (scan_wal E data)) data) dir"
    then obtain f data where f: "map_of dir (wal_file_name f) = Some data"
      and dir': "dir' = AList.update (wal_file_name f) (take (ws_valid_len (scan_wal E data)) data) dir"
      using assms(3) by auto
    have "wal_file_name f \<in> set (map fst dir)"
      using f by (force dest: map_of_SomeD)
    then have "map fst dir' = map fst dir" by (simp add: dir' update_keys)
    with that [of "map (mended f) scans"] scan_chain_truncate [OF f parts(1)] check_torn_mended [OF parts(2)]
      parts(3) show thesis
      by (simp add: dir' check_chain_versions_mended o_def)
  qed
  have "List.map_filter (\<lambda>(name, _). wal_file_id name) dir' = List.map_filter wal_file_id (map fst dir')"
    "List.map_filter (\<lambda>(name, _). wal_file_id name) dir = List.map_filter wal_file_id (map fst dir)"
    by (simp_all add: map_filter_def o_def case_prod_beta filter_map)
  then have ids: "ids = sort (filter (\<lambda>fid. anchor \<le> fid) (List.map_filter (\<lambda>(name, _). wal_file_id name) dir'))"
    using parts(4) names by simp
  have "validate_wal_chain E dir' anchor required (rp_version st) = Inr ids"
    using scans' parts(5-7) by (simp add: validate_wal_chain_def ids [symmetric] Let_def)
  moreover have "\<exists>st''. snd (replay_wals E False dir' anchor st) = Inr st'' \<and> recovered st'' = recovered st'"
    using replay_chain [OF scans'(1-3) files_in_chain [OF ids] assms(2), of False] old scans'(4) by simp
  ultimately show ?thesis by blast
qed

theorem recovery_idempotent_witness:
  "\<exists>dir' st' st''. replay_wals sample_ext False sample_dir 1 sample_replay = (dir', Inr st') \<and>
     snd (replay_wals sample_ext False dir' 1 sample_replay) = Inr st'' \<and> recovered st'' = recovered st'"
proof -
  have chain: "validate_wal_chain sample_ext sample_dir 1 1 (rp_version sample_replay) = Inr [1]"
    using sample_chain by (simp add: sample_replay_def)
  have files: "map_of sample_dir (wal_file_name 2) = None"
    "map_of sample_dir (wal_file_name 1) = Some (commit_bytes sample_ext sample_record)"
    by (simp_all add: sample_dir_def)
  have "replay_wals sample_ext False sample_dir 2 st = (sample_dir, Inr st)" for st
    by (subst replay_wals.simps) (simp add: files)
  then have "\<exists>dir' st'. replay_wals sample_ext False sample_dir 1 sample_replay = (dir', Inr st')"
    by (subst replay_wals.simps)
      (simp add: files sample_scan Let_def, simp add: sample_record_def sample_replay_def u64_checked_succ_def)
  then obtain dir' st' where r: "replay_wals sample_ext False sample_dir 1 sample_replay = (dir', Inr st')"
    by blast
  from recovery_idempotent [OF chain _ r] r show ?thesis by auto
qed

end
