(* ===== verification/Map_Interface.thy ===== *)
theory Map_Interface
  imports Prelude
begin

text \<open>
  The interface of the engine's key/value containers: a row's columns, the copy-on-write tree
  behind the secondary deltas, and the primary delta are all used as finite maps. The locale
  \<open>map_ops\<close> states what a container promises (what a lookup returns after an insertion or a
  removal, that operations keep the container's invariant); what its users rely on is derived
  once here: building from a list of entries, overwriting, and independence of the order of
  insertions under different keys.
\<close>

locale map_ops =
  fixes empty :: 'm
    and lookup :: "'m \<Rightarrow> 'k \<Rightarrow> 'v option"
    and ins :: "'k \<Rightarrow> 'v \<Rightarrow> 'm \<Rightarrow> 'm"
    and del :: "'k \<Rightarrow> 'm \<Rightarrow> 'm"
    and invar :: "'m \<Rightarrow> bool"
  assumes invar_empty: "invar empty"
    and lookup_empty: "lookup empty k = None"
    and invar_ins: "invar m \<Longrightarrow> invar (ins k v m)"
    and lookup_ins: "invar m \<Longrightarrow> lookup (ins k v m) k' = (if k' = k then Some v else lookup m k')"
    and invar_del: "invar m \<Longrightarrow> invar (del k m)"
    and lookup_del: "invar m \<Longrightarrow> lookup (del k m) k' = (if k' = k then None else lookup m k')"
begin

text \<open>The loop \<open>for (key, value) in entries { map.insert(key, value); }\<close>.\<close>

lemma invar_extend: "invar m \<Longrightarrow> invar (foldl (\<lambda>m (k, v). ins k v m) m entries)"
  by (induction entries arbitrary: m) (auto simp: invar_ins)

lemma lookup_extend:
  "invar m \<Longrightarrow> lookup (foldl (\<lambda>m (k, v). ins k v m) m entries) k =
     (case map_of (rev entries) k of Some v \<Rightarrow> Some v | None \<Rightarrow> lookup m k)"
  by (induction entries arbitrary: m)
    (auto simp: invar_ins lookup_ins map_add_def split: option.splits)

lemma lookup_from_list:
  "lookup (foldl (\<lambda>m (k, v). ins k v m) empty entries) = map_of (rev entries)"
  by (rule ext) (simp add: lookup_extend invar_empty lookup_empty split: option.split)

lemma ins_overwrite: "invar m \<Longrightarrow> lookup (ins k v' (ins k v m)) = lookup (ins k v' m)"
  by (rule ext) (simp add: invar_ins lookup_ins)

lemma ins_commute:
  "invar m \<Longrightarrow> k \<noteq> k' \<Longrightarrow> lookup (ins k v (ins k' v' m)) = lookup (ins k' v' (ins k v m))"
  by (rule ext) (simp add: invar_ins lookup_ins)

lemma del_ins: "invar m \<Longrightarrow> lookup m k = None \<Longrightarrow> lookup (del k (ins k v m)) = lookup m"
  by (rule ext) (simp add: invar_ins lookup_ins lookup_del)

end

section \<open>Sorted association lists\<close>

text \<open>The specification the chunked containers refine: lists with strictly increasing keys.\<close>

fun al_ins :: "'k::linorder \<Rightarrow> 'v \<Rightarrow> ('k \<times> 'v) list \<Rightarrow> ('k \<times> 'v) list" where
  "al_ins k v [] = [(k, v)]"
| "al_ins k v ((a, b) # ps) =
     (if k < a then (k, v) # (a, b) # ps
      else if k = a then (k, v) # ps
      else (a, b) # al_ins k v ps)"

fun al_del :: "'k::linorder \<Rightarrow> ('k \<times> 'v) list \<Rightarrow> ('k \<times> 'v) list" where
  "al_del k [] = []"
| "al_del k ((a, b) # ps) = (if k = a then ps else (a, b) # al_del k ps)"

abbreviation sorted_keys :: "('k::linorder \<times> 'v) list \<Rightarrow> bool" where
  "sorted_keys ps \<equiv> sorted_wrt (\<lambda>p q. fst p < fst q) ps"

lemma set_al_ins: "p \<in> set (al_ins k v ps) \<Longrightarrow> p = (k, v) \<or> p \<in> set ps"
  by (induction ps) (auto split: if_splits)

lemma sorted_al_ins: "sorted_keys ps \<Longrightarrow> sorted_keys (al_ins k v ps)"
proof (induction ps)
  case (Cons p ps)
  then show ?case by (cases p) (fastforce dest!: set_al_ins)
qed simp

lemma set_al_del: "p \<in> set (al_del k ps) \<Longrightarrow> p \<in> set ps"
  by (induction ps) (auto split: if_splits)

lemma sorted_al_del: "sorted_keys ps \<Longrightarrow> sorted_keys (al_del k ps)"
proof (induction ps)
  case (Cons p ps)
  then show ?case by (cases p) (auto dest!: set_al_del)
qed simp

lemma map_of_al_ins: "map_of (al_ins k v ps) k' = (if k' = k then Some v else map_of ps k')"
  by (induction ps) auto

lemma sorted_keys_head: "sorted_keys ((a, b) # ps) \<Longrightarrow> map_of ps a = None"
  by (auto simp: map_of_eq_None_iff)

lemma map_of_al_del: "sorted_keys ps \<Longrightarrow> map_of (al_del k ps) k' = (if k' = k then None else map_of ps k')"
proof (induction ps)
  case (Cons p ps)
  then have "map_of ps (fst p) = None" by (intro sorted_keys_head [of _ "snd p"]) simp
  with Cons show ?case by (cases p) auto
qed simp

lemma al_ins_after: "\<forall>p \<in> set xs. fst p < k \<Longrightarrow> al_ins k v (xs @ ys) = xs @ al_ins k v ys"
  by (induction xs) auto

lemma al_ins_before: "\<forall>p \<in> set ys. k < fst p \<Longrightarrow> al_ins k v (xs @ ys) = al_ins k v xs @ ys"
  by (induction xs) (auto, cases ys, auto)

lemma al_del_after: "\<forall>p \<in> set xs. fst p < k \<Longrightarrow> al_del k (xs @ ys) = xs @ al_del k ys"
  by (induction xs) auto

lemma al_del_before: "\<forall>p \<in> set ys. k < fst p \<Longrightarrow> al_del k (xs @ ys) = al_del k xs @ ys"
proof (induction xs)
  case Nil
  then show ?case by (induction ys) auto
qed auto

lemma al_del_absent: "map_of ps k = None \<Longrightarrow> al_del k ps = ps"
  by (induction ps) (auto split: if_splits)

lemma length_al_ins: "length (al_ins k v ps) = (if map_of ps k = None then Suc (length ps) else length ps)"
  if "sorted_keys ps"
  using that
proof (induction ps)
  case (Cons p ps)
  then show ?case by (cases p) (auto simp: map_of_eq_None_iff)
qed simp

interpretation alist: map_ops "[]" map_of "al_ins :: 'k::linorder \<Rightarrow> 'v \<Rightarrow> _" al_del sorted_keys
  by unfold_locales (simp_all add: sorted_al_ins map_of_al_ins sorted_al_del map_of_al_del)

end
