(* ===== verification/Cow_Map.thy ===== *)
theory Cow_Map
  imports Map_Interface
begin

text \<open>
  The chunked sorted map behind the derived indexes (\<open>db/cow.rs\<close>). A clone shares its chunks
  and a write copies the chunk it changes (\<open>Arc::make_mut\<close>), so a map behaves as a value; the
  model passes maps as values.

  The functional refinement: flattening the chunks gives a sorted association list, on which
  inserting, removing and ranging are the obvious list operations.
\<close>

section \<open>Standard library searches\<close>

text \<open>\<open>partition_point\<close> on a slice that is partitioned, and \<open>binary_search_by\<close> on a slice with
  increasing keys: the position of the key, or where it would be inserted.\<close>

definition partition_point :: "('a \<Rightarrow> bool) \<Rightarrow> 'a list \<Rightarrow> nat" where
  "partition_point p xs = length (takeWhile p xs)"

definition binary_search :: "'k::linorder \<Rightarrow> ('k \<times> 'v) list \<Rightarrow> nat + nat" where
  "binary_search key entries =
     (let at = partition_point (\<lambda>e. fst e < key) entries in
      if at < length entries \<and> fst (entries ! at) = key then Inr at else Inl at)"

section \<open>The map\<close>

abbreviation "CHUNK_ENTRIES \<equiv> (64::nat)"

record ('k, 'v) cow_map =
  chunks :: "('k \<times> 'v) list list"
  cow_len :: nat

definition cow_default :: "('k, 'v) cow_map" where
  "cow_default = \<lparr>chunks = [], cow_len = 0\<rparr>"

definition cow_is_empty :: "('k, 'v) cow_map \<Rightarrow> bool" where
  "cow_is_empty m \<longleftrightarrow> cow_len m = 0"

definition chunk_for :: "('k::linorder, 'v) cow_map \<Rightarrow> 'k \<Rightarrow> nat" where
  "chunk_for m key = partition_point (\<lambda>chunk. fst (chunk ! 0) \<le> key) (chunks m) - 1"

text \<open>\<open>Inr\<close> is the chunk and position of the key, \<open>Inl\<close> where it would be inserted.\<close>

definition locate :: "('k::linorder, 'v) cow_map \<Rightarrow> 'k \<Rightarrow> (nat \<times> nat) + (nat \<times> nat)" where
  "locate m key =
     (if chunks m = [] then Inl (0, 0)
      else
        let chunk = chunk_for m key in
        case binary_search key (chunks m ! chunk) of
          Inr at \<Rightarrow> Inr (chunk, at)
        | Inl at \<Rightarrow> Inl (chunk, at))"

definition cow_get :: "('k::linorder, 'v) cow_map \<Rightarrow> 'k \<Rightarrow> 'v option" where
  "cow_get m key =
     (case locate m key of
        Inr (chunk, at) \<Rightarrow> Some (snd (chunks m ! chunk ! at))
      | Inl _ \<Rightarrow> None)"

definition insert_at :: "nat \<Rightarrow> 'a \<Rightarrow> 'a list \<Rightarrow> 'a list" where
  "insert_at i x xs = take i xs @ x # drop i xs"

definition remove_at :: "nat \<Rightarrow> 'a list \<Rightarrow> 'a list" where
  "remove_at i xs = take i xs @ drop (Suc i) xs"

definition cow_insert :: "'k::linorder \<Rightarrow> 'v \<Rightarrow> ('k, 'v) cow_map \<Rightarrow> ('k, 'v) cow_map \<times> 'v option" where
  "cow_insert key v m =
     (case locate m key of
        Inr (chunk, at) \<Rightarrow>
          (m\<lparr>chunks := (chunks m)[chunk := (chunks m ! chunk)[at := (key, v)]]\<rparr>,
           Some (snd (chunks m ! chunk ! at)))
      | Inl (chunk, at) \<Rightarrow>
          (let m = m\<lparr>cow_len := cow_len m + 1\<rparr> in
           if chunks m = [] then (m\<lparr>chunks := [[(key, v)]]\<rparr>, None)
           else
             let last = length (chunks m) - 1 in
             if chunk = last \<and> at = length (chunks m ! last) \<and> length (chunks m ! last) \<ge> CHUNK_ENTRIES
             then (m\<lparr>chunks := chunks m @ [[(key, v)]]\<rparr>, None)
             else
               let target = insert_at at (key, v) (chunks m ! chunk) in
               if length target > 2 * CHUNK_ENTRIES then
                 let half = length target div 2 in
                 (m\<lparr>chunks := insert_at (chunk + 1) (drop half target)
                                ((chunks m)[chunk := take half target])\<rparr>, None)
               else (m\<lparr>chunks := (chunks m)[chunk := target]\<rparr>, None)))"

definition cow_get_or_insert_default ::
    "'v \<Rightarrow> 'k::linorder \<Rightarrow> ('k, 'v) cow_map \<Rightarrow> ('k, 'v) cow_map \<times> 'v option" where
  "cow_get_or_insert_default d key m =
     (let m = (case locate m key of Inr _ \<Rightarrow> m | Inl _ \<Rightarrow> fst (cow_insert key d m))
      in (m, cow_get m key))"

definition cow_remove :: "'k::linorder \<Rightarrow> ('k, 'v) cow_map \<Rightarrow> ('k, 'v) cow_map \<times> 'v option" where
  "cow_remove key m =
     (case locate m key of
        Inl _ \<Rightarrow> (m, None)
      | Inr (chunk, at) \<Rightarrow>
          (let target = remove_at at (chunks m ! chunk);
               cs = (if target = [] then remove_at chunk (chunks m) else (chunks m)[chunk := target])
           in (\<lparr>chunks = cs, cow_len = cow_len m - 1\<rparr>, Some (snd (chunks m ! chunk ! at)))))"

definition cow_clear :: "('k, 'v) cow_map \<Rightarrow> ('k, 'v) cow_map" where
  "cow_clear m = \<lparr>chunks = [], cow_len = 0\<rparr>"

definition cow_iter :: "('k, 'v) cow_map \<Rightarrow> ('k \<times> 'v) list" where
  "cow_iter m = concat (chunks m)"

definition cow_range_from :: "('k::linorder, 'v) cow_map \<Rightarrow> 'k \<Rightarrow> bool \<Rightarrow> ('k \<times> 'v) list" where
  "cow_range_from m start inclusive =
     (let (first_chunk, first_at) =
            (case locate m start of
               Inr (chunk, at) \<Rightarrow> (chunk, if inclusive then at else at + 1)
             | Inl (chunk, at) \<Rightarrow> (chunk, at))
      in concat (map (\<lambda>(index, chunk). drop (min (if index = first_chunk then first_at else 0) (length chunk)) chunk)
           (drop first_chunk (enumerate 0 (chunks m)))))"

section \<open>The set\<close>

type_synonym 'a cow_set = "('a, unit) cow_map"

definition cow_set_contains :: "'a::linorder \<Rightarrow> 'a cow_set \<Rightarrow> bool" where
  "cow_set_contains x s \<longleftrightarrow> cow_get s x \<noteq> None"

definition cow_set_insert :: "'a::linorder \<Rightarrow> 'a cow_set \<Rightarrow> 'a cow_set \<times> bool" where
  "cow_set_insert x s = (case cow_insert x () s of (s, old) \<Rightarrow> (s, old = None))"

definition cow_set_remove :: "'a::linorder \<Rightarrow> 'a cow_set \<Rightarrow> 'a cow_set \<times> bool" where
  "cow_set_remove x s = (case cow_remove x s of (s, old) \<Rightarrow> (s, old \<noteq> None))"

definition cow_set_iter :: "'a cow_set \<Rightarrow> 'a list" where
  "cow_set_iter s = map fst (cow_iter s)"

definition cow_set_range_after :: "'a::linorder cow_set \<Rightarrow> 'a option \<Rightarrow> 'a list" where
  "cow_set_range_after s after =
     (case after of
        Some a \<Rightarrow> map fst (cow_range_from s a False)
      | None \<Rightarrow> map fst (cow_iter s))"

definition cow_set_from_iter :: "'a::linorder list \<Rightarrow> 'a cow_set" where
  "cow_set_from_iter xs = foldl (\<lambda>s x. fst (cow_set_insert x s)) cow_default xs"

section \<open>Searching one chunk\<close>

lemma binary_search_Cons:
  "binary_search k ((a, b) # xs) =
     (if a < k then (case binary_search k xs of Inr i \<Rightarrow> Inr (Suc i) | Inl i \<Rightarrow> Inl (Suc i))
      else if a = k then Inr 0 else Inl 0)"
  by (simp add: binary_search_def partition_point_def Let_def)

lemma binary_search_Nil: "binary_search k [] = Inl 0"
  by (simp add: binary_search_def partition_point_def)

lemma binary_search_found:
  "binary_search k xs = Inr i \<Longrightarrow> sorted_keys xs \<Longrightarrow>
     i < length xs \<and> xs[i := (k, v)] = al_ins k v xs \<and> remove_at i xs = al_del k xs
     \<and> map_of xs k = Some (snd (xs ! i)) \<and> fst (xs ! i) = k"
proof (induction xs arbitrary: i)
  case (Cons x xs)
  then show ?case
    by (cases x) (auto simp: binary_search_Cons remove_at_def split: if_splits sum.splits)
qed (simp add: binary_search_Nil)

lemma binary_search_absent:
  "binary_search k xs = Inl i \<Longrightarrow> sorted_keys xs \<Longrightarrow>
     i \<le> length xs \<and> insert_at i (k, v) xs = al_ins k v xs \<and> map_of xs k = None
     \<and> (\<forall>x \<in> set (take i xs). fst x < k) \<and> (\<forall>x \<in> set (drop i xs). k < fst x)"
proof (induction xs arbitrary: i)
  case (Cons x xs)
  then show ?case
    by (cases x) (fastforce simp: binary_search_Cons insert_at_def map_of_eq_None_iff
        split: if_splits sum.splits)
qed (simp add: binary_search_Nil insert_at_def)

section \<open>The invariant and the chunk of a key\<close>

text \<open>Searches need the chunks in order and none empty; updates keep them short and count them.\<close>

definition cow_shape :: "('k::linorder, 'v) cow_map \<Rightarrow> bool" where
  "cow_shape m \<longleftrightarrow> sorted_keys (cow_iter m) \<and> (\<forall>c \<in> set (chunks m). c \<noteq> [])"

definition cow_inv :: "('k::linorder, 'v) cow_map \<Rightarrow> bool" where
  "cow_inv m \<longleftrightarrow>
     sorted_keys (cow_iter m) \<and> cow_len m = length (cow_iter m)
     \<and> (\<forall>c \<in> set (chunks m). c \<noteq> [] \<and> length c \<le> 2 * CHUNK_ENTRIES)"

lemma cow_inv_shape: "cow_inv m \<Longrightarrow> cow_shape m"
  by (auto simp: cow_inv_def cow_shape_def)

lemma sorted_keys_hd: "sorted_keys xs \<Longrightarrow> x \<in> set xs \<Longrightarrow> fst (hd xs) \<le> fst x"
  by (cases xs) (auto simp: less_imp_le)

lemma concat_split:
  "c < length cs \<Longrightarrow> concat cs = concat (take c cs) @ cs ! c @ concat (drop (Suc c) cs)"
  by (metis concat.simps(2) concat_append id_take_nth_drop)

lemma chunk_for_split:
  assumes "cow_shape m" and "chunks m \<noteq> []" and c: "c = chunk_for m k"
  shows "c < length (chunks m)"
    and "\<forall>x \<in> set (concat (take c (chunks m))). fst x < k"
    and "\<forall>x \<in> set (concat (drop (Suc c) (chunks m))). k < fst x"
    and "sorted_keys (chunks m ! c)"
proof -
  let ?cs = "chunks m" and ?first = "\<lambda>chunk :: ('a \<times> 'b) list. fst (chunk ! 0) \<le> k"
  define pp where "pp = partition_point ?first ?cs"
  have pp: "pp \<le> length ?cs" "\<And>i. i < pp \<Longrightarrow> ?first (?cs ! i)" "pp < length ?cs \<Longrightarrow> \<not> ?first (?cs ! pp)"
    using nth_length_takeWhile [of ?first ?cs]
    by (auto simp: pp_def partition_point_def length_takeWhile_le
        dest!: set_takeWhileD [OF nth_mem] simp flip: takeWhile_nth)
  have cpp: "c = pp - 1" by (simp add: c chunk_for_def pp_def)
  show cl: "c < length ?cs" using pp(1) assms(2) by (cases pp) (auto simp: cpp)
  have ne: "\<And>i. i < length ?cs \<Longrightarrow> ?cs ! i \<noteq> []" using assms(1) by (simp add: cow_shape_def)
  have "sorted_keys (concat (take c ?cs) @ ?cs ! c @ concat (drop (Suc c) ?cs))"
    using assms(1) concat_split [OF cl] by (simp add: cow_shape_def cow_iter_def)
  then have sorted: "sorted_keys (?cs ! c)" "sorted_keys (concat (drop (Suc c) ?cs))"
    and before: "\<And>x y. x \<in> set (concat (take c ?cs)) \<Longrightarrow> y \<in> set (?cs ! c) \<Longrightarrow> fst x < fst y"
    and after: "\<And>x y. x \<in> set (?cs ! c) \<Longrightarrow> y \<in> set (concat (drop (Suc c) ?cs)) \<Longrightarrow> fst x < fst y"
    by (simp_all only: sorted_wrt_append set_append) blast+
  show "sorted_keys (?cs ! c)" by (rule sorted)
  have hd: "?cs ! c ! 0 \<in> set (?cs ! c)" using ne [OF cl] by simp
  show "\<forall>x \<in> set (concat (take c ?cs)). fst x < k"
  proof
    fix x assume x: "x \<in> set (concat (take c ?cs))"
    then have "c < pp" by (cases pp) (auto simp: cpp)
    with pp(2) before [OF x hd] show "fst x < k" by fastforce
  qed
  show "\<forall>x \<in> set (concat (drop (Suc c) ?cs)). k < fst x"
  proof
    fix x assume x: "x \<in> set (concat (drop (Suc c) ?cs))"
    show "k < fst x"
    proof (cases pp)
      case 0
      with pp(3) cl cpp after [OF hd x] show ?thesis by fastforce
    next
      case (Suc n)
      have "Suc c < length ?cs" using x by (cases "Suc c < length ?cs") auto
      moreover from this have "concat (drop (Suc c) ?cs) = ?cs ! Suc c @ concat (drop (Suc (Suc c)) ?cs)"
        by (metis Cons_nth_drop_Suc concat.simps(2))
      moreover from calculation have "hd (concat (drop (Suc c) ?cs)) = ?cs ! Suc c ! 0"
        using ne [of "Suc c"] by (simp add: hd_conv_nth nth_append)
      ultimately show ?thesis
        using sorted_keys_hd [OF sorted(2) x] pp(3) Suc cpp by fastforce
    qed
  qed
qed

section \<open>Refinement of sorted association lists\<close>

lemma locate_found:
  assumes inv: "cow_shape m" and loc: "locate m k = Inr (c, i)"
  shows "c < length (chunks m)" and "i < length (chunks m ! c)"
    and "cow_iter (m\<lparr>chunks := (chunks m)[c := (chunks m ! c)[i := (k, v)]]\<rparr>) = al_ins k v (cow_iter m)"
    and "concat ((chunks m)[c := remove_at i (chunks m ! c)]) = al_del k (cow_iter m)"
    and "map_of (cow_iter m) k = Some (snd (chunks m ! c ! i))"
    and "fst (chunks m ! c ! i) = k"
proof -
  have ne: "chunks m \<noteq> []" and c: "c = chunk_for m k" and bs: "binary_search k (chunks m ! c) = Inr i"
    using loc by (auto simp: locate_def Let_def split: if_splits sum.splits)
  note split = chunk_for_split [OF inv ne c]
  note found = binary_search_found [OF bs split(4)]
  have upd: "concat ((chunks m)[c := x]) =
      concat (take c (chunks m)) @ x @ concat (drop (Suc c) (chunks m))" for x
    using split(1) by (simp add: upd_conv_take_nth_drop)
  have flat: "cow_iter m = concat (take c (chunks m)) @ chunks m ! c @ concat (drop (Suc c) (chunks m))"
    unfolding cow_iter_def by (rule concat_split [OF split(1)])
  show "c < length (chunks m)" "i < length (chunks m ! c)" "fst (chunks m ! c ! i) = k" using split(1) found by auto
  show "cow_iter (m\<lparr>chunks := (chunks m)[c := (chunks m ! c)[i := (k, v)]]\<rparr>) = al_ins k v (cow_iter m)"
    using found unfolding flat by (simp add: cow_iter_def upd al_ins_after [OF split(2)] al_ins_before [OF split(3)])
  show "concat ((chunks m)[c := remove_at i (chunks m ! c)]) = al_del k (cow_iter m)"
    using found unfolding flat by (simp add: upd al_del_after [OF split(2)] al_del_before [OF split(3)])
  have "map_of (concat (take c (chunks m))) k = None"
    using split(2) by (auto simp: map_of_eq_None_iff)
  moreover have "map_of (concat (drop (Suc c) (chunks m))) k = None"
    using split(3) by (auto simp: map_of_eq_None_iff)
  ultimately show "map_of (cow_iter m) k = Some (snd (chunks m ! c ! i))"
    using found unfolding flat by (simp add: map_add_def)
qed

lemma locate_absent:
  assumes inv: "cow_shape m" and loc: "locate m k = Inl (c, i)" and ne: "chunks m \<noteq> []"
  shows "c < length (chunks m)" and "i \<le> length (chunks m ! c)"
    and "concat ((chunks m)[c := insert_at i (k, v) (chunks m ! c)]) = al_ins k v (cow_iter m)"
    and "map_of (cow_iter m) k = None"
    and "take (length (concat (take c (chunks m))) + i) (cow_iter m) = filter (\<lambda>x. fst x < k) (cow_iter m)"
proof -
  have c: "c = chunk_for m k" and bs: "binary_search k (chunks m ! c) = Inl i"
    using loc ne by (auto simp: locate_def Let_def split: sum.splits)
  note split = chunk_for_split [OF inv ne c]
  note absent = binary_search_absent [OF bs split(4)]
  have upd: "concat ((chunks m)[c := x]) =
      concat (take c (chunks m)) @ x @ concat (drop (Suc c) (chunks m))" for x
    using split(1) by (simp add: upd_conv_take_nth_drop)
  have flat: "cow_iter m = concat (take c (chunks m)) @ chunks m ! c @ concat (drop (Suc c) (chunks m))"
    unfolding cow_iter_def by (rule concat_split [OF split(1)])
  show "c < length (chunks m)" "i \<le> length (chunks m ! c)" using split(1) absent by auto
  show "concat ((chunks m)[c := insert_at i (k, v) (chunks m ! c)]) = al_ins k v (cow_iter m)"
    using absent unfolding flat by (simp add: upd al_ins_after [OF split(2)] al_ins_before [OF split(3)])
  have "map_of (concat (take c (chunks m))) k = None"
    using split(2) by (auto simp: map_of_eq_None_iff)
  moreover have "map_of (concat (drop (Suc c) (chunks m))) k = None"
    using split(3) by (auto simp: map_of_eq_None_iff)
  ultimately show "map_of (cow_iter m) k = None"
    using absent unfolding flat by (simp add: map_add_def)
  have "filter (\<lambda>x. fst x < k) (chunks m ! c) = take i (chunks m ! c)"
  proof -
    have "filter (\<lambda>x. fst x < k) (take i (chunks m ! c) @ drop i (chunks m ! c)) = take i (chunks m ! c)"
      using absent by (simp only: filter_append) (fastforce simp: filter_id_conv filter_empty_conv)
    then show ?thesis by simp
  qed
  moreover have "filter (\<lambda>x. fst x < k) (concat (take c (chunks m))) = concat (take c (chunks m))"
    using split(2) by (simp add: filter_id_conv)
  moreover have "filter (\<lambda>x. fst x < k) (concat (drop (Suc c) (chunks m))) = []"
    unfolding filter_empty_conv using split(3) by (blast dest: less_asym)
  ultimately show "take (length (concat (take c (chunks m))) + i) (cow_iter m) = filter (\<lambda>x. fst x < k) (cow_iter m)"
    using absent unfolding flat by simp
qed

lemma cow_get_refines: "cow_shape m \<Longrightarrow> cow_get m k = map_of (cow_iter m) k"
proof (cases "locate m k")
  case (Inr ci)
  assume "cow_shape m"
  with Inr show ?thesis by (cases ci) (simp add: cow_get_def locate_found(5))
next
  case (Inl ci)
  assume inv: "cow_shape m"
  obtain c i where ci: "ci = (c, i)" by force
  show ?thesis
  proof (cases "chunks m = []")
    case False
    with Inl ci locate_absent(4) [OF inv, of k c i] show ?thesis by (simp add: cow_get_def)
  qed (use Inl in \<open>simp add: cow_get_def cow_iter_def\<close>)
qed

lemma concat_insert_at_split:
  "c < length cs \<Longrightarrow> concat (insert_at (Suc c) (drop h x) (cs[c := take h x])) = concat (cs[c := x])"
  by (simp add: insert_at_def upd_conv_take_nth_drop take_Suc_conv_app_nth)

lemma update_all: "\<forall>x \<in> set xs. P x \<Longrightarrow> P y \<Longrightarrow> \<forall>x \<in> set (xs[i := y]). P x"
  by (auto dest!: set_update_subset_insert [THEN subsetD])

lemma set_insert_at: "set (insert_at i x xs) = insert x (set xs)"
  by (metis insert_at_def Un_insert_right append_take_drop_id list.simps(15) set_append)

lemma cow_insert_refines:
  assumes inv: "cow_inv m"
  shows "cow_iter (fst (cow_insert k v m)) = al_ins k v (cow_iter m)"
    and "cow_len (fst (cow_insert k v m)) = length (al_ins k v (cow_iter m))"
    and "\<forall>c \<in> set (chunks (fst (cow_insert k v m))). c \<noteq> [] \<and> length c \<le> 2 * CHUNK_ENTRIES"
    and "snd (cow_insert k v m) = map_of (cow_iter m) k"
proof -
  have sorted: "sorted_keys (cow_iter m)" and len: "cow_len m = length (cow_iter m)"
    and cs: "\<And>c. c \<in> set (chunks m) \<Longrightarrow> c \<noteq> [] \<and> length c \<le> 2 * CHUNK_ENTRIES"
    using inv by (auto simp: cow_inv_def)
  note length_ins = length_al_ins [OF sorted, of k v]
  consider (found) c i where "locate m k = Inr (c, i)"
    | (first) c i where "locate m k = Inl (c, i)" "chunks m = []"
    | (append) c i where "locate m k = Inl (c, i)" "chunks m \<noteq> []" "c = length (chunks m) - 1"
        "i = length (chunks m ! c)" "length (chunks m ! c) \<ge> CHUNK_ENTRIES"
    | (inside) c i where "locate m k = Inl (c, i)" "chunks m \<noteq> []"
        "\<not> (c = length (chunks m) - 1 \<and> i = length (chunks m ! c) \<and> length (chunks m ! c) \<ge> CHUNK_ENTRIES)"
  proof (cases "locate m k")
    case (Inl ci)
    then obtain c i where "locate m k = Inl (c, i)" by (cases ci) simp
    then show thesis using that(2-4) [of c i] by blast
  next
    case (Inr ci)
    then show thesis using that(1) by (cases ci) simp
  qed
  then have "cow_iter (fst (cow_insert k v m)) = al_ins k v (cow_iter m) \<and>
    cow_len (fst (cow_insert k v m)) = length (al_ins k v (cow_iter m)) \<and>
    (\<forall>c \<in> set (chunks (fst (cow_insert k v m))). c \<noteq> [] \<and> length c \<le> 2 * CHUNK_ENTRIES) \<and>
    snd (cow_insert k v m) = map_of (cow_iter m) k"
  proof cases
    case found
    note at = locate_found [OF cow_inv_shape [OF inv] found]
    have "chunks m ! c \<in> set (chunks m)" using at(1) by simp
    from cs [OF this] show ?thesis
      using found at(3,5) length_ins len at(1,2) cs
      by (auto simp: cow_insert_def dest!: set_update_subset_insert [THEN subsetD])
  next
    case first
    then show ?thesis using len by (simp add: cow_insert_def cow_iter_def Let_def)
  next
    case append
    note at = locate_absent [OF cow_inv_shape [OF inv] append(1,2)]
    have last: "insert_at i (k, v) (chunks m ! c) = chunks m ! c @ [(k, v)]"
      by (simp add: insert_at_def append(4))
    have "concat ((chunks m)[c := insert_at i (k, v) (chunks m ! c)]) = concat (chunks m @ [[(k, v)]])"
      unfolding last using append(2,3) by (cases "chunks m" rule: rev_cases) (simp_all add: nth_append)
    then show ?thesis
      using append at(3,4) length_ins len cs by (auto simp: cow_insert_def Let_def cow_iter_def)
  next
    case inside
    note at = locate_absent [OF cow_inv_shape [OF inv] inside(1,2)]
    let ?t = "insert_at i (k, v) (chunks m ! c)"
    have "chunks m ! c \<in> set (chunks m)" using at(1) by simp
    note chunk = cs [OF this]
    have t: "length ?t = Suc (length (chunks m ! c))" using at(2) by (simp add: insert_at_def)
    show ?thesis
    proof (cases "length ?t > 2 * CHUNK_ENTRIES")
      case True
      then have res: "fst (cow_insert k v m) = \<lparr>chunks = insert_at (Suc c) (drop (length ?t div 2) ?t)
          ((chunks m)[c := take (length ?t div 2) ?t]), cow_len = Suc (cow_len m)\<rparr>"
        "snd (cow_insert k v m) = None"
        using inside by (auto simp: cow_insert_def Let_def)
      have halves: "take (length ?t div 2) ?t \<noteq> []" "drop (length ?t div 2) ?t \<noteq> []"
        "length (take (length ?t div 2) ?t) \<le> 2 * CHUNK_ENTRIES"
        "length (drop (length ?t div 2) ?t) \<le> 2 * CHUNK_ENTRIES"
        using t chunk True by auto
      have "\<forall>x \<in> set (insert_at (Suc c) (drop (length ?t div 2) ?t) ((chunks m)[c := take (length ?t div 2) ?t])).
          x \<noteq> [] \<and> length x \<le> 2 * CHUNK_ENTRIES"
        unfolding set_insert_at ball_simps(7)
      proof (intro conjI halves update_all)
        show "\<forall>x \<in> set (chunks m). x \<noteq> [] \<and> length x \<le> 2 * CHUNK_ENTRIES" using cs by blast
      qed
      then show ?thesis
        using at(3,4) length_ins len unfolding res
        by (simp add: cow_iter_def concat_insert_at_split [OF at(1)])
    next
      case False
      then have res: "fst (cow_insert k v m) = \<lparr>chunks = (chunks m)[c := ?t], cow_len = Suc (cow_len m)\<rparr>"
        "snd (cow_insert k v m) = None"
        using inside by (auto simp: cow_insert_def Let_def)
      have "?t \<noteq> []" by (simp add: insert_at_def)
      then have "\<forall>x \<in> set ((chunks m)[c := ?t]). x \<noteq> [] \<and> length x \<le> 2 * CHUNK_ENTRIES"
        using False cs by (auto dest!: set_update_subset_insert [THEN subsetD])
      then show ?thesis
        using at(3,4) length_ins len unfolding res by (simp add: cow_iter_def)
    qed
  qed
  then show "cow_iter (fst (cow_insert k v m)) = al_ins k v (cow_iter m)"
    and "cow_len (fst (cow_insert k v m)) = length (al_ins k v (cow_iter m))"
    and "\<forall>c \<in> set (chunks (fst (cow_insert k v m))). c \<noteq> [] \<and> length c \<le> 2 * CHUNK_ENTRIES"
    and "snd (cow_insert k v m) = map_of (cow_iter m) k"
    by simp_all
qed

lemma cow_inv_insert: "cow_inv m \<Longrightarrow> cow_inv (fst (cow_insert k v m))"
  using cow_insert_refines [of m k v] sorted_al_ins [of "cow_iter m" k v]
  by (simp add: cow_inv_def)

lemma cow_remove_refines:
  assumes inv: "cow_inv m"
  shows "cow_iter (fst (cow_remove k m)) = al_del k (cow_iter m)"
    and "cow_inv (fst (cow_remove k m))"
    and "snd (cow_remove k m) = map_of (cow_iter m) k"
proof -
  have sorted: "sorted_keys (cow_iter m)" and len: "cow_len m = length (cow_iter m)"
    and cs: "\<forall>c \<in> set (chunks m). c \<noteq> [] \<and> length c \<le> 2 * CHUNK_ENTRIES"
    using inv by (auto simp: cow_inv_def)
  have get: "cow_get m k = map_of (cow_iter m) k" by (rule cow_get_refines [OF cow_inv_shape [OF inv]])
  show iter: "cow_iter (fst (cow_remove k m)) = al_del k (cow_iter m)"
    and "cow_inv (fst (cow_remove k m))"
    and "snd (cow_remove k m) = map_of (cow_iter m) k"
  proof (atomize(full), cases "locate m k")
    case (Inl ci)
    then have "map_of (cow_iter m) k = None" using get by (simp add: cow_get_def)
    with Inl inv show "cow_iter (fst (cow_remove k m)) = al_del k (cow_iter m)
      \<and> cow_inv (fst (cow_remove k m)) \<and> snd (cow_remove k m) = map_of (cow_iter m) k"
      by (simp add: cow_remove_def al_del_absent)
  next
    case (Inr ci)
    then obtain c i where loc: "locate m k = Inr (c, i)" by (cases ci) simp
    note at = locate_found [OF cow_inv_shape [OF inv] loc]
    let ?t = "remove_at i (chunks m ! c)"
    define cs' where "cs' = (if ?t = [] then remove_at c (chunks m) else (chunks m)[c := ?t])"
    have res: "cow_remove k m = (\<lparr>chunks = cs', cow_len = cow_len m - 1\<rparr>, Some (snd (chunks m ! c ! i)))"
      by (simp add: cow_remove_def loc Let_def cs'_def)
    have flat: "concat cs' = al_del k (cow_iter m)"
      using at(1,4) by (auto simp: cs'_def upd_conv_take_nth_drop remove_at_def)
    have "chunks m ! c \<in> set (chunks m)" using at(1) by simp
    then have "length ?t \<le> 2 * CHUNK_ENTRIES" using cs at(2) by (auto simp: remove_at_def)
    then have good: "\<forall>x \<in> set cs'. x \<noteq> [] \<and> length x \<le> 2 * CHUNK_ENTRIES"
      using update_all [OF cs, of ?t c] cs
      by (auto simp: cs'_def remove_at_def dest: in_set_takeD in_set_dropD)
    have "length (concat ((chunks m)[c := ?t])) = length (concat (chunks m)) - 1"
      using at(1,2) arg_cong [OF concat_split [OF at(1)], of length]
      by (simp add: upd_conv_take_nth_drop remove_at_def)
    then have "length (concat cs') = length (cow_iter m) - 1"
      unfolding flat by (simp only: at(4) cow_iter_def)
    with flat good len sorted sorted_al_del [OF sorted, of k] at(5)
    show "cow_iter (fst (cow_remove k m)) = al_del k (cow_iter m)
      \<and> cow_inv (fst (cow_remove k m)) \<and> snd (cow_remove k m) = map_of (cow_iter m) k"
      unfolding res by (simp add: cow_inv_def cow_iter_def)
  qed
qed

interpretation cow: map_ops cow_default cow_get "\<lambda>k v m. fst (cow_insert k v m)"
  "\<lambda>k m. fst (cow_remove k m)" "cow_inv :: ('k::linorder, 'v) cow_map \<Rightarrow> bool"
proof
  fix m :: "('k, 'v) cow_map" and k k' :: 'k and v :: 'v
  show "cow_inv (cow_default :: ('k, 'v) cow_map)" by (simp add: cow_inv_def cow_default_def cow_iter_def)
  show "cow_get cow_default k = (None :: 'v option)" by (simp add: cow_get_def cow_default_def locate_def)
  assume inv: "cow_inv m"
  then show "cow_inv (fst (cow_insert k v m))" by (rule cow_inv_insert)
  show "cow_inv (fst (cow_remove k m))" by (rule cow_remove_refines [OF inv])
  show "cow_get (fst (cow_insert k v m)) k' = (if k' = k then Some v else cow_get m k')"
    using inv by (simp add: cow_get_refines cow_inv_shape cow_inv_insert cow_insert_refines(1) map_of_al_ins)
  show "cow_get (fst (cow_remove k m)) k' = (if k' = k then None else cow_get m k')"
    using inv by (simp add: cow_get_refines cow_inv_shape cow_remove_refines map_of_al_del cow_inv_def [of m])
qed

section \<open>Ranges\<close>

lemma concat_enumerate_later:
  "fc < n \<Longrightarrow> concat (map (\<lambda>(index, chunk). drop (min (if index = fc then at else 0) (length chunk)) chunk)
     (enumerate n ys)) = concat ys"
  by (induction ys arbitrary: n) simp_all

lemma concat_from_chunk:
  assumes "fc < length cs" and "i \<le> length (cs ! fc)"
  shows "concat (map (\<lambda>(index, chunk). drop (min (if index = fc then i else 0) (length chunk)) chunk)
      (drop fc (enumerate 0 cs))) = drop i (cs ! fc) @ concat (drop (Suc fc) cs)"
proof -
  have "drop fc (enumerate 0 cs) = (fc, cs ! fc) # enumerate (Suc fc) (drop (Suc fc) cs)"
  proof -
    have "drop fc (enumerate 0 cs) = enumerate fc (drop fc cs)"
      using assms(1) by (simp add: enumerate_eq_zip drop_zip)
    also have "drop fc cs = cs ! fc # drop (Suc fc) cs"
      using assms(1) by (simp add: Cons_nth_drop_Suc)
    finally show ?thesis by simp
  qed
  then show ?thesis
    using assms(2) concat_enumerate_later [of fc "Suc fc" i "drop (Suc fc) cs"] by (simp add: min_absorb1)
qed

lemma sorted_keys_around:
  assumes "sorted_keys xs" and "i < length xs"
  shows "\<forall>x \<in> set (take i xs). fst x < fst (xs ! i)" and "\<forall>x \<in> set (drop (Suc i) xs). fst (xs ! i) < fst x"
  using assms sorted_wrt_append [of "\<lambda>p q. fst p < fst q" "take i xs" "xs ! i # drop (Suc i) xs"]
  by (simp_all add: id_take_nth_drop [symmetric])

lemma filter_from:
  assumes "\<forall>x \<in> set xs. \<not> P x" and "\<forall>x \<in> set ys. P x"
  shows "filter P (xs @ ys) = ys"
  using assms by (simp add: filter_empty_conv filter_id_conv)

lemma cow_range_refines:
  assumes inv: "cow_shape m"
  shows "cow_range_from m start inclusive =
    filter (\<lambda>x. if inclusive then start \<le> fst x else start < fst x) (cow_iter m)"
proof (cases "chunks m = []")
  case True
  then show ?thesis by (simp add: cow_range_from_def locate_def cow_iter_def)
next
  case False
  let ?cs = "chunks m" and ?P = "\<lambda>x :: 'a \<times> 'b. if inclusive then start \<le> fst x else start < fst x"
  define c where "c = chunk_for m start"
  note split = chunk_for_split [OF inv False c_def]
  have flat: "cow_iter m = concat (take c ?cs) @ ?cs ! c @ concat (drop (Suc c) ?cs)"
    unfolding cow_iter_def by (rule concat_split [OF split(1)])
  have outside: "fst x < start \<Longrightarrow> \<not> ?P x" "start < fst x \<Longrightarrow> ?P x" for x :: "'a \<times> 'b"
    by auto
  have cut: "filter ?P (cow_iter m) = drop i (?cs ! c) @ concat (drop (Suc c) ?cs)"
    if "\<forall>x \<in> set (take i (?cs ! c)). \<not> ?P x" "\<forall>x \<in> set (drop i (?cs ! c)). ?P x" for i
  proof -
    have whole: "cow_iter m = (concat (take c ?cs) @ take i (?cs ! c)) @ drop i (?cs ! c) @ concat (drop (Suc c) ?cs)"
      by (simp add: flat)
    have "\<forall>x \<in> set (concat (take c ?cs) @ take i (?cs ! c)). \<not> ?P x"
      unfolding set_append ball_Un using split(2) outside(1) that(1) by blast
    moreover have "\<forall>x \<in> set (drop i (?cs ! c) @ concat (drop (Suc c) ?cs)). ?P x"
      unfolding set_append ball_Un using split(3) outside(2) that(2) by blast
    ultimately show ?thesis unfolding whole by (rule filter_from)
  qed
  show ?thesis
  proof (cases "binary_search start (?cs ! c)")
    case (Inl i)
    note absent = binary_search_absent [OF Inl split(4)]
    have "filter ?P (cow_iter m) = drop i (?cs ! c) @ concat (drop (Suc c) ?cs)"
      by (rule cut) (use absent outside in blast)+
    with Inl False absent split(1) show ?thesis
      by (simp add: cow_range_from_def locate_def Let_def concat_from_chunk flip: c_def)
  next
    case (Inr i)
    note found = binary_search_found [OF Inr split(4)]
    note around = sorted_keys_around [OF split(4)]
    let ?i = "if inclusive then i else Suc i"
    have "take (Suc i) (?cs ! c) = take i (?cs ! c) @ [?cs ! c ! i]"
      "drop i (?cs ! c) = ?cs ! c ! i # drop (Suc i) (?cs ! c)"
      using found by (auto simp: take_Suc_conv_app_nth Cons_nth_drop_Suc)
    then have "filter ?P (cow_iter m) = drop ?i (?cs ! c) @ concat (drop (Suc c) ?cs)"
      using found around [of i] by (intro cut) (auto simp: not_le not_less less_imp_le)
    moreover have "i < length (?cs ! c)" using found by blast
    ultimately show ?thesis using Inr False split(1)
      by (simp add: cow_range_from_def locate_def Let_def concat_from_chunk Suc_le_eq less_imp_le flip: c_def)
  qed
qed

section \<open>Properties\<close>

text \<open>C17. The chunked map is a finite map in key order. On every well-formed map, inserting and
  removing do to the flattened chunks what they do to a sorted association list, return the
  previous value, and keep the chunks non-empty, sorted, at most 128 entries long and the
  length counter exact, also when a chunk splits or disappears.\<close>

theorem cow_map_refines:
  assumes "cow_inv m"
  shows "cow_inv (fst (cow_insert k v m)) \<and> cow_iter (fst (cow_insert k v m)) = al_ins k v (cow_iter m)
    \<and> snd (cow_insert k v m) = cow_get m k
    \<and> cow_inv (fst (cow_remove k m)) \<and> cow_iter (fst (cow_remove k m)) = al_del k (cow_iter m)
    \<and> snd (cow_remove k m) = cow_get m k
    \<and> cow_get m k = map_of (cow_iter m) k"
  using cow_insert_refines [OF assms] cow_inv_insert [OF assms] cow_remove_refines [OF assms]
    cow_get_refines [OF cow_inv_shape [OF assms]] by simp

theorem cow_map_refines_witness:
  "cow_iter (fst (cow_insert (2::nat) ''b'' \<lparr>chunks = [[(1, ''a''), (3, ''c'')]], cow_len = 2\<rparr>)) =
     [(1, ''a''), (2, ''b''), (3, ''c'')]"
  using cow_map_refines [of "\<lparr>chunks = [[(1::nat, ''a''), (3, ''c'')]], cow_len = 2\<rparr>" 2 "''b''"]
  by (simp add: cow_inv_def cow_iter_def)

text \<open>A range read of the map returns exactly the entries from the bound on, in key order, with
  the bound itself included or not as asked, wherever the bound falls among the chunks.\<close>

theorem cow_range_exact:
  assumes "cow_inv m"
  shows "cow_range_from m start inclusive =
    filter (\<lambda>x. if inclusive then start \<le> fst x else start < fst x) (cow_iter m)"
  using cow_inv_shape [OF assms] by (rule cow_range_refines)

theorem cow_range_exact_witness:
  "cow_range_from \<lparr>chunks = [[(1::nat, ''a'')], [(3, ''c''), (4, ''d'')]], cow_len = 3\<rparr> 3 False = [(4, ''d'')]"
  using cow_range_exact [of "\<lparr>chunks = [[(1::nat, ''a'')], [(3, ''c''), (4, ''d'')]], cow_len = 3\<rparr>" 3 False]
  by (simp add: cow_inv_def cow_iter_def)

text \<open>A map filled from a list of entries reads the last value given for each key, whatever the
  order of the keys and however the chunks split on the way; a set built from a list holds
  exactly its elements, in order and once.\<close>

lemma cow_from_entries:
  "cow_get (foldl (\<lambda>m (k, v). fst (cow_insert k v m)) cow_default entries) = map_of (rev entries)
   \<and> sorted_wrt (<) (cow_set_iter (cow_set_from_iter xs)) \<and> set (cow_set_iter (cow_set_from_iter xs)) = set xs"
proof -
  have fold: "cow_set_from_iter xs = foldl (\<lambda>m (k, v). fst (cow_insert k v m)) cow_default (map (\<lambda>x. (x, ())) xs)"
    by (simp add: cow_set_from_iter_def foldl_map cow_set_insert_def case_prod_beta)
  have inv: "cow_inv (cow_set_from_iter xs)"
    unfolding fold by (rule cow.invar_extend [OF cow.invar_empty])
  have "cow_get (cow_set_from_iter xs) = map_of (rev (map (\<lambda>x. (x, ())) xs))"
    unfolding fold by (rule cow.lookup_from_list)
  then have "map_of (cow_iter (cow_set_from_iter xs)) = map_of (map (\<lambda>x. (x, ())) (rev xs))"
    using cow_get_refines [OF cow_inv_shape [OF inv]] by (simp add: fun_eq_iff rev_map)
  then have "dom (map_of (cow_iter (cow_set_from_iter xs))) = dom (map_of (map (\<lambda>x. (x, ())) (rev xs)))"
    by simp
  then have "set (cow_set_iter (cow_set_from_iter xs)) = set xs"
    by (simp add: dom_map_of_conv_image_fst image_image cow_set_iter_def)
  moreover have "sorted_wrt (<) (cow_set_iter (cow_set_from_iter xs))"
    using inv by (simp add: cow_inv_def cow_set_iter_def sorted_wrt_map)
  ultimately show ?thesis using cow.lookup_from_list by blast
qed

end
