(* ===== verification/Primary_Delta.thy ===== *)
theory Primary_Delta
  imports Cow_Map Cursor "HOL-Library.Multiset"
begin

text \<open>
  The resident part of the primary index (\<open>db.rs\<close>): the versions committed since the last
  published run, per table, in chunks sorted by record id. Searches compare sixteen leading
  bytes of an id, kept beside the entries, before they read the id itself. The delta is shown
  to be the sorted map from ids to version lists it stands for: the prefix comparison never
  changes a verdict, a push appends one version to the list of its id and to nothing else, and
  a range walk returns exactly the ids behind the bound.

  Entries and chunks are shared behind \<open>Arc\<close> and copied before they are changed, so a copy of
  the delta keeps its contents: in the model a delta is a value.
\<close>

section \<open>Versions of a record\<close>

record mem_payload =
  mp_bytes :: bytes
  mp_start :: u32
  mp_len :: u32

text \<open>\<open>None\<close> is the panic on a payload of 4 GiB.\<close>

definition mem_payload_whole :: "bytes \<Rightarrow> mem_payload option" where
  "mem_payload_whole bs =
     (if fits_u32 (length bs) then Some \<lparr>mp_bytes = bs, mp_start = 0, mp_len = of_nat (length bs)\<rparr> else None)"

definition mem_payload_from_range :: "bytes \<Rightarrow> u32 \<times> u32 \<Rightarrow> mem_payload" where
  "mem_payload_from_range bs r = \<lparr>mp_bytes = bs, mp_start = fst r, mp_len = snd r\<rparr>"

text \<open>\<open>None\<close> is the panic of slicing out of range.\<close>

definition mem_payload_slice :: "mem_payload \<Rightarrow> bytes option" where
  "mem_payload_slice p = get_range (mp_bytes p) (unat (mp_start p)) (unat (mp_start p) + unat (mp_len p))"

datatype vkind =
    MemPut mem_payload
  | SegPut (sp_segment: u32) (sp_payload_offset: u64) (sp_payload_len: u32)
  | MemTombstone
  | SegTombstone

record version_entry =
  ve_version :: u64
  ve_kind :: vkind

definition is_tombstone :: "version_entry \<Rightarrow> bool" where
  "is_tombstone e = (case ve_kind e of MemTombstone \<Rightarrow> True | SegTombstone \<Rightarrow> True | _ \<Rightarrow> False)"

type_synonym version_list = "version_entry list"

section \<open>Chunks\<close>

abbreviation "ID_PREFIX_BYTES \<equiv> (16::nat)"
abbreviation "DELTA_CHUNK_ENTRIES \<equiv> (128::nat)"

definition id_prefix :: "string \<Rightarrow> bytes" where
  "id_prefix rid =
     (let bs = as_bytes rid; n = min (length bs) ID_PREFIX_BYTES
      in take n bs @ replicate (ID_PREFIX_BYTES - n) 0)"

record delta_chunk =
  dc_entries :: "(string \<times> version_list) list"
  dc_prefixes :: "bytes list"

text \<open>The loop of \<open>DeltaChunk::search\<close>: \<open>Inr\<close> is the position of the id, \<open>Inl\<close> where it would be.\<close>

function search_between :: "delta_chunk \<Rightarrow> string \<Rightarrow> nat \<Rightarrow> nat \<Rightarrow> nat + nat" where
  "search_between c rid low high =
     (if low < high then
        let mid = low + (high - low) div 2;
            wanted = id_prefix rid;
            stored = dc_prefixes c ! mid
        in if stored < wanted \<or> (stored = wanted \<and> fst (dc_entries c ! mid) < rid)
           then search_between c rid (mid + 1) high
           else if stored = wanted \<and> fst (dc_entries c ! mid) = rid then Inr mid
           else search_between c rid low mid
      else Inl low)"
  by pat_completeness auto
termination
  by (relation "measure (\<lambda>(c, rid, low, high). high - low)") auto

declare search_between.simps [simp del]

definition chunk_search :: "delta_chunk \<Rightarrow> string \<Rightarrow> nat + nat" where
  "chunk_search c rid = search_between c rid 0 (length (dc_prefixes c))"

definition chunk_insert :: "nat \<Rightarrow> string \<Rightarrow> version_list \<Rightarrow> delta_chunk \<Rightarrow> delta_chunk" where
  "chunk_insert at rid vs c =
     \<lparr>dc_entries = insert_at at (rid, vs) (dc_entries c), dc_prefixes = insert_at at (id_prefix rid) (dc_prefixes c)\<rparr>"

section \<open>The delta of a table\<close>

record primary_table_delta =
  pd_chunks :: "delta_chunk list"
  pd_firsts :: "bytes list"

definition delta_default :: primary_table_delta where
  "delta_default = \<lparr>pd_chunks = [], pd_firsts = []\<rparr>"

function count_firsts :: "primary_table_delta \<Rightarrow> string \<Rightarrow> nat \<Rightarrow> nat \<Rightarrow> nat" where
  "count_firsts d rid low high =
     (if low < high then
        let mid = low + (high - low) div 2;
            wanted = id_prefix rid;
            first = pd_firsts d ! mid
        in if first < wanted \<or> (first = wanted \<and> fst (dc_entries (pd_chunks d ! mid) ! 0) \<le> rid)
           then count_firsts d rid (mid + 1) high
           else count_firsts d rid low mid
      else low)"
  by pat_completeness auto
termination
  by (relation "measure (\<lambda>(d, rid, low, high). high - low)") auto

declare count_firsts.simps [simp del]

definition delta_chunk_for :: "primary_table_delta \<Rightarrow> string \<Rightarrow> nat" where
  "delta_chunk_for d rid = count_firsts d rid 0 (length (pd_chunks d)) - 1"

definition delta_locate :: "primary_table_delta \<Rightarrow> string \<Rightarrow> (nat \<times> nat) + (nat \<times> nat)" where
  "delta_locate d rid =
     (if pd_chunks d = [] then Inl (0, 0)
      else
        let chunk = delta_chunk_for d rid in
        case chunk_search (pd_chunks d ! chunk) rid of
          Inr at \<Rightarrow> Inr (chunk, at)
        | Inl at \<Rightarrow> Inl (chunk, at))"

definition delta_get :: "primary_table_delta \<Rightarrow> string \<Rightarrow> version_list option" where
  "delta_get d rid =
     (case delta_locate d rid of
        Inr (chunk, at) \<Rightarrow> Some (snd (dc_entries (pd_chunks d ! chunk) ! at))
      | Inl _ \<Rightarrow> None)"

text \<open>Writing through \<open>get_mut\<close>.\<close>

definition delta_modify :: "nat \<Rightarrow> nat \<Rightarrow> (version_list \<Rightarrow> version_list) \<Rightarrow> primary_table_delta \<Rightarrow> primary_table_delta" where
  "delta_modify chunk at f d =
     (let c = pd_chunks d ! chunk; (rid, vs) = dc_entries c ! at
      in d\<lparr>pd_chunks := (pd_chunks d)[chunk := c\<lparr>dc_entries := (dc_entries c)[at := (rid, f vs)]\<rparr>]\<rparr>)"

definition push_chunk :: "string \<Rightarrow> version_list \<Rightarrow> primary_table_delta \<Rightarrow> primary_table_delta" where
  "push_chunk rid vs d =
     \<lparr>pd_chunks = pd_chunks d @ [\<lparr>dc_entries = [(rid, vs)], dc_prefixes = [id_prefix rid]\<rparr>],
      pd_firsts = pd_firsts d @ [id_prefix rid]\<rparr>"

definition split_chunk :: "nat \<Rightarrow> primary_table_delta \<Rightarrow> primary_table_delta" where
  "split_chunk chunk d =
     (let target = pd_chunks d ! chunk;
          half = length (dc_entries target) div 2;
          lower = \<lparr>dc_entries = take half (dc_entries target), dc_prefixes = take half (dc_prefixes target)\<rparr>;
          upper = \<lparr>dc_entries = drop half (dc_entries target), dc_prefixes = drop half (dc_prefixes target)\<rparr>
      in \<lparr>pd_chunks = insert_at (chunk + 1) upper ((pd_chunks d)[chunk := lower]),
          pd_firsts = insert_at (chunk + 1) (dc_prefixes upper ! 0) (pd_firsts d)\<rparr>)"

definition delta_insert :: "string \<Rightarrow> version_entry \<Rightarrow> primary_table_delta \<Rightarrow> primary_table_delta" where
  "delta_insert rid entry d =
     (case delta_locate d rid of
        Inr (chunk, at) \<Rightarrow> delta_modify chunk at (\<lambda>vs. vs @ [entry]) d
      | Inl (chunk, at) \<Rightarrow>
          (let target = chunk_insert at rid [entry] (pd_chunks d ! chunk);
               firsts = (if at = 0 then (pd_firsts d)[chunk := dc_prefixes target ! 0] else pd_firsts d);
               d = \<lparr>pd_chunks = (pd_chunks d)[chunk := target], pd_firsts = firsts\<rparr>
           in if length (dc_entries target) > 2 * DELTA_CHUNK_ENTRIES then split_chunk chunk d else d))"

definition delta_push :: "string \<Rightarrow> version_entry \<Rightarrow> primary_table_delta \<Rightarrow> primary_table_delta" where
  "delta_push rid entry d =
     (if pd_chunks d = [] then push_chunk rid [entry] d
      else
        let n = length (pd_chunks d) - 1;
            last_chunk = pd_chunks d ! n;
            k = length (dc_entries last_chunk) - 1;
            last_id = fst (dc_entries last_chunk ! k)
        in if last_id < rid then
             if length (dc_entries last_chunk) \<ge> DELTA_CHUNK_ENTRIES then push_chunk rid [entry] d
             else d\<lparr>pd_chunks := (pd_chunks d)[n :=
                      \<lparr>dc_entries = dc_entries last_chunk @ [(rid, [entry])],
                       dc_prefixes = dc_prefixes last_chunk @ [id_prefix rid]\<rparr>]\<rparr>
           else if last_id = rid then delta_modify n k (\<lambda>vs. vs @ [entry]) d
           else delta_insert rid entry d)"

text \<open>\<open>dedup_by_key\<close> keeps the first of each run of equal keys.\<close>

fun dedup_versions :: "version_list \<Rightarrow> version_list" where
  "dedup_versions (a # b # es) =
     (if ve_version a = ve_version b then dedup_versions (a # es) else a # dedup_versions (b # es))"
| "dedup_versions es = es"

text \<open>
  \<open>sort_unstable_by_key\<close> may order entries of one version either way; the sort is therefore a
  parameter of the merge, known only to permute and to sort by version.
\<close>

definition sorts_by_version :: "(version_list \<Rightarrow> version_list) \<Rightarrow> bool" where
  "sorts_by_version us \<longleftrightarrow> (\<forall>es. mset (us es) = mset es \<and> sorted (map ve_version (us es)))"

definition merge_versions :: "(version_list \<Rightarrow> version_list) \<Rightarrow> string \<Rightarrow> version_list \<Rightarrow> primary_table_delta \<Rightarrow> primary_table_delta" where
  "merge_versions us rid versions d =
     (case delta_locate d rid of
        Inl _ \<Rightarrow> foldl (\<lambda>d e. delta_push rid e d) d versions
      | Inr (chunk, at) \<Rightarrow>
          delta_modify chunk at (\<lambda>vs. dedup_versions (us (vs @ versions))) d)"

definition delta_iter :: "primary_table_delta \<Rightarrow> (string \<times> version_list) list" where
  "delta_iter d = concat (map dc_entries (pd_chunks d))"

definition delta_range_after :: "primary_table_delta \<Rightarrow> string option \<Rightarrow> (string \<times> version_list) list" where
  "delta_range_after d after =
     (let (first_chunk, first_at) =
            (case after of
               None \<Rightarrow> (0, 0)
             | Some a \<Rightarrow> (case delta_locate d a of
                           Inr (chunk, at) \<Rightarrow> (chunk, at + 1)
                         | Inl (chunk, at) \<Rightarrow> (chunk, at)))
      in concat (map (\<lambda>(i, chunk). drop (if i = first_chunk then first_at else 0) (dc_entries chunk))
                   (drop first_chunk (enumerate 0 (pd_chunks d)))))"

section \<open>The prefix decides like the id\<close>

lemma id_prefix_eq: "id_prefix rid = take ID_PREFIX_BYTES (as_bytes rid @ replicate ID_PREFIX_BYTES 0)"
  by (simp add: id_prefix_def Let_def min_def)

lemma id_prefix_less: "id_prefix a < id_prefix b \<Longrightarrow> a < b"
  unfolding id_prefix_eq using padded_less as_bytes_less by blast

lemma id_prefix_compare:
  "id_prefix a < id_prefix b \<or> (id_prefix a = id_prefix b \<and> a < b) \<longleftrightarrow> a < b"
  "id_prefix a < id_prefix b \<or> (id_prefix a = id_prefix b \<and> a \<le> b) \<longleftrightarrow> a \<le> b"
  "id_prefix a = id_prefix b \<and> a = b \<longleftrightarrow> a = b"
proof -
  have equal: "id_prefix a = id_prefix b" if "\<not> id_prefix a < id_prefix b" "a \<le> b"
    using that id_prefix_less [of b a] by (metis leD linorder_neqE)
  show "id_prefix a < id_prefix b \<or> (id_prefix a = id_prefix b \<and> a < b) \<longleftrightarrow> a < b"
    "id_prefix a < id_prefix b \<or> (id_prefix a = id_prefix b \<and> a \<le> b) \<longleftrightarrow> a \<le> b"
    using equal id_prefix_less [of a b] less_imp_le by blast+
  show "id_prefix a = id_prefix b \<and> a = b \<longleftrightarrow> a = b" by blast
qed

section \<open>Searching\<close>

text \<open>The chunked map the delta stands for.\<close>

definition as_cow :: "primary_table_delta \<Rightarrow> (string, version_list) cow_map" where
  "as_cow d = \<lparr>chunks = map dc_entries (pd_chunks d), cow_len = length (delta_iter d)\<rparr>"

definition chunk_ok :: "delta_chunk \<Rightarrow> bool" where
  "chunk_ok c \<longleftrightarrow> dc_prefixes c = map (id_prefix \<circ> fst) (dc_entries c) \<and> dc_entries c \<noteq> []"

definition delta_shape :: "primary_table_delta \<Rightarrow> bool" where
  "delta_shape d \<longleftrightarrow> sorted_keys (delta_iter d) \<and> list_all chunk_ok (pd_chunks d)
     \<and> pd_firsts d = map (\<lambda>c. id_prefix (fst (dc_entries c ! 0))) (pd_chunks d)"

lemma as_cow_simps [simp]:
  "chunks (as_cow d) = map dc_entries (pd_chunks d)" "cow_iter (as_cow d) = delta_iter d"
  by (simp_all add: as_cow_def cow_iter_def delta_iter_def)

lemma delta_shape_cow: "delta_shape d \<Longrightarrow> cow_shape (as_cow d)"
  by (auto simp: delta_shape_def cow_shape_def chunk_ok_def list_all_iff)

lemma partition_point_at:
  assumes "at \<le> length xs" and "\<And>i. i < at \<Longrightarrow> p (xs ! i)" and "at < length xs \<Longrightarrow> \<not> p (xs ! at)"
  shows "partition_point p xs = at"
  using assms takeWhile_eq_take_P_nth [of at xs p] by (simp add: partition_point_def min_def)

lemma search_between_exact:
  assumes "sorted_keys (dc_entries c)" and "dc_prefixes c = map (id_prefix \<circ> fst) (dc_entries c)"
    and "low \<le> high" and "high \<le> length (dc_entries c)"
    and "\<And>i. i < low \<Longrightarrow> fst (dc_entries c ! i) < rid"
    and "\<And>i. high \<le> i \<Longrightarrow> i < length (dc_entries c) \<Longrightarrow> rid < fst (dc_entries c ! i)"
  shows "search_between c rid low high = binary_search rid (dc_entries c)"
  using assms
proof (induction c rid low high rule: search_between.induct)
  case (1 c rid low high)
  let ?es = "dc_entries c"
  show ?case
  proof (cases "low < high")
    case False
    then have "low = high" using 1 by simp
    then have "partition_point (\<lambda>e. fst e < rid) ?es = low"
      using "1.prems" by (intro partition_point_at) (auto dest: less_asym)
    moreover have "fst (?es ! low) \<noteq> rid" if "low < length ?es"
      using "1.prems"(6) [of low] that \<open>low = high\<close> by auto
    ultimately show ?thesis using False by (simp add: binary_search_def search_between.simps)
  next
    case True
    define mid where "mid = low + (high - low) div 2"
    have mid: "low \<le> mid" "mid < high" "mid < length ?es" using True "1.prems"(4) by (auto simp: mid_def)
    have prefix: "dc_prefixes c ! mid = id_prefix (fst (?es ! mid))" using mid "1.prems"(2) by simp
    note ordered = sorted_wrt_nth_less [OF "1.prems"(1)]
    have before: "fst (?es ! i) < fst (?es ! mid)" if "i < mid" for i
      by (rule ordered [OF that mid(3)])
    have behind: "fst (?es ! mid) < fst (?es ! i)" if "mid < i" "i < length ?es" for i
      by (rule ordered [OF that])
    have step: "search_between c rid low high =
        (if fst (?es ! mid) < rid then search_between c rid (mid + 1) high
         else if fst (?es ! mid) = rid then Inr mid else search_between c rid low mid)"
      using True unfolding search_between.simps [of c rid low high] Let_def mid_def [symmetric] prefix id_prefix_compare
      by simp
    consider "fst (?es ! mid) < rid" | "fst (?es ! mid) = rid" | "rid < fst (?es ! mid)" by fastforce
    then show ?thesis
    proof cases
      case 1
      have "search_between c rid (mid + 1) high = binary_search rid ?es"
      proof (rule "1.IH"(1) [OF True mid_def refl refl])
        show "dc_prefixes c ! mid < id_prefix rid \<or> dc_prefixes c ! mid = id_prefix rid \<and> fst (?es ! mid) < rid"
          unfolding prefix id_prefix_compare by (rule 1)
        show "fst (?es ! i) < rid" if "i < mid + 1" for i
          using that 1 less_trans [OF before 1] by (cases "i = mid") auto
      qed (use "1.prems" mid in auto)
      with step 1 show ?thesis by simp
    next
      case 2
      then have "partition_point (\<lambda>e. fst e < rid) ?es = mid"
        using mid before by (intro partition_point_at) auto
      with step 2 mid show ?thesis by (simp add: binary_search_def)
    next
      case 3
      have "search_between c rid low mid = binary_search rid ?es"
      proof (rule "1.IH"(2) [OF True mid_def refl refl])
        show "\<not> (dc_prefixes c ! mid < id_prefix rid \<or> dc_prefixes c ! mid = id_prefix rid \<and> fst (?es ! mid) < rid)"
          unfolding prefix id_prefix_compare using 3 by simp
        show "\<not> (dc_prefixes c ! mid = id_prefix rid \<and> fst (?es ! mid) = rid)" using 3 by auto
        show "rid < fst (?es ! i)" if "mid \<le> i" "i < length ?es" for i
          using that 3 less_trans [OF 3 behind] by (cases "i = mid") auto
      qed (use "1.prems" mid in auto)
      with step 3 show ?thesis by auto
    qed
  qed
qed

lemma sorted_concat_heads:
  assumes "sorted_keys (concat cs)" and "i \<le> j" and "j < length cs" and "\<And>c. c \<in> set cs \<Longrightarrow> c \<noteq> []"
  shows "fst (cs ! i ! 0) \<le> fst (cs ! j ! 0)"
proof (cases "i = j")
  case False
  with assms(2) have ij: "i < j" by simp
  have hd: "cs ! i ! 0 \<in> set (concat (take j cs))" "cs ! j ! 0 \<in> set (cs ! j)"
  proof -
    have "cs ! i \<in> set (take j cs)" using ij assms(3) by (metis in_set_conv_nth length_take min_less_iff_conj nth_take less_trans)
    moreover have "cs ! i ! 0 \<in> set (cs ! i)" using ij assms(3,4) by simp
    ultimately show "cs ! i ! 0 \<in> set (concat (take j cs))" by auto
    show "cs ! j ! 0 \<in> set (cs ! j)" using assms(3,4) by simp
  qed
  have "sorted_keys (concat (take j cs) @ cs ! j @ concat (drop (Suc j) cs))"
    using assms(1) concat_split [OF assms(3)] by simp
  then have "fst (cs ! i ! 0) < fst (cs ! j ! 0)"
    unfolding sorted_wrt_append set_append using hd by blast
  then show ?thesis by simp
qed simp

lemma count_firsts_exact:
  assumes "delta_shape d" and "low \<le> high" and "high \<le> length (pd_chunks d)"
    and "\<And>i. i < low \<Longrightarrow> fst (dc_entries (pd_chunks d ! i) ! 0) \<le> rid"
    and "\<And>i. high \<le> i \<Longrightarrow> i < length (pd_chunks d) \<Longrightarrow> rid < fst (dc_entries (pd_chunks d ! i) ! 0)"
  shows "count_firsts d rid low high =
    partition_point (\<lambda>chunk. fst (chunk ! 0) \<le> rid) (map dc_entries (pd_chunks d))"
  using assms
proof (induction d rid low high rule: count_firsts.induct)
  case (1 d rid low high)
  let ?first = "\<lambda>i. fst (dc_entries (pd_chunks d ! i) ! 0)"
  show ?case
  proof (cases "low < high")
    case False
    then have "low = high" using "1.prems" by simp
    then have "partition_point (\<lambda>chunk. fst (chunk ! 0) \<le> rid) (map dc_entries (pd_chunks d)) = low"
      using "1.prems" by (intro partition_point_at) (auto simp: not_le)
    then show ?thesis using False by (simp add: count_firsts.simps)
  next
    case True
    define mid where "mid = low + (high - low) div 2"
    have mid: "low \<le> mid" "mid < high" "mid < length (pd_chunks d)" using True "1.prems"(3) by (auto simp: mid_def)
    have prefix: "pd_firsts d ! mid = id_prefix (?first mid)" using mid "1.prems"(1) by (simp add: delta_shape_def)
    have heads: "?first i \<le> ?first j" if "i \<le> j" "j < length (pd_chunks d)" for i j
    proof -
      have "fst (map dc_entries (pd_chunks d) ! i ! 0) \<le> fst (map dc_entries (pd_chunks d) ! j ! 0)"
        by (rule sorted_concat_heads) (use that "1.prems"(1) in
          \<open>auto simp: delta_shape_def delta_iter_def chunk_ok_def list_all_iff\<close>)
      with that show ?thesis by simp
    qed
    have step: "count_firsts d rid low high =
        (if ?first mid \<le> rid then count_firsts d rid (mid + 1) high else count_firsts d rid low mid)"
      using True unfolding count_firsts.simps [of d rid low high] Let_def mid_def [symmetric] prefix id_prefix_compare
      by simp
    show ?thesis
    proof (cases "?first mid \<le> rid")
      case le: True
      have "count_firsts d rid (mid + 1) high =
          partition_point (\<lambda>chunk. fst (chunk ! 0) \<le> rid) (map dc_entries (pd_chunks d))"
      proof (rule "1.IH"(1) [OF True mid_def refl refl])
        show "pd_firsts d ! mid < id_prefix rid \<or> pd_firsts d ! mid = id_prefix rid \<and> ?first mid \<le> rid"
          unfolding prefix id_prefix_compare by (rule le)
        show "?first i \<le> rid" if "i < mid + 1" for i
          using that heads [of i mid] mid le by simp
      qed (use "1.prems" mid in auto)
      with step le show ?thesis by simp
    next
      case gt: False
      have "count_firsts d rid low mid =
          partition_point (\<lambda>chunk. fst (chunk ! 0) \<le> rid) (map dc_entries (pd_chunks d))"
      proof (rule "1.IH"(2) [OF True mid_def refl refl])
        show "\<not> (pd_firsts d ! mid < id_prefix rid \<or> pd_firsts d ! mid = id_prefix rid \<and> ?first mid \<le> rid)"
          unfolding prefix id_prefix_compare by (rule gt)
        show "rid < ?first i" if "mid \<le> i" "i < length (pd_chunks d)" for i
          using heads [OF that] gt by simp
      qed (use "1.prems" mid in auto)
      with step gt show ?thesis by simp
    qed
  qed
qed

lemma delta_locate_exact:
  assumes "delta_shape d"
  shows "delta_locate d rid = locate (as_cow d) rid"
proof (cases "pd_chunks d = []")
  case False
  have for_chunk: "delta_chunk_for d rid = chunk_for (as_cow d) rid"
    using count_firsts_exact [OF assms, of 0 "length (pd_chunks d)" rid] by (simp add: delta_chunk_for_def chunk_for_def)
  have bound: "delta_chunk_for d rid < length (pd_chunks d)"
    and sorted: "sorted_keys (dc_entries (pd_chunks d ! delta_chunk_for d rid))"
    using chunk_for_split [OF delta_shape_cow [OF assms] _ for_chunk] False by simp_all
  have "chunk_search (pd_chunks d ! delta_chunk_for d rid) rid =
      binary_search rid (dc_entries (pd_chunks d ! delta_chunk_for d rid))"
    unfolding chunk_search_def using assms bound sorted
    by (intro search_between_exact) (auto simp: delta_shape_def list_all_length chunk_ok_def)
  with False bound show ?thesis by (simp add: delta_locate_def locate_def for_chunk)
qed (simp add: delta_locate_def locate_def)

lemma delta_get_exact: "delta_shape d \<Longrightarrow> delta_get d rid = map_of (delta_iter d) rid"
proof -
  assume shape: "delta_shape d"
  note cow = delta_shape_cow [OF shape]
  have "delta_get d rid = cow_get (as_cow d) rid"
  proof (cases "locate (as_cow d) rid")
    case (Inr ca)
    obtain c a where "ca = (c, a)" by force
    with Inr locate_found(1,2) [OF cow, of rid c a] show ?thesis
      by (simp add: delta_get_def cow_get_def delta_locate_exact [OF shape])
  qed (simp add: delta_get_def cow_get_def delta_locate_exact [OF shape])
  then show ?thesis using cow_get_refines [OF cow] by simp
qed

section \<open>Pushing\<close>

lemma al_ins_present:
  "sorted_keys (pre @ (k, v) # post) \<Longrightarrow>
     map_of (pre @ (k, v) # post) k = Some v \<and> al_ins k w (pre @ (k, v) # post) = pre @ (k, w) # post"
  by (induction pre) auto

lemma delta_modify_at:
  assumes shape: "delta_shape d" and c: "c < length (pd_chunks d)" and i: "i < length (dc_entries (pd_chunks d ! c))"
    and key: "fst (dc_entries (pd_chunks d ! c) ! i) = rid"
  shows "map_of (delta_iter d) rid = Some (snd (dc_entries (pd_chunks d ! c) ! i))"
    and "delta_iter (delta_modify c i f d) = al_ins rid (f (the (map_of (delta_iter d) rid))) (delta_iter d)"
    and "delta_shape (delta_modify c i f d)"
proof -
  let ?es = "dc_entries (pd_chunks d ! c)" and ?cs = "map dc_entries (pd_chunks d)"
  let ?pre = "concat (take c ?cs) @ take i ?es" and ?post = "drop (Suc i) ?es @ concat (drop (Suc c) ?cs)"
  have flat: "delta_iter d = ?pre @ (rid, snd (?es ! i)) # ?post"
  proof -
    have "?es ! i = (rid, snd (?es ! i))" using key by (metis prod.collapse)
    then have "?es = take i ?es @ (rid, snd (?es ! i)) # drop (Suc i) ?es" using id_take_nth_drop [OF i] by simp
    moreover have "delta_iter d = concat (take c ?cs) @ ?es @ concat (drop (Suc c) ?cs)"
      using concat_split [of c ?cs] c by (simp add: delta_iter_def)
    ultimately show ?thesis by (metis append.assoc append_Cons)
  qed
  have sorted: "sorted_keys (?pre @ (rid, snd (?es ! i)) # ?post)" using shape unfolding flat [symmetric] delta_shape_def by blast
  note here = al_ins_present [OF sorted]
  show val: "map_of (delta_iter d) rid = Some (snd (?es ! i))" unfolding flat using here by blast
  have mod: "delta_modify c i f d = d\<lparr>pd_chunks := (pd_chunks d)[c := (pd_chunks d ! c)\<lparr>dc_entries := ?es[i := (rid, f (snd (?es ! i)))]\<rparr>]\<rparr>"
    using key by (simp add: delta_modify_def Let_def case_prod_unfold)
  have "delta_iter (delta_modify c i f d) = ?pre @ (rid, f (snd (?es ! i))) # ?post"
    using c i unfolding mod by (simp add: delta_iter_def map_update upd_conv_take_nth_drop take_map drop_map)
  then show iter: "delta_iter (delta_modify c i f d) = al_ins rid (f (the (map_of (delta_iter d) rid))) (delta_iter d)"
    unfolding val unfolding flat using here by simp
  have "sorted_keys (delta_iter (delta_modify c i f d))"
    unfolding iter using shape by (intro sorted_al_ins) (simp add: delta_shape_def)
  moreover have "chunk_ok ((pd_chunks d ! c)\<lparr>dc_entries := ?es[i := (rid, f (snd (?es ! i)))]\<rparr>)"
    using shape c key i by (auto simp: delta_shape_def list_all_length chunk_ok_def map_update comp_def intro!: list_update_same_conv [THEN iffD2, symmetric])
  moreover have "fst (?es[i := (rid, f (snd (?es ! i)))] ! 0) = fst (?es ! 0)"
    using key i by (cases "i = 0") auto
  ultimately show "delta_shape (delta_modify c i f d)"
    using shape c unfolding mod
    by (auto simp: delta_shape_def list_all_iff map_update dest!: set_update_subset_insert [THEN subsetD]
        intro!: list_update_same_conv [THEN iffD2, symmetric])
qed

lemma delta_locate_found:
  assumes "delta_shape d" and "delta_locate d rid = Inr (c, i)"
  shows "c < length (pd_chunks d)" and "i < length (dc_entries (pd_chunks d ! c))"
    and "fst (dc_entries (pd_chunks d ! c) ! i) = rid"
proof -
  have "locate (as_cow d) rid = Inr (c, i)" using assms(2) delta_locate_exact [OF assms(1)] by simp
  note at = locate_found [OF delta_shape_cow [OF assms(1)] this, simplified]
  show "c < length (pd_chunks d)" by (rule at(1))
  with at(2,6) show "i < length (dc_entries (pd_chunks d ! c))" "fst (dc_entries (pd_chunks d ! c) ! i) = rid" by simp_all
qed

lemma split_chunk_shape:
  assumes shape: "delta_shape d" and c: "c < length (pd_chunks d)" and "2 \<le> length (dc_entries (pd_chunks d ! c))"
  shows "delta_iter (split_chunk c d) = delta_iter d" and "delta_shape (split_chunk c d)"
proof -
  let ?t = "pd_chunks d ! c"
  let ?half = "length (dc_entries ?t) div 2"
  let ?lower = "\<lparr>dc_entries = take ?half (dc_entries ?t), dc_prefixes = take ?half (dc_prefixes ?t)\<rparr>"
  let ?upper = "\<lparr>dc_entries = drop ?half (dc_entries ?t), dc_prefixes = drop ?half (dc_prefixes ?t)\<rparr>"
  have split: "split_chunk c d = \<lparr>pd_chunks = insert_at (Suc c) ?upper ((pd_chunks d)[c := ?lower]),
      pd_firsts = insert_at (Suc c) (dc_prefixes ?upper ! 0) (pd_firsts d)\<rparr>"
    by (simp add: split_chunk_def Let_def)
  have ok: "chunk_ok ?t" using shape c by (simp add: delta_shape_def list_all_length)
  have halves: "chunk_ok ?lower" "chunk_ok ?upper" "?half < length (dc_entries ?t)" "0 < ?half"
    using ok assms(3) by (auto simp: chunk_ok_def take_map drop_map)
  have chunks: "insert_at (Suc c) ?upper ((pd_chunks d)[c := ?lower]) = take c (pd_chunks d) @ ?lower # ?upper # drop (Suc c) (pd_chunks d)"
    using c by (simp add: insert_at_def upd_conv_take_nth_drop)
  show iter: "delta_iter (split_chunk c d) = delta_iter d"
    using concat_split [of c "map dc_entries (pd_chunks d)"] c
    unfolding split by (simp add: delta_iter_def chunks take_map drop_map)
  have firsts: "pd_firsts d = map (\<lambda>c. id_prefix (fst (dc_entries c ! 0))) (take c (pd_chunks d) @ ?t # drop (Suc c) (pd_chunks d))"
    using shape c by (simp add: delta_shape_def flip: id_take_nth_drop)
  have "insert_at (Suc c) (dc_prefixes ?upper ! 0) (pd_firsts d)
      = map (\<lambda>c. id_prefix (fst (dc_entries c ! 0))) (take c (pd_chunks d) @ ?lower # ?upper # drop (Suc c) (pd_chunks d))"
    unfolding firsts using c halves ok by (simp add: insert_at_def chunk_ok_def)
  moreover have "list_all chunk_ok (take c (pd_chunks d) @ ?lower # ?upper # drop (Suc c) (pd_chunks d))"
    using shape halves(1,2) by (auto simp: delta_shape_def list_all_iff dest: in_set_takeD in_set_dropD)
  ultimately show "delta_shape (split_chunk c d)"
    using shape iter unfolding delta_shape_def by (simp add: split chunks)
qed

definition delta_inv :: "primary_table_delta \<Rightarrow> bool" where
  "delta_inv d \<longleftrightarrow> delta_shape d \<and> list_all (\<lambda>c. length (dc_entries c) \<le> 2 * DELTA_CHUNK_ENTRIES) (pd_chunks d)"

abbreviation short_chunk :: "delta_chunk \<Rightarrow> bool" where
  "short_chunk c \<equiv> length (dc_entries c) \<le> 2 * DELTA_CHUNK_ENTRIES"

lemma list_all_update: "list_all P xs \<Longrightarrow> P y \<Longrightarrow> list_all P (xs[i := y])"
  by (auto simp: list_all_iff dest!: set_update_subset_insert [THEN subsetD])

lemma delta_modify_inv:
  assumes "delta_inv d" and "c < length (pd_chunks d)" and "i < length (dc_entries (pd_chunks d ! c))"
    and "fst (dc_entries (pd_chunks d ! c) ! i) = rid"
  shows "delta_inv (delta_modify c i f d)"
proof -
  have "list_all short_chunk (pd_chunks (delta_modify c i f d))"
    using assms(1,2) by (auto simp: delta_inv_def delta_modify_def Let_def list_all_length nth_list_update split: prod.splits)
  then show ?thesis using delta_modify_at(3) [OF _ assms(2-4)] assms(1) by (simp add: delta_inv_def)
qed

lemma chunk_insert_target:
  assumes shape: "delta_shape d" and c: "c < length (pd_chunks d)" and at: "i \<le> length (dc_entries (pd_chunks d ! c))"
    and ins: "concat ((map dc_entries (pd_chunks d))[c := insert_at i (rid, vs) (dc_entries (pd_chunks d ! c))])
      = al_ins rid vs (delta_iter d)"
  defines "t \<equiv> chunk_insert i rid vs (pd_chunks d ! c)"
  defines "d' \<equiv> \<lparr>pd_chunks = (pd_chunks d)[c := t],
      pd_firsts = (if i = 0 then (pd_firsts d)[c := dc_prefixes t ! 0] else pd_firsts d)\<rparr>"
  shows "delta_iter d' = al_ins rid vs (delta_iter d)" and "delta_shape d'"
    and "length (dc_entries t) = Suc (length (dc_entries (pd_chunks d ! c)))"
proof -
  show iter: "delta_iter d' = al_ins rid vs (delta_iter d)"
    using ins by (simp add: d'_def t_def delta_iter_def map_update chunk_insert_def)
  show "length (dc_entries t) = Suc (length (dc_entries (pd_chunks d ! c)))"
    using at by (simp add: t_def chunk_insert_def insert_at_def)
  have old: "chunk_ok (pd_chunks d ! c)" using shape c by (simp add: delta_shape_def list_all_length)
  have ok: "chunk_ok t" using old by (simp add: t_def chunk_ok_def chunk_insert_def insert_at_def take_map drop_map)
  have "dc_prefixes t ! 0 = id_prefix (fst (dc_entries t ! 0))" using ok by (cases "dc_entries t") (auto simp: chunk_ok_def)
  moreover have "dc_entries t ! 0 = dc_entries (pd_chunks d ! c) ! 0" if "i \<noteq> 0"
    using that at old by (simp add: t_def chunk_insert_def insert_at_def nth_append chunk_ok_def)
  moreover have "pd_firsts d ! c = id_prefix (fst (dc_entries (pd_chunks d ! c) ! 0))"
    using shape c by (simp add: delta_shape_def)
  ultimately have "pd_firsts d' = map (\<lambda>c. id_prefix (fst (dc_entries c ! 0))) (pd_chunks d')"
    using shape c by (auto simp: d'_def delta_shape_def map_update intro!: list_update_same_conv [THEN iffD2, symmetric])
  moreover have "sorted_keys (delta_iter d')" unfolding iter using shape by (intro sorted_al_ins) (simp add: delta_shape_def)
  moreover have "list_all chunk_ok (pd_chunks d')"
    using shape ok list_all_update by (auto simp: d'_def delta_shape_def)
  ultimately show "delta_shape d'" by (simp add: delta_shape_def)
qed

text \<open>The versions of an id, none when it has no entry.\<close>

definition versions_of :: "primary_table_delta \<Rightarrow> string \<Rightarrow> version_list" where
  "versions_of d rid = (case delta_get d rid of Some vs \<Rightarrow> vs | None \<Rightarrow> [])"

lemma delta_insert_refines:
  assumes inv: "delta_inv d" and ne: "pd_chunks d \<noteq> []"
  shows "delta_iter (delta_insert rid e d) = al_ins rid (versions_of d rid @ [e]) (delta_iter d)"
    and "delta_inv (delta_insert rid e d)"
proof -
  have shape: "delta_shape d" using inv by (simp add: delta_inv_def)
  have "delta_iter (delta_insert rid e d) = al_ins rid (versions_of d rid @ [e]) (delta_iter d) \<and> delta_inv (delta_insert rid e d)"
  proof (cases "delta_locate d rid")
    case (Inr ca)
    obtain c i where ca: "ca = (c, i)" by force
    note at = delta_locate_found [OF shape Inr [unfolded ca]]
    have "versions_of d rid = the (map_of (delta_iter d) rid)"
      using delta_modify_at(1) [OF shape at] by (simp add: versions_of_def delta_get_exact [OF shape])
    with Inr ca delta_modify_at(2) [OF shape at] delta_modify_inv [OF inv at] show ?thesis
      by (simp add: delta_insert_def)
  next
    case (Inl ca)
    obtain c i where ca: "ca = (c, i)" by force
    have "locate (as_cow d) rid = Inl (c, i)" using Inl ca delta_locate_exact [OF shape] by simp
    note at = locate_absent [OF delta_shape_cow [OF shape] this, simplified, OF ne]
    have c: "c < length (pd_chunks d)" and i: "i \<le> length (dc_entries (pd_chunks d ! c))" using at(1,2) by simp_all
    have ins: "concat ((map dc_entries (pd_chunks d))[c := insert_at i (rid, [e]) (dc_entries (pd_chunks d ! c))])
        = al_ins rid [e] (delta_iter d)" using at(3) [of "[e]"] c by simp
    define t where "t = chunk_insert i rid [e] (pd_chunks d ! c)"
    define d' where "d' = \<lparr>pd_chunks = (pd_chunks d)[c := t],
        pd_firsts = (if i = 0 then (pd_firsts d)[c := dc_prefixes t ! 0] else pd_firsts d)\<rparr>"
    note target = chunk_insert_target [OF shape c i ins, folded t_def, folded d'_def]
    have new: "versions_of d rid = []" using at(4) by (simp add: versions_of_def delta_get_exact [OF shape])
    have res: "delta_insert rid e d = (if length (dc_entries t) > 2 * DELTA_CHUNK_ENTRIES then split_chunk c d' else d')"
      using Inl ca by (simp add: delta_insert_def Let_def t_def d'_def)
    have short: "list_all short_chunk (pd_chunks d)" using inv by (simp add: delta_inv_def)
    then have len: "length (dc_entries t) \<le> 2 * DELTA_CHUNK_ENTRIES + 1"
      using target(3) c by (simp add: list_all_length)
    have d'c: "pd_chunks d' ! c = t" "c < length (pd_chunks d')" using c by (simp_all add: d'_def)
    show ?thesis
    proof (cases "length (dc_entries t) > 2 * DELTA_CHUNK_ENTRIES")
      case True
      then have two: "2 \<le> length (dc_entries (pd_chunks d' ! c))" using d'c by simp
      note split = split_chunk_shape [OF target(2) d'c(2) two]
      have "list_all short_chunk (pd_chunks (split_chunk c d'))"
        using short len c by (auto simp: split_chunk_def Let_def d'_def list_all_iff set_insert_at
            dest!: set_update_subset_insert [THEN subsetD])
      with split target(1) new True show ?thesis by (simp add: res delta_inv_def)
    next
      case False
      then have "list_all short_chunk (pd_chunks d')" using list_all_update [OF short, of t c] by (simp add: d'_def not_less)
      with target new False show ?thesis by (simp add: res delta_inv_def)
    qed
  qed
  then show "delta_iter (delta_insert rid e d) = al_ins rid (versions_of d rid @ [e]) (delta_iter d)"
    and "delta_inv (delta_insert rid e d)" by blast+
qed

lemma al_ins_last: "\<forall>p \<in> set xs. fst p < k \<Longrightarrow> al_ins k v xs = xs @ [(k, v)]"
  using al_ins_after [of xs k v "[]"] by simp

lemma push_chunk_refines:
  assumes inv: "delta_inv d" and above: "\<forall>p \<in> set (delta_iter d). fst p < rid"
  shows "delta_iter (push_chunk rid [e] d) = al_ins rid [e] (delta_iter d)" and "delta_inv (push_chunk rid [e] d)"
proof -
  show iter: "delta_iter (push_chunk rid [e] d) = al_ins rid [e] (delta_iter d)"
    unfolding al_ins_last [OF above] by (simp add: push_chunk_def delta_iter_def)
  have "sorted_keys (delta_iter (push_chunk rid [e] d))"
    unfolding iter using inv by (intro sorted_al_ins) (simp add: delta_inv_def delta_shape_def)
  then show "delta_inv (push_chunk rid [e] d)"
    using inv by (simp add: delta_inv_def delta_shape_def push_chunk_def chunk_ok_def)
qed

lemma append_last_refines:
  fixes e :: version_entry
  assumes inv: "delta_inv d" and above: "\<forall>p \<in> set (delta_iter d). fst p < rid" and ne: "pd_chunks d \<noteq> []"
  defines "n \<equiv> length (pd_chunks d) - 1"
  assumes small: "length (dc_entries (pd_chunks d ! n)) < DELTA_CHUNK_ENTRIES"
  defines "d' \<equiv> d\<lparr>pd_chunks := (pd_chunks d)[n := \<lparr>dc_entries = dc_entries (pd_chunks d ! n) @ [(rid, [e])],
      dc_prefixes = dc_prefixes (pd_chunks d ! n) @ [id_prefix rid]\<rparr>]\<rparr>"
  shows "delta_iter d' = al_ins rid [e] (delta_iter d)" and "delta_inv d'"
proof -
  obtain cs c where cs: "pd_chunks d = cs @ [c]" using ne by (cases "pd_chunks d" rule: rev_cases) auto
  show iter: "delta_iter d' = al_ins rid [e] (delta_iter d)"
    unfolding al_ins_last [OF above] by (simp add: d'_def delta_iter_def n_def cs)
  have "sorted_keys (delta_iter d')"
    unfolding iter using inv by (intro sorted_al_ins) (simp add: delta_inv_def delta_shape_def)
  then show "delta_inv d'"
    using inv small by (auto simp: delta_inv_def delta_shape_def d'_def n_def cs chunk_ok_def nth_append)
qed

lemma sorted_keys_top: "sorted_keys (xs @ [x]) \<Longrightarrow> \<forall>p \<in> set (xs @ [x]). fst p \<le> fst x"
  by (auto simp: sorted_wrt_append less_imp_le)

lemma delta_push_refines:
  assumes inv: "delta_inv d"
  shows "delta_iter (delta_push rid e d) = al_ins rid (versions_of d rid @ [e]) (delta_iter d)"
    and "delta_inv (delta_push rid e d)"
proof -
  have shape: "delta_shape d" using inv by (simp add: delta_inv_def)
  have new: "versions_of d rid = []" if "\<forall>p \<in> set (delta_iter d). fst p < rid"
  proof -
    have "map_of (delta_iter d) rid = None" using that by (auto simp: map_of_eq_None_iff)
    then show ?thesis by (simp add: versions_of_def delta_get_exact [OF shape])
  qed
  have "delta_iter (delta_push rid e d) = al_ins rid (versions_of d rid @ [e]) (delta_iter d) \<and> delta_inv (delta_push rid e d)"
  proof (cases "pd_chunks d = []")
    case True
    then have "\<forall>p \<in> set (delta_iter d). fst p < rid" by (simp add: delta_iter_def)
    with push_chunk_refines [OF inv this] new True show ?thesis by (simp add: delta_push_def)
  next
    case False
    define n where "n = length (pd_chunks d) - 1"
    define k where "k = length (dc_entries (pd_chunks d ! n)) - 1"
    have n: "n < length (pd_chunks d)" using False by (simp add: n_def)
    have "dc_entries (pd_chunks d ! n) \<noteq> []" using shape n by (auto simp: delta_shape_def list_all_length chunk_ok_def)
    then have k: "k < length (dc_entries (pd_chunks d ! n))" by (simp add: k_def)
    let ?last = "dc_entries (pd_chunks d ! n) ! k"
    have top: "\<forall>p \<in> set (delta_iter d). fst p \<le> fst ?last"
    proof -
      obtain cs c where cs: "pd_chunks d = cs @ [c]" using False by (cases "pd_chunks d" rule: rev_cases) auto
      moreover obtain es x where "dc_entries c = es @ [x]"
        using k cs n_def by (cases "dc_entries c" rule: rev_cases) auto
      ultimately have "delta_iter d = (concat (map dc_entries cs) @ es) @ [x]" "?last = x"
        by (simp_all add: delta_iter_def n_def k_def)
      moreover have "sorted_keys (delta_iter d)" using shape by (simp add: delta_shape_def)
      ultimately show ?thesis using sorted_keys_top by metis
    qed
    have step: "delta_push rid e d =
        (if fst ?last < rid then
           if length (dc_entries (pd_chunks d ! n)) \<ge> DELTA_CHUNK_ENTRIES then push_chunk rid [e] d
           else d\<lparr>pd_chunks := (pd_chunks d)[n := \<lparr>dc_entries = dc_entries (pd_chunks d ! n) @ [(rid, [e])],
                    dc_prefixes = dc_prefixes (pd_chunks d ! n) @ [id_prefix rid]\<rparr>]\<rparr>
         else if fst ?last = rid then delta_modify n k (\<lambda>vs. vs @ [e]) d
         else delta_insert rid e d)"
      using False by (simp add: delta_push_def Let_def n_def k_def)
    consider "fst ?last < rid" | "fst ?last = rid" | "rid < fst ?last" by fastforce
    then show ?thesis
    proof cases
      case 1
      then have above: "\<forall>p \<in> set (delta_iter d). fst p < rid" using top by (meson le_less_trans)
      with 1 step new push_chunk_refines [OF inv above] append_last_refines [OF inv above False, folded n_def]
      show ?thesis by (auto simp: not_le)
    next
      case 2
      have "versions_of d rid = the (map_of (delta_iter d) rid)"
        using delta_modify_at(1) [OF shape n k 2] by (simp add: versions_of_def delta_get_exact [OF shape])
      with 2 step delta_modify_at(2) [OF shape n k 2] delta_modify_inv [OF inv n k 2] show ?thesis by simp
    next
      case 3
      then have "\<not> fst ?last < rid" "fst ?last \<noteq> rid" by auto
      with step delta_insert_refines [OF inv False] show ?thesis by simp
    qed
  qed
  then show "delta_iter (delta_push rid e d) = al_ins rid (versions_of d rid @ [e]) (delta_iter d)"
    and "delta_inv (delta_push rid e d)" by blast+
qed

lemma delta_get_push:
  assumes "delta_inv d"
  shows "delta_get (delta_push rid e d) k = (if k = rid then Some (versions_of d rid @ [e]) else delta_get d k)"
  using delta_push_refines [OF assms] assms
  by (simp add: delta_get_exact delta_inv_def map_of_al_ins)

section \<open>Walks and merges\<close>

lemma delta_range_refines:
  assumes "delta_shape d"
  shows "delta_range_after d after =
    (case after of None \<Rightarrow> delta_iter d | Some a \<Rightarrow> filter (\<lambda>p. a < fst p) (delta_iter d))"
proof -
  have from_chunk: "map (\<lambda>(i, c). drop (if i = k then a else 0) (dc_entries c)) (drop k (enumerate 0 (pd_chunks d)))
      = map (\<lambda>(i, c). drop (min (if i = k then a else 0) (length c)) c)
          (drop k (enumerate 0 (chunks (as_cow d))))" for k a
    by (intro nth_equalityI) (auto simp: nth_enumerate_eq min_def)
  show ?thesis
  proof (cases after)
    case None
    have "map (\<lambda>(i, c). drop (if i = 0 then 0 else 0) (dc_entries c)) (enumerate 0 (pd_chunks d)) = map dc_entries (pd_chunks d)"
      by (intro nth_equalityI) (simp_all add: nth_enumerate_eq)
    with None show ?thesis by (simp add: delta_range_after_def delta_iter_def)
  next
    case (Some a)
    have "delta_range_after d after = cow_range_from (as_cow d) a False"
      using Some unfolding delta_range_after_def cow_range_from_def Let_def
      by (simp only: option.case delta_locate_exact [OF assms] from_chunk if_False)
    then show ?thesis using cow_range_refines [OF delta_shape_cow [OF assms], of a False] Some by simp
  qed
qed

lemma dedup_versions_exact:
  "sorted (map ve_version es) \<Longrightarrow>
     sorted_wrt (<) (map ve_version (dedup_versions es)) \<and> ve_version ` set (dedup_versions es) = ve_version ` set es
     \<and> set (dedup_versions es) \<subseteq> set es"
proof (induction es rule: dedup_versions.induct)
  case (1 a b es)
  show ?case
  proof (cases "ve_version a = ve_version b")
    case True
    with 1 show ?thesis by (auto simp: image_iff)
  next
    case False
    note rest = 1(2) [OF False]
    from 1(3) rest have "sorted_wrt (<) (map ve_version (dedup_versions (b # es)))"
      "ve_version ` set (dedup_versions (b # es)) = ve_version ` set (b # es)" by auto
    moreover have "\<forall>v \<in> ve_version ` set (b # es). ve_version a < v"
      using 1(3) False by force
    ultimately show ?thesis using False rest 1(3) by auto
  qed
qed auto

lemma delta_pushes:
  assumes "delta_inv d"
  shows "delta_inv (foldl (\<lambda>d e. delta_push rid e d) d es) \<and>
    versions_of (foldl (\<lambda>d e. delta_push rid e d) d es) rid = versions_of d rid @ es \<and>
    (\<forall>k. k \<noteq> rid \<longrightarrow> delta_get (foldl (\<lambda>d e. delta_push rid e d) d es) k = delta_get d k)"
  using assms
proof (induction es arbitrary: d)
  case (Cons e es)
  have "versions_of (delta_push rid e d) rid = versions_of d rid @ [e]"
    using delta_get_push [OF Cons.prems] by (simp add: versions_of_def)
  with Cons.IH [OF delta_push_refines(2) [OF Cons.prems]] show ?case
    using delta_get_push [OF Cons.prems] by simp
qed simp

lemma delta_get_modify:
  assumes inv: "delta_inv d" and at: "delta_locate d rid = Inr (c, i)"
  shows "delta_get (delta_modify c i f d) k = (if k = rid then Some (f (versions_of d rid)) else delta_get d k)"
    and "delta_inv (delta_modify c i f d)"
proof -
  have shape: "delta_shape d" using inv by (simp add: delta_inv_def)
  note found = delta_locate_found [OF shape at]
  show inv': "delta_inv (delta_modify c i f d)" by (rule delta_modify_inv [OF inv found])
  have "versions_of d rid = the (map_of (delta_iter d) rid)"
    using delta_modify_at(1) [OF shape found] by (simp add: versions_of_def delta_get_exact [OF shape])
  then show "delta_get (delta_modify c i f d) k = (if k = rid then Some (f (versions_of d rid)) else delta_get d k)"
    using inv' delta_modify_at(2) [OF shape found, of f]
    by (simp add: delta_get_exact shape delta_inv_def map_of_al_ins)
qed

lemma merge_versions_refines:
  assumes inv: "delta_inv d" and us: "sorts_by_version us"
    and asc: "sorted_wrt (<) (map ve_version versions)"
  shows "delta_inv (merge_versions us rid versions d)"
    and "k \<noteq> rid \<Longrightarrow> delta_get (merge_versions us rid versions d) k = delta_get d k"
    and "sorted_wrt (<) (map ve_version (versions_of (merge_versions us rid versions d) rid))"
    and "ve_version ` set (versions_of (merge_versions us rid versions d) rid)
      = ve_version ` (set (versions_of d rid) \<union> set versions)"
    and "set (versions_of (merge_versions us rid versions d) rid) \<subseteq> set (versions_of d rid) \<union> set versions"
proof -
  let ?d = "merge_versions us rid versions d"
  let ?old = "versions_of d rid" and ?new = "versions_of ?d rid"
  have "delta_inv ?d \<and> (k \<noteq> rid \<longrightarrow> delta_get ?d k = delta_get d k) \<and> sorted_wrt (<) (map ve_version ?new)
    \<and> ve_version ` set ?new = ve_version ` (set ?old \<union> set versions) \<and> set ?new \<subseteq> set ?old \<union> set versions"
  proof (cases "delta_locate d rid")
    case (Inl a)
    then have "?old = []" by (simp add: versions_of_def delta_get_def)
    with Inl delta_pushes [OF inv, of rid versions] asc show ?thesis by (simp add: merge_versions_def)
  next
    case (Inr ca)
    then obtain c i where at: "delta_locate d rid = Inr (c, i)" by (metis surj_pair)
    have new: "?new = dedup_versions (us (?old @ versions))"
      using delta_get_modify(1) [OF inv at, of _ rid] at by (simp add: merge_versions_def versions_of_def)
    have "mset (us (?old @ versions)) = mset (?old @ versions)" and "sorted (map ve_version (us (?old @ versions)))"
      using us by (simp_all add: sorts_by_version_def)
    then have "sorted (map ve_version (us (?old @ versions)))" and "set (us (?old @ versions)) = set ?old \<union> set versions"
      using mset_eq_setD [of "us (?old @ versions)" "?old @ versions"] by simp_all
    with dedup_versions_exact [OF this(1)] delta_get_modify [OF inv at] at show ?thesis
      unfolding new by (simp add: merge_versions_def)
  qed
  then show "delta_inv ?d" and "k \<noteq> rid \<Longrightarrow> delta_get ?d k = delta_get d k"
    and "sorted_wrt (<) (map ve_version ?new)"
    and "ve_version ` set ?new = ve_version ` (set ?old \<union> set versions)"
    and "set ?new \<subseteq> set ?old \<union> set versions" by blast+
qed

section \<open>The interface: a log of versions per key\<close>

text \<open>
  What readers of the resident index rely on: a push appends to the versions of its key. From
  the two laws follows what any sequence of pushes leaves.
\<close>

locale version_log =
  fixes fresh :: 'm
    and versions :: "'m \<Rightarrow> 'k \<Rightarrow> 'e list"
    and push :: "'k \<Rightarrow> 'e \<Rightarrow> 'm \<Rightarrow> 'm"
    and invar :: "'m \<Rightarrow> bool"
  assumes invar_fresh: "invar fresh"
    and versions_fresh: "versions fresh k = []"
    and invar_push: "invar m \<Longrightarrow> invar (push k e m)"
    and versions_push: "invar m \<Longrightarrow> versions (push k e m) k' = (if k' = k then versions m k @ [e] else versions m k')"
begin

lemma invar_pushes: "invar m \<Longrightarrow> invar (foldl (\<lambda>m (k, e). push k e m) m ps)"
  by (induction ps arbitrary: m) (auto simp: invar_push)

lemma versions_pushes:
  "invar m \<Longrightarrow> versions (foldl (\<lambda>m (k, e). push k e m) m ps) k = versions m k @ map snd (filter (\<lambda>p. fst p = k) ps)"
  by (induction ps arbitrary: m) (auto simp: invar_push versions_push)

lemma history: "versions (foldl (\<lambda>m (k, e). push k e m) fresh ps) k = map snd (filter (\<lambda>p. fst p = k) ps)"
  using versions_pushes [OF invar_fresh] by (simp add: versions_fresh)

lemma push_commute:
  "invar m \<Longrightarrow> k \<noteq> k' \<Longrightarrow> versions (push k e (push k' e' m)) = versions (push k' e' (push k e m))"
  by (rule ext) (simp add: invar_push versions_push)

end

lemma delta_inv_default: "delta_inv delta_default"
  by (simp add: delta_inv_def delta_shape_def delta_default_def delta_iter_def)

lemma versions_of_default: "versions_of delta_default rid = []"
  by (simp add: versions_of_def delta_get_def delta_locate_def delta_default_def)

interpretation delta: version_log delta_default versions_of delta_push delta_inv
  by unfold_locales
    (simp_all add: delta_inv_default delta_push_refines(2) delta_get_push versions_of_default, simp add: versions_of_def delta_get_push)

text \<open>The delta after a sequence of pushes.\<close>

abbreviation delta_of :: "(string \<times> version_entry) list \<Rightarrow> primary_table_delta" where
  "delta_of ps \<equiv> foldl (\<lambda>d (rid, e). delta_push rid e d) delta_default ps"

lemma delta_inv_of: "delta_inv (delta_of ps)"
  by (rule delta.invar_pushes [OF delta_inv_default])

lemma map_fst_al_ins: "fst ` set (al_ins k v ps) = insert k (fst ` set ps)"
  by (induction k v ps rule: al_ins.induct) (auto simp: insert_commute)

lemma keys_pushes: "delta_inv d \<Longrightarrow>
  fst ` set (delta_iter (foldl (\<lambda>d (rid, e). delta_push rid e d) d ps)) = fst ` set (delta_iter d) \<union> fst ` set ps"
proof (induction ps arbitrary: d)
  case (Cons p ps)
  then show ?case
    by (cases p) (simp add: delta_push_refines map_fst_al_ins)
qed simp

lemma sorted_keys_unique:
  "sorted_keys xs \<Longrightarrow> map fst xs = sorted_list_of_set (fst ` set xs)"
  using strict_sorted_equal [of "map fst xs" "sorted_list_of_set (set (map fst xs))"]
  by (simp add: sorted_wrt_map)

section \<open>Properties\<close>

text \<open>C19. The resident delta is the history it was given: after any sequence of pushes, in any order of ids
  and whatever chunks it split into on the way, a lookup returns exactly the entries pushed under
  the id, in the order of the pushes, and nothing for an id never pushed; a walk from the start
  lists every id once in increasing order; and the chunks stay within their bound.\<close>

theorem delta_holds_history:
  "delta_get (delta_of ps) rid =
     (if rid \<in> fst ` set ps then Some (map snd (filter (\<lambda>p. fst p = rid) ps)) else None)
   \<and> delta_iter (delta_of ps) =
     map (\<lambda>rid. (rid, map snd (filter (\<lambda>p. fst p = rid) ps))) (sorted_list_of_set (fst ` set ps))
   \<and> list_all (\<lambda>c. dc_entries c \<noteq> [] \<and> length (dc_entries c) \<le> 2 * DELTA_CHUNK_ENTRIES) (pd_chunks (delta_of ps))"
proof -
  let ?h = "\<lambda>rid. map snd (filter (\<lambda>p. fst p = rid) ps)"
  have inv: "delta_inv (delta_of ps)" by (rule delta_inv_of)
  then have shape: "delta_shape (delta_of ps)" and sorted: "sorted_keys (delta_iter (delta_of ps))"
    by (simp_all add: delta_inv_def delta_shape_def)
  have ids: "fst ` set (delta_iter (delta_of ps)) = fst ` set ps"
    using keys_pushes [OF delta_inv_default] by (simp add: delta_default_def delta_iter_def)
  have get: "delta_get (delta_of ps) rid = (if rid \<in> fst ` set ps then Some (?h rid) else None)" for rid
  proof (cases "delta_get (delta_of ps) rid")
    case None
    then have "rid \<notin> fst ` set ps" using ids by (simp add: delta_get_exact [OF shape] map_of_eq_None_iff)
    with None show ?thesis by simp
  next
    case (Some vs)
    then have "(rid, vs) \<in> set (delta_iter (delta_of ps))" by (simp add: delta_get_exact [OF shape] map_of_SomeD)
    then have "rid \<in> fst ` set ps" using ids by force
    with Some delta.history [of ps rid] show ?thesis by (simp add: versions_of_def)
  qed
  have "snd p = ?h (fst p)" if "p \<in> set (delta_iter (delta_of ps))" for p
  proof -
    have "distinct (map fst (delta_iter (delta_of ps)))"
      using sorted by (simp add: sorted_wrt_map strict_sorted_iff flip: sorted_wrt_map)
    then have "map_of (delta_iter (delta_of ps)) (fst p) = Some (snd p)" using that by (simp add: map_of_is_SomeI)
    with get [of "fst p"] show ?thesis by (simp add: delta_get_exact [OF shape] split: if_splits)
  qed
  then have "delta_iter (delta_of ps) = map (\<lambda>rid. (rid, ?h rid)) (map fst (delta_iter (delta_of ps)))"
    by (intro map_idI [symmetric, THEN trans [OF _ map_map [symmetric]]]) (simp add: prod_eq_iff)
  with get [of rid] inv sorted_keys_unique [OF sorted] show ?thesis
    by (simp add: ids delta_inv_def delta_shape_def list_all_iff chunk_ok_def)
qed

text \<open>A walk after a bound returns exactly the ids greater than it, in order, with their versions,
  whether or not the bound itself is present; with no bound it returns everything.\<close>

theorem delta_range_exact:
  "delta_range_after (delta_of ps) after =
     filter (\<lambda>p. case after of None \<Rightarrow> True | Some a \<Rightarrow> a < fst p) (delta_iter (delta_of ps))"
  using delta_range_refines delta_inv_of [of ps] by (cases after) (simp_all add: delta_inv_def)

text \<open>Merging the versions of a record into the delta leaves its versions strictly ascending,
  with every version number of either side exactly once and no entry of any other origin, and
  touches no other record: for every way the unstable sort may order equal versions.\<close>

theorem merge_versions_exact:
  fixes rid :: string
  assumes "delta_inv d" and "sorts_by_version us" and "sorted_wrt (<) (map ve_version versions)"
  defines "d' \<equiv> merge_versions us rid versions d"
  shows "delta_inv d' \<and> (\<forall>k. k \<noteq> rid \<longrightarrow> delta_get d' k = delta_get d k)
    \<and> sorted_wrt (<) (map ve_version (versions_of d' rid))
    \<and> ve_version ` set (versions_of d' rid) = ve_version ` (set (versions_of d rid) \<union> set versions)
    \<and> set (versions_of d' rid) \<subseteq> set (versions_of d rid) \<union> set versions"
  using merge_versions_refines [OF assms(1-3)] unfolding d'_def by blast

theorem merge_versions_exact_witness:
  "map ve_version (versions_of (merge_versions (sort_key ve_version) ''r''
     [\<lparr>ve_version = 2, ve_kind = SegTombstone\<rparr>, \<lparr>ve_version = 5, ve_kind = SegTombstone\<rparr>]
     (delta_of [(''q'', \<lparr>ve_version = 1, ve_kind = MemTombstone\<rparr>), (''r'', \<lparr>ve_version = 2, ve_kind = MemTombstone\<rparr>),
        (''r'', \<lparr>ve_version = 3, ve_kind = MemTombstone\<rparr>)])) ''r'') = [2, 3, 5]"
proof -
  let ?ps = "[(''q'', \<lparr>ve_version = 1, ve_kind = MemTombstone\<rparr>), (''r'', \<lparr>ve_version = 2, ve_kind = MemTombstone\<rparr>),
        (''r'', \<lparr>ve_version = 3, ve_kind = MemTombstone\<rparr>)]"
  let ?vs = "[\<lparr>ve_version = 2, ve_kind = SegTombstone\<rparr>, \<lparr>ve_version = 5, ve_kind = SegTombstone\<rparr>]"
  define d where "d = delta_of ?ps"
  have inv: "delta_inv d" unfolding d_def by (rule delta_inv_of)
  have old: "versions_of d ''r'' = [\<lparr>ve_version = 2, ve_kind = MemTombstone\<rparr>, \<lparr>ve_version = 3, ve_kind = MemTombstone\<rparr>]"
    unfolding d_def by (subst delta.history) simp
  have "sorts_by_version (sort_key ve_version)" by (simp add: sorts_by_version_def)
  from merge_versions_exact [OF inv this, of ?vs "''r''"]
  have "map ve_version (versions_of (merge_versions (sort_key ve_version) ''r'' ?vs d) ''r'') = [2, 3, 5]"
    by (intro strict_sorted_equal) (auto simp: old)
  then show ?thesis by (simp only: d_def)
qed

end
