(* ===== verification/Value_Codec.thy ===== *)
theory Value_Codec
  imports Frames
begin

text \<open>
  Column values and their tagged binary form (\<open>value.rs\<close>): the encoder, the decoder, the
  comparison and the skip that work on encoded bytes without materializing a value, blob
  references and blob chunk files.

  \<open>encode_value\<close> of the model returns the bytes that the Rust function appends to its
  buffer. A directory of blob chunks is a function from file names to the outcome of
  \<open>std::fs::read\<close> (the text of an I/O error, or the file's bytes).
\<close>

section \<open>Values\<close>

datatype column_type =
    Ty_Bool | Ty_Int64 | Ty_Float64 | Ty_Text | Ty_Blob | Ty_Timestamp | Ty_Json | Ty_Vector
  | Ty_Date | Ty_Time

fun display_column_type :: "column_type \<Rightarrow> string" where
  "display_column_type Ty_Bool = ''bool''"
| "display_column_type Ty_Int64 = ''int64''"
| "display_column_type Ty_Float64 = ''float64''"
| "display_column_type Ty_Text = ''text''"
| "display_column_type Ty_Blob = ''blob''"
| "display_column_type Ty_Timestamp = ''timestamp''"
| "display_column_type Ty_Json = ''json''"
| "display_column_type Ty_Vector = ''vector''"
| "display_column_type Ty_Date = ''date''"
| "display_column_type Ty_Time = ''time''"

datatype 'j "value" =
    Null
  | Bool bool
  | Int64 i64
  | Float64 f64
  | Text string
  | Blob bytes
  | Timestamp i64
  | Json 'j
  | Vector "f32 list"
  | Date i32
  | Time i64

definition is_null :: "'j value \<Rightarrow> bool" where
  "is_null v = (case v of Null \<Rightarrow> True | _ \<Rightarrow> False)"

definition value_matches :: "'j value \<Rightarrow> column_type \<Rightarrow> bool" where
  "value_matches v ty =
     (case v of
        Null \<Rightarrow> False
      | Bool _ \<Rightarrow> ty = Ty_Bool
      | Int64 _ \<Rightarrow> ty = Ty_Int64
      | Float64 _ \<Rightarrow> ty = Ty_Float64
      | Text _ \<Rightarrow> ty = Ty_Text
      | Blob _ \<Rightarrow> ty = Ty_Blob
      | Timestamp _ \<Rightarrow> ty = Ty_Timestamp
      | Json _ \<Rightarrow> ty = Ty_Json
      | Vector _ \<Rightarrow> ty = Ty_Vector
      | Date _ \<Rightarrow> ty = Ty_Date
      | Time _ \<Rightarrow> ty = Ty_Time)"

subsection \<open>IEEE comparison on bit patterns\<close>

text \<open>
  A float is its bit pattern: a sign bit over a magnitude. Patterns whose magnitude is above
  that of infinity are NaN, unequal to everything and unordered; all others compare by their
  signed magnitude, which makes the two zeros equal.
\<close>

definition f64_mag :: "f64 \<Rightarrow> nat" where
  "f64_mag x = unat x mod 2 ^ 63"

definition f64_neg :: "f64 \<Rightarrow> bool" where
  "f64_neg x \<longleftrightarrow> 2 ^ 63 \<le> unat x"

definition f64_is_nan :: "f64 \<Rightarrow> bool" where
  "f64_is_nan x \<longleftrightarrow> 0x7FF0000000000000 < f64_mag x"

definition f64_val :: "f64 \<Rightarrow> int" where
  "f64_val x = (if f64_neg x then - int (f64_mag x) else int (f64_mag x))"

definition f64_eq :: "f64 \<Rightarrow> f64 \<Rightarrow> bool" where
  "f64_eq x y \<longleftrightarrow> \<not> f64_is_nan x \<and> \<not> f64_is_nan y \<and> f64_val x = f64_val y"

definition f64_lt :: "f64 \<Rightarrow> f64 \<Rightarrow> bool" where
  "f64_lt x y \<longleftrightarrow> \<not> f64_is_nan x \<and> \<not> f64_is_nan y \<and> f64_val x < f64_val y"

definition f32_mag :: "f32 \<Rightarrow> nat" where
  "f32_mag x = unat x mod 2 ^ 31"

definition f32_val :: "f32 \<Rightarrow> int" where
  "f32_val x = (if 2 ^ 31 \<le> unat x then - int (f32_mag x) else int (f32_mag x))"

definition f32_is_finite :: "f32 \<Rightarrow> bool" where
  "f32_is_finite x \<longleftrightarrow> f32_mag x < 0x7F800000"

definition f32_eq :: "f32 \<Rightarrow> f32 \<Rightarrow> bool" where
  "f32_eq x y \<longleftrightarrow> f32_mag x \<le> 0x7F800000 \<and> f32_mag y \<le> 0x7F800000 \<and> f32_val x = f32_val y"

text \<open>The derived \<open>PartialEq\<close> of \<open>Value\<close>.\<close>

definition value_eq :: "'j ext \<Rightarrow> 'j value \<Rightarrow> 'j value \<Rightarrow> bool" where
  "value_eq E v w =
     (case v of
        Null \<Rightarrow> (case w of Null \<Rightarrow> True | _ \<Rightarrow> False)
      | Bool a \<Rightarrow> (case w of Bool b \<Rightarrow> a = b | _ \<Rightarrow> False)
      | Int64 a \<Rightarrow> (case w of Int64 b \<Rightarrow> a = b | _ \<Rightarrow> False)
      | Float64 a \<Rightarrow> (case w of Float64 b \<Rightarrow> f64_eq a b | _ \<Rightarrow> False)
      | Text a \<Rightarrow> (case w of Text b \<Rightarrow> a = b | _ \<Rightarrow> False)
      | Blob a \<Rightarrow> (case w of Blob b \<Rightarrow> a = b | _ \<Rightarrow> False)
      | Timestamp a \<Rightarrow> (case w of Timestamp b \<Rightarrow> a = b | _ \<Rightarrow> False)
      | Json a \<Rightarrow> (case w of Json b \<Rightarrow> json_eq E a b | _ \<Rightarrow> False)
      | Vector a \<Rightarrow> (case w of Vector b \<Rightarrow> list_all2 f32_eq a b | _ \<Rightarrow> False)
      | Date a \<Rightarrow> (case w of Date b \<Rightarrow> a = b | _ \<Rightarrow> False)
      | Time a \<Rightarrow> (case w of Time b \<Rightarrow> a = b | _ \<Rightarrow> False))"

section \<open>Blob references and blob chunk files\<close>

abbreviation "TAG_NULL \<equiv> (0::u8)"
abbreviation "TAG_BOOL \<equiv> (1::u8)"
abbreviation "TAG_INT64 \<equiv> (2::u8)"
abbreviation "TAG_FLOAT64 \<equiv> (3::u8)"
abbreviation "TAG_TEXT \<equiv> (4::u8)"
abbreviation "TAG_BLOB \<equiv> (5::u8)"
abbreviation "TAG_TIMESTAMP \<equiv> (6::u8)"
abbreviation "TAG_JSON \<equiv> (7::u8)"
abbreviation "TAG_VECTOR \<equiv> (8::u8)"
abbreviation "TAG_DATE \<equiv> (9::u8)"
abbreviation "TAG_TIME \<equiv> (10::u8)"
abbreviation "TAG_BLOBREF \<equiv> (11::u8)"

definition BLOB_MAGIC :: bytes where
  "BLOB_MAGIC = as_bytes ''ESQLBLOB''"

record blob_ref =
  br_name :: string
  br_size :: u64
  br_crc :: u32

type_synonym blob_dir = "string \<Rightarrow> string + bytes"

fun contains_str :: "string \<Rightarrow> string \<Rightarrow> bool" where
  "contains_str [] p = (p = [])"
| "contains_str (c # cs) p = (take (length p) (c # cs) = p \<or> contains_str cs p)"

definition encode_blob_ref :: "string \<Rightarrow> u64 \<Rightarrow> u32 \<Rightarrow> bytes result" where
  "encode_blob_ref name sz crc =
     rbind (require (fits_u16 (length name))
             (InvalidArgument ''blob reference name exceeds 65535 bytes'')) (\<lambda>_.
     Inr (TAG_BLOBREF # to_le_bytes (of_nat (length name) :: u16) @ as_bytes name
          @ to_le_bytes sz @ to_le_bytes crc))"

definition read_blob_ref :: "bytes \<Rightarrow> nat \<Rightarrow> (blob_ref \<times> nat) result" where
  "read_blob_ref buf pos =
     rbind (read_u16 buf pos) (\<lambda>(name_len, pos).
     rbind (ok_or (Corrupt ''blobref: length overflow'') (checked_add pos (unat name_len))) (\<lambda>end_pos.
     rbind (ok_or (Corrupt ''blobref: unexpected end'') (get_range buf pos end_pos)) (\<lambda>name_bytes.
     rbind (ok_or (Corrupt ''blobref: invalid utf8'') (from_utf8 name_bytes)) (\<lambda>name.
     rbind (require (\<not> (CHR ''/'' \<in> set name \<or> contains_str name ''..''))
             (Corrupt ''blobref: invalid name'')) (\<lambda>_.
     rbind (read_u64 buf end_pos) (\<lambda>(sz, pos).
     rbind (read_u32 buf pos) (\<lambda>(crc, pos).
     Inr (\<lparr>br_name = name, br_size = sz, br_crc = crc\<rparr>, pos))))))))"

definition write_blob_file_bytes :: "'j ext \<Rightarrow> bytes \<Rightarrow> bytes \<times> u32" where
  "write_blob_file_bytes E content =
     (let crc = crc32 E content
      in (BLOB_MAGIC @ to_le_bytes crc @ to_le_bytes (of_nat (length content) :: u64) @ content, crc))"

definition read_blob_file :: "'j ext \<Rightarrow> blob_dir \<Rightarrow> blob_ref \<Rightarrow> bytes result" where
  "read_blob_file E dir r =
     (case dir (br_name r @ ''.blob'') of
        Inl e \<Rightarrow> Inl (Corrupt (''blob chunk '' @ br_name r @ '' unreadable: '' @ e))
      | Inr bs \<Rightarrow>
          if length bs < 20 \<or> take 8 bs \<noteq> BLOB_MAGIC
          then Inl (Corrupt (''blob chunk '' @ br_name r @ '': bad header''))
          else
            let crc = from_le_bytes (take 4 (drop 8 bs)) :: u32;
                len = from_le_bytes (take 8 (drop 12 bs)) :: u64;
                content = drop 20 bs
            in if crc \<noteq> br_crc r \<or> len \<noteq> br_size r \<or> of_nat (length content) \<noteq> len
               then Inl (Corrupt (''blob chunk '' @ br_name r @ '': checksum or size mismatch''))
               else if crc32 E content \<noteq> crc
               then Inl (Corrupt (''blob chunk '' @ br_name r @ '': content corrupt''))
               else Inr content)"

section \<open>Encoding and decoding a value\<close>

fun encode_value :: "'j ext \<Rightarrow> 'j value \<Rightarrow> bytes" where
  "encode_value E Null = [TAG_NULL]"
| "encode_value E (Bool b) = [TAG_BOOL, if b then 1 else 0]"
| "encode_value E (Int64 n) = TAG_INT64 # to_le_bytes n"
| "encode_value E (Float64 x) = TAG_FLOAT64 # to_le_bytes x"
| "encode_value E (Text s) =
     TAG_TEXT # to_le_bytes (of_nat (length s) :: u32) @ as_bytes s"
| "encode_value E (Blob b) = TAG_BLOB # to_le_bytes (of_nat (length b) :: u32) @ b"
| "encode_value E (Timestamp n) = TAG_TIMESTAMP # to_le_bytes n"
| "encode_value E (Json j) =
     (let bs = json_to_vec E j in TAG_JSON # to_le_bytes (of_nat (length bs) :: u32) @ bs)"
| "encode_value E (Vector v) =
     TAG_VECTOR # to_le_bytes (of_nat (length v) :: u32) @ concat (map to_le_bytes v)"
| "encode_value E (Date d) = TAG_DATE # to_le_bytes d"
| "encode_value E (Time t) = TAG_TIME # to_le_bytes t"

definition read_f32 :: "bytes \<Rightarrow> nat \<Rightarrow> (f32 \<times> nat) result" where
  "read_f32 buf pos = rbind (read_array 4 buf pos) (\<lambda>(bs, pos). Inr (from_le_bytes bs, pos))"

definition decode_value :: "'j ext \<Rightarrow> bytes \<Rightarrow> nat \<Rightarrow> blob_dir option \<Rightarrow> ('j value \<times> nat) result" where
  "decode_value E buf pos blobs =
     rbind (read_u8 buf pos) (\<lambda>(tag, pos).
       if tag = TAG_NULL then Inr (Null, pos)
       else if tag = TAG_BOOL then
         rbind (read_u8 buf pos) (\<lambda>(b, pos). Inr (Bool (b \<noteq> 0), pos))
       else if tag = TAG_INT64 then
         rbind (read_array 8 buf pos) (\<lambda>(bs, pos). Inr (Int64 (from_le_bytes bs), pos))
       else if tag = TAG_FLOAT64 then
         rbind (read_array 8 buf pos) (\<lambda>(bs, pos). Inr (Float64 (from_le_bytes bs), pos))
       else if tag = TAG_TEXT then
         rbind (read_len_prefixed buf pos) (\<lambda>(bs, pos).
         rbind (text_str bs) (\<lambda>s. Inr (Text s, pos)))
       else if tag = TAG_BLOB then
         rbind (read_len_prefixed buf pos) (\<lambda>(bs, pos). Inr (Blob bs, pos))
       else if tag = TAG_TIMESTAMP then
         rbind (read_array 8 buf pos) (\<lambda>(bs, pos). Inr (Timestamp (from_le_bytes bs), pos))
       else if tag = TAG_JSON then
         rbind (read_len_prefixed buf pos) (\<lambda>(bs, pos).
         rbind (ok_or (Corrupt ''invalid json value'') (json_from_slice E bs)) (\<lambda>j.
         Inr (Json j, pos)))
       else if tag = TAG_VECTOR then
         rbind (read_u32 buf pos) (\<lambda>(count, pos).
           case checked_mul (unat count) 4 of
             None \<Rightarrow> Inl (Corrupt ''truncated vector value'')
           | Some bytes \<Rightarrow>
               if pos + bytes > length buf then Inl (Corrupt ''truncated vector value'')
               else rbind (repeat_read read_f32 (unat count) buf pos) (\<lambda>(v, pos). Inr (Vector v, pos)))
       else if tag = TAG_DATE then
         rbind (read_array 4 buf pos) (\<lambda>(bs, pos). Inr (Date (from_le_bytes bs), pos))
       else if tag = TAG_TIME then
         rbind (read_array 8 buf pos) (\<lambda>(bs, pos). Inr (Time (from_le_bytes bs), pos))
       else if tag = TAG_BLOBREF then
         rbind (read_blob_ref buf pos) (\<lambda>(r, pos).
           case blobs of
             Some dir \<Rightarrow> rbind (read_blob_file E dir r) (\<lambda>content. Inr (Blob content, pos))
           | None \<Rightarrow> Inl (Corrupt ''blob reference in a context without a blobs directory''))
       else Inl (Corrupt (''unknown value tag '' @ show_nat (unat tag))))"

section \<open>Comparing and skipping encoded values\<close>

text \<open>The component loop of the vector comparison: every component is read, also after the
  first difference.\<close>

fun read_f32s_eq :: "f32 list \<Rightarrow> bytes \<Rightarrow> nat \<Rightarrow> bool \<Rightarrow> (bool \<times> nat) result" where
  "read_f32s_eq [] buf pos equal = Inr (equal, pos)"
| "read_f32s_eq (w # ws) buf pos equal =
     rbind (read_array 4 buf pos) (\<lambda>(bs, pos).
     read_f32s_eq ws buf pos (equal \<and> f32_eq (from_le_bytes bs) w))"

text \<open>The \<open>match (tag, expected)\<close> of \<open>encoded_value_eq\<close>: \<open>None\<close> where no arm decides.\<close>

definition encoded_match ::
    "u8 \<Rightarrow> 'j value \<Rightarrow> bytes \<Rightarrow> nat \<Rightarrow> (bool \<times> nat) option result" where
  "encoded_match tag expected buf pos =
     (case expected of
        Null \<Rightarrow> if tag = TAG_NULL then Inr (Some (True, pos)) else Inr None
      | Bool e \<Rightarrow> if tag = TAG_BOOL
          then rbind (read_u8 buf pos) (\<lambda>(b, pos). Inr (Some ((b \<noteq> 0) = e, pos)))
          else Inr None
      | Int64 e \<Rightarrow> if tag = TAG_INT64
          then rbind (read_array 8 buf pos) (\<lambda>(bs, pos). Inr (Some (from_le_bytes bs = e, pos)))
          else Inr None
      | Float64 e \<Rightarrow> if tag = TAG_FLOAT64
          then rbind (read_array 8 buf pos) (\<lambda>(bs, pos). Inr (Some (f64_eq (from_le_bytes bs) e, pos)))
          else Inr None
      | Text e \<Rightarrow> if tag = TAG_TEXT
          then rbind (read_len_prefixed buf pos) (\<lambda>(bs, pos).
               rbind (text_str bs) (\<lambda>s. Inr (Some (s = e, pos))))
          else Inr None
      | Blob e \<Rightarrow> if tag = TAG_BLOB
          then rbind (read_len_prefixed buf pos) (\<lambda>(bs, pos). Inr (Some (bs = e, pos)))
          else Inr None
      | Timestamp e \<Rightarrow> if tag = TAG_TIMESTAMP
          then rbind (read_array 8 buf pos) (\<lambda>(bs, pos). Inr (Some (from_le_bytes bs = e, pos)))
          else Inr None
      | Date e \<Rightarrow> if tag = TAG_DATE
          then rbind (read_array 4 buf pos) (\<lambda>(bs, pos). Inr (Some (from_le_bytes bs = e, pos)))
          else Inr None
      | Time e \<Rightarrow> if tag = TAG_TIME
          then rbind (read_array 8 buf pos) (\<lambda>(bs, pos). Inr (Some (from_le_bytes bs = e, pos)))
          else Inr None
      | Vector e \<Rightarrow> if tag = TAG_VECTOR
          then rbind (read_u32 buf pos) (\<lambda>(count, pos).
               rbind (ok_or (Corrupt ''length overflow'') (checked_mul (unat count) 4)) (\<lambda>bytes.
                 case checked_add pos bytes of
                   None \<Rightarrow> Inl (Corrupt ''truncated vector value'')
                 | Some end_pos \<Rightarrow>
                     if end_pos > length buf then Inl (Corrupt ''truncated vector value'')
                     else if unat count \<noteq> length e then Inr (Some (False, pos + bytes))
                     else rbind (read_f32s_eq e buf pos True) (\<lambda>(equal, pos).
                            Inr (Some (equal, pos)))))
          else Inr None
      | Json _ \<Rightarrow> Inr None)"

definition encoded_value_eq ::
    "'j ext \<Rightarrow> bytes \<Rightarrow> nat \<Rightarrow> 'j value \<Rightarrow> blob_dir option \<Rightarrow> (bool \<times> nat) result" where
  "encoded_value_eq E buf pos expected blobs =
     (let start = pos in
      rbind (read_u8 buf pos) (\<lambda>(tag, pos).
      rbind (encoded_match tag expected buf pos) (\<lambda>matched.
        case matched of
          Some (m, pos) \<Rightarrow> Inr (m, pos)
        | None \<Rightarrow> rbind (decode_value E buf start blobs) (\<lambda>(v, pos).
                   Inr (value_eq E v expected, pos)))))"

text \<open>\<open>skip_value\<close> returns the blob references it met (the Rust function pushes them).\<close>

definition skip_value :: "bytes \<Rightarrow> nat \<Rightarrow> (blob_ref list \<times> nat) result" where
  "skip_value buf pos =
     rbind (read_u8 buf pos) (\<lambda>(tag, pos).
       if tag = TAG_NULL then Inr ([], pos)
       else if tag = TAG_BOOL then rbind (read_u8 buf pos) (\<lambda>(_, pos). Inr ([], pos))
       else if tag = TAG_INT64 \<or> tag = TAG_FLOAT64 \<or> tag = TAG_TIMESTAMP \<or> tag = TAG_TIME then
         rbind (read_array 8 buf pos) (\<lambda>(_, pos). Inr ([], pos))
       else if tag = TAG_DATE then rbind (read_array 4 buf pos) (\<lambda>(_, pos). Inr ([], pos))
       else if tag = TAG_TEXT \<or> tag = TAG_BLOB \<or> tag = TAG_JSON then
         rbind (read_len_prefixed buf pos) (\<lambda>(_, pos). Inr ([], pos))
       else if tag = TAG_VECTOR then
         rbind (read_u32 buf pos) (\<lambda>(count, pos).
         rbind (ok_or (Corrupt ''length overflow'') (checked_mul (unat count) 4)) (\<lambda>bytes.
           if pos + bytes > length buf then Inl (Corrupt ''truncated vector value'')
           else Inr ([], pos + bytes)))
       else if tag = TAG_BLOBREF then
         rbind (read_blob_ref buf pos) (\<lambda>(r, pos). Inr ([r], pos))
       else Inl (Corrupt (''unknown value tag '' @ show_nat (unat tag))))"

section \<open>What can be stored\<close>

text \<open>
  The values whose encoding can be read back: strings are Rust strings, lengths fit the
  \<open>u32\<close> prefix, and \<open>serde_json\<close> parses what it printed.
\<close>

definition wf_value :: "'j ext \<Rightarrow> 'j value \<Rightarrow> bool" where
  "wf_value E v =
     (case v of
        Text s \<Rightarrow> rust_str s \<and> fits_u32 (length s)
      | Blob b \<Rightarrow> fits_u32 (length b)
      | Json j \<Rightarrow> fits_u32 (length (json_to_vec E j)) \<and> json_from_slice E (json_to_vec E j) = Some j
      | Vector xs \<Rightarrow> fits_u32 (length xs)
      | _ \<Rightarrow> True)"

section \<open>Vector components\<close>

lemma checked_mul_u32 [simp]: "checked_mul (unat (w::u32)) 4 = Some (unat w * 4)"
  using unat_bound [of w] by (simp add: checked_mul_def usize_limit_def)

lemma length_concat_le_bytes [simp]: "length (concat (map to_le_bytes (xs::f32 list))) = length xs * 4"
  by (induction xs) simp_all

lemma read_f32_bounds: "read_f32 buf pos = Inr (x, pos') \<Longrightarrow> pos' = pos + 4 \<and> pos' \<le> length buf"
  by (auto simp: read_f32_def result_dests dest: read_array_bounds)

interpretation f32_frames: frame_codec to_le_bytes read_f32 "\<lambda>_. True" "\<lambda>_ x. x"
proof
  fix a :: f32 and buf pos rest
  assume "cursor_at buf pos (to_le_bytes a @ rest)"
  then show "read_f32 buf pos = Inr (a, pos + length (to_le_bytes a))"
    by (simp add: read_f32_def read_array_at)
next
  fix buf pos ext and r :: "f32 \<times> nat"
  assume "read_f32 buf pos = Inr r"
  then show "read_f32 (buf @ ext) pos = Inr r"
    by (auto simp: read_f32_def result_dests read_extends)
next
  fix buf pos pos' and x :: f32
  assume "read_f32 buf pos = Inr (x, pos')"
  then show "pos < pos' \<and> pos' \<le> length buf"
    using read_f32_bounds by fastforce
qed

lemma read_vector_at:
  assumes "cursor_at buf pos (concat (map to_le_bytes (xs::f32 list)) @ rest)"
  shows "repeat_read read_f32 (length xs) buf pos = Inr (xs, pos + length xs * 4)"
  using f32_frames.repeat_read_enc [of xs buf pos rest] assms by (simp add: list.pred_True)

text \<open>Inside the buffer the component loop cannot fail.\<close>

lemma read_vector_total:
  "pos + n * 4 \<le> length buf \<Longrightarrow> length buf < usize_limit \<Longrightarrow>
   \<exists>xs. repeat_read read_f32 n buf pos = Inr (xs, pos + n * 4) \<and> length xs = n"
proof (induction n arbitrary: pos)
  case 0
  then show ?case by simp
next
  case (Suc n)
  then have "pos + 4 + n * 4 \<le> length buf" by simp
  with Suc.IH Suc.prems(2) obtain xs
    where xs: "repeat_read read_f32 n buf (pos + 4) = Inr (xs, pos + 4 + n * 4)" "length xs = n"
    by blast
  have "read_array 4 buf pos = Inr (take 4 (drop pos buf), pos + 4)"
    using Suc.prems by (simp add: read_array_def checked_add_def get_range_def)
  then have "read_f32 buf pos = Inr (from_le_bytes (take 4 (drop pos buf)), pos + 4)"
    by (simp add: read_f32_def)
  with xs show ?case by simp
qed

section \<open>Reading back a value\<close>

lemma decode_encode_value:
  assumes "wf_value E v" and at: "cursor_at buf pos (encode_value E v @ rest)"
  shows "decode_value E buf pos blobs = Inr (v, pos + length (encode_value E v))"
proof -
  have at0: "cursor_at buf pos (hd (encode_value E v) # tl (encode_value E v) @ rest)"
    using at by (cases v) (simp_all add: Let_def)
  note at1 = cursor_at_Cons [OF at0]
  have tag: "read_u8 buf pos = Inr (hd (encode_value E v), Suc pos)"
    using at0 by (rule read_u8_at)
  show ?thesis
  proof (cases v)
    case (Bool b)
    with at1 have "cursor_at buf (Suc pos) ((if b then 1 else 0) # rest)" by simp
    from read_u8_at [OF this] tag Bool show ?thesis by (simp add: decode_value_def)
  next
    case (Text s)
    with at1 have "cursor_at buf (Suc pos)
        (to_le_bytes (of_nat (length (as_bytes s)) :: u32) @ as_bytes s @ rest)" by simp
    from read_len_prefixed_at [OF this] tag Text assms(1) show ?thesis
      by (simp add: decode_value_def wf_value_def text_str_as_bytes)
  next
    case (Blob b)
    with at1 have "cursor_at buf (Suc pos) (to_le_bytes (of_nat (length b) :: u32) @ b @ rest)"
      by simp
    from read_len_prefixed_at [OF this] tag Blob assms(1) show ?thesis
      by (simp add: decode_value_def wf_value_def)
  next
    case (Json j)
    with at1 have "cursor_at buf (Suc pos)
        (to_le_bytes (of_nat (length (json_to_vec E j)) :: u32) @ json_to_vec E j @ rest)"
      by (simp add: Let_def)
    from read_len_prefixed_at [OF this] tag Json assms(1) show ?thesis
      by (simp add: decode_value_def wf_value_def Let_def)
  next
    case (Vector xs)
    with at1 have at2: "cursor_at buf (Suc pos)
        (to_le_bytes (of_nat (length xs) :: u32) @ concat (map to_le_bytes xs) @ rest)" by simp
    note at3 = cursor_at_u32 [OF at2]
    have "unat (of_nat (length xs) :: u32) = length xs"
      using assms(1) Vector by (simp add: wf_value_def unat_of_nat_u32)
    with Vector tag read_u32_at [OF at2] read_vector_at [OF at3] cursor_at_length [OF at3]
    show ?thesis by (simp add: decode_value_def)
  qed (use at1 tag in \<open>simp_all add: decode_value_def read_array_at\<close>)
qed

lemma read_blob_ref_extend: "read_blob_ref buf pos = Inr r \<Longrightarrow> read_blob_ref (buf @ ext) pos = Inr r"
  by (auto simp: read_blob_ref_def result_dests read_extends)

lemma read_blob_ref_bounds:
  "read_blob_ref buf pos = Inr (r, pos') \<Longrightarrow> pos < pos' \<and> pos' \<le> length buf"
  by (auto simp: read_blob_ref_def result_dests dest!: read_bounds checked_add_Some get_range_length)

lemma decode_value_extend:
  assumes "decode_value E buf pos blobs = Inr r"
  shows "decode_value E (buf @ ext) pos blobs = Inr r"
proof -
  have vec: "repeat_read read_f32 n buf p = Inr x \<Longrightarrow> repeat_read read_f32 n (buf @ ext) p = Inr x" for n p x
    using repeat_read_extend [of read_f32 buf ext] f32_frames.rd_extend by blast
  obtain tag p where tag: "read_u8 buf pos = Inr (tag, p)"
    using assms by (auto simp: decode_value_def result_dests)
  show ?thesis
    using assms
    by (auto simp: tag read_u8_extend [OF tag] decode_value_def result_dests read_extends
        read_blob_ref_extend vec split: if_splits option.splits)
      (force simp: vec)
qed

lemma repeat_read_f32_bounds:
  "repeat_read read_f32 n buf pos = Inr (xs, pos') \<Longrightarrow> pos' = pos + n * 4"
  by (induction n arbitrary: pos xs pos') (fastforce simp: result_dests dest: read_f32_bounds)+

lemma decode_value_bounds:
  assumes "decode_value E buf pos blobs = Inr (v, pos')"
  shows "pos < pos' \<and> pos' \<le> length buf"
  using assms
  by (auto simp: decode_value_def result_dests split: if_splits option.splits
      dest!: read_bounds read_blob_ref_bounds repeat_read_f32_bounds)

interpretation value_frames: frame_codec
  "encode_value E" "\<lambda>buf pos. decode_value E buf pos blobs" "wf_value E" "\<lambda>_ v. v"
  for E :: "'j ext" and blobs :: "blob_dir option"
  by unfold_locales (rule decode_encode_value decode_value_extend decode_value_bounds; assumption)+

section \<open>Comparing without materializing\<close>

lemma read_f32s_eq_repeat:
  "read_f32s_eq ws buf pos equal =
     rbind (repeat_read read_f32 (length ws) buf pos) (\<lambda>(xs, pos).
     Inr (equal \<and> list_all2 f32_eq xs ws, pos))"
proof (induction ws arbitrary: pos equal)
  case Nil
  then show ?case by simp
next
  case (Cons w ws)
  show ?case
  proof (cases "read_array 4 buf pos")
    case (Inl e)
    then show ?thesis by (simp add: read_f32_def)
  next
    case (Inr r)
    obtain bs p where r: "r = (bs, p)" by force
    have "read_f32 buf pos = Inr (from_le_bytes bs, p)"
      using Inr r by (simp add: read_f32_def)
    then show ?thesis
      using Inr r Cons.IH by (cases "repeat_read read_f32 (length ws) buf p") auto
  qed
qed

lemma encoded_match_vector:
  "length buf < usize_limit \<Longrightarrow> encoded_match TAG_VECTOR (Vector e) buf p =
     rbind (rbind (read_u32 buf p) (\<lambda>(count, pos).
           if pos + unat count * 4 > length buf then Inl (Corrupt ''truncated vector value'')
           else rbind (repeat_read read_f32 (unat count) buf pos) (\<lambda>(v, pos). Inr (Vector v, pos))))
       (\<lambda>(w, pos). Inr (Some (value_eq E w (Vector e), pos)))"
proof (cases "read_u32 buf p")
  case (Inl e)
  then show ?thesis by (simp add: encoded_match_def)
next
  case (Inr r)
  assume limit: "length buf < usize_limit"
  obtain count pos where r: "r = (count, pos)" by force
  show ?thesis
    using limit Inr read_vector_total [of pos "unat count" buf]
    by (auto simp: r encoded_match_def checked_add_def read_f32s_eq_repeat value_eq_def
        dest!: list_all2_lengthD)
qed

lemma encoded_match_decided:
  assumes tag: "read_u8 buf pos = Inr (tag, p)" and limit: "length buf < usize_limit"
    and decided: "encoded_match tag expected buf p \<noteq> Inr None"
  shows "encoded_match tag expected buf p =
    rbind (decode_value E buf pos blobs) (\<lambda>(w, pos). Inr (Some (value_eq E w expected, pos)))"
proof (cases expected)
  case (Vector e)
  with decided have "tag = TAG_VECTOR" by (simp add: encoded_match_def split: if_splits)
  with tag Vector show ?thesis
    by (simp add: encoded_match_vector [OF limit, of e p E] decode_value_def cong: if_cong)
qed (use decided in \<open>auto simp: tag encoded_match_def decode_value_def value_eq_def rbind_def
      split: if_splits sum.splits prod.splits\<close>)

lemma encoded_value_eq_decode:
  assumes "length buf < usize_limit"
  shows "encoded_value_eq E buf pos expected blobs =
     rbind (decode_value E buf pos blobs) (\<lambda>(v, pos). Inr (value_eq E v expected, pos))"
proof (cases "read_u8 buf pos")
  case (Inl e)
  then show ?thesis by (simp add: encoded_value_eq_def decode_value_def)
next
  case (Inr r)
  obtain tag p where r: "r = (tag, p)" by force
  show ?thesis
  proof (cases "encoded_match tag expected buf p = Inr None")
    case True
    then show ?thesis using Inr r by (simp add: encoded_value_eq_def)
  next
    case False
    note match = encoded_match_decided [OF Inr [unfolded r] assms False, of E blobs]
    show ?thesis
      using Inr r
      by (cases "decode_value E buf pos blobs") (auto simp: encoded_value_eq_def match)
  qed
qed

section \<open>Skipping\<close>

lemma skip_decode_value:
  assumes "decode_value E buf pos blobs = Inr (v, pos')"
  shows "\<exists>refs. skip_value buf pos = Inr (refs, pos')"
proof -
  obtain tag p where tag: "read_u8 buf pos = Inr (tag, p)"
    using assms by (auto simp: decode_value_def result_dests)
  show ?thesis
    using assms
    by (auto simp: tag decode_value_def skip_value_def result_dests split: if_splits option.splits
        dest: repeat_read_f32_bounds)
qed

lemma skip_encode_value:
  assumes "wf_value E v" and "cursor_at buf pos (encode_value E v @ rest)"
  shows "skip_value buf pos = Inr ([], pos + length (encode_value E v))"
proof -
  have dec: "decode_value E buf pos None = Inr (v, pos + length (encode_value E v))"
    using assms by (rule decode_encode_value)
  then obtain refs where refs: "skip_value buf pos = Inr (refs, pos + length (encode_value E v))"
    using skip_decode_value by blast
  obtain tag p where tag: "read_u8 buf pos = Inr (tag, p)"
    using dec by (auto simp: decode_value_def result_dests)
  have "refs = []"
    using dec refs by (auto simp: tag skip_value_def decode_value_def result_dests split: if_splits)
  with refs show ?thesis by simp
qed

section \<open>Blob references and chunk files\<close>

lemma read_encode_blob_ref:
  assumes enc: "encode_blob_ref name sz crc = Inr bs"
    and name: "rust_str name" "CHR ''/'' \<notin> set name" "\<not> contains_str name ''..''"
    and at: "cursor_at buf pos (bs @ rest)"
  shows "skip_value buf pos =
    Inr ([\<lparr>br_name = name, br_size = sz, br_crc = crc\<rparr>], pos + length bs)"
proof -
  from enc have fits: "fits_u16 (length name)"
    and bs: "bs = TAG_BLOBREF # to_le_bytes (of_nat (length name) :: u16) @ as_bytes name
              @ to_le_bytes sz @ to_le_bytes crc"
    by (auto simp: encode_blob_ref_def result_dests)
  from at have at0: "cursor_at buf pos (TAG_BLOBREF # to_le_bytes (of_nat (length name) :: u16)
      @ as_bytes name @ to_le_bytes sz @ to_le_bytes crc @ rest)"
    by (simp add: bs)
  note at1 = cursor_at_Cons [OF at0]
  note at2 = cursor_at_u16 [OF at1]
  note at3 = cursor_at_append [OF at2]
  note at4 = cursor_at_u64 [OF at3]
  show ?thesis
    using read_u8_at [OF at0] read_u16_at [OF at1] cursor_at_checked_add [OF at2]
      cursor_at_range [OF at2] read_u64_at [OF at3] read_u32_at [OF at4] name
    by (simp add: skip_value_def read_blob_ref_def unat_of_nat_u16 [OF fits] from_utf8_as_bytes bs)
qed

lemma read_write_blob_file:
  assumes "write_blob_file_bytes E content = (file, crc)"
    and "dir (name @ ''.blob'') = Inr file"
  shows "read_blob_file E dir \<lparr>br_name = name, br_size = of_nat (length content), br_crc = crc\<rparr> = Inr content"
  using assms
  by (auto simp: write_blob_file_bytes_def Let_def read_blob_file_def BLOB_MAGIC_def as_bytes_def)

lemma read_blob_file_verified:
  assumes "read_blob_file E dir r = Inr content"
  shows "crc32 E content = br_crc r \<and> of_nat (length content) = br_size r"
  using assms by (auto simp: read_blob_file_def Let_def split: sum.splits if_splits)

section \<open>Properties\<close>

text \<open>A stored value reads back as itself wherever it stands in a buffer and whatever
  surrounds it, the cursor ends exactly behind it, and skipping it without decoding moves the
  cursor to the same place and meets no blob reference.\<close>

theorem value_roundtrip:
  assumes "wf_value E v" and "length (pre @ encode_value E v @ rest) < usize_limit"
  shows "decode_value E (pre @ encode_value E v @ rest) (length pre) blobs =
      Inr (v, length (pre @ encode_value E v)) \<and>
    skip_value (pre @ encode_value E v @ rest) (length pre) = Inr ([], length (pre @ encode_value E v))"
proof -
  have at: "cursor_at (pre @ encode_value E v @ rest) (length pre) (encode_value E v @ rest)"
    using assms(2) by (rule cursor_at_concat)
  show ?thesis
    using decode_encode_value [OF assms(1) at] skip_encode_value [OF assms(1) at] by simp
qed

theorem value_roundtrip_witness:
  "decode_value sample_ext ([9] @ encode_value sample_ext (Text ''ab'') @ [7]) 1 None = Inr (Text ''ab'', 8) \<and>
   skip_value ([9] @ encode_value sample_ext (Text ''ab'') @ [7]) 1 = Inr ([], 8)"
  using value_roundtrip [of sample_ext "Text ''ab''" "[9]" "[7]" None]
  by (simp add: wf_value_def fits_u32_def usize_limit_def)

text \<open>Comparing a stored value with an expected one without materializing it is decoding and
  then comparing, for every byte sequence: the same verdict, the same cursor, and the same
  error on damaged bytes.\<close>

theorem encoded_value_eq_exact:
  assumes "length buf < usize_limit"
  shows "encoded_value_eq E buf pos expected blobs =
    rbind (decode_value E buf pos blobs) (\<lambda>(v, pos). Inr (value_eq E v expected, pos))"
  using assms by (rule encoded_value_eq_decode)

theorem encoded_value_eq_exact_witness:
  "encoded_value_eq sample_ext [TAG_BOOL, 1] 0 (Bool True) None =
    rbind (decode_value sample_ext [TAG_BOOL, 1] 0 None) (\<lambda>(v, pos). Inr (value_eq sample_ext v (Bool True), pos))"
  using encoded_value_eq_exact [of "[TAG_BOOL, 1]" sample_ext 0 "Bool True" None]
  by (simp add: usize_limit_def)

text \<open>A blob stored out of line reads back as its content through the reference written into
  the row; and a blob file that reads successfully has exactly the size and checksum that the
  reference records, so a truncated or damaged chunk file is never returned as data.\<close>

theorem blob_file_roundtrip:
  assumes "write_blob_file_bytes E content = (data, crc)" and "encode_blob_ref name (of_nat (length content)) crc = Inr bs"
    and "rust_str name" and "CHR ''/'' \<notin> set name" and "\<not> contains_str name ''..''"
    and "dir (name @ ''.blob'') = Inr data" and "length (bs @ rest) < usize_limit"
  shows "decode_value E (bs @ rest) 0 (Some dir) = Inr (Blob content, length bs) \<and>
    (\<forall>dir' r found. read_blob_file E dir' r = Inr found \<longrightarrow>
       crc32 E found = br_crc r \<and> of_nat (length found) = br_size r)"
proof -
  let ?r = "\<lparr>br_name = name, br_size = of_nat (length content), br_crc = crc\<rparr>"
  have at: "cursor_at (bs @ rest) 0 (bs @ rest)"
    using assms(7) by (rule cursor_at_start)
  have skip: "skip_value (bs @ rest) 0 = Inr ([?r], length bs)"
    using read_encode_blob_ref [OF assms(2-5) at] by simp
  moreover have tag: "read_u8 (bs @ rest) 0 = Inr (TAG_BLOBREF, Suc 0)"
    using assms(2) by (auto simp: encode_blob_ref_def result_dests read_u8_def get_at_def)
  ultimately have "read_blob_ref (bs @ rest) (Suc 0) = Inr (?r, length bs)"
    by (auto simp: skip_value_def result_dests)
  then have "decode_value E (bs @ rest) 0 (Some dir) = Inr (Blob content, length bs)"
    using read_write_blob_file [of E content data crc dir name] assms(1,6)
    by (simp add: decode_value_def tag)
  with read_blob_file_verified show ?thesis by blast
qed

theorem blob_file_roundtrip_witness:
  "\<exists>data crc bs. write_blob_file_bytes sample_ext [1, 2, 3] = (data, crc) \<and>
     encode_blob_ref ''b1'' 3 crc = Inr bs \<and>
     decode_value sample_ext (bs @ []) 0 (Some (\<lambda>_. Inr data)) = Inr (Blob [1, 2, 3], length bs)"
proof -
  obtain data crc where w: "write_blob_file_bytes sample_ext [1, 2, 3] = (data, crc)" by force
  obtain bs where bs: "encode_blob_ref ''b1'' (of_nat (length [1::u8, 2, 3])) crc = Inr bs"
    and "length bs = 17"
    by (simp add: encode_blob_ref_def fits_u16_def)
  with blob_file_roundtrip [OF w bs, of "\<lambda>_. Inr data" "[]"] w show ?thesis
    by (auto simp: usize_limit_def)
qed

end
