(* ===== verification/Row.thy ===== *)
theory Row
  imports Map_Interface Value_Codec
begin

text \<open>
  Rows (\<open>record.rs\<close>): the values a read returns beside their column names, which rows of one
  shape share; and the cache of layouts through which a decoder resolves the names of a payload
  without allocating.

  The facts: a row is a finite map from column names to values whatever the order of its
  columns; and decoding through the cache yields the names of the payload whatever the cache
  holds.
\<close>

section \<open>Rows\<close>

datatype names = Shared "string list" | Owned "string list"

fun as_slice :: "names \<Rightarrow> string list" where
  "as_slice (Shared ns) = ns"
| "as_slice (Owned ns) = ns"

record 'j row =
  row_names :: names
  row_values :: "'j value list"

definition row_new :: "'j row" where
  "row_new = \<lparr>row_names = Owned [], row_values = []\<rparr>"

definition from_layout :: "string list \<Rightarrow> 'j value list \<Rightarrow> 'j row" where
  "from_layout ns vs = \<lparr>row_names = Shared ns, row_values = vs\<rparr>"

fun list_position :: "('a \<Rightarrow> bool) \<Rightarrow> 'a list \<Rightarrow> nat option" where
  "list_position p [] = None"
| "list_position p (x # xs) = (if p x then Some 0 else map_option Suc (list_position p xs))"

definition position :: "'j row \<Rightarrow> string \<Rightarrow> nat option" where
  "position r name = list_position (\<lambda>stored. as_bytes stored = as_bytes name) (as_slice (row_names r))"

definition row_get :: "'j row \<Rightarrow> string \<Rightarrow> 'j value option" where
  "row_get r name = map_option ((!) (row_values r)) (position r name)"

definition contains_key :: "'j row \<Rightarrow> string \<Rightarrow> bool" where
  "contains_key r name \<longleftrightarrow> position r name \<noteq> None"

definition row_insert :: "string \<Rightarrow> 'j value \<Rightarrow> 'j row \<Rightarrow> 'j row \<times> 'j value option" where
  "row_insert name v r =
     (case position r name of
        Some at \<Rightarrow> (r\<lparr>row_values := (row_values r)[at := v]\<rparr>, Some (row_values r ! at))
      | None \<Rightarrow>
          (\<lparr>row_names = Owned (as_slice (row_names r) @ [name]), row_values = row_values r @ [v]\<rparr>, None))"

definition row_take :: "string \<Rightarrow> 'j row \<Rightarrow> 'j row \<times> 'j value option" where
  "row_take name r =
     (case position r name of
        Some at \<Rightarrow> (r\<lparr>row_values := (row_values r)[at := Null]\<rparr>, Some (row_values r ! at))
      | None \<Rightarrow> (r, None))"

definition remove_nth :: "nat \<Rightarrow> 'a list \<Rightarrow> 'a list" where
  "remove_nth i xs = take i xs @ drop (Suc i) xs"

definition row_remove :: "string \<Rightarrow> 'j row \<Rightarrow> 'j row \<times> 'j value option" where
  "row_remove name r =
     (case position r name of
        Some at \<Rightarrow>
          (\<lparr>row_names = Owned (remove_nth at (as_slice (row_names r))),
            row_values = remove_nth at (row_values r)\<rparr>, Some (row_values r ! at))
      | None \<Rightarrow> (r, None))"

definition row_iter :: "'j row \<Rightarrow> (string \<times> 'j value) list" where
  "row_iter r = zip (as_slice (row_names r)) (row_values r)"

definition matches_layout :: "'j row \<Rightarrow> string list \<Rightarrow> bool" where
  "matches_layout r expected \<longleftrightarrow>
     length expected = length (row_values r)
     \<and> list_all (\<lambda>(stored, wanted). stored = wanted) (zip (as_slice (row_names r)) expected)"

definition sorted_iter :: "'j row \<Rightarrow> (string \<times> 'j value) list" where
  "sorted_iter r = sort_key fst (row_iter r)"

definition row_eq :: "'j ext \<Rightarrow> 'j row \<Rightarrow> 'j row \<Rightarrow> bool" where
  "row_eq E r s \<longleftrightarrow>
     length (row_values r) = length (row_values s)
     \<and> list_all (\<lambda>(name, v). case row_get s name of Some w \<Rightarrow> value_eq E w v | None \<Rightarrow> False) (row_iter r)"

definition row_extend :: "'j row \<Rightarrow> (string \<times> 'j value) list \<Rightarrow> 'j row" where
  "row_extend r entries = foldl (\<lambda>r (name, v). fst (row_insert name v r)) r entries"

definition row_from_iter :: "(string \<times> 'j value) list \<Rightarrow> 'j row" where
  "row_from_iter entries = row_extend row_new entries"

section \<open>Rows are finite maps\<close>

definition wf_row :: "'j row \<Rightarrow> bool" where
  "wf_row r \<longleftrightarrow> length (as_slice (row_names r)) = length (row_values r) \<and> distinct (as_slice (row_names r))"

lemma list_position_None: "list_position p xs = None \<longleftrightarrow> (\<forall>x \<in> set xs. \<not> p x)"
  by (induction xs) auto

lemma list_position_Some:
  "list_position p xs = Some i \<Longrightarrow> i < length xs \<and> p (xs ! i) \<and> (\<forall>j < i. \<not> p (xs ! j))"
  by (induction xs arbitrary: i) (auto simp: nth_Cons split: if_splits nat.splits)

lemma position_distinct:
  assumes "distinct (as_slice (row_names r))" and "i < length (as_slice (row_names r))"
  shows "position r (as_slice (row_names r) ! i) = Some i"
proof (cases "position r (as_slice (row_names r) ! i)")
  case None
  with assms show ?thesis by (auto simp: position_def list_position_None)
next
  case (Some j)
  with assms list_position_Some [OF Some [unfolded position_def]] show ?thesis
    by (auto simp: nth_eq_iff_index_eq)
qed

lemma row_get_map_of:
  assumes "wf_row r"
  shows "row_get r name = map_of (row_iter r) name"
proof (cases "position r name")
  case None
  then have "name \<notin> set (as_slice (row_names r))" by (auto simp: position_def list_position_None)
  then have "map_of (row_iter r) name = None"
    using assms by (simp add: row_iter_def wf_row_def map_of_zip_is_None)
  with None show ?thesis by (simp add: row_get_def)
next
  case (Some i)
  then have i: "i < length (as_slice (row_names r))" "as_slice (row_names r) ! i = name"
    using list_position_Some by (force simp: position_def)+
  with assms have "map_of (row_iter r) name = Some (row_values r ! i)"
    using map_of_zip_nth [of "as_slice (row_names r)" "row_values r" i] by (simp add: row_iter_def wf_row_def)
  with Some show ?thesis by (simp add: row_get_def)
qed

lemma position_Some:
  assumes "position r name = Some i"
  shows "i < length (as_slice (row_names r))" and "as_slice (row_names r) ! i = name"
  using assms list_position_Some by (force simp: position_def)+

lemma position_None: "position r name = None \<longleftrightarrow> name \<notin> set (as_slice (row_names r))"
  by (auto simp: position_def list_position_None)

lemma map_of_remove_nth:
  assumes "distinct (map fst ps)" and "i < length ps"
  shows "map_of (remove_nth i ps) = (map_of ps)(fst (ps ! i) := None)"
proof -
  have ps: "ps = take i ps @ ps ! i # drop (Suc i) ps" using assms(2) by (rule id_take_nth_drop)
  have "fst (ps ! i) \<notin> fst ` set (take i ps) \<union> fst ` set (drop (Suc i) ps)"
    using assms(1) by (subst (asm) ps) auto
  then have "map_of (take i ps) (fst (ps ! i)) = None" "map_of (drop (Suc i) ps) (fst (ps ! i)) = None"
    by (auto simp: map_of_eq_None_iff)
  then have "map_of (take i ps @ drop (Suc i) ps) =
      (map_of (take i ps @ ps ! i # drop (Suc i) ps))(fst (ps ! i) := None)"
    by (cases "ps ! i") (auto simp: fun_eq_iff map_add_def split: option.splits)
  with ps show ?thesis by (simp add: remove_nth_def)
qed

lemma wf_row_new: "wf_row row_new"
  by (simp add: wf_row_def row_new_def)

lemma row_get_new: "row_get row_new name = None"
  by (simp add: row_get_def row_new_def position_def)

lemma wf_row_insert: "wf_row r \<Longrightarrow> wf_row (fst (row_insert name v r))"
  by (auto simp: wf_row_def row_insert_def position_None split: option.split)

lemma row_get_insert:
  assumes "wf_row r"
  shows "row_get (fst (row_insert name v r)) k = (if k = name then Some v else row_get r k)"
proof (cases "position r name")
  case None
  have "row_iter (fst (row_insert name v r)) = row_iter r @ [(name, v)]"
    using assms None by (simp add: row_iter_def row_insert_def wf_row_def)
  moreover have "map_of (row_iter r) name = None"
    using row_get_map_of [OF assms, of name] None by (simp add: row_get_def)
  ultimately show ?thesis
    using row_get_map_of [OF assms] row_get_map_of [OF wf_row_insert [OF assms]]
    by (auto simp: map_add_def split: option.split)
next
  case (Some i)
  have "position (fst (row_insert name v r)) k = position r k"
    using Some by (simp add: row_insert_def position_def)
  moreover have "i < length (row_values r)" using position_Some [OF Some] assms by (simp add: wf_row_def)
  moreover have "position r k = Some i \<longleftrightarrow> k = name"
    using Some position_Some(2) [of r k i] position_Some(2) [OF Some] by auto
  ultimately show ?thesis
    using Some by (cases "position r k") (auto simp: row_get_def row_insert_def nth_list_update)
qed

lemma wf_row_remove: "wf_row r \<Longrightarrow> wf_row (fst (row_remove name r))"
  by (auto simp: wf_row_def row_remove_def remove_nth_def distinct_take distinct_drop
      set_take_disj_set_drop_if_distinct split: option.split)

lemma row_get_remove:
  assumes "wf_row r"
  shows "row_get (fst (row_remove name r)) k = (if k = name then None else row_get r k)"
proof (cases "position r name")
  case None
  then show ?thesis by (simp add: row_remove_def row_get_def)
next
  case (Some i)
  note i = position_Some [OF Some]
  have "row_iter (fst (row_remove name r)) = remove_nth i (row_iter r)"
    using assms Some i by (simp add: row_iter_def row_remove_def wf_row_def remove_nth_def take_zip drop_zip
        flip: zip_append)
  moreover have "distinct (map fst (row_iter r))" "i < length (row_iter r)" "fst (row_iter r ! i) = name"
    using assms i by (simp_all add: row_iter_def wf_row_def)
  ultimately show ?thesis
    using row_get_map_of [OF assms] row_get_map_of [OF wf_row_remove [OF assms]]
    by (simp add: map_of_remove_nth)
qed

interpretation rows: map_ops row_new row_get "\<lambda>name v r. fst (row_insert name v r)"
  "\<lambda>name r. fst (row_remove name r)" wf_row
  by unfold_locales (simp_all add: wf_row_new row_get_new wf_row_insert row_get_insert wf_row_remove
      row_get_remove)

section \<open>The layout cache\<close>

text \<open>The cache holds at most four layouts, the most recently used first. A set of slots that
  still match is the list of their numbers in ascending order (the source keeps it as the bits
  of a \<open>u32\<close> and walks it from the lowest bit).\<close>

type_synonym layouts = "string list list"

abbreviation "CACHED_LAYOUTS \<equiv> (4::nat)"

record layout_matcher =
  lm_cache :: layouts
  lm_alive :: "nat list"
  lm_prefix :: "nat option"
  lm_matched :: nat
  lm_owned :: "string list option"

datatype name_error = Duplicate | InvalidUtf8

definition matcher_new :: "layouts \<Rightarrow> layout_matcher" where
  "matcher_new cache =
     (let alive = [0..<length cache] in
      \<lparr>lm_cache = cache, lm_alive = alive, lm_prefix = (if alive \<noteq> [] then Some 0 else None),
       lm_matched = 0, lm_owned = None\<rparr>)"

definition to_name :: "bytes \<Rightarrow> name_error + string" where
  "to_name name = ok_or InvalidUtf8 (from_utf8 name)"

definition still_matching :: "layout_matcher \<Rightarrow> bytes \<Rightarrow> nat list" where
  "still_matching m name =
     filter (\<lambda>slot. lm_matched m < length (lm_cache m ! slot)
                   \<and> as_bytes (lm_cache m ! slot ! lm_matched m) = name) (lm_alive m)"

definition observe :: "layout_matcher \<Rightarrow> bytes \<Rightarrow> name_error + layout_matcher" where
  "observe m name =
     (case lm_owned m of
        Some owned \<Rightarrow>
          if list_ex (\<lambda>stored. as_bytes stored = name) owned then Inl Duplicate
          else rbind (to_name name) (\<lambda>n.
               Inr (m\<lparr>lm_owned := Some (owned @ [n]), lm_matched := lm_matched m + 1\<rparr>))
      | None \<Rightarrow>
          (let still = still_matching m name in
           if still = [] then
             (let owned = (case lm_prefix m of
                             Some slot \<Rightarrow> take (lm_matched m) (lm_cache m ! slot)
                           | None \<Rightarrow> []) in
              rbind (to_name name) (\<lambda>n.
              Inr (m\<lparr>lm_owned := Some (owned @ [n]), lm_alive := [], lm_matched := lm_matched m + 1\<rparr>)))
           else
             Inr (m\<lparr>lm_alive := still, lm_prefix := Some (hd still), lm_matched := lm_matched m + 1\<rparr>)))"

definition move_to_front :: "nat \<Rightarrow> 'a list \<Rightarrow> 'a list" where
  "move_to_front slot xs = xs ! slot # remove_nth slot xs"

definition finish :: "layout_matcher \<Rightarrow> 'j value list \<Rightarrow> layouts \<times> 'j row" where
  "finish m vs =
     (let hit = (if lm_owned m = None
                 then find (\<lambda>slot. length (lm_cache m ! slot) = lm_matched m) (lm_alive m)
                 else None) in
      case hit of
        Some slot \<Rightarrow>
          ((if slot \<noteq> 0 then move_to_front slot (lm_cache m) else lm_cache m),
           from_layout (lm_cache m ! slot) vs)
      | None \<Rightarrow>
          (let ns = (case lm_owned m of
                       Some owned \<Rightarrow> owned
                     | None \<Rightarrow> (case lm_prefix m of
                                 Some slot \<Rightarrow> take (lm_matched m) (lm_cache m ! slot)
                               | None \<Rightarrow> []))
           in (take CACHED_LAYOUTS (ns # lm_cache m), from_layout ns vs)))"

definition layout_for :: "layouts \<Rightarrow> string list \<Rightarrow> layouts \<times> string list" where
  "layout_for cache ns =
     (case list_position (\<lambda>layout. layout = ns) cache of
        Some slot \<Rightarrow>
          ((if slot \<noteq> 0 then move_to_front slot cache else cache), cache ! slot)
      | None \<Rightarrow> (take CACHED_LAYOUTS (ns # cache), ns))"

fun observe_all :: "layout_matcher \<Rightarrow> bytes list \<Rightarrow> name_error + layout_matcher" where
  "observe_all m [] = Inr m"
| "observe_all m (n # ns) = rbind (observe m n) (\<lambda>m. observe_all m ns)"

text \<open>\<open>build_row\<close> for a payload whose kept names are \<open>ns\<close> with values \<open>vs\<close>.\<close>

definition build_row :: "layouts \<Rightarrow> bytes list \<Rightarrow> 'j value list \<Rightarrow> name_error + (layouts \<times> 'j row)" where
  "build_row cache ns vs =
     rbind (observe_all (matcher_new cache) ns) (\<lambda>m. Inr (finish m vs))"

section \<open>Decoding through the cache is transparent\<close>

text \<open>The names observed so far.\<close>

definition lm_names :: "layout_matcher \<Rightarrow> string list" where
  "lm_names m =
     (case lm_owned m of
        Some owned \<Rightarrow> owned
      | None \<Rightarrow> (case lm_prefix m of Some slot \<Rightarrow> take (lm_matched m) (lm_cache m ! slot) | None \<Rightarrow> []))"

definition matcher_inv :: "layout_matcher \<Rightarrow> bool" where
  "matcher_inv m \<longleftrightarrow>
     length (lm_names m) = lm_matched m \<and> (lm_owned m \<noteq> None \<longrightarrow> lm_alive m = [])
     \<and> (\<forall>slot \<in> set (lm_alive m). slot < length (lm_cache m)
          \<and> lm_matched m \<le> length (lm_cache m ! slot)
          \<and> take (lm_matched m) (lm_cache m ! slot) = lm_names m)"

lemma matcher_inv_new: "matcher_inv (matcher_new cache)"
  by (simp add: matcher_inv_def matcher_new_def lm_names_def Let_def)

lemma observe_names:
  assumes "matcher_inv m" and "observe m name = Inr m'"
  shows "matcher_inv m' \<and> map as_bytes (lm_names m') = map as_bytes (lm_names m) @ [name]
    \<and> lm_cache m' = lm_cache m"
proof (cases "lm_owned m")
  case (Some owned)
  with assms show ?thesis
    by (auto simp: observe_def to_name_def result_dests matcher_inv_def lm_names_def
        dest!: from_utf8_Some split: if_splits)
next
  case None
  let ?still = "still_matching m name"
  show ?thesis
  proof (cases "?still = []")
    case True
    with None assms show ?thesis
      by (auto simp: observe_def to_name_def result_dests matcher_inv_def lm_names_def Let_def
          dest!: from_utf8_Some)
  next
    case False
    then have hd: "hd ?still \<in> set ?still" by simp
    have slots: "slot < length (lm_cache m)" "lm_matched m < length (lm_cache m ! slot)"
        "take (Suc (lm_matched m)) (lm_cache m ! slot) = lm_names m @ [str_of name]"
      if "slot \<in> set ?still" for slot
    proof -
      from that assms(1) show "slot < length (lm_cache m)" "lm_matched m < length (lm_cache m ! slot)"
        by (auto simp: still_matching_def matcher_inv_def)
      moreover have "lm_cache m ! slot ! lm_matched m = str_of name"
        using that by (auto simp: still_matching_def)
      ultimately show "take (Suc (lm_matched m)) (lm_cache m ! slot) = lm_names m @ [str_of name]"
        using that assms(1) by (auto simp: still_matching_def matcher_inv_def take_Suc_conv_app_nth)
    qed
    have m': "m' = m\<lparr>lm_alive := ?still, lm_prefix := Some (hd ?still), lm_matched := lm_matched m + 1\<rparr>"
      using assms(2) None False by (simp add: observe_def Let_def)
    have names: "lm_names m' = lm_names m @ [str_of name]"
      using slots(3) [OF hd] None by (simp add: m' lm_names_def)
    have "length (lm_names m') = lm_matched m'"
      using assms(1) unfolding names by (simp add: m' matcher_inv_def)
    then show ?thesis
      using slots names None by (auto simp: matcher_inv_def m' Suc_le_eq)
  qed
qed

lemma observe_all_names:
  assumes "matcher_inv m" and "observe_all m ns = Inr m'"
  shows "matcher_inv m' \<and> map as_bytes (lm_names m') = map as_bytes (lm_names m) @ ns \<and> lm_cache m' = lm_cache m"
  using assms
  by (induction ns arbitrary: m) (auto simp: result_dests dest: observe_names)

lemma finish_names:
  assumes "matcher_inv m"
  shows "snd (finish m vs) = from_layout (lm_names m) vs"
proof (cases "lm_owned m = None \<and> (\<exists>slot. find (\<lambda>slot. length (lm_cache m ! slot) = lm_matched m) (lm_alive m) = Some slot)")
  case True
  then obtain slot where hit: "lm_owned m = None"
      "find (\<lambda>slot. length (lm_cache m ! slot) = lm_matched m) (lm_alive m) = Some slot" by auto
  then have "length (lm_cache m ! slot) = lm_matched m" "slot \<in> set (lm_alive m)"
    by (auto simp: find_Some_iff)
  with assms have "lm_cache m ! slot = lm_names m" by (auto simp: matcher_inv_def)
  with hit show ?thesis by (simp add: finish_def Let_def)
next
  case False
  then show ?thesis
    by (cases "lm_owned m") (auto simp: finish_def Let_def lm_names_def split: option.splits)
qed

lemma observe_ok:
  assumes "matcher_inv m" and "rust_str s" and "s \<notin> set (lm_names m)"
  shows "is_ok (observe m (as_bytes s))"
  using assms
  by (auto simp: observe_def is_ok_def to_name_def from_utf8_as_bytes lm_names_def list_ex_iff Let_def
      split: option.splits)

lemma observe_all_ok:
  assumes "matcher_inv m" and "list_all rust_str ns" and "distinct (lm_names m @ ns)"
  shows "\<exists>m'. observe_all m (map as_bytes ns) = Inr m' \<and> matcher_inv m' \<and> lm_names m' = lm_names m @ ns"
  using assms
proof (induction ns arbitrary: m)
  case (Cons s ns)
  then obtain m1 where m1: "observe m (as_bytes s) = Inr m1"
    using observe_ok [of m s] by (auto simp: is_ok_def split: sum.splits)
  note step = observe_names [OF Cons.prems(1) m1]
  from step have "map as_bytes (lm_names m1) = map as_bytes (lm_names m @ [s])" by simp
  then have "lm_names m1 = lm_names m @ [s]"
    by (metis inj_on_inverseI inj_onD inj_map_eq_map str_of_as_bytes injI)
  with Cons.IH [of m1] Cons.prems step m1 show ?case by simp
qed simp

text \<open>The cache never grows beyond its four slots.\<close>

lemma length_move_to_front: "slot < length xs \<Longrightarrow> length (move_to_front slot xs) = length xs"
  by (simp add: move_to_front_def remove_nth_def)

lemma finish_cache_bound:
  assumes "length (lm_cache m) \<le> CACHED_LAYOUTS" and "matcher_inv m"
  shows "length (fst (finish m vs)) \<le> CACHED_LAYOUTS"
proof -
  have "slot < length (lm_cache m)"
    if "find (\<lambda>slot. length (lm_cache m ! slot) = lm_matched m) (lm_alive m) = Some slot" for slot
    using that assms(2) by (auto simp: find_Some_iff matcher_inv_def)
  with assms(1) show ?thesis
    by (auto simp: finish_def Let_def length_move_to_front split: option.split)
qed

section \<open>Properties\<close>

text \<open>A row is a finite map. Inserting a column makes it readable under its name and changes no
  other, returns what was there before, and keeps names unique and beside their values; removing
  a column does the opposite.\<close>

theorem row_updates:
  assumes "wf_row r"
  shows "wf_row (fst (row_insert name v r)) \<and> snd (row_insert name v r) = row_get r name
    \<and> row_get (fst (row_insert name v r)) k = (if k = name then Some v else row_get r k)
    \<and> wf_row (fst (row_remove name r)) \<and> snd (row_remove name r) = row_get r name
    \<and> row_get (fst (row_remove name r)) k = (if k = name then None else row_get r k)"
  using rows.invar_ins [OF assms] rows.lookup_ins [OF assms] rows.invar_del [OF assms]
    rows.lookup_del [OF assms]
  by (auto simp: row_insert_def row_remove_def row_get_def split: option.split)

theorem row_updates_witness:
  "row_get (fst (row_insert ''b'' (Bool True) (from_layout [''a''] [Null :: bytes value]))) ''a'' = Some Null"
proof -
  let ?r = "from_layout [''a''] [Null :: bytes value]"
  have "wf_row ?r" "row_get ?r ''a'' = Some Null"
    by (simp_all add: wf_row_def from_layout_def row_get_def position_def)
  with row_updates [of ?r "''b''" "Bool True" "''a''"] show ?thesis by simp
qed

text \<open>A row built from a sequence of named values reads, under each name, the last value given
  for it, and is well formed whatever the sequence repeats.\<close>

lemma row_from_iter_last_wins:
  "wf_row (row_from_iter entries) \<and> row_get (row_from_iter entries) = map_of (rev entries)"
  unfolding row_from_iter_def row_extend_def
  using rows.invar_extend [OF rows.invar_empty] rows.lookup_from_list by blast

text \<open>Comparing rows ignores the order of their columns: two well-formed rows are equal exactly
  when they carry the same column names with equal values, although the comparison only looks
  up the columns of one side.\<close>

theorem row_eq_as_maps:
  assumes "wf_row r" and "wf_row s"
  shows "row_eq E r s \<longleftrightarrow> (\<forall>name. rel_option (\<lambda>v w. value_eq E w v) (row_get r name) (row_get s name))"
proof
  let ?ns = "as_slice (row_names r)" and ?ms = "as_slice (row_names s)"
  have dom: "row_get x name = None \<longleftrightarrow> name \<notin> set (as_slice (row_names x))" for x :: "'a row" and name
    by (simp add: row_get_def position_None)
  have mem: "row_get r name = Some v \<longleftrightarrow> (name, v) \<in> set (row_iter r)" for name v
    using assms(1) by (simp add: row_get_map_of row_iter_def wf_row_def)
  {
    assume eq: "row_eq E r s"
    then have found: "\<exists>w. row_get s name = Some w \<and> value_eq E w v" if "row_get r name = Some v" for name v
      using that mem by (fastforce simp: row_eq_def list_all_iff split: option.splits)
    have "name \<in> set ?ms" if here: "name \<in> set ?ns" for name
    proof -
      obtain v where "row_get r name = Some v" using here dom [of r name] by auto
      with found [of name] dom [of s name] show ?thesis by auto
    qed
    then have "set ?ns \<subseteq> set ?ms" by blast
    moreover have "card (set ?ns) = card (set ?ms)"
      using eq assms by (simp add: row_eq_def wf_row_def distinct_card)
    ultimately have same: "set ?ns = set ?ms" by (simp add: card_subset_eq)
    show "\<forall>name. rel_option (\<lambda>v w. value_eq E w v) (row_get r name) (row_get s name)"
    proof
      fix name
      show "rel_option (\<lambda>v w. value_eq E w v) (row_get r name) (row_get s name)"
        using found [of name] same dom [of r name] dom [of s name] by (cases "row_get r name") auto
    qed
  }
  {
    assume rel: "\<forall>name. rel_option (\<lambda>v w. value_eq E w v) (row_get r name) (row_get s name)"
    then have "row_get r name = None \<longleftrightarrow> row_get s name = None" for name
      by (metis option.rel_sel)
    then have "set ?ns = set ?ms" unfolding dom by blast
    then have "length ?ns = length ?ms" using assms by (metis distinct_card wf_row_def)
    with assms have "length (row_values r) = length (row_values s)" by (simp add: wf_row_def)
    moreover have "case row_get s name of Some w \<Rightarrow> value_eq E w v | None \<Rightarrow> False"
      if "(name, v) \<in> set (row_iter r)" for name v
      using rel [rule_format, of name] that mem [of name v] by (auto elim: option.rel_cases)
    ultimately show "row_eq E r s" by (auto simp: row_eq_def list_all_iff)
  }
qed

theorem row_eq_as_maps_witness:
  "row_eq sample_ext (from_layout [''a'', ''b''] [Bool True, Null]) (from_layout [''b'', ''a''] [Null, Bool True])"
  using row_eq_as_maps [of "from_layout [''a'', ''b''] [Bool True, Null]"
      "from_layout [''b'', ''a''] [Null, Bool True]" sample_ext]
  by (simp add: wf_row_def from_layout_def row_get_def position_def value_eq_def)

text \<open>Decoding through the layout cache is transparent: for a payload with distinct column
  names the row gets exactly those names in payload order, whatever layouts earlier rows left in
  the cache, and the cache stays within its four slots.\<close>

theorem build_row_exact:
  assumes "list_all rust_str ns" and "distinct ns" and "length cache \<le> CACHED_LAYOUTS"
  shows "\<exists>cache'. build_row cache (map as_bytes ns) vs = Inr (cache', from_layout ns vs)
    \<and> length cache' \<le> CACHED_LAYOUTS"
proof -
  have empty: "lm_names (matcher_new cache) = []"
    using matcher_inv_new [of cache] by (auto simp: matcher_inv_def matcher_new_def)
  obtain m where m: "observe_all (matcher_new cache) (map as_bytes ns) = Inr m" "matcher_inv m" "lm_names m = ns"
    using observe_all_ok [OF matcher_inv_new, of ns cache] assms(1,2) empty by auto
  have "lm_cache m = cache"
    using observe_all_names [OF matcher_inv_new m(1)] by (simp add: matcher_new_def Let_def)
  with finish_cache_bound [of m vs] finish_names [OF m(2), of vs] m assms(3) show ?thesis
    by (cases "finish m vs") (auto simp: build_row_def)
qed

theorem build_row_exact_witness:
  "\<exists>cache'. build_row [[''a'', ''b'']] (map as_bytes [''a'', ''c'']) [Null, Null :: bytes value] =
     Inr (cache', from_layout [''a'', ''c''] [Null, Null])"
  using build_row_exact [of "[''a'', ''c'']" "[[''a'', ''b'']]" "[Null, Null]"] by auto


end
