(* ===== verification/Schema.thy ===== *)
theory Schema
  imports Row Wal
begin

text \<open>
  Columns, tables and the catalog (\<open>schema.rs\<close>): what a declaration may contain, what the
  catalog checks when it is loaded, and what follows from a catalog that passed: names fit the
  storage frames, columns are unique, foreign keys resolve to a unique target of the same type,
  and no table name collides with the log's identity pseudo-table.

  The conversion of a stored JSON default (\<open>jsonio.rs\<close>), the debug rendering of a value in an
  error text and the system clock are arguments of the operations, collected in \<open>sys\<close>.
\<close>

section \<open>Declarations\<close>

record 'j sys =
  json_to_value_for_type :: "'j \<Rightarrow> column_type \<Rightarrow> 'j value result"
  clock_micros :: "nat option"
  debug_value :: "'j value \<Rightarrow> string"

abbreviation "FORMAT_VERSION \<equiv> (3::u32)"
abbreviation "MIN_READABLE_FORMAT_VERSION \<equiv> (2::u32)"
abbreviation "ID_COLUMN \<equiv> ''id''"
abbreviation "MAX_SHORT_STRING_BYTES \<equiv> (65535::nat)"
abbreviation "MAX_STORED_COLUMNS \<equiv> (32767::nat)"

definition format_version_is_readable :: "u32 \<Rightarrow> bool" where
  "format_version_is_readable version \<longleftrightarrow> MIN_READABLE_FORMAT_VERSION \<le> version \<and> version \<le> FORMAT_VERSION"

definition validate_short_string :: "string \<Rightarrow> string \<Rightarrow> unit result" where
  "validate_short_string kind s =
     require (\<not> length s > MAX_SHORT_STRING_BYTES)
       (InvalidArgument (kind @ '' exceeds the '' @ show_nat MAX_SHORT_STRING_BYTES @ ''-byte storage limit''))"

record 'j column_def =
  col_name :: string
  col_ty :: column_type
  col_nullable :: bool
  col_dim :: "nat option"
  col_max_length :: "nat option"
  col_enum_values :: "string list option"
  col_default :: "'j option"
  col_default_current_timestamp :: bool
  col_identity :: bool

definition column_new :: "string \<Rightarrow> column_type \<Rightarrow> 'j column_def" where
  "column_new name ty =
     \<lparr>col_name = name, col_ty = ty, col_nullable = True, col_dim = None, col_max_length = None,
      col_enum_values = None, col_default = None, col_default_current_timestamp = False,
      col_identity = False\<rparr>"

definition column_identity :: "'j column_def \<Rightarrow> 'j column_def" where
  "column_identity c =
     c\<lparr>col_identity := True, col_nullable := False, col_default := None,
       col_default_current_timestamp := False\<rparr>"

definition column_vector :: "string \<Rightarrow> nat \<Rightarrow> 'j column_def" where
  "column_vector name dim =
     \<lparr>col_name = name, col_ty = Ty_Vector, col_nullable = True, col_dim = Some dim, col_max_length = None,
      col_enum_values = None, col_default = None, col_default_current_timestamp = False,
      col_identity = False\<rparr>"

definition not_null :: "'j column_def \<Rightarrow> 'j column_def" where
  "not_null c = c\<lparr>col_nullable := False\<rparr>"

definition varchar :: "string \<Rightarrow> nat \<Rightarrow> 'j column_def" where
  "varchar name max_length = (column_new name Ty_Text)\<lparr>col_max_length := Some max_length\<rparr>"

definition enumeration :: "string \<Rightarrow> string list \<Rightarrow> 'j column_def" where
  "enumeration name vals = (column_new name Ty_Text)\<lparr>col_enum_values := Some vals\<rparr>"

definition with_current_timestamp_default :: "'j column_def \<Rightarrow> 'j column_def" where
  "with_current_timestamp_default c = c\<lparr>col_default := None, col_default_current_timestamp := True\<rparr>"

definition default_value :: "'j sys \<Rightarrow> 'j column_def \<Rightarrow> 'j value result" where
  "default_value S c =
     (if col_default_current_timestamp c then
        (case clock_micros S of
           None \<Rightarrow> Inl (SchemaViolation ''system clock is before Unix epoch'')
         | Some micros \<Rightarrow>
             if micros < 2 ^ 63 then Inr (Timestamp (of_nat micros))
             else Inl (SchemaViolation ''current timestamp is outside int64 range''))
      else
        (case col_default c of
           None \<Rightarrow> Inr Null
         | Some j \<Rightarrow> json_to_value_for_type S j (col_ty c)))"

fun first_duplicate :: "'a list \<Rightarrow> 'a list \<Rightarrow> 'a option" where
  "first_duplicate seen [] = None"
| "first_duplicate seen (x # xs) = (if x \<in> set seen then Some x else first_duplicate (seen @ [x]) xs)"

text \<open>A name between single quotes, as the error texts show it.\<close>

definition quoted :: "string \<Rightarrow> string" where
  "quoted s = CHR 0x27 # s @ [CHR 0x27]"

definition check_dimension :: "'j column_def \<Rightarrow> unit result" where
  "check_dimension c =
     (case col_dim c of
        Some d \<Rightarrow>
          if col_ty c = Ty_Vector then
            require (d \<ge> 1)
              (InvalidArgument (''vector column '' @ quoted (col_name c) @ '' needs a dimension >= 1''))
          else
            Inl (InvalidArgument (''column '' @ quoted (col_name c)
              @ '' is not a vector; it cannot have a dimension''))
      | None \<Rightarrow>
          require (col_ty c \<noteq> Ty_Vector)
            (InvalidArgument (''vector column '' @ quoted (col_name c) @ '' needs a dimension >= 1'')))"

definition check_text_limits :: "'j column_def \<Rightarrow> unit result" where
  "check_text_limits c =
     rbind (case col_max_length c of
              Some max_length \<Rightarrow>
                require (\<not> (col_ty c \<noteq> Ty_Text \<or> max_length = 0))
                  (SchemaViolation (''varchar constraint on '' @ quoted (col_name c)
                    @ '' requires text and a length >= 1''))
            | None \<Rightarrow> Inr ()) (\<lambda>_.
     case col_enum_values c of
       Some vals \<Rightarrow>
         rbind (require (\<not> (col_ty c \<noteq> Ty_Text \<or> vals = []))
                 (SchemaViolation (''enum constraint on '' @ quoted (col_name c)
                   @ '' requires text and at least one value''))) (\<lambda>_.
         case first_duplicate [] vals of
           Some v \<Rightarrow> Inl (SchemaViolation (''enum constraint on '' @ quoted (col_name c)
                       @ '' contains duplicate value '' @ quoted v))
         | None \<Rightarrow> Inr ())
     | None \<Rightarrow> Inr ())"

definition check_identity :: "'j column_def \<Rightarrow> unit result" where
  "check_identity c =
     (if col_identity c then
        rbind (require (col_ty c = Ty_Int64)
                (SchemaViolation (''identity column '' @ quoted (col_name c) @ '' must have type int''))) (\<lambda>_.
        rbind (require (\<not> col_nullable c)
                (SchemaViolation (''identity column '' @ quoted (col_name c) @ '' must be NOT NULL''))) (\<lambda>_.
        require (\<not> (col_default c \<noteq> None \<or> col_default_current_timestamp c))
          (SchemaViolation (''identity column '' @ quoted (col_name c) @ '' cannot also have DEFAULT''))))
      else Inr ())"

definition check_default :: "'j sys \<Rightarrow> 'j column_def \<Rightarrow> unit result" where
  "check_default S c =
     rbind (default_value S c) (\<lambda>v.
       if is_null v then
         require (col_nullable c)
           (SchemaViolation (''column '' @ quoted (col_name c) @ '' is NOT NULL; its default cannot be NULL''))
       else
         rbind (require (value_matches v (col_ty c))
                 (SchemaViolation (''default for column '' @ quoted (col_name c) @ '' is not a ''
                   @ display_column_type (col_ty c) @ '' value''))) (\<lambda>_.
         rbind (case (v, col_dim c) of
                  (Vector xs, Some dim) \<Rightarrow>
                    require (length xs = dim)
                      (SchemaViolation (''default for column '' @ quoted (col_name c) @ '' has dimension ''
                        @ show_nat (length xs) @ '', expected '' @ show_nat dim))
                | _ \<Rightarrow> Inr ()) (\<lambda>_.
         case v of
           Text s \<Rightarrow>
             rbind (case col_max_length c of
                      Some max_length \<Rightarrow>
                        require (\<not> length (chars s) > max_length)
                          (SchemaViolation (''default for column '' @ quoted (col_name c)
                            @ '' exceeds varchar('' @ show_nat max_length @ '')''))
                    | None \<Rightarrow> Inr ()) (\<lambda>_.
             case col_enum_values c of
               Some vals \<Rightarrow>
                 require (s \<in> set vals)
                   (SchemaViolation (''default for column '' @ quoted (col_name c)
                     @ '' is not an allowed enum value''))
             | None \<Rightarrow> Inr ())
         | _ \<Rightarrow> Inr ())))"

definition validate_column :: "'j sys \<Rightarrow> 'j column_def \<Rightarrow> unit result" where
  "validate_column S c =
     rbind (require (col_name c \<noteq> []) (InvalidArgument ''column name must not be empty'')) (\<lambda>_.
     rbind (validate_short_string ''column name'' (col_name c)) (\<lambda>_.
     rbind (require (\<not> (col_name c = ID_COLUMN \<and> \<not> col_identity c))
             (InvalidArgument (''column name '' @ quoted ID_COLUMN
               @ '' is reserved unless it is an identity column''))) (\<lambda>_.
     rbind (check_dimension c) (\<lambda>_.
     rbind (check_text_limits c) (\<lambda>_.
     rbind (check_identity c) (\<lambda>_.
     rbind (require (\<not> (col_default_current_timestamp c \<and> col_ty c \<noteq> Ty_Timestamp))
             (SchemaViolation (''CURRENT_TIMESTAMP default on '' @ quoted (col_name c)
               @ '' requires a timestamp column''))) (\<lambda>_.
     rbind (require (\<not> (col_default_current_timestamp c \<and> col_default c \<noteq> None))
             (SchemaViolation (''column '' @ quoted (col_name c) @ '' cannot have two defaults''))) (\<lambda>_.
     if col_default c = None then Inr () else check_default S c))))))))"

section \<open>Tables\<close>

record index_def =
  ix_column :: string
  ix_columns :: "string list"
  ix_unique :: bool

text \<open>An index needs a column: \<open>None\<close> is the panic of the assertion.\<close>

definition index_new :: "string list \<Rightarrow> bool \<Rightarrow> index_def option" where
  "index_new columns unique =
     (if columns = [] then None
      else Some \<lparr>ix_column = columns ! 0, ix_columns = columns, ix_unique = unique\<rparr>)"

definition index_single :: "string \<Rightarrow> bool \<Rightarrow> index_def option" where
  "index_single column unique = index_new [column] unique"

text \<open>The catalog stores the first column beside the list; old catalogs have no list.\<close>

definition deserialize_index :: "string \<Rightarrow> string list \<Rightarrow> bool \<Rightarrow> index_def option" where
  "deserialize_index column columns unique =
     (let columns = (if columns = [] then [column] else columns) in
      if hd columns \<noteq> column then None
      else Some \<lparr>ix_column = column, ix_columns = columns, ix_unique = unique\<rparr>)"

datatype referential_action = Restrict | Cascade

record foreign_key_def =
  fk_column :: string
  fk_referenced_table :: string
  fk_referenced_column :: string
  fk_on_delete :: referential_action

text \<open>Vector and text index definitions are carried by the table but take no part in its
  validation; the model leaves them out.\<close>

record 'j table_schema =
  ts_name :: string
  ts_columns :: "'j column_def list"
  ts_indexes :: "index_def list"
  ts_foreign_keys :: "foreign_key_def list"
  ts_epoch :: u64
  ts_identity_keyed :: bool

definition table_new :: "string \<Rightarrow> 'j column_def list \<Rightarrow> 'j table_schema" where
  "table_new name columns =
     \<lparr>ts_name = name, ts_columns = columns, ts_indexes = [], ts_foreign_keys = [], ts_epoch = 0,
      ts_identity_keyed = False\<rparr>"

definition column :: "'j table_schema \<Rightarrow> string \<Rightarrow> 'j column_def option" where
  "column t name = find (\<lambda>c. col_name c = name) (ts_columns t)"

definition has_implicit_id :: "'j table_schema \<Rightarrow> bool" where
  "has_implicit_id t \<longleftrightarrow> column t ID_COLUMN = None"

definition keyed_by_identity :: "'j table_schema \<Rightarrow> bool" where
  "keyed_by_identity t \<longleftrightarrow> ts_identity_keyed t \<and> \<not> has_implicit_id t"

definition is_control :: "nat \<Rightarrow> bool" where
  "is_control c \<longleftrightarrow> c < 0x20 \<or> (0x7F \<le> c \<and> c < 0xA0)"

fun validate_columns :: "'j sys \<Rightarrow> string list \<Rightarrow> 'j column_def list \<Rightarrow> unit result" where
  "validate_columns S seen [] = Inr ()"
| "validate_columns S seen (c # cs) =
     rbind (validate_column S c) (\<lambda>_.
     rbind (require (col_name c \<notin> set seen)
             (InvalidArgument (''duplicate column name '' @ quoted (col_name c)))) (\<lambda>_.
     validate_columns S (seen @ [col_name c]) cs))"

fun validate_index_columns :: "'j table_schema \<Rightarrow> string list \<Rightarrow> string list \<Rightarrow> unit result" where
  "validate_index_columns t seen [] = Inr ()"
| "validate_index_columns t seen (name # names) =
     rbind (require (\<not> (column t name = None \<or> name \<in> set seen))
             (SchemaViolation (''secondary index on '' @ quoted (ts_name t) @ '' has an invalid column ''
               @ quoted name))) (\<lambda>_.
     validate_index_columns t (seen @ [name]) names)"

fun validate_indexes :: "'j table_schema \<Rightarrow> index_def list \<Rightarrow> unit result" where
  "validate_indexes t [] = Inr ()"
| "validate_indexes t (ix # ixs) =
     rbind (require (\<not> (ix_columns ix = [] \<or> ix_column ix \<noteq> hd (ix_columns ix)))
             (SchemaViolation (''secondary index on '' @ quoted (ts_name t)
               @ '' has an invalid column list''))) (\<lambda>_.
     rbind (validate_index_columns t [] (ix_columns ix)) (\<lambda>_.
     validate_indexes t ixs))"

fun validate_fk_columns :: "'j table_schema \<Rightarrow> string list \<Rightarrow> foreign_key_def list \<Rightarrow> unit result" where
  "validate_fk_columns t seen [] = Inr ()"
| "validate_fk_columns t seen (fk # fks) =
     rbind (require (column t (fk_column fk) \<noteq> None)
             (SchemaViolation (''foreign key uses unknown column ''
               @ quoted (ts_name t @ ''.'' @ fk_column fk)))) (\<lambda>_.
     rbind (require (fk_column fk \<notin> set seen)
             (SchemaViolation (''column '' @ quoted (ts_name t @ ''.'' @ fk_column fk)
               @ '' has more than one foreign key''))) (\<lambda>_.
     validate_fk_columns t (seen @ [fk_column fk]) fks))"

definition validate_table :: "'j sys \<Rightarrow> 'j table_schema \<Rightarrow> unit result" where
  "validate_table S t =
     rbind (require (ts_name t \<noteq> []) (InvalidArgument ''table name must not be empty'')) (\<lambda>_.
     rbind (validate_short_string ''table name'' (ts_name t)) (\<lambda>_.
     rbind (require (\<not> list_ex is_control (chars (ts_name t)))
             (InvalidArgument ''table name must not contain control characters'')) (\<lambda>_.
     rbind (require (\<not> length (ts_columns t) > MAX_STORED_COLUMNS)
             (InvalidArgument (''table '' @ quoted (ts_name t) @ '' has more than ''
               @ show_nat MAX_STORED_COLUMNS @ '' columns''))) (\<lambda>_.
     rbind (validate_columns S [] (ts_columns t)) (\<lambda>_.
     rbind (require (\<not> length (filter col_identity (ts_columns t)) > 1)
             (SchemaViolation (''table '' @ quoted (ts_name t)
               @ '' can have at most one identity column''))) (\<lambda>_.
     rbind (validate_indexes t (ts_indexes t)) (\<lambda>_.
     validate_fk_columns t [] (ts_foreign_keys t))))))))"

section \<open>The catalog\<close>

record 'j catalog =
  ca_format_version :: u32
  ca_tables :: "'j table_schema list"

definition catalog_new :: "'j catalog" where
  "catalog_new = \<lparr>ca_format_version = FORMAT_VERSION, ca_tables = []\<rparr>"

definition table :: "'j catalog \<Rightarrow> string \<Rightarrow> 'j table_schema option" where
  "table ca name = find (\<lambda>t. ts_name t = name) (ca_tables ca)"

definition fk_text :: "'j table_schema \<Rightarrow> foreign_key_def \<Rightarrow> error" where
  "fk_text t fk =
     Corrupt (''invalid foreign key '' @ ts_name t @ ''.'' @ fk_column fk @ '' -> ''
       @ fk_referenced_table fk @ ''.'' @ fk_referenced_column fk)"

definition validate_foreign_key :: "'j catalog \<Rightarrow> 'j table_schema \<Rightarrow> foreign_key_def \<Rightarrow> unit result" where
  "validate_foreign_key ca t fk =
     rbind (ok_or (fk_text t fk) (table ca (fk_referenced_table fk))) (\<lambda>target.
     let implicit = has_implicit_id target \<and> fk_referenced_column fk = ''id'' in
     rbind (if implicit then Inr Ty_Text
            else rbind (ok_or (fk_text t fk) (column target (fk_referenced_column fk))) (\<lambda>c.
                 Inr (col_ty c))) (\<lambda>target_type.
     rbind (ok_or (fk_text t fk) (column t (fk_column fk))) (\<lambda>c.
     require (\<not> (col_ty c \<noteq> target_type
              \<or> (\<not> implicit \<and> \<not> list_ex (\<lambda>ix. ix_column ix = fk_referenced_column fk \<and> ix_unique ix)
                                 (ts_indexes target))
              \<or> \<not> list_ex (\<lambda>ix. ix_column ix = fk_column fk) (ts_indexes t)))
       (fk_text t fk))))"

fun check_all :: "('a \<Rightarrow> unit result) \<Rightarrow> 'a list \<Rightarrow> unit result" where
  "check_all f [] = Inr ()"
| "check_all f (x # xs) = rbind (f x) (\<lambda>_. check_all f xs)"

definition check_identity_index :: "'j table_schema \<Rightarrow> 'j column_def \<Rightarrow> unit result" where
  "check_identity_index t c =
     require (list_ex (\<lambda>ix. ix_column ix = col_name c \<and> ix_unique ix) (ts_indexes t))
       (Corrupt (''identity '' @ ts_name t @ ''.'' @ col_name c @ '' is missing its unique index''))"

fun validate_tables :: "'j sys \<Rightarrow> 'j catalog \<Rightarrow> string list \<Rightarrow> 'j table_schema list \<Rightarrow> unit result" where
  "validate_tables S ca seen [] = Inr ()"
| "validate_tables S ca seen (t # ts) =
     rbind (map_err (\<lambda>e. Corrupt (''invalid catalog table '' @ quoted (ts_name t) @ '': '' @ display_error e))
             (validate_table S t)) (\<lambda>_.
     rbind (check_all (check_identity_index t) (filter col_identity (ts_columns t))) (\<lambda>_.
     rbind (require (ts_name t \<notin> set seen)
             (Corrupt (''catalog contains duplicate table '' @ quoted (ts_name t)))) (\<lambda>_.
     rbind (check_all (validate_foreign_key ca t) (ts_foreign_keys t)) (\<lambda>_.
     validate_tables S ca (seen @ [ts_name t]) ts))))"

definition validate_catalog :: "'j sys \<Rightarrow> 'j catalog \<Rightarrow> unit result" where
  "validate_catalog S ca =
     rbind (require (format_version_is_readable (ca_format_version ca))
             (Corrupt (''unsupported format_version '' @ show_nat (unat (ca_format_version ca))
               @ '' (this engine reads '' @ show_nat (unat MIN_READABLE_FORMAT_VERSION) @ '' to ''
               @ show_nat (unat FORMAT_VERSION) @ '')''))) (\<lambda>_.
     validate_tables S ca [] (ca_tables ca))"

section \<open>What validation establishes\<close>

lemma validate_short_string_ok: "validate_short_string kind s = Inr () \<longleftrightarrow> fits_u16 (length s)"
  by (auto simp: validate_short_string_def require_eq_Inr fits_u16_def)

lemma validate_columns_ok:
  "validate_columns S seen cs = Inr () \<Longrightarrow>
     distinct (map col_name cs) \<and> set seen \<inter> set (map col_name cs) = {}
     \<and> list_all (\<lambda>c. validate_column S c = Inr ()) cs"
proof (induction cs arbitrary: seen)
  case (Cons c cs)
  then have "validate_columns S (seen @ [col_name c]) cs = Inr ()"
    and "validate_column S c = Inr ()" and "col_name c \<notin> set seen"
    by (auto simp: result_dests)
  with Cons.IH [of "seen @ [col_name c]"] show ?case by auto
qed simp

lemma validate_column_ok:
  assumes "validate_column S c = Inr ()"
  shows "col_name c \<noteq> []" and "fits_u16 (length (col_name c))"
    and "col_dim c \<noteq> None \<longleftrightarrow> col_ty c = Ty_Vector"
    and "col_identity c \<Longrightarrow> col_ty c = Ty_Int64 \<and> \<not> col_nullable c"
  using assms
  by (auto simp: validate_column_def result_dests validate_short_string_ok check_dimension_def
      check_identity_def split: option.splits if_splits)

lemma validate_index_columns_ok:
  "validate_index_columns t seen ns = Inr () \<Longrightarrow>
     distinct ns \<and> set seen \<inter> set ns = {} \<and> (\<forall>n \<in> set ns. column t n \<noteq> None)"
proof (induction ns arbitrary: seen)
  case (Cons n ns)
  then have "validate_index_columns t (seen @ [n]) ns = Inr ()" "n \<notin> set seen" "column t n \<noteq> None"
    by (auto simp: result_dests)
  with Cons.IH [of "seen @ [n]"] show ?case by auto
qed simp

lemma validate_indexes_ok:
  "validate_indexes t ixs = Inr () \<Longrightarrow> ix \<in> set ixs \<Longrightarrow>
     ix_columns ix \<noteq> [] \<and> ix_column ix = hd (ix_columns ix) \<and> distinct (ix_columns ix)
     \<and> (\<forall>n \<in> set (ix_columns ix). column t n \<noteq> None)"
  by (induction ixs) (auto simp: result_dests dest: validate_index_columns_ok)

lemma check_all_ok: "check_all f xs = Inr () \<longleftrightarrow> list_all (\<lambda>x. f x = Inr ()) xs"
  by (induction xs) (auto simp: result_dests)

lemma validate_tables_ok:
  "validate_tables S ca seen ts = Inr () \<Longrightarrow>
     distinct (map ts_name ts) \<and> set seen \<inter> set (map ts_name ts) = {}
     \<and> list_all (\<lambda>t. validate_table S t = Inr ()
         \<and> list_all (\<lambda>c. check_identity_index t c = Inr ()) (filter col_identity (ts_columns t))
         \<and> list_all (\<lambda>fk. validate_foreign_key ca t fk = Inr ()) (ts_foreign_keys t)) ts"
proof (induction ts arbitrary: seen)
  case (Cons t ts)
  then have "validate_tables S ca (seen @ [ts_name t]) ts = Inr ()" "ts_name t \<notin> set seen"
    and "validate_table S t = Inr ()"
    and "check_all (check_identity_index t) (filter col_identity (ts_columns t)) = Inr ()"
    and "check_all (validate_foreign_key ca t) (ts_foreign_keys t) = Inr ()"
    by (auto simp: result_dests)
  with Cons.IH [of "seen @ [ts_name t]"] show ?case by (auto simp: check_all_ok)
qed simp

lemma validate_foreign_key_ok:
  assumes "validate_foreign_key ca t fk = Inr ()"
  obtains target c where "table ca (fk_referenced_table fk) = Some target"
    and "column t (fk_column fk) = Some c"
    and "\<exists>ix \<in> set (ts_indexes t). ix_column ix = fk_column fk"
    and "has_implicit_id target \<and> fk_referenced_column fk = ''id'' \<longrightarrow> col_ty c = Ty_Text"
    and "\<not> (has_implicit_id target \<and> fk_referenced_column fk = ''id'') \<longrightarrow>
      (\<exists>rc. column target (fk_referenced_column fk) = Some rc \<and> col_ty rc = col_ty c
        \<and> (\<exists>ix \<in> set (ts_indexes target). ix_column ix = fk_referenced_column fk \<and> ix_unique ix))"
proof -
  obtain target where target: "table ca (fk_referenced_table fk) = Some target"
    using assms by (auto simp: validate_foreign_key_def result_dests)
  obtain c where c: "column t (fk_column fk) = Some c"
    using assms target by (auto simp: validate_foreign_key_def result_dests Let_def)
  have lead: "\<exists>ix \<in> set (ts_indexes t). ix_column ix = fk_column fk"
    using assms target c by (auto simp: validate_foreign_key_def result_dests Let_def list_ex_iff)
  show thesis
  proof (cases "has_implicit_id target \<and> fk_referenced_column fk = ''id''")
    case True
    then have "col_ty c = Ty_Text"
      using assms target c by (simp add: validate_foreign_key_def require_eq_Inr)
    with True that [OF target c lead] show thesis by blast
  next
    case False
    then have "\<exists>rc. column target (fk_referenced_column fk) = Some rc \<and> col_ty rc = col_ty c
        \<and> (\<exists>ix \<in> set (ts_indexes target). ix_column ix = fk_referenced_column fk \<and> ix_unique ix)"
      using assms target c
      by (cases "column target (fk_referenced_column fk)")
        (simp_all add: validate_foreign_key_def require_eq_Inr list_ex_iff Let_def del: de_Morgan_conj)
    with False that [OF target c lead] show thesis by blast
  qed
qed

lemma identity_table_is_control: "list_ex is_control (chars IDENTITY_META_TABLE)"
  by (simp add: chars_def IDENTITY_META_TABLE_def as_bytes_def utf8_decode_ascii is_ascii_def byte_of_def
      of_char_def is_control_def)

lemma find_table: "find (\<lambda>t. ts_name t = name) ts = Some t \<Longrightarrow> t \<in> set ts \<and> ts_name t = name"
  by (auto simp: find_Some_iff)

lemma validate_catalog_ok:
  assumes "validate_catalog S ca = Inr ()"
  shows "distinct (map ts_name (ca_tables ca))"
    and "t \<in> set (ca_tables ca) \<Longrightarrow> validate_table S t = Inr ()"
    and "t \<in> set (ca_tables ca) \<Longrightarrow> fk \<in> set (ts_foreign_keys t) \<Longrightarrow> validate_foreign_key ca t fk = Inr ()"
    and "t \<in> set (ca_tables ca) \<Longrightarrow> c \<in> set (ts_columns t) \<Longrightarrow> col_identity c \<Longrightarrow> check_identity_index t c = Inr ()"
    and "t \<in> set (ca_tables ca) \<Longrightarrow> ix \<in> set (ts_indexes t) \<Longrightarrow> ix_column ix = hd (ix_columns ix)"
proof -
  note ok = validate_tables_ok [of S ca "[]" "ca_tables ca"]
  have all: "validate_tables S ca [] (ca_tables ca) = Inr ()"
    using assms by (auto simp: validate_catalog_def result_dests)
  show "distinct (map ts_name (ca_tables ca))"
    and "t \<in> set (ca_tables ca) \<Longrightarrow> validate_table S t = Inr ()"
    and "t \<in> set (ca_tables ca) \<Longrightarrow> fk \<in> set (ts_foreign_keys t) \<Longrightarrow> validate_foreign_key ca t fk = Inr ()"
    and "t \<in> set (ca_tables ca) \<Longrightarrow> c \<in> set (ts_columns t) \<Longrightarrow> col_identity c \<Longrightarrow> check_identity_index t c = Inr ()"
    using ok [OF all] by (auto simp: list_all_iff)
  then show "t \<in> set (ca_tables ca) \<Longrightarrow> ix \<in> set (ts_indexes t) \<Longrightarrow> ix_column ix = hd (ix_columns ix)"
    using validate_indexes_ok by (auto simp: validate_table_def result_dests)
qed

lemma table_of_validated:
  assumes "validate_catalog S ca = Inr ()" and "t \<in> set (ca_tables ca)"
  shows "table ca (ts_name t) = Some t"
proof (cases "table ca (ts_name t)")
  case None
  with assms(2) show ?thesis by (auto simp: table_def find_None_iff)
next
  case (Some x)
  then have "x \<in> set (ca_tables ca)" "ts_name x = ts_name t" using find_table by (fastforce simp: table_def)+
  with assms(2) validate_catalog_ok(1) [OF assms(1)] have "x = t" by (metis distinct_map inj_onD)
  with Some show ?thesis by simp
qed

lemma foreign_key_of_validated:
  assumes ok: "validate_catalog S ca = Inr ()" and t: "t \<in> set (ca_tables ca)"
    and fk: "fk \<in> set (ts_foreign_keys t)"
  shows "\<exists>target c. table ca (fk_referenced_table fk) = Some target
        \<and> column t (fk_column fk) = Some c
        \<and> (if has_implicit_id target \<and> fk_referenced_column fk = ''id'' then col_ty c = Ty_Text
           else \<exists>rc. column target (fk_referenced_column fk) = Some rc \<and> col_ty rc = col_ty c
             \<and> (\<exists>ix \<in> set (ts_indexes target). hd (ix_columns ix) = fk_referenced_column fk \<and> ix_unique ix))
        \<and> (\<exists>ix \<in> set (ts_indexes t). hd (ix_columns ix) = fk_column fk)"
proof -
  obtain target c where r: "table ca (fk_referenced_table fk) = Some target"
      "column t (fk_column fk) = Some c" "\<exists>ix \<in> set (ts_indexes t). ix_column ix = fk_column fk"
      "has_implicit_id target \<and> fk_referenced_column fk = ''id'' \<longrightarrow> col_ty c = Ty_Text"
      "\<not> (has_implicit_id target \<and> fk_referenced_column fk = ''id'') \<longrightarrow>
        (\<exists>rc. column target (fk_referenced_column fk) = Some rc \<and> col_ty rc = col_ty c
          \<and> (\<exists>ix \<in> set (ts_indexes target). ix_column ix = fk_referenced_column fk \<and> ix_unique ix))"
    using validate_foreign_key_ok [OF validate_catalog_ok(3) [OF ok t fk]] .
  have "target \<in> set (ca_tables ca)" using r(1) find_table by (auto simp: table_def)
  note lead = validate_catalog_ok(5) [OF ok this] validate_catalog_ok(5) [OF ok t]
  have "\<exists>ix \<in> set (ts_indexes t). hd (ix_columns ix) = fk_column fk" using r(3) lead(2) by metis
  moreover have "if has_implicit_id target \<and> fk_referenced_column fk = ''id'' then col_ty c = Ty_Text
      else \<exists>rc. column target (fk_referenced_column fk) = Some rc \<and> col_ty rc = col_ty c
        \<and> (\<exists>ix \<in> set (ts_indexes target). hd (ix_columns ix) = fk_referenced_column fk \<and> ix_unique ix)"
  proof (cases "has_implicit_id target \<and> fk_referenced_column fk = ''id''")
    case False
    with r(5) lead(1) show ?thesis by (simp only: if_False simp_thms) fastforce
  qed (use r(4) in simp)
  ultimately show ?thesis using r(1,2) by blast
qed

section \<open>A sample catalog\<close>

definition sample_sys :: "bytes sys" where
  "sample_sys = \<lparr>json_to_value_for_type = (\<lambda>j ty. Inr Null), clock_micros = Some 0,
                 debug_value = (\<lambda>v. [])\<rparr>"

definition sample_index :: "string list \<Rightarrow> bool \<Rightarrow> index_def" where
  "sample_index cols u = \<lparr>ix_column = hd cols, ix_columns = cols, ix_unique = u\<rparr>"

definition sample_users :: "bytes table_schema" where
  "sample_users =
     \<lparr>ts_name = ''users'',
      ts_columns = [column_identity (column_new ''id'' Ty_Int64), column_new ''tenant'' Ty_Text,
                    column_new ''email'' Ty_Text],
      ts_indexes = [sample_index [''id''] True, sample_index [''tenant'', ''email''] True],
      ts_foreign_keys = [], ts_epoch = 0, ts_identity_keyed = True\<rparr>"

definition sample_posts :: "string \<Rightarrow> column_type \<Rightarrow> string \<Rightarrow> bytes table_schema" where
  "sample_posts col ty referenced =
     \<lparr>ts_name = ''posts'', ts_columns = [column_new col ty],
      ts_indexes = [sample_index [col] False],
      ts_foreign_keys = [\<lparr>fk_column = col, fk_referenced_table = ''users'',
                          fk_referenced_column = referenced, fk_on_delete = Restrict\<rparr>],
      ts_epoch = 0, ts_identity_keyed = False\<rparr>"

definition sample_catalog :: "string \<Rightarrow> column_type \<Rightarrow> string \<Rightarrow> bytes catalog" where
  "sample_catalog col ty referenced =
     \<lparr>ca_format_version = FORMAT_VERSION, ca_tables = [sample_users, sample_posts col ty referenced]\<rparr>"

lemmas sample_schema =
  sample_sys_def sample_index_def sample_users_def sample_posts_def sample_catalog_def
  column_new_def column_identity_def

lemmas validation_defs =
  validate_table_def validate_column_def validate_short_string_def check_dimension_def
  check_text_limits_def check_identity_def validate_foreign_key_def check_identity_index_def
  validate_catalog_def format_version_is_readable_def column_def table_def has_implicit_id_def
  require_def

lemma chars_sample: "chars ''users'' = [117, 115, 101, 114, 115]" "chars ''posts'' = [112, 111, 115, 116, 115]"
  by (simp_all add: chars_def as_bytes_def utf8_decode_ascii is_ascii_def byte_of_def of_char_def)

lemma sample_posts_valid: "validate_table sample_sys (sample_posts ''uid'' Ty_Int64 ''id'') = Inr ()"
  by (simp add: sample_schema validation_defs chars_sample is_control_def)

lemma sample_catalog_valid: "validate_catalog sample_sys (sample_catalog ''uid'' Ty_Int64 ''id'') = Inr ()"
  by (simp add: sample_schema validation_defs chars_sample is_control_def)

section \<open>Properties\<close>

text \<open>C34. A table that passes validation can be stored: its name and column names fit the 16-bit
  length prefixes of the log and the segments, the column count leaves the payload's flag bit
  free, no column name is repeated, and the table is never taken for the log's identity
  pseudo-table, so every change to it is a well-formed log change.\<close>

theorem validated_table_storable:
  assumes "validate_table S t = Inr ()" and "rust_str (ts_name t)"
  shows "distinct (map col_name (ts_columns t)) \<and> length (ts_columns t) < 2 ^ 15
    \<and> list_all (\<lambda>c. col_name c \<noteq> [] \<and> fits_u16 (length (col_name c))) (ts_columns t)
    \<and> (\<forall>rid p. rust_str rid \<longrightarrow> fits_u16 (length rid) \<longrightarrow> fits_u32 (length p) \<longrightarrow>
         wf_change \<lparr>wc_table = ts_name t, wc_id = rid, wc_payload = Some p\<rparr>)"
proof -
  have cols: "validate_columns S [] (ts_columns t) = Inr ()"
    and name: "fits_u16 (length (ts_name t))" "\<not> list_ex is_control (chars (ts_name t))"
    and count: "length (ts_columns t) < 2 ^ 15"
    using assms(1) by (auto simp: validate_table_def result_dests validate_short_string_ok)
  have "ts_name t \<noteq> IDENTITY_META_TABLE"
    using name(2) identity_table_is_control by metis
  with validate_columns_ok [OF cols] name count assms(2) show ?thesis
    by (auto simp: list_all_iff wf_change_def dest: validate_column_ok(1,2))
qed

theorem validated_table_storable_witness:
  "distinct (map col_name (ts_columns (sample_posts ''uid'' Ty_Int64 ''id'')))
   \<and> wf_change \<lparr>wc_table = ts_name (sample_posts ''uid'' Ty_Int64 ''id''), wc_id = ''r1'', wc_payload = Some [1]\<rparr>"
proof -
  have names: "rust_str (ts_name (sample_posts ''uid'' Ty_Int64 ''id''))" "rust_str ''r1''"
    by (simp_all add: sample_schema rust_str_def is_ascii_valid_utf8 is_ascii_def as_bytes_def byte_of_def of_char_def)
  show ?thesis using validated_table_storable [OF sample_posts_valid names(1)] names(2)
    by (auto simp: fits_u16_def fits_u32_def)
qed

text \<open>C20. In a catalog that passes validation every foreign key resolves: its target table is in the
  catalog, its own column and the referenced one (or the implicit text id) have the same type,
  its own column leads some index, and the referenced column leads a unique index; tables and
  their columns are unambiguous, and an identity column is a non-null integer leading a unique
  index.\<close>

theorem validated_catalog_references:
  assumes "validate_catalog S ca = Inr ()" and "t \<in> set (ca_tables ca)"
  shows "table ca (ts_name t) = Some t
    \<and> (\<forall>fk \<in> set (ts_foreign_keys t). \<exists>target c. table ca (fk_referenced_table fk) = Some target
        \<and> column t (fk_column fk) = Some c
        \<and> (if has_implicit_id target \<and> fk_referenced_column fk = ''id'' then col_ty c = Ty_Text
           else \<exists>rc. column target (fk_referenced_column fk) = Some rc \<and> col_ty rc = col_ty c
             \<and> (\<exists>ix \<in> set (ts_indexes target). hd (ix_columns ix) = fk_referenced_column fk \<and> ix_unique ix))
        \<and> (\<exists>ix \<in> set (ts_indexes t). hd (ix_columns ix) = fk_column fk))
    \<and> (\<forall>c \<in> set (ts_columns t). col_identity c \<longrightarrow> col_ty c = Ty_Int64 \<and> \<not> col_nullable c
        \<and> (\<exists>ix \<in> set (ts_indexes t). hd (ix_columns ix) = col_name c \<and> ix_unique ix))"
proof -
  have "col_ty c = Ty_Int64 \<and> \<not> col_nullable c
      \<and> (\<exists>ix \<in> set (ts_indexes t). hd (ix_columns ix) = col_name c \<and> ix_unique ix)"
    if "c \<in> set (ts_columns t)" "col_identity c" for c
  proof -
    have "validate_column S c = Inr ()"
      using validate_catalog_ok(2) [OF assms] that(1) validate_columns_ok [of S "[]" "ts_columns t"]
      by (auto simp: validate_table_def result_dests list_all_iff)
    then show ?thesis
      using validate_column_ok(4) [of S c] validate_catalog_ok(4) [OF assms that] validate_catalog_ok(5) [OF assms] that
      by (auto simp: check_identity_index_def require_eq_Inr list_ex_iff)
  qed
  with table_of_validated [OF assms] foreign_key_of_validated [OF assms] show ?thesis by blast
qed

theorem validated_catalog_references_witness:
  "table (sample_catalog ''uid'' Ty_Int64 ''id'') ''posts'' = Some (sample_posts ''uid'' Ty_Int64 ''id'')"
proof -
  have "sample_posts ''uid'' Ty_Int64 ''id'' \<in> set (ca_tables (sample_catalog ''uid'' Ty_Int64 ''id''))"
    and "ts_name (sample_posts ''uid'' Ty_Int64 ''id'') = ''posts''"
    by (simp_all add: sample_catalog_def sample_posts_def)
  with validated_catalog_references [OF sample_catalog_valid, of "sample_posts ''uid'' Ty_Int64 ''id''"]
  show ?thesis by simp
qed


end
