(* ===== verification/Payload.thy ===== *)
theory Payload
  imports Schema
begin

text \<open>
  The stored form of a row (\<open>db.rs\<close>, record payloads): the positional form that stores
  values only, the older form that repeats every column name, the out-of-line blobs written
  while a row is encoded, projections, and the two decoders. A payload reads back under every
  projection, in both forms, and under a schema that has gained columns since.

  The file system below \<open>blobs/\<close> is a map from names to contents; the names that
  \<open>Ulid::new\<close> draws and the outcome of each file operation are arguments (\<open>blob_env\<close>).
\<close>

section \<open>Out-of-line blobs\<close>

text \<open>What a create, write and sync of one file does: succeed, or fail with an error text and
  leave no file or the first \<open>k\<close> bytes of it.\<close>

datatype file_outcome = Stored | Failed string "nat option"

record blob_env =
  be_name :: "nat \<Rightarrow> string"
  be_write :: "string \<Rightarrow> file_outcome"
  be_rename :: "string \<Rightarrow> string option"
  be_dir_sync :: "string option"

record blob_sink =
  sk_threshold :: nat
  sk_staged :: "(string \<times> string) list"
  sk_drawn :: nat
  sk_files :: "string \<rightharpoonup> bytes"

definition sink_new :: "nat \<Rightarrow> nat \<Rightarrow> (string \<rightharpoonup> bytes) \<Rightarrow> blob_sink" where
  "sink_new threshold drawn files =
     \<lparr>sk_threshold = threshold, sk_staged = [], sk_drawn = drawn, sk_files = files\<rparr>"

definition maybe_externalize ::
    "'j ext \<Rightarrow> blob_env \<Rightarrow> bytes \<Rightarrow> blob_sink \<Rightarrow> blob_sink \<times> (string \<times> u32) option result" where
  "maybe_externalize E V content sink =
     (if length content < sk_threshold sink then (sink, Inr None)
      else
        let name = be_name V (sk_drawn sink);
            (data, crc) = write_blob_file_bytes E content;
            final_path = name @ ''.blob'';
            temporary_path = name @ ''.blob.tmp'';
            sink = sink\<lparr>sk_drawn := sk_drawn sink + 1\<rparr>
        in case be_write V temporary_path of
             Failed e None \<Rightarrow> (sink, Inl (Io e))
           | Failed e (Some k) \<Rightarrow>
               (sink\<lparr>sk_files := (sk_files sink)(temporary_path \<mapsto> take k data)\<rparr>, Inl (Io e))
           | Stored \<Rightarrow>
               (sink\<lparr>sk_files := (sk_files sink)(temporary_path \<mapsto> data),
                     sk_staged := sk_staged sink @ [(temporary_path, final_path)]\<rparr>,
                Inr (Some (name, crc))))"

fun rename_all :: "blob_env \<Rightarrow> (string \<times> string) list \<Rightarrow> (string \<rightharpoonup> bytes) \<Rightarrow> (string \<rightharpoonup> bytes) \<times> string option" where
  "rename_all V [] files = (files, None)"
| "rename_all V ((temporary, final_path) # staged) files =
     (case be_rename V final_path of
        Some e \<Rightarrow> (files, Some e)
      | None \<Rightarrow> rename_all V staged (files(final_path := files temporary, temporary := None)))"

definition publish :: "blob_env \<Rightarrow> blob_sink \<Rightarrow> blob_sink \<times> unit result" where
  "publish V sink =
     (if sk_staged sink = [] then (sink, Inr ())
      else
        case rename_all V (sk_staged sink) (sk_files sink) of
          (files, Some e) \<Rightarrow> (sink\<lparr>sk_files := files\<rparr>, Inl (Io e))
        | (files, None) \<Rightarrow>
            (case be_dir_sync V of
               Some e \<Rightarrow> (sink\<lparr>sk_files := files\<rparr>, Inl (Io e))
             | None \<Rightarrow> (sink\<lparr>sk_files := files, sk_staged := []\<rparr>, Inr ())))"

text \<open>Dropping the sink removes whatever temporary is still staged; a temporary that was renamed
  is gone already.\<close>

definition drop_sink :: "blob_sink \<Rightarrow> (string \<rightharpoonup> bytes)" where
  "drop_sink sink = foldl (\<lambda>files (temporary, _). files(temporary := None)) (sk_files sink) (sk_staged sink)"

text \<open>The names a commit announces to the blob collector while its chunks are published.\<close>

definition pending_names :: "blob_sink \<Rightarrow> string list" where
  "pending_names sink = List.map_filter (\<lambda>(_, final_path). strip_suffix ''.blob'' final_path) (sk_staged sink)"

definition pending_new :: "blob_sink \<Rightarrow> string set \<Rightarrow> string set" where
  "pending_new sink pending = pending \<union> set (pending_names sink)"

definition pending_drop :: "string list \<Rightarrow> string set \<Rightarrow> string set" where
  "pending_drop ns pending = pending - set ns"

text \<open>The directory a decoder reads.\<close>

definition blobs_dir :: "(string \<rightharpoonup> bytes) \<Rightarrow> blob_dir" where
  "blobs_dir files path = (case files path of Some bs \<Rightarrow> Inr bs | None \<Rightarrow> Inl ''No such file or directory'')"

section \<open>Encoding a row\<close>

abbreviation "POSITIONAL_MARK \<equiv> (0x8000::u16)"

text \<open>One column: its name in the old form, then the value, out of line when the sink takes it.\<close>

definition encode_name :: "bool \<Rightarrow> 'j column_def \<Rightarrow> bytes result" where
  "encode_name named col =
     (if named then
        rbind (require (fits_u16 (length (col_name col)))
                (InvalidArgument ''column name exceeds the 65535-byte storage limit'')) (\<lambda>_.
        Inr (to_le_bytes (of_nat (length (col_name col)) :: u16) @ as_bytes (col_name col)))
      else Inr [])"

definition encode_field ::
    "'j ext \<Rightarrow> blob_env \<Rightarrow> 'j value \<Rightarrow> blob_sink option \<Rightarrow> blob_sink option \<times> bytes result" where
  "encode_field E V v sink =
     (case (v, sink) of
        (Blob content, Some s) \<Rightarrow>
          (case maybe_externalize E V content s of
             (s, Inl e) \<Rightarrow> (Some s, Inl e)
           | (s, Inr (Some (name, crc))) \<Rightarrow> (Some s, encode_blob_ref name (of_nat (length content)) crc)
           | (s, Inr None) \<Rightarrow> (Some s, Inr (encode_value E v)))
      | _ \<Rightarrow> (sink, Inr (encode_value E v)))"

fun encode_columns ::
    "'j ext \<Rightarrow> blob_env \<Rightarrow> bool \<Rightarrow> ('j column_def \<times> 'j value) list \<Rightarrow> blob_sink option
       \<Rightarrow> blob_sink option \<times> bytes result" where
  "encode_columns E V named [] sink = (sink, Inr [])"
| "encode_columns E V named ((col, v) # cvs) sink =
     (case encode_name named col of
        Inl e \<Rightarrow> (sink, Inl e)
      | Inr name \<Rightarrow>
          (case encode_field E V v sink of
             (sink, Inl e) \<Rightarrow> (sink, Inl e)
           | (sink, Inr field) \<Rightarrow>
               (case encode_columns E V named cvs sink of
                  (sink, rest) \<Rightarrow> (sink, rbind rest (\<lambda>bs. Inr (name @ field @ bs))))))"

text \<open>The value of each column: by position when the row is in schema order, by name otherwise.\<close>

definition record_fields :: "'j table_schema \<Rightarrow> 'j row \<Rightarrow> ('j column_def \<times> 'j value) list" where
  "record_fields schema r =
     (let positional = (if matches_layout r (map col_name (ts_columns schema))
                        then Some (row_values r) else None) in
      map (\<lambda>(i, col).
             (col, case positional of
                     Some vs \<Rightarrow> vs ! i
                   | None \<Rightarrow> (case row_get r (col_name col) of Some v \<Rightarrow> v | None \<Rightarrow> Null)))
        (enumerate 0 (ts_columns schema)))"

definition encode_record_ordered_as ::
    "'j ext \<Rightarrow> blob_env \<Rightarrow> 'j table_schema \<Rightarrow> 'j row \<Rightarrow> blob_sink option \<Rightarrow> bool
       \<Rightarrow> blob_sink option \<times> bytes result" where
  "encode_record_ordered_as E V schema r sink named =
     (if length (ts_columns schema) > MAX_STORED_COLUMNS then
        (sink, Inl (InvalidArgument (''table '' @ ts_name schema @ '' has more than ''
                 @ show_nat MAX_STORED_COLUMNS @ '' stored columns'')))
      else
        let column_count = of_nat (length (ts_columns schema)) :: u16;
            header = (if named then column_count else column_count OR POSITIONAL_MARK)
        in case encode_columns E V named (record_fields schema r) sink of
             (sink, body) \<Rightarrow> (sink, rbind body (\<lambda>bs. Inr (to_le_bytes header @ bs))))"

definition encode_record_ordered ::
    "'j ext \<Rightarrow> blob_env \<Rightarrow> 'j table_schema \<Rightarrow> 'j row \<Rightarrow> blob_sink option \<Rightarrow> blob_sink option \<times> bytes result" where
  "encode_record_ordered E V schema r sink = encode_record_ordered_as E V schema r sink False"

section \<open>Projections\<close>

datatype kept_mask = Bits u64 | Many "bool list"

definition mask_keeps :: "kept_mask \<Rightarrow> nat \<Rightarrow> bool" where
  "mask_keeps m i =
     (case m of
        Bits bits \<Rightarrow> bits AND push_bit i 1 \<noteq> 0
      | Many kept \<Rightarrow> kept ! i)"

record positional_plan =
  pp_kept :: kept_mask
  pp_layout :: "string list"
  pp_stop_after :: nat
  pp_columns :: nat

record row_projection =
  rp_keep :: "string list option"
  rp_plan :: "positional_plan option"

definition column_kept :: "string list option \<Rightarrow> string \<Rightarrow> bool" where
  "column_kept keep name = (case keep of None \<Rightarrow> True | Some ns \<Rightarrow> name \<in> set ns)"

definition projection_mask :: "string list option \<Rightarrow> 'j column_def list \<Rightarrow> kept_mask" where
  "projection_mask keep cols =
     (if length cols \<le> 64 then
        Bits (foldl (\<lambda>bits (i, c). if column_kept keep (col_name c) then bits OR push_bit i 1 else bits)
                0 (enumerate 0 cols))
      else Many (map (\<lambda>c. column_kept keep (col_name c)) cols))"

definition plan_new :: "layouts \<Rightarrow> 'j table_schema \<Rightarrow> string list option \<Rightarrow> layouts \<times> positional_plan" where
  "plan_new cache schema keep =
     (let columns = length (ts_columns schema);
          kept = projection_mask keep (ts_columns schema);
          stop_after = (case find (mask_keeps kept) (rev [0..<columns]) of None \<Rightarrow> 0 | Some at \<Rightarrow> at + 1);
          (cache, layout) = layout_for cache
            (map (\<lambda>(_, c). col_name c)
              (filter (\<lambda>(i, _). mask_keeps kept i) (enumerate 0 (ts_columns schema))))
      in (cache, \<lparr>pp_kept = kept, pp_layout = layout, pp_stop_after = stop_after, pp_columns = columns\<rparr>))"

definition projection_new ::
    "layouts \<Rightarrow> 'j table_schema option \<Rightarrow> string list option \<Rightarrow> layouts \<times> row_projection" where
  "projection_new cache schema keep =
     (case schema of
        None \<Rightarrow> (cache, \<lparr>rp_keep = keep, rp_plan = None\<rparr>)
      | Some t \<Rightarrow>
          (case plan_new cache t keep of
             (cache, plan) \<Rightarrow> (cache, \<lparr>rp_keep = keep, rp_plan = Some plan\<rparr>)))"

definition wants_nothing :: "row_projection \<Rightarrow> bool" where
  "wants_nothing p = (case rp_keep p of None \<Rightarrow> False | Some ns \<Rightarrow> ns = [])"

section \<open>Decoding a row\<close>

text \<open>\<open>(count, positional)\<close> and the cursor behind the leading word.\<close>

definition read_payload_header :: "bytes \<Rightarrow> nat \<Rightarrow> ((nat \<times> bool) \<times> nat) result" where
  "read_payload_header buf pos =
     rbind (read_u16 buf pos) (\<lambda>(word, pos).
     Inr ((unat (word AND NOT POSITIONAL_MARK), word AND POSITIONAL_MARK \<noteq> 0), pos))"

definition read_payload_column_name :: "bytes \<Rightarrow> nat \<Rightarrow> (bytes \<times> nat) result" where
  "read_payload_column_name buf pos =
     rbind (read_u16 buf pos) (\<lambda>(name_len, pos).
     rbind (ok_or (Corrupt ''length overflow'') (checked_add pos (unat name_len))) (\<lambda>end_pos.
     rbind (ok_or (Corrupt ''unexpected end of record'') (get_range buf pos end_pos)) (\<lambda>name.
     Inr (name, end_pos))))"

text \<open>The loop of \<open>decode_positional\<close> over the positions.\<close>

fun decode_positions ::
    "'j ext \<Rightarrow> blob_dir option \<Rightarrow> kept_mask \<Rightarrow> nat list \<Rightarrow> bytes \<Rightarrow> nat \<Rightarrow> ('j value list \<times> nat) result" where
  "decode_positions E blobs kept [] buf pos = Inr ([], pos)"
| "decode_positions E blobs kept (i # pos_list) buf pos =
     (if mask_keeps kept i then
        rbind (decode_value E buf pos blobs) (\<lambda>(v, pos).
        rbind (decode_positions E blobs kept pos_list buf pos) (\<lambda>(vs, pos).
        Inr (v # vs, pos)))
      else
        rbind (skip_value buf pos) (\<lambda>(_, pos).
        decode_positions E blobs kept pos_list buf pos))"

definition decode_positional ::
    "'j ext \<Rightarrow> bytes \<Rightarrow> nat \<Rightarrow> nat \<Rightarrow> blob_dir option \<Rightarrow> row_projection \<Rightarrow> 'j row result" where
  "decode_positional E buf pos count blobs projection =
     (case rp_plan projection of
        None \<Rightarrow> Inl (Corrupt ''a record payload without column names was decoded without its table schema'')
      | Some plan \<Rightarrow>
          rbind (require (\<not> count > pp_columns plan)
                  (Corrupt (''a record payload carries '' @ show_nat count @ '' columns, more than the ''
                    @ show_nat (pp_columns plan) @ '' its table declares''))) (\<lambda>_.
          let stop_after = min (pp_stop_after plan) count in
          rbind (decode_positions E blobs (pp_kept plan) [0..<stop_after] buf pos) (\<lambda>(vs, pos).
          rbind (require (\<not> (stop_after = count \<and> pos \<noteq> length buf))
                  (Corrupt ''trailing bytes in record payload'')) (\<lambda>_.
          if length vs = length (pp_layout plan) then Inr (from_layout (pp_layout plan) vs)
          else Inr (from_layout (take (length vs) (pp_layout plan)) vs)))))"

text \<open>The text of the column name in the error of a duplicate is replaced lossily where it is not
  UTF-8; the model keeps its bytes.\<close>

definition name_failure :: "bytes \<Rightarrow> name_error \<Rightarrow> error" where
  "name_failure name_bytes why =
     (case why of
        Duplicate \<Rightarrow> Corrupt (''duplicate column '' @ quoted (str_of name_bytes) @ '' in record payload'')
      | InvalidUtf8 \<Rightarrow> Corrupt ''invalid utf8 in column name'')"

fun decode_names ::
    "'j ext \<Rightarrow> blob_dir option \<Rightarrow> string list option \<Rightarrow> bytes \<Rightarrow> nat \<Rightarrow> nat \<Rightarrow> layout_matcher \<Rightarrow> nat
       \<Rightarrow> (layout_matcher \<times> 'j value list) result" where
  "decode_names E blobs keep buf 0 remaining m pos =
     rbind (require (pos = length buf) (Corrupt ''trailing bytes in record payload'')) (\<lambda>_. Inr (m, []))"
| "decode_names E blobs keep buf (Suc count) remaining m pos =
     rbind (read_payload_column_name buf pos) (\<lambda>(name_bytes, pos).
       if (case keep of None \<Rightarrow> False | Some ns \<Rightarrow> \<not> list_ex (\<lambda>wanted. as_bytes wanted = name_bytes) ns) then
         rbind (skip_value buf pos) (\<lambda>(_, pos).
         decode_names E blobs keep buf count remaining m pos)
       else
         rbind (map_err (name_failure name_bytes) (observe m name_bytes)) (\<lambda>m.
         rbind (decode_value E buf pos blobs) (\<lambda>(v, pos).
           if remaining - 1 = 0 \<and> keep \<noteq> None then Inr (m, [v])
           else rbind (decode_names E blobs keep buf count (remaining - 1) m pos) (\<lambda>(m, vs).
                Inr (m, v # vs)))))"

definition decode_named ::
    "'j ext \<Rightarrow> layouts \<Rightarrow> bytes \<Rightarrow> nat \<Rightarrow> nat \<Rightarrow> blob_dir option \<Rightarrow> string list option
       \<Rightarrow> (layouts \<times> 'j row) result" where
  "decode_named E cache buf start count blobs keep =
     (let wanted = (case keep of None \<Rightarrow> count | Some ns \<Rightarrow> length ns) in
      rbind (decode_names E blobs keep buf count wanted (matcher_new cache) start) (\<lambda>(m, vs).
      Inr (finish m vs)))"

definition decode_record_keep ::
    "'j ext \<Rightarrow> layouts \<Rightarrow> bytes \<Rightarrow> blob_dir option \<Rightarrow> row_projection \<Rightarrow> (layouts \<times> 'j row) result" where
  "decode_record_keep E cache buf blobs projection =
     (if wants_nothing projection then Inr (cache, row_new)
      else
        rbind (read_payload_header buf 0) (\<lambda>((count, positional), pos).
          if positional then
            rbind (decode_positional E buf pos count blobs projection) (\<lambda>r. Inr (cache, r))
          else decode_named E cache buf pos count blobs (rp_keep projection)))"

definition decode_record_for ::
    "'j ext \<Rightarrow> layouts \<Rightarrow> 'j table_schema \<Rightarrow> bytes \<Rightarrow> blob_dir option \<Rightarrow> (layouts \<times> 'j row) result" where
  "decode_record_for E cache schema buf blobs =
     (case projection_new cache (Some schema) None of
        (cache, projection) \<Rightarrow> decode_record_keep E cache buf blobs projection)"

fun scan_fields :: "bool \<Rightarrow> nat \<Rightarrow> bytes \<Rightarrow> nat \<Rightarrow> blob_ref list result" where
  "scan_fields positional 0 buf pos = Inr []"
| "scan_fields positional (Suc count) buf pos =
     rbind (if positional then Inr pos
            else rbind (read_payload_column_name buf pos) (\<lambda>(_, pos). Inr pos)) (\<lambda>pos.
     rbind (skip_value buf pos) (\<lambda>(refs, pos).
     rbind (scan_fields positional count buf pos) (\<lambda>out.
     Inr (refs @ out))))"

definition scan_payload_blob_refs :: "bytes \<Rightarrow> blob_ref list result" where
  "scan_payload_blob_refs buf =
     rbind (read_payload_header buf 0) (\<lambda>((count, positional), pos).
     scan_fields positional count buf pos)"

section \<open>The leading word\<close>

lemma high_bit_clear: "n < 2 ^ 15 \<Longrightarrow> \<not> bit (of_nat n :: u16) 15"
proof -
  assume "n < 2 ^ 15"
  then have "\<not> bit n 15" by (simp add: bit_iff_odd)
  then show ?thesis by (simp add: bit_simps)
qed

lemma positional_mark_bit: "bit POSITIONAL_MARK k \<longleftrightarrow> k = 15"
proof -
  have "POSITIONAL_MARK = push_bit 15 1" by simp
  then show ?thesis by (simp only: bit_push_bit_iff) (auto simp: bit_simps)
qed

lemma positional_mark_count:
  assumes "n < 2 ^ 15"
  shows "unat ((of_nat n :: u16) AND NOT POSITIONAL_MARK) = n"
    and "unat (((of_nat n :: u16) OR POSITIONAL_MARK) AND NOT POSITIONAL_MARK) = n"
    and "(of_nat n :: u16) AND POSITIONAL_MARK = 0"
    and "((of_nat n :: u16) OR POSITIONAL_MARK) AND POSITIONAL_MARK \<noteq> 0"
proof -
  note bits = bit_and_iff bit_or_iff bit_not_iff positional_mark_bit
  have "(of_nat n :: u16) AND NOT POSITIONAL_MARK = of_nat n"
    by (rule bit_eqI) (use high_bit_clear [OF assms] in \<open>auto simp only: bits possible_bit_word simp_thms bit_0_eq\<close>)
  moreover have "((of_nat n :: u16) OR POSITIONAL_MARK) AND NOT POSITIONAL_MARK = of_nat n"
    by (rule bit_eqI) (use high_bit_clear [OF assms] in \<open>auto simp only: bits possible_bit_word simp_thms bit_0_eq\<close>)
  moreover have "unat (of_nat n :: u16) = n"
    using assms by (intro unat_of_nat_u16) (simp add: fits_u16_def)
  ultimately show "unat ((of_nat n :: u16) AND NOT POSITIONAL_MARK) = n"
    and "unat (((of_nat n :: u16) OR POSITIONAL_MARK) AND NOT POSITIONAL_MARK) = n" by simp_all
  show "(of_nat n :: u16) AND POSITIONAL_MARK = 0"
    by (rule bit_eqI) (use high_bit_clear [OF assms] in \<open>auto simp only: bits possible_bit_word simp_thms bit_0_eq\<close>)
  have "bit (((of_nat n :: u16) OR POSITIONAL_MARK) AND POSITIONAL_MARK) 15" by (simp add: bits)
  then show "((of_nat n :: u16) OR POSITIONAL_MARK) AND POSITIONAL_MARK \<noteq> 0" by force
qed

lemma read_payload_header_at:
  assumes "n < 2 ^ 15"
    and "cursor_at buf pos (to_le_bytes (if named then of_nat n else of_nat n OR POSITIONAL_MARK :: u16) @ rest)"
  shows "read_payload_header buf pos = Inr ((n, \<not> named), pos + 2)"
  using read_u16_at [OF assms(2)] positional_mark_count [OF assms(1)]
  by (cases named) (simp_all add: read_payload_header_def)

section \<open>The kept positions\<close>

lemma and_push_bit_1: "w AND push_bit i 1 \<noteq> 0 \<longleftrightarrow> bit w i" for w :: u64
proof
  assume "w AND push_bit i 1 \<noteq> 0"
  then obtain k where "bit (w AND push_bit i 1) k" by (auto simp: bit_eq_iff)
  then show "bit w i" by (auto simp: bit_simps)
next
  assume "bit w i"
  then have "bit (w AND push_bit i 1) i" using bit_imp_le_length [of w i] by (simp add: bit_simps)
  then show "w AND push_bit i 1 \<noteq> 0" by force
qed

lemma projection_bits:
  assumes "k + length cols \<le> 64"
  shows "bit (foldl (\<lambda>bits (i, c). if p c then bits OR push_bit i 1 else bits) b (enumerate k cols) :: u64) j
    \<longleftrightarrow> bit b j \<or> (k \<le> j \<and> j < k + length cols \<and> p (cols ! (j - k)))"
  using assms
proof (induction cols arbitrary: k b)
  case (Cons c cols)
  have "bit (b OR push_bit k 1) j \<longleftrightarrow> bit b j \<or> j = k" if "p c"
    using Cons.prems by (auto simp: bit_simps)
  with Cons show ?case by (auto simp: nth_Cons' Suc_diff_le)
qed auto

lemma mask_keeps_projection:
  assumes "i < length cols"
  shows "mask_keeps (projection_mask keep cols) i \<longleftrightarrow> column_kept keep (col_name (cols ! i))"
proof (cases "length cols \<le> 64")
  case True
  with assms show ?thesis
    using projection_bits [of 0 cols "\<lambda>c. column_kept keep (col_name c)" 0 i]
    unfolding mask_keeps_def projection_mask_def by (simp only: if_True kept_mask.case and_push_bit_1) simp
next
  case False
  with assms show ?thesis by (simp add: mask_keeps_def projection_mask_def)
qed

lemma filter_enumerate:
  assumes "\<And>i. i < length xs \<Longrightarrow> q (k + i) \<longleftrightarrow> p (xs ! i)"
  shows "map snd (filter (\<lambda>(i, _). q i) (enumerate k xs)) = filter p xs"
  using assms
proof (induction xs arbitrary: k)
  case (Cons x xs)
  have "q (Suc k + i) \<longleftrightarrow> p (xs ! i)" if "i < length xs" for i
    using Cons.prems [of "Suc i"] that by simp
  with Cons.IH [of "Suc k"] Cons.prems [of 0] show ?case by simp
qed simp

lemma layout_for_names [simp]: "snd (layout_for cache ns) = ns"
proof (cases "list_position (\<lambda>layout. layout = ns) cache")
  case (Some at)
  then have "cache ! at = ns" using list_position_Some [OF Some] by simp
  with Some show ?thesis by (simp add: layout_for_def)
qed (simp add: layout_for_def)

lemma plan_new_fields:
  assumes "plan_new cache schema keep = (cache', plan)"
  shows "pp_columns plan = length (ts_columns schema)"
    and "pp_layout plan = filter (column_kept keep) (map col_name (ts_columns schema))"
    and "i < length (ts_columns schema) \<Longrightarrow>
      mask_keeps (pp_kept plan) i \<longleftrightarrow> column_kept keep (col_name (ts_columns schema ! i))"
    and "pp_stop_after plan \<le> length (ts_columns schema)"
    and "pp_stop_after plan \<le> i \<Longrightarrow> i < length (ts_columns schema) \<Longrightarrow> \<not> mask_keeps (pp_kept plan) i"
proof -
  let ?cols = "ts_columns schema"
  let ?mask = "projection_mask keep ?cols"
  have plan: "pp_columns plan = length ?cols" "pp_kept plan = ?mask"
    "pp_stop_after plan = (case find (mask_keeps ?mask) (rev [0..<length ?cols]) of None \<Rightarrow> 0 | Some at \<Rightarrow> at + 1)"
    "pp_layout plan = map (\<lambda>(_, c). col_name c) (filter (\<lambda>(i, _). mask_keeps ?mask i) (enumerate 0 ?cols))"
    using assms by (auto simp: plan_new_def Let_def split: prod.splits)
      (metis layout_for_names snd_conv)
  show "pp_columns plan = length ?cols" by (rule plan(1))
  show "mask_keeps (pp_kept plan) i \<longleftrightarrow> column_kept keep (col_name (?cols ! i))" if "i < length ?cols"
    using mask_keeps_projection [OF that] plan(2) by simp
  have "map snd (filter (\<lambda>(i, _). mask_keeps ?mask i) (enumerate 0 ?cols))
      = filter (\<lambda>c. column_kept keep (col_name c)) ?cols"
    by (rule filter_enumerate) (simp add: mask_keeps_projection)
  then have "map col_name (map snd (filter (\<lambda>(i, _). mask_keeps ?mask i) (enumerate 0 ?cols)))
      = filter (column_kept keep) (map col_name ?cols)"
    by (simp add: filter_map comp_def)
  then show "pp_layout plan = filter (column_kept keep) (map col_name ?cols)"
    by (simp add: plan(4) comp_def case_prod_unfold)
  show "pp_stop_after plan \<le> length ?cols"
    by (auto simp: plan(3) find_Some_iff rev_nth split: option.split)
  show "\<not> mask_keeps (pp_kept plan) i" if "pp_stop_after plan \<le> i" "i < length ?cols"
  proof (cases "find (mask_keeps ?mask) (rev [0..<length ?cols])")
    case None
    then show ?thesis using that by (auto simp: find_None_iff plan(2))
  next
    case (Some at)
    then obtain j where j: "j < length ?cols" "at = length ?cols - Suc j"
        "\<forall>k < j. \<not> mask_keeps ?mask (rev [0..<length ?cols] ! k)"
      by (auto simp: find_Some_iff rev_nth)
    let ?k = "length ?cols - Suc i"
    have "?k < j" using that j(1,2) Some by (auto simp: plan(3))
    with j(3) that(2) show ?thesis by (auto simp: plan(2) rev_nth)
  qed
qed

section \<open>What the sink does to the directory\<close>

text \<open>The names drawn so far are distinct, and are names a reference may carry.\<close>

definition blob_names :: "blob_env \<Rightarrow> nat \<Rightarrow> bool" where
  "blob_names V n \<longleftrightarrow> inj_on (be_name V) {..<n}
     \<and> (\<forall>i < n. rust_str (be_name V i) \<and> CHR ''/'' \<notin> set (be_name V i) \<and> \<not> contains_str (be_name V i) ''..'')"

abbreviation tmp_path :: "string \<Rightarrow> string" where
  "tmp_path name \<equiv> name @ ''.blob.tmp''"

abbreviation blob_path :: "string \<Rightarrow> string" where
  "blob_path name \<equiv> name @ ''.blob''"

definition sink_ok :: "blob_env \<Rightarrow> blob_sink \<Rightarrow> bool" where
  "sink_ok V s \<longleftrightarrow> (\<exists>drawn. distinct drawn \<and> set drawn \<subseteq> {..<sk_drawn s}
     \<and> sk_staged s = map (\<lambda>i. (tmp_path (be_name V i), blob_path (be_name V i))) drawn)"

text \<open>One step of the sink: it draws names, stages files behind the ones already staged, and
  touches no file but the temporaries of the names it drew.\<close>

definition sink_step :: "blob_env \<Rightarrow> blob_sink \<Rightarrow> blob_sink \<Rightarrow> bool" where
  "sink_step V s s' \<longleftrightarrow>
     sk_threshold s' = sk_threshold s \<and> sk_drawn s \<le> sk_drawn s' \<and> (sink_ok V s \<longrightarrow> sink_ok V s')
     \<and> (\<exists>new. sk_staged s' = sk_staged s @ new)
     \<and> (\<forall>p. (\<forall>i. sk_drawn s \<le> i \<and> i < sk_drawn s' \<longrightarrow> p \<noteq> tmp_path (be_name V i)) \<longrightarrow> sk_files s' p = sk_files s p)"

lemma sink_step_refl: "sink_step V s s"
  by (simp add: sink_step_def)

lemma sink_step_trans: "sink_step V a b \<Longrightarrow> sink_step V b c \<Longrightarrow> sink_step V a c"
proof -
  assume ab: "sink_step V a b" and bc: "sink_step V b c"
  have "sk_files c p = sk_files a p"
    if "\<forall>i. sk_drawn a \<le> i \<and> i < sk_drawn c \<longrightarrow> p \<noteq> tmp_path (be_name V i)" for p
  proof -
    have "sk_files c p = sk_files b p" using that ab bc by (auto simp: sink_step_def)
    also have "\<dots> = sk_files a p" using that ab bc by (auto simp: sink_step_def)
    finally show ?thesis .
  qed
  with ab bc show ?thesis by (auto simp: sink_step_def)
qed

lemma sink_ok_draw: "sink_ok V s \<Longrightarrow> sink_ok V (s\<lparr>sk_drawn := Suc (sk_drawn s), sk_files := files\<rparr>)"
  by (force simp: sink_ok_def)

lemma sink_ok_stage:
  assumes "sink_ok V s"
  shows "sink_ok V (s\<lparr>sk_drawn := Suc (sk_drawn s), sk_files := files,
    sk_staged := sk_staged s @ [(tmp_path (be_name V (sk_drawn s)), blob_path (be_name V (sk_drawn s)))]\<rparr>)"
proof -
  obtain drawn where "distinct drawn" "set drawn \<subseteq> {..<sk_drawn s}"
      "sk_staged s = map (\<lambda>i. (tmp_path (be_name V i), blob_path (be_name V i))) drawn"
    using assms by (auto simp: sink_ok_def)
  then show ?thesis
    unfolding sink_ok_def by (intro exI [of _ "drawn @ [sk_drawn s]"]) auto
qed

lemma maybe_externalize_step:
  assumes "maybe_externalize E V content s = (s', r)"
  shows "sink_step V s s'"
  using assms sink_ok_draw [of V s] sink_ok_draw [of V s "sk_files s"] sink_ok_stage [of V s]
  by (auto simp: maybe_externalize_def sink_step_def Let_def
      split: if_splits prod.splits file_outcome.splits option.splits)

lemma encode_field_step:
  assumes "encode_field E V v (Some s) = (sink', r)"
  shows "\<exists>s'. sink' = Some s' \<and> sink_step V s s'"
proof (cases v)
  case (Blob content)
  obtain s1 x where ext: "maybe_externalize E V content s = (s1, x)" by force
  with assms Blob have "sink' = Some s1"
    by (auto simp: encode_field_def split: sum.splits option.splits prod.splits)
  with maybe_externalize_step [OF ext] show ?thesis by blast
qed (use assms in \<open>auto simp: encode_field_def sink_step_refl\<close>)

lemma encode_columns_step:
  "encode_columns E V named fs (Some s) = (sink', r) \<Longrightarrow> \<exists>s'. sink' = Some s' \<and> sink_step V s s'"
proof (induction fs arbitrary: s sink' r)
  case Nil
  then show ?case using sink_step_refl by auto
next
  case (Cons f fs)
  obtain col v where f: "f = (col, v)" by force
  obtain sink1 x where field: "encode_field E V v (Some s) = (sink1, x)" by force
  then obtain s1 where s1: "sink1 = Some s1" "sink_step V s s1" using encode_field_step by blast
  show ?case
  proof (cases "\<exists>name bs. encode_name named col = Inr name \<and> x = Inr bs")
    case True
    with Cons.prems obtain y where "encode_columns E V named fs (Some s1) = (sink', y)"
      by (auto simp: f field s1(1) split: prod.splits)
    with Cons.IH s1(2) sink_step_trans show ?thesis by blast
  next
    case False
    with Cons.prems s1 show ?thesis
      by (auto simp: f field sink_step_refl split: sum.splits)
  qed
qed

text \<open>Staged files stay as they were written while more rows are encoded.\<close>

lemma sink_step_keeps_staged:
  assumes "sink_step V s s'" and "sink_ok V s" and "inj_on (be_name V) {..<n}" and "sk_drawn s' \<le> n"
    and "(t, f) \<in> set (sk_staged s)"
  shows "(t, f) \<in> set (sk_staged s') \<and> sk_files s' t = sk_files s t"
proof -
  obtain drawn where "set drawn \<subseteq> {..<sk_drawn s}"
      "sk_staged s = map (\<lambda>i. (tmp_path (be_name V i), blob_path (be_name V i))) drawn"
    using assms(2) by (auto simp: sink_ok_def)
  with assms(5) obtain i where "i \<in> set drawn" "t = tmp_path (be_name V i)" "i < sk_drawn s" by auto
  note i = this(3,2)
  have "t \<noteq> tmp_path (be_name V k)" if "sk_drawn s \<le> k \<and> k < sk_drawn s'" for k
  proof
    assume "t = tmp_path (be_name V k)"
    with i have "be_name V i = be_name V k" by simp
    with assms(3) have "i = k" using i(1) that assms(4) by (auto dest!: inj_onD)
    with i(1) that show False by simp
  qed
  with assms(1,5) show ?thesis by (auto simp: sink_step_def)
qed

section \<open>What an encoded field reads as\<close>

definition stored_as :: "'j ext \<Rightarrow> blob_dir \<Rightarrow> bytes \<Rightarrow> 'j value \<Rightarrow> blob_ref list \<Rightarrow> bool" where
  "stored_as E dir bs v refs \<longleftrightarrow> (\<forall>buf pos rest. cursor_at buf pos (bs @ rest) \<longrightarrow>
     decode_value E buf pos (Some dir) = Inr (v, pos + length bs) \<and> skip_value buf pos = Inr (refs, pos + length bs))"

text \<open>The directory shows every staged chunk under its final name.\<close>

definition resolves :: "blob_dir \<Rightarrow> blob_sink \<Rightarrow> bool" where
  "resolves dir s \<longleftrightarrow> (\<forall>(t, f) \<in> set (sk_staged s). \<forall>d. sk_files s t = Some d \<longrightarrow> dir f = Inr d)"

lemma stored_inline: "wf_value E v \<Longrightarrow> stored_as E dir (encode_value E v) v []"
  by (auto simp: stored_as_def decode_encode_value skip_encode_value)

lemma stored_out_of_line:
  assumes "write_blob_file_bytes E content = (data, crc)"
    and "encode_blob_ref name (of_nat (length content)) crc = Inr bs"
    and "rust_str name" "CHR ''/'' \<notin> set name" "\<not> contains_str name ''..''"
    and "dir (blob_path name) = Inr data"
  shows "stored_as E dir bs (Blob content)
    [\<lparr>br_name = name, br_size = of_nat (length content), br_crc = crc\<rparr>]"
  unfolding stored_as_def
proof (intro allI impI)
  fix buf pos rest
  assume at: "cursor_at buf pos (bs @ rest)"
  let ?r = "\<lparr>br_name = name, br_size = of_nat (length content), br_crc = crc\<rparr>"
  have skip: "skip_value buf pos = Inr ([?r], pos + length bs)"
    by (rule read_encode_blob_ref [OF assms(2-5) at])
  have "\<exists>bs'. bs = TAG_BLOBREF # bs'" using assms(2) by (auto simp: encode_blob_ref_def result_dests)
  with at have tag: "read_u8 buf pos = Inr (TAG_BLOBREF, Suc pos)" using read_u8_at by fastforce
  with skip have "read_blob_ref buf (Suc pos) = Inr (?r, pos + length bs)"
    by (auto simp: skip_value_def result_dests)
  with skip show "decode_value E buf pos (Some dir) = Inr (Blob content, pos + length bs)
      \<and> skip_value buf pos = Inr ([?r], pos + length bs)"
    using read_write_blob_file [of E content data crc dir name] assms(1,6) by (simp add: decode_value_def tag)
qed

text \<open>The chunk names a list of references stands for, as the sink stages them.\<close>

definition staged_for :: "blob_ref list \<Rightarrow> (string \<times> string) list" where
  "staged_for refs = map (\<lambda>r. (tmp_path (br_name r), blob_path (br_name r))) refs"

definition staged_of :: "blob_sink option \<Rightarrow> (string \<times> string) list" where
  "staged_of sink = (case sink of None \<Rightarrow> [] | Some s \<Rightarrow> sk_staged s)"

definition sink_resolves :: "blob_env \<Rightarrow> nat \<Rightarrow> blob_dir \<Rightarrow> blob_sink option \<Rightarrow> bool" where
  "sink_resolves V n dir sink = (case sink of None \<Rightarrow> True | Some s \<Rightarrow> sk_drawn s \<le> n \<and> resolves dir s)"

definition sink_fine :: "blob_env \<Rightarrow> blob_sink option \<Rightarrow> bool" where
  "sink_fine V sink = (case sink of None \<Rightarrow> True | Some s \<Rightarrow> sink_ok V s)"

lemma encode_field_stored:
  assumes "encode_field E V v sink = (sink', Inr bs)" and "wf_value E v"
    and "blob_names V n" and "sink_resolves V n dir sink'"
  shows "\<exists>refs. stored_as E dir bs v refs \<and> staged_of sink' = staged_of sink @ staged_for refs"
proof (cases "\<exists>content s. v = Blob content \<and> sink = Some s")
  case True
  then obtain content s where v: "v = Blob content" "sink = Some s" by blast
  obtain s1 x where ext: "maybe_externalize E V content s = (s1, Inr x)"
    using assms(1) v by (auto simp: encode_field_def split: sum.splits prod.splits)
  with assms(1) v have sink': "sink' = Some s1"
    by (auto simp: encode_field_def split: option.splits prod.splits)
  show ?thesis
  proof (cases x)
    case None
    with ext have "s1 = s"
      by (auto simp: maybe_externalize_def Let_def split: if_splits prod.splits file_outcome.splits option.splits)
    moreover have "bs = encode_value E v" using assms(1) v ext None by (simp add: encode_field_def)
    ultimately show ?thesis
      using stored_inline [OF assms(2)] sink' v(2) by (auto simp: staged_of_def staged_for_def intro!: exI [of _ "[]"])
  next
    case (Some nc)
    obtain name crc where nc: "nc = (name, crc)" by force
    obtain data where w: "write_blob_file_bytes E content = (data, crc)"
      and name: "name = be_name V (sk_drawn s)" and drawn: "sk_drawn s1 = sk_drawn s + 1"
      and staged: "sk_staged s1 = sk_staged s @ [(tmp_path name, blob_path name)]"
      and data: "sk_files s1 (tmp_path name) = Some data"
      using ext Some nc
      by (auto simp: maybe_externalize_def Let_def split: if_splits prod.splits file_outcome.splits option.splits)
    have enc: "encode_blob_ref name (of_nat (length content)) crc = Inr bs"
      using assms(1) v ext Some nc by (simp add: encode_field_def)
    have "dir (blob_path name) = Inr data"
      using assms(4) sink' staged data by (auto simp: sink_resolves_def resolves_def)
    moreover have "rust_str name" "CHR ''/'' \<notin> set name" "\<not> contains_str name ''..''"
      using assms(3,4) sink' drawn by (auto simp: blob_names_def sink_resolves_def name)
    ultimately have "stored_as E dir bs v [\<lparr>br_name = name, br_size = of_nat (length content), br_crc = crc\<rparr>]"
      using stored_out_of_line [OF w enc] v(1) by simp
    with staged sink' v(2) show ?thesis by (fastforce simp: staged_of_def staged_for_def)
  qed
next
  case False
  then have "sink' = sink" "bs = encode_value E v"
    using assms(1) by (cases v; cases sink; auto simp: encode_field_def)+
  with stored_inline [OF assms(2)] show ?thesis by (auto simp: staged_for_def intro!: exI [of _ "[]"])
qed

lemma resolves_back:
  assumes "sink_step V s s'" and "sink_ok V s" and "blob_names V n" and "sk_drawn s' \<le> n" and "resolves dir s'"
  shows "resolves dir s"
  using sink_step_keeps_staged [OF assms(1,2) _ assms(4)] assms(3,5)
  by (fastforce simp: resolves_def blob_names_def)

text \<open>A stored field: its column and value, the bytes that hold the value, and the references in them.\<close>

type_synonym 'j stored = "'j column_def \<times> 'j value \<times> bytes \<times> blob_ref list"

definition stored_ok :: "'j ext \<Rightarrow> blob_dir \<Rightarrow> bool \<Rightarrow> 'j stored \<Rightarrow> bool" where
  "stored_ok E dir named k =
     (case k of (c, v, b, refs) \<Rightarrow> stored_as E dir b v refs \<and> (named \<longrightarrow> fits_u16 (length (col_name c))))"

definition stored_frame :: "bool \<Rightarrow> 'j stored \<Rightarrow> bytes" where
  "stored_frame named k =
     (case k of (c, v, b, refs) \<Rightarrow>
        (if named then to_le_bytes (of_nat (length (col_name c)) :: u16) @ as_bytes (col_name c) else []) @ b)"

definition stored_refs :: "'j stored list \<Rightarrow> blob_ref list" where
  "stored_refs ks = concat (map (\<lambda>(c, v, b, refs). refs) ks)"

definition stored_field :: "'j stored \<Rightarrow> 'j column_def \<times> 'j value" where
  "stored_field k = (case k of (c, v, b, refs) \<Rightarrow> (c, v))"

lemma stored_field_simp [simp]: "stored_field (c, v, b, refs) = (c, v)"
  by (simp add: stored_field_def)

lemma encode_columns_fine:
  assumes "encode_field E V v sink = (sink1, r)" and "sink_fine V sink"
  shows "sink_fine V sink1"
proof (cases sink)
  case None
  then show ?thesis using assms by (cases v) (auto simp: encode_field_def sink_fine_def)
next
  case (Some s)
  then show ?thesis using encode_field_step [of E V v s sink1 r] assms by (auto simp: sink_fine_def sink_step_def)
qed

lemma encode_columns_resolves_back:
  assumes "encode_columns E V named fs sink = (sink', r)" and "sink_fine V sink" and "blob_names V n"
    and "sink_resolves V n dir sink'"
  shows "sink_resolves V n dir sink"
proof (cases sink)
  case (Some s)
  then obtain s' where "sink' = Some s'" "sink_step V s s'" using encode_columns_step assms(1) by blast
  with Some assms(2-4) resolves_back [of V s s' n dir] show ?thesis
    by (auto simp: sink_resolves_def sink_fine_def sink_step_def)
qed (simp add: sink_resolves_def)

lemma encode_columns_stored:
  assumes "encode_columns E V named fs sink = (sink', Inr bs)" and "list_all (\<lambda>(c, v). wf_value E v) fs"
    and "blob_names V n" and "sink_fine V sink" and "sink_resolves V n dir sink'"
  shows "\<exists>ks. map stored_field ks = fs \<and> list_all (stored_ok E dir named) ks
    \<and> bs = concat (map (stored_frame named) ks) \<and> staged_of sink' = staged_of sink @ staged_for (stored_refs ks)"
  using assms(1,2,4)
proof (induction fs arbitrary: sink bs)
  case Nil
  then show ?case using assms(5) by (auto simp: stored_refs_def staged_for_def)
next
  case (Cons f fs)
  obtain col v where f: "f = (col, v)" by force
  obtain name where name: "encode_name named col = Inr name"
    using Cons.prems(1) by (auto simp: f split: sum.splits prod.splits)
  obtain sink1 field where field: "encode_field E V v sink = (sink1, Inr field)"
    using Cons.prems(1) by (auto simp: f name split: sum.splits prod.splits)
  obtain tail where tail: "encode_columns E V named fs sink1 = (sink', Inr tail)" "bs = name @ field @ tail"
    using Cons.prems(1) by (auto simp: f name field result_dests split: prod.splits)
  have fine: "sink_fine V sink1" using encode_columns_fine [OF field] Cons.prems(3) .
  obtain refs where refs: "stored_as E dir field v refs" "staged_of sink1 = staged_of sink @ staged_for refs"
    using encode_field_stored [OF field _ assms(3) encode_columns_resolves_back [OF tail(1) fine assms(3,5)]]
      Cons.prems(2) f by auto
  obtain ks where ks: "map stored_field ks = fs" "list_all (stored_ok E dir named) ks"
      "tail = concat (map (stored_frame named) ks)" "staged_of sink' = staged_of sink1 @ staged_for (stored_refs ks)"
    using Cons.IH [OF tail(1) _ fine] Cons.prems(2) by auto
  let ?k = "(col, v, field, refs)"
  have "stored_ok E dir named ?k" "name @ field = stored_frame named ?k"
    using refs(1) name by (auto simp: stored_ok_def stored_frame_def encode_name_def result_dests split: if_splits)
  then have "map stored_field (?k # ks) = f # fs \<and> list_all (stored_ok E dir named) (?k # ks)
      \<and> bs = concat (map (stored_frame named) (?k # ks))
      \<and> staged_of sink' = staged_of sink @ staged_for (stored_refs (?k # ks))"
    using ks tail(2) refs(2) f by (simp add: stored_refs_def staged_for_def)
  then show ?case by (rule exI)
qed

section \<open>Reading stored fields\<close>

lemma stored_ok_frame:
  assumes "stored_ok E dir False (c, v, b, refs)" and "cursor_at buf pos (stored_frame False (c, v, b, refs) @ rest)"
  shows "decode_value E buf pos (Some dir) = Inr (v, pos + length b)" and "skip_value buf pos = Inr (refs, pos + length b)"
    and "cursor_at buf (pos + length b) rest"
  using assms cursor_at_append [of buf pos b rest]
  by (auto simp: stored_ok_def stored_frame_def stored_as_def)

lemma read_name_at:
  assumes "fits_u16 (length name)"
    and at: "cursor_at buf pos (to_le_bytes (of_nat (length name) :: u16) @ as_bytes name @ rest)"
  shows "read_payload_column_name buf pos = Inr (as_bytes name, pos + 2 + length name)"
    and "cursor_at buf (pos + 2 + length name) rest"
proof -
  note at2 = cursor_at_u16 [OF at]
  show "read_payload_column_name buf pos = Inr (as_bytes name, pos + 2 + length name)"
    using read_u16_at [OF at] cursor_at_checked_add [OF at2] cursor_at_range [OF at2]
    by (simp add: read_payload_column_name_def unat_of_nat_u16 [OF assms(1)])
  show "cursor_at buf (pos + 2 + length name) rest" using cursor_at_append [OF at2] by simp
qed

lemma named_frame_at:
  assumes "stored_ok E dir True (c, v, b, refs)" and "cursor_at buf pos (stored_frame True (c, v, b, refs) @ rest)"
  shows "\<exists>p. read_payload_column_name buf pos = Inr (as_bytes (col_name c), p)
    \<and> decode_value E buf p (Some dir) = Inr (v, p + length b) \<and> skip_value buf p = Inr (refs, p + length b)
    \<and> cursor_at buf (p + length b) rest"
proof -
  have fits: "fits_u16 (length (col_name c))" using assms(1) by (simp add: stored_ok_def)
  have at: "cursor_at buf pos (to_le_bytes (of_nat (length (col_name c)) :: u16) @ as_bytes (col_name c) @ b @ rest)"
    using assms(2) by (simp add: stored_frame_def)
  note name = read_name_at [OF fits at]
  have "stored_as E dir b v refs" using assms(1) by (simp add: stored_ok_def)
  note field = this [unfolded stored_as_def, rule_format, OF name(2)]
  show ?thesis
    by (rule exI [of _ "pos + 2 + length (col_name c)"]) (use name(1) field cursor_at_append [OF name(2)] in blast)
qed

lemma decode_positions_stored:
  assumes "list_all (stored_ok E dir False) ks" and "cursor_at buf pos (concat (map (stored_frame False) ks) @ rest)"
  shows "\<exists>p. decode_positions E (Some dir) kept [i..<i + length ks] buf pos =
      Inr (map (snd \<circ> snd) (filter (\<lambda>(j, _). mask_keeps kept j) (enumerate i (map stored_field ks))), p)
    \<and> cursor_at buf p rest"
  using assms
proof (induction ks arbitrary: i pos)
  case (Cons k ks)
  obtain c v b refs where k: "k = (c, v, b, refs)" by (cases k)
  have at: "cursor_at buf pos (stored_frame False k @ concat (map (stored_frame False) ks) @ rest)"
    using Cons.prems(2) by simp
  note here = stored_ok_frame [OF _ at [unfolded k]]
  have ok: "stored_ok E dir False (c, v, b, refs)" using Cons.prems(1) k by simp
  have range: "[i..<i + length (k # ks)] = i # [Suc i..<Suc i + length ks]"
    by (simp add: upt_conv_Cons del: upt_Suc)
  obtain p where p: "decode_positions E (Some dir) kept [Suc i..<Suc i + length ks] buf (pos + length b) =
      Inr (map (snd \<circ> snd) (filter (\<lambda>(j, _). mask_keeps kept j) (enumerate (Suc i) (map stored_field ks))), p)"
      "cursor_at buf p rest"
    using Cons.IH [OF _ here(3) [OF ok], of "Suc i"] Cons.prems(1) by auto
  then show ?case unfolding range by (simp add: here(1,2) [OF ok] k del: upt_Suc)
qed simp

lemma scan_fields_stored:
  assumes "list_all (stored_ok E dir named) ks" and "cursor_at buf pos (concat (map (stored_frame named) ks) @ rest)"
  shows "scan_fields (\<not> named) (length ks) buf pos = Inr (stored_refs ks)"
  using assms
proof (induction ks arbitrary: pos)
  case (Cons k ks)
  obtain c v b refs where k: "k = (c, v, b, refs)" by (cases k)
  have at: "cursor_at buf pos (stored_frame named k @ concat (map (stored_frame named) ks) @ rest)"
    using Cons.prems(2) by simp
  show ?case
  proof (cases named)
    case True
    with named_frame_at [of E dir c v b refs buf pos] at Cons.prems(1) Cons.IH k show ?thesis
      by (force simp: stored_refs_def)
  next
    case False
    with stored_ok_frame [of E dir c v b refs buf pos] at Cons.prems(1) Cons.IH k show ?thesis
      by (force simp: stored_refs_def)
  qed
qed (simp add: stored_refs_def)

text \<open>The fields of a stored row that a projection keeps.\<close>

definition kept_fields :: "string list option \<Rightarrow> ('j column_def \<times> 'j value) list \<Rightarrow> ('j column_def \<times> 'j value) list" where
  "kept_fields keep fs = filter (\<lambda>(c, v). column_kept keep (col_name c)) fs"

lemma kept_fields_simps [simp]:
  "kept_fields keep [] = []"
  "kept_fields keep ((c, v) # fs) =
     (if column_kept keep (col_name c) then (c, v) # kept_fields keep fs else kept_fields keep fs)"
  "kept_fields keep (fs @ gs) = kept_fields keep fs @ kept_fields keep gs"
  by (simp_all add: kept_fields_def)

lemma kept_names: "map (col_name \<circ> fst) (kept_fields keep fs) = filter (column_kept keep) (map (col_name \<circ> fst) fs)"
  by (induction fs) (auto simp: kept_fields_def)

lemma map_as_bytes_inject: "map as_bytes xs = map as_bytes ys \<longleftrightarrow> xs = ys"
  by (rule inj_map_eq_map) (simp add: inj_def)

lemma not_wanted:
  "(case keep of None \<Rightarrow> False | Some ns \<Rightarrow> \<not> list_ex (\<lambda>wanted. as_bytes wanted = as_bytes name) ns)
     \<longleftrightarrow> \<not> column_kept keep name"
  by (auto simp: column_kept_def list_ex_iff split: option.splits)

lemma decode_names_stored:
  assumes "list_all (stored_ok E dir True) ks" and "cursor_at buf pos (concat (map (stored_frame True) ks))"
    and "matcher_inv m" and "list_all (\<lambda>k. rust_str (col_name (fst k))) ks"
    and "distinct (lm_names m @ map (\<lambda>k. col_name (fst k)) ks)"
    and "keep \<noteq> None \<longrightarrow> length (kept_fields keep (map stored_field ks)) \<le> remaining"
  shows "\<exists>m'. decode_names E (Some dir) keep buf (length ks) remaining m pos =
      Inr (m', map snd (kept_fields keep (map stored_field ks)))
    \<and> matcher_inv m' \<and> lm_names m' = lm_names m @ map (col_name \<circ> fst) (kept_fields keep (map stored_field ks))"
  using assms
proof (induction ks arbitrary: pos m remaining)
  case Nil
  then show ?case using cursor_at_length [of buf pos "[]"] by (simp add: require_def)
next
  case (Cons k ks)
  obtain c v b refs where k: "k = (c, v, b, refs)" by (cases k)
  have ok: "stored_ok E dir True (c, v, b, refs)" using Cons.prems(1) k by simp
  obtain p where p: "read_payload_column_name buf pos = Inr (as_bytes (col_name c), p)"
      "decode_value E buf p (Some dir) = Inr (v, p + length b)" "skip_value buf p = Inr (refs, p + length b)"
      "cursor_at buf (p + length b) (concat (map (stored_frame True) ks))"
    using named_frame_at [OF ok] Cons.prems(2) k by fastforce
  have rest: "list_all (stored_ok E dir True) ks" "list_all (\<lambda>k. rust_str (col_name (fst k))) ks"
    using Cons.prems(1,4) by simp_all
  show ?case
  proof (cases "column_kept keep (col_name c)")
    case False
    obtain m' where "decode_names E (Some dir) keep buf (length ks) remaining m (p + length b) =
        Inr (m', map snd (kept_fields keep (map stored_field ks)))" "matcher_inv m'"
        "lm_names m' = lm_names m @ map (col_name \<circ> fst) (kept_fields keep (map stored_field ks))"
      using Cons.IH [OF rest(1) p(4) Cons.prems(3) rest(2), of remaining] Cons.prems(5,6) False k by auto
    then show ?thesis using False by (simp add: k p(1,3) not_wanted)
  next
    case True
    have "is_ok (observe m (as_bytes (col_name c)))"
      using observe_ok [OF Cons.prems(3), of "col_name c"] Cons.prems(4,5) k by simp
    then obtain m1 where m1: "observe m (as_bytes (col_name c)) = Inr m1" by (auto simp: is_ok_iff)
    have "matcher_inv m1 \<and> map as_bytes (lm_names m1) = map as_bytes (lm_names m @ [col_name c])"
      using observe_names [OF Cons.prems(3) m1] by simp
    then have step: "matcher_inv m1" "lm_names m1 = lm_names m @ [col_name c]"
      unfolding map_as_bytes_inject by blast+
    show ?thesis
    proof (cases "remaining - 1 = 0 \<and> keep \<noteq> None")
      case stop: True
      then have "Suc (length (kept_fields keep (map stored_field ks))) \<le> remaining"
        using Cons.prems(6) True by (simp add: k)
      moreover have "remaining \<le> 1" using stop by simp
      ultimately have "length (kept_fields keep (map stored_field ks)) = 0" by linarith
      then have "kept_fields keep (map stored_field ks) = []" by simp
      then show ?thesis using True stop step by (simp add: k p(1,2) not_wanted m1)
    next
      case go: False
      have dist: "distinct (lm_names m1 @ map (\<lambda>k. col_name (fst k)) ks)"
        using Cons.prems(5) by (simp add: k step(2))
      have bound: "keep \<noteq> None \<longrightarrow> length (kept_fields keep (map stored_field ks)) \<le> remaining - 1"
        using Cons.prems(6) True k by auto
      obtain m' where "decode_names E (Some dir) keep buf (length ks) (remaining - 1) m1 (p + length b) =
          Inr (m', map snd (kept_fields keep (map stored_field ks)))" "matcher_inv m'"
          "lm_names m' = lm_names m1 @ map (col_name \<circ> fst) (kept_fields keep (map stored_field ks))"
        using Cons.IH [OF rest(1) p(4) step(1) rest(2) dist bound] by blast
      then show ?thesis using True go step by (auto simp: k p(1,2) not_wanted m1)
    qed
  qed
qed

lemma decode_named_stored:
  assumes ok: "list_all (stored_ok E dir True) ks"
    and at: "cursor_at buf pos (concat (map (stored_frame True) ks))"
    and names: "list_all (\<lambda>k. rust_str (col_name (fst k))) ks" "distinct (map (\<lambda>k. col_name (fst k)) ks)"
  shows "\<exists>cache'. decode_named E cache buf pos (length ks) (Some dir) keep =
    Inr (cache', from_layout (map (col_name \<circ> fst) (kept_fields keep (map stored_field ks)))
                             (map snd (kept_fields keep (map stored_field ks))))"
proof -
  let ?fs = "kept_fields keep (map stored_field ks)"
  have "length ?fs \<le> length ns" if "keep = Some ns" for ns
  proof -
    have "distinct (map (col_name \<circ> fst) ?fs)"
      unfolding kept_names using names(2) by (simp add: comp_def stored_field_def case_prod_unfold)
    moreover have "set (map (col_name \<circ> fst) ?fs) \<subseteq> set ns"
      unfolding kept_names using that by (auto simp: column_kept_def)
    ultimately have "length (map (col_name \<circ> fst) ?fs) \<le> length ns"
      by (metis card_length card_mono distinct_card finite_set le_trans)
    then show ?thesis by simp
  qed
  then have bound: "keep \<noteq> None \<longrightarrow> length ?fs \<le> (case keep of None \<Rightarrow> length ks | Some ns \<Rightarrow> length ns)"
    by auto
  have "lm_names (matcher_new cache) = []"
    using matcher_inv_new [of cache] by (simp add: matcher_inv_def matcher_new_def Let_def)
  then obtain m where dec: "decode_names E (Some dir) keep buf (length ks)
        (case keep of None \<Rightarrow> length ks | Some ns \<Rightarrow> length ns) (matcher_new cache) pos = Inr (m, map snd ?fs)"
      and m: "matcher_inv m" "lm_names m = map (col_name \<circ> fst) ?fs"
    using decode_names_stored [OF ok at matcher_inv_new names(1) _ bound, of cache] names(2) by auto
  obtain cache' r where fin: "finish m (map snd ?fs) = (cache', r)" by force
  have "r = from_layout (map (col_name \<circ> fst) ?fs) (map snd ?fs)"
    using finish_names [OF m(1), of "map snd ?fs"] by (simp add: m(2) fin)
  with dec fin show ?thesis by (simp add: decode_named_def)
qed

lemma decode_positional_stored:
  assumes ok: "list_all (stored_ok E dir False) ks"
    and at: "cursor_at buf pos (concat (map (stored_frame False) ks))"
    and plan: "plan_new cache schema keep = (cache', plan)"
    and cols: "ts_columns schema = map fst (map stored_field ks) @ added"
  shows "decode_positional E buf pos (length ks) (Some dir) \<lparr>rp_keep = keep, rp_plan = Some plan\<rparr> =
    Inr (from_layout (map (col_name \<circ> fst) (kept_fields keep (map stored_field ks)))
                     (map snd (kept_fields keep (map stored_field ks))))"
proof -
  note plan = plan_new_fields [OF plan]
  let ?stop = "min (pp_stop_after plan) (length ks)"
  let ?fs = "map stored_field ks"
  have col: "ts_columns schema ! i = fst (?fs ! i)" if "i < length ks" for i
    using that by (simp add: cols nth_append)
  have len: "length ks \<le> length (ts_columns schema)" by (simp add: cols)
  have split: "concat (map (stored_frame False) ks) =
      concat (map (stored_frame False) (take ?stop ks)) @ concat (map (stored_frame False) (drop ?stop ks))"
    by (metis append_take_drop_id concat_append map_append)
  obtain p where p: "decode_positions E (Some dir) (pp_kept plan) [0..<?stop] buf pos =
      Inr (map (snd \<circ> snd) (filter (\<lambda>(j, _). mask_keeps (pp_kept plan) j) (enumerate 0 (map stored_field (take ?stop ks)))), p)"
      "cursor_at buf p (concat (map (stored_frame False) (drop ?stop ks)))"
    using decode_positions_stored [of E dir "take ?stop ks" buf pos _ "pp_kept plan" 0] ok at split
    by (auto simp: list_all_iff dest: in_set_takeD)
  have "map snd (filter (\<lambda>(j, _). mask_keeps (pp_kept plan) j) (enumerate 0 (take ?stop ?fs))) = kept_fields keep (take ?stop ?fs)"
    unfolding kept_fields_def
    by (rule filter_enumerate) (use plan(3) col len in \<open>auto simp: case_prod_unfold\<close>)
  moreover have "kept_fields keep (drop ?stop ?fs) = []"
  proof -
    have "\<not> column_kept keep (col_name (fst (?fs ! i)))" if "?stop \<le> i" "i < length ks" for i
      using plan(3,5) [of i] that col [of i] len by (auto simp: min_def split: if_splits)
    then have "list_all (\<lambda>(c, v). \<not> column_kept keep (col_name c)) (drop ?stop ?fs)"
      unfolding list_all_length by (simp add: case_prod_unfold drop_map)
    then show ?thesis by (simp add: kept_fields_def filter_empty_conv list_all_iff case_prod_unfold)
  qed
  moreover have "kept_fields keep ?fs = kept_fields keep (take ?stop ?fs) @ kept_fields keep (drop ?stop ?fs)"
    by (metis append_take_drop_id kept_fields_simps(3))
  ultimately have vals: "map (snd \<circ> snd) (filter (\<lambda>(j, _). mask_keeps (pp_kept plan) j) (enumerate 0 (map stored_field (take ?stop ks))))
      = map snd (kept_fields keep ?fs)"
    by (metis append_Nil2 map_map take_map)
  have layout: "pp_layout plan = map (col_name \<circ> fst) (kept_fields keep ?fs) @ filter (column_kept keep) (map col_name added)"
    unfolding plan(2) cols kept_names by (simp add: comp_assoc)
  have "p = length buf" if "?stop = length ks"
    using cursor_at_length [OF p(2)] that by simp
  then show ?thesis
    using len plan(1) p(1) vals
    by (simp add: decode_positional_def require_def layout del: min_less_iff_conj) (auto simp: from_layout_def filter_map)
qed

section \<open>Rows and directories\<close>

definition field_of :: "'j row \<Rightarrow> 'j column_def \<Rightarrow> 'j value" where
  "field_of r c = (case row_get r (col_name c) of Some v \<Rightarrow> v | None \<Rightarrow> Null)"

text \<open>Taking the values by position is looking them up by name.\<close>

lemma record_fields_by_name:
  assumes "wf_row r" and "distinct (map col_name (ts_columns schema))"
  shows "record_fields schema r = map (\<lambda>c. (c, field_of r c)) (ts_columns schema)"
proof (cases "matches_layout r (map col_name (ts_columns schema))")
  case True
  let ?cs = "ts_columns schema"
  have names: "as_slice (row_names r) = map col_name ?cs"
    using True assms(1)
    by (auto simp: matches_layout_def wf_row_def list_all_length intro!: nth_equalityI)
  have "row_values r ! i = field_of r (?cs ! i)" if "i < length ?cs" for i
  proof -
    have "row_get r (map col_name ?cs ! i) = Some (row_values r ! i)"
      using row_get_map_of [OF assms(1)] assms that names
      by (auto simp: wf_row_def row_iter_def in_set_zip intro!: exI [of _ i])
    with that show ?thesis by (simp add: field_of_def)
  qed
  with True show ?thesis
    by (auto simp: record_fields_def Let_def enumerate_eq_zip intro!: nth_equalityI)
next
  case False
  then show ?thesis
    by (auto simp: record_fields_def Let_def enumerate_eq_zip field_of_def intro!: nth_equalityI)
qed

lemma rename_all_files:
  assumes "rename_all V staged files = (files', None)"
    and "set staged \<subseteq> (\<lambda>i. (tmp_path (be_name V i), blob_path (be_name V i))) ` {..<n}"
    and "inj_on (be_name V) {..<n}" and "distinct staged"
  shows "(\<forall>(t, f) \<in> set staged. files' f = files t)
    \<and> (\<forall>p. p \<notin> fst ` set staged \<and> p \<notin> snd ` set staged \<longrightarrow> files' p = files p)"
  using assms(1,2,4)
proof (induction staged arbitrary: files)
  case (Cons tf staged)
  obtain i where i: "i < n" "tf = (tmp_path (be_name V i), blob_path (be_name V i))" using Cons.prems(2) by auto
  let ?t = "tmp_path (be_name V i)" and ?f = "blob_path (be_name V i)"
  let ?files = "files(?f := files ?t, ?t := None)"
  have run: "rename_all V staged ?files = (files', None)"
    using Cons.prems(1) i(2) by (auto split: option.splits)
  have IH: "(\<forall>(t, f) \<in> set staged. files' f = ?files t)
      \<and> (\<forall>p. p \<notin> fst ` set staged \<and> p \<notin> snd ` set staged \<longrightarrow> files' p = ?files p)"
    using Cons.IH [OF run] Cons.prems(2,3) by simp
  have other: "t \<noteq> ?t \<and> t \<noteq> ?f \<and> f \<noteq> ?f \<and> f \<noteq> ?t" if staged: "(t, f) \<in> set staged" for t f
  proof -
    obtain j where j: "j < n" "t = tmp_path (be_name V j)" "f = blob_path (be_name V j)"
      using subsetD [OF Cons.prems(2), of "(t, f)"] staged by auto
    have "(t, f) \<noteq> tf" using staged Cons.prems(3) by auto
    then have "be_name V j \<noteq> be_name V i" using j i(2) by auto
    moreover have "tmp_path a \<noteq> blob_path b" for a b :: string
    proof
      assume "tmp_path a = blob_path b"
      then have "last (tmp_path a) = last (blob_path b)" by simp
      then show False by simp
    qed
    ultimately show ?thesis using j by (metis append_same_eq)
  qed
  have "?t \<noteq> ?f" by simp
  have "files' f = files t" if "(t, f) \<in> set (tf # staged)" for t f
  proof (cases "(t, f) = tf")
    case True
    have "?f \<notin> fst ` set staged" "?f \<notin> snd ` set staged" using other by force+
    with IH True i(2) \<open>?t \<noteq> ?f\<close> show ?thesis by auto
  next
    case False
    with that have "(t, f) \<in> set staged" by simp
    with IH other show ?thesis by fastforce
  qed
  moreover have "files' p = files p" if "p \<notin> fst ` set (tf # staged)" "p \<notin> snd ` set (tf # staged)" for p
    using IH that i(2) by auto
  ultimately show ?case by auto
qed simp

lemma sink_ok_staged:
  assumes "sink_ok V s" and "blob_names V (sk_drawn s)"
  shows "set (sk_staged s) \<subseteq> (\<lambda>i. (tmp_path (be_name V i), blob_path (be_name V i))) ` {..<sk_drawn s}"
    and "distinct (sk_staged s)"
proof -
  obtain drawn where drawn: "distinct drawn" "set drawn \<subseteq> {..<sk_drawn s}"
      "sk_staged s = map (\<lambda>i. (tmp_path (be_name V i), blob_path (be_name V i))) drawn"
    using assms(1) by (auto simp: sink_ok_def)
  then show "set (sk_staged s) \<subseteq> (\<lambda>i. (tmp_path (be_name V i), blob_path (be_name V i))) ` {..<sk_drawn s}"
    by auto
  have "inj_on (be_name V) (set drawn)" using assms(2) drawn(2) by (auto simp: blob_names_def intro: inj_on_subset)
  then show "distinct (sk_staged s)" using drawn(1,3) by (auto simp: distinct_map inj_on_def)
qed

lemma publish_files:
  assumes "publish V s = (s', Inr ())" and "sink_ok V s" and "blob_names V (sk_drawn s)"
  shows "\<forall>(t, f) \<in> set (sk_staged s). sk_files s' f = sk_files s t"
    and "p \<notin> fst ` set (sk_staged s) \<Longrightarrow> p \<notin> snd ` set (sk_staged s) \<Longrightarrow> sk_files s' p = sk_files s p"
proof -
  show "\<forall>(t, f) \<in> set (sk_staged s). sk_files s' f = sk_files s t"
    and "p \<notin> fst ` set (sk_staged s) \<Longrightarrow> p \<notin> snd ` set (sk_staged s) \<Longrightarrow> sk_files s' p = sk_files s p"
    using assms(1) rename_all_files [of V "sk_staged s" "sk_files s" "sk_files s'" "sk_drawn s"]
      sink_ok_staged [OF assms(2,3)] assms(3)
    by (auto simp: publish_def blob_names_def split: if_splits prod.splits option.splits)
qed

lemma publish_resolves:
  assumes "publish V s = (s', Inr ())" and "sink_ok V s" and "blob_names V (sk_drawn s)"
  shows "resolves (blobs_dir (sk_files s')) s"
  using publish_files(1) [OF assms] by (fastforce simp: resolves_def blobs_dir_def)

lemma sink_new_ok: "sink_ok V (sink_new threshold drawn files)"
  by (simp add: sink_ok_def sink_new_def)

lemma kept_iter:
  "zip (map (col_name \<circ> fst) (kept_fields keep (map (\<lambda>c. (c, g c)) cs))) (map snd (kept_fields keep (map (\<lambda>c. (c, g c)) cs)))
     = filter (\<lambda>(n, v). column_kept keep n) (map (\<lambda>c. (col_name c, g c)) cs)"
  by (induction cs) auto

text \<open>A row that was encoded and whose chunks were published: the frames that stand in its payload.\<close>

lemma encoded_record_frames:
  assumes enc: "encode_record_ordered_as E V schema r (Some (sink_new threshold drawn files)) named = (Some sink, Inr bs)"
    and pub: "publish V sink = (published, Inr ())" and names: "blob_names V (sk_drawn sink)"
    and row: "wf_row r" "list_all (wf_value E) (row_values r)" "distinct (map col_name (ts_columns schema))"
  shows "\<exists>ks. map stored_field ks = map (\<lambda>c. (c, field_of r c)) (ts_columns schema)
    \<and> list_all (stored_ok E (blobs_dir (sk_files published)) named) ks \<and> length ks < 2 ^ 15
    \<and> bs = to_le_bytes (if named then of_nat (length ks) else of_nat (length ks) OR POSITIONAL_MARK :: u16)
        @ concat (map (stored_frame named) ks)
    \<and> sk_staged sink = staged_for (stored_refs ks)"
proof -
  let ?fs = "map (\<lambda>c. (c, field_of r c)) (ts_columns schema)"
  let ?sink = "Some (sink_new threshold drawn files)"
  obtain body where body: "encode_columns E V named ?fs ?sink = (Some sink, Inr body)"
      "bs = to_le_bytes (if named then of_nat (length (ts_columns schema))
              else of_nat (length (ts_columns schema)) OR POSITIONAL_MARK :: u16) @ body"
      "length (ts_columns schema) < 2 ^ 15"
    using enc record_fields_by_name [OF row(1,3)]
    by (auto simp: encode_record_ordered_as_def Let_def result_dests split: if_splits prod.splits)
  have "wf_value E (field_of r c)" for c
  proof (cases "row_get r (col_name c)")
    case None
    then show ?thesis by (simp add: field_of_def wf_value_def)
  next
    case (Some v)
    then have "v \<in> set (row_values r)"
      using row_get_map_of [OF row(1)] by (auto simp: row_iter_def dest!: map_of_SomeD set_zip_rightD)
    with Some row(2) show ?thesis by (simp add: field_of_def list_all_iff)
  qed
  then have wf: "list_all (\<lambda>(c, v). wf_value E v) ?fs" by (simp add: list_all_iff)
  obtain sink' where "Some sink = Some sink'" "sink_step V (sink_new threshold drawn files) sink'"
    using encode_columns_step [OF body(1)] by blast
  then have ok: "sink_ok V sink" using sink_new_ok by (auto simp: sink_step_def)
  have res: "sink_resolves V (sk_drawn sink) (blobs_dir (sk_files published)) (Some sink)"
    using publish_resolves [OF pub ok names] by (simp add: sink_resolves_def)
  have fine: "sink_fine V ?sink" using sink_new_ok by (simp add: sink_fine_def)
  obtain ks where ks: "map stored_field ks = ?fs"
      "list_all (stored_ok E (blobs_dir (sk_files published)) named) ks"
      "body = concat (map (stored_frame named) ks)" "sk_staged sink = staged_for (stored_refs ks)"
    using encode_columns_stored [OF body(1) wf names fine res] by (auto simp: staged_of_def sink_new_def)
  have "length ks = length (ts_columns schema)" using arg_cong [OF ks(1), of length] by simp
  with body(2,3) ks show ?thesis by (intro exI [of _ ks]) simp
qed

section \<open>Properties\<close>

text \<open>C8. A row reads back from its payload as it was written: in both payload forms, with its large
  blobs moved to chunk files, under every projection, and also when the table has gained columns
  since the row was written; a projection returns exactly the wanted columns of the row, in
  schema order.\<close>

theorem payload_roundtrip:
  assumes "encode_record_ordered_as E V schema r (Some (sink_new threshold drawn files)) named = (Some sink, Inr bs)"
    and "publish V sink = (published, Inr ())" and "blob_names V (sk_drawn sink)"
    and "wf_row r" and "list_all (wf_value E) (row_values r)"
    and "distinct (map col_name (ts_columns schema))" and "list_all (rust_str \<circ> col_name) (ts_columns schema)"
    and "ts_columns schema' = ts_columns schema @ added" and "length bs < usize_limit"
  shows "\<exists>cache' r'. decode_record_keep E cache bs (Some (blobs_dir (sk_files published)))
      (snd (projection_new cache0 (Some schema') keep)) = Inr (cache', r')
    \<and> row_iter r' = filter (\<lambda>(n, v). column_kept keep n) (map (\<lambda>c. (col_name c, field_of r c)) (ts_columns schema))"
proof (cases "keep = Some []")
  case True
  then show ?thesis
    by (auto simp: decode_record_keep_def wants_nothing_def projection_new_def row_new_def row_iter_def
        column_kept_def case_prod_unfold split: prod.splits)
next
  case False
  let ?dir = "blobs_dir (sk_files published)"
  obtain ks where fs: "map stored_field ks = map (\<lambda>c. (c, field_of r c)) (ts_columns schema)"
    and ok: "list_all (stored_ok E ?dir named) ks" and count: "length ks < 2 ^ 15"
    and bs: "bs = to_le_bytes (if named then of_nat (length ks) else of_nat (length ks) OR POSITIONAL_MARK :: u16)
        @ concat (map (stored_frame named) ks)"
    using encoded_record_frames [OF assms(1-6)] by blast
  have at: "cursor_at bs 0 (to_le_bytes (if named then of_nat (length ks) else of_nat (length ks) OR POSITIONAL_MARK :: u16)
      @ concat (map (stored_frame named) ks))"
    using cursor_at_start [OF assms(9)] unfolding bs .
  have header: "read_payload_header bs 0 = Inr ((length ks, \<not> named), 2)"
    using read_payload_header_at [OF count at] by (simp add: numeral_2_eq_2)
  have body: "cursor_at bs 2 (concat (map (stored_frame named) ks))"
    using cursor_at_u16 [OF at] by (simp add: numeral_2_eq_2)
  obtain cache1 plan where plan: "plan_new cache0 schema' keep = (cache1, plan)" by force
  have projection: "snd (projection_new cache0 (Some schema') keep) = \<lparr>rp_keep = keep, rp_plan = Some plan\<rparr>"
    by (simp add: projection_new_def plan)
  have cols: "map fst (map stored_field ks) = ts_columns schema" by (simp add: fs comp_def)
  have result: "zip (map (col_name \<circ> fst) (kept_fields keep (map stored_field ks))) (map snd (kept_fields keep (map stored_field ks)))
      = filter (\<lambda>(n, v). column_kept keep n) (map (\<lambda>c. (col_name c, field_of r c)) (ts_columns schema))"
    unfolding fs by (rule kept_iter)
  have wanted: "\<not> wants_nothing \<lparr>rp_keep = keep, rp_plan = Some plan\<rparr>"
    using False by (auto simp: wants_nothing_def split: option.splits)
  have names: "map (\<lambda>k. col_name (fst k)) ks = map col_name (ts_columns schema)"
    unfolding cols [symmetric] by (auto simp: stored_field_def)
  have strs: "list_all (\<lambda>k. rust_str (col_name (fst k))) ks"
    using assms(7) arg_cong [OF names, of "list_all rust_str"] by (simp add: list.pred_map comp_def)
  show ?thesis
  proof (cases named)
    case named: False
    have "decode_positional E bs 2 (length ks) (Some ?dir) \<lparr>rp_keep = keep, rp_plan = Some plan\<rparr> =
        Inr (from_layout (map (col_name \<circ> fst) (kept_fields keep (map stored_field ks)))
                         (map snd (kept_fields keep (map stored_field ks))))"
      by (rule decode_positional_stored [OF _ _ plan, of _ _ _ _ _ added]) (use ok body named cols assms(8) in auto)
    with header named wanted result show ?thesis
      by (simp add: decode_record_keep_def projection from_layout_def row_iter_def)
  next
    case named: True
    with decode_named_stored [OF _ _ strs, of E ?dir bs 2 cache keep] ok body names assms(6) header wanted result
    show ?thesis by (auto simp: decode_record_keep_def projection from_layout_def row_iter_def)
  qed
qed

definition sample_blobs :: blob_env where
  "sample_blobs = \<lparr>be_name = (\<lambda>_. ''b0''), be_write = (\<lambda>_. Stored), be_rename = (\<lambda>_. None), be_dir_sync = None\<rparr>"

definition sample_blob_table :: "bytes table_schema" where
  "sample_blob_table = \<lparr>ts_name = ''t'', ts_columns = [column_new ''b'' Ty_Blob], ts_indexes = [],
     ts_foreign_keys = [], ts_epoch = 0, ts_identity_keyed = False\<rparr>"

definition sample_blob_row :: "bytes row" where
  "sample_blob_row = from_layout [''b''] [Blob [1, 2]]"

lemma sample_blob_encode:
  obtains sink bs published where
    "encode_record_ordered_as sample_ext sample_blobs sample_blob_table sample_blob_row
       (Some (sink_new 1 0 Map.empty)) False = (Some sink, Inr bs)"
    "publish sample_blobs sink = (published, Inr ())" "sk_drawn sink = 1" "length bs = 19"
    "sk_staged sink = [(''b0.blob.tmp'', ''b0.blob'')]"
proof -
  obtain data crc where w: "write_blob_file_bytes sample_ext [1, 2] = (data, crc)" by force
  let ?sink = "\<lparr>sk_threshold = 1, sk_staged = [(''b0.blob.tmp'', ''b0.blob'')], sk_drawn = 1,
    sk_files = [''b0.blob.tmp'' \<mapsto> data]\<rparr>"
  let ?bs = "to_le_bytes (of_nat 1 OR POSITIONAL_MARK :: u16) @ TAG_BLOBREF # to_le_bytes (of_nat 2 :: u16)
    @ as_bytes ''b0'' @ to_le_bytes (of_nat 2 :: u64) @ to_le_bytes crc"
  have "encode_field sample_ext sample_blobs (Blob [1, 2]) (Some (sink_new 1 0 Map.empty)) = (Some ?sink, Inr (drop 2 ?bs))"
    by (simp add: encode_field_def maybe_externalize_def Let_def w sample_blobs_def sink_new_def encode_blob_ref_def
        fits_u16_def require_def)
  then have "encode_record_ordered_as sample_ext sample_blobs sample_blob_table sample_blob_row
       (Some (sink_new 1 0 Map.empty)) False = (Some ?sink, Inr ?bs)"
    by (simp add: encode_record_ordered_as_def record_fields_def sample_blob_table_def sample_blob_row_def
        from_layout_def matches_layout_def column_new_def encode_name_def)
  moreover obtain published where "publish sample_blobs ?sink = (published, Inr ())"
    by (simp add: publish_def sample_blobs_def)
  ultimately show thesis by (rule that) simp_all
qed

lemma sample_blob_hyps:
  "blob_names sample_blobs 1" "wf_row sample_blob_row" "list_all (wf_value sample_ext) (row_values sample_blob_row)"
  "distinct (map col_name (ts_columns sample_blob_table))"
  "list_all (rust_str \<circ> col_name) (ts_columns sample_blob_table)"
  by (simp_all add: blob_names_def sample_blobs_def wf_row_def sample_blob_row_def from_layout_def wf_value_def
      fits_u32_def sample_blob_table_def column_new_def lessThan_Suc)

theorem payload_roundtrip_witness:
  "\<exists>sink bs published cache' r'.
     encode_record_ordered_as sample_ext sample_blobs sample_blob_table sample_blob_row
       (Some (sink_new 1 0 Map.empty)) False = (Some sink, Inr bs)
     \<and> publish sample_blobs sink = (published, Inr ())
     \<and> decode_record_keep sample_ext [] bs (Some (blobs_dir (sk_files published)))
         (snd (projection_new [] (Some sample_blob_table) None)) = Inr (cache', r')
     \<and> row_iter r' = [(''b'', Blob [1, 2])]"
proof -
  obtain sink bs published where enc:
    "encode_record_ordered_as sample_ext sample_blobs sample_blob_table sample_blob_row
       (Some (sink_new 1 0 Map.empty)) False = (Some sink, Inr bs)"
    "publish sample_blobs sink = (published, Inr ())" "sk_drawn sink = 1" "length bs = 19"
    by (rule sample_blob_encode)
  have field: "filter (\<lambda>(n, v). column_kept None n)
      (map (\<lambda>c. (col_name c, field_of sample_blob_row c)) (ts_columns sample_blob_table)) = [(''b'', Blob [1, 2])]"
    by (simp add: column_kept_def sample_blob_table_def column_new_def field_of_def row_get_def position_def
        sample_blob_row_def from_layout_def)
  have "\<exists>cache' r'. decode_record_keep sample_ext [] bs (Some (blobs_dir (sk_files published)))
         (snd (projection_new [] (Some sample_blob_table) None)) = Inr (cache', r')
     \<and> row_iter r' = filter (\<lambda>(n, v). column_kept None n)
         (map (\<lambda>c. (col_name c, field_of sample_blob_row c)) (ts_columns sample_blob_table))"
    by (rule payload_roundtrip [OF enc(1,2) _ sample_blob_hyps(2-5), of _ "[]"])
      (use sample_blob_hyps(1) enc(3,4) in \<open>simp_all add: usize_limit_def\<close>)
  with enc(1,2) field show ?thesis by auto
qed

text \<open>The scan that the blob collector and the checker run over a payload finds every chunk the
  row refers to and nothing else: its references are, in order, exactly the chunk files that
  were staged when the row was encoded.\<close>

theorem payload_refs_exact:
  assumes "encode_record_ordered_as E V schema r (Some (sink_new threshold drawn files)) named = (Some sink, Inr bs)"
    and "publish V sink = (published, Inr ())" and "blob_names V (sk_drawn sink)"
    and "wf_row r" and "list_all (wf_value E) (row_values r)"
    and "distinct (map col_name (ts_columns schema))" and "length bs < usize_limit"
  shows "\<exists>refs. scan_payload_blob_refs bs = Inr refs
    \<and> map (\<lambda>b. br_name b @ ''.blob'') refs = map snd (sk_staged sink)
    \<and> pending_names sink = map br_name refs"
proof -
  obtain ks where ok: "list_all (stored_ok E (blobs_dir (sk_files published)) named) ks" and count: "length ks < 2 ^ 15"
    and bs: "bs = to_le_bytes (if named then of_nat (length ks) else of_nat (length ks) OR POSITIONAL_MARK :: u16)
        @ concat (map (stored_frame named) ks)"
    and staged: "sk_staged sink = staged_for (stored_refs ks)"
    using encoded_record_frames [OF assms(1-6)] by blast
  have at: "cursor_at bs 0 (to_le_bytes (if named then of_nat (length ks) else of_nat (length ks) OR POSITIONAL_MARK :: u16)
      @ concat (map (stored_frame named) ks))"
    using cursor_at_start [OF assms(7)] unfolding bs .
  have "scan_fields (\<not> named) (length ks) bs 2 = Inr (stored_refs ks)"
    using scan_fields_stored [OF ok, of bs 2 "[]"] cursor_at_u16 [OF at] by (simp add: numeral_2_eq_2)
  moreover have "read_payload_header bs 0 = Inr ((length ks, \<not> named), 2)"
    using read_payload_header_at [OF count at] by (simp add: numeral_2_eq_2)
  ultimately have "scan_payload_blob_refs bs = Inr (stored_refs ks)" by (simp add: scan_payload_blob_refs_def)
  moreover have "pending_names sink = map br_name (stored_refs ks)"
    unfolding pending_names_def staged staged_for_def by (induction "stored_refs ks") (auto simp: List.map_filter_def)
  ultimately show ?thesis by (simp add: staged staged_for_def comp_def)
qed

theorem payload_refs_exact_witness:
  "\<exists>sink bs refs. encode_record_ordered_as sample_ext sample_blobs sample_blob_table sample_blob_row
       (Some (sink_new 1 0 Map.empty)) False = (Some sink, Inr bs)
     \<and> scan_payload_blob_refs bs = Inr refs \<and> map (\<lambda>b. br_name b @ ''.blob'') refs = [''b0.blob'']"
proof -
  obtain sink bs published where enc:
    "encode_record_ordered_as sample_ext sample_blobs sample_blob_table sample_blob_row
       (Some (sink_new 1 0 Map.empty)) False = (Some sink, Inr bs)"
    "publish sample_blobs sink = (published, Inr ())" "sk_drawn sink = 1" "length bs = 19"
    "sk_staged sink = [(''b0.blob.tmp'', ''b0.blob'')]"
    by (rule sample_blob_encode)
  then show ?thesis
    using payload_refs_exact [OF enc(1,2) _ sample_blob_hyps(2-4)] sample_blob_hyps(1)
    by (auto simp: usize_limit_def)
qed

text \<open>A row that is encoded and then abandoned leaves no chunk in the blob directory: whether
  encoding succeeded or failed, no file under a final chunk name was created, changed or
  removed, and dropping the sink removes every temporary it had staged.\<close>

theorem abandoned_row_leaves_no_chunk:
  assumes "encode_record_ordered_as E V schema r (Some (sink_new threshold drawn files)) named = (Some sink, res)"
  shows "drop_sink sink (name @ ''.blob'') = files (name @ ''.blob'')
    \<and> list_all (\<lambda>(t, f). drop_sink sink t = None) (sk_staged sink)"
proof -
  have step: "sink_step V (sink_new threshold drawn files) sink"
    using assms encode_columns_step [of E V named "record_fields schema r" "sink_new threshold drawn files"] sink_step_refl
    by (fastforce simp: encode_record_ordered_as_def Let_def split: if_splits prod.splits)
  have dropped: "foldl (\<lambda>files (t, _). files(t := None)) fs staged p = (if p \<in> fst ` set staged then None else fs p)"
    for fs :: "string \<rightharpoonup> bytes" and staged :: "(string \<times> string) list" and p
    by (induction staged arbitrary: fs) auto
  have tmp: "name @ ''.blob'' \<noteq> tmp_path n" for n
  proof
    assume "name @ ''.blob'' = tmp_path n"
    then have "last (name @ ''.blob'') = last (tmp_path n)" by simp
    then show False by simp
  qed
  have "sk_files sink (name @ ''.blob'') = files (name @ ''.blob'')"
    using step tmp by (auto simp: sink_step_def sink_new_def)
  moreover have "name @ ''.blob'' \<notin> fst ` set (sk_staged sink)"
  proof -
    have "sink_ok V sink" using step sink_new_ok by (auto simp: sink_step_def)
    then show ?thesis using tmp by (auto simp: sink_ok_def)
  qed
  ultimately show ?thesis by (auto simp: drop_sink_def dropped list_all_iff) (metis fst_conv image_eqI)
qed

theorem abandoned_row_leaves_no_chunk_witness:
  "\<exists>sink bs. encode_record_ordered_as sample_ext sample_blobs sample_blob_table sample_blob_row
       (Some (sink_new 1 0 Map.empty)) False = (Some sink, Inr bs)
     \<and> drop_sink sink ''b0.blob'' = None \<and> drop_sink sink ''b0.blob.tmp'' = None"
proof -
  obtain sink bs where enc:
    "encode_record_ordered_as sample_ext sample_blobs sample_blob_table sample_blob_row
       (Some (sink_new 1 0 Map.empty)) False = (Some sink, Inr bs)"
    "sk_staged sink = [(''b0.blob.tmp'', ''b0.blob'')]"
    by (rule sample_blob_encode)
  with abandoned_row_leaves_no_chunk [OF enc(1), of "''b0''"] show ?thesis by auto
qed

end
