(* ===== verification/Index_Key.thy ===== *)
theory Index_Key
  imports Value_Codec
begin

text \<open>
  The order-preserving key encoding of indexed values (\<open>encode_index_value\<close> in \<open>value.rs\<close>).
  The main facts: comparing the keys of two values byte by byte is comparing the values, also
  when more key bytes follow, so keys of several columns concatenate into a key that compares
  column by column.
\<close>

section \<open>The encoder\<close>

definition order_preserving_int :: "i64 \<Rightarrow> bytes" where
  "order_preserving_int n = to_be_bytes (n XOR push_bit 63 1)"

definition order_preserving_float :: "f64 \<Rightarrow> bytes" where
  "order_preserving_float x =
     (let ordered = (if x AND push_bit 63 1 \<noteq> 0 then NOT x else x OR push_bit 63 1)
      in to_be_bytes ordered)"

fun push_ordered_bytes :: "bytes \<Rightarrow> bytes" where
  "push_ordered_bytes [] = [0, 0]"
| "push_ordered_bytes (b # bs) =
     (if b = 0 then b # 0xFF # push_ordered_bytes bs else b # push_ordered_bytes bs)"

definition encode_index_value :: "'j ext \<Rightarrow> 'j value \<Rightarrow> bytes" where
  "encode_index_value E v =
     (case v of
        Int64 n \<Rightarrow> TAG_INT64 # order_preserving_int n
      | Timestamp n \<Rightarrow> TAG_TIMESTAMP # order_preserving_int n
      | Time n \<Rightarrow> TAG_TIME # order_preserving_int n
      | Date n \<Rightarrow> TAG_DATE # order_preserving_int (scast n)
      | Float64 x \<Rightarrow>
          (let x = (if f64_eq x 0 then 0 else x) in TAG_FLOAT64 # order_preserving_float x)
      | Text s \<Rightarrow> TAG_TEXT # push_ordered_bytes (as_bytes s)
      | Blob b \<Rightarrow> TAG_BLOB # push_ordered_bytes b
      | other \<Rightarrow> encode_value E other)"

section \<open>The order of values\<close>

text \<open>
  The order an index is meant to have. Values of one type compare as that type does (floats by
  the IEEE order, text and blobs by bytes); values of different types compare by tag, which
  puts NULL first. JSON, vectors and NaN are never ordered by the engine.
\<close>

definition orderable :: "'j value \<Rightarrow> bool" where
  "orderable v = (case v of Json _ \<Rightarrow> False | Vector _ \<Rightarrow> False | Float64 x \<Rightarrow> \<not> f64_is_nan x | _ \<Rightarrow> True)"

definition value_tag :: "'j value \<Rightarrow> u8" where
  "value_tag v =
     (case v of
        Null \<Rightarrow> TAG_NULL | Bool _ \<Rightarrow> TAG_BOOL | Int64 _ \<Rightarrow> TAG_INT64 | Float64 _ \<Rightarrow> TAG_FLOAT64
      | Text _ \<Rightarrow> TAG_TEXT | Blob _ \<Rightarrow> TAG_BLOB | Timestamp _ \<Rightarrow> TAG_TIMESTAMP | Json _ \<Rightarrow> TAG_JSON
      | Vector _ \<Rightarrow> TAG_VECTOR | Date _ \<Rightarrow> TAG_DATE | Time _ \<Rightarrow> TAG_TIME)"

definition index_lt :: "'j value \<Rightarrow> 'j value \<Rightarrow> bool" where
  "index_lt v w \<longleftrightarrow>
     value_tag v < value_tag w \<or>
     (case v of
        Bool a \<Rightarrow> (case w of Bool b \<Rightarrow> \<not> a \<and> b | _ \<Rightarrow> False)
      | Int64 a \<Rightarrow> (case w of Int64 b \<Rightarrow> sint a < sint b | _ \<Rightarrow> False)
      | Float64 a \<Rightarrow> (case w of Float64 b \<Rightarrow> f64_lt a b | _ \<Rightarrow> False)
      | Text a \<Rightarrow> (case w of Text b \<Rightarrow> a < b | _ \<Rightarrow> False)
      | Blob a \<Rightarrow> (case w of Blob b \<Rightarrow> a < b | _ \<Rightarrow> False)
      | Timestamp a \<Rightarrow> (case w of Timestamp b \<Rightarrow> sint a < sint b | _ \<Rightarrow> False)
      | Date a \<Rightarrow> (case w of Date b \<Rightarrow> sint a < sint b | _ \<Rightarrow> False)
      | Time a \<Rightarrow> (case w of Time b \<Rightarrow> sint a < sint b | _ \<Rightarrow> False)
      | _ \<Rightarrow> False)"

text \<open>The order of tuples of values, column by column.\<close>

fun tuple_lt :: "'j ext \<Rightarrow> 'j value list \<Rightarrow> 'j value list \<Rightarrow> bool" where
  "tuple_lt E (v # vs) (w # ws) = (index_lt v w \<or> (value_eq E v w \<and> tuple_lt E vs ws))"
| "tuple_lt E _ _ = False"

section \<open>Keys of the fixed-width types\<close>

lemma length_order_preserving [simp]:
  "length (order_preserving_int n) = 8"
  "length (order_preserving_float x) = 8"
  by (simp_all add: order_preserving_int_def order_preserving_float_def Let_def)

lemma int_key_nat: "int (unat (n XOR push_bit 63 1)) = sint n + 2 ^ 63" for n :: i64
  by (simp only: flip_63 sint_64_nat)

lemma order_preserving_int_less:
  "order_preserving_int m < order_preserving_int n \<longleftrightarrow> sint m < sint n"
proof -
  have "unat (m XOR push_bit 63 1) < unat (n XOR push_bit 63 1) \<longleftrightarrow>
      int (unat (m XOR push_bit 63 1)) < int (unat (n XOR push_bit 63 1))"
    by (simp only: of_nat_less_iff)
  then show ?thesis
    unfolding order_preserving_int_def to_be_bytes_less int_key_nat by simp
qed

lemma order_preserving_int_inject:
  "order_preserving_int m = order_preserving_int n \<longleftrightarrow> m = n"
proof
  assume "order_preserving_int m = order_preserving_int n"
  then have "m XOR push_bit 63 1 = n XOR push_bit 63 1"
    unfolding order_preserving_int_def to_be_bytes_inject .
  then have "sint m + 2 ^ 63 = sint n + 2 ^ 63"
    by (metis int_key_nat)
  then show "m = n" by (intro signed_word_eqI) simp
qed simp

definition float_key :: "f64 \<Rightarrow> nat" where
  "float_key x = (if f64_neg x then 2 ^ 64 - 1 - unat x else unat x + 2 ^ 63)"

lemma order_preserving_float_key:
  "order_preserving_float x = to_be_bytes (of_nat (float_key x) :: u64)"
proof -
  have "(if x AND push_bit 63 1 \<noteq> 0 then NOT x else x OR push_bit 63 1) = of_nat (float_key x)"
  proof (rule unsigned_word_eqI [where 'a = nat])
    show "unat (if x AND push_bit 63 1 \<noteq> 0 then NOT x else x OR push_bit 63 1) =
        unat (of_nat (float_key x) :: u64)"
      unfolding and_63 if_distrib [of unat] not_64 or_63
      using unat_bound [of x] by (auto simp: float_key_def f64_neg_def unat_of_nat)
  qed
  then show ?thesis by (simp only: order_preserving_float_def Let_def)
qed

lemma float_key_bound: "float_key x < 2 ^ 64"
  using unat_bound [of x] by (auto simp: float_key_def f64_neg_def)

lemma unat_float_key: "unat (of_nat (float_key x) :: u64) = float_key x"
  using float_key_bound [of x] by (simp add: unat_of_nat)

lemma unat_f64: "unat x = f64_mag x + (if f64_neg x then 2 ^ 63 else 0)"
proof -
  have "unat x div 2 ^ 63 < 2"
    using unat_bound [of x] by (simp add: div_less_iff_less_mult)
  moreover have "f64_neg x \<longleftrightarrow> 1 \<le> unat x div 2 ^ 63"
    by (auto simp: f64_neg_def div_greater_zero_iff less_eq_Suc_le [symmetric])
  ultimately have "unat x div 2 ^ 63 = (if f64_neg x then 1 else 0)" by auto
  then show ?thesis
    using div_mult_mod_eq [of "unat x" "2 ^ 63"] by (cases "f64_neg x") (simp_all add: f64_mag_def)
qed

definition canonical_zero :: "f64 \<Rightarrow> f64" where
  "canonical_zero x = (if f64_eq x 0 then 0 else x)"

lemma f64_mag_bound: "f64_mag x < 2 ^ 63"
  by (simp add: f64_mag_def)

lemma f64_zero: "f64_val 0 = 0" "f64_mag 0 = 0" "\<not> f64_neg 0" "\<not> f64_is_nan 0"
  by (simp_all add: f64_val_def f64_neg_def f64_mag_def f64_is_nan_def)

lemma canonical_zero_props:
  assumes "\<not> f64_is_nan x"
  shows "f64_val (canonical_zero x) = f64_val x"
    and "f64_neg (canonical_zero x) \<longleftrightarrow> f64_val x < 0"
  using assms by (auto simp: canonical_zero_def f64_eq_def f64_zero f64_val_def split: if_splits)

lemma float_key_val:
  assumes "\<not> f64_is_nan x"
  shows "int (float_key (canonical_zero x)) = 2 ^ 63 + f64_val x - of_bool (f64_val x < 0)"
proof -
  let ?c = "canonical_zero x"
  have "int (float_key ?c) = 2 ^ 63 + f64_val ?c - of_bool (f64_neg ?c)"
    using f64_mag_bound [of ?c] by (auto simp: float_key_def unat_f64 [of ?c] f64_val_def of_nat_diff)
  with canonical_zero_props [OF assms] show ?thesis by simp
qed

lemma float_key_less:
  assumes "\<not> f64_is_nan x" "\<not> f64_is_nan y"
  shows "float_key (canonical_zero x) < float_key (canonical_zero y) \<longleftrightarrow> f64_lt x y"
    and "float_key (canonical_zero x) = float_key (canonical_zero y) \<longleftrightarrow> f64_eq x y"
proof -
  have "float_key (canonical_zero x) < float_key (canonical_zero y) \<longleftrightarrow>
      int (float_key (canonical_zero x)) < int (float_key (canonical_zero y))" by simp
  then show "float_key (canonical_zero x) < float_key (canonical_zero y) \<longleftrightarrow> f64_lt x y"
    unfolding float_key_val [OF assms(1)] float_key_val [OF assms(2)]
    using assms by (auto simp: f64_lt_def of_bool_def)
  have "float_key (canonical_zero x) = float_key (canonical_zero y) \<longleftrightarrow>
      int (float_key (canonical_zero x)) = int (float_key (canonical_zero y))" by simp
  then show "float_key (canonical_zero x) = float_key (canonical_zero y) \<longleftrightarrow> f64_eq x y"
    unfolding float_key_val [OF assms(1)] float_key_val [OF assms(2)]
    using assms by (auto simp: f64_eq_def of_bool_def)
qed

lemma order_preserving_float_less:
  assumes "\<not> f64_is_nan x" "\<not> f64_is_nan y"
  shows "order_preserving_float (canonical_zero x) < order_preserving_float (canonical_zero y) \<longleftrightarrow> f64_lt x y"
    and "order_preserving_float (canonical_zero x) = order_preserving_float (canonical_zero y) \<longleftrightarrow> f64_eq x y"
proof -
  show "order_preserving_float (canonical_zero x) < order_preserving_float (canonical_zero y) \<longleftrightarrow> f64_lt x y"
    unfolding order_preserving_float_key to_be_bytes_less unat_float_key
    by (rule float_key_less(1) [OF assms])
  have "(of_nat (float_key (canonical_zero x)) :: u64) = of_nat (float_key (canonical_zero y)) \<longleftrightarrow>
      float_key (canonical_zero x) = float_key (canonical_zero y)"
    by (metis unat_float_key)
  then show "order_preserving_float (canonical_zero x) = order_preserving_float (canonical_zero y) \<longleftrightarrow> f64_eq x y"
    unfolding order_preserving_float_key to_be_bytes_inject
    using float_key_less(2) [OF assms] by simp
qed

section \<open>Keys of text and blobs\<close>

text \<open>The escaped form compares as the bytes do, whatever follows it.\<close>

lemma push_ordered_bytes_less:
  "push_ordered_bytes xs @ us < push_ordered_bytes ys @ vs \<longleftrightarrow> xs < ys \<or> (xs = ys \<and> us < vs)"
proof (induction xs arbitrary: ys)
  case Nil
  then show ?case by (cases ys) (auto simp: word_neq_0_conv)
next
  case (Cons x xs)
  then show ?case by (cases ys) (auto simp: word_neq_0_conv)
qed

section \<open>Keys of values\<close>

lemma encode_index_float:
  "encode_index_value E (Float64 x) = TAG_FLOAT64 # order_preserving_float (canonical_zero x)"
  by (simp add: encode_index_value_def canonical_zero_def)

lemma encode_index_tag: "orderable v \<Longrightarrow> \<exists>rest. encode_index_value E v = value_tag v # rest"
  by (cases v) (simp_all add: encode_index_value_def value_tag_def orderable_def Let_def)

lemma sint_scast_date: "sint (scast (d::i32) :: i64) = sint d"
  by (simp add: sint_up_scast is_up)

lemma encode_index_same_tag:
  assumes "orderable v" "orderable w" "value_tag v = value_tag w"
  shows "encode_index_value E v @ us < encode_index_value E w @ vs \<longleftrightarrow>
    index_lt v w \<or> (value_eq E v w \<and> us < vs)"
proof (cases v)
  case (Float64 x)
  with assms obtain y where w: "w = Float64 y" by (cases w) (auto simp: value_tag_def)
  with Float64 assms have "\<not> f64_is_nan x" "\<not> f64_is_nan y"
    by (simp_all add: orderable_def)
  with Float64 w show ?thesis
    by (simp add: encode_index_float append_less_same_length order_preserving_float_less
        index_lt_def value_tag_def value_eq_def)
next
  case (Date d)
  with assms obtain d' where w: "w = Date d'" by (cases w) (auto simp: value_tag_def)
  have "scast d = (scast d' :: i64) \<longleftrightarrow> d = d'"
    by (metis sint_scast_date signed_word_eqI)
  with Date w show ?thesis
    by (simp add: encode_index_value_def append_less_same_length order_preserving_int_less
        order_preserving_int_inject sint_scast_date index_lt_def value_tag_def value_eq_def)
qed (use assms in \<open>cases w; auto simp: encode_index_value_def append_less_same_length
      order_preserving_int_less order_preserving_int_inject push_ordered_bytes_less as_bytes_less
      index_lt_def value_tag_def value_eq_def orderable_def\<close>)+

lemma encode_index_less:
  assumes "orderable v" "orderable w"
  shows "encode_index_value E v @ us < encode_index_value E w @ vs \<longleftrightarrow>
    index_lt v w \<or> (value_eq E v w \<and> us < vs)"
proof (cases "value_tag v = value_tag w")
  case True
  with assms show ?thesis by (rule encode_index_same_tag)
next
  case False
  obtain p q where "encode_index_value E v = value_tag v # p" "encode_index_value E w = value_tag w # q"
    using encode_index_tag assms by metis
  moreover have "\<not> value_eq E v w" "index_lt v w \<longleftrightarrow> value_tag v < value_tag w"
    using False by (cases v; cases w; simp add: value_eq_def value_tag_def index_lt_def)+
  ultimately show ?thesis using False by simp
qed

text \<open>Keys are equal exactly for equal values, and a key is never a proper prefix of
  another, so what follows a key can be told from the key.\<close>

lemma index_lt_not_eq:
  "orderable v \<Longrightarrow> orderable w \<Longrightarrow> index_lt v w \<or> index_lt w v \<Longrightarrow> \<not> value_eq E v w"
  by (cases v; cases w; auto simp: index_lt_def value_eq_def value_tag_def f64_lt_def f64_eq_def)

lemma encode_index_eq_iff:
  assumes "orderable v" "orderable w"
  shows "encode_index_value E v = encode_index_value E w \<longleftrightarrow> value_eq E v w"
proof
  assume eq: "encode_index_value E v = encode_index_value E w"
  have "encode_index_value E v @ [] < encode_index_value E w @ [0]"
    using eq append_less_same_length [of "encode_index_value E w" "encode_index_value E w" "[]" "[0]"]
    by simp
  moreover have "\<not> index_lt v w"
    using eq encode_index_less [OF assms, of E "[]" "[]"] by auto
  ultimately show "value_eq E v w"
    using encode_index_less [OF assms, of E "[]" "[0]"] by auto
next
  assume "value_eq E v w"
  then have "\<not> index_lt v w" "\<not> index_lt w v"
    using index_lt_not_eq assms by blast+
  with encode_index_less [OF assms, of E "[]" "[]"] encode_index_less [OF assms(2,1), of E "[]" "[]"]
  show "encode_index_value E v = encode_index_value E w"
    by auto
qed

lemma encode_index_prefix_free:
  assumes "orderable v" "orderable w"
  shows "encode_index_value E v @ us = encode_index_value E w @ vs \<longleftrightarrow> value_eq E v w \<and> us = vs"
proof
  assume eq: "encode_index_value E v @ us = encode_index_value E w @ vs"
  have "\<not> index_lt v w" "\<not> index_lt w v"
    using eq encode_index_less [OF assms, of E us vs] encode_index_less [OF assms(2,1), of E vs us]
    by auto
  with encode_index_less [OF assms, of E "[]" "[]"] encode_index_less [OF assms(2,1), of E "[]" "[]"]
  have same: "encode_index_value E v = encode_index_value E w"
    by auto
  with eq show "value_eq E v w \<and> us = vs"
    using encode_index_eq_iff [OF assms] by simp
next
  assume "value_eq E v w \<and> us = vs"
  then show "encode_index_value E v @ us = encode_index_value E w @ vs"
    using encode_index_eq_iff [OF assms] by simp
qed

section \<open>Keys of tuples\<close>

definition tuple_key :: "'j ext \<Rightarrow> 'j value list \<Rightarrow> bytes" where
  "tuple_key E vs = concat (map (encode_index_value E) vs)"

lemma tuple_key_simps [simp]:
  "tuple_key E [] = []"
  "tuple_key E (v # vs) = encode_index_value E v @ tuple_key E vs"
  by (simp_all add: tuple_key_def)

lemma tuple_key_less:
  assumes "length vs = length ws" "list_all orderable vs" "list_all orderable ws"
  shows "tuple_key E vs < tuple_key E ws \<longleftrightarrow> tuple_lt E vs ws"
  using assms
  by (induction vs ws rule: list_induct2) (simp_all add: encode_index_less)

lemma tuple_key_eq_iff:
  assumes "length vs = length ws" "list_all orderable vs" "list_all orderable ws"
  shows "tuple_key E vs = tuple_key E ws \<longleftrightarrow> list_all2 (value_eq E) vs ws"
  using assms
  by (induction vs ws rule: list_induct2) (simp_all add: encode_index_prefix_free)

section \<open>Properties\<close>

text \<open>C15. Index keys compare like the values. For rows of indexable values (numbers that are not
  NaN, texts, blobs, timestamps, dates, times) comparing the concatenated keys byte by byte is
  comparing the rows column by column, and two rows share a key exactly when their values are
  equal (so a unique index sees \<open>-0.0\<close> and \<open>0.0\<close> as one value).\<close>

theorem index_key_order:
  assumes "length vs = length ws" and "list_all orderable vs" and "list_all orderable ws"
  shows "(tuple_key E vs < tuple_key E ws \<longleftrightarrow> tuple_lt E vs ws) \<and>
    (tuple_key E vs = tuple_key E ws \<longleftrightarrow> list_all2 (value_eq E) vs ws)"
  using tuple_key_less [OF assms] tuple_key_eq_iff [OF assms] by blast

theorem index_key_order_witness:
  "tuple_key sample_ext [Text ''a'', Int64 (- 1)] < tuple_key sample_ext [Text ''a'', Int64 1]"
  using index_key_order [of "[Text ''a'', Int64 (- 1)]" "[Text ''a'', Int64 1]" sample_ext]
  by (simp add: orderable_def index_lt_def value_eq_def value_tag_def)

text \<open>No key is a proper prefix of another: bytes appended behind a key (the record id in a
  secondary index, the next column of a composite one) can never make the keys of two different
  values collide or change their order.\<close>

theorem index_key_prefix_free:
  assumes "orderable v" and "orderable w"
  shows "(encode_index_value E v @ us = encode_index_value E w @ vs \<longleftrightarrow> value_eq E v w \<and> us = vs) \<and>
    (encode_index_value E v @ us < encode_index_value E w @ vs \<longleftrightarrow>
       index_lt v w \<or> (value_eq E v w \<and> us < vs))"
  using encode_index_prefix_free [OF assms] encode_index_less [OF assms] by blast

theorem index_key_prefix_free_witness:
  "encode_index_value sample_ext (Text ''a'') @ [255] < encode_index_value sample_ext (Text (''a'' @ [CHR 0x00])) @ []"
  using index_key_prefix_free [of "Text ''a''" "Text (''a'' @ [CHR 0x00])" sample_ext "[255]" "[]"]
  by (simp add: orderable_def index_lt_def value_eq_def value_tag_def)

end
