(* ===== verification/Record_Check.thy ===== *)
theory Record_Check
  imports Schema Index_Key
begin

text \<open>
  What the engine checks of a row before it is stored (\<open>db.rs\<close>): the check of one value
  against its column, the normalization of a row against its table, and the keys that the
  secondary indexes and the uniqueness check build from a normalized row.
\<close>

section \<open>Checking a value\<close>

abbreviation "DAY_MICROS \<equiv> (86400000000::int)"

definition check_vector :: "'j column_def \<Rightarrow> f32 list \<Rightarrow> unit result" where
  "check_vector col v =
     rbind (require (\<not> list_ex (\<lambda>component. \<not> f32_is_finite component) v)
             (SchemaViolation (''column '' @ quoted (col_name col)
               @ '' requires finite float32 vector components''))) (\<lambda>_.
     case opt_filter (\<lambda>dim. length v \<noteq> dim) (col_dim col) of
       Some dim \<Rightarrow> Inl (SchemaViolation (''column '' @ quoted (col_name col) @ '' expects vector<float32, ''
                     @ show_nat dim @ ''>, got dimension '' @ show_nat (length v)))
     | None \<Rightarrow> Inr ())"

definition check_text :: "'j column_def \<Rightarrow> string \<Rightarrow> unit result" where
  "check_text col text =
     rbind (case col_max_length col of
              Some max_length \<Rightarrow>
                let actual = length (chars text) in
                require (\<not> actual > max_length)
                  (SchemaViolation (''column '' @ quoted (col_name col) @ '' allows at most ''
                    @ show_nat max_length @ '' characters, got '' @ show_nat actual))
            | None \<Rightarrow> Inr ()) (\<lambda>_.
     case col_enum_values col of
       Some vals \<Rightarrow>
         require (text \<in> set vals)
           (SchemaViolation (''column '' @ quoted (col_name col) @ '' does not allow enum value '' @ quoted text))
     | None \<Rightarrow> Inr ())"

definition check_value :: "'j sys \<Rightarrow> 'j column_def \<Rightarrow> 'j value \<Rightarrow> unit result" where
  "check_value S col v =
     (if is_null v then
        require (col_nullable col)
          (SchemaViolation (''column '' @ quoted (col_name col) @ '' is not nullable''))
      else
        rbind (require (value_matches v (col_ty col))
                (SchemaViolation (''column '' @ quoted (col_name col) @ '' expects ''
                  @ display_column_type (col_ty col) @ '', got '' @ debug_value S v))) (\<lambda>_.
        case v of
          Float64 x \<Rightarrow>
            require (\<not> f64_is_nan x)
              (SchemaViolation (''column '' @ quoted (col_name col)
                @ '' does not accept NaN: it is not equal to itself and cannot be indexed or compared''))
        | Vector xs \<Rightarrow> check_vector col xs
        | Time micros \<Rightarrow>
            require (0 \<le> sint micros \<and> sint micros < DAY_MICROS)
              (SchemaViolation (''column '' @ quoted (col_name col) @ '' requires a time within one day''))
        | Text text \<Rightarrow> check_text col text
        | _ \<Rightarrow> Inr ()))"

definition canonical_value :: "'j value \<Rightarrow> 'j value" where
  "canonical_value v =
     (case v of
        Float64 x \<Rightarrow> Float64 (if f64_eq x 0 then 0 else x)
      | other \<Rightarrow> other)"

section \<open>Normalizing a row\<close>

definition check_known :: "'j table_schema \<Rightarrow> string list \<Rightarrow> unit result" where
  "check_known schema ns =
     (case find (\<lambda>name. column schema name = None) ns of
        Some name \<Rightarrow> Inl (SchemaViolation (''unknown column '' @ quoted name))
      | None \<Rightarrow> Inr ())"

definition take_column :: "'j sys \<Rightarrow> 'j column_def \<Rightarrow> 'j value option \<Rightarrow> 'j value result" where
  "take_column S col given =
     (case given of
        Some v \<Rightarrow>
          rbind (check_value S col v) (\<lambda>_.
          Inr (case v of Float64 x \<Rightarrow> if f64_eq x 0 then Float64 0 else v | _ \<Rightarrow> v))
      | None \<Rightarrow>
          rbind (default_value S col) (\<lambda>v.
          rbind (require (\<not> (is_null v \<and> \<not> col_nullable col))
                  (SchemaViolation (''column '' @ quoted (col_name col) @ '' is not nullable''))) (\<lambda>_.
          Inr v)))"

fun normalize_columns :: "'j sys \<Rightarrow> 'j column_def list \<Rightarrow> 'j row \<Rightarrow> 'j value list result" where
  "normalize_columns S [] record = Inr []"
| "normalize_columns S (col # cols) record =
     (case row_remove (col_name col) record of
        (record, given) \<Rightarrow>
          rbind (take_column S col given) (\<lambda>v.
          rbind (normalize_columns S cols record) (\<lambda>vs.
          Inr (v # vs))))"

definition normalize_record :: "'j sys \<Rightarrow> 'j table_schema \<Rightarrow> 'j row \<Rightarrow> 'j row result" where
  "normalize_record S schema record =
     (let record = (if has_implicit_id schema then fst (row_remove ID_COLUMN record) else record) in
      rbind (check_known schema (as_slice (row_names record))) (\<lambda>_.
      rbind (normalize_columns S (ts_columns schema) record) (\<lambda>vs.
      Inr (from_layout (map col_name (ts_columns schema)) vs))))"

section \<open>Index keys of a row\<close>

definition secondary_tuple_key :: "'j ext \<Rightarrow> 'j row \<Rightarrow> string list \<Rightarrow> bytes" where
  "secondary_tuple_key E record columns =
     concat (map (\<lambda>column. encode_index_value E (case row_get record column of Some v \<Rightarrow> v | None \<Rightarrow> Null)) columns)"

definition secondary_key_has_null :: "'j row \<Rightarrow> string list \<Rightarrow> bool" where
  "secondary_key_has_null record columns =
     list_ex (\<lambda>column. case row_get record column of None \<Rightarrow> True | Some v \<Rightarrow> is_null v) columns"

section \<open>Lemmas\<close>

lemma normalize_columns_ok:
  assumes "normalize_columns S cols r = Inr vs" and "wf_row r" and "distinct (map col_name cols)"
  shows "list_all2 (\<lambda>c v. take_column S c (row_get r (col_name c)) = Inr v) cols vs"
  using assms
proof (induction cols arbitrary: r vs)
  case (Cons c cols)
  obtain r' given where rm: "row_remove (col_name c) r = (r', given)" by force
  obtain v ws where vs: "vs = v # ws" "take_column S c given = Inr v" "normalize_columns S cols r' = Inr ws"
    using Cons.prems(1) by (auto simp: rm result_dests)
  have given: "given = row_get r (col_name c)"
    using rm by (auto simp: row_remove_def row_get_def split: option.splits)
  have r': "wf_row r'" using wf_row_remove [OF Cons.prems(2), of "col_name c"] rm by simp
  have "row_get r' n = row_get r n" if "n \<noteq> col_name c" for n
    using row_get_remove [OF Cons.prems(2), of "col_name c" n] rm that by simp
  then have "take_column S d (row_get r' (col_name d)) = take_column S d (row_get r (col_name d))"
    if "d \<in> set cols" for d
    using that Cons.prems(3) by (metis distinct.simps(2) image_eqI list.set_map list.simps(9))
  with Cons.IH [OF vs(3) r'] Cons.prems(3) vs given show ?case
    by (auto simp: list_all2_conv_all_nth nth_Cons split: nat.split)
qed simp

lemma take_column_canonical:
  "take_column S c (Some v) = Inr w \<longleftrightarrow> check_value S c v = Inr () \<and> w = canonical_value v"
  by (cases v) (auto simp: take_column_def canonical_value_def result_dests)

lemma take_column_default:
  "take_column S c None = Inr w \<longleftrightarrow> default_value S c = Inr w \<and> (is_null w \<longrightarrow> col_nullable c)"
  by (auto simp: take_column_def result_dests)

text \<open>The value a caller gives for a column; the implicit id is not a column.\<close>

definition given_value :: "'j table_schema \<Rightarrow> 'j row \<Rightarrow> string \<Rightarrow> 'j value option" where
  "given_value schema r name = (if has_implicit_id schema \<and> name = ID_COLUMN then None else row_get r name)"

lemma normalize_record_ok:
  assumes "normalize_record S schema r = Inr r'" and "wf_row r" and "distinct (map col_name (ts_columns schema))"
  shows "as_slice (row_names r') = map col_name (ts_columns schema)" and "wf_row r'"
    and "\<And>c. c \<in> set (ts_columns schema) \<Longrightarrow>
      \<exists>v. row_get r' (col_name c) = Some v \<and> take_column S c (given_value schema r (col_name c)) = Inr v"
    and "\<And>n. given_value schema r n \<noteq> None \<Longrightarrow> n \<in> col_name ` set (ts_columns schema)"
proof -
  let ?r = "if has_implicit_id schema then fst (row_remove ID_COLUMN r) else r"
  have wf: "wf_row ?r" using assms(2) wf_row_remove by auto
  have get: "row_get ?r = given_value schema r"
    using row_get_remove [OF assms(2)] by (auto simp: given_value_def)
  obtain vs where vs: "check_known schema (as_slice (row_names ?r)) = Inr ()"
      "normalize_columns S (ts_columns schema) ?r = Inr vs"
      "r' = from_layout (map col_name (ts_columns schema)) vs"
    using assms(1) by (auto simp: normalize_record_def Let_def result_dests)
  note all2 = normalize_columns_ok [OF vs(2) wf assms(3), unfolded get]
  have len: "length vs = length (ts_columns schema)" using all2 list_all2_lengthD by fastforce
  show names: "as_slice (row_names r') = map col_name (ts_columns schema)" by (simp add: vs(3) from_layout_def)
  show r': "wf_row r'" using assms(3) len by (simp add: wf_row_def vs(3) from_layout_def)
  show "\<exists>v. row_get r' (col_name c) = Some v \<and> take_column S c (given_value schema r (col_name c)) = Inr v"
    if col: "c \<in> set (ts_columns schema)" for c
  proof -
    obtain i where i: "i < length (ts_columns schema)" "c = ts_columns schema ! i"
      using col by (auto simp: in_set_conv_nth)
    have "map_of (zip (map col_name (ts_columns schema)) vs) (map col_name (ts_columns schema) ! i) = Some (vs ! i)"
      using assms(3) i len by (intro map_of_zip_nth) simp_all
    then have "row_get r' (col_name c) = Some (vs ! i)"
      using row_get_map_of [OF r'] i by (simp add: row_iter_def names vs(3) from_layout_def)
    with all2 i show ?thesis by (auto simp: list_all2_conv_all_nth)
  qed
  show "n \<in> col_name ` set (ts_columns schema)" if "given_value schema r n \<noteq> None" for n
  proof -
    have "n \<in> set (as_slice (row_names ?r))"
      using that position_None [of ?r n] unfolding get [symmetric] by (auto simp: row_get_def)
    then have "column schema n \<noteq> None"
      using vs(1) by (auto simp: check_known_def find_None_iff split: option.splits)
    then show ?thesis by (auto simp: column_def find_Some_iff)
  qed
qed

text \<open>A value that a column of an ordered type accepts has an ordered index key.\<close>

lemma checked_orderable:
  assumes "check_value S c v = Inr ()" and "col_ty c \<notin> {Ty_Json, Ty_Vector}"
  shows "orderable (canonical_value v)"
  using assms
  by (cases v) (auto simp: check_value_def is_null_def result_dests value_matches_def orderable_def
      canonical_value_def f64_zero split: if_splits)

section \<open>Sample rows\<close>

definition sample_float_table :: "bytes option \<Rightarrow> bytes table_schema" where
  "sample_float_table dflt =
     \<lparr>ts_name = ''t'', ts_columns = [(column_new ''x'' Ty_Float64)\<lparr>col_default := dflt\<rparr>],
      ts_indexes = [], ts_foreign_keys = [], ts_epoch = 0, ts_identity_keyed = False\<rparr>"

definition sample_row :: "f64 \<Rightarrow> bytes row" where
  "sample_row x = from_layout [''x''] [Float64 x]"

text \<open>A quiet NaN and the negative zero, and a system whose JSON defaults are read as the NaN.\<close>

abbreviation "f64_nan \<equiv> (0x7FF8000000000000::f64)"
abbreviation "f64_neg_zero \<equiv> (0x8000000000000000::f64)"

definition nan_sys :: "bytes sys" where
  "nan_sys = \<lparr>json_to_value_for_type = (\<lambda>j ty. Inr (Float64 f64_nan)), clock_micros = Some 0, debug_value = (\<lambda>v. [])\<rparr>"

lemmas sample_rows = sample_float_table_def sample_row_def from_layout_def column_new_def
  row_remove_def position_def remove_nth_def row_get_def

lemma sample_normalize:
  "normalize_record sample_sys (sample_float_table None) (sample_row f64_neg_zero) = Inr (sample_row 0)"
  by (simp add: normalize_record_def check_known_def take_column_def check_value_def value_matches_def is_null_def
      has_implicit_id_def column_def sample_rows require_def f64_is_nan_def f64_mag_def f64_eq_def f64_val_def f64_neg_def)

lemma sample_row_wf: "wf_row (sample_row x)" "distinct (map col_name (ts_columns (sample_float_table d)))"
  by (simp_all add: wf_row_def sample_rows)

section \<open>Properties\<close>

text \<open>C14. A row that is accepted for storage has exactly the table's columns, in schema order: every
  value the caller gave passed its column's check and is stored with the negative zero
  replaced, every omitted column holds its default or NULL where the column allows it, and no
  value was given for a column the table does not have.\<close>

theorem normalized_row_conforms:
  assumes "normalize_record S schema r = Inr r'" and "wf_row r" and "distinct (map col_name (ts_columns schema))"
  shows "map fst (row_iter r') = map col_name (ts_columns schema)
    \<and> (\<forall>c \<in> set (ts_columns schema).
        (case given_value schema r (col_name c) of
           Some v \<Rightarrow> check_value S c v = Inr () \<and> row_get r' (col_name c) = Some (canonical_value v)
         | None \<Rightarrow> \<exists>d. default_value S c = Inr d \<and> (is_null d \<longrightarrow> col_nullable c) \<and> row_get r' (col_name c) = Some d))
    \<and> (\<forall>n. given_value schema r n \<noteq> None \<longrightarrow> n \<in> col_name ` set (ts_columns schema))"
proof -
  note norm = normalize_record_ok [OF assms]
  have "map fst (row_iter r') = map col_name (ts_columns schema)"
    using norm(1,2) by (simp add: row_iter_def wf_row_def)
  moreover have "case given_value schema r (col_name c) of
           Some v \<Rightarrow> check_value S c v = Inr () \<and> row_get r' (col_name c) = Some (canonical_value v)
         | None \<Rightarrow> \<exists>d. default_value S c = Inr d \<and> (is_null d \<longrightarrow> col_nullable c) \<and> row_get r' (col_name c) = Some d"
    if "c \<in> set (ts_columns schema)" for c
    using norm(3) [OF that] by (auto simp: take_column_canonical take_column_default split: option.split)
  ultimately show ?thesis using norm(4) by blast
qed

theorem normalized_row_conforms_witness:
  "normalize_record sample_sys (sample_float_table None) (sample_row f64_neg_zero) = Inr (sample_row 0)
   \<and> map fst (row_iter (sample_row 0)) = [''x'']"
  using normalized_row_conforms [OF sample_normalize sample_row_wf] sample_normalize
  by (simp add: sample_float_table_def column_new_def)




end
