(* ===== verification/Paged_Format.thy ===== *)
theory Paged_Format
  imports Cursor
begin

text \<open>
  Immutable sorted runs of index entries (\<open>paged.rs\<close>): a header, data pages with the first and
  the last key of each in front, a directory of page offsets, and a checksum over everything a
  lookup navigates by. This theory has the readers, the view of a page through the directory,
  and \<open>PagedIndex::open\<close> with its checks for all three formats.

  A mapped file is its bytes. \<open>crc32fast::hash\<close> is the parameter \<open>crc\<close>; an incremental
  \<open>crc32fast::Hasher\<close> is the bytes it was fed, its result \<open>crc\<close> of them. \<open>None\<close> is a Rust panic
  (an \<open>expect\<close> or a slice out of range); \<open>open_no_panic\<close> shows that no file makes \<open>open\<close> panic,
  and that no later view of a page does.
\<close>

section \<open>Readers\<close>

definition MAGIC :: bytes where "MAGIC = as_bytes ''ESQLPAGE''"

definition DIRECTORY_MAGIC_V1 :: bytes where "DIRECTORY_MAGIC_V1 = as_bytes ''DIR1''"

definition DIRECTORY_MAGIC_V2 :: bytes where "DIRECTORY_MAGIC_V2 = as_bytes ''DIR2''"

definition DIRECTORY_MAGIC_V3 :: bytes where "DIRECTORY_MAGIC_V3 = as_bytes ''DIR3''"

abbreviation "FORMAT_V1 \<equiv> (1::u32)"
abbreviation "FORMAT_V2 \<equiv> (2::u32)"
abbreviation "FORMAT \<equiv> (3::u32)"
abbreviation "HEADER_LEN \<equiv> (48::nat)"
abbreviation "DEFAULT_PAGE_SIZE \<equiv> (1024::nat)"

definition pg_read_u32 :: "bytes \<Rightarrow> nat \<Rightarrow> u32 result" where
  "pg_read_u32 buf off =
     rbind (ok_or (Corrupt ''paged index: unexpected end'') (get_range buf off (saturating_add off 4)))
       (\<lambda>bs. Inr (from_le_bytes bs))"

definition pg_read_u64 :: "bytes \<Rightarrow> nat \<Rightarrow> u64 result" where
  "pg_read_u64 buf off =
     rbind (ok_or (Corrupt ''paged index: unexpected end'') (get_range buf off (saturating_add off 8)))
       (\<lambda>bs. Inr (from_le_bytes bs))"

definition pg_read_u32_at :: "bytes \<Rightarrow> nat \<Rightarrow> (u32 \<times> nat) result" where
  "pg_read_u32_at buf pos = rbind (pg_read_u32 buf pos) (\<lambda>w. Inr (w, pos + 4))"

definition pg_read_u64_at :: "bytes \<Rightarrow> nat \<Rightarrow> (u64 \<times> nat) result" where
  "pg_read_u64_at buf pos = rbind (pg_read_u64 buf pos) (\<lambda>w. Inr (w, pos + 8))"

definition pg_take :: "bytes \<Rightarrow> nat \<Rightarrow> nat \<Rightarrow> (bytes \<times> nat) result" where
  "pg_take buf pos len =
     rbind (ok_or (Corrupt ''paged index: unexpected end'')
              (opt_filter (\<lambda>e. e \<le> length buf) (checked_add pos len))) (\<lambda>end_pos.
     Inr (take (end_pos - pos) (drop pos buf), end_pos))"

text \<open>One entry of a page: both lengths, the key, the stored bytes.\<close>

definition page_entry_at :: "bytes \<Rightarrow> nat \<Rightarrow> ((bytes \<times> bytes) \<times> nat) result" where
  "page_entry_at payload pos =
     rbind (pg_read_u32_at payload pos) (\<lambda>(key_len, pos).
     rbind (pg_read_u32_at payload pos) (\<lambda>(value_len, pos).
     rbind (pg_take payload pos (unat key_len)) (\<lambda>(key, pos).
     rbind (pg_take payload pos (unat value_len)) (\<lambda>(stored, pos).
     Inr ((key, stored), pos)))))"

lemma page_entry_at_advances: "page_entry_at buf pos = Inr (e, pos') \<Longrightarrow> pos + 8 \<le> pos' \<and> pos' \<le> length buf"
  by (auto simp: page_entry_at_def pg_read_u32_at_def pg_take_def result_dests dest!: checked_add_Some)

section \<open>The view of a page\<close>

text \<open>Keys are slices of the mapping: \<open>pv_first_start\<close> and \<open>pv_last_start\<close> are where they start,
  which \<open>open\<close> recovers from their pointers.\<close>

record page_view =
  pv_directory_entry :: nat
  pv_position :: "nat option"
  pv_offset :: nat
  pv_payload_offset :: nat
  pv_payload_len :: nat
  pv_first_start :: nat
  pv_first_key :: bytes
  pv_last_start :: nat
  pv_last_key :: bytes

definition ok_some :: "'e + 'a \<Rightarrow> 'a option" where
  "ok_some r = (case r of Inr x \<Rightarrow> Some x | Inl _ \<Rightarrow> None)"

definition page_lens :: "bytes \<Rightarrow> nat \<Rightarrow> nat \<Rightarrow> nat \<Rightarrow> (nat \<times> nat \<times> nat) option" where
  "page_lens mmap a b c =
     (case (ok_some (pg_read_u32 mmap a), ok_some (pg_read_u32 mmap b), ok_some (pg_read_u32 mmap c)) of
        (Some x, Some y, Some z) \<Rightarrow> Some (unat x, unat y, unat z)
      | _ \<Rightarrow> None)"

definition page_view :: "bytes \<Rightarrow> u32 \<Rightarrow> nat \<Rightarrow> page_view option" where
  "page_view mmap format d =
     Option.bind (ok_some (pg_read_u64 mmap d)) (\<lambda>raw.
     let offset = unat raw in
     Option.bind
       (if format = FORMAT_V1 then page_lens mmap (d + 8) (d + 12) (d + 16)
        else page_lens mmap offset (offset + 8) (offset + 12)) (\<lambda>(payload_len, first_len, last_len).
     let first_start = (if format = FORMAT_V1 then d + 20 else offset + 16);
         first_end = first_start + first_len;
         last_end = first_end + last_len;
         payload_offset = (if format = FORMAT_V1 then offset + 8 else last_end)
     in Option.bind (get_range mmap first_start first_end) (\<lambda>first_key.
        Option.bind (get_range mmap first_end last_end) (\<lambda>last_key.
        Some \<lparr>pv_directory_entry = d, pv_position = None, pv_offset = offset, pv_payload_offset = payload_offset,
          pv_payload_len = payload_len, pv_first_start = first_start, pv_first_key = first_key,
          pv_last_start = first_end, pv_last_key = last_key\<rparr>))))"

section \<open>The index\<close>

text \<open>\<open>verified\<close> has one bit per page, set once the page's checksum was found right. The page
  fences, which the code builds on first use and keeps, are a function of the rest of the
  record and are computed where they are used.\<close>

record paged_index =
  px_mmap :: bytes
  px_pages :: "nat list"
  px_last_key_spans :: "(u64 \<times> u32) list"
  px_first_key_span :: "(u64 \<times> u32) option"
  px_format :: u32
  px_dump_version :: u64
  px_entry_count :: u64
  px_verified :: "u64 list"

definition px_page :: "paged_index \<Rightarrow> nat \<Rightarrow> page_view" where
  "px_page ix d = the (page_view (px_mmap ix) (px_format ix) d)"

definition page_at :: "paged_index \<Rightarrow> nat \<Rightarrow> page_view" where
  "page_at ix p = (px_page ix (px_pages ix ! p))\<lparr>pv_position := Some p\<rparr>"

section \<open>Opening\<close>

text \<open>One record of the directory in format 1, and in the later formats; the position behind it.\<close>

definition open_entry_v1 :: "bytes \<Rightarrow> nat \<Rightarrow> nat \<Rightarrow> nat result" where
  "open_entry_v1 mmap directory_offset pos =
     rbind (pg_read_u64_at mmap pos) (\<lambda>(raw, pos).
     let offset = unat raw in
     rbind (pg_read_u32_at mmap pos) (\<lambda>(payload_len, pos).
     rbind (pg_read_u32_at mmap pos) (\<lambda>(first_len, pos).
     rbind (pg_read_u32_at mmap pos) (\<lambda>(last_len, pos).
     rbind (pg_take mmap pos (unat first_len)) (\<lambda>(first_key, pos).
     rbind (pg_take mmap pos (unat last_len)) (\<lambda>(last_key, pos).
     if first_key > last_key \<or> offset < HEADER_LEN
        \<or> (case checked_add offset (8 + unat payload_len) of None \<Rightarrow> True | Some e \<Rightarrow> e > directory_offset)
     then Inl (Corrupt ''paged index: invalid page directory'')
     else Inr pos))))))"

definition open_entry_v2 :: "bytes \<Rightarrow> nat \<Rightarrow> nat \<Rightarrow> nat result" where
  "open_entry_v2 mmap directory_offset pos =
     rbind (pg_read_u64_at mmap pos) (\<lambda>(raw, pos).
     let offset = unat raw in
     if offset < HEADER_LEN \<or> (case checked_add offset 16 of None \<Rightarrow> True | Some e \<Rightarrow> e > directory_offset)
     then Inl (Corrupt ''paged index: invalid page directory'')
     else
       rbind (pg_read_u32 mmap offset) (\<lambda>payload_len.
       rbind (pg_read_u32 mmap (offset + 8)) (\<lambda>first_len.
       rbind (pg_read_u32 mmap (offset + 12)) (\<lambda>last_len.
       rbind (ok_or (Corrupt ''paged index: page overflow'') (checked_add offset 16)) (\<lambda>first_start.
       rbind (ok_or (Corrupt ''paged index: page overflow'') (checked_add first_start (unat first_len))) (\<lambda>first_end.
       rbind (ok_or (Corrupt ''paged index: page overflow'') (checked_add first_end (unat last_len))) (\<lambda>last_end.
       rbind (ok_or (Corrupt ''paged index: invalid page directory'')
                (opt_filter (\<lambda>e. e \<le> directory_offset) (checked_add last_end (unat payload_len)))) (\<lambda>_.
       rbind (ok_or (Corrupt ''paged index: truncated first key'') (get_range mmap first_start first_end)) (\<lambda>first_key.
       rbind (ok_or (Corrupt ''paged index: truncated last key'') (get_range mmap first_end last_end)) (\<lambda>last_key.
       if first_key > last_key then Inl (Corrupt ''paged index: invalid page directory'')
       else Inr pos))))))))))"

text \<open>The loop over the directory: the positions of its records and the position behind the last.\<close>

fun open_directory :: "(nat \<Rightarrow> nat result) \<Rightarrow> nat \<Rightarrow> nat \<Rightarrow> (nat list \<times> nat) result" where
  "open_directory entry 0 pos = Inr ([], pos)"
| "open_directory entry (Suc n) pos =
     rbind (entry pos) (\<lambda>pos'.
     rbind (open_directory entry n pos') (\<lambda>(pages, end_pos).
     Inr (pos # pages, end_pos)))"

record navigation =
  nav_metadata :: bytes
  nav_expected :: nat
  nav_last_spans :: "(u64 \<times> u32) list"
  nav_first_span :: "(u64 \<times> u32) option"

text \<open>The loop that checks that pages follow each other and collects what the checksum covers.\<close>

fun open_navigation :: "bytes \<Rightarrow> u32 \<Rightarrow> nat \<Rightarrow> nat list \<Rightarrow> navigation \<Rightarrow> navigation result option" where
  "open_navigation mmap format directory_offset [] nav = Some (Inr nav)"
| "open_navigation mmap format directory_offset (d # ds) nav =
     (case page_view mmap format d of
        None \<Rightarrow> None
      | Some page \<Rightarrow>
          if pv_offset page \<noteq> nav_expected nav then Some (Inl (Corrupt ''paged index: noncontiguous pages''))
          else
            (case opt_filter (\<lambda>e. e \<le> directory_offset) (checked_add (pv_payload_offset page) (pv_payload_len page)) of
               None \<Rightarrow> Some (Inl (Corrupt ''paged index: invalid page extent''))
             | Some next_offset \<Rightarrow>
                 (case get_range mmap (pv_offset page) (pv_payload_offset page) of
                    None \<Rightarrow> None
                  | Some metadata \<Rightarrow>
                      open_navigation mmap format directory_offset ds
                        \<lparr>nav_metadata = nav_metadata nav @ metadata, nav_expected = next_offset,
                         nav_last_spans = nav_last_spans nav
                           @ [(of_nat (pv_last_start page), of_nat (length (pv_last_key page)))],
                         nav_first_span = (case nav_first_span nav of
                            Some s \<Rightarrow> Some s
                          | None \<Rightarrow> Some (of_nat (pv_first_start page), of_nat (length (pv_first_key page))))\<rparr>)))"

fun directory_sorted :: "bytes \<Rightarrow> u32 \<Rightarrow> nat list \<Rightarrow> bool" where
  "directory_sorted mmap format (a # b # ds) \<longleftrightarrow>
     pv_first_key (the (page_view mmap format a)) \<le> pv_first_key (the (page_view mmap format b))
     \<and> directory_sorted mmap format (b # ds)"
| "directory_sorted mmap format ds \<longleftrightarrow> True"

text \<open>The legacy check of one page's entries against its navigation keys: the first and the last
  key, the last entry seen and the running count.\<close>

record legacy_scan =
  ls_first :: "bytes option"
  ls_last :: "bytes option"
  ls_previous :: "(bytes \<times> bytes) option"
  ls_count :: nat

function legacy_page :: "bytes \<Rightarrow> nat \<Rightarrow> legacy_scan \<Rightarrow> legacy_scan result" where
  "legacy_page payload pos st =
     (if pos < length payload then
        (case page_entry_at payload pos of
           Inl e \<Rightarrow> Inl e
         | Inr ((key, stored), pos') \<Rightarrow>
             if (case ls_previous st of Some (pk, pv) \<Rightarrow> pk > key \<or> (pk = key \<and> pv > stored) | None \<Rightarrow> False)
             then Inl (Corrupt ''paged index: unsorted legacy entries'')
             else if ls_count st + 1 \<ge> 2 ^ 64 then Inl (Corrupt ''paged index: entry count overflow'')
             else legacy_page payload pos'
               \<lparr>ls_first = (case ls_first st of None \<Rightarrow> Some key | Some k \<Rightarrow> Some k), ls_last = Some key,
                ls_previous = Some (key, stored), ls_count = ls_count st + 1\<rparr>)
      else Inr st)"
  by pat_completeness auto
termination
  by (relation "measure (\<lambda>(payload, pos, st). length payload - pos)") (auto dest: page_entry_at_advances)

declare legacy_page.simps [simp del]

fun legacy_pages :: "(bytes \<Rightarrow> u32) \<Rightarrow> paged_index \<Rightarrow> nat list \<Rightarrow> (bytes \<times> bytes) option \<Rightarrow> nat \<Rightarrow> nat result option" where
  "legacy_pages crc ix [] previous n = Some (Inr n)"
| "legacy_pages crc ix (d # ds) previous n =
     (case page_view (px_mmap ix) (px_format ix) d of
        None \<Rightarrow> None
      | Some page \<Rightarrow>
          (case get_range (px_mmap ix) (pv_payload_offset page) (pv_payload_offset page + pv_payload_len page) of
             None \<Rightarrow> None
           | Some payload \<Rightarrow>
               (case pg_read_u32 (px_mmap ix) (pv_offset page + 4) of
                  Inl e \<Rightarrow> Some (Inl e)
                | Inr stored \<Rightarrow>
                    if crc payload \<noteq> stored then Some (Inl (Corrupt ''paged index: legacy page crc mismatch''))
                    else
                      (case legacy_page payload 0 \<lparr>ls_first = None, ls_last = None, ls_previous = previous, ls_count = n\<rparr> of
                         Inl e \<Rightarrow> Some (Inl e)
                       | Inr st \<Rightarrow>
                           if ls_first st \<noteq> Some (pv_first_key page) \<or> ls_last st \<noteq> Some (pv_last_key page)
                           then Some (Inl (Corrupt ''paged index: legacy navigation disagrees with entries''))
                           else legacy_pages crc ix ds (ls_previous st) (ls_count st)))))"

definition validate_legacy_navigation :: "(bytes \<Rightarrow> u32) \<Rightarrow> paged_index \<Rightarrow> unit result option" where
  "validate_legacy_navigation crc ix =
     map_option (\<lambda>r. rbind r (\<lambda>n.
         if n \<noteq> unat (px_entry_count ix) then Inl (Corrupt ''paged index: incorrect legacy entry count'') else Inr ()))
       (legacy_pages crc ix (px_pages ix) None 0)"

text \<open>The header: format, dump version, entry count, directory offset and count.\<close>

definition open_header :: "(bytes \<Rightarrow> u32) \<Rightarrow> bytes \<Rightarrow> (u32 \<times> u64 \<times> u64 \<times> nat \<times> nat) result" where
  "open_header crc mmap =
     (if length mmap < HEADER_LEN \<or> take 8 mmap \<noteq> MAGIC then Inl (Corrupt ''paged index: bad header'')
      else
        rbind (pg_read_u32 mmap 8) (\<lambda>format.
        if format \<noteq> FORMAT_V1 \<and> format \<noteq> FORMAT_V2 \<and> format \<noteq> FORMAT
        then Inl (Corrupt ''paged index: unsupported format'')
        else
          rbind (pg_read_u32 mmap 44) (\<lambda>header_crc.
          if crc (take 44 mmap) \<noteq> header_crc then Inl (Corrupt ''paged index: header crc mismatch'')
          else
            rbind (pg_read_u32 mmap 12) (\<lambda>page_size.
            if \<not> (256 \<le> unat page_size \<and> unat page_size \<le> 1024 * 1024)
            then Inl (Corrupt ''paged index: invalid page size'')
            else
              rbind (pg_read_u64 mmap 16) (\<lambda>dump_version.
              rbind (pg_read_u64 mmap 24) (\<lambda>entry_count.
              rbind (pg_read_u64 mmap 32) (\<lambda>directory_offset.
              rbind (pg_read_u32 mmap 40) (\<lambda>directory_count.
              Inr (format, dump_version, entry_count, unat directory_offset, unat directory_count)))))))))"

definition directory_magic :: "u32 \<Rightarrow> bytes" where
  "directory_magic format =
     (if format = FORMAT_V1 then DIRECTORY_MAGIC_V1
      else if format = FORMAT_V2 then DIRECTORY_MAGIC_V2 else DIRECTORY_MAGIC_V3)"

text \<open>The directory: the positions of its records and where it ends.\<close>

definition open_pages :: "bytes \<Rightarrow> u32 \<Rightarrow> nat \<Rightarrow> nat \<Rightarrow> (nat list \<times> nat) result" where
  "open_pages mmap format directory_offset directory_count =
     (if get_range mmap directory_offset (saturating_add directory_offset 4) \<noteq> Some (directory_magic format)
      then Inl (Corrupt ''paged index: bad directory'')
      else
        let pos = directory_offset + 4;
            footer_len = (if format = FORMAT then 4 else 0)
        in if length mmap < footer_len then Inl (Corrupt ''paged index: missing metadata checksum'')
           else
             let directory_end = length mmap - footer_len in
             if pos > directory_end \<or> directory_count > (directory_end - pos) div 8
             then Inl (Corrupt ''paged index: invalid directory count'')
             else
               rbind (open_directory
                        (if format = FORMAT_V1 then open_entry_v1 mmap directory_offset
                         else open_entry_v2 mmap directory_offset) directory_count pos) (\<lambda>(pages, pos).
               if pos \<noteq> directory_end then Inl (Corrupt ''paged index: trailing directory bytes'')
               else Inr (pages, directory_end)))"

definition check_navigation :: "(bytes \<Rightarrow> u32) \<Rightarrow> bytes \<Rightarrow> u32 \<Rightarrow> nat \<Rightarrow> nat \<Rightarrow> navigation \<Rightarrow> unit result" where
  "check_navigation crc mmap format directory_offset directory_end nav =
     (if nav_expected nav \<noteq> directory_offset then Inl (Corrupt ''paged index: missing page data'')
      else if format = FORMAT then
        rbind (pg_read_u32 mmap directory_end) (\<lambda>stored.
        if crc (nav_metadata nav @ take (directory_end - directory_offset) (drop directory_offset mmap)) \<noteq> stored
        then Inl (Corrupt ''paged index: navigation metadata crc mismatch'')
        else Inr ())
      else Inr ())"

definition paged_open :: "(bytes \<Rightarrow> u32) \<Rightarrow> bytes \<Rightarrow> paged_index result option" where
  "paged_open crc mmap =
     (case rbind (open_header crc mmap) (\<lambda>(format, dump_version, entry_count, directory_offset, directory_count).
           rbind (open_pages mmap format directory_offset directory_count) (\<lambda>(pages, directory_end).
           Inr (format, dump_version, entry_count, directory_offset, pages, directory_end))) of
        Inl e \<Rightarrow> Some (Inl e)
      | Inr (format, dump_version, entry_count, directory_offset, pages, directory_end) \<Rightarrow>
          (case open_navigation mmap format directory_offset pages
                  \<lparr>nav_metadata = [], nav_expected = HEADER_LEN, nav_last_spans = [], nav_first_span = None\<rparr> of
             None \<Rightarrow> None
           | Some (Inl e) \<Rightarrow> Some (Inl e)
           | Some (Inr nav) \<Rightarrow>
               (case check_navigation crc mmap format directory_offset directory_end nav of
                  Inl e \<Rightarrow> Some (Inl e)
                | Inr _ \<Rightarrow>
                    if \<not> directory_sorted mmap format pages then Some (Inl (Corrupt ''paged index: unsorted directory''))
                    else
                      let ix = \<lparr>px_mmap = mmap, px_pages = pages, px_last_key_spans = nav_last_spans nav,
                                px_first_key_span = nav_first_span nav, px_format = format,
                                px_dump_version = dump_version, px_entry_count = entry_count,
                                px_verified = replicate ((length pages + 63) div 64) 0\<rparr>
                      in if format \<noteq> FORMAT then
                           map_option (\<lambda>r. rbind r (\<lambda>_. Inr ix)) (validate_legacy_navigation crc ix)
                         else Some (Inr ix))))"


section \<open>No file makes the reader panic\<close>

text \<open>The length of a mapping is bounded by \<open>isize::MAX\<close>.\<close>

abbreviation mappable :: "bytes \<Rightarrow> bool" where
  "mappable bs \<equiv> length bs < 2 ^ 63"

lemma pg_read_u32_ok: "mappable buf \<Longrightarrow> (\<exists>w. pg_read_u32 buf off = Inr w) \<longleftrightarrow> off + 4 \<le> length buf"
  by (auto simp: pg_read_u32_def get_range_def saturating_add_def usize_limit_def result_dests min_def split: if_splits)

lemma pg_read_u64_ok: "mappable buf \<Longrightarrow> (\<exists>w. pg_read_u64 buf off = Inr w) \<longleftrightarrow> off + 8 \<le> length buf"
  by (auto simp: pg_read_u64_def get_range_def saturating_add_def usize_limit_def result_dests min_def split: if_splits)

lemma pg_read_u32_bounds: "mappable buf \<Longrightarrow> pg_read_u32 buf off = Inr w \<Longrightarrow> off + 4 \<le> length buf"
  using pg_read_u32_ok by blast

lemma pg_read_u64_bounds: "mappable buf \<Longrightarrow> pg_read_u64 buf off = Inr w \<Longrightarrow> off + 8 \<le> length buf"
  using pg_read_u64_ok by blast

text \<open>What the checks of \<open>open\<close> establish for a record of the directory.\<close>

definition page_inside :: "bytes \<Rightarrow> nat \<Rightarrow> page_view \<Rightarrow> bool" where
  "page_inside mmap directory_offset page \<longleftrightarrow>
     HEADER_LEN \<le> pv_offset page \<and> pv_offset page + 8 \<le> pv_payload_offset page
     \<and> pv_payload_offset page + pv_payload_len page \<le> directory_offset
     \<and> pv_first_start page + length (pv_first_key page) \<le> length mmap
     \<and> pv_last_start page + length (pv_last_key page) \<le> length mmap
     \<and> pv_first_key page = take (length (pv_first_key page)) (drop (pv_first_start page) mmap)
     \<and> pv_last_key page = take (length (pv_last_key page)) (drop (pv_last_start page) mmap)
     \<and> length (pv_first_key page) < 2 ^ 32 \<and> length (pv_last_key page) < 2 ^ 32
     \<and> pv_first_key page \<le> pv_last_key page"

lemma open_entry_v1_view:
  assumes map: "mappable mmap" and ok: "open_entry_v1 mmap dir pos = Inr pos'"
  shows "\<exists>page. page_view mmap FORMAT_V1 pos = Some page \<and> page_inside mmap dir page"
proof -
  from ok obtain raw plen flen llen where
    reads: "pg_read_u64 mmap pos = Inr raw" "pg_read_u32 mmap (pos + 8) = Inr plen"
      "pg_read_u32 mmap (pos + 12) = Inr flen" "pg_read_u32 mmap (pos + 16) = Inr llen"
    and ends: "pos + 20 + unat flen + unat llen \<le> length mmap"
    and ord: "take (unat flen) (drop (pos + 20) mmap) \<le> take (unat llen) (drop (pos + 20 + unat flen) mmap)"
    and off: "HEADER_LEN \<le> unat raw" "unat raw + (8 + unat plen) \<le> dir"
    by (auto simp: open_entry_v1_def pg_read_u64_at_def pg_read_u32_at_def pg_take_def Let_def result_dests
        add.assoc not_less numeral_eq_Suc split: if_splits option.splits dest!: checked_add_Some)
  have "unat flen < 2 ^ 32" "unat llen < 2 ^ 32" using unat_bound [of flen] unat_bound [of llen] by simp_all
  with ends ord off reads show ?thesis
    by (simp add: page_view_def page_lens_def ok_some_def get_range_def page_inside_def Let_def min_absorb2 add.commute)
qed

lemma open_entry_v2_view:
  assumes map: "mappable mmap" and ok: "open_entry_v2 mmap dir pos = Inr pos'" and fmt: "format \<noteq> FORMAT_V1"
  shows "\<exists>page. page_view mmap format pos = Some page \<and> page_inside mmap dir page"
proof -
  from ok obtain raw plen flen llen where
    reads: "pg_read_u64 mmap pos = Inr raw" "pg_read_u32 mmap (unat raw) = Inr plen"
      "pg_read_u32 mmap (unat raw + 8) = Inr flen" "pg_read_u32 mmap (unat raw + 12) = Inr llen"
    and ends: "unat raw + 16 + unat flen + unat llen \<le> length mmap"
    and ord: "take (unat flen) (drop (unat raw + 16) mmap) \<le> take (unat llen) (drop (unat raw + 16 + unat flen) mmap)"
    and off: "HEADER_LEN \<le> unat raw" "unat raw + 16 + unat flen + unat llen + unat plen \<le> dir"
    by (auto simp: open_entry_v2_def pg_read_u64_at_def pg_read_u32_at_def get_range_def Let_def result_dests
        not_less split: if_splits option.splits dest!: checked_add_Some)
  have "unat flen < 2 ^ 32" "unat llen < 2 ^ 32" using unat_bound [of flen] unat_bound [of llen] by simp_all
  with ends ord off reads fmt show ?thesis
    by (simp add: page_view_def page_lens_def ok_some_def get_range_def page_inside_def Let_def min_absorb2)
qed

lemma open_directory_all:
  assumes "\<And>pos pos'. entry pos = Inr pos' \<Longrightarrow> P pos"
  shows "open_directory entry n pos = Inr (pages, end_pos) \<Longrightarrow> list_all P pages \<and> length pages = n"
  by (induction n arbitrary: pos pages) (auto simp: result_dests intro: assms)

text \<open>Where the navigation stands behind some pages.\<close>

definition last_span :: "page_view \<Rightarrow> u64 \<times> u32" where
  "last_span page = (of_nat (pv_last_start page), of_nat (length (pv_last_key page)))"

definition first_span :: "page_view \<Rightarrow> u64 \<times> u32" where
  "first_span page = (of_nat (pv_first_start page), of_nat (length (pv_first_key page)))"

lemma open_navigation_total:
  assumes map: "mappable mmap" and dir: "dir \<le> length mmap"
    and views: "list_all (\<lambda>d. \<exists>page. page_view mmap format d = Some page \<and> page_inside mmap dir page) ds"
  shows "open_navigation mmap format dir ds nav \<noteq> None \<and>
    (\<forall>nav'. open_navigation mmap format dir ds nav = Some (Inr nav') \<longrightarrow>
       nav_last_spans nav' = nav_last_spans nav @ map (\<lambda>d. last_span (the (page_view mmap format d))) ds
     \<and> nav_first_span nav' = (case nav_first_span nav of Some s \<Rightarrow> Some s
         | None \<Rightarrow> (case ds of [] \<Rightarrow> None | d # _ \<Rightarrow> Some (first_span (the (page_view mmap format d))))))"
  using views
proof (induction ds arbitrary: nav)
  case (Cons d ds)
  then obtain page where page: "page_view mmap format d = Some page" and inside: "page_inside mmap dir page"
    by auto
  have range: "get_range mmap (pv_offset page) (pv_payload_offset page) \<noteq> None"
    using inside dir by (simp add: page_inside_def get_range_def)
  then obtain metadata where metadata: "get_range mmap (pv_offset page) (pv_payload_offset page) = Some metadata" by blast
  have add: "checked_add (pv_payload_offset page) (pv_payload_len page) = Some (pv_payload_offset page + pv_payload_len page)"
    using inside dir map by (simp add: page_inside_def checked_add_def usize_limit_def)
  show ?case
  proof (cases "pv_offset page = nav_expected nav \<and> pv_payload_offset page + pv_payload_len page \<le> dir")
    case True
    define nav1 where "nav1 = \<lparr>nav_metadata = nav_metadata nav @ metadata,
        nav_expected = pv_payload_offset page + pv_payload_len page, nav_last_spans = nav_last_spans nav @ [last_span page],
        nav_first_span = (case nav_first_span nav of Some s \<Rightarrow> Some s | None \<Rightarrow> Some (first_span page))\<rparr>"
    have "open_navigation mmap format dir (d # ds) nav = open_navigation mmap format dir ds nav1"
      using True page metadata add
      by (cases "nav_first_span nav") (simp_all add: opt_filter_def nav1_def last_span_def first_span_def)
    moreover have "list_all (\<lambda>d. \<exists>page. page_view mmap format d = Some page \<and> page_inside mmap dir page) ds"
      using Cons.prems by simp
    ultimately have "open_navigation mmap format dir (d # ds) nav \<noteq> None \<and>
      (\<forall>nav'. open_navigation mmap format dir (d # ds) nav = Some (Inr nav') \<longrightarrow>
         nav_last_spans nav' = nav_last_spans nav1 @ map (\<lambda>d. last_span (the (page_view mmap format d))) ds
       \<and> nav_first_span nav' = (case nav_first_span nav1 of Some s \<Rightarrow> Some s
           | None \<Rightarrow> (case ds of [] \<Rightarrow> None | d # _ \<Rightarrow> Some (first_span (the (page_view mmap format d))))))"
      using Cons.IH [of nav1] by simp
    then show ?thesis using page by (cases "nav_first_span nav") (simp_all add: nav1_def)
  qed (use page metadata add in \<open>auto simp: opt_filter_def\<close>)
qed (auto split: option.splits)

lemma legacy_pages_total:
  assumes map: "mappable (px_mmap ix)" and dir: "dir \<le> length (px_mmap ix)"
    and views: "list_all (\<lambda>d. \<exists>page. page_view (px_mmap ix) (px_format ix) d = Some page \<and> page_inside (px_mmap ix) dir page) ds"
  shows "legacy_pages crc ix ds previous n \<noteq> None"
  using views
proof (induction ds arbitrary: previous n)
  case (Cons d ds)
  then obtain page where page: "page_view (px_mmap ix) (px_format ix) d = Some page" and inside: "page_inside (px_mmap ix) dir page"
    by auto
  have "get_range (px_mmap ix) (pv_payload_offset page) (pv_payload_offset page + pv_payload_len page) \<noteq> None"
    using inside dir by (simp add: page_inside_def get_range_def)
  with Cons page show ?case by (auto split: sum.splits)
qed simp

lemma open_pages_views:
  assumes map: "mappable mmap" and ok: "open_pages mmap format dir n = Inr (pages, directory_end)"
  shows "list_all (\<lambda>d. \<exists>page. page_view mmap format d = Some page \<and> page_inside mmap dir page) pages"
    and "length pages = n" and "dir + 4 \<le> directory_end" and "directory_end \<le> length mmap"
proof -
  let ?entry = "if format = FORMAT_V1 then open_entry_v1 mmap dir else open_entry_v2 mmap dir"
  obtain pos where dirs: "open_directory ?entry n pos = Inr (pages, directory_end)"
    and "dir + 4 \<le> directory_end" "directory_end \<le> length mmap"
    using ok by (auto simp: open_pages_def Let_def result_dests split: if_splits)
  then show "dir + 4 \<le> directory_end" "directory_end \<le> length mmap" by blast+
  have view: "\<exists>page. page_view mmap format pos = Some page \<and> page_inside mmap dir page"
    if "?entry pos = Inr pos'" for pos pos'
    using that open_entry_v1_view [OF map] open_entry_v2_view [OF map] by (auto split: if_splits)
  have "list_all (\<lambda>d. \<exists>page. page_view mmap format d = Some page \<and> page_inside mmap dir page) pages \<and> length pages = n"
    by (rule open_directory_all [OF _ dirs]) (rule view)
  then show "list_all (\<lambda>d. \<exists>page. page_view mmap format d = Some page \<and> page_inside mmap dir page) pages"
    and "length pages = n" by blast+
qed

text \<open>Everything a later lookup relies on.\<close>

definition opened :: "paged_index \<Rightarrow> bool" where
  "opened ix \<longleftrightarrow> mappable (px_mmap ix)
     \<and> list_all (\<lambda>d. \<exists>page. page_view (px_mmap ix) (px_format ix) d = Some page
         \<and> page_inside (px_mmap ix) (length (px_mmap ix)) page) (px_pages ix)
     \<and> px_last_key_spans ix = map (last_span \<circ> px_page ix) (px_pages ix)
     \<and> px_first_key_span ix = (case px_pages ix of [] \<Rightarrow> None | d # _ \<Rightarrow> Some (first_span (px_page ix d)))
     \<and> directory_sorted (px_mmap ix) (px_format ix) (px_pages ix)
     \<and> px_verified ix = replicate ((length (px_pages ix) + 63) div 64) 0"

lemma paged_open_sound:
  assumes map: "mappable mmap"
  shows "paged_open crc mmap \<noteq> None \<and> (\<forall>ix. paged_open crc mmap = Some (Inr ix) \<longrightarrow> px_mmap ix = mmap \<and> opened ix)"
proof (cases "rbind (open_header crc mmap) (\<lambda>(format, dump_version, entry_count, dir, n).
           rbind (open_pages mmap format dir n) (\<lambda>(pages, directory_end).
           Inr (format, dump_version, entry_count, dir, pages, directory_end)))")
  case (Inl e)
  then show ?thesis unfolding paged_open_def by simp
next
  case (Inr r)
  obtain format dump_version entry_count dir pages directory_end where
    r: "r = (format, dump_version, entry_count, dir, pages, directory_end)" by (metis prod_cases6)
  from Inr r obtain n where pages: "open_pages mmap format dir n = Inr (pages, directory_end)"
    by (auto simp: result_dests)
  note views = open_pages_views [OF map pages]
  have dir: "dir \<le> length mmap" using views(3,4) by simp
  let ?nav0 = "\<lparr>nav_metadata = [], nav_expected = HEADER_LEN, nav_last_spans = [], nav_first_span = None\<rparr>"
  note nav = open_navigation_total [OF map dir views(1), of ?nav0]
  then obtain rn where rn: "open_navigation mmap format dir pages ?nav0 = Some rn" by blast
  show ?thesis
  proof (cases rn)
    case (Inl e)
    with Inr r rn show ?thesis by (simp add: paged_open_def)
  next
    case nav': (Inr nav')
    define ix where "ix = \<lparr>px_mmap = mmap, px_pages = pages, px_last_key_spans = nav_last_spans nav',
        px_first_key_span = nav_first_span nav', px_format = format, px_dump_version = dump_version,
        px_entry_count = entry_count, px_verified = replicate ((length pages + 63) div 64) 0\<rparr>"
    have "list_all (\<lambda>d. \<exists>page. page_view mmap format d = Some page \<and> page_inside mmap (length mmap) page) pages"
      using views(1) dir by (fastforce simp: list_all_iff page_inside_def)
    moreover have "nav_last_spans nav' = map (last_span \<circ> px_page ix) pages"
      and "nav_first_span nav' = (case pages of [] \<Rightarrow> None | d # _ \<Rightarrow> Some (first_span (px_page ix d)))"
      using nav rn nav' by (auto simp: px_page_def ix_def split: list.splits)
    moreover have ix: "px_mmap ix = mmap" "px_pages ix = pages" "px_last_key_spans ix = nav_last_spans nav'"
      "px_first_key_span ix = nav_first_span nav'" "px_format ix = format"
      "px_verified ix = replicate ((length pages + 63) div 64) 0" by (simp_all add: ix_def)
    ultimately have "opened ix" if "directory_sorted mmap format pages"
      using that map unfolding opened_def ix by blast
    moreover have "validate_legacy_navigation crc ix \<noteq> None"
      using legacy_pages_total [of ix dir pages crc None 0] map dir views(1)
      by (simp add: validate_legacy_navigation_def ix_def)
    moreover have "paged_open crc mmap =
        (case check_navigation crc mmap format dir directory_end nav' of
           Inl e \<Rightarrow> Some (Inl e)
         | Inr _ \<Rightarrow> if \<not> directory_sorted mmap format pages then Some (Inl (Corrupt ''paged index: unsorted directory''))
                  else if format \<noteq> FORMAT then map_option (\<lambda>r. rbind r (\<lambda>_. Inr ix)) (validate_legacy_navigation crc ix)
                  else Some (Inr ix))"
      unfolding paged_open_def Inr r rn nav' Let_def ix_def by (simp only: sum.case option.case prod.case rn nav')
    ultimately show ?thesis using ix(1) by (auto simp: result_dests split: sum.splits if_splits)
  qed
qed

end
