(* ===== verification/Paged_Write.thy ===== *)
theory Paged_Write
  imports Paged_Format Frames "HOL-Library.Product_Lexorder"
begin

text \<open>
  Writing a run (\<open>PagedWriter\<close> of \<open>paged.rs\<close>): entries arrive sorted, fill pages up to the page
  size, and the directory, the navigation checksum and the header are written last. The layout
  of a finished file is given as a function of its pages, the writer is shown to produce it,
  and \<open>open\<close> to accept it and to see exactly those pages.

  The buffered file is the bytes written to it; a failing write abandons the file, which is
  only renamed into place after \<open>finish\<close> returned.
\<close>

section \<open>The writer\<close>

record paged_writer =
  pw_file :: bytes
  pw_page_size :: nat
  pw_page :: bytes
  pw_page_first :: "bytes option"
  pw_page_last :: bytes
  pw_previous_key :: bytes
  pw_previous_value :: bytes
  pw_has_previous :: bool
  pw_pages :: "u64 list"
  pw_dump_version :: u64
  pw_entry_count :: u64
  pw_metadata :: bytes

definition writer_create :: "u64 \<Rightarrow> nat option \<Rightarrow> paged_writer result" where
  "writer_create dump_version page_size =
     (let page_size = (case page_size of Some n \<Rightarrow> n | None \<Rightarrow> DEFAULT_PAGE_SIZE)
      in if \<not> (256 \<le> page_size \<and> page_size \<le> 1024 * 1024)
         then Inl (InvalidArgument ''paged index page size must be between 256 bytes and 1 MiB'')
         else Inr \<lparr>pw_file = replicate HEADER_LEN 0, pw_page_size = page_size, pw_page = [], pw_page_first = None,
                pw_page_last = [], pw_previous_key = [], pw_previous_value = [], pw_has_previous = False,
                pw_pages = [], pw_dump_version = dump_version, pw_entry_count = 0, pw_metadata = []\<rparr>)"

definition flush_page :: "(bytes \<Rightarrow> u32) \<Rightarrow> paged_writer \<Rightarrow> paged_writer" where
  "flush_page crc w =
     (if pw_page w = [] then w
      else
        let offset = length (pw_file w);
            first_key = the (pw_page_first w);
            metadata = to_le_bytes (of_nat (length (pw_page w)) :: u32) @ to_le_bytes (crc (pw_page w))
              @ to_le_bytes (of_nat (length first_key) :: u32) @ to_le_bytes (of_nat (length (pw_page_last w)) :: u32)
        in w\<lparr>pw_file := pw_file w @ metadata @ first_key @ pw_page_last w @ pw_page w,
             pw_metadata := pw_metadata w @ metadata @ first_key @ pw_page_last w,
             pw_pages := pw_pages w @ [of_nat offset], pw_page := [], pw_page_first := None, pw_page_last := []\<rparr>)"

text \<open>One entry as a page and a temporary run store it.\<close>

definition entry_bytes :: "bytes \<times> bytes \<Rightarrow> bytes" where
  "entry_bytes e =
     to_le_bytes (of_nat (length (fst e)) :: u32) @ to_le_bytes (of_nat (length (snd e)) :: u32) @ fst e @ snd e"

definition writer_add :: "(bytes \<Rightarrow> u32) \<Rightarrow> bytes \<Rightarrow> bytes \<Rightarrow> paged_writer \<Rightarrow> paged_writer result" where
  "writer_add crc key stored w =
     (if pw_has_previous w \<and> (pw_previous_key w, pw_previous_value w) > (key, stored)
      then Inl (InvalidArgument ''paged index entries must be sorted'')
      else
        rbind (ok_or (InvalidArgument ''paged index entry too large'')
                 (Option.bind (checked_add 8 (length key)) (\<lambda>len. checked_add len (length stored)))) (\<lambda>entry_len.
        let w = (if pw_page w \<noteq> [] \<and> length (pw_page w) + entry_len > pw_page_size w then flush_page crc w else w)
        in Inr (w\<lparr>pw_page := pw_page w @ entry_bytes (key, stored),
                  pw_page_first := (case pw_page_first w of None \<Rightarrow> Some key | Some k \<Rightarrow> Some k),
                  pw_page_last := key, pw_previous_key := key, pw_previous_value := stored,
                  pw_has_previous := True, pw_entry_count := pw_entry_count w + 1\<rparr>)))"

text \<open>The loop of \<open>append_v2_pages\<close> over the pages of an open run.\<close>

fun append_pages :: "(bytes \<Rightarrow> u32) \<Rightarrow> paged_index \<Rightarrow> nat list \<Rightarrow> paged_writer \<Rightarrow> paged_writer result" where
  "append_pages crc ix [] w = Inr w"
| "append_pages crc ix (d # ds) w =
     (let page = px_page ix d; mmap = px_mmap ix in
      rbind (pg_read_u32 mmap (pv_offset page)) (\<lambda>stored_len.
      rbind (pg_read_u32 mmap (pv_offset page + 4)) (\<lambda>stored_crc.
      if unat stored_len \<noteq> pv_payload_len page then Inl (Corrupt ''paged index: page length mismatch'')
      else
        rbind (ok_or (Corrupt ''paged index: page overflow'') (checked_add (pv_payload_offset page) (pv_payload_len page))) (\<lambda>payload_end.
        rbind (ok_or (Corrupt ''paged index: truncated page'') (get_range mmap (pv_payload_offset page) payload_end)) (\<lambda>payload.
        if crc payload \<noteq> stored_crc then Inl (Corrupt ''paged index: page crc mismatch'')
        else
          rbind (ok_or (Corrupt ''paged index: truncated page'') (get_range mmap (pv_offset page) payload_end)) (\<lambda>raw.
          append_pages crc ix ds
            (w\<lparr>pw_file := pw_file w @ raw,
               pw_metadata := pw_metadata w @ take (pv_payload_offset page - pv_offset page) (drop (pv_offset page) mmap),
               pw_pages := pw_pages w @ [of_nat (length (pw_file w))]\<rparr>)))))))"

definition append_v2_pages :: "(bytes \<Rightarrow> u32) \<Rightarrow> paged_index \<Rightarrow> paged_writer \<Rightarrow> paged_writer result" where
  "append_v2_pages crc ix w =
     rbind (append_pages crc ix (px_pages ix) w) (\<lambda>w.
     Inr (w\<lparr>pw_entry_count := (if unat (pw_entry_count w) + unat (px_entry_count ix) < 2 ^ 64
              then pw_entry_count w + px_entry_count ix else - 1)\<rparr>))"

definition writer_set_dump_version :: "u64 \<Rightarrow> paged_writer \<Rightarrow> paged_writer" where
  "writer_set_dump_version dump_version w = w\<lparr>pw_dump_version := dump_version\<rparr>"

text \<open>\<open>finish\<close>: the finished file; the header replaces the zeros written by \<open>create\<close>.\<close>

definition file_header :: "(bytes \<Rightarrow> u32) \<Rightarrow> nat \<Rightarrow> u64 \<Rightarrow> u64 \<Rightarrow> u64 \<Rightarrow> nat \<Rightarrow> bytes" where
  "file_header crc page_size dump_version entry_count directory_offset page_count =
     (let h = MAGIC @ to_le_bytes FORMAT @ to_le_bytes (of_nat page_size :: u32) @ to_le_bytes dump_version
            @ to_le_bytes entry_count @ to_le_bytes directory_offset @ to_le_bytes (of_nat page_count :: u32)
      in h @ to_le_bytes (crc h))"

definition writer_finish :: "(bytes \<Rightarrow> u32) \<Rightarrow> paged_writer \<Rightarrow> bytes" where
  "writer_finish crc w =
     (let w = flush_page crc w;
          directory_offset = length (pw_file w);
          directory = DIRECTORY_MAGIC_V3 @ concat (map to_le_bytes (pw_pages w));
          footer = to_le_bytes (crc (pw_metadata w @ directory));
          header = file_header crc (pw_page_size w) (pw_dump_version w) (pw_entry_count w) (of_nat directory_offset)
                     (length (pw_pages w))
      in header @ drop HEADER_LEN (pw_file w @ directory @ footer))"

section \<open>The layout of a finished file\<close>

type_synonym entry = "bytes \<times> bytes"

definition page_payload :: "entry list \<Rightarrow> bytes" where
  "page_payload es = concat (map entry_bytes es)"

definition page_metadata :: "(bytes \<Rightarrow> u32) \<Rightarrow> entry list \<Rightarrow> bytes" where
  "page_metadata crc es =
     to_le_bytes (of_nat (length (page_payload es)) :: u32) @ to_le_bytes (crc (page_payload es))
     @ to_le_bytes (of_nat (length (fst (hd es))) :: u32) @ to_le_bytes (of_nat (length (fst (last es))) :: u32)
     @ fst (hd es) @ fst (last es)"

definition page_bytes :: "(bytes \<Rightarrow> u32) \<Rightarrow> entry list \<Rightarrow> bytes" where
  "page_bytes crc es = page_metadata crc es @ page_payload es"

definition page_starts :: "(bytes \<Rightarrow> u32) \<Rightarrow> entry list list \<Rightarrow> nat list" where
  "page_starts crc pss = placed (\<lambda>off _. off) (page_bytes crc) HEADER_LEN pss"

definition body_bytes :: "(bytes \<Rightarrow> u32) \<Rightarrow> entry list list \<Rightarrow> bytes" where
  "body_bytes crc pss = concat (map (page_bytes crc) pss)"

definition directory_bytes :: "(bytes \<Rightarrow> u32) \<Rightarrow> entry list list \<Rightarrow> bytes" where
  "directory_bytes crc pss = DIRECTORY_MAGIC_V3 @ concat (map (\<lambda>off. to_le_bytes (of_nat off :: u64)) (page_starts crc pss))"

definition paged_file :: "(bytes \<Rightarrow> u32) \<Rightarrow> nat \<Rightarrow> u64 \<Rightarrow> u64 \<Rightarrow> entry list list \<Rightarrow> bytes" where
  "paged_file crc page_size dump_version entry_count pss =
     file_header crc page_size dump_version entry_count (of_nat (HEADER_LEN + length (body_bytes crc pss))) (length pss)
     @ body_bytes crc pss @ directory_bytes crc pss
     @ to_le_bytes (crc (concat (map (page_metadata crc) pss) @ directory_bytes crc pss))"

text \<open>The pages \<open>pss\<close> are in the file and \<open>es\<close> is the page being filled.\<close>

definition writer_holds :: "(bytes \<Rightarrow> u32) \<Rightarrow> paged_writer \<Rightarrow> entry list list \<Rightarrow> entry list \<Rightarrow> bool" where
  "writer_holds crc w pss es \<longleftrightarrow>
     [] \<notin> set pss
     \<and> pw_file w = replicate HEADER_LEN 0 @ body_bytes crc pss
     \<and> pw_metadata w = concat (map (page_metadata crc) pss)
     \<and> pw_pages w = map of_nat (page_starts crc pss)
     \<and> pw_page w = page_payload es
     \<and> pw_page_first w = (if es = [] then None else Some (fst (hd es)))
     \<and> pw_page_last w = (if es = [] then [] else fst (last es))
     \<and> pw_has_previous w = (concat pss @ es \<noteq> [])
     \<and> (concat pss @ es \<noteq> [] \<longrightarrow> (pw_previous_key w, pw_previous_value w) = last (concat pss @ es))
     \<and> pw_entry_count w = of_nat (length (concat pss @ es))"

lemma length_entry_bytes: "length (entry_bytes e) = 8 + length (fst e) + length (snd e)"
  by (simp add: entry_bytes_def)

lemma entry_bytes_nonempty [simp]: "entry_bytes e \<noteq> []"
  using length_entry_bytes [of e] by auto

lemma page_payload_empty [simp]: "page_payload [] = []"
  by (simp add: page_payload_def)

lemma page_payload_Nil [simp]: "page_payload es = [] \<longleftrightarrow> es = []"
  by (cases es) (simp_all add: page_payload_def)

lemma page_payload_append [simp]: "page_payload (xs @ ys) = page_payload xs @ page_payload ys"
  by (simp add: page_payload_def)

lemma length_file_header [simp]: "length (file_header crc a b c d e) = HEADER_LEN"
  by (simp add: file_header_def Let_def MAGIC_def)

lemma placed_snoc: "placed view enc pos (xs @ [x]) = placed view enc pos xs @ [view (pos + length (concat (map enc xs))) x]"
  by (induction xs arbitrary: pos) (simp_all add: add.assoc)

lemma flush_page_holds:
  assumes "writer_holds crc w pss es"
  shows "writer_holds crc (flush_page crc w) (if es = [] then pss else pss @ [es]) []"
    and "pw_page_size (flush_page crc w) = pw_page_size w" and "pw_dump_version (flush_page crc w) = pw_dump_version w"
  using assms
  by (auto simp: flush_page_def writer_holds_def Let_def body_bytes_def page_bytes_def page_metadata_def
      page_starts_def placed_snoc)

lemma writer_create_holds:
  assumes "256 \<le> page_size" and "page_size \<le> 1024 * 1024"
  shows "\<exists>w. writer_create dump_version (Some page_size) = Inr w \<and> writer_holds crc w [] []
    \<and> pw_page_size w = page_size \<and> pw_dump_version w = dump_version"
  using assms by (simp add: writer_create_def writer_holds_def body_bytes_def page_payload_def page_starts_def)

lemma writer_finish_holds:
  assumes "writer_holds crc w pss es"
  shows "writer_finish crc w = paged_file crc (pw_page_size w) (pw_dump_version w) (of_nat (length (concat pss @ es)))
    (if es = [] then pss else pss @ [es])"
proof -
  define pss' where "pss' = (if es = [] then pss else pss @ [es])"
  define w' where "w' = flush_page crc w"
  have holds: "writer_holds crc w' pss' []" and kept: "pw_page_size w' = pw_page_size w" "pw_dump_version w' = pw_dump_version w"
    using flush_page_holds [OF assms] by (simp_all add: w'_def pss'_def)
  have "concat pss' = concat pss @ es" by (simp add: pss'_def)
  with holds kept show ?thesis
    unfolding writer_finish_def w'_def [symmetric] pss'_def [symmetric]
    by (simp add: Let_def writer_holds_def paged_file_def directory_bytes_def page_starts_def comp_def)
qed

section \<open>Adding sorted entries\<close>

text \<open>A page keeps to the page size unless a single entry exceeds it.\<close>

definition page_bounded :: "nat \<Rightarrow> entry list \<Rightarrow> bool" where
  "page_bounded n es \<longleftrightarrow> length (page_payload es) \<le> n \<or> length es = 1"

text \<open>The caller's loop over its entries.\<close>

fun add_all :: "(bytes \<Rightarrow> u32) \<Rightarrow> entry list \<Rightarrow> paged_writer \<Rightarrow> paged_writer result" where
  "add_all crc [] w = Inr w"
| "add_all crc (e # es) w = rbind (writer_add crc (fst e) (snd e) w) (add_all crc es)"

lemma page_payload_single: "page_payload [e] = entry_bytes e"
  by (simp add: page_payload_def)

definition entry_fits :: "entry \<Rightarrow> bool" where
  "entry_fits e \<longleftrightarrow> 8 + length (fst e) + length (snd e) < 2 ^ 32"

lemma entry_len_Some:
  "entry_fits e \<Longrightarrow> Option.bind (checked_add 8 (length (fst e))) (\<lambda>len. checked_add len (length (snd e)))
     = Some (length (entry_bytes e))"
  by (simp add: entry_fits_def checked_add_def usize_limit_def length_entry_bytes)

lemma writer_add_holds:
  assumes holds: "writer_holds crc w pss es" and fits: "entry_fits e"
    and ord: "concat pss @ es \<noteq> [] \<Longrightarrow> last (concat pss @ es) \<le> e"
    and bound: "list_all (page_bounded (pw_page_size w)) (pss @ [es])"
  shows "\<exists>w' pss' es'. writer_add crc (fst e) (snd e) w = Inr w' \<and> writer_holds crc w' pss' es'
    \<and> concat pss' @ es' = concat pss @ es @ [e] \<and> list_all (page_bounded (pw_page_size w)) (pss' @ [es'])
    \<and> pw_page_size w' = pw_page_size w \<and> pw_dump_version w' = pw_dump_version w"
proof -
  let ?flush = "pw_page w \<noteq> [] \<and> length (pw_page w) + length (entry_bytes e) > pw_page_size w"
  define w1 where "w1 = (if ?flush then flush_page crc w else w)"
  define pss1 where "pss1 = (if ?flush \<and> es \<noteq> [] then pss @ [es] else pss)"
  define es1 where "es1 = (if ?flush then [] else es)"
  have w1: "writer_holds crc w1 pss1 es1" "pw_page_size w1 = pw_page_size w" "pw_dump_version w1 = pw_dump_version w"
    using flush_page_holds [OF holds] holds by (auto simp: w1_def pss1_def es1_def)
  have es1: "concat pss1 @ es1 = concat pss @ es" by (simp add: pss1_def es1_def)
  have prev: "pw_has_previous w = (concat pss @ es \<noteq> [])"
      "concat pss @ es \<noteq> [] \<Longrightarrow> (pw_previous_key w, pw_previous_value w) = last (concat pss @ es)"
    using holds unfolding writer_holds_def by blast+
  have "\<not> (pw_has_previous w \<and> (pw_previous_key w, pw_previous_value w) > (fst e, snd e))"
    unfolding prev(1) prod.collapse using ord prev(2) by (metis leD)
  then have sorted_here: "\<not> (pw_has_previous w \<and> e < (pw_previous_key w, pw_previous_value w))" by simp
  define w' where "w' = w1\<lparr>pw_page := pw_page w1 @ entry_bytes e,
        pw_page_first := (case pw_page_first w1 of None \<Rightarrow> Some (fst e) | Some k \<Rightarrow> Some k),
        pw_page_last := fst e, pw_previous_key := fst e, pw_previous_value := snd e,
        pw_has_previous := True, pw_entry_count := pw_entry_count w1 + 1\<rparr>"
  have w': "writer_add crc (fst e) (snd e) w = Inr w'"
    unfolding writer_add_def prod.collapse if_not_P [OF sorted_here] entry_len_Some [OF fits] w'_def w1_def Let_def
      ok_or_simps rbind_simps by (rule refl)
  have "writer_holds crc w' pss1 (es1 @ [e])"
    using w1(1) unfolding writer_holds_def w'_def by (auto simp: page_payload_single hd_append)
  moreover have "list_all (page_bounded (pw_page_size w)) (pss1 @ [es1 @ [e]])"
    using bound holds
    by (auto simp: pss1_def es1_def page_bounded_def page_payload_single writer_holds_def not_less)
  moreover have "pw_page_size w' = pw_page_size w" "pw_dump_version w' = pw_dump_version w" using w1(2,3) w'_def by simp_all
  ultimately show ?thesis using w' es1 by (metis append_assoc)
qed

lemma add_all_holds:
  assumes "writer_holds crc w pss es" and "list_all entry_fits new" and "sorted (concat pss @ es @ new)"
    and "list_all (page_bounded (pw_page_size w)) (pss @ [es])"
  shows "\<exists>w' pss' es'. add_all crc new w = Inr w' \<and> writer_holds crc w' pss' es'
    \<and> concat pss' @ es' = concat pss @ es @ new \<and> list_all (page_bounded (pw_page_size w)) (pss' @ [es'])
    \<and> pw_page_size w' = pw_page_size w \<and> pw_dump_version w' = pw_dump_version w"
  using assms
proof (induction new arbitrary: w pss es)
  case (Cons e new)
  have "last (concat pss @ es) \<le> e" if "concat pss @ es \<noteq> []"
    using Cons.prems(3) last_in_set [OF that] by (auto simp: sorted_append)
  from writer_add_holds [OF Cons.prems(1) _ this Cons.prems(4)] Cons.prems(2)
  obtain w1 pss1 es1 where w1: "writer_add crc (fst e) (snd e) w = Inr w1" "writer_holds crc w1 pss1 es1"
    "concat pss1 @ es1 = concat pss @ es @ [e]" "list_all (page_bounded (pw_page_size w)) (pss1 @ [es1])"
    "pw_page_size w1 = pw_page_size w" "pw_dump_version w1 = pw_dump_version w"
    by auto
  have eq: "concat pss1 @ es1 @ new = concat pss @ es @ e # new"
    using w1(3) by (metis append.assoc append_Cons append_Nil)
  have "sorted (concat pss1 @ es1 @ new)" using Cons.prems(3) by (simp only: eq)
  from Cons.IH [OF w1(2) _ this] Cons.prems(2) w1(4,5)
  obtain w' pss' es' where "add_all crc new w1 = Inr w'" "writer_holds crc w' pss' es'"
    "concat pss' @ es' = concat pss1 @ es1 @ new" "list_all (page_bounded (pw_page_size w)) (pss' @ [es'])"
    "pw_page_size w' = pw_page_size w1" "pw_dump_version w' = pw_dump_version w1" by auto
  moreover from this(3) eq have "concat pss' @ es' = concat pss @ es @ e # new" by simp
  ultimately show ?case using w1(1,5,6) by auto
qed auto

lemma add_all_unsorted:
  assumes "writer_holds crc w pss es" and "concat pss @ es \<noteq> []" and "e < last (concat pss @ es)"
  shows "writer_add crc (fst e) (snd e) w = Inl (InvalidArgument ''paged index entries must be sorted'')"
proof -
  have "pw_has_previous w" "(pw_previous_key w, pw_previous_value w) = last (concat pss @ es)"
    using assms(1,2) unfolding writer_holds_def by blast+
  with assms(3) show ?thesis by (simp add: writer_add_def)
qed

section \<open>Opening what was written\<close>

text \<open>The bounds under which the format's length fields are exact.\<close>

definition page_ok :: "entry list \<Rightarrow> bool" where
  "page_ok es \<longleftrightarrow> es \<noteq> [] \<and> sorted es \<and> list_all entry_fits es \<and> length (page_payload es) < 2 ^ 32"

lemma pg_read_u32_cursor [cursor_rules]:
  "cursor_at buf pos (to_le_bytes (w::u32) @ rest) \<Longrightarrow> pg_read_u32 buf pos = Inr w"
  using cursor_at_range [of buf pos "to_le_bytes w" rest] cursor_at_limit [of buf pos "to_le_bytes w @ rest"]
  by (simp add: pg_read_u32_def saturating_add_def)

lemma pg_read_u64_cursor [cursor_rules]:
  "cursor_at buf pos (to_le_bytes (w::u64) @ rest) \<Longrightarrow> pg_read_u64 buf pos = Inr w"
  using cursor_at_range [of buf pos "to_le_bytes w" rest] cursor_at_limit [of buf pos "to_le_bytes w @ rest"]
  by (simp add: pg_read_u64_def saturating_add_def)

lemma pg_take_cursor [cursor_rules]:
  "cursor_at buf pos (xs @ rest) \<Longrightarrow> length xs = n \<Longrightarrow> pg_take buf pos n = Inr (xs, pos + n)"
  using cursor_at_checked_add [of buf pos xs rest] cursor_at_length [of buf pos "xs @ rest"] cursor_at_take [of buf pos xs rest]
  by (simp add: pg_take_def opt_filter_def)

lemma entry_fits_lens:
  assumes "entry_fits e"
  shows "unat (of_nat (length (fst e)) :: u32) = length (fst e)" and "unat (of_nat (length (snd e)) :: u32) = length (snd e)"
  using assms by (simp_all add: entry_fits_def unat_of_nat_u32 fits_u32_def)

lemma page_entry_cursor:
  assumes at: "cursor_at buf pos (entry_bytes e @ rest)" and fits: "entry_fits e"
  shows "page_entry_at buf pos = Inr (e, pos + length (entry_bytes e))"
proof -
  have c0: "cursor_at buf pos (to_le_bytes (of_nat (length (fst e)) :: u32) @ to_le_bytes (of_nat (length (snd e)) :: u32)
      @ fst e @ snd e @ rest)" using at by (simp add: entry_bytes_def)
  note c1 = cursor_at_u32 [OF c0]
  note c2 = cursor_at_u32 [OF c1]
  note c3 = cursor_at_append [OF c2]
  show ?thesis
    using c0 c1 c2 c3 entry_fits_lens [OF fits]
    by (simp add: page_entry_at_def pg_read_u32_at_def pg_read_u32_cursor pg_take_cursor length_entry_bytes)
qed

lemma page_ok_lens:
  assumes "page_ok es"
  shows "unat (of_nat (length (page_payload es)) :: u32) = length (page_payload es)"
    and "unat (of_nat (length (fst (hd es))) :: u32) = length (fst (hd es))"
    and "unat (of_nat (length (fst (last es))) :: u32) = length (fst (last es))"
    and "fst (hd es) \<le> fst (last es)"
proof -
  have "hd es \<in> set es" "last es \<in> set es" using assms by (simp_all add: page_ok_def)
  then have "entry_fits (hd es)" "entry_fits (last es)" using assms by (simp_all add: page_ok_def list_all_iff)
  then show "unat (of_nat (length (fst (hd es))) :: u32) = length (fst (hd es))"
    and "unat (of_nat (length (fst (last es))) :: u32) = length (fst (last es))"
    by (simp_all only: entry_fits_lens)
  show "unat (of_nat (length (page_payload es)) :: u32) = length (page_payload es)"
    using assms by (simp add: page_ok_def unat_of_nat_u32 fits_u32_def)
  have "hd es \<le> last es" using assms by (cases es) (auto simp: page_ok_def)
  then show "fst (hd es) \<le> fst (last es)" by (auto simp: less_eq_prod_def)
qed

text \<open>What the directory shows of a page.\<close>

definition written_view :: "nat \<Rightarrow> nat \<Rightarrow> entry list \<Rightarrow> page_view" where
  "written_view d off es =
     \<lparr>pv_directory_entry = d, pv_position = None, pv_offset = off,
      pv_payload_offset = off + 16 + length (fst (hd es)) + length (fst (last es)),
      pv_payload_len = length (page_payload es), pv_first_start = off + 16, pv_first_key = fst (hd es),
      pv_last_start = off + 16 + length (fst (hd es)), pv_last_key = fst (last es)\<rparr>"

lemma page_cursor:
  assumes at: "cursor_at buf off (page_bytes crc es @ rest)" and ok: "page_ok es"
  shows "pg_read_u32 buf off = Inr (of_nat (length (page_payload es)))"
    and "pg_read_u32 buf (off + 4) = Inr (crc (page_payload es))"
    and "pg_read_u32 buf (off + 8) = Inr (of_nat (length (fst (hd es))))"
    and "pg_read_u32 buf (off + 12) = Inr (of_nat (length (fst (last es))))"
    and "get_range buf (off + 16) (off + 16 + length (fst (hd es))) = Some (fst (hd es))"
    and "get_range buf (off + 16 + length (fst (hd es))) (off + 16 + length (fst (hd es)) + length (fst (last es)))
      = Some (fst (last es))"
    and "cursor_at buf (off + 16 + length (fst (hd es)) + length (fst (last es))) (page_payload es @ rest)"
proof -
  have c0: "cursor_at buf off (to_le_bytes (of_nat (length (page_payload es)) :: u32) @ to_le_bytes (crc (page_payload es))
     @ to_le_bytes (of_nat (length (fst (hd es))) :: u32) @ to_le_bytes (of_nat (length (fst (last es))) :: u32)
     @ fst (hd es) @ fst (last es) @ page_payload es @ rest)"
    using at by (simp add: page_bytes_def page_metadata_def)
  note c1 = cursor_at_u32 [OF c0]
  note c2 = cursor_at_u32 [OF c1]
  note c3 = cursor_at_u32 [OF c2]
  note c4 = cursor_at_u32 [OF c3]
  note c5 = cursor_at_append [OF c4]
  show "pg_read_u32 buf off = Inr (of_nat (length (page_payload es)))" using c0 by (rule pg_read_u32_cursor)
  show "pg_read_u32 buf (off + 4) = Inr (crc (page_payload es))" using c1 by (rule pg_read_u32_cursor)
  show "pg_read_u32 buf (off + 8) = Inr (of_nat (length (fst (hd es))))"
    using pg_read_u32_cursor [OF c2] by (simp add: add.assoc)
  show "pg_read_u32 buf (off + 12) = Inr (of_nat (length (fst (last es))))"
    using pg_read_u32_cursor [OF c3] by (simp add: add.assoc)
  show "get_range buf (off + 16) (off + 16 + length (fst (hd es))) = Some (fst (hd es))"
    using cursor_at_range [OF c4] by (simp add: add.assoc)
  show "get_range buf (off + 16 + length (fst (hd es))) (off + 16 + length (fst (hd es)) + length (fst (last es)))
      = Some (fst (last es))" using cursor_at_range [OF c5] by (simp add: add.assoc)
  show "cursor_at buf (off + 16 + length (fst (hd es)) + length (fst (last es))) (page_payload es @ rest)"
    using cursor_at_append [OF c5] by (simp add: add.assoc)
qed

lemma length_page_bytes: "length (page_bytes crc es) = 16 + length (fst (hd es)) + length (fst (last es)) + length (page_payload es)"
  by (simp add: page_bytes_def page_metadata_def)

lemma page_view_written:
  assumes dir: "cursor_at buf d (to_le_bytes (of_nat off :: u64) @ rest')" and at: "cursor_at buf off (page_bytes crc es @ rest)"
    and ok: "page_ok es" and fmt: "format \<noteq> FORMAT_V1"
  shows "page_view buf format d = Some (written_view d off es)"
proof -
  have "off < 2 ^ 64" using cursor_at_limit [OF at] by (simp add: usize_limit_def)
  then have off: "unat (of_nat off :: u64) = off" by (simp add: unat_of_nat)
  show ?thesis
    using page_cursor [OF at ok] page_ok_lens [OF ok] fmt
    by (simp add: page_view_def pg_read_u64_cursor [OF dir] ok_some_def off page_lens_def written_view_def Let_def)
qed

lemma open_entry_written:
  assumes dir: "cursor_at buf d (to_le_bytes (of_nat off :: u64) @ rest')" and at: "cursor_at buf off (page_bytes crc es @ rest)"
    and ok: "page_ok es" and low: "HEADER_LEN \<le> off" and high: "off + length (page_bytes crc es) \<le> directory_offset"
    and limit: "directory_offset < usize_limit"
  shows "open_entry_v2 buf directory_offset d = Inr (d + 8)"
proof -
  have "off < 2 ^ 64" using cursor_at_limit [OF at] by (simp add: usize_limit_def)
  then have off: "unat (of_nat off :: u64) = off" by (simp add: unat_of_nat)
  show ?thesis
    using page_cursor [OF at ok] page_ok_lens [OF ok] low high limit
    by (simp add: open_entry_v2_def pg_read_u64_at_def pg_read_u64_cursor [OF dir] off Let_def
        checked_add_def length_page_bytes opt_filter_def not_less)
qed

text \<open>Directory records at \<open>ds\<close> lead to the pages \<open>pss\<close>, which stand one after another from \<open>off\<close> on.\<close>

fun pages_at :: "(bytes \<Rightarrow> u32) \<Rightarrow> bytes \<Rightarrow> nat list \<Rightarrow> nat \<Rightarrow> entry list list \<Rightarrow> bool" where
  "pages_at crc mmap [] off [] \<longleftrightarrow> True"
| "pages_at crc mmap (d # ds) off (es # pss) \<longleftrightarrow>
     (\<exists>r. cursor_at mmap d (to_le_bytes (of_nat off :: u64) @ r)) \<and> (\<exists>r. cursor_at mmap off (page_bytes crc es @ r))
     \<and> pages_at crc mmap ds (off + length (page_bytes crc es)) pss"
| "pages_at crc mmap _ off _ \<longleftrightarrow> False"

fun dir_positions :: "nat \<Rightarrow> nat \<Rightarrow> nat list" where
  "dir_positions pos 0 = []"
| "dir_positions pos (Suc n) = pos # dir_positions (pos + 8) n"

lemma length_dir_positions [simp]: "length (dir_positions pos n) = n"
  by (induction n arbitrary: pos) simp_all

lemma dir_positions_sorted: "sorted_wrt (<) (dir_positions pos n) \<and> (\<forall>d \<in> set (dir_positions pos n). pos \<le> d)"
proof (induction n arbitrary: pos)
  case (Suc n)
  from Suc.IH [of "pos + 8"] show ?case by fastforce
qed simp

lemma pages_at_length: "pages_at crc mmap ds off pss \<Longrightarrow> length ds = length pss"
  by (induction crc mmap ds off pss rule: pages_at.induct) simp_all

lemma pages_at_layout:
  assumes "file = pre @ concat (map (page_bytes crc) pss) @ mid
      @ concat (map (\<lambda>off. to_le_bytes (of_nat off :: u64)) (placed (\<lambda>off _. off) (page_bytes crc) (length pre) pss)) @ post"
    and "length file < usize_limit"
  shows "pages_at crc file (dir_positions (length (pre @ concat (map (page_bytes crc) pss) @ mid)) (length pss)) (length pre) pss"
  using assms(1)
proof (induction pss arbitrary: pre mid)
  case (Cons es pss)
  let ?dirs = "\<lambda>off. concat (map (\<lambda>off. to_le_bytes (of_nat off :: u64)) (placed (\<lambda>off _. off) (page_bytes crc) off pss))"
  let ?le = "to_le_bytes (of_nat (length pre) :: u64)"
  let ?d = "length (pre @ concat (map (page_bytes crc) (es # pss)) @ mid)"
  have bytes: "file = (pre @ page_bytes crc es) @ concat (map (page_bytes crc) pss) @ (mid @ ?le)
      @ ?dirs (length (pre @ page_bytes crc es)) @ post"
    using Cons.prems by simp
  have "cursor_at file ?d (?le @ ?dirs (length (pre @ page_bytes crc es)) @ post)"
    using assms(2) unfolding cursor_at_def bytes by simp
  moreover have "cursor_at file (length pre) (page_bytes crc es @ concat (map (page_bytes crc) pss) @ mid @ ?le
      @ ?dirs (length (pre @ page_bytes crc es)) @ post)"
    using assms(2) unfolding cursor_at_def bytes by simp
  moreover have "length ((pre @ page_bytes crc es) @ concat (map (page_bytes crc) pss) @ mid @ ?le) = ?d + 8"
    by simp
  then have "pages_at crc file (dir_positions (?d + 8) (length pss)) (length pre + length (page_bytes crc es)) pss"
    using Cons.IH [OF bytes] by (simp only: length_append)
  ultimately show ?case by auto
qed simp

lemma open_directory_written:
  assumes "pages_at crc mmap (dir_positions base (length pss)) off pss" and "list_all page_ok pss" and "HEADER_LEN \<le> off"
    and "off + length (concat (map (page_bytes crc) pss)) \<le> dir" and "dir < usize_limit"
  shows "open_directory (open_entry_v2 mmap dir) (length pss) base = Inr (dir_positions base (length pss), base + 8 * length pss)"
  using assms
proof (induction pss arbitrary: base off)
  case (Cons es pss)
  then have "open_entry_v2 mmap dir base = Inr (base + 8)"
    by (auto intro: open_entry_written)
  moreover have "open_directory (open_entry_v2 mmap dir) (length pss) (base + 8)
      = Inr (dir_positions (base + 8) (length pss), base + 8 + 8 * length pss)"
    using Cons.prems by (intro Cons.IH [of _ "off + length (page_bytes crc es)"]) auto
  ultimately show ?case by simp
qed simp

lemma metadata_range:
  assumes "cursor_at mmap off (page_bytes crc es @ rest)"
  shows "get_range mmap off (off + 16 + length (fst (hd es)) + length (fst (last es))) = Some (page_metadata crc es)"
proof -
  have "cursor_at mmap off (page_metadata crc es @ page_payload es @ rest)" using assms by (simp add: page_bytes_def)
  from cursor_at_range [OF this] show ?thesis by (simp add: page_metadata_def add.assoc)
qed

lemma open_navigation_written:
  assumes "pages_at crc mmap ds off pss" and "list_all page_ok pss" and "format \<noteq> FORMAT_V1"
    and "off + length (concat (map (page_bytes crc) pss)) \<le> dir" and "dir < usize_limit" and "nav_expected nav = off"
  shows "\<exists>nav'. open_navigation mmap format dir ds nav = Some (Inr nav')
    \<and> nav_metadata nav' = nav_metadata nav @ concat (map (page_metadata crc) pss)
    \<and> nav_expected nav' = off + length (concat (map (page_bytes crc) pss))"
  using assms
proof (induction crc mmap ds off pss arbitrary: nav rule: pages_at.induct)
  case (2 crc mmap d ds off es pss)
  then obtain r r' where d: "cursor_at mmap d (to_le_bytes (of_nat off :: u64) @ r)" and at: "cursor_at mmap off (page_bytes crc es @ r')"
    and ok: "page_ok es" by auto
  have view: "page_view mmap format d = Some (written_view d off es)"
    by (rule page_view_written [OF d at ok \<open>format \<noteq> FORMAT_V1\<close>])
  have fits: "off + length (page_bytes crc es) \<le> dir" using 2 by simp
  then have add: "checked_add (off + 16 + length (fst (hd es)) + length (fst (last es))) (length (page_payload es))
      = Some (off + length (page_bytes crc es))"
    using \<open>dir < usize_limit\<close> by (simp add: checked_add_def length_page_bytes)
  obtain nav1 where nav1: "open_navigation mmap format dir (d # ds) nav = open_navigation mmap format dir ds nav1"
    "nav_metadata nav1 = nav_metadata nav @ page_metadata crc es" "nav_expected nav1 = off + length (page_bytes crc es)"
    using view add fits metadata_range [OF at] 2(7) by (simp add: written_view_def opt_filter_def)
  from 2 nav1(3) obtain nav' where "open_navigation mmap format dir ds nav1 = Some (Inr nav')"
    "nav_metadata nav' = nav_metadata nav1 @ concat (map (page_metadata crc) pss)"
    "nav_expected nav' = off + length (page_bytes crc es) + length (concat (map (page_bytes crc) pss))"
    by (auto simp: add.assoc)
  with nav1 show ?case by (simp add: add.assoc)
qed auto

lemma directory_sorted_written:
  assumes "pages_at crc mmap ds off pss" and "list_all page_ok pss" and "format \<noteq> FORMAT_V1" and "sorted (concat pss)"
  shows "directory_sorted mmap format ds"
  using assms
proof (induction mmap format ds arbitrary: off pss rule: directory_sorted.induct)
  case (1 mmap format a b ds)
  from 1(2) obtain es es' rest where pss: "pss = es # es' # rest"
    by (cases pss; cases "tl pss") auto
  from 1(2-) pss have views: "page_view mmap format a = Some (written_view a off es)"
    "page_view mmap format b = Some (written_view b (off + length (page_bytes crc es)) es')"
    by (auto intro: page_view_written)
  have "hd es \<in> set es" "hd es' \<in> set es'" using 1(3) pss by (simp_all add: page_ok_def)
  then have "hd es \<le> hd es'" using 1(5) pss by (auto simp: sorted_append)
  then have "fst (hd es) \<le> fst (hd es')" by (auto simp: less_eq_prod_def)
  moreover have "directory_sorted mmap format (b # ds)"
    using 1(2-) pss by (intro "1.IH" [of "off + length (page_bytes crc es)" "es' # rest"]) (auto simp: sorted_append)
  ultimately show ?case by (simp add: views written_view_def)
qed simp_all

section \<open>The open run\<close>

text \<open>A run whose index holds the entries of \<open>pss\<close>, page by page.\<close>

definition index_holds :: "(bytes \<Rightarrow> u32) \<Rightarrow> paged_index \<Rightarrow> entry list list \<Rightarrow> bool" where
  "index_holds crc ix pss \<longleftrightarrow>
     mappable (px_mmap ix) \<and> px_format ix \<noteq> FORMAT_V1 \<and> pages_at crc (px_mmap ix) (px_pages ix) HEADER_LEN pss
     \<and> list_all page_ok pss \<and> sorted (concat pss) \<and> sorted_wrt (<) (px_pages ix)
     \<and> px_last_key_spans ix = map (last_span \<circ> px_page ix) (px_pages ix)
     \<and> px_first_key_span ix = (case px_pages ix of [] \<Rightarrow> None | d # _ \<Rightarrow> Some (first_span (px_page ix d)))
     \<and> length (px_verified ix) = (length (px_pages ix) + 63) div 64"

definition run_fits :: "(bytes \<Rightarrow> u32) \<Rightarrow> nat \<Rightarrow> u64 \<Rightarrow> u64 \<Rightarrow> entry list list \<Rightarrow> bool" where
  "run_fits crc page_size dump_version entry_count pss \<longleftrightarrow>
     256 \<le> page_size \<and> page_size \<le> 1024 * 1024 \<and> length pss < 2 ^ 32
     \<and> mappable (paged_file crc page_size dump_version entry_count pss)"

lemma length_magic: "length MAGIC = 8" "length DIRECTORY_MAGIC_V3 = 4"
  by (simp_all add: MAGIC_def DIRECTORY_MAGIC_V3_def)

lemma unat_of_nat_u64: "n < 2 ^ 64 \<Longrightarrow> unat (of_nat n :: u64) = n"
  by (simp add: unat_of_nat)

lemma open_header_written:
  assumes fits: "run_fits crc ps dv n pss"
  shows "open_header crc (paged_file crc ps dv n pss) = Inr (FORMAT, dv, n, HEADER_LEN + length (body_bytes crc pss), length pss)"
proof -
  let ?dir = "HEADER_LEN + length (body_bytes crc pss)"
  let ?file = "paged_file crc ps dv n pss"
  define h where "h = MAGIC @ to_le_bytes FORMAT @ to_le_bytes (of_nat ps :: u32) @ to_le_bytes dv
      @ to_le_bytes n @ to_le_bytes (of_nat ?dir :: u64) @ to_le_bytes (of_nat (length pss) :: u32)"
  define rest where "rest = body_bytes crc pss @ directory_bytes crc pss
      @ to_le_bytes (crc (concat (map (page_metadata crc) pss) @ directory_bytes crc pss))"
  have file_eq: "?file = h @ to_le_bytes (crc h) @ rest"
    by (simp add: paged_file_def file_header_def Let_def h_def rest_def)
  have h: "length h = 44" by (simp add: h_def MAGIC_def)
  have len: "length ?file < usize_limit" using fits by (simp add: run_fits_def usize_limit_def)
  then have c0: "cursor_at ?file 0 (MAGIC @ to_le_bytes FORMAT @ to_le_bytes (of_nat ps :: u32) @ to_le_bytes dv
      @ to_le_bytes n @ to_le_bytes (of_nat ?dir :: u64) @ to_le_bytes (of_nat (length pss) :: u32)
      @ to_le_bytes (crc h) @ rest)" unfolding file_eq by (simp add: h_def cursor_at_def)
  have c1: "cursor_at ?file 8 (to_le_bytes FORMAT @ to_le_bytes (of_nat ps :: u32) @ to_le_bytes dv
      @ to_le_bytes n @ to_le_bytes (of_nat ?dir :: u64) @ to_le_bytes (of_nat (length pss) :: u32)
      @ to_le_bytes (crc h) @ rest)" using cursor_at_append [OF c0] by (simp add: length_magic)
  note c2 = cursor_at_u32 [OF c1]
  note c3 = cursor_at_u32 [OF c2]
  note c4 = cursor_at_u64 [OF c3]
  note c5 = cursor_at_u64 [OF c4]
  note c6 = cursor_at_u64 [OF c5]
  note c7 = cursor_at_u32 [OF c6]
  note reads = pg_read_u32_cursor [OF c1] pg_read_u32_cursor [OF c2] pg_read_u64_cursor [OF c3] pg_read_u64_cursor [OF c4]
    pg_read_u64_cursor [OF c5] pg_read_u32_cursor [OF c6] pg_read_u32_cursor [OF c7]
  have "take 44 ?file = h" unfolding file_eq by (simp add: h)
  moreover have "take 8 ?file = MAGIC" "HEADER_LEN \<le> length ?file" unfolding file_eq by (simp_all add: h_def MAGIC_def)
  moreover have "unat (of_nat ps :: u32) = ps" "unat (of_nat (length pss) :: u32) = length pss"
    using fits by (simp_all add: run_fits_def unat_of_nat_u32 fits_u32_def)
  moreover have "?dir < 2 ^ 64" using len unfolding file_eq by (simp add: h rest_def usize_limit_def)
  then have "unat (of_nat ?dir :: u64) = ?dir" by (rule unat_of_nat_u64)
  moreover have "256 \<le> ps" "ps \<le> 1024 * 1024" using fits by (simp_all add: run_fits_def)
  ultimately show ?thesis using reads by (simp add: open_header_def)
qed

lemma file_layout:
  assumes fits: "run_fits crc ps dv n pss"
  defines "dir \<equiv> HEADER_LEN + length (body_bytes crc pss)"
  defines "bs \<equiv> paged_file crc ps dv n pss"
  shows "pages_at crc bs (dir_positions (dir + 4) (length pss)) HEADER_LEN pss"
    and "length bs = dir + length (directory_bytes crc pss) + 4"
    and "length (directory_bytes crc pss) = 4 + 8 * length pss"
    and "cursor_at bs dir (directory_bytes crc pss
      @ to_le_bytes (crc (concat (map (page_metadata crc) pss) @ directory_bytes crc pss)))"
    and "length bs < usize_limit"
proof -
  show len: "length bs < usize_limit" using fits by (simp add: run_fits_def usize_limit_def bs_def)
  show "length bs = dir + length (directory_bytes crc pss) + 4"
    by (simp add: bs_def dir_def paged_file_def)
  show "length (directory_bytes crc pss) = 4 + 8 * length pss"
    by (simp add: directory_bytes_def DIRECTORY_MAGIC_V3_def length_concat comp_def page_starts_def sum_list_triv)
  show "cursor_at bs dir (directory_bytes crc pss
      @ to_le_bytes (crc (concat (map (page_metadata crc) pss) @ directory_bytes crc pss)))"
    using len by (simp add: cursor_at_def bs_def dir_def paged_file_def)
  let ?h = "file_header crc ps dv n (of_nat (HEADER_LEN + length (body_bytes crc pss))) (length pss)"
  have "bs = ?h @ concat (map (page_bytes crc) pss) @ DIRECTORY_MAGIC_V3
      @ concat (map (\<lambda>off. to_le_bytes (of_nat off :: u64)) (placed (\<lambda>off _. off) (page_bytes crc) (length ?h) pss))
      @ to_le_bytes (crc (concat (map (page_metadata crc) pss) @ directory_bytes crc pss))"
    by (simp add: bs_def paged_file_def body_bytes_def directory_bytes_def page_starts_def)
  from pages_at_layout [OF this len]
  show "pages_at crc bs (dir_positions (dir + 4) (length pss)) HEADER_LEN pss"
    by (simp add: dir_def body_bytes_def DIRECTORY_MAGIC_V3_def add.assoc)
qed

lemma paged_open_written:
  assumes fits: "run_fits crc ps dv n pss" and ok: "list_all page_ok pss" and sorted: "sorted (concat pss)"
  shows "\<exists>ix. paged_open crc (paged_file crc ps dv n pss) = Some (Inr ix) \<and> index_holds crc ix pss
    \<and> px_dump_version ix = dv \<and> px_entry_count ix = n \<and> px_format ix = FORMAT \<and> px_mmap ix = paged_file crc ps dv n pss"
proof -
  define bs where "bs = paged_file crc ps dv n pss"
  define dir where "dir = HEADER_LEN + length (body_bytes crc pss)"
  define footer where "footer = to_le_bytes (crc (concat (map (page_metadata crc) pss) @ directory_bytes crc pss))"
  define ds where "ds = dir_positions (dir + 4) (length pss)"
  note layout = file_layout [OF fits, folded bs_def dir_def, folded ds_def footer_def]
  have dirlim: "dir < usize_limit" using layout(2,5) by simp
  have dend: "length bs - 4 = dir + 4 + 8 * length pss" using layout(2,3) by simp
  have "open_directory (open_entry_v2 bs dir) (length pss) (dir + 4) = Inr (ds, length bs - 4)"
    using open_directory_written [OF layout(1) [unfolded ds_def] ok, of dir] dirlim
    by (simp add: dend ds_def dir_def body_bytes_def)
  moreover have "get_range bs dir (saturating_add dir 4) = Some DIRECTORY_MAGIC_V3"
  proof -
    have "cursor_at bs dir (DIRECTORY_MAGIC_V3 @ concat (map (\<lambda>off. to_le_bytes (of_nat off :: u64)) (page_starts crc pss)) @ footer)"
      using layout(4) by (simp add: directory_bytes_def)
    from cursor_at_range [OF this] layout(2,3,5) show ?thesis
      by (simp add: length_magic saturating_add_def)
  qed
  ultimately have pages: "open_pages bs FORMAT dir (length pss) = Inr (ds, length bs - 4)"
    using layout(2,3) by (simp add: open_pages_def directory_magic_def Let_def)
  let ?nav0 = "\<lparr>nav_metadata = [], nav_expected = HEADER_LEN, nav_last_spans = [], nav_first_span = None\<rparr>"
  obtain nav where nav: "open_navigation bs FORMAT dir ds ?nav0 = Some (Inr nav)"
    and meta: "nav_metadata nav = concat (map (page_metadata crc) pss)" and expected: "nav_expected nav = dir"
    using open_navigation_written [OF layout(1) ok, of FORMAT dir ?nav0] dirlim by (auto simp: dir_def body_bytes_def)
  have "check_navigation crc bs FORMAT dir (length bs - 4) nav = Inr ()"
  proof -
    have "cursor_at bs (dir + length (directory_bytes crc pss)) footer" using cursor_at_append [OF layout(4)] .
    then have "pg_read_u32 bs (length bs - 4) = Inr (crc (concat (map (page_metadata crc) pss) @ directory_bytes crc pss))"
      using pg_read_u32_cursor [of bs "length bs - 4" _ "[]"] layout(2) by (simp add: footer_def)
    moreover have "take (length bs - 4 - dir) (drop dir bs) = directory_bytes crc pss"
      using cursor_at_take [OF layout(4)] layout(2) by simp
    ultimately show ?thesis using expected meta by (simp add: check_navigation_def)
  qed
  moreover have "directory_sorted bs FORMAT ds" by (rule directory_sorted_written [OF layout(1) ok _ sorted]) simp
  moreover have "open_header crc bs = Inr (FORMAT, dv, n, dir, length pss)"
    using open_header_written [OF fits] by (simp add: bs_def dir_def)
  ultimately obtain ix where ix: "paged_open crc bs = Some (Inr ix)" "px_pages ix = ds" "px_dump_version ix = dv"
    "px_entry_count ix = n" "px_format ix = FORMAT" "px_mmap ix = bs"
    using pages nav by (simp add: paged_open_def)
  have map: "mappable bs" using fits by (simp add: run_fits_def bs_def)
  have "opened ix" using paged_open_sound [OF map, of crc] ix(1) by simp
  then have "index_holds crc ix pss"
    using layout(1) ok sorted map dir_positions_sorted [of "dir + 4" "length pss"]
    by (simp add: index_holds_def opened_def ix ds_def)
  with ix show ?thesis by (simp add: bs_def)
qed

lemma page_bounded_ok:
  assumes "page_bounded n es" and "n \<le> 1024 * 1024" and "es \<noteq> []" and "sorted es" and "list_all entry_fits es"
  shows "page_ok es"
proof -
  have "length (page_payload es) < 2 ^ 32" using assms(1)
    unfolding page_bounded_def
  proof
    assume "length es = 1"
    then obtain e where "es = [e]" by (auto simp: length_Suc_conv)
    with assms(5) show ?thesis by (simp add: page_payload_single length_entry_bytes entry_fits_def)
  qed (use assms(2) in simp)
  with assms show ?thesis by (simp add: page_ok_def)
qed

lemma length_pages_le: "[] \<notin> set pss \<Longrightarrow> length pss \<le> length (concat pss)"
proof (induction pss)
  case (Cons es pss)
  then have "1 \<le> length es" by (cases es) auto
  with Cons show ?case by simp
qed simp

text \<open>An upper bound for the length of a file: each page's navigation is charged to its entries.\<close>

definition run_weight :: "entry list \<Rightarrow> nat" where
  "run_weight es = sum_list (map (\<lambda>e. 32 + 3 * length (fst e) + length (snd e)) es)"

lemma run_weight_append [simp]: "run_weight (xs @ ys) = run_weight xs + run_weight ys"
  by (simp add: run_weight_def)

lemma run_weight_set: "run_weight (sorted_list_of_set (set es)) \<le> run_weight es"
proof -
  have "run_weight (sorted_list_of_set (set es)) = (\<Sum>e \<in> set es. 32 + 3 * length (fst e) + length (snd e))"
    unfolding run_weight_def by (subst sum_list_distinct_conv_sum_set) simp_all
  also have "\<dots> \<le> run_weight es" unfolding run_weight_def
  proof (induction es)
    case (Cons e es)
    then show ?case by (cases "e \<in> set es") (simp_all add: insert_absorb)
  qed simp
  finally show ?thesis .
qed

lemma page_weight: "es \<noteq> [] \<Longrightarrow> length (page_bytes crc es) + 8 \<le> run_weight es"
proof (induction es rule: rev_nonempty_induct)
  case (single e)
  then show ?case by (simp add: length_page_bytes page_payload_single length_entry_bytes run_weight_def)
next
  case (snoc e es)
  then show ?case by (simp add: length_page_bytes page_payload_single length_entry_bytes run_weight_def hd_append)
qed

lemma paged_file_length:
  assumes "[] \<notin> set pss"
  shows "length (paged_file crc ps dv n pss) \<le> 56 + run_weight (concat pss)"
proof -
  have "length (concat (map (page_bytes crc) pss)) + 8 * length pss \<le> run_weight (concat pss)"
    using assms
  proof (induction pss)
    case (Cons es pss)
    then show ?case using page_weight [of es crc] by auto
  qed simp
  moreover have "length (directory_bytes crc pss) = 4 + 8 * length pss"
    by (simp add: directory_bytes_def length_magic length_concat comp_def page_starts_def sum_list_triv)
  ultimately show ?thesis by (simp add: paged_file_def body_bytes_def)
qed

text \<open>Writing sorted entries gives a file that opens to an index of exactly those entries.\<close>

lemma written_run_opens:
  assumes ps: "256 \<le> ps" "ps \<le> 1024 * 1024" and fits: "list_all entry_fits es" and sorted: "sorted es"
    and few: "length es < 2 ^ 32"
  shows "\<exists>w. rbind (writer_create dv (Some ps)) (add_all crc es) = Inr w \<and>
    length (writer_finish crc w) \<le> 56 + run_weight es \<and> (mappable (writer_finish crc w) \<longrightarrow>
      (\<exists>ix pss. paged_open crc (writer_finish crc w) = Some (Inr ix) \<and> index_holds crc ix pss \<and> concat pss = es
        \<and> list_all (page_bounded ps) pss \<and> px_dump_version ix = dv \<and> px_entry_count ix = of_nat (length es)
        \<and> px_format ix = FORMAT))"
proof -
  obtain w0 where w0: "writer_create dv (Some ps) = Inr w0" "writer_holds crc w0 [] []" "pw_page_size w0 = ps"
    "pw_dump_version w0 = dv" using writer_create_holds [OF ps] by blast
  have "list_all (page_bounded (pw_page_size w0)) ([] @ [[]])" by (simp add: page_bounded_def)
  from add_all_holds [OF w0(2) fits _ this] sorted
  obtain w pss cur where w: "add_all crc es w0 = Inr w" "writer_holds crc w pss cur" "concat pss @ cur = es"
    "list_all (page_bounded ps) (pss @ [cur])" "pw_page_size w = ps" "pw_dump_version w = dv"
    using w0(3,4) by auto
  define all where "all = (if cur = [] then pss else pss @ [cur])"
  have bounded: "list_all (page_bounded ps) all" and es: "concat all = es" and ne: "[] \<notin> set all"
    using w by (auto simp: all_def writer_holds_def)
  have bytes: "writer_finish crc w = paged_file crc ps dv (of_nat (length es)) all"
    using writer_finish_holds [OF w(2)] w(3,5,6) by (simp add: all_def flip: length_append)
  have ok: "list_all page_ok all"
    unfolding list_all_iff
  proof
    fix p
    assume p: "p \<in> set all"
    then obtain xs ys where "all = xs @ p # ys" by (auto simp: in_set_conv_decomp)
    with es have "es = concat xs @ p @ concat ys" by simp
    with sorted fits have "sorted p" "list_all entry_fits p" by (simp_all add: sorted_append)
    then show "page_ok p" using p bounded ne ps(2) by (intro page_bounded_ok [of ps]) (auto simp: list_all_iff)
  qed
  have "\<exists>ix pss. paged_open crc (writer_finish crc w) = Some (Inr ix) \<and> index_holds crc ix pss \<and> concat pss = es
      \<and> list_all (page_bounded ps) pss \<and> px_dump_version ix = dv \<and> px_entry_count ix = of_nat (length es)
      \<and> px_format ix = FORMAT" if "mappable (writer_finish crc w)"
  proof -
    have "run_fits crc ps dv (of_nat (length es)) all"
      using that ps length_pages_le [OF ne] few es by (simp add: run_fits_def bytes)
    with paged_open_written [OF this ok] sorted es bounded show ?thesis unfolding bytes by blast
  qed
  moreover have "length (writer_finish crc w) \<le> 56 + run_weight es"
    using paged_file_length [OF ne] unfolding bytes es .
  ultimately show ?thesis using w0(1) w(1) by auto
qed

end
