(* ===== verification/Paged_Read.thy ===== *)
theory Paged_Read
  imports Paged_Write Cow_Map
begin

text \<open>
  Reading a run (\<open>paged.rs\<close>): point lookups through a binary search over the last keys of the
  pages, with and without the table fences, prefix cursors, full scans, and the page
  verification that checks each page's checksum once per mapping. For a run that holds some
  entries, every read is shown to return exactly the entries it should, in order, whatever
  pages they fell into and whatever was verified before.

  Reads set bits in \<open>verified\<close>: they return the index with them. Visitors are state-passing
  functions; an error of a visitor ends the read.
\<close>

section \<open>Navigation\<close>

definition span_bytes :: "bytes \<Rightarrow> u64 \<times> u32 \<Rightarrow> bytes" where
  "span_bytes mmap sp = take (unat (snd sp)) (drop (unat (fst sp)) mmap)"

definition px_first_key :: "paged_index \<Rightarrow> bytes option" where
  "px_first_key ix = map_option (span_bytes (px_mmap ix)) (px_first_key_span ix)"

definition last_key_at :: "paged_index \<Rightarrow> nat \<Rightarrow> bytes" where
  "last_key_at ix p = span_bytes (px_mmap ix) (px_last_key_spans ix ! p)"

definition px_last_key :: "paged_index \<Rightarrow> bytes option" where
  "px_last_key ix =
     (if px_last_key_spans ix = [] then None else Some (last_key_at ix (length (px_last_key_spans ix) - 1)))"

definition may_contain_key :: "paged_index \<Rightarrow> bytes \<Rightarrow> bool" where
  "may_contain_key ix key =
     (case px_first_key ix of
        Some first \<Rightarrow> first \<le> key \<and> (case px_last_key ix of Some lk \<Rightarrow> key \<le> lk | None \<Rightarrow> False)
      | None \<Rightarrow> False)"

definition starts_with :: "bytes \<Rightarrow> bytes \<Rightarrow> bool" where
  "starts_with key pre \<longleftrightarrow> take (length pre) key = pre"

definition may_contain_prefix :: "paged_index \<Rightarrow> bytes \<Rightarrow> bool" where
  "may_contain_prefix ix pre =
     (case px_first_key ix of
        Some first \<Rightarrow> (first \<le> pre \<or> starts_with first pre)
          \<and> (case px_last_key ix of Some lk \<Rightarrow> lk \<ge> pre | None \<Rightarrow> False)
      | None \<Rightarrow> False)"

function first_page_between :: "paged_index \<Rightarrow> bytes \<Rightarrow> bool \<Rightarrow> nat \<Rightarrow> nat \<Rightarrow> nat" where
  "first_page_between ix key strictly_after low high =
     (if low < high then
        let mid = low + (high - low) div 2;
            lk = last_key_at ix mid;
            before = (if strictly_after then lk \<le> key else lk < key)
        in if before then first_page_between ix key strictly_after (mid + 1) high
           else first_page_between ix key strictly_after low mid
      else low)"
  by pat_completeness auto
termination
  by (relation "measure (\<lambda>(ix, key, s, low, high). high - low)") auto

declare first_page_between.simps [simp del]

definition first_page_for :: "paged_index \<Rightarrow> bytes \<Rightarrow> bool \<Rightarrow> nat" where
  "first_page_for ix key strictly_after =
     first_page_between ix key strictly_after 0 (length (px_last_key_spans ix))"

section \<open>Table fences\<close>

definition id_fence :: "bytes \<Rightarrow> u64" where
  "id_fence rid = (let n = min (length rid) 8 in from_be_bytes (take n rid @ replicate (8 - n) 0))"

definition split_table_key :: "bytes \<Rightarrow> (bytes \<times> bytes) option" where
  "split_table_key key =
     Option.bind (get_range key 0 4) (\<lambda>bs.
     let len = unat (from_be_bytes bs :: u32) in
     Option.bind (opt_filter (\<lambda>e. e \<le> length key) (checked_add 4 len)) (\<lambda>end_pos.
     Some (take end_pos key, drop end_pos key)))"

record key_fences =
  kf_tables :: "(bytes \<times> nat \<times> nat) list"
  kf_ids :: "u64 list"

text \<open>One position of the loop of \<open>build_fences\<close>: extend the last table or open a new one.\<close>

definition fence_step :: "paged_index \<Rightarrow> nat \<Rightarrow> key_fences \<Rightarrow> key_fences option" where
  "fence_step ix p f =
     Option.bind (split_table_key (last_key_at ix p)) (\<lambda>(table, rid).
     let ids = kf_ids f @ [id_fence rid];
         fresh = Some \<lparr>kf_tables = kf_tables f @ [(table, p, p + 1)], kf_ids = ids\<rparr>
     in if kf_tables f = [] then fresh
        else
          (case last (kf_tables f) of
             (last_table, start, _) \<Rightarrow>
               if last_table = table
               then Some \<lparr>kf_tables = butlast (kf_tables f) @ [(last_table, start, p + 1)], kf_ids = ids\<rparr>
               else if last_table > table then None
               else fresh))"

fun fence_loop :: "paged_index \<Rightarrow> nat list \<Rightarrow> key_fences \<Rightarrow> key_fences option" where
  "fence_loop ix [] f = Some f"
| "fence_loop ix (p # ps) f = Option.bind (fence_step ix p f) (fence_loop ix ps)"

definition build_fences :: "paged_index \<Rightarrow> key_fences option" where
  "build_fences ix = fence_loop ix [0..<length (px_last_key_spans ix)] \<lparr>kf_tables = [], kf_ids = []\<rparr>"

function fence_search :: "paged_index \<Rightarrow> u64 list \<Rightarrow> bytes \<Rightarrow> u64 \<Rightarrow> nat \<Rightarrow> nat \<Rightarrow> nat" where
  "fence_search ix ids key wanted low high =
     (if low < high then
        let mid = low + (high - low) div 2;
            before = (if ids ! mid < wanted then True
                      else if ids ! mid > wanted then False
                      else last_key_at ix mid < key)
        in if before then fence_search ix ids key wanted (mid + 1) high
           else fence_search ix ids key wanted low mid
      else low)"
  by pat_completeness auto
termination
  by (relation "measure (\<lambda>(ix, ids, key, w, low, high). high - low)") auto

declare fence_search.simps [simp del]

definition first_page_for_table_key :: "paged_index \<Rightarrow> bytes \<Rightarrow> nat" where
  "first_page_for_table_key ix key =
     (case build_fences ix of
        None \<Rightarrow> first_page_for ix key False
      | Some f \<Rightarrow>
          (case split_table_key key of
             None \<Rightarrow> first_page_for ix key False
           | Some (table, rid) \<Rightarrow>
               (case binary_search table (kf_tables f) of
                  Inr at \<Rightarrow> fence_search ix (kf_ids f) key (id_fence rid)
                              (fst (snd (kf_tables f ! at))) (snd (snd (kf_tables f ! at)))
                | Inl at \<Rightarrow> if at < length (kf_tables f) then fst (snd (kf_tables f ! at))
                            else length (px_last_key_spans ix))))"

section \<open>Reading pages\<close>

definition verified_bit :: "paged_index \<Rightarrow> nat \<Rightarrow> bool" where
  "verified_bit ix p \<longleftrightarrow> bit (px_verified ix ! (p div 64)) (p mod 64)"

definition set_verified :: "nat \<Rightarrow> paged_index \<Rightarrow> paged_index" where
  "set_verified p ix =
     ix\<lparr>px_verified := (px_verified ix)[p div 64 := px_verified ix ! (p div 64) OR push_bit (p mod 64) 1]\<rparr>"

definition verify_page :: "(bytes \<Rightarrow> u32) \<Rightarrow> paged_index \<Rightarrow> page_view \<Rightarrow> bytes \<Rightarrow> u32 \<Rightarrow> unit result \<times> paged_index" where
  "verify_page crc ix page payload stored_crc =
     (let slot = (case pv_position page of
                    Some p \<Rightarrow> Some p
                  | None \<Rightarrow> (case binary_search (pv_directory_entry page) (map (\<lambda>d. (d, ())) (px_pages ix)) of
                              Inr p \<Rightarrow> Some p | Inl _ \<Rightarrow> None))
      in if (case slot of Some p \<Rightarrow> verified_bit ix p | None \<Rightarrow> False) then (Inr (), ix)
         else if crc payload \<noteq> stored_crc then (Inl (Corrupt ''paged index: page crc mismatch''), ix)
         else (Inr (), case slot of Some p \<Rightarrow> set_verified p ix | None \<Rightarrow> ix))"

text \<open>The opening of every page read: the stored length, the payload and its verification.\<close>

definition load_page :: "(bytes \<Rightarrow> u32) \<Rightarrow> paged_index \<Rightarrow> page_view \<Rightarrow> bytes result \<times> paged_index" where
  "load_page crc ix page =
     (case rbind (pg_read_u32 (px_mmap ix) (pv_offset page)) (\<lambda>stored_len.
           rbind (pg_read_u32 (px_mmap ix) (pv_offset page + 4)) (\<lambda>stored_crc.
           if unat stored_len \<noteq> pv_payload_len page then Inl (Corrupt ''paged index: page length mismatch'')
           else
             rbind (ok_or (Corrupt ''paged index: truncated page'')
                      (get_range (px_mmap ix) (pv_payload_offset page) (pv_payload_offset page + pv_payload_len page)))
               (\<lambda>payload. Inr (payload, stored_crc)))) of
        Inl e \<Rightarrow> (Inl e, ix)
      | Inr (payload, stored_crc) \<Rightarrow>
          (case verify_page crc ix page payload stored_crc of
             (Inl e, ix) \<Rightarrow> (Inl e, ix)
           | (Inr _, ix) \<Rightarrow> (Inr payload, ix)))"

function scan_entries_until :: "('s \<Rightarrow> bytes \<Rightarrow> bytes \<Rightarrow> ('s \<times> bool) result) \<Rightarrow> bytes \<Rightarrow> nat \<Rightarrow> 's \<Rightarrow> ('s \<times> bool) result" where
  "scan_entries_until visit payload pos s =
     (if pos < length payload then
        (case page_entry_at payload pos of
           Inl e \<Rightarrow> Inl e
         | Inr ((key, stored), pos') \<Rightarrow>
             (case visit s key stored of
                Inl e \<Rightarrow> Inl e
              | Inr (s', go) \<Rightarrow> if \<not> go then Inr (s', False) else scan_entries_until visit payload pos' s'))
      else Inr (s, True))"
  by pat_completeness auto
termination
  by (relation "measure (\<lambda>(v, payload, pos, s). length payload - pos)") (auto dest: page_entry_at_advances)

declare scan_entries_until.simps [simp del]

definition scan_page_until :: "(bytes \<Rightarrow> u32) \<Rightarrow> paged_index \<Rightarrow> page_view
    \<Rightarrow> ('s \<Rightarrow> bytes \<Rightarrow> bytes \<Rightarrow> ('s \<times> bool) result) \<Rightarrow> 's \<Rightarrow> ('s \<times> bool) result \<times> paged_index" where
  "scan_page_until crc ix page visit s =
     (case load_page crc ix page of
        (Inl e, ix) \<Rightarrow> (Inl e, ix)
      | (Inr payload, ix) \<Rightarrow> (scan_entries_until visit payload 0 s, ix))"

definition scan_page :: "(bytes \<Rightarrow> u32) \<Rightarrow> paged_index \<Rightarrow> page_view
    \<Rightarrow> ('s \<Rightarrow> bytes \<Rightarrow> bytes \<Rightarrow> 's result) \<Rightarrow> 's \<Rightarrow> 's result \<times> paged_index" where
  "scan_page crc ix page visit s =
     (case load_page crc ix page of
        (Inl e, ix) \<Rightarrow> (Inl e, ix)
      | (Inr payload, ix) \<Rightarrow>
          (rbind (scan_entries_until (\<lambda>s k v. rbind (visit s k v) (\<lambda>s. Inr (s, True))) payload 0 s) (\<lambda>(s, _). Inr s), ix))"

fun scan_pages :: "(bytes \<Rightarrow> u32) \<Rightarrow> nat list \<Rightarrow> paged_index
    \<Rightarrow> ('s \<Rightarrow> bytes \<Rightarrow> bytes \<Rightarrow> 's result) \<Rightarrow> 's \<Rightarrow> 's result \<times> paged_index" where
  "scan_pages crc [] ix visit s = (Inr s, ix)"
| "scan_pages crc (d # ds) ix visit s =
     (case scan_page crc ix (px_page ix d) visit s of
        (Inl e, ix) \<Rightarrow> (Inl e, ix)
      | (Inr s, ix) \<Rightarrow> scan_pages crc ds ix visit s)"

definition px_scan :: "(bytes \<Rightarrow> u32) \<Rightarrow> paged_index
    \<Rightarrow> ('s \<Rightarrow> bytes \<Rightarrow> bytes \<Rightarrow> 's result) \<Rightarrow> 's \<Rightarrow> 's result \<times> paged_index" where
  "px_scan crc ix visit s = scan_pages crc (px_pages ix) ix visit s"

fun validate_page_list :: "(bytes \<Rightarrow> u32) \<Rightarrow> paged_index \<Rightarrow> nat list \<Rightarrow> unit result" where
  "validate_page_list crc ix [] = Inr ()"
| "validate_page_list crc ix (d # ds) =
     (let page = px_page ix d in
      rbind (pg_read_u32 (px_mmap ix) (pv_offset page)) (\<lambda>stored_len.
      rbind (pg_read_u32 (px_mmap ix) (pv_offset page + 4)) (\<lambda>stored_crc.
      if unat stored_len \<noteq> pv_payload_len page then Inl (Corrupt ''paged index: page length mismatch'')
      else
        rbind (ok_or (Corrupt ''paged index: truncated page'')
                 (get_range (px_mmap ix) (pv_payload_offset page) (pv_payload_offset page + pv_payload_len page))) (\<lambda>payload.
        if crc payload \<noteq> stored_crc then Inl (Corrupt ''paged index: page crc mismatch'')
        else validate_page_list crc ix ds))))"

definition validate_pages :: "(bytes \<Rightarrow> u32) \<Rightarrow> paged_index \<Rightarrow> unit result" where
  "validate_pages crc ix = validate_page_list crc ix (px_pages ix)"

section \<open>Point lookups\<close>

definition key_visitor :: "bytes \<Rightarrow> ('s \<Rightarrow> bytes \<Rightarrow> ('s \<times> bool) result) \<Rightarrow> 's \<Rightarrow> bytes \<Rightarrow> bytes \<Rightarrow> ('s \<times> bool) result" where
  "key_visitor key visit s candidate stored =
     (if candidate < key then Inr (s, True) else if candidate = key then visit s stored else Inr (s, False))"

fun visit_key_from :: "(bytes \<Rightarrow> u32) \<Rightarrow> nat list \<Rightarrow> bytes \<Rightarrow> ('s \<Rightarrow> bytes \<Rightarrow> ('s \<times> bool) result)
    \<Rightarrow> paged_index \<Rightarrow> 's \<Rightarrow> 's result \<times> paged_index" where
  "visit_key_from crc [] key visit ix s = (Inr s, ix)"
| "visit_key_from crc (p # ps) key visit ix s =
     (let page = page_at ix p in
      if pv_first_key page > key then (Inr s, ix)
      else if pv_last_key page < key then visit_key_from crc ps key visit ix s
      else
        (case scan_page_until crc ix page (key_visitor key visit) s of
           (Inl e, ix) \<Rightarrow> (Inl e, ix)
         | (Inr (s, go), ix) \<Rightarrow> if \<not> go then (Inr s, ix) else visit_key_from crc ps key visit ix s))"

definition visit_key :: "(bytes \<Rightarrow> u32) \<Rightarrow> paged_index \<Rightarrow> bytes \<Rightarrow> ('s \<Rightarrow> bytes \<Rightarrow> ('s \<times> bool) result) \<Rightarrow> 's
    \<Rightarrow> 's result \<times> paged_index" where
  "visit_key crc ix key visit s =
     visit_key_from crc [first_page_for ix key False..<length (px_pages ix)] key visit ix s"

definition visit_table_key :: "(bytes \<Rightarrow> u32) \<Rightarrow> paged_index \<Rightarrow> bytes \<Rightarrow> ('s \<Rightarrow> bytes \<Rightarrow> ('s \<times> bool) result) \<Rightarrow> 's
    \<Rightarrow> 's result \<times> paged_index" where
  "visit_table_key crc ix key visit s =
     visit_key_from crc [first_page_for_table_key ix key..<length (px_pages ix)] key visit ix s"

section \<open>Prefix cursors\<close>

record prefix_cursor =
  pc_prefix :: bytes
  pc_after :: "bytes option"
  pc_page_index :: nat
  pc_pos :: nat
  pc_end :: nat
  pc_done :: bool

definition prefix_cursor_after :: "paged_index \<Rightarrow> bytes \<Rightarrow> bytes option \<Rightarrow> prefix_cursor" where
  "prefix_cursor_after ix pre after =
     \<lparr>pc_prefix = pre, pc_after = after,
      pc_page_index = (case after of Some a \<Rightarrow> first_page_for ix a True | None \<Rightarrow> first_page_for ix pre False),
      pc_pos = 0, pc_end = 0, pc_done = False\<rparr>"

text \<open>The entry at the cursor, which has to end inside the page.\<close>

definition cursor_entry :: "bytes \<Rightarrow> nat \<Rightarrow> nat \<Rightarrow> (entry \<times> nat) result" where
  "cursor_entry mmap pos page_end =
     rbind (pg_read_u32_at mmap pos) (\<lambda>(key_len, pos).
     rbind (pg_read_u32_at mmap pos) (\<lambda>(value_len, pos).
     if (case Option.bind (checked_add pos (unat key_len)) (\<lambda>e. checked_add e (unat value_len)) of
           None \<Rightarrow> True | Some e \<Rightarrow> e > page_end)
     then Inl (Corrupt ''paged index: truncated page entry'')
     else
       rbind (pg_take mmap pos (unat key_len)) (\<lambda>(key, pos).
       rbind (pg_take mmap pos (unat value_len)) (\<lambda>(stored, pos).
       Inr ((key, stored), pos)))))"

lemma cursor_entry_advances: "cursor_entry mmap pos e = Inr (x, pos') \<Longrightarrow> pos < pos' \<and> pos' \<le> e"
  by (auto simp: cursor_entry_def pg_read_u32_at_def pg_take_def result_dests bind_eq_Some_conv
      split: if_splits option.splits dest!: checked_add_Some)

text \<open>The inner loop over the entries of the page: \<open>Some r\<close> is the \<open>return Ok(r)\<close>, \<open>None\<close> the end of the page.\<close>

function next_in_page :: "bytes \<Rightarrow> prefix_cursor \<Rightarrow> (prefix_cursor \<times> entry option option) result" where
  "next_in_page mmap c =
     (if pc_pos c < pc_end c then
        (case cursor_entry mmap (pc_pos c) (pc_end c) of
           Inl e \<Rightarrow> Inl e
         | Inr ((key, stored), pos) \<Rightarrow>
             if (case pc_after c of Some a \<Rightarrow> key \<le> a | None \<Rightarrow> False) then next_in_page mmap (c\<lparr>pc_pos := pos\<rparr>)
             else
               let c = c\<lparr>pc_pos := pos, pc_after := None\<rparr> in
               if starts_with key (pc_prefix c) then Inr (c, Some (Some (key, stored)))
               else if key > pc_prefix c then Inr (c\<lparr>pc_done := True\<rparr>, Some None)
               else next_in_page mmap c)
      else Inr (c, None))"
  by pat_completeness auto
termination
  by (relation "measure (\<lambda>(mmap, c). pc_end c - pc_pos c)") (auto dest!: cursor_entry_advances)

declare next_in_page.simps [simp del]

text \<open>The position of a cursor never passes \<open>end\<close>: an entry that would is refused. The loop loads
  the next page when the position reached it.\<close>

lemma next_in_page_end: "next_in_page mmap c = Inr (c', None) \<Longrightarrow> \<not> pc_pos c' < pc_end c' \<and> pc_page_index c' = pc_page_index c"
proof (induction mmap c rule: next_in_page.induct)
  case (1 mmap c)
  note ind = 1(1,2) and res = 1(3)
  show ?case
  proof (cases "pc_pos c < pc_end c")
    case True
    show ?thesis
    proof (cases "cursor_entry mmap (pc_pos c) (pc_end c)")
      case (Inl e)
      with True res show ?thesis by (subst (asm) next_in_page.simps) simp
    next
      case (Inr r)
      obtain key stored pos where r: "r = ((key, stored), pos)" by (metis surj_pair)
      show ?thesis
      proof (cases "case pc_after c of Some a \<Rightarrow> key \<le> a | None \<Rightarrow> False")
        case after: True
        with True Inr r res have "next_in_page mmap (c\<lparr>pc_pos := pos\<rparr>) = Inr (c', None)"
          by (subst (asm) next_in_page.simps) simp
        with ind(1) [OF True Inr r [symmetric] refl after] show ?thesis by simp
      next
        case after: False
        with True Inr r res have "\<not> starts_with key (pc_prefix c)" "\<not> key > pc_prefix c"
          and "next_in_page mmap (c\<lparr>pc_pos := pos, pc_after := None\<rparr>) = Inr (c', None)"
          by (simp_all add: next_in_page.simps [of mmap c] Let_def split: if_splits)
        with ind(2) [OF True Inr r [symmetric] refl after refl] show ?thesis by simp
      qed
    qed
  qed (use res in \<open>subst (asm) next_in_page.simps, simp\<close>)
qed

definition cursor_load :: "(bytes \<Rightarrow> u32) \<Rightarrow> paged_index \<Rightarrow> prefix_cursor \<Rightarrow> prefix_cursor result \<times> paged_index" where
  "cursor_load crc ix c =
     (let page = page_at ix (pc_page_index c) in
      if pv_first_key page > pc_prefix c \<and> \<not> starts_with (pv_first_key page) (pc_prefix c)
      then (Inr (c\<lparr>pc_done := True\<rparr>), ix)
      else
        (case load_page crc ix page of
           (Inl e, ix) \<Rightarrow> (Inl e, ix)
         | (Inr _, ix) \<Rightarrow>
             (Inr (c\<lparr>pc_pos := pv_payload_offset page, pc_end := pv_payload_offset page + pv_payload_len page,
                     pc_page_index := pc_page_index c + 1\<rparr>), ix)))"

lemma cursor_load_step:
  "cursor_load crc ix c = (Inr c', ix') \<Longrightarrow>
     (pc_done c' \<or> pc_page_index c' = pc_page_index c + 1) \<and> length (px_pages ix') = length (px_pages ix)"
  by (auto simp: cursor_load_def load_page_def verify_page_def set_verified_def Let_def
      split: if_splits prod.splits sum.splits option.splits)

function cursor_next :: "(bytes \<Rightarrow> u32) \<Rightarrow> paged_index \<Rightarrow> prefix_cursor
    \<Rightarrow> (prefix_cursor \<times> entry option) result \<times> paged_index" where
  "cursor_next crc ix c =
     (if pc_done c then (Inr (c, None), ix)
      else if pc_pos c < pc_end c then
        (case next_in_page (px_mmap ix) c of
           Inl e \<Rightarrow> (Inl e, ix)
         | Inr (c', Some r) \<Rightarrow> (Inr (c', r), ix)
         | Inr (c', None) \<Rightarrow> cursor_next crc ix c')
      else if pc_page_index c < length (px_pages ix) then
        (case cursor_load crc ix c of
           (Inl e, ix) \<Rightarrow> (Inl e, ix)
         | (Inr c', ix) \<Rightarrow> cursor_next crc ix c')
      else (Inr (c, None), ix))"
  by pat_completeness auto
termination
  by (relation "measure (\<lambda>(crc, ix, c). if pc_done c then 0 else
      Suc (2 * (length (px_pages ix) - pc_page_index c) + (if pc_pos c < pc_end c then 1 else 0)))")
    (auto dest!: next_in_page_end cursor_load_step [OF sym])

declare cursor_next.simps [simp del]

section \<open>What the views of a held run show\<close>

lemma pages_at_nth:
  "pages_at crc mmap ds off pss \<Longrightarrow> p < length pss \<Longrightarrow>
     \<exists>o' r r'. cursor_at mmap (ds ! p) (to_le_bytes (of_nat o' :: u64) @ r) \<and> cursor_at mmap o' (page_bytes crc (pss ! p) @ r')"
proof (induction crc mmap ds off pss arbitrary: p rule: pages_at.induct)
  case (2 crc mmap d ds off es pss)
  then show ?case by (cases p) auto
qed auto

text \<open>Reads change nothing of an index but its verification bits.\<close>

definition same_run :: "paged_index \<Rightarrow> paged_index \<Rightarrow> bool" where
  "same_run ix ix' \<longleftrightarrow> (\<exists>vf. ix' = ix\<lparr>px_verified := vf\<rparr> \<and> length vf = length (px_verified ix))"

lemma same_run_refl [simp]: "same_run ix ix"
  unfolding same_run_def by (intro exI [of _ "px_verified ix"]) simp

lemma same_run_trans: "same_run a b \<Longrightarrow> same_run b c \<Longrightarrow> same_run a c"
  unfolding same_run_def by auto

lemma same_run_px: "same_run ix ix' \<Longrightarrow> px_mmap ix' = px_mmap ix \<and> px_pages ix' = px_pages ix \<and> px_format ix' = px_format ix
    \<and> px_last_key_spans ix' = px_last_key_spans ix \<and> px_first_key_span ix' = px_first_key_span ix"
  unfolding same_run_def by auto

lemma same_run_views: "same_run ix ix' \<Longrightarrow> px_page ix' = px_page ix \<and> page_at ix' = page_at ix \<and> last_key_at ix' = last_key_at ix"
  using same_run_px [of ix ix'] by (auto simp: px_page_def page_at_def last_key_at_def fun_eq_iff)

lemma same_run_holds: "same_run ix ix' \<Longrightarrow> index_holds crc ix pss \<Longrightarrow> index_holds crc ix' pss"
  using same_run_px [of ix ix'] same_run_views [of ix ix'] by (auto simp: index_holds_def same_run_def split: list.splits)

lemma index_holds_length: "index_holds crc ix pss \<Longrightarrow> length (px_pages ix) = length pss \<and> length (px_last_key_spans ix) = length pss"
  by (auto simp: index_holds_def dest: pages_at_length)

lemma page_at_holds:
  assumes holds: "index_holds crc ix pss" and p: "p < length pss"
  shows "\<exists>o' r. px_page ix (px_pages ix ! p) = written_view (px_pages ix ! p) o' (pss ! p)
    \<and> cursor_at (px_mmap ix) o' (page_bytes crc (pss ! p) @ r) \<and> page_ok (pss ! p)"
proof -
  have ok: "page_ok (pss ! p)" and fmt: "px_format ix \<noteq> FORMAT_V1"
    using holds p by (simp_all add: index_holds_def list_all_length)
  obtain o' r r' where "cursor_at (px_mmap ix) (px_pages ix ! p) (to_le_bytes (of_nat o' :: u64) @ r)"
    and at: "cursor_at (px_mmap ix) o' (page_bytes crc (pss ! p) @ r')"
    using holds p pages_at_nth by (metis index_holds_def)
  from page_view_written [OF this ok fmt] at ok show ?thesis by (auto simp: px_page_def)
qed

lemma page_keys:
  assumes holds: "index_holds crc ix pss" and p: "p < length pss"
  shows "pv_first_key (page_at ix p) = fst (hd (pss ! p))" and "pv_last_key (page_at ix p) = fst (last (pss ! p))"
    and "last_key_at ix p = fst (last (pss ! p))"
    and "px_first_key_span ix \<noteq> None" and "px_first_key ix = Some (fst (hd (pss ! 0)))"
proof -
  obtain o' r where v: "px_page ix (px_pages ix ! p) = written_view (px_pages ix ! p) o' (pss ! p)"
    and at: "cursor_at (px_mmap ix) o' (page_bytes crc (pss ! p) @ r)" and ok: "page_ok (pss ! p)"
    using page_at_holds [OF assms] by blast
  show "pv_first_key (page_at ix p) = fst (hd (pss ! p))" "pv_last_key (page_at ix p) = fst (last (pss ! p))"
    by (simp_all add: page_at_def v written_view_def)
  have limit: "o' + length (page_bytes crc (pss ! p)) < 2 ^ 64"
    using cursor_at_limit [OF at] by (simp add: usize_limit_def)
  have "px_last_key_spans ix ! p = last_span (written_view (px_pages ix ! p) o' (pss ! p))"
    using holds p index_holds_length [OF holds] v by (simp add: index_holds_def)
  moreover have "unat (of_nat (o' + 16 + length (fst (hd (pss ! p)))) :: u64) = o' + 16 + length (fst (hd (pss ! p)))"
    using limit by (intro unat_of_nat_u64) (simp add: length_page_bytes)
  ultimately show "last_key_at ix p = fst (last (pss ! p))"
    using page_cursor(6) [OF at ok] page_ok_lens(3) [OF ok]
    by (simp add: last_key_at_def span_bytes_def last_span_def written_view_def get_range_def split: if_splits)
  obtain o0 r0 where v0: "px_page ix (px_pages ix ! 0) = written_view (px_pages ix ! 0) o0 (pss ! 0)"
    and at0: "cursor_at (px_mmap ix) o0 (page_bytes crc (pss ! 0) @ r0)" and ok0: "page_ok (pss ! 0)"
    using page_at_holds [OF holds, of 0] p by (metis gr_implies_not0 length_greater_0_conv list.size(3))
  have limit0: "o0 + length (page_bytes crc (pss ! 0)) < 2 ^ 64"
    using cursor_at_limit [OF at0] by (simp add: usize_limit_def)
  have "px_pages ix \<noteq> []" using p index_holds_length [OF holds] by auto
  then have span: "px_first_key_span ix = Some (first_span (written_view (px_pages ix ! 0) o0 (pss ! 0)))"
    using holds v0 by (cases "px_pages ix") (auto simp: index_holds_def)
  moreover have "unat (of_nat (o0 + 16) :: u64) = o0 + 16"
    using limit0 by (intro unat_of_nat_u64) (simp add: length_page_bytes)
  ultimately show "px_first_key_span ix \<noteq> None" "px_first_key ix = Some (fst (hd (pss ! 0)))"
    using page_cursor(5) [OF at0 ok0] page_ok_lens(2) [OF ok0]
    by (simp_all add: px_first_key_def span_bytes_def first_span_def written_view_def get_range_def split: if_splits)
qed

lemma same_run_set_verified: "same_run ix (set_verified p ix)"
  unfolding same_run_def set_verified_def by (intro exI conjI, rule refl) simp

lemma verify_page_ok:
  assumes "crc payload = stored"
  shows "fst (verify_page crc ix page payload stored) = Inr ()" and "same_run ix (snd (verify_page crc ix page payload stored))"
  using assms same_run_set_verified by (auto simp: verify_page_def Let_def split: option.splits sum.splits)

lemma load_page_view:
  assumes at: "cursor_at (px_mmap ix) o' (page_bytes crc es @ r)" and ok: "page_ok es"
    and page: "pv_offset page = o'" "pv_payload_offset page = o' + 16 + length (fst (hd es)) + length (fst (last es))"
      "pv_payload_len page = length (page_payload es)"
  shows "\<exists>ix'. load_page crc ix page = (Inr (page_payload es), ix') \<and> same_run ix ix'"
proof -
  have "get_range (px_mmap ix) (pv_payload_offset page) (pv_payload_offset page + pv_payload_len page) = Some (page_payload es)"
    using cursor_at_range [OF page_cursor(7) [OF at ok]] by (simp add: page)
  with page_cursor(1,2) [OF at ok] page_ok_lens(1) [OF ok] page
  have "load_page crc ix page = (case verify_page crc ix page (page_payload es) (crc (page_payload es)) of
      (Inl e, ix) \<Rightarrow> (Inl e, ix) | (Inr _, ix) \<Rightarrow> (Inr (page_payload es), ix))"
    by (simp add: load_page_def)
  with verify_page_ok [of crc "page_payload es" _ ix page] show ?thesis
    by (auto split: prod.splits sum.splits)
qed

lemma load_page_at:
  assumes holds: "index_holds crc ix pss" and p: "p < length pss"
  shows "\<exists>ix'. load_page crc ix (page_at ix p) = (Inr (page_payload (pss ! p)), ix') \<and> same_run ix ix'"
    and "\<exists>ix'. load_page crc ix (px_page ix (px_pages ix ! p)) = (Inr (page_payload (pss ! p)), ix') \<and> same_run ix ix'"
proof -
  obtain o' r where v: "px_page ix (px_pages ix ! p) = written_view (px_pages ix ! p) o' (pss ! p)"
    and at: "cursor_at (px_mmap ix) o' (page_bytes crc (pss ! p) @ r)" and ok: "page_ok (pss ! p)"
    using page_at_holds [OF assms] by blast
  show "\<exists>ix'. load_page crc ix (page_at ix p) = (Inr (page_payload (pss ! p)), ix') \<and> same_run ix ix'"
    by (rule load_page_view [OF at ok]) (simp_all add: page_at_def v written_view_def)
  show "\<exists>ix'. load_page crc ix (px_page ix (px_pages ix ! p)) = (Inr (page_payload (pss ! p)), ix') \<and> same_run ix ix'"
    by (rule load_page_view [OF at ok]) (simp_all add: v written_view_def)
qed

section \<open>Scanning the entries of a page\<close>

fun visit_list :: "('s \<Rightarrow> bytes \<Rightarrow> bytes \<Rightarrow> ('s \<times> bool) result) \<Rightarrow> entry list \<Rightarrow> 's \<Rightarrow> ('s \<times> bool) result" where
  "visit_list visit [] s = Inr (s, True)"
| "visit_list visit (e # es) s =
     (case visit s (fst e) (snd e) of
        Inl err \<Rightarrow> Inl err
      | Inr (s', go) \<Rightarrow> if \<not> go then Inr (s', False) else visit_list visit es s')"

lemma scan_entries_exact:
  assumes "list_all entry_fits es" and "cursor_at payload pos (page_payload es)"
  shows "scan_entries_until visit payload pos s = visit_list visit es s"
  using assms
proof (induction es arbitrary: pos s)
  case Nil
  then have "\<not> pos < length payload" by (auto simp: cursor_at_def)
  then show ?case by (simp add: scan_entries_until.simps [of visit payload pos s])
next
  case (Cons e es)
  have at: "cursor_at payload pos (entry_bytes e @ page_payload es)" using Cons.prems(2) by (simp add: page_payload_def)
  have "pos < length payload" using cursor_at_length [OF at] length_entry_bytes [of e] by simp
  moreover have "page_entry_at payload pos = Inr (e, pos + length (entry_bytes e))"
    using page_entry_cursor [OF at] Cons.prems(1) by simp
  moreover have "scan_entries_until visit payload (pos + length (entry_bytes e)) s' = visit_list visit es s'" for s'
    using Cons.prems(1) cursor_at_append [OF at] by (intro Cons.IH) simp_all
  ultimately show ?case
    by (cases e) (simp add: scan_entries_until.simps [of visit payload pos s] split: sum.splits)
qed

lemma page_ok_fits: "page_ok es \<Longrightarrow> list_all entry_fits es"
  and page_ok_cursor: "page_ok es \<Longrightarrow> cursor_at (page_payload es) 0 (page_payload es)"
  by (simp_all add: page_ok_def cursor_at_def usize_limit_def)

lemma scan_page_entries: "page_ok es \<Longrightarrow> scan_entries_until visit (page_payload es) 0 s = visit_list visit es s"
  by (rule scan_entries_exact [OF page_ok_fits page_ok_cursor])

lemma scan_page_until_at:
  assumes holds: "index_holds crc ix pss" and p: "p < length pss"
  shows "\<exists>ix'. scan_page_until crc ix (page_at ix p) visit s = (visit_list visit (pss ! p) s, ix') \<and> same_run ix ix'"
proof -
  have "page_ok (pss ! p)" using holds p by (simp add: index_holds_def list_all_length)
  with load_page_at(1) [OF assms] show ?thesis
    by (auto simp: scan_page_until_def scan_page_entries)
qed

section \<open>Full scans\<close>

text \<open>What a visitor makes of entries in order, or its first error.\<close>

fun visit_all :: "('s \<Rightarrow> bytes \<Rightarrow> bytes \<Rightarrow> 's result) \<Rightarrow> entry list \<Rightarrow> 's \<Rightarrow> 's result" where
  "visit_all visit [] s = Inr s"
| "visit_all visit (e # es) s = rbind (visit s (fst e) (snd e)) (visit_all visit es)"

lemma visit_all_append: "visit_all visit (xs @ ys) s = rbind (visit_all visit xs s) (visit_all visit ys)"
  by (induction xs arbitrary: s) (auto simp: rbind_def split: sum.splits)

lemma visit_list_all:
  "visit_list (\<lambda>s k v. rbind (visit s k v) (\<lambda>s. Inr (s, True))) es s = rbind (visit_all visit es s) (\<lambda>s. Inr (s, True))"
  by (induction es arbitrary: s) (auto simp: rbind_def split: sum.splits)

lemma scan_page_at:
  assumes holds: "index_holds crc ix pss" and p: "p < length pss"
  shows "\<exists>ix'. scan_page crc ix (px_page ix (px_pages ix ! p)) visit s = (visit_all visit (pss ! p) s, ix') \<and> same_run ix ix'"
proof -
  have ok: "page_ok (pss ! p)" using holds p by (simp add: index_holds_def list_all_length)
  have "rbind (rbind (visit_all visit (pss ! p) s) (\<lambda>s. Inr (s, True))) (\<lambda>(s, _). Inr s) = visit_all visit (pss ! p) s"
    by (cases "visit_all visit (pss ! p) s") simp_all
  with load_page_at(2) [OF assms] show ?thesis
    by (auto simp: scan_page_def scan_page_entries [OF ok] visit_list_all)
qed

lemma scan_pages_from:
  assumes "index_holds crc ix pss"
  shows "\<exists>ix'. scan_pages crc (drop p (px_pages ix)) ix visit s = (visit_all visit (concat (drop p pss)) s, ix')
    \<and> same_run ix ix'"
  using assms
proof (induction "length pss - p" arbitrary: p ix s)
  case 0
  then have "drop p (px_pages ix) = []" "drop p pss = []" using index_holds_length by auto
  then show ?case by (intro exI [of _ ix]) simp
next
  case (Suc n)
  then have p: "p < length pss" by simp
  have len: "length (px_pages ix) = length pss" using index_holds_length [OF Suc.prems] by simp
  obtain ix1 where ix1: "scan_page crc ix (px_page ix (px_pages ix ! p)) visit s = (visit_all visit (pss ! p) s, ix1)" "same_run ix ix1"
    using scan_page_at [OF Suc.prems p, of visit s] by blast
  have cons: "drop p (px_pages ix) = px_pages ix ! p # drop (Suc p) (px_pages ix)" "drop p pss = pss ! p # drop (Suc p) pss"
    using p len by (simp_all only: Cons_nth_drop_Suc)
  show ?case
  proof (cases "visit_all visit (pss ! p) s")
    case (Inl e)
    with ix1 show ?thesis by (simp add: cons visit_all_append)
  next
    case (Inr s1)
    have "n = length pss - Suc p" using Suc.hyps(2) by simp
    from Suc.hyps(1) [OF this same_run_holds [OF ix1(2) Suc.prems], of s1]
    obtain ix2 where "scan_pages crc (drop (Suc p) (px_pages ix)) ix1 visit s1 = (visit_all visit (concat (drop (Suc p) pss)) s1, ix2)"
      "same_run ix1 ix2" using same_run_px [OF ix1(2)] by auto
    with Inr ix1 same_run_trans [OF ix1(2)] show ?thesis by (simp add: cons visit_all_append)
  qed
qed

lemma px_scan_holds:
  "index_holds crc ix pss \<Longrightarrow> \<exists>ix'. px_scan crc ix visit s = (visit_all visit (concat pss) s, ix') \<and> same_run ix ix'"
  using scan_pages_from [of crc ix pss 0] by (simp add: px_scan_def)

section \<open>Point lookups\<close>

fun visit_values :: "('s \<Rightarrow> bytes \<Rightarrow> ('s \<times> bool) result) \<Rightarrow> bytes list \<Rightarrow> 's \<Rightarrow> ('s \<times> bool) result" where
  "visit_values visit [] s = Inr (s, True)"
| "visit_values visit (v # vs) s =
     (case visit s v of
        Inl err \<Rightarrow> Inl err
      | Inr (s', go) \<Rightarrow> if \<not> go then Inr (s', False) else visit_values visit vs s')"

definition values_of :: "bytes \<Rightarrow> entry list \<Rightarrow> bytes list" where
  "values_of key es = map snd (filter (\<lambda>e. fst e = key) es)"

lemma values_of_append [simp]: "values_of key (xs @ ys) = values_of key xs @ values_of key ys"
  by (simp add: values_of_def)

lemma values_of_none: "(\<And>e. e \<in> set es \<Longrightarrow> fst e \<noteq> key) \<Longrightarrow> values_of key es = []"
  by (simp add: values_of_def filter_empty_conv)

lemma visit_values_append:
  "visit_values visit (xs @ ys) s =
     (case visit_values visit xs s of Inr (s', True) \<Rightarrow> visit_values visit ys s' | r \<Rightarrow> r)"
  by (induction xs arbitrary: s) (auto split: sum.splits bool.splits)

lemma sorted_fst: "sorted (xs :: entry list) \<Longrightarrow> i \<le> j \<Longrightarrow> j < length xs \<Longrightarrow> fst (xs ! i) \<le> fst (xs ! j)"
  by (drule (2) sorted_nth_mono) (auto simp: less_eq_prod_def)

lemma sorted_map_fst: "sorted (es :: entry list) \<Longrightarrow> sorted (map fst es)"
  by (intro sorted_iff_nth_mono [THEN iffD2]) (auto intro: sorted_fst)

lemma visit_list_key:
  assumes "sorted (map fst es)"
  shows "visit_list (key_visitor key visit) es s =
    (case visit_values visit (values_of key es) s of
       Inl e \<Rightarrow> Inl e
     | Inr (s', go) \<Rightarrow> Inr (s', go \<and> list_all (\<lambda>e. fst e \<le> key) es))"
  using assms
proof (induction es arbitrary: s)
  case Nil
  then show ?case by (simp add: values_of_def)
next
  case (Cons e es)
  consider "fst e < key" | "fst e = key" | "key < fst e" by fastforce
  then show ?case
  proof cases
    case 1
    then have "values_of key (e # es) = values_of key es" by (simp add: values_of_def)
    moreover have "key_visitor key visit s (fst e) (snd e) = Inr (s, True)" using 1 by (simp add: key_visitor_def)
    ultimately show ?thesis using 1 Cons
      by (cases "visit_values visit (values_of key es) s") (auto simp: less_imp_le)
  next
    case 2
    then have vals: "values_of key (e # es) = snd e # values_of key es" by (simp add: values_of_def)
    have kv: "key_visitor key visit s (fst e) (snd e) = visit s (snd e)" using 2 by (simp add: key_visitor_def)
    have ih: "visit_list (key_visitor key visit) es s' = (case visit_values visit (values_of key es) s' of
        Inl e \<Rightarrow> Inl e | Inr (s', go) \<Rightarrow> Inr (s', go \<and> list_all (\<lambda>e. fst e \<le> key) es))" for s'
      using Cons by simp
    note eq = visit_list.simps(2) [of "key_visitor key visit" e es s, unfolded kv ih]
    show ?thesis
    proof (cases "visit s (snd e)")
      case (Inr r)
      obtain s' go where r: "r = (s', go)" by force
      show ?thesis unfolding eq vals
        by (cases go; cases "visit_values visit (values_of key es) s'") (auto simp: Inr r 2)
    qed (simp add: vals kv)
  next
    case 3
    then have "values_of key (e # es) = []" using Cons.prems by (intro values_of_none) fastforce
    moreover have "key_visitor key visit s (fst e) (snd e) = Inr (s, False)" using 3 by (auto simp: key_visitor_def)
    ultimately show ?thesis using 3 by (simp add: not_le)
  qed
qed

lemma page_order:
  assumes "sorted (concat pss)" and "list_all page_ok pss" and "p < length pss"
  shows "\<And>e. e \<in> set (pss ! p) \<Longrightarrow> fst (hd (pss ! p)) \<le> fst e \<and> fst e \<le> fst (last (pss ! p))"
    and "\<And>e. e \<in> set (concat (drop (Suc p) pss)) \<Longrightarrow> fst (last (pss ! p)) \<le> fst e"
    and "\<And>e. e \<in> set (concat (take p pss)) \<Longrightarrow> fst e \<le> fst (hd (pss ! p))"
    and "sorted (map fst (pss ! p))"
proof -
  have split: "concat pss = concat (take p pss) @ pss ! p @ concat (drop (Suc p) pss)"
    using assms(3) by (metis concat.simps(2) concat_append id_take_nth_drop)
  have ne: "pss ! p \<noteq> []" using assms(2,3) by (auto simp: list_all_length page_ok_def)
  have sorted: "sorted (map fst (concat (take p pss) @ pss ! p @ concat (drop (Suc p) pss)))"
    using sorted_map_fst [OF assms(1)] by (simp only: split)
  then show "sorted (map fst (pss ! p))" by (simp add: sorted_append)
  show "fst (last (pss ! p)) \<le> fst e" if "e \<in> set (concat (drop (Suc p) pss))" for e
    using sorted that last_in_set [OF ne] by (auto simp: sorted_append)
  show "fst e \<le> fst (hd (pss ! p))" if "e \<in> set (concat (take p pss))" for e
    using sorted that hd_in_set [OF ne] by (auto simp: sorted_append)
  obtain ys y where ys: "pss ! p = ys @ [y]" using ne by (cases "pss ! p" rule: rev_cases) auto
  obtain z zs where zs: "pss ! p = z # zs" using ne by (cases "pss ! p") auto
  show "fst (hd (pss ! p)) \<le> fst e \<and> fst e \<le> fst (last (pss ! p))" if "e \<in> set (pss ! p)" for e
  proof
    show "fst (hd (pss ! p)) \<le> fst e" using \<open>sorted (map fst (pss ! p))\<close> that unfolding zs by auto
    show "fst e \<le> fst (last (pss ! p))" using \<open>sorted (map fst (pss ! p))\<close> that unfolding ys by (auto simp: sorted_append)
  qed
qed

text \<open>One page of a lookup that holds the key's place.\<close>

lemma visit_key_page:
  assumes holds: "index_holds crc ix pss" and p: "p < length pss"
    and "\<not> key < fst (hd (pss ! p))" and "\<not> fst (last (pss ! p)) < key"
  shows "\<exists>ix1. same_run ix ix1 \<and> visit_key_from crc (p # ps) key visit ix s =
    (case visit_values visit (values_of key (pss ! p)) s of
       Inl e \<Rightarrow> (Inl e, ix1)
     | Inr (s', go) \<Rightarrow> if go \<and> list_all (\<lambda>e. fst e \<le> key) (pss ! p) then visit_key_from crc ps key visit ix1 s' else (Inr s', ix1))"
proof -
  obtain ix1 where ix1: "scan_page_until crc ix (page_at ix p) (key_visitor key visit) s
      = (visit_list (key_visitor key visit) (pss ! p) s, ix1)" "same_run ix ix1"
    using scan_page_until_at [OF holds p, of "key_visitor key visit" s] by blast
  have sorted: "sorted (map fst (pss ! p))" using holds p by (intro page_order) (simp_all add: index_holds_def)
  show ?thesis
  proof (intro exI conjI)
    show "same_run ix ix1" by (rule ix1)
    show "visit_key_from crc (p # ps) key visit ix s =
      (case visit_values visit (values_of key (pss ! p)) s of
         Inl e \<Rightarrow> (Inl e, ix1)
       | Inr (s', go) \<Rightarrow> if go \<and> list_all (\<lambda>e. fst e \<le> key) (pss ! p) then visit_key_from crc ps key visit ix1 s' else (Inr s', ix1))"
      unfolding visit_key_from.simps Let_def ix1(1) visit_list_key [OF sorted] page_keys(1,2) [OF holds p]
      using assms(3,4) by (cases "visit_values visit (values_of key (pss ! p)) s") auto
  qed
qed

lemma visit_key_from_exact:
  assumes "index_holds crc ix pss" and "p \<le> length pss"
  shows "\<exists>ix'. visit_key_from crc [p..<length pss] key visit ix s =
      (rbind (visit_values visit (values_of key (concat (drop p pss))) s) (\<lambda>(s, _). Inr s), ix') \<and> same_run ix ix'"
  using assms
proof (induction "length pss - p" arbitrary: p ix s)
  case 0
  then show ?case by (intro exI [of _ ix]) (simp add: values_of_def)
next
  case (Suc n)
  then have p: "p < length pss" by simp
  have ups: "[p..<length pss] = p # [Suc p..<length pss]" using p by (rule upt_conv_Cons)
  have cons: "concat (drop p pss) = pss ! p @ concat (drop (Suc p) pss)" using Cons_nth_drop_Suc [OF p] by (metis concat.simps(2))
  have pss: "sorted (concat pss)" "list_all page_ok pss" using Suc.prems(1) by (simp_all add: index_holds_def)
  note order = page_order [OF pss p] and keys = page_keys [OF Suc.prems(1) p]
  have n: "n = length pss - Suc p" "Suc p \<le> length pss" using Suc.hyps(2) p by simp_all
  note ih = Suc.hyps(1) [OF n(1) _ n(2)]
  have later: "values_of key (concat (drop (Suc p) pss)) = []" if "key < fst (last (pss ! p))"
    using that order(2) by (intro values_of_none) fastforce
  consider "key < fst (hd (pss ! p))" | "\<not> key < fst (hd (pss ! p))" "fst (last (pss ! p)) < key"
    | "\<not> key < fst (hd (pss ! p))" "\<not> fst (last (pss ! p)) < key" by blast
  then show ?case
  proof cases
    case 1
    then have here: "values_of key (pss ! p) = []" using order(1) by (intro values_of_none) fastforce
    have "key < fst (last (pss ! p))"
      using 1 order(1) [of "hd (pss ! p)"] pss(2) p by (auto simp: list_all_length page_ok_def)
    with 1 here later show ?thesis by (intro exI [of _ ix]) (simp add: ups cons keys)
  next
    case 2
    then have here: "values_of key (pss ! p) = []" using order(1) by (intro values_of_none) fastforce
    with 2 ih [OF Suc.prems(1)] show ?thesis by (simp add: ups cons keys)
  next
    case 3
    from visit_key_page [OF Suc.prems(1) p 3, of "[Suc p..<length pss]" visit s] obtain ix1 where ix1: "same_run ix ix1"
      and step: "visit_key_from crc [p..<length pss] key visit ix s =
        (case visit_values visit (values_of key (pss ! p)) s of
           Inl e \<Rightarrow> (Inl e, ix1)
         | Inr (s', go) \<Rightarrow> if go \<and> list_all (\<lambda>e. fst e \<le> key) (pss ! p)
             then visit_key_from crc [Suc p..<length pss] key visit ix1 s' else (Inr s', ix1))"
      unfolding ups by blast
    show ?thesis
    proof (cases "visit_values visit (values_of key (pss ! p)) s")
      case (Inl e)
      with ix1 step show ?thesis by (simp add: cons visit_values_append)
    next
      case (Inr r)
      obtain s' go where r: "r = (s', go)" by force
      show ?thesis
      proof (cases "go \<and> list_all (\<lambda>e. fst e \<le> key) (pss ! p)")
        case True
        obtain ix2 where "visit_key_from crc [Suc p..<length pss] key visit ix1 s' =
            (rbind (visit_values visit (values_of key (concat (drop (Suc p) pss))) s') (\<lambda>(s, _). Inr s), ix2)" "same_run ix1 ix2"
          using ih [OF same_run_holds [OF ix1 Suc.prems(1)], of s'] by blast
        with True step Inr r same_run_trans [OF ix1] show ?thesis by (simp add: cons visit_values_append)
      next
        case stop: False
        have "values_of key (concat (drop (Suc p) pss)) = []" if go
        proof (rule later)
          from that stop obtain e where "e \<in> set (pss ! p)" "key < fst e" by (auto simp: list_all_iff not_le)
          with order(1) show "key < fst (last (pss ! p))" by fastforce
        qed
        with stop step Inr r ix1 show ?thesis by (cases go) (simp_all add: cons visit_values_append)
      qed
    qed
  qed
qed

section \<open>Locating a page\<close>

text \<open>\<open>p\<close> is where a decreasing predicate on the first \<open>n\<close> positions turns false.\<close>

definition turns_at :: "(nat \<Rightarrow> bool) \<Rightarrow> nat \<Rightarrow> nat \<Rightarrow> bool" where
  "turns_at P n p \<longleftrightarrow> p \<le> n \<and> (\<forall>q < p. P q) \<and> (\<forall>q. p \<le> q \<and> q < n \<longrightarrow> \<not> P q)"

lemma turns_at_unique: "turns_at P n p \<Longrightarrow> turns_at P n p' \<Longrightarrow> p = p'"
  by (cases p p' rule: linorder_cases) (auto simp: turns_at_def)

definition falls :: "(nat \<Rightarrow> bool) \<Rightarrow> nat \<Rightarrow> bool" where
  "falls P n \<longleftrightarrow> (\<forall>q q'. q \<le> q' \<and> q' < n \<and> P q' \<longrightarrow> P q)"

text \<open>One step of a binary search between \<open>low\<close> and \<open>high\<close>.\<close>

lemma turns_between_step:
  assumes "falls P n" and "low < high" and "high \<le> n" and "\<forall>q < low. P q" and "\<forall>q. high \<le> q \<and> q < n \<longrightarrow> \<not> P q"
  defines "mid \<equiv> low + (high - low) div 2"
  shows "P mid \<Longrightarrow> \<forall>q < mid + 1. P q" and "\<not> P mid \<Longrightarrow> \<forall>q. mid \<le> q \<and> q < n \<longrightarrow> \<not> P q" and "low \<le> mid" and "mid < high"
proof -
  show bounds: "low \<le> mid" "mid < high" using assms(2) by (auto simp: mid_def)
  show "P mid \<Longrightarrow> \<forall>q < mid + 1. P q"
    using assms(1,3) bounds unfolding falls_def by (metis Suc_eq_plus1 less_Suc_eq_le order.strict_trans2)
  show "\<not> P mid \<Longrightarrow> \<forall>q. mid \<le> q \<and> q < n \<longrightarrow> \<not> P q"
    using assms(1) unfolding falls_def by blast
qed

abbreviation before_key :: "paged_index \<Rightarrow> bytes \<Rightarrow> bool \<Rightarrow> nat \<Rightarrow> bool" where
  "before_key ix key strictly q \<equiv> (if strictly then last_key_at ix q \<le> key else last_key_at ix q < key)"

lemma first_page_between_exact:
  assumes "falls (before_key ix key strictly) n" and "low \<le> high" and "high \<le> n"
    and "\<forall>q < low. before_key ix key strictly q" and "\<forall>q. high \<le> q \<and> q < n \<longrightarrow> \<not> before_key ix key strictly q"
  shows "turns_at (before_key ix key strictly) n (first_page_between ix key strictly low high)"
  using assms
proof (induction ix key strictly low high rule: first_page_between.induct)
  case (1 ix key strictly low high)
  show ?case
  proof (cases "low < high")
    case True
    define mid where "mid = low + (high - low) div 2"
    note step = turns_between_step [OF 1(3) True 1(5-7), folded mid_def]
    have rec: "first_page_between ix key strictly low high =
        (if before_key ix key strictly mid then first_page_between ix key strictly (mid + 1) high
         else first_page_between ix key strictly low mid)"
      using True by (simp add: first_page_between.simps [of ix key strictly low high] Let_def mid_def)
    show ?thesis
    proof (cases "before_key ix key strictly mid")
      case before: True
      have "turns_at (before_key ix key strictly) n (first_page_between ix key strictly (mid + 1) high)"
        by (rule 1(1) [OF True mid_def refl refl before 1(3) _ 1(5) step(1) [OF before] 1(7)]) (use step in simp)
      then show ?thesis by (simp only: rec if_P [OF before])
    next
      case after: False
      have "turns_at (before_key ix key strictly) n (first_page_between ix key strictly low mid)"
        by (rule 1(2) [OF True mid_def refl refl after 1(3) _ _ 1(6) step(2) [OF after]]) (use step 1(5) in simp_all)
      then show ?thesis by (simp only: rec if_not_P [OF after])
    qed
  next
    case False
    then have "low = high" using 1(4) by simp
    with 1(5-7) show ?thesis
      unfolding first_page_between.simps [of ix key strictly low high] turns_at_def by simp
  qed
qed

text \<open>Last keys ascend.\<close>

lemma last_keys_ascend:
  assumes holds: "index_holds crc ix pss" and "q \<le> q'" and "q' < length pss"
  shows "last_key_at ix q \<le> last_key_at ix q'"
proof (cases "q = q'")
  case False
  have pss: "sorted (concat pss)" "list_all page_ok pss" using holds by (simp_all add: index_holds_def)
  have q: "q < length pss" using assms by simp
  have ne: "pss ! q' \<noteq> []" using pss(2) assms(3) by (auto simp: list_all_length page_ok_def)
  have "pss ! q' \<in> set (drop (Suc q) pss)"
    unfolding in_set_conv_nth using assms False by (intro exI [of _ "q' - Suc q"]) simp
  then have "last (pss ! q') \<in> set (concat (drop (Suc q) pss))" using last_in_set [OF ne] by auto
  from page_order(2) [OF pss q this] show ?thesis by (simp add: page_keys(3) [OF holds] q assms(3))
qed simp

lemma before_key_falls:
  assumes "index_holds crc ix pss"
  shows "falls (before_key ix key strictly) (length pss)"
  using last_keys_ascend [OF assms] unfolding falls_def by (meson order_trans le_less_trans)

lemma first_page_for_exact:
  assumes "index_holds crc ix pss"
  shows "turns_at (before_key ix key strictly) (length pss) (first_page_for ix key strictly)"
  unfolding first_page_for_def using index_holds_length [OF assms] before_key_falls [OF assms]
  by (intro first_page_between_exact) auto

text \<open>Pages before it hold no key at or after the wanted one.\<close>

lemma before_first_page:
  assumes holds: "index_holds crc ix pss" and p: "p \<le> length pss" and "\<forall>q < p. before_key ix key strictly q"
    and e: "e \<in> set (concat (take p pss))"
  shows "if strictly then fst e \<le> key else fst e < key"
proof -
  have pss: "sorted (concat pss)" "list_all page_ok pss" using holds by (simp_all add: index_holds_def)
  from e obtain es where es: "es \<in> set (take p pss)" "e \<in> set es" by auto
  then obtain q where q: "q < p" "es = pss ! q" using p by (auto simp: in_set_conv_nth)
  then have "fst e \<le> last_key_at ix q" using page_order(1) [OF pss, of q e] es p page_keys(3) [OF holds, of q] by simp
  with assms(3) q(1) show ?thesis by (meson order_trans le_less_trans)
qed

lemma values_from_first_page:
  assumes holds: "index_holds crc ix pss" and p: "turns_at (before_key ix key False) (length pss) p"
  shows "values_of key (concat (drop p pss)) = values_of key (concat pss)" and "p \<le> length pss"
proof -
  show "p \<le> length pss" using p by (simp add: turns_at_def)
  have "values_of key (concat (take p pss)) = []"
  proof (rule values_of_none)
    fix e assume e: "e \<in> set (concat (take p pss))"
    have "fst e < key"
      using before_first_page [OF holds _ _ e, where key = key and strictly = False] p by (simp add: turns_at_def)
    then show "fst e \<noteq> key" by simp
  qed
  moreover have "concat pss = concat (take p pss) @ concat (drop p pss)" by (metis append_take_drop_id concat_append)
  ultimately show "values_of key (concat (drop p pss)) = values_of key (concat pss)" by simp
qed

lemma visit_key_holds:
  assumes "index_holds crc ix pss"
  shows "\<exists>ix'. visit_key crc ix key visit s =
      (rbind (visit_values visit (values_of key (concat pss)) s) (\<lambda>(s, _). Inr s), ix') \<and> same_run ix ix'"
  using visit_key_from_exact [OF assms, of "first_page_for ix key False" key visit s]
    values_from_first_page [OF assms first_page_for_exact [OF assms]] index_holds_length [OF assms]
  by (simp add: visit_key_def)

lemma may_contain_key_holds:
  assumes holds: "index_holds crc ix pss" and e: "e \<in> set (concat pss)"
  shows "may_contain_key ix (fst e)"
proof -
  have pss: "sorted (concat pss)" "list_all page_ok pss" using holds by (simp_all add: index_holds_def)
  obtain es where es: "es \<in> set pss" "e \<in> set es" using e by auto
  then obtain q where q: "q < length pss" "e \<in> set (pss ! q)" by (metis in_set_conv_nth)
  let ?n = "length pss - 1"
  have n: "?n < length pss" using q by simp
  have "fst e \<le> last_key_at ix q" using page_order(1) [OF pss q] page_keys(3) [OF holds q(1)] by simp
  also have "\<dots> \<le> last_key_at ix ?n" using q by (intro last_keys_ascend [OF holds]) simp_all
  finally have "fst e \<le> last_key_at ix ?n" .
  moreover have "fst (hd (pss ! 0)) \<le> fst e"
  proof (cases "q = 0")
    case True
    then show ?thesis using page_order(1) [OF pss q] by simp
  next
    case False
    have "0 < length pss" using q(1) by (cases pss) auto
    have ne: "pss ! 0 \<noteq> []" using pss(2) \<open>0 < length pss\<close> by (auto simp: list_all_length page_ok_def)
    have "pss ! 0 \<in> set (take q pss)" using False q by (metis in_set_conv_nth length_take min.absorb4 neq0_conv nth_take)
    then have "hd (pss ! 0) \<in> set (concat (take q pss))" using hd_in_set [OF ne] by auto
    with page_order(1,3) [OF pss q(1)] q(2) show ?thesis by (meson order_trans)
  qed
  ultimately show ?thesis
    using page_keys(5) [OF holds q(1)] n index_holds_length [OF holds]
    by (auto simp: may_contain_key_def px_last_key_def)
qed

section \<open>The table fences\<close>

lemma split_table_key_Some:
  assumes "split_table_key key = Some (table, rid)"
  shows "key = table @ rid" and "4 \<le> length table" and "length table = 4 + unat (from_be_bytes (take 4 table) :: u32)"
proof -
  from assms obtain n where n: "4 \<le> length key" "n = 4 + unat (from_be_bytes (take 4 key) :: u32)" "n \<le> length key"
    "table = take n key" "rid = drop n key"
    by (auto simp: split_table_key_def get_range_def opt_filter_def Let_def bind_eq_Some_conv
        split: if_splits option.splits dest!: checked_add_Some)
  then show "key = table @ rid" "4 \<le> length table" by simp_all
  show "length table = 4 + unat (from_be_bytes (take 4 table) :: u32)" using n by (simp add: min_def)
qed

lemma less_append_decided:
  fixes xs :: "'a::linorder list"
  shows "length xs = length ys \<Longrightarrow> xs < ys \<Longrightarrow> xs @ us < ys @ vs"
  by (simp add: append_less_same_length)

text \<open>No table prefix is a proper prefix of another, so keys compare by table first.\<close>

lemma table_key_less:
  assumes "split_table_key k = Some (t, i)" and "split_table_key k' = Some (t', i')"
  shows "k < k' \<longleftrightarrow> t < t' \<or> (t = t' \<and> i < i')"
proof -
  note s = split_table_key_Some [OF assms(1)] and s' = split_table_key_Some [OF assms(2)]
  have parts: "t = take 4 t @ drop 4 t" "t' = take 4 t' @ drop 4 t'" by simp_all
  have len4: "length (take 4 t) = length (take 4 t')" using s(2) s'(2) by simp
  show ?thesis
  proof (cases "take 4 t = take 4 t'")
    case True
    then have "length t = length t'" using s(3) s'(3) by simp
    then show ?thesis using s(1) s'(1) by (simp add: append_less_same_length)
  next
    case False
    have "k < k' \<longleftrightarrow> take 4 t @ (drop 4 t @ i) < take 4 t' @ (drop 4 t' @ i')"
      using s(1) s'(1) parts by (metis append_assoc)
    also have "\<dots> \<longleftrightarrow> take 4 t < take 4 t'" using False by (simp only: append_less_same_length [OF len4]) simp
    also have "\<dots> \<longleftrightarrow> t < t'"
      using False append_less_same_length [OF len4, of "drop 4 t" "drop 4 t'"] by simp
    finally show ?thesis using False by auto
  qed
qed

lemma id_fence_eq: "id_fence rid = from_be_bytes (take 8 (rid @ replicate 8 0))"
  by (simp add: id_fence_def Let_def min_def)

lemma from_be_bytes_less:
  assumes "length xs = 8" and "length ys = 8"
  shows "(from_be_bytes xs :: u64) < from_be_bytes ys \<longleftrightarrow> xs < ys"
proof -
  have "be_nat xs < 2 ^ 64" "be_nat ys < 2 ^ 64" using be_nat_bound [of xs] be_nat_bound [of ys] assms by simp_all
  then have "unat (from_be_bytes xs :: u64) = be_nat xs" "unat (from_be_bytes ys :: u64) = be_nat ys"
    by (simp_all add: from_be_bytes_def unat_of_nat)
  then show ?thesis using be_nat_less [of xs ys] assms by (simp add: word_less_nat_alt)
qed

lemma id_fence_less: "id_fence a < id_fence b \<Longrightarrow> a < b"
  unfolding id_fence_eq by (subst (asm) from_be_bytes_less) (auto intro: padded_less [of 8])

text \<open>The tables of consecutive pages in runs: \<open>(t, a, b)\<close> stands for the pages from \<open>a\<close> up to \<open>b\<close>.\<close>

fun table_runs :: "nat \<Rightarrow> (bytes \<times> nat \<times> nat) list \<Rightarrow> bytes list \<Rightarrow> bool" where
  "table_runs start [] tabs \<longleftrightarrow> tabs = []"
| "table_runs start ((t, a, b) # ts) tabs \<longleftrightarrow>
     a = start \<and> a < b \<and> take (b - a) tabs = replicate (b - a) t \<and> table_runs b ts (drop (b - a) tabs)"

lemma take_replicate_length: "take n xs = replicate n t \<Longrightarrow> n \<le> length xs"
  by (metis length_replicate length_take min.cobounded1)

lemma table_runs_Cons:
  assumes "table_runs start ((t, a, b) # ts) tabs"
  obtains rest where "a = start" and "a < b" and "tabs = replicate (b - a) t @ rest" and "table_runs b ts rest"
proof
  show "tabs = replicate (b - a) t @ drop (b - a) tabs" using assms by (metis append_take_drop_id table_runs.simps(2))
qed (use assms in auto)

lemma table_runs_Cons_intro: "start < b \<Longrightarrow> table_runs b ts rest \<Longrightarrow> table_runs start ((t, start, b) # ts) (replicate (b - start) t @ rest)"
  by simp

lemma table_runs_snoc:
  "table_runs start ts tabs \<Longrightarrow> table_runs start (ts @ [(t, start + length tabs, start + length tabs + 1)]) (tabs @ [t])"
proof (induction ts arbitrary: start tabs)
  case (Cons x ts)
  obtain t' a b where x: "x = (t', a, b)" by (cases x) auto
  obtain rest where rest: "a = start" "a < b" "tabs = replicate (b - a) t' @ rest" "table_runs b ts rest"
    using table_runs_Cons [OF Cons.prems [unfolded x]] .
  have "table_runs b (ts @ [(t, b + length rest, b + length rest + 1)]) (rest @ [t])" by (rule Cons.IH [OF rest(4)])
  moreover have "start + length tabs = b + length rest" using rest(1-3) by simp
  ultimately show ?case using rest(1-3) table_runs_Cons_intro [of start b _ "rest @ [t]" t'] by (simp add: x)
qed simp

lemma table_runs_grow:
  "table_runs start (ts @ [(t, a, b)]) tabs \<Longrightarrow>
     table_runs start (ts @ [(t, a, start + length tabs + 1)]) (tabs @ [t]) \<and> b = start + length tabs"
proof (induction ts arbitrary: start tabs)
  case Nil
  then have tabs: "tabs = replicate (b - a) t" "a = start" "a < b" using take_replicate_length by auto
  then show ?case by (auto simp: Suc_diff_le replicate_append_same simp flip: replicate_Suc)
next
  case (Cons x ts)
  obtain t' a' b' where x: "x = (t', a', b')" by (cases x) auto
  obtain rest where rest: "a' = start" "a' < b'" "tabs = replicate (b' - a') t' @ rest" "table_runs b' (ts @ [(t, a, b)]) rest"
    using table_runs_Cons [OF Cons.prems [unfolded x append_Cons]] .
  have "start + length tabs = b' + length rest" using rest(1-3) by simp
  with Cons.IH [OF rest(4)] rest(1-3) table_runs_Cons_intro [of start b' _ "rest @ [t]" t'] show ?case by (simp add: x)
qed

lemma table_runs_tables: "table_runs start ts tabs \<Longrightarrow> j < length tabs \<Longrightarrow> tabs ! j \<in> fst ` set ts"
proof (induction ts arbitrary: start tabs j)
  case (Cons x ts)
  obtain t' a b where x: "x = (t', a, b)" by (cases x) auto
  obtain rest where rest: "a = start" "a < b" "tabs = replicate (b - a) t' @ rest" "table_runs b ts rest"
    using table_runs_Cons [OF Cons.prems(1) [unfolded x]] .
  with Cons.IH [OF rest(4), of "j - (b - a)"] Cons.prems(2) show ?case by (auto simp: nth_append x)
qed simp

lemma table_runs_start: "table_runs start ts tabs \<Longrightarrow> i < length ts \<Longrightarrow> start \<le> fst (snd (ts ! i))"
proof (induction ts arbitrary: start tabs i)
  case (Cons x ts)
  obtain t' a b where x: "x = (t', a, b)" by (cases x) auto
  obtain rest where rest: "a = start" "a < b" "tabs = replicate (b - a) t' @ rest" "table_runs b ts rest"
    using table_runs_Cons [OF Cons.prems(1) [unfolded x]] .
  show ?case
  proof (cases i)
    case (Suc k)
    with Cons.IH [OF rest(4), of k] Cons.prems(2) rest(1,2) show ?thesis by simp
  qed (simp add: x rest(1))
qed simp

lemma table_runs_bounds:
  "table_runs start ts tabs \<Longrightarrow> i < length ts \<Longrightarrow>
     fst (snd (ts ! i)) \<le> snd (snd (ts ! i)) \<and> fst (snd (ts ! i)) \<le> start + length tabs \<and> snd (snd (ts ! i)) \<le> start + length tabs"
proof (induction ts arbitrary: start tabs i)
  case (Cons x ts)
  obtain t' a b where x: "x = (t', a, b)" by (cases x) auto
  obtain rest where rest: "a = start" "a < b" "tabs = replicate (b - a) t' @ rest" "table_runs b ts rest"
    using table_runs_Cons [OF Cons.prems(1) [unfolded x]] .
  show ?case
  proof (cases i)
    case (Suc k)
    with Cons.IH [OF rest(4), of k] Cons.prems(2) rest(1-3) show ?thesis by auto
  qed (use rest in \<open>simp add: x\<close>)
qed simp

lemma table_runs_found:
  "table_runs start ts tabs \<Longrightarrow> sorted_keys ts \<Longrightarrow> binary_search t ts = Inr at \<Longrightarrow> j < length tabs \<Longrightarrow>
     (tabs ! j < t \<longleftrightarrow> start + j < fst (snd (ts ! at)))
     \<and> (tabs ! j = t \<longleftrightarrow> fst (snd (ts ! at)) \<le> start + j \<and> start + j < snd (snd (ts ! at)))"
proof (induction ts arbitrary: start tabs j at)
  case (Cons x ts)
  obtain t' a b where x: "x = (t', a, b)" by (cases x) auto
  obtain rest where rest: "a = start" "a < b" "tabs = replicate (b - a) t' @ rest" "table_runs b ts rest"
    using table_runs_Cons [OF Cons.prems(1) [unfolded x]] .
  have above: "rest ! i > t'" if "i < length rest" for i
    using table_runs_tables [OF rest(4) that] Cons.prems(2) by (auto simp: x)
  show ?case
  proof (cases "t' < t")
    case True
    with Cons.prems(3) obtain i where i: "binary_search t ts = Inr i" "at = Suc i"
      by (auto simp: binary_search_Cons x split: sum.splits)
    have ih: "k < length rest \<Longrightarrow> (rest ! k < t \<longleftrightarrow> b + k < fst (snd (ts ! i)))
        \<and> (rest ! k = t \<longleftrightarrow> fst (snd (ts ! i)) \<le> b + k \<and> b + k < snd (snd (ts ! i)))" for k
      using Cons.IH [OF rest(4) _ i(1)] Cons.prems(2) by simp
    have "i < length ts" using binary_search_found [OF i(1)] Cons.prems(2) by auto
    then have low: "b \<le> fst (snd (ts ! i))" by (rule table_runs_start [OF rest(4)])
    show ?thesis
    proof (cases "j < b - a")
      case here: True
      with True low rest i(2) show ?thesis by (auto simp: nth_append)
    next
      case later: False
      then have "start + j = b + (j - (b - a))" "tabs ! j = rest ! (j - (b - a))" "j - (b - a) < length rest"
        using rest(1-3) Cons.prems(4) by (auto simp: nth_append)
      with ih [of "j - (b - a)"] i(2) show ?thesis by simp
    qed
  next
    case False
    with Cons.prems(3) have "t' = t" "at = 0" by (auto simp: binary_search_Cons x split: if_splits)
    moreover have "t' < tabs ! j" if "\<not> j < b - a"
      using that above [of "j - (b - a)"] Cons.prems(4) rest(3) by (simp add: nth_append)
    moreover have "tabs ! j = t'" if "j < b - a" using that rest(3) by (simp add: nth_append)
    ultimately show ?thesis using rest(1,2) by (cases "j < b - a") (auto simp: x)
  qed
qed (simp add: binary_search_Nil)

lemma table_runs_absent:
  "table_runs start ts tabs \<Longrightarrow> sorted_keys ts \<Longrightarrow> binary_search t ts = Inl at \<Longrightarrow> j < length tabs \<Longrightarrow>
     tabs ! j \<noteq> t
     \<and> (tabs ! j < t \<longleftrightarrow> start + j < (if at < length ts then fst (snd (ts ! at)) else start + length tabs))"
proof (induction ts arbitrary: start tabs j at)
  case (Cons x ts)
  obtain t' a b where x: "x = (t', a, b)" by (cases x) auto
  obtain rest where rest: "a = start" "a < b" "tabs = replicate (b - a) t' @ rest" "table_runs b ts rest"
    using table_runs_Cons [OF Cons.prems(1) [unfolded x]] .
  have above: "rest ! i > t'" if "i < length rest" for i
    using table_runs_tables [OF rest(4) that] Cons.prems(2) by (auto simp: x)
  show ?case
  proof (cases "t' < t")
    case True
    with Cons.prems(3) obtain i where i: "binary_search t ts = Inl i" "at = Suc i"
      by (auto simp: binary_search_Cons x split: sum.splits)
    have ih: "k < length rest \<Longrightarrow> rest ! k \<noteq> t \<and>
        (rest ! k < t \<longleftrightarrow> b + k < (if i < length ts then fst (snd (ts ! i)) else b + length rest))" for k
      using Cons.IH [OF rest(4) _ i(1)] Cons.prems(2) by simp
    have low: "b \<le> fst (snd (ts ! i))" if "i < length ts" using that by (rule table_runs_start [OF rest(4)])
    have total: "start + length tabs = b + length rest" using rest(1-3) by simp
    show ?thesis
    proof (cases "j < b - a")
      case here: True
      then have "tabs ! j = t'" using rest(3) by (simp add: nth_append)
      with here True low rest i(2) Cons.prems(4) show ?thesis by auto
    next
      case later: False
      then have "start + j = b + (j - (b - a))" "tabs ! j = rest ! (j - (b - a))" "j - (b - a) < length rest"
        using rest(1-3) Cons.prems(4) by (auto simp: nth_append)
      with ih [of "j - (b - a)"] i(2) show ?thesis by (simp add: total)
    qed
  next
    case False
    with Cons.prems(3) have "t < t'" "at = 0" by (auto simp: binary_search_Cons x split: if_splits)
    moreover have "t < tabs ! j"
      using above [of "j - (b - a)"] Cons.prems(4) rest(3) \<open>t < t'\<close> by (auto simp: nth_append less_trans)
    ultimately show ?thesis using rest(1) by (auto simp: x)
  qed
qed simp

text \<open>The table prefix and the id of each page's last key.\<close>

definition tab_at :: "paged_index \<Rightarrow> nat \<Rightarrow> bytes" where
  "tab_at ix q = fst (the (split_table_key (last_key_at ix q)))"

definition rid_at :: "paged_index \<Rightarrow> nat \<Rightarrow> bytes" where
  "rid_at ix q = snd (the (split_table_key (last_key_at ix q)))"

definition fences_ok :: "paged_index \<Rightarrow> nat \<Rightarrow> key_fences \<Rightarrow> bool" where
  "fences_ok ix n f \<longleftrightarrow> kf_ids f = map (id_fence \<circ> rid_at ix) [0..<n] \<and> sorted_keys (kf_tables f)
     \<and> table_runs 0 (kf_tables f) (map (tab_at ix) [0..<n])
     \<and> list_all (\<lambda>q. split_table_key (last_key_at ix q) = Some (tab_at ix q, rid_at ix q)) [0..<n]"

lemma fence_step_ok:
  assumes ok: "fences_ok ix p f" and step: "fence_step ix p f = Some f'"
  shows "fences_ok ix (Suc p) f'"
proof -
  from step obtain t i where split: "split_table_key (last_key_at ix p) = Some (t, i)"
    by (auto simp: fence_step_def bind_eq_Some_conv)
  then have at: "tab_at ix p = t" "rid_at ix p = i" by (simp_all add: tab_at_def rid_at_def)
  let ?tabs = "map (tab_at ix) [0..<p]"
  have runs: "table_runs 0 (kf_tables f) ?tabs" and sorted: "sorted_keys (kf_tables f)"
    using ok by (simp_all add: fences_ok_def)
  have fresh: "fences_ok ix (Suc p) f'" if "f' = \<lparr>kf_tables = kf_tables f @ [(t, p, p + 1)], kf_ids = kf_ids f @ [id_fence i]\<rparr>"
    and "\<forall>x \<in> set (kf_tables f). fst x < t"
    using that ok split at table_runs_snoc [OF runs, of t] by (simp add: fences_ok_def sorted_wrt_append)
  show ?thesis
  proof (cases "kf_tables f" rule: rev_cases)
    case Nil
    with step split fresh show ?thesis by (auto simp: fence_step_def Let_def)
  next
    case (snoc ts x)
    obtain lt start stop where x: "x = (lt, start, stop)" by (cases x) auto
    have le: "\<forall>y \<in> set (kf_tables f). fst y \<le> lt"
      using sorted by (auto simp: snoc x sorted_wrt_append less_imp_le)
    show ?thesis
    proof (cases "lt = t")
      case True
      with step split snoc x have f': "f' = \<lparr>kf_tables = ts @ [(t, start, p + 1)], kf_ids = kf_ids f @ [id_fence i]\<rparr>"
        by (auto simp: fence_step_def Let_def)
      have "sorted_keys (ts @ [(t, start, p + 1)])" using sorted True by (simp add: snoc x sorted_wrt_append)
      with f' ok split at table_runs_grow [of 0 ts t start stop ?tabs] runs True show ?thesis
        by (simp add: fences_ok_def snoc x)
    next
      case False
      with step split snoc x have "\<not> lt > t" and f': "f' = \<lparr>kf_tables = kf_tables f @ [(t, p, p + 1)], kf_ids = kf_ids f @ [id_fence i]\<rparr>"
        by (auto simp: fence_step_def Let_def split: if_splits)
      with False have "lt < t" by auto
      with le have "\<forall>y \<in> set (kf_tables f). fst y < t" by (meson le_less_trans)
      with f' show ?thesis by (rule fresh)
    qed
  qed
qed

lemma fence_loop_ok: "fences_ok ix p f \<Longrightarrow> p \<le> n \<Longrightarrow> fence_loop ix [p..<n] f = Some f' \<Longrightarrow> fences_ok ix n f'"
proof (induction "n - p" arbitrary: p f)
  case (Suc k)
  then have "[p..<n] = p # [Suc p..<n]" by (simp add: upt_conv_Cons)
  with Suc.prems(3) obtain f1 where "fence_step ix p f = Some f1" "fence_loop ix [Suc p..<n] f1 = Some f'"
    by (auto simp: bind_eq_Some_conv)
  moreover have "k = n - Suc p" "Suc p \<le> n" using Suc.hyps(2) by simp_all
  ultimately show ?case using Suc.hyps(1) [of "Suc p" f1] fence_step_ok [OF Suc.prems(1)] by blast
qed simp

lemma build_fences_ok: "build_fences ix = Some f \<Longrightarrow> fences_ok ix (length (px_last_key_spans ix)) f"
  unfolding build_fences_def by (erule fence_loop_ok [rotated 2]) (simp_all add: fences_ok_def)

lemma fence_search_exact:
  assumes "falls P n" and "low \<le> high" and "high \<le> n" and "\<forall>q < low. P q" and "\<forall>q. high \<le> q \<and> q < n \<longrightarrow> \<not> P q"
    and "\<forall>q. low \<le> q \<and> q < high \<longrightarrow>
      (if ids ! q < wanted then True else if ids ! q > wanted then False else last_key_at ix q < key) = P q"
  shows "turns_at P n (fence_search ix ids key wanted low high)"
  using assms
proof (induction ix ids key wanted low high rule: fence_search.induct)
  case (1 ix ids key wanted low high)
  show ?case
  proof (cases "low < high")
    case True
    define mid where "mid = low + (high - low) div 2"
    note step = turns_between_step [OF 1(3) True 1(5-7), folded mid_def]
    have mid: "(if ids ! mid < wanted then True else if ids ! mid > wanted then False else last_key_at ix mid < key) = P mid"
      using 1(8) step(3,4) by blast
    have rec: "fence_search ix ids key wanted low high =
        (if P mid then fence_search ix ids key wanted (mid + 1) high else fence_search ix ids key wanted low mid)"
      using True by (simp only: fence_search.simps [of ix ids key wanted low high] Let_def mid_def [symmetric] mid if_True)
    show ?thesis
    proof (cases "P mid")
      case before: True
      have "turns_at P n (fence_search ix ids key wanted (mid + 1) high)"
        by (rule 1(1) [OF True mid_def refl _ 1(3) _ 1(5) step(1) [OF before] 1(7)]) (use step 1(8) mid before in auto)
      then show ?thesis by (simp only: rec if_P [OF before])
    next
      case after: False
      have "turns_at P n (fence_search ix ids key wanted low mid)"
        by (rule 1(2) [OF True mid_def refl _ 1(3) _ _ 1(6) step(2) [OF after]]) (use step 1(5,8) mid after in auto)
      then show ?thesis by (simp only: rec if_not_P [OF after])
    qed
  next
    case False
    then have "low = high" using 1(4) by simp
    with 1(5-7) show ?thesis
      unfolding fence_search.simps [of ix ids key wanted low high] turns_at_def by simp
  qed
qed

text \<open>The fences lead to the page the plain search finds.\<close>

lemma first_page_for_table_key_exact:
  assumes holds: "index_holds crc ix pss"
  shows "first_page_for_table_key ix key = first_page_for ix key False"
proof (cases "build_fences ix")
  case None
  then show ?thesis by (simp add: first_page_for_table_key_def)
next
  case (Some f)
  show ?thesis
  proof (cases "split_table_key key")
    case None
    with Some show ?thesis by (simp add: first_page_for_table_key_def)
  next
    case key: (Some ti)
    obtain t i where ti: "ti = (t, i)" by force
    define n where "n = length pss"
    let ?P = "before_key ix key False"
    let ?tabs = "map (tab_at ix) [0..<n]"
    have len: "length (px_last_key_spans ix) = n" using index_holds_length [OF holds] by (simp add: n_def)
    have ok: "fences_ok ix n f" using build_fences_ok [OF Some] by (simp add: len)
    then have runs: "table_runs 0 (kf_tables f) ?tabs" and sorted: "sorted_keys (kf_tables f)"
      and ids: "kf_ids f = map (id_fence \<circ> rid_at ix) [0..<n]"
      and splits: "\<And>q. q < n \<Longrightarrow> split_table_key (last_key_at ix q) = Some (tab_at ix q, rid_at ix q)"
      by (auto simp: fences_ok_def list_all_iff)
    have P: "?P q \<longleftrightarrow> tab_at ix q < t \<or> (tab_at ix q = t \<and> rid_at ix q < i)" if "q < n" for q
      using table_key_less [OF splits [OF that] key [unfolded ti]] by simp
    have falls: "falls ?P n" using before_key_falls [OF holds, of False key] by (simp only: n_def)
    have "turns_at ?P n (first_page_for_table_key ix key)"
    proof (cases "binary_search t (kf_tables f)")
      case (Inr at)
      define a b where "a = fst (snd (kf_tables f ! at))" and "b = snd (snd (kf_tables f ! at))"
      have tabs: "(tab_at ix q < t \<longleftrightarrow> q < a) \<and> (tab_at ix q = t \<longleftrightarrow> a \<le> q \<and> q < b)" if "q < n" for q
        using table_runs_found [OF runs sorted Inr, of q] that by (simp add: a_def b_def)
      have bounds: "a \<le> b" "b \<le> n"
        using table_runs_bounds [OF runs] binary_search_found [OF Inr sorted] by (auto simp: a_def b_def)
      have "turns_at ?P n (fence_search ix (kf_ids f) key (id_fence i) a b)"
      proof (rule fence_search_exact [OF falls bounds])
        show "\<forall>q < a. ?P q" using P tabs bounds by auto
        show "\<forall>q. b \<le> q \<and> q < n \<longrightarrow> \<not> ?P q" using P tabs bounds by fastforce
        show "\<forall>q. a \<le> q \<and> q < b \<longrightarrow> (if kf_ids f ! q < id_fence i then True else if kf_ids f ! q > id_fence i then False
            else last_key_at ix q < key) = ?P q"
        proof (intro allI impI)
          fix q assume q: "a \<le> q \<and> q < b"
          then have "?P q \<longleftrightarrow> rid_at ix q < i" "kf_ids f ! q = id_fence (rid_at ix q)" using P tabs bounds ids by auto
          then show "(if kf_ids f ! q < id_fence i then True else if kf_ids f ! q > id_fence i then False
            else last_key_at ix q < key) = ?P q"
            using id_fence_less [of "rid_at ix q" i] id_fence_less [of i "rid_at ix q"] by auto
        qed
      qed
      then show ?thesis by (simp add: first_page_for_table_key_def Some key ti Inr a_def b_def)
    next
      case (Inl at)
      define p where "p = (if at < length (kf_tables f) then fst (snd (kf_tables f ! at)) else n)"
      have tabs: "tab_at ix q \<noteq> t \<and> (tab_at ix q < t \<longleftrightarrow> q < p)" if "q < n" for q
        using table_runs_absent [OF runs sorted Inl, of q] that by (simp add: p_def)
      have "p \<le> n" using table_runs_bounds [OF runs] by (auto simp: p_def)
      with P tabs have "turns_at ?P n p" by (auto simp: turns_at_def)
      then show ?thesis by (auto simp: first_page_for_table_key_def Some key ti Inl p_def len split: if_splits)
    qed
    from turns_at_unique [OF this] first_page_for_exact [OF holds, of False key] show ?thesis by (simp add: n_def)
  qed
qed

lemma visit_table_key_holds:
  "index_holds crc ix pss \<Longrightarrow> visit_table_key crc ix key visit s = visit_key crc ix key visit s"
  by (simp add: visit_table_key_def visit_key_def first_page_for_table_key_exact)

end
