(* ===== verification/Paged_Cursor.thy ===== *)
theory Paged_Cursor
  imports Paged_Read
begin

text \<open>
  The prefix cursor of \<open>paged.rs\<close>: over a run that holds some entries it returns exactly those
  whose key starts with the prefix and lies behind the bound, in order, page boundaries and
  skipped pages notwithstanding. The contract of a cursor is the locale \<open>source\<close>, which the merges
  of runs are proved over.
\<close>

section \<open>Prefixes and order\<close>

lemma starts_with_append: "starts_with key pre \<longleftrightarrow> (\<exists>x. key = pre @ x)"
  unfolding starts_with_def by (metis append_eq_conv_conj append_take_drop_id)

lemma append_ge: "(pre :: bytes) \<le> pre @ x"
  by (induction pre) auto

lemma starts_with_ge: "starts_with key pre \<Longrightarrow> pre \<le> key"
  using append_ge by (auto simp: starts_with_append)

lemma extension_below:
  fixes pre :: bytes
  shows "pre < key \<Longrightarrow> \<not> (\<exists>x. key = pre @ x) \<Longrightarrow> pre @ y < key"
proof (induction pre arbitrary: key)
  case (Cons a pre)
  then obtain b key' where key: "key = b # key'" by (cases key) auto
  with Cons show ?case by auto
qed auto

text \<open>A key behind the prefix that does not extend it ends the entries of the prefix.\<close>

lemma prefix_passed:
  assumes "pre < key" and "\<not> starts_with key pre" and "key \<le> key'"
  shows "\<not> starts_with key' pre"
  using extension_below [OF assms(1)] assms(2,3) leD by (auto simp: starts_with_append)

section \<open>One page\<close>

definition wanted :: "prefix_cursor \<Rightarrow> entry \<Rightarrow> bool" where
  "wanted c e \<longleftrightarrow> starts_with (fst e) (pc_prefix c) \<and> (case pc_after c of None \<Rightarrow> True | Some a \<Rightarrow> a < fst e)"

definition at_entries :: "bytes \<Rightarrow> prefix_cursor \<Rightarrow> entry list \<Rightarrow> bool" where
  "at_entries mmap c ys \<longleftrightarrow> pc_end c = pc_pos c + length (page_payload ys) \<and> list_all entry_fits ys
     \<and> (ys \<noteq> [] \<longrightarrow> (\<exists>r. cursor_at mmap (pc_pos c) (page_payload ys @ r)))"

lemma cursor_entry_at:
  assumes at: "cursor_at mmap pos (entry_bytes e @ rest)" and fits: "entry_fits e" and page_end: "pos + length (entry_bytes e) \<le> page_end"
  shows "cursor_entry mmap pos page_end = Inr (e, pos + length (entry_bytes e))"
proof -
  have c0: "cursor_at mmap pos (to_le_bytes (of_nat (length (fst e)) :: u32) @ to_le_bytes (of_nat (length (snd e)) :: u32)
      @ fst e @ snd e @ rest)" using at by (simp add: entry_bytes_def)
  note c1 = cursor_at_u32 [OF c0]
  note c2 = cursor_at_u32 [OF c1]
  note c3 = cursor_at_append [OF c2]
  have "pos + length (entry_bytes e) < usize_limit" using cursor_at_limit [OF at] by simp
  then have "Option.bind (checked_add (pos + 4 + 4) (length (fst e))) (\<lambda>x. checked_add x (length (snd e)))
      = Some (pos + length (entry_bytes e))"
    by (simp add: checked_add_def length_entry_bytes)
  with c0 c1 c2 c3 entry_fits_lens [OF fits] page_end show ?thesis
    by (simp add: cursor_entry_def pg_read_u32_at_def pg_read_u32_cursor pg_take_cursor length_entry_bytes not_less)
qed

text \<open>What the inner loop leaves of the entries \<open>todo\<close> the cursor had to return, with \<open>zs\<close> on later pages.\<close>

definition page_outcome :: "bytes \<Rightarrow> entry list \<Rightarrow> entry list \<Rightarrow> prefix_cursor \<Rightarrow> entry option option \<Rightarrow> bool" where
  "page_outcome mmap zs todo c' r =
     (case r of
        None \<Rightarrow> \<not> pc_done c' \<and> at_entries mmap c' [] \<and> todo = filter (wanted c') zs
      | Some None \<Rightarrow> pc_done c' \<and> todo = []
      | Some (Some e) \<Rightarrow> \<not> pc_done c' \<and> (\<exists>ys'. at_entries mmap c' ys' \<and> sorted (map fst (ys' @ zs))
           \<and> todo = e # filter (wanted c') (ys' @ zs)))"

lemma next_in_page_exact:
  assumes "at_entries mmap c ys" and "sorted (map fst (ys @ zs))" and "\<not> pc_done c"
  shows "\<exists>c' r. next_in_page mmap c = Inr (c', r) \<and> pc_prefix c' = pc_prefix c \<and> pc_page_index c' = pc_page_index c
    \<and> page_outcome mmap zs (filter (wanted c) (ys @ zs)) c' r"
  using assms
proof (induction ys arbitrary: c)
  case Nil
  then have "\<not> pc_pos c < pc_end c" by (simp add: at_entries_def)
  with Nil show ?case by (intro exI [of _ c] exI [of _ None]) (simp add: next_in_page.simps [of mmap c] page_outcome_def)
next
  case (Cons e ys)
  then obtain r where at: "cursor_at mmap (pc_pos c) (entry_bytes e @ page_payload ys @ r)"
    and fits: "entry_fits e" "list_all entry_fits ys"
    and page_end: "pc_end c = pc_pos c + length (entry_bytes e) + length (page_payload ys)"
    by (auto simp: at_entries_def page_payload_def)
  let ?pos = "pc_pos c + length (entry_bytes e)"
  have here: "pc_pos c < pc_end c" using page_end length_entry_bytes [of e] by simp
  have entry: "cursor_entry mmap (pc_pos c) (pc_end c) = Inr (e, ?pos)"
    using cursor_entry_at [OF at fits(1)] page_end by simp
  have sorted: "sorted (map fst (ys @ zs))" and above: "\<And>x. x \<in> set (ys @ zs) \<Longrightarrow> fst e \<le> fst x"
    using Cons.prems(2) by auto
  have moved: "at_entries mmap c1 ys" if "pc_pos c1 = ?pos" "pc_end c1 = pc_end c" for c1
    using that page_end fits cursor_at_append [OF at] by (auto simp: at_entries_def)
  show ?case
  proof (cases "case pc_after c of Some a \<Rightarrow> fst e \<le> a | None \<Rightarrow> False")
    case skip: True
    let ?c = "c\<lparr>pc_pos := ?pos\<rparr>"
    have "next_in_page mmap c = next_in_page mmap ?c"
      using here entry skip by (cases e) (simp add: next_in_page.simps [of mmap c] split: option.splits)
    moreover have "\<not> wanted c e" using skip by (auto simp: wanted_def split: option.splits)
    moreover have "wanted ?c = wanted c" by (simp add: wanted_def fun_eq_iff)
    ultimately show ?thesis using Cons.IH [of ?c] moved [of ?c] sorted Cons.prems(3) by simp
  next
    case False
    let ?c = "c\<lparr>pc_pos := ?pos, pc_after := None\<rparr>"
    have rest: "filter (wanted ?c) (ys @ zs) = filter (wanted c) (ys @ zs)"
    proof (rule filter_cong)
      fix x assume "x \<in> set (ys @ zs)"
      then have "fst e \<le> fst x" by (rule above)
      with False show "wanted ?c x = wanted c x" by (cases "pc_after c") (auto simp: wanted_def)
    qed simp
    have next_eq: "next_in_page mmap c =
        (if starts_with (fst e) (pc_prefix c) then Inr (?c, Some (Some e))
         else if fst e > pc_prefix c then Inr (?c\<lparr>pc_done := True\<rparr>, Some None)
         else next_in_page mmap ?c)"
      using here entry False by (cases e) (simp add: next_in_page.simps [of mmap c] Let_def split: option.splits)
    consider "starts_with (fst e) (pc_prefix c)" | "\<not> starts_with (fst e) (pc_prefix c)" "fst e > pc_prefix c"
      | "\<not> starts_with (fst e) (pc_prefix c)" "\<not> fst e > pc_prefix c" by blast
    then show ?thesis
    proof cases
      case 1
      then have "wanted c e" using False by (auto simp: wanted_def split: option.splits)
      with 1 next_eq rest moved [of ?c] sorted Cons.prems(3) show ?thesis
        by (intro exI [of _ ?c] exI [of _ "Some (Some e)"]) (auto simp: page_outcome_def)
    next
      case 2
      have "filter (wanted c) ((e # ys) @ zs) = []"
        using 2 above prefix_passed [OF 2(2,1)] by (auto simp: filter_empty_conv wanted_def)
      with 2 next_eq show ?thesis by (intro exI [of _ "?c\<lparr>pc_done := True\<rparr>"] exI [of _ "Some None"]) (simp add: page_outcome_def)
    next
      case 3
      then have "\<not> wanted c e" by (simp add: wanted_def)
      with 3 next_eq rest Cons.IH [of ?c] moved [of ?c] sorted Cons.prems(3) show ?thesis by simp
    qed
  qed
qed

section \<open>The whole cursor\<close>

definition cursor_inv :: "(bytes \<Rightarrow> u32) \<Rightarrow> entry list list \<Rightarrow> paged_index \<times> prefix_cursor \<Rightarrow> entry list \<Rightarrow> bool" where
  "cursor_inv crc pss s todo \<longleftrightarrow> index_holds crc (fst s) pss \<and>
     (if pc_done (snd s) then todo = []
      else \<exists>ys. at_entries (px_mmap (fst s)) (snd s) ys \<and> pc_page_index (snd s) \<le> length pss
        \<and> sorted (map fst (ys @ concat (drop (pc_page_index (snd s)) pss)))
        \<and> todo = filter (wanted (snd s)) (ys @ concat (drop (pc_page_index (snd s)) pss)))"

lemma sorted_drop_pages: "sorted (concat pss) \<Longrightarrow> sorted (map fst (concat (drop k pss) :: entry list))"
proof -
  assume "sorted (concat pss)"
  then have "sorted (concat (take k pss) @ concat (drop k pss))" by (metis append_take_drop_id concat_append)
  then have "sorted (concat (drop k pss))" by (simp only: sorted_append)
  then show ?thesis by (rule sorted_map_fst)
qed

lemma cursor_load_exact:
  assumes holds: "index_holds crc ix pss" and p: "pc_page_index c < length pss" and open_cursor: "\<not> pc_done c"
  shows "\<exists>c' ix'. cursor_load crc ix c = (Inr c', ix') \<and>
    cursor_inv crc pss (ix', c') (filter (wanted c) (concat (drop (pc_page_index c) pss)))"
proof -
  define p' where "p' = pc_page_index c"
  have p'_lt: "p' < length pss" using p by (simp add: p'_def)
  obtain o' r where v: "px_page ix (px_pages ix ! p') = written_view (px_pages ix ! p') o' (pss ! p')"
    and at: "cursor_at (px_mmap ix) o' (page_bytes crc (pss ! p') @ r)" and ok: "page_ok (pss ! p')"
    using page_at_holds [OF holds p'_lt] by blast
  have pss: "sorted (concat pss)" "list_all page_ok pss" using holds by (simp_all add: index_holds_def)
  have cons: "concat (drop p' pss) = pss ! p' @ concat (drop (Suc p') pss)"
    using Cons_nth_drop_Suc [OF p'_lt] by (metis concat.simps(2))
  have keys: "pv_first_key (page_at ix p') = fst (hd (pss ! p'))" using page_keys(1) [OF holds p'_lt] .
  show ?thesis
  proof (cases "pv_first_key (page_at ix p') > pc_prefix c \<and> \<not> starts_with (pv_first_key (page_at ix p')) (pc_prefix c)")
    case True
    have "\<not> wanted c e" if "e \<in> set (concat (drop p' pss))" for e
    proof -
      have ends: "fst (hd (pss ! p')) \<le> fst (last (pss ! p'))" by (rule page_ok_lens(4) [OF ok])
      have "fst (hd (pss ! p')) \<le> fst e"
      proof (cases "e \<in> set (pss ! p')")
        case True
        then show ?thesis using page_order(1) [OF pss p'_lt] by blast
      next
        case False
        then have "e \<in> set (concat (drop (Suc p') pss))" using that unfolding cons by simp
        from page_order(2) [OF pss p'_lt this] ends show ?thesis by (rule order_trans [rotated])
      qed
      with prefix_passed [of "pc_prefix c" "fst (hd (pss ! p'))"] True keys show ?thesis by (auto simp: wanted_def)
    qed
    then have "filter (wanted c) (concat (drop p' pss)) = []" by (simp add: filter_empty_conv)
    with True holds show ?thesis
      by (intro exI [of _ "c\<lparr>pc_done := True\<rparr>"] exI [of _ ix]) (simp add: cursor_load_def Let_def cursor_inv_def p'_def)
  next
    case False
    obtain ix' where ix': "load_page crc ix (page_at ix p') = (Inr (page_payload (pss ! p')), ix')" "same_run ix ix'"
      using load_page_at(1) [OF holds p'_lt] by blast
    let ?page = "page_at ix p'"
    let ?c = "c\<lparr>pc_pos := pv_payload_offset ?page, pc_end := pv_payload_offset ?page + pv_payload_len ?page, pc_page_index := Suc p'\<rparr>"
    have "cursor_load crc ix c = (Inr ?c, ix')"
      unfolding cursor_load_def Let_def p'_def [symmetric] if_not_P [OF False] ix'(1) by simp
    moreover have "at_entries (px_mmap ix') ?c (pss ! p')"
      using page_cursor(7) [OF at ok] same_run_px [OF ix'(2)] page_ok_fits [OF ok]
      by (auto simp: at_entries_def page_at_def v written_view_def)
    moreover have "wanted ?c = wanted c" by (simp add: wanted_def fun_eq_iff)
    moreover have "sorted (map fst (pss ! p' @ concat (drop (Suc p') pss)))"
      using sorted_drop_pages [OF pss(1), of p'] by (simp only: cons)
    moreover have "index_holds crc ix' pss" by (rule same_run_holds [OF ix'(2) holds])
    ultimately have "cursor_inv crc pss (ix', ?c) (filter (wanted c) (concat (drop p' pss)))"
      using open_cursor p'_lt unfolding cursor_inv_def cons by (auto intro!: exI [of _ "pss ! p'"])
    with \<open>cursor_load crc ix c = (Inr ?c, ix')\<close> show ?thesis unfolding p'_def by blast
  qed
qed

definition cursor_result :: "(bytes \<Rightarrow> u32) \<Rightarrow> entry list list \<Rightarrow> entry list
    \<Rightarrow> (prefix_cursor \<times> entry option) result \<times> paged_index \<Rightarrow> bool" where
  "cursor_result crc pss todo r \<longleftrightarrow>
     (\<exists>c' ix'. r = (Inr (c', (case todo of [] \<Rightarrow> None | e # _ \<Rightarrow> Some e)), ix') \<and> cursor_inv crc pss (ix', c') (tl todo))"

lemma cursor_next_exact:
  "cursor_inv crc pss (ix, c) todo \<Longrightarrow> cursor_result crc pss todo (cursor_next crc ix c)"
proof (induction crc ix c arbitrary: todo rule: cursor_next.induct)
  case (1 crc ix c)
  have holds: "index_holds crc ix pss" using "1.prems" by (simp add: cursor_inv_def)
  have len: "length (px_pages ix) = length pss" using index_holds_length [OF holds] by simp
  show ?case
  proof (cases "pc_done c")
    case True
    with "1.prems" show ?thesis
      by (auto simp: cursor_next.simps [of crc ix c] cursor_result_def cursor_inv_def)
  next
    case False
    let ?p = "pc_page_index c"
    obtain ys where ys: "at_entries (px_mmap ix) c ys" "?p \<le> length pss" "sorted (map fst (ys @ concat (drop ?p pss)))"
      "todo = filter (wanted c) (ys @ concat (drop ?p pss))"
      using "1.prems" False by (auto simp: cursor_inv_def)
    show ?thesis
    proof (cases "pc_pos c < pc_end c")
      case True
      obtain c' r where r: "next_in_page (px_mmap ix) c = Inr (c', r)" and same: "pc_page_index c' = ?p"
        and out: "page_outcome (px_mmap ix) (concat (drop ?p pss)) todo c' r"
        using next_in_page_exact [OF ys(1,3) False] ys(4) by auto
      show ?thesis
      proof (cases r)
        case None
        with r True False have "cursor_next crc ix c = cursor_next crc ix c'"
          by (simp add: cursor_next.simps [of crc ix c])
        moreover have "cursor_inv crc pss (ix, c') todo"
          using None out same holds ys(2) sorted_drop_pages [of pss ?p] unfolding cursor_inv_def page_outcome_def
          by (auto simp: index_holds_def intro!: exI [of _ "[]"])
        ultimately show ?thesis using "1.IH"(1) [OF False True r refl None] by simp
      next
        case (Some r')
        with r True False have "cursor_next crc ix c = (Inr (c', r'), ix)" by (simp add: cursor_next.simps [of crc ix c])
        with Some out same holds ys(2) show ?thesis
          by (cases r') (auto simp: cursor_result_def cursor_inv_def page_outcome_def)
      qed
    next
      case at_end: False
      have "ys = []" using ys(1) at_end page_payload_Nil [of ys] by (auto simp: at_entries_def)
      then have todo: "todo = filter (wanted c) (concat (drop ?p pss))" using ys(4) by simp
      show ?thesis
      proof (cases "?p < length pss")
        case True
        obtain c' ix' where load: "cursor_load crc ix c = (Inr c', ix')" "cursor_inv crc pss (ix', c') todo"
          using cursor_load_exact [OF holds True False] todo by blast
        then have "cursor_next crc ix c = cursor_next crc ix' c'"
          using False at_end True len by (simp add: cursor_next.simps [of crc ix c])
        moreover have "cursor_result crc pss todo (cursor_next crc ix' c')"
          using "1.IH"(2) [OF False at_end _ load(1) [symmetric] refl load(2)] True len by simp
        ultimately show ?thesis by simp
      next
        case last_page: False
        then have "todo = []" using todo by simp
        moreover have "cursor_next crc ix c = (Inr (c, None), ix)"
          using False at_end last_page len by (simp add: cursor_next.simps [of crc ix c])
        ultimately show ?thesis using "1.prems" by (simp add: cursor_result_def)
      qed
    qed
  qed
qed

text \<open>Where a cursor starts.\<close>

definition entries_after :: "bytes \<Rightarrow> bytes option \<Rightarrow> entry list \<Rightarrow> entry list" where
  "entries_after pre after es =
     filter (\<lambda>e. starts_with (fst e) pre \<and> (case after of None \<Rightarrow> True | Some a \<Rightarrow> a < fst e)) es"

lemma prefix_cursor_inv:
  assumes holds: "index_holds crc ix pss"
  shows "cursor_inv crc pss (ix, prefix_cursor_after ix pre after) (entries_after pre after (concat pss))"
proof -
  define c where "c = prefix_cursor_after ix pre after"
  define p where "p = pc_page_index c"
  have wanted: "wanted c = (\<lambda>e. starts_with (fst e) pre \<and> (case after of None \<Rightarrow> True | Some a \<Rightarrow> a < fst e))"
    by (simp add: wanted_def c_def prefix_cursor_after_def fun_eq_iff)
  have pss: "sorted (concat pss)" using holds by (simp add: index_holds_def)
  have "p \<le> length pss \<and> (\<forall>e \<in> set (concat (take p pss)). \<not> wanted c e)"
  proof (cases after)
    case None
    have turn: "turns_at (before_key ix pre False) (length pss) p"
      using first_page_for_exact [OF holds, of False pre] None by (simp add: p_def c_def prefix_cursor_after_def)
    have "\<not> wanted c e" if "e \<in> set (concat (take p pss))" for e
      using before_first_page [OF holds _ _ that, of False pre] turn starts_with_ge [of "fst e" pre]
      by (auto simp: turns_at_def wanted)
    with turn show ?thesis by (simp add: turns_at_def)
  next
    case (Some a)
    have turn: "turns_at (before_key ix a True) (length pss) p"
      using first_page_for_exact [OF holds, of True a] Some by (simp add: p_def c_def prefix_cursor_after_def)
    have "\<not> wanted c e" if "e \<in> set (concat (take p pss))" for e
      using before_first_page [OF holds _ _ that, of True a] turn Some
      by (auto simp: turns_at_def wanted)
    with turn show ?thesis by (simp add: turns_at_def)
  qed
  then have p: "p \<le> length pss" and skipped: "filter (wanted c) (concat (take p pss)) = []"
    by (simp_all add: filter_empty_conv)
  have "concat pss = concat (take p pss) @ concat (drop p pss)" by (metis append_take_drop_id concat_append)
  then have "entries_after pre after (concat pss) = filter (wanted c) (concat (drop p pss))"
    using skipped by (simp add: entries_after_def wanted)
  moreover have "\<not> pc_done c" "at_entries (px_mmap ix) c []" by (simp_all add: c_def prefix_cursor_after_def at_entries_def)
  ultimately show ?thesis
    using holds p sorted_drop_pages [OF pss, of p] unfolding c_def [symmetric] cursor_inv_def
    by (auto simp: p_def intro!: exI [of _ "[]"])
qed

end
