(* ===== verification/Paged_Merge.thy ===== *)
theory Paged_Merge
  imports Paged_Cursor "HOL-Library.Multiset"
begin

text \<open>
  Merging sorted runs (\<open>paged.rs\<close>): several open runs into one, with whole pages copied when the
  runs do not overlap, the same keeping only the greatest stored bytes of each key, and the
  external sorter that spills sorted temporary runs within a memory budget and merges them. All
  loops draw from sources (locale \<open>source\<close>); the merge is proved once, over any source, to visit
  the sorted union of what the sources hold and to end.

  A temporary file is the bytes written to it. \<open>None\<close> of a merge would be a loop that never ends.
\<close>

section \<open>Merging sources\<close>

text \<open>The first elements of all sources, each with the source behind it.\<close>

fun pull_all :: "('s \<Rightarrow> ('e option \<times> 's) result) \<Rightarrow> 's list \<Rightarrow> ('e option \<times> 's) list result" where
  "pull_all pull [] = Inr []"
| "pull_all pull (s # ss) = rbind (pull s) (\<lambda>h. rbind (pull_all pull ss) (\<lambda>hs. Inr (h # hs)))"

text \<open>The position of the least head, the first of several equal ones.\<close>

fun least_head :: "('e::linorder option \<times> 's) list \<Rightarrow> (nat \<times> 'e) option" where
  "least_head [] = None"
| "least_head ((None, s) # hs) = map_option (\<lambda>(i, e). (Suc i, e)) (least_head hs)"
| "least_head ((Some e, s) # hs) =
     (case least_head hs of
        None \<Rightarrow> Some (0, e)
      | Some (i, e') \<Rightarrow> if e \<le> e' then Some (0, e) else Some (Suc i, e'))"

partial_function (option) merge_loop :: "('s \<Rightarrow> ('e::linorder option \<times> 's) result) \<Rightarrow> ('e \<Rightarrow> 'w \<Rightarrow> 'w result)
    \<Rightarrow> ('e option \<times> 's) list \<Rightarrow> 'e option \<Rightarrow> 'w \<Rightarrow> 'w result option" where
  "merge_loop pull out hs previous w =
     (case least_head hs of
        None \<Rightarrow> Some (Inr w)
      | Some (i, e) \<Rightarrow>
          (case (if previous = Some e then Inr w else out e w) of
             Inl err \<Rightarrow> Some (Inl err)
           | Inr w' \<Rightarrow>
               (case pull (snd (hs ! i)) of
                  Inl err \<Rightarrow> Some (Inl err)
                | Inr h \<Rightarrow> merge_loop pull out (hs[i := h]) (Some e) w')))"

text \<open>Visiting a list, and the list without what repeats the element before.\<close>

fun out_all :: "('e \<Rightarrow> 'w \<Rightarrow> 'w result) \<Rightarrow> 'e list \<Rightarrow> 'w \<Rightarrow> 'w result" where
  "out_all out [] w = Inr w"
| "out_all out (e # es) w = rbind (out e w) (out_all out es)"

fun unrepeated :: "'e option \<Rightarrow> 'e list \<Rightarrow> 'e list" where
  "unrepeated previous [] = []"
| "unrepeated previous (e # es) =
     (if previous = Some e then unrepeated previous es else e # unrepeated (Some e) es)"

text \<open>The contract of a source: it gives the elements of a list, one per call, and then none.\<close>

locale source =
  fixes pull :: "'s \<Rightarrow> ('e::linorder option \<times> 's) result"
    and drains :: "'s \<Rightarrow> 'e list \<Rightarrow> bool"
  assumes pull_end: "drains s [] \<Longrightarrow> \<exists>s'. pull s = Inr (None, s') \<and> drains s' []"
    and pull_step: "drains s (e # es) \<Longrightarrow> \<exists>s'. pull s = Inr (Some e, s') \<and> drains s' es"
begin

text \<open>A head and its source together hold a list.\<close>

definition holds :: "'e option \<times> 's \<Rightarrow> 'e list \<Rightarrow> bool" where
  "holds h es \<longleftrightarrow> (case fst h of None \<Rightarrow> es = [] \<and> drains (snd h) [] | Some e \<Rightarrow> \<exists>es'. es = e # es' \<and> drains (snd h) es')"

lemma holds_simps [simp]:
  "holds (None, s) es \<longleftrightarrow> es = [] \<and> drains s []"
  "holds (Some e, s) es \<longleftrightarrow> (\<exists>es'. es = e # es' \<and> drains s es')"
  by (simp_all add: holds_def)

lemma pull_holds: "drains s es \<Longrightarrow> \<exists>h. pull s = Inr h \<and> holds h es"
  using pull_end pull_step by (cases es) fastforce+

lemma pull_all_holds: "list_all2 drains ss ess \<Longrightarrow> \<exists>hs. pull_all pull ss = Inr hs \<and> list_all2 holds hs ess"
proof (induction rule: list_all2_induct)
  case (Cons s ss es ess)
  then obtain h hs where "pull s = Inr h" "holds h es" "pull_all pull ss = Inr hs" "list_all2 holds hs ess"
    using pull_holds by blast
  then show ?case by auto
qed simp

lemma least_head_None: "list_all2 holds hs ess \<Longrightarrow> least_head hs = None \<Longrightarrow> concat ess = []"
proof (induction hs arbitrary: ess rule: least_head.induct)
  case (2 s hs)
  then show ?case by (auto simp: list_all2_Cons1)
next
  case (3 e s hs)
  then show ?case by (auto split: option.splits if_splits)
qed simp

lemma least_head_Some:
  assumes "list_all2 holds hs ess" and "list_all sorted ess" and "least_head hs = Some (i, e)"
  shows "i < length hs \<and> (\<exists>es. ess ! i = e # es \<and> drains (snd (hs ! i)) es) \<and> (\<forall>x \<in> set (concat ess). e \<le> x)"
  using assms
proof (induction hs arbitrary: ess i e rule: least_head.induct)
  case (2 s hs)
  then obtain ess' j where ess: "ess = [] # ess'" "list_all2 holds hs ess'" "least_head hs = Some (j, e)" "i = Suc j"
    by (auto simp: list_all2_Cons1)
  with 2 show ?case by auto
next
  case (3 a s hs)
  then obtain es ess' where ess: "ess = (a # es) # ess'" "drains s es" "list_all2 holds hs ess'"
    by (auto simp: list_all2_Cons1)
  have head: "\<forall>x \<in> set (a # es). a \<le> x" using 3 ess by simp
  show ?case
  proof (cases "least_head hs")
    case None
    then have "concat ess' = []" using least_head_None [OF ess(3)] by simp
    with None 3 ess head show ?thesis by auto
  next
    case (Some je)
    obtain j e' where je: "je = (j, e')" by force
    from "3.IH" [OF ess(3) _ Some [unfolded je]] 3 ess have ih: "j < length hs"
      "\<exists>es. ess' ! j = e' # es \<and> drains (snd (hs ! j)) es" "\<forall>x \<in> set (concat ess'). e' \<le> x" by auto
    show ?thesis
    proof (cases "a \<le> e'")
      case True
      then have "i = 0" "e = a" using 3 Some je by auto
      with ess head ih(3) True show ?thesis by (auto intro: order_trans)
    next
      case False
      then have "i = Suc j" "e = e'" using 3 Some je by auto
      with ess head ih False show ?thesis by (auto intro: order_trans less_imp_le)
    qed
  qed
qed simp

lemma sort_least:
  assumes "\<forall>x \<in> set ys. e \<le> x" and "mset xs = add_mset e (mset ys)"
  shows "sort xs = e # sort ys"
  using assms by (intro properties_for_sort) simp_all

text \<open>The merge visits the sorted union, without repetitions, and ends.\<close>

lemma merge_loop_exact:
  assumes "list_all2 holds hs ess" and "list_all sorted ess"
  shows "merge_loop pull out hs previous w = Some (out_all out (unrepeated previous (sort (concat ess))) w)"
  using assms
proof (induction "length (concat ess)" arbitrary: hs ess previous w)
  case 0
  have "least_head hs = None"
  proof (cases "least_head hs")
    case (Some p)
    obtain i e where p: "p = (i, e)" by force
    from least_head_Some [OF 0(2,3) Some [unfolded p]] list_all2_lengthD [OF 0(2)]
    obtain es where "i < length ess" "ess ! i = e # es" by auto
    then have "e \<in> set (concat ess)" by (metis in_set_conv_nth list.set_intros(1) UN_I set_concat)
    with 0(1) show ?thesis by auto
  qed
  moreover have "sort (concat ess) = []" using 0(1) by (simp only: sort_key_simps length_0_conv [symmetric] length_sort)
  ultimately show ?case by (simp add: merge_loop.simps [of pull out hs])
next
  case (Suc n)
  show ?case
  proof (cases "least_head hs")
    case None
    then have "length (concat ess) = 0" using least_head_None [OF Suc.prems(1)] by (simp only: list.size)
    with Suc.hyps(2) show ?thesis by simp
  next
    case (Some p)
    obtain i e where p: "p = (i, e)" by force
    note lh = Some [unfolded p]
    from least_head_Some [OF Suc.prems lh] obtain es where i: "i < length hs" and ei: "ess ! i = e # es"
      and dr: "drains (snd (hs ! i)) es" and least: "\<forall>x \<in> set (concat ess). e \<le> x" by blast
    have i': "i < length ess" using i list_all2_lengthD [OF Suc.prems(1)] by simp
    obtain h where h: "pull (snd (hs ! i)) = Inr h" "holds h es" using pull_holds [OF dr] by blast
    define ess' where "ess' = ess[i := es]"
    have hs': "list_all2 holds (hs[i := h]) ess'" unfolding ess'_def by (rule list_all2_update_cong [OF Suc.prems(1) h(2)])
    have split: "ess = take i ess @ (e # es) # drop (Suc i) ess" using id_take_nth_drop [OF i'] ei by simp
    have ess'_eq: "ess' = take i ess @ es # drop (Suc i) ess" unfolding ess'_def using i' by (rule upd_conv_take_nth_drop)
    have ms: "mset (concat ess) = add_mset e (mset (concat ess'))"
      unfolding ess'_eq by (subst split) simp
    have sorted': "list_all sorted ess'"
    proof -
      have "sorted es" using Suc.prems(2) i' ei by (metis list_all_length sorted_simps(2))
      with Suc.prems(2) show ?thesis unfolding ess'_eq by (subst (asm) split) simp
    qed
    have "set (concat ess') \<subseteq> set (concat ess)" using ms by (metis set_mset_mset set_mset_add_mset_insert subset_insertI)
    then have so: "sort (concat ess) = e # sort (concat ess')" using least ms by (intro sort_least) auto
    have "n = length (concat ess')" using ms Suc.hyps(2) by (metis add_left_cancel plus_1_eq_Suc size_add_mset size_mset)
    note ih = Suc.hyps(1) [OF this hs' sorted']
    show ?thesis
    proof (cases "if previous = Some e then Inr w else out e w")
      case (Inl err)
      then show ?thesis
        by (auto simp: merge_loop.simps [of pull out hs] lh so split: if_splits)
    next
      case (Inr w')
      then have "merge_loop pull out hs previous w = Some (out_all out (unrepeated (Some e) (sort (concat ess'))) w')"
        by (simp add: merge_loop.simps [of pull out hs] lh h(1) ih)
      with Inr show ?thesis by (auto simp: so split: if_splits)
    qed
  qed
qed

end

lemma unrepeated_Some:
  fixes es :: "'e::linorder list"
  shows "sorted (p # es) \<Longrightarrow> sorted_wrt (<) (p # unrepeated (Some p) es) \<and> set (p # unrepeated (Some p) es) = set (p # es)"
proof (induction es arbitrary: p)
  case (Cons e es)
  show ?case
  proof (cases "p = e")
    case True
    with Cons show ?thesis by simp
  next
    case False
    then have "p < e" using Cons.prems by (simp add: order_less_le)
    with False Cons.IH [of e] Cons.prems show ?thesis by auto
  qed
qed simp

text \<open>Without repetitions a sorted list is the sorted list of its elements.\<close>

lemma unrepeated_None:
  fixes es :: "'e::linorder list"
  assumes "sorted es"
  shows "unrepeated None es = sorted_list_of_set (set es)"
proof (cases es)
  case (Cons e es')
  then have "sorted_wrt (<) (unrepeated None es) \<and> set (unrepeated None es) = set es"
    using unrepeated_Some [of e es'] assms by simp
  then show ?thesis by (intro strict_sorted_equal) (auto simp: strict_sorted_list_of_set)
qed simp


section \<open>Open runs and temporary runs as sources\<close>

definition paged_pull :: "(bytes \<Rightarrow> u32) \<Rightarrow> paged_index \<times> prefix_cursor \<Rightarrow> (entry option \<times> (paged_index \<times> prefix_cursor)) result" where
  "paged_pull crc s =
     (case cursor_next crc (fst s) (snd s) of
        (Inl e, _) \<Rightarrow> Inl e
      | (Inr (c, r), ix) \<Rightarrow> Inr (r, (ix, c)))"

definition read_optional_u32 :: "bytes \<Rightarrow> (u32 option \<times> bytes) result" where
  "read_optional_u32 bs =
     (if bs = [] then Inr (None, [])
      else if length bs < 4 then Inl (Corrupt ''truncated paged sort run'')
      else Inr (Some (from_le_bytes (take 4 bs)), drop 4 bs))"

definition read_required_u32 :: "bytes \<Rightarrow> (u32 \<times> bytes) result" where
  "read_required_u32 bs =
     rbind (read_optional_u32 bs) (\<lambda>(r, bs). rbind (ok_or (Corrupt ''truncated paged sort run'') r) (\<lambda>n. Inr (n, bs)))"

definition read_exact :: "nat \<Rightarrow> bytes \<Rightarrow> (bytes \<times> bytes) result" where
  "read_exact n bs = (if length bs < n then Inl (Io ''failed to fill whole buffer'') else Inr (take n bs, drop n bs))"

definition run_next :: "bytes \<Rightarrow> (entry option \<times> bytes) result" where
  "run_next bs =
     rbind (read_optional_u32 bs) (\<lambda>(key_len, bs).
     case key_len of
       None \<Rightarrow> Inr (None, bs)
     | Some key_len \<Rightarrow>
         rbind (read_required_u32 bs) (\<lambda>(value_len, bs).
         rbind (read_exact (unat key_len) bs) (\<lambda>(key, bs).
         rbind (read_exact (unat value_len) bs) (\<lambda>(stored, bs).
         Inr (Some (key, stored), bs)))))"

interpretation paged_source: source "paged_pull crc" "\<lambda>s es. \<exists>pss. cursor_inv crc pss s es" for crc
proof
  fix s :: "paged_index \<times> prefix_cursor"
  assume "\<exists>pss. cursor_inv crc pss s []"
  then obtain pss where "cursor_inv crc pss (fst s, snd s) []" by auto
  from cursor_next_exact [OF this]
  show "\<exists>s'. paged_pull crc s = Inr (None, s') \<and> (\<exists>pss. cursor_inv crc pss s' [])"
    by (auto simp: cursor_result_def paged_pull_def)
next
  fix s :: "paged_index \<times> prefix_cursor" and e es
  assume "\<exists>pss. cursor_inv crc pss s (e # es)"
  then obtain pss where "cursor_inv crc pss (fst s, snd s) (e # es)" by auto
  from cursor_next_exact [OF this]
  show "\<exists>s'. paged_pull crc s = Inr (Some e, s') \<and> (\<exists>pss. cursor_inv crc pss s' es)"
    by (auto simp: cursor_result_def paged_pull_def)
qed

lemma run_next_entry:
  assumes "entry_fits e"
  shows "run_next (entry_bytes e @ rest) = Inr (Some e, rest)"
proof -
  have len4: "length (to_le_bytes (w::u32)) = 4" for w by simp
  have opt: "read_optional_u32 (to_le_bytes (w::u32) @ r) = Inr (Some w, r)" for w r
    by (metis append_is_Nil_conv append_eq_conv_conj len4 length_append list.size(3) not_add_less1 read_optional_u32_def from_to_le_bytes_word(3) zero_neq_numeral)
  show ?thesis
    using entry_fits_lens [OF assms]
    by (simp add: run_next_def entry_bytes_def opt read_required_u32_def read_exact_def)
qed

interpretation run_source: source run_next "\<lambda>bs es. bs = page_payload es \<and> list_all entry_fits es"
proof
  fix bs :: bytes
  assume "bs = page_payload [] \<and> list_all entry_fits []"
  then show "\<exists>s'. run_next bs = Inr (None, s') \<and> s' = page_payload [] \<and> list_all entry_fits []"
    by (simp add: run_next_def read_optional_u32_def)
next
  fix bs :: bytes and e es
  assume "bs = page_payload (e # es) \<and> list_all entry_fits (e # es)"
  then show "\<exists>s'. run_next bs = Inr (Some e, s') \<and> s' = page_payload es \<and> list_all entry_fits es"
    using run_next_entry [of e "page_payload es"] by (simp add: page_payload_def)
qed

section \<open>The external sorter\<close>

definition merge_external_runs :: "bytes list \<Rightarrow> (bytes \<Rightarrow> bytes \<Rightarrow> 'w \<Rightarrow> 'w result) \<Rightarrow> 'w \<Rightarrow> 'w result option" where
  "merge_external_runs runs visit w =
     (case pull_all run_next runs of
        Inl e \<Rightarrow> Some (Inl e)
      | Inr hs \<Rightarrow> merge_loop run_next (\<lambda>e. visit (fst e) (snd e)) hs None w)"

text \<open>Temporary runs are identified with their contents; their names play no role.\<close>

record external_writer =
  ew_dump_version :: u64
  ew_budget :: nat
  ew_buffered_bytes :: nat
  ew_buffer :: "entry list"
  ew_runs :: "bytes list"

abbreviation "MAX_MERGE_FAN_IN \<equiv> (32::nat)"

definition external_new :: "u64 \<Rightarrow> nat \<Rightarrow> external_writer" where
  "external_new dump_version budget =
     \<lparr>ew_dump_version = dump_version, ew_budget = max budget 1, ew_buffered_bytes = 0, ew_buffer = [], ew_runs = []\<rparr>"

definition flush_run :: "external_writer \<Rightarrow> external_writer" where
  "flush_run w =
     (if ew_buffer w = [] then w
      else w\<lparr>ew_runs := ew_runs w @ [concat (map entry_bytes (remdups_adj (sort (ew_buffer w))))],
             ew_buffer := [], ew_buffered_bytes := 0\<rparr>)"

definition external_add :: "bytes \<Rightarrow> bytes \<Rightarrow> external_writer \<Rightarrow> external_writer" where
  "external_add key stored w =
     (let bytes = saturating_add (saturating_add (length key) (length stored)) 48;
          w = (if ew_buffer w \<noteq> [] \<and> saturating_add (ew_buffered_bytes w) bytes > ew_budget w then flush_run w else w);
          w = w\<lparr>ew_buffer := ew_buffer w @ [(key, stored)], ew_buffered_bytes := saturating_add (ew_buffered_bytes w) bytes\<rparr>
      in if ew_buffered_bytes w \<ge> ew_budget w then flush_run w else w)"

definition external_set_dump_version :: "u64 \<Rightarrow> external_writer \<Rightarrow> external_writer" where
  "external_set_dump_version dump_version w = w\<lparr>ew_dump_version := dump_version\<rparr>"

text \<open>\<open>slice::chunks\<close>.\<close>

function chunks_of :: "nat \<Rightarrow> 'a list \<Rightarrow> 'a list list" where
  "chunks_of n xs = (if xs = [] \<or> n = 0 then [] else take n xs # chunks_of n (drop n xs))"
  by pat_completeness auto
termination
  by (relation "measure (\<lambda>(n, xs). length xs)") auto

declare chunks_of.simps [simp del]

fun merge_groups :: "bytes list list \<Rightarrow> bytes list result option" where
  "merge_groups [] = Some (Inr [])"
| "merge_groups (g # groups) =
     (case merge_external_runs g (\<lambda>key stored bs. Inr (bs @ entry_bytes (key, stored))) [] of
        None \<Rightarrow> None
      | Some (Inl e) \<Rightarrow> Some (Inl e)
      | Some (Inr run) \<Rightarrow>
          (case merge_groups groups of
             None \<Rightarrow> None
           | Some (Inl e) \<Rightarrow> Some (Inl e)
           | Some (Inr merged) \<Rightarrow> Some (Inr (run # merged))))"

partial_function (option) collapse_runs :: "bytes list \<Rightarrow> bytes list result option" where
  "collapse_runs runs =
     (if length runs > MAX_MERGE_FAN_IN then
        (case merge_groups (chunks_of MAX_MERGE_FAN_IN runs) of
           None \<Rightarrow> None
         | Some r \<Rightarrow>
             (case r of
                Inl e \<Rightarrow> Some (Inl e)
              | Inr merged \<Rightarrow> collapse_runs merged))
      else Some (Inr runs))"

definition external_finish :: "(bytes \<Rightarrow> u32) \<Rightarrow> external_writer \<Rightarrow> bytes result option" where
  "external_finish crc w =
     (case collapse_runs (ew_runs (flush_run w)) of
        None \<Rightarrow> None
      | Some (Inl e) \<Rightarrow> Some (Inl e)
      | Some (Inr runs) \<Rightarrow>
          (case writer_create (ew_dump_version w) None of
             Inl e \<Rightarrow> Some (Inl e)
           | Inr writer \<Rightarrow>
               map_option (\<lambda>r. rbind r (\<lambda>writer. Inr (writer_finish crc writer)))
                 (merge_external_runs runs (writer_add crc) writer)))"

lemma merge_external_runs_exact:
  assumes "list_all (\<lambda>es. sorted es \<and> list_all entry_fits es) ess"
  shows "merge_external_runs (map page_payload ess) visit w =
    Some (out_all (\<lambda>e. visit (fst e) (snd e)) (sorted_list_of_set (set (concat ess))) w)"
proof -
  have "list_all2 (\<lambda>bs es. bs = page_payload es \<and> list_all entry_fits es) (map page_payload ess) ess"
    using assms by (auto simp: list_all2_map1 list_all2_same list_all_iff)
  from run_source.pull_all_holds [OF this] obtain hs where hs: "pull_all run_next (map page_payload ess) = Inr hs"
    "list_all2 run_source.holds hs ess" by blast
  have sorted: "list_all sorted ess" using assms by (simp add: list_all_iff)
  have "unrepeated None (sort (concat ess)) = sorted_list_of_set (set (concat ess))"
    using unrepeated_None [of "sort (concat ess)"] by (simp only: sorted_sort set_sort)
  then show ?thesis
    by (simp only: merge_external_runs_def hs(1) sum.case run_source.merge_loop_exact [OF hs(2) sorted])
qed

lemma out_all_file: "out_all (\<lambda>e bs. Inr (bs @ entry_bytes e)) es bs = Inr (bs @ page_payload es)"
  by (induction es arbitrary: bs) (simp_all add: page_payload_def)

lemma out_all_writer: "out_all (\<lambda>e. writer_add crc (fst e) (snd e)) es w = add_all crc es w"
  by (induction es arbitrary: w) (auto simp: rbind_def split: sum.splits)

definition sorted_runs :: "entry list list \<Rightarrow> bool" where
  "sorted_runs ess \<longleftrightarrow> list_all (\<lambda>es. sorted es \<and> list_all entry_fits es) ess"

lemma merge_groups_exact:
  assumes "list_all sorted_runs groups"
  shows "merge_groups (map (map page_payload) groups) =
    Some (Inr (map page_payload (map (\<lambda>g. sorted_list_of_set (set (concat g))) groups)))"
  using assms
proof (induction groups)
  case (Cons g groups)
  then show ?case
    using merge_external_runs_exact [of g "\<lambda>key stored bs. Inr (bs @ entry_bytes (key, stored))" "[]"]
    by (simp add: sorted_runs_def out_all_file)
qed simp

lemma chunks_of_Nil [simp]: "chunks_of n [] = []"
  by (simp add: chunks_of.simps)

lemma chunks_of_nonempty: "xs \<noteq> [] \<Longrightarrow> 0 < n \<Longrightarrow> chunks_of n xs = take n xs # chunks_of n (drop n xs)"
  by (simp add: chunks_of.simps [of n xs])

lemma chunks_of_map: "chunks_of n (map f xs) = map (map f) (chunks_of n xs)"
proof (induction n xs rule: chunks_of.induct)
  case (1 n xs)
  then show ?case
    by (cases "xs = [] \<or> n = 0") (auto simp: chunks_of.simps [of n xs] chunks_of.simps [of n "map f xs"] take_map drop_map)
qed

lemma chunks_of_concat: "0 < n \<Longrightarrow> concat (chunks_of n xs) = xs"
proof (induction n xs rule: chunks_of.induct)
  case (1 n xs)
  then show ?case by (cases "xs = []") (simp_all add: chunks_of_nonempty [of xs])
qed

lemma chunks_of_length: "2 \<le> n \<Longrightarrow> length (chunks_of n xs) \<le> length xs \<and> (2 \<le> length xs \<longrightarrow> length (chunks_of n xs) < length xs)"
proof (induction n xs rule: chunks_of.induct)
  case (1 n xs)
  show ?case
  proof (cases "xs = []")
    case False
    with 1 have "length (chunks_of n (drop n xs)) \<le> length xs - n" by simp
    moreover have "chunks_of n xs = take n xs # chunks_of n (drop n xs)" using False 1(2) by (simp add: chunks_of_nonempty)
    moreover have "0 < length xs" using False by simp
    ultimately show ?thesis using 1(2) by (cases "length xs") auto
  qed simp
qed

lemma chunks_of_all: "list_all P xs \<Longrightarrow> list_all (list_all P) (chunks_of n xs)"
proof (induction n xs rule: chunks_of.induct)
  case (1 n xs)
  then show ?case
    by (cases "xs = [] \<or> n = 0") (auto simp: chunks_of.simps [of n xs] list_all_iff dest: in_set_takeD in_set_dropD)
qed

lemma collapse_runs_exact:
  assumes "sorted_runs ess"
  shows "\<exists>ess'. collapse_runs (map page_payload ess) = Some (Inr (map page_payload ess')) \<and> sorted_runs ess'
    \<and> set (concat ess') = set (concat ess)"
  using assms
proof (induction "length ess" arbitrary: ess rule: less_induct)
  case less
  show ?case
  proof (cases "length ess > MAX_MERGE_FAN_IN")
    case False
    with less.prems show ?thesis by (intro exI [of _ ess]) (simp add: collapse_runs.simps)
  next
    case True
    define merged where "merged = map (\<lambda>g. sorted_list_of_set (set (concat g))) (chunks_of MAX_MERGE_FAN_IN ess)"
    have groups: "list_all sorted_runs (chunks_of MAX_MERGE_FAN_IN ess)"
      using chunks_of_all less.prems unfolding sorted_runs_def by blast
    then have step: "collapse_runs (map page_payload ess) = collapse_runs (map page_payload merged)"
      using True by (simp add: collapse_runs.simps [of "map page_payload ess"] chunks_of_map merge_groups_exact merged_def)
    have "length merged < length ess" using chunks_of_length [of MAX_MERGE_FAN_IN ess] True by (simp add: merged_def)
    moreover have "sorted_runs merged"
      using groups by (auto simp: sorted_runs_def merged_def list_all_iff)
    moreover have "set (concat merged) = set (concat ess)"
    proof -
      have "set (concat merged) = set (concat (concat (chunks_of MAX_MERGE_FAN_IN ess)))" by (simp add: merged_def)
      then show ?thesis by (simp add: chunks_of_concat)
    qed
    ultimately show ?thesis using less.hyps [of merged] step by auto
  qed
qed

lemma flush_run_holds:
  assumes "ew_runs w = map page_payload ess" and "sorted_runs ess" and "list_all entry_fits (ew_buffer w)"
  shows "\<exists>ess'. ew_runs (flush_run w) = map page_payload ess' \<and> sorted_runs ess'
    \<and> set (concat ess') = set (concat ess) \<union> set (ew_buffer w) \<and> ew_buffer (flush_run w) = []"
proof (cases "ew_buffer w = []")
  case True
  with assms show ?thesis by (intro exI [of _ ess]) (simp add: flush_run_def)
next
  case False
  let ?run = "remdups_adj (sort (ew_buffer w))"
  have "sorted ?run" "list_all entry_fits ?run"
    using assms(3) by (simp_all add: sorted_remdups_adj list_all_iff)
  with False assms show ?thesis
    by (intro exI [of _ "ess @ [?run]"]) (simp add: flush_run_def sorted_runs_def page_payload_def)
qed

definition external_inv :: "external_writer \<Rightarrow> entry list \<Rightarrow> bool" where
  "external_inv w es \<longleftrightarrow> (\<exists>ess. ew_runs w = map page_payload ess \<and> sorted_runs ess
     \<and> set (concat ess) \<union> set (ew_buffer w) = set es) \<and> list_all entry_fits (ew_buffer w)"

lemma flush_run_inv: "external_inv w es \<Longrightarrow> external_inv (flush_run w) es"
  unfolding external_inv_def using flush_run_holds [of w] by fastforce

lemma external_add_inv:
  assumes "external_inv w es" and "entry_fits e"
  shows "external_inv (external_add (fst e) (snd e) w) (es @ [e])"
    and "ew_dump_version (external_add (fst e) (snd e) w) = ew_dump_version w"
proof -
  have put: "external_inv (w\<lparr>ew_buffer := ew_buffer w @ [e], ew_buffered_bytes := n\<rparr>) (es @ [e])" if "external_inv w es" for w n
    using that assms(2) by (fastforce simp: external_inv_def)
  then show "external_inv (external_add (fst e) (snd e) w) (es @ [e])"
    using assms(1) flush_run_inv by (simp add: external_add_def Let_def)
  show "ew_dump_version (external_add (fst e) (snd e) w) = ew_dump_version w"
    by (simp add: external_add_def Let_def flush_run_def)
qed

abbreviation external_adds :: "entry list \<Rightarrow> external_writer \<Rightarrow> external_writer" where
  "external_adds es w \<equiv> foldl (\<lambda>w e. external_add (fst e) (snd e) w) w es"

lemma external_adds_inv:
  "external_inv w es0 \<Longrightarrow> list_all entry_fits es \<Longrightarrow>
     external_inv (external_adds es w) (es0 @ es) \<and> ew_dump_version (external_adds es w) = ew_dump_version w"
proof (induction es arbitrary: w es0)
  case (Cons e es)
  then show ?case using external_add_inv [of w es0 e] by fastforce
qed simp

section \<open>The entries of a run\<close>

text \<open>What a full scan collects.\<close>

definition px_entries :: "(bytes \<Rightarrow> u32) \<Rightarrow> paged_index \<Rightarrow> entry list" where
  "px_entries crc ix =
     (case fst (px_scan crc ix (\<lambda>es key stored. Inr (es @ [(key, stored)])) []) of Inr es \<Rightarrow> es | Inl _ \<Rightarrow> [])"

lemma visit_all_collect: "visit_all (\<lambda>es key stored. Inr (es @ [(key, stored)])) xs acc = Inr (acc @ xs)"
  by (induction xs arbitrary: acc) simp_all

lemma px_entries_holds: "index_holds crc ix pss \<Longrightarrow> px_entries crc ix = concat pss"
  using px_scan_holds [of crc ix pss "\<lambda>es key stored. Inr (es @ [(key, stored)])" "[]"]
  by (auto simp: px_entries_def visit_all_collect)

text \<open>A run as the writers of the engine leave it: no entry twice, and the right count.\<close>

definition run_valid :: "(bytes \<Rightarrow> u32) \<Rightarrow> paged_index \<Rightarrow> bool" where
  "run_valid crc ix \<longleftrightarrow> (\<exists>pss. index_holds crc ix pss) \<and> px_entry_count ix = of_nat (length (px_entries crc ix))
     \<and> sorted_wrt (<) (px_entries crc ix)"

definition opens_to :: "(bytes \<Rightarrow> u32) \<Rightarrow> bytes \<Rightarrow> u64 \<Rightarrow> entry list \<Rightarrow> bool" where
  "opens_to crc bs dump_version es \<longleftrightarrow>
     (\<exists>ix. paged_open crc bs = Some (Inr ix) \<and> run_valid crc ix \<and> px_entries crc ix = es
       \<and> px_dump_version ix = dump_version \<and> px_format ix = FORMAT)"

lemma written_opens_to:
  assumes "256 \<le> ps" "ps \<le> 1024 * 1024" "list_all entry_fits es" "sorted_wrt (<) es" "length es < 2 ^ 32"
    "run_weight es < 2 ^ 62"
  shows "\<exists>w. rbind (writer_create dv (Some ps)) (add_all crc es) = Inr w \<and> opens_to crc (writer_finish crc w) dv es"
proof -
  have "sorted es" using assms(4) by (simp add: strict_sorted_imp_sorted)
  from written_run_opens [OF assms(1-3) this assms(5), of dv crc] obtain w
    where w: "rbind (writer_create dv (Some ps)) (add_all crc es) = Inr w"
    and len: "length (writer_finish crc w) \<le> 56 + run_weight es"
    and opens: "mappable (writer_finish crc w) \<Longrightarrow> \<exists>ix pss. paged_open crc (writer_finish crc w) = Some (Inr ix)
        \<and> index_holds crc ix pss \<and> concat pss = es \<and> px_dump_version ix = dv \<and> px_entry_count ix = of_nat (length es)
        \<and> px_format ix = FORMAT" by blast
  have small: "mappable (writer_finish crc w)" using len assms(6) by simp
  obtain ix pss where ix: "paged_open crc (writer_finish crc w) = Some (Inr ix)" "index_holds crc ix pss" "concat pss = es"
    "px_dump_version ix = dv" "px_entry_count ix = of_nat (length es)" "px_format ix = FORMAT"
    using opens [OF small] by blast
  have "px_entries crc ix = es" using px_entries_holds [OF ix(2)] ix(3) by simp
  with w ix assms(4) show ?thesis unfolding opens_to_def run_valid_def by auto
qed

lemma writer_create_default: "writer_create dv None = writer_create dv (Some DEFAULT_PAGE_SIZE)"
  by (simp add: writer_create_def)

lemma external_finish_exact:
  assumes inv: "external_inv w es" and fits: "list_all entry_fits es" and few: "length es < 2 ^ 32"
    and weight: "run_weight es < 2 ^ 62"
  shows "\<exists>bs. external_finish crc w = Some (Inr bs) \<and> opens_to crc bs (ew_dump_version w) (sorted_list_of_set (set es))"
proof -
  let ?all = "sorted_list_of_set (set es)"
  obtain ess where ess: "ew_runs w = map page_payload ess" "sorted_runs ess" "set (concat ess) \<union> set (ew_buffer w) = set es"
    "list_all entry_fits (ew_buffer w)" using inv by (auto simp: external_inv_def)
  then obtain ess1 where ess1: "ew_runs (flush_run w) = map page_payload ess1" "sorted_runs ess1" "set (concat ess1) = set es"
    using flush_run_holds [OF ess(1,2,4)] by auto
  then obtain ess2 where ess2: "collapse_runs (ew_runs (flush_run w)) = Some (Inr (map page_payload ess2))" "sorted_runs ess2"
    "set (concat ess2) = set es" using collapse_runs_exact [of ess1] by auto
  have "list_all entry_fits ?all" using fits by (simp add: list_all_iff)
  moreover have "length ?all < 2 ^ 32" using few card_length [of es] by simp
  moreover have "run_weight ?all < 2 ^ 62" using run_weight_set [of es] weight by simp
  ultimately obtain w' where w': "rbind (writer_create (ew_dump_version w) None) (add_all crc ?all) = Inr w'"
    "opens_to crc (writer_finish crc w') (ew_dump_version w) ?all"
    using written_opens_to [of DEFAULT_PAGE_SIZE ?all "ew_dump_version w" crc]
    by (auto simp: writer_create_default strict_sorted_list_of_set)
  from w'(1) obtain w0 where w0: "writer_create (ew_dump_version w) None = Inr w0" "add_all crc ?all w0 = Inr w'"
    by (auto simp: result_dests)
  have "merge_external_runs (map page_payload ess2) (writer_add crc) w0 = Some (Inr w')"
    using merge_external_runs_exact [of ess2 "writer_add crc" w0] ess2(2,3) w0(2)
    by (simp only: sorted_runs_def out_all_writer)
  with ess2(1) w0(1) w'(2) show ?thesis by (simp add: external_finish_def)
qed

section \<open>Merging open runs\<close>

fun ranges_ascend :: "paged_index list \<Rightarrow> bool" where
  "ranges_ascend (a # b # ixs) \<longleftrightarrow>
     (case (px_last_key a, px_first_key b) of (Some l, Some r) \<Rightarrow> l < r | _ \<Rightarrow> False) \<and> ranges_ascend (b # ixs)"
| "ranges_ascend ixs \<longleftrightarrow> True"

fun append_indexes :: "(bytes \<Rightarrow> u32) \<Rightarrow> paged_index list \<Rightarrow> paged_writer \<Rightarrow> paged_writer result" where
  "append_indexes crc [] w = Inr w"
| "append_indexes crc (ix # ixs) w = rbind (append_v2_pages crc ix w) (append_indexes crc ixs)"

text \<open>Runs of equal first key overlap, so the order an unstable sort gives them is not used.\<close>

definition merge_paged_indexes :: "(bytes \<Rightarrow> u32) \<Rightarrow> paged_index list \<Rightarrow> u64 \<Rightarrow> bytes result option" where
  "merge_paged_indexes crc inputs dump_version =
     (let key_ordered = sort_key (\<lambda>ix. the (px_first_key ix)) (filter (\<lambda>ix. px_pages ix \<noteq> []) inputs);
          disjoint = list_all (\<lambda>ix. px_format ix = FORMAT) key_ordered \<and> ranges_ascend key_ordered
      in if disjoint then
           Some (rbind (writer_create dump_version None) (\<lambda>w.
                 rbind (append_indexes crc key_ordered w) (\<lambda>w.
                 Inr (writer_finish crc w))))
         else
           (case pull_all (paged_pull crc) (map (\<lambda>ix. (ix, prefix_cursor_after ix [] None)) inputs) of
              Inl e \<Rightarrow> Some (Inl e)
            | Inr hs \<Rightarrow>
                (case writer_create dump_version None of
                   Inl e \<Rightarrow> Some (Inl e)
                 | Inr w \<Rightarrow>
                     map_option (\<lambda>r. rbind r (\<lambda>w. Inr (writer_finish crc w)))
                       (merge_loop (paged_pull crc) (\<lambda>e. writer_add crc (fst e) (snd e)) hs None w))))"

text \<open>Pages copied whole.\<close>

definition writer_pages :: "(bytes \<Rightarrow> u32) \<Rightarrow> paged_writer \<Rightarrow> entry list list \<Rightarrow> bool" where
  "writer_pages crc w pss \<longleftrightarrow> pw_file w = replicate HEADER_LEN 0 @ body_bytes crc pss
     \<and> pw_metadata w = concat (map (page_metadata crc) pss) \<and> pw_pages w = map of_nat (page_starts crc pss) \<and> pw_page w = []"

lemma writer_finish_pages:
  assumes "writer_pages crc w pss"
  shows "writer_finish crc w = paged_file crc (pw_page_size w) (pw_dump_version w) (pw_entry_count w) pss"
  using assms
  by (simp add: writer_finish_def flush_page_def Let_def writer_pages_def paged_file_def directory_bytes_def
      page_starts_def comp_def)

lemma append_pages_from:
  assumes holds: "index_holds crc ix pss" and "writer_pages crc w old"
  shows "\<exists>w'. append_pages crc ix (drop p (px_pages ix)) w = Inr w' \<and> writer_pages crc w' (old @ drop p pss)
    \<and> pw_page_size w' = pw_page_size w \<and> pw_dump_version w' = pw_dump_version w \<and> pw_entry_count w' = pw_entry_count w"
  using assms(2)
proof (induction "length pss - p" arbitrary: p w old)
  case 0
  then have "drop p (px_pages ix) = []" "drop p pss = []" using index_holds_length [OF holds] by auto
  with 0 show ?case by simp
next
  case (Suc n)
  then have p: "p < length pss" by simp
  have len: "length (px_pages ix) = length pss" using index_holds_length [OF holds] by simp
  have cons: "drop p (px_pages ix) = px_pages ix ! p # drop (Suc p) (px_pages ix)" "drop p pss = pss ! p # drop (Suc p) pss"
    using p len by (simp_all only: Cons_nth_drop_Suc)
  obtain o' r where v: "px_page ix (px_pages ix ! p) = written_view (px_pages ix ! p) o' (pss ! p)"
    and at: "cursor_at (px_mmap ix) o' (page_bytes crc (pss ! p) @ r)" and ok: "page_ok (pss ! p)"
    using page_at_holds [OF holds p] by blast
  let ?es = "pss ! p"
  let ?start = "o' + 16 + length (fst (hd ?es)) + length (fst (last ?es))"
  have payload_end: "?start + length (page_payload ?es) = o' + length (page_bytes crc ?es)" by (simp add: length_page_bytes)
  have "get_range (px_mmap ix) ?start (o' + length (page_bytes crc ?es)) = Some (page_payload ?es)"
    using cursor_at_range [OF page_cursor(7) [OF at ok]] by (simp only: payload_end)
  moreover have "get_range (px_mmap ix) o' (o' + length (page_bytes crc ?es)) = Some (page_bytes crc ?es)"
    by (rule cursor_at_range [OF at])
  moreover have "checked_add ?start (length (page_payload ?es)) = Some (o' + length (page_bytes crc ?es))"
    using cursor_at_limit [OF at] payload_end by (simp add: checked_add_def)
  moreover have "take (?start - o') (drop o' (px_mmap ix)) = page_metadata crc ?es"
    using metadata_range [OF at] by (simp add: get_range_def add.assoc split: if_splits)
  ultimately obtain w1 where w1: "append_pages crc ix (drop p (px_pages ix)) w = append_pages crc ix (drop (Suc p) (px_pages ix)) w1"
    "w1 = w\<lparr>pw_file := pw_file w @ page_bytes crc ?es, pw_metadata := pw_metadata w @ page_metadata crc ?es,
        pw_pages := pw_pages w @ [of_nat (length (pw_file w))]\<rparr>"
    using page_cursor(1,2) [OF at ok] page_ok_lens(1) [OF ok] unfolding cons
    by (simp add: v written_view_def Let_def)
  have "writer_pages crc w1 (old @ [?es])"
    using Suc.prems unfolding w1(2) writer_pages_def by (simp add: body_bytes_def page_starts_def placed_snoc)
  moreover have "n = length pss - Suc p" using Suc.hyps(2) by simp
  ultimately obtain w' where
    "append_pages crc ix (drop (Suc p) (px_pages ix)) w1 = Inr w'" "writer_pages crc w' ((old @ [?es]) @ drop (Suc p) pss)"
    "pw_page_size w' = pw_page_size w1" "pw_dump_version w' = pw_dump_version w1" "pw_entry_count w' = pw_entry_count w1"
    using Suc.hyps(1) [of "Suc p" w1 "old @ [?es]"] by blast
  with w1 cons show ?case by simp
qed

text \<open>The pages of a held run.\<close>

definition pages_of :: "(bytes \<Rightarrow> u32) \<Rightarrow> paged_index \<Rightarrow> entry list list" where
  "pages_of crc ix = (SOME pss. index_holds crc ix pss)"

lemma pages_of_holds: "run_valid crc ix \<Longrightarrow> index_holds crc ix (pages_of crc ix)"
  unfolding pages_of_def run_valid_def by (blast intro: someI)

lemma concat_pages_of: "run_valid crc ix \<Longrightarrow> concat (pages_of crc ix) = px_entries crc ix"
  using px_entries_holds [OF pages_of_holds] by simp

lemma sum_lengths: "sum_list (map (length \<circ> f) xs) = length (concat (map f xs))"
  by (induction xs) simp_all

lemma append_indexes_exact:
  assumes "list_all (run_valid crc) ixs" and "writer_pages crc w old" and "pw_entry_count w = of_nat n"
    and "n + length (concat (map (px_entries crc) ixs)) < 2 ^ 64"
  shows "\<exists>w'. append_indexes crc ixs w = Inr w' \<and> writer_pages crc w' (old @ concat (map (pages_of crc) ixs))
    \<and> pw_page_size w' = pw_page_size w \<and> pw_dump_version w' = pw_dump_version w
    \<and> pw_entry_count w' = of_nat (n + length (concat (map (px_entries crc) ixs)))"
  using assms
proof (induction ixs arbitrary: w old n)
  case (Cons ix ixs)
  have valid: "run_valid crc ix" using Cons.prems(1) by simp
  define m where "m = length (px_entries crc ix)"
  obtain w1 where w1: "append_pages crc ix (px_pages ix) w = Inr w1" "writer_pages crc w1 (old @ pages_of crc ix)"
    "pw_page_size w1 = pw_page_size w" "pw_dump_version w1 = pw_dump_version w" "pw_entry_count w1 = pw_entry_count w"
    using append_pages_from [OF pages_of_holds [OF valid] Cons.prems(2), of 0] by auto
  have count: "px_entry_count ix = of_nat m" using valid by (simp add: run_valid_def m_def)
  have small: "n + m < 2 ^ 64" "n < 2 ^ 64" "m < 2 ^ 64" using Cons.prems(4) by (simp_all add: m_def)
  define w2 where "w2 = w1\<lparr>pw_entry_count := of_nat (n + m)\<rparr>"
  have "append_v2_pages crc ix w = Inr w2"
    using w1(1,5) Cons.prems(3) small
    by (simp add: append_v2_pages_def count unat_of_nat_u64 w2_def)
  moreover have "writer_pages crc w2 (old @ pages_of crc ix)" using w1(2) by (simp add: w2_def writer_pages_def)
  moreover have "pw_entry_count w2 = of_nat (n + m)" "pw_page_size w2 = pw_page_size w" "pw_dump_version w2 = pw_dump_version w"
    using w1(3,4) by (simp_all add: w2_def)
  ultimately show ?case
    using Cons.IH [of w2 "old @ pages_of crc ix" "n + m"] Cons.prems(1,4) by (simp add: m_def add.assoc)
qed simp

lemma run_keys:
  assumes valid: "run_valid crc ix" and ne: "px_pages ix \<noteq> []"
  shows "px_entries crc ix \<noteq> []" and "px_first_key ix = Some (fst (hd (px_entries crc ix)))"
    and "px_last_key ix = Some (fst (last (px_entries crc ix)))"
proof -
  define pss where "pss = pages_of crc ix"
  have holds: "index_holds crc ix pss" using pages_of_holds [OF valid] by (simp add: pss_def)
  have len: "length pss = length (px_pages ix)" "length (px_last_key_spans ix) = length pss" using index_holds_length [OF holds] by simp_all
  have es: "px_entries crc ix = concat pss" using concat_pages_of [OF valid] by (simp add: pss_def)
  have n: "0 < length pss" "length pss - 1 < length pss" using ne len by auto
  have pne: "\<And>p. p < length pss \<Longrightarrow> pss ! p \<noteq> []" using holds by (auto simp: index_holds_def list_all_length page_ok_def)
  obtain a rest where a: "pss = a # rest" using n by (cases pss) auto
  obtain front z where z: "pss = front @ [z]" using n by (cases pss rule: rev_cases) auto
  have "a \<noteq> []" using pne [OF n(1)] a by simp
  have "z \<noteq> []" using pne [OF n(2)] z by simp
  show "px_entries crc ix \<noteq> []" using \<open>a \<noteq> []\<close> a es by simp
  have "px_first_key ix = Some (fst (hd (pss ! 0)))" by (rule page_keys(5) [OF holds n(1)])
  with \<open>a \<noteq> []\<close> show "px_first_key ix = Some (fst (hd (px_entries crc ix)))" by (simp add: es a)
  have "px_last_key_spans ix \<noteq> []" using len n by auto
  then have "px_last_key ix = Some (fst (last (pss ! (length pss - 1))))"
    using page_keys(3) [OF holds n(2)] len(2) by (simp add: px_last_key_def)
  with \<open>z \<noteq> []\<close> show "px_last_key ix = Some (fst (last (px_entries crc ix)))" by (simp add: es z nth_append)
qed

lemma ranges_ascend_sorted:
  assumes "list_all (\<lambda>ix. run_valid crc ix \<and> px_pages ix \<noteq> []) ixs" and "ranges_ascend ixs"
  shows "sorted_wrt (<) (concat (map (px_entries crc) ixs))"
  using assms
proof (induction ixs rule: ranges_ascend.induct)
  case (1 a b ixs)
  let ?rest = "concat (map (px_entries crc) (b # ixs))"
  have ih: "sorted_wrt (<) ?rest" using 1 by simp
  have valid: "run_valid crc a" "px_pages a \<noteq> []" "run_valid crc b" "px_pages b \<noteq> []" using 1(2) by simp_all
  note ka = run_keys [OF valid(1,2)] and kb = run_keys [OF valid(3,4)]
  have sa: "sorted_wrt (<) (px_entries crc a)" using valid(1) by (simp add: run_valid_def)
  have gap: "fst (last (px_entries crc a)) < fst (hd (px_entries crc b))" using 1(3) ka(3) kb(2) by simp
  have "x < y" if x: "x \<in> set (px_entries crc a)" and y: "y \<in> set ?rest" for x y
  proof -
    have "x \<le> last (px_entries crc a)"
      using sa x ka(1) by (cases "px_entries crc a" rule: rev_cases) (auto simp: sorted_wrt_append less_imp_le)
    also have "last (px_entries crc a) < hd (px_entries crc b)" using gap by (auto simp: less_prod_def)
    also have "hd (px_entries crc b) \<le> y"
    proof -
      obtain e es where b: "px_entries crc b = e # es" using kb(1) by (cases "px_entries crc b") auto
      define more_entries where "more_entries = es @ concat (map (px_entries crc) ixs)"
      have rest: "?rest = e # more_entries" by (simp add: b more_entries_def)
      from ih y show ?thesis unfolding rest by (auto simp: b less_imp_le)
    qed
    finally show ?thesis .
  qed
  with sa ih show ?case by (simp add: sorted_wrt_append)
qed (auto simp: run_valid_def)

lemma run_fits_entries: "run_valid crc ix \<Longrightarrow> list_all entry_fits (px_entries crc ix)"
proof -
  assume valid: "run_valid crc ix"
  have "list_all page_ok (pages_of crc ix)" using pages_of_holds [OF valid] by (simp add: index_holds_def)
  then have "list_all (list_all entry_fits) (pages_of crc ix)" by (rule list.pred_mono_strong) (rule page_ok_fits)
  then have "list_all entry_fits (concat (pages_of crc ix))" by (auto simp: list_all_iff)
  then show ?thesis by (simp only: concat_pages_of [OF valid])
qed

lemma entries_after_all: "entries_after [] None es = es"
  by (simp add: entries_after_def starts_with_def)

lemma append_runs_exact:
  assumes valid: "list_all (\<lambda>ix. run_valid crc ix \<and> px_pages ix \<noteq> []) ixs" and ascend: "ranges_ascend ixs"
    and few: "length (concat (map (px_entries crc) ixs)) < 2 ^ 32"
    and weight: "run_weight (concat (map (px_entries crc) ixs)) < 2 ^ 62"
  shows "\<exists>w. rbind (writer_create dv None) (append_indexes crc ixs) = Inr w
    \<and> opens_to crc (writer_finish crc w) dv (concat (map (px_entries crc) ixs))"
proof -
  let ?es = "concat (map (px_entries crc) ixs)" and ?pss = "concat (map (pages_of crc) ixs)"
  have all: "list_all (run_valid crc) ixs" using valid by (simp add: list_all_iff)
  obtain w0 where w0: "writer_create dv None = Inr w0" "writer_holds crc w0 [] []" "pw_page_size w0 = DEFAULT_PAGE_SIZE"
    "pw_dump_version w0 = dv" using writer_create_holds [of DEFAULT_PAGE_SIZE dv crc] by (auto simp: writer_create_default)
  then have "writer_pages crc w0 []" "pw_entry_count w0 = of_nat 0"
    by (simp_all add: writer_holds_def writer_pages_def)
  from append_indexes_exact [OF all this] few obtain w where w: "append_indexes crc ixs w0 = Inr w"
    "writer_pages crc w ?pss" "pw_page_size w = DEFAULT_PAGE_SIZE" "pw_dump_version w = dv"
    "pw_entry_count w = of_nat (length ?es)" using w0(3,4) by auto
  have bytes: "writer_finish crc w = paged_file crc DEFAULT_PAGE_SIZE dv (of_nat (length ?es)) ?pss"
    using writer_finish_pages [OF w(2)] w(3-5) by simp
  have es: "concat ?pss = ?es"
    using all concat_pages_of [of crc] by (induction ixs) auto
  have ok: "list_all page_ok ?pss"
    using all pages_of_holds [of crc] by (fastforce simp: list_all_iff index_holds_def)
  then have ne: "[] \<notin> set ?pss" by (auto simp: list_all_iff page_ok_def)
  then have count: "length ?pss < 2 ^ 32" using length_pages_le [of ?pss] few unfolding es by linarith
  have strict: "sorted_wrt (<) ?es" by (rule ranges_ascend_sorted [OF valid ascend])
  then have sorted: "sorted (concat ?pss)" unfolding es by (simp add: strict_sorted_imp_sorted)
  have room: "x < 2 ^ 62 \<Longrightarrow> 56 + x < 2 ^ 63" for x :: nat by simp
  have "mappable (writer_finish crc w)"
    using paged_file_length [OF ne, of crc DEFAULT_PAGE_SIZE dv "of_nat (length ?es)"] room [OF weight]
    unfolding bytes es by (rule le_less_trans)
  then have "run_fits crc DEFAULT_PAGE_SIZE dv (of_nat (length ?es)) ?pss" using count by (simp add: run_fits_def bytes)
  from paged_open_written [OF this ok sorted] obtain ix where ix: "paged_open crc (writer_finish crc w) = Some (Inr ix)"
    "index_holds crc ix ?pss" "px_dump_version ix = dv" "px_entry_count ix = of_nat (length ?es)" "px_format ix = FORMAT"
    unfolding bytes by blast
  have "px_entries crc ix = ?es" using px_entries_holds [OF ix(2)] es by simp
  with ix strict have "opens_to crc (writer_finish crc w) dv ?es" unfolding opens_to_def run_valid_def by auto
  with w0(1) w(1) show ?thesis by auto
qed

lemma pull_all_runs:
  assumes valid: "list_all (run_valid crc) ixs"
  shows "\<exists>hs. pull_all (paged_pull crc) (map (\<lambda>ix. (ix, prefix_cursor_after ix [] None)) ixs) = Inr hs
    \<and> list_all2 (paged_source.holds crc) hs (map (px_entries crc) ixs)"
proof (rule paged_source.pull_all_holds)
  show "list_all2 (\<lambda>s es. \<exists>pss. cursor_inv crc pss s es) (map (\<lambda>ix. (ix, prefix_cursor_after ix [] None)) ixs) (map (px_entries crc) ixs)"
    using valid prefix_cursor_inv [of crc _ _ "[]" None] pages_of_holds concat_pages_of
    by (fastforce simp: list_all2_map1 list_all2_map2 list_all2_same list_all_iff entries_after_all)
qed

lemma merge_cursors_exact:
  assumes valid: "list_all (run_valid crc) ixs" and few: "length (concat (map (px_entries crc) ixs)) < 2 ^ 32"
    and weight: "run_weight (concat (map (px_entries crc) ixs)) < 2 ^ 62"
  defines "es \<equiv> sorted_list_of_set (set (concat (map (px_entries crc) ixs)))"
  shows "\<exists>hs w0 w. pull_all (paged_pull crc) (map (\<lambda>ix. (ix, prefix_cursor_after ix [] None)) ixs) = Inr hs
    \<and> writer_create dv None = Inr w0
    \<and> merge_loop (paged_pull crc) (\<lambda>e. writer_add crc (fst e) (snd e)) hs None w0 = Some (Inr w)
    \<and> opens_to crc (writer_finish crc w) dv es"
proof -
  obtain hs where
    hs: "pull_all (paged_pull crc) (map (\<lambda>ix. (ix, prefix_cursor_after ix [] None)) ixs) = Inr hs"
      "list_all2 (paged_source.holds crc) hs (map (px_entries crc) ixs)" using pull_all_runs [OF valid] by blast
  have sorted: "list_all sorted (map (px_entries crc) ixs)"
    using valid by (auto simp: list_all_iff run_valid_def strict_sorted_imp_sorted)
  have "list_all entry_fits es"
    using valid run_fits_entries by (fastforce simp: es_def list_all_iff)
  moreover have "sorted_wrt (<) es" by (simp add: es_def strict_sorted_list_of_set)
  moreover have "length es < 2 ^ 32"
    using few card_length [of "concat (map (px_entries crc) ixs)"] unfolding es_def length_sorted_list_of_set by linarith
  moreover have "run_weight es < 2 ^ 62"
    using run_weight_set [of "concat (map (px_entries crc) ixs)"] weight unfolding es_def by linarith
  ultimately obtain w where w: "rbind (writer_create dv None) (add_all crc es) = Inr w"
    "opens_to crc (writer_finish crc w) dv es"
    using written_opens_to [of DEFAULT_PAGE_SIZE es dv crc] by (auto simp: writer_create_default)
  from w(1) obtain w0 where w0: "writer_create dv None = Inr w0" "add_all crc es w0 = Inr w" by (auto simp: result_dests)
  have "unrepeated None (sort (concat (map (px_entries crc) ixs))) = es"
    unfolding es_def using unrepeated_None [of "sort (concat (map (px_entries crc) ixs))"] by (simp only: sorted_sort set_sort)
  then have "merge_loop (paged_pull crc) (\<lambda>e. writer_add crc (fst e) (snd e)) hs None w0 = Some (Inr w)"
    using paged_source.merge_loop_exact [OF hs(2) sorted, of "\<lambda>e. writer_add crc (fst e) (snd e)" None w0] w0(2)
    by (simp only: out_all_writer)
  with hs(1) w0(1) w(2) show ?thesis by blast
qed

lemma merge_paged_indexes_opens:
  assumes valid: "list_all (run_valid crc) ixs" and few: "length (concat (map (px_entries crc) ixs)) < 2 ^ 32"
    and weight: "run_weight (concat (map (px_entries crc) ixs)) < 2 ^ 62"
  shows "\<exists>bs. merge_paged_indexes crc ixs dv = Some (Inr bs)
    \<and> opens_to crc bs dv (sorted_list_of_set (set (concat (map (px_entries crc) ixs))))"
proof -
  define ko where "ko = sort_key (\<lambda>ix. the (px_first_key ix)) (filter (\<lambda>ix. px_pages ix \<noteq> []) ixs)"
  show ?thesis
  proof (cases "list_all (\<lambda>ix. px_format ix = FORMAT) ko \<and> ranges_ascend ko")
    case True
    have kv: "list_all (\<lambda>ix. run_valid crc ix \<and> px_pages ix \<noteq> []) ko"
      using valid by (auto simp: ko_def list_all_iff)
    have empty: "px_entries crc ix = []" if "run_valid crc ix" "px_pages ix = []" for ix
      using that index_holds_length [OF pages_of_holds [OF that(1)]] concat_pages_of [OF that(1)] by simp
    have same: "set (concat (map (px_entries crc) ko)) = set (concat (map (px_entries crc) ixs))"
      using valid empty by (fastforce simp: ko_def list_all_iff)
    have strict: "sorted_wrt (<) (concat (map (px_entries crc) ko))" using ranges_ascend_sorted [OF kv] True by simp
    then have eq: "concat (map (px_entries crc) ko) = sorted_list_of_set (set (concat (map (px_entries crc) ixs)))"
      by (intro strict_sorted_equal) (simp_all only: same strict_sorted_list_of_set set_sorted_list_of_set finite_set)
    have "length (concat (map (px_entries crc) ko)) < 2 ^ 32"
      unfolding eq length_sorted_list_of_set using few card_length [of "concat (map (px_entries crc) ixs)"] by linarith
    moreover have "run_weight (concat (map (px_entries crc) ko)) < 2 ^ 62"
      unfolding eq using run_weight_set [of "concat (map (px_entries crc) ixs)"] weight by linarith
    ultimately obtain w where
      w: "rbind (writer_create dv None) (append_indexes crc ko) = Inr w"
        "opens_to crc (writer_finish crc w) dv (concat (map (px_entries crc) ko))"
      using append_runs_exact [OF kv, of dv] True by blast
    from w(1) obtain w0 where "writer_create dv None = Inr w0" "append_indexes crc ko w0 = Inr w" by (auto simp: result_dests)
    then have "merge_paged_indexes crc ixs dv = Some (Inr (writer_finish crc w))"
      using True by (simp add: merge_paged_indexes_def ko_def [symmetric])
    with w(2) show ?thesis unfolding eq by blast
  next
    case False
    obtain hs w0 w where "pull_all (paged_pull crc) (map (\<lambda>ix. (ix, prefix_cursor_after ix [] None)) ixs) = Inr hs"
      "writer_create dv None = Inr w0"
      "merge_loop (paged_pull crc) (\<lambda>e. writer_add crc (fst e) (snd e)) hs None w0 = Some (Inr w)"
      and w: "opens_to crc (writer_finish crc w) dv (sorted_list_of_set (set (concat (map (px_entries crc) ixs))))"
      using merge_cursors_exact [OF assms] by blast
    then have "merge_paged_indexes crc ixs dv = Some (Inr (writer_finish crc w))"
      unfolding merge_paged_indexes_def Let_def ko_def [symmetric] if_not_P [OF False] by simp
    with w show ?thesis by blast
  qed
qed

end
