(* ===== verification/Paged_Latest.thy ===== *)
theory Paged_Latest
  imports Paged_Merge
begin

text \<open>
  The merge of operation runs (\<open>merge_paged_indexes_latest_value\<close> of \<open>paged.rs\<close>): of all entries of
  a key only the greatest stored bytes survive, which for operations that lead with their version
  is the newest. It is proved over any keyed source.
\<close>

section \<open>The merge\<close>

text \<open>The inner loop over one source: the greatest value of the key, and the source behind it.\<close>

partial_function (option) newest_of :: "('s \<Rightarrow> (('k::linorder \<times> 'v::linorder) option \<times> 's) result) \<Rightarrow> 'k
    \<Rightarrow> ('k \<times> 'v) option \<times> 's \<Rightarrow> 'v option \<Rightarrow> ((('k \<times> 'v) option \<times> 's) \<times> 'v option) result option" where
  "newest_of pull key h newest =
     (case fst h of
        None \<Rightarrow> Some (Inr (h, newest))
      | Some e \<Rightarrow>
          if fst e = key then
            (case pull (snd h) of
               Inl err \<Rightarrow> Some (Inl err)
             | Inr h' \<Rightarrow> newest_of pull key h' (if newest = None \<or> snd e > the newest then Some (snd e) else newest))
          else Some (Inr (h, newest)))"

fun newest_all :: "('s \<Rightarrow> (('k::linorder \<times> 'v::linorder) option \<times> 's) result) \<Rightarrow> 'k
    \<Rightarrow> (('k \<times> 'v) option \<times> 's) list \<Rightarrow> 'v option \<Rightarrow> ((('k \<times> 'v) option \<times> 's) list \<times> 'v option) result option" where
  "newest_all pull key [] newest = Some (Inr ([], newest))"
| "newest_all pull key (h # hs) newest =
     (case newest_of pull key h newest of
        None \<Rightarrow> None
      | Some (Inl err) \<Rightarrow> Some (Inl err)
      | Some (Inr (h', newest)) \<Rightarrow>
          (case newest_all pull key hs newest of
             None \<Rightarrow> None
           | Some (Inl err) \<Rightarrow> Some (Inl err)
           | Some (Inr (hs', newest)) \<Rightarrow> Some (Inr (h' # hs', newest))))"

fun least_key :: "(('k::linorder \<times> 'v) option \<times> 's) list \<Rightarrow> 'k option" where
  "least_key [] = None"
| "least_key ((None, s) # hs) = least_key hs"
| "least_key ((Some e, s) # hs) = (case least_key hs of None \<Rightarrow> Some (fst e) | Some k \<Rightarrow> Some (min (fst e) k))"

text \<open>The key was the least of the heads, so a value was found: \<open>newest\<close> is there.\<close>

partial_function (option) latest_loop :: "('s \<Rightarrow> (('k::linorder \<times> 'v::linorder) option \<times> 's) result)
    \<Rightarrow> ('k \<times> 'v \<Rightarrow> 'w \<Rightarrow> 'w result) \<Rightarrow> (('k \<times> 'v) option \<times> 's) list \<Rightarrow> 'w \<Rightarrow> 'w result option" where
  "latest_loop pull out hs w =
     (case least_key hs of
        None \<Rightarrow> Some (Inr w)
      | Some key \<Rightarrow>
          (case newest_all pull key hs None of
             None \<Rightarrow> None
           | Some r \<Rightarrow>
               (case r of
                  Inl err \<Rightarrow> Some (Inl err)
                | Inr (hs', newest) \<Rightarrow>
                    (case out (key, the newest) w of
                       Inl err \<Rightarrow> Some (Inl err)
                     | Inr w' \<Rightarrow> latest_loop pull out hs' w'))))"

definition merge_paged_indexes_latest_value :: "(bytes \<Rightarrow> u32) \<Rightarrow> paged_index list \<Rightarrow> u64 \<Rightarrow> bytes result option" where
  "merge_paged_indexes_latest_value crc inputs dump_version =
     (case pull_all (paged_pull crc) (map (\<lambda>ix. (ix, prefix_cursor_after ix [] None)) inputs) of
        Inl e \<Rightarrow> Some (Inl e)
      | Inr hs \<Rightarrow>
          (case writer_create dump_version None of
             Inl e \<Rightarrow> Some (Inl e)
           | Inr w \<Rightarrow>
               map_option (\<lambda>r. rbind r (\<lambda>w. Inr (writer_finish crc w)))
                 (latest_loop (paged_pull crc) (\<lambda>e. writer_add crc (fst e) (snd e)) hs w)))"

section \<open>What it keeps\<close>

text \<open>The greatest value of a key among entries, on top of one found before.\<close>

fun top_value :: "'v::linorder option \<Rightarrow> 'k \<Rightarrow> ('k \<times> 'v) list \<Rightarrow> 'v option" where
  "top_value newest key [] = newest"
| "top_value newest key (e # es) =
     top_value (if fst e = key \<and> (newest = None \<or> snd e > the newest) then Some (snd e) else newest) key es"

lemma top_value_append: "top_value newest key (xs @ ys) = top_value (top_value newest key xs) key ys"
  by (induction xs arbitrary: newest) simp_all

lemma top_value_none: "(\<And>e. e \<in> set es \<Longrightarrow> fst e \<noteq> key) \<Longrightarrow> top_value newest key es = newest"
  by (induction es) simp_all

lemma top_value_Some: "top_value (Some v) key es = Some (Max (insert v (snd ` {e \<in> set es. fst e = key})))"
proof (induction es arbitrary: v)
  case (Cons e es)
  let ?vs = "snd ` {x \<in> set es. fst x = key}"
  show ?case
  proof (cases "fst e = key")
    case True
    then have split: "snd ` {x \<in> set (e # es). fst x = key} = insert (snd e) ?vs" by auto
    have "finite ?vs" by simp
    then have "Max (insert (max v (snd e)) ?vs) = Max (insert v (insert (snd e) ?vs))"
      by (cases "?vs = {}") (simp_all only: Max_insert Max_singleton finite_insert insert_not_empty max.assoc simp_thms)
    moreover have "(if snd e > v then Some (snd e) else Some v) = Some (max v (snd e))" by (cases "snd e > v") (simp_all add: max_def not_less less_imp_le antisym)
    ultimately show ?thesis unfolding split using True Cons.IH by (simp only: top_value.simps option.sel option.distinct simp_thms)
  next
    case False
    then have "{x \<in> set (e # es). fst x = key} = {x \<in> set es. fst x = key}" by auto
    with False Cons.IH show ?thesis by (simp only: top_value.simps simp_thms if_False)
  qed
qed simp

lemma top_value_Max:
  assumes "key \<in> fst ` set es"
  shows "top_value None key es = Some (Max (snd ` {e \<in> set es. fst e = key}))"
proof -
  from assms obtain e where "e \<in> set es" "fst e = key" by auto
  then obtain xs x ys where es: "es = xs @ x # ys" and x: "fst x = key" and before: "\<forall>y \<in> set xs. fst y \<noteq> key"
    using split_list_first_prop [of es "\<lambda>e. fst e = key"] by blast
  then have "top_value None key es = top_value (Some (snd x)) key ys"
    using top_value_none [of xs key None] by (simp add: top_value_append)
  moreover have "{e \<in> set es. fst e = key} = insert x {e \<in> set ys. fst e = key}" using es x before by auto
  ultimately show ?thesis by (simp only: top_value_Some image_insert)
qed

text \<open>The greatest value of each key, in the order of the keys.\<close>

definition latest_entries :: "('k::linorder \<times> 'v::linorder) set \<Rightarrow> ('k \<times> 'v) list" where
  "latest_entries E = map (\<lambda>key. (key, Max (snd ` {e \<in> E. fst e = key}))) (sorted_list_of_set (fst ` E))"

lemma latest_entries_empty [simp]: "latest_entries {} = []"
  by (simp add: latest_entries_def)

lemma latest_entries_least:
  assumes "finite E" and "key \<in> fst ` E" and "\<forall>e \<in> E. key \<le> fst e"
  shows "latest_entries E = (key, Max (snd ` {e \<in> E. fst e = key})) # latest_entries {e \<in> E. fst e \<noteq> key}"
proof -
  let ?E' = "{e \<in> E. fst e \<noteq> key}"
  have keys: "fst ` E = insert key (fst ` ?E')" using assms(2) by auto
  have "sorted_list_of_set (fst ` E) = key # sorted_list_of_set (fst ` ?E')"
  proof (rule strict_sorted_equal)
    have "key < fst e" if "e \<in> ?E'" for e using that assms(3) by (auto simp: order_less_le)
    then show "sorted_wrt (<) (key # sorted_list_of_set (fst ` ?E'))" using assms(1) by auto
    have "finite (fst ` E)" "finite (fst ` ?E')" using assms(1) by simp_all
    then show "set (sorted_list_of_set (fst ` E)) = set (key # sorted_list_of_set (fst ` ?E'))"
      using keys by (simp only: list.set set_sorted_list_of_set)
  qed simp
  moreover have "{e \<in> ?E'. fst e = k} = {e \<in> E. fst e = k}" if "k \<in> fst ` ?E'" for k using that by auto
  ultimately show ?thesis using assms(1) by (simp add: latest_entries_def)
qed

locale keyed_source = source pull drains
  for pull :: "'s \<Rightarrow> (('k::linorder \<times> 'v::linorder) option \<times> 's) result"
    and drains :: "'s \<Rightarrow> ('k \<times> 'v) list \<Rightarrow> bool"
begin

lemma newest_of_exact:
  assumes "holds h es" and "sorted (map fst es)" and "\<forall>e \<in> set es. key \<le> fst e"
  shows "\<exists>h'. newest_of pull key h newest = Some (Inr (h', top_value newest key es))
    \<and> holds h' (filter (\<lambda>e. fst e \<noteq> key) es)"
  using assms
proof (induction es arbitrary: h newest)
  case Nil
  then have "fst h = None" by (cases h; cases "fst h") auto
  with Nil show ?case by (simp add: newest_of.simps top_value_none)
next
  case (Cons e es)
  obtain s where h: "h = (Some e, s)" "drains s es" using Cons.prems(1) by (cases h; cases "fst h") auto
  show ?case
  proof (cases "fst e = key")
    case True
    obtain h1 where h1: "pull s = Inr h1" "holds h1 es" using pull_holds [OF h(2)] by blast
    define newer where "newer = (if newest = None \<or> snd e > the newest then Some (snd e) else newest)"
    have "newest_of pull key h newest = newest_of pull key h1 newer" unfolding newer_def
      using True h(1) h1(1) by (subst newest_of.simps) simp
    moreover obtain h' where "newest_of pull key h1 newer = Some (Inr (h', top_value newer key es))"
      "holds h' (filter (\<lambda>e. fst e \<noteq> key) es)"
      using Cons.IH [OF h1(2), of newer] Cons.prems(2,3) by auto
    moreover have "top_value newest key (e # es) = top_value newer key es" using True by (simp add: newer_def)
    ultimately show ?thesis using True by auto
  next
    case False
    have "key < fst x" if "x \<in> set (e # es)" for x
      using that False Cons.prems(2,3) by (auto simp: order_less_le dest: order_antisym)
    then have other: "fst x \<noteq> key" if "x \<in> set (e # es)" for x using that by (metis order_less_irrefl)
    have "filter (\<lambda>e. fst e \<noteq> key) (e # es) = e # es" using other by (simp only: filter_id_conv) blast
    moreover have "top_value newest key (e # es) = newest" by (rule top_value_none [OF other])
    moreover have "newest_of pull key h newest = Some (Inr (h, newest))"
      using False h(1) by (subst newest_of.simps) simp
    ultimately show ?thesis using Cons.prems(1) by simp
  qed
qed

lemma newest_all_exact:
  assumes "list_all2 holds hs ess" and "list_all (\<lambda>es. sorted (map fst es)) ess" and "\<forall>e \<in> set (concat ess). key \<le> fst e"
  shows "\<exists>hs'. newest_all pull key hs newest = Some (Inr (hs', top_value newest key (concat ess)))
    \<and> list_all2 holds hs' (map (filter (\<lambda>e. fst e \<noteq> key)) ess)"
  using assms
proof (induction hs ess arbitrary: newest rule: list_all2_induct)
  case Nil
  then show ?case by (simp add: top_value_none)
next
  case (Cons h hs es ess)
  obtain h' where h': "newest_of pull key h newest = Some (Inr (h', top_value newest key es))"
    "holds h' (filter (\<lambda>e. fst e \<noteq> key) es)" using newest_of_exact [OF Cons.hyps(1), of key newest] Cons.prems by auto
  obtain hs' where "newest_all pull key hs (top_value newest key es) = Some (Inr (hs', top_value (top_value newest key es) key (concat ess)))"
    "list_all2 holds hs' (map (filter (\<lambda>e. fst e \<noteq> key)) ess)" using Cons.IH [of "top_value newest key es"] Cons.prems by auto
  with h' show ?case by (simp add: top_value_append)
qed

lemma least_key_exact:
  assumes "list_all2 holds hs ess" and "list_all (\<lambda>es. sorted (map fst es)) ess"
  shows "least_key hs = (if concat ess = [] then None else Some (Min (fst ` set (concat ess))))"
  using assms
proof (induction hs arbitrary: ess rule: least_key.induct)
  case (2 s hs)
  then obtain ess' where "ess = [] # ess'" "list_all2 holds hs ess'" by (auto simp: list_all2_Cons1)
  with 2 show ?case by auto
next
  case (3 e s hs)
  then obtain es ess' where ess: "ess = (e # es) # ess'" "list_all2 holds hs ess'"
    by (auto simp: list_all2_Cons1)
  have ih: "least_key hs = (if concat ess' = [] then None else Some (Min (fst ` set (concat ess'))))"
    using "3.IH" [OF ess(2)] "3.prems"(2) ess(1) by simp
  have least: "Min (fst ` set (e # es)) = fst e"
    using "3.prems"(2) ess(1) by (intro Min_eqI) auto
  show ?case
  proof (cases "concat ess' = []")
    case True
    then have "set (concat ess) = set (e # es)" unfolding ess(1) by (simp only: concat.simps append_Nil2)
    with True ih least show ?thesis unfolding ess(1) by (simp del: set_concat)
  next
    case False
    have "Min (fst ` set (concat ess)) = min (Min (fst ` set (e # es))) (Min (fst ` set (concat ess')))"
      unfolding ess(1) concat.simps set_append image_Un using False by (intro Min_Un) simp_all
    moreover have "least_key hs = Some (Min (fst ` set (concat ess')))" unfolding ih using False by (rule if_not_P)
    moreover have "concat ess \<noteq> []" by (simp add: ess(1))
    ultimately show ?thesis by (simp only: least_key.simps option.case least if_False)
  qed
qed simp

lemma latest_loop_exact:
  fixes out :: "'k \<times> 'v \<Rightarrow> 'w \<Rightarrow> 'w result"
  assumes "list_all2 holds hs ess" and "list_all (\<lambda>es. sorted (map fst es)) ess"
  shows "latest_loop pull out hs w = Some (out_all out (latest_entries (set (concat ess))) w)"
  using assms
proof (induction "length (concat ess)" arbitrary: hs ess w rule: less_induct)
  case less
  let ?all = "concat ess"
  have lk: "least_key hs = (if ?all = [] then None else Some (Min (fst ` set ?all)))"
    by (rule least_key_exact [OF less.prems])
  show ?case
  proof (cases "?all = []")
    case True
    then have "least_key hs = None" unfolding lk by (rule if_P)
    then show ?thesis unfolding True by (subst latest_loop.simps) simp
  next
    case False
    define key where "key = Min (fst ` set ?all)"
    define ess' where "ess' = map (filter (\<lambda>e. fst e \<noteq> key)) ess"
    have fin: "finite (fst ` set ?all)" "fst ` set ?all \<noteq> {}" using False by (simp_all only: finite_imageI finite_set image_is_empty set_empty simp_thms)
    have key: "key \<in> fst ` set ?all" unfolding key_def by (rule Min_in [OF fin])
    have least: "\<forall>e \<in> set ?all. key \<le> fst e" unfolding key_def using Min_le [OF fin(1)] by blast
    have top: "top_value None key ?all = Some (Max (snd ` {e \<in> set ?all. fst e = key}))" by (rule top_value_Max [OF key])
    obtain hs' where hs': "newest_all pull key hs None = Some (Inr (hs', top_value None key ?all))" "list_all2 holds hs' ess'"
      using newest_all_exact [OF less.prems least, of None] unfolding ess'_def by blast
    have rest: "concat ess' = filter (\<lambda>e. fst e \<noteq> key) ?all" by (simp add: ess'_def filter_concat)
    have shorter: "length (concat ess') < length ?all"
      unfolding rest using key by (auto intro!: length_filter_less)
    have sorted': "list_all (\<lambda>es. sorted (map fst es)) ess'"
      using less.prems(2) by (auto simp: ess'_def list_all_iff sorted_filter)
    have set': "set (concat ess') = {e \<in> set ?all. fst e \<noteq> key}" unfolding rest by simp
    have split: "latest_entries (set ?all) = (key, Max (snd ` {e \<in> set ?all. fst e = key})) # latest_entries (set (concat ess'))"
      unfolding set' by (rule latest_entries_least [OF finite_set key least])
    have "latest_loop pull out hs w =
        (case out (key, Max (snd ` {e \<in> set ?all. fst e = key})) w of
           Inl err \<Rightarrow> Some (Inl err) | Inr w' \<Rightarrow> latest_loop pull out hs' w')"
      using lk False hs'(1) top by (subst latest_loop.simps) (simp only: if_False key_def [symmetric] option.case sum.case prod.case option.sel)
    then show ?thesis
      using less.hyps [OF shorter hs'(2) sorted'] unfolding split by (simp add: rbind_def split: sum.splits)
  qed
qed

end

interpretation paged_keyed: keyed_source "paged_pull crc" "\<lambda>s es. \<exists>pss. cursor_inv crc pss s es" for crc
  by unfold_locales

lemma latest_weight:
  fixes es :: "entry list"
  shows "set (latest_entries (set es)) \<subseteq> set es" and "sorted_wrt (<) (latest_entries (set es))"
    and "length (latest_entries (set es)) \<le> length es" and "run_weight (latest_entries (set es)) \<le> run_weight es"
proof -
  let ?l = "latest_entries (set es)"
  show sub: "set ?l \<subseteq> set es"
  proof
    fix x assume "x \<in> set ?l"
    then obtain key where key: "key \<in> fst ` set es" and x: "x = (key, Max (snd ` {e \<in> set es. fst e = key}))"
      by (auto simp: latest_entries_def)
    have "Max (snd ` {e \<in> set es. fst e = key}) \<in> snd ` {e \<in> set es. fst e = key}" using key by (intro Max_in) auto
    then show "x \<in> set es" unfolding x by auto
  qed
  have "sorted_wrt (\<lambda>x y. fst x < fst y) ?l"
    by (simp add: latest_entries_def sorted_wrt_map strict_sorted_list_of_set)
  then show strict: "sorted_wrt (<) ?l" by (rule sorted_wrt_mono_rel [rotated]) (simp add: less_prod_def)
  then have eq: "sorted_list_of_set (set ?l) = ?l" by (intro strict_sorted_equal) simp_all
  have dist: "distinct ?l" using strict by (simp add: strict_sorted_iff)
  show "length ?l \<le> length es" using dist sub card_mono [OF finite_set sub] card_length [of es] by (simp add: distinct_card)
  let ?f = "\<lambda>e :: entry. 32 + 3 * length (fst e) + length (snd e)"
  have "run_weight ?l = sum ?f (set ?l)" unfolding run_weight_def using dist by (rule sum_list_distinct_conv_sum_set)
  also have "\<dots> \<le> sum ?f (set es)" by (rule sum_mono2 [OF finite_set sub]) simp
  also have "\<dots> = run_weight (sorted_list_of_set (set es))"
    unfolding run_weight_def by (subst sum_list_distinct_conv_sum_set) simp_all
  also have "\<dots> \<le> run_weight es" by (rule run_weight_set)
  finally show "run_weight ?l \<le> run_weight es" .
qed

lemma merge_latest_opens:
  assumes valid: "list_all (run_valid crc) ixs" and few: "length (concat (map (px_entries crc) ixs)) < 2 ^ 32"
    and weight: "run_weight (concat (map (px_entries crc) ixs)) < 2 ^ 62"
  shows "\<exists>bs. merge_paged_indexes_latest_value crc ixs dv = Some (Inr bs)
    \<and> opens_to crc bs dv (latest_entries (set (concat (map (px_entries crc) ixs))))"
proof -
  let ?all = "concat (map (px_entries crc) ixs)"
  let ?es = "latest_entries (set ?all)"
  obtain hs where
    hs: "pull_all (paged_pull crc) (map (\<lambda>ix. (ix, prefix_cursor_after ix [] None)) ixs) = Inr hs"
      "list_all2 (paged_source.holds crc) hs (map (px_entries crc) ixs)" using pull_all_runs [OF valid] by blast
  have "sorted (map fst (px_entries crc ix))" if "run_valid crc ix" for ix
  proof -
    have "x < y \<Longrightarrow> fst x \<le> fst y" for x y :: entry by (auto simp: less_prod_def)
    with that show ?thesis unfolding run_valid_def sorted_map by (blast intro: sorted_wrt_mono_rel)
  qed
  then have sorted: "list_all (\<lambda>es. sorted (map fst es)) (map (px_entries crc) ixs)"
    using valid by (auto simp: list_all_iff)
  have "list_all entry_fits ?all" using valid run_fits_entries by (fastforce simp: list_all_iff)
  then have fits: "list_all entry_fits ?es" using latest_weight(1) [of ?all] by (meson list_all_iff subsetD)
  have small: "length ?es < 2 ^ 32" "run_weight ?es < 2 ^ 62"
    using latest_weight(3,4) [of ?all] few weight by linarith+
  obtain w where w: "rbind (writer_create dv None) (add_all crc ?es) = Inr w" "opens_to crc (writer_finish crc w) dv ?es"
    using written_opens_to [of DEFAULT_PAGE_SIZE ?es dv crc, OF _ _ fits latest_weight(2) small]
    by (auto simp: writer_create_default)
  from w(1) obtain w0 where w0: "writer_create dv None = Inr w0" "add_all crc ?es w0 = Inr w" by (auto simp: result_dests)
  have "latest_loop (paged_pull crc) (\<lambda>e. writer_add crc (fst e) (snd e)) hs w0 = Some (Inr w)"
    using paged_keyed.latest_loop_exact [OF hs(2) sorted, of "\<lambda>e. writer_add crc (fst e) (snd e)" w0] w0(2)
    by (simp only: out_all_writer)
  with hs(1) w0(1) w(2) show ?thesis by (auto simp: merge_paged_indexes_latest_value_def)
qed

end
