(* ===== verification/Paged_Index.thy ===== *)
theory Paged_Index
  imports Paged_Latest
begin

text \<open>
  The properties of paged index runs: what opening accepts, what the writer's file reads back as,
  that lookups, cursors, merges and the external sorter are exact, and that no page is served whose
  bytes do not match the checksum stored with it.
\<close>

section \<open>Served pages match their checksums\<close>

text \<open>The checksum stored at a page, and the pages whose bit says that it was verified.\<close>

definition page_payload_at :: "paged_index \<Rightarrow> page_view \<Rightarrow> bytes option" where
  "page_payload_at ix page = get_range (px_mmap ix) (pv_payload_offset page) (pv_payload_offset page + pv_payload_len page)"

definition page_sound :: "(bytes \<Rightarrow> u32) \<Rightarrow> paged_index \<Rightarrow> page_view \<Rightarrow> bool" where
  "page_sound crc ix page \<longleftrightarrow>
     (\<exists>payload. page_payload_at ix page = Some payload
       \<and> pg_read_u32 (px_mmap ix) (pv_offset page + 4) = Inr (crc payload))"

definition verified_sound :: "(bytes \<Rightarrow> u32) \<Rightarrow> paged_index \<Rightarrow> bool" where
  "verified_sound crc ix \<longleftrightarrow> length (px_verified ix) = (length (px_pages ix) + 63) div 64
     \<and> (\<forall>p < length (px_pages ix). verified_bit ix p \<longrightarrow> page_sound crc ix (page_at ix p))"

text \<open>The page at a position, as the readers that count positions and the ones that do not see it.\<close>

definition page_slot :: "paged_index \<Rightarrow> page_view \<Rightarrow> bool" where
  "page_slot ix page \<longleftrightarrow> (\<exists>p < length (px_pages ix). page = page_at ix p \<or> page = px_page ix (px_pages ix ! p))"

lemma binary_search_key: "binary_search k xs = Inr p \<Longrightarrow> p < length xs \<and> fst (xs ! p) = k"
proof (induction xs arbitrary: p)
  case (Cons x xs)
  then show ?case by (cases x) (auto simp: binary_search_Cons split: if_splits sum.splits)
qed (simp add: binary_search_Nil)

lemma page_sound_position [simp]: "page_sound crc ix (page\<lparr>pv_position := q\<rparr>) \<longleftrightarrow> page_sound crc ix page"
  by (simp add: page_sound_def page_payload_at_def)

lemma page_sound_set_verified [simp]: "page_sound crc (set_verified p ix) page \<longleftrightarrow> page_sound crc ix page"
  by (simp add: page_sound_def page_payload_at_def set_verified_def)

lemma set_verified_views [simp]:
  "px_pages (set_verified p ix) = px_pages ix" "length (px_verified (set_verified p ix)) = length (px_verified ix)"
  "page_at (set_verified p ix) = page_at ix" "px_page (set_verified p ix) = px_page ix"
  by (simp_all add: set_verified_def page_at_def px_page_def fun_eq_iff)

lemma verified_bit_set:
  assumes "p < length (px_pages ix)" and "q < length (px_pages ix)"
    and "length (px_verified ix) = (length (px_pages ix) + 63) div 64"
  shows "verified_bit (set_verified p ix) q \<longleftrightarrow> verified_bit ix q \<or> q = p"
proof -
  have inside: "p div 64 < length (px_verified ix)" using assms(1,3) by linarith
  have "q div 64 = p div 64 \<Longrightarrow> (q mod 64 = p mod 64) = (q = p)" by (metis div_mult_mod_eq)
  with inside show ?thesis
    by (auto simp: verified_bit_def set_verified_def nth_list_update bit_or_iff bit_exp_iff possible_bit_word)
qed

lemma verified_sound_set:
  assumes "verified_sound crc ix" and "p < length (px_pages ix)" and "page_sound crc ix (page_at ix p)"
  shows "verified_sound crc (set_verified p ix)"
  using assms verified_bit_set [OF assms(2)] by (auto simp: verified_sound_def)

definition viewable :: "paged_index \<Rightarrow> bool" where
  "viewable ix \<longleftrightarrow> list_all (\<lambda>d. page_view (px_mmap ix) (px_format ix) d \<noteq> None) (px_pages ix)"

lemma page_view_fields:
  "page_view mmap format d = Some v \<Longrightarrow> pv_directory_entry v = d \<and> pv_position v = None"
  by (auto simp: page_view_def Let_def bind_eq_Some_conv split: prod.splits)

text \<open>The slot \<open>verify_page\<close> finds is a slot of the same page.\<close>

lemma page_slot_sound:
  assumes view: "viewable ix" and slot: "page_slot ix page"
    and p: "(case pv_position page of Some p \<Rightarrow> Some p
      | None \<Rightarrow> (case binary_search (pv_directory_entry page) (map (\<lambda>d. (d, ())) (px_pages ix)) of
          Inr p \<Rightarrow> Some p | Inl _ \<Rightarrow> None)) = Some p"
  shows "p < length (px_pages ix)" and "page_sound crc ix (page_at ix p) \<longleftrightarrow> page_sound crc ix page"
proof -
  from slot obtain q where q: "q < length (px_pages ix)" "page = page_at ix q \<or> page = px_page ix (px_pages ix ! q)"
    by (auto simp: page_slot_def)
  obtain v where "page_view (px_mmap ix) (px_format ix) (px_pages ix ! q) = Some v"
    using view q(1) by (auto simp: viewable_def list_all_length)
  from page_view_fields [OF this] this have px: "pv_directory_entry (px_page ix (px_pages ix ! q)) = px_pages ix ! q"
    "pv_position (px_page ix (px_pages ix ! q)) = None" by (simp_all add: px_page_def)
  have "p < length (px_pages ix) \<and> px_pages ix ! p = px_pages ix ! q"
    using q p px by (auto simp: page_at_def split: sum.splits dest: binary_search_key)
  then show "p < length (px_pages ix)" "page_sound crc ix (page_at ix p) \<longleftrightarrow> page_sound crc ix page"
    using q(2) by (auto simp: page_at_def)
qed

lemma load_page_sound:
  assumes sound: "verified_sound crc ix" and view: "viewable ix" and slot: "page_slot ix page"
    and load: "load_page crc ix page = (r, ix')"
  shows "verified_sound crc ix' \<and> same_run ix ix' \<and> (\<forall>payload. r = Inr payload \<longrightarrow> page_payload_at ix page = Some payload \<and> page_sound crc ix page)"
proof -
  define found where "found = (case pv_position page of Some p \<Rightarrow> Some p
      | None \<Rightarrow> (case binary_search (pv_directory_entry page) (map (\<lambda>d. (d, ())) (px_pages ix)) of
          Inr p \<Rightarrow> Some p | Inl _ \<Rightarrow> None))"
  note at = page_slot_sound [OF view slot, folded found_def]
  have verify: "verified_sound crc ix'' \<and> same_run ix ix'' \<and> (u = Inr () \<longrightarrow> page_sound crc ix page)"
    if v: "verify_page crc ix page payload stored = (u, ix'')" and pl: "page_payload_at ix page = Some payload"
      and st: "pg_read_u32 (px_mmap ix) (pv_offset page + 4) = Inr stored" for payload stored u ix''
  proof (cases "case found of Some p \<Rightarrow> verified_bit ix p | None \<Rightarrow> False")
    case True
    then obtain p where p: "found = Some p" "verified_bit ix p" by (auto split: option.splits)
    then have "page_sound crc ix page" using at(1) [OF p(1)] at(2) [OF p(1), of crc] sound by (simp add: verified_sound_def)
    with v True sound show ?thesis by (simp add: verify_page_def found_def [symmetric])
  next
    case False
    then have eq: "verify_page crc ix page payload stored =
        (if crc payload \<noteq> stored then (Inl (Corrupt ''paged index: page crc mismatch''), ix)
         else (Inr (), case found of Some p \<Rightarrow> set_verified p ix | None \<Rightarrow> ix))"
      by (simp add: verify_page_def found_def [symmetric])
    show ?thesis
    proof (cases "crc payload = stored")
      case True
      then have ok: "page_sound crc ix page" using pl st by (auto simp: page_sound_def)
      have "verified_sound crc (case found of Some p \<Rightarrow> set_verified p ix | None \<Rightarrow> ix)"
        using at ok sound by (auto intro: verified_sound_set split: option.splits)
      with v eq True ok show ?thesis by (auto intro: same_run_set_verified split: option.splits)
    qed (use v eq sound in auto)
  qed
  show ?thesis
    using load sound verify unfolding load_page_def page_payload_at_def
    by (auto simp: rbind_def ok_or_def split: sum.splits option.splits if_splits prod.splits)
qed

text \<open>Reading pages in any order, again and again; a failed read does not end the sequence.\<close>

fun load_positions :: "(bytes \<Rightarrow> u32) \<Rightarrow> nat list \<Rightarrow> paged_index \<Rightarrow> bytes result list" where
  "load_positions crc [] ix = []"
| "load_positions crc (p # ps) ix = (case load_page crc ix (page_at ix p) of (r, ix') \<Rightarrow> r # load_positions crc ps ix')"

lemma same_run_page_sound: "same_run ix ix' \<Longrightarrow> page_sound crc ix' = page_sound crc ix \<and> page_payload_at ix' = page_payload_at ix"
  using same_run_px [of ix ix'] by (simp add: page_sound_def page_payload_at_def fun_eq_iff)

lemma same_run_viewable: "same_run ix ix' \<Longrightarrow> viewable ix' = viewable ix"
  using same_run_px [of ix ix'] by (simp add: viewable_def)

lemma load_positions_sound:
  assumes "verified_sound crc ix" and "viewable ix" and "list_all (\<lambda>p. p < length (px_pages ix)) ps"
    and "i < length ps" and "load_positions crc ps ix ! i = Inr payload"
  shows "page_payload_at ix (page_at ix (ps ! i)) = Some payload \<and> page_sound crc ix (page_at ix (ps ! i))"
  using assms
proof (induction ps arbitrary: ix i)
  case (Cons p ps)
  obtain r ix' where load: "load_page crc ix (page_at ix p) = (r, ix')" by force
  have "page_slot ix (page_at ix p)" using Cons.prems(3) by (auto simp: page_slot_def)
  note step = load_page_sound [OF Cons.prems(1,2) this load]
  have run: "same_run ix ix'" and sound: "verified_sound crc ix'" using step by simp_all
  show ?case
  proof (cases i)
    case 0
    with Cons.prems(5) load step show ?thesis by simp
  next
    case (Suc j)
    have "list_all (\<lambda>p. p < length (px_pages ix')) ps" using Cons.prems(3) same_run_px [OF run] by simp
    from Cons.IH [OF sound _ this, of j] Suc Cons.prems(2,4,5) load
    have "page_payload_at ix' (page_at ix' (ps ! j)) = Some payload \<and> page_sound crc ix' (page_at ix' (ps ! j))"
      by (simp add: same_run_viewable [OF run])
    then show ?thesis using Suc by (simp add: same_run_page_sound [OF run] same_run_views [OF run])
  qed
qed simp

lemma opened_verified: "opened ix \<Longrightarrow> verified_sound crc ix \<and> viewable ix"
  by (auto simp: opened_def verified_sound_def viewable_def verified_bit_def list_all_iff)

text \<open>The file of a paged run is opened without a panic, whatever its bytes are, and every page the
  opened index lists can be viewed: its header, keys and payload lie inside the file, so that no
  later access to a page's keys or bytes is out of range.\<close>

theorem open_no_panic:
  assumes "mappable bs"
  shows "paged_open crc bs \<noteq> None \<and> (\<forall>ix. paged_open crc bs = Some (Inr ix) \<longrightarrow> px_mmap ix = bs
    \<and> list_all (\<lambda>d. \<exists>page. page_view bs (px_format ix) d = Some page \<and> page_inside bs (length bs) page) (px_pages ix))"
proof -
  have sound: "paged_open crc bs \<noteq> None" "\<And>ix. paged_open crc bs = Some (Inr ix) \<Longrightarrow> px_mmap ix = bs \<and> opened ix"
    using paged_open_sound [OF assms, of crc] by blast+
  have "px_mmap ix = bs \<and> list_all (\<lambda>d. \<exists>page. page_view bs (px_format ix) d = Some page
      \<and> page_inside bs (length bs) page) (px_pages ix)" if ok: "paged_open crc bs = Some (Inr ix)" for ix
  proof -
    have m: "px_mmap ix = bs" and "opened ix" using sound(2) [OF ok] by blast+
    then show ?thesis unfolding opened_def m by blast
  qed
  with sound(1) show ?thesis by blast
qed

theorem open_no_panic_witness: "paged_open (\<lambda>_. 0) [1, 2, 3] \<noteq> None"
  using open_no_panic [of "[1, 2, 3]" "\<lambda>_. 0"] by simp

text \<open>C31. However pages are read, in any order and again, a page whose bytes do not match the checksum
  stored with it is never served, although its checksum is computed at most once: the bit that
  skips the computation is only ever set for a page that was found right.\<close>

theorem served_pages_match_checksums:
  assumes "mappable bs" and "paged_open crc bs = Some (Inr ix)" and "list_all (\<lambda>p. p < length (px_pages ix)) ps"
    and "i < length ps" and "load_positions crc ps ix ! i = Inr payload"
  shows "page_payload_at ix (page_at ix (ps ! i)) = Some payload
    \<and> pg_read_u32 bs (pv_offset (page_at ix (ps ! i)) + 4) = Inr (crc payload)"
proof -
  have "opened ix" "px_mmap ix = bs" using paged_open_sound [OF assms(1), of crc] assms(2) by simp_all
  then show ?thesis
    using load_positions_sound [OF _ _ assms(3-5)] opened_verified [of ix crc] by (auto simp: page_sound_def)
qed

text \<open>A one-entry run, for the witnesses.\<close>

lemma sample_run:
  "\<exists>bs ix pss. opens_to (\<lambda>_. 7) bs 1 [([1], [2])] \<and> mappable bs \<and> paged_open (\<lambda>_. 7) bs = Some (Inr ix)
     \<and> run_valid (\<lambda>_. 7) ix \<and> px_entries (\<lambda>_. 7) ix = [([1], [2])] \<and> index_holds (\<lambda>_. 7) ix pss \<and> 0 < length pss"
proof -
  let ?es = "[([1], [2])] :: entry list"
  have weight: "run_weight ?es < 2 ^ 62" by (simp add: run_weight_def)
  have fits: "list_all entry_fits ?es" by (simp add: entry_fits_def)
  obtain w where w: "rbind (writer_create 1 (Some 256)) (add_all (\<lambda>_. 7) ?es) = Inr w"
    "opens_to (\<lambda>_. 7) (writer_finish (\<lambda>_. 7) w) 1 ?es"
    using written_opens_to [OF _ _ fits _ _ weight, of 256 1 "\<lambda>_. 7"] by auto
  define bs where "bs = writer_finish (\<lambda>_. 7) w"
  have bs: "opens_to (\<lambda>_. 7) bs 1 ?es" using w(2) by (simp add: bs_def)
  have mappable: "mappable bs"
    using written_run_opens [OF _ _ fits, of 256 1 "\<lambda>_. 7"] w(1) weight by (auto simp: bs_def)
  from bs
  obtain ix pss where ix: "paged_open (\<lambda>_. 7) bs = Some (Inr ix)" "run_valid (\<lambda>_. 7) ix"
    "px_entries (\<lambda>_. 7) ix = [([1], [2])]" "index_holds (\<lambda>_. 7) ix pss" unfolding opens_to_def run_valid_def by blast
  then have "concat pss = [([1], [2])]" using px_entries_holds by metis
  then have "0 < length pss" by (cases pss) auto
  with mappable bs ix show ?thesis by blast
qed

theorem served_pages_match_checksums_witness:
  "\<exists>bs ix payload. paged_open (\<lambda>_. 7) bs = Some (Inr ix) \<and> load_positions (\<lambda>_. 7) [0] ix = [Inr payload]
     \<and> pg_read_u32 bs (pv_offset (page_at ix 0) + 4) = Inr 7"
proof -
  obtain bs ix pss where ix: "mappable bs" "paged_open (\<lambda>_. 7) bs = Some (Inr ix)"
    "index_holds (\<lambda>_. 7) ix pss" "0 < length pss" using sample_run by blast
  then have "load_positions (\<lambda>_. 7) [0] ix = [Inr (page_payload (pss ! 0))]"
    using load_page_at(1) [OF ix(3,4)] by auto
  moreover have "list_all (\<lambda>p. p < length (px_pages ix)) [0]" using index_holds_length [OF ix(3)] ix(4) by simp
  ultimately show ?thesis
    using served_pages_match_checksums [OF ix(1,2), of "[0]" 0 "page_payload (pss ! 0)"] ix(2) by auto
qed

section \<open>Writing and reading\<close>

text \<open>C28. What is written in order is read back: for entries in strictly ascending order that fit their
  length fields, the writer succeeds, its file opens with the given dump version and the number of
  entries, and a full scan visits exactly the entries, in order.\<close>

theorem paged_run_roundtrip:
  assumes "256 \<le> page_size" and "page_size \<le> 1024 * 1024" and "list_all entry_fits es" and "sorted_wrt (<) es"
    and "length es < 2 ^ 32" and "run_weight es < 2 ^ 62"
  shows "\<exists>w ix ix'. rbind (writer_create dv (Some page_size)) (add_all crc es) = Inr w
    \<and> paged_open crc (writer_finish crc w) = Some (Inr ix) \<and> px_dump_version ix = dv \<and> px_entry_count ix = of_nat (length es)
    \<and> px_scan crc ix visit s = (visit_all visit es s, ix')"
proof -
  obtain w where w: "rbind (writer_create dv (Some page_size)) (add_all crc es) = Inr w" "opens_to crc (writer_finish crc w) dv es"
    using written_opens_to [OF assms] by blast
  then obtain ix pss where ix: "paged_open crc (writer_finish crc w) = Some (Inr ix)" "px_dump_version ix = dv"
    "px_entry_count ix = of_nat (length es)" "index_holds crc ix pss" "px_entries crc ix = es"
    by (auto simp: opens_to_def run_valid_def)
  then have "concat pss = es" using px_entries_holds [OF ix(4)] by simp
  with px_scan_holds [OF ix(4), of visit s] w(1) ix(1-3) show ?thesis by blast
qed

theorem paged_run_roundtrip_witness:
  "\<exists>w ix ix'. rbind (writer_create 9 (Some 256)) (add_all (\<lambda>_. 7) [([1], [2]), ([1], [3]), ([4], [])]) = Inr w
    \<and> paged_open (\<lambda>_. 7) (writer_finish (\<lambda>_. 7) w) = Some (Inr ix) \<and> px_entry_count ix = 3
    \<and> px_scan (\<lambda>_. 7) ix (\<lambda>n k v. Inr (n + 1)) (0::nat) = (Inr 3, ix')"
proof -
  have "run_weight [([1], [2]), ([1], [3]), ([4], [])] < 2 ^ 62" by (simp add: run_weight_def)
  then show ?thesis
    using paged_run_roundtrip [of 256 "[([1], [2]), ([1], [3]), ([4], [])]" 9 "\<lambda>_. 7" "\<lambda>n k v. Inr (n + 1)" "0::nat"]
    by (auto simp: entry_fits_def less_prod_def)
qed

text \<open>C29. Lookups in an open run are exact. \<open>visit_key\<close> calls the visitor for exactly the values stored
  under the key, in order, until the visitor stops; \<open>visit_table_key\<close>, which searches the memoised
  fences instead of the pages, does the same, and starts at the same page; and \<open>may_contain_key\<close>
  never denies a key that is there.\<close>

theorem paged_lookup_exact:
  assumes "opens_to crc bs dv es" and "paged_open crc bs = Some (Inr ix)"
  shows "fst (visit_key crc ix key visit s) = rbind (visit_values visit (values_of key es) s) (\<lambda>(s, _). Inr s)
    \<and> visit_table_key crc ix key visit s = visit_key crc ix key visit s
    \<and> first_page_for_table_key ix key = first_page_for ix key False
    \<and> (key \<in> fst ` set es \<longrightarrow> may_contain_key ix key)"
proof -
  obtain pss where pss: "index_holds crc ix pss" "px_entries crc ix = es"
    using assms by (auto simp: opens_to_def run_valid_def)
  then have es: "concat pss = es" using px_entries_holds [OF pss(1)] by simp
  show ?thesis
    using visit_key_holds [OF pss(1), of key visit s] visit_table_key_holds [OF pss(1), of key visit s]
      first_page_for_table_key_exact [OF pss(1), of key] may_contain_key_holds [OF pss(1)] unfolding es by auto
qed

theorem paged_lookup_exact_witness:
  "\<exists>bs ix. paged_open (\<lambda>_. 7) bs = Some (Inr ix) \<and> may_contain_key ix [1]
     \<and> fst (visit_key (\<lambda>_. 7) ix [1] (\<lambda>vs v. Inr (vs @ [v], True)) []) = Inr [[2]]"
proof -
  obtain bs ix where ix: "opens_to (\<lambda>_. 7) bs 1 [([1], [2])]" "paged_open (\<lambda>_. 7) bs = Some (Inr ix)"
    using sample_run by blast
  from paged_lookup_exact [OF ix, of "[1]" "\<lambda>vs v. Inr (vs @ [v], True)" "[]"] ix(2) show ?thesis
    by (auto simp: values_of_def)
qed

text \<open>The results of the first \<open>n\<close> calls of a cursor's \<open>next\<close>.\<close>

fun cursor_pulls :: "(bytes \<Rightarrow> u32) \<Rightarrow> nat \<Rightarrow> paged_index \<times> prefix_cursor \<Rightarrow> entry option list result" where
  "cursor_pulls crc 0 s = Inr []"
| "cursor_pulls crc (Suc n) s = rbind (paged_pull crc s) (\<lambda>(r, s'). rbind (cursor_pulls crc n s') (\<lambda>rs. Inr (r # rs)))"

lemma cursor_pulls_exact:
  "\<exists>pss. cursor_inv crc pss s es \<Longrightarrow> cursor_pulls crc n s = Inr (map Some (take n es) @ replicate (n - length es) None)"
proof (induction n arbitrary: s es)
  case (Suc n)
  show ?case
  proof (cases es)
    case Nil
    with paged_source.pull_end [of crc s] Suc.prems obtain s' where "paged_pull crc s = Inr (None, s')" "\<exists>pss. cursor_inv crc pss s' []"
      by blast
    with Suc.IH [of s' "[]"] Nil show ?thesis by simp
  next
    case (Cons e es')
    with paged_source.pull_step [of crc s e es'] Suc.prems obtain s' where "paged_pull crc s = Inr (Some e, s')" "\<exists>pss. cursor_inv crc pss s' es'"
      by blast
    with Suc.IH [of s' es'] Cons show ?thesis by simp
  qed
qed simp

text \<open>A prefix cursor that resumes after a key returns, one per call, exactly the entries whose key
  has the prefix and lies after that key, in order, and from then on nothing.\<close>

theorem prefix_cursor_exact:
  assumes "opens_to crc bs dv es" and "paged_open crc bs = Some (Inr ix)"
  shows "cursor_pulls crc n (ix, prefix_cursor_after ix pre after)
    = Inr (map Some (take n (entries_after pre after es)) @ replicate (n - length (entries_after pre after es)) None)"
proof (rule cursor_pulls_exact)
  obtain pss where pss: "index_holds crc ix pss" "px_entries crc ix = es"
    using assms by (auto simp: opens_to_def run_valid_def)
  then have es: "concat pss = es" using px_entries_holds [OF pss(1)] by simp
  show "\<exists>pss. cursor_inv crc pss (ix, prefix_cursor_after ix pre after) (entries_after pre after es)"
    using prefix_cursor_inv [OF pss(1), of pre after] unfolding es by blast
qed

theorem prefix_cursor_exact_witness:
  "\<exists>bs ix. paged_open (\<lambda>_. 7) bs = Some (Inr ix)
     \<and> cursor_pulls (\<lambda>_. 7) 3 (ix, prefix_cursor_after ix [1] (Some [0])) = Inr [Some ([1], [2]), None, None]"
proof -
  obtain bs ix where ix: "opens_to (\<lambda>_. 7) bs 1 [([1], [2])]" "paged_open (\<lambda>_. 7) bs = Some (Inr ix)"
    using sample_run by blast
  from prefix_cursor_exact [OF ix, of 3 "[1]" "Some [0]"] ix(2) show ?thesis
    by (auto simp: entries_after_def starts_with_def eval_nat_numeral)
qed

section \<open>Merging\<close>

text \<open>C30. Merging runs loses and repeats nothing. \<open>merge_paged_indexes\<close> writes a run of exactly the
  entries of its inputs, each once, in order, whether it merges entry by entry or, for runs that do
  not overlap, copies whole pages; \<open>merge_paged_indexes_latest_value\<close> writes for each key of the
  inputs its greatest value. Both loops end.\<close>

theorem paged_merges_exact:
  assumes "list_all (run_valid crc) inputs"
    and "length (concat (map (px_entries crc) inputs)) < 2 ^ 32" and "run_weight (concat (map (px_entries crc) inputs)) < 2 ^ 62"
  defines "all \<equiv> set (concat (map (px_entries crc) inputs))"
  shows "\<exists>bs bs'. merge_paged_indexes crc inputs dv = Some (Inr bs) \<and> opens_to crc bs dv (sorted_list_of_set all)
    \<and> merge_paged_indexes_latest_value crc inputs dv = Some (Inr bs')
    \<and> opens_to crc bs' dv (map (\<lambda>key. (key, Max (snd ` {e \<in> all. fst e = key}))) (sorted_list_of_set (fst ` all)))"
  using merge_paged_indexes_opens [OF assms(1-3), of dv] merge_latest_opens [OF assms(1-3), of dv]
  unfolding all_def latest_entries_def by blast

theorem paged_merges_exact_witness:
  "\<exists>ix bs. run_valid (\<lambda>_. 7) ix \<and> merge_paged_indexes (\<lambda>_. 7) [ix, ix] 5 = Some (Inr bs)
     \<and> opens_to (\<lambda>_. 7) bs 5 [([1], [2])]"
proof -
  obtain ix where ix: "run_valid (\<lambda>_. 7) ix" "px_entries (\<lambda>_. 7) ix = [([1], [2])]" using sample_run by blast
  have "run_weight [([1], [2]), ([1], [2])] < 2 ^ 62" by (simp add: run_weight_def)
  with ix paged_merges_exact [of "\<lambda>_. 7" "[ix, ix]" 5] show ?thesis by (auto simp: list_all_iff)
qed

text \<open>C32. The external sorter is exact for every memory budget: whatever order the entries are added in,
  its temporary runs are collapsed until they can be merged at once, the loops end, and the file
  opens to the entries, each once, in order.\<close>

theorem external_sort_exact:
  assumes "list_all entry_fits es" and "length es < 2 ^ 32" and "run_weight es < 2 ^ 62"
  shows "\<exists>bs. external_finish crc (foldl (\<lambda>w e. external_add (fst e) (snd e) w) (external_new dv budget) es) = Some (Inr bs)
    \<and> opens_to crc bs dv (sorted_list_of_set (set es))"
proof -
  have "external_inv (external_new dv budget) []" by (auto simp: external_inv_def external_new_def sorted_runs_def)
  from external_adds_inv [OF this assms(1)] have "external_inv (external_adds es (external_new dv budget)) es"
    "ew_dump_version (external_adds es (external_new dv budget)) = dv" by (simp_all add: external_new_def)
  with external_finish_exact [OF this(1) assms, of crc] show ?thesis by simp
qed

theorem external_sort_exact_witness:
  "\<exists>bs. external_finish (\<lambda>_. 7) (external_add [1] [2] (external_add [3] [4] (external_new 5 0))) = Some (Inr bs)
    \<and> opens_to (\<lambda>_. 7) bs 5 (sorted_list_of_set {([3], [4]), ([1], [2])})"
proof -
  have "run_weight [([3], [4]), ([1], [2])] < 2 ^ 62" by (simp add: run_weight_def)
  then show ?thesis
    using external_sort_exact [of "[([3], [4]), ([1], [2])]" "\<lambda>_. 7" 5 0] by (simp add: entry_fits_def)
qed

end
