(* ===== verification/Primary_Codec.thy ===== *)
theory Primary_Codec
  imports Primary_Delta Paged_Write
begin

text \<open>
  Keys and entries of the primary directory (\<open>db.rs\<close>): a run maps the key of a table and an id to
  the versions of the record, each as bytes that lead with the version.
\<close>

section \<open>Keys\<close>

definition primary_table_prefix :: "string \<Rightarrow> bytes" where
  "primary_table_prefix table = to_be_bytes (of_nat (length table) :: u32) @ as_bytes table"

definition encode_primary_key_into :: "string \<Rightarrow> string \<Rightarrow> bytes" where
  "encode_primary_key_into table rid = to_be_bytes (of_nat (length table) :: u32) @ as_bytes table @ as_bytes rid"

definition primary_key :: "string \<Rightarrow> string \<Rightarrow> bytes" where
  "primary_key table rid = encode_primary_key_into table rid"

definition split_primary_key :: "bytes \<Rightarrow> (bytes \<times> bytes) result" where
  "split_primary_key key =
     (if length key < 4 then Inl (Corrupt ''primary index: truncated key'')
      else
        let table_len = unat (from_be_bytes (take 4 key) :: u32) in
        rbind (ok_or (Corrupt ''primary index: invalid table length'')
                 (opt_filter (\<lambda>e. e \<le> length key) (checked_add 4 table_len))) (\<lambda>table_end.
        Inr (take (table_end - 4) (drop 4 key), drop table_end key)))"

definition primary_id_str :: "bytes \<Rightarrow> string result" where
  "primary_id_str rid =
     (if is_ascii rid then Inr (str_of rid)
      else ok_or (Corrupt ''primary index: invalid id utf8'') (from_utf8 rid))"

section \<open>Entries\<close>

definition encode_primary_entry :: "version_entry \<Rightarrow> bytes result" where
  "encode_primary_entry e =
     (case ve_kind e of
        SegPut segment payload_offset payload_len \<Rightarrow>
          Inr (to_be_bytes (ve_version e) @ 0 # to_le_bytes segment @ to_le_bytes payload_offset @ to_le_bytes payload_len)
      | SegTombstone \<Rightarrow> Inr (to_be_bytes (ve_version e) @ [1])
      | MemPut _ \<Rightarrow> Inl (InvalidArgument ''primary index base cannot contain memtable entries'')
      | MemTombstone \<Rightarrow> Inl (InvalidArgument ''primary index base cannot contain memtable entries''))"

definition decode_primary_entry :: "bytes \<Rightarrow> version_entry result" where
  "decode_primary_entry stored =
     (if length stored < 9 then Inl (Corrupt ''primary index: truncated entry'')
      else
        let version = from_be_bytes (take 8 stored) in
        if stored ! 8 = 0 \<and> length stored = 25 then
          Inr \<lparr>ve_version = version,
               ve_kind = SegPut (from_le_bytes (take 4 (drop 9 stored))) (from_le_bytes (take 8 (drop 13 stored)))
                           (from_le_bytes (take 4 (drop 21 stored)))\<rparr>
        else if stored ! 8 = 1 \<and> length stored = 9 then Inr \<lparr>ve_version = version, ve_kind = SegTombstone\<rparr>
        else Inl (Corrupt ''primary index: invalid entry''))"

section \<open>Round trips and order\<close>

definition table_fits :: "string \<Rightarrow> bool" where
  "table_fits table \<longleftrightarrow> length table < 2 ^ 32"

lemma primary_key_prefix: "primary_key table rid = primary_table_prefix table @ as_bytes rid"
  by (simp add: primary_key_def encode_primary_key_into_def primary_table_prefix_def)

lemma table_len: "table_fits table \<Longrightarrow> unat (of_nat (length table) :: u32) = length table"
  by (simp add: table_fits_def unat_of_nat)

lemma split_primary_key:
  assumes "table_fits table"
  shows "split_primary_key (primary_key table rid) = Inr (as_bytes table, as_bytes rid)"
proof -
  have "checked_add 4 (length table) = Some (4 + length table)"
    using assms by (simp add: table_fits_def checked_add_def usize_limit_def)
  then show ?thesis
    using table_len [OF assms]
    by (simp add: split_primary_key_def primary_key_prefix primary_table_prefix_def opt_filter_def)
qed

lemma primary_id_str: "rust_str rid \<Longrightarrow> primary_id_str (as_bytes rid) = Inr rid"
  by (simp add: primary_id_str_def from_utf8_as_bytes)

lemma decode_encode_primary_entry:
  "encode_primary_entry e = Inr bs \<Longrightarrow> decode_primary_entry bs = Inr e"
  by (cases e; cases "ve_kind e")
    (auto simp: encode_primary_entry_def decode_primary_entry_def nth_append Let_def)

text \<open>The keys of one table share its prefix, and no key of another table has it.\<close>

lemma primary_prefix_inject:
  assumes "table_fits t" and "table_fits t'"
  shows "(\<exists>rest. primary_table_prefix t @ rest = primary_key t' rid) \<longleftrightarrow> t = t'"
proof
  assume "\<exists>rest. primary_table_prefix t @ rest = primary_key t' rid"
  then obtain rest where eq: "to_be_bytes (of_nat (length t) :: u32) @ as_bytes t @ rest
      = to_be_bytes (of_nat (length t') :: u32) @ as_bytes t' @ as_bytes rid"
    by (auto simp: primary_key_prefix primary_table_prefix_def)
  then have "to_be_bytes (of_nat (length t) :: u32) = to_be_bytes (of_nat (length t') :: u32)"
    and rest: "as_bytes t @ rest = as_bytes t' @ as_bytes rid" by (simp_all add: append_eq_append_conv)
  then have "length t = length t'" using table_len assms by (metis from_to_be_bytes_word(2))
  with rest show "t = t'" by (metis append_eq_append_conv as_bytes_inject length_as_bytes)
next
  assume "t = t'"
  then show "\<exists>rest. primary_table_prefix t @ rest = primary_key t' rid" by (auto simp: primary_key_prefix)
qed

lemma primary_key_inject:
  "table_fits t \<Longrightarrow> table_fits t' \<Longrightarrow> primary_key t rid = primary_key t' rid' \<longleftrightarrow> t = t' \<and> rid = rid'"
  using primary_prefix_inject [of t t' rid'] by (auto simp: primary_key_prefix)

lemma append_less_same: "us @ xs < us @ ys \<longleftrightarrow> xs < (ys :: 'a::linorder list)"
  by (induction us) auto

lemma primary_key_less: "primary_key t rid < primary_key t rid' \<longleftrightarrow> rid < rid'"
  by (simp add: primary_key_prefix append_less_same as_bytes_less)

text \<open>Entries sort by their version first.\<close>

lemma encode_primary_entry_version:
  "encode_primary_entry e = Inr bs \<Longrightarrow> \<exists>rest. bs = to_be_bytes (ve_version e) @ rest \<and> rest \<noteq> [] \<and> length bs \<le> 25"
  by (auto simp: encode_primary_entry_def split: vkind.splits)

lemma encode_primary_entry_less:
  assumes "encode_primary_entry e = Inr bs" and "encode_primary_entry e' = Inr bs'" and "ve_version e < ve_version e'"
  shows "bs < bs'"
proof -
  obtain r r' where "bs = to_be_bytes (ve_version e) @ r" "bs' = to_be_bytes (ve_version e') @ r'"
    using encode_primary_entry_version assms(1,2) by blast
  moreover have "to_be_bytes (ve_version e) < to_be_bytes (ve_version e')"
    using assms(3) by (simp add: to_be_bytes_less word_less_nat_alt)
  ultimately show ?thesis by (simp add: append_less_same_length)
qed

end
