(* ===== verification/Primary_Index.thy ===== *)
theory Primary_Index
  imports Primary_Codec Paged_Merge "HOL-Library.AList"
begin

text \<open>
  The primary directory (\<open>PrimaryIdx\<close> of \<open>db.rs\<close>): immutable sorted runs, a frozen resident
  generation that a checkpoint is writing, and the active delta. Point lookups look at the
  overlays first and at the runs only when no visible version was found there.

  A hash map from tables to deltas is an association list with distinct keys; its order stands
  for whatever order an iteration takes; \<open>fp_arc\<close> is the allocation of the frozen map, which
  \<open>Arc::ptr_eq\<close> compares. Reads change nothing but the verification bits of runs.
\<close>

section \<open>The directory\<close>

record primary_run_meta =
  prm_file :: string
  prm_level :: u8
  prm_bytes :: u64
  prm_generation :: u64

record primary_run =
  pr_meta :: primary_run_meta
  pr_index :: paged_index

type_synonym primary_delta = "(string \<times> primary_table_delta) list"

record frozen_primary =
  fp_version :: u64
  fp_delta :: primary_delta
  fp_arc :: nat

record primary_idx =
  pi_generation :: u64
  pi_runs :: "primary_run list"
  pi_delta :: primary_delta
  pi_frozen :: "frozen_primary option"

definition primary_resident :: "primary_delta \<Rightarrow> primary_idx" where
  "primary_resident delta = \<lparr>pi_generation = 0, pi_runs = [], pi_delta = delta, pi_frozen = None\<rparr>"

definition primary_empty :: primary_idx where
  "primary_empty = \<lparr>pi_generation = 0, pi_runs = [], pi_delta = [], pi_frozen = None\<rparr>"

definition paged_runs :: "u64 \<Rightarrow> primary_run list \<Rightarrow> primary_idx" where
  "paged_runs generation runs = \<lparr>pi_generation = generation, pi_runs = runs, pi_delta = [], pi_frozen = None\<rparr>"

definition paged_named :: "paged_index \<Rightarrow> string \<Rightarrow> u8 \<Rightarrow> u64 \<Rightarrow> u64 \<Rightarrow> primary_idx" where
  "paged_named base name level len generation =
     paged_runs generation
       [\<lparr>pr_meta = \<lparr>prm_file = name, prm_level = level, prm_bytes = len, prm_generation = generation\<rparr>, pr_index = base\<rparr>]"

definition run_metas :: "primary_idx \<Rightarrow> primary_run_meta list" where
  "run_metas idx = map pr_meta (pi_runs idx)"

definition push_delta :: "string \<Rightarrow> string \<Rightarrow> version_entry \<Rightarrow> primary_delta \<Rightarrow> primary_delta" where
  "push_delta table rid entry delta =
     (case map_of delta table of
        Some ids \<Rightarrow> AList.update table (delta_push rid entry ids) delta
      | None \<Rightarrow> AList.update table (delta_push rid entry delta_default) delta)"

definition primary_push :: "string \<Rightarrow> string \<Rightarrow> version_entry \<Rightarrow> primary_idx \<Rightarrow> primary_idx" where
  "primary_push table rid entry idx = idx\<lparr>pi_delta := push_delta table rid entry (pi_delta idx)\<rparr>"

definition remove_delta_table :: "string \<Rightarrow> primary_idx \<Rightarrow> primary_idx" where
  "remove_delta_table table idx = idx\<lparr>pi_delta := AList.delete table (pi_delta idx)\<rparr>"

definition version_memory :: "version_entry \<Rightarrow> nat" where
  "version_memory e = (case ve_kind e of MemPut payload \<Rightarrow> unat (mp_len payload) + 40 | _ \<Rightarrow> 40)"

definition map_memory_bytes :: "primary_delta \<Rightarrow> nat" where
  "map_memory_bytes delta =
     sum_list (map (\<lambda>(table, ids). length table + 96 +
       sum_list (map (\<lambda>(rid, versions). length rid + 96 + ID_PREFIX_BYTES + sum_list (map version_memory versions))
         (delta_iter ids))) delta)"

definition delta_memory_bytes :: "primary_idx \<Rightarrow> nat" where
  "delta_memory_bytes idx = map_memory_bytes (pi_delta idx)"

section \<open>Point lookups\<close>

text \<open>The frozen and the active delta of a table.\<close>

definition frozen_table :: "primary_idx \<Rightarrow> string \<Rightarrow> primary_table_delta option" where
  "frozen_table idx table = Option.bind (pi_frozen idx) (\<lambda>frozen. map_of (fp_delta frozen) table)"

definition active_table :: "primary_idx \<Rightarrow> string \<Rightarrow> primary_table_delta option" where
  "active_table idx table = map_of (pi_delta idx) table"

definition newer_visible :: "u64 \<Rightarrow> version_entry option \<Rightarrow> version_list \<Rightarrow> version_entry option" where
  "newer_visible max_version newest versions =
     (case find (\<lambda>e. ve_version e \<le> max_version) (rev versions) of
        None \<Rightarrow> newest
      | Some e \<Rightarrow> (case newest of None \<Rightarrow> Some e | Some current \<Rightarrow> if ve_version e > ve_version current then Some e else newest))"

definition overlay_newest :: "primary_table_delta option list \<Rightarrow> string \<Rightarrow> u64 \<Rightarrow> version_entry option" where
  "overlay_newest overlays rid max_version =
     foldl (newer_visible max_version) None (List.map_filter (\<lambda>d. Option.bind d (\<lambda>d. delta_get d rid)) overlays)"

definition newest_visitor :: "u64 \<Rightarrow> version_entry option \<Rightarrow> bytes \<Rightarrow> (version_entry option \<times> bool) result" where
  "newest_visitor max_version newest stored =
     rbind (decode_primary_entry stored) (\<lambda>e.
       Inr (if ve_version e \<le> max_version \<and> (case newest of None \<Rightarrow> True | Some current \<Rightarrow> ve_version e > ve_version current)
            then Some e else newest, True))"

text \<open>The loop over the runs; \<open>lookup\<close> is \<open>visit_key\<close>, or \<open>visit_table_key\<close> for a table's view.\<close>

fun newest_in_runs_by :: "(paged_index \<Rightarrow> bytes \<Rightarrow> (version_entry option \<Rightarrow> bytes \<Rightarrow> (version_entry option \<times> bool) result)
      \<Rightarrow> version_entry option \<Rightarrow> version_entry option result \<times> paged_index)
    \<Rightarrow> bytes \<Rightarrow> u64 \<Rightarrow> primary_run list \<Rightarrow> version_entry option \<Rightarrow> version_entry option result \<times> primary_run list" where
  "newest_in_runs_by lookup key max_version [] newest = (Inr newest, [])"
| "newest_in_runs_by lookup key max_version (run # runs) newest =
     (if \<not> may_contain_key (pr_index run) key then
        (case newest_in_runs_by lookup key max_version runs newest of (r, runs) \<Rightarrow> (r, run # runs))
      else
        (case lookup (pr_index run) key (newest_visitor max_version) newest of
           (Inl e, ix) \<Rightarrow> (Inl e, run\<lparr>pr_index := ix\<rparr> # runs)
         | (Inr newest, ix) \<Rightarrow>
             (case newest_in_runs_by lookup key max_version runs newest of
                (r, runs) \<Rightarrow> (r, run\<lparr>pr_index := ix\<rparr> # runs))))"

definition newest_in_runs_at :: "(bytes \<Rightarrow> u32) \<Rightarrow> primary_run list \<Rightarrow> bytes \<Rightarrow> u64 \<Rightarrow> version_entry option result \<times> primary_run list" where
  "newest_in_runs_at crc runs key max_version = newest_in_runs_by (visit_key crc) key max_version runs None"

definition newest_at_or_before :: "(bytes \<Rightarrow> u32) \<Rightarrow> primary_idx \<Rightarrow> string \<Rightarrow> string \<Rightarrow> u64 \<Rightarrow> version_entry option result \<times> primary_idx" where
  "newest_at_or_before crc idx table rid max_version =
     (case overlay_newest [frozen_table idx table, active_table idx table] rid max_version of
        Some e \<Rightarrow> (Inr (Some e), idx)
      | None \<Rightarrow>
          (case newest_in_runs_at crc (pi_runs idx) (encode_primary_key_into table rid) max_version of
             (r, runs) \<Rightarrow> (r, idx\<lparr>pi_runs := runs\<rparr>)))"

text \<open>A table's view, resolved once for a batch of ids, and a snapshot taken out of the lock.\<close>

record primary_table_view =
  tv_runs :: "primary_run list"
  tv_frozen :: "primary_table_delta option"
  tv_active :: "primary_table_delta option"
  tv_key :: bytes
  tv_prefix_len :: nat

record primary_table_snapshot =
  ts_runs :: "primary_run list"
  ts_frozen :: "primary_table_delta option"
  ts_active :: "primary_table_delta option"

definition key_prefix_len :: "string \<Rightarrow> nat" where
  "key_prefix_len table = 4 + length table"

definition table_view :: "primary_idx \<Rightarrow> string \<Rightarrow> primary_table_view" where
  "table_view idx table =
     \<lparr>tv_runs = pi_runs idx, tv_frozen = frozen_table idx table, tv_active = active_table idx table,
      tv_key = to_be_bytes (of_nat (length table) :: u32) @ as_bytes table, tv_prefix_len = key_prefix_len table\<rparr>"

definition table_snapshot :: "primary_idx \<Rightarrow> string \<Rightarrow> primary_table_snapshot" where
  "table_snapshot idx table =
     \<lparr>ts_runs = pi_runs idx, ts_frozen = frozen_table idx table, ts_active = active_table idx table\<rparr>"

definition snapshot_view :: "primary_table_snapshot \<Rightarrow> string \<Rightarrow> primary_table_view" where
  "snapshot_view snap table =
     \<lparr>tv_runs = ts_runs snap, tv_frozen = ts_frozen snap, tv_active = ts_active snap,
      tv_key = to_be_bytes (of_nat (length table) :: u32) @ as_bytes table, tv_prefix_len = key_prefix_len table\<rparr>"

text \<open>The key buffer keeps the prefix; each lookup replaces the id behind it.\<close>

definition view_newest_in_runs :: "(bytes \<Rightarrow> u32) \<Rightarrow> primary_table_view \<Rightarrow> string \<Rightarrow> u64 \<Rightarrow> version_entry option result \<times> primary_table_view" where
  "view_newest_in_runs crc view rid max_version =
     (let key = take (tv_prefix_len view) (tv_key view) @ as_bytes rid in
      case newest_in_runs_by (visit_table_key crc) key max_version (tv_runs view) None of
        (r, runs) \<Rightarrow> (r, view\<lparr>tv_key := key, tv_runs := runs\<rparr>))"

definition view_newest :: "(bytes \<Rightarrow> u32) \<Rightarrow> primary_table_view \<Rightarrow> string \<Rightarrow> u64 \<Rightarrow> version_entry option result \<times> primary_table_view" where
  "view_newest crc view rid max_version =
     (case overlay_newest [tv_frozen view, tv_active view] rid max_version of
        Some e \<Rightarrow> (Inr (Some e), view)
      | None \<Rightarrow> view_newest_in_runs crc view rid max_version)"

section \<open>The versions a directory holds\<close>

definition dec_entry :: "bytes \<Rightarrow> version_entry" where
  "dec_entry stored = (case decode_primary_entry stored of Inr e \<Rightarrow> e | Inl _ \<Rightarrow> undefined)"

text \<open>Every entry of a primary run is an encoded version under the key of a table and an id.\<close>

definition primary_entry_ok :: "entry \<Rightarrow> bool" where
  "primary_entry_ok x \<longleftrightarrow> (\<exists>table rid e. fst x = primary_key table rid \<and> table_fits table \<and> rust_str rid
     \<and> encode_primary_entry e = Inr (snd x))"

definition run_ok :: "(bytes \<Rightarrow> u32) \<Rightarrow> primary_run \<Rightarrow> bool" where
  "run_ok crc run \<longleftrightarrow> run_valid crc (pr_index run) \<and> list_all primary_entry_ok (px_entries crc (pr_index run))"

definition run_versions :: "(bytes \<Rightarrow> u32) \<Rightarrow> primary_run \<Rightarrow> string \<Rightarrow> string \<Rightarrow> version_list" where
  "run_versions crc run table rid = map dec_entry (values_of (primary_key table rid) (px_entries crc (pr_index run)))"

definition runs_versions :: "(bytes \<Rightarrow> u32) \<Rightarrow> primary_run list \<Rightarrow> string \<Rightarrow> string \<Rightarrow> version_list" where
  "runs_versions crc runs table rid = concat (map (\<lambda>run. run_versions crc run table rid) runs)"

definition delta_versions :: "primary_table_delta option \<Rightarrow> string \<Rightarrow> version_list" where
  "delta_versions d rid = (case d of None \<Rightarrow> [] | Some d \<Rightarrow> versions_of d rid)"

definition overlay_versions :: "primary_idx \<Rightarrow> string \<Rightarrow> string \<Rightarrow> version_list" where
  "overlay_versions idx table rid = delta_versions (frozen_table idx table) rid @ delta_versions (active_table idx table) rid"

definition all_versions :: "(bytes \<Rightarrow> u32) \<Rightarrow> primary_idx \<Rightarrow> string \<Rightarrow> string \<Rightarrow> version_list" where
  "all_versions crc idx table rid = runs_versions crc (pi_runs idx) table rid @ overlay_versions idx table rid"

text \<open>The newest entry at or below a version.\<close>

definition is_newest :: "u64 \<Rightarrow> version_list \<Rightarrow> version_entry option \<Rightarrow> bool" where
  "is_newest max_version es r \<longleftrightarrow>
     (case r of
        None \<Rightarrow> \<forall>e \<in> set es. max_version < ve_version e
      | Some e \<Rightarrow> e \<in> set es \<and> ve_version e \<le> max_version
          \<and> (\<forall>e' \<in> set es. ve_version e' \<le> max_version \<longrightarrow> ve_version e' \<le> ve_version e))"

lemma is_newest_Nil: "is_newest m [] None"
  by (simp add: is_newest_def)

lemma is_newest_set: "set es = set es' \<Longrightarrow> is_newest m es r \<longleftrightarrow> is_newest m es' r"
  by (cases r) (simp_all add: is_newest_def)

lemma is_newest_simps:
  "is_newest m es None \<longleftrightarrow> (\<forall>e \<in> set es. m < ve_version e)"
  "is_newest m es (Some e) \<longleftrightarrow> e \<in> set es \<and> ve_version e \<le> m \<and> (\<forall>e' \<in> set es. ve_version e' \<le> m \<longrightarrow> ve_version e' \<le> ve_version e)"
  by (simp_all add: is_newest_def)

definition newer_of :: "version_entry option \<Rightarrow> version_entry option \<Rightarrow> version_entry option" where
  "newer_of a b = (case b of None \<Rightarrow> a | Some e \<Rightarrow> (case a of None \<Rightarrow> Some e | Some c \<Rightarrow> if ve_version e > ve_version c then Some e else a))"

lemma is_newest_append:
  assumes a: "is_newest m xs a" and b: "is_newest m ys b"
  shows "is_newest m (xs @ ys) (newer_of a b)"
proof (cases b)
  case None
  then show ?thesis using a b by (cases a) (auto simp: is_newest_simps newer_of_def not_less [symmetric])
next
  case (Some e)
  show ?thesis
  proof (cases a)
    case None
    then show ?thesis using a b Some by (auto simp: is_newest_simps newer_of_def not_less [symmetric])
  next
    case a': (Some c)
    show ?thesis
    proof (cases "ve_version e > ve_version c")
      case True
      have "ve_version x \<le> ve_version e" if "x \<in> set (xs @ ys)" "ve_version x \<le> m" for x
        using that a b Some a' True by (auto simp: is_newest_simps dest: order_trans [OF _ less_imp_le])
      then show ?thesis using b Some a' True by (simp add: is_newest_simps newer_of_def)
    next
      case False
      have "ve_version x \<le> ve_version c" if "x \<in> set (xs @ ys)" "ve_version x \<le> m" for x
        using that a b Some a' False by (auto simp: is_newest_simps not_less dest: order_trans)
      then show ?thesis using a Some a' False by (simp add: is_newest_simps newer_of_def)
    qed
  qed
qed

lemma is_newest_step:
  assumes "is_newest m es n"
  shows "is_newest m (es @ [e]) (if ve_version e \<le> m \<and> (case n of None \<Rightarrow> True | Some c \<Rightarrow> ve_version e > ve_version c) then Some e else n)"
proof -
  have "is_newest m [e] (if ve_version e \<le> m then Some e else None)" by (simp add: is_newest_simps not_le)
  from is_newest_append [OF assms this] show ?thesis
    by (cases n) (auto simp: newer_of_def split: if_splits)
qed

lemma find_rev_ascending:
  assumes "sorted_wrt (<) (map ve_version vs)" and "find (\<lambda>e. ve_version e \<le> m) (rev vs) = Some e"
  shows "e \<in> set vs \<and> ve_version e \<le> m \<and> (\<forall>e' \<in> set vs. ve_version e' \<le> m \<longrightarrow> ve_version e' \<le> ve_version e)"
  using assms
proof (induction vs rule: rev_induct)
  case (snoc x xs)
  then show ?case
    by (cases "ve_version x \<le> m") (fastforce simp: sorted_wrt_append less_imp_le)+
qed simp

lemma newer_visible_newest:
  assumes asc: "sorted_wrt (<) (map ve_version vs)" and n: "is_newest m es n"
  shows "is_newest m (es @ vs) (newer_visible m n vs)"
proof -
  have "is_newest m vs (find (\<lambda>e. ve_version e \<le> m) (rev vs))"
  proof (cases "find (\<lambda>e. ve_version e \<le> m) (rev vs)")
    case None
    then have "\<forall>e \<in> set vs. \<not> ve_version e \<le> m" by (auto simp: find_None_iff)
    then show ?thesis unfolding None by (auto simp: is_newest_simps)
  next
    case (Some e)
    show ?thesis unfolding Some using find_rev_ascending [OF asc Some] by (simp add: is_newest_simps)
  qed
  moreover have "newer_visible m n vs = newer_of n (find (\<lambda>e. ve_version e \<le> m) (rev vs))"
    by (simp add: newer_visible_def newer_of_def)
  ultimately show ?thesis using is_newest_append [OF n] by simp
qed

text \<open>The deltas of a directory keep each row's versions in ascending order; ids are Rust strings.\<close>

definition delta_ok :: "primary_table_delta \<Rightarrow> bool" where
  "delta_ok d \<longleftrightarrow> delta_inv d \<and> (\<forall>rid \<in> fst ` set (delta_iter d). rust_str rid) \<and> (\<forall>rid. sorted_wrt (<) (map ve_version (versions_of d rid)))"

lemma versions_of_get: "versions_of d rid = (case delta_get d rid of Some vs \<Rightarrow> vs | None \<Rightarrow> [])"
  by (simp add: versions_of_def)

lemma overlay_newest_exact:
  assumes "\<forall>d. Some d \<in> set overlays \<longrightarrow> delta_ok d"
  shows "is_newest m (concat (map (\<lambda>d. delta_versions d rid) overlays)) (overlay_newest overlays rid m)"
proof -
  have "is_newest m (es @ concat (map (\<lambda>d. delta_versions d rid) overlays))
      (foldl (newer_visible m) n (List.map_filter (\<lambda>d. Option.bind d (\<lambda>d. delta_get d rid)) overlays))"
    if "is_newest m es n" for es n
    using that assms
  proof (induction overlays arbitrary: es n)
    case Nil
    then show ?case by (simp add: List.map_filter_def)
  next
    case (Cons d overlays)
    show ?case
    proof (cases "Option.bind d (\<lambda>d. delta_get d rid)")
      case None
      then have "delta_versions d rid = []" by (cases d) (simp_all add: delta_versions_def versions_of_get)
      with None Cons show ?thesis by (simp add: List.map_filter_simps)
    next
      case (Some vs)
      then have vs: "delta_versions d rid = vs" by (cases d) (simp_all add: delta_versions_def versions_of_get)
      have "sorted_wrt (<) (map ve_version vs)"
        using Some vs Cons.prems(2) by (cases d) (auto simp: delta_versions_def delta_ok_def)
      from newer_visible_newest [OF this Cons.prems(1)] Cons.IH [of "es @ vs"] Some vs Cons.prems(2) show ?thesis
        by (simp add: List.map_filter_simps)
    qed
  qed
  from this [OF is_newest_Nil] show ?thesis by (simp add: overlay_newest_def)
qed

lemma visit_newest:
  assumes "list_all (\<lambda>v. \<exists>e. decode_primary_entry v = Inr e) vs" and "is_newest m es n"
  shows "\<exists>n'. visit_values (newest_visitor m) vs n = Inr (n', True) \<and> is_newest m (es @ map dec_entry vs) n'"
  using assms
proof (induction vs arbitrary: es n)
  case (Cons v vs)
  then obtain e where e: "decode_primary_entry v = Inr e" by auto
  then have "dec_entry v = e" by (simp add: dec_entry_def)
  with e Cons.IH [OF _ is_newest_step [OF Cons.prems(2), of e]] Cons.prems(1) show ?case
    by (simp add: newest_visitor_def)
qed simp

lemma run_values_decode:
  assumes "run_ok crc run"
  shows "list_all (\<lambda>v. \<exists>e. decode_primary_entry v = Inr e) (values_of key (px_entries crc (pr_index run)))"
  using assms decode_encode_primary_entry
  by (fastforce simp: run_ok_def values_of_def list_all_iff primary_entry_ok_def)

lemma same_run_valid: "same_run ix ix' \<Longrightarrow> run_valid crc ix \<Longrightarrow> run_valid crc ix' \<and> px_entries crc ix' = px_entries crc ix"
proof -
  assume same: "same_run ix ix'" and valid: "run_valid crc ix"
  then obtain pss where pss: "index_holds crc ix pss" by (auto simp: run_valid_def)
  note pss' = same_run_holds [OF same pss]
  have "px_entries crc ix' = px_entries crc ix" using px_entries_holds [OF pss] px_entries_holds [OF pss'] by simp
  moreover have "px_entry_count ix' = px_entry_count ix" using same by (auto simp: same_run_def)
  ultimately show ?thesis using valid pss' by (auto simp: run_valid_def)
qed

text \<open>What a lookup over the runs leaves: the same runs, with more verified pages.\<close>

definition same_runs :: "primary_run list \<Rightarrow> primary_run list \<Rightarrow> bool" where
  "same_runs = list_all2 (\<lambda>run run'. pr_meta run' = pr_meta run \<and> same_run (pr_index run) (pr_index run'))"

lemma same_runs_refl [simp]: "same_runs runs runs"
  by (simp add: same_runs_def list.rel_refl)

lemma newest_in_runs_exact:
  assumes lookup: "\<And>ix pss v s. index_holds crc ix pss \<Longrightarrow> \<exists>ix'. lookup ix key v s =
      (rbind (visit_values v (values_of key (concat pss)) s) (\<lambda>(s, _). Inr s), ix') \<and> same_run ix ix'"
    and key: "key = primary_key table rid"
    and "list_all (run_ok crc) runs" and "is_newest m es n"
  shows "\<exists>n' runs'. newest_in_runs_by lookup key m runs n = (Inr n', runs')
    \<and> is_newest m (es @ runs_versions crc runs table rid) n' \<and> same_runs runs runs'"
  using assms(3,4)
proof (induction runs arbitrary: es n)
  case Nil
  then show ?case by (simp add: runs_versions_def)
next
  case (Cons run runs)
  have ok: "run_ok crc run" "list_all (run_ok crc) runs" using Cons.prems(1) by simp_all
  then obtain pss where pss: "index_holds crc (pr_index run) pss" by (auto simp: run_ok_def run_valid_def)
  have entries: "px_entries crc (pr_index run) = concat pss" by (rule px_entries_holds [OF pss])
  let ?vs = "values_of key (px_entries crc (pr_index run))"
  have split: "runs_versions crc (run # runs) table rid = map dec_entry ?vs @ runs_versions crc runs table rid"
    by (simp add: runs_versions_def run_versions_def key)
  show ?case
  proof (cases "may_contain_key (pr_index run) key")
    case False
    then have "?vs = []" unfolding entries using may_contain_key_holds [OF pss] by (intro values_of_none) auto
    with False split Cons.IH [OF ok(2) Cons.prems(2)] show ?thesis by (fastforce simp: same_runs_def)
  next
    case True
    obtain n1 where n1: "visit_values (newest_visitor m) ?vs n = Inr (n1, True)" "is_newest m (es @ map dec_entry ?vs) n1"
      using visit_newest [OF run_values_decode [OF ok(1)] Cons.prems(2)] by blast
    obtain ix' where ix': "lookup (pr_index run) key (newest_visitor m) n = (Inr n1, ix')" "same_run (pr_index run) ix'"
      using lookup [OF pss, of "newest_visitor m" n] n1(1) unfolding entries by auto
    from Cons.IH [OF ok(2) n1(2)] obtain n' runs' where "newest_in_runs_by lookup key m runs n1 = (Inr n', runs')"
      "is_newest m ((es @ map dec_entry ?vs) @ runs_versions crc runs table rid) n'" "same_runs runs runs'" by blast
    with True ix' split show ?thesis by (auto simp: same_runs_def)
  qed
qed

section \<open>The invariant of a directory\<close>

definition overlay_ok :: "primary_delta \<Rightarrow> bool" where
  "overlay_ok delta \<longleftrightarrow> distinct (map fst delta) \<and> list_all (\<lambda>(table, d). table_fits table \<and> delta_ok d) delta"

text \<open>
  Overlays hold what was committed after the runs were published: per row, every version in an
  overlay is newer than every version in a run, and every version in the active delta is newer
  than every frozen one. No row has two entries of one version.
\<close>

definition idx_ok :: "(bytes \<Rightarrow> u32) \<Rightarrow> primary_idx \<Rightarrow> bool" where
  "idx_ok crc idx \<longleftrightarrow> list_all (run_ok crc) (pi_runs idx) \<and> overlay_ok (pi_delta idx)
     \<and> (\<forall>frozen. pi_frozen idx = Some frozen \<longrightarrow> overlay_ok (fp_delta frozen))
     \<and> (\<forall>table rid. \<forall>e \<in> set (overlay_versions idx table rid). \<forall>e' \<in> set (runs_versions crc (pi_runs idx) table rid).
          ve_version e' < ve_version e)
     \<and> (\<forall>table rid. \<forall>e \<in> set (delta_versions (active_table idx table) rid).
          \<forall>e' \<in> set (delta_versions (frozen_table idx table) rid). ve_version e' < ve_version e)
     \<and> (\<forall>table rid. \<forall>e \<in> set (runs_versions crc (pi_runs idx) table rid).
          \<forall>e' \<in> set (runs_versions crc (pi_runs idx) table rid). ve_version e = ve_version e' \<longrightarrow> e = e')"

lemma overlay_ok_get: "overlay_ok delta \<Longrightarrow> map_of delta table = Some d \<Longrightarrow> delta_ok d \<and> table_fits table"
  by (auto simp: overlay_ok_def list_all_iff dest!: map_of_SomeD)

lemma idx_ok_overlays:
  "idx_ok crc idx \<Longrightarrow> \<forall>d. Some d \<in> set [frozen_table idx table, active_table idx table] \<longrightarrow> delta_ok d"
proof -
  assume ok: "idx_ok crc idx"
  have "delta_ok d" if "frozen_table idx table = Some d" for d
    using ok that overlay_ok_get unfolding idx_ok_def frozen_table_def bind_eq_Some_conv by blast
  moreover have "delta_ok d" if "active_table idx table = Some d" for d
    using ok that overlay_ok_get unfolding idx_ok_def active_table_def by blast
  ultimately show ?thesis by auto
qed

text \<open>A visible overlay version settles the lookup: it is newer than anything in the runs.\<close>

lemma newest_from_overlay:
  assumes ok: "idx_ok crc idx" and e: "is_newest m (overlay_versions idx table rid) (Some e)"
  shows "is_newest m (all_versions crc idx table rid) (Some e)"
proof -
  have older: "\<forall>e' \<in> set (runs_versions crc (pi_runs idx) table rid). ve_version e' < ve_version e"
    using ok e by (auto simp: idx_ok_def is_newest_simps)
  with e show ?thesis by (auto simp: is_newest_simps all_versions_def less_imp_le)
qed

lemma overlay_newest_pair:
  "idx_ok crc idx \<Longrightarrow>
     is_newest m (overlay_versions idx table rid) (overlay_newest [frozen_table idx table, active_table idx table] rid m)"
  using overlay_newest_exact [where overlays = "[frozen_table idx table, active_table idx table]", OF idx_ok_overlays]
  by (simp add: overlay_versions_def)

lemma is_newest_None_append:
  "is_newest m ys None \<Longrightarrow> is_newest m xs r \<Longrightarrow> is_newest m (xs @ ys) r"
  using is_newest_append [of m xs r ys None] by (simp add: newer_of_def)

lemma newest_at_or_before_exact:
  assumes ok: "idx_ok crc idx"
  shows "\<exists>r idx'. newest_at_or_before crc idx table rid m = (Inr r, idx') \<and> is_newest m (all_versions crc idx table rid) r
    \<and> (\<exists>runs. idx' = idx\<lparr>pi_runs := runs\<rparr> \<and> same_runs (pi_runs idx) runs)"
proof (cases "overlay_newest [frozen_table idx table, active_table idx table] rid m")
  case (Some e)
  then have "is_newest m (all_versions crc idx table rid) (Some e)"
    using newest_from_overlay [OF ok] overlay_newest_pair [OF ok, of m table rid] by simp
  with Some show ?thesis by (auto simp: newest_at_or_before_def intro!: exI [of _ "pi_runs idx"])
next
  case None
  have runs: "list_all (run_ok crc) (pi_runs idx)" using ok by (simp add: idx_ok_def)
  have "\<exists>r runs'. newest_in_runs_by (visit_key crc) (primary_key table rid) m (pi_runs idx) None = (Inr r, runs')
    \<and> is_newest m ([] @ runs_versions crc (pi_runs idx) table rid) r \<and> same_runs (pi_runs idx) runs'"
    by (rule newest_in_runs_exact [OF _ refl runs is_newest_Nil]) (rule visit_key_holds)
  then obtain r runs' where r: "newest_in_runs_by (visit_key crc) (primary_key table rid) m (pi_runs idx) None = (Inr r, runs')"
    "is_newest m ([] @ runs_versions crc (pi_runs idx) table rid) r" "same_runs (pi_runs idx) runs'"
    by (elim exE conjE)
  have "is_newest m (overlay_versions idx table rid) None" using overlay_newest_pair [OF ok, of m table rid] None by simp
  then have "is_newest m (all_versions crc idx table rid) r"
    using is_newest_None_append r(2) by (simp add: all_versions_def)
  with None r show ?thesis by (auto simp: newest_at_or_before_def newest_in_runs_at_def primary_key_def)
qed

lemma view_newest_exact:
  assumes ok: "idx_ok crc idx" and "tv_key view = primary_table_prefix table @ rest" and "tv_prefix_len view = key_prefix_len table"
    and "tv_frozen view = frozen_table idx table" and "tv_active view = active_table idx table" and "tv_runs view = pi_runs idx"
  shows "fst (view_newest crc view rid m) = fst (newest_at_or_before crc idx table rid m)"
proof (cases "overlay_newest [frozen_table idx table, active_table idx table] rid m")
  case (Some e)
  with assms show ?thesis by (simp add: view_newest_def newest_at_or_before_def)
next
  case None
  have key: "take (tv_prefix_len view) (tv_key view) @ as_bytes rid = primary_key table rid"
    using assms(2,3) by (simp add: key_prefix_len_def primary_table_prefix_def primary_key_prefix)
  have runs: "list_all (run_ok crc) (pi_runs idx)" using ok by (simp add: idx_ok_def)
  have "newest_in_runs_by (visit_table_key crc) (primary_key table rid) m rs n
      = newest_in_runs_by (visit_key crc) (primary_key table rid) m rs n" if "list_all (run_ok crc) rs" for rs n
    using that
  proof (induction rs arbitrary: n)
    case (Cons run rs)
    then obtain pss where "index_holds crc (pr_index run) pss" by (auto simp: run_ok_def run_valid_def)
    with Cons show ?case by (auto simp: visit_table_key_holds split: prod.splits sum.splits)
  qed simp
  with runs None key assms(4-6) show ?thesis
    by (auto simp: view_newest_def view_newest_in_runs_def newest_at_or_before_def newest_in_runs_at_def primary_key_def
        Let_def split: prod.splits)
qed

section \<open>Pushing a version\<close>

lemma set_alist_update: "set (AList.update k v al) \<subseteq> insert (k, v) (set al)"
  by (induction al) auto

lemma delta_ok_default: "delta_ok delta_default"
proof -
  have "delta_iter delta_default = []" by (simp add: delta_iter_def delta_default_def)
  then show ?thesis by (simp add: delta_ok_def delta_inv_default versions_of_default)
qed

lemma push_delta_versions:
  assumes "overlay_ok delta" and "table_fits table"
    and "\<forall>e' \<in> set (delta_versions (map_of delta table) rid). ve_version e' < ve_version e" and "rust_str rid"
  shows "overlay_ok (push_delta table rid e delta)"
    and "delta_versions (map_of (push_delta table rid e delta) t) i =
      delta_versions (map_of delta t) i @ (if t = table \<and> i = rid then [e] else [])"
proof -
  define d where "d = (case map_of delta table of Some ids \<Rightarrow> ids | None \<Rightarrow> delta_default)"
  have d: "delta_ok d" using assms(1) overlay_ok_get delta_ok_default by (auto simp: d_def split: option.splits)
  have same: "delta_versions (map_of delta table) i = versions_of d i" for i
    by (simp add: d_def delta_versions_def versions_of_default split: option.splits)
  have push: "push_delta table rid e delta = AList.update table (delta_push rid e d) delta"
    by (auto simp: push_delta_def d_def split: option.splits)
  have vs: "versions_of (delta_push rid e d) i = versions_of d i @ (if i = rid then [e] else [])" for i
    using d by (simp add: delta_ok_def delta.versions_push)
  have "delta_ok (delta_push rid e d)"
    using d assms(3,4) delta.invar_push [of d rid e] unfolding delta_ok_def vs same
    by (auto simp: sorted_wrt_append delta_push_refines(1) map_fst_al_ins)
  then show "overlay_ok (push_delta table rid e delta)"
    using assms(1,2) unfolding overlay_ok_def push
    by (auto simp: distinct_update list_all_iff dest!: set_alist_update [THEN subsetD])
  show "delta_versions (map_of (push_delta table rid e delta) t) i =
      delta_versions (map_of delta t) i @ (if t = table \<and> i = rid then [e] else [])"
    using same [of i] vs [of i] by (auto simp: push update_conv' delta_versions_def split: option.splits)
qed

lemma primary_push_ok:
  assumes ok: "idx_ok crc idx" and fits: "table_fits table" "rust_str rid"
    and new: "\<forall>e' \<in> set (all_versions crc idx table rid). ve_version e' < ve_version e"
  shows "idx_ok crc (primary_push table rid e idx)"
    and "all_versions crc (primary_push table rid e idx) t i = all_versions crc idx t i @ (if t = table \<and> i = rid then [e] else [])"
proof -
  have "\<forall>e' \<in> set (delta_versions (map_of (pi_delta idx) table) rid). ve_version e' < ve_version e"
    using new by (auto simp: all_versions_def overlay_versions_def active_table_def)
  note push = push_delta_versions [OF _ fits(1) this fits(2)]
  have delta: "overlay_ok (pi_delta idx)" using ok by (simp add: idx_ok_def)
  have active: "delta_versions (active_table (primary_push table rid e idx) t) i =
      delta_versions (active_table idx t) i @ (if t = table \<and> i = rid then [e] else [])" for t i
    using push(2) [OF delta] by (simp add: active_table_def primary_push_def)
  have frozen: "frozen_table (primary_push table rid e idx) t = frozen_table idx t" for t
    by (simp add: frozen_table_def primary_push_def)
  have runs: "pi_runs (primary_push table rid e idx) = pi_runs idx" by (simp add: primary_push_def)
  show "all_versions crc (primary_push table rid e idx) t i = all_versions crc idx t i @ (if t = table \<and> i = rid then [e] else [])" for t i
    by (simp add: all_versions_def overlay_versions_def active frozen runs)
  have "overlay_ok (pi_delta (primary_push table rid e idx))" using push(1) [OF delta] by (simp add: primary_push_def)
  moreover have "pi_frozen (primary_push table rid e idx) = pi_frozen idx" by (simp add: primary_push_def)
  ultimately show "idx_ok crc (primary_push table rid e idx)"
    using ok new unfolding idx_ok_def overlay_versions_def all_versions_def active frozen runs
    by (simp add: ball_Un)
qed

end
