(* ===== verification/Primary_Scan.thy ===== *)
theory Primary_Scan
  imports Primary_Index Paged_Latest
begin

text \<open>
  Walks over one table of the primary directory (\<open>visit_primary_table\<close> of \<open>db.rs\<close>): the run cursors
  and the two deltas are merged by id, and each row is visited once, in id order, with all of its
  versions in ascending order.

  The iterator over a delta is the list of what it still yields. A query control that may cancel
  the walk is the parameter \<open>control\<close>, the outcome of the check at a count of visited rows. The
  unstable sort is a parameter, as for \<open>merge_versions\<close>. \<open>None\<close> would be a loop that never ends.
\<close>

section \<open>The cursor of a run\<close>

record primary_table_cursor =
  ptc_cursor :: "paged_index \<times> prefix_cursor"
  ptc_pending :: "(string \<times> version_entry) option"

definition next_entry :: "(bytes \<Rightarrow> u32) \<Rightarrow> string \<Rightarrow> paged_index \<times> prefix_cursor
    \<Rightarrow> ((string \<times> version_entry) option \<times> (paged_index \<times> prefix_cursor)) result" where
  "next_entry crc table s =
     rbind (paged_pull crc s) (\<lambda>(r, s).
       case r of
         None \<Rightarrow> Inr (None, s)
       | Some (key, stored) \<Rightarrow>
           rbind (split_primary_key key) (\<lambda>(tab, rid).
           if tab \<noteq> as_bytes table then Inl (Corrupt ''primary index: table prefix mismatch'')
           else rbind (primary_id_str rid) (\<lambda>rid. rbind (decode_primary_entry stored) (\<lambda>e. Inr (Some (rid, e), s)))))"

text \<open>The loop that collects the versions of one id; the first entry of the next id stays pending.\<close>

partial_function (option) collect_group :: "(bytes \<Rightarrow> u32) \<Rightarrow> string \<Rightarrow> string \<Rightarrow> paged_index \<times> prefix_cursor \<Rightarrow> version_list
    \<Rightarrow> (version_list \<times> primary_table_cursor) result option" where
  "collect_group crc table rid s versions =
     (case next_entry crc table s of
        Inl err \<Rightarrow> Some (Inl err)
      | Inr (r, s') \<Rightarrow>
          (case r of
             None \<Rightarrow> Some (Inr (versions, \<lparr>ptc_cursor = s', ptc_pending = None\<rparr>))
           | Some (next_id, e) \<Rightarrow>
               if next_id \<noteq> rid then Some (Inr (versions, \<lparr>ptc_cursor = s', ptc_pending = Some (next_id, e)\<rparr>))
               else collect_group crc table rid s' (versions @ [e])))"

definition next_group :: "(bytes \<Rightarrow> u32) \<Rightarrow> string \<Rightarrow> primary_table_cursor
    \<Rightarrow> ((string \<times> version_list) option \<times> primary_table_cursor) result option" where
  "next_group crc table c =
     (case (case ptc_pending c of
              Some p \<Rightarrow> Inr (Some p, ptc_cursor c)
            | None \<Rightarrow> next_entry crc table (ptc_cursor c)) of
        Inl err \<Rightarrow> Some (Inl err)
      | Inr (None, s) \<Rightarrow> Some (Inr (None, \<lparr>ptc_cursor = s, ptc_pending = None\<rparr>))
      | Inr (Some (rid, first), s) \<Rightarrow>
          map_option (\<lambda>r. rbind r (\<lambda>(versions, c). Inr (Some (rid, versions), c)))
            (collect_group crc table rid s [first]))"

section \<open>The merge\<close>

type_synonym run_head = "(string \<times> version_list) option \<times> primary_table_cursor"

fun group_heads :: "(bytes \<Rightarrow> u32) \<Rightarrow> string \<Rightarrow> primary_table_cursor list \<Rightarrow> run_head list result option" where
  "group_heads crc table [] = Some (Inr [])"
| "group_heads crc table (c # cs) =
     (case next_group crc table c of
        None \<Rightarrow> None
      | Some (Inl err) \<Rightarrow> Some (Inl err)
      | Some (Inr h) \<Rightarrow> map_option (\<lambda>r. rbind r (\<lambda>hs. Inr (h # hs))) (group_heads crc table cs))"

definition next_id_of :: "run_head list \<Rightarrow> (string \<times> version_list) list list \<Rightarrow> string option" where
  "next_id_of heads deltas =
     (case (least_key heads, least_key (map (\<lambda>d. (case d of [] \<Rightarrow> None | x # _ \<Rightarrow> Some x, ())) deltas)) of
        (None, None) \<Rightarrow> None
      | (Some run_id, None) \<Rightarrow> Some run_id
      | (None, Some delta_id) \<Rightarrow> Some delta_id
      | (Some run_id, Some delta_id) \<Rightarrow> Some (min run_id delta_id))"

text \<open>Taking the heads of the next id, each replaced by what follows it.\<close>

fun take_run_heads :: "(bytes \<Rightarrow> u32) \<Rightarrow> string \<Rightarrow> string \<Rightarrow> run_head list \<Rightarrow> version_list
    \<Rightarrow> (run_head list \<times> version_list) result option" where
  "take_run_heads crc table rid [] versions = Some (Inr ([], versions))"
| "take_run_heads crc table rid ((head, c) # hs) versions =
     (case head of
        Some (i, vs) \<Rightarrow>
          if i = rid then
            (case next_group crc table c of
               None \<Rightarrow> None
             | Some (Inl err) \<Rightarrow> Some (Inl err)
             | Some (Inr h) \<Rightarrow>
                 map_option (\<lambda>r. rbind r (\<lambda>(hs, versions). Inr (h # hs, versions)))
                   (take_run_heads crc table rid hs (versions @ vs)))
          else map_option (\<lambda>r. rbind r (\<lambda>(hs, versions). Inr ((head, c) # hs, versions)))
                 (take_run_heads crc table rid hs versions)
      | None \<Rightarrow> map_option (\<lambda>r. rbind r (\<lambda>(hs, versions). Inr ((head, c) # hs, versions)))
                 (take_run_heads crc table rid hs versions))"

fun take_delta_heads :: "string \<Rightarrow> (string \<times> version_list) list list \<Rightarrow> version_list
    \<Rightarrow> (string \<times> version_list) list list \<times> version_list" where
  "take_delta_heads rid [] versions = ([], versions)"
| "take_delta_heads rid (d # ds) versions =
     (case d of
        (i, vs) # d' \<Rightarrow>
          if i = rid then (case take_delta_heads rid ds (versions @ vs) of (ds, versions) \<Rightarrow> (d' # ds, versions))
          else (case take_delta_heads rid ds versions of (ds, versions) \<Rightarrow> (d # ds, versions))
      | [] \<Rightarrow> (case take_delta_heads rid ds versions of (ds, versions) \<Rightarrow> (d # ds, versions)))"

fun interleaved :: "version_list \<Rightarrow> bool" where
  "interleaved (a # b # es) \<longleftrightarrow> ve_version a \<ge> ve_version b \<or> interleaved (b # es)"
| "interleaved es \<longleftrightarrow> False"

definition tidy_versions :: "(version_list \<Rightarrow> version_list) \<Rightarrow> version_list \<Rightarrow> version_list" where
  "tidy_versions us versions = (if interleaved versions then dedup_versions (us versions) else versions)"

partial_function (option) visit_merge :: "(bytes \<Rightarrow> u32) \<Rightarrow> (version_list \<Rightarrow> version_list) \<Rightarrow> (nat \<Rightarrow> unit result) \<Rightarrow> string
    \<Rightarrow> string option \<Rightarrow> ('s \<Rightarrow> string \<Rightarrow> version_list \<Rightarrow> ('s \<times> bool) result)
    \<Rightarrow> run_head list \<Rightarrow> (string \<times> version_list) list list \<Rightarrow> nat \<Rightarrow> 's \<Rightarrow> 's result option" where
  "visit_merge crc us control table after visit heads deltas visited s =
     (case (if visited mod 256 = 0 then control visited else Inr ()) of
        Inl err \<Rightarrow> Some (Inl err)
      | Inr _ \<Rightarrow>
          (case next_id_of heads deltas of
             None \<Rightarrow> Some (Inr s)
           | Some rid \<Rightarrow>
               (case take_run_heads crc table rid heads [] of
                  None \<Rightarrow> None
                | Some (Inl err) \<Rightarrow> Some (Inl err)
                | Some (Inr taken) \<Rightarrow>
                    (let (deltas, versions) = take_delta_heads rid deltas (snd taken) in
                     if (case after of Some a \<Rightarrow> rid \<le> a | None \<Rightarrow> False)
                     then visit_merge crc us control table after visit (fst taken) deltas (visited + 1) s
                     else
                       (case visit s rid (tidy_versions us versions) of
                          Inl err \<Rightarrow> Some (Inl err)
                        | Inr (s', go) \<Rightarrow>
                            if \<not> go then Some (Inr s')
                            else visit_merge crc us control table after visit (fst taken) deltas (visited + 1) s')))))"

definition visit_primary_table :: "(bytes \<Rightarrow> u32) \<Rightarrow> (version_list \<Rightarrow> version_list) \<Rightarrow> (nat \<Rightarrow> unit result) \<Rightarrow> string
    \<Rightarrow> primary_run list \<Rightarrow> primary_table_delta option \<Rightarrow> primary_table_delta option \<Rightarrow> string option
    \<Rightarrow> ('s \<Rightarrow> string \<Rightarrow> version_list \<Rightarrow> ('s \<times> bool) result) \<Rightarrow> 's \<Rightarrow> 's result option" where
  "visit_primary_table crc us control table runs frozen active after visit s =
     (let prefix = primary_table_prefix table;
          after_key = map_option (primary_key table) after;
          cursors = map (\<lambda>run. \<lparr>ptc_cursor = (pr_index run, prefix_cursor_after (pr_index run) prefix after_key),
                                ptc_pending = None\<rparr>) runs;
          deltas = List.map_filter (map_option (\<lambda>d. delta_range_after d after)) [frozen, active]
      in case group_heads crc table cursors of
           None \<Rightarrow> None
         | Some (Inl err) \<Rightarrow> Some (Inl err)
         | Some (Inr heads) \<Rightarrow> visit_merge crc us control table after visit heads deltas 0 s)"

definition visit_table :: "(bytes \<Rightarrow> u32) \<Rightarrow> (version_list \<Rightarrow> version_list) \<Rightarrow> (nat \<Rightarrow> unit result) \<Rightarrow> primary_idx \<Rightarrow> string
    \<Rightarrow> string option \<Rightarrow> ('s \<Rightarrow> string \<Rightarrow> version_list \<Rightarrow> ('s \<times> bool) result) \<Rightarrow> 's \<Rightarrow> 's result option" where
  "visit_table crc us control idx table after visit s =
     visit_primary_table crc us control table (pi_runs idx) (frozen_table idx table) (active_table idx table) after visit s"

definition snapshot_visit :: "(bytes \<Rightarrow> u32) \<Rightarrow> (version_list \<Rightarrow> version_list) \<Rightarrow> (nat \<Rightarrow> unit result) \<Rightarrow> primary_table_snapshot
    \<Rightarrow> string \<Rightarrow> string option \<Rightarrow> ('s \<Rightarrow> string \<Rightarrow> version_list \<Rightarrow> ('s \<times> bool) result) \<Rightarrow> 's \<Rightarrow> 's result option" where
  "snapshot_visit crc us control snap table after visit s =
     visit_primary_table crc us control table (ts_runs snap) (ts_frozen snap) (ts_active snap) after visit s"

section \<open>What a run cursor yields\<close>

definition table_row :: "string \<Rightarrow> entry \<Rightarrow> string \<times> version_entry \<Rightarrow> bool" where
  "table_row table x r \<longleftrightarrow> fst x = primary_key table (fst r) \<and> rust_str (fst r) \<and> encode_primary_entry (snd r) = Inr (snd x)"

definition drains_rows :: "(bytes \<Rightarrow> u32) \<Rightarrow> string \<Rightarrow> paged_index \<times> prefix_cursor \<Rightarrow> (string \<times> version_entry) list \<Rightarrow> bool" where
  "drains_rows crc table s rows \<longleftrightarrow> (\<exists>pss es. cursor_inv crc pss s es \<and> list_all2 (table_row table) es rows)"

definition cursor_rows :: "(bytes \<Rightarrow> u32) \<Rightarrow> string \<Rightarrow> primary_table_cursor \<Rightarrow> (string \<times> version_entry) list \<Rightarrow> bool" where
  "cursor_rows crc table c rows \<longleftrightarrow> (\<exists>rows'. drains_rows crc table (ptc_cursor c) rows'
     \<and> rows = (case ptc_pending c of None \<Rightarrow> rows' | Some p \<Rightarrow> p # rows'))"

lemma next_entry_end:
  assumes "drains_rows crc table s []"
  shows "\<exists>s'. next_entry crc table s = Inr (None, s') \<and> drains_rows crc table s' []"
proof -
  from assms obtain pss where "\<exists>pss. cursor_inv crc pss s []" by (auto simp: drains_rows_def)
  from paged_source.pull_end [OF this] show ?thesis
    by (auto simp: next_entry_def drains_rows_def)
qed

lemma next_entry_step:
  assumes fits: "table_fits table" and rows: "drains_rows crc table s (r # rows)"
  shows "\<exists>s'. next_entry crc table s = Inr (Some r, s') \<and> drains_rows crc table s' rows"
proof -
  from rows obtain pss x es where inv: "cursor_inv crc pss s (x # es)" and row: "table_row table x r"
    and rest: "list_all2 (table_row table) es rows" by (auto simp: drains_rows_def list_all2_Cons2)
  obtain s' where s': "paged_pull crc s = Inr (Some x, s')" "\<exists>pss. cursor_inv crc pss s' es"
    using paged_source.pull_step [of crc s x es] inv by blast
  have "split_primary_key (fst x) = Inr (as_bytes table, as_bytes (fst r))" "primary_id_str (as_bytes (fst r)) = Inr (fst r)"
    "decode_primary_entry (snd x) = Inr (snd r)"
    using row split_primary_key [OF fits] primary_id_str decode_encode_primary_entry by (auto simp: table_row_def)
  then have "next_entry crc table s = Inr (Some r, s')"
    using s'(1) by (cases x; cases r) (simp add: next_entry_def)
  with s'(2) rest show ?thesis by (auto simp: drains_rows_def)
qed

lemma collect_group_exact:
  assumes "table_fits table" and "drains_rows crc table s rows"
  shows "\<exists>c. collect_group crc table rid s vs = Some (Inr (vs @ map snd (takeWhile (\<lambda>r. fst r = rid) rows), c))
    \<and> cursor_rows crc table c (dropWhile (\<lambda>r. fst r = rid) rows)"
  using assms(2)
proof (induction rows arbitrary: s vs)
  case Nil
  from next_entry_end [OF Nil] obtain s' where "next_entry crc table s = Inr (None, s')" "drains_rows crc table s' []" by blast
  then show ?case by (subst collect_group.simps) (simp add: cursor_rows_def)
next
  case (Cons r rows)
  from next_entry_step [OF assms(1) Cons.prems] obtain s' where
    s': "next_entry crc table s = Inr (Some r, s')" "drains_rows crc table s' rows" by blast
  show ?case
  proof (cases "fst r = rid")
    case True
    then have "collect_group crc table rid s vs = collect_group crc table rid s' (vs @ [snd r])"
      using s'(1) by (subst collect_group.simps) (cases r, simp)
    with True Cons.IH [OF s'(2), of "vs @ [snd r]"] show ?thesis by simp
  next
    case False
    then have "collect_group crc table rid s vs = Some (Inr (vs, \<lparr>ptc_cursor = s', ptc_pending = Some r\<rparr>))"
      using s'(1) by (subst collect_group.simps) (cases r, simp)
    with False s'(2) show ?thesis by (auto simp: cursor_rows_def)
  qed
qed

text \<open>A head and its cursor: the versions of the first id, and what follows.\<close>

definition head_rows :: "(bytes \<Rightarrow> u32) \<Rightarrow> string \<Rightarrow> run_head \<Rightarrow> (string \<times> version_entry) list \<Rightarrow> bool" where
  "head_rows crc table h rows \<longleftrightarrow>
     (case fst h of
        None \<Rightarrow> rows = [] \<and> cursor_rows crc table (snd h) []
      | Some (rid, vs) \<Rightarrow> rows \<noteq> [] \<and> fst (hd rows) = rid \<and> vs = map snd (takeWhile (\<lambda>r. fst r = rid) rows)
          \<and> cursor_rows crc table (snd h) (dropWhile (\<lambda>r. fst r = rid) rows))"

lemma next_group_exact:
  assumes fits: "table_fits table" and rows: "cursor_rows crc table c rows"
  shows "\<exists>h. next_group crc table c = Some (Inr h) \<and> head_rows crc table h rows"
proof -
  have first: "\<exists>s. (case ptc_pending c of Some p \<Rightarrow> Inr (Some p, ptc_cursor c) | None \<Rightarrow> next_entry crc table (ptc_cursor c))
      = Inr (case rows of [] \<Rightarrow> None | r # _ \<Rightarrow> Some r, s) \<and> drains_rows crc table s (tl rows)"
  proof (cases "ptc_pending c")
    case None
    then have "drains_rows crc table (ptc_cursor c) rows" using rows by (auto simp: cursor_rows_def)
    with None next_entry_end next_entry_step [OF fits] show ?thesis by (cases rows) auto
  next
    case (Some p)
    with rows show ?thesis by (auto simp: cursor_rows_def)
  qed
  show ?thesis
  proof (cases rows)
    case Nil
    with first show ?thesis by (auto simp: next_group_def head_rows_def cursor_rows_def)
  next
    case (Cons r rest)
    then obtain s where s: "(case ptc_pending c of Some p \<Rightarrow> Inr (Some p, ptc_cursor c) | None \<Rightarrow> next_entry crc table (ptc_cursor c))
      = Inr (Some r, s)" "drains_rows crc table s rest" using first by auto
    from collect_group_exact [OF fits s(2), of "fst r" "[snd r]"] s(1) Cons show ?thesis
      by (cases r) (auto simp: next_group_def head_rows_def)
  qed
qed

lemma group_heads_exact:
  assumes "table_fits table" and "list_all2 (cursor_rows crc table) cs rss"
  shows "\<exists>hs. group_heads crc table cs = Some (Inr hs) \<and> list_all2 (head_rows crc table) hs rss"
  using assms(2)
proof (induction rule: list_all2_induct)
  case (Cons c cs rows rss)
  from next_group_exact [OF assms(1) Cons.hyps(1)] Cons.IH show ?case by auto
qed simp

lemma sorted_takeWhile_filter:
  fixes rows :: "('k::linorder \<times> 'v) list"
  assumes "sorted (map fst rows)" and "\<forall>r \<in> set rows. k \<le> fst r"
  shows "takeWhile (\<lambda>r. fst r = k) rows = filter (\<lambda>r. fst r = k) rows"
    and "dropWhile (\<lambda>r. fst r = k) rows = filter (\<lambda>r. fst r \<noteq> k) rows"
proof -
  have "takeWhile (\<lambda>r. fst r = k) rows = filter (\<lambda>r. fst r = k) rows \<and> dropWhile (\<lambda>r. fst r = k) rows = filter (\<lambda>r. fst r \<noteq> k) rows"
    using assms
  proof (induction rows)
    case (Cons r rows)
    show ?case
    proof (cases "fst r = k")
      case True
      with Cons show ?thesis by simp
    next
      case False
      then have "\<forall>x \<in> set rows. k < fst x" using Cons.prems by (auto simp: order_less_le dest: order_antisym)
      then have "filter (\<lambda>x. fst x = k) rows = []" "filter (\<lambda>x. fst x \<noteq> k) rows = rows"
        by (auto simp: filter_empty_conv filter_id_conv)
      with False show ?thesis by simp
    qed
  qed simp
  then show "takeWhile (\<lambda>r. fst r = k) rows = filter (\<lambda>r. fst r = k) rows"
    "dropWhile (\<lambda>r. fst r = k) rows = filter (\<lambda>r. fst r \<noteq> k) rows" by auto
qed

lemma take_run_heads_exact:
  assumes fits: "table_fits table" and "list_all2 (head_rows crc table) hs rss"
    and "list_all (\<lambda>rows. sorted (map fst rows) \<and> (\<forall>r \<in> set rows. rid \<le> fst r)) rss"
  shows "\<exists>hs'. take_run_heads crc table rid hs vs =
      Some (Inr (hs', vs @ concat (map (\<lambda>rows. map snd (filter (\<lambda>r. fst r = rid) rows)) rss)))
    \<and> list_all2 (head_rows crc table) hs' (map (filter (\<lambda>r. fst r \<noteq> rid)) rss)"
  using assms(2,3)
proof (induction hs rss arbitrary: vs rule: list_all2_induct)
  case (Cons h hs rows rss)
  obtain head c where h: "h = (head, c)" by force
  have rows: "sorted (map fst rows)" "\<forall>r \<in> set rows. rid \<le> fst r" using Cons.prems by simp_all
  note tw = sorted_takeWhile_filter [OF rows]
  show ?case
  proof (cases "rows \<noteq> [] \<and> fst (hd rows) = rid")
    case True
    then have head: "head = Some (rid, map snd (filter (\<lambda>r. fst r = rid) rows))"
      and c: "cursor_rows crc table c (filter (\<lambda>r. fst r \<noteq> rid) rows)"
      using Cons.hyps(1) tw by (auto simp: head_rows_def h split: option.splits)
    obtain h' where h': "next_group crc table c = Some (Inr h')" "head_rows crc table h' (filter (\<lambda>r. fst r \<noteq> rid) rows)"
      using next_group_exact [OF fits c] by blast
    from Cons.IH [of "vs @ map snd (filter (\<lambda>r. fst r = rid) rows)"] Cons.prems obtain hs' where
      "take_run_heads crc table rid hs (vs @ map snd (filter (\<lambda>r. fst r = rid) rows)) =
        Some (Inr (hs', (vs @ map snd (filter (\<lambda>r. fst r = rid) rows)) @ concat (map (\<lambda>rows. map snd (filter (\<lambda>r. fst r = rid) rows)) rss)))"
      "list_all2 (head_rows crc table) hs' (map (filter (\<lambda>r. fst r \<noteq> rid)) rss)" by auto
    with h head h' show ?thesis by simp
  next
    case False
    have none: "filter (\<lambda>r. fst r = rid) rows = []"
    proof (cases rows)
      case (Cons r rest)
      with False rows show ?thesis by (auto simp: filter_empty_conv)
    qed simp
    then have rest: "filter (\<lambda>r. fst r \<noteq> rid) rows = rows" by (auto simp: filter_empty_conv filter_id_conv)
    have "\<forall>i v. head = Some (i, v) \<longrightarrow> i \<noteq> rid" using Cons.hyps(1) False by (auto simp: head_rows_def h)
    then have "take_run_heads crc table rid (h # hs) vs =
        map_option (\<lambda>r. rbind r (\<lambda>(hs, versions). Inr ((head, c) # hs, versions))) (take_run_heads crc table rid hs vs)"
      by (auto simp: h split: option.splits)
    with Cons.IH [of vs] Cons.prems Cons.hyps(1) none rest h show ?thesis by auto
  qed
qed simp

lemma take_delta_heads_exact:
  assumes "list_all (\<lambda>d. sorted_keys d \<and> (\<forall>p \<in> set d. rid \<le> fst p)) ds"
  shows "take_delta_heads rid ds vs =
    (map (filter (\<lambda>p. fst p \<noteq> rid)) ds, vs @ concat (map (\<lambda>d. case map_of d rid of Some v \<Rightarrow> v | None \<Rightarrow> []) ds))"
  using assms
proof (induction ds arbitrary: vs)
  case (Cons d ds)
  show ?case
  proof (cases d)
    case Nil
    with Cons show ?thesis by simp
  next
    case d: (Cons p d')
    obtain i v where p: "p = (i, v)" by force
    show ?thesis
    proof (cases "i = rid")
      case True
      then have "\<forall>q \<in> set d'. fst q \<noteq> rid" using Cons.prems d p by auto
      then have "filter (\<lambda>q. fst q \<noteq> rid) d' = d'" by (simp add: filter_id_conv)
      with True Cons d p show ?thesis by simp
    next
      case False
      then have "\<forall>q \<in> set d. fst q \<noteq> rid" using Cons.prems d p by (auto simp: order_less_le dest: order_antisym)
      then have "filter (\<lambda>q. fst q \<noteq> rid) d = d" "map_of d rid = None" by (auto simp: filter_id_conv map_of_eq_None_iff)
      with False Cons d p show ?thesis by simp
    qed
  qed
qed simp

section \<open>The merge is exact\<close>

lemma least_key_Min:
  assumes "list_all2 (\<lambda>h rows. sorted (map fst rows) \<and> (case fst h of None \<Rightarrow> rows = [] | Some e \<Rightarrow> rows \<noteq> [] \<and> fst (hd rows) = fst e)) hs rss"
  shows "least_key hs = (if concat rss = [] then None else Some (Min (fst ` set (concat rss))))"
  using assms
proof (induction rule: list_all2_induct)
  case (Cons h hs rows rss)
  obtain head c where h: "h = (head, c)" by force
  show ?case
  proof (cases head)
    case None
    with Cons h show ?thesis by simp
  next
    case (Some e)
    with Cons.hyps(1) h obtain r rest where rows: "rows = r # rest" "fst r = fst e" "sorted (map fst rows)"
      by (cases rows) auto
    have least: "Min (fst ` set rows) = fst e" using rows by (intro Min_eqI) auto
    show ?thesis
    proof (cases "concat rss = []")
      case True
      then have "least_key hs = None" using Cons.IH by simp
      moreover have "concat (rows # rss) = rows" using True by simp
      ultimately show ?thesis using h Some least rows(1) by (simp only: least_key.simps option.case list.distinct if_False)
    next
      case False
      then have "least_key hs = Some (Min (fst ` set (concat rss)))" unfolding Cons.IH by (rule if_not_P)
      moreover have "Min (fst ` set (concat (rows # rss))) = min (Min (fst ` set rows)) (Min (fst ` set (concat rss)))"
        unfolding concat.simps set_append image_Un using False rows(1) by (intro Min_Un) simp_all
      moreover have "concat (rows # rss) \<noteq> []" using rows(1) by simp
      ultimately show ?thesis using h Some least by (simp only: least_key.simps option.case if_False)
    qed
  qed
qed simp

definition all_ids :: "(string \<times> version_entry) list list \<Rightarrow> (string \<times> version_list) list list \<Rightarrow> string set" where
  "all_ids rss ds = fst ` set (concat rss) \<union> fst ` set (concat ds)"

definition merged_row :: "(string \<times> version_entry) list list \<Rightarrow> (string \<times> version_list) list list \<Rightarrow> string \<Rightarrow> version_list" where
  "merged_row rss ds rid = concat (map (\<lambda>rows. map snd (filter (\<lambda>r. fst r = rid) rows)) rss)
     @ concat (map (\<lambda>d. case map_of d rid of Some v \<Rightarrow> v | None \<Rightarrow> []) ds)"

definition merged :: "(string \<times> version_entry) list list \<Rightarrow> (string \<times> version_list) list list \<Rightarrow> (string \<times> version_list) list" where
  "merged rss ds = map (\<lambda>rid. (rid, merged_row rss ds rid)) (sorted_list_of_set (all_ids rss ds))"

definition heads_ok :: "(bytes \<Rightarrow> u32) \<Rightarrow> string \<Rightarrow> run_head list \<Rightarrow> (string \<times> version_entry) list list
    \<Rightarrow> (string \<times> version_list) list list \<Rightarrow> bool" where
  "heads_ok crc table hs rss ds \<longleftrightarrow> list_all2 (head_rows crc table) hs rss
     \<and> list_all (\<lambda>rows. sorted (map fst rows)) rss \<and> list_all sorted_keys ds"

lemma finite_all_ids: "finite (all_ids rss ds)"
  by (simp add: all_ids_def)

lemma sorted_keys_sorted: "sorted_keys d \<Longrightarrow> sorted (map fst d)"
  by (induction d) (auto simp: less_imp_le)

lemma next_id_exact:
  assumes "heads_ok crc table hs rss ds"
  shows "next_id_of hs ds = (if all_ids rss ds = {} then None else Some (Min (all_ids rss ds)))"
proof -
  have "list_all2 (\<lambda>h rows. sorted (map fst rows) \<and> (case fst h of None \<Rightarrow> rows = [] | Some e \<Rightarrow> rows \<noteq> [] \<and> fst (hd rows) = fst e)) hs rss"
    using assms unfolding heads_ok_def
    by (auto simp: list_all2_conv_all_nth list_all_length head_rows_def split: option.splits)
  note runs = least_key_Min [OF this]
  have "list_all2 (\<lambda>h rows. sorted (map fst rows) \<and> (case fst h of None \<Rightarrow> rows = [] | Some e \<Rightarrow> rows \<noteq> [] \<and> fst (hd rows) = fst e))
      (map (\<lambda>d. (case d of [] \<Rightarrow> None | x # _ \<Rightarrow> Some x, ())) ds) ds"
    unfolding list_all2_map1 list_all2_same
  proof
    fix d assume "d \<in> set ds"
    then have "sorted_keys d" using assms by (auto simp: heads_ok_def list_all_iff)
    from sorted_keys_sorted [OF this] show "sorted (map fst d) \<and> (case fst (case d of [] \<Rightarrow> None | x # _ \<Rightarrow> Some x, ()) of
        None \<Rightarrow> d = [] | Some e \<Rightarrow> d \<noteq> [] \<and> fst (hd d) = fst e)" by (cases d) simp_all
  qed
  note deltas = least_key_Min [OF this]
  let ?A = "fst ` set (concat rss)" and ?B = "fst ` set (concat ds)"
  have empty: "concat rss = [] \<longleftrightarrow> ?A = {}" "concat ds = [] \<longleftrightarrow> ?B = {}" by (simp_all only: image_is_empty set_empty)
  have fin: "finite ?A" "finite ?B" by simp_all
  consider "?A = {}" "?B = {}" | "?A \<noteq> {}" "?B = {}" | "?A = {}" "?B \<noteq> {}" | "?A \<noteq> {}" "?B \<noteq> {}" by blast
  then show ?thesis
    unfolding next_id_of_def runs deltas empty all_ids_def
    by cases (simp_all only: if_True if_False simp_thms prod.case option.case Un_empty Un_empty_left Un_empty_right Min_Un fin)
qed

lemma merged_least:
  assumes "rid \<in> all_ids rss ds" and least: "\<forall>i \<in> all_ids rss ds. rid \<le> i" and sorted: "list_all sorted_keys ds"
  shows "merged rss ds = (rid, merged_row rss ds rid)
    # merged (map (filter (\<lambda>r. fst r \<noteq> rid)) rss) (map (filter (\<lambda>p. fst p \<noteq> rid)) ds)"
proof -
  let ?rss = "map (filter (\<lambda>r. fst r \<noteq> rid)) rss" and ?ds = "map (filter (\<lambda>p. fst p \<noteq> rid)) ds"
  have ids: "all_ids ?rss ?ds = all_ids rss ds - {rid}" by (auto simp: all_ids_def image_iff)
  have "sorted_list_of_set (all_ids rss ds) = rid # sorted_list_of_set (all_ids rss ds - {rid})"
  proof (rule strict_sorted_equal)
    have "finite (all_ids rss ds - {rid})" by (simp add: finite_all_ids)
    moreover have "rid < i" if "i \<in> all_ids rss ds - {rid}" for i using that least by (auto simp: order_less_le)
    ultimately show "sorted_wrt (<) (rid # sorted_list_of_set (all_ids rss ds - {rid}))" by simp
    show "set (sorted_list_of_set (all_ids rss ds)) = set (rid # sorted_list_of_set (all_ids rss ds - {rid}))"
      using assms(1) by (auto simp: finite_all_ids)
  qed simp
  moreover have "merged_row ?rss ?ds i = merged_row rss ds i" if "i \<in> all_ids rss ds - {rid}" for i
  proof -
    have "filter (\<lambda>r. fst r = i) (filter (\<lambda>r. fst r \<noteq> rid) rows) = filter (\<lambda>r. fst r = i) rows" for rows :: "(string \<times> version_entry) list"
      using that by (auto intro: filter_cong)
    moreover have "map_of (filter (\<lambda>p. fst p \<noteq> rid) d) i = map_of d i" for d :: "(string \<times> version_list) list"
      using that by (induction d) auto
    ultimately show ?thesis by (simp add: merged_row_def comp_def)
  qed
  ultimately show ?thesis by (simp add: merged_def ids finite_all_ids)
qed

text \<open>Visiting a list of rows until the visitor stops.\<close>

fun visit_rows :: "(version_list \<Rightarrow> version_list) \<Rightarrow> ('s \<Rightarrow> string \<Rightarrow> version_list \<Rightarrow> ('s \<times> bool) result)
    \<Rightarrow> (string \<times> version_list) list \<Rightarrow> 's \<Rightarrow> 's result" where
  "visit_rows tidy visit [] s = Inr s"
| "visit_rows tidy visit (r # rows) s =
     (case visit s (fst r) (tidy (snd r)) of
        Inl err \<Rightarrow> Inl err
      | Inr (s', go) \<Rightarrow> if \<not> go then Inr s' else visit_rows tidy visit rows s')"

lemma visit_merge_exact:
  assumes fits: "table_fits table" and control: "\<And>n. control n = Inr ()"
    and "heads_ok crc table hs rss ds" and "\<forall>rid \<in> all_ids rss ds. \<forall>a. after = Some a \<longrightarrow> a < rid"
  shows "visit_merge crc us control table after visit hs ds n s = Some (visit_rows (tidy_versions us) visit (merged rss ds) s)"
  using assms(3,4)
proof (induction "card (all_ids rss ds)" arbitrary: hs rss ds n s)
  case 0
  then have "all_ids rss ds = {}" by (simp add: finite_all_ids)
  moreover from this have "next_id_of hs ds = None" using next_id_exact [OF 0(2)] by simp
  ultimately show ?case by (subst visit_merge.simps) (simp add: control merged_def)
next
  case (Suc k)
  define rid where "rid = Min (all_ids rss ds)"
  have ne: "all_ids rss ds \<noteq> {}" using Suc.hyps(2) by auto
  have rid: "rid \<in> all_ids rss ds" "\<forall>i \<in> all_ids rss ds. rid \<le> i"
    unfolding rid_def using Min_in [OF finite_all_ids ne] Min_le [OF finite_all_ids] by blast+
  have nid: "next_id_of hs ds = Some rid" using next_id_exact [OF Suc.prems(1)] ne by (simp add: rid_def)
  let ?rss = "map (filter (\<lambda>r. fst r \<noteq> rid)) rss" and ?ds = "map (filter (\<lambda>p. fst p \<noteq> rid)) ds"
  have ok: "list_all2 (head_rows crc table) hs rss"
    "list_all (\<lambda>rows. sorted (map fst rows) \<and> (\<forall>r \<in> set rows. rid \<le> fst r)) rss"
    "list_all (\<lambda>d. sorted_keys d \<and> (\<forall>p \<in> set d. rid \<le> fst p)) ds" "list_all sorted_keys ds"
    using Suc.prems(1) rid(2) by (fastforce simp: heads_ok_def all_ids_def list_all_iff)+
  obtain hs' where hs': "take_run_heads crc table rid hs [] =
      Some (Inr (hs', concat (map (\<lambda>rows. map snd (filter (\<lambda>r. fst r = rid) rows)) rss)))"
    "list_all2 (head_rows crc table) hs' ?rss"
    using take_run_heads_exact [OF fits ok(1,2), of "[]"] by auto
  have deltas: "take_delta_heads rid ds (concat (map (\<lambda>rows. map snd (filter (\<lambda>r. fst r = rid) rows)) rss))
      = (?ds, merged_row rss ds rid)" using take_delta_heads_exact [OF ok(3)] by (simp add: merged_row_def)
  have "\<not> (case after of Some a \<Rightarrow> rid \<le> a | None \<Rightarrow> False)" using Suc.prems(2) rid(1) by (auto split: option.splits)
  then have step: "visit_merge crc us control table after visit hs ds n s =
      (case visit s rid (tidy_versions us (merged_row rss ds rid)) of
         Inl err \<Rightarrow> Some (Inl err)
       | Inr (s', go) \<Rightarrow> if \<not> go then Some (Inr s') else visit_merge crc us control table after visit hs' ?ds (n + 1) s')"
    using nid hs'(1) deltas by (subst visit_merge.simps) (auto simp: control split: sum.splits)
  have ids: "all_ids ?rss ?ds = all_ids rss ds - {rid}" by (auto simp: all_ids_def image_iff)
  have "k = card (all_ids ?rss ?ds)" using Suc.hyps(2) rid(1) by (simp add: ids finite_all_ids)
  moreover have "heads_ok crc table hs' ?rss ?ds"
    using hs'(2) Suc.prems(1) by (auto simp: heads_ok_def list_all_iff sorted_filter sorted_wrt_filter sorted_map)
  ultimately have ih: "visit_merge crc us control table after visit hs' ?ds (n + 1) s'
      = Some (visit_rows (tidy_versions us) visit (merged ?rss ?ds) s')" for s'
    using Suc.hyps(1) [of ?rss ?ds hs'] Suc.prems(2) ids by auto
  show ?case
    unfolding merged_least [OF rid ok(4)] step ih by (cases "visit s rid (tidy_versions us (merged_row rss ds rid))") auto
qed

section \<open>The walk over a table\<close>

text \<open>The rows a run holds of a table after an id.\<close>

definition run_rows :: "(bytes \<Rightarrow> u32) \<Rightarrow> primary_run \<Rightarrow> string \<Rightarrow> string option \<Rightarrow> (string \<times> version_entry) list" where
  "run_rows crc run table after =
     map (\<lambda>x. (str_of (drop (key_prefix_len table) (fst x)), dec_entry (snd x)))
       (entries_after (primary_table_prefix table) (map_option (primary_key table) after) (px_entries crc (pr_index run)))"

lemma starts_with_prefix: "starts_with bs pre \<longleftrightarrow> (\<exists>rest. bs = pre @ rest)"
  by (metis append_eq_conv_conj append_take_drop_id starts_with_def)

lemma run_entry_row:
  assumes ok: "run_ok crc run" and fits: "table_fits table"
    and x: "x \<in> set (entries_after (primary_table_prefix table) (map_option (primary_key table) after) (px_entries crc (pr_index run)))"
  shows "table_row table x (str_of (drop (key_prefix_len table) (fst x)), dec_entry (snd x))"
    and "\<forall>a. after = Some a \<longrightarrow> a < str_of (drop (key_prefix_len table) (fst x))"
proof -
  have mem: "x \<in> set (px_entries crc (pr_index run))" and pre: "starts_with (fst x) (primary_table_prefix table)"
    and beyond: "case map_option (primary_key table) after of None \<Rightarrow> True | Some a \<Rightarrow> a < fst x"
    using x by (auto simp: entries_after_def)
  from mem ok obtain t rid e where e: "fst x = primary_key t rid" "table_fits t" "rust_str rid" "encode_primary_entry e = Inr (snd x)"
    by (fastforce simp: run_ok_def list_all_iff primary_entry_ok_def)
  have t: "t = table" using primary_prefix_inject [OF fits e(2), of rid] pre e(1) by (auto simp: starts_with_prefix)
  have rid: "str_of (drop (key_prefix_len table) (fst x)) = rid"
    by (simp add: e(1) t primary_key_prefix primary_table_prefix_def key_prefix_len_def)
  have "dec_entry (snd x) = e" using decode_encode_primary_entry [OF e(4)] by (simp add: dec_entry_def)
  with e t rid show "table_row table x (str_of (drop (key_prefix_len table) (fst x)), dec_entry (snd x))"
    by (simp add: table_row_def)
  show "\<forall>a. after = Some a \<longrightarrow> a < str_of (drop (key_prefix_len table) (fst x))"
    using beyond unfolding rid by (auto simp: e(1) t primary_key_less)
qed

lemma run_rows_rel:
  assumes "run_ok crc run" and "table_fits table"
  shows "list_all2 (table_row table)
    (entries_after (primary_table_prefix table) (map_option (primary_key table) after) (px_entries crc (pr_index run)))
    (run_rows crc run table after)"
  using run_entry_row(1) [OF assms] by (simp add: run_rows_def list_all2_map2 list_all2_same)

lemma run_rows_sorted:
  assumes ok: "run_ok crc run" and fits: "table_fits table"
  shows "sorted (map fst (run_rows crc run table after))"
proof -
  let ?es = "entries_after (primary_table_prefix table) (map_option (primary_key table) after) (px_entries crc (pr_index run))"
  have "sorted_wrt (<) (px_entries crc (pr_index run))" using ok by (simp add: run_ok_def run_valid_def)
  then have "sorted_wrt (<) ?es" by (simp add: entries_after_def sorted_wrt_filter)
  then have "sorted_wrt (\<lambda>x y. str_of (drop (key_prefix_len table) (fst x)) \<le> str_of (drop (key_prefix_len table) (fst y))) ?es"
  proof (rule sorted_wrt_mono_rel [rotated])
    fix x y assume xy: "x \<in> set ?es" "y \<in> set ?es" "x < y"
    then have "fst x \<le> fst y" by (auto simp: less_prod_def)
    define i j where "i = str_of (drop (key_prefix_len table) (fst x))" and "j = str_of (drop (key_prefix_len table) (fst y))"
    have "fst x = primary_key table i" "fst y = primary_key table j"
      using run_entry_row(1) [OF ok fits xy(1)] run_entry_row(1) [OF ok fits xy(2)] by (simp_all add: table_row_def i_def j_def)
    with \<open>fst x \<le> fst y\<close> have "\<not> j < i" using primary_key_less [of table j i] by (simp add: not_less [symmetric])
    then show "str_of (drop (key_prefix_len table) (fst x)) \<le> str_of (drop (key_prefix_len table) (fst y))"
      by (simp add: i_def j_def)
  qed
  then show ?thesis by (simp add: run_rows_def sorted_map sorted_wrt_map)
qed

lemma run_rows_versions:
  assumes ok: "run_ok crc run" and fits: "table_fits table" and after: "\<forall>a. after = Some a \<longrightarrow> a < rid"
  shows "map snd (filter (\<lambda>r. fst r = rid) (run_rows crc run table after)) = run_versions crc run table rid"
proof -
  let ?P = "\<lambda>x. starts_with (fst x) (primary_table_prefix table)
    \<and> (case map_option (primary_key table) after of None \<Rightarrow> True | Some a \<Rightarrow> a < fst x)"
  have "?P x \<and> str_of (drop (key_prefix_len table) (fst x)) = rid \<longleftrightarrow> fst x = primary_key table rid"
    if x: "x \<in> set (px_entries crc (pr_index run))" for x :: entry
  proof
    assume "?P x \<and> str_of (drop (key_prefix_len table) (fst x)) = rid"
    with run_entry_row(1) [OF ok fits, of x after] x show "fst x = primary_key table rid"
      by (simp add: entries_after_def table_row_def)
  next
    assume key: "fst x = primary_key table rid"
    then have "?P x" using after by (auto simp: starts_with_prefix primary_key_prefix [of table rid] primary_key_less split: option.splits)
      (metis primary_key_less primary_key_prefix)
    with key show "?P x \<and> str_of (drop (key_prefix_len table) (fst x)) = rid"
      by (simp add: primary_key_prefix primary_table_prefix_def key_prefix_len_def)
  qed
  then have "filter (\<lambda>x. ?P x \<and> str_of (drop (key_prefix_len table) (fst x)) = rid) (px_entries crc (pr_index run))
      = filter (\<lambda>x. fst x = primary_key table rid) (px_entries crc (pr_index run))" by (intro filter_cong) auto
  then show ?thesis
    by (simp add: run_rows_def entries_after_def run_versions_def values_of_def filter_map comp_def)
qed

text \<open>Sorting and removing repeated versions, when no version names two entries.\<close>

lemma strict_key_unique:
  fixes f :: "'a \<Rightarrow> 'k::linorder"
  assumes "sorted_wrt (<) (map f xs)" and "sorted_wrt (<) (map f ys)" and "set xs = set ys" and "inj_on f (set xs)"
  shows "xs = ys"
proof -
  have "map f xs = map f ys" using assms(1-3) by (intro strict_sorted_equal) simp_all
  then show ?thesis using assms(3,4) inj_on_map_eq_map [of f xs ys] by simp
qed

lemma not_interleaved: "\<not> interleaved vs \<longleftrightarrow> sorted_wrt (<) (map ve_version vs)"
  by (induction vs rule: interleaved.induct) (auto simp: not_le intro: order.strict_trans)

lemma sort_key_strict:
  fixes f :: "'a \<Rightarrow> 'k::linorder"
  assumes "inj_on f (set vs)"
  shows "sorted_wrt (<) (map f (sort_key f (remdups vs)))"
proof -
  have "distinct (map f (sort_key f (remdups vs)))" using assms by (simp add: distinct_map)
  then show ?thesis by (simp add: strict_sorted_iff)
qed

lemma tidy_versions_exact:
  assumes us: "sorts_by_version us" and unique: "inj_on ve_version (set vs)"
  shows "tidy_versions us vs = sort_key ve_version (remdups vs)"
proof (rule strict_key_unique [where f = ve_version])
  have tidy: "sorted_wrt (<) (map ve_version (tidy_versions us vs)) \<and> set (tidy_versions us vs) = set vs"
  proof (cases "interleaved vs")
    case True
    have sorted: "sorted (map ve_version (us vs))" and mset: "mset (us vs) = mset vs" using us by (auto simp: sorts_by_version_def)
    have set: "set (us vs) = set vs" using mset by (metis set_mset_mset)
    note dd = dedup_versions_exact [OF sorted]
    have "set (dedup_versions (us vs)) = set vs"
    proof
      show "set (dedup_versions (us vs)) \<subseteq> set vs" using dd set by simp
      show "set vs \<subseteq> set (dedup_versions (us vs))"
      proof
        fix e assume e: "e \<in> set vs"
        then have "ve_version e \<in> ve_version ` set (dedup_versions (us vs))" using dd set by auto
        then obtain e' where e': "e' \<in> set (dedup_versions (us vs))" "ve_version e = ve_version e'" by auto
        with dd set have "e' \<in> set vs" by auto
        with e e' unique show "e \<in> set (dedup_versions (us vs))" by (metis inj_onD)
      qed
    qed
    with dd True show ?thesis by (simp add: tidy_versions_def)
  next
    case False
    then show ?thesis using not_interleaved [of vs] by (simp add: tidy_versions_def)
  qed
  then show "sorted_wrt (<) (map ve_version (tidy_versions us vs))" by simp
  show "sorted_wrt (<) (map ve_version (sort_key ve_version (remdups vs)))" by (rule sort_key_strict [OF unique])
  show "set (tidy_versions us vs) = set (sort_key ve_version (remdups vs))" "inj_on ve_version (set (tidy_versions us vs))"
    using tidy unique by simp_all
qed

lemma idx_versions_unique:
  assumes ok: "idx_ok crc idx"
  shows "inj_on ve_version (set (all_versions crc idx table rid))"
proof -
  let ?R = "set (runs_versions crc (pi_runs idx) table rid)" and ?F = "set (delta_versions (frozen_table idx table) rid)"
    and ?A = "set (delta_versions (active_table idx table) rid)"
  have inj: "inj_on ve_version (set (delta_versions d rid))" if "\<And>x. d = Some x \<Longrightarrow> delta_ok x" for d
  proof (cases d)
    case (Some x)
    then have "distinct (map ve_version (versions_of x rid))" using that by (simp add: delta_ok_def strict_sorted_iff)
    then show ?thesis using Some by (simp add: delta_versions_def distinct_map)
  qed (simp add: delta_versions_def)
  have "inj_on ve_version ?F" "inj_on ve_version ?A" using inj idx_ok_overlays [OF ok, of table] by auto
  moreover have "inj_on ve_version ?R" using ok unfolding idx_ok_def inj_on_def by blast
  moreover have "\<forall>e \<in> ?F \<union> ?A. \<forall>e' \<in> ?R. ve_version e' < ve_version e"
    using ok unfolding idx_ok_def overlay_versions_def set_append by blast
  moreover have "\<forall>e \<in> ?A. \<forall>e' \<in> ?F. ve_version e' < ve_version e" using ok unfolding idx_ok_def by blast
  ultimately have "inj_on ve_version (?R \<union> (?F \<union> ?A))"
    unfolding inj_on_Un by force
  then show ?thesis by (simp add: all_versions_def overlay_versions_def)
qed

definition delta_ids :: "primary_table_delta option \<Rightarrow> string set" where
  "delta_ids d = (case d of None \<Rightarrow> {} | Some d \<Rightarrow> fst ` set (delta_iter d))"

text \<open>The ids of a table: those with a version in a run, and those of the deltas.\<close>

definition table_ids :: "(bytes \<Rightarrow> u32) \<Rightarrow> primary_idx \<Rightarrow> string \<Rightarrow> string set" where
  "table_ids crc idx table = {rid. runs_versions crc (pi_runs idx) table rid \<noteq> []}
     \<union> delta_ids (frozen_table idx table) \<union> delta_ids (active_table idx table)"

definition beyond :: "string option \<Rightarrow> string \<Rightarrow> bool" where
  "beyond after rid \<longleftrightarrow> (case after of None \<Rightarrow> True | Some a \<Rightarrow> a < rid)"

lemma delta_range_rows:
  assumes "delta_ok d"
  shows "sorted_keys (delta_range_after d after)"
    and "fst ` set (delta_range_after d after) = {rid \<in> fst ` set (delta_iter d). beyond after rid}"
    and "beyond after rid \<Longrightarrow> (case map_of (delta_range_after d after) rid of Some v \<Rightarrow> v | None \<Rightarrow> []) = versions_of d rid"
proof -
  have shape: "delta_shape d" using assms by (simp add: delta_ok_def delta_inv_def)
  have range: "delta_range_after d after = filter (\<lambda>p. beyond after (fst p)) (delta_iter d)"
    using delta_range_refines [OF shape, of after] by (cases after) (simp_all add: beyond_def)
  show "sorted_keys (delta_range_after d after)" using shape unfolding range by (simp add: delta_shape_def sorted_wrt_filter)
  show "fst ` set (delta_range_after d after) = {rid \<in> fst ` set (delta_iter d). beyond after rid}" unfolding range by auto
  assume "beyond after rid"
  then have "map_of (filter (\<lambda>p. beyond after (fst p)) ps) rid = map_of ps rid" for ps :: "(string \<times> version_list) list"
    by (induction ps) auto
  then show "(case map_of (delta_range_after d after) rid of Some v \<Rightarrow> v | None \<Rightarrow> []) = versions_of d rid"
    unfolding range by (simp add: versions_of_def delta_get_exact [OF shape])
qed

lemma cursor_rows_start:
  assumes ok: "run_ok crc run" and fits: "table_fits table"
  shows "cursor_rows crc table \<lparr>ptc_cursor = (pr_index run, prefix_cursor_after (pr_index run) (primary_table_prefix table)
      (map_option (primary_key table) after)), ptc_pending = None\<rparr> (run_rows crc run table after)"
proof -
  obtain pss where pss: "index_holds crc (pr_index run) pss" using ok by (auto simp: run_ok_def run_valid_def)
  from prefix_cursor_inv [OF pss] run_rows_rel [OF ok fits, of after] px_entries_holds [OF pss] show ?thesis
    by (auto simp: cursor_rows_def drains_rows_def)
qed

lemma run_rows_ids:
  assumes ok: "run_ok crc run" and fits: "table_fits table"
  shows "fst ` set (run_rows crc run table after) = {rid. beyond after rid \<and> run_versions crc run table rid \<noteq> []}"
proof -
  have "rid \<in> fst ` set (run_rows crc run table after) \<longleftrightarrow> beyond after rid \<and> run_versions crc run table rid \<noteq> []" for rid
  proof (cases "beyond after rid")
    case True
    then have "map snd (filter (\<lambda>r. fst r = rid) (run_rows crc run table after)) = run_versions crc run table rid"
      by (intro run_rows_versions [OF ok fits]) (auto simp: beyond_def)
    then have "run_versions crc run table rid \<noteq> [] \<longleftrightarrow> filter (\<lambda>r. fst r = rid) (run_rows crc run table after) \<noteq> []" by auto
    with True show ?thesis by (force simp: filter_empty_conv)
  next
    case False
    then have "rid \<notin> fst ` set (run_rows crc run table after)"
      using run_entry_row(2) [OF ok fits, of _ after] by (auto simp: run_rows_def beyond_def split: option.splits)
    with False show ?thesis by simp
  qed
  then show ?thesis by blast
qed

lemma visit_table_merged:
  fixes after :: "string option"
  assumes ok: "idx_ok crc idx" and fits: "table_fits table"
  defines "rss \<equiv> map (\<lambda>run. run_rows crc run table after) (pi_runs idx)"
    and "ds \<equiv> List.map_filter (map_option (\<lambda>d. delta_range_after d after)) [frozen_table idx table, active_table idx table]"
  shows "all_ids rss ds = {rid \<in> table_ids crc idx table. beyond after rid}"
    and "beyond after rid \<Longrightarrow> merged_row rss ds rid = all_versions crc idx table rid"
    and "list_all (\<lambda>rows. sorted (map fst rows)) rss" and "list_all sorted_keys ds"
proof -
  have runs: "\<And>run. run \<in> set (pi_runs idx) \<Longrightarrow> run_ok crc run" using ok by (simp add: idx_ok_def list_all_iff)
  have od: "\<And>d. frozen_table idx table = Some d \<Longrightarrow> delta_ok d" "\<And>d. active_table idx table = Some d \<Longrightarrow> delta_ok d"
    using idx_ok_overlays [OF ok, of table] by auto
  show "list_all (\<lambda>rows. sorted (map fst rows)) rss"
    using runs run_rows_sorted [OF _ fits] by (simp add: rss_def list_all_iff)
  show "list_all sorted_keys ds"
    using od delta_range_rows(1) by (auto simp: ds_def List.map_filter_simps split: option.splits)
  have "fst ` set (concat rss) = {rid. beyond after rid \<and> runs_versions crc (pi_runs idx) table rid \<noteq> []}"
    using runs run_rows_ids [OF _ fits, of crc _ after] unfolding rss_def runs_versions_def by (auto simp: image_Union)
  moreover have "fst ` set (concat ds) = {rid \<in> delta_ids (frozen_table idx table) \<union> delta_ids (active_table idx table). beyond after rid}"
    using od delta_range_rows(2) [of _ after]
    by (cases "frozen_table idx table"; cases "active_table idx table") (auto simp: ds_def List.map_filter_simps delta_ids_def image_Un)
  ultimately show "all_ids rss ds = {rid \<in> table_ids crc idx table. beyond after rid}"
    by (auto simp: all_ids_def table_ids_def)
  assume rid: "beyond after rid"
  then have "\<forall>a. after = Some a \<longrightarrow> a < rid" by (auto simp: beyond_def)
  then have "map (\<lambda>rows. map snd (filter (\<lambda>r. fst r = rid) rows)) rss = map (\<lambda>run. run_versions crc run table rid) (pi_runs idx)"
    using runs run_rows_versions [OF _ fits, of crc _ after rid] by (simp add: rss_def)
  moreover have "concat (map (\<lambda>d. case map_of d rid of Some v \<Rightarrow> v | None \<Rightarrow> []) ds) = overlay_versions idx table rid"
    using od delta_range_rows(3) [OF _ rid]
    by (cases "frozen_table idx table"; cases "active_table idx table")
      (simp_all add: ds_def List.map_filter_simps overlay_versions_def delta_versions_def)
  ultimately show "merged_row rss ds rid = all_versions crc idx table rid"
    by (simp add: merged_row_def all_versions_def runs_versions_def)
qed

lemma visit_rows_tidy:
  "visit_rows tidy visit rows s = visit_rows (\<lambda>v. v) visit (map (\<lambda>r. (fst r, tidy (snd r))) rows) s"
  by (induction rows arbitrary: s) (auto split: sum.splits)

lemma visit_table_exact:
  assumes ok: "idx_ok crc idx" and fits: "table_fits table" and us: "sorts_by_version us" and control: "\<And>n. control n = Inr ()"
  shows "visit_table crc us control idx table after visit s =
    Some (visit_rows (\<lambda>v. v) visit
      (map (\<lambda>rid. (rid, sort_key ve_version (remdups (all_versions crc idx table rid))))
        (sorted_list_of_set {rid \<in> table_ids crc idx table. beyond after rid})) s)"
proof -
  define rss where "rss = map (\<lambda>run. run_rows crc run table after) (pi_runs idx)"
  define ds where "ds = List.map_filter (map_option (\<lambda>d. delta_range_after d after)) [frozen_table idx table, active_table idx table]"
  note merged_facts = visit_table_merged [OF ok fits, of after, folded rss_def ds_def]
  have "list_all2 (cursor_rows crc table) (map (\<lambda>run. \<lparr>ptc_cursor = (pr_index run, prefix_cursor_after (pr_index run)
      (primary_table_prefix table) (map_option (primary_key table) after)), ptc_pending = None\<rparr>) (pi_runs idx)) rss"
    using ok cursor_rows_start [OF _ fits] by (auto simp: rss_def list_all2_map1 list_all2_map2 list_all2_same idx_ok_def list_all_iff)
  from group_heads_exact [OF fits this] obtain hs where
    hs: "group_heads crc table (map (\<lambda>run. \<lparr>ptc_cursor = (pr_index run, prefix_cursor_after (pr_index run)
      (primary_table_prefix table) (map_option (primary_key table) after)), ptc_pending = None\<rparr>) (pi_runs idx)) = Some (Inr hs)"
    and heads: "list_all2 (head_rows crc table) hs rss" by blast
  have "heads_ok crc table hs rss ds" using heads merged_facts(3,4) by (simp add: heads_ok_def)
  moreover have "\<forall>rid \<in> all_ids rss ds. \<forall>a. after = Some a \<longrightarrow> a < rid" unfolding merged_facts(1) by (auto simp: beyond_def)
  ultimately have "visit_merge crc us control table after visit hs ds 0 s = Some (visit_rows (tidy_versions us) visit (merged rss ds) s)"
    by (rule visit_merge_exact [OF fits control])
  then have "visit_table crc us control idx table after visit s = Some (visit_rows (tidy_versions us) visit (merged rss ds) s)"
    unfolding visit_table_def visit_primary_table_def Let_def ds_def [symmetric] by (simp only: hs option.case sum.case)
  moreover have "map (\<lambda>r. (fst r, tidy_versions us (snd r))) (merged rss ds) =
      map (\<lambda>rid. (rid, sort_key ve_version (remdups (all_versions crc idx table rid))))
        (sorted_list_of_set {rid \<in> table_ids crc idx table. beyond after rid})"
  proof -
    have fin: "finite {rid \<in> table_ids crc idx table. beyond after rid}" using finite_all_ids [of rss ds] by (simp add: merged_facts(1))
    show ?thesis unfolding merged_def merged_facts(1)
      using fin tidy_versions_exact [OF us idx_versions_unique [OF ok]] by (auto simp: merged_facts(2))
  qed
  ultimately show ?thesis using visit_rows_tidy [of "tidy_versions us" visit "merged rss ds" s] by simp
qed

section \<open>Properties\<close>

text \<open>C21. A point lookup in the primary directory returns the newest version of the row at or below
  the reader's version, over all runs, the frozen generation and the active delta, although it
  stops at the first overlay that shows a version; a table's view, which searches the runs through
  their fences, returns the same. Only verification bits change.\<close>

theorem primary_lookup_newest:
  assumes "idx_ok crc idx"
  shows "\<exists>r runs. newest_at_or_before crc idx table rid m = (Inr r, idx\<lparr>pi_runs := runs\<rparr>) \<and> same_runs (pi_runs idx) runs
    \<and> is_newest m (all_versions crc idx table rid) r
    \<and> fst (view_newest crc (table_view idx table) rid m) = Inr r
    \<and> fst (view_newest crc (snapshot_view (table_snapshot idx table) table) rid m) = Inr r"
proof -
  obtain r idx' where r: "newest_at_or_before crc idx table rid m = (Inr r, idx')" "is_newest m (all_versions crc idx table rid) r"
    "\<exists>runs. idx' = idx\<lparr>pi_runs := runs\<rparr> \<and> same_runs (pi_runs idx) runs"
    using newest_at_or_before_exact [OF assms] by blast
  have "fst (view_newest crc (table_view idx table) rid m) = Inr r"
    using view_newest_exact [OF assms, of "table_view idx table" table "[]" rid m] r(1)
    by (simp add: table_view_def primary_table_prefix_def)
  moreover have "fst (view_newest crc (snapshot_view (table_snapshot idx table) table) rid m) = Inr r"
    using view_newest_exact [OF assms, of "snapshot_view (table_snapshot idx table) table" table "[]" rid m] r(1)
    by (simp add: snapshot_view_def table_snapshot_def primary_table_prefix_def)
  ultimately show ?thesis using r by blast
qed

text \<open>A directory with two versions of one row, for the witnesses.\<close>

abbreviation tomb :: "u64 \<Rightarrow> version_entry" where
  "tomb v \<equiv> \<lparr>ve_version = v, ve_kind = MemTombstone\<rparr>"

abbreviation sample_idx :: primary_idx where
  "sample_idx \<equiv> primary_push ''t'' ''a'' (tomb 7) (primary_push ''t'' ''a'' (tomb 5) primary_empty)"

lemma idx_ok_empty: "idx_ok crc primary_empty" and all_versions_empty: "all_versions crc primary_empty t i = []"
  by (simp_all add: idx_ok_def primary_empty_def overlay_ok_def overlay_versions_def delta_versions_def active_table_def
      frozen_table_def runs_versions_def all_versions_def)

lemma sample_idx_ok: "idx_ok crc sample_idx" and sample_versions: "all_versions crc sample_idx ''t'' ''a'' = [tomb 5, tomb 7]"
proof -
  have fits: "table_fits ''t''" by (simp add: table_fits_def)
  note one = primary_push_ok [OF idx_ok_empty fits, of "''a''" crc "tomb 5", simplified all_versions_empty, simplified]
  note two = primary_push_ok [OF one(1) fits, of "''a''" "tomb 7", unfolded one(2), simplified]
  show "idx_ok crc sample_idx" "all_versions crc sample_idx ''t'' ''a'' = [tomb 5, tomb 7]"
    using two by (simp_all add: one(2))
qed

theorem primary_lookup_newest_witness:
  "\<exists>idx'. newest_at_or_before (\<lambda>_. 0) sample_idx ''t'' ''a'' 6 = (Inr (Some (tomb 5)), idx')"
proof -
  from primary_lookup_newest [OF sample_idx_ok, of "\<lambda>_. 0" "''t''" "''a''" 6] obtain r idx' where
    r: "newest_at_or_before (\<lambda>_. 0) sample_idx ''t'' ''a'' 6 = (Inr r, idx')" "is_newest 6 [tomb 5, tomb 7] r"
    unfolding sample_versions by blast
  from r(2) have "r = Some (tomb 5)" by (cases r) (auto simp: is_newest_simps)
  with r(1) show ?thesis by blast
qed

text \<open>Pushing a version newer than every version of its row keeps the invariant of the directory,
  adds the version to that row and changes no other row.\<close>

theorem primary_push_keeps_invariant:
  assumes "idx_ok crc idx" and "table_fits table" and "rust_str rid"
    and "\<forall>e' \<in> set (all_versions crc idx table rid). ve_version e' < ve_version e"
  shows "idx_ok crc (primary_push table rid e idx)
    \<and> all_versions crc (primary_push table rid e idx) t i = all_versions crc idx t i @ (if t = table \<and> i = rid then [e] else [])"
  using primary_push_ok [OF assms] by blast

theorem primary_push_keeps_invariant_witness:
  "all_versions (\<lambda>_. 0) (primary_push ''t'' ''a'' (tomb 9) sample_idx) ''t'' ''a'' = [tomb 5, tomb 7, tomb 9]"
  using primary_push_keeps_invariant [OF sample_idx_ok, of "''t''" "''a''" "\<lambda>_. 0" "tomb 9" "''t''" "''a''"]
  by (simp add: sample_versions table_fits_def)

text \<open>C22. A walk over a table visits exactly the rows behind the given id, each once, in id order, with
  all of its versions in ascending order, until the visitor stops; the walk ends.\<close>

theorem primary_walk_exact:
  assumes "idx_ok crc idx" and "table_fits table" and "sorts_by_version us" and "\<And>n. control n = Inr ()"
  shows "visit_table crc us control idx table after visit s =
    Some (visit_rows (\<lambda>v. v) visit
      (map (\<lambda>rid. (rid, sort_key ve_version (remdups (all_versions crc idx table rid))))
        (sorted_list_of_set {rid \<in> table_ids crc idx table. beyond after rid})) s)"
  by (rule visit_table_exact [OF assms])

theorem primary_walk_exact_witness:
  "visit_table (\<lambda>_. 0) (sort_key ve_version) (\<lambda>_. Inr ()) sample_idx ''t'' None
     (\<lambda>s rid vs. Inr (s @ [(rid, map ve_version vs)], True)) [] = Some (Inr [(''a'', [5, 7])])"
proof -
  have sort: "sorts_by_version (sort_key ve_version)" by (simp add: sorts_by_version_def)
  have "table_ids (\<lambda>_. 0) sample_idx ''t'' = {''a''}"
    by (simp add: table_ids_def runs_versions_def frozen_table_def active_table_def delta_ids_def primary_push_def
        primary_empty_def push_delta_def delta_push_refines(1) delta_inv_default delta_push_refines(2) delta_default_def
        delta_iter_def [of "\<lparr>pd_chunks = [], pd_firsts = []\<rparr>"] delta_inv_default [unfolded delta_default_def])
  then show ?thesis
    using primary_walk_exact [OF sample_idx_ok _ sort, of "''t''" "\<lambda>_. Inr ()" "\<lambda>_. 0" None "\<lambda>s rid vs. Inr (s @ [(rid, map ve_version vs)], True)" "[]"]
    by (simp add: sample_versions table_fits_def beyond_def)
qed

end
