(* ===== verification/Publish.thy ===== *)
theory Publish
  imports Cursor
begin

text \<open>
  Files published by rename: the directory that \<open>manifest.rs\<close>, \<open>run_manifest.rs\<close> and
  \<open>Catalog::save\<close> write to, and the checksummed envelope of the two kinds of manifest.

  A directory maps names to contents. Every call may fail, as the script of outcomes says; a
  write that fails leaves a part of its bytes behind. The state also keeps every directory it
  has passed through: a crash leaves one of them, whatever was not yet synced, so a claim about
  all of them is a claim about every crash. Calls whose result the code drops are run for their
  effect.
\<close>

section \<open>The directory\<close>

type_synonym directory = "string \<rightharpoonup> bytes"

record fs =
  fs_dir :: directory
  fs_seen :: "directory list"
  fs_script :: "(nat \<times> string) option list"

type_synonym 'a io = "fs \<times> 'a result"

definition fs_start :: "directory \<Rightarrow> (nat \<times> string) option list \<Rightarrow> fs" where
  "fs_start d script = \<lparr>fs_dir = d, fs_seen = [d], fs_script = script\<rparr>"

text \<open>The outcome of the next call; a call beyond the script succeeds.\<close>

definition fs_outcome :: "fs \<Rightarrow> (nat \<times> string) option \<times> fs" where
  "fs_outcome s = (case fs_script s of [] \<Rightarrow> (None, s) | r # rs \<Rightarrow> (r, s\<lparr>fs_script := rs\<rparr>))"

definition fs_pass :: "directory list \<Rightarrow> fs \<Rightarrow> fs" where
  "fs_pass ds s = (if ds = [] then s else s\<lparr>fs_dir := last ds, fs_seen := fs_seen s @ ds\<rparr>)"

definition fs_bind :: "'a io \<Rightarrow> ('a \<Rightarrow> fs \<Rightarrow> 'b io) \<Rightarrow> 'b io" where
  "fs_bind r f = (case r of (s, Inl e) \<Rightarrow> (s, Inl e) | (s, Inr x) \<Rightarrow> f x s)"

definition fs_exists :: "string \<Rightarrow> fs \<Rightarrow> bool" where
  "fs_exists path s \<longleftrightarrow> fs_dir s path \<noteq> None"

definition fs_read :: "directory \<Rightarrow> string \<Rightarrow> bytes result" where
  "fs_read d path = ok_or (Io ''No such file or directory'') (d path)"

definition fs_create :: "string \<Rightarrow> fs \<Rightarrow> unit io" where
  "fs_create path s =
     (case fs_outcome s of
        (Some (n, e), s) \<Rightarrow> (s, Inl (Io e))
      | (None, s) \<Rightarrow> (fs_pass [(fs_dir s)(path \<mapsto> [])] s, Inr ()))"

definition fs_write_all :: "string \<Rightarrow> bytes \<Rightarrow> fs \<Rightarrow> unit io" where
  "fs_write_all path bs s =
     (case fs_outcome s of
        (Some (n, e), s) \<Rightarrow> (fs_pass (map (\<lambda>k. (fs_dir s)(path \<mapsto> take k bs)) [0..<Suc n]) s, Inl (Io e))
      | (None, s) \<Rightarrow> (fs_pass (map (\<lambda>k. (fs_dir s)(path \<mapsto> take k bs)) [0..<Suc (length bs)]) s, Inr ()))"

definition fs_sync :: "fs \<Rightarrow> unit io" where
  "fs_sync s = (case fs_outcome s of (Some (n, e), s) \<Rightarrow> (s, Inl (Io e)) | (None, s) \<Rightarrow> (s, Inr ()))"

definition fs_rename :: "string \<Rightarrow> string \<Rightarrow> fs \<Rightarrow> unit io" where
  "fs_rename a b s =
     (case fs_outcome s of
        (Some (n, e), s) \<Rightarrow> (s, Inl (Io e))
      | (None, s) \<Rightarrow>
          (case fs_dir s a of
             None \<Rightarrow> (s, Inl (Io ''No such file or directory''))
           | Some bs \<Rightarrow> (fs_pass [(fs_dir s)(a := None, b \<mapsto> bs)] s, Inr ())))"

text \<open>Removing a file that is not there is the error \<open>NotFound\<close>, told apart from the others.\<close>

definition fs_remove :: "string \<Rightarrow> fs \<Rightarrow> (error + bool) \<times> fs" where
  "fs_remove path s =
     (case fs_outcome s of
        (Some (n, e), s) \<Rightarrow> (Inl (Io e), s)
      | (None, s) \<Rightarrow>
          (if fs_dir s path = None then (Inr False, s) else (Inr True, fs_pass [(fs_dir s)(path := None)] s)))"

definition write_synced :: "string \<Rightarrow> bytes \<Rightarrow> fs \<Rightarrow> unit io" where
  "write_synced path bs s =
     fs_bind (fs_create path s) (\<lambda>_ s. fs_bind (fs_write_all path bs s) (\<lambda>_ s. fs_sync s))"

definition fsync_dir :: "fs \<Rightarrow> unit io" where
  "fsync_dir s = fs_sync s"

datatype publish_outcome = Complete | SyncFailed string

fun as_io :: "error \<Rightarrow> string" where
  "as_io (Io e) = e"
| "as_io e = display_error e"

section \<open>What the calls do\<close>

text \<open>Every directory seen satisfies a predicate.\<close>

definition seen_all :: "(directory \<Rightarrow> bool) \<Rightarrow> fs \<Rightarrow> bool" where
  "seen_all P s \<longleftrightarrow> (\<forall>d \<in> set (fs_seen s). P d)"

lemma fs_outcome_dir: "fs_outcome s = (r, s') \<Longrightarrow> fs_dir s' = fs_dir s"
  and fs_outcome_seen: "fs_outcome s = (r, s') \<Longrightarrow> fs_seen s' = fs_seen s"
  by (auto simp: fs_outcome_def split: list.splits)

lemma seen_all_outcome: "fs_outcome s = (r, s') \<Longrightarrow> seen_all P s' = seen_all P s"
  using fs_outcome_seen [of s r s'] by (simp add: seen_all_def)

lemma seen_all_pass: "seen_all P (fs_pass ds s) \<longleftrightarrow> seen_all P s \<and> list_all P ds"
  by (auto simp: seen_all_def fs_pass_def list_all_iff)

lemma fs_pass_dir: "fs_dir (fs_pass ds s) = (if ds = [] then fs_dir s else last ds)"
  by (simp add: fs_pass_def)

lemma fs_bind_Inr: "fs_bind r f = (s', Inr y) \<longleftrightarrow> (\<exists>s x. r = (s, Inr x) \<and> f x s = (s', Inr y))"
  by (cases r; cases "snd r") (auto simp: fs_bind_def)

lemma fs_bind_seen:
  assumes "seen_all P (fst r)" and "\<And>s x. r = (s, Inr x) \<Longrightarrow> seen_all P (fst (f x s))"
  shows "seen_all P (fst (fs_bind r f))"
  using assms by (cases r; cases "snd r") (auto simp: fs_bind_def)

text \<open>A sync changes nothing that is visible.\<close>

lemma fs_sync_effect: "fs_sync s = (s', r) \<Longrightarrow> fs_dir s' = fs_dir s \<and> seen_all P s' = seen_all P s"
  by (auto simp: fs_sync_def fs_outcome_dir seen_all_outcome split: prod.splits option.splits)

lemma fsync_dir_effect: "fsync_dir s = (s', r) \<Longrightarrow> fs_dir s' = fs_dir s \<and> seen_all P s' = seen_all P s"
  unfolding fsync_dir_def by (rule fs_sync_effect)

text \<open>Writing a file touches that file only; when it succeeds the file holds the bytes.\<close>

lemma fs_create_effect:
  assumes "fs_create path s = (s', r)" and "seen_all P s" and "\<And>bs. P ((fs_dir s)(path \<mapsto> bs))"
  shows "seen_all P s' \<and> (r = Inr () \<longrightarrow> fs_dir s' = (fs_dir s)(path \<mapsto> []))
    \<and> (r \<noteq> Inr () \<longrightarrow> fs_dir s' = fs_dir s)"
  using assms
  by (auto simp: fs_create_def fs_outcome_dir seen_all_outcome seen_all_pass fs_pass_dir split: prod.splits option.splits)

lemma fs_write_all_effect:
  assumes "fs_write_all path bs s = (s', r)" and "seen_all P s" and "\<And>bs. P ((fs_dir s)(path \<mapsto> bs))"
  shows "seen_all P s' \<and> (r = Inr () \<longrightarrow> fs_dir s' = (fs_dir s)(path \<mapsto> bs))
    \<and> (\<exists>bs'. fs_dir s' = (fs_dir s)(path \<mapsto> bs'))"
proof (cases "fs_outcome s")
  case (Pair o' s1)
  note d = fs_outcome_dir [OF Pair] seen_all_outcome [OF Pair, of P]
  show ?thesis
  proof (cases o')
    case None
    with assms Pair d show ?thesis
      by (auto simp: fs_write_all_def seen_all_pass fs_pass_dir list_all_iff simp del: upt_Suc simp add: last_map)
  next
    case (Some ne)
    with assms Pair d show ?thesis
      by (cases ne) (auto simp: fs_write_all_def seen_all_pass fs_pass_dir list_all_iff simp del: upt_Suc simp add: last_map)
  qed
qed

lemma write_synced_effect:
  assumes "write_synced path bs s = (s', r)" and "seen_all P s" and "\<And>bs. P ((fs_dir s)(path \<mapsto> bs))"
  shows "seen_all P s' \<and> (r = Inr () \<longrightarrow> fs_dir s' = (fs_dir s)(path \<mapsto> bs))
    \<and> (r \<noteq> Inr () \<longrightarrow> fs_dir s' = fs_dir s \<or> (\<exists>bs'. fs_dir s' = (fs_dir s)(path \<mapsto> bs')))"
proof -
  obtain s1 r1 where c: "fs_create path s = (s1, r1)" by fastforce
  note c' = fs_create_effect [OF c assms(2,3)]
  show ?thesis
  proof (cases r1)
    case (Inl e)
    with c c' assms(1) show ?thesis by (auto simp: write_synced_def fs_bind_def)
  next
    case (Inr u)
    with c' have d1: "fs_dir s1 = (fs_dir s)(path \<mapsto> [])" by simp
    obtain s2 r2 where w: "fs_write_all path bs s1 = (s2, r2)" by fastforce
    have w': "seen_all P s2" "r2 = Inr () \<Longrightarrow> fs_dir s2 = (fs_dir s)(path \<mapsto> bs)"
      "\<exists>bs'. fs_dir s2 = (fs_dir s)(path \<mapsto> bs')"
      using fs_write_all_effect [OF w, of P] c' assms(3) d1 by auto
    show ?thesis
    proof (cases r2)
      case (Inl e)
      with c w w' Inr assms(1) show ?thesis by (auto simp: write_synced_def fs_bind_def)
    next
      case Inr2: (Inr u2)
      obtain s3 r3 where y: "fs_sync s2 = (s3, r3)" by fastforce
      with c w w' Inr Inr2 assms(1) fs_sync_effect [OF y, of P] show ?thesis
        by (auto simp: write_synced_def fs_bind_def)
    qed
  qed
qed

lemma fs_rename_effect:
  assumes "fs_rename a b s = (s', r)" and "seen_all P s"
  shows "(r \<noteq> Inr () \<longrightarrow> fs_dir s' = fs_dir s \<and> seen_all P s')
    \<and> (r = Inr () \<longrightarrow> (\<exists>bs. fs_dir s a = Some bs \<and> fs_dir s' = (fs_dir s)(a := None, b \<mapsto> bs)
          \<and> (P ((fs_dir s)(a := None, b \<mapsto> bs)) \<longrightarrow> seen_all P s')))"
  using assms
  by (auto simp: fs_rename_def fs_outcome_dir seen_all_outcome seen_all_pass fs_pass_dir split: prod.splits option.splits)

lemma fs_remove_effect:
  assumes "fs_remove path s = (r, s')" and "seen_all P s" and "P ((fs_dir s)(path := None))"
  shows "seen_all P s' \<and> (r = Inr b \<longrightarrow> fs_dir s' = (fs_dir s)(path := None)) \<and> (r = Inl e \<longrightarrow> fs_dir s' = fs_dir s)"
  using assms
  by (auto simp: fs_remove_def fs_outcome_dir seen_all_outcome seen_all_pass fs_pass_dir fun_upd_idem split: prod.splits option.splits if_splits)

section \<open>Replacing one file\<close>

text \<open>The two halves of a publication by rename: a complete temporary file, then its rename and the
  sync of the directory. Between them the code may work on other things.\<close>

definition rename_synced :: "string \<Rightarrow> string \<Rightarrow> fs \<Rightarrow> unit io" where
  "rename_synced tmp target s = fs_bind (fs_rename tmp target s) (\<lambda>_ s. fsync_dir s)"

definition read_and_decode :: "(bytes \<Rightarrow> 'm result) \<Rightarrow> string \<Rightarrow> directory \<Rightarrow> 'm result" where
  "read_and_decode dec path d = rbind (fs_read d path) dec"

text \<open>A document that is read back from the file that holds its encoding.\<close>

locale document =
  fixes enc :: "'m \<Rightarrow> bytes" and dec :: "bytes \<Rightarrow> 'm result" and valid :: "'m \<Rightarrow> bool"
  assumes dec_enc: "valid m \<Longrightarrow> dec (enc m) = Inr m"
begin

lemma read_at_same: "d path = Some (enc m) \<Longrightarrow> valid m \<Longrightarrow> read_and_decode dec path d = Inr m"
  by (simp add: read_and_decode_def fs_read_def ok_or_def dec_enc)

lemma read_at_cong: "d path = d' path \<Longrightarrow> read_and_decode dec path d = read_and_decode dec path d'"
  by (simp add: read_and_decode_def fs_read_def)

text \<open>However the calls end, and wherever a crash stops them, a reader of the target finds the old
  document or the new one, and the new one once the rename is done.\<close>

lemma replace_atomic:
  assumes run: "fs_bind (write_synced tmp (enc m) s) (\<lambda>_ s. rename_synced tmp target s) = (s', r)"
    and "valid m" and "tmp \<noteq> target"
    and seen: "seen_all (\<lambda>d. read_and_decode dec target d = old \<or> read_and_decode dec target d = Inr m) s"
    and now: "read_and_decode dec target (fs_dir s) = old"
  shows "seen_all (\<lambda>d. read_and_decode dec target d = old \<or> read_and_decode dec target d = Inr m) s'
    \<and> (r = Inr () \<longrightarrow> read_and_decode dec target (fs_dir s') = Inr m)"
proof -
  let ?P = "\<lambda>d. read_and_decode dec target d = old \<or> read_and_decode dec target d = Inr m"
  obtain s1 r1 where w: "write_synced tmp (enc m) s = (s1, r1)" by fastforce
  have tmp: "read_and_decode dec target ((fs_dir s)(tmp \<mapsto> bs)) = old" for bs
    using now \<open>tmp \<noteq> target\<close> by (simp add: read_and_decode_def fs_read_def)
  note w' = write_synced_effect [OF w seen, unfolded tmp, simplified]
  show ?thesis
  proof (cases r1)
    case (Inl e)
    with run w w' show ?thesis by (auto simp: fs_bind_def)
  next
    case (Inr u)
    with w' have d1: "fs_dir s1 = (fs_dir s)(tmp \<mapsto> enc m)" and seen1: "seen_all ?P s1" by simp_all
    obtain s2 r2 where rn: "fs_rename tmp target s1 = (s2, r2)" by fastforce
    note rn' = fs_rename_effect [OF rn seen1]
    show ?thesis
    proof (cases r2)
      case Inl2: (Inl e)
      with run w rn rn' Inr show ?thesis by (auto simp: fs_bind_def rename_synced_def)
    next
      case Inr2: (Inr u2)
      with rn' d1 have d2: "fs_dir s2 = (fs_dir s1)(tmp := None, target \<mapsto> enc m)"
        and new: "read_and_decode dec target (fs_dir s2) = Inr m"
        using \<open>tmp \<noteq> target\<close> \<open>valid m\<close> by (auto intro: read_at_same)
      then have "seen_all ?P s2" using rn' Inr2 d1 by auto
      moreover obtain s3 r3 where y: "fsync_dir s2 = (s3, r3)" by fastforce
      ultimately show ?thesis
        using run w rn Inr Inr2 new fsync_dir_effect [OF y, of ?P] by (auto simp: fs_bind_def rename_synced_def)
    qed
  qed
qed

end

end
