(* ===== verification/Manifest.thy ===== *)
theory Manifest
  imports Publish Schema Wal
begin

text \<open>
  The database manifest (\<open>manifest.rs\<close>), the atomic pointer to the visible state, and the catalog
  mirror (\<open>Catalog::load\<close>, \<open>Catalog::save\<close> of \<open>schema.rs\<close>); then the part of \<open>Database::open\<close>
  (\<open>db.rs\<close>) that loads the manifest and brings both of its copies up to date.

  The JSON serialization (crate \<open>serde_json\<close>) is a parameter. What the code relies on is that a
  document reads back from its serialization.
\<close>

section \<open>The data\<close>

record 'm serde =
  to_vec :: "'m \<Rightarrow> bytes"
  from_slice :: "bytes \<Rightarrow> string + 'm"

record segment_meta =
  sm_id :: u32
  sm_len :: u64

record 'j manifest =
  mf_format_version :: u32
  mf_committed_version :: u64
  mf_segments :: "segment_meta list"
  mf_wal_id :: u32
  mf_required_wal_id :: u32
  mf_identity_high_water :: "(string \<times> i64) list"
  mf_catalog :: "'j catalog option"

abbreviation "MANIFEST_FILE \<equiv> ''manifest''"
abbreviation "MANIFEST_PREV_FILE \<equiv> ''manifest.prev''"
abbreviation "MANIFEST_TMP_FILE \<equiv> ''manifest.tmp''"
abbreviation "MANIFEST_PREV_TMP_FILE \<equiv> ''manifest.prev.tmp''"
abbreviation "CATALOG_FILE \<equiv> ''catalog.json''"
abbreviation "CATALOG_TMP_FILE \<equiv> ''catalog.json.tmp''"

definition manifest_initial :: "'j manifest" where
  "manifest_initial = \<lparr>mf_format_version = FORMAT_VERSION, mf_committed_version = 0, mf_segments = [],
     mf_wal_id = 1, mf_required_wal_id = 1, mf_identity_high_water = [], mf_catalog = Some catalog_new\<rparr>"

text \<open>What the code calls that is not its own, and the serializations of the two documents.\<close>

record 'j mf_env =
  me_crc :: "bytes \<Rightarrow> u32"
  me_manifest :: "'j manifest serde"
  me_catalog :: "'j catalog serde"
  me_sys :: "'j sys"

section \<open>The envelope\<close>

definition manifest_encode :: "'j mf_env \<Rightarrow> 'j manifest \<Rightarrow> bytes" where
  "manifest_encode M m =
     (let json = to_vec (me_manifest M) m in
      as_bytes ''ESQLMANI'' @ to_le_bytes (me_crc M json) @ to_le_bytes (of_nat (length json) :: u32) @ json)"

definition manifest_decode :: "'j mf_env \<Rightarrow> bytes \<Rightarrow> 'j manifest result" where
  "manifest_decode M bs =
     rbind (require (\<not> (length bs < 16 \<or> take 8 bs \<noteq> as_bytes ''ESQLMANI''))
             (Corrupt ''manifest: bad magic'')) (\<lambda>_.
     let stored_crc = from_le_bytes (take 4 (drop 8 bs)) :: u32;
         len = unat (from_le_bytes (take 4 (drop 12 bs)) :: u32) in
     rbind (ok_or (Corrupt ''manifest: truncated body'') (get_range bs 16 (16 + len))) (\<lambda>body.
     rbind (require (\<not> me_crc M body \<noteq> stored_crc) (Corrupt ''manifest: crc mismatch'')) (\<lambda>_.
     rbind (map_err (\<lambda>e. Corrupt (''manifest: invalid json: '' @ e)) (from_slice (me_manifest M) body)) (\<lambda>m.
     rbind (require (format_version_is_readable (mf_format_version m))
             (Corrupt (''unsupported format_version '' @ show_nat (unat (mf_format_version m))
               @ '' (this engine reads '' @ show_nat (unat MIN_READABLE_FORMAT_VERSION) @ '' to ''
               @ show_nat (unat FORMAT_VERSION) @ '')''))) (\<lambda>_.
     rbind (case mf_catalog m of Some ca \<Rightarrow> validate_catalog (me_sys M) ca | None \<Rightarrow> Inr ()) (\<lambda>_.
     rbind (require (\<not> list_ex (\<lambda>(_, v). sint v < 0) (mf_identity_high_water m))
             (Corrupt ''manifest contains a negative identity high-water mark'')) (\<lambda>_.
     Inr m)))))))"

text \<open>A manifest the engine can write and read back: the body fits its length field.\<close>

definition manifest_ok :: "'j mf_env \<Rightarrow> 'j manifest \<Rightarrow> bool" where
  "manifest_ok M m \<longleftrightarrow>
     from_slice (me_manifest M) (to_vec (me_manifest M) m) = Inr m
     \<and> fits_u32 (length (to_vec (me_manifest M) m))
     \<and> format_version_is_readable (mf_format_version m)
     \<and> (case mf_catalog m of Some ca \<Rightarrow> validate_catalog (me_sys M) ca = Inr () | None \<Rightarrow> True)
     \<and> (\<forall>(t, v) \<in> set (mf_identity_high_water m). 0 \<le> sint v)"

section \<open>Loading and publishing\<close>

definition manifest_load :: "'j mf_env \<Rightarrow> directory \<Rightarrow> ('j manifest \<times> bool) result" where
  "manifest_load M d =
     (case read_and_decode (manifest_decode M) MANIFEST_FILE d of
        Inr m \<Rightarrow> Inr (m, False)
      | Inl primary_err \<Rightarrow>
          (case read_and_decode (manifest_decode M) MANIFEST_PREV_FILE d of
             Inr m \<Rightarrow> Inr (m, True)
           | Inl _ \<Rightarrow> Inl (Corrupt (''no valid manifest (primary: '' @ display_error primary_err @ '')''))))"

definition manifest_previous :: "'j mf_env \<Rightarrow> directory \<Rightarrow> 'j manifest option" where
  "manifest_previous M d =
     (case read_and_decode (manifest_decode M) MANIFEST_PREV_FILE d of Inr m \<Rightarrow> Some m | Inl _ \<Rightarrow> None)"

definition refresh_previous :: "'j mf_env \<Rightarrow> 'j manifest \<Rightarrow> fs \<Rightarrow> publish_outcome io" where
  "refresh_previous M m s =
     (case write_synced MANIFEST_PREV_TMP_FILE (manifest_encode M m) s of
        (s, Inl e) \<Rightarrow> (s, Inr (SyncFailed (as_io e)))
      | (s, Inr _) \<Rightarrow>
          (case fs_rename MANIFEST_PREV_TMP_FILE MANIFEST_PREV_FILE s of
             (s, Inl e) \<Rightarrow> (s, Inr (SyncFailed (as_io e)))
           | (s, Inr _) \<Rightarrow>
               (case fsync_dir s of
                  (s, Inl e) \<Rightarrow> (s, Inr (SyncFailed (as_io e)))
                | (s, Inr _) \<Rightarrow> (s, Inr Complete))))"

definition manifest_publish :: "'j mf_env \<Rightarrow> 'j manifest \<Rightarrow> fs \<Rightarrow> publish_outcome io" where
  "manifest_publish M m s =
     fs_bind (write_synced MANIFEST_TMP_FILE (manifest_encode M m) s) (\<lambda>_ s.
     fs_bind (if fs_exists MANIFEST_FILE s then fs_rename MANIFEST_FILE MANIFEST_PREV_FILE s else (s, Inr ())) (\<lambda>_ s.
     case fs_rename MANIFEST_TMP_FILE MANIFEST_FILE s of
       (s, Inl e) \<Rightarrow>
         (if fs_exists MANIFEST_PREV_FILE s
          then fst (fsync_dir (fst (fs_rename MANIFEST_PREV_FILE MANIFEST_FILE s)))
          else s, Inl e)
     | (s, Inr _) \<Rightarrow>
         (case fsync_dir s of
            (s, Inl e) \<Rightarrow> (s, Inr (SyncFailed (as_io e)))
          | (s, Inr _) \<Rightarrow> refresh_previous M m s)))"

definition manifest_heal :: "'j mf_env \<Rightarrow> 'j manifest \<Rightarrow> fs \<Rightarrow> publish_outcome io" where
  "manifest_heal M m s =
     (case fs_remove MANIFEST_FILE s of
        (Inl e, s) \<Rightarrow> (s, Inl e)
      | (Inr _, s) \<Rightarrow>
          fs_bind (write_synced MANIFEST_TMP_FILE (manifest_encode M m) s) (\<lambda>_ s.
          fs_bind (fs_rename MANIFEST_TMP_FILE MANIFEST_FILE s) (\<lambda>_ s.
          case fsync_dir s of
            (s, Inl e) \<Rightarrow> (s, Inr (SyncFailed (as_io e)))
          | (s, Inr _) \<Rightarrow> refresh_previous M m s)))"

section \<open>The catalog mirror\<close>

definition catalog_load :: "'j mf_env \<Rightarrow> directory \<Rightarrow> 'j catalog result" where
  "catalog_load M d =
     rbind (fs_read d CATALOG_FILE) (\<lambda>bs.
     rbind (map_err (\<lambda>e. Corrupt (''invalid catalog: '' @ e)) (from_slice (me_catalog M) bs)) (\<lambda>ca.
     rbind (validate_catalog (me_sys M) ca) (\<lambda>_. Inr ca)))"

definition catalog_save :: "'j mf_env \<Rightarrow> 'j catalog \<Rightarrow> fs \<Rightarrow> unit io" where
  "catalog_save M ca s =
     fs_bind (write_synced CATALOG_TMP_FILE (to_vec (me_catalog M) ca) s) (\<lambda>_ s.
     rename_synced CATALOG_TMP_FILE CATALOG_FILE s)"

section \<open>Opening\<close>

text \<open>The manifest part of \<open>Database::open\<close>; \<open>legacy\<close> is what the probe of the catalog mirror for
  definitions of an older form answered.\<close>

definition sync_failed :: "string \<Rightarrow> publish_outcome io \<Rightarrow> unit io" where
  "sync_failed what r =
     fs_bind r (\<lambda>outcome s. case outcome of Complete \<Rightarrow> (s, Inr ()) | SyncFailed e \<Rightarrow> (s, Inl (CommitUnknown (what @ e))))"

definition open_manifest :: "'j ext \<Rightarrow> 'j mf_env \<Rightarrow> bool \<Rightarrow> bool \<Rightarrow> wal_dir \<Rightarrow> fs \<Rightarrow> ('j manifest \<times> 'j catalog) io" where
  "open_manifest E M ro legacy wals s =
     fs_bind (s, manifest_load M (fs_dir s)) (\<lambda>(m, used_prev) s.
     fs_bind (s, validate_wal_chain E wals (mf_wal_id m) (mf_required_wal_id m) (mf_committed_version m)) (\<lambda>_ s.
     fs_bind (s, case mf_catalog m of Some ca \<Rightarrow> Inr ca | None \<Rightarrow> catalog_load M (fs_dir s)) (\<lambda>ca s.
     fs_bind (if used_prev \<and> \<not> ro
              then sync_failed ''fallback manifest was restored, but syncing its directory failed: '' (manifest_heal M m s)
              else (s, Inr ())) (\<lambda>_ s.
     fs_bind (if \<not> ro \<and> (mf_catalog m = None \<or> legacy)
              then fs_bind (catalog_save M ca s) (\<lambda>_ s.
                   fs_bind (sync_failed ''catalog migration was published, but syncing its directory failed: ''
                     (manifest_publish M (m\<lparr>mf_catalog := Some ca\<rparr>) s)) (\<lambda>_ s. (s, Inr (m\<lparr>mf_catalog := Some ca\<rparr>))))
              else (s, Inr m)) (\<lambda>m s.
     fs_bind (if \<not> ro \<and> (case manifest_previous M (fs_dir s) of None \<Rightarrow> True
                           | Some previous \<Rightarrow> manifest_encode M previous \<noteq> manifest_encode M m)
              then sync_failed ''manifest fallback refresh was incomplete: '' (refresh_previous M m s)
              else (s, Inr ())) (\<lambda>_ s.
     (s, Inr (m, ca))))))))"

section \<open>Round trip\<close>

lemma manifest_decode_encode:
  assumes "manifest_ok M m"
  shows "manifest_decode M (manifest_encode M m) = Inr m"
proof -
  let ?json = "to_vec (me_manifest M) m"
  have "unat (of_nat (length ?json) :: u32) = length ?json"
    using assms by (simp add: manifest_ok_def unat_of_nat_u32)
  moreover have "get_range (manifest_encode M m) 16 (16 + length ?json) = Some ?json"
    by (simp add: get_range_def manifest_encode_def Let_def)
  moreover have "\<not> list_ex (\<lambda>(_, v). sint v < 0) (mf_identity_high_water m)"
    using assms by (auto simp: manifest_ok_def list_ex_iff)
  ultimately show ?thesis
    using assms
    by (auto simp: manifest_decode_def manifest_ok_def require_def map_err_def manifest_encode_def Let_def ok_or_def
        split: option.splits)
qed

interpretation mf: document "manifest_encode M" "manifest_decode M" "manifest_ok M" for M
  by unfold_locales (rule manifest_decode_encode)

section \<open>Publication is atomic\<close>

text \<open>What a reader of a directory finds, from whichever copy.\<close>

definition presents :: "'j mf_env \<Rightarrow> directory \<Rightarrow> 'j manifest \<Rightarrow> bool" where
  "presents M d m \<longleftrightarrow> (\<exists>used_prev. manifest_load M d = Inr (m, used_prev))"

abbreviation primary_reads :: "'j mf_env \<Rightarrow> directory \<Rightarrow> 'j manifest \<Rightarrow> bool" where
  "primary_reads M d m \<equiv> read_and_decode (manifest_decode M) MANIFEST_FILE d = Inr m"

lemma presents_primary: "primary_reads M d m \<Longrightarrow> presents M d m"
  by (auto simp: presents_def manifest_load_def)

lemma presents_new: "d MANIFEST_FILE = Some (manifest_encode M m) \<Longrightarrow> manifest_ok M m \<Longrightarrow> presents M d m"
  by (rule presents_primary) (rule mf.read_at_same)

lemma presents_fallback:
  "d MANIFEST_FILE = None \<Longrightarrow> read_and_decode (manifest_decode M) MANIFEST_PREV_FILE d = Inr m \<Longrightarrow> presents M d m"
  by (auto simp: presents_def manifest_load_def read_and_decode_def [of _ MANIFEST_FILE] fs_read_def ok_or_def)

lemma presents_cong:
  "d MANIFEST_FILE = d' MANIFEST_FILE \<Longrightarrow> d MANIFEST_PREV_FILE = d' MANIFEST_PREV_FILE \<Longrightarrow> presents M d m = presents M d' m"
  unfolding presents_def manifest_load_def
  by (simp only: mf.read_at_cong [of d MANIFEST_FILE d' M] mf.read_at_cong [of d MANIFEST_PREV_FILE d' M])

lemma refresh_previous_effect:
  assumes run: "refresh_previous M m s = (s', r)" and now: "fs_dir s MANIFEST_FILE = Some bs"
    and seen: "seen_all P s" and P: "\<And>d. d MANIFEST_FILE = Some bs \<Longrightarrow> P d"
  shows "seen_all P s' \<and> fs_dir s' MANIFEST_FILE = Some bs
    \<and> (\<exists>outcome. r = Inr outcome \<and> (outcome = Complete \<longrightarrow> fs_dir s' MANIFEST_PREV_FILE = Some (manifest_encode M m)))"
proof -
  obtain s1 r1 where w: "write_synced MANIFEST_PREV_TMP_FILE (manifest_encode M m) s = (s1, r1)" by fastforce
  have w': "seen_all P s1" "fs_dir s1 MANIFEST_FILE = Some bs"
    "r1 = Inr () \<Longrightarrow> fs_dir s1 MANIFEST_PREV_TMP_FILE = Some (manifest_encode M m)"
    using write_synced_effect [OF w seen] now P by (auto 0 3)
  show ?thesis
  proof (cases r1)
    case (Inl e)
    with run w w' show ?thesis by (auto simp: refresh_previous_def)
  next
    case (Inr u)
    obtain s2 r2 where rn: "fs_rename MANIFEST_PREV_TMP_FILE MANIFEST_PREV_FILE s1 = (s2, r2)" by fastforce
    have rn': "seen_all P s2" "fs_dir s2 MANIFEST_FILE = Some bs"
      "r2 = Inr () \<Longrightarrow> fs_dir s2 MANIFEST_PREV_FILE = Some (manifest_encode M m)"
      using fs_rename_effect [OF rn w'(1)] w' Inr P by (cases "r2 = Inr ()"; auto)+
    obtain s3 r3 where y: "fsync_dir s2 = (s3, r3)" by fastforce
    show ?thesis
      using run w rn y Inr rn' fsync_dir_effect [OF y, of P]
      by (cases r2; cases r3) (auto simp: refresh_previous_def)
  qed
qed

text \<open>From the rename of the new primary on: the new manifest is visible, and complete publication
  leaves it in both copies.\<close>

lemma settle_effect:
  assumes run: "(case fsync_dir s of (s, Inl e) \<Rightarrow> (s, Inr (SyncFailed (as_io e))) | (s, Inr _) \<Rightarrow> refresh_previous M m s) = (s', r)"
    and now: "fs_dir s MANIFEST_FILE = Some (manifest_encode M m)"
    and seen: "seen_all P s" and P: "\<And>d. d MANIFEST_FILE = Some (manifest_encode M m) \<Longrightarrow> P d"
  shows "seen_all P s' \<and> fs_dir s' MANIFEST_FILE = Some (manifest_encode M m)
    \<and> (\<exists>outcome. r = Inr outcome \<and> (outcome = Complete \<longrightarrow> fs_dir s' MANIFEST_PREV_FILE = Some (manifest_encode M m)))"
proof -
  obtain s1 r1 where y: "fsync_dir s = (s1, r1)" by fastforce
  note y' = fsync_dir_effect [OF y, of P]
  show ?thesis
  proof (cases r1)
    case (Inl e)
    with run y y' now seen show ?thesis by auto
  next
    case (Inr u)
    with run y have "refresh_previous M m s1 = (s', r)" by simp
    from refresh_previous_effect [OF this, of "manifest_encode M m" P] y' now seen P show ?thesis by simp
  qed
qed

lemma rotate_effect:
  assumes run: "(if fs_exists MANIFEST_FILE s then fs_rename MANIFEST_FILE MANIFEST_PREV_FILE s else (s, Inr ())) = (s', r)"
    and old: "primary_reads M (fs_dir s) old" and seen: "seen_all P s"
    and Pold: "\<And>d. presents M d old \<Longrightarrow> P d"
  shows "seen_all P s'
    \<and> (r = Inr () \<longrightarrow> fs_dir s' MANIFEST_FILE = None \<and> fs_dir s' MANIFEST_TMP_FILE = fs_dir s MANIFEST_TMP_FILE
         \<and> read_and_decode (manifest_decode M) MANIFEST_PREV_FILE (fs_dir s') = Inr old)
    \<and> (r \<noteq> Inr () \<longrightarrow> fs_dir s' = fs_dir s)"
proof -
  from old have e: "fs_exists MANIFEST_FILE s"
    by (auto simp: fs_exists_def read_and_decode_def fs_read_def ok_or_def split: option.splits)
  with run have rn: "fs_rename MANIFEST_FILE MANIFEST_PREV_FILE s = (s', r)" by simp
  show ?thesis
  proof (cases "r = Inr ()")
    case True
    with fs_rename_effect [OF rn seen] obtain bs where bs: "fs_dir s MANIFEST_FILE = Some bs"
      and d: "fs_dir s' = (fs_dir s)(MANIFEST_FILE := None, MANIFEST_PREV_FILE \<mapsto> bs)"
      and P: "presents M (fs_dir s') old \<longrightarrow> seen_all P s'" using Pold by auto
    have prev: "read_and_decode (manifest_decode M) MANIFEST_PREV_FILE (fs_dir s') = Inr old"
      using old bs d by (simp add: read_and_decode_def fs_read_def ok_or_def)
    with presents_fallback [of "fs_dir s'" M old] d P True Pold show ?thesis by simp
  next
    case False
    with fs_rename_effect [OF rn seen] show ?thesis by blast
  qed
qed

text \<open>Restoring the old primary after the new one could not be renamed into place.\<close>

lemma restore_effect:
  assumes old: "read_and_decode (manifest_decode M) MANIFEST_PREV_FILE (fs_dir s) = Inr old"
    and none: "fs_dir s MANIFEST_FILE = None" and seen: "seen_all P s"
    and Pold: "\<And>d. presents M d old \<Longrightarrow> P d"
  shows "seen_all P (fst (fsync_dir (fst (fs_rename MANIFEST_PREV_FILE MANIFEST_FILE s))))
    \<and> presents M (fs_dir (fst (fsync_dir (fst (fs_rename MANIFEST_PREV_FILE MANIFEST_FILE s))))) old"
proof -
  obtain s1 r1 where rn: "fs_rename MANIFEST_PREV_FILE MANIFEST_FILE s = (s1, r1)" by fastforce
  have "seen_all P s1 \<and> presents M (fs_dir s1) old"
  proof (cases "r1 = Inr ()")
    case True
    with fs_rename_effect [OF rn seen] obtain bs where bs: "fs_dir s MANIFEST_PREV_FILE = Some bs"
      and d: "fs_dir s1 = (fs_dir s)(MANIFEST_PREV_FILE := None, MANIFEST_FILE \<mapsto> bs)"
      and P: "P (fs_dir s1) \<longrightarrow> seen_all P s1" by auto
    have "primary_reads M (fs_dir s1) old"
      using old bs d by (simp add: read_and_decode_def fs_read_def ok_or_def)
    with presents_primary P Pold show ?thesis by blast
  next
    case False
    with fs_rename_effect [OF rn seen] presents_fallback [OF none old] show ?thesis by simp
  qed
  moreover obtain s2 r2 where y: "fsync_dir s1 = (s2, r2)" by fastforce
  ultimately show ?thesis using fsync_dir_effect [OF y, of P] by (simp add: rn y)
qed

lemma publish_effect:
  assumes run: "manifest_publish M m s = (s', r)" and ok: "manifest_ok M m"
    and old: "primary_reads M (fs_dir s) old" and seen: "seen_all P s"
    and Pold: "\<And>d. presents M d old \<Longrightarrow> P d" and Pnew: "\<And>d. presents M d m \<Longrightarrow> P d"
  shows "seen_all P s'
    \<and> (\<forall>outcome. r = Inr outcome \<longrightarrow> fs_dir s' MANIFEST_FILE = Some (manifest_encode M m)
         \<and> (outcome = Complete \<longrightarrow> fs_dir s' MANIFEST_PREV_FILE = Some (manifest_encode M m)))
    \<and> (\<forall>e. r = Inl e \<longrightarrow> presents M (fs_dir s') old)"
proof -
  let ?bs = "manifest_encode M m"
  have shown: "primary_reads M ((fs_dir s)(MANIFEST_TMP_FILE \<mapsto> b)) old" for b
    using old by (simp add: read_and_decode_def fs_read_def)
  obtain s1 r1 where w: "write_synced MANIFEST_TMP_FILE ?bs s = (s1, r1)" by fastforce
  note w' = write_synced_effect [OF w seen, OF Pold, OF presents_primary [OF shown]]
  show ?thesis
  proof (cases r1)
    case (Inl e)
    with w' have "presents M (fs_dir s1) old"
      using presents_primary [OF old] presents_primary [OF shown] by auto
    with run w w' Inl show ?thesis by (auto simp: manifest_publish_def fs_bind_def)
  next
    case Inr1: (Inr u1)
    then have d1: "fs_dir s1 = (fs_dir s)(MANIFEST_TMP_FILE \<mapsto> ?bs)" and seen1: "seen_all P s1" using w' by simp_all
    obtain s2 r2 where rot: "(if fs_exists MANIFEST_FILE s1 then fs_rename MANIFEST_FILE MANIFEST_PREV_FILE s1 else (s1, Inr ()))
        = (s2, r2)" by fastforce
    note rot' = rotate_effect [OF rot shown [of ?bs, folded d1] seen1 Pold]
    show ?thesis
    proof (cases r2)
      case (Inl e)
      with run w rot rot' Inr1 presents_primary [OF shown [of ?bs, folded d1]] show ?thesis
        by (auto simp: manifest_publish_def fs_bind_def)
    next
      case Inr2: (Inr u2)
      then have none: "fs_dir s2 MANIFEST_FILE = None" and tmp2: "fs_dir s2 MANIFEST_TMP_FILE = Some ?bs"
        and prev: "read_and_decode (manifest_decode M) MANIFEST_PREV_FILE (fs_dir s2) = Inr old"
        and seen2: "seen_all P s2" using rot' d1 by auto
      obtain s3 r3 where rn: "fs_rename MANIFEST_TMP_FILE MANIFEST_FILE s2 = (s3, r3)" by fastforce
      note rn' = fs_rename_effect [OF rn seen2]
      show ?thesis
      proof (cases r3)
        case (Inl e)
        with rn' have same: "fs_dir s3 = fs_dir s2" and seen3: "seen_all P s3" by auto
        from prev have "fs_exists MANIFEST_PREV_FILE s3"
          by (auto simp: same fs_exists_def read_and_decode_def fs_read_def ok_or_def split: option.splits)
        with run w rot rn Inr1 Inr2 Inl have "s' = fst (fsync_dir (fst (fs_rename MANIFEST_PREV_FILE MANIFEST_FILE s3)))"
          "r = Inl e" by (auto simp: manifest_publish_def fs_bind_def)
        with restore_effect [of M s3 old P] prev none seen3 Pold show ?thesis by (simp add: same)
      next
        case Inr3: (Inr u3)
        with rn' tmp2 have now: "fs_dir s3 MANIFEST_FILE = Some ?bs" by auto
        with rn' Inr3 presents_new [OF _ ok] Pnew have seen3: "seen_all P s3" by auto
        from run w rot rn Inr1 Inr2 Inr3 have
          "(case fsync_dir s3 of (s, Inl e) \<Rightarrow> (s, Inr (SyncFailed (as_io e))) | (s, Inr _) \<Rightarrow> refresh_previous M m s) = (s', r)"
          by (simp add: manifest_publish_def fs_bind_def)
        from settle_effect [OF this now seen3] presents_new [OF _ ok] Pnew show ?thesis by auto
      qed
    qed
  qed
qed

lemma heal_effect:
  assumes run: "manifest_heal M m s = (s', r)" and ok: "manifest_ok M m"
    and old: "read_and_decode (manifest_decode M) MANIFEST_PREV_FILE (fs_dir s) = Inr old"
    and now: "presents M (fs_dir s) old" and seen: "seen_all P s"
    and Pold: "\<And>d. presents M d old \<Longrightarrow> P d" and Pnew: "\<And>d. presents M d m \<Longrightarrow> P d"
  shows "seen_all P s'
    \<and> (\<forall>outcome. r = Inr outcome \<longrightarrow> fs_dir s' MANIFEST_FILE = Some (manifest_encode M m)
         \<and> (outcome = Complete \<longrightarrow> fs_dir s' MANIFEST_PREV_FILE = Some (manifest_encode M m)))
    \<and> (\<forall>e. r = Inl e \<longrightarrow> presents M (fs_dir s') old)"
proof -
  let ?bs = "manifest_encode M m"
  let ?d = "(fs_dir s)(MANIFEST_FILE := None)"
  have shown: "presents M (?d(MANIFEST_TMP_FILE := x)) old" for x
    by (rule presents_fallback) (use old in \<open>simp_all add: read_and_decode_def fs_read_def\<close>)
  have shown0: "presents M ?d old" by (rule presents_fallback) (use old in \<open>simp_all add: read_and_decode_def fs_read_def\<close>)
  obtain s1 r1 where rm: "fs_remove MANIFEST_FILE s = (r1, s1)" by fastforce
  have rm': "seen_all P s1" "r1 = Inr b \<Longrightarrow> fs_dir s1 = ?d" "r1 = Inl e \<Longrightarrow> fs_dir s1 = fs_dir s" for b e
    using fs_remove_effect [OF rm seen] shown0 Pold by blast+
  show ?thesis
  proof (cases r1)
    case (Inl e)
    with run rm rm' now show ?thesis by (auto simp: manifest_heal_def)
  next
    case Inr1: (Inr b)
    then have d1: "fs_dir s1 = ?d" using rm' by simp
    obtain s2 r2 where w: "write_synced MANIFEST_TMP_FILE ?bs s1 = (s2, r2)" by fastforce
    note w' = write_synced_effect [OF w rm'(1), OF Pold, unfolded d1, OF shown]
    show ?thesis
    proof (cases r2)
      case (Inl e)
      then have "presents M (fs_dir s2) old" using w' shown shown0 by auto
      with run rm w w' Inr1 Inl show ?thesis by (auto simp: manifest_heal_def fs_bind_def)
    next
      case Inr2: (Inr u)
      then have d2: "fs_dir s2 = ?d(MANIFEST_TMP_FILE \<mapsto> ?bs)" and seen2: "seen_all P s2" using w' by auto
      obtain s3 r3 where rn: "fs_rename MANIFEST_TMP_FILE MANIFEST_FILE s2 = (s3, r3)" by fastforce
      note rn' = fs_rename_effect [OF rn seen2]
      show ?thesis
      proof (cases r3)
        case (Inl e)
        with run rm w rn rn' Inr1 Inr2 d2 shown show ?thesis by (auto simp: manifest_heal_def fs_bind_def)
      next
        case Inr3: (Inr u3)
        with rn' d2 have here: "fs_dir s3 MANIFEST_FILE = Some ?bs" by auto
        with rn' Inr3 presents_new [OF _ ok] Pnew have seen3: "seen_all P s3" by auto
        from run rm w rn Inr1 Inr2 Inr3 have
          "(case fsync_dir s3 of (s, Inl e) \<Rightarrow> (s, Inr (SyncFailed (as_io e))) | (s, Inr _) \<Rightarrow> refresh_previous M m s) = (s', r)"
          by (simp add: manifest_heal_def fs_bind_def)
        from settle_effect [OF this here seen3] presents_new [OF _ ok] Pnew show ?thesis by auto
      qed
    qed
  qed
qed

section \<open>Opening repairs the copies\<close>

text \<open>Saving the mirror touches neither copy of the manifest.\<close>

lemma catalog_save_effect:
  assumes run: "catalog_save M ca s = (s', r)" and seen: "seen_all P s"
    and P: "\<And>d. d MANIFEST_FILE = fs_dir s MANIFEST_FILE \<Longrightarrow> d MANIFEST_PREV_FILE = fs_dir s MANIFEST_PREV_FILE \<Longrightarrow> P d"
  shows "seen_all P s' \<and> fs_dir s' MANIFEST_FILE = fs_dir s MANIFEST_FILE
    \<and> fs_dir s' MANIFEST_PREV_FILE = fs_dir s MANIFEST_PREV_FILE"
proof -
  obtain s1 r1 where w: "write_synced CATALOG_TMP_FILE (to_vec (me_catalog M) ca) s = (s1, r1)" by fastforce
  have w': "seen_all P s1" "fs_dir s1 MANIFEST_FILE = fs_dir s MANIFEST_FILE"
    "fs_dir s1 MANIFEST_PREV_FILE = fs_dir s MANIFEST_PREV_FILE"
    using write_synced_effect [OF w seen] P by (cases "r1 = Inr ()"; auto)+
  obtain s2 r2 where rn: "fs_rename CATALOG_TMP_FILE CATALOG_FILE s1 = (s2, r2)" by fastforce
  have rn': "seen_all P s2" "fs_dir s2 MANIFEST_FILE = fs_dir s MANIFEST_FILE"
    "fs_dir s2 MANIFEST_PREV_FILE = fs_dir s MANIFEST_PREV_FILE"
    using fs_rename_effect [OF rn w'(1)] w' P by (cases "r2 = Inr ()"; auto)+
  obtain s3 r3 where y: "fsync_dir s2 = (s3, r3)" by fastforce
  show ?thesis
    using run w w' rn rn' y fsync_dir_effect [OF y, of P]
    by (cases r1; cases r2) (auto simp: catalog_save_def rename_synced_def fs_bind_def)
qed

lemma sync_failed_simps [simp]:
  "fst (sync_failed what r) = fst r"
  "sync_failed what r = (s, Inr ()) \<longleftrightarrow> r = (s, Inr Complete)"
  by (cases r; cases "snd r"; auto simp: sync_failed_def fs_bind_def split: publish_outcome.splits)+

lemma manifest_load_cases:
  assumes "manifest_load M d = Inr (m, used_prev)"
  shows "used_prev \<Longrightarrow> read_and_decode (manifest_decode M) MANIFEST_PREV_FILE d = Inr m"
    and "\<not> used_prev \<Longrightarrow> primary_reads M d m" and "presents M d m"
  using assms by (auto simp: manifest_load_def presents_def split: sum.splits)

text \<open>The three steps of a writable open after the manifest \<open>m\<close> was loaded. Each keeps the copies
  readable at every moment.\<close>

lemma heal_step:
  assumes load: "manifest_load M (fs_dir s) = Inr (m, used_prev)" and ok: "manifest_ok M m"
    and seen: "seen_all (\<lambda>d. presents M d m \<or> presents M d m') s"
    and run: "(if used_prev then sync_failed what (manifest_heal M m s) else (s, Inr ())) = (s', r)"
  shows "seen_all (\<lambda>d. presents M d m \<or> presents M d m') s' \<and> (r = Inr () \<longrightarrow> primary_reads M (fs_dir s') m)"
proof (cases used_prev)
  case True
  obtain s1 r1 where h: "manifest_heal M m s = (s1, r1)" by fastforce
  have "seen_all (\<lambda>d. presents M d m \<or> presents M d m') s1
    \<and> (\<forall>outcome. r1 = Inr outcome \<longrightarrow> fs_dir s1 MANIFEST_FILE = Some (manifest_encode M m))"
    using heal_effect [OF h ok manifest_load_cases(1) [OF load True] manifest_load_cases(3) [OF load] seen] by blast
  moreover have "s' = s1" "r = Inr () \<Longrightarrow> r1 = Inr Complete"
    using run True sync_failed_simps(1) [of what "manifest_heal M m s"] sync_failed_simps(2) [of what "(s1, r1)" s1] h
    by (auto simp del: sync_failed_simps)
  ultimately show ?thesis using mf.read_at_same [OF _ ok] by auto
next
  case False
  with run seen manifest_load_cases(2) [OF load] show ?thesis by auto
qed

lemma migrate_step:
  assumes now: "primary_reads M (fs_dir s) m" and ok: "manifest_ok M m" "manifest_ok M (m\<lparr>mf_catalog := Some ca\<rparr>)"
    and seen: "seen_all (\<lambda>d. presents M d m \<or> presents M d (m\<lparr>mf_catalog := Some ca\<rparr>)) s"
    and run: "(if migrate then fs_bind (catalog_save M ca s) (\<lambda>_ s. fs_bind (sync_failed what
        (manifest_publish M (m\<lparr>mf_catalog := Some ca\<rparr>) s)) (\<lambda>_ s. (s, Inr (m\<lparr>mf_catalog := Some ca\<rparr>)))) else (s, Inr m)) = (s', r)"
  shows "seen_all (\<lambda>d. presents M d m \<or> presents M d (m\<lparr>mf_catalog := Some ca\<rparr>)) s'
    \<and> (\<forall>m'. r = Inr m' \<longrightarrow> primary_reads M (fs_dir s') m' \<and> manifest_ok M m' \<and> (m' = m \<or> m' = m\<lparr>mf_catalog := Some ca\<rparr>))"
proof (cases migrate)
  case True
  let ?m = "m\<lparr>mf_catalog := Some ca\<rparr>"
  let ?P = "\<lambda>d. presents M d m \<or> presents M d ?m"
  obtain s1 r1 where c: "catalog_save M ca s = (s1, r1)" by fastforce
  have c': "seen_all ?P s1" "fs_dir s1 MANIFEST_FILE = fs_dir s MANIFEST_FILE"
    using catalog_save_effect [OF c seen] presents_cong [of _ "fs_dir s" M m] presents_primary [OF now] by auto
  then have now1: "primary_reads M (fs_dir s1) m" using now by (simp add: read_and_decode_def fs_read_def)
  obtain s2 r2 where p: "manifest_publish M ?m s1 = (s2, r2)" by fastforce
  have p': "seen_all ?P s2" "\<And>outcome. r2 = Inr outcome \<Longrightarrow> primary_reads M (fs_dir s2) ?m"
    using publish_effect [OF p ok(2) now1 c'(1)] mf.read_at_same [OF _ ok(2)] by auto
  show ?thesis
    using run True c p p' c'(1) ok(2)
    by (cases r1; cases r2) (auto simp: fs_bind_def sync_failed_def split: publish_outcome.splits)
qed (use run now seen ok in auto)

lemma refresh_step:
  assumes now: "primary_reads M (fs_dir s) m" and ok: "manifest_ok M m" and seen: "seen_all P s"
    and P: "\<And>d. presents M d m \<Longrightarrow> P d"
    and run: "(if (case manifest_previous M (fs_dir s) of None \<Rightarrow> True
          | Some previous \<Rightarrow> manifest_encode M previous \<noteq> manifest_encode M m)
        then sync_failed what (refresh_previous M m s) else (s, Inr ())) = (s', r)"
  shows "seen_all P s' \<and> (r = Inr () \<longrightarrow> primary_reads M (fs_dir s') m
    \<and> (\<exists>p. manifest_previous M (fs_dir s') = Some p \<and> manifest_encode M p = manifest_encode M m))"
proof (cases "case manifest_previous M (fs_dir s) of None \<Rightarrow> True | Some previous \<Rightarrow> manifest_encode M previous \<noteq> manifest_encode M m")
  case True
  from now obtain bs where bs: "fs_dir s MANIFEST_FILE = Some bs" "manifest_decode M bs = Inr m"
    by (auto simp: read_and_decode_def fs_read_def ok_or_def split: option.splits)
  then have reads: "primary_reads M d m" if "d MANIFEST_FILE = Some bs" for d
    using that by (simp add: read_and_decode_def fs_read_def ok_or_def)
  obtain s1 r1 where f: "refresh_previous M m s = (s1, r1)" by fastforce
  have f': "seen_all P s1" "primary_reads M (fs_dir s1) m"
    "r1 = Inr Complete \<Longrightarrow> fs_dir s1 MANIFEST_PREV_FILE = Some (manifest_encode M m)"
    using refresh_previous_effect [OF f bs(1) seen] reads P presents_primary by blast+
  have "manifest_previous M (fs_dir s1) = Some m" if "r1 = Inr Complete"
    using mf.read_at_same [of "fs_dir s1" MANIFEST_PREV_FILE M m] f'(3) [OF that] ok by (simp add: manifest_previous_def)
  with run True f f' show ?thesis
    by (cases r1) (auto simp: fs_bind_def sync_failed_def split: publish_outcome.splits)
next
  case False
  with run now seen show ?thesis by (auto split: option.splits)
qed

lemma open_manifest_effect:
  assumes load: "manifest_load M (fs_dir s) = Inr (m, used_prev)" and ok: "manifest_ok M m"
    and cat: "\<And>ca. (case mf_catalog m of Some ca \<Rightarrow> Inr ca | None \<Rightarrow> catalog_load M (fs_dir s)) = Inr ca \<Longrightarrow>
      ca = ca0 \<and> manifest_ok M (m\<lparr>mf_catalog := Some ca\<rparr>)"
    and seen: "seen_all (\<lambda>d. presents M d m \<or> presents M d (m\<lparr>mf_catalog := Some ca0\<rparr>)) s"
    and run: "open_manifest E M False legacy wals s = (s', r)"
  shows "seen_all (\<lambda>d. presents M d m \<or> presents M d (m\<lparr>mf_catalog := Some ca0\<rparr>)) s'
    \<and> (\<forall>m' ca. r = Inr (m', ca) \<longrightarrow> primary_reads M (fs_dir s') m'
         \<and> (\<exists>p. manifest_previous M (fs_dir s') = Some p \<and> manifest_encode M p = manifest_encode M m'))"
proof (cases "\<exists>ids ca. validate_wal_chain E wals (mf_wal_id m) (mf_required_wal_id m) (mf_committed_version m) = Inr ids
    \<and> (case mf_catalog m of Some ca \<Rightarrow> Inr ca | None \<Rightarrow> catalog_load M (fs_dir s)) = Inr ca")
  case False
  then have "s' = s \<and> (\<exists>e. r = Inl e)"
    using run by (auto simp: open_manifest_def load fs_bind_def split: sum.splits)
  with seen show ?thesis by auto
next
  case True
  then obtain ids ca where w: "validate_wal_chain E wals (mf_wal_id m) (mf_required_wal_id m) (mf_committed_version m) = Inr ids"
    and ca: "(case mf_catalog m of Some ca \<Rightarrow> Inr ca | None \<Rightarrow> catalog_load M (fs_dir s)) = Inr ca" by blast
  with cat have ca0: "ca = ca0" and ok': "manifest_ok M (m\<lparr>mf_catalog := Some ca0\<rparr>)" by auto
  let ?m = "m\<lparr>mf_catalog := Some ca0\<rparr>"
  let ?P = "\<lambda>d. presents M d m \<or> presents M d ?m"
  obtain s1 r1 where h: "(if used_prev then sync_failed ''fallback manifest was restored, but syncing its directory failed: ''
      (manifest_heal M m s) else (s, Inr ())) = (s1, r1)" by fastforce
  note h' = heal_step [OF load ok seen h]
  obtain s2 r2 where g: "(if mf_catalog m = None \<or> legacy then fs_bind (catalog_save M ca0 s1) (\<lambda>_ s. fs_bind (sync_failed
      ''catalog migration was published, but syncing its directory failed: '' (manifest_publish M ?m s)) (\<lambda>_ s. (s, Inr ?m)))
      else (s1, Inr m)) = (s2, r2)" by fastforce
  have start: "open_manifest E M False legacy wals s = (case r1 of Inl e \<Rightarrow> (s1, Inl e) | Inr _ \<Rightarrow>
    (case r2 of Inl e \<Rightarrow> (s2, Inl e) | Inr m' \<Rightarrow>
      fs_bind (if (case manifest_previous M (fs_dir s2) of None \<Rightarrow> True
            | Some previous \<Rightarrow> manifest_encode M previous \<noteq> manifest_encode M m')
        then sync_failed ''manifest fallback refresh was incomplete: '' (refresh_previous M m' s2) else (s2, Inr ()))
        (\<lambda>_ s. (s, Inr (m', ca0)))))"
    using h g by (cases r1; cases r2) (simp_all add: open_manifest_def load fs_bind_def w ca ca0)
  show ?thesis
  proof (cases r1)
    case (Inl e)
    with start run h' show ?thesis by auto
  next
    case Inr1: (Inr u)
    with h' have "primary_reads M (fs_dir s1) m" "seen_all ?P s1" by auto
    note g' = migrate_step [OF this(1) ok ok' this(2) g]
    show ?thesis
    proof (cases r2)
      case (Inl e)
      with start run g' Inr1 show ?thesis by auto
    next
      case Inr2: (Inr m')
      obtain s3 r3 where f: "(if (case manifest_previous M (fs_dir s2) of None \<Rightarrow> True
            | Some previous \<Rightarrow> manifest_encode M previous \<noteq> manifest_encode M m')
        then sync_failed ''manifest fallback refresh was incomplete: '' (refresh_previous M m' s2) else (s2, Inr ())) = (s3, r3)"
        by fastforce
      have "primary_reads M (fs_dir s2) m'" "manifest_ok M m'" "seen_all ?P s2" "\<And>d. presents M d m' \<Longrightarrow> ?P d"
        using g' Inr2 by auto
      note f' = refresh_step [OF this f]
      with start run f Inr1 Inr2 show ?thesis by (cases r3) (auto simp: fs_bind_def)
    qed
  qed
qed

section \<open>Properties\<close>

text \<open>A manifest serialized by its version alone, for the witnesses.\<close>

definition sample_env :: "bytes mf_env" where
  "sample_env = \<lparr>me_crc = (\<lambda>bs. of_nat (length bs)),
     me_manifest = \<lparr>to_vec = (\<lambda>m. [ucast (mf_committed_version m)]),
       from_slice = (\<lambda>bs. case bs of [b] \<Rightarrow> Inr (manifest_initial\<lparr>mf_committed_version := ucast b\<rparr>) | _ \<Rightarrow> Inl ''json'')\<rparr>,
     me_catalog = \<lparr>to_vec = (\<lambda>_. []), from_slice = (\<lambda>_. Inr catalog_new)\<rparr>, me_sys = sample_sys\<rparr>"

abbreviation sample_manifest :: "u64 \<Rightarrow> bytes manifest" where
  "sample_manifest v \<equiv> manifest_initial\<lparr>mf_committed_version := v\<rparr>"

lemma sample_manifest_ok: "manifest_ok sample_env (sample_manifest 7)" "manifest_ok sample_env (sample_manifest 8)"
  by (simp_all add: manifest_ok_def sample_env_def manifest_initial_def fits_u32_def format_version_is_readable_def
      validate_catalog_def catalog_new_def require_def)

text \<open>C23. Publishing a manifest is atomic: in whatever way the calls fail and wherever a crash stops
  them, a reader finds the manifest published before or the new one, from one of the two copies. When
  the publication reports success, the new manifest is the primary, and both copies when it reports it
  complete; when it reports an error, the old one is still found.\<close>

theorem manifest_publish_atomic:
  assumes "manifest_ok M m" and "read_and_decode (manifest_decode M) MANIFEST_FILE d = Inr old"
    and "manifest_publish M m (fs_start d script) = (s, r)"
  shows "(\<forall>d' \<in> set (fs_seen s). presents M d' old \<or> presents M d' m)
    \<and> (\<forall>outcome. r = Inr outcome \<longrightarrow> manifest_load M (fs_dir s) = Inr (m, False)
         \<and> (outcome = Complete \<longrightarrow> manifest_previous M (fs_dir s) = Some m))
    \<and> (\<forall>e. r = Inl e \<longrightarrow> presents M (fs_dir s) old)"
proof -
  have seen: "seen_all (\<lambda>d'. presents M d' old \<or> presents M d' m) (fs_start d script)"
    using presents_primary [OF assms(2)] by (simp add: seen_all_def fs_start_def)
  have d: "fs_dir (fs_start d script) = d" by (simp add: fs_start_def)
  note effect = publish_effect [OF assms(3,1), of old, unfolded d, OF assms(2) seen]
  show ?thesis
    using effect mf.read_at_same [of "fs_dir s" MANIFEST_FILE M m, OF _ assms(1)]
      mf.read_at_same [of "fs_dir s" MANIFEST_PREV_FILE M m, OF _ assms(1)]
    by (auto simp: seen_all_def manifest_load_def manifest_previous_def)
qed

lemmas fs_defs = fs_start_def fs_bind_def fs_outcome_def fs_pass_def fs_exists_def fs_read_def fs_create_def fs_write_all_def
  fs_sync_def fs_rename_def fs_remove_def write_synced_def fsync_dir_def ok_or_def

theorem manifest_publish_atomic_witness:
  "\<exists>s. manifest_publish sample_env (sample_manifest 8)
      (fs_start [MANIFEST_FILE \<mapsto> manifest_encode sample_env (sample_manifest 7)] [None, None, None, None, Some (0, ''disk'')]) = (s, Inl (Io ''disk''))
    \<and> presents sample_env (fs_dir s) (sample_manifest 7)"
proof -
  let ?d = "[MANIFEST_FILE \<mapsto> manifest_encode sample_env (sample_manifest 7)]"
  let ?script = "[None, None, None, None, Some (0, ''disk'')]"
  obtain s r where run: "manifest_publish sample_env (sample_manifest 8) (fs_start ?d ?script) = (s, r)" by fastforce
  have r: "r = Inl (Io ''disk'')"
    using run by (simp add: manifest_publish_def fs_defs split: if_splits)
  have "read_and_decode (manifest_decode sample_env) MANIFEST_FILE ?d = Inr (sample_manifest 7)"
    by (rule mf.read_at_same) (simp_all add: sample_manifest_ok)
  from manifest_publish_atomic [OF sample_manifest_ok(2) this run] r run show ?thesis by auto
qed

text \<open>C24. A writable open repairs the manifest: at every moment, also when a call fails, one of the copies
  presents the loaded manifest or the same with the catalog embedded; when the open succeeds, the
  primary reads as the manifest in use and the fallback is a copy of it.\<close>

theorem open_repairs_manifest:
  assumes "manifest_load M d = Inr (m, used_prev)" and "manifest_ok M m"
    and "(case mf_catalog m of Some ca \<Rightarrow> Inr ca | None \<Rightarrow> catalog_load M d) = Inr ca"
    and "manifest_ok M (m\<lparr>mf_catalog := Some ca\<rparr>)"
    and "open_manifest E M False legacy wals (fs_start d script) = (s, r)"
  shows "(\<forall>d' \<in> set (fs_seen s). presents M d' m \<or> presents M d' (m\<lparr>mf_catalog := Some ca\<rparr>))
    \<and> (\<forall>m' ca'. r = Inr (m', ca') \<longrightarrow> manifest_load M (fs_dir s) = Inr (m', False)
         \<and> (\<exists>p. manifest_previous M (fs_dir s) = Some p \<and> manifest_encode M p = manifest_encode M m'))"
proof -
  have d: "fs_dir (fs_start d script) = d" by (simp add: fs_start_def)
  have seen: "seen_all (\<lambda>d'. presents M d' m \<or> presents M d' (m\<lparr>mf_catalog := Some ca\<rparr>)) (fs_start d script)"
    using manifest_load_cases(3) [OF assms(1)] by (simp add: seen_all_def fs_start_def)
  have "seen_all (\<lambda>d'. presents M d' m \<or> presents M d' (m\<lparr>mf_catalog := Some ca\<rparr>)) s
    \<and> (\<forall>m' ca. r = Inr (m', ca) \<longrightarrow> primary_reads M (fs_dir s) m'
         \<and> (\<exists>p. manifest_previous M (fs_dir s) = Some p \<and> manifest_encode M p = manifest_encode M m'))"
    by (rule open_manifest_effect [OF _ assms(2) _ seen assms(5), unfolded d, OF assms(1)]) (use assms(3,4) in auto)
  then show ?thesis by (simp add: seen_all_def manifest_load_def)
qed

theorem open_repairs_manifest_witness:
  "\<exists>s ca. open_manifest sample_ext sample_env False False [(wal_file_name 1, [])]
      (fs_start [MANIFEST_PREV_FILE \<mapsto> manifest_encode sample_env (sample_manifest 7)] []) = (s, Inr (sample_manifest 7, ca))
    \<and> manifest_load sample_env (fs_dir s) = Inr (sample_manifest 7, False)"
proof -
  let ?d = "[MANIFEST_PREV_FILE \<mapsto> manifest_encode sample_env (sample_manifest 7)]"
  have ok: "manifest_ok sample_env (sample_manifest 7)" by (rule sample_manifest_ok)
  have dec: "manifest_decode sample_env (manifest_encode sample_env (sample_manifest 7)) = Inr (sample_manifest 7)"
    by (rule manifest_decode_encode [OF ok])
  have load: "manifest_load sample_env ?d = Inr (sample_manifest 7, True)"
    by (simp add: manifest_load_def read_and_decode_def fs_read_def ok_or_def dec)
  have cat: "mf_catalog (sample_manifest 7) = Some catalog_new" by (simp add: manifest_initial_def)
  have anchor: "mf_wal_id (sample_manifest 7) = 1" "mf_required_wal_id (sample_manifest 7) = 1"
    by (simp_all add: manifest_initial_def)
  have same: "(sample_manifest 7)\<lparr>mf_catalog := Some catalog_new\<rparr> = sample_manifest 7" by (simp add: manifest_initial_def)
  have wals: "validate_wal_chain sample_ext [(wal_file_name 1, [])] 1 1 7 = Inr [1]"
    by (simp add: validate_wal_chain_def wal_file_id_name scan_wal_def scan_wal_from.simps require_def ok_or_def map_filter_simps
        u32_saturating_succ_def)
  obtain s r where run: "open_manifest sample_ext sample_env False False [(wal_file_name 1, [])] (fs_start ?d []) = (s, r)" by fastforce
  have "r = Inr (sample_manifest 7, catalog_new)"
    using run
    by (simp add: open_manifest_def load cat [simplified] anchor [simplified] wals fs_defs manifest_heal_def
        refresh_previous_def sync_failed_def manifest_previous_def read_and_decode_def dec split: if_splits)
  with open_repairs_manifest [OF load ok _ _ run, of catalog_new, unfolded same cat, OF _ ok] run show ?thesis by auto
qed

end
