(* ===== verification/Checkpoint.thy ===== *)
theory Checkpoint
  imports Primary_Scan Manifest
begin

text \<open>
  Checkpoints of the primary index (\<open>db/maintenance.rs\<close>): the active delta is frozen, its payloads
  are written to a new segment in commit order, its entries to a new run of the primary directory in
  key order, and the run then takes the place of the frozen delta. When anything fails, the frozen
  delta is merged back into the active one.

  The state is the part of \<open>State\<close> that these operations touch. The map of segment readers is an
  association list from segment ids to file contents. \<open>Arc::ptr_eq\<close> compares allocation numbers.
  The table, id and payload of a gathered entry are stored as such, where the code keeps offsets into
  shared buffers. The order of an unstable sort is a parameter. \<open>None\<close> is a panic. The parameter
  \<open>io\<close> is the outcome of the file operations of each stage.
\<close>

section \<open>State and jobs\<close>

record 'j state =
  st_index :: primary_idx
  st_segments :: "segment_meta list"
  st_next_segment_id :: u32
  st_readers :: "(u32 \<times> bytes) list"
  st_superseded_segments :: "u32 set"
  st_committed_version :: u64
  st_catalog :: "'j catalog"
  st_identity_high_water :: "(string \<times> i64) list"

record 'j frozen_checkpoint_job =
  fj_frozen :: primary_delta
  fj_arc :: nat
  fj_version :: u64
  fj_segments :: "segment_meta list"
  fj_next_segment_id :: u32
  fj_catalog :: "'j catalog"
  fj_identity_high_water :: "(string \<times> i64) list"
  fj_first_primary_run :: bool
  fj_wal_id :: u32
  fj_wal_cutoff :: u64

abbreviation "PRIMARY_BASE_LEVEL \<equiv> (255::u8)"

section \<open>Thawing and freezing\<close>

definition thaw_table :: "(version_list \<Rightarrow> version_list) \<Rightarrow> string \<times> primary_table_delta \<Rightarrow> primary_delta \<Rightarrow> primary_delta" where
  "thaw_table us entry delta =
     (let active = (case map_of delta (fst entry) of Some d \<Rightarrow> d | None \<Rightarrow> delta_default) in
      AList.update (fst entry) (foldl (\<lambda>d (rid, versions). merge_versions us rid versions d) active (delta_iter (snd entry))) delta)"

definition thaw_primary :: "(version_list \<Rightarrow> version_list) \<Rightarrow> primary_idx \<Rightarrow> primary_idx" where
  "thaw_primary us idx =
     (case pi_frozen idx of
        None \<Rightarrow> idx
      | Some frozen \<Rightarrow>
          idx\<lparr>pi_frozen := None, pi_delta := foldl (\<lambda>delta entry. thaw_table us entry delta) (pi_delta idx) (fp_delta frozen)\<rparr>)"

definition thaw_frozen_checkpoint :: "(version_list \<Rightarrow> version_list) \<Rightarrow> 'j state \<Rightarrow> 'j state" where
  "thaw_frozen_checkpoint us st = st\<lparr>st_index := thaw_primary us (st_index st)\<rparr>"

text \<open>Freezing; \<open>supported\<close>, \<open>running\<close> and \<open>sent\<close> are the tests of the vector backlog, of a running
  checkpoint and of the queue of the worker.\<close>

definition schedule_frozen_checkpoint :: "(version_list \<Rightarrow> version_list) \<Rightarrow> bool \<Rightarrow> bool \<Rightarrow> bool \<Rightarrow> nat \<Rightarrow> u32 \<Rightarrow> u64
    \<Rightarrow> 'j state \<Rightarrow> 'j state \<times> 'j frozen_checkpoint_job option" where
  "schedule_frozen_checkpoint us supported running sent arc wal_id wal_len st =
     (if \<not> supported then (st, None)
      else if running then (st, None)
      else if pi_frozen (st_index st) \<noteq> None \<or> pi_delta (st_index st) = [] then (st, None)
      else
        let job = \<lparr>fj_frozen = pi_delta (st_index st), fj_arc = arc, fj_version = st_committed_version st,
              fj_segments = st_segments st, fj_next_segment_id = st_next_segment_id st, fj_catalog = st_catalog st,
              fj_identity_high_water = st_identity_high_water st, fj_first_primary_run = (pi_runs (st_index st) = []),
              fj_wal_id = wal_id, fj_wal_cutoff = wal_len\<rparr>;
            st = st\<lparr>st_index := (st_index st)\<lparr>pi_delta := [],
              pi_frozen := Some \<lparr>fp_version = st_committed_version st, fp_delta = pi_delta (st_index st), fp_arc = arc\<rparr>\<rparr>\<rparr> in
        if sent then (st, Some job) else (thaw_frozen_checkpoint us st, None))"

section \<open>Writing the segment and the run\<close>

record mem_entry =
  mn_table :: string
  mn_id :: string
  mn_version :: u64
  mn_payload :: "mem_payload option"

definition mem_entry_of :: "string \<Rightarrow> string \<Rightarrow> version_entry \<Rightarrow> mem_entry option" where
  "mem_entry_of tname rid v =
     (case ve_kind v of
        MemPut p \<Rightarrow> Some \<lparr>mn_table = tname, mn_id = rid, mn_version = ve_version v, mn_payload = Some p\<rparr>
      | MemTombstone \<Rightarrow> Some \<lparr>mn_table = tname, mn_id = rid, mn_version = ve_version v, mn_payload = None\<rparr>
      | _ \<Rightarrow> None)"

definition mem_entries :: "string \<Rightarrow> string \<times> version_list \<Rightarrow> mem_entry list" where
  "mem_entries tname row = List.map_filter (mem_entry_of tname (fst row)) (snd row)"

definition gather_mem :: "primary_delta \<Rightarrow> mem_entry list" where
  "gather_mem frozen =
     concat (map (\<lambda>(tname, ids). concat (map (mem_entries tname) (delta_iter ids)))
       (sort_key (\<lambda>(tname, _). primary_table_prefix tname) frozen))"

definition frozen_superseded :: "primary_delta \<Rightarrow> bool" where
  "frozen_superseded frozen = list_ex (\<lambda>(_, ids). list_ex (\<lambda>(_, versions). length versions > 1) (delta_iter ids)) frozen"

definition u64_saturating_add :: "u64 \<Rightarrow> u64 \<Rightarrow> u64" where
  "u64_saturating_add a b = (if unat a + unat b < 2 ^ 64 then a + b else - 1)"

definition payload_slice :: "mem_payload option \<Rightarrow> bytes option option" where
  "payload_slice p = (case p of None \<Rightarrow> Some None | Some p \<Rightarrow> map_option Some (mem_payload_slice p))"

fun write_entries :: "'j ext \<Rightarrow> mem_entry list \<Rightarrow> nat list \<Rightarrow> bytes \<Rightarrow> u64 \<Rightarrow> (u64 \<times> u32) list
    \<Rightarrow> (bytes \<times> u64 \<times> (u64 \<times> u32) list) result option" where
  "write_entries E mem [] out pos locs = Some (Inr (out, pos, locs))"
| "write_entries E mem (i # order) out pos locs =
     (case payload_slice (mn_payload (mem ! i)) of
        None \<Rightarrow> None
      | Some payload \<Rightarrow>
          (case encode_entry_into E (mn_version (mem ! i)) (mn_table (mem ! i)) (mn_id (mem ! i)) payload of
             Inl err \<Rightarrow> Some (Inl err)
           | Inr (encoded, payload_rel) \<Rightarrow>
               write_entries E mem order (out @ encoded) (u64_saturating_add pos (of_nat (length encoded)))
                 (locs[i := (pos + of_nat payload_rel, case mn_payload (mem ! i) of Some p \<Rightarrow> mp_len p | None \<Rightarrow> 0)])))"

definition job_epoch :: "'j catalog \<Rightarrow> string \<Rightarrow> u64" where
  "job_epoch ca tname = (case table ca tname of Some schema \<Rightarrow> ts_epoch schema | None \<Rightarrow> 0)"

definition seg_version :: "u32 \<Rightarrow> mem_entry \<times> u64 \<times> u32 \<Rightarrow> version_entry" where
  "seg_version seg x =
     (case x of (e, off, len) \<Rightarrow>
        \<lparr>ve_version = mn_version e, ve_kind = (if mn_payload e \<noteq> None then SegPut seg off len else SegTombstone)\<rparr>)"

fun add_run_entries :: "(bytes \<Rightarrow> u32) \<Rightarrow> 'j catalog \<Rightarrow> u32 \<Rightarrow> (mem_entry \<times> u64 \<times> u32) list \<Rightarrow> paged_writer \<Rightarrow> paged_writer result" where
  "add_run_entries crc ca seg [] w = Inr w"
| "add_run_entries crc ca seg (x # xs) w =
     (if mn_version (fst x) \<le> job_epoch ca (mn_table (fst x)) then add_run_entries crc ca seg xs w
      else
        rbind (encode_primary_entry (seg_version seg x)) (\<lambda>stored.
        rbind (writer_add crc (encode_primary_key_into (mn_table (fst x)) (mn_id (fst x))) stored w)
          (add_run_entries crc ca seg xs)))"

text \<open>The generation of a segment set: an FNV hash.\<close>

definition fnv_mix :: "u64 \<Rightarrow> u8 \<Rightarrow> u64" where
  "fnv_mix hash byte = (hash XOR ucast byte) * 0x100000001b3"

definition primary_generation :: "u64 \<Rightarrow> segment_meta list \<Rightarrow> 'j catalog \<Rightarrow> u64" where
  "primary_generation committed_version segments ca =
     foldl fnv_mix 0xcbf29ce484222325
       (to_le_bytes committed_version
        @ concat (map (\<lambda>s. to_le_bytes (sm_id s) @ to_le_bytes (sm_len s)) segments)
        @ concat (map (\<lambda>t. to_le_bytes (of_nat (length (ts_name t)) :: u64) @ as_bytes (ts_name t) @ to_le_bytes (ts_epoch t))
            (ca_tables ca)))"

record prepared_checkpoint =
  pc_file :: bytes
  pc_segments :: "segment_meta list"
  pc_generation :: u64
  pc_run :: primary_run
  pc_superseded :: bool

definition prepare_checkpoint :: "'j ext \<Rightarrow> (mem_entry list \<Rightarrow> nat list) \<Rightarrow> (nat \<Rightarrow> unit result) \<Rightarrow> string
    \<Rightarrow> 'j frozen_checkpoint_job \<Rightarrow> prepared_checkpoint option result option" where
  "prepare_checkpoint E order io ulid job =
     (let mem = gather_mem (fj_frozen job); seg = fj_next_segment_id job in
      if mem = [] then Some (Inr None)
      else
        (case write_entries E mem (order mem) [] 0 (replicate (length mem) (0, 0)) of
           None \<Rightarrow> None
         | Some (Inl err) \<Rightarrow> Some (Inl err)
         | Some (Inr (out, pos, locs)) \<Rightarrow>
             (case io 0 of
                Inl err \<Rightarrow> Some (Inl err)
              | Inr _ \<Rightarrow>
                  (let new_segments = fj_segments job @ [\<lparr>sm_id = seg, sm_len = pos\<rparr>];
                       generation = primary_generation (fj_version job) new_segments (fj_catalog job);
                       name = (if fj_first_primary_run job then ''primary.pidx'' else ''primary-L0-'' @ ulid @ ''.pidx.run'');
                       level = (if fj_first_primary_run job then PRIMARY_BASE_LEVEL else 0) in
                   case rbind (writer_create generation None) (add_run_entries (crc32 E) (fj_catalog job) seg (zip mem locs)) of
                     Inl err \<Rightarrow> Some (Inl err)
                   | Inr w \<Rightarrow>
                       (let bs = writer_finish (crc32 E) w in
                        case io 1 of
                          Inl err \<Rightarrow> Some (Inl err)
                        | Inr _ \<Rightarrow>
                            (case paged_open (crc32 E) bs of
                               None \<Rightarrow> None
                             | Some (Inl err) \<Rightarrow> Some (Inl err)
                             | Some (Inr ix) \<Rightarrow>
                                 Some (Inr (Some
                                   \<lparr>pc_file = out, pc_segments = new_segments, pc_generation = generation,
                                    pc_run = \<lparr>pr_meta = \<lparr>prm_file = name, prm_level = level, prm_bytes = of_nat (length bs),
                                      prm_generation = generation\<rparr>, pr_index = ix\<rparr>,
                                    pc_superseded = frozen_superseded (fj_frozen job)\<rparr>))))))))"

section \<open>Adoption\<close>

definition still_frozen :: "'j frozen_checkpoint_job \<Rightarrow> primary_idx \<Rightarrow> bool" where
  "still_frozen job idx \<longleftrightarrow>
     (case pi_frozen idx of
        Some frozen \<Rightarrow> fp_version frozen = fj_version job \<and> fp_arc frozen = fj_arc job
      | None \<Rightarrow> False)"

definition overlaps_frozen :: "primary_delta \<Rightarrow> primary_delta \<Rightarrow> bool" where
  "overlaps_frozen frozen delta =
     list_ex (\<lambda>(tname, ids). case map_of frozen tname of
         Some frozen_ids \<Rightarrow> list_ex (\<lambda>(rid, _). delta_get frozen_ids rid \<noteq> None) (delta_iter ids)
       | None \<Rightarrow> False) delta"

definition adopt_checkpoint :: "'j frozen_checkpoint_job \<Rightarrow> prepared_checkpoint \<Rightarrow> 'j state \<Rightarrow> 'j state result" where
  "adopt_checkpoint job p st =
     (if \<not> still_frozen job (st_index st)
      then Inl (Corrupt ''background checkpoint lost its frozen generation before adoption'')
      else
        let superseded = (pc_superseded p \<or> overlaps_frozen (fj_frozen job) (pi_delta (st_index st)));
            seg = fj_next_segment_id job in
        Inr (st\<lparr>st_readers := AList.update seg (pc_file p) (st_readers st), st_segments := pc_segments p,
                st_next_segment_id := seg + 1,
                st_superseded_segments := (if superseded then insert seg (st_superseded_segments st) else st_superseded_segments st),
                st_index := (st_index st)\<lparr>pi_frozen := None, pi_generation := pc_generation p,
                  pi_runs := pi_runs (st_index st) @ [pc_run p]\<rparr>\<rparr>))"

text \<open>The flush: \<open>middle\<close> is the outcome of the steps between, the hand-over of the log and the
  publication of the manifest, \<open>finishing\<close> of the steps after the adoption, and \<open>meanwhile\<close> what other threads did to the state until the adoption.\<close>

definition flush_frozen_checkpoint :: "'j ext \<Rightarrow> (version_list \<Rightarrow> version_list) \<Rightarrow> (mem_entry list \<Rightarrow> nat list) \<Rightarrow> (nat \<Rightarrow> unit result)
    \<Rightarrow> string \<Rightarrow> unit result \<Rightarrow> unit result \<Rightarrow> ('j state \<Rightarrow> 'j state) \<Rightarrow> 'j frozen_checkpoint_job \<Rightarrow> 'j state \<Rightarrow> ('j state \<times> unit result) option" where
  "flush_frozen_checkpoint E us order io ulid middle finishing meanwhile job st =
     (let st = meanwhile st in
      case prepare_checkpoint E order io ulid job of
        None \<Rightarrow> None
      | Some (Inl err) \<Rightarrow> Some (thaw_frozen_checkpoint us st, Inl err)
      | Some (Inr None) \<Rightarrow> Some (st, Inr ())
      | Some (Inr (Some p)) \<Rightarrow>
          (case rbind middle (\<lambda>_. adopt_checkpoint job p st) of
             Inl err \<Rightarrow> Some (thaw_frozen_checkpoint us st, Inl err)
           | Inr st' \<Rightarrow>
               (case finishing of
                  Inl err \<Rightarrow> Some (thaw_frozen_checkpoint us st', Inl err)
                | Inr _ \<Rightarrow> Some (st', Inr ()))))"

section \<open>Reading rows\<close>

definition reader_payload :: "bytes \<Rightarrow> u64 \<Rightarrow> u32 \<Rightarrow> bytes result" where
  "reader_payload mmap off len =
     (if mmap = [] then (if len = 0 then Inr [] else Inl (Io ''failed to fill whole buffer''))
      else ok_or (Corrupt ''segment payload out of range'')
             (Option.bind (checked_add (unat off) (unat len)) (get_range mmap (unat off))))"

definition payload_bytes :: "(u32 \<times> bytes) list \<Rightarrow> vkind \<Rightarrow> bytes option result option" where
  "payload_bytes readers kind =
     (case kind of
        MemPut p \<Rightarrow> map_option (\<lambda>bs. Inr (Some bs)) (mem_payload_slice p)
      | SegPut seg off len \<Rightarrow>
          Some (rbind (ok_or (Corrupt (''missing segment '' @ show_nat (unat seg))) (map_of readers seg)) (\<lambda>mmap.
                rbind (reader_payload mmap off len) (\<lambda>bs. Inr (Some bs))))
      | MemTombstone \<Rightarrow> Some (Inr None)
      | SegTombstone \<Rightarrow> Some (Inr None))"

definition visible_owned :: "(bytes \<Rightarrow> u32) \<Rightarrow> 'j state \<Rightarrow> string \<Rightarrow> string \<Rightarrow> u64 \<Rightarrow> version_entry option result \<times> 'j state" where
  "visible_owned crc st tname rid max_version =
     (case table (st_catalog st) tname of
        None \<Rightarrow> (Inr None, st)
      | Some schema \<Rightarrow>
          (case newest_at_or_before crc (st_index st) tname rid max_version of
             (r, idx) \<Rightarrow> (rbind r (\<lambda>r. Inr (opt_filter (\<lambda>e. ve_version e > ts_epoch schema) r)), st\<lparr>st_index := idx\<rparr>)))"

text \<open>A row as a reader sees it: its version and payload, or that it is deleted.\<close>

definition read_row :: "(bytes \<Rightarrow> u32) \<Rightarrow> 'j state \<Rightarrow> string \<Rightarrow> string \<Rightarrow> u64 \<Rightarrow> (u64 \<times> bytes option result option) option result" where
  "read_row crc st tname rid max_version =
     rbind (fst (visible_owned crc st tname rid max_version)) (\<lambda>r.
       Inr (map_option (\<lambda>e. (ve_version e, payload_bytes (st_readers st) (ve_kind e))) r))"

section \<open>The segment holds the payloads\<close>

text \<open>Where a segment file holds the payload of an entry.\<close>

definition located :: "bytes \<Rightarrow> mem_entry \<Rightarrow> u64 \<times> u32 \<Rightarrow> bool" where
  "located out e loc \<longleftrightarrow> fits_u16 (length (mn_table e)) \<and> fits_u16 (length (mn_id e)) \<and>
     (case mn_payload e of
        None \<Rightarrow> True
      | Some p \<Rightarrow> \<exists>bs. mem_payload_slice p = Some bs
          \<and> get_range out (unat (fst loc)) (unat (fst loc) + unat (snd loc)) = Some bs)"

lemma located_append: "located out e loc \<Longrightarrow> located (out @ rest) e loc"
  by (auto simp: located_def get_range_extend split: option.splits)

lemma encode_entry_located:
  assumes "encode_entry_into E (mn_version e) (mn_table e) (mn_id e) payload = Inr (encoded, rel)"
    and "payload_slice (mn_payload e) = Some payload"
    and "length (out @ encoded) < 2 ^ 64" and "unat pos = length out"
  shows "located (out @ encoded) e (pos + of_nat rel, case mn_payload e of Some p \<Rightarrow> mp_len p | None \<Rightarrow> 0)"
    and "encoded \<noteq> []"
proof -
  let ?data = "case payload of Some p \<Rightarrow> p | None \<Rightarrow> []"
  have fits: "fits_u16 (length (mn_table e))" "fits_u16 (length (mn_id e))" and ne: "0 < rel" "rel \<le> length encoded"
    and data: "take (length ?data) (drop rel encoded) = ?data"
    using assms(1) unfolding encode_entry_into_def Let_def by (auto simp: rbind_eq_Inr require_eq_Inr drop_Cons')
  obtain head tail where enc: "encoded = head @ ?data @ tail" and rel: "rel = length head" and "head \<noteq> []"
    using ne data append_take_drop_id [of rel encoded] append_take_drop_id [of "length ?data" "drop rel encoded"]
    by (metis (no_types) length_take min.absorb2 length_greater_0_conv)
  show "encoded \<noteq> []" using enc \<open>head \<noteq> []\<close> by simp
  have "unat (of_nat rel :: u64) = rel" using assms(3) enc rel by (simp add: unat_of_nat)
  then have off: "unat (pos + of_nat rel) = length out + length head"
    using assms(3,4) enc rel by (subst unat_add_lem [THEN iffD1]) simp_all
  show "located (out @ encoded) e (pos + of_nat rel, case mn_payload e of Some p \<Rightarrow> mp_len p | None \<Rightarrow> 0)"
  proof (cases "mn_payload e")
    case None
    with fits show ?thesis by (simp add: located_def)
  next
    case (Some p)
    with assms(2) obtain bs where bs: "mem_payload_slice p = Some bs" "payload = Some bs"
      by (auto simp: payload_slice_def)
    then have "length bs = unat (mp_len p)" by (auto simp: mem_payload_slice_def get_range_def split: if_splits)
    then have "get_range (out @ encoded) (length out + length head) (length out + length head + unat (mp_len p)) = Some bs"
      using bs(2) by (simp add: enc get_range_def)
    with Some bs fits off show ?thesis by (simp add: located_def)
  qed
qed

lemma unat_saturating_add:
  "unat a + n < 2 ^ 64 \<Longrightarrow> unat (u64_saturating_add a (of_nat n)) = unat a + n"
  by (simp add: u64_saturating_add_def unat_of_nat unat_add_lem [THEN iffD1])

lemma write_entries_locates:
  assumes "write_entries E mem order out pos locs = Some (Inr (out', pos', locs'))"
    and "distinct order" and "set order \<subseteq> {..<length mem}" and "length locs = length mem"
    and "unat pos = length out" and "length out' < 2 ^ 64"
  shows "unat pos' = length out' \<and> (\<exists>rest. out' = out @ rest \<and> (order \<noteq> [] \<longrightarrow> rest \<noteq> [])) \<and> length locs' = length mem
    \<and> (\<forall>i. i \<notin> set order \<longrightarrow> locs' ! i = locs ! i) \<and> (\<forall>i \<in> set order. located out' (mem ! i) (locs' ! i))"
  using assms
proof (induction order arbitrary: out pos locs)
  case (Cons i order)
  from Cons.prems(1) obtain payload encoded rel where
    slice: "payload_slice (mn_payload (mem ! i)) = Some payload"
    and enc: "encode_entry_into E (mn_version (mem ! i)) (mn_table (mem ! i)) (mn_id (mem ! i)) payload = Inr (encoded, rel)"
    and rest: "write_entries E mem order (out @ encoded) (u64_saturating_add pos (of_nat (length encoded)))
        (locs[i := (pos + of_nat rel, case mn_payload (mem ! i) of Some p \<Rightarrow> mp_len p | None \<Rightarrow> 0)]) = Some (Inr (out', pos', locs'))"
    by (auto split: option.splits sum.splits)
  have grows: "length out1 \<le> length out2" if "write_entries E mem ord out1 p1 l1 = Some (Inr (out2, p2, l2))" for ord out1 p1 l1 out2 p2 l2
    using that by (induction ord arbitrary: out1 p1 l1) (fastforce split: option.splits sum.splits)+
  from grows [OF rest] have len: "length (out @ encoded) < 2 ^ 64" using Cons.prems(6) by auto
  have pos: "unat (u64_saturating_add pos (of_nat (length encoded))) = length (out @ encoded)"
    using unat_saturating_add [of pos "length encoded"] Cons.prems(5) len by simp
  note here = encode_entry_located [OF enc slice len Cons.prems(5)]
  have i: "i < length locs" "i \<notin> set order" using Cons.prems(2-4) by auto
  from Cons.IH [OF rest _ _ _ pos Cons.prems(6)] Cons.prems(2-4) obtain tail where
    IH: "unat pos' = length out'" "out' = (out @ encoded) @ tail" "length locs' = length mem"
      "\<forall>j. j \<notin> set order \<longrightarrow> locs' ! j = locs[i := (pos + of_nat rel, case mn_payload (mem ! i) of Some p \<Rightarrow> mp_len p | None \<Rightarrow> 0)] ! j"
      "\<forall>j \<in> set order. located out' (mem ! j) (locs' ! j)" by auto
  have "located out' (mem ! i) (locs' ! i)" using IH(2,4) i located_append [OF here(1), of tail] by simp
  moreover have "\<forall>j. j \<notin> set (i # order) \<longrightarrow> locs' ! j = locs ! j" using IH(4) by simp
  ultimately show ?case using IH here(2) by auto
qed simp

section \<open>The gathered entries are in key order\<close>

definition mem_key :: "mem_entry \<Rightarrow> bytes" where
  "mem_key e = primary_key (mn_table e) (mn_id e)"

definition mem_less :: "mem_entry \<Rightarrow> mem_entry \<Rightarrow> bool" where
  "mem_less e e' \<longleftrightarrow> mem_key e < mem_key e' \<or> (mem_key e = mem_key e' \<and> mn_version e < mn_version e')"

lemma sorted_wrt_concat:
  assumes "\<And>xs. xs \<in> set xss \<Longrightarrow> sorted_wrt R xs"
    and "sorted_wrt (\<lambda>xs ys. \<forall>x \<in> set xs. \<forall>y \<in> set ys. R x y) xss"
  shows "sorted_wrt R (concat xss)"
  using assms by (induction xss) (auto simp: sorted_wrt_append)

lemma primary_key_tables:
  assumes "table_fits t" "table_fits t'" and "primary_table_prefix t < primary_table_prefix t'"
  shows "primary_key t rid < primary_key t' rid'"
proof -
  let ?h = "to_be_bytes (of_nat (length t) :: u32)" and ?h' = "to_be_bytes (of_nat (length t') :: u32)"
  have heads: "?h < ?h' \<or> (?h = ?h' \<and> as_bytes t < as_bytes t')"
    using assms(3) by (simp add: primary_table_prefix_def append_less_same_length)
  moreover have "length (as_bytes t) = length (as_bytes t')" if "?h = ?h'"
    using that table_len assms(1,2) by (metis from_to_be_bytes_word(2) length_as_bytes)
  ultimately show ?thesis
    by (auto simp: primary_key_prefix primary_table_prefix_def append_less_same_length)
qed

lemma mem_entry_of_Some:
  "mem_entry_of t rid v = Some e \<Longrightarrow> mn_table e = t \<and> mn_id e = rid \<and> mn_version e = ve_version v"
  by (auto simp: mem_entry_of_def split: vkind.splits)

lemma mem_entries_iff: "e \<in> set (mem_entries t row) \<longleftrightarrow> (\<exists>v \<in> set (snd row). mem_entry_of t (fst row) v = Some e)"
  by (force simp: mem_entries_def List.map_filter_def image_iff)

lemma set_mem_entries:
  "e \<in> set (mem_entries t row) \<Longrightarrow> mn_table e = t \<and> mn_id e = fst row \<and> mn_version e \<in> ve_version ` set (snd row)"
  by (auto simp: mem_entries_iff dest: mem_entry_of_Some)

lemma sorted_wrt_map_filter:
  assumes "sorted_wrt S xs" and "\<And>x y a b. S x y \<Longrightarrow> f x = Some a \<Longrightarrow> f y = Some b \<Longrightarrow> R a b"
  shows "sorted_wrt R (List.map_filter f xs)"
  using assms(1)
proof (induction xs)
  case (Cons x xs)
  then show ?case using assms(2) by (auto simp: List.map_filter_simps List.map_filter_def split: option.splits)
qed (simp add: List.map_filter_simps)

lemma mem_entries_sorted:
  assumes "sorted_wrt (<) (map ve_version (snd row))"
  shows "sorted_wrt mem_less (mem_entries t row)"
  unfolding mem_entries_def
  by (rule sorted_wrt_map_filter [OF assms [unfolded sorted_wrt_map]])
    (auto dest!: mem_entry_of_Some simp: mem_less_def mem_key_def)

lemma delta_iter_sorted: "delta_ok d \<Longrightarrow> sorted_keys (delta_iter d)"
  by (simp add: delta_ok_def delta_inv_def delta_shape_def)

lemma sorted_keys_distinct: "sorted_keys (ps :: ('k::linorder \<times> 'v) list) \<Longrightarrow> distinct (map fst ps)"
  by (induction ps) auto

lemma delta_iter_versions: "delta_ok d \<Longrightarrow> (rid, vs) \<in> set (delta_iter d) \<Longrightarrow> versions_of d rid = vs"
  using delta_get_exact [of d rid] map_of_is_SomeI [of "delta_iter d" rid vs] delta_iter_sorted [of d]
  by (auto simp: versions_of_def delta_ok_def delta_inv_def sorted_keys_distinct)

lemma table_mem_sorted:
  assumes "delta_ok d"
  shows "sorted_wrt mem_less (concat (map (mem_entries t) (delta_iter d)))"
proof (rule sorted_wrt_concat)
  fix es
  assume "es \<in> set (map (mem_entries t) (delta_iter d))"
  then obtain rid vs where row: "(rid, vs) \<in> set (delta_iter d)" "es = mem_entries t (rid, vs)" by auto
  have "sorted_wrt (<) (map ve_version vs)"
    using assms delta_iter_versions [OF assms row(1)] by (auto simp: delta_ok_def)
  with row(2) show "sorted_wrt mem_less es" by (simp add: mem_entries_sorted)
next
  have "sorted_wrt (\<lambda>row row'. \<forall>x \<in> set (mem_entries t row). \<forall>y \<in> set (mem_entries t row'). mem_less x y) (delta_iter d)"
    using delta_iter_sorted [OF assms]
    by (rule sorted_wrt_mono_rel [rotated]) (auto dest!: set_mem_entries simp: mem_less_def mem_key_def primary_key_less)
  then show "sorted_wrt (\<lambda>xs ys. \<forall>x \<in> set xs. \<forall>y \<in> set ys. mem_less x y) (map (mem_entries t) (delta_iter d))"
    by (simp add: sorted_wrt_map)
qed

lemma gather_mem_sorted:
  assumes "overlay_ok frozen"
  shows "sorted_wrt mem_less (gather_mem frozen)"
proof -
  let ?tables = "sort_key (\<lambda>(t, _). primary_table_prefix t) frozen"
  have fits: "table_fits t \<and> delta_ok d" if "(t, d) \<in> set frozen" for t d
    using assms that by (auto simp: overlay_ok_def list_all_iff)
  have inj: "inj_on (\<lambda>(t, _). primary_table_prefix t) (set frozen)"
  proof (rule inj_onI, clarsimp)
    fix t d t' d'
    assume mem: "(t, d) \<in> set frozen" "(t', d') \<in> set frozen" and "primary_table_prefix t = primary_table_prefix t'"
    then have "t = t'"
      using primary_prefix_inject [of t t' "[]"] fits by (auto simp: primary_key_prefix)
    with mem assms show "t = t' \<and> d = d'" by (auto simp: overlay_ok_def dest: eq_key_imp_eq_value)
  qed
  have "distinct (map (\<lambda>(t, _). primary_table_prefix t) ?tables)"
    using assms inj by (auto simp: distinct_map overlay_ok_def)
  then have "sorted_wrt (<) (map (\<lambda>(t, _). primary_table_prefix t) ?tables)"
    using strict_sorted_iff sorted_sort_key by blast
  then have order: "sorted_wrt (\<lambda>x y. primary_table_prefix (fst x) < primary_table_prefix (fst y)) ?tables"
    by (simp add: sorted_wrt_map case_prod_beta)
  have "sorted_wrt (\<lambda>x y. \<forall>e \<in> set (concat (map (mem_entries (fst x)) (delta_iter (snd x)))).
      \<forall>e' \<in> set (concat (map (mem_entries (fst y)) (delta_iter (snd y)))). mem_less e e') ?tables"
    by (rule sorted_wrt_mono_rel [OF _ order])
      (auto dest!: set_mem_entries fits simp: mem_less_def mem_key_def intro!: primary_key_tables)
  then show ?thesis
    unfolding gather_mem_def
    by (intro sorted_wrt_concat) (auto simp: sorted_wrt_map case_prod_beta dest!: fits intro: table_mem_sorted)
qed

lemma gather_mem_rows:
  assumes "overlay_ok frozen"
  shows "{e \<in> set (gather_mem frozen). mn_table e = t \<and> mn_id e = rid} =
    set (mem_entries t (rid, delta_versions (map_of frozen t) rid))"
proof (intro set_eqI iffI)
  fix e
  assume "e \<in> {e \<in> set (gather_mem frozen). mn_table e = t \<and> mn_id e = rid}"
  then obtain d vs where d: "(t, d) \<in> set frozen" "(rid, vs) \<in> set (delta_iter d)" "e \<in> set (mem_entries t (rid, vs))"
    using set_mem_entries by (fastforce simp: gather_mem_def)
  moreover have "delta_ok d" "map_of frozen t = Some d" using assms d(1) by (auto simp: overlay_ok_def list_all_iff)
  ultimately show "e \<in> set (mem_entries t (rid, delta_versions (map_of frozen t) rid))"
    using delta_iter_versions by (simp add: delta_versions_def)
next
  fix e
  assume e: "e \<in> set (mem_entries t (rid, delta_versions (map_of frozen t) rid))"
  then have "delta_versions (map_of frozen t) rid \<noteq> []" by (auto simp: mem_entries_def List.map_filter_simps)
  then obtain d vs where d: "map_of frozen t = Some d" "delta_get d rid = Some vs"
    by (auto simp: delta_versions_def versions_of_def split: option.splits)
  then have "(t, d) \<in> set frozen" "delta_ok d" using assms by (auto dest: map_of_SomeD simp: overlay_ok_get)
  moreover have "(rid, vs) \<in> set (delta_iter d)"
    using d(2) delta_get_exact [of d rid] \<open>delta_ok d\<close>
    by (intro map_of_SomeD) (simp add: delta_ok_def delta_inv_def)
  ultimately show "e \<in> {e \<in> set (gather_mem frozen). mn_table e = t \<and> mn_id e = rid}"
    using e d set_mem_entries [OF e] by (fastforce simp: gather_mem_def delta_versions_def versions_of_def)
qed

section \<open>The run holds the entries\<close>

type_synonym placed_entry = "mem_entry \<times> u64 \<times> u32"

definition stored_of :: "u32 \<Rightarrow> placed_entry \<Rightarrow> bytes" where
  "stored_of seg x = (case encode_primary_entry (seg_version seg x) of Inr bs \<Rightarrow> bs | Inl _ \<Rightarrow> [])"

definition kept :: "'j catalog \<Rightarrow> mem_entry \<Rightarrow> bool" where
  "kept ca e \<longleftrightarrow> \<not> mn_version e \<le> job_epoch ca (mn_table e)"

definition run_list :: "'j catalog \<Rightarrow> u32 \<Rightarrow> placed_entry list \<Rightarrow> (bytes \<times> bytes) list" where
  "run_list ca seg xs = map (\<lambda>x. (mem_key (fst x), stored_of seg x)) (filter (\<lambda>x. kept ca (fst x)) xs)"

lemma encode_seg_version: "encode_primary_entry (seg_version seg x) = Inr (stored_of seg x)"
  by (cases x) (simp add: stored_of_def encode_primary_entry_def seg_version_def)

lemma dec_stored_of [simp]: "dec_entry (stored_of seg x) = seg_version seg x"
  using decode_encode_primary_entry [OF encode_seg_version] by (simp add: dec_entry_def)

lemma add_run_entries_eq: "add_run_entries crc ca seg xs w = add_all crc (run_list ca seg xs) w"
proof (induction xs arbitrary: w)
  case (Cons x xs)
  then have "add_run_entries crc ca seg xs = add_all crc (run_list ca seg xs)" by (simp add: fun_eq_iff)
  then show ?case
    by (cases "kept ca (fst x)")
      (simp_all add: run_list_def kept_def encode_seg_version mem_key_def primary_key_def)
qed (simp add: run_list_def)

lemma run_list_sorted:
  assumes "sorted_wrt mem_less mem" and "length locs = length mem"
  shows "sorted_wrt (<) (run_list ca seg (zip mem locs))"
proof -
  have "sorted_wrt (\<lambda>x y. mem_less (fst x) (fst y)) (zip mem locs)"
    using assms sorted_wrt_map [of mem_less fst "zip mem locs"] by simp
  then have "sorted_wrt (\<lambda>x y. mem_less (fst x) (fst y)) (filter (\<lambda>x. kept ca (fst x)) (zip mem locs))"
    by (rule sorted_wrt_filter)
  then show ?thesis
    unfolding run_list_def sorted_wrt_map
    by (rule sorted_wrt_mono_rel [rotated])
      (auto simp: mem_less_def less_prod_def seg_version_def intro: encode_primary_entry_less [OF encode_seg_version encode_seg_version])
qed

lemma length_stored_of: "length (stored_of seg x) \<le> 25"
  using encode_primary_entry_version [OF encode_seg_version] by blast

lemma run_list_fits:
  assumes "\<And>x. x \<in> set xs \<Longrightarrow> fits_u16 (length (mn_table (fst x))) \<and> fits_u16 (length (mn_id (fst x)))"
  shows "list_all entry_fits (run_list ca seg xs)" and "run_weight (run_list ca seg xs) \<le> length xs * 524288"
proof -
  have len: "length (mem_key (fst x)) \<le> 131074" if "x \<in> set xs" for x
    using assms [OF that] by (simp add: mem_key_def primary_key_prefix primary_table_prefix_def fits_u16_def)
  have each: "entry_fits (mem_key (fst x), stored_of seg x)"
    "32 + 3 * length (mem_key (fst x)) + length (stored_of seg x) \<le> 524288" if "x \<in> set xs" for x
    using len [OF that] length_stored_of [of seg x] by (simp_all add: entry_fits_def)
  show "list_all entry_fits (run_list ca seg xs)" using each(1) by (auto simp: run_list_def list_all_iff)
  show "run_weight (run_list ca seg xs) \<le> length xs * 524288"
    using each(2)
  proof (induction xs)
    case (Cons x xs)
    then have "run_weight (run_list ca seg xs) \<le> length xs * 524288"
      "32 + 3 * length (mem_key (fst x)) + length (stored_of seg x) \<le> 524288" by auto
    then show ?case by (auto simp: run_list_def run_weight_def)
  qed (simp add: run_list_def run_weight_def)
qed

lemma run_writes:
  assumes "sorted_wrt mem_less mem" and "length locs = length mem" and "length mem < 2 ^ 32"
    and "\<And>e. e \<in> set mem \<Longrightarrow> fits_u16 (length (mn_table e)) \<and> fits_u16 (length (mn_id e))"
  shows "\<exists>w. rbind (writer_create dv None) (add_run_entries crc ca seg (zip mem locs)) = Inr w
    \<and> opens_to crc (writer_finish crc w) dv (run_list ca seg (zip mem locs))"
proof -
  let ?es = "run_list ca seg (zip mem locs)"
  have fits: "fits_u16 (length (mn_table (fst x))) \<and> fits_u16 (length (mn_id (fst x)))" if "x \<in> set (zip mem locs)" for x
    using assms(4) that by (cases x) (auto dest: set_zip_leftD)
  have "length ?es \<le> length mem"
    using length_filter_le [of "\<lambda>x. kept ca (fst x)" "zip mem locs"] assms(2) by (simp add: run_list_def)
  then have few: "length ?es < 2 ^ 32" using assms(3) by linarith
  have weight: "run_weight ?es < 2 ^ 62"
  proof -
    have "run_weight ?es \<le> length (zip mem locs) * 524288" by (rule run_list_fits(2) [OF fits])
    also have "\<dots> < 2 ^ 62" using assms(2,3) by simp
    finally show ?thesis .
  qed
  have create: "writer_create dv None = writer_create dv (Some DEFAULT_PAGE_SIZE)" by (simp add: writer_create_def)
  have "add_run_entries crc ca seg (zip mem locs) = add_all crc ?es" by (simp add: fun_eq_iff add_run_entries_eq)
  then show ?thesis
    using written_opens_to [OF _ _ run_list_fits(1) [OF fits] run_list_sorted [OF assms(1,2)] few weight, of DEFAULT_PAGE_SIZE dv crc]
    by (simp add: create)
qed

lemma written_run:
  assumes "sorted_wrt mem_less mem" and "length locs = length mem" and "length mem < 2 ^ 32"
    and "\<And>e. e \<in> set mem \<Longrightarrow> fits_u16 (length (mn_table e)) \<and> fits_u16 (length (mn_id e))"
    and "rbind (writer_create dv None) (add_run_entries crc ca seg (zip mem locs)) = Inr w"
  shows "opens_to crc (writer_finish crc w) dv (run_list ca seg (zip mem locs))"
  using run_writes [OF assms(1-4), of dv crc ca seg] assms(5) by auto

text \<open>What a prepared checkpoint consists of.\<close>

definition permutes_mem :: "(mem_entry list \<Rightarrow> nat list) \<Rightarrow> bool" where
  "permutes_mem order \<longleftrightarrow> (\<forall>mem. mset (order mem) = mset [0..<length mem] \<and> sorted (map (\<lambda>i. mn_version (mem ! i)) (order mem)))"

lemma prepare_parts:
  assumes prep: "prepare_checkpoint E order io ulid job = Some (Inr (Some p))"
  shows "\<exists>pos locs w. gather_mem (fj_frozen job) \<noteq> []
    \<and> write_entries E (gather_mem (fj_frozen job)) (order (gather_mem (fj_frozen job))) []
        0 (replicate (length (gather_mem (fj_frozen job))) (0, 0)) = Some (Inr (pc_file p, pos, locs))
    \<and> rbind (writer_create (pc_generation p) None)
      (add_run_entries (crc32 E) (fj_catalog job) (fj_next_segment_id job) (zip (gather_mem (fj_frozen job)) locs)) = Inr w
    \<and> paged_open (crc32 E) (writer_finish (crc32 E) w) = Some (Inr (pr_index (pc_run p)))"
proof -
  define mem where "mem = gather_mem (fj_frozen job)"
  have ne: "mem \<noteq> []" using prep by (auto simp: prepare_checkpoint_def mem_def)
  obtain r where r: "write_entries E mem (order mem) [] 0 (replicate (length mem) (0, 0)) = r" by blast
  note prep' = prep [unfolded prepare_checkpoint_def Let_def, folded mem_def, unfolded r if_not_P [OF ne]]
  from prep' obtain out pos locs where wr': "r = Some (Inr (out, pos, locs))" by (simp split: option.splits sum.splits prod.splits)
  note prep'' = prep' [unfolded wr' option.case sum.case prod.case]
  obtain w where
    outf: "out = pc_file p"
    and add: "rbind (writer_create (pc_generation p) None)
      (add_run_entries (crc32 E) (fj_catalog job) (fj_next_segment_id job) (zip mem locs)) = Inr w"
    and opened: "paged_open (crc32 E) (writer_finish (crc32 E) w) = Some (Inr (pr_index (pc_run p)))"
    using prep'' by (auto split: option.splits sum.splits)
  then show ?thesis using ne r [unfolded wr'] unfolding mem_def by blast
qed

lemma prepare_segments:
  assumes prep: "prepare_checkpoint E order io ulid job = Some (Inr (Some p))"
  shows "\<exists>len. pc_segments p = fj_segments job @ [\<lparr>sm_id = fj_next_segment_id job, sm_len = len\<rparr>]"
  using prep unfolding prepare_checkpoint_def Let_def
  by (simp split: if_split_asm option.split_asm sum.split_asm prod.split_asm) auto

lemma prepare_checkpoint_run:
  assumes prep: "prepare_checkpoint E order io ulid job = Some (Inr (Some p))"
    and ok: "overlay_ok (fj_frozen job)" and order: "permutes_mem order"
    and len: "length (pc_file p) < 2 ^ 64" and few: "length (gather_mem (fj_frozen job)) < 2 ^ 32"
  shows "\<exists>locs. length locs = length (gather_mem (fj_frozen job))
    \<and> (\<forall>x \<in> set (zip (gather_mem (fj_frozen job)) locs). located (pc_file p) (fst x) (snd x)) \<and> pc_file p \<noteq> []
    \<and> run_valid (crc32 E) (pr_index (pc_run p))
    \<and> px_entries (crc32 E) (pr_index (pc_run p)) = run_list (fj_catalog job) (fj_next_segment_id job) (zip (gather_mem (fj_frozen job)) locs)"
proof -
  define mem where "mem = gather_mem (fj_frozen job)"
  from prepare_parts [OF prep, folded mem_def] obtain pos locs w where ne: "mem \<noteq> []"
    and wr: "write_entries E mem (order mem) [] 0 (replicate (length mem) (0, 0)) = Some (Inr (pc_file p, pos, locs))"
    and add: "rbind (writer_create (pc_generation p) None)
      (add_run_entries (crc32 E) (fj_catalog job) (fj_next_segment_id job) (zip mem locs)) = Inr w"
    and opened: "paged_open (crc32 E) (writer_finish (crc32 E) w) = Some (Inr (pr_index (pc_run p)))" by blast
  have same: "mset (order mem) = mset [0..<length mem]" using order by (simp add: permutes_mem_def)
  have perm: "distinct (order mem)" "set (order mem) = {..<length mem}"
    using mset_eq_imp_distinct_iff [OF same] mset_eq_setD [OF same] by (simp_all add: atLeast_upt)
  have wrote: "length locs = length mem" "\<exists>rest. pc_file p = [] @ rest \<and> (order mem \<noteq> [] \<longrightarrow> rest \<noteq> [])"
    "\<forall>i \<in> set (order mem). located (pc_file p) (mem ! i) (locs ! i)"
    using write_entries_locates [OF wr perm(1) _ _ _ len] perm(2) by auto
  have "0 \<in> {..<length mem}" using ne by simp
  then have "order mem \<noteq> []" using perm(2) by (metis empty_iff list.set(1))
  then have nonempty: "pc_file p \<noteq> []" using wrote(2) by auto
  have at: "located (pc_file p) (fst x) (snd x)" if "x \<in> set (zip mem locs)" for x
    using that wrote perm(2) by (auto simp: set_zip)
  have fits: "fits_u16 (length (mn_table e)) \<and> fits_u16 (length (mn_id e))" if "e \<in> set mem" for e
  proof -
    from that obtain i where "i < length mem" "mem ! i = e" by (auto simp: in_set_conv_nth)
    with wrote(3) perm(2) show ?thesis by (auto simp: located_def)
  qed
  have "opens_to (crc32 E) (writer_finish (crc32 E) w) (pc_generation p)
      (run_list (fj_catalog job) (fj_next_segment_id job) (zip mem locs))"
    using gather_mem_sorted [OF ok] wrote(1) few fits add unfolding mem_def by (rule written_run)
  with opened at nonempty wrote(1) show ?thesis unfolding mem_def opens_to_def by auto
qed

section \<open>Adoption keeps every row\<close>

definition content :: "(u32 \<times> bytes) list \<Rightarrow> version_entry \<Rightarrow> u64 \<times> bytes option result option" where
  "content readers e = (ve_version e, payload_bytes readers (ve_kind e))"

lemma content_new:
  assumes "located out (fst x) (snd x)" and "out \<noteq> []" and "length out < 2 ^ 64" and "mem_entry_of t rid v = Some (fst x)"
  shows "content (AList.update seg out readers) (seg_version seg x) = content readers v"
proof (cases "mn_payload (fst x)")
  case None
  with assms(4) show ?thesis
    by (cases x) (auto simp: content_def seg_version_def mem_entry_of_def payload_bytes_def split: vkind.splits)
next
  case (Some p)
  obtain off len where x: "snd x = (off, len)" by fastforce
  from assms(1) Some x obtain bs where bs: "mem_payload_slice p = Some bs"
    "get_range out (unat off) (unat off + unat len) = Some bs" by (auto simp: located_def)
  then have "unat off + unat len \<le> length out" by (auto simp: get_range_def split: if_splits)
  then have "checked_add (unat off) (unat len) = Some (unat off + unat len)"
    using assms(3) by (simp add: checked_add_def usize_limit_def)
  with bs assms(2) have "reader_payload out off len = Inr bs" by (simp add: reader_payload_def ok_or_def)
  with Some x bs(1) assms(4) show ?thesis
    by (cases x) (auto simp: content_def seg_version_def mem_entry_of_def payload_bytes_def update_conv' ok_or_def
        split: vkind.splits)
qed

definition in_segment :: "u32 \<Rightarrow> version_entry \<Rightarrow> bool" where
  "in_segment seg e \<longleftrightarrow> (case ve_kind e of SegPut s _ _ \<Rightarrow> s = seg | _ \<Rightarrow> False)"

lemma content_old: "\<not> in_segment seg e \<Longrightarrow> content (AList.update seg out readers) e = content readers e"
  by (auto simp: content_def in_segment_def payload_bytes_def update_conv' split: vkind.splits)

lemma new_run_versions:
  assumes "px_entries crc (pr_index run) = run_list ca seg xs"
  shows "set (run_versions crc run t rid) = seg_version seg ` {x \<in> set xs. kept ca (fst x) \<and> mem_key (fst x) = primary_key t rid}"
proof -
  have "values_of (primary_key t rid) (run_list ca seg xs) =
      map (stored_of seg) (filter (\<lambda>x. mem_key (fst x) = primary_key t rid) (filter (\<lambda>x. kept ca (fst x)) xs))"
    by (simp add: values_of_def run_list_def filter_map comp_def)
  then show ?thesis by (auto simp: run_versions_def assms)
qed

lemma idx_ok_orders:
  assumes "idx_ok crc idx"
  shows "e \<in> set (overlay_versions idx t rid) \<Longrightarrow> e' \<in> set (runs_versions crc (pi_runs idx) t rid) \<Longrightarrow> ve_version e' < ve_version e"
    and "e \<in> set (delta_versions (active_table idx t) rid) \<Longrightarrow> e' \<in> set (delta_versions (frozen_table idx t) rid) \<Longrightarrow> ve_version e' < ve_version e"
    and "e \<in> set (runs_versions crc (pi_runs idx) t rid) \<Longrightarrow> e' \<in> set (runs_versions crc (pi_runs idx) t rid) \<Longrightarrow>
      ve_version e = ve_version e' \<Longrightarrow> e = e'"
  using assms unfolding idx_ok_def by blast+

lemma new_entry_origin:
  assumes ok: "overlay_ok frozen" and "x \<in> set (zip (gather_mem frozen) locs)"
  obtains v where "v \<in> set (delta_versions (map_of frozen (mn_table (fst x))) (mn_id (fst x)))"
    "mem_entry_of (mn_table (fst x)) (mn_id (fst x)) v = Some (fst x)" "table_fits (mn_table (fst x))" "rust_str (mn_id (fst x))"
proof -
  have "fst x \<in> set (gather_mem frozen)" using assms(2) by (metis prod.collapse set_zip_leftD)
  then have mem: "fst x \<in> set (mem_entries (mn_table (fst x)) (mn_id (fst x), delta_versions (map_of frozen (mn_table (fst x))) (mn_id (fst x))))"
    using gather_mem_rows [OF ok, of "mn_table (fst x)" "mn_id (fst x)"] by blast
  then obtain v where v: "v \<in> set (delta_versions (map_of frozen (mn_table (fst x))) (mn_id (fst x)))"
    "mem_entry_of (mn_table (fst x)) (mn_id (fst x)) v = Some (fst x)" by (auto simp: mem_entries_iff)
  have "delta_versions (map_of frozen (mn_table (fst x))) (mn_id (fst x)) \<noteq> []" using v(1) by auto
  then obtain d vs where d: "map_of frozen (mn_table (fst x)) = Some d" "delta_get d (mn_id (fst x)) = Some vs"
    by (auto simp: delta_versions_def versions_of_def split: option.splits)
  then have dok: "delta_ok d" "table_fits (mn_table (fst x))" using overlay_ok_get [OF ok] by auto
  then have "(mn_id (fst x), vs) \<in> set (delta_iter d)"
    using d(2) delta_get_exact [of d] by (intro map_of_SomeD) (simp add: delta_ok_def delta_inv_def)
  with dok have "rust_str (mn_id (fst x))" by (force simp: delta_ok_def)
  with v dok that show ?thesis by blast
qed

text \<open>What is known of a prepared checkpoint and the state it is adopted in.\<close>

definition adoptable :: "'j ext \<Rightarrow> 'j frozen_checkpoint_job \<Rightarrow> prepared_checkpoint \<Rightarrow> primary_idx \<Rightarrow> (u64 \<times> u32) list \<Rightarrow> bool" where
  "adoptable E job p idx locs \<longleftrightarrow>
     idx_ok (crc32 E) idx
     \<and> (\<exists>frozen. pi_frozen idx = Some frozen \<and> fp_delta frozen = fj_frozen job)
     \<and> length locs = length (gather_mem (fj_frozen job))
     \<and> (\<forall>x \<in> set (zip (gather_mem (fj_frozen job)) locs). located (pc_file p) (fst x) (snd x))
     \<and> pc_file p \<noteq> [] \<and> length (pc_file p) < 2 ^ 64
     \<and> run_valid (crc32 E) (pr_index (pc_run p))
     \<and> px_entries (crc32 E) (pr_index (pc_run p)) = run_list (fj_catalog job) (fj_next_segment_id job) (zip (gather_mem (fj_frozen job)) locs)"

definition adopted :: "prepared_checkpoint \<Rightarrow> primary_idx \<Rightarrow> primary_idx" where
  "adopted p idx = idx\<lparr>pi_frozen := None, pi_generation := pc_generation p, pi_runs := pi_runs idx @ [pc_run p]\<rparr>"

lemma adopted_tables: "active_table (adopted p idx) t = active_table idx t" "frozen_table (adopted p idx) t = None"
  by (simp_all add: adopted_def active_table_def frozen_table_def)

lemma adopted_runs: "runs_versions crc (pi_runs (adopted p idx)) t rid = runs_versions crc (pi_runs idx) t rid @ run_versions crc (pc_run p) t rid"
  by (simp add: adopted_def runs_versions_def)

lemma frozen_job: "adoptable E job p idx locs \<Longrightarrow> frozen_table idx t = map_of (fj_frozen job) t"
  by (auto simp: adoptable_def frozen_table_def)

lemma new_version_frozen:
  assumes ad: "adoptable E job p idx locs" and e: "e \<in> set (run_versions (crc32 E) (pc_run p) t rid)"
  obtains x t' rid' v where "e = seg_version (fj_next_segment_id job) x" "x \<in> set (zip (gather_mem (fj_frozen job)) locs)"
    "kept (fj_catalog job) (fst x)" "primary_key t' rid' = primary_key t rid" "mn_table (fst x) = t'" "mn_id (fst x) = rid'"
    "v \<in> set (delta_versions (frozen_table idx t') rid')" "mem_entry_of t' rid' v = Some (fst x)"
    "ve_version e = ve_version v" "table_fits t'" "rust_str rid'"
proof -
  from ad have px: "px_entries (crc32 E) (pr_index (pc_run p)) =
      run_list (fj_catalog job) (fj_next_segment_id job) (zip (gather_mem (fj_frozen job)) locs)"
    and ok: "overlay_ok (fj_frozen job)" by (auto simp: adoptable_def idx_ok_def)
  from e new_run_versions [OF px] obtain x where x: "e = seg_version (fj_next_segment_id job) x"
    "x \<in> set (zip (gather_mem (fj_frozen job)) locs)" "kept (fj_catalog job) (fst x)" "mem_key (fst x) = primary_key t rid" by auto
  obtain v where v: "v \<in> set (delta_versions (map_of (fj_frozen job) (mn_table (fst x))) (mn_id (fst x)))"
    "mem_entry_of (mn_table (fst x)) (mn_id (fst x)) v = Some (fst x)" "table_fits (mn_table (fst x))" "rust_str (mn_id (fst x))"
    by (rule new_entry_origin [OF ok x(2)])
  have "ve_version e = ve_version v" using mem_entry_of_Some [OF v(2)] x(1) by (cases x) (simp add: seg_version_def)
  with x v frozen_job [OF ad] show ?thesis by (intro that [of x _ _ v]) (simp_all add: mem_key_def)
qed

lemma runs_versions_key: "primary_key t rid = primary_key t' rid' \<Longrightarrow> runs_versions crc runs t rid = runs_versions crc runs t' rid'"
  by (simp add: runs_versions_def run_versions_def)

lemma adopted_run_ok:
  assumes ad: "adoptable E job p idx locs"
  shows "run_ok (crc32 E) (pc_run p)"
proof -
  from ad have px: "px_entries (crc32 E) (pr_index (pc_run p)) =
      run_list (fj_catalog job) (fj_next_segment_id job) (zip (gather_mem (fj_frozen job)) locs)"
    and ok: "overlay_ok (fj_frozen job)" and valid: "run_valid (crc32 E) (pr_index (pc_run p))" by (auto simp: adoptable_def idx_ok_def)
  have "primary_entry_ok (mem_key (fst x), stored_of (fj_next_segment_id job) x)"
    if "x \<in> set (zip (gather_mem (fj_frozen job)) locs)" for x
    using new_entry_origin [OF ok that] encode_seg_version unfolding primary_entry_ok_def mem_key_def by (metis fst_conv snd_conv)
  with valid px show ?thesis by (auto simp: run_ok_def run_list_def list_all_iff)
qed

lemma sorted_wrt_two: "sorted_wrt R xs \<Longrightarrow> x \<in> set xs \<Longrightarrow> y \<in> set xs \<Longrightarrow> x = y \<or> R x y \<or> R y x"
  by (induction xs) auto

lemma adopted_idx_ok:
  assumes ad: "adoptable E job p idx locs"
  shows "idx_ok (crc32 E) (adopted p idx)"
proof -
  let ?new = "\<lambda>t rid. set (run_versions (crc32 E) (pc_run p) t rid)"
  from ad have ok: "idx_ok (crc32 E) idx" by (simp add: adoptable_def)
  have runs: "ve_version e' < ve_version e" if new: "e \<in> ?new t rid" and old: "e' \<in> set (runs_versions (crc32 E) (pi_runs idx) t rid)" for t rid e e'
  proof -
    from new obtain t' rid' v where key: "primary_key t' rid' = primary_key t rid"
      and v: "v \<in> set (delta_versions (frozen_table idx t') rid')" "ve_version e = ve_version v"
      by (rule new_version_frozen [OF ad])
    from old have "e' \<in> set (runs_versions (crc32 E) (pi_runs idx) t' rid')" using runs_versions_key [OF key] by metis
    with v idx_ok_orders(1) [OF ok, of v t' rid' e'] show ?thesis by (simp add: overlay_versions_def)
  qed
  have active: "ve_version e' < ve_version e" if new: "e' \<in> ?new t rid" and act: "e \<in> set (delta_versions (active_table idx t) rid)" for t rid e e'
  proof -
    from new obtain t' rid' v where key: "primary_key t' rid' = primary_key t rid" and fits: "table_fits t'"
      and v: "v \<in> set (delta_versions (frozen_table idx t') rid')" "ve_version e' = ve_version v"
      by (rule new_version_frozen [OF ad])
    obtain d where "active_table idx t = Some d" using act by (cases "active_table idx t") (simp_all add: delta_versions_def)
    then have "table_fits t" using ok overlay_ok_get unfolding idx_ok_def active_table_def by blast
    with key fits have "t' = t" "rid' = rid" by (simp_all add: primary_key_inject)
    with v act idx_ok_orders(2) [OF ok, of e t rid v] show ?thesis by simp
  qed
  have unique: "e = e'" if e: "e \<in> ?new t rid" "e' \<in> ?new t rid" and same: "ve_version e = ve_version e'" for t rid e e'
  proof -
    obtain x where x: "e = seg_version (fj_next_segment_id job) x" "x \<in> set (zip (gather_mem (fj_frozen job)) locs)"
        "mem_key (fst x) = primary_key t rid"
      using new_version_frozen [OF ad e(1)] by (metis mem_key_def)
    obtain y where y: "e' = seg_version (fj_next_segment_id job) y" "y \<in> set (zip (gather_mem (fj_frozen job)) locs)"
        "mem_key (fst y) = primary_key t rid"
      using new_version_frozen [OF ad e(2)] by (metis mem_key_def)
    have versions: "mn_version (fst x) = mn_version (fst y)" using same x(1) y(1) by (cases x; cases y) (simp add: seg_version_def)
    have "sorted_wrt mem_less (gather_mem (fj_frozen job))" "length locs = length (gather_mem (fj_frozen job))"
      using gather_mem_sorted ad by (auto simp: adoptable_def idx_ok_def)
    then have "sorted_wrt (\<lambda>x y. mem_less (fst x) (fst y)) (zip (gather_mem (fj_frozen job)) locs)"
      using sorted_wrt_map [of mem_less fst "zip (gather_mem (fj_frozen job)) locs"] by simp
    then have "x = y \<or> mem_less (fst x) (fst y) \<or> mem_less (fst y) (fst x)"
      using sorted_wrt_two [of "\<lambda>x y. mem_less (fst x) (fst y)" _ x y] x(2) y(2) by blast
    with versions x(3) y(3) have "x = y" by (auto simp: mem_less_def)
    with x(1) y(1) show ?thesis by simp
  qed
  have "list_all (run_ok (crc32 E)) (pi_runs (adopted p idx))" "overlay_ok (pi_delta (adopted p idx))"
    "pi_frozen (adopted p idx) = None"
    using ok adopted_run_ok [OF ad] by (auto simp: idx_ok_def adopted_def)
  moreover have "ve_version e' < ve_version e" if "e \<in> set (overlay_versions (adopted p idx) t rid)"
      "e' \<in> set (runs_versions (crc32 E) (pi_runs (adopted p idx)) t rid)" for t rid e e'
    using that active [of e' t rid e] idx_ok_orders(1) [OF ok, of e t rid e']
    by (auto simp: overlay_versions_def adopted_tables adopted_runs delta_versions_def [of None])
  moreover have "e = e'" if "e \<in> set (runs_versions (crc32 E) (pi_runs (adopted p idx)) t rid)"
      "e' \<in> set (runs_versions (crc32 E) (pi_runs (adopted p idx)) t rid)" "ve_version e = ve_version e'" for t rid e e'
    using that unique [of e t rid e'] runs [of e t rid e'] runs [of e' t rid e] idx_ok_orders(3) [OF ok, of e t rid e']
    by (auto simp: adopted_runs)
  moreover have "delta_versions (frozen_table (adopted p idx) t) rid = []" for t rid by (simp add: adopted_tables delta_versions_def)
  ultimately show ?thesis unfolding idx_ok_def by simp
qed

text \<open>The rows before and after: same versions with the same contents, but for versions at or below the
  table's epoch, which no reader sees.\<close>

lemma adopted_rows:
  assumes ad: "adoptable E job p idx locs" and fits: "table_fits t"
    and kinds: "\<forall>v \<in> set (delta_versions (map_of (fj_frozen job) t) rid). mem_entry_of t rid v \<noteq> None"
    and fresh: "\<forall>e \<in> set (all_versions (crc32 E) idx t rid). \<not> in_segment (fj_next_segment_id job) e"
  shows "e \<in> set (all_versions (crc32 E) idx t rid) \<Longrightarrow> job_epoch (fj_catalog job) t < ve_version e \<Longrightarrow>
      \<exists>e' \<in> set (all_versions (crc32 E) (adopted p idx) t rid).
        content (AList.update (fj_next_segment_id job) (pc_file p) readers) e' = content readers e"
    and "e' \<in> set (all_versions (crc32 E) (adopted p idx) t rid) \<Longrightarrow>
      \<exists>e \<in> set (all_versions (crc32 E) idx t rid).
        content readers e = content (AList.update (fj_next_segment_id job) (pc_file p) readers) e'"
proof -
  let ?seg = "fj_next_segment_id job" and ?frozen = "fj_frozen job"
  from ad have loc: "\<forall>x \<in> set (zip (gather_mem ?frozen) locs). located (pc_file p) (fst x) (snd x)" "pc_file p \<noteq> []"
    "length (pc_file p) < 2 ^ 64" and len: "length locs = length (gather_mem ?frozen)" and ok: "overlay_ok ?frozen"
    and px: "px_entries (crc32 E) (pr_index (pc_run p)) = run_list (fj_catalog job) ?seg (zip (gather_mem ?frozen) locs)"
    by (auto simp: adoptable_def idx_ok_def)
  have before: "set (all_versions (crc32 E) idx t rid) = set (runs_versions (crc32 E) (pi_runs idx) t rid)
      \<union> set (delta_versions (map_of ?frozen t) rid) \<union> set (delta_versions (active_table idx t) rid)"
    by (auto simp: all_versions_def overlay_versions_def frozen_job [OF ad])
  have after: "set (all_versions (crc32 E) (adopted p idx) t rid) = set (runs_versions (crc32 E) (pi_runs idx) t rid)
      \<union> set (run_versions (crc32 E) (pc_run p) t rid) \<union> set (delta_versions (active_table idx t) rid)"
    by (auto simp: all_versions_def overlay_versions_def adopted_tables adopted_runs delta_versions_def [of None])
  {
    assume e: "e \<in> set (all_versions (crc32 E) idx t rid)" "job_epoch (fj_catalog job) t < ve_version e"
    show "\<exists>e' \<in> set (all_versions (crc32 E) (adopted p idx) t rid).
        content (AList.update ?seg (pc_file p) readers) e' = content readers e"
    proof (cases "e \<in> set (delta_versions (map_of ?frozen t) rid)")
      case False
      with e(1) before after fresh content_old [of ?seg e] show ?thesis by blast
    next
      case True
      with kinds obtain m where m: "mem_entry_of t rid e = Some m" by blast
      with True have "m \<in> set (mem_entries t (rid, delta_versions (map_of ?frozen t) rid))" by (auto simp: mem_entries_iff)
      then have "m \<in> set (gather_mem ?frozen)" using gather_mem_rows [OF ok, of t rid] by blast
      then obtain x where x: "x \<in> set (zip (gather_mem ?frozen) locs)" "fst x = m"
        using len by (metis in_set_impl_in_set_zip1 fst_conv)
      have "kept (fj_catalog job) m" "mem_key m = primary_key t rid"
        using e(2) mem_entry_of_Some [OF m] by (simp_all add: kept_def mem_key_def)
      with x have "seg_version ?seg x \<in> set (run_versions (crc32 E) (pc_run p) t rid)"
        unfolding new_run_versions [OF px] by blast
      moreover have "content (AList.update ?seg (pc_file p) readers) (seg_version ?seg x) = content readers e"
        using content_new [of "pc_file p" x t rid e] loc x m by blast
      ultimately show ?thesis using after by blast
    qed
  }
  {
    assume e': "e' \<in> set (all_versions (crc32 E) (adopted p idx) t rid)"
    show "\<exists>e \<in> set (all_versions (crc32 E) idx t rid). content readers e = content (AList.update ?seg (pc_file p) readers) e'"
    proof (cases "e' \<in> set (run_versions (crc32 E) (pc_run p) t rid)")
      case False
      then have "e' \<in> set (all_versions (crc32 E) idx t rid)" using e' before after by blast
      with fresh content_old [of ?seg e'] show ?thesis by metis
    next
      case True
      then obtain x t' rid' v where x: "e' = seg_version ?seg x" "x \<in> set (zip (gather_mem ?frozen) locs)"
        and key: "primary_key t' rid' = primary_key t rid" and v: "v \<in> set (delta_versions (frozen_table idx t') rid')"
        "mem_entry_of t' rid' v = Some (fst x)" and t': "table_fits t'"
        by (rule new_version_frozen [OF ad])
      from key t' fits have "t' = t" "rid' = rid" by (simp_all add: primary_key_inject)
      with v have "v \<in> set (all_versions (crc32 E) idx t rid)" using before frozen_job [OF ad] by simp
      moreover have "content (AList.update ?seg (pc_file p) readers) e' = content readers v"
        using content_new [of "pc_file p" x t' rid' v] loc x v(2) by blast
      ultimately show ?thesis by metis
    qed
  }
qed

text \<open>Two directories whose rows agree above the epoch answer reads alike.\<close>

lemma same_rows_read:
  assumes ok: "idx_ok crc idx" "idx_ok crc idx'"
    and fwd: "\<And>e. e \<in> set (all_versions crc idx t rid) \<Longrightarrow> ep < ve_version e \<Longrightarrow>
      \<exists>e' \<in> set (all_versions crc idx' t rid). content readers' e' = content readers e"
    and bwd: "\<And>e'. e' \<in> set (all_versions crc idx' t rid) \<Longrightarrow>
      \<exists>e \<in> set (all_versions crc idx t rid). content readers e = content readers' e'"
  shows "\<exists>r r'. fst (newest_at_or_before crc idx t rid m) = Inr r \<and> fst (newest_at_or_before crc idx' t rid m) = Inr r'
    \<and> map_option (content readers') (opt_filter (\<lambda>e. ve_version e > ep) r') = map_option (content readers) (opt_filter (\<lambda>e. ve_version e > ep) r)"
proof -
  obtain r where r: "fst (newest_at_or_before crc idx t rid m) = Inr r" "is_newest m (all_versions crc idx t rid) r"
    using newest_at_or_before_exact [OF ok(1), of t rid m] by force
  obtain r' where r': "fst (newest_at_or_before crc idx' t rid m) = Inr r'" "is_newest m (all_versions crc idx' t rid) r'"
    using newest_at_or_before_exact [OF ok(2), of t rid m] by force
  have version: "ve_version a = ve_version b" if "content x a = content y b" for x y a b
    using that by (simp add: content_def)
  have left: "\<exists>e. r = Some e \<and> content readers e = content readers' e'" if e': "r' = Some e'" and new: "ep < ve_version e'" for e'
  proof -
    from e' r'(2) bwd obtain e where e: "e \<in> set (all_versions crc idx t rid)" "content readers e = content readers' e'" "ve_version e' \<le> m"
      by (auto simp: is_newest_simps)
    then obtain f where f: "r = Some f" "ve_version e \<le> ve_version f" "f \<in> set (all_versions crc idx t rid)" "ve_version f \<le> m"
      using r(2) version [OF e(2)] by (cases r) (auto simp: is_newest_simps not_less [symmetric])
    have "ep < ve_version f" using new version [OF e(2)] f(2) by simp
    from fwd [OF f(3) this] obtain g where g: "g \<in> set (all_versions crc idx' t rid)" "content readers' g = content readers f"
      by blast
    then have "ve_version f \<le> ve_version e'" using r'(2) e' f(4) version [OF g(2)] by (auto simp: is_newest_simps)
    then have "ve_version f = ve_version e" using f(2) version [OF e(2)] by simp
    then have "f = e" by (rule inj_onD [OF idx_versions_unique [OF ok(1)] _ f(3) e(1)])
    with f e show ?thesis by blast
  qed
  have right: "\<exists>e'. r' = Some e' \<and> ep < ve_version e'" if e: "r = Some e" and new: "ep < ve_version e" for e
  proof -
    from e r(2) have here: "e \<in> set (all_versions crc idx t rid)" "ve_version e \<le> m" by (simp_all add: is_newest_simps)
    from fwd [OF here(1) new] obtain e' where e': "e' \<in> set (all_versions crc idx' t rid)" "content readers' e' = content readers e"
      by blast
    note v = version [OF e'(2)]
    show ?thesis
    proof (cases r')
      case None
      with r'(2) e'(1) have "m < ve_version e'" by (simp add: is_newest_simps)
      with here(2) v show ?thesis by simp
    next
      case (Some f)
      from r'(2) [unfolded Some is_newest_simps] e'(1) here(2) v have "ve_version e' \<le> ve_version f" by metis
      with Some new v show ?thesis by simp
    qed
  qed
  have "map_option (content readers') (opt_filter (\<lambda>e. ve_version e > ep) r') = map_option (content readers) (opt_filter (\<lambda>e. ve_version e > ep) r)"
  proof (cases "\<exists>e'. r' = Some e' \<and> ep < ve_version e'")
    case True
    then obtain e' where e': "r' = Some e'" "ep < ve_version e'" by blast
    from left [OF this] obtain e where "r = Some e" "content readers e = content readers' e'" by blast
    with e' version [OF this(2)] show ?thesis by (simp add: opt_filter_def)
  next
    case False
    then have "opt_filter (\<lambda>e. ve_version e > ep) r' = None" by (cases r') (auto simp: opt_filter_def)
    moreover from False right have "opt_filter (\<lambda>e. ve_version e > ep) r = None" by (cases r) (auto simp: opt_filter_def)
    ultimately show ?thesis by simp
  qed
  with r r' show ?thesis by blast
qed

section \<open>Thawing loses nothing\<close>

text \<open>The rows of a frozen table merged one by one into an active one.\<close>

definition merged_into :: "version_list \<Rightarrow> version_list \<Rightarrow> version_list \<Rightarrow> bool" where
  "merged_into old vs new \<longleftrightarrow> ve_version ` set new = ve_version ` (set old \<union> set vs) \<and> set new \<subseteq> set old \<union> set vs"

lemma merged_into_set: "merged_into old vs new \<Longrightarrow> inj_on ve_version (set old \<union> set vs) \<Longrightarrow> set new = set old \<union> set vs"
  unfolding merged_into_def by (metis inj_on_image_eq_iff order_refl)

lemma delta_ids: "delta_inv d \<Longrightarrow> fst ` set (delta_iter d) = {k. delta_get d k \<noteq> None}"
  using delta_get_exact [of d] map_of_eq_None_iff [of "delta_iter d"] by (auto simp: delta_inv_def)

lemma merge_row_ok:
  assumes ok: "delta_ok d" and us: "sorts_by_version us" and "rust_str rid" and asc: "sorted_wrt (<) (map ve_version vs)"
  shows "delta_ok (merge_versions us rid vs d)"
    and "k \<noteq> rid \<Longrightarrow> versions_of (merge_versions us rid vs d) k = versions_of d k"
    and "merged_into (versions_of d rid) vs (versions_of (merge_versions us rid vs d) rid)"
proof -
  from ok have inv: "delta_inv d" by (simp add: delta_ok_def)
  note merge = merge_versions_refines [OF inv us asc, where rid = rid]
  show other: "versions_of (merge_versions us rid vs d) k = versions_of d k" if "k \<noteq> rid" for k
    using merge(2) [OF that] by (simp add: versions_of_def)
  have "rust_str k" if "delta_get (merge_versions us rid vs d) k \<noteq> None" for k
  proof (cases "k = rid")
    case False
    then have "k \<in> fst ` set (delta_iter d)" using that merge(2) delta_ids [OF inv] by simp
    with ok show ?thesis by (auto simp: delta_ok_def)
  qed (use assms(3) in simp)
  moreover have "sorted_wrt (<) (map ve_version (versions_of (merge_versions us rid vs d) k))" for k
    using merge(3) other [of k] ok by (cases "k = rid") (simp_all add: delta_ok_def)
  ultimately show "delta_ok (merge_versions us rid vs d)"
    using merge(1) delta_ids [OF merge(1)] by (simp add: delta_ok_def)
  show "merged_into (versions_of d rid) vs (versions_of (merge_versions us rid vs d) rid)"
    using merge(4,5) by (simp add: merged_into_def)
qed

lemma merge_rows_ok:
  assumes "delta_ok d" and us: "sorts_by_version us" and "distinct (map fst rows)"
    and "\<forall>(rid, vs) \<in> set rows. rust_str rid \<and> sorted_wrt (<) (map ve_version vs)"
  shows "delta_ok (foldl (\<lambda>d (rid, vs). merge_versions us rid vs d) d rows)
    \<and> (\<forall>k. k \<notin> fst ` set rows \<longrightarrow> versions_of (foldl (\<lambda>d (rid, vs). merge_versions us rid vs d) d rows) k = versions_of d k)
    \<and> (\<forall>(k, vs) \<in> set rows. merged_into (versions_of d k) vs
         (versions_of (foldl (\<lambda>d (rid, vs). merge_versions us rid vs d) d rows) k))"
  using assms(1,3,4)
proof (induction rows arbitrary: d)
  case (Cons row rows)
  obtain rid vs where row: "row = (rid, vs)" by fastforce
  from Cons.prems row have good: "rust_str rid" "sorted_wrt (<) (map ve_version vs)" by auto
  note step = merge_row_ok [OF Cons.prems(1) us good]
  have IH: "delta_ok (foldl (\<lambda>d (rid, vs). merge_versions us rid vs d) (merge_versions us rid vs d) rows)"
    "\<And>k. k \<notin> fst ` set rows \<Longrightarrow> versions_of (foldl (\<lambda>d (rid, vs). merge_versions us rid vs d) (merge_versions us rid vs d) rows) k
        = versions_of (merge_versions us rid vs d) k"
    "\<And>k ws. (k, ws) \<in> set rows \<Longrightarrow> merged_into (versions_of (merge_versions us rid vs d) k) ws
        (versions_of (foldl (\<lambda>d (rid, vs). merge_versions us rid vs d) (merge_versions us rid vs d) rows) k)"
    using Cons.IH [OF step(1)] Cons.prems(2,3) by auto
  have other: "k \<noteq> rid" if "(k, ws) \<in> set rows" for k ws using that Cons.prems(2) row by force
  show ?case using IH step(2,3) other Cons.prems(2) by (auto simp: row)
qed simp

definition thaw_active :: "primary_delta \<Rightarrow> string \<Rightarrow> primary_table_delta" where
  "thaw_active delta t = (case map_of delta t of Some d \<Rightarrow> d | None \<Rightarrow> delta_default)"

lemma thaw_active_versions: "versions_of (thaw_active delta t) rid = delta_versions (map_of delta t) rid"
  by (auto simp: thaw_active_def delta_versions_def versions_of_default split: option.splits)

lemma thaw_table_ok:
  assumes ok: "overlay_ok delta" and us: "sorts_by_version us" and ids: "delta_ok ids" "table_fits t"
  shows "overlay_ok (thaw_table us (t, ids) delta)"
    and "t' \<noteq> t \<Longrightarrow> map_of (thaw_table us (t, ids) delta) t' = map_of delta t'"
    and "merged_into (delta_versions (map_of delta t) rid) (versions_of ids rid)
      (delta_versions (map_of (thaw_table us (t, ids) delta) t) rid)"
proof -
  let ?D = "foldl (\<lambda>d (rid, vs). merge_versions us rid vs d) (thaw_active delta t) (delta_iter ids)"
  have thaw: "thaw_table us (t, ids) delta = AList.update t ?D delta" by (simp add: thaw_table_def thaw_active_def)
  have "delta_ok (thaw_active delta t)"
    using overlay_ok_get [OF ok] delta_ok_default by (auto simp: thaw_active_def split: option.splits)
  moreover have "\<forall>(rid, vs) \<in> set (delta_iter ids). rust_str rid \<and> sorted_wrt (<) (map ve_version vs)"
    using ids(1) delta_iter_versions [OF ids(1)] by (fastforce simp: delta_ok_def)
  ultimately have D: "delta_ok ?D" "\<And>k. k \<notin> fst ` set (delta_iter ids) \<Longrightarrow> versions_of ?D k = versions_of (thaw_active delta t) k"
    "\<And>k vs. (k, vs) \<in> set (delta_iter ids) \<Longrightarrow> merged_into (versions_of (thaw_active delta t) k) vs (versions_of ?D k)"
    using merge_rows_ok [OF _ us sorted_keys_distinct [OF delta_iter_sorted [OF ids(1)]], of "thaw_active delta t"] by auto
  show "overlay_ok (thaw_table us (t, ids) delta)"
    using ok D(1) ids(2) set_alist_update [of t ?D delta] by (auto simp: overlay_ok_def thaw list_all_iff distinct_update)
  show "t' \<noteq> t \<Longrightarrow> map_of (thaw_table us (t, ids) delta) t' = map_of delta t'" by (simp add: thaw update_conv')
  have new: "delta_versions (map_of (thaw_table us (t, ids) delta) t) rid = versions_of ?D rid"
    by (simp add: thaw update_conv' delta_versions_def)
  show "merged_into (delta_versions (map_of delta t) rid) (versions_of ids rid)
      (delta_versions (map_of (thaw_table us (t, ids) delta) t) rid)"
  proof (cases "rid \<in> fst ` set (delta_iter ids)")
    case True
    then obtain vs where "(rid, vs) \<in> set (delta_iter ids)" by auto
    with D(3) delta_iter_versions [OF ids(1)] show ?thesis unfolding new by (fastforce simp: thaw_active_versions)
  next
    case False
    then have "delta_get ids rid = None" using delta_ids [of ids] ids(1) by (auto simp: delta_ok_def)
    then have "versions_of ids rid = []" by (simp add: versions_of_def)
    with D(2) [OF False] show ?thesis unfolding new by (simp add: thaw_active_versions merged_into_def)
  qed
qed

lemma thaw_tables_ok:
  assumes "overlay_ok delta" and us: "sorts_by_version us" and "overlay_ok frozen"
  shows "overlay_ok (foldl (\<lambda>delta entry. thaw_table us entry delta) delta frozen)
    \<and> merged_into (delta_versions (map_of delta t) rid) (delta_versions (map_of frozen t) rid)
        (delta_versions (map_of (foldl (\<lambda>delta entry. thaw_table us entry delta) delta frozen) t) rid)
    \<and> (map_of frozen t = None \<longrightarrow> map_of (foldl (\<lambda>delta entry. thaw_table us entry delta) delta frozen) t = map_of delta t)"
  using assms(1,3)
proof (induction frozen arbitrary: delta)
  case Nil
  then show ?case by (simp add: merged_into_def delta_versions_def [of None])
next
  case (Cons entry frozen)
  obtain t0 ids where entry: "entry = (t0, ids)" by fastforce
  from Cons.prems entry have ids: "delta_ok ids" "table_fits t0" and rest: "overlay_ok frozen" and new: "map_of frozen t0 = None"
    by (auto simp: overlay_ok_def map_of_eq_None_iff)
  note step = thaw_table_ok [OF Cons.prems(1) us ids]
  note IH = Cons.IH [OF step(1) rest]
  show ?case
  proof (cases "t = t0")
    case True
    with IH new step(3) [of rid] show ?thesis by (simp add: entry delta_versions_def [of "Some _"])
  next
    case False
    with IH step(2) [OF False] show ?thesis by (simp add: entry)
  qed
qed

lemma thaw_primary_ok:
  assumes ok: "idx_ok crc idx" and us: "sorts_by_version us"
  shows "idx_ok crc (thaw_primary us idx)"
    and "set (all_versions crc (thaw_primary us idx) t rid) = set (all_versions crc idx t rid)"
proof -
  have "idx_ok crc (thaw_primary us idx) \<and> set (all_versions crc (thaw_primary us idx) t rid) = set (all_versions crc idx t rid)"
  proof (cases "pi_frozen idx")
    case None
    with ok show ?thesis by (simp add: thaw_primary_def)
  next
    case (Some frozen)
    let ?idx = "thaw_primary us idx"
    let ?delta = "foldl (\<lambda>delta entry. thaw_table us entry delta) (pi_delta idx) (fp_delta frozen)"
    have idx: "?idx = idx\<lparr>pi_frozen := None, pi_delta := ?delta\<rparr>" by (simp add: thaw_primary_def Some)
    have overlays: "overlay_ok (pi_delta idx)" "overlay_ok (fp_delta frozen)" using ok Some by (auto simp: idx_ok_def)
    have same: "set (overlay_versions ?idx t rid) = set (overlay_versions idx t rid)" for t rid
    proof -
      have "merged_into (delta_versions (map_of (pi_delta idx) t) rid) (delta_versions (map_of (fp_delta frozen) t) rid)
          (delta_versions (map_of ?delta t) rid)"
        using thaw_tables_ok [OF overlays(1) us overlays(2)] by blast
      moreover have "inj_on ve_version (set (delta_versions (map_of (pi_delta idx) t) rid) \<union> set (delta_versions (map_of (fp_delta frozen) t) rid))"
        by (rule inj_on_subset [OF idx_versions_unique [OF ok, of t rid]])
          (auto simp: all_versions_def overlay_versions_def active_table_def frozen_table_def Some)
      ultimately show ?thesis
        using merged_into_set by (auto simp: overlay_versions_def active_table_def frozen_table_def idx Some delta_versions_def [of None])
    qed
    have runs: "pi_runs ?idx = pi_runs idx" by (simp add: idx)
    have "overlay_ok (pi_delta ?idx)" using thaw_tables_ok [OF overlays(1) us overlays(2)] by (simp add: idx)
    moreover have "pi_frozen ?idx = None" by (simp add: idx)
    moreover have "delta_versions (frozen_table ?idx t) rid = []" for t rid by (simp add: idx frozen_table_def delta_versions_def)
    ultimately have "idx_ok crc ?idx" using ok unfolding idx_ok_def same runs by simp
    with same show ?thesis by (simp add: all_versions_def runs)
  qed
  then show "idx_ok crc (thaw_primary us idx)" "set (all_versions crc (thaw_primary us idx) t rid) = set (all_versions crc idx t rid)"
    by simp_all
qed

section \<open>Checkpoints that complete\<close>

definition mem_storable :: "mem_entry \<Rightarrow> bool" where
  "mem_storable e \<longleftrightarrow> fits_u16 (length (mn_table e)) \<and> fits_u16 (length (mn_id e)) \<and> payload_slice (mn_payload e) \<noteq> None"

definition mem_size :: "mem_entry \<Rightarrow> nat" where
  "mem_size e = 21 + length (mn_table e) + length (mn_id e) + (case mn_payload e of Some p \<Rightarrow> unat (mp_len p) | None \<Rightarrow> 0)"

lemma slice_length: "mem_payload_slice p = Some bs \<Longrightarrow> length bs = unat (mp_len p)"
  by (auto simp: mem_payload_slice_def get_range_def split: if_splits)

lemma encode_storable:
  assumes "mem_storable e"
  shows "\<exists>payload encoded rel. payload_slice (mn_payload e) = Some payload
    \<and> encode_entry_into E (mn_version e) (mn_table e) (mn_id e) payload = Inr (encoded, rel)"
proof -
  from assms obtain payload where p: "payload_slice (mn_payload e) = Some payload" by (auto simp: mem_storable_def)
  have "fits_u32 (length (case payload of Some b \<Rightarrow> b | None \<Rightarrow> []))"
  proof (cases "mn_payload e")
    case None
    with p show ?thesis by (simp add: payload_slice_def fits_u32_def)
  next
    case (Some m)
    with p slice_length [of m] unat_bound [of "mp_len m"] show ?thesis by (auto simp: payload_slice_def fits_u32_def)
  qed
  with p assms show ?thesis by (simp add: encode_entry_into_def mem_storable_def require_def Let_def)
qed

lemma encode_length:
  assumes "payload_slice (mn_payload e) = Some payload"
    and "encode_entry_into E (mn_version e) (mn_table e) (mn_id e) payload = Inr (encoded, rel)"
  shows "length encoded = mem_size e"
proof -
  have "length (case payload of Some b \<Rightarrow> b | None \<Rightarrow> []) = (case mn_payload e of Some p \<Rightarrow> unat (mp_len p) | None \<Rightarrow> 0)"
    using assms(1) slice_length by (auto simp: payload_slice_def split: option.splits)
  with assms(2) show ?thesis
    unfolding encode_entry_into_def Let_def by (auto simp: rbind_eq_Inr require_eq_Inr mem_size_def)
qed

lemma write_entries_length:
  "write_entries E mem order out pos locs = Some (Inr (out', pos', locs')) \<Longrightarrow>
     length out' = length out + sum_list (map (\<lambda>i. mem_size (mem ! i)) order)"
proof (induction order arbitrary: out pos locs)
  case (Cons i order)
  then obtain payload encoded rel where
    enc: "payload_slice (mn_payload (mem ! i)) = Some payload"
      "encode_entry_into E (mn_version (mem ! i)) (mn_table (mem ! i)) (mn_id (mem ! i)) payload = Inr (encoded, rel)"
    and rest: "write_entries E mem order (out @ encoded) (u64_saturating_add pos (of_nat (length encoded)))
        (locs[i := (pos + of_nat rel, case mn_payload (mem ! i) of Some p \<Rightarrow> mp_len p | None \<Rightarrow> 0)]) = Some (Inr (out', pos', locs'))"
    by (auto split: option.splits sum.splits)
  show ?case using Cons.IH [OF rest] encode_length [OF enc] by simp
qed simp

lemma write_entries_succeeds:
  assumes "\<forall>i \<in> set order. mem_storable (mem ! i)"
  shows "\<exists>out' pos' locs'. write_entries E mem order out pos locs = Some (Inr (out', pos', locs')) \<and> length locs' = length locs"
  using assms
proof (induction order arbitrary: out pos locs)
  case (Cons i order)
  obtain payload encoded rel where here: "payload_slice (mn_payload (mem ! i)) = Some payload"
    "encode_entry_into E (mn_version (mem ! i)) (mn_table (mem ! i)) (mn_id (mem ! i)) payload = Inr (encoded, rel)"
    using encode_storable [of "mem ! i" E] Cons.prems by auto
  let ?locs = "locs[i := (pos + of_nat rel, case mn_payload (mem ! i) of Some p \<Rightarrow> mp_len p | None \<Rightarrow> 0)]"
  have "\<exists>out' pos' locs'. write_entries E mem order (out @ encoded) (u64_saturating_add pos (of_nat (length encoded))) ?locs =
      Some (Inr (out', pos', locs')) \<and> length locs' = length ?locs" by (rule Cons.IH) (use Cons.prems in simp)
  with here show ?case by simp
qed simp

lemma prepared_length:
  assumes "prepare_checkpoint E order io ulid job = Some (Inr (Some p))" and "permutes_mem order"
  shows "length (pc_file p) = sum_list (map mem_size (gather_mem (fj_frozen job)))"
proof -
  let ?mem = "gather_mem (fj_frozen job)"
  from prepare_parts [OF assms(1)] obtain pos locs where
    wr: "write_entries E ?mem (order ?mem) [] 0 (replicate (length ?mem) (0, 0)) = Some (Inr (pc_file p, pos, locs))" by blast
  have "mset (map (\<lambda>i. mem_size (?mem ! i)) (order ?mem)) = mset (map (\<lambda>i. mem_size (?mem ! i)) [0..<length ?mem])"
    using assms(2) unfolding permutes_mem_def mset_map by metis
  also have "map (\<lambda>i. mem_size (?mem ! i)) [0..<length ?mem] = map mem_size ?mem"
    by (rule nth_equalityI) simp_all
  finally have "sum_list (map (\<lambda>i. mem_size (?mem ! i)) (order ?mem)) = sum_list (map mem_size ?mem)"
    using sum_mset_sum_list [of "map (\<lambda>i. mem_size (?mem ! i)) (order ?mem)"] sum_mset_sum_list [of "map mem_size ?mem"] by simp
  with write_entries_length [OF wr] show ?thesis by simp
qed

lemma prepare_succeeds:
  assumes "gather_mem (fj_frozen job) \<noteq> []" and "list_all mem_storable (gather_mem (fj_frozen job))"
    and ok: "overlay_ok (fj_frozen job)" and order: "permutes_mem order" and few: "length (gather_mem (fj_frozen job)) < 2 ^ 32"
    and io: "io 0 = Inr ()" "io 1 = Inr ()"
  shows "\<exists>p. prepare_checkpoint E order io ulid job = Some (Inr (Some p))"
proof -
  let ?mem = "gather_mem (fj_frozen job)" and ?seg = "fj_next_segment_id job"
  have same: "mset (order ?mem) = mset [0..<length ?mem]" using order by (simp add: permutes_mem_def)
  have "\<forall>i \<in> set (order ?mem). mem_storable (?mem ! i)"
    using assms(2) mset_eq_setD [OF same] by (simp add: list_all_length)
  from write_entries_succeeds [OF this] obtain out pos locs where
    wr: "write_entries E ?mem (order ?mem) [] 0 (replicate (length ?mem) (0, 0)) = Some (Inr (out, pos, locs))"
      "length locs = length ?mem" by (metis length_replicate)
  let ?dv = "primary_generation (fj_version job) (fj_segments job @ [\<lparr>sm_id = ?seg, sm_len = pos\<rparr>]) (fj_catalog job)"
  have fits: "fits_u16 (length (mn_table e)) \<and> fits_u16 (length (mn_id e))" if "e \<in> set ?mem" for e
    using assms(2) that by (auto simp: list_all_iff mem_storable_def)
  obtain w where w: "rbind (writer_create ?dv None) (add_run_entries (crc32 E) (fj_catalog job) ?seg (zip ?mem locs)) = Inr w"
    using run_writes [OF gather_mem_sorted [OF ok] wr(2) few fits] by blast
  obtain ix where "paged_open (crc32 E) (writer_finish (crc32 E) w) = Some (Inr ix)"
    using written_run [OF gather_mem_sorted [OF ok] wr(2) few fits w] unfolding opens_to_def by blast
  with wr w io assms(1) show ?thesis by (simp add: prepare_checkpoint_def Let_def)
qed

section \<open>A checkpoint is transparent\<close>

text \<open>Commits that land while a checkpoint runs: each pushes a version newer than its row's.\<close>

definition push_state :: "'j state \<Rightarrow> string \<times> string \<times> version_entry \<Rightarrow> 'j state" where
  "push_state st c = (case c of (tname, rid, e) \<Rightarrow> st\<lparr>st_index := primary_push tname rid e (st_index st)\<rparr>)"

fun pushes_ok :: "(bytes \<Rightarrow> u32) \<Rightarrow> primary_idx \<Rightarrow> (string \<times> string \<times> version_entry) list \<Rightarrow> bool" where
  "pushes_ok crc idx [] = True"
| "pushes_ok crc idx ((tname, rid, e) # cs) =
     (table_fits tname \<and> rust_str rid \<and> (\<forall>e' \<in> set (all_versions crc idx tname rid). ve_version e' < ve_version e)
      \<and> pushes_ok crc (primary_push tname rid e idx) cs)"

text \<open>Two directories with the same versions stay so under the same commits.\<close>

lemma pushes_same:
  assumes "idx_ok crc (st_index st)" and "idx_ok crc (st_index st')" and "pushes_ok crc (st_index st) cs"
    and "\<And>t rid. set (all_versions crc (st_index st') t rid) = set (all_versions crc (st_index st) t rid)"
  shows "idx_ok crc (st_index (foldl push_state st cs)) \<and> idx_ok crc (st_index (foldl push_state st' cs))
    \<and> set (all_versions crc (st_index (foldl push_state st' cs)) t rid) = set (all_versions crc (st_index (foldl push_state st cs)) t rid)"
  using assms
proof (induction cs arbitrary: st st')
  case (Cons c cs)
  obtain tname i e where c: "c = (tname, i, e)" by (cases c)
  from Cons.prems(3) c have fits: "table_fits tname" "rust_str i"
    and new: "\<forall>e' \<in> set (all_versions crc (st_index st) tname i). ve_version e' < ve_version e"
    and rest: "pushes_ok crc (primary_push tname i e (st_index st)) cs" by auto
  note one = primary_push_ok [OF Cons.prems(1) fits new]
  have new': "\<forall>e' \<in> set (all_versions crc (st_index st') tname i). ve_version e' < ve_version e" using new Cons.prems(4) by simp
  note two = primary_push_ok [OF Cons.prems(2) fits new']
  show ?case
    using Cons.IH [of "push_state st c" "push_state st' c"] one two rest Cons.prems(4)
    by (simp add: push_state_def c)
qed simp

lemma push_state_simps [simp]:
  "st_readers (foldl push_state st cs) = st_readers st" "st_catalog (foldl push_state st cs) = st_catalog st"
  "pi_frozen (st_index (foldl push_state st cs)) = pi_frozen (st_index st)"
  by (induction cs arbitrary: st) (auto simp: push_state_def primary_push_def split: prod.splits)

lemma push_state_runs: "pi_runs (st_index (foldl push_state st cs)) = pi_runs (st_index st)"
  by (induction cs arbitrary: st) (auto simp: push_state_def primary_push_def split: prod.splits)

text \<open>Freezing moves versions between overlays and loses none.\<close>

lemma freeze_same:
  assumes ok: "idx_ok crc idx" and none: "pi_frozen idx = None"
  shows "idx_ok crc (idx\<lparr>pi_delta := [], pi_frozen := Some \<lparr>fp_version = v, fp_delta = pi_delta idx, fp_arc = arc\<rparr>\<rparr>)"
    and "all_versions crc (idx\<lparr>pi_delta := [], pi_frozen := Some \<lparr>fp_version = v, fp_delta = pi_delta idx, fp_arc = arc\<rparr>\<rparr>) t rid
      = all_versions crc idx t rid"
proof -
  let ?idx = "idx\<lparr>pi_delta := [], pi_frozen := Some \<lparr>fp_version = v, fp_delta = pi_delta idx, fp_arc = arc\<rparr>\<rparr>"
  have over: "overlay_versions ?idx t rid = overlay_versions idx t rid" for t rid
    using none by (simp add: overlay_versions_def frozen_table_def active_table_def delta_versions_def [of None])
  then show "all_versions crc ?idx t rid = all_versions crc idx t rid" by (simp add: all_versions_def)
  have "delta_versions (active_table ?idx t) rid = []" for t rid by (simp add: active_table_def delta_versions_def)
  with ok none over show "idx_ok crc ?idx" unfolding idx_ok_def by (simp add: overlay_ok_def [of "[]"])
qed

lemma schedule_parts:
  assumes "schedule_frozen_checkpoint us supported running sent arc wal_id wal_len st = (st1, Some job)"
  shows "pi_frozen (st_index st) = None" "fj_frozen job = pi_delta (st_index st)" "fj_arc job = arc"
    "fj_next_segment_id job = st_next_segment_id st" "fj_catalog job = st_catalog st" "fj_version job = st_committed_version st"
    "st1 = st\<lparr>st_index := (st_index st)\<lparr>pi_delta := [], pi_frozen := Some \<lparr>fp_version = st_committed_version st,
       fp_delta = pi_delta (st_index st), fp_arc = arc\<rparr>\<rparr>\<rparr>"
  using assms by (auto simp: schedule_frozen_checkpoint_def Let_def split: if_splits)

lemma read_row_content:
  "read_row crc st t rid m =
     (case table (st_catalog st) t of
        None \<Rightarrow> Inr None
      | Some schema \<Rightarrow> rbind (fst (newest_at_or_before crc (st_index st) t rid m))
          (\<lambda>r. Inr (map_option (content (st_readers st)) (opt_filter (\<lambda>e. ve_version e > ts_epoch schema) r))))"
  by (auto simp: read_row_def visible_owned_def content_def [abs_def] rbind_def split: option.splits prod.splits sum.splits)

lemma read_row_same:
  assumes "idx_ok crc (st_index st)" and "idx_ok crc (st_index st')" and "st_catalog st' = st_catalog st"
    and fwd: "\<And>e schema. table (st_catalog st) t = Some schema \<Longrightarrow> e \<in> set (all_versions crc (st_index st) t rid) \<Longrightarrow>
      ts_epoch schema < ve_version e \<Longrightarrow> \<exists>e' \<in> set (all_versions crc (st_index st') t rid). content (st_readers st') e' = content (st_readers st) e"
    and bwd: "\<And>e'. e' \<in> set (all_versions crc (st_index st') t rid) \<Longrightarrow>
      \<exists>e \<in> set (all_versions crc (st_index st) t rid). content (st_readers st) e = content (st_readers st') e'"
  shows "read_row crc st' t rid m = read_row crc st t rid m"
proof (cases "table (st_catalog st) t")
  case None
  with assms(3) show ?thesis by (simp add: read_row_content)
next
  case (Some schema)
  show ?thesis
    using same_rows_read [where m = m and ep = "ts_epoch schema", OF assms(1,2) fwd [OF Some] bwd] Some assms(3) by (auto simp: read_row_content)
qed

lemma read_row_same_versions:
  assumes "idx_ok crc (st_index st)" and "idx_ok crc (st_index st')" and "st_catalog st' = st_catalog st" and "st_readers st' = st_readers st"
    and "set (all_versions crc (st_index st') t rid) = set (all_versions crc (st_index st) t rid)"
  shows "read_row crc st' t rid m = read_row crc st t rid m"
  by (rule read_row_same [OF assms(1-3)]) (use assms(4,5) in auto)

text \<open>The sizes and kinds a checkpoint relies on: what it freezes was committed since the last one and is
  in memory, and the id of the new segment is not in use.\<close>

definition checkpoint_fits :: "(bytes \<Rightarrow> u32) \<Rightarrow> primary_delta \<Rightarrow> u32 \<Rightarrow> primary_idx \<Rightarrow> bool" where
  "checkpoint_fits crc frozen seg idx \<longleftrightarrow>
     length (gather_mem frozen) < 2 ^ 32 \<and> sum_list (map mem_size (gather_mem frozen)) < 2 ^ 64
     \<and> (\<forall>t rid. \<forall>v \<in> set (delta_versions (map_of frozen t) rid). mem_entry_of t rid v \<noteq> None)
     \<and> (\<forall>t rid. \<forall>e \<in> set (all_versions crc idx t rid). \<not> in_segment seg e)"

lemma adopt_same:
  assumes prep: "prepare_checkpoint E order io ulid job = Some (Inr (Some p))" and adopt: "adopt_checkpoint job p st = Inr st'"
    and ok: "idx_ok (crc32 E) (st_index st)" and order: "permutes_mem order"
    and frozen: "\<And>f. pi_frozen (st_index st) = Some f \<Longrightarrow> fp_arc f = fj_arc job \<Longrightarrow> fp_delta f = fj_frozen job"
    and fits: "checkpoint_fits (crc32 E) (fj_frozen job) (fj_next_segment_id job) (st_index st)"
    and epoch: "\<And>schema. table (st_catalog st) t = Some schema \<Longrightarrow> job_epoch (fj_catalog job) t \<le> ts_epoch schema" and "table_fits t"
  shows "idx_ok (crc32 E) (st_index st') \<and> read_row (crc32 E) st' t rid m = read_row (crc32 E) st t rid m"
proof -
  from adopt have st': "st_index st' = adopted p (st_index st)"
    "st_readers st' = AList.update (fj_next_segment_id job) (pc_file p) (st_readers st)" "st_catalog st' = st_catalog st"
    and still: "still_frozen job (st_index st)"
    by (auto simp: adopt_checkpoint_def adopted_def Let_def split: if_splits)
  from still frozen obtain f where f: "pi_frozen (st_index st) = Some f" "fp_delta f = fj_frozen job"
    by (auto simp: still_frozen_def split: option.splits)
  with ok have "overlay_ok (fj_frozen job)" by (auto simp: idx_ok_def)
  moreover have len: "length (pc_file p) < 2 ^ 64" using prepared_length [OF prep order] fits by (simp add: checkpoint_fits_def)
  ultimately obtain locs where ad: "adoptable E job p (st_index st) locs"
    using prepare_checkpoint_run [OF prep _ order] fits f ok unfolding adoptable_def checkpoint_fits_def by blast
  have ok': "idx_ok (crc32 E) (st_index st')" using adopted_idx_ok [OF ad] st' by simp
  have kinds: "\<forall>v \<in> set (delta_versions (map_of (fj_frozen job) t) rid). mem_entry_of t rid v \<noteq> None"
    and fresh: "\<forall>e \<in> set (all_versions (crc32 E) (st_index st) t rid). \<not> in_segment (fj_next_segment_id job) e"
    using fits by (auto simp: checkpoint_fits_def)
  note rows = adopted_rows [OF ad \<open>table_fits t\<close> kinds fresh, of _ "st_readers st"]
  have "read_row (crc32 E) st' t rid m = read_row (crc32 E) st t rid m"
    by (rule read_row_same [OF ok ok' st'(3)]) (use rows epoch order.strict_trans1 in \<open>auto simp: st'\<close>)
  with ok' show ?thesis by simp
qed

lemma flush_same:
  assumes flush: "flush_frozen_checkpoint E us order io ulid middle finishing meanwhile job st = Some (st', r)"
    and ok: "idx_ok (crc32 E) (st_index (meanwhile st))" and us: "sorts_by_version us" and order: "permutes_mem order"
    and frozen: "\<And>f. pi_frozen (st_index (meanwhile st)) = Some f \<Longrightarrow> fp_arc f = fj_arc job \<Longrightarrow> fp_delta f = fj_frozen job"
    and fits: "checkpoint_fits (crc32 E) (fj_frozen job) (fj_next_segment_id job) (st_index (meanwhile st))"
    and epoch: "\<And>schema. table (st_catalog (meanwhile st)) t = Some schema \<Longrightarrow> job_epoch (fj_catalog job) t \<le> ts_epoch schema"
    and "table_fits t"
  shows "idx_ok (crc32 E) (st_index st') \<and> read_row (crc32 E) st' t rid m = read_row (crc32 E) (meanwhile st) t rid m"
proof -
  have thaw: "idx_ok (crc32 E) (st_index (thaw_frozen_checkpoint us s)) \<and>
      read_row (crc32 E) (thaw_frozen_checkpoint us s) t rid m = read_row (crc32 E) s t rid m"
    if "idx_ok (crc32 E) (st_index s)" for s :: "'a state"
    using thaw_primary_ok [OF that us] read_row_same_versions [OF that, of "thaw_frozen_checkpoint us s"]
    by (simp add: thaw_frozen_checkpoint_def)
  show ?thesis
  proof (cases "\<exists>p st2. prepare_checkpoint E order io ulid job = Some (Inr (Some p)) \<and> middle = Inr () \<and> adopt_checkpoint job p (meanwhile st) = Inr st2")
    case True
    then obtain p st2 where p: "prepare_checkpoint E order io ulid job = Some (Inr (Some p))" "middle = Inr ()"
      "adopt_checkpoint job p (meanwhile st) = Inr st2" by blast
    note same = adopt_same [OF p(1,3) ok order frozen fits epoch \<open>table_fits t\<close>]
    show ?thesis
      using flush p same thaw [of st2] by (cases finishing) (auto simp: flush_frozen_checkpoint_def Let_def)
  next
    case False
    then have "st' = meanwhile st \<or> st' = thaw_frozen_checkpoint us (meanwhile st)"
      using flush by (auto simp: flush_frozen_checkpoint_def Let_def rbind_def split: option.splits sum.splits)
    with ok thaw [OF ok] show ?thesis by auto
  qed
qed

section \<open>Properties\<close>

text \<open>C26. A background checkpoint is transparent to readers. Whatever its file operations do, whether it
  completes, fails or is thawed, and whatever commits land while it runs: afterwards every row reads as
  if the commits had been made and no checkpoint, and the directory is well formed.\<close>

theorem checkpoint_transparent:
  assumes "idx_ok (crc32 E) (st_index st)"
    and "schedule_frozen_checkpoint us True False True arc wal_id wal_len st = (st1, Some job)"
    and "pushes_ok (crc32 E) (st_index st) commits"
    and "flush_frozen_checkpoint E us order io ulid middle finishing (\<lambda>s. foldl push_state s commits) job st1 = Some (st2, r)"
    and "sorts_by_version us" and "permutes_mem order"
    and "checkpoint_fits (crc32 E) (pi_delta (st_index st)) (st_next_segment_id st) (st_index (foldl push_state st commits))"
    and "table_fits t"
  shows "idx_ok (crc32 E) (st_index st2)
    \<and> read_row (crc32 E) st2 t rid m = read_row (crc32 E) (foldl push_state st commits) t rid m"
proof -
  note job = schedule_parts [OF assms(2)]
  note freeze = freeze_same [OF assms(1) job(1), of "st_committed_version st" arc]
  have ok1: "idx_ok (crc32 E) (st_index st1)" using freeze(1) by (simp add: job)
  have same1: "set (all_versions (crc32 E) (st_index st1) t rid) = set (all_versions (crc32 E) (st_index st) t rid)" for t rid
    using freeze(2) by (simp add: job)
  note pushed = pushes_same [OF assms(1) ok1 assms(3) same1]
  let ?st = "foldl push_state st1 commits"
  have cat: "st_catalog ?st = st_catalog st" "st_readers ?st = st_readers st" by (simp_all add: job)
  have fits: "checkpoint_fits (crc32 E) (fj_frozen job) (fj_next_segment_id job) (st_index ?st)"
    using assms(7) pushed by (simp add: checkpoint_fits_def job(2,4))
  have "idx_ok (crc32 E) (st_index st2) \<and> read_row (crc32 E) st2 t rid m = read_row (crc32 E) ?st t rid m"
    by (rule flush_same [OF assms(4) _ assms(5,6) _ fits _ assms(8)])
      (use pushed in \<open>auto simp: cat job job_epoch_def\<close>)
  moreover have "read_row (crc32 E) ?st t rid m = read_row (crc32 E) (foldl push_state st commits) t rid m"
    by (rule read_row_same_versions) (use pushed cat in simp_all)
  ultimately show ?thesis by simp
qed

text \<open>A state with two versions of one row, for the witnesses: a payload and its deletion.\<close>

abbreviation sample_put :: version_entry where
  "sample_put \<equiv> \<lparr>ve_version = 5, ve_kind = MemPut \<lparr>mp_bytes = [1, 2, 3], mp_start = 1, mp_len = 2\<rparr>\<rparr>"

abbreviation sample_rows :: primary_idx where
  "sample_rows \<equiv> primary_push ''users'' ''a'' (tomb 7) (primary_push ''users'' ''a'' sample_put primary_empty)"

abbreviation sample_state :: "bytes state" where
  "sample_state \<equiv> \<lparr>st_index = sample_rows, st_segments = [], st_next_segment_id = 1, st_readers = [], st_superseded_segments = {},
     st_committed_version = 7, st_catalog = sample_catalog ''uid'' Ty_Int64 ''id'', st_identity_high_water = []\<rparr>"

definition version_order :: "mem_entry list \<Rightarrow> nat list" where
  "version_order mem = sort_key (\<lambda>i. mn_version (mem ! i)) [0..<length mem]"

lemma version_order: "permutes_mem version_order"
  by (simp add: permutes_mem_def version_order_def)

lemma sample_rows_ok: "idx_ok crc sample_rows"
  and sample_rows_versions: "all_versions crc sample_rows t i = (if t = ''users'' \<and> i = ''a'' then [sample_put, tomb 7] else [])"
proof -
  have fits: "table_fits ''users''" by (simp add: table_fits_def)
  note one = primary_push_ok [OF idx_ok_empty fits, of "''a''" crc sample_put, simplified all_versions_empty, simplified]
  note two = primary_push_ok [OF one(1) fits, of "''a''" "tomb 7", unfolded one(2), simplified]
  show "idx_ok crc sample_rows" "all_versions crc sample_rows t i = (if t = ''users'' \<and> i = ''a'' then [sample_put, tomb 7] else [])"
    using two by (simp_all add: one(2))
qed

lemma sample_pushes: "pushes_ok crc sample_rows [(''users'', ''a'', tomb 9)]"
  by (simp add: sample_rows_versions table_fits_def)

lemma sample_gather: "gather_mem (pi_delta sample_rows) =
    [\<lparr>mn_table = ''users'', mn_id = ''a'', mn_version = 5, mn_payload = Some \<lparr>mp_bytes = [1, 2, 3], mp_start = 1, mp_len = 2\<rparr>\<rparr>,
     \<lparr>mn_table = ''users'', mn_id = ''a'', mn_version = 7, mn_payload = None\<rparr>]"
  by code_simp

lemma sample_fits: "checkpoint_fits crc (pi_delta sample_rows) 1 (st_index (foldl push_state sample_state [(''users'', ''a'', tomb 9)]))"
proof -
  have fits: "table_fits ''users''" by (simp add: table_fits_def)
  have all: "all_versions crc (primary_push ''users'' ''a'' (tomb 9) sample_rows) t i =
      (if t = ''users'' \<and> i = ''a'' then [sample_put, tomb 7, tomb 9] else [])" for t i
    using primary_push_ok(2) [OF sample_rows_ok fits, of "''a''" crc "tomb 9" t i] by (simp add: sample_rows_versions)
  have "set (delta_versions (map_of (pi_delta sample_rows) t) i) \<subseteq> set (all_versions crc sample_rows t i)" for t i
    by (auto simp: all_versions_def overlay_versions_def active_table_def)
  then have "mem_entry_of t i v \<noteq> None" if "v \<in> set (delta_versions (map_of (pi_delta sample_rows) t) i)" for t i v
    using that by (fastforce simp: sample_rows_versions mem_entry_of_def split: if_splits)
  then show ?thesis
    unfolding checkpoint_fits_def sample_gather
    by (simp add: mem_size_def push_state_def all in_segment_def)
qed

lemma sample_schedule:
  obtains st1 job where "schedule_frozen_checkpoint us True False True 0 1 0 sample_state = (st1, Some job)"
proof -
  have "pi_delta sample_rows \<noteq> []" "pi_frozen sample_rows = None" by code_simp+
  then show ?thesis using that by (simp add: schedule_frozen_checkpoint_def Let_def)
qed

lemma sample_storable: "list_all mem_storable (gather_mem (pi_delta sample_rows))"
  unfolding sample_gather
  by (simp add: mem_storable_def payload_slice_def mem_payload_slice_def get_range_def fits_u16_def)

text \<open>C27. A checkpoint whose file operations succeed completes: the frozen delta is gone, its entries are
  in one more run, and the manifest's segment list has the new segment, which holds every payload.\<close>

theorem checkpoint_completes:
  assumes "idx_ok (crc32 E) (st_index st)"
    and "schedule_frozen_checkpoint us True False True arc wal_id wal_len st = (st1, Some job)"
    and "pushes_ok (crc32 E) (st_index st) commits" and "permutes_mem order"
    and "checkpoint_fits (crc32 E) (pi_delta (st_index st)) (st_next_segment_id st) (st_index (foldl push_state st commits))"
    and "gather_mem (pi_delta (st_index st)) \<noteq> []" and "list_all mem_storable (gather_mem (pi_delta (st_index st)))"
    and "io 0 = Inr ()" and "io 1 = Inr ()"
  shows "\<exists>st2 run len. flush_frozen_checkpoint E us order io ulid (Inr ()) (Inr ()) (\<lambda>s. foldl push_state s commits) job st1 = Some (st2, Inr ())
    \<and> pi_frozen (st_index st2) = None \<and> pi_runs (st_index st2) = pi_runs (st_index st) @ [run]
    \<and> st_segments st2 = st_segments st @ [\<lparr>sm_id = st_next_segment_id st, sm_len = len\<rparr>]
    \<and> st_next_segment_id st2 = st_next_segment_id st + 1"
proof -
  note job = schedule_parts [OF assms(2)]
  have over: "overlay_ok (fj_frozen job)" using assms(1) by (simp add: job(2) idx_ok_def)
  have few: "length (gather_mem (fj_frozen job)) < 2 ^ 32" using assms(5) by (simp add: checkpoint_fits_def job(2))
  obtain p where p: "prepare_checkpoint E order io ulid job = Some (Inr (Some p))"
    using prepare_succeeds [OF _ _ over assms(4) few assms(8,9)] assms(6,7) by (auto simp: job(2))
  have segs: "\<exists>len. pc_segments p = st_segments st @ [\<lparr>sm_id = st_next_segment_id st, sm_len = len\<rparr>]"
    using prepare_segments [OF p] assms(2) by (auto simp: schedule_frozen_checkpoint_def Let_def split: if_splits)
  have still: "still_frozen job (st_index (foldl push_state st1 commits))"
    by (simp add: still_frozen_def job)
  have runs: "pi_runs (st_index (foldl push_state st1 commits)) = pi_runs (st_index st)"
    by (simp add: push_state_runs job)
  from segs obtain len where "pc_segments p = st_segments st @ [\<lparr>sm_id = st_next_segment_id st, sm_len = len\<rparr>]" by blast
  with still p runs show ?thesis
    by (auto simp: flush_frozen_checkpoint_def adopt_checkpoint_def Let_def job(4))
qed

theorem checkpoint_completes_witness:
  "\<exists>st1 job st2 run. schedule_frozen_checkpoint (sort_key ve_version) True False True 0 1 0 sample_state = (st1, Some job)
     \<and> flush_frozen_checkpoint sample_ext (sort_key ve_version) version_order (\<lambda>_. Inr ()) ''01'' (Inr ()) (Inr ())
          (\<lambda>s. foldl push_state s [(''users'', ''a'', tomb 9)]) job st1 = Some (st2, Inr ())
     \<and> pi_frozen (st_index st2) = None \<and> pi_runs (st_index st2) = [run] \<and> st_next_segment_id st2 = 2"
proof -
  obtain st1 job where s: "schedule_frozen_checkpoint (sort_key ve_version) True False True 0 1 0 sample_state = (st1, Some job)"
    by (rule sample_schedule)
  have ok: "idx_ok (crc32 sample_ext) (st_index sample_state)" "pushes_ok (crc32 sample_ext) (st_index sample_state) [(''users'', ''a'', tomb 9)]"
    "checkpoint_fits (crc32 sample_ext) (pi_delta (st_index sample_state)) (st_next_segment_id sample_state)
       (st_index (foldl push_state sample_state [(''users'', ''a'', tomb 9)]))"
    "gather_mem (pi_delta (st_index sample_state)) \<noteq> []" "list_all mem_storable (gather_mem (pi_delta (st_index sample_state)))"
    using sample_rows_ok sample_pushes sample_fits sample_gather sample_storable by simp_all
  have "pi_runs sample_rows = []" by code_simp
  then show ?thesis
    using checkpoint_completes [OF ok(1) s ok(2) version_order ok(3-5), of "\<lambda>_. Inr ()" "''01''"] s by auto
qed

theorem checkpoint_transparent_witness:
  "\<exists>st1 job st2 r. schedule_frozen_checkpoint (sort_key ve_version) True False True 0 1 0 sample_state = (st1, Some job)
     \<and> flush_frozen_checkpoint sample_ext (sort_key ve_version) version_order (\<lambda>_. Inr ()) ''01'' (Inl (Io ''disk full'')) (Inr ())
          (\<lambda>s. foldl push_state s [(''users'', ''a'', tomb 9)]) job st1 = Some (st2, r)
     \<and> read_row (crc32 sample_ext) st2 ''users'' ''a'' 6 = Inr (Some (5, Some (Inr (Some [2, 3]))))"
proof -
  obtain st1 job where s: "schedule_frozen_checkpoint (sort_key ve_version) True False True 0 1 0 sample_state = (st1, Some job)"
    by (rule sample_schedule)
  let ?commits = "[(''users'', ''a'', tomb 9)]"
  have ok: "idx_ok (crc32 sample_ext) (st_index sample_state)" "pushes_ok (crc32 sample_ext) (st_index sample_state) ?commits"
    "checkpoint_fits (crc32 sample_ext) (pi_delta (st_index sample_state)) (st_next_segment_id sample_state)
       (st_index (foldl push_state sample_state ?commits))"
    using sample_rows_ok sample_pushes sample_fits by simp_all
  note job = schedule_parts [OF s]
  have "\<exists>p. prepare_checkpoint sample_ext version_order (\<lambda>_. Inr ()) ''01'' job = Some (Inr (Some p))"
    by (rule prepare_succeeds)
      (use sample_gather sample_storable sample_rows_ok version_order in \<open>simp_all add: job(2) idx_ok_def\<close>)
  then obtain st2 r where f: "flush_frozen_checkpoint sample_ext (sort_key ve_version) version_order (\<lambda>_. Inr ()) ''01''
      (Inl (Io ''disk full'')) (Inr ()) (\<lambda>s. foldl push_state s ?commits) job st1 = Some (st2, r)"
    by (auto simp: flush_frozen_checkpoint_def Let_def)
  have us: "sorts_by_version (sort_key ve_version)" by (simp add: sorts_by_version_def)
  have fits: "table_fits ''users''" by (simp add: table_fits_def)
  have "read_row (crc32 sample_ext) (foldl push_state sample_state ?commits) ''users'' ''a'' 6 = Inr (Some (5, Some (Inr (Some [2, 3]))))"
    by code_simp
  with checkpoint_transparent [OF ok(1) s ok(2) f us version_order ok(3) fits, of "''a''" 6] s f show ?thesis by metis
qed

end
