(* ===== verification/Wal_Handover.thy ===== *)
theory Wal_Handover
  imports Wal_Recovery Manifest
begin

text \<open>
  The hand-over of the log during a checkpoint (\<open>db/maintenance.rs\<close>) as a state machine, with
  commits between any two steps, crashes and reopenings. A background checkpoint reserves two empty
  successors of the log, tells the manifest about them, moves the writer to the second, copies the
  records behind the checkpoint to the first (the bridge), and publishes a manifest with the bridge
  as its anchor. A blocking checkpoint starts a new log under the commit lock. A step that fails
  ends the checkpoint where it stands.

  The state is the manifest in force and the log files, each holding whole records. A crash may
  leave a part of one more record at the end of the file in use; what a power failure does to data
  that was written but not synced is not modelled here. Log ids stay below \<open>u32::MAX\<close>.
\<close>

section \<open>The state machine\<close>

datatype stage = Idle | Frozen | Bridged | Reserved | Extended | Switched | Copied | Rotated

record wal_job =
  hj_wal_id :: u32
  hj_wal_cutoff :: nat
  hj_version :: u64

record 'j handover =
  ho_manifest :: "'j manifest"
  ho_dir :: wal_dir
  ho_writer :: u32
  ho_version :: u64
  ho_stage :: stage
  ho_job :: wal_job
  ho_committed :: "wal_record list"

definition wal_file :: "'j handover \<Rightarrow> u32 \<Rightarrow> bytes" where
  "wal_file s fid = (case map_of (ho_dir s) (wal_file_name fid) of Some bs \<Rightarrow> bs | None \<Rightarrow> [])"

definition wal_exists :: "'j handover \<Rightarrow> u32 \<Rightarrow> bool" where
  "wal_exists s fid \<longleftrightarrow> map_of (ho_dir s) (wal_file_name fid) \<noteq> None"

definition set_wal :: "u32 \<Rightarrow> bytes \<Rightarrow> 'j handover \<Rightarrow> 'j handover" where
  "set_wal fid bs s = s\<lparr>ho_dir := AList.update (wal_file_name fid) bs (ho_dir s)\<rparr>"

definition remove_wal :: "u32 \<Rightarrow> 'j handover \<Rightarrow> 'j handover" where
  "remove_wal fid s = s\<lparr>ho_dir := AList.delete (wal_file_name fid) (ho_dir s)\<rparr>"

definition bridge_id :: "'j handover \<Rightarrow> u32" where
  "bridge_id s = hj_wal_id (ho_job s) + 1"

definition active_id :: "'j handover \<Rightarrow> u32" where
  "active_id s = hj_wal_id (ho_job s) + 2"

text \<open>An append of a whole record to the file in use.\<close>

definition commit_wal :: "'j ext \<Rightarrow> wal_record \<Rightarrow> 'j handover \<Rightarrow> 'j handover" where
  "commit_wal E r s =
     (set_wal (ho_writer s) (wal_file s (ho_writer s) @ commit_bytes E r) s)
       \<lparr>ho_version := wr_version r, ho_committed := ho_committed s @ [r]\<rparr>"

definition freeze_wal :: "'j handover \<Rightarrow> 'j handover" where
  "freeze_wal s =
     s\<lparr>ho_stage := Frozen,
       ho_job := \<lparr>hj_wal_id = ho_writer s, hj_wal_cutoff = length (wal_file s (ho_writer s)), hj_version = ho_version s\<rparr>\<rparr>"

definition extend_manifest :: "'j handover \<Rightarrow> 'j handover" where
  "extend_manifest s = s\<lparr>ho_manifest := (ho_manifest s)\<lparr>mf_required_wal_id := active_id s\<rparr>, ho_stage := Extended\<rparr>"

text \<open>The records between the cutoff and the end of the old log.\<close>

definition copy_tail :: "'j handover \<Rightarrow> 'j handover" where
  "copy_tail s =
     (set_wal (bridge_id s) (drop (hj_wal_cutoff (ho_job s)) (wal_file s (hj_wal_id (ho_job s)))) s)\<lparr>ho_stage := Copied\<rparr>"

definition publish_handover :: "'j handover \<Rightarrow> 'j handover" where
  "publish_handover s =
     s\<lparr>ho_manifest := (ho_manifest s)\<lparr>mf_committed_version := hj_version (ho_job s), mf_wal_id := bridge_id s,
         mf_required_wal_id := active_id s\<rparr>, ho_stage := Idle\<rparr>"

definition publish_rotation :: "'j handover \<Rightarrow> 'j handover" where
  "publish_rotation s =
     s\<lparr>ho_manifest := (ho_manifest s)\<lparr>mf_committed_version := ho_version s, mf_wal_id := ho_writer s + 1,
         mf_required_wal_id := ho_writer s + 1\<rparr>, ho_writer := ho_writer s + 1, ho_stage := Idle\<rparr>"

text \<open>No commit can come between the creation of the new log of a blocking checkpoint and the switch to
  it, which hold the commit lock.\<close>

inductive handover_step :: "'j ext \<Rightarrow> 'j handover \<Rightarrow> 'j handover \<Rightarrow> bool" for E where
  commit: "ho_stage s \<noteq> Rotated \<Longrightarrow> u64_checked_succ (ho_version s) = Some (wr_version r) \<Longrightarrow> wf_record r \<Longrightarrow>
    length (wal_file s (ho_writer s) @ commit_bytes E r) < usize_limit \<Longrightarrow> handover_step E s (commit_wal E r s)"
| freeze: "ho_stage s = Idle \<Longrightarrow> handover_step E s (freeze_wal s)"
| reserve_bridge: "ho_stage s = Frozen \<Longrightarrow> unat (hj_wal_id (ho_job s)) + 3 < 2 ^ 32 \<Longrightarrow> \<not> wal_exists s (bridge_id s) \<Longrightarrow>
    handover_step E s ((set_wal (bridge_id s) [] s)\<lparr>ho_stage := Bridged\<rparr>)"
| reserve_active: "ho_stage s = Bridged \<Longrightarrow> \<not> wal_exists s (active_id s) \<Longrightarrow>
    handover_step E s ((set_wal (active_id s) [] s)\<lparr>ho_stage := Reserved\<rparr>)"
| release_active: "ho_stage s = Reserved \<Longrightarrow> handover_step E s ((remove_wal (active_id s) s)\<lparr>ho_stage := Bridged\<rparr>)"
| release_bridge: "ho_stage s = Bridged \<Longrightarrow> handover_step E s ((remove_wal (bridge_id s) s)\<lparr>ho_stage := Frozen\<rparr>)"
| extend: "ho_stage s = Reserved \<Longrightarrow> ho_writer s = hj_wal_id (ho_job s) \<Longrightarrow>
    hj_wal_cutoff (ho_job s) \<le> length (wal_file s (ho_writer s)) \<Longrightarrow> handover_step E s (extend_manifest s)"
| switch: "ho_stage s = Extended \<Longrightarrow> handover_step E s (s\<lparr>ho_writer := active_id s, ho_stage := Switched\<rparr>)"
| copy: "ho_stage s = Switched \<Longrightarrow> handover_step E s (copy_tail s)"
| publish: "ho_stage s = Copied \<Longrightarrow> handover_step E s (publish_handover s)"
| give_up: "ho_stage s \<in> {Frozen, Extended, Switched, Copied, Rotated} \<Longrightarrow> handover_step E s (s\<lparr>ho_stage := Idle\<rparr>)"
| rotate: "ho_stage s = Idle \<Longrightarrow> unat (ho_writer s) + 2 < 2 ^ 32 \<Longrightarrow>
    handover_step E s ((set_wal (ho_writer s + 1) [] s)\<lparr>ho_stage := Rotated\<rparr>)"
| finish_rotation: "ho_stage s = Rotated \<Longrightarrow> handover_step E s (publish_rotation s)"
| cleanup: "ho_stage s = Idle \<Longrightarrow> fid < mf_wal_id (ho_manifest s) \<Longrightarrow> handover_step E s (remove_wal fid s)"

text \<open>What a crash may find: the files, the one in use possibly with a part of a record that was
  not committed. (A part that contains an encoded record in turn is refused at open; see \<open>Wal\<close>.)\<close>

definition crashed :: "'j ext \<Rightarrow> 'j handover \<Rightarrow> wal_dir \<Rightarrow> bool" where
  "crashed E s dir \<longleftrightarrow> dir = ho_dir s
     \<or> (\<exists>r k. wf_record r \<and> 0 < k \<and> k < length (commit_bytes E r)
          \<and> length (wal_file s (ho_writer s)) + length (commit_bytes E r) < usize_limit
          \<and> dir = AList.update (wal_file_name (ho_writer s)) (wal_file s (ho_writer s) @ take k (commit_bytes E r)) (ho_dir s)
          \<and> ws_corruption (scan_wal E (wal_file s (ho_writer s) @ take k (commit_bytes E r))) = None)"

definition replay_start :: "'j manifest \<Rightarrow> replay" where
  "replay_start m = \<lparr>rp_version = mf_committed_version m, rp_identity = map_of (mf_identity_high_water m), rp_pushed = [],
     rp_memtable_bytes = 0, rp_active_wal = mf_wal_id m\<rparr>"

text \<open>Opening after a crash: the replay, and the manifest told about the last file when it is new to it.\<close>

definition reopened :: "'j ext \<Rightarrow> wal_dir \<Rightarrow> 'j handover \<Rightarrow> 'j handover option" where
  "reopened E dir s =
     (let m = ho_manifest s in
      case replay_wals E False dir (mf_wal_id m) (replay_start m) of
        (dir, Inl _) \<Rightarrow> None
      | (dir, Inr st) \<Rightarrow>
          Some (s\<lparr>ho_manifest := (if rp_active_wal st > mf_required_wal_id m then m\<lparr>mf_required_wal_id := rp_active_wal st\<rparr> else m),
                  ho_dir := dir, ho_writer := rp_active_wal st, ho_version := rp_version st, ho_stage := Idle\<rparr>))"

inductive handovers :: "'j ext \<Rightarrow> 'j handover \<Rightarrow> 'j handover \<Rightarrow> bool" for E where
  start: "handovers E s s"
| online: "handovers E s t \<Longrightarrow> handover_step E t u \<Longrightarrow> handovers E s u"
| crash: "handovers E s t \<Longrightarrow> crashed E t dir \<Longrightarrow> reopened E dir t = Some u \<Longrightarrow> handovers E s u"

text \<open>A fresh database: an empty log under the initial manifest.\<close>

definition handover_initial :: "'j handover" where
  "handover_initial = \<lparr>ho_manifest = manifest_initial, ho_dir = [(wal_file_name 1, [])], ho_writer = 1, ho_version = 0,
     ho_stage = Idle, ho_job = \<lparr>hj_wal_id = 0, hj_wal_cutoff = 0, hj_version = 0\<rparr>, ho_committed = []\<rparr>"

section \<open>Sequences of versions\<close>

lemma check_versions_app:
  "check_versions fid v (rs @ rs') = Inr w \<longleftrightarrow> (\<exists>u. check_versions fid v rs = Inr u \<and> check_versions fid u rs' = Inr w)"
  by (induction rs arbitrary: v) auto

lemma check_versions_join:
  "check_versions fid v rs = Inr u \<Longrightarrow> check_versions fid u rs' = Inr w \<Longrightarrow> check_versions fid v (rs @ rs') = Inr w"
  by (auto simp: check_versions_app)

lemma check_versions_fid: "check_versions fid v rs = Inr w \<Longrightarrow> check_versions fid' v rs = Inr w"
  by (induction rs arbitrary: v) (auto split: if_splits)

lemma check_versions_bound: "check_versions fid v rs = Inr w \<Longrightarrow> r \<in> set rs \<Longrightarrow> wr_version r \<le> w"
proof (induction rs arbitrary: v)
  case (Cons a rs)
  then obtain u where u: "check_versions fid u rs = Inr w" "wr_version a \<le> u" by (auto split: if_splits)
  then have "wr_version a \<le> w" using check_versions_le [OF u(1)] by (simp add: word_le_nat_alt)
  with Cons.IH [OF u(1)] Cons.prems(2) show ?case by auto
qed simp

lemma check_versions_skip: "\<forall>r \<in> set rs. wr_version r \<le> v \<Longrightarrow> check_versions fid v rs = Inr v \<and> applied v rs = []"
  by (induction rs) auto

lemma check_versions_next:
  assumes "check_versions fid v rs = Inr w" and "u64_checked_succ w = Some (wr_version r)"
  shows "check_versions fid v (rs @ [r]) = Inr (wr_version r)" and "applied v (rs @ [r]) = applied v rs @ [r]"
  using assms checked_succ_Some [OF assms(2)]
  by (auto simp: check_versions_app check_versions_append word_le_nat_alt)

text \<open>The versions of a database are numbered without gaps.\<close>

abbreviation versions_from :: "nat \<Rightarrow> nat \<Rightarrow> wal_record list \<Rightarrow> bool" where
  "versions_from v w rs \<equiv> map (\<lambda>r. unat (wr_version r)) rs = [Suc v..<Suc w]"

lemma versions_from_check:
  "versions_from (unat v) (unat w) rs \<Longrightarrow> unat v \<le> unat w \<Longrightarrow> check_versions fid v rs = Inr w \<and> applied v rs = rs"
proof (induction rs arbitrary: v)
  case Nil
  then show ?case by (auto simp: word_unat_eq_iff split: if_splits)
next
  case (Cons r rs)
  have lt: "unat v < unat w" using Cons.prems by (cases "unat v < unat w") auto
  then have list: "[Suc (unat v)..<Suc (unat w)] = Suc (unat v) # [Suc (Suc (unat v))..<Suc (unat w)]"
    by (subst upt_conv_Cons) auto
  with Cons.prems(1) have r: "unat (wr_version r) = Suc (unat v)" and rs: "versions_from (unat (wr_version r)) (unat w) rs"
    by simp_all
  have "v \<noteq> - 1" using lt unat_bound [of w] by (auto simp: unat_minus_one)
  then have "u64_checked_succ v = Some (v + 1)" "unat (v + 1) = Suc (unat v)" by (simp_all add: u64_checked_succ_def unat_succ)
  then have succ: "u64_checked_succ v = Some (wr_version r)" using r by (simp add: word_unat_eq_iff)
  have "\<not> wr_version r \<le> v" using r by (simp add: word_le_nat_alt)
  with Cons.IH [OF rs] succ r lt show ?case by simp
qed

lemma versions_from_filter:
  assumes "versions_from 0 (unat w) rs" and "unat v \<le> unat w"
  shows "versions_from (unat v) (unat w) (filter (\<lambda>r. v < wr_version r) rs)"
proof -
  have "map (\<lambda>r. unat (wr_version r)) (filter (\<lambda>r. v < wr_version r) rs) = filter (\<lambda>n. unat v < n) (map (\<lambda>r. unat (wr_version r)) rs)"
    by (simp add: filter_map o_def word_less_nat_alt)
  moreover have "[Suc 0..<Suc (unat w)] = [Suc 0..<Suc (unat v)] @ [Suc (unat v)..<Suc (unat w)]"
    using assms(2) upt_add_eq_append [of "Suc 0" "Suc (unat v)" "unat w - unat v"] by simp
  moreover have "filter (\<lambda>n. unat v < n) [Suc (unat v)..<Suc (unat w)] = [Suc (unat v)..<Suc (unat w)]"
    by (rule filter_True) auto
  moreover have "filter (\<lambda>n. unat v < n) [Suc 0..<Suc (unat v)] = []" by (rule filter_False) auto
  ultimately show ?thesis using assms(1) by simp
qed

section \<open>The files of a chain\<close>

text \<open>The files from an id on: they have consecutive ids, these contents, and no file follows.\<close>

definition holds_files :: "wal_dir \<Rightarrow> u32 \<Rightarrow> bytes list \<Rightarrow> bool" where
  "holds_files dir a bss \<longleftrightarrow> unat a + length bss < 2 ^ 32 \<and>
     (\<forall>f. a \<le> f \<longrightarrow> map_of dir (wal_file_name f) =
        (if unat f - unat a < length bss then Some (bss ! (unat f - unat a)) else None))"

lemma holds_files_nth:
  "holds_files dir a bss \<Longrightarrow> unat f = unat a + i \<Longrightarrow> map_of dir (wal_file_name f) = (if i < length bss then Some (bss ! i) else None)"
  by (simp add: holds_files_def word_le_nat_alt)

lemma holds_files_update:
  "holds_files dir a bss \<Longrightarrow> unat f = unat a + i \<Longrightarrow> i < length bss \<Longrightarrow>
     holds_files (AList.update (wal_file_name f) b dir) a (bss[i := b])"
  by (auto simp: holds_files_def update_conv' word_le_nat_alt word_unat_eq_iff nth_list_update)

lemma holds_files_append:
  "holds_files dir a bss \<Longrightarrow> unat f = unat a + length bss \<Longrightarrow> unat f + 1 < 2 ^ 32 \<Longrightarrow>
     holds_files (AList.update (wal_file_name f) b dir) a (bss @ [b])"
  by (auto simp: holds_files_def update_conv' word_le_nat_alt word_unat_eq_iff nth_append)

lemma holds_files_remove:
  "holds_files dir a (bss @ [b]) \<Longrightarrow> unat f = unat a + length bss \<Longrightarrow> holds_files (AList.delete (wal_file_name f) dir) a bss"
  by (auto simp: holds_files_def delete_conv' word_le_nat_alt word_unat_eq_iff nth_append)

lemma holds_files_below:
  "holds_files dir a bss \<Longrightarrow> f < a \<Longrightarrow> holds_files (AList.delete (wal_file_name f) dir) a bss"
  by (auto simp: holds_files_def delete_conv')

lemma holds_files_later:
  "holds_files dir a (pre @ bss) \<Longrightarrow> unat f = unat a + length pre \<Longrightarrow> holds_files dir f bss"
  by (auto simp: holds_files_def word_le_nat_alt nth_append)

definition names_ok :: "wal_dir \<Rightarrow> bool" where
  "names_ok dir \<longleftrightarrow> distinct (map fst dir) \<and> (\<forall>name \<in> set (map fst dir). \<exists>f. name = wal_file_name f)"

lemma names_ok_changed: "names_ok dir \<Longrightarrow> names_ok (AList.update (wal_file_name f) b dir)" "names_ok dir \<Longrightarrow> names_ok (AList.delete (wal_file_name f) dir)"
  by (auto simp: names_ok_def distinct_update dom_update distinct_removeAll delete_keys)

lemma found_names:
  assumes "names_ok dir"
  shows "map wal_file_name (List.map_filter (\<lambda>(name, _). wal_file_id name) dir) = map fst dir"
proof -
  have "\<forall>name \<in> set (map fst dir). \<exists>f. name = wal_file_name f" using assms by (simp add: names_ok_def)
  then show ?thesis by (induction dir) (auto simp: List.map_filter_simps)
qed

lemma chain_ids:
  assumes "names_ok dir" and "holds_files dir a bss"
  shows "sort (filter (\<lambda>fid. a \<le> fid) (List.map_filter (\<lambda>(name, _). wal_file_id name) dir)) = map of_nat [unat a..<unat a + length bss]"
    (is "sort ?found = ?ids")
proof (rule sorted_distinct_set_unique)
  have bound: "unat a + length bss < 2 ^ 32" using assms(2) by (simp add: holds_files_def)
  then have un: "unat (of_nat n :: u32) = n" if "n < unat a + length bss" for n using that by (simp add: unat_of_nat)
  have "sorted_wrt (<) ?ids" unfolding sorted_wrt_map
    by (rule sorted_wrt_mono_rel [OF _ sorted_wrt_upt]) (auto simp: word_less_nat_alt un)
  then show "sorted ?ids" "distinct ?ids" by (auto simp: strict_sorted_iff)
  have "distinct (List.map_filter (\<lambda>(name, _). wal_file_id name) dir)"
    using assms(1) found_names [OF assms(1)] by (metis distinct_map names_ok_def)
  then show "distinct (sort ?found)" by simp
  have "f \<in> set ?ids \<longleftrightarrow> unat a \<le> unat f \<and> unat f < unat a + length bss" for f
    by (auto simp: un image_iff intro!: bexI [of _ "unat f"])
  moreover have "f \<in> set ?found \<longleftrightarrow> a \<le> f \<and> map_of dir (wal_file_name f) \<noteq> None" for f
    using assms(1) by (force simp: List.map_filter_def names_ok_def map_of_eq_None_iff image_iff)
  moreover have "a \<le> f \<and> map_of dir (wal_file_name f) \<noteq> None \<longleftrightarrow> unat a \<le> unat f \<and> unat f < unat a + length bss" for f
    using assms(2) by (auto simp: holds_files_def word_le_nat_alt split: if_splits)
  ultimately show "set (sort ?found) = set ?ids" by auto
qed simp

section \<open>Preflight and replay of a chain\<close>

definition enc :: "'j ext \<Rightarrow> wal_record list \<Rightarrow> bytes" where
  "enc E rs = concat (map (commit_bytes E) rs)"

lemma enc_simps [simp]: "enc E [] = []" "enc E (rs @ rs') = enc E rs @ enc E rs'" "enc E [r] = commit_bytes E r"
  by (simp_all add: enc_def)

definition file_ok :: "'j ext \<Rightarrow> wal_record list \<Rightarrow> bool" where
  "file_ok E rs \<longleftrightarrow> list_all wf_record rs \<and> increasing_from None rs \<and> length (enc E rs) < usize_limit"

lemma scan_whole_file:
  "file_ok E rs \<Longrightarrow> scan_wal E (enc E rs) = \<lparr>ws_records = rs, ws_valid_len = length (enc E rs), ws_clean = True, ws_corruption = None\<rparr>"
  using wal_scan_complete [of rs E] by (simp add: file_ok_def enc_def)

lemma file_ok_Nil [simp]: "file_ok E []"
  by (simp add: file_ok_def usize_limit_def)

lemma first_id:
  assumes "holds_files dir a (b # bss)"
  shows "[unat a..<unat a + length (b # bss)] = unat a # [unat (a + 1)..<unat (a + 1) + length bss]"
    and "unat (a + 1) = Suc (unat a)" and "u32_saturating_succ a = a + 1" and "a \<noteq> - 1" and "holds_files dir (a + 1) bss"
proof -
  show max: "a \<noteq> - 1" using assms by (auto simp: holds_files_def unat_minus_one)
  then show succ: "unat (a + 1) = Suc (unat a)" by (simp add: unat_succ)
  with max show "u32_saturating_succ a = a + 1" by (simp add: u32_saturating_succ_def)
  show "[unat a..<unat a + length (b # bss)] = unat a # [unat (a + 1)..<unat (a + 1) + length bss]"
    unfolding succ by (subst upt_conv_Cons) simp_all
  show "holds_files dir (a + 1) bss" using holds_files_later [of dir a "[b]" bss "a + 1"] assms succ by simp
qed

lemma scan_chain_files:
  "holds_files dir a bss \<Longrightarrow> \<forall>bs \<in> set bss. ws_corruption (scan_wal E bs) = None \<Longrightarrow>
     scan_chain E dir a (map of_nat [unat a..<unat a + length bss]) = Inr (zip (map of_nat [unat a..<unat a + length bss]) (map (scan_wal E) bss))"
proof (induction bss arbitrary: a)
  case (Cons b bss)
  note first = first_id [OF Cons.prems(1)]
  have "map_of dir (wal_file_name a) = Some b" using holds_files_nth [OF Cons.prems(1), of a 0] by simp
  with Cons.IH [OF first(5)] Cons.prems(2) show ?case
    unfolding first(1) by (simp add: first(3) Let_def)
qed simp

lemma check_torn_ok:
  assumes "\<forall>s \<in> set front. ws_clean (snd s)" and "\<forall>s \<in> set rear. ws_records (snd s) = []"
  shows "check_torn (front @ x # rear) = Inr ()"
proof -
  have later: "\<not> list_ex (\<lambda>(_, s). ws_records s \<noteq> []) rear" using assms(2) by (auto simp: list_ex_iff)
  have "check_torn rear = Inr ()" using assms(2)
    by (induction rear) (fastforce simp: list_ex_iff)+
  then have "check_torn (x # rear) = Inr ()" using later by (cases x) simp
  then show ?thesis using assms(1) by (induction front) auto
qed

lemma check_chain_versions_concat:
  "check_versions fid v (concat (map (\<lambda>s. ws_records (snd s)) scans)) = Inr w \<Longrightarrow> check_chain_versions v scans = Inr w"
proof (induction scans arbitrary: v)
  case (Cons s scans)
  obtain i sc where s: "s = (i, sc)" by force
  from Cons.prems obtain u where "check_versions fid v (ws_records sc) = Inr u"
    and "check_versions fid u (concat (map (\<lambda>s. ws_records (snd s)) scans)) = Inr w"
    by (auto simp: s check_versions_app)
  then have "check_versions i v (ws_records sc) = Inr u" "check_chain_versions u scans = Inr w"
    by (auto intro: check_versions_fid Cons.IH)
  then show ?case by (simp add: s)
qed simp

lemma validate_files:
  assumes "names_ok dir" and files: "holds_files dir a (map (enc E) front @ [b] @ replicate k [])" (is "holds_files dir a ?bss")
    and "list_all (file_ok E) front" and "ws_corruption (scan_wal E b) = None"
    and "check_versions 0 v (concat front @ ws_records (scan_wal E b)) = Inr w"
    and "unat required < unat a + length front + 1 + k"
  shows "\<exists>ids. validate_wal_chain E dir a required v = Inr ids"
proof -
  let ?ids = "map of_nat [unat a..<unat a + length ?bss] :: u32 list" and ?n = "length front"
  note ids = chain_ids [OF assms(1) files]
  have bound: "unat a + length ?bss < 2 ^ 32" using files by (simp add: holds_files_def)
  have clean: "\<forall>bs \<in> set ?bss. ws_corruption (scan_wal E bs) = None"
    using assms(3,4) scan_whole_file [of E "[]"] by (auto simp: list_all_iff scan_whole_file)
  note scans = scan_chain_files [OF files clean]
  define ns where "ns = [unat a..<unat a + length ?bss]"
  have len: "length ns = length ?bss" by (simp add: ns_def)
  have split: "zip (map of_nat ns :: u32 list) (map (scan_wal E) ?bss) =
      zip (map of_nat (take ?n ns)) (map (scan_wal E) (map (enc E) front)) @ (of_nat (ns ! ?n), scan_wal E b)
      # zip (map of_nat (drop (Suc ?n) ns)) (map (scan_wal E) (replicate k []))"
  proof -
    have "ns = take ?n ns @ ns ! ?n # drop (Suc ?n) ns" using len by (simp add: id_take_nth_drop)
    then have "zip (map of_nat ns :: u32 list) (map (scan_wal E) ?bss) =
        zip (map of_nat (take ?n ns) @ map of_nat (ns ! ?n # drop (Suc ?n) ns)) (map (scan_wal E) (map (enc E) front) @ map (scan_wal E) ([b] @ replicate k []))"
      by (metis map_append)
    also have "\<dots> = zip (map of_nat (take ?n ns)) (map (scan_wal E) (map (enc E) front))
        @ zip (map of_nat (ns ! ?n # drop (Suc ?n) ns)) (map (scan_wal E) ([b] @ replicate k []))"
      by (rule zip_append) (simp add: len)
    finally show ?thesis by simp
  qed
  have torn: "check_torn (zip ?ids (map (scan_wal E) ?bss)) = Inr ()"
    unfolding ns_def [symmetric] split
    by (rule check_torn_ok) (use assms(3) scan_whole_file [of E "[]"] in \<open>auto simp: list_all_iff scan_whole_file dest!: set_zip_rightD\<close>)
  have recs: "map (\<lambda>s. ws_records (snd s)) (zip ?ids (map (scan_wal E) ?bss)) = map (\<lambda>bs. ws_records (scan_wal E bs)) ?bss"
    by (rule nth_equalityI) (simp_all del: map_append)
  have "map (\<lambda>bs. ws_records (scan_wal E bs)) (map (enc E) front) = front"
    using assms(3) by (induction front) (auto simp: scan_whole_file)
  then have "concat (map (\<lambda>bs. ws_records (scan_wal E bs)) ?bss) = concat front @ ws_records (scan_wal E b)"
    using scan_whole_file [of E "[]"] by simp
  with assms(5) recs have vers: "check_chain_versions v (zip ?ids (map (scan_wal E) ?bss)) = Inr w"
    using check_chain_versions_concat by metis
  have "?ids \<noteq> []" "hd ?ids = a" by (simp, subst hd_map, simp, subst hd_upt, simp_all del: upt_Suc)
  moreover have "unat (last ?ids) = unat a + length front + k"
  proof -
    have top: "last [unat a..<unat a + length ?bss] = unat a + length front + k" by (subst last_upt) simp_all
    have "last ?ids = of_nat (unat a + length front + k)" by (subst last_map) (simp, simp only: top)
    then show ?thesis using bound by (simp only: unat_of_nat) simp
  qed
  then have "\<not> last ?ids < max required a" using assms(6) by (simp add: word_less_nat_alt max_def)
  ultimately show ?thesis
    unfolding validate_wal_chain_def ids using scans torn vers by (simp add: Let_def)
qed

lemma replay_front:
  assumes "holds_files dir a (map (enc E) front @ rest)" and "list_all (file_ok E) front"
    and "check_versions 0 (rp_version st) (concat front) = Inr w"
  shows "\<exists>f st'. unat f = unat a + length front \<and> replay_wals E ro dir a st = replay_wals E ro dir f st'
    \<and> recovered st' = recovered (foldl apply_record st (applied (rp_version st) (concat front)))
    \<and> rp_version st' = w \<and> rp_active_wal st' = (if front = [] then rp_active_wal st else f - 1)"
  using assms
proof (induction front arbitrary: a st)
  case Nil
  then show ?case by auto
next
  case (Cons rs front)
  from Cons.prems(3) obtain u where here: "check_versions 0 (rp_version st) rs = Inr u" and rest: "check_versions 0 u (concat front) = Inr w"
    by (auto simp: check_versions_app)
  note first = first_id [OF Cons.prems(1) [unfolded list.map append_Cons]]
  let ?st = "foldl apply_record st (applied (rp_version st) rs)"
  note done' = replay_records_applied [OF here]
  have data: "map_of dir (wal_file_name a) = Some (enc E rs)" using holds_files_nth [OF Cons.prems(1), of a 0] by simp
  have step: "replay_wals E ro dir a st = replay_wals E ro dir (a + 1) (?st\<lparr>rp_active_wal := a\<rparr>)"
    using Cons.prems(2) done' first(4) by (subst replay_wals.simps) (simp add: data scan_whole_file Let_def)
  have "list_all (file_ok E) front" using Cons.prems(2) by simp
  with Cons.IH [OF first(5), of "?st\<lparr>rp_active_wal := a\<rparr>"] done' rest obtain f st' where
    f: "unat f = unat (a + 1) + length front" "replay_wals E ro dir (a + 1) (?st\<lparr>rp_active_wal := a\<rparr>) = replay_wals E ro dir f st'"
      "recovered st' = recovered (foldl apply_record (?st\<lparr>rp_active_wal := a\<rparr>) (applied u (concat front)))" "rp_version st' = w"
      "rp_active_wal st' = (if front = [] then a else f - 1)" by auto
  have "f - 1 = a" if "front = []" using f(1) that word_unat_eq_iff [of f "a + 1"] by auto
  with f step first(2) check_versions_append [OF here] show ?case by (intro exI [of _ f] exI [of _ st']) auto
qed

section \<open>The invariant\<close>

text \<open>\<open>front\<close> are the records of the files before the one in use, \<open>cur\<close> those of the file in use, and \<open>k\<close>
  empty files follow it.\<close>

definition base_ok :: "'j ext \<Rightarrow> 'j handover \<Rightarrow> wal_record list list \<Rightarrow> wal_record list \<Rightarrow> nat \<Rightarrow> bool" where
  "base_ok E s front cur k \<longleftrightarrow>
     (let m = ho_manifest s; a = mf_wal_id m; v = mf_committed_version m in
      names_ok (ho_dir s) \<and> unat (ho_writer s) = unat a + length front
      \<and> holds_files (ho_dir s) a (map (enc E) front @ [enc E cur] @ replicate k [])
      \<and> list_all (file_ok E) (front @ [cur])
      \<and> check_versions 0 v (concat front @ cur) = Inr (ho_version s)
      \<and> applied v (concat front @ cur) = filter (\<lambda>r. v < wr_version r) (ho_committed s)
      \<and> versions_from 0 (unat (ho_version s)) (ho_committed s)
      \<and> unat (mf_required_wal_id m) < unat a + length front + 1 + k)"

abbreviation behind :: "'j handover \<Rightarrow> wal_record list" where
  "behind s \<equiv> filter (\<lambda>r. hj_version (ho_job s) < wr_version r) (ho_committed s)"

text \<open>Before the switch the records behind the checkpoint are at the end of the file in use, after it
  they are also in the new one.\<close>

definition in_old :: "'j ext \<Rightarrow> 'j handover \<Rightarrow> wal_record list \<Rightarrow> bool" where
  "in_old E s cur \<longleftrightarrow> hj_wal_id (ho_job s) = ho_writer s \<and> hj_version (ho_job s) \<le> ho_version s
     \<and> (\<exists>p. cur = p @ behind s \<and> hj_wal_cutoff (ho_job s) = length (enc E p))"

definition in_new :: "'j ext \<Rightarrow> 'j handover \<Rightarrow> bool \<Rightarrow> wal_record list list \<Rightarrow> wal_record list \<Rightarrow> bool" where
  "in_new E s copied front cur \<longleftrightarrow> hj_version (ho_job s) \<le> ho_version s
     \<and> (\<exists>pre p q. behind s = q @ cur \<and> hj_wal_cutoff (ho_job s) = length (enc E p)
          \<and> front = pre @ [p @ q, if copied then q else []]
          \<and> unat (hj_wal_id (ho_job s)) = unat (mf_wal_id (ho_manifest s)) + length pre)"

definition stage_ok :: "'j ext \<Rightarrow> 'j handover \<Rightarrow> wal_record list list \<Rightarrow> wal_record list \<Rightarrow> nat \<Rightarrow> bool" where
  "stage_ok E s front cur k \<longleftrightarrow>
     (case ho_stage s of
        Idle \<Rightarrow> True
      | Frozen \<Rightarrow> in_old E s cur
      | Bridged \<Rightarrow> in_old E s cur \<and> k = 1 \<and> mf_required_wal_id (ho_manifest s) \<le> ho_writer s \<and> unat (ho_writer s) + 3 < 2 ^ 32
      | Reserved \<Rightarrow> in_old E s cur \<and> k = 2 \<and> mf_required_wal_id (ho_manifest s) \<le> ho_writer s
      | Extended \<Rightarrow> in_old E s cur \<and> k = 2
      | Switched \<Rightarrow> in_new E s False front cur \<and> k = 0
      | Copied \<Rightarrow> in_new E s True front cur \<and> k = 0
      | Rotated \<Rightarrow> 0 < k)"

lemmas ho_defs = set_wal_def remove_wal_def bridge_id_def active_id_def commit_wal_def freeze_wal_def extend_manifest_def
  copy_tail_def publish_handover_def publish_rotation_def

lemma base_okD:
  assumes "base_ok E s front cur k"
  shows "wal_file s (ho_writer s) = enc E cur" and "unat (ho_writer s) + 1 + k < 2 ^ 32"
    and "unat f = unat (ho_writer s) + Suc i \<Longrightarrow> wal_exists s f \<longleftrightarrow> i < k"
proof -
  let ?bss = "map (enc E) front @ [enc E cur] @ replicate k []"
  have files: "holds_files (ho_dir s) (mf_wal_id (ho_manifest s)) ?bss"
    and w: "unat (ho_writer s) = unat (mf_wal_id (ho_manifest s)) + length front"
    using assms by (simp_all add: base_ok_def Let_def)
  from holds_files_nth [OF files w] show "wal_file s (ho_writer s) = enc E cur" by (simp add: wal_file_def nth_append)
  from files w show "unat (ho_writer s) + 1 + k < 2 ^ 32" by (simp add: holds_files_def)
  assume "unat f = unat (ho_writer s) + Suc i"
  with w have "unat f = unat (mf_wal_id (ho_manifest s)) + (length front + Suc i)" by simp
  from holds_files_nth [OF files this] show "wal_exists s f \<longleftrightarrow> i < k" by (simp add: wal_exists_def)
qed

lemma base_ok_stage [simp]:
  "base_ok E (s\<lparr>ho_stage := x\<rparr>) front cur k = base_ok E s front cur k"
  "base_ok E (s\<lparr>ho_job := j\<rparr>) front cur k = base_ok E s front cur k"
  "base_ok E (s\<lparr>ho_stage := x, ho_job := j\<rparr>) front cur k = base_ok E s front cur k"
  by (simp_all add: base_ok_def)

lemma base_grow:
  assumes "base_ok E s front cur k" and "unat f = unat (ho_writer s) + 1 + k" and "unat f + 1 < 2 ^ 32"
  shows "base_ok E (set_wal f [] s) front cur (Suc k)"
  using assms holds_files_append [of "ho_dir s" "mf_wal_id (ho_manifest s)" "map (enc E) front @ [enc E cur] @ replicate k []" f "[]"]
  by (auto simp: base_ok_def set_wal_def names_ok_changed Let_def replicate_append_same)

lemma base_shrink:
  assumes "base_ok E s front cur (Suc k)" and "unat f = unat (ho_writer s) + 1 + k" and "mf_required_wal_id (ho_manifest s) \<le> ho_writer s"
  shows "base_ok E (remove_wal f s) front cur k"
  using assms holds_files_remove [of "ho_dir s" "mf_wal_id (ho_manifest s)" "map (enc E) front @ [enc E cur] @ replicate k []" "[]" f]
  by (auto simp: base_ok_def remove_wal_def names_ok_changed Let_def replicate_append_same word_le_nat_alt)

lemma base_rotate:
  assumes "base_ok E s front cur k" and "unat (ho_writer s) + 2 < 2 ^ 32"
  shows "\<exists>k'. base_ok E (set_wal (ho_writer s + 1) [] s) front cur (Suc k')"
proof -
  have next': "unat (ho_writer s + 1) = unat (ho_writer s) + 1" using assms(2) by (simp add: unat_word_ariths(1))
  show ?thesis
  proof (cases k)
    case 0
    with base_grow [OF assms(1), of "ho_writer s + 1"] next' assms(2) show ?thesis by auto
  next
    case (Suc k')
    have "(map (enc E) front @ [enc E cur] @ replicate k [])[Suc (length front) := []] = map (enc E) front @ [enc E cur] @ replicate k []"
      using Suc by (simp add: list_update_append)
    then have "base_ok E (set_wal (ho_writer s + 1) [] s) front cur k"
      using assms(1) next' Suc holds_files_update [of "ho_dir s" "mf_wal_id (ho_manifest s)" "map (enc E) front @ [enc E cur] @ replicate k []" "ho_writer s + 1" "Suc (length front)" "[]"]
      by (auto simp: base_ok_def set_wal_def names_ok_changed Let_def)
    with Suc show ?thesis by blast
  qed
qed

lemma increasing_snoc:
  "increasing_from prev rs \<Longrightarrow> (case prev of Some v \<Rightarrow> v < wr_version r | None \<Rightarrow> True) \<Longrightarrow> \<forall>x \<in> set rs. wr_version x < wr_version r \<Longrightarrow>
     increasing_from prev (rs @ [r])"
  by (induction rs arbitrary: prev) auto

lemma increasing_suffix: "increasing_from prev (rs @ rs') \<Longrightarrow> increasing_from None rs'"
proof (induction rs arbitrary: prev)
  case Nil
  then show ?case by (cases rs') auto
qed auto

lemma file_ok_suffix: "file_ok E (p @ q) \<Longrightarrow> file_ok E q"
  by (auto simp: file_ok_def dest: increasing_suffix)

lemma base_commit:
  assumes "base_ok E s front cur k" and succ: "u64_checked_succ (ho_version s) = Some (wr_version r)" and "wf_record r"
    and "length (wal_file s (ho_writer s) @ commit_bytes E r) < usize_limit"
  shows "base_ok E (commit_wal E r s) front (cur @ [r]) k"
proof -
  let ?m = "ho_manifest s"
  note base = assms(1) [unfolded base_ok_def Let_def]
  have later: "unat (wr_version r) = Suc (unat (ho_version s))" by (rule checked_succ_Some [OF succ])
  have vers: "check_versions 0 (mf_committed_version ?m) (concat front @ cur) = Inr (ho_version s)" using base by simp
  have newer: "\<forall>x \<in> set cur. wr_version x < wr_version r"
    using check_versions_bound [OF vers] later by (auto simp: word_less_nat_alt word_le_nat_alt less_Suc_eq_le)
  have ok: "file_ok E (cur @ [r])"
    using base assms(3,4) newer base_okD(1) [OF assms(1)] by (auto simp: file_ok_def intro!: increasing_snoc)
  have files: "holds_files (AList.update (wal_file_name (ho_writer s)) (enc E (cur @ [r])) (ho_dir s)) (mf_wal_id ?m)
      (map (enc E) front @ [enc E (cur @ [r])] @ replicate k [])"
    using holds_files_update [of "ho_dir s" "mf_wal_id ?m" "map (enc E) front @ [enc E cur] @ replicate k []" "ho_writer s" "length front" "enc E (cur @ [r])"]
      base by (simp add: list_update_append)
  have fresh: "mf_committed_version ?m < wr_version r"
    using check_versions_le [OF vers] later by (simp add: word_less_nat_alt)
  have all: "versions_from 0 (unat (wr_version r)) (ho_committed s @ [r])" using base later by simp
  show ?thesis
    unfolding base_ok_def Let_def commit_wal_def set_wal_def
    using base ok files fresh all check_versions_next [OF vers succ] base_okD(1) [OF assms(1)] by (simp add: names_ok_changed)
qed

lemma commit_behind:
  assumes "u64_checked_succ (ho_version s) = Some (wr_version r)" and "hj_version (ho_job s) \<le> ho_version s"
  shows "behind (commit_wal E r s) = behind s @ [r]" and "hj_version (ho_job s) \<le> wr_version r"
  using assms(2) checked_succ_Some [OF assms(1)] by (auto simp: commit_wal_def set_wal_def word_le_nat_alt word_less_nat_alt)

lemma commit_in_old:
  assumes "in_old E s cur" and "u64_checked_succ (ho_version s) = Some (wr_version r)"
  shows "in_old E (commit_wal E r s) (cur @ [r])"
  using assms commit_behind [OF assms(2)] by (auto simp: in_old_def) (auto simp: commit_wal_def set_wal_def)

lemma commit_in_new:
  assumes "in_new E s copied front cur" and "u64_checked_succ (ho_version s) = Some (wr_version r)"
  shows "in_new E (commit_wal E r s) copied front (cur @ [r])"
  using assms commit_behind [OF assms(2)] by (auto simp: in_new_def) (auto simp: commit_wal_def set_wal_def)

lemma commit_stage:
  assumes "stage_ok E s front cur k" and "ho_stage s \<noteq> Rotated" and "u64_checked_succ (ho_version s) = Some (wr_version r)"
  shows "stage_ok E (commit_wal E r s) front (cur @ [r]) k"
proof -
  have same: "ho_stage (commit_wal E r s) = ho_stage s" "ho_manifest (commit_wal E r s) = ho_manifest s" "ho_writer (commit_wal E r s) = ho_writer s"
    by (simp_all add: commit_wal_def set_wal_def)
  show ?thesis
    using assms(1,2) commit_in_old [OF _ assms(3), of E] commit_in_new [OF _ assms(3), of E]
    by (auto simp: stage_ok_def same split: stage.splits)
qed

lemma base_switch:
  assumes "base_ok E s front cur 2" and "unat f = unat (ho_writer s) + 2"
  shows "base_ok E (s\<lparr>ho_writer := f, ho_stage := x\<rparr>) (front @ [cur, []]) [] 0"
  using assms by (auto simp: base_ok_def Let_def numeral_2_eq_2)

lemma base_copy:
  assumes "base_ok E s (pre @ [p @ q, []]) cur 0" and "unat f = unat (mf_wal_id (ho_manifest s)) + length pre + 1"
  shows "base_ok E (set_wal f (enc E q) s) (pre @ [p @ q, q]) cur 0"
proof -
  let ?m = "ho_manifest s"
  note base = assms(1) [unfolded base_ok_def Let_def]
  from base obtain u where u: "check_versions 0 (mf_committed_version ?m) (concat pre @ p @ q) = Inr u"
      "check_versions 0 u cur = Inr (ho_version s)" by (auto simp: check_versions_app)
  have "\<forall>r \<in> set q. wr_version r \<le> u" using check_versions_bound [OF u(1)] by auto
  note skip = check_versions_skip [OF this, of 0]
  have vers: "check_versions 0 (mf_committed_version ?m) ((concat pre @ p @ q) @ q @ cur) = Inr (ho_version s)"
    by (rule check_versions_join [OF u(1) check_versions_join [OF conjunct1 [OF skip] u(2)]])
  have "applied (mf_committed_version ?m) ((concat pre @ p @ q) @ q @ cur) = applied (mf_committed_version ?m) ((concat pre @ p @ q) @ cur)"
    unfolding check_versions_append [OF u(1)] using skip check_versions_append [of 0 u q u cur] by simp
  then have app: "applied (mf_committed_version ?m) (concat (pre @ [p @ q, q]) @ cur) = filter (\<lambda>r. mf_committed_version ?m < wr_version r) (ho_committed s)"
    using base by simp
  have files: "holds_files (AList.update (wal_file_name f) (enc E q) (ho_dir s)) (mf_wal_id ?m) (map (enc E) (pre @ [p @ q, q]) @ [enc E cur] @ replicate 0 [])"
    using holds_files_update [of "ho_dir s" "mf_wal_id ?m" "map (enc E) (pre @ [p @ q, []]) @ [enc E cur] @ replicate 0 []" f "Suc (length pre)" "enc E q"]
      base assms(2) by (simp add: list_update_append)
  have "file_ok E q" using base file_ok_suffix by auto
  with base vers app files show ?thesis by (simp add: base_ok_def Let_def set_wal_def names_ok_changed)
qed

lemma base_versions:
  assumes "base_ok E s front cur k"
  shows "versions_from 0 (unat (ho_version s)) (ho_committed s)" and "mf_committed_version (ho_manifest s) \<le> ho_version s"
  using assms check_versions_le [of 0 "mf_committed_version (ho_manifest s)" "concat front @ cur" "ho_version s"]
  by (simp_all add: base_ok_def Let_def word_le_nat_alt)

lemma base_publish:
  assumes "base_ok E s (pre @ [p, q]) cur 0" and "behind s = q @ cur" and "hj_version (ho_job s) \<le> ho_version s"
    and "unat (hj_wal_id (ho_job s)) = unat (mf_wal_id (ho_manifest s)) + length pre"
  shows "base_ok E (publish_handover s) [q] cur 0"
proof -
  note base = assms(1) [unfolded base_ok_def Let_def]
  let ?v = "hj_version (ho_job s)"
  have bound: "unat (ho_writer s) < 2 ^ 32 - 1" using base_okD(2) [OF assms(1)] by simp
  have ids: "unat (bridge_id s) = unat (mf_wal_id (ho_manifest s)) + length (pre @ [p])" "unat (active_id s) = Suc (unat (bridge_id s))"
    using base assms(4) bound by (simp_all add: bridge_id_def active_id_def unat_word_ariths(1))
  have files: "holds_files (ho_dir s) (bridge_id s) (map (enc E) [q] @ [enc E cur] @ replicate 0 [])"
    using holds_files_later [of "ho_dir s" "mf_wal_id (ho_manifest s)" "map (enc E) (pre @ [p])" _ "bridge_id s"] base ids(1) by simp
  have "versions_from (unat ?v) (unat (ho_version s)) (q @ cur)"
    using versions_from_filter [OF base_versions(1) [OF assms(1)], of ?v] assms(2,3) by (simp add: word_le_nat_alt)
  note vers = versions_from_check [OF this, of 0]
  show ?thesis
    using base vers assms(2,3) ids files by (simp add: base_ok_def Let_def publish_handover_def word_le_nat_alt)
qed

lemma nothing_newer:
  assumes "versions_from 0 (unat w) rs"
  shows "filter (\<lambda>r. w < wr_version r) rs = []"
proof -
  have "unat (wr_version r) \<in> set [Suc 0..<Suc (unat w)]" if "r \<in> set rs" for r
    using that by (subst assms [symmetric]) force
  then have "\<not> w < wr_version r" if "r \<in> set rs" for r using that by (fastforce simp: word_less_nat_alt)
  then show ?thesis by (auto simp: filter_empty_conv)
qed

lemma base_finish_rotation:
  assumes "base_ok E s front cur (Suc k)"
  shows "base_ok E (publish_rotation s) [] [] k"
proof -
  note base = assms(1) [unfolded base_ok_def Let_def]
  have next': "unat (ho_writer s + 1) = unat (ho_writer s) + 1" using base_okD(2) [OF assms] by (simp add: unat_word_ariths(1))
  have "holds_files (ho_dir s) (ho_writer s + 1) (map (enc E) [] @ [enc E []] @ replicate k [])"
    using holds_files_later [of "ho_dir s" "mf_wal_id (ho_manifest s)" "map (enc E) front @ [enc E cur]" _ "ho_writer s + 1"] base next' by simp
  then show ?thesis
    using base nothing_newer [OF base_versions(1) [OF assms]] by (simp add: base_ok_def Let_def publish_rotation_def)
qed

lemma base_cleanup:
  "base_ok E s front cur k \<Longrightarrow> fid < mf_wal_id (ho_manifest s) \<Longrightarrow> base_ok E (remove_wal fid s) front cur k"
  by (auto simp: base_ok_def Let_def remove_wal_def names_ok_changed holds_files_below)

definition chain_ok :: "'j ext \<Rightarrow> 'j handover \<Rightarrow> bool" where
  "chain_ok E s \<longleftrightarrow> (\<exists>front cur k. base_ok E s front cur k \<and> stage_ok E s front cur k)"

lemma chain_okI: "base_ok E s front cur k \<Longrightarrow> stage_ok E s front cur k \<Longrightarrow> chain_ok E s"
  by (auto simp: chain_ok_def)

lemma in_old_cong:
  "in_old E (s\<lparr>ho_stage := x\<rparr>) cur = in_old E s cur"
  "in_old E (s\<lparr>ho_dir := d\<rparr>) cur = in_old E s cur"
  "in_old E (s\<lparr>ho_manifest := m\<rparr>) cur = in_old E s cur"
  "in_old E (s\<lparr>ho_dir := d, ho_stage := x\<rparr>) cur = in_old E s cur"
  "in_old E (s\<lparr>ho_manifest := m, ho_stage := x\<rparr>) cur = in_old E s cur"
  by (simp_all add: in_old_def)

lemma old_ids:
  assumes "in_old E s cur" and "unat (ho_writer s) + 2 < 2 ^ 32"
  shows "unat (bridge_id s) = unat (ho_writer s) + 1" and "unat (active_id s) = unat (ho_writer s) + 2"
  using assms by (simp_all add: in_old_def bridge_id_def active_id_def unat_word_ariths(1))

lemma reserve_bridge_ok:
  assumes "base_ok E s front cur k" and "in_old E s cur" and "unat (ho_writer s) + 3 < 2 ^ 32" and "\<not> wal_exists s (bridge_id s)"
  shows "chain_ok E ((set_wal (bridge_id s) [] s)\<lparr>ho_stage := Bridged\<rparr>)"
proof -
  have id: "unat (bridge_id s) = unat (ho_writer s) + 1" using old_ids [OF assms(2)] assms(3) by simp
  then have "k = 0" using base_okD(3) [OF assms(1), of "bridge_id s" 0] assms(4) by simp
  then have "base_ok E (set_wal (bridge_id s) [] s) front cur 1" "mf_required_wal_id (ho_manifest s) \<le> ho_writer s"
    using base_grow [OF assms(1), of "bridge_id s"] assms(1,3) id by (simp_all add: base_ok_def Let_def word_le_nat_alt)
  with assms(2,3) show ?thesis
    by (intro chain_okI [of E _ front cur 1]) (auto simp: stage_ok_def set_wal_def in_old_cong)
qed

lemma reserve_active_ok:
  assumes "base_ok E s front cur 1" and "in_old E s cur" and "unat (ho_writer s) + 3 < 2 ^ 32" and "mf_required_wal_id (ho_manifest s) \<le> ho_writer s"
  shows "chain_ok E ((set_wal (active_id s) [] s)\<lparr>ho_stage := Reserved\<rparr>)"
  using base_grow [OF assms(1), of "active_id s"] old_ids [OF assms(2)] assms(2-4)
  by (intro chain_okI [of E _ front cur 2]) (auto simp: stage_ok_def set_wal_def in_old_cong numeral_2_eq_2)

lemma release_active_ok:
  assumes "base_ok E s front cur 2" and "in_old E s cur" and "mf_required_wal_id (ho_manifest s) \<le> ho_writer s"
  shows "chain_ok E ((remove_wal (active_id s) s)\<lparr>ho_stage := Bridged\<rparr>)"
  using base_shrink [of E s front cur 1 "active_id s"] old_ids [OF assms(2)] base_okD(2) [OF assms(1)] assms
  by (intro chain_okI [of E _ front cur 1]) (auto simp: stage_ok_def remove_wal_def in_old_cong numeral_2_eq_2)

lemma release_bridge_ok:
  assumes "base_ok E s front cur 1" and "in_old E s cur" and "mf_required_wal_id (ho_manifest s) \<le> ho_writer s"
  shows "chain_ok E ((remove_wal (bridge_id s) s)\<lparr>ho_stage := Frozen\<rparr>)"
  using base_shrink [of E s front cur 0 "bridge_id s"] old_ids [OF assms(2)] base_okD(2) [OF assms(1)] assms
  by (intro chain_okI [of E _ front cur 0]) (auto simp: stage_ok_def remove_wal_def in_old_cong)

lemma extend_ok:
  assumes "base_ok E s front cur 2" and "in_old E s cur"
  shows "chain_ok E (extend_manifest s)"
  using old_ids(2) [OF assms(2)] base_okD(2) [OF assms(1)] assms
  by (intro chain_okI [of E _ front cur 2]) (auto simp: extend_manifest_def stage_ok_def in_old_cong base_ok_def Let_def)

lemma switch_ok:
  assumes "base_ok E s front cur 2" and "in_old E s cur"
  shows "chain_ok E (s\<lparr>ho_writer := active_id s, ho_stage := Switched\<rparr>)"
proof -
  have "in_new E (s\<lparr>ho_writer := active_id s, ho_stage := Switched\<rparr>) False (front @ [cur, []]) []"
    using assms by (auto simp: in_old_def in_new_def base_ok_def Let_def)
  with base_switch [OF assms(1), of "active_id s"] old_ids(2) [OF assms(2)] base_okD(2) [OF assms(1)] show ?thesis
    by (intro chain_okI [of E _ "front @ [cur, []]" "[]" 0]) (auto simp: stage_ok_def)
qed

lemma copy_ok:
  assumes "base_ok E s front cur 0" and "in_new E s False front cur"
  shows "chain_ok E (copy_tail s)"
proof -
  from assms(2) obtain pre p q where new: "behind s = q @ cur" "hj_wal_cutoff (ho_job s) = length (enc E p)" "front = pre @ [p @ q, []]"
      "unat (hj_wal_id (ho_job s)) = unat (mf_wal_id (ho_manifest s)) + length pre" "hj_version (ho_job s) \<le> ho_version s"
    by (auto simp: in_new_def)
  have files: "holds_files (ho_dir s) (mf_wal_id (ho_manifest s)) (map (enc E) (pre @ [p @ q, []]) @ [enc E cur])"
    and w: "unat (ho_writer s) = unat (hj_wal_id (ho_job s)) + 2"
    using assms(1) new by (simp_all add: base_ok_def Let_def)
  have tail: "drop (hj_wal_cutoff (ho_job s)) (wal_file s (hj_wal_id (ho_job s))) = enc E q"
    using holds_files_nth [OF files new(4)] new(2) by (simp add: wal_file_def nth_append)
  have "unat (bridge_id s) = unat (mf_wal_id (ho_manifest s)) + length pre + 1"
    using base_okD(2) [OF assms(1)] w new(4) by (simp add: bridge_id_def unat_word_ariths(1))
  moreover have "in_new E (copy_tail s) True (pre @ [p @ q, q]) cur" using new by (auto simp: in_new_def copy_tail_def set_wal_def)
  ultimately show ?thesis
    using base_copy [of E s pre p q cur "bridge_id s"] assms(1) new(3) tail
    by (intro chain_okI [of E _ "pre @ [p @ q, q]" cur 0]) (auto simp: stage_ok_def copy_tail_def)
qed

lemma publish_ok:
  assumes "base_ok E s front cur 0" and "in_new E s True front cur"
  shows "chain_ok E (publish_handover s)"
proof -
  from assms(2) obtain pre p q where "behind s = q @ cur" "front = pre @ [p @ q, q]"
      "unat (hj_wal_id (ho_job s)) = unat (mf_wal_id (ho_manifest s)) + length pre" "hj_version (ho_job s) \<le> ho_version s"
    by (auto simp: in_new_def)
  with base_publish [of E s pre "p @ q" q cur] assms(1) show ?thesis
    by (intro chain_okI [of E _ "[q]" cur 0]) (auto simp: stage_ok_def publish_handover_def)
qed

lemma freeze_ok:
  assumes "base_ok E s front cur k"
  shows "chain_ok E (freeze_wal s)"
proof -
  have "in_old E (freeze_wal s) cur"
    using nothing_newer [OF base_versions(1) [OF assms]] base_okD(1) [OF assms] by (simp add: in_old_def freeze_wal_def)
  with assms show ?thesis
    by (intro chain_okI [of E _ front cur k]) (simp_all add: freeze_wal_def stage_ok_def)
qed

lemma handover_step_ok:
  assumes "handover_step E s t" and "chain_ok E s"
  shows "chain_ok E t"
proof -
  from assms(2) obtain front cur k where base: "base_ok E s front cur k" and st: "stage_ok E s front cur k"
    by (auto simp: chain_ok_def)
  have old: "hj_wal_id (ho_job s) = ho_writer s" if "in_old E s cur" using that by (simp add: in_old_def)
  show ?thesis using assms(1)
  proof cases
    case (commit r)
    with base_commit [OF base] commit_stage [OF st] show ?thesis by (auto intro: chain_okI)
  next
    case finish_rotation
    with st obtain k' where "k = Suc k'" by (cases k) (auto simp: stage_ok_def)
    with base_finish_rotation [of E s front cur k'] base show ?thesis unfolding finish_rotation
      by (intro chain_okI [of E _ "[]" "[]" k']) (auto simp: stage_ok_def publish_rotation_def)
  next
    case (cleanup fid)
    with base_cleanup [OF base] show ?thesis by (intro chain_okI [of E _ front cur k]) (auto simp: stage_ok_def remove_wal_def)
  next
    case rotate
    with base_rotate [OF base] show ?thesis by (auto simp: stage_ok_def intro!: chain_okI)
  next
    case give_up
    with base show ?thesis by (intro chain_okI [of E _ front cur k]) (auto simp: stage_ok_def)
  qed (use base st old in \<open>auto simp: stage_ok_def intro: freeze_ok reserve_bridge_ok reserve_active_ok release_active_ok release_bridge_ok
      extend_ok switch_ok copy_ok publish_ok\<close>)
qed

section \<open>Crashes\<close>

text \<open>What a replay has to bring back.\<close>

definition replayed :: "'j handover \<Rightarrow> replay \<Rightarrow> bool" where
  "replayed s st \<longleftrightarrow>
     (let m = ho_manifest s; rs = filter (\<lambda>r. mf_committed_version m < wr_version r) (ho_committed s) in
      rp_version st = ho_version s \<and> rp_pushed st = concat (map record_pushes rs)
      \<and> rp_identity st = merge_marks (map_of (mf_identity_high_water m)) (concat (map wr_identity rs)))"

lemma merge_marks_append: "merge_marks m (xs @ ys) = merge_marks (merge_marks m xs) ys"
  by (induction xs arbitrary: m) auto

lemma replayedI:
  assumes "base_ok E s front cur k" and "rp_version st = ho_version s"
    and "rp_pushed st = concat (map record_pushes (applied (mf_committed_version (ho_manifest s)) (concat front @ cur)))"
    and "rp_identity st = merge_marks (map_of (mf_identity_high_water (ho_manifest s)))
      (concat (map wr_identity (applied (mf_committed_version (ho_manifest s)) (concat front @ cur))))"
  shows "replayed s st"
  using assms by (simp add: replayed_def base_ok_def Let_def)

lemma recovered_start:
  assumes "recovered st = recovered (foldl apply_record (replay_start m) rs)"
  shows "rp_pushed st = concat (map record_pushes rs)" and "rp_identity st = merge_marks (map_of (mf_identity_high_water m)) (concat (map wr_identity rs))"
  using assms by (simp_all add: recovered_def foldl_apply_record replay_start_def)

definition resumed :: "wal_dir \<Rightarrow> replay \<Rightarrow> 'j handover \<Rightarrow> 'j handover" where
  "resumed dir st s = s\<lparr>ho_dir := dir, ho_writer := rp_active_wal st, ho_version := rp_version st\<rparr>"

lemma recover_whole:
  assumes "base_ok E s front cur k"
  shows "\<exists>st. replay_wals E ro (ho_dir s) (mf_wal_id (ho_manifest s)) (replay_start (ho_manifest s)) = (ho_dir s, Inr st)
    \<and> replayed s st \<and> (\<exists>front' cur'. base_ok E (resumed (ho_dir s) st s) front' cur' 0)"
proof -
  let ?chain = "front @ [cur] @ replicate k []" and ?a = "mf_wal_id (ho_manifest s)"
  let ?front = "butlast ?chain" and ?cur = "last ?chain"
  note base = assms [unfolded base_ok_def Let_def]
  have files: "holds_files (ho_dir s) ?a (map (enc E) ?chain @ [])" using base by simp
  have ok: "list_all (file_ok E) ?chain" using base by (auto simp: list_all_iff)
  have split: "?chain = ?front @ [?cur]" by (rule append_butlast_last_id [symmetric]) simp
  have recs: "concat ?chain = concat front @ cur" by simp
  have "check_versions 0 (rp_version (replay_start (ho_manifest s))) (concat ?chain) = Inr (ho_version s)"
    using base recs by (simp add: replay_start_def)
  from replay_front [OF files ok this, of ro] obtain f st where f: "unat f = unat ?a + length ?chain"
      "replay_wals E ro (ho_dir s) ?a (replay_start (ho_manifest s)) = replay_wals E ro (ho_dir s) f st"
      "recovered st = recovered (foldl apply_record (replay_start (ho_manifest s)) (applied (rp_version (replay_start (ho_manifest s))) (concat ?chain)))"
      "rp_version st = ho_version s" "rp_active_wal st = f - 1" by auto
  have "map_of (ho_dir s) (wal_file_name f) = None" using holds_files_nth [OF files f(1)] by simp
  then have stop: "replay_wals E ro (ho_dir s) f st = (ho_dir s, Inr st)" by (subst replay_wals.simps) simp
  have "replayed s st"
    by (rule replayedI [OF assms f(4)]) (use recovered_start [OF f(3)] recs in \<open>simp_all add: replay_start_def\<close>)
  moreover have "base_ok E (resumed (ho_dir s) st s) ?front ?cur 0"
  proof -
    have "unat (f - 1) = unat ?a + length ?front" using f(1) by (simp add: unat_sub_if' word_le_nat_alt)
    moreover have "map (enc E) ?front @ [enc E ?cur] @ replicate 0 [] = map (enc E) ?chain" by (subst split) simp
    moreover have "concat ?front @ ?cur = concat front @ cur" using recs by (subst (asm) split) simp
    moreover have "list_all (file_ok E) (?front @ [?cur])" using ok split by metis
    ultimately show ?thesis
      using base files f(4,5) by (simp add: base_ok_def Let_def resumed_def)
  qed
  ultimately show ?thesis using f(2) stop by metis
qed

lemma recover_torn:
  assumes "base_ok E s front cur k" and "wf_record r" "0 < n" "n < length (commit_bytes E r)"
    and "length (enc E cur) + length (commit_bytes E r) < usize_limit"
    and dir: "dir = AList.update (wal_file_name (ho_writer s)) (enc E cur @ take n (commit_bytes E r)) (ho_dir s)"
  shows "\<exists>st. replay_wals E False dir (mf_wal_id (ho_manifest s)) (replay_start (ho_manifest s)) = (AList.update (wal_file_name (ho_writer s)) (enc E cur) dir, Inr st)
    \<and> replayed s st \<and> base_ok E (resumed (AList.update (wal_file_name (ho_writer s)) (enc E cur) dir) st s) front cur k"
    and "\<exists>st. snd (replay_wals E True dir (mf_wal_id (ho_manifest s)) (replay_start (ho_manifest s))) = Inr st \<and> replayed s st"
proof -
  let ?a = "mf_wal_id (ho_manifest s)" and ?torn = "enc E cur @ take n (commit_bytes E r)"
  note base = assms(1) [unfolded base_ok_def Let_def]
  have w: "unat (ho_writer s) = unat ?a + length front" using base by simp
  have files: "holds_files dir ?a (map (enc E) front @ ?torn # replicate k [])"
    using holds_files_update [of "ho_dir s" ?a "map (enc E) front @ [enc E cur] @ replicate k []" "ho_writer s" "length front" ?torn] base
    by (simp add: dir list_update_append)
  have ok: "list_all (file_ok E) front" "file_ok E cur" using base by simp_all
  have scan: "ws_records (scan_wal E ?torn) = cur" "ws_valid_len (scan_wal E ?torn) = length (enc E cur)" "\<not> ws_clean (scan_wal E ?torn)"
    using wal_torn_tail(1-3) [of cur r E n ?torn] ok(2) assms(2-5) by (simp_all add: enc_def file_ok_def)
  from base obtain u where u: "check_versions 0 (mf_committed_version (ho_manifest s)) (concat front) = Inr u" "check_versions 0 u cur = Inr (ho_version s)"
    by (auto simp: check_versions_app)
  have front: "\<exists>st. replay_wals E ro dir ?a (replay_start (ho_manifest s)) = replay_wals E ro dir (ho_writer s) st \<and> rp_version st = u
      \<and> recovered st = recovered (foldl apply_record (replay_start (ho_manifest s)) (applied (mf_committed_version (ho_manifest s)) (concat front)))" for ro
  proof -
    have "check_versions 0 (rp_version (replay_start (ho_manifest s))) (concat front) = Inr u" using u(1) by (simp add: replay_start_def)
    from replay_front [OF files ok(1) this, of ro] w obtain f st where f: "unat f = unat (ho_writer s)"
      "replay_wals E ro dir ?a (replay_start (ho_manifest s)) = replay_wals E ro dir f st" "rp_version st = u"
      "recovered st = recovered (foldl apply_record (replay_start (ho_manifest s)) (applied (rp_version (replay_start (ho_manifest s))) (concat front)))" by auto
    moreover have "f = ho_writer s" using f(1) by (simp add: word_unat_eq_iff)
    ultimately show ?thesis by (auto simp: replay_start_def)
  qed
  have data: "map_of dir (wal_file_name (ho_writer s)) = Some ?torn" by (simp add: dir update_conv')
  have torn: "replay_wals E ro dir ?a (replay_start (ho_manifest s)) = (if ro then dir else AList.update (wal_file_name (ho_writer s)) (enc E cur) dir, Inr st')
      \<and> replayed s st' \<and> rp_active_wal st' = ho_writer s"
    if st: "replay_wals E ro dir ?a (replay_start (ho_manifest s)) = replay_wals E ro dir (ho_writer s) st" "rp_version st = u"
        "recovered st = recovered (foldl apply_record (replay_start (ho_manifest s)) (applied (mf_committed_version (ho_manifest s)) (concat front)))"
      and st': "st' = (foldl apply_record st (applied u cur))\<lparr>rp_active_wal := ho_writer s\<rparr>" for ro st st'
  proof -
    note here = replay_records_applied [of 0 st cur "ho_version s"]
    have "replay_wals E ro dir (ho_writer s) st = (if ro then dir else AList.update (wal_file_name (ho_writer s)) (enc E cur) dir, Inr st')"
      using here u(2) st(2) scan st' by (subst replay_wals.simps) (simp add: data Let_def)
    moreover have "replayed s st'"
      by (rule replayedI [OF assms(1)])
        (use here u(2) st(2) st' recovered_start [OF st(3)] check_versions_append [OF u(1), of cur] in
          \<open>simp_all add: foldl_apply_record merge_marks_append\<close>)
    ultimately show ?thesis using st(1) st' by simp
  qed
  have "holds_files (AList.update (wal_file_name (ho_writer s)) (enc E cur) dir) ?a (map (enc E) front @ [enc E cur] @ replicate k [])"
    using holds_files_update [OF files w, of "enc E cur"] by (simp add: list_update_append)
  then have again: "base_ok E (resumed (AList.update (wal_file_name (ho_writer s)) (enc E cur) dir) st' s) front cur k"
    if "replayed s st'" "rp_active_wal st' = ho_writer s" for st'
    using base that by (simp add: base_ok_def Let_def resumed_def replayed_def dir names_ok_changed)
  show "\<exists>st. replay_wals E False dir ?a (replay_start (ho_manifest s)) = (AList.update (wal_file_name (ho_writer s)) (enc E cur) dir, Inr st)
    \<and> replayed s st \<and> base_ok E (resumed (AList.update (wal_file_name (ho_writer s)) (enc E cur) dir) st s) front cur k"
    using front [of False] torn [of False] again by fastforce
  show "\<exists>st. snd (replay_wals E True dir ?a (replay_start (ho_manifest s))) = Inr st \<and> replayed s st"
    using front [of True] torn [of True] by fastforce
qed

lemma crash_accepted:
  assumes "base_ok E s front cur k" and "crashed E s dir"
  shows "\<exists>ids. validate_wal_chain E dir (mf_wal_id (ho_manifest s)) (mf_required_wal_id (ho_manifest s)) (mf_committed_version (ho_manifest s)) = Inr ids"
proof -
  let ?a = "mf_wal_id (ho_manifest s)"
  note base = assms(1) [unfolded base_ok_def Let_def]
  have accepted: ?thesis if "names_ok dir" "holds_files dir ?a (map (enc E) front @ [b] @ replicate k [])"
      "ws_corruption (scan_wal E b) = None" "ws_records (scan_wal E b) = cur" for b
    by (rule validate_files [OF that(1,2) _ that(3)]) (use base that(4) in simp_all)
  from assms(2) show ?thesis unfolding crashed_def
  proof (elim disjE exE conjE)
    assume "dir = ho_dir s"
    with base accepted [of "enc E cur"] show ?thesis by (simp add: scan_whole_file)
  next
    fix r n
    let ?torn = "wal_file s (ho_writer s) @ take n (commit_bytes E r)"
    assume r: "wf_record r" "0 < n" "n < length (commit_bytes E r)" "length (wal_file s (ho_writer s)) + length (commit_bytes E r) < usize_limit"
      and dir: "dir = AList.update (wal_file_name (ho_writer s)) ?torn (ho_dir s)" and ok: "ws_corruption (scan_wal E ?torn) = None"
    have "ws_records (scan_wal E ?torn) = cur"
      using wal_torn_tail(1) [of cur r E n ?torn] base r base_okD(1) [OF assms(1)] by (simp add: enc_def file_ok_def)
    moreover have "holds_files dir ?a (map (enc E) front @ [?torn] @ replicate k [])"
      using holds_files_update [of "ho_dir s" ?a "map (enc E) front @ [enc E cur] @ replicate k []" "ho_writer s" "length front" ?torn] base
      by (simp add: dir list_update_append)
    ultimately show ?thesis using accepted [of ?torn] ok base by (simp add: dir names_ok_changed)
  qed
qed

lemma crash_replayed:
  assumes "base_ok E s front cur k" and "crashed E s dir"
  shows "\<exists>st. snd (replay_wals E ro dir (mf_wal_id (ho_manifest s)) (replay_start (ho_manifest s))) = Inr st \<and> replayed s st"
    and "\<exists>dir' st front' cur' k'. replay_wals E False dir (mf_wal_id (ho_manifest s)) (replay_start (ho_manifest s)) = (dir', Inr st)
      \<and> replayed s st \<and> base_ok E (resumed dir' st s) front' cur' k'"
proof -
  note file' = base_okD(1) [OF assms(1)]
  have torn: "(\<exists>st. snd (replay_wals E ro dir (mf_wal_id (ho_manifest s)) (replay_start (ho_manifest s))) = Inr st \<and> replayed s st)
    \<and> (\<exists>dir' st. replay_wals E False dir (mf_wal_id (ho_manifest s)) (replay_start (ho_manifest s)) = (dir', Inr st)
        \<and> replayed s st \<and> base_ok E (resumed dir' st s) front cur k)" if "dir \<noteq> ho_dir s"
  proof -
    from assms(2) that obtain r n where r: "wf_record r" "0 < n" "n < length (commit_bytes E r)"
      "length (enc E cur) + length (commit_bytes E r) < usize_limit"
      "dir = AList.update (wal_file_name (ho_writer s)) (enc E cur @ take n (commit_bytes E r)) (ho_dir s)"
      by (auto simp: crashed_def file')
    note both = recover_torn [OF assms(1) r]
    show ?thesis using both by (cases ro) (fastforce, metis snd_conv)
  qed
  show "\<exists>st. snd (replay_wals E ro dir (mf_wal_id (ho_manifest s)) (replay_start (ho_manifest s))) = Inr st \<and> replayed s st"
    using torn recover_whole [OF assms(1), of ro] by (cases "dir = ho_dir s") auto
  show "\<exists>dir' st front' cur' k'. replay_wals E False dir (mf_wal_id (ho_manifest s)) (replay_start (ho_manifest s)) = (dir', Inr st)
      \<and> replayed s st \<and> base_ok E (resumed dir' st s) front' cur' k'"
    using torn recover_whole [OF assms(1), of False] by (cases "dir = ho_dir s") blast+
qed

lemma reopened_ok:
  assumes "chain_ok E s" and "crashed E s dir"
  shows "\<exists>u. reopened E dir s = Some u \<and> chain_ok E u \<and> ho_version u = ho_version s \<and> ho_committed u = ho_committed s"
proof -
  from assms(1) obtain front cur k where "base_ok E s front cur k" by (auto simp: chain_ok_def)
  from crash_replayed(2) [OF this assms(2)] obtain dir' st front' cur' k' where
    replay: "replay_wals E False dir (mf_wal_id (ho_manifest s)) (replay_start (ho_manifest s)) = (dir', Inr st)"
      "replayed s st" "base_ok E (resumed dir' st s) front' cur' k'" by blast
  let ?m = "if rp_active_wal st > mf_required_wal_id (ho_manifest s) then (ho_manifest s)\<lparr>mf_required_wal_id := rp_active_wal st\<rparr> else ho_manifest s"
  let ?u = "s\<lparr>ho_manifest := ?m, ho_dir := dir', ho_writer := rp_active_wal st, ho_version := rp_version st, ho_stage := Idle\<rparr>"
  have "base_ok E ?u front' cur' k'" using replay(3) by (auto simp: base_ok_def Let_def resumed_def)
  then have "chain_ok E ?u" by (intro chain_okI) (simp_all add: stage_ok_def)
  with replay(1,2) show ?thesis by (auto simp: reopened_def replayed_def Let_def)
qed

lemma handover_initial_ok: "chain_ok E handover_initial"
proof -
  have "holds_files [(wal_file_name 1, [])] 1 [[]]"
    by (auto simp: holds_files_def word_le_nat_alt word_unat_eq_iff)
  then have "base_ok E handover_initial [] [] 0"
    by (simp add: base_ok_def Let_def handover_initial_def manifest_initial_def names_ok_def)
  then show ?thesis by (rule chain_okI) (simp add: stage_ok_def handover_initial_def)
qed

lemma handovers_ok: "handovers E s t \<Longrightarrow> chain_ok E s \<Longrightarrow> chain_ok E t"
proof (induction rule: handovers.induct)
  case (online s t u)
  then show ?case using handover_step_ok by blast
next
  case (crash s t dir u)
  then show ?case using reopened_ok by fastforce
qed

section \<open>Properties\<close>


text \<open>The steps of a checkpoint up to the reservation in the manifest, for the witnesses.\<close>

abbreviation sample_reserved :: "bytes handover" where
  "sample_reserved \<equiv> (set_wal 3 [] ((set_wal 2 [] (freeze_wal handover_initial))\<lparr>ho_stage := Bridged\<rparr>))\<lparr>ho_stage := Reserved\<rparr>"

lemma sample_bridged: "handovers sample_ext handover_initial ((set_wal 2 [] (freeze_wal handover_initial))\<lparr>ho_stage := Bridged\<rparr> :: bytes handover)"
proof -
  let ?f = "freeze_wal handover_initial :: bytes handover"
  have "handover_step sample_ext handover_initial ?f" by (rule handover_step.freeze) (simp add: handover_initial_def)
  moreover have "handover_step sample_ext ?f ((set_wal (bridge_id ?f) [] ?f)\<lparr>ho_stage := Bridged\<rparr>)"
    by (rule handover_step.reserve_bridge) (simp_all add: freeze_wal_def handover_initial_def wal_exists_def bridge_id_def)
  moreover have "bridge_id ?f = 2" by (simp add: freeze_wal_def handover_initial_def bridge_id_def)
  ultimately show ?thesis by (metis handovers.start handovers.online)
qed

lemma sample_reserve: "handovers sample_ext handover_initial sample_reserved"
proof -
  let ?b = "(set_wal 2 [] (freeze_wal handover_initial))\<lparr>ho_stage := Bridged\<rparr> :: bytes handover"
  have id: "active_id ?b = 3" by (simp add: freeze_wal_def set_wal_def handover_initial_def active_id_def)
  have "handover_step sample_ext ?b ((set_wal (active_id ?b) [] ?b)\<lparr>ho_stage := Reserved\<rparr>)"
    by (rule handover_step.reserve_active) (simp_all add: id, simp add: freeze_wal_def set_wal_def handover_initial_def wal_exists_def update_conv')
  with handovers.online [OF sample_bridged] show ?thesis by (simp add: id)
qed

lemma sample_extend: "handovers sample_ext handover_initial (extend_manifest sample_reserved)"
proof -
  have "handover_step sample_ext sample_reserved (extend_manifest sample_reserved)"
    by (rule handover_step.extend) (simp_all add: freeze_wal_def set_wal_def handover_initial_def wal_file_def update_conv')
  with sample_reserve show ?thesis by (rule handovers.online)
qed

abbreviation sample_first :: wal_record where
  "sample_first \<equiv> \<lparr>wr_version = 1, wr_changes = [], wr_identity = [(''t'', 3)]\<rparr>"

lemma sample_first_ok: "wf_record sample_first" "length (commit_bytes sample_ext sample_first) = 52"
  by (simp_all add: wf_record_def wf_mark_def fits_u16_def fits_u32_def usize_limit_def IDENTITY_META_TABLE_facts
      commit_bytes_eq record_body_def record_items_def item_bytes_raw raw_item_def del: item_bytes.simps)

text \<open>A complete hand-over with a commit to the new log while the old one is copied.\<close>

lemma sample_handover:
  obtains s :: "bytes handover" where "handovers sample_ext handover_initial s"
    and "mf_wal_id (ho_manifest s) = 2" and "mf_required_wal_id (ho_manifest s) = 3" and "mf_committed_version (ho_manifest s) = 0"
    and "ho_version s = 1" and "ho_committed s = [sample_first]"
proof -
  let ?x = "extend_manifest sample_reserved :: bytes handover"
  let ?w = "?x\<lparr>ho_writer := active_id ?x, ho_stage := Switched\<rparr>"
  have x: "ho_stage ?x = Extended" "ho_version ?x = 0" "active_id ?x = 3" "ho_manifest ?x = manifest_initial\<lparr>mf_required_wal_id := 3\<rparr>"
      "hj_wal_id (ho_job ?x) = 1" "hj_version (ho_job ?x) = 0" "ho_committed ?x = []" "wal_file ?x 3 = []"
    by (simp_all add: extend_manifest_def freeze_wal_def set_wal_def handover_initial_def active_id_def wal_file_def update_conv')
  have file': "wal_file ?w (ho_writer ?w) = []" using x(3,8) by (simp add: wal_file_def)
  have w: "handovers sample_ext handover_initial ?w"
    using sample_extend handover_step.switch [OF x(1)] by (rule handovers.online)
  have "handover_step sample_ext ?w (commit_wal sample_ext sample_first ?w)"
    by (rule handover_step.commit) (use x(2) sample_first_ok file' in \<open>simp_all add: u64_checked_succ_def usize_limit_def\<close>)
  with w have c: "handovers sample_ext handover_initial (commit_wal sample_ext sample_first ?w)" (is "handovers _ _ ?c") by (rule handovers.online)
  have stage: "ho_stage ?c = Switched" by (simp add: commit_wal_def set_wal_def)
  have p: "handovers sample_ext handover_initial (publish_handover (copy_tail ?c))"
    by (rule handovers.online [OF handovers.online [OF c handover_step.copy [OF stage]] handover_step.publish]) (simp add: copy_tail_def)
  show thesis
    by (rule that [OF p]) (use x in \<open>simp_all add: publish_handover_def copy_tail_def commit_wal_def set_wal_def bridge_id_def active_id_def\<close>)
qed




end
