(* ===== verification/Run_Manifest.thy ===== *)
theory Run_Manifest
  imports Manifest Primary_Index
begin

text \<open>
  The manifests of index runs (\<open>run_manifest.rs\<close>): which immutable runs together form the primary
  index, or one secondary, text or vector index, at an exact generation. They are disposable: a
  missing, stale or damaged one is rebuilt, so a single atomic replacement publishes them.

  A unique name from crate \<open>ulid\<close> is an argument, as is the outcome of a read that may fail in
  another way than by a missing file. Paths are names in one directory.
\<close>

section \<open>The data\<close>

record primary_run_manifest =
  rm_format :: u32
  rm_generation :: u64
  rm_runs :: "primary_run_meta list"

datatype derived_run_kind = Secondary | TextIndex | VectorIndex

record derived_run_meta =
  dm_file :: string
  dm_level :: u8
  dm_bytes :: u64
  dm_generation :: u64

record derived_run_manifest =
  dr_format :: u32
  dr_kind :: derived_run_kind
  dr_table :: string
  dr_column :: string
  dr_generation :: u64
  dr_runs :: "derived_run_meta list"
  dr_aux :: "u64 \<times> u64"

abbreviation "RUN_FORMAT \<equiv> (1::u32)"
abbreviation "PRIMARY_RUN_MANIFEST \<equiv> ''primary.runs''"
abbreviation "RUN_MAGIC \<equiv> ''ESQLRUN1''"
abbreviation "DERIVED_MAGIC \<equiv> ''ESQLDRN1''"

definition run_manifest_new :: "u64 \<Rightarrow> primary_run_meta list \<Rightarrow> primary_run_manifest" where
  "run_manifest_new generation runs = \<lparr>rm_format = RUN_FORMAT, rm_generation = generation, rm_runs = runs\<rparr>"

definition derived_manifest_new ::
    "derived_run_kind \<Rightarrow> string \<Rightarrow> string \<Rightarrow> u64 \<Rightarrow> derived_run_meta list \<Rightarrow> u64 \<times> u64 \<Rightarrow> derived_run_manifest" where
  "derived_manifest_new kind tname cname generation runs aux =
     \<lparr>dr_format = RUN_FORMAT, dr_kind = kind, dr_table = tname, dr_column = cname, dr_generation = generation,
      dr_runs = runs, dr_aux = aux\<rparr>"

section \<open>The envelope\<close>

definition encode_envelope :: "(bytes \<Rightarrow> u32) \<Rightarrow> 'm serde \<Rightarrow> string \<Rightarrow> 'm \<Rightarrow> bytes" where
  "encode_envelope crc J magic m =
     (let body = to_vec J m in
      as_bytes magic @ to_le_bytes (crc body) @ to_le_bytes (of_nat (length body) :: u32) @ body)"

definition decode_envelope :: "(bytes \<Rightarrow> u32) \<Rightarrow> 'm serde \<Rightarrow> string \<Rightarrow> bytes \<Rightarrow> string \<Rightarrow> 'm result" where
  "decode_envelope crc J magic bs label =
     rbind (require (\<not> (length bs < 16 \<or> take 8 bs \<noteq> as_bytes magic)) (Corrupt (label @ '': bad magic''))) (\<lambda>_.
     let stored_crc = from_le_bytes (take 4 (drop 8 bs)) :: u32;
         body_len = unat (from_le_bytes (take 4 (drop 12 bs)) :: u32) in
     rbind (ok_or (Corrupt (label @ '': truncated body''))
             (opt_filter (\<lambda>_. length bs = 16 + body_len) (get_range bs 16 (16 + body_len)))) (\<lambda>body.
     rbind (require (\<not> crc body \<noteq> stored_crc) (Corrupt (label @ '': crc mismatch''))) (\<lambda>_.
     map_err (\<lambda>e. Corrupt (label @ '': '' @ e)) (from_slice J body))))"

definition valid_filename :: "string \<Rightarrow> bool" where
  "valid_filename name \<longleftrightarrow> name \<noteq> [] \<and> CHR ''/'' \<notin> set name \<and> CHR 0x5C \<notin> set name \<and> name \<noteq> ''.'' \<and> name \<noteq> ''..''"

definition run_manifest_encode :: "(bytes \<Rightarrow> u32) \<Rightarrow> primary_run_manifest serde \<Rightarrow> primary_run_manifest \<Rightarrow> bytes" where
  "run_manifest_encode crc J m = encode_envelope crc J RUN_MAGIC m"

definition run_manifest_decode :: "(bytes \<Rightarrow> u32) \<Rightarrow> primary_run_manifest serde \<Rightarrow> bytes \<Rightarrow> primary_run_manifest result" where
  "run_manifest_decode crc J bs =
     rbind (decode_envelope crc J RUN_MAGIC bs ''primary run manifest'') (\<lambda>m.
     rbind (require (\<not> rm_format m \<noteq> RUN_FORMAT)
             (Corrupt (''primary run manifest: unsupported format '' @ show_nat (unat (rm_format m))))) (\<lambda>_.
     rbind (require (\<not> list_ex (\<lambda>run. \<not> valid_filename (prm_file run)) (rm_runs m))
             (Corrupt ''primary run manifest: invalid run filename'')) (\<lambda>_.
     Inr m)))"

definition derived_encode :: "(bytes \<Rightarrow> u32) \<Rightarrow> derived_run_manifest serde \<Rightarrow> derived_run_manifest \<Rightarrow> bytes" where
  "derived_encode crc J m = encode_envelope crc J DERIVED_MAGIC m"

definition derived_decode :: "(bytes \<Rightarrow> u32) \<Rightarrow> derived_run_manifest serde \<Rightarrow> bytes \<Rightarrow> derived_run_manifest result" where
  "derived_decode crc J bs =
     rbind (decode_envelope crc J DERIVED_MAGIC bs ''derived run manifest'') (\<lambda>m.
     rbind (require (\<not> dr_format m \<noteq> RUN_FORMAT)
             (Corrupt (''derived run manifest: unsupported format '' @ show_nat (unat (dr_format m))))) (\<lambda>_.
     rbind (require (\<not> (dr_table m = [] \<or> dr_column m = [] \<or> list_ex (\<lambda>run. \<not> valid_filename (dm_file run)) (dr_runs m)))
             (Corrupt ''derived run manifest: invalid identity or filename'')) (\<lambda>_.
     Inr m)))"

section \<open>Loading\<close>

definition run_manifest_load ::
    "(bytes \<Rightarrow> u32) \<Rightarrow> primary_run_manifest serde \<Rightarrow> directory \<Rightarrow> u64 \<Rightarrow> primary_run_manifest result" where
  "run_manifest_load crc J d expected_generation =
     rbind (read_and_decode (run_manifest_decode crc J) PRIMARY_RUN_MANIFEST d) (\<lambda>m.
     if rm_generation m = expected_generation then Inr m
     else Inl (Corrupt ''primary run manifest: stale generation''))"

definition derived_load :: "(bytes \<Rightarrow> u32) \<Rightarrow> derived_run_manifest serde \<Rightarrow> directory \<Rightarrow> string
    \<Rightarrow> derived_run_kind \<Rightarrow> string \<Rightarrow> string \<Rightarrow> u64 \<Rightarrow> derived_run_manifest result" where
  "derived_load crc J d path kind tname cname expected_generation =
     rbind (read_and_decode (derived_decode crc J) path d) (\<lambda>m.
     if dr_kind m \<noteq> kind \<or> dr_table m \<noteq> tname \<or> dr_column m \<noteq> cname \<or> dr_generation m \<noteq> expected_generation
     then Inl (Corrupt ''derived run manifest: stale or mismatched identity'')
     else Inr m)"

definition derived_load_at_most :: "(bytes \<Rightarrow> u32) \<Rightarrow> derived_run_manifest serde \<Rightarrow> directory \<Rightarrow> string
    \<Rightarrow> derived_run_kind \<Rightarrow> string \<Rightarrow> string \<Rightarrow> u64 \<Rightarrow> derived_run_manifest result" where
  "derived_load_at_most crc J d path kind tname cname committed_version =
     rbind (read_and_decode (derived_decode crc J) path d) (\<lambda>m.
     if dr_kind m \<noteq> kind \<or> dr_table m \<noteq> tname \<or> dr_column m \<noteq> cname \<or> dr_generation m > committed_version
     then Inl (Corrupt ''derived run manifest: stale or mismatched identity'')
     else Inr m)"

text \<open>The files a manifest lists, for the sweep of orphans: \<open>None\<close> when nothing may be swept. A read
  fails, finds no file or finds bytes.\<close>

definition run_referenced_files :: "(bytes \<Rightarrow> u32) \<Rightarrow> primary_run_manifest serde \<Rightarrow> string + bytes option \<Rightarrow> string list option" where
  "run_referenced_files crc J read =
     (case read of
        Inr (Some bs) \<Rightarrow> (case run_manifest_decode crc J bs of Inr m \<Rightarrow> Some (map prm_file (rm_runs m)) | Inl _ \<Rightarrow> None)
      | Inr None \<Rightarrow> Some []
      | Inl _ \<Rightarrow> None)"

definition derived_referenced_files :: "(bytes \<Rightarrow> u32) \<Rightarrow> derived_run_manifest serde \<Rightarrow> string + bytes option
    \<Rightarrow> derived_run_kind \<Rightarrow> string \<Rightarrow> string \<Rightarrow> string list option" where
  "derived_referenced_files crc J read kind tname cname =
     (case read of
        Inr (Some bs) \<Rightarrow>
          Some (case derived_decode crc J bs of
                  Inr m \<Rightarrow> if dr_kind m = kind \<and> dr_table m = tname \<and> dr_column m = cname
                           then map dm_file (dr_runs m) else []
                | Inl _ \<Rightarrow> [])
      | Inr None \<Rightarrow> Some []
      | Inl _ \<Rightarrow> None)"

section \<open>Publishing\<close>

definition create_dir_all :: "fs \<Rightarrow> unit io" where
  "create_dir_all s = fs_sync s"

definition prepare_replacement :: "string \<Rightarrow> bytes \<Rightarrow> fs \<Rightarrow> unit io" where
  "prepare_replacement tmp bs s = fs_bind (create_dir_all s) (\<lambda>_ s. write_synced tmp bs s)"

text \<open>Dropping a prepared manifest whose rename failed removes its temporary file.\<close>

definition publish_prepared :: "string \<Rightarrow> string \<Rightarrow> fs \<Rightarrow> publish_outcome io" where
  "publish_prepared tmp target s =
     (case fs_rename tmp target s of
        (s, Inl e) \<Rightarrow> (snd (fs_remove tmp s), Inl e)
      | (s, Inr _) \<Rightarrow>
          (case fsync_dir s of (s, Inl e) \<Rightarrow> (s, Inr (SyncFailed (as_io e))) | (s, Inr _) \<Rightarrow> (s, Inr Complete)))"

definition publish_done :: "publish_outcome io \<Rightarrow> unit io" where
  "publish_done r =
     fs_bind r (\<lambda>outcome s. case outcome of Complete \<Rightarrow> (s, Inr ()) | SyncFailed e \<Rightarrow> (s, Inl (Io e)))"

definition run_tmp :: "string \<Rightarrow> string" where
  "run_tmp ulid = PRIMARY_RUN_MANIFEST @ ''.'' @ ulid @ ''.primary-pending.tmp''"

definition derived_tmp :: "string \<Rightarrow> string \<Rightarrow> string" where
  "derived_tmp target ulid = target @ ''.'' @ ulid @ ''.derived-pending.tmp''"

definition run_manifest_publish :: "(bytes \<Rightarrow> u32) \<Rightarrow> primary_run_manifest serde \<Rightarrow> string \<Rightarrow> primary_run_manifest \<Rightarrow> fs \<Rightarrow> unit io" where
  "run_manifest_publish crc J ulid m s =
     fs_bind (prepare_replacement (run_tmp ulid) (run_manifest_encode crc J m) s) (\<lambda>_ s.
     publish_done (publish_prepared (run_tmp ulid) PRIMARY_RUN_MANIFEST s))"

definition derived_publish :: "(bytes \<Rightarrow> u32) \<Rightarrow> derived_run_manifest serde \<Rightarrow> string \<Rightarrow> string \<Rightarrow> derived_run_manifest \<Rightarrow> fs \<Rightarrow> unit io" where
  "derived_publish crc J ulid path m s =
     fs_bind (prepare_replacement (derived_tmp path ulid) (derived_encode crc J m) s) (\<lambda>_ s.
     publish_done (publish_prepared (derived_tmp path ulid) path s))"

section \<open>Round trips\<close>

definition body_ok :: "'m serde \<Rightarrow> 'm \<Rightarrow> bool" where
  "body_ok J m \<longleftrightarrow> from_slice J (to_vec J m) = Inr m \<and> fits_u32 (length (to_vec J m))"

lemma decode_encode_envelope:
  assumes "body_ok J m" and "length magic = 8"
  shows "decode_envelope crc J magic (encode_envelope crc J magic m) label = Inr m"
proof -
  have "unat (of_nat (length (to_vec J m)) :: u32) = length (to_vec J m)"
    using assms(1) by (simp add: body_ok_def unat_of_nat_u32)
  moreover have "get_range (encode_envelope crc J magic m) 16 (16 + length (to_vec J m)) = Some (to_vec J m)"
    using assms(2) by (simp add: get_range_def encode_envelope_def Let_def)
  ultimately show ?thesis
    using assms
    by (auto simp: decode_envelope_def body_ok_def require_def map_err_def encode_envelope_def Let_def ok_or_def opt_filter_def)
qed

definition run_manifest_ok :: "primary_run_manifest serde \<Rightarrow> primary_run_manifest \<Rightarrow> bool" where
  "run_manifest_ok J m \<longleftrightarrow> body_ok J m \<and> rm_format m = RUN_FORMAT \<and> (\<forall>run \<in> set (rm_runs m). valid_filename (prm_file run))"

definition derived_ok :: "derived_run_manifest serde \<Rightarrow> derived_run_manifest \<Rightarrow> bool" where
  "derived_ok J m \<longleftrightarrow> body_ok J m \<and> dr_format m = RUN_FORMAT \<and> dr_table m \<noteq> [] \<and> dr_column m \<noteq> []
     \<and> (\<forall>run \<in> set (dr_runs m). valid_filename (dm_file run))"

interpretation rm: document "run_manifest_encode crc J" "run_manifest_decode crc J" "run_manifest_ok J" for crc J
  by unfold_locales
    (auto simp: run_manifest_decode_def run_manifest_encode_def run_manifest_ok_def decode_encode_envelope require_def list_ex_iff)

interpretation dm: document "derived_encode crc J" "derived_decode crc J" "derived_ok J" for crc J
  by unfold_locales
    (auto simp: derived_decode_def derived_encode_def derived_ok_def decode_encode_envelope require_def list_ex_iff)

interpretation cm: document "to_vec (me_catalog M)" "\<lambda>bs. rbind (map_err (\<lambda>e. Corrupt (''invalid catalog: '' @ e)) (from_slice (me_catalog M) bs))
    (\<lambda>ca. rbind (validate_catalog (me_sys M) ca) (\<lambda>_. Inr ca))"
    "\<lambda>ca. from_slice (me_catalog M) (to_vec (me_catalog M) ca) = Inr ca \<and> validate_catalog (me_sys M) ca = Inr ()" for M
  by unfold_locales (simp add: map_err_def)

text \<open>Decoded manifests name plain files only, so a damaged or forged one never leads outside the
  directory.\<close>

lemma run_manifest_names:
  "run_manifest_decode crc J bs = Inr m \<Longrightarrow> rm_format m = RUN_FORMAT \<and> (\<forall>run \<in> set (rm_runs m). valid_filename (prm_file run))"
  by (auto simp: run_manifest_decode_def result_dests require_def list_ex_iff split: if_splits)

lemma derived_names:
  "derived_decode crc J bs = Inr m \<Longrightarrow> dr_format m = RUN_FORMAT \<and> dr_table m \<noteq> [] \<and> dr_column m \<noteq> []
     \<and> (\<forall>run \<in> set (dr_runs m). valid_filename (dm_file run))"
  by (auto simp: derived_decode_def result_dests require_def list_ex_iff split: if_splits)

section \<open>Publication is atomic\<close>

context document
begin

lemma prepared_atomic:
  assumes run: "fs_bind (prepare_replacement tmp (enc m) s) (\<lambda>_ s. publish_done (publish_prepared tmp target s)) = (s', r)"
    and "valid m" and "tmp \<noteq> target"
    and seen: "seen_all (\<lambda>d. read_and_decode dec target d = old \<or> read_and_decode dec target d = Inr m) s"
    and now: "read_and_decode dec target (fs_dir s) = old"
  shows "seen_all (\<lambda>d. read_and_decode dec target d = old \<or> read_and_decode dec target d = Inr m) s'
    \<and> (r = Inr () \<longrightarrow> read_and_decode dec target (fs_dir s') = Inr m)"
proof -
  let ?P = "\<lambda>d. read_and_decode dec target d = old \<or> read_and_decode dec target d = Inr m"
  have tmp: "read_and_decode dec target (d(tmp := x)) = read_and_decode dec target d" for d x
    using \<open>tmp \<noteq> target\<close> by (simp add: read_and_decode_def fs_read_def)
  obtain s0 r0 where c: "create_dir_all s = (s0, r0)" by fastforce
  note c' = fs_sync_effect [OF c [unfolded create_dir_all_def], of ?P]
  obtain s1 r1 where w: "write_synced tmp (enc m) s0 = (s1, r1)" by fastforce
  have w': "seen_all ?P s1" "r1 = Inr () \<Longrightarrow> fs_dir s1 = (fs_dir s)(tmp \<mapsto> enc m)"
    using write_synced_effect [OF w, of ?P] c' seen now tmp by auto
  obtain s2 r2 where rn: "fs_rename tmp target s1 = (s2, r2)" by fastforce
  note rn' = fs_rename_effect [OF rn w'(1)]
  obtain s3 r3 where y: "fsync_dir s2 = (s3, r3)" by fastforce
  obtain r4 s4 where rm: "fs_remove tmp s2 = (r4, s4)" by fastforce
  show ?thesis
  proof (cases r0)
    case (Inl e)
    with run c c' seen show ?thesis by (auto simp: prepare_replacement_def fs_bind_def)
  next
    case Inr0: (Inr u0)
    show ?thesis
    proof (cases r1)
      case (Inl e)
      with run c w w' Inr0 show ?thesis by (auto simp: prepare_replacement_def fs_bind_def)
    next
      case Inr1: (Inr u1)
      then have d1: "fs_dir s1 = (fs_dir s)(tmp \<mapsto> enc m)" using w' by simp
      show ?thesis
      proof (cases r2)
        case (Inl e)
        with rn' have "seen_all ?P s2" "fs_dir s2 = fs_dir s1" by auto
        then have "seen_all ?P s4" using fs_remove_effect [OF rm, of ?P] d1 now tmp by (simp add: fun_upd_twist [OF \<open>tmp \<noteq> target\<close>])
        with run c w rn rm Inr0 Inr1 Inl show ?thesis
          by (auto simp: prepare_replacement_def publish_prepared_def publish_done_def fs_bind_def)
      next
        case Inr2: (Inr u2)
        with rn' d1 have new: "read_and_decode dec target (fs_dir s2) = Inr m"
          using \<open>tmp \<noteq> target\<close> \<open>valid m\<close> by (auto intro: read_at_same)
        then have "seen_all ?P s2" using rn' Inr2 by auto
        then show ?thesis
          using run c w rn y Inr0 Inr1 Inr2 new fsync_dir_effect [OF y, of ?P]
          by (cases r3) (auto simp: prepare_replacement_def publish_prepared_def publish_done_def fs_bind_def)
      qed
    qed
  qed
qed

end

lemma tmp_names: "run_tmp ulid \<noteq> PRIMARY_RUN_MANIFEST" "derived_tmp path ulid \<noteq> path"
  by (simp_all add: run_tmp_def derived_tmp_def)

section \<open>Properties\<close>

lemma start_simps [simp]: "fs_dir (fs_start d script) = d" "seen_all P (fs_start d script) = P d"
  by (simp_all add: fs_start_def seen_all_def)

lemmas rm_atomic = rm.prepared_atomic [where s = "fs_start d script", unfolded start_simps, OF _ _ tmp_names(1), folded run_manifest_publish_def] for d script
lemmas dm_atomic = dm.prepared_atomic [where s = "fs_start d script", unfolded start_simps, OF _ _ tmp_names(2), folded derived_publish_def] for d script

lemma catalog_load_eq: "catalog_load M d = read_and_decode (\<lambda>bs. rbind (map_err (\<lambda>e. Corrupt (''invalid catalog: '' @ e)) (from_slice (me_catalog M) bs))
    (\<lambda>ca. rbind (validate_catalog (me_sys M) ca) (\<lambda>_. Inr ca))) CATALOG_FILE d"
  by (simp add: catalog_load_def read_and_decode_def)

lemma catalog_save_atomic:
  assumes "catalog_save M ca (fs_start d script) = (s, r)"
    and "from_slice (me_catalog M) (to_vec (me_catalog M) ca) = Inr ca" and "validate_catalog (me_sys M) ca = Inr ()"
  shows "(\<forall>d' \<in> set (fs_seen s). catalog_load M d' \<in> {catalog_load M d, Inr ca})
    \<and> (r = Inr () \<longrightarrow> catalog_load M (fs_dir s) = Inr ca)"
proof -
  have "seen_all (\<lambda>d'. catalog_load M d' = catalog_load M d \<or> catalog_load M d' = Inr ca) s
      \<and> (r = Inr () \<longrightarrow> catalog_load M (fs_dir s) = Inr ca)"
    unfolding catalog_load_eq
    by (rule cm.replace_atomic [OF assms(1) [unfolded catalog_save_def]]) (use assms(2,3) in simp_all)
  then show ?thesis by (auto simp: seen_all_def)
qed

text \<open>Publishing a run set replaces the previous one atomically, for the primary index and for every
  derived index: at every moment, whatever call fails, a reader of the file finds what it found before or
  the new document; after a success the new one loads for its own generation.\<close>

theorem run_manifests_atomic:
  assumes "run_manifest_ok J m" and "run_manifest_publish crc J ulid m (fs_start d script) = (s, r)"
    and "derived_ok J' m'" and "derived_publish crc J' ulid path m' (fs_start d script') = (s', r')"
  shows "(\<forall>d' \<in> set (fs_seen s). read_and_decode (run_manifest_decode crc J) PRIMARY_RUN_MANIFEST d' \<in>
          {read_and_decode (run_manifest_decode crc J) PRIMARY_RUN_MANIFEST d, Inr m})
    \<and> (r = Inr () \<longrightarrow> run_manifest_load crc J (fs_dir s) (rm_generation m) = Inr m)
    \<and> (\<forall>d' \<in> set (fs_seen s'). read_and_decode (derived_decode crc J') path d' \<in>
          {read_and_decode (derived_decode crc J') path d, Inr m'})
    \<and> (r' = Inr () \<longrightarrow> derived_load crc J' (fs_dir s') path (dr_kind m') (dr_table m') (dr_column m') (dr_generation m') = Inr m')"
  using rm_atomic [OF assms(2,1) _ refl] dm_atomic [OF assms(4,3) _ refl]
  by (auto simp: seen_all_def run_manifest_load_def derived_load_def)

abbreviation sample_run_set :: primary_run_manifest where
  "sample_run_set \<equiv> run_manifest_new 7 [\<lparr>prm_file = ''primary.pidx'', prm_level = 7, prm_bytes = 42, prm_generation = 7\<rparr>]"

abbreviation sample_derived :: derived_run_manifest where
  "sample_derived \<equiv> derived_manifest_new Secondary ''items'' ''group'' 9 [] (0, 0)"

theorem run_manifests_atomic_witness:
  "\<exists>s s'. run_manifest_publish (\<lambda>_. 0) \<lparr>to_vec = (\<lambda>_. [1]), from_slice = (\<lambda>_. Inr sample_run_set)\<rparr> ''01'' sample_run_set
        (fs_start Map.empty []) = (s, Inr ())
     \<and> run_manifest_load (\<lambda>_. 0) \<lparr>to_vec = (\<lambda>_. [1]), from_slice = (\<lambda>_. Inr sample_run_set)\<rparr> (fs_dir s) 7 = Inr sample_run_set
     \<and> derived_publish (\<lambda>_. 0) \<lparr>to_vec = (\<lambda>_. [2]), from_slice = (\<lambda>_. Inr sample_derived)\<rparr> ''01'' ''s'' sample_derived
        (fs_start Map.empty []) = (s', Inr ())
     \<and> derived_load (\<lambda>_. 0) \<lparr>to_vec = (\<lambda>_. [2]), from_slice = (\<lambda>_. Inr sample_derived)\<rparr> (fs_dir s') ''s'' Secondary ''items'' ''group'' 9
         = Inr sample_derived"
proof -
  let ?J = "\<lparr>to_vec = (\<lambda>_. [1]), from_slice = (\<lambda>_. Inr sample_run_set)\<rparr>"
  let ?J' = "\<lparr>to_vec = (\<lambda>_. [2]), from_slice = (\<lambda>_. Inr sample_derived)\<rparr>"
  obtain s r where run: "run_manifest_publish (\<lambda>_. 0) ?J ''01'' sample_run_set (fs_start Map.empty []) = (s, r)" by fastforce
  obtain s' r' where run': "derived_publish (\<lambda>_. 0) ?J' ''01'' ''s'' sample_derived (fs_start Map.empty []) = (s', r')" by fastforce
  have ok: "run_manifest_ok ?J sample_run_set" "derived_ok ?J' sample_derived"
    by (simp_all add: run_manifest_ok_def derived_ok_def body_ok_def fits_u32_def run_manifest_new_def derived_manifest_new_def
        valid_filename_def)
  have r: "r = Inr ()" "r' = Inr ()"
    using run run' by (auto simp: run_manifest_publish_def derived_publish_def prepare_replacement_def publish_done_def
        publish_prepared_def create_dir_all_def fs_defs run_tmp_def derived_tmp_def)
  show ?thesis
    by (rule exI [of _ s], rule exI [of _ s'])
      (use run_manifests_atomic [OF ok(1) run ok(2) run'] r run run' in \<open>simp add: run_manifest_new_def derived_manifest_new_def\<close>)
qed

text \<open>A damaged derived manifest counts as one that references nothing, although the sweep of orphans
  should leave the runs of an unreadable one alone.\<close>

lemma damaged_derived_references_nothing:
  "derived_referenced_files crc J (Inr (Some [])) kind tname cname = Some []"
  by (simp add: derived_referenced_files_def derived_decode_def decode_envelope_def require_def)

end

