(* ===== verification/Secondary.thy ===== *)
theory Secondary
  imports Primary_Scan Run_Manifest
begin

text \<open>
  Secondary indexes (\<open>db/secondary.rs\<close>): a set of pairs of an encoded value and a row id, kept as
  published runs of versioned additions and deletions, an overlay being published, and an overlay of
  the changes since.

  Operations are shown to implement a set of pairs; the merges of runs and overlays return exactly
  its members in order. A batch of ids is a list, where the code packs it into one buffer. The
  verified marks that reads leave in a run are not returned. \<open>None\<close> is a loop that does not end.
\<close>

section \<open>Pairs and operations\<close>

abbreviation "SECONDARY_FORMAT_KEY \<equiv> [0::u8]"

definition SECONDARY_FORMAT_VALUE :: bytes where
  "SECONDARY_FORMAT_VALUE = as_bytes ''ESQLSID4''"

abbreviation "SECONDARY_ENTRY_TAG \<equiv> (1::u8)"
abbreviation "SECONDARY_DELETE \<equiv> (0::u8)"
abbreviation "SECONDARY_ADD \<equiv> (1::u8)"

type_synonym id_set = "string cow_set"
type_synonym id_map = "(bytes, id_set) cow_map"
type_synonym sec_op = "u64 \<times> u8"

record sec_run =
  sr_meta :: derived_run_meta
  sr_index :: paged_index

record frozen_sec_delta =
  fs_generation :: u64
  fs_delta :: id_map
  fs_removed :: id_map
  fs_arc :: nat

record sec_idx =
  si_generation :: u64
  si_runs :: "sec_run list"
  si_delta :: id_map
  si_removed :: id_map
  si_frozen :: "frozen_sec_delta option"

definition secondary_pair_prefix :: "bytes \<Rightarrow> bytes" where
  "secondary_pair_prefix key = SECONDARY_ENTRY_TAG # key @ [0xff]"

definition secondary_pair_key :: "bytes \<Rightarrow> string \<Rightarrow> bytes" where
  "secondary_pair_key key rid = secondary_pair_prefix key @ as_bytes rid"

fun rposition :: "('a \<Rightarrow> bool) \<Rightarrow> 'a list \<Rightarrow> nat option" where
  "rposition p [] = None"
| "rposition p (x # xs) =
     (case rposition p xs of Some i \<Rightarrow> Some (i + 1) | None \<Rightarrow> if p x then Some 0 else None)"

definition secondary_pair_parts :: "bytes \<Rightarrow> (bytes \<times> string) result" where
  "secondary_pair_parts pair =
     (case pair of
        [] \<Rightarrow> Inl (Corrupt ''secondary index: invalid pair key'')
      | tag # rest \<Rightarrow>
          if tag \<noteq> SECONDARY_ENTRY_TAG then Inl (Corrupt ''secondary index: invalid pair key'')
          else
            rbind (ok_or (Corrupt ''secondary index: missing pair terminator'') (rposition (\<lambda>b. b = 0xff) rest)) (\<lambda>separator.
            rbind (ok_or (Corrupt ''secondary index: invalid id utf8'') (from_utf8 (drop (separator + 1) rest))) (\<lambda>rid.
            Inr (take separator rest, rid))))"

definition secondary_operation :: "u64 \<Rightarrow> u8 \<Rightarrow> bytes" where
  "secondary_operation version operation = to_be_bytes version @ [operation]"

definition decode_secondary_operation :: "bytes \<Rightarrow> sec_op result" where
  "decode_secondary_operation stored =
     (if length stored \<noteq> 9 \<or> (stored ! 8 \<noteq> SECONDARY_DELETE \<and> stored ! 8 \<noteq> SECONDARY_ADD)
      then Inl (Corrupt ''secondary index: invalid operation'')
      else Inr (from_be_bytes (take 8 stored), stored ! 8))"

definition validate_secondary_run :: "(bytes \<Rightarrow> u32) \<Rightarrow> paged_index \<Rightarrow> unit result" where
  "validate_secondary_run crc ix =
     rbind (fst (visit_key crc ix SECONDARY_FORMAT_KEY (\<lambda>_ stored. Inr (stored = SECONDARY_FORMAT_VALUE, False)) False)) (\<lambda>valid.
     if valid then Inr () else Inl (Corrupt ''secondary index: unsupported run format''))"

text \<open>Operations are compared as pairs of a generation and a kind.\<close>

definition op_greater :: "sec_op \<Rightarrow> sec_op \<Rightarrow> bool" where
  "op_greater a b \<longleftrightarrow> fst a > fst b \<or> (fst a = fst b \<and> snd a > snd b)"

definition newer_op :: "sec_op option \<Rightarrow> sec_op \<Rightarrow> sec_op option" where
  "newer_op newest op = (if (case newest of None \<Rightarrow> True | Some cur \<Rightarrow> op_greater op cur) then Some op else newest)"

definition frozen_add_op :: "u64 \<Rightarrow> sec_op option \<Rightarrow> sec_op option" where
  "frozen_add_op gen newest =
     (if (case newest of None \<Rightarrow> True | Some cur \<Rightarrow> gen > fst cur) then Some (gen, SECONDARY_ADD) else newest)"

definition frozen_delete_op :: "u64 \<Rightarrow> sec_op option \<Rightarrow> sec_op option" where
  "frozen_delete_op gen newest =
     (if (case newest of None \<Rightarrow> True | Some cur \<Rightarrow> gen \<ge> fst cur) then Some (gen, SECONDARY_DELETE) else newest)"

definition is_add :: "sec_op option \<Rightarrow> bool" where
  "is_add newest \<longleftrightarrow> (case newest of Some (_, op) \<Rightarrow> op = SECONDARY_ADD | None \<Rightarrow> False)"

section \<open>Point operations\<close>

definition map_contains :: "id_map \<Rightarrow> bytes \<Rightarrow> string \<Rightarrow> bool" where
  "map_contains m key rid = (case cow_get m key of Some ids \<Rightarrow> cow_set_contains rid ids | None \<Rightarrow> False)"

definition map_insert_id :: "id_map \<Rightarrow> bytes \<Rightarrow> string \<Rightarrow> id_map" where
  "map_insert_id m key rid =
     (case cow_get_or_insert_default cow_default key m of
        (m, ids) \<Rightarrow> fst (cow_insert key (fst (cow_set_insert rid (case ids of Some s \<Rightarrow> s | None \<Rightarrow> cow_default))) m))"

text \<open>The set of a key is written back, and removed when it has become empty.\<close>

definition map_remove_id :: "id_map \<Rightarrow> bytes \<Rightarrow> string \<Rightarrow> id_map" where
  "map_remove_id m key rid =
     (case cow_get m key of
        None \<Rightarrow> m
      | Some ids \<Rightarrow>
          let ids = fst (cow_set_remove rid ids) in
          if cow_is_empty ids then fst (cow_remove key m) else fst (cow_insert key ids m))"

definition op_visitor :: "sec_op option \<Rightarrow> bytes \<Rightarrow> (sec_op option \<times> bool) result" where
  "op_visitor newest encoded = rbind (decode_secondary_operation encoded) (\<lambda>op. Inr (newer_op newest op, True))"

fun newest_in_sec_runs :: "(bytes \<Rightarrow> u32) \<Rightarrow> bytes \<Rightarrow> sec_run list \<Rightarrow> sec_op option \<Rightarrow> sec_op option result" where
  "newest_in_sec_runs crc pair [] newest = Inr newest"
| "newest_in_sec_runs crc pair (run # runs) newest =
     rbind (fst (visit_key crc (sr_index run) pair op_visitor newest)) (newest_in_sec_runs crc pair runs)"

definition persisted_pair :: "(bytes \<Rightarrow> u32) \<Rightarrow> sec_idx \<Rightarrow> bytes \<Rightarrow> string \<Rightarrow> bool result" where
  "persisted_pair crc si key rid =
     rbind (newest_in_sec_runs crc (secondary_pair_key key rid) (si_runs si) None) (\<lambda>newest.
     Inr (is_add (case si_frozen si of
        None \<Rightarrow> newest
      | Some frozen \<Rightarrow>
          let newest = (if map_contains (fs_delta frozen) key rid then frozen_add_op (fs_generation frozen) newest else newest) in
          if map_contains (fs_removed frozen) key rid then frozen_delete_op (fs_generation frozen) newest else newest)))"

definition contains_pair :: "(bytes \<Rightarrow> u32) \<Rightarrow> sec_idx \<Rightarrow> bytes \<Rightarrow> string \<Rightarrow> bool result" where
  "contains_pair crc si key rid =
     (if map_contains (si_removed si) key rid then Inr False
      else if map_contains (si_delta si) key rid then Inr True
      else persisted_pair crc si key rid)"

definition sec_resident :: "(bytes \<times> string list) list \<Rightarrow> sec_idx" where
  "sec_resident entries =
     \<lparr>si_generation = 0, si_runs = [],
      si_delta = foldl (\<lambda>m (key, ids). fst (cow_insert key (cow_set_from_iter ids) m)) cow_default entries,
      si_removed = cow_default, si_frozen = None\<rparr>"

fun validate_runs :: "(bytes \<Rightarrow> u32) \<Rightarrow> sec_run list \<Rightarrow> unit result" where
  "validate_runs crc [] = Inr ()"
| "validate_runs crc (run # runs) = rbind (validate_secondary_run crc (sr_index run)) (\<lambda>_. validate_runs crc runs)"

definition sec_paged_runs :: "(bytes \<Rightarrow> u32) \<Rightarrow> u64 \<Rightarrow> sec_run list \<Rightarrow> sec_idx result" where
  "sec_paged_runs crc generation runs =
     rbind (validate_runs crc runs) (\<lambda>_.
     Inr \<lparr>si_generation = generation, si_runs = runs, si_delta = cow_default, si_removed = cow_default, si_frozen = None\<rparr>)"

definition sec_run_metas :: "sec_idx \<Rightarrow> derived_run_meta list" where
  "sec_run_metas si = map sr_meta (si_runs si)"

definition sec_add :: "bytes \<Rightarrow> string \<Rightarrow> sec_idx \<Rightarrow> sec_idx" where
  "sec_add key rid si =
     (let si = (if map_contains (si_removed si) key rid then si\<lparr>si_removed := map_remove_id (si_removed si) key rid\<rparr> else si) in
      if map_contains (si_delta si) key rid then si
      else si\<lparr>si_delta := map_insert_id (si_delta si) key rid\<rparr>)"

definition sec_remove :: "(bytes \<Rightarrow> u32) \<Rightarrow> bytes \<Rightarrow> string \<Rightarrow> sec_idx \<Rightarrow> sec_idx" where
  "sec_remove crc key rid si =
     (let si = (if map_contains (si_delta si) key rid then si\<lparr>si_delta := map_remove_id (si_delta si) key rid\<rparr> else si) in
      if (si_runs si \<noteq> [] \<or> si_frozen si \<noteq> None)
         \<and> (case persisted_pair crc si key rid of Inr b \<Rightarrow> b | Inl _ \<Rightarrow> True)
         \<and> \<not> map_contains (si_removed si) key rid
      then si\<lparr>si_removed := map_insert_id (si_removed si) key rid\<rparr> else si)"

definition sec_freeze_delta :: "u64 \<Rightarrow> nat \<Rightarrow> sec_idx \<Rightarrow> sec_idx \<times> frozen_sec_delta option" where
  "sec_freeze_delta generation arc si =
     (if si_frozen si \<noteq> None \<or> (cow_is_empty (si_delta si) \<and> cow_is_empty (si_removed si)) then (si, None)
      else
        let frozen = \<lparr>fs_generation = generation, fs_delta = si_delta si, fs_removed = si_removed si, fs_arc = arc\<rparr> in
        (si\<lparr>si_delta := cow_default, si_removed := cow_default, si_frozen := Some frozen\<rparr>, Some frozen))"

definition sec_frozen_matches :: "sec_idx \<Rightarrow> frozen_sec_delta \<Rightarrow> bool" where
  "sec_frozen_matches si frozen = (case si_frozen si of Some current \<Rightarrow> fs_arc current = fs_arc frozen | None \<Rightarrow> False)"

definition sec_clear_frozen :: "frozen_sec_delta \<Rightarrow> sec_idx \<Rightarrow> sec_idx" where
  "sec_clear_frozen frozen si = (if sec_frozen_matches si frozen then si\<lparr>si_frozen := None\<rparr> else si)"

section \<open>The ids of one key\<close>

record sec_pair_cursor =
  spc_cursor :: "paged_index \<times> prefix_cursor"
  spc_prefix :: bytes
  spc_id :: string
  spc_head :: "sec_op option"

definition strip_prefix :: "bytes \<Rightarrow> bytes \<Rightarrow> bytes option" where
  "strip_prefix key pre = (if starts_with key pre then Some (drop (length pre) key) else None)"

definition pair_advance :: "(bytes \<Rightarrow> u32) \<Rightarrow> sec_pair_cursor \<Rightarrow> sec_pair_cursor result" where
  "pair_advance crc c =
     rbind (paged_pull crc (spc_cursor c)) (\<lambda>(r, s).
       case r of
         None \<Rightarrow> Inr (c\<lparr>spc_cursor := s, spc_id := [], spc_head := None\<rparr>)
       | Some (key, stored) \<Rightarrow>
           rbind (ok_or (Corrupt ''secondary index: invalid pair prefix'') (strip_prefix key (spc_prefix c))) (\<lambda>rid.
           rbind (ok_or (Corrupt ''secondary index: invalid id utf8'') (from_utf8 rid)) (\<lambda>rid.
           rbind (decode_secondary_operation stored) (\<lambda>op.
           Inr (c\<lparr>spc_cursor := s, spc_id := rid, spc_head := Some op\<rparr>)))))"

definition pair_cursor_new :: "(bytes \<Rightarrow> u32) \<Rightarrow> bytes \<Rightarrow> string option \<Rightarrow> paged_index \<Rightarrow> sec_pair_cursor result" where
  "pair_cursor_new crc key after ix =
     (let prefix = secondary_pair_prefix key in
      pair_advance crc \<lparr>spc_cursor = (ix, prefix_cursor_after ix prefix (map_option (secondary_pair_key key) after)),
        spc_prefix = prefix, spc_id = [], spc_head = None\<rparr>)"

definition head_id :: "sec_pair_cursor \<Rightarrow> string option" where
  "head_id c = (case spc_head c of None \<Rightarrow> None | Some _ \<Rightarrow> Some (spc_id c))"

text \<open>The operations of a cursor for one id, while its head has that id.\<close>

partial_function (option) drain_pair :: "(bytes \<Rightarrow> u32) \<Rightarrow> string \<Rightarrow> sec_pair_cursor \<Rightarrow> sec_op option
    \<Rightarrow> (sec_pair_cursor \<times> sec_op option) result option" where
  "drain_pair crc rid c newest =
     (case spc_head c of
        None \<Rightarrow> Some (Inr (c, newest))
      | Some op \<Rightarrow>
          if spc_id c \<noteq> rid then Some (Inr (c, newest))
          else
            (case pair_advance crc (c\<lparr>spc_head := None\<rparr>) of
               Inl err \<Rightarrow> Some (Inl err)
             | Inr c' \<Rightarrow> drain_pair crc rid c' (newer_op newest op)))"

fun drain_pairs :: "(bytes \<Rightarrow> u32) \<Rightarrow> string \<Rightarrow> sec_pair_cursor list \<Rightarrow> sec_op option
    \<Rightarrow> (sec_pair_cursor list \<times> sec_op option) result option" where
  "drain_pairs crc rid [] newest = Some (Inr ([], newest))"
| "drain_pairs crc rid (c # cs) newest =
     (case drain_pair crc rid c newest of
        None \<Rightarrow> None
      | Some (Inl err) \<Rightarrow> Some (Inl err)
      | Some (Inr (c, newest)) \<Rightarrow> map_option (\<lambda>r. rbind r (\<lambda>(cs, newest). Inr (c # cs, newest))) (drain_pairs crc rid cs newest))"

fun least_of :: "'a::linorder list \<Rightarrow> 'a option" where
  "least_of [] = None"
| "least_of (x # xs) = (case least_of xs of None \<Rightarrow> Some x | Some y \<Rightarrow> Some (min x y))"

definition peek :: "'a list \<Rightarrow> 'a list" where
  "peek xs = (case xs of [] \<Rightarrow> [] | x # _ \<Rightarrow> [x])"

definition skip_head :: "'a \<Rightarrow> 'a list \<Rightarrow> 'a list" where
  "skip_head rid xs = (if peek xs = [rid] then tl xs else xs)"

text \<open>What the overlays do to the operation found in the runs.\<close>

definition overlay_op :: "u64 \<Rightarrow> bool \<Rightarrow> bool \<Rightarrow> bool \<Rightarrow> bool \<Rightarrow> sec_op option \<Rightarrow> sec_op option" where
  "overlay_op gen frozen_added frozen_removed added removed newest =
     (let newest = (if frozen_added then frozen_add_op gen newest else newest);
          newest = (if frozen_removed then frozen_delete_op gen newest else newest);
          newest = (if added then Some (- 1, SECONDARY_ADD) else newest) in
      if removed then Some (- 1, SECONDARY_DELETE) else newest)"

partial_function (option) ids_loop :: "(bytes \<Rightarrow> u32) \<Rightarrow> u64 \<Rightarrow> nat \<Rightarrow> sec_pair_cursor list \<Rightarrow> string list \<Rightarrow> string list
    \<Rightarrow> string list \<Rightarrow> string list \<Rightarrow> string list \<Rightarrow> string list result option" where
  "ids_loop crc gen limit cursors fa fr ad rm out =
     (case least_of (List.map_filter head_id cursors @ peek fa @ peek fr @ peek ad @ peek rm) of
        None \<Rightarrow> Some (Inr out)
      | Some rid \<Rightarrow>
          (case drain_pairs crc rid cursors None of
             None \<Rightarrow> None
           | Some (Inl err) \<Rightarrow> Some (Inl err)
           | Some (Inr (cursors, newest)) \<Rightarrow>
               (let keep = is_add (overlay_op gen (peek fa = [rid]) (peek fr = [rid]) (peek ad = [rid]) (peek rm = [rid]) newest);
                    out = (if keep then out @ [rid] else out) in
                if keep \<and> length out = limit then Some (Inr out)
                else ids_loop crc gen limit cursors (skip_head rid fa) (skip_head rid fr) (skip_head rid ad) (skip_head rid rm) out)))"

fun open_pair_cursors :: "(bytes \<Rightarrow> u32) \<Rightarrow> bytes \<Rightarrow> string option \<Rightarrow> sec_run list \<Rightarrow> sec_pair_cursor list result" where
  "open_pair_cursors crc key after [] = Inr []"
| "open_pair_cursors crc key after (run # runs) =
     (if may_contain_prefix (sr_index run) (secondary_pair_prefix key) then
        rbind (pair_cursor_new crc key after (sr_index run)) (\<lambda>c.
        rbind (open_pair_cursors crc key after runs) (\<lambda>cs. Inr (c # cs)))
      else open_pair_cursors crc key after runs)"

definition ids_after :: "id_set option \<Rightarrow> string option \<Rightarrow> string list" where
  "ids_after ids after = (case ids of Some s \<Rightarrow> cow_set_range_after s after | None \<Rightarrow> [])"

definition ids_batch_from :: "(bytes \<Rightarrow> u32) \<Rightarrow> sec_run list \<Rightarrow> frozen_sec_delta option \<Rightarrow> id_set option \<Rightarrow> id_set option
    \<Rightarrow> bytes \<Rightarrow> string option \<Rightarrow> nat \<Rightarrow> string list result option" where
  "ids_batch_from crc runs frozen delta removed key after limit =
     (if limit = 0 then Some (Inr [])
      else
        (case open_pair_cursors crc key after runs of
           Inl err \<Rightarrow> Some (Inl err)
         | Inr cursors \<Rightarrow>
             ids_loop crc (case frozen of Some f \<Rightarrow> fs_generation f | None \<Rightarrow> 0) limit cursors
               (ids_after (Option.bind frozen (\<lambda>f. cow_get (fs_delta f) key)) after)
               (ids_after (Option.bind frozen (\<lambda>f. cow_get (fs_removed f) key)) after)
               (ids_after delta after) (ids_after removed after) []))"

definition ids_batch_into :: "(bytes \<Rightarrow> u32) \<Rightarrow> sec_idx \<Rightarrow> bytes \<Rightarrow> string option \<Rightarrow> nat \<Rightarrow> string list result option" where
  "ids_batch_into crc si key after limit =
     ids_batch_from crc (si_runs si) (si_frozen si) (cow_get (si_delta si) key) (cow_get (si_removed si) key) key after limit"

definition sec_ids :: "(bytes \<Rightarrow> u32) \<Rightarrow> sec_idx \<Rightarrow> bytes \<Rightarrow> string list result option" where
  "sec_ids crc si key = ids_batch_into crc si key None (usize_limit - 1)"

text \<open>The index as a reader holds it: the whole of it, or what decides about one key.\<close>

record sec_idx_view =
  sv_runs :: "sec_run list"
  sv_frozen :: "frozen_sec_delta option"
  sv_delta :: id_map
  sv_removed :: id_map

definition sec_view :: "sec_idx \<Rightarrow> sec_idx_view" where
  "sec_view si = \<lparr>sv_runs = si_runs si, sv_frozen = si_frozen si, sv_delta = si_delta si, sv_removed = si_removed si\<rparr>"

definition view_ids_batch :: "(bytes \<Rightarrow> u32) \<Rightarrow> sec_idx_view \<Rightarrow> bytes \<Rightarrow> string option \<Rightarrow> nat \<Rightarrow> string list result option" where
  "view_ids_batch crc v key after limit =
     ids_batch_from crc (sv_runs v) (sv_frozen v) (cow_get (sv_delta v) key) (cow_get (sv_removed v) key) key after limit"

record sec_key_snapshot =
  sk_key :: bytes
  sk_runs :: "sec_run list"
  sk_frozen :: "frozen_sec_delta option"
  sk_delta :: "id_set option"
  sk_removed :: "id_set option"

definition key_snapshot :: "sec_idx \<Rightarrow> bytes \<Rightarrow> sec_key_snapshot" where
  "key_snapshot si key = \<lparr>sk_key = key, sk_runs = si_runs si, sk_frozen = si_frozen si,
     sk_delta = cow_get (si_delta si) key, sk_removed = cow_get (si_removed si) key\<rparr>"

definition snapshot_ids_batch :: "(bytes \<Rightarrow> u32) \<Rightarrow> sec_key_snapshot \<Rightarrow> string option \<Rightarrow> nat \<Rightarrow> string list result option" where
  "snapshot_ids_batch crc s after limit = ids_batch_from crc (sk_runs s) (sk_frozen s) (sk_delta s) (sk_removed s) (sk_key s) after limit"

section \<open>Overlays as sets of pairs\<close>

definition id_map_ok :: "id_map \<Rightarrow> bool" where
  "id_map_ok m \<longleftrightarrow> cow_inv m \<and> (\<forall>key ids. cow_get m key = Some ids \<longrightarrow> cow_inv ids)"

lemma id_map_ok_default [simp]: "id_map_ok cow_default" "\<not> map_contains cow_default key rid"
  by (simp_all add: id_map_ok_def map_contains_def cow.invar_empty cow.lookup_empty)

lemma cow_set_simps:
  assumes "cow_inv s"
  shows "cow_set_contains y (fst (cow_set_insert x s)) \<longleftrightarrow> y = x \<or> cow_set_contains y s"
    and "cow_set_contains y (fst (cow_set_remove x s)) \<longleftrightarrow> y \<noteq> x \<and> cow_set_contains y s"
    and "cow_inv (fst (cow_set_insert x s))" and "cow_inv (fst (cow_set_remove x s))"
  using assms cow.lookup_ins [of s x "()" y] cow.lookup_del [of s x y] cow.invar_ins [of s x "()"] cow.invar_del [of s x]
  by (auto simp: cow_set_contains_def cow_set_insert_def cow_set_remove_def split: prod.splits if_splits)

lemma cow_empty_contains: "cow_inv s \<Longrightarrow> cow_is_empty s \<Longrightarrow> \<not> cow_set_contains x s"
  by (simp add: cow_set_contains_def cow_is_empty_def cow_get_refines cow_inv_shape) (simp add: cow_inv_def)

lemma get_or_insert_default:
  assumes "cow_inv m"
  shows "cow_inv (fst (cow_get_or_insert_default d key m))"
    and "cow_get (fst (cow_get_or_insert_default d key m)) k = (if k = key \<and> cow_get m key = None then Some d else cow_get m k)"
    and "snd (cow_get_or_insert_default d key m) = Some (case cow_get m key of Some v \<Rightarrow> v | None \<Rightarrow> d)"
proof -
  have "cow_get m key \<noteq> None \<longleftrightarrow> (\<exists>at. locate m key = Inr at)"
    by (auto simp: cow_get_def split: sum.splits prod.splits)
  then show "cow_inv (fst (cow_get_or_insert_default d key m))"
    and "cow_get (fst (cow_get_or_insert_default d key m)) k = (if k = key \<and> cow_get m key = None then Some d else cow_get m k)"
    and "snd (cow_get_or_insert_default d key m) = Some (case cow_get m key of Some v \<Rightarrow> v | None \<Rightarrow> d)"
    using assms cow.lookup_ins [OF assms, of key d] cow.invar_ins [OF assms, of key d]
    by (auto simp: cow_get_or_insert_default_def Let_def split: sum.splits option.splits)
qed

lemma map_insert_id:
  assumes "id_map_ok m"
  shows "id_map_ok (map_insert_id m key rid)"
    and "map_contains (map_insert_id m key rid) k r \<longleftrightarrow> (k = key \<and> r = rid) \<or> map_contains m k r"
proof -
  let ?ids = "case cow_get m key of Some v \<Rightarrow> v | None \<Rightarrow> cow_default"
  obtain m' where m': "cow_get_or_insert_default cow_default key m = (m', Some ?ids)"
    using get_or_insert_default(3) [of m cow_default key] assms by (metis id_map_ok_def prod.collapse)
  have inv: "cow_inv m'" "cow_inv ?ids" "\<And>k. k \<noteq> key \<Longrightarrow> cow_get m' k = cow_get m k"
    using get_or_insert_default(1,2) [of m cow_default key] assms m' cow.invar_empty
    by (auto simp: id_map_ok_def split: option.splits)
  have ins: "map_insert_id m key rid = fst (cow_insert key (fst (cow_set_insert rid ?ids)) m')" by (simp add: map_insert_id_def m')
  show "id_map_ok (map_insert_id m key rid)"
    using assms inv cow_set_simps(3) [OF inv(2), of rid]
    by (auto simp: ins id_map_ok_def cow.lookup_ins cow.invar_ins split: if_splits)
  show "map_contains (map_insert_id m key rid) k r \<longleftrightarrow> (k = key \<and> r = rid) \<or> map_contains m k r"
    using inv cow_set_simps(1) [OF inv(2), of r rid]
    by (cases "k = key") (auto simp: ins map_contains_def cow.lookup_ins cow_set_contains_def cow.lookup_empty split: option.splits)
qed

lemma map_remove_id:
  assumes "id_map_ok m"
  shows "id_map_ok (map_remove_id m key rid)"
    and "map_contains (map_remove_id m key rid) k r \<longleftrightarrow> \<not> (k = key \<and> r = rid) \<and> map_contains m k r"
proof -
  have inv: "cow_inv m" using assms by (simp add: id_map_ok_def)
  have both: "id_map_ok (map_remove_id m key rid)
      \<and> (map_contains (map_remove_id m key rid) k r \<longleftrightarrow> \<not> (k = key \<and> r = rid) \<and> map_contains m k r)"
  proof (cases "cow_get m key")
    case None
    with assms show ?thesis by (auto simp: map_remove_id_def map_contains_def)
  next
    case (Some ids)
    then have ids: "cow_inv ids" using assms by (auto simp: id_map_ok_def)
    note rem = cow_set_simps(2,4) [OF ids]
    show ?thesis
    proof (cases "cow_is_empty (fst (cow_set_remove rid ids))")
      case True
      with cow_empty_contains [OF rem(2)] rem(1) have "cow_set_contains r ids \<Longrightarrow> r = rid" by blast
      with True Some inv assms show ?thesis
        by (auto simp: map_remove_id_def map_contains_def id_map_ok_def Let_def cow.lookup_del cow.invar_del split: if_splits)
    next
      case False
      with Some inv assms rem show ?thesis
        by (auto simp: map_remove_id_def map_contains_def id_map_ok_def Let_def cow.lookup_ins cow.invar_ins split: if_splits)
    qed
  qed
  then show "id_map_ok (map_remove_id m key rid)"
    and "map_contains (map_remove_id m key rid) k r \<longleftrightarrow> \<not> (k = key \<and> r = rid) \<and> map_contains m k r" by blast+
qed

lemma ids_after_exact:
  assumes "id_map_ok m"
  shows "set (ids_after (cow_get m key) after) = {rid. map_contains m key rid \<and> (case after of None \<Rightarrow> True | Some a \<Rightarrow> a < rid)}"
    and "sorted_wrt (<) (ids_after (cow_get m key) after)"
proof -
  have both: "set (ids_after (cow_get m key) after) = {rid. map_contains m key rid \<and> (case after of None \<Rightarrow> True | Some a \<Rightarrow> a < rid)}
      \<and> sorted_wrt (<) (ids_after (cow_get m key) after)"
  proof (cases "cow_get m key")
    case None
    then show ?thesis by (simp add: ids_after_def map_contains_def)
  next
    case (Some ids)
    then have inv: "cow_inv ids" using assms by (auto simp: id_map_ok_def)
    have iter: "sorted_keys (cow_iter ids)" using inv by (simp add: cow_inv_def)
    have mem: "cow_set_contains rid ids \<longleftrightarrow> (rid, ()) \<in> set (cow_iter ids)" for rid
      using cow_get_refines [OF cow_inv_shape [OF inv], of rid] map_of_eq_None_iff [of "cow_iter ids" rid]
      by (force simp: cow_set_contains_def image_iff)
    have sorted: "sorted_wrt (<) (map fst (filter p (cow_iter ids)))" for p
      using sorted_wrt_filter [OF iter, of p] by (simp add: sorted_wrt_map)
    have list: "ids_after (Some ids) after = map fst (filter (\<lambda>x. case after of None \<Rightarrow> True | Some a \<Rightarrow> a < fst x) (cow_iter ids))"
      using cow_range_refines [OF cow_inv_shape [OF inv]]
      by (cases after) (simp_all add: ids_after_def cow_set_range_after_def cow_set_iter_def)
    have "set (ids_after (Some ids) after) = {rid. cow_set_contains rid ids \<and> (case after of None \<Rightarrow> True | Some a \<Rightarrow> a < rid)}"
      unfolding list mem by (cases after) (force simp: image_iff)+
    with sorted list Some show ?thesis by (simp add: map_contains_def)
  qed
  then show "set (ids_after (cow_get m key) after) = {rid. map_contains m key rid \<and> (case after of None \<Rightarrow> True | Some a \<Rightarrow> a < rid)}"
    and "sorted_wrt (<) (ids_after (cow_get m key) after)" by blast+
qed

section \<open>The entries of runs\<close>

lemma decode_operation [simp]: "op = SECONDARY_DELETE \<or> op = SECONDARY_ADD \<Longrightarrow> decode_secondary_operation (secondary_operation v op) = Inr (v, op)"
  by (auto simp: decode_secondary_operation_def secondary_operation_def nth_append)

definition dec_op :: "bytes \<Rightarrow> sec_op" where
  "dec_op stored = (case decode_secondary_operation stored of Inr op \<Rightarrow> op | Inl _ \<Rightarrow> (0, 0))"

lemma dec_operation [simp]: "op = SECONDARY_DELETE \<or> op = SECONDARY_ADD \<Longrightarrow> dec_op (secondary_operation v op) = (v, op)"
  by (simp add: dec_op_def)

text \<open>The keys of an index, of which none is a proper beginning of another.\<close>

definition prefix_free :: "bytes set \<Rightarrow> bool" where
  "prefix_free K \<longleftrightarrow> (\<forall>k \<in> K. \<forall>k' \<in> K. \<forall>x y. k @ x = k' @ y \<longrightarrow> k = k')"

definition pair_entry :: "bytes \<Rightarrow> (bytes \<times> bytes) \<Rightarrow> string \<times> sec_op \<Rightarrow> bool" where
  "pair_entry key e x \<longleftrightarrow> fst e = secondary_pair_key key (fst x) \<and> rust_str (fst x)
     \<and> (snd (snd x) = SECONDARY_DELETE \<or> snd (snd x) = SECONDARY_ADD) \<and> snd e = secondary_operation (fst (snd x)) (snd (snd x))"

definition sec_entry_ok :: "bytes set \<Rightarrow> (bytes \<times> bytes) \<Rightarrow> bool" where
  "sec_entry_ok K e \<longleftrightarrow> fst e = SECONDARY_FORMAT_KEY \<or> (\<exists>k \<in> K. \<exists>x. pair_entry k e x)"

definition sec_run_ok :: "(bytes \<Rightarrow> u32) \<Rightarrow> bytes set \<Rightarrow> sec_run \<Rightarrow> bool" where
  "sec_run_ok crc K run \<longleftrightarrow> (\<exists>pss. index_holds crc (sr_index run) pss) \<and> list_all (sec_entry_ok K) (px_entries crc (sr_index run))"

definition run_ops :: "(bytes \<Rightarrow> u32) \<Rightarrow> bytes \<Rightarrow> string \<Rightarrow> sec_run \<Rightarrow> sec_op list" where
  "run_ops crc key rid run = map dec_op (values_of (secondary_pair_key key rid) (px_entries crc (sr_index run)))"

lemma pair_key_inject:
  assumes "prefix_free K" "key \<in> K" "k \<in> K"
  shows "starts_with (secondary_pair_key k rid) (secondary_pair_prefix key) \<longleftrightarrow> k = key"
    and "secondary_pair_key k rid = secondary_pair_key key rid' \<longleftrightarrow> k = key \<and> rid = rid'"
proof -
  show pre: "starts_with (secondary_pair_key k rid) (secondary_pair_prefix key) \<longleftrightarrow> k = key" for rid
  proof
    assume "starts_with (secondary_pair_key k rid) (secondary_pair_prefix key)"
    then obtain rest where "k @ 0xff # as_bytes rid = key @ 0xff # rest"
      unfolding starts_with_def secondary_pair_key_def secondary_pair_prefix_def
      by (metis append.assoc append_Cons append_Nil append_take_drop_id list.inject)
    then show "k = key" using assms by (auto simp: prefix_free_def)
  qed (simp add: secondary_pair_key_def starts_with_def)
  have "starts_with (secondary_pair_key key rid') (secondary_pair_prefix key)" by (simp add: secondary_pair_key_def starts_with_def)
  then show "secondary_pair_key k rid = secondary_pair_key key rid' \<longleftrightarrow> k = key \<and> rid = rid'"
    using pre [of rid] by (auto simp: secondary_pair_key_def)
qed

lemma pair_key_less: "secondary_pair_key key a < secondary_pair_key key b \<longleftrightarrow> a < b"
  by (simp add: secondary_pair_key_def append_less_same as_bytes_less)

text \<open>The entries of a run for one key behind an id.\<close>

definition key_items :: "(bytes \<Rightarrow> u32) \<Rightarrow> bytes \<Rightarrow> string option \<Rightarrow> sec_run \<Rightarrow> (string \<times> sec_op) list \<Rightarrow> bool" where
  "key_items crc key after run items \<longleftrightarrow>
     list_all2 (pair_entry key) (entries_after (secondary_pair_prefix key) (map_option (secondary_pair_key key) after) (px_entries crc (sr_index run))) items"

lemma run_key_items:
  assumes ok: "sec_run_ok crc K run" and K: "prefix_free K" "key \<in> K"
  obtains items where "key_items crc key after run items" and "sorted (map fst items)"
    and "\<And>rid. map snd (filter (\<lambda>x. fst x = rid) items) = (if (case after of None \<Rightarrow> True | Some a \<Rightarrow> a < rid) then run_ops crc key rid run else [])"
proof -
  let ?es = "px_entries crc (sr_index run)" and ?after = "map_option (secondary_pair_key key) after"
  let ?mine = "entries_after (secondary_pair_prefix key) ?after ?es"
  have mine: "\<exists>x. pair_entry key e x" if "e \<in> set ?es" "starts_with (fst e) (secondary_pair_prefix key)" for e
  proof -
    from ok that(1) have "sec_entry_ok K e" by (auto simp: sec_run_ok_def list_all_iff)
    moreover have "fst e \<noteq> SECONDARY_FORMAT_KEY" using that(2) by (auto simp: starts_with_def secondary_pair_prefix_def)
    ultimately obtain k x where k: "k \<in> K" "pair_entry k e x" by (auto simp: sec_entry_ok_def)
    with that(2) pair_key_inject(1) [OF K k(1)] have "k = key" by (auto simp: pair_entry_def)
    with k show ?thesis by blast
  qed
  have "\<forall>e \<in> set ?mine. \<exists>x. pair_entry key e x" using mine by (auto simp: entries_after_def)
  then obtain f where f: "\<And>e. e \<in> set ?mine \<Longrightarrow> pair_entry key e (f e)" by metis
  let ?items = "map f ?mine"
  have items: "key_items crc key after run ?items"
    using f by (auto simp: key_items_def list_all2_map2 list.rel_refl_strong list_all2_same)
  have keys: "map (secondary_pair_key key) (map fst ?items) = map fst ?mine"
    using f by (auto simp: pair_entry_def)
  obtain pss where "index_holds crc (sr_index run) pss" using ok by (auto simp: sec_run_ok_def)
  then have "sorted ?es" using px_entries_holds by (force simp: index_holds_def)
  then have "sorted (map fst ?mine)" unfolding entries_after_def by (intro sorted_map_fst sorted_wrt_filter)
  then have "sorted (map (secondary_pair_key key) (map fst ?items))" unfolding keys .
  then have "sorted (map fst ?items)"
    unfolding sorted_map [of "secondary_pair_key key"]
    by (rule sorted_wrt_mono_rel [rotated]) (meson linorder_not_le pair_key_less)
  moreover have "map snd (filter (\<lambda>x. fst x = rid) ?items) = (if (case after of None \<Rightarrow> True | Some a \<Rightarrow> a < rid) then run_ops crc key rid run else [])" for rid
  proof -
    have same: "filter (\<lambda>x. fst x = rid) ?items = map f (filter (\<lambda>e. fst e = secondary_pair_key key rid) ?mine)"
      unfolding filter_map o_def
      by (rule arg_cong [where f = "map f"], rule filter_cong) (use f in \<open>auto simp: pair_entry_def secondary_pair_key_def\<close>)
    have ops: "map snd (map f (filter p ?mine)) = map (dec_op \<circ> snd) (filter p ?mine)" for p
      using f by (auto simp: pair_entry_def)
    have here: "filter (\<lambda>e. fst e = secondary_pair_key key rid) ?mine =
        (if (case after of None \<Rightarrow> True | Some a \<Rightarrow> a < rid) then filter (\<lambda>e. fst e = secondary_pair_key key rid) ?es else [])"
      by (auto simp: entries_after_def append_less_same as_bytes_less starts_with_def secondary_pair_key_def filter_empty_conv intro!: filter_cong split: option.splits)
    show ?thesis unfolding same unfolding ops unfolding here by (simp add: run_ops_def values_of_def)
  qed
  ultimately show ?thesis using items that by blast
qed

section \<open>The merge returns the ids that are added\<close>

definition pair_drains :: "(bytes \<Rightarrow> u32) \<Rightarrow> bytes \<Rightarrow> paged_index \<times> prefix_cursor \<Rightarrow> (string \<times> sec_op) list \<Rightarrow> bool" where
  "pair_drains crc key s items \<longleftrightarrow> (\<exists>pss es. cursor_inv crc pss s es \<and> list_all2 (pair_entry key) es items)"

definition pair_items :: "(bytes \<Rightarrow> u32) \<Rightarrow> bytes \<Rightarrow> sec_pair_cursor \<Rightarrow> (string \<times> sec_op) list \<Rightarrow> bool" where
  "pair_items crc key c items \<longleftrightarrow> spc_prefix c = secondary_pair_prefix key
     \<and> (case spc_head c of
          None \<Rightarrow> items = []
        | Some op \<Rightarrow> items \<noteq> [] \<and> hd items = (spc_id c, op) \<and> pair_drains crc key (spc_cursor c) (tl items))"

lemma pair_advance_exact:
  assumes "spc_prefix c = secondary_pair_prefix key" and "pair_drains crc key (spc_cursor c) items"
  shows "\<exists>c'. pair_advance crc c = Inr c' \<and> pair_items crc key c' items"
proof (cases items)
  case Nil
  then have "\<exists>pss. cursor_inv crc pss (spc_cursor c) []" using assms(2) by (auto simp: pair_drains_def)
  from paged_source.pull_end [OF this] Nil assms(1) show ?thesis by (auto simp: pair_advance_def pair_items_def)
next
  case (Cons x rest)
  with assms(2) obtain pss e es where inv: "cursor_inv crc pss (spc_cursor c) (e # es)" and e: "pair_entry key e x"
    and rest: "list_all2 (pair_entry key) es rest" by (auto simp: pair_drains_def list_all2_Cons2)
  obtain s' where s': "paged_pull crc (spc_cursor c) = Inr (Some e, s')" "\<exists>pss. cursor_inv crc pss s' es"
    using paged_source.pull_step [of crc "spc_cursor c" e es] inv by blast
  have "strip_prefix (fst e) (spc_prefix c) = Some (as_bytes (fst x))" "from_utf8 (as_bytes (fst x)) = Some (fst x)"
    "decode_secondary_operation (snd e) = Inr (snd x)"
    using e assms(1) from_utf8_as_bytes by (auto simp: pair_entry_def strip_prefix_def starts_with_def secondary_pair_key_def)
  then have "pair_advance crc c = Inr (c\<lparr>spc_cursor := s', spc_id := fst x, spc_head := Some (snd x)\<rparr>)"
    using s'(1) by (cases e) (simp add: pair_advance_def)
  with s'(2) rest Cons assms(1) show ?thesis by (auto simp: pair_items_def pair_drains_def)
qed

lemma drain_pair_exact:
  "pair_items crc key c items \<Longrightarrow>
   \<exists>c'. drain_pair crc rid c newest = Some (Inr (c', foldl newer_op newest (map snd (takeWhile (\<lambda>x. fst x = rid) items))))
     \<and> pair_items crc key c' (dropWhile (\<lambda>x. fst x = rid) items)"
proof (induction items arbitrary: c newest)
  case Nil
  then have "spc_head c = None" by (auto simp: pair_items_def split: option.splits)
  with Nil show ?case by (subst drain_pair.simps) simp
next
  case (Cons x rest)
  then have head: "spc_head c = Some (snd x)" "spc_id c = fst x" and rest: "pair_drains crc key (spc_cursor c) rest"
    and pre: "spc_prefix c = secondary_pair_prefix key"
    by (cases x; auto simp: pair_items_def split: option.splits)+
  show ?case
  proof (cases "fst x = rid")
    case True
    obtain c' where c': "pair_advance crc (c\<lparr>spc_head := None\<rparr>) = Inr c'" "pair_items crc key c' rest"
      using pair_advance_exact [of "c\<lparr>spc_head := None\<rparr>" key crc rest] pre rest by auto
    then have "drain_pair crc rid c newest = drain_pair crc rid c' (newer_op newest (snd x))"
      using head True by (subst drain_pair.simps) simp
    with True Cons.IH [OF c'(2), of "newer_op newest (snd x)"] show ?thesis by simp
  next
    case False
    then have "drain_pair crc rid c newest = Some (Inr (c, newest))" using head by (subst drain_pair.simps) simp
    with False Cons.prems show ?thesis by simp
  qed
qed

definition ops_of :: "string \<Rightarrow> (string \<times> sec_op) list list \<Rightarrow> sec_op list" where
  "ops_of rid itemss = concat (map (\<lambda>items. map snd (filter (\<lambda>x. fst x = rid) items)) itemss)"

abbreviation ids_from :: "string \<Rightarrow> (string \<times> sec_op) list \<Rightarrow> bool" where
  "ids_from rid items \<equiv> sorted (map fst items) \<and> (\<forall>x \<in> set items. rid \<le> fst x)"

lemma drain_pairs_exact:
  assumes "list_all2 (pair_items crc key) cs itemss" and "list_all (ids_from rid) itemss"
  shows "\<exists>cs'. drain_pairs crc rid cs newest = Some (Inr (cs', foldl newer_op newest (ops_of rid itemss)))
    \<and> list_all2 (pair_items crc key) cs' (map (filter (\<lambda>x. fst x \<noteq> rid)) itemss)"
  using assms
proof (induction cs itemss arbitrary: newest rule: list_all2_induct)
  case Nil
  then show ?case by (simp add: ops_of_def)
next
  case (Cons c cs items itemss)
  then have items: "sorted (map fst items)" "\<forall>x \<in> set items. rid \<le> fst x" by simp_all
  note split = sorted_takeWhile_filter [OF items]
  from drain_pair_exact [OF Cons.hyps(1), of rid newest] obtain c' where
    c': "drain_pair crc rid c newest = Some (Inr (c', foldl newer_op newest (map snd (filter (\<lambda>x. fst x = rid) items))))"
      "pair_items crc key c' (filter (\<lambda>x. fst x \<noteq> rid) items)" unfolding split by blast
  from Cons.IH [of "foldl newer_op newest (map snd (filter (\<lambda>x. fst x = rid) items))"] Cons.prems obtain cs' where
    "drain_pairs crc rid cs (foldl newer_op newest (map snd (filter (\<lambda>x. fst x = rid) items))) =
       Some (Inr (cs', foldl newer_op newest (map snd (filter (\<lambda>x. fst x = rid) items) @ ops_of rid itemss)))"
    "list_all2 (pair_items crc key) cs' (map (filter (\<lambda>x. fst x \<noteq> rid)) itemss)" by auto
  with c' show ?case by (simp add: ops_of_def)
qed

lemma least_of_Min: "least_of xs = (if xs = [] then None else Some (Min (set xs)))"
  by (induction xs) (auto split: if_splits)

text \<open>Whether an id is in the merge: the newest operation of the runs, changed by the overlays.\<close>

definition kept :: "u64 \<Rightarrow> (string \<times> sec_op) list list \<Rightarrow> string list \<Rightarrow> string list \<Rightarrow> string list \<Rightarrow> string list \<Rightarrow> string \<Rightarrow> bool" where
  "kept gen itemss fa fr ad rm rid =
     is_add (overlay_op gen (rid \<in> set fa) (rid \<in> set fr) (rid \<in> set ad) (rid \<in> set rm) (foldl newer_op None (ops_of rid itemss)))"

definition merge_ids :: "(string \<times> sec_op) list list \<Rightarrow> string list \<Rightarrow> string list \<Rightarrow> string list \<Rightarrow> string list \<Rightarrow> string set" where
  "merge_ids itemss fa fr ad rm = fst ` set (concat itemss) \<union> set fa \<union> set fr \<union> set ad \<union> set rm"

lemma finite_merge_ids [simp]: "finite (merge_ids itemss fa fr ad rm)"
  by (simp add: merge_ids_def)

lemma skip_head_filter: "sorted_wrt (<) xs \<Longrightarrow> \<forall>x \<in> set xs. rid \<le> x \<Longrightarrow> skip_head rid xs = filter (\<lambda>x. x \<noteq> rid) xs \<and> (peek xs = [rid] \<longleftrightarrow> rid \<in> set xs)"
  for rid :: "'a::linorder"
  by (cases xs) (auto simp: skip_head_def peek_def intro!: sym [OF filter_True])

lemma sorted_hd_least: "sorted (map fst xs) \<Longrightarrow> x \<in> set xs \<Longrightarrow> fst (hd xs) \<le> fst x"
  by (cases xs) auto

lemma Min_cofinal:
  assumes "finite B" "A \<subseteq> B" "A \<noteq> {}" and "\<And>b. b \<in> B \<Longrightarrow> \<exists>a \<in> A. a \<le> b"
  shows "Min A = Min (B :: 'a::linorder set)"
proof (rule Min_eqI)
  show "finite A" using assms(1,2) by (rule rev_finite_subset)
  show "Min B \<le> a" if "a \<in> A" for a using that assms(1,2) by (auto intro: Min_le)
  have "Min B \<in> B" using assms(1-3) by (intro Min_in) auto
  with assms(4) obtain a where "a \<in> A" "a \<le> Min B" by blast
  moreover have "Min B \<le> a" using \<open>a \<in> A\<close> assms(1,2) by (auto intro: Min_le)
  ultimately show "Min B \<in> A" by (metis order_antisym)
qed

lemma heads_Min:
  assumes "list_all2 (pair_items crc key) cs itemss" and "list_all (\<lambda>items. sorted (map fst items)) itemss"
    and "sorted_wrt (<) fa" "sorted_wrt (<) fr" "sorted_wrt (<) ad" "sorted_wrt (<) rm"
  shows "least_of (List.map_filter head_id cs @ peek fa @ peek fr @ peek ad @ peek rm) =
    (if merge_ids itemss fa fr ad rm = {} then None else Some (Min (merge_ids itemss fa fr ad rm)))"
proof -
  let ?heads = "List.map_filter head_id cs @ peek fa @ peek fr @ peek ad @ peek rm"
  have head: "head_id c = (case items of [] \<Rightarrow> None | x # _ \<Rightarrow> Some (fst x))" if "pair_items crc key c items" for c items
    using that by (cases items) (auto simp: pair_items_def head_id_def split: option.splits)
  have heads: "List.map_filter head_id cs = map (\<lambda>items. fst (hd items)) (filter (\<lambda>items. items \<noteq> []) itemss)"
    using assms(1) by (induction rule: list_all2_induct) (auto simp: List.map_filter_simps head split: list.splits)
  have lo: "\<exists>h \<in> set (peek xs). h \<le> x" if "sorted_wrt (<) xs" "x \<in> set xs" for x :: string and xs
    using that by (cases xs) (auto simp: peek_def intro: less_imp_le)
  have "\<exists>h \<in> set ?heads. h \<le> rid" if "rid \<in> merge_ids itemss fa fr ad rm" for rid
  proof (cases "rid \<in> fst ` set (concat itemss)")
    case True
    then obtain items x where x: "items \<in> set itemss" "x \<in> set items" "fst x = rid" by auto
    then have "sorted (map fst items)" "items \<noteq> []" using assms(2) by (auto simp: list_all_iff)
    then have "fst (hd items) \<le> rid" using sorted_hd_least [of items x] x by simp
    with x(1) \<open>items \<noteq> []\<close> show ?thesis by (auto simp: heads)
  next
    case False
    with that lo [of fa rid] lo [of fr rid] lo [of ad rid] lo [of rm rid] assms(3-6) show ?thesis by (fastforce simp: merge_ids_def)
  qed
  moreover have "set ?heads \<subseteq> merge_ids itemss fa fr ad rm"
    by (auto simp: heads merge_ids_def peek_def split: list.splits intro!: imageI hd_in_set)
  ultimately show ?thesis
    unfolding least_of_Min using Min_cofinal [of "merge_ids itemss fa fr ad rm" "set ?heads"] by (metis finite_merge_ids set_empty subset_empty all_not_in_conv empty_iff)
qed

lemma kept_other:
  assumes "rid' \<noteq> rid"
  shows "kept gen (map (filter (\<lambda>x. fst x \<noteq> rid)) itemss) (filter (\<lambda>x. x \<noteq> rid) fa) (filter (\<lambda>x. x \<noteq> rid) fr)
      (filter (\<lambda>x. x \<noteq> rid) ad) (filter (\<lambda>x. x \<noteq> rid) rm) rid' = kept gen itemss fa fr ad rm rid'"
proof -
  have "filter (\<lambda>x. fst x = rid') (filter (\<lambda>x. fst x \<noteq> rid) items) = filter (\<lambda>x. fst x = rid') items" for items :: "(string \<times> sec_op) list"
    unfolding filter_filter by (rule filter_cong) (use assms in auto)
  then have "ops_of rid' (map (filter (\<lambda>x. fst x \<noteq> rid)) itemss) = ops_of rid' itemss" by (simp add: ops_of_def o_def)
  with assms show ?thesis by (simp add: kept_def)
qed

lemma merge_ids_rest:
  "merge_ids (map (filter (\<lambda>x. fst x \<noteq> rid)) itemss) (filter (\<lambda>x. x \<noteq> rid) fa) (filter (\<lambda>x. x \<noteq> rid) fr)
      (filter (\<lambda>x. x \<noteq> rid) ad) (filter (\<lambda>x. x \<noteq> rid) rm) = merge_ids itemss fa fr ad rm - {rid}"
  by (auto simp: merge_ids_def image_iff)

lemma ids_loop_exact:
  assumes "list_all2 (pair_items crc key) cs itemss" and "list_all (\<lambda>items. sorted (map fst items)) itemss"
    and "sorted_wrt (<) fa" "sorted_wrt (<) fr" "sorted_wrt (<) ad" "sorted_wrt (<) rm" and "length out < limit"
  shows "ids_loop crc gen limit cs fa fr ad rm out =
    Some (Inr (out @ take (limit - length out) (filter (kept gen itemss fa fr ad rm) (sorted_list_of_set (merge_ids itemss fa fr ad rm)))))"
  using assms
proof (induction "card (merge_ids itemss fa fr ad rm)" arbitrary: cs itemss fa fr ad rm out)
  case 0
  then have "merge_ids itemss fa fr ad rm = {}" by simp
  with heads_Min [OF "0.prems"(1-6)] show ?case by (subst ids_loop.simps) simp
next
  case (Suc n)
  let ?ids = "merge_ids itemss fa fr ad rm" and ?rid = "Min (merge_ids itemss fa fr ad rm)"
  let ?f = "filter (\<lambda>x. x \<noteq> ?rid)" and ?itemss = "map (filter (\<lambda>x. fst x \<noteq> ?rid)) itemss"
  let ?keep = "kept gen itemss fa fr ad rm ?rid"
  have ne: "?ids \<noteq> {}" using Suc.hyps(2) by auto
  have rid: "?rid \<in> ?ids" "\<forall>x \<in> ?ids. ?rid \<le> x" using ne by (simp_all add: Min_in)
  have lists: "\<forall>x \<in> set fa. ?rid \<le> x" "\<forall>x \<in> set fr. ?rid \<le> x" "\<forall>x \<in> set ad. ?rid \<le> x" "\<forall>x \<in> set rm. ?rid \<le> x"
    using rid(2) by (auto simp: merge_ids_def)
  note skip = skip_head_filter [OF Suc.prems(3) lists(1)] skip_head_filter [OF Suc.prems(4) lists(2)]
    skip_head_filter [OF Suc.prems(5) lists(3)] skip_head_filter [OF Suc.prems(6) lists(4)]
  have "fst x \<in> ?ids" if "items \<in> set itemss" "x \<in> set items" for items x using that by (auto simp: merge_ids_def)
  then have from': "list_all (ids_from ?rid) itemss" using Suc.prems(2) rid(2) by (auto simp: list_all_iff)
  from drain_pairs_exact [OF Suc.prems(1) from', of None] obtain cs' where
    cs': "drain_pairs crc ?rid cs None = Some (Inr (cs', foldl newer_op None (ops_of ?rid itemss)))" "list_all2 (pair_items crc key) cs' ?itemss" by blast
  let ?out = "if ?keep then out @ [?rid] else out"
  have step: "ids_loop crc gen limit cs fa fr ad rm out =
      (if ?keep \<and> length ?out = limit then Some (Inr ?out) else ids_loop crc gen limit cs' (?f fa) (?f fr) (?f ad) (?f rm) ?out)"
    using heads_Min [OF Suc.prems(1-6)] ne cs'(1) skip by (subst ids_loop.simps) (simp add: kept_def Let_def)
  have sorted: "list_all (\<lambda>items. sorted (map fst items)) ?itemss"
    using Suc.prems(2) by (auto simp: list_all_iff intro: sorted_filter [where f = fst, unfolded o_def])
  have rest: "merge_ids ?itemss (?f fa) (?f fr) (?f ad) (?f rm) = ?ids - {?rid}" by (rule merge_ids_rest)
  have card: "n = card (merge_ids ?itemss (?f fa) (?f fr) (?f ad) (?f rm))" using Suc.hyps(2) rid(1) unfolding rest by simp
  have list: "sorted_list_of_set ?ids = ?rid # sorted_list_of_set (?ids - {?rid})"
    using ne by (simp add: sorted_list_of_set_nonempty)
  have same: "filter (kept gen ?itemss (?f fa) (?f fr) (?f ad) (?f rm)) (sorted_list_of_set (?ids - {?rid})) =
      filter (kept gen itemss fa fr ad rm) (sorted_list_of_set (?ids - {?rid}))"
    by (rule filter_cong) (auto simp: kept_other)
  show ?case
  proof (cases "?keep \<and> length ?out = limit")
    case True
    then have keep: ?keep and "limit - length out = 1" "Suc (length out) = limit" by auto
    with step list show ?thesis by (simp add: keep)
  next
    case False
    have len: "length ?out < limit" using False Suc.prems(7) by (cases ?keep) auto
    have "ids_loop crc gen limit cs' (?f fa) (?f fr) (?f ad) (?f rm) ?out =
        Some (Inr (?out @ take (limit - length ?out) (filter (kept gen itemss fa fr ad rm) (sorted_list_of_set (?ids - {?rid})))))"
      using Suc.hyps(1) [OF card cs'(2) sorted _ _ _ _ len] Suc.prems(3-6) unfolding rest same by (simp add: sorted_wrt_filter)
    with False step list len show ?thesis by (cases ?keep) (simp_all add: Suc_diff_Suc take_Cons')
  qed
qed

section \<open>The set of pairs\<close>

definition run_newest :: "(bytes \<Rightarrow> u32) \<Rightarrow> sec_run list \<Rightarrow> bytes \<Rightarrow> string \<Rightarrow> sec_op option" where
  "run_newest crc runs key rid = foldl newer_op None (concat (map (run_ops crc key rid) runs))"

definition frozen_gen :: "frozen_sec_delta option \<Rightarrow> u64" where
  "frozen_gen frozen = (case frozen of Some f \<Rightarrow> fs_generation f | None \<Rightarrow> 0)"

definition frozen_has :: "(frozen_sec_delta \<Rightarrow> id_map) \<Rightarrow> frozen_sec_delta option \<Rightarrow> bytes \<Rightarrow> string \<Rightarrow> bool" where
  "frozen_has f frozen key rid = (case frozen of Some d \<Rightarrow> map_contains (f d) key rid | None \<Rightarrow> False)"

text \<open>A pair is in the index when its newest operation is an addition.\<close>

definition sec_live :: "(bytes \<Rightarrow> u32) \<Rightarrow> sec_idx \<Rightarrow> bytes \<Rightarrow> string \<Rightarrow> bool" where
  "sec_live crc si key rid =
     is_add (overlay_op (frozen_gen (si_frozen si)) (frozen_has fs_delta (si_frozen si) key rid) (frozen_has fs_removed (si_frozen si) key rid)
       (map_contains (si_delta si) key rid) (map_contains (si_removed si) key rid) (run_newest crc (si_runs si) key rid))"

definition id_map_in :: "bytes set \<Rightarrow> id_map \<Rightarrow> bool" where
  "id_map_in K m \<longleftrightarrow> id_map_ok m \<and> (\<forall>key rid. map_contains m key rid \<longrightarrow> key \<in> K \<and> rust_str rid)"

definition sec_ok :: "(bytes \<Rightarrow> u32) \<Rightarrow> bytes set \<Rightarrow> sec_idx \<Rightarrow> bool" where
  "sec_ok crc K si \<longleftrightarrow> list_all (sec_run_ok crc K) (si_runs si) \<and> id_map_in K (si_delta si) \<and> id_map_in K (si_removed si)
     \<and> (case si_frozen si of None \<Rightarrow> True | Some f \<Rightarrow> id_map_in K (fs_delta f) \<and> id_map_in K (fs_removed f))"

lemma may_contain_prefix_holds:
  assumes "index_holds crc ix pss" and "e \<in> set (concat pss)" and "starts_with (fst e) pre"
  shows "may_contain_prefix ix pre"
proof -
  from may_contain_key_holds [OF assms(1,2)] obtain first lk where ends: "px_first_key ix = Some first" "px_last_key ix = Some lk"
      "first \<le> fst e" "fst e \<le> lk" by (auto simp: may_contain_key_def split: option.splits)
  have "first \<le> pre \<or> starts_with first pre" using prefix_passed [of pre first "fst e"] ends(3) assms(3) by fastforce
  moreover have "pre \<le> lk" using starts_with_ge [OF assms(3)] ends(4) by simp
  ultimately show ?thesis using ends(1,2) by (simp add: may_contain_prefix_def)
qed

lemma open_pair_cursors_exact:
  assumes "list_all (sec_run_ok crc K) runs" and K: "prefix_free K" "key \<in> K"
  obtains cs itemss where "open_pair_cursors crc key after runs = Inr cs" and "list_all2 (pair_items crc key) cs itemss"
    and "list_all (\<lambda>items. sorted (map fst items)) itemss"
    and "\<And>rid. ops_of rid itemss = (if (case after of None \<Rightarrow> True | Some a \<Rightarrow> a < rid) then concat (map (run_ops crc key rid) runs) else [])"
proof -
  have "\<exists>cs itemss. open_pair_cursors crc key after runs = Inr cs \<and> list_all2 (pair_items crc key) cs itemss
      \<and> list_all (\<lambda>items. sorted (map fst items)) itemss
      \<and> (\<forall>rid. ops_of rid itemss = (if (case after of None \<Rightarrow> True | Some a \<Rightarrow> a < rid) then concat (map (run_ops crc key rid) runs) else []))"
    using assms(1)
  proof (induction runs)
    case Nil
    then show ?case by (auto simp: ops_of_def)
  next
    case (Cons run runs)
    then obtain cs itemss where IH: "open_pair_cursors crc key after runs = Inr cs" "list_all2 (pair_items crc key) cs itemss"
        "list_all (\<lambda>items. sorted (map fst items)) itemss"
        "\<forall>rid. ops_of rid itemss = (if (case after of None \<Rightarrow> True | Some a \<Rightarrow> a < rid) then concat (map (run_ops crc key rid) runs) else [])"
      by auto
    have ok: "sec_run_ok crc K run" using Cons.prems by simp
    then obtain pss where pss: "index_holds crc (sr_index run) pss" by (auto simp: sec_run_ok_def)
    note entries = px_entries_holds [OF pss]
    obtain items where items: "key_items crc key after run items" "sorted (map fst items)"
      "\<And>rid. map snd (filter (\<lambda>x. fst x = rid) items) = (if (case after of None \<Rightarrow> True | Some a \<Rightarrow> a < rid) then run_ops crc key rid run else [])"
      using run_key_items [OF ok K] by blast
    show ?case
    proof (cases "may_contain_prefix (sr_index run) (secondary_pair_prefix key)")
      case True
      let ?c = "\<lparr>spc_cursor = (sr_index run, prefix_cursor_after (sr_index run) (secondary_pair_prefix key) (map_option (secondary_pair_key key) after)),
        spc_prefix = secondary_pair_prefix key, spc_id = [], spc_head = None\<rparr>"
      have "pair_drains crc key (spc_cursor ?c) items"
        using items(1) prefix_cursor_inv [OF pss] entries by (auto simp: pair_drains_def key_items_def)
      then obtain c where "pair_cursor_new crc key after (sr_index run) = Inr c" "pair_items crc key c items"
        using pair_advance_exact [of ?c key crc items] by (auto simp: pair_cursor_new_def Let_def)
      with True IH items(2,3) show ?thesis
        by (intro exI [of _ "c # cs"] exI [of _ "items # itemss"]) (simp add: ops_of_def)
    next
      case False
      have "\<not> starts_with (fst e) (secondary_pair_prefix key)" if "e \<in> set (px_entries crc (sr_index run))" for e
        using that False may_contain_prefix_holds [OF pss, of e] unfolding entries by blast
      then have "secondary_pair_key key rid \<noteq> fst e" if "e \<in> set (px_entries crc (sr_index run))" for e rid
        using that by (metis secondary_pair_key_def starts_with_append)
      then have "values_of (secondary_pair_key key rid) (px_entries crc (sr_index run)) = []" for rid
        by (intro values_of_none) metis
      then have "run_ops crc key rid run = []" for rid by (simp add: run_ops_def)
      with False IH show ?thesis by (intro exI [of _ cs] exI [of _ itemss]) simp
    qed
  qed
  then show ?thesis using that by blast
qed

lemma filter_sorted_list_of_set:
  "finite A \<Longrightarrow> filter p (sorted_list_of_set A) = sorted_list_of_set {x \<in> A. p (x :: 'a::linorder)}"
  by (rule sorted_distinct_set_unique) (auto intro: sorted_filter [where f = "\<lambda>x. x", simplified])

definition live_ids :: "(bytes \<Rightarrow> u32) \<Rightarrow> sec_idx \<Rightarrow> bytes \<Rightarrow> string option \<Rightarrow> string set" where
  "live_ids crc si key after = {rid. sec_live crc si key rid \<and> (case after of None \<Rightarrow> True | Some a \<Rightarrow> a < rid)}"

lemma ids_batch_exact:
  assumes ok: "sec_ok crc K si" and K: "prefix_free K" "key \<in> K"
  shows "ids_batch_into crc si key after limit = Some (Inr (take limit (sorted_list_of_set (live_ids crc si key after))))"
    and "finite (live_ids crc si key after)"
proof -
  let ?ids = "\<lambda>m. ids_after (cow_get m key) after"
  define fa fr where "fa = ids_after (Option.bind (si_frozen si) (\<lambda>f. cow_get (fs_delta f) key)) after"
    and "fr = ids_after (Option.bind (si_frozen si) (\<lambda>f. cow_get (fs_removed f) key)) after"
  let ?ok = "\<lambda>rid. case after of None \<Rightarrow> True | Some a \<Rightarrow> a < rid"
  have maps: "id_map_ok (si_delta si)" "id_map_ok (si_removed si)"
    and frozen: "\<And>f. si_frozen si = Some f \<Longrightarrow> id_map_ok (fs_delta f) \<and> id_map_ok (fs_removed f)"
    using ok by (auto simp: sec_ok_def id_map_in_def)
  have fset: "set fa = {rid. frozen_has fs_delta (si_frozen si) key rid \<and> ?ok rid}" "sorted_wrt (<) fa"
      "set fr = {rid. frozen_has fs_removed (si_frozen si) key rid \<and> ?ok rid}" "sorted_wrt (<) fr"
    using frozen ids_after_exact by (cases "si_frozen si"; auto simp: fa_def fr_def frozen_has_def ids_after_def [of None])+
  have runs: "list_all (sec_run_ok crc K) (si_runs si)" using ok by (simp add: sec_ok_def)
  obtain cs itemss where cs: "open_pair_cursors crc key after (si_runs si) = Inr cs" "list_all2 (pair_items crc key) cs itemss"
      "list_all (\<lambda>items. sorted (map fst items)) itemss"
      "\<And>rid. ops_of rid itemss = (if ?ok rid then concat (map (run_ops crc key rid) (si_runs si)) else [])"
    using open_pair_cursors_exact [OF runs K] by blast
  let ?k = "kept (frozen_gen (si_frozen si)) itemss fa fr (?ids (si_delta si)) (?ids (si_removed si))"
  let ?all = "merge_ids itemss fa fr (?ids (si_delta si)) (?ids (si_removed si))"
  note mem = ids_after_exact(1) [OF maps(1), of key after] ids_after_exact(1) [OF maps(2), of key after] fset(1,3)
  have live: "?k rid \<longleftrightarrow> sec_live crc si key rid" if "?ok rid" for rid
    using that by (simp add: kept_def sec_live_def mem cs(4) run_newest_def)
  have inside: "rid \<in> ?all" if "sec_live crc si key rid" "?ok rid" for rid
  proof (rule ccontr)
    assume out: "rid \<notin> ?all"
    then have "ops_of rid itemss = []" by (auto simp: merge_ids_def ops_of_def filter_empty_conv)
    with out have "\<not> ?k rid" by (simp add: merge_ids_def kept_def overlay_op_def is_add_def)
    with live that show False by simp
  qed
  have ok': "?ok rid" if "rid \<in> ?all" for rid
  proof (cases "rid \<in> fst ` set (concat itemss)")
    case True
    then have "ops_of rid itemss \<noteq> []" by (auto simp: ops_of_def filter_empty_conv)
    then show ?thesis using cs(4) [of rid] by metis
  qed (use that mem in \<open>auto simp: merge_ids_def\<close>)
  have all: "{rid \<in> ?all. ?k rid} = live_ids crc si key after"
    using live inside ok' by (auto simp: live_ids_def)
  then show "finite (live_ids crc si key after)" by (metis (no_types, lifting) finite_merge_ids finite_Collect_conjI finite_subset mem_Collect_eq subsetI)
  have loop: "ids_loop crc (frozen_gen (si_frozen si)) limit cs fa fr (?ids (si_delta si)) (?ids (si_removed si)) [] =
      Some (Inr (take limit (sorted_list_of_set (live_ids crc si key after))))" if "0 < limit"
    using ids_loop_exact [OF cs(2,3) fset(2,4) ids_after_exact(2) [OF maps(1)] ids_after_exact(2) [OF maps(2)], of "[]" limit "frozen_gen (si_frozen si)" key after key after]
      that unfolding filter_sorted_list_of_set [OF finite_merge_ids] all by simp
  show "ids_batch_into crc si key after limit = Some (Inr (take limit (sorted_list_of_set (live_ids crc si key after))))"
    using loop cs(1) by (simp add: ids_batch_into_def ids_batch_from_def fa_def [symmetric] fr_def [symmetric] frozen_gen_def)
qed

section \<open>Additions and removals\<close>

lemma visit_ops:
  assumes "list_all (\<lambda>v. \<exists>op. decode_secondary_operation v = Inr op) vs"
  shows "visit_values op_visitor vs newest = Inr (foldl newer_op newest (map dec_op vs), True)"
  using assms by (induction vs arbitrary: newest) (auto simp: op_visitor_def dec_op_def)

lemma run_values_ops:
  assumes "sec_run_ok crc K run" "prefix_free K" "key \<in> K"
  shows "list_all (\<lambda>v. \<exists>op. decode_secondary_operation v = Inr op) (values_of (secondary_pair_key key rid) (px_entries crc (sr_index run)))"
proof -
  have "\<exists>op. decode_secondary_operation v = Inr op" if "(secondary_pair_key key rid, v) \<in> set (px_entries crc (sr_index run))" for v
  proof -
    from assms(1) that have "sec_entry_ok K (secondary_pair_key key rid, v)" by (auto simp: sec_run_ok_def list_all_iff)
    then show ?thesis by (auto simp: sec_entry_ok_def pair_entry_def secondary_pair_key_def [of key] secondary_pair_prefix_def [of key])
  qed
  then show ?thesis by (auto simp: list_all_iff values_of_def)
qed

lemma newest_in_sec_runs_exact:
  assumes "list_all (sec_run_ok crc K) runs" and K: "prefix_free K" "key \<in> K"
  shows "newest_in_sec_runs crc (secondary_pair_key key rid) runs newest =
    Inr (foldl newer_op newest (concat (map (run_ops crc key rid) runs)))"
  using assms(1)
proof (induction runs arbitrary: newest)
  case (Cons run runs)
  then have ok: "sec_run_ok crc K run" by simp
  then obtain pss where pss: "index_holds crc (sr_index run) pss" by (auto simp: sec_run_ok_def)
  have "fst (visit_key crc (sr_index run) (secondary_pair_key key rid) op_visitor newest) = Inr (foldl newer_op newest (run_ops crc key rid run))"
    using visit_key_holds [OF pss, of "secondary_pair_key key rid" op_visitor newest] visit_ops [OF run_values_ops [OF ok K, of rid], of newest]
    by (auto simp: px_entries_holds [OF pss] run_ops_def)
  with Cons show ?case by simp
qed simp

definition sec_persisted :: "(bytes \<Rightarrow> u32) \<Rightarrow> sec_idx \<Rightarrow> bytes \<Rightarrow> string \<Rightarrow> bool" where
  "sec_persisted crc si key rid =
     is_add (overlay_op (frozen_gen (si_frozen si)) (frozen_has fs_delta (si_frozen si) key rid) (frozen_has fs_removed (si_frozen si) key rid)
       False False (run_newest crc (si_runs si) key rid))"

lemma persisted_pair_exact:
  assumes "sec_ok crc K si" and "prefix_free K" "key \<in> K"
  shows "persisted_pair crc si key rid = Inr (sec_persisted crc si key rid)"
  using newest_in_sec_runs_exact [OF _ assms(2,3), of crc "si_runs si" rid None] assms(1)
  by (auto simp: persisted_pair_def sec_persisted_def sec_ok_def run_newest_def overlay_op_def frozen_gen_def frozen_has_def Let_def split: option.splits)

lemma sec_live_cases:
  "sec_live crc si key rid \<longleftrightarrow>
     \<not> map_contains (si_removed si) key rid \<and> (map_contains (si_delta si) key rid \<or> sec_persisted crc si key rid)"
  by (auto simp: sec_live_def sec_persisted_def overlay_op_def is_add_def Let_def)

lemma contains_pair_exact:
  assumes "sec_ok crc K si" and "prefix_free K" "key \<in> K"
  shows "contains_pair crc si key rid = Inr (sec_live crc si key rid)"
  using persisted_pair_exact [OF assms] by (simp add: contains_pair_def sec_live_cases)

lemma sec_persisted_cong:
  "si_runs si' = si_runs si \<Longrightarrow> si_frozen si' = si_frozen si \<Longrightarrow> sec_persisted crc si' key rid = sec_persisted crc si key rid"
  by (simp add: sec_persisted_def)

lemma id_map_in_changed:
  assumes "id_map_in K m"
  shows "key \<in> K \<Longrightarrow> rust_str rid \<Longrightarrow> id_map_in K (map_insert_id m key rid)" and "id_map_in K (map_remove_id m key rid)"
  using assms map_insert_id [of m key rid] map_remove_id [of m key rid] by (auto simp: id_map_in_def)

lemma sec_add_parts:
  assumes "sec_ok crc K si" and "key \<in> K" "rust_str rid"
  shows "sec_ok crc K (sec_add key rid si)" and "si_runs (sec_add key rid si) = si_runs si" "si_frozen (sec_add key rid si) = si_frozen si"
    and "map_contains (si_removed (sec_add key rid si)) k r \<longleftrightarrow> map_contains (si_removed si) k r \<and> \<not> (k = key \<and> r = rid)"
    and "map_contains (si_delta (sec_add key rid si)) k r \<longleftrightarrow> map_contains (si_delta si) k r \<or> (k = key \<and> r = rid)"
  using assms map_insert_id(2) [of "si_delta si" key rid k r] map_remove_id(2) [of "si_removed si" key rid k r]
    id_map_in_changed [of K "si_delta si" key rid] id_map_in_changed [of K "si_removed si" key rid]
  by (auto simp: sec_add_def sec_ok_def Let_def id_map_in_def split: option.splits)

lemma sec_add_live:
  assumes "sec_ok crc K si" and "key \<in> K" "rust_str rid"
  shows "sec_live crc (sec_add key rid si) k r \<longleftrightarrow> sec_live crc si k r \<or> (k = key \<and> r = rid)"
  using sec_add_parts [OF assms] sec_persisted_cong [OF sec_add_parts(2,3) [OF assms]] by (auto simp: sec_live_cases)

lemma sec_remove_parts:
  assumes ok: "sec_ok crc K si" and K: "prefix_free K" "key \<in> K" and "rust_str rid"
  shows "sec_ok crc K (sec_remove crc key rid si)" and "si_runs (sec_remove crc key rid si) = si_runs si"
    and "si_frozen (sec_remove crc key rid si) = si_frozen si"
    and "map_contains (si_removed (sec_remove crc key rid si)) k r \<longleftrightarrow> map_contains (si_removed si) k r \<or> (k = key \<and> r = rid \<and> sec_persisted crc si key rid)"
    and "map_contains (si_delta (sec_remove crc key rid si)) k r \<longleftrightarrow> map_contains (si_delta si) k r \<and> \<not> (k = key \<and> r = rid)"
proof -
  define si1 where "si1 = (if map_contains (si_delta si) key rid then si\<lparr>si_delta := map_remove_id (si_delta si) key rid\<rparr> else si)"
  have si1: "sec_ok crc K si1" "si_runs si1 = si_runs si" "si_frozen si1 = si_frozen si" "si_removed si1 = si_removed si"
    "map_contains (si_delta si1) k r \<longleftrightarrow> map_contains (si_delta si) k r \<and> \<not> (k = key \<and> r = rid)"
    using ok map_remove_id(2) [of "si_delta si" key rid k r] id_map_in_changed(2) [of K "si_delta si" key rid]
    by (auto simp: si1_def sec_ok_def id_map_in_def split: option.splits)
  have "\<not> sec_persisted crc si key rid" if "si_runs si = []" "si_frozen si = None"
    using that by (simp add: sec_persisted_def frozen_has_def run_newest_def overlay_op_def is_add_def)
  then have rem: "sec_remove crc key rid si = (if sec_persisted crc si key rid \<and> \<not> map_contains (si_removed si) key rid
      then si1\<lparr>si_removed := map_insert_id (si_removed si) key rid\<rparr> else si1)"
    using persisted_pair_exact [OF si1(1) K, of rid] sec_persisted_cong [OF si1(2,3)] si1(2-4)
    by (auto simp: sec_remove_def si1_def [symmetric] Let_def)
  show "sec_ok crc K (sec_remove crc key rid si)" "si_runs (sec_remove crc key rid si) = si_runs si"
    "si_frozen (sec_remove crc key rid si) = si_frozen si"
    "map_contains (si_removed (sec_remove crc key rid si)) k r \<longleftrightarrow> map_contains (si_removed si) k r \<or> (k = key \<and> r = rid \<and> sec_persisted crc si key rid)"
    "map_contains (si_delta (sec_remove crc key rid si)) k r \<longleftrightarrow> map_contains (si_delta si) k r \<and> \<not> (k = key \<and> r = rid)"
    using si1 ok id_map_in_changed(1) [of K "si_removed si" key rid] map_insert_id(2) [of "si_removed si" key rid k r] K(2) assms(4)
    by (auto simp: rem sec_ok_def id_map_in_def split: option.splits)
qed

lemma sec_remove_live:
  assumes "sec_ok crc K si" and "prefix_free K" "key \<in> K" and "rust_str rid"
  shows "sec_live crc (sec_remove crc key rid si) k r \<longleftrightarrow> sec_live crc si k r \<and> \<not> (k = key \<and> r = rid)"
  using sec_remove_parts [OF assms] sec_persisted_cong [OF sec_remove_parts(2,3) [OF assms]] by (auto simp: sec_live_cases)

section \<open>Publishing the overlay\<close>

text \<open>A generation is fresh when no run has an operation of it or of a later one.\<close>

definition fresh_generation :: "(bytes \<Rightarrow> u32) \<Rightarrow> sec_idx \<Rightarrow> u64 \<Rightarrow> bool" where
  "fresh_generation crc si gen \<longleftrightarrow> (\<forall>key rid run. run \<in> set (si_runs si) \<longrightarrow> (\<forall>op \<in> set (run_ops crc key rid run). fst op < gen))"

lemma foldl_newer_in: "foldl newer_op newest ops = Some op \<Longrightarrow> op \<in> set ops \<or> newest = Some op"
  by (induction ops arbitrary: newest) (auto simp: newer_op_def split: if_splits)

lemma run_newest_in:
  "run_newest crc runs key rid = Some op \<Longrightarrow> \<exists>run \<in> set runs. op \<in> set (run_ops crc key rid run)"
  using foldl_newer_in by (fastforce simp: run_newest_def)

lemma sec_freeze_live:
  assumes "sec_ok crc K si" and "fresh_generation crc si gen" and "sec_freeze_delta gen arc si = (si', Some frozen)"
  shows "sec_ok crc K si'" and "sec_live crc si' key rid = sec_live crc si key rid"
proof -
  have si': "si_frozen si = None" "si' = si\<lparr>si_delta := cow_default, si_removed := cow_default,
      si_frozen := Some \<lparr>fs_generation = gen, fs_delta = si_delta si, fs_removed = si_removed si, fs_arc = arc\<rparr>\<rparr>"
    using assms(3) by (auto simp: sec_freeze_delta_def Let_def split: if_splits)
  show "sec_ok crc K si'" using assms(1) by (auto simp: si' sec_ok_def id_map_in_def)
  have older: "fst op < gen" if "run_newest crc (si_runs si) key rid = Some op" for op
    using run_newest_in [OF that] assms(2) by (auto simp: fresh_generation_def)
  show "sec_live crc si' key rid = sec_live crc si key rid"
    using older by (cases "run_newest crc (si_runs si) key rid")
      (force simp: sec_live_def si' frozen_gen_def frozen_has_def overlay_op_def frozen_add_op_def frozen_delete_op_def is_add_def Let_def)+
qed

section \<open>The interface of an index\<close>

text \<open>What the commit path relies on: an index is a set of pairs under additions and removals. The
  client keeps one pair for every row.\<close>

locale pair_index =
  fixes invar :: "'s \<Rightarrow> bool" and keys :: "bytes set" and member :: "'s \<Rightarrow> bytes \<Rightarrow> string \<Rightarrow> bool"
    and ins :: "bytes \<Rightarrow> string \<Rightarrow> 's \<Rightarrow> 's" and del :: "bytes \<Rightarrow> string \<Rightarrow> 's \<Rightarrow> 's"
  assumes invar_ins: "invar s \<Longrightarrow> k \<in> keys \<Longrightarrow> rust_str r \<Longrightarrow> invar (ins k r s)"
    and member_ins: "invar s \<Longrightarrow> k \<in> keys \<Longrightarrow> rust_str r \<Longrightarrow> member (ins k r s) k' r' \<longleftrightarrow> member s k' r' \<or> (k' = k \<and> r' = r)"
    and invar_del: "invar s \<Longrightarrow> k \<in> keys \<Longrightarrow> rust_str r \<Longrightarrow> invar (del k r s)"
    and member_del: "invar s \<Longrightarrow> k \<in> keys \<Longrightarrow> rust_str r \<Longrightarrow> member (del k r s) k' r' \<longleftrightarrow> member s k' r' \<and> \<not> (k' = k \<and> r' = r)"
begin

definition tracks :: "(string \<Rightarrow> bytes option) \<Rightarrow> 's \<Rightarrow> bool" where
  "tracks key_of s \<longleftrightarrow> invar s \<and> (\<forall>k r. member s k r \<longleftrightarrow> key_of r = Some k) \<and> (\<forall>r k. key_of r = Some k \<longrightarrow> k \<in> keys)"

text \<open>The change of one row: its old pair is removed and its new one added.\<close>

lemma tracks_delete: "tracks key_of s \<Longrightarrow> key_of r = Some k \<Longrightarrow> rust_str r \<Longrightarrow> tracks (key_of(r := None)) (del k r s)"
  by (auto simp: tracks_def invar_del member_del)

lemma tracks_insert: "tracks key_of s \<Longrightarrow> key_of r = None \<Longrightarrow> rust_str r \<Longrightarrow> k \<in> keys \<Longrightarrow> tracks (key_of(r := Some k)) (ins k r s)"
  by (auto simp: tracks_def invar_ins member_ins)

lemma tracks_replace:
  assumes "tracks key_of s" "key_of r = Some k" "rust_str r" "k' \<in> keys"
  shows "tracks (key_of(r := Some k')) (ins k' r (del k r s))"
  using tracks_insert [OF tracks_delete [OF assms(1-3)] _ assms(3,4)] by simp

end

text \<open>The keys of the indexes a commit touches are tuples of values, of which none begins another.\<close>

interpretation sec: pair_index "\<lambda>si. sec_ok crc K si \<and> prefix_free K" K "sec_live crc" sec_add "sec_remove crc" for crc K
  by unfold_locales (auto simp: sec_add_parts(1) sec_add_live sec_remove_parts(1) sec_remove_live)

section \<open>Properties\<close>

datatype sec_event = AddPair bytes string | RemovePair bytes string | FreezeDelta u64 nat

fun sec_step :: "(bytes \<Rightarrow> u32) \<Rightarrow> sec_event \<Rightarrow> sec_idx \<Rightarrow> sec_idx" where
  "sec_step crc (AddPair key rid) si = sec_add key rid si"
| "sec_step crc (RemovePair key rid) si = sec_remove crc key rid si"
| "sec_step crc (FreezeDelta gen arc) si = fst (sec_freeze_delta gen arc si)"

fun pair_step :: "sec_event \<Rightarrow> (bytes \<times> string) set \<Rightarrow> (bytes \<times> string) set" where
  "pair_step (AddPair key rid) S = insert (key, rid) S"
| "pair_step (RemovePair key rid) S = S - {(key, rid)}"
| "pair_step (FreezeDelta gen arc) S = S"

definition event_ok :: "(bytes \<Rightarrow> u32) \<Rightarrow> bytes set \<Rightarrow> sec_idx \<Rightarrow> sec_event \<Rightarrow> bool" where
  "event_ok crc K si e =
     (case e of AddPair key rid \<Rightarrow> key \<in> K \<and> rust_str rid | RemovePair key rid \<Rightarrow> key \<in> K \<and> rust_str rid
      | FreezeDelta gen _ \<Rightarrow> fresh_generation crc si gen)"

lemma sec_step_exact:
  assumes "sec_ok crc K si" "prefix_free K" "event_ok crc K si e"
  shows "sec_ok crc K (sec_step crc e si)" and "si_runs (sec_step crc e si) = si_runs si"
    and "{(k, r). sec_live crc (sec_step crc e si) k r} = pair_step e {(k, r). sec_live crc si k r}"
proof -
  have "sec_ok crc K (sec_step crc e si) \<and> si_runs (sec_step crc e si) = si_runs si
    \<and> {(k, r). sec_live crc (sec_step crc e si) k r} = pair_step e {(k, r). sec_live crc si k r}"
  proof (cases e)
    case (AddPair key rid)
    with assms sec_add_parts [OF assms(1)] sec_add_live [OF assms(1)] show ?thesis by (auto simp: event_ok_def)
  next
    case (RemovePair key rid)
    with assms sec_remove_parts [OF assms(1,2)] sec_remove_live [OF assms(1,2)] show ?thesis by (auto simp: event_ok_def)
  next
    case (FreezeDelta gen arc)
    then have fresh: "fresh_generation crc si gen" using assms(3) by (simp add: event_ok_def)
    show ?thesis
    proof (cases "sec_freeze_delta gen arc si")
      case (Pair si' r)
      then show ?thesis
        using FreezeDelta assms(1) sec_freeze_live [OF assms(1) fresh, of arc si']
        by (cases r) (auto simp: sec_freeze_delta_def Let_def split: if_splits)
    qed
  qed
  then show "sec_ok crc K (sec_step crc e si)" "si_runs (sec_step crc e si) = si_runs si"
    "{(k, r). sec_live crc (sec_step crc e si) k r} = pair_step e {(k, r). sec_live crc si k r}" by blast+
qed

lemma sec_steps_exact:
  assumes "sec_ok crc K si" "prefix_free K" "list_all (event_ok crc K si) es"
  shows "sec_ok crc K (fold (sec_step crc) es si) \<and> {(k, r). sec_live crc (fold (sec_step crc) es si) k r} = fold pair_step es {(k, r). sec_live crc si k r}"
  using assms
proof (induction es arbitrary: si)
  case (Cons e es)
  have ok: "event_ok crc K si e" using Cons.prems(3) by simp
  note step = sec_step_exact [OF Cons.prems(1,2) ok]
  have "event_ok crc K (sec_step crc e si) = event_ok crc K si"
    unfolding fun_eq_iff event_ok_def fresh_generation_def step(2) by (rule allI) (rule refl)
  with Cons.prems(3) have "list_all (event_ok crc K (sec_step crc e si)) es" by simp
  with Cons.IH [OF step(1) Cons.prems(2)] step(3) show ?case by simp
qed simp

text \<open>C16. A secondary index implements a set of pairs of an encoded value and a row id. After any sequence of
  additions, removals and freezes, a batch of the ids of a key behind some id has exactly the ids
  paired with that key, in order and up to the limit, whether they were published in runs, frozen or
  changed since; single pairs are tested exactly; and views and snapshots taken for readers agree.\<close>

theorem secondary_index_exact:
  assumes "sec_ok crc K si" and "prefix_free K" and "list_all (event_ok crc K si) es" and "key \<in> K"
  shows "let si' = fold (sec_step crc) es si; pairs = fold pair_step es {(k, r). sec_live crc si k r};
      batch = take limit (sorted_list_of_set {r. (key, r) \<in> pairs \<and> (case after of None \<Rightarrow> True | Some a \<Rightarrow> a < r)}) in
    ids_batch_into crc si' key after limit = Some (Inr batch)
    \<and> view_ids_batch crc (sec_view si') key after limit = Some (Inr batch)
    \<and> snapshot_ids_batch crc (key_snapshot si' key) after limit = Some (Inr batch)
    \<and> contains_pair crc si' key rid = Inr ((key, rid) \<in> pairs)"
proof -
  let ?si = "fold (sec_step crc) es si"
  note steps = sec_steps_exact [OF assms(1-3)]
  then have ok: "sec_ok crc K ?si" and live: "sec_live crc ?si k r \<longleftrightarrow> (k, r) \<in> fold pair_step es {(k, r). sec_live crc si k r}" for k r
    by auto
  note batch = ids_batch_exact(1) [OF ok assms(2,4), of after limit, unfolded live_ids_def live]
  show ?thesis
    using batch contains_pair_exact [OF ok assms(2,4), of rid]
    by (simp add: Let_def view_ids_batch_def sec_view_def snapshot_ids_batch_def key_snapshot_def ids_batch_into_def live)
qed

theorem secondary_index_exact_witness:
  "ids_batch_into (\<lambda>_. 0) (sec_remove (\<lambda>_. 0) [5] ''b'' (sec_add [5] ''c'' (fst (sec_freeze_delta 7 0 (sec_add [5] ''b'' (sec_add [5] ''a'' (sec_resident []))))))) [5] None 10
     = Some (Inr [''a'', ''c''])"
proof -
  let ?es = "[AddPair [5] ''a'', AddPair [5] ''b'', FreezeDelta 7 0, AddPair [5] ''c'', RemovePair [5] ''b'']"
  have ok: "sec_ok (\<lambda>_. 0) {[5]} (sec_resident [])" by (simp add: sec_ok_def sec_resident_def id_map_in_def)
  have none: "{(k, r). sec_live (\<lambda>_. 0) (sec_resident []) k r} = {}"
    by (auto simp: sec_live_def sec_resident_def frozen_has_def run_newest_def overlay_op_def is_add_def)
  have ev: "list_all (event_ok (\<lambda>_. 0) {[5]} (sec_resident [])) ?es" by (simp add: event_ok_def fresh_generation_def sec_resident_def)
  have "{r. ([5::u8], r) \<in> fold pair_step ?es {}} = {''a'', ''c''}" by auto
  moreover have "sorted_list_of_set {''a'', ''c''} = [''a'', ''c'']"
    by (rule sorted_distinct_set_unique) (auto simp: less_eq_char_def)
  ultimately show ?thesis
    using secondary_index_exact [OF ok _ ev, of "[5]" 10 None "''a''"] by (simp add: none prefix_free_def Let_def)
qed

end
