(* ===== verification/Change_Log.thy ===== *)
theory Change_Log
  imports Prelude
begin

text \<open>
  The log of ids touched by recent commits (\<open>db.rs\<close>): a queue of chunks of entries, oldest first,
  bounded in the number of ids, with the highest version it no longer covers. A reader at an older
  snapshot adds the ids changed since to what an index returns; where the log no longer reaches, it
  is told so.
\<close>

record change_log_entry =
  cl_version :: u64
  cl_table :: string
  cl_ids :: "string list"

type_synonym log_chunk = "change_log_entry list"

record change_log =
  lg_chunks :: "log_chunk list"
  lg_total_ids :: nat
  lg_unlogged_max :: u64

record change_log_tail =
  lt_chunks :: "log_chunk list"
  lt_unlogged_max :: u64

abbreviation "CHANGE_LOG_CHUNK \<equiv> (64::nat)"
abbreviation "CHANGE_LOG_VIEW_CHUNKS \<equiv> (32::nat)"
abbreviation "CHANGE_LOG_MAX_IDS \<equiv> (200000::nat)"

definition change_log_default :: change_log where
  "change_log_default = \<lparr>lg_chunks = [], lg_total_ids = 0, lg_unlogged_max = 0\<rparr>"

fun scan_entries :: "string \<Rightarrow> u64 \<Rightarrow> change_log_entry list \<Rightarrow> string list \<Rightarrow> bool \<times> string list" where
  "scan_entries tname version [] out = (True, out)"
| "scan_entries tname version (e # es) out =
     (if cl_version e \<le> version then (False, out)
      else scan_entries tname version es (if cl_table e = tname then out @ cl_ids e else out))"

fun scan_chunks :: "string \<Rightarrow> u64 \<Rightarrow> log_chunk list \<Rightarrow> string list \<Rightarrow> string list" where
  "scan_chunks tname version [] out = out"
| "scan_chunks tname version (c # cs) out =
     (case scan_entries tname version (rev c) out of
        (True, out) \<Rightarrow> scan_chunks tname version cs out
      | (False, out) \<Rightarrow> out)"

definition changed_after_in :: "log_chunk list \<Rightarrow> u64 \<Rightarrow> string \<Rightarrow> u64 \<Rightarrow> string list option" where
  "changed_after_in chunks unlogged_max tname version =
     (if unlogged_max > version then None else Some (scan_chunks tname version (rev chunks) []))"

definition tail_changed_after :: "change_log_tail \<Rightarrow> string \<Rightarrow> u64 \<Rightarrow> string list option" where
  "tail_changed_after t tname version = changed_after_in (lt_chunks t) (lt_unlogged_max t) tname version"

definition changed_after :: "change_log \<Rightarrow> string \<Rightarrow> u64 \<Rightarrow> string list option" where
  "changed_after l tname version = changed_after_in (lg_chunks l) (lg_unlogged_max l) tname version"

definition note_unlogged :: "u64 \<Rightarrow> change_log \<Rightarrow> change_log" where
  "note_unlogged version l = l\<lparr>lg_unlogged_max := max (lg_unlogged_max l) version\<rparr>"

definition push_entry :: "change_log_entry \<Rightarrow> log_chunk list \<Rightarrow> log_chunk list" where
  "push_entry e chunks =
     (if chunks \<noteq> [] \<and> length (last chunks) < CHANGE_LOG_CHUNK then butlast chunks @ [last chunks @ [e]] else chunks @ [[e]])"

text \<open>The eviction loop; no chunk is empty, so that each pass removes an entry. \<open>None\<close> is the panic of
  \<open>remove(0)\<close> on an empty chunk.\<close>

function evict :: "change_log \<Rightarrow> change_log option" where
  "evict l =
     (if lg_total_ids l > CHANGE_LOG_MAX_IDS then
        (case lg_chunks l of
           [] \<Rightarrow> Some l
         | front # rest \<Rightarrow>
             (case front of
                [] \<Rightarrow> None
              | oldest # front \<Rightarrow>
                  evict (l\<lparr>lg_chunks := (if front = [] then rest else front # rest),
                           lg_total_ids := lg_total_ids l - length (cl_ids oldest),
                           lg_unlogged_max := max (lg_unlogged_max l) (cl_version oldest)\<rparr>)))
      else Some l)"
  by pat_completeness auto

termination
  by (relation "measure (\<lambda>l. sum_list (map (\<lambda>c. Suc (length c)) (lg_chunks l)))") auto

declare evict.simps [simp del]

definition log_push :: "u64 \<Rightarrow> string \<Rightarrow> string list \<Rightarrow> change_log \<Rightarrow> change_log option" where
  "log_push version tname ids l =
     (if ids = [] then Some l
      else evict (l\<lparr>lg_total_ids := saturating_add (lg_total_ids l) (length ids),
             lg_chunks := push_entry \<lparr>cl_version = version, cl_table = tname, cl_ids = ids\<rparr> (lg_chunks l)\<rparr>))"

definition log_tail :: "change_log \<Rightarrow> change_log_tail" where
  "log_tail l =
     (let skip = length (lg_chunks l) - CHANGE_LOG_VIEW_CHUNKS;
          before = (if skip = 0 then 0 else
                      (case lg_chunks l ! (skip - 1) of [] \<Rightarrow> 0 | c \<Rightarrow> cl_version (last c))) in
      \<lparr>lt_chunks = drop skip (lg_chunks l), lt_unlogged_max = max (lg_unlogged_max l) before\<rparr>)"

section \<open>The log against the history of commits\<close>

text \<open>The history is the list of all entries pushed so far, oldest first.\<close>

definition history_ids :: "change_log_entry list \<Rightarrow> string \<Rightarrow> u64 \<Rightarrow> string list" where
  "history_ids es tname version = concat (map cl_ids (filter (\<lambda>e. cl_table e = tname \<and> cl_version e > version) (rev es)))"

definition log_entries :: "change_log \<Rightarrow> change_log_entry list" where
  "log_entries l = concat (lg_chunks l)"

text \<open>The log holds a last part of the history; what it dropped is at or below its mark.\<close>

definition log_ok :: "change_log_entry list \<Rightarrow> change_log \<Rightarrow> bool" where
  "log_ok hist l \<longleftrightarrow> sorted (map cl_version hist) \<and> [] \<notin> set (lg_chunks l)
     \<and> (\<exists>old. hist = old @ log_entries l \<and> list_all (\<lambda>e. cl_version e \<le> lg_unlogged_max l) old)"

lemma scan_entries_take:
  "scan_entries t v es out = (list_all (\<lambda>e. cl_version e > v) es,
     out @ concat (map cl_ids (filter (\<lambda>e. cl_table e = t) (takeWhile (\<lambda>e. cl_version e > v) es))))"
  by (induction es arbitrary: out) auto

lemma scan_chunks_take:
  "scan_chunks t v cs out = out @ concat (map cl_ids (filter (\<lambda>e. cl_table e = t) (takeWhile (\<lambda>e. cl_version e > v) (concat (map rev cs)))))"
proof (induction cs arbitrary: out)
  case (Cons c cs)
  show ?case
  proof (cases "list_all (\<lambda>e. cl_version e > v) (rev c)")
    case True
    then have "takeWhile (\<lambda>e. cl_version e > v) (rev c @ ys) = rev c @ takeWhile (\<lambda>e. cl_version e > v) ys"
      "takeWhile (\<lambda>e. cl_version e > v) (rev c) = rev c" for ys
      using takeWhile_append2 [of "rev c" "\<lambda>e. cl_version e > v"] by (auto simp: list_all_iff takeWhile_eq_all_conv)
    note whole = this
    show ?thesis using True whole(1) unfolding scan_chunks.simps scan_entries_take whole(2) by (simp add: Cons.IH)
  next
    case False
    then obtain e where "e \<in> set (rev c)" "\<not> cl_version e > v" by (auto simp: list_all_iff)
    then show ?thesis using False by (auto simp: scan_entries_take takeWhile_append1 [of e "rev c"])
  qed
qed simp

lemma takeWhile_newest:
  assumes "sorted (map cl_version es)"
  shows "takeWhile (\<lambda>e. cl_version e > v) (rev es) = filter (\<lambda>e. cl_version e > v) (rev es)"
  using assms
proof (induction es rule: rev_induct)
  case (snoc e es)
  show ?case
  proof (cases "cl_version e > v")
    case True
    with snoc show ?thesis by (simp add: sorted_append)
  next
    case False
    with snoc.prems have "filter (\<lambda>e. cl_version e > v) (rev es) = []"
      by (auto simp: sorted_append filter_empty_conv not_less intro: order_trans)
    with False show ?thesis by simp
  qed
qed simp

lemma changed_in_exact:
  assumes "sorted (map cl_version (concat chunks))"
  shows "changed_after_in chunks m t v = (if m > v then None else Some (history_ids (concat chunks) t v))"
proof -
  have "concat (map rev (rev chunks)) = rev (concat chunks)" by (simp add: rev_concat rev_map)
  then show ?thesis
    using takeWhile_newest [OF assms, of v]
    by (simp add: changed_after_in_def scan_chunks_take history_ids_def conj_commute)
qed

lemma history_ids_append:
  "list_all (\<lambda>e. cl_version e \<le> v) old \<Longrightarrow> history_ids (old @ es) t v = history_ids es t v"
  by (simp add: history_ids_def list_all_iff filter_empty_conv not_less)

lemma below_mono: "list_all (\<lambda>e. cl_version e \<le> m) es \<Longrightarrow> m \<le> v \<Longrightarrow> list_all (\<lambda>e. cl_version e \<le> v) es"
  unfolding list_all_iff using order_trans by blast

lemma evict_ok:
  assumes "log_ok hist l"
  shows "\<exists>l'. evict l = Some l' \<and> log_ok hist l' \<and> lg_unlogged_max l \<le> lg_unlogged_max l'"
  using assms
proof (induction l rule: evict.induct)
  case (1 l)
  show ?case
  proof (cases "lg_total_ids l > CHANGE_LOG_MAX_IDS \<and> lg_chunks l \<noteq> []")
    case False
    with 1(2) show ?thesis by (auto simp: evict.simps [of l])
  next
    case True
    then obtain front rest where chunks: "lg_chunks l = front # rest" by (cases "lg_chunks l") auto
    with 1(2) obtain oldest front' where front: "front = oldest # front'" by (cases front) (auto simp: log_ok_def)
    let ?l = "l\<lparr>lg_chunks := (if front' = [] then rest else front' # rest),
      lg_total_ids := lg_total_ids l - length (cl_ids oldest), lg_unlogged_max := max (lg_unlogged_max l) (cl_version oldest)\<rparr>"
    have step: "evict l = evict ?l" using True chunks front by (simp add: evict.simps [of l])
    obtain old where old: "hist = old @ log_entries l" "list_all (\<lambda>e. cl_version e \<le> lg_unlogged_max l) old"
      using 1(2) by (auto simp: log_ok_def)
    have "hist = (old @ [oldest]) @ log_entries ?l" using old(1) chunks front by (auto simp: log_entries_def)
    moreover have "list_all (\<lambda>e. cl_version e \<le> lg_unlogged_max ?l) (old @ [oldest])"
      using old(2) by (auto simp: list_all_iff max_def)
    ultimately have "log_ok hist ?l" using 1(2) chunks front unfolding log_ok_def by auto
    with 1(1) [OF _ chunks front] True step show ?thesis by fastforce
  qed
qed

lemma log_push_ok:
  assumes "log_ok hist l" and "\<forall>e \<in> set hist. cl_version e \<le> version"
  shows "\<exists>l'. log_push version t ids l = Some l'
    \<and> log_ok (if ids = [] then hist else hist @ [\<lparr>cl_version = version, cl_table = t, cl_ids = ids\<rparr>]) l' \<and> lg_unlogged_max l \<le> lg_unlogged_max l'"
proof (cases "ids = []")
  case False
  let ?e = "\<lparr>cl_version = version, cl_table = t, cl_ids = ids\<rparr>"
  let ?l = "l\<lparr>lg_total_ids := saturating_add (lg_total_ids l) (length ids), lg_chunks := push_entry ?e (lg_chunks l)\<rparr>"
  have "concat (push_entry ?e (lg_chunks l)) = concat (lg_chunks l) @ [?e]"
    by (cases "lg_chunks l" rule: rev_cases) (auto simp: push_entry_def)
  moreover have "[] \<notin> set (push_entry ?e (lg_chunks l))"
    using assms(1) by (auto simp: push_entry_def log_ok_def dest: in_set_butlastD)
  ultimately have "log_ok (hist @ [?e]) ?l" using assms by (auto simp: log_ok_def log_entries_def sorted_append)
  from evict_ok [OF this] False show ?thesis by (auto simp: log_push_def)
qed (simp add: log_push_def assms)

lemma changed_after_exact:
  assumes "log_ok hist l"
  shows "changed_after l t v = (if lg_unlogged_max l > v then None else Some (history_ids hist t v))"
proof -
  obtain old where old: "hist = old @ log_entries l" "list_all (\<lambda>e. cl_version e \<le> lg_unlogged_max l) old" "sorted (map cl_version hist)"
    using assms by (auto simp: log_ok_def)
  then have "sorted (map cl_version (concat (lg_chunks l)))" by (simp add: sorted_append log_entries_def)
  moreover have "history_ids hist t v = history_ids (concat (lg_chunks l)) t v" if "lg_unlogged_max l \<le> v"
    using old(1) history_ids_append [OF below_mono [OF old(2) that]] by (simp add: log_entries_def)
  ultimately show ?thesis by (auto simp: changed_after_def changed_in_exact not_less)
qed

lemma log_tail_ok:
  assumes "log_ok hist l"
  shows "\<exists>old. hist = old @ concat (lt_chunks (log_tail l)) \<and> list_all (\<lambda>e. cl_version e \<le> lt_unlogged_max (log_tail l)) old"
proof -
  let ?skip = "length (lg_chunks l) - CHANGE_LOG_VIEW_CHUNKS"
  obtain old where old: "hist = old @ log_entries l" "list_all (\<lambda>e. cl_version e \<le> lg_unlogged_max l) old"
    and sorted: "sorted (map cl_version hist)" and full: "[] \<notin> set (lg_chunks l)" using assms by (auto simp: log_ok_def)
  have split: "log_entries l = concat (take ?skip (lg_chunks l)) @ concat (lt_chunks (log_tail l))"
    by (simp add: log_entries_def log_tail_def Let_def concat_append [symmetric] del: concat_append)
  have skipped: "cl_version e \<le> lt_unlogged_max (log_tail l)" if "e \<in> set (concat (take ?skip (lg_chunks l)))" for e
  proof -
    from that have pos: "?skip > 0" by (cases "?skip = 0") auto
    then obtain k where k: "?skip = Suc k" by (cases ?skip) auto
    let ?c = "lg_chunks l ! k"
    have len: "k < length (lg_chunks l)" using k by linarith
    have c: "?c \<noteq> []" using full nth_mem [OF len] by metis
    have "concat (take ?skip (lg_chunks l)) = concat (take k (lg_chunks l)) @ butlast ?c @ [last ?c]"
      using k len c by (simp add: take_Suc_conv_app_nth)
    moreover have "sorted (map cl_version (concat (take ?skip (lg_chunks l))))" using sorted old(1) split by (simp add: sorted_append)
    ultimately have "cl_version e \<le> cl_version (last ?c)" using that by (auto simp: sorted_append)
    also have "\<dots> \<le> lt_unlogged_max (log_tail l)" using k c by (simp add: log_tail_def Let_def split: list.split)
    finally show ?thesis .
  qed
  have "lg_unlogged_max l \<le> lt_unlogged_max (log_tail l)" by (simp add: log_tail_def Let_def)
  then have "list_all (\<lambda>e. cl_version e \<le> lt_unlogged_max (log_tail l)) (old @ concat (take ?skip (lg_chunks l)))"
    using old(2) skipped by (force simp: list_all_iff)
  with old(1) split show ?thesis by (metis append.assoc)
qed

section \<open>Properties\<close>

text \<open>What the log does over a sequence of commits and of changes that are only noted.\<close>

datatype log_event = Pushed u64 string "string list" | Noted u64

fun log_step :: "log_event \<Rightarrow> change_log option \<Rightarrow> change_log option" where
  "log_step (Pushed v t ids) l = Option.bind l (log_push v t ids)"
| "log_step (Noted v) l = map_option (note_unlogged v) l"

fun event_entries :: "log_event \<Rightarrow> change_log_entry list" where
  "event_entries (Pushed v t ids) = (if ids = [] then [] else [\<lparr>cl_version = v, cl_table = t, cl_ids = ids\<rparr>])"
| "event_entries (Noted v) = []"

fun event_version :: "log_event \<Rightarrow> u64" where
  "event_version (Pushed v t ids) = v"
| "event_version (Noted v) = v"

lemma log_steps_ok:
  assumes "log_ok hist l" and "sorted (map event_version evs)" and "\<forall>ev \<in> set evs. \<forall>e \<in> set hist. cl_version e \<le> event_version ev"
  shows "\<exists>l'. fold log_step evs (Some l) = Some l' \<and> log_ok (hist @ concat (map event_entries evs)) l'
    \<and> lg_unlogged_max l \<le> lg_unlogged_max l' \<and> (\<forall>v. Noted v \<in> set evs \<longrightarrow> v \<le> lg_unlogged_max l')"
  using assms
proof (induction evs arbitrary: hist l)
  case (Cons ev evs)
  have "\<exists>l1. log_step ev (Some l) = Some l1 \<and> log_ok (hist @ event_entries ev) l1 \<and> lg_unlogged_max l \<le> lg_unlogged_max l1
      \<and> (\<forall>v. ev = Noted v \<longrightarrow> v \<le> lg_unlogged_max l1)"
  proof (cases ev)
    case (Pushed v t ids)
    with log_push_ok [OF Cons.prems(1), of v t ids] Cons.prems(3) show ?thesis by (auto split: if_splits)
  next
    case (Noted v)
    with Cons.prems(1) show ?thesis by (auto simp: note_unlogged_def log_ok_def log_entries_def list_all_iff max_def intro: order_trans)
  qed
  then obtain l1 where l1: "log_step ev (Some l) = Some l1" "log_ok (hist @ event_entries ev) l1" "lg_unlogged_max l \<le> lg_unlogged_max l1"
    "\<forall>v. ev = Noted v \<longrightarrow> v \<le> lg_unlogged_max l1" by blast
  have new: "\<forall>e \<in> set (event_entries ev). cl_version e = event_version ev" by (cases ev) auto
  from Cons.IH [OF l1(2)] Cons.prems(2,3) new obtain l' where "fold log_step evs (Some l1) = Some l'"
    "log_ok ((hist @ event_entries ev) @ concat (map event_entries evs)) l'" "lg_unlogged_max l1 \<le> lg_unlogged_max l'"
    "\<forall>v. Noted v \<in> set evs \<longrightarrow> v \<le> lg_unlogged_max l'" by fastforce
  with l1 show ?case by (auto intro: order_trans)
qed simp

text \<open>C25. The log of recent changes never panics and never misses a change: after any commits and unlogged
  changes in order of versions, a question about a version is either refused or answered with
  exactly the ids of the table that later commits changed, newest first, by the log and by the
  tail that readers hold alike; a version below an unlogged change is always refused.\<close>

theorem change_log_exact:
  assumes "sorted (map event_version evs)"
  shows "\<exists>l m. fold log_step evs (Some change_log_default) = Some l \<and> lg_unlogged_max l \<le> m
    \<and> changed_after l t v = (if lg_unlogged_max l > v then None else Some (history_ids (concat (map event_entries evs)) t v))
    \<and> tail_changed_after (log_tail l) t v = (if m > v then None else changed_after l t v)
    \<and> (\<forall>u. Noted u \<in> set evs \<longrightarrow> v < u \<longrightarrow> changed_after l t v = None)"
proof -
  have "log_ok [] change_log_default" by (simp add: log_ok_def change_log_default_def log_entries_def)
  from log_steps_ok [OF this assms] obtain l where l: "fold log_step evs (Some change_log_default) = Some l"
    "log_ok (concat (map event_entries evs)) l" "\<forall>u. Noted u \<in> set evs \<longrightarrow> u \<le> lg_unlogged_max l" by auto
  let ?hist = "concat (map event_entries evs)" and ?m = "lt_unlogged_max (log_tail l)"
  note exact = changed_after_exact [OF l(2), of t v]
  have m: "lg_unlogged_max l \<le> ?m" by (simp add: log_tail_def Let_def)
  obtain old where old: "?hist = old @ concat (lt_chunks (log_tail l))" "list_all (\<lambda>e. cl_version e \<le> ?m) old"
    using log_tail_ok [OF l(2)] by blast
  have "sorted (map cl_version (concat (lt_chunks (log_tail l))))" using l(2) unfolding log_ok_def old(1) by (simp add: sorted_append)
  note tail = changed_in_exact [OF this, of ?m t v]
  have "history_ids ?hist t v = history_ids (concat (lt_chunks (log_tail l))) t v" if "?m \<le> v"
    unfolding old(1) by (rule history_ids_append [OF below_mono [OF old(2) that]])
  with tail exact m have "tail_changed_after (log_tail l) t v = (if ?m > v then None else changed_after l t v)"
    by (auto simp: tail_changed_after_def not_less)
  moreover have "\<forall>u. Noted u \<in> set evs \<longrightarrow> v < u \<longrightarrow> changed_after l t v = None" using l(3) exact by fastforce
  ultimately show ?thesis using l(1) exact m by blast
qed

theorem change_log_exact_witness:
  "\<exists>l. fold log_step [Pushed 1 ''a'' [''x''], Pushed 2 ''b'' [''y''], Pushed 3 ''a'' [''z'', ''w'']] (Some change_log_default) = Some l
     \<and> changed_after l ''a'' 1 = Some [''z'', ''w'']"
proof -
  let ?evs = "[Pushed 1 ''a'' [''x''], Pushed 2 ''b'' [''y''], Pushed 3 ''a'' [''z'', ''w'']]"
  have "sorted (map event_version ?evs)" by simp
  from change_log_exact [OF this, of "''a''" 1] obtain l where l: "fold log_step ?evs (Some change_log_default) = Some l"
    "changed_after l ''a'' 1 = (if lg_unlogged_max l > 1 then None else Some [''z'', ''w''])"
    by (auto simp: history_ids_def)
  have "lg_unlogged_max l = 0"
    using l(1) by (auto simp: log_push_def evict.simps push_entry_def change_log_default_def saturating_add_def)
  with l show ?thesis by simp
qed

end
