(* ===== verification/Constraints.thy ===== *)
theory Constraints
  imports Secondary Payload Record_Check Checkpoint Change_Log
begin

text \<open>
  What the commit path checks of a transaction against the committed state (\<open>db/commit.rs\<close>):
  unique indexes and foreign keys, judged on the rows as they would be after the commit.

  The state is that of the checkpoints with the blob directory, the greatest id of each table, the
  secondary indexes and the log of changes; text and vector indexes take no part in the checks. A read through the
  layout cache of the thread is a read with the cache as it is: what a read adds to the cache does
  not change later rows. \<open>None\<close> is a panic or a loop that never ends.
\<close>

section \<open>State, transactions and loops\<close>

record 'j db_state = "'j state" +
  st_blobs :: blob_dir
  st_table_high_ids :: "(string \<times> string) list"
  st_secondary :: "((string \<times> string) \<times> sec_idx) list"
  st_change_log :: change_log

text \<open>The external functions, the layout cache and the unstable sort of version lists.\<close>

record 'j db_env =
  de_ext :: "'j ext"
  de_cache :: layouts
  de_sort :: "version_list \<Rightarrow> version_list"

type_synonym 'j rebase_step = "string \<Rightarrow> 'j row \<Rightarrow> 'j row option result"

record 'j prepared_change =
  pc_id :: string
  pc_operation :: "'j row option"
  pc_rebase :: "'j rebase_step list option"
  pc_payload :: "(u32 \<times> u32) option"

record 'j prepared_table =
  pt_name :: string
  pt_schema :: "'j table_schema"
  pt_changes :: "'j prepared_change list"

definition obind :: "'a result option \<Rightarrow> ('a \<Rightarrow> 'b result option) \<Rightarrow> 'b result option" where
  "obind m f = (case m of None \<Rightarrow> None | Some (Inl err) \<Rightarrow> Some (Inl err) | Some (Inr x) \<Rightarrow> f x)"

text \<open>A \<open>for\<close> loop whose body may return early with an error.\<close>

fun for_loop :: "('s \<Rightarrow> 'a \<Rightarrow> 's result option) \<Rightarrow> 'a list \<Rightarrow> 's \<Rightarrow> 's result option" where
  "for_loop f [] s = Some (Inr s)"
| "for_loop f (x # xs) s = obind (f s x) (for_loop f xs)"

abbreviation for_each :: "('a \<Rightarrow> unit result option) \<Rightarrow> 'a list \<Rightarrow> unit result option" where
  "for_each f xs \<equiv> for_loop (\<lambda>_. f) xs ()"

section \<open>Names of secondary indexes\<close>

definition hex_digit :: "nat \<Rightarrow> char" where
  "hex_digit n = ''0123456789abcdef'' ! n"

definition hex_byte :: "u8 \<Rightarrow> string" where
  "hex_byte b = [hex_digit (unat b div 16), hex_digit (unat b mod 16)]"

definition secondary_index_id :: "string list \<Rightarrow> string" where
  "secondary_index_id columns =
     ''idx-'' @ concat (map hex_byte (to_be_bytes (of_nat (length columns) :: u32)
       @ concat (map (\<lambda>c. to_be_bytes (of_nat (length c) :: u32) @ as_bytes c) columns)))"

definition secondary_index_key :: "string \<Rightarrow> index_def \<Rightarrow> string \<times> string" where
  "secondary_index_key tname def = (tname, secondary_index_id (ix_columns def))"

definition single_secondary_index_key :: "string \<Rightarrow> string \<Rightarrow> string \<times> string" where
  "single_secondary_index_key tname cname = (tname, secondary_index_id [cname])"

section \<open>Reading rows of the state\<close>

definition latest_owned :: "'j ext \<Rightarrow> 'j db_state \<Rightarrow> string \<Rightarrow> string \<Rightarrow> version_entry option result" where
  "latest_owned E st tname rid =
     (case table (st_catalog st) tname of
        None \<Rightarrow> Inr None
      | Some schema \<Rightarrow>
          rbind (fst (newest_at_or_before (crc32 E) (st_index st) tname rid (- 1))) (\<lambda>r.
          Inr (opt_filter (\<lambda>e. ve_version e > ts_epoch schema) r)))"

definition read_record_kind_keep :: "'j ext \<Rightarrow> layouts \<Rightarrow> blob_dir \<Rightarrow> (u32 \<times> bytes) list \<Rightarrow> vkind \<Rightarrow> row_projection \<Rightarrow> 'j row result option" where
  "read_record_kind_keep E cache blobs readers kind projection =
     obind (payload_bytes readers kind) (\<lambda>p.
       case p of
         Some bs \<Rightarrow> Some (rbind (decode_record_keep E cache bs (Some blobs) projection) (\<lambda>(_, r). Inr r))
       | None \<Rightarrow> Some (Inl (Corrupt ''attempted to read a tombstone'')))"

definition read_record_kind :: "'j ext \<Rightarrow> layouts \<Rightarrow> blob_dir \<Rightarrow> (u32 \<times> bytes) list \<Rightarrow> vkind \<Rightarrow> 'j table_schema \<Rightarrow> 'j row result option" where
  "read_record_kind E cache blobs readers kind schema =
     read_record_kind_keep E cache blobs readers kind (snd (projection_new cache (Some schema) None))"

definition find_prepared_change :: "'j prepared_table list \<Rightarrow> string \<Rightarrow> string \<Rightarrow> 'j prepared_change option" where
  "find_prepared_change staged tname rid =
     Option.bind (find (\<lambda>p. pt_name p = tname) staged) (\<lambda>p.
       case binary_search rid (map (\<lambda>c. (pc_id c, c)) (pt_changes p)) of
         Inr i \<Rightarrow> Some (pt_changes p ! i)
       | Inl _ \<Rightarrow> None)"

definition with_id :: "'j table_schema \<Rightarrow> string \<Rightarrow> 'j row \<Rightarrow> 'j row" where
  "with_id schema rid r = (if has_implicit_id schema then fst (row_insert ID_COLUMN (Text rid) r) else r)"

definition final_record :: "'j db_env \<Rightarrow> 'j db_state \<Rightarrow> 'j prepared_table list \<Rightarrow> string \<Rightarrow> string \<Rightarrow> 'j row option result option" where
  "final_record V st staged tname rid =
     (case table (st_catalog st) tname of
        None \<Rightarrow> Some (Inl (TableNotFound tname))
      | Some schema \<Rightarrow>
          (case find_prepared_change staged tname rid of
             Some change \<Rightarrow> Some (Inr (map_option (with_id schema rid) (pc_operation change)))
           | None \<Rightarrow>
               obind (Some (latest_owned (de_ext V) st tname rid)) (\<lambda>latest.
                 case latest of
                   Some entry \<Rightarrow>
                     if ve_version entry > ts_epoch schema \<and> \<not> is_tombstone entry then
                       obind (read_record_kind (de_ext V) (de_cache V) (st_blobs st) (st_readers st) (ve_kind entry) schema)
                         (\<lambda>r. Some (Inr (Some (with_id schema rid r))))
                     else Some (Inr None)
                 | None \<Rightarrow> Some (Inr None))))"

section \<open>Unique indexes\<close>

definition missing_unique_index :: "string \<Rightarrow> string \<Rightarrow> error" where
  "missing_unique_index tname cname =
     Corrupt (''unique index '' @ tname @ ''.'' @ cname
       @ '' is declared by the catalog but not loaded; reopen the database to rebuild derived indexes'')"

text \<open>One unique index of one change; \<open>staged_new\<close> has the keys the transaction has claimed so far.\<close>

definition check_unique_key :: "'j db_env \<Rightarrow> 'j db_state \<Rightarrow> (string \<times> string) set \<Rightarrow> 'j prepared_table \<Rightarrow> 'j prepared_change \<Rightarrow> 'j row
    \<Rightarrow> ((string \<times> string \<times> bytes) \<rightharpoonup> string) \<Rightarrow> index_def \<Rightarrow> ((string \<times> string \<times> bytes) \<rightharpoonup> string) result option" where
  "check_unique_key V st staged_keys t change record staged_new def =
     (if \<not> ix_unique def then Some (Inr staged_new)
      else if secondary_key_has_null record (ix_columns def) then Some (Inr staged_new)
      else
        let key = secondary_tuple_key (de_ext V) record (ix_columns def);
            slot = (pt_name t, secondary_index_id (ix_columns def), key);
            previous = staged_new slot;
            staged_new = staged_new(slot \<mapsto> pc_id change) in
        if (case previous of Some p \<Rightarrow> p \<noteq> pc_id change | None \<Rightarrow> False)
        then Some (Inl (UniqueViolation (pt_name t) (ix_column def)))
        else
          (case map_of (st_secondary st) (secondary_index_key (pt_name t) def) of
             None \<Rightarrow> Some (Inl (missing_unique_index (pt_name t) (ix_column def)))
           | Some index \<Rightarrow>
               obind (sec_ids (crc32 (de_ext V)) index key) (\<lambda>holders.
               obind (for_each (\<lambda>holder.
                   if holder \<noteq> pc_id change \<and> (pt_name t, holder) \<notin> staged_keys
                   then Some (Inl (UniqueViolation (pt_name t) (ix_column def)))
                   else Some (Inr ())) holders) (\<lambda>_.
               Some (Inr staged_new)))))"

definition staged_keys_of :: "'j prepared_table list \<Rightarrow> (string \<times> string) set" where
  "staged_keys_of staged = set (concat (map (\<lambda>t. map (\<lambda>change. (pt_name t, pc_id change)) (pt_changes t)) staged))"

definition validate_unique :: "'j db_env \<Rightarrow> 'j db_state \<Rightarrow> 'j prepared_table list \<Rightarrow> unit result option" where
  "validate_unique V st staged =
     (if \<not> list_ex (\<lambda>schema. list_ex ix_unique (ts_indexes schema)) (ca_tables (st_catalog st)) then Some (Inr ())
      else
        obind (for_loop (\<lambda>staged_new t.
            for_loop (\<lambda>staged_new change.
              case pc_operation change of
                None \<Rightarrow> Some (Inr staged_new)
              | Some record \<Rightarrow>
                  for_loop (check_unique_key V st (staged_keys_of staged) t change record) (ts_indexes (pt_schema t)) staged_new)
              (pt_changes t) staged_new) staged Map.empty) (\<lambda>_. Some (Inr ())))"

section \<open>Foreign keys\<close>

definition final_ids_matching :: "'j db_env \<Rightarrow> 'j db_state \<Rightarrow> 'j prepared_table list \<Rightarrow> string \<Rightarrow> string \<Rightarrow> 'j value \<Rightarrow> string set result option" where
  "final_ids_matching V st staged tname cname v =
     (case table (st_catalog st) tname of
        None \<Rightarrow> Some (Inl (TableNotFound tname))
      | Some schema \<Rightarrow>
          obind (if cname = ID_COLUMN \<and> has_implicit_id schema then
                   Some (Inr (case v of Text rid \<Rightarrow> [rid] | _ \<Rightarrow> []))
                 else
                   (case map_of (st_secondary st) (single_secondary_index_key tname cname) of
                      Some index \<Rightarrow> sec_ids (crc32 (de_ext V)) index (encode_index_value (de_ext V) v)
                    | None \<Rightarrow>
                        visit_table (crc32 (de_ext V)) (de_sort V) (\<lambda>_. Inr ()) (st_index st) tname None
                          (\<lambda>ids rid _. Inr (ids @ [rid], True)) [])) (\<lambda>ids.
          let candidates = sorted_list_of_set (set ids \<union>
                (case find (\<lambda>p. pt_name p = tname) staged of Some p \<Rightarrow> pc_id ` set (pt_changes p) | None \<Rightarrow> {})) in
          for_loop (\<lambda>matching rid.
            obind (final_record V st staged tname rid) (\<lambda>found.
              case found of
                Some r \<Rightarrow>
                  (case row_get r cname of
                     Some w \<Rightarrow> Some (Inr (if value_eq (de_ext V) w v then insert rid matching else matching))
                   | None \<Rightarrow> Some (Inr matching))
              | None \<Rightarrow> Some (Inr matching))) candidates {}))"

text \<open>A staged row needs a parent for each of its references.\<close>

definition check_child :: "'j db_env \<Rightarrow> 'j db_state \<Rightarrow> 'j prepared_table list \<Rightarrow> 'j prepared_table \<Rightarrow> 'j row \<Rightarrow> foreign_key_def \<Rightarrow> unit result option" where
  "check_child V st staged t record fk =
     (case row_get record (fk_column fk) of
        None \<Rightarrow> Some (Inr ())
      | Some v \<Rightarrow>
          if is_null v then Some (Inr ())
          else
            obind (final_ids_matching V st staged (fk_referenced_table fk) (fk_referenced_column fk) v) (\<lambda>parents.
            if parents = {} then
              Some (Inl (SchemaViolation (''foreign key violation: '' @ pt_name t @ ''.'' @ fk_column fk
                @ '' has no matching '' @ fk_referenced_table fk @ ''.'' @ fk_referenced_column fk)))
            else Some (Inr ())))"

text \<open>A replaced or deleted row must not be the last parent of a row that stays.\<close>

definition check_dependents :: "'j db_env \<Rightarrow> 'j db_state \<Rightarrow> 'j prepared_table list \<Rightarrow> 'j prepared_table \<Rightarrow> 'j prepared_change \<Rightarrow> 'j row
    \<Rightarrow> 'j table_schema \<Rightarrow> foreign_key_def \<Rightarrow> unit result option" where
  "check_dependents V st staged parent change old_record child_schema fk =
     (case row_get old_record (fk_referenced_column fk) of
        None \<Rightarrow> Some (Inr ())
      | Some old_value \<Rightarrow>
          if (case pc_operation change of
                None \<Rightarrow> False
              | Some record \<Rightarrow>
                  (has_implicit_id (pt_schema parent) \<and> fk_referenced_column fk = ID_COLUMN)
                  \<or> (case row_get record (fk_referenced_column fk) of Some w \<Rightarrow> value_eq (de_ext V) w old_value | None \<Rightarrow> False))
          then Some (Inr ())
          else if is_null old_value then Some (Inr ())
          else
            obind (final_ids_matching V st staged (pt_name parent) (fk_referenced_column fk) old_value) (\<lambda>parents.
            if parents \<noteq> {} then Some (Inr ())
            else
              obind (final_ids_matching V st staged (ts_name child_schema) (fk_column fk) old_value) (\<lambda>children.
              if children = {} then Some (Inr ())
              else if pc_operation change \<noteq> None then
                Some (Inl (SchemaViolation (''cannot replace referenced key '' @ pt_name parent @ ''.'' @ fk_referenced_column fk
                  @ '': referenced by '' @ ts_name child_schema @ ''.'' @ fk_column fk @ ''; ON UPDATE is not supported'')))
              else
                (case fk_on_delete fk of
                   Restrict \<Rightarrow>
                     Some (Inl (SchemaViolation (''cannot delete '' @ pt_name parent @ ''.'' @ pc_id change
                       @ '': referenced by '' @ ts_name child_schema @ ''.'' @ fk_column fk)))
                 | Cascade \<Rightarrow>
                     Some (Inl (Conflict (''cascade for '' @ pt_name parent @ ''/'' @ pc_id change
                       @ '' must be retried after concurrent child change'')))))))"

definition check_parent :: "'j db_env \<Rightarrow> 'j db_state \<Rightarrow> 'j prepared_table list \<Rightarrow> 'j prepared_table \<Rightarrow> 'j prepared_change \<Rightarrow> unit result option" where
  "check_parent V st staged parent change =
     obind (Some (latest_owned (de_ext V) st (pt_name parent) (pc_id change))) (\<lambda>latest.
       case latest of
         None \<Rightarrow> Some (Inr ())
       | Some previous \<Rightarrow>
           if is_tombstone previous \<or> ve_version previous \<le> ts_epoch (pt_schema parent) then Some (Inr ())
           else
             obind (read_record_kind (de_ext V) (de_cache V) (st_blobs st) (st_readers st) (ve_kind previous) (pt_schema parent)) (\<lambda>r.
             let old_record = with_id (pt_schema parent) (pc_id change) r in
             for_each (\<lambda>child_schema.
               for_each (check_dependents V st staged parent change old_record child_schema)
                 (filter (\<lambda>fk. fk_referenced_table fk = pt_name parent) (ts_foreign_keys child_schema)))
               (ca_tables (st_catalog st))))"

definition validate_foreign_keys :: "'j db_env \<Rightarrow> 'j db_state \<Rightarrow> 'j prepared_table list \<Rightarrow> unit result option" where
  "validate_foreign_keys V st staged =
     (if \<not> list_ex (\<lambda>schema. ts_foreign_keys schema \<noteq> []) (ca_tables (st_catalog st)) then Some (Inr ())
      else
        obind (for_each (\<lambda>t.
            for_each (\<lambda>change.
              case pc_operation change of
                None \<Rightarrow> Some (Inr ())
              | Some record \<Rightarrow> for_each (check_child V st staged t record) (ts_foreign_keys (pt_schema t)))
              (pt_changes t)) staged) (\<lambda>_.
        for_each (\<lambda>parent.
          if \<not> list_ex (\<lambda>child. list_ex (\<lambda>fk. fk_referenced_table fk = pt_name parent) (ts_foreign_keys child)) (ca_tables (st_catalog st))
          then Some (Inr ())
          else for_each (check_parent V st staged parent) (pt_changes parent)) staged))"

section \<open>Loops\<close>

lemma obind_simps [simp]:
  "obind None f = None" "obind (Some (Inl err)) f = Some (Inl err)" "obind (Some (Inr x)) f = f x"
  by (simp_all add: obind_def)

lemma obind_ok: "obind m f = Some (Inr y) \<longleftrightarrow> (\<exists>x. m = Some (Inr x) \<and> f x = Some (Inr y))"
  by (simp add: obind_def split: option.split sum.split)

lemma obind_unit: "obind m f = Some (Inr y) \<longleftrightarrow> m = Some (Inr ()) \<and> f () = Some (Inr y)"
  by (simp add: obind_ok)

lemma obind_assoc: "obind (obind m f) g = obind m (\<lambda>x. obind (f x) g)"
  by (simp add: obind_def split: option.split sum.split)

lemma obind_cong: "(\<And>x. m = Some (Inr x) \<Longrightarrow> f x = g x) \<Longrightarrow> obind m f = obind m g"
  by (simp add: obind_def split: option.split sum.split)

lemma for_loop_append: "for_loop f (xs @ ys) s = obind (for_loop f xs s) (for_loop f ys)"
  by (induction xs arbitrary: s) (auto simp: obind_assoc intro: obind_cong)

lemma for_loop_concat: "for_loop (\<lambda>s xs. for_loop f xs s) xss s = for_loop f (concat xss) s"
  by (induction xss arbitrary: s) (auto simp: for_loop_append intro: obind_cong)

lemma for_loop_map: "for_loop f (map g xs) s = for_loop (\<lambda>s x. f s (g x)) xs s"
  by (induction xs arbitrary: s) (auto intro: obind_cong)

lemma for_each_ok: "for_each f xs = Some (Inr ()) \<longleftrightarrow> (\<forall>x \<in> set xs. f x = Some (Inr ()))"
  by (induction xs) (auto simp: obind_ok)

section \<open>The rows after the commit\<close>

definition final_row :: "'j db_env \<Rightarrow> 'j db_state \<Rightarrow> 'j prepared_table list \<Rightarrow> string \<Rightarrow> string \<Rightarrow> 'j row option" where
  "final_row V st staged tname rid = (case final_record V st staged tname rid of Some (Inr r) \<Rightarrow> r | _ \<Rightarrow> None)"

lemma final_row_Some: "final_row V st staged t rid = Some r \<longleftrightarrow> final_record V st staged t rid = Some (Inr (Some r))"
  by (simp add: final_row_def split: option.split sum.split)

text \<open>What a transaction stages: tables of the catalog, each once, with its changes in order of ids.\<close>

definition staged_ok :: "'j db_state \<Rightarrow> 'j prepared_table list \<Rightarrow> bool" where
  "staged_ok st staged \<longleftrightarrow> distinct (map pt_name staged)
     \<and> (\<forall>p \<in> set staged. table (st_catalog st) (pt_name p) = Some (pt_schema p) \<and> sorted_wrt (<) (map pc_id (pt_changes p))
         \<and> (\<forall>c \<in> set (pt_changes p). rust_str (pc_id c) \<and> (\<forall>r. pc_operation c = Some r \<longrightarrow> wf_row r)))"

lemma staged_ok_Nil [simp]: "staged_ok st []"
  by (simp add: staged_ok_def)

lemma find_prepared_Nil [simp]: "find_prepared_change [] t rid = None"
  by (simp add: find_prepared_change_def)

lemma find_by_name:
  assumes "distinct (map f xs)"
  shows "find (\<lambda>x. f x = k) xs = Some x \<longleftrightarrow> x \<in> set xs \<and> f x = k"
  using assms by (induction xs) auto

lemma binary_search_changes:
  assumes "sorted_wrt (<) (map pc_id cs)"
  shows "(case binary_search rid (map (\<lambda>c. (pc_id c, c)) cs) of Inr i \<Rightarrow> Some (cs ! i) | Inl _ \<Rightarrow> None) = Some c
    \<longleftrightarrow> c \<in> set cs \<and> pc_id c = rid"
  using assms
proof (induction cs)
  case Nil
  then show ?case by (simp add: binary_search_Nil)
next
  case (Cons d ds)
  have later: "pc_id d < pc_id e" if "e \<in> set ds" for e using Cons.prems that by auto
  consider "pc_id d < rid" | "pc_id d = rid" | "rid < pc_id d" by fastforce
  then show ?case
  proof cases
    case 1
    then have "(case binary_search rid (map (\<lambda>c. (pc_id c, c)) (d # ds)) of Inr i \<Rightarrow> Some ((d # ds) ! i) | Inl _ \<Rightarrow> None)
        = (case binary_search rid (map (\<lambda>c. (pc_id c, c)) ds) of Inr i \<Rightarrow> Some (ds ! i) | Inl _ \<Rightarrow> None)"
      by (simp add: binary_search_Cons split: sum.split)
    with 1 Cons show ?thesis by auto
  next
    case 2
    then show ?thesis using later [of c] by (auto simp: binary_search_Cons)
  next
    case 3
    then show ?thesis using later by (force simp: binary_search_Cons)
  qed
qed

lemma find_prepared_change_iff:
  assumes "staged_ok st staged"
  shows "find_prepared_change staged t rid = Some c \<longleftrightarrow> (\<exists>p \<in> set staged. pt_name p = t \<and> c \<in> set (pt_changes p) \<and> pc_id c = rid)"
proof (cases "find (\<lambda>p. pt_name p = t) staged")
  case None
  then have "pt_name p \<noteq> t" if "p \<in> set staged" for p using that by (auto simp: find_None_iff)
  with None show ?thesis by (auto simp: find_prepared_change_def)
next
  case (Some p)
  have "distinct (map pt_name staged)" using assms by (simp add: staged_ok_def)
  note named = find_by_name [OF this, of t]
  have p: "p \<in> set staged" "pt_name p = t" using Some named by blast+
  have same: "p' = p" if "p' \<in> set staged" "pt_name p' = t" for p' using Some named [of p'] that by simp
  from p assms have "sorted_wrt (<) (map pc_id (pt_changes p))" by (simp add: staged_ok_def)
  from binary_search_changes [OF this, of rid c] have "find_prepared_change staged t rid = Some c \<longleftrightarrow> c \<in> set (pt_changes p) \<and> pc_id c = rid"
    by (simp add: find_prepared_change_def Some)
  with p same show ?thesis by blast
qed

lemma staged_keys_iff:
  assumes "staged_ok st staged"
  shows "(t, rid) \<in> staged_keys_of staged \<longleftrightarrow> find_prepared_change staged t rid \<noteq> None"
  using find_prepared_change_iff [OF assms, of t rid] by (fastforce simp: staged_keys_of_def)

lemma staged_change:
  assumes "staged_ok st staged" and "p \<in> set staged" and "c \<in> set (pt_changes p)"
  shows "find_prepared_change staged (pt_name p) (pc_id c) = Some c"
  using find_prepared_change_iff [OF assms(1)] assms(2,3) by blast

text \<open>A row after the commit is a staged one or one of the state that is not staged.\<close>

lemma final_row_staged:
  assumes "staged_ok st staged" and "p \<in> set staged" and "c \<in> set (pt_changes p)"
  shows "final_row V st staged (pt_name p) (pc_id c) = map_option (with_id (pt_schema p) (pc_id c)) (pc_operation c)"
  using assms staged_change [OF assms] by (auto simp: final_row_def final_record_def staged_ok_def)

lemma final_row_unstaged:
  assumes "find_prepared_change staged t rid = None"
  shows "final_row V st staged t rid = final_row V st [] t rid"
  using assms by (simp add: final_row_def final_record_def split: option.split)

lemma final_row_cases:
  assumes "staged_ok st staged" and "final_row V st staged t rid = Some r"
  obtains (staged) p c r0 where "p \<in> set staged" "pt_name p = t" "c \<in> set (pt_changes p)" "pc_id c = rid"
      "pc_operation c = Some r0" "r = with_id (pt_schema p) rid r0" "wf_row r0" "find_prepared_change staged t rid = Some c"
  | (unstaged) "find_prepared_change staged t rid = None" "final_row V st [] t rid = Some r"
proof (cases "find_prepared_change staged t rid")
  case None
  with assms(2) final_row_unstaged [OF None] unstaged show ?thesis by metis
next
  case (Some c)
  then obtain p where p: "p \<in> set staged" "pt_name p = t" "c \<in> set (pt_changes p)" "pc_id c = rid"
    using find_prepared_change_iff [OF assms(1)] by blast
  with final_row_staged [OF assms(1) p(1,3), of V] assms(2) obtain r0 where "pc_operation c = Some r0" "r = with_id (pt_schema p) rid r0"
    by (cases "pc_operation c") simp_all
  moreover from this p assms(1) have "wf_row r0" by (auto simp: staged_ok_def)
  ultimately show ?thesis using staged p Some by blast
qed

lemma row_get_with_id:
  assumes "wf_row r"
  shows "row_get (with_id schema rid r) n = (if has_implicit_id schema \<and> n = ID_COLUMN then Some (Text rid) else row_get r n)"
  using row_get_insert [OF assms] by (simp add: with_id_def)

section \<open>Index keys of rows\<close>

definition tuple_keys :: "'j ext \<Rightarrow> nat \<Rightarrow> bytes set" where
  "tuple_keys E n = {tuple_key E vs | vs. length vs = n \<and> list_all orderable vs}"

definition column_value :: "'j row \<Rightarrow> string \<Rightarrow> 'j value" where
  "column_value r c = (case row_get r c of Some v \<Rightarrow> v | None \<Rightarrow> Null)"

lemma secondary_tuple_key_values: "secondary_tuple_key E r cols = tuple_key E (map (column_value r) cols)"
  by (simp add: secondary_tuple_key_def tuple_key_def column_value_def comp_def)

lemma tuple_key_prefix:
  "length vs = length ws \<Longrightarrow> list_all orderable vs \<Longrightarrow> list_all orderable ws \<Longrightarrow>
     tuple_key E vs @ x = tuple_key E ws @ y \<Longrightarrow> tuple_key E vs = tuple_key E ws"
proof (induction vs ws arbitrary: x y rule: list_induct2)
  case (Cons v vs w ws)
  from Cons.prems have "value_eq E v w" "tuple_key E vs @ x = tuple_key E ws @ y"
    using encode_index_prefix_free [of v w E "tuple_key E vs @ x" "tuple_key E ws @ y"] by simp_all
  moreover from this(2) Cons have "tuple_key E vs = tuple_key E ws" by simp
  ultimately show ?case using Cons.prems by (simp add: encode_index_eq_iff)
qed simp

lemma tuple_keys_prefix_free [simp]: "prefix_free (tuple_keys E n)"
  by (auto simp: prefix_free_def tuple_keys_def) (metis tuple_key_prefix)

definition orderable_row :: "'j row \<Rightarrow> string list \<Rightarrow> bool" where
  "orderable_row r cols \<longleftrightarrow> list_all (\<lambda>c. orderable (column_value r c)) cols"

lemma secondary_key_in: "orderable_row r cols \<Longrightarrow> secondary_tuple_key E r cols \<in> tuple_keys E (length cols)"
  by (auto simp: secondary_tuple_key_values tuple_keys_def orderable_row_def list_all_iff intro!: exI [of _ "map (column_value r) cols"])

definition same_values :: "'j ext \<Rightarrow> string list \<Rightarrow> 'j row \<Rightarrow> 'j row \<Rightarrow> bool" where
  "same_values E cols r s \<longleftrightarrow> list_all (\<lambda>c. value_eq E (column_value r c) (column_value s c)) cols"

lemma same_key_iff:
  "orderable_row r cols \<Longrightarrow> orderable_row s cols \<Longrightarrow> secondary_tuple_key E r cols = secondary_tuple_key E s cols \<longleftrightarrow> same_values E cols r s"
  by (induction cols) (simp_all add: secondary_tuple_key_values orderable_row_def same_values_def encode_index_prefix_free tuple_key_eq_iff list_all_iff)

lemma value_eq_null: "value_eq E v w \<Longrightarrow> is_null v \<longleftrightarrow> is_null w"
  by (cases v; cases w) (simp_all add: value_eq_def is_null_def)

lemma has_null_values: "secondary_key_has_null r cols \<longleftrightarrow> list_ex (\<lambda>c. is_null (column_value r c)) cols"
  by (simp add: secondary_key_has_null_def column_value_def is_null_def list_ex_iff split: option.split)

lemma same_values_null: "same_values E cols r s \<Longrightarrow> secondary_key_has_null r cols \<longleftrightarrow> secondary_key_has_null s cols"
  unfolding has_null_values same_values_def list_ex_iff list_all_iff using value_eq_null by blast

lemma value_eq_trans:
  "orderable u \<Longrightarrow> orderable v \<Longrightarrow> orderable w \<Longrightarrow> value_eq E u v \<Longrightarrow> value_eq E v w \<Longrightarrow> value_eq E u w"
  by (metis encode_index_eq_iff)

lemma value_eq_sym: "orderable u \<Longrightarrow> orderable v \<Longrightarrow> value_eq E u v \<longleftrightarrow> value_eq E v u"
  by (metis encode_index_eq_iff)

section \<open>Exact indexes\<close>

text \<open>An index holds the key of every row of the state, and nothing else.\<close>

definition index_exact :: "'j db_env \<Rightarrow> 'j db_state \<Rightarrow> string \<Rightarrow> string list \<Rightarrow> sec_idx \<Rightarrow> bool" where
  "index_exact V st t cols si \<longleftrightarrow> sec_ok (crc32 (de_ext V)) (tuple_keys (de_ext V) (length cols)) si
     \<and> (\<forall>key rid. sec_live (crc32 (de_ext V)) si key rid
          \<longleftrightarrow> (\<exists>r. final_row V st [] t rid = Some r \<and> secondary_tuple_key (de_ext V) r cols = key))
     \<and> (\<forall>key. card (live_ids (crc32 (de_ext V)) si key None) < usize_limit)"

definition short_names :: "string list \<Rightarrow> bool" where
  "short_names cols \<longleftrightarrow> length cols < 2 ^ 32 \<and> list_all (\<lambda>c. length c < 2 ^ 32) cols"

definition indexes_exact :: "'j db_env \<Rightarrow> 'j db_state \<Rightarrow> bool" where
  "indexes_exact V st \<longleftrightarrow> (\<forall>t cols si. map_of (st_secondary st) (t, secondary_index_id cols) = Some si \<longrightarrow> short_names cols \<longrightarrow> index_exact V st t cols si)"

text \<open>The indexed values are of types with an order; vectors and documents are not indexed.\<close>

definition indexable :: "'j db_env \<Rightarrow> 'j db_state \<Rightarrow> 'j prepared_table list \<Rightarrow> bool" where
  "indexable V st staged \<longleftrightarrow> (\<forall>t schema def rid r. table (st_catalog st) t = Some schema \<longrightarrow> def \<in> set (ts_indexes schema)
     \<longrightarrow> final_row V st staged t rid = Some r \<longrightarrow> orderable_row r (ix_columns def))"

lemma sec_ids_exact:
  assumes "index_exact V st t cols si" and "key \<in> tuple_keys (de_ext V) (length cols)"
  shows "sec_ids (crc32 (de_ext V)) si key = Some (Inr holders)
    \<longleftrightarrow> holders = sorted_list_of_set {rid. \<exists>r. final_row V st [] t rid = Some r \<and> secondary_tuple_key (de_ext V) r cols = key}"
    and "finite {rid. \<exists>r. final_row V st [] t rid = Some r \<and> secondary_tuple_key (de_ext V) r cols = key}"
proof -
  let ?c = "crc32 (de_ext V)"
  have ids: "live_ids ?c si key None = {rid. \<exists>r. final_row V st [] t rid = Some r \<and> secondary_tuple_key (de_ext V) r cols = key}"
    using assms(1) by (auto simp: index_exact_def live_ids_def)
  have ok: "sec_ok ?c (tuple_keys (de_ext V) (length cols)) si" and "card (live_ids ?c si key None) < usize_limit"
    using assms(1) by (auto simp: index_exact_def)
  then have "length (sorted_list_of_set (live_ids ?c si key None)) \<le> usize_limit - 1" by simp
  with ids_batch_exact(1) [OF ok tuple_keys_prefix_free assms(2), of None "usize_limit - 1"]
    ids_batch_exact(2) [OF ok tuple_keys_prefix_free assms(2), of None]
  show "sec_ids ?c si key = Some (Inr holders) \<longleftrightarrow>
      holders = sorted_list_of_set {rid. \<exists>r. final_row V st [] t rid = Some r \<and> secondary_tuple_key (de_ext V) r cols = key}"
    and "finite {rid. \<exists>r. final_row V st [] t rid = Some r \<and> secondary_tuple_key (de_ext V) r cols = key}"
    by (auto simp: sec_ids_def ids)
qed

section \<open>Unique indexes are kept\<close>

definition unique_holds :: "'j db_env \<Rightarrow> 'j db_state \<Rightarrow> 'j prepared_table list \<Rightarrow> bool" where
  "unique_holds V st staged \<longleftrightarrow> (\<forall>t schema def a b r s. table (st_catalog st) t = Some schema \<longrightarrow> def \<in> set (ts_indexes schema) \<longrightarrow> ix_unique def
     \<longrightarrow> final_row V st staged t a = Some r \<longrightarrow> final_row V st staged t b = Some s \<longrightarrow> \<not> secondary_key_has_null r (ix_columns def)
     \<longrightarrow> same_values (de_ext V) (ix_columns def) r s \<longrightarrow> a = b)"

type_synonym 'j obligation = "'j prepared_table \<times> 'j prepared_change \<times> 'j row \<times> index_def"

definition obligations :: "'j prepared_table list \<Rightarrow> 'j obligation list" where
  "obligations staged = concat (map (\<lambda>t. concat (map (\<lambda>c.
     case pc_operation c of None \<Rightarrow> [] | Some r \<Rightarrow> map (\<lambda>d. (t, c, r, d)) (ts_indexes (pt_schema t))) (pt_changes t))) staged)"

definition slot :: "'j db_env \<Rightarrow> 'j obligation \<Rightarrow> string \<times> string \<times> bytes" where
  "slot V = (\<lambda>(t, c, r, d). (pt_name t, secondary_index_id (ix_columns d), secondary_tuple_key (de_ext V) r (ix_columns d)))"

definition due :: "'j obligation \<Rightarrow> bool" where
  "due = (\<lambda>(t, c, r, d). ix_unique d \<and> \<not> secondary_key_has_null r (ix_columns d))"

definition unclaimed :: "'j db_env \<Rightarrow> 'j db_state \<Rightarrow> (string \<times> string) set \<Rightarrow> 'j obligation \<Rightarrow> bool" where
  "unclaimed V st keys = (\<lambda>(t, c, r, d). \<exists>si holders. map_of (st_secondary st) (secondary_index_key (pt_name t) d) = Some si
     \<and> sec_ids (crc32 (de_ext V)) si (secondary_tuple_key (de_ext V) r (ix_columns d)) = Some (Inr holders)
     \<and> (\<forall>h \<in> set holders. h = pc_id c \<or> (pt_name t, h) \<in> keys))"

abbreviation check_obligation where
  "check_obligation V st keys \<equiv> (\<lambda>s (t, c, r, d). check_unique_key V st keys t c r s d)"

lemma set_obligations:
  "(t, c, r, d) \<in> set (obligations staged) \<longleftrightarrow> t \<in> set staged \<and> c \<in> set (pt_changes t) \<and> pc_operation c = Some r \<and> d \<in> set (ts_indexes (pt_schema t))"
  by (force simp: obligations_def split: option.splits)

lemma validate_unique_loop:
  "validate_unique V st staged = Some (Inr ()) \<Longrightarrow> list_ex (\<lambda>schema. list_ex ix_unique (ts_indexes schema)) (ca_tables (st_catalog st)) \<Longrightarrow>
     \<exists>s. for_loop (check_obligation V st (staged_keys_of staged)) (obligations staged) Map.empty = Some (Inr s)"
proof -
  let ?K = "staged_keys_of staged"
  have row: "(case pc_operation c of None \<Rightarrow> Some (Inr s) | Some r \<Rightarrow> for_loop (check_unique_key V st ?K t c r) (ts_indexes (pt_schema t)) s)
      = for_loop (check_obligation V st ?K) (case pc_operation c of None \<Rightarrow> [] | Some r \<Rightarrow> map (\<lambda>d. (t, c, r, d)) (ts_indexes (pt_schema t))) s" for s t c
    by (simp add: for_loop_map split: option.split)
  assume "validate_unique V st staged = Some (Inr ())" "list_ex (\<lambda>schema. list_ex ix_unique (ts_indexes schema)) (ca_tables (st_catalog st))"
  then show ?thesis
    by (auto simp: validate_unique_def obind_ok row obligations_def for_loop_concat [symmetric] for_loop_map)
qed

lemma check_obligation_ok:
  assumes "check_obligation V st keys s x = Some (Inr s')"
  shows "\<not> due x \<and> s' = s \<or> due x \<and> (s (slot V x) = None \<or> s (slot V x) = Some (pc_id (fst (snd x))))
    \<and> s' = s(slot V x \<mapsto> pc_id (fst (snd x))) \<and> unclaimed V st keys x"
  using assms
  by (cases x) (auto simp: check_unique_key_def Let_def obind_ok for_each_ok due_def slot_def unclaimed_def split: if_splits option.splits)

lemma obligations_met:
  "for_loop (check_obligation V st keys) xs s = Some (Inr s') \<Longrightarrow>
     (\<forall>k i. s k = Some i \<longrightarrow> s' k = Some i) \<and> (\<forall>x \<in> set xs. due x \<longrightarrow> s' (slot V x) = Some (pc_id (fst (snd x))) \<and> unclaimed V st keys x)"
proof (induction xs arbitrary: s)
  case (Cons x xs)
  then obtain s1 where s1: "check_obligation V st keys s x = Some (Inr s1)" "for_loop (check_obligation V st keys) xs s1 = Some (Inr s')"
    by (auto simp: obind_ok)
  note later = Cons.IH [OF s1(2)]
  show ?case
  proof (cases "due x")
    case False
    with check_obligation_ok [OF s1(1)] later show ?thesis by simp
  next
    case True
    with check_obligation_ok [OF s1(1)] have x: "s (slot V x) = None \<or> s (slot V x) = Some (pc_id (fst (snd x)))"
      "s1 = s(slot V x \<mapsto> pc_id (fst (snd x)))" "unclaimed V st keys x" by blast+
    then have "s1 k = Some i" if "s k = Some i" for k i using that by auto
    then have "\<forall>k i. s k = Some i \<longrightarrow> s' k = Some i" using conjunct1 [OF later] by blast
    moreover have "s' (slot V x) = Some (pc_id (fst (snd x)))" using conjunct1 [OF later] x(2) by (metis fun_upd_same)
    ultimately show ?thesis using conjunct2 [OF later] x(3) unfolding set_simps ball_simps by blast
  qed
qed simp

lemma unique_loop_facts:
  assumes "validate_unique V st staged = Some (Inr ())" and "table (st_catalog st) t = Some schema"
    and "d \<in> set (ts_indexes schema)" and "ix_unique d"
  obtains s where "\<And>x. x \<in> set (obligations staged) \<Longrightarrow> due x \<Longrightarrow> s (slot V x) = Some (pc_id (fst (snd x))) \<and> unclaimed V st (staged_keys_of staged) x"
proof -
  have "schema \<in> set (ca_tables (st_catalog st))" using assms(2) by (auto simp: table_def dest: find_table)
  with assms(3,4) have "list_ex (\<lambda>schema. list_ex ix_unique (ts_indexes schema)) (ca_tables (st_catalog st))"
    by (auto simp: list_ex_iff)
  from validate_unique_loop [OF assms(1) this] obtain s
    where "for_loop (check_obligation V st (staged_keys_of staged)) (obligations staged) Map.empty = Some (Inr s)" by blast
  from conjunct2 [OF obligations_met [OF this]] that show ?thesis by blast
qed

lemma index_columns_named:
  assumes "validate_catalog S ca = Inr ()" and "table ca t = Some schema" and "d \<in> set (ts_indexes schema)"
  shows "c \<in> set (ix_columns d) \<Longrightarrow> column schema c \<noteq> None" and "short_names (ix_columns d)" and "ix_column d = hd (ix_columns d)" "ix_columns d \<noteq> []"
proof -
  have schema: "schema \<in> set (ca_tables ca)" using assms(2) by (auto simp: table_def dest: find_table)
  then have valid: "validate_table S schema = Inr ()" using validate_catalog_ok(2) [OF assms(1)] by blast
  then have ix: "validate_indexes schema (ts_indexes schema) = Inr ()" and cols: "validate_columns S [] (ts_columns schema) = Inr ()"
    and few: "length (ts_columns schema) \<le> MAX_STORED_COLUMNS"
    by (auto simp: validate_table_def result_dests)
  note d = validate_indexes_ok [OF ix assms(3)]
  then show named: "c \<in> set (ix_columns d) \<Longrightarrow> column schema c \<noteq> None" for c by blast
  show "ix_column d = hd (ix_columns d)" "ix_columns d \<noteq> []" using d by blast+
  have sub: "set (ix_columns d) \<subseteq> col_name ` set (ts_columns schema)"
    using named by (force simp: column_def find_Some_iff dest: nth_mem)
  have "length c < 2 ^ 32" if "c \<in> set (ix_columns d)" for c
    using that sub validate_columns_ok [OF cols] by (auto simp: list_all_iff fits_u16_def dest!: validate_column_ok(2) subsetD)
  moreover have "length (ix_columns d) \<le> length (ts_columns schema)"
    using d card_mono [OF _ sub] card_image_le [of "set (ts_columns schema)" col_name] card_length [of "ts_columns schema"]
    by (simp add: distinct_card)
  ultimately show "short_names (ix_columns d)" using few by (simp add: short_names_def list_all_iff)
qed

text \<open>The added id does not change the values of columns.\<close>

lemma column_value_with_id: "wf_row r \<Longrightarrow> column schema c \<noteq> None \<Longrightarrow> column_value (with_id schema rid r) c = column_value r c"
  by (auto simp: column_value_def row_get_with_id has_implicit_id_def)

lemma tuple_key_with_id:
  "wf_row r \<Longrightarrow> (\<And>c. c \<in> set cols \<Longrightarrow> column schema c \<noteq> None) \<Longrightarrow>
     secondary_tuple_key E (with_id schema rid r) cols = secondary_tuple_key E r cols
     \<and> secondary_key_has_null (with_id schema rid r) cols = secondary_key_has_null r cols"
  by (simp add: secondary_tuple_key_values has_null_values column_value_with_id list_ex_iff cong: map_cong)

lemma staged_obligation:
  assumes ok: "\<forall>p \<in> set staged. table (st_catalog st) (pt_name p) = Some (pt_schema p)" and cat: "validate_catalog S (st_catalog st) = Inr ()"
    and t: "table (st_catalog st) t = Some schema" "d \<in> set (ts_indexes schema)" "ix_unique d"
    and p: "p \<in> set staged" "pt_name p = t" "c \<in> set (pt_changes p)" "pc_operation c = Some r0" "wf_row r0"
    and null: "\<not> secondary_key_has_null (with_id (pt_schema p) (pc_id c) r0) (ix_columns d)"
  shows "(p, c, r0, d) \<in> set (obligations staged)" and "due (p, c, r0, d)"
    and "slot V (p, c, r0, d) = (t, secondary_index_id (ix_columns d), secondary_tuple_key (de_ext V) (with_id (pt_schema p) (pc_id c) r0) (ix_columns d))"
proof -
  have schema: "pt_schema p = schema" using ok p(1,2) t(1) by force
  show "(p, c, r0, d) \<in> set (obligations staged)" using p t(2) schema by (simp add: set_obligations)
  from tuple_key_with_id [OF p(5), of "ix_columns d" schema "de_ext V" "pc_id c"] index_columns_named(1) [OF cat t(1,2)]
  show "due (p, c, r0, d)" "slot V (p, c, r0, d) = (t, secondary_index_id (ix_columns d), secondary_tuple_key (de_ext V) (with_id (pt_schema p) (pc_id c) r0) (ix_columns d))"
    using null t(3) p(2) schema by (simp_all add: due_def slot_def)
qed

text \<open>A staged row and one that stays have different keys.\<close>

lemma holder_refused:
  assumes cat: "validate_catalog S (st_catalog st) = Inr ()" and exact: "indexes_exact V st"
    and t: "table (st_catalog st) t = Some schema" "d \<in> set (ts_indexes schema)"
    and free: "unclaimed V st (staged_keys_of staged) (p, c, r0, d)" "pt_name p = t"
    and key: "secondary_tuple_key (de_ext V) r0 (ix_columns d) = secondary_tuple_key (de_ext V) s (ix_columns d)"
    and s: "(t, b) \<notin> staged_keys_of staged" "final_row V st [] t b = Some s" "orderable_row s (ix_columns d)"
  shows "b = pc_id c"
proof -
  obtain si holders where si: "map_of (st_secondary st) (t, secondary_index_id (ix_columns d)) = Some si"
    "sec_ids (crc32 (de_ext V)) si (secondary_tuple_key (de_ext V) s (ix_columns d)) = Some (Inr holders)"
    "\<forall>h \<in> set holders. h = pc_id c \<or> (t, h) \<in> staged_keys_of staged"
    using free key by (auto simp: unclaimed_def secondary_index_key_def)
  from exact si(1) index_columns_named(2) [OF cat t] have "index_exact V st t (ix_columns d) si" by (simp add: indexes_exact_def)
  note ids = sec_ids_exact [OF this secondary_key_in [OF s(3)]]
  have "b \<in> set holders" unfolding iffD1 [OF ids(1) si(2)] set_sorted_list_of_set [OF ids(2)] using s(2) by blast
  with si(3) s(1) show ?thesis by blast
qed

text \<open>The rows after a commit, as far as the check of unique indexes sees them: a staged row or one that stays. The tables of
  several transactions may be staged at once.\<close>

definition rows_after :: "'j db_env \<Rightarrow> 'j db_state \<Rightarrow> 'j prepared_table list \<Rightarrow> (string \<Rightarrow> string \<Rightarrow> 'j row option) \<Rightarrow> bool" where
  "rows_after V st staged R \<longleftrightarrow> (\<forall>t rid r. R t rid = Some r \<longrightarrow>
     (\<exists>p \<in> set staged. \<exists>c \<in> set (pt_changes p). \<exists>r0. pt_name p = t \<and> pc_id c = rid \<and> pc_operation c = Some r0 \<and> r = with_id (pt_schema p) rid r0 \<and> wf_row r0)
     \<or> (t, rid) \<notin> staged_keys_of staged \<and> final_row V st [] t rid = Some r)"

definition unique_rows :: "'j db_env \<Rightarrow> 'j db_state \<Rightarrow> (string \<Rightarrow> string \<Rightarrow> 'j row option) \<Rightarrow> bool" where
  "unique_rows V st R \<longleftrightarrow> (\<forall>t schema def a b r s. table (st_catalog st) t = Some schema \<longrightarrow> def \<in> set (ts_indexes schema) \<longrightarrow> ix_unique def
     \<longrightarrow> R t a = Some r \<longrightarrow> R t b = Some s \<longrightarrow> \<not> secondary_key_has_null r (ix_columns def)
     \<longrightarrow> same_values (de_ext V) (ix_columns def) r s \<longrightarrow> a = b)"

lemma unique_rows_kept:
  assumes ok: "\<forall>p \<in> set staged. table (st_catalog st) (pt_name p) = Some (pt_schema p)" and R: "rows_after V st staged R"
    and cat: "validate_catalog S (st_catalog st) = Inr ()" and exact: "indexes_exact V st"
    and ord: "\<forall>t schema d rid r. table (st_catalog st) t = Some schema \<longrightarrow> d \<in> set (ts_indexes schema) \<longrightarrow> R t rid = Some r \<longrightarrow> orderable_row r (ix_columns d)"
    and now: "unique_rows V st (final_row V st [])" and valid: "validate_unique V st staged = Some (Inr ())"
  shows "unique_rows V st R"
  unfolding unique_rows_def
proof (intro allI impI)
  fix t schema d a b r s
  assume t: "table (st_catalog st) t = Some schema" "d \<in> set (ts_indexes schema)" "ix_unique d"
    and r: "R t a = Some r" and s: "R t b = Some s"
    and null: "\<not> secondary_key_has_null r (ix_columns d)" and same: "same_values (de_ext V) (ix_columns d) r s"
  have or: "orderable_row r (ix_columns d)" "orderable_row s (ix_columns d)" using ord t(1,2) r s by blast+
  have key: "secondary_tuple_key (de_ext V) r (ix_columns d) = secondary_tuple_key (de_ext V) s (ix_columns d)"
    using same_key_iff [OF or] same by blast
  have nulls: "\<not> secondary_key_has_null s (ix_columns d)" using same_values_null [OF same] null by blast
  obtain m where m: "\<And>x. x \<in> set (obligations staged) \<Longrightarrow> due x \<Longrightarrow> m (slot V x) = Some (pc_id (fst (snd x))) \<and> unclaimed V st (staged_keys_of staged) x"
    using unique_loop_facts [OF valid t] by blast
  let ?stays = "\<lambda>b s. (t, b) \<notin> staged_keys_of staged \<and> final_row V st [] t b = Some s"
  have cases: "m (t, secondary_index_id (ix_columns d), secondary_tuple_key (de_ext V) u (ix_columns d)) = Some i
      \<and> (\<forall>b s. ?stays b s \<longrightarrow> orderable_row s (ix_columns d)
           \<longrightarrow> secondary_tuple_key (de_ext V) u (ix_columns d) = secondary_tuple_key (de_ext V) s (ix_columns d) \<longrightarrow> b = i) \<or> ?stays i u"
    if u: "R t i = Some u" "\<not> secondary_key_has_null u (ix_columns d)" for i u
  proof (cases "?stays i u")
    case False
    with R u(1) obtain p c u0 where p: "p \<in> set staged" "pt_name p = t" "c \<in> set (pt_changes p)" "pc_id c = i" "pc_operation c = Some u0"
      "u = with_id (pt_schema p) i u0" "wf_row u0" unfolding rows_after_def by blast
    have n: "\<not> secondary_key_has_null (with_id (pt_schema p) (pc_id c) u0) (ix_columns d)" using u(2) p(4,6) by simp
    note ob = staged_obligation [OF ok cat t p(1,2,3,5,7) n]
    note facts = m [OF ob(1,2)]
    have "secondary_tuple_key (de_ext V) u0 (ix_columns d) = secondary_tuple_key (de_ext V) u (ix_columns d)"
      using ob(3) [of V] p(4,6) by (simp add: slot_def)
    with holder_refused [OF cat exact t(1,2) conjunct2 [OF facts] p(2)] facts ob(3) [of V] p(4,6) show ?thesis by simp
  qed simp
  show "a = b"
  proof (cases "?stays a r \<and> ?stays b s")
    case True
    with now t null same show ?thesis unfolding unique_rows_def by blast
  next
    case False
    with cases [OF r null] cases [OF s nulls] key or show ?thesis by (metis option.inject)
  qed
qed

lemma unique_holds_rows: "unique_holds V st staged \<longleftrightarrow> unique_rows V st (final_row V st staged)"
  by (simp add: unique_holds_def unique_rows_def)

lemma final_rows_after: "staged_ok st staged \<Longrightarrow> rows_after V st staged (final_row V st staged)"
  unfolding rows_after_def
proof (intro allI impI)
  fix t rid r
  assume ok: "staged_ok st staged" and r: "final_row V st staged t rid = Some r"
  then show "(\<exists>p \<in> set staged. \<exists>c \<in> set (pt_changes p). \<exists>r0. pt_name p = t \<and> pc_id c = rid \<and> pc_operation c = Some r0 \<and> r = with_id (pt_schema p) rid r0 \<and> wf_row r0)
     \<or> (t, rid) \<notin> staged_keys_of staged \<and> final_row V st [] t rid = Some r"
  proof (cases rule: final_row_cases)
    case unstaged
    with staged_keys_iff [OF ok, of t rid] show ?thesis by simp
  qed blast
qed

lemma unique_kept:
  assumes "staged_ok st staged" and "validate_catalog S (st_catalog st) = Inr ()" and "indexes_exact V st"
    and "indexable V st staged" and "unique_holds V st []" and "validate_unique V st staged = Some (Inr ())"
  shows "unique_holds V st staged"
proof -
  have "\<forall>p \<in> set staged. table (st_catalog st) (pt_name p) = Some (pt_schema p)" using assms(1) by (simp add: staged_ok_def)
  from unique_rows_kept [OF this final_rows_after [OF assms(1)] assms(2,3) assms(4) [unfolded indexable_def] assms(5) [unfolded unique_holds_rows] assms(6)]
  show ?thesis by (simp add: unique_holds_rows)
qed

section \<open>Rows found by value\<close>

lemma final_ids_loop:
  assumes "for_loop (\<lambda>matching rid.
            obind (final_record V st staged t rid) (\<lambda>found.
              case found of
                Some r \<Rightarrow>
                  (case row_get r c of
                     Some w \<Rightarrow> Some (Inr (if value_eq (de_ext V) w v then insert rid matching else matching))
                   | None \<Rightarrow> Some (Inr matching))
              | None \<Rightarrow> Some (Inr matching))) ids M = Some (Inr M')"
  shows "M' = M \<union> {rid \<in> set ids. \<exists>r w. final_row V st staged t rid = Some r \<and> row_get r c = Some w \<and> value_eq (de_ext V) w v}"
  using assms
proof (induction ids arbitrary: M)
  case (Cons rid ids)
  then obtain found where found: "final_record V st staged t rid = Some (Inr found)" by (auto simp: obind_ok)
  show ?case
  proof (cases found)
    case None
    with found Cons show ?thesis by (auto simp: final_row_def)
  next
    case (Some r)
    with found have "final_row V st staged t rid = Some r" by (simp add: final_row_Some)
    with found Some Cons show ?thesis by (cases "row_get r c") (auto split: if_splits)
  qed
qed simp

lemma table_walk_ids:
  assumes "idx_ok crc idx" "table_fits t" "sorts_by_version us"
  shows "visit_table crc us (\<lambda>_. Inr ()) idx t None (\<lambda>ids rid _. Inr (ids @ [rid], True)) [] = Some (Inr (sorted_list_of_set (table_ids crc idx t)))"
proof -
  have rows: "visit_rows (\<lambda>v. v) (\<lambda>ids rid _. Inr (ids @ [rid], True)) rs ids = Inr (ids @ map fst rs)" for rs :: "(string \<times> version_list) list" and ids
    by (induction rs arbitrary: ids) auto
  show ?thesis
    using visit_table_exact [OF assms(1,2,3), of "\<lambda>_. Inr ()" None "\<lambda>ids rid _. Inr (ids @ [rid], True)" "[]"]
    by (simp add: rows comp_def beyond_def)
qed

lemma all_versions_table_ids:
  assumes ok: "idx_ok crc idx" and "all_versions crc idx t rid \<noteq> []"
  shows "rid \<in> table_ids crc idx t"
proof -
  have inv: "\<And>d. frozen_table idx t = Some d \<Longrightarrow> delta_inv d" "\<And>d. active_table idx t = Some d \<Longrightarrow> delta_inv d"
    using idx_ok_overlays [OF ok, of t] by (auto simp: delta_ok_def)
  have "k \<in> fst ` set (delta_iter d)" if "delta_inv d" "versions_of d k \<noteq> []" for d k
    using that delta_ids [OF that(1)] by (auto simp: versions_of_def split: option.splits)
  with assms(2) inv show ?thesis
    by (force simp: all_versions_def overlay_versions_def table_ids_def delta_versions_def delta_ids_def split: option.splits)
qed

lemma finite_table_ids: "idx_ok crc idx \<Longrightarrow> table_fits t \<Longrightarrow> finite (table_ids crc idx t)"
proof -
  assume "idx_ok crc idx" "table_fits t"
  from visit_table_merged(1) [OF this, of None, symmetric] have "finite {rid \<in> table_ids crc idx t. beyond None rid}"
    by (simp only:) (simp add: all_ids_def)
  then show ?thesis by (simp add: beyond_def)
qed

lemma latest_owned_versions:
  assumes "idx_ok (crc32 E) (st_index st)" and "latest_owned E st t rid = Inr (Some e)"
  shows "all_versions (crc32 E) (st_index st) t rid \<noteq> []"
  using newest_at_or_before_exact [OF assms(1), of t rid "- 1"] assms(2)
  by (auto simp: latest_owned_def result_dests opt_filter_def is_newest_def split: option.splits if_splits)

text \<open>A row of the state is the newest version of its id, read under its table.\<close>

lemma current_row:
  assumes "final_row V st [] t rid = Some r"
  obtains schema e r0 where "table (st_catalog st) t = Some schema" "latest_owned (de_ext V) st t rid = Inr (Some e)"
    "\<not> is_tombstone e" "ve_version e > ts_epoch schema"
    "read_record_kind (de_ext V) (de_cache V) (st_blobs st) (st_readers st) (ve_kind e) schema = Some (Inr r0)" "r = with_id schema rid r0"
proof -
  from assms obtain schema where schema: "table (st_catalog st) t = Some schema" by (cases "table (st_catalog st) t") (simp_all add: final_row_def final_record_def)
  with assms obtain latest where latest: "latest_owned (de_ext V) st t rid = Inr latest"
    by (cases "latest_owned (de_ext V) st t rid") (simp_all add: final_row_def final_record_def)
  show ?thesis
  proof (cases latest)
    case None
    with assms schema latest show ?thesis by (simp add: final_row_def final_record_def)
  next
    case (Some e)
    with assms schema latest have live: "\<not> is_tombstone e" "ve_version e > ts_epoch schema"
      by (auto simp: final_row_def final_record_def split: if_splits)
    with assms schema latest Some obtain r0 where
      "read_record_kind (de_ext V) (de_cache V) (st_blobs st) (st_readers st) (ve_kind e) schema = Some (Inr r0)" "r = with_id schema rid r0"
      by (auto simp: final_row_Some final_record_def obind_ok)
    with that schema latest Some live show ?thesis by blast
  qed
qed

definition rows_wf :: "'j db_env \<Rightarrow> 'j db_state \<Rightarrow> bool" where
  "rows_wf V st \<longleftrightarrow> (\<forall>t rid r. final_row V st [] t rid = Some r \<longrightarrow> wf_row r)"

lemma row_get_inserted:
  assumes "wf_row (fst (row_insert n v r))"
  shows "row_get (fst (row_insert n v r)) k = (if k = n then Some v else row_get r k)"
proof -
  have "wf_row r" using assms by (auto simp: row_insert_def wf_row_def split: option.splits)
  then show ?thesis by (rule row_get_insert)
qed

lemma row_get_final:
  assumes "wf_row (with_id schema rid r)"
  shows "row_get (with_id schema rid r) n = (if has_implicit_id schema \<and> n = ID_COLUMN then Some (Text rid) else row_get r n)"
  using assms row_get_inserted [of ID_COLUMN "Text rid" r n] by (auto simp: with_id_def split: if_splits)

definition matching_rows :: "'j db_env \<Rightarrow> 'j db_state \<Rightarrow> 'j prepared_table list \<Rightarrow> string \<Rightarrow> string \<Rightarrow> 'j value \<Rightarrow> string set" where
  "matching_rows V st staged t c v =
     {rid. \<exists>r w. final_row V st staged t rid = Some r \<and> row_get r c = Some w \<and> value_eq (de_ext V) w v}"

text \<open>The hypotheses under which reads of the state are exact.\<close>

definition state_sound :: "'j sys \<Rightarrow> 'j db_env \<Rightarrow> 'j db_state \<Rightarrow> bool" where
  "state_sound S V st \<longleftrightarrow> validate_catalog S (st_catalog st) = Inr () \<and> idx_ok (crc32 (de_ext V)) (st_index st) \<and> sorts_by_version (de_sort V)
     \<and> rows_wf V st \<and> indexes_exact V st \<and> indexable V st []"

lemma declared_table_fits:
  assumes "validate_catalog S ca = Inr ()" and "table ca t = Some schema"
  shows "table_fits t"
proof -
  have "schema \<in> set (ca_tables ca)" "ts_name schema = t" using assms(2) find_table by (auto simp: table_def)
  with validate_catalog_ok(2) [OF assms(1) this(1)] show ?thesis
    by (auto simp: table_fits_def validate_table_def result_dests validate_short_string_ok fits_u16_def)
qed

lemma current_candidate:
  assumes sound: "state_sound S V st" and ok: "staged_ok st staged"
    and t: "table (st_catalog st) t = Some schema" and c: "length c < 2 ^ 32"
    and un: "find_prepared_change staged t rid = None"
    and row: "final_row V st [] t rid = Some r" "row_get r c = Some w" "value_eq (de_ext V) w v" "orderable w" "orderable v"
    and ids: "(if c = ID_COLUMN \<and> has_implicit_id schema then Some (Inr (case v of Text rid \<Rightarrow> [rid] | _ \<Rightarrow> []))
       else (case map_of (st_secondary st) (single_secondary_index_key t c) of
          Some index \<Rightarrow> sec_ids (crc32 (de_ext V)) index (encode_index_value (de_ext V) v)
        | None \<Rightarrow> visit_table (crc32 (de_ext V)) (de_sort V) (\<lambda>_. Inr ()) (st_index st) t None (\<lambda>ids rid _. Inr (ids @ [rid], True)) []))
       = Some (Inr ids)"
  shows "rid \<in> set ids"
proof -
  let ?E = "de_ext V"
  obtain e r0 where cur: "latest_owned ?E st t rid = Inr (Some e)" "r = with_id schema rid r0"
    using current_row [OF row(1)] t by (metis option.inject)
  have wf: "wf_row r" using sound row(1) unfolding state_sound_def rows_wf_def by blast
  consider "c = ID_COLUMN" "has_implicit_id schema" | index where "\<not> (c = ID_COLUMN \<and> has_implicit_id schema)" "map_of (st_secondary st) (single_secondary_index_key t c) = Some index"
    | "\<not> (c = ID_COLUMN \<and> has_implicit_id schema)" "map_of (st_secondary st) (single_secondary_index_key t c) = None"
    by (cases "map_of (st_secondary st) (single_secondary_index_key t c)") auto
  then show ?thesis
  proof cases
    case 1
    with row cur(2) wf have "w = Text rid" by (simp add: row_get_final)
    with row(3) have "v = Text rid" by (cases v) (simp_all add: value_eq_def)
    with 1 ids show ?thesis by auto
  next
    case 2
    have exact: "index_exact V st t [c] index"
      using sound 2(2) c by (simp add: state_sound_def indexes_exact_def single_secondary_index_key_def short_names_def)
    have key: "encode_index_value ?E v = secondary_tuple_key ?E r [c]"
      using row(2-5) by (simp add: secondary_tuple_key_values column_value_def encode_index_eq_iff value_eq_sym [of v w])
    have "encode_index_value ?E v \<in> tuple_keys ?E (length [c])" using row(5) by (force simp: tuple_keys_def intro: exI [of _ "[v]"])
    note found = sec_ids_exact [OF exact this]
    from ids 2 have here: "sec_ids (crc32 ?E) index (encode_index_value ?E v) = Some (Inr ids)" by auto
    show ?thesis unfolding iffD1 [OF found(1) here] set_sorted_list_of_set [OF found(2)] using row(1) key by auto
  next
    case 3
    have "table_fits t" using sound declared_table_fits [OF _ t, of S] by (simp add: state_sound_def)
    moreover have "idx_ok (crc32 ?E) (st_index st)" "sorts_by_version (de_sort V)" using sound by (simp_all add: state_sound_def)
    ultimately have "set ids = table_ids (crc32 ?E) (st_index st) t" "rid \<in> table_ids (crc32 ?E) (st_index st) t"
      using ids 3 table_walk_ids [of "crc32 ?E" "st_index st" t "de_sort V"] finite_table_ids
        all_versions_table_ids [OF _ latest_owned_versions [OF _ cur(1)]] by auto
    then show ?thesis by simp
  qed
qed

definition column_orderable :: "'j db_env \<Rightarrow> 'j db_state \<Rightarrow> 'j prepared_table list \<Rightarrow> string \<Rightarrow> string \<Rightarrow> bool" where
  "column_orderable V st staged t c \<longleftrightarrow> (\<forall>rid r w. final_row V st staged t rid = Some r \<longrightarrow> row_get r c = Some w \<longrightarrow> orderable w)"

lemma column_orderableD: "column_orderable V st staged t c \<Longrightarrow> final_row V st staged t rid = Some r \<Longrightarrow> row_get r c = Some w \<Longrightarrow> orderable w"
  unfolding column_orderable_def by blast

lemma final_ids_exact:
  assumes sound: "state_sound S V st" and ok: "staged_ok st staged" and c: "length c < 2 ^ 32" and v: "orderable v"
    and ord: "column_orderable V st [] t c"
    and found: "final_ids_matching V st staged t c v = Some (Inr M)"
  shows "M = matching_rows V st staged t c v"
proof -
  from found obtain schema where t: "table (st_catalog st) t = Some schema"
    by (cases "table (st_catalog st) t") (simp_all add: final_ids_matching_def)
  let ?staged = "case find (\<lambda>p. pt_name p = t) staged of Some p \<Rightarrow> pc_id ` set (pt_changes p) | None \<Rightarrow> {}"
  from found t obtain ids where ids: "(if c = ID_COLUMN \<and> has_implicit_id schema then Some (Inr (case v of Text rid \<Rightarrow> [rid] | _ \<Rightarrow> []))
       else (case map_of (st_secondary st) (single_secondary_index_key t c) of
          Some index \<Rightarrow> sec_ids (crc32 (de_ext V)) index (encode_index_value (de_ext V) v)
        | None \<Rightarrow> visit_table (crc32 (de_ext V)) (de_sort V) (\<lambda>_. Inr ()) (st_index st) t None (\<lambda>ids rid _. Inr (ids @ [rid], True)) []))
       = Some (Inr ids)"
    and loop: "for_loop (\<lambda>matching rid.
            obind (final_record V st staged t rid) (\<lambda>found.
              case found of
                Some r \<Rightarrow>
                  (case row_get r c of
                     Some w \<Rightarrow> Some (Inr (if value_eq (de_ext V) w v then insert rid matching else matching))
                   | None \<Rightarrow> Some (Inr matching))
              | None \<Rightarrow> Some (Inr matching))) (sorted_list_of_set (set ids \<union> ?staged)) {} = Some (Inr M)"
    unfolding final_ids_matching_def obind_ok Let_def by (auto simp: obind_ok)
  have fin: "finite (set ids \<union> ?staged)" by (simp split: option.split)
  have M: "M = {rid \<in> set ids \<union> ?staged. \<exists>r w. final_row V st staged t rid = Some r \<and> row_get r c = Some w \<and> value_eq (de_ext V) w v}"
    using final_ids_loop [OF loop] by (simp only: set_sorted_list_of_set [OF fin] Un_empty_left)
  have "rid \<in> set ids \<union> ?staged" if "final_row V st staged t rid = Some r" "row_get r c = Some w" "value_eq (de_ext V) w v" for rid r w
    using ok that(1)
  proof (cases rule: final_row_cases)
    case (staged p ch r0)
    with find_by_name [of pt_name staged t p] ok have "find (\<lambda>p. pt_name p = t) staged = Some p" by (simp add: staged_ok_def)
    with staged show ?thesis by auto
  next
    case unstaged
    from current_candidate [OF sound ok t c unstaged that(2,3) column_orderableD [OF ord unstaged(2) that(2)] v ids] show ?thesis by blast
  qed
  then show ?thesis unfolding M matching_rows_def by blast
qed

section \<open>Foreign keys are kept\<close>

definition references_hold :: "'j db_env \<Rightarrow> 'j db_state \<Rightarrow> 'j prepared_table list \<Rightarrow> bool" where
  "references_hold V st staged \<longleftrightarrow> (\<forall>child fk rid r v. child \<in> set (ca_tables (st_catalog st)) \<longrightarrow> fk \<in> set (ts_foreign_keys child)
     \<longrightarrow> final_row V st staged (ts_name child) rid = Some r \<longrightarrow> row_get r (fk_column fk) = Some v \<longrightarrow> \<not> is_null v
     \<longrightarrow> matching_rows V st staged (fk_referenced_table fk) (fk_referenced_column fk) v \<noteq> {})"

lemma final_row_shape:
  assumes "final_row V st staged t rid = Some r" and "table (st_catalog st) t = Some schema"
  shows "\<exists>r0. r = with_id schema rid r0"
  using assms by (auto simp: final_row_Some final_record_def obind_ok split: option.splits if_splits)

lemma staged_wf_row:
  assumes "staged_ok st staged" and "rows_wf V st" and "final_row V st staged t rid = Some r"
  shows "wf_row r"
  using assms(1,3)
proof (cases rule: final_row_cases)
  case (staged p c r0)
  then show ?thesis using wf_row_insert [of r0] by (auto simp: with_id_def)
next
  case unstaged
  then show ?thesis using assms(2) unfolding rows_wf_def by blast
qed

lemma leading_orderable:
  assumes cat: "validate_catalog S (st_catalog st) = Inr ()" and ord: "indexable V st staged"
    and t: "table (st_catalog st) t = Some schema" "ix \<in> set (ts_indexes schema)" "hd (ix_columns ix) = c"
    and r: "final_row V st staged t rid = Some r" "row_get r c = Some w"
  shows "orderable w"
proof -
  have "orderable_row r (ix_columns ix)" using ord t(1,2) r(1) unfolding indexable_def by blast
  moreover have "c \<in> set (ix_columns ix)" using index_columns_named(4) [OF cat t(1,2)] t(3) by auto
  ultimately show ?thesis using r(2) by (auto simp: orderable_row_def list_all_iff column_value_def)
qed

text \<open>What the catalog says of a foreign key, and what follows for the values on both sides.\<close>

lemma foreign_key_facts:
  assumes cat: "validate_catalog S (st_catalog st) = Inr ()" and ord: "indexable V st staged"
    and wf: "\<forall>t rid r. final_row V st staged t rid = Some r \<longrightarrow> wf_row r"
    and fk: "child \<in> set (ca_tables (st_catalog st))" "fk \<in> set (ts_foreign_keys child)"
  shows "table (st_catalog st) (ts_name child) = Some child" and "column child (fk_column fk) \<noteq> None"
    and "length (fk_column fk) < 2 ^ 32" and "length (fk_referenced_column fk) < 2 ^ 32"
    and "column_orderable V st staged (ts_name child) (fk_column fk)"
    and "column_orderable V st staged (fk_referenced_table fk) (fk_referenced_column fk)"
proof -
  show child: "table (st_catalog st) (ts_name child) = Some child" by (rule table_of_validated [OF cat fk(1)])
  from foreign_key_of_validated [OF cat fk] obtain target c ix where target: "table (st_catalog st) (fk_referenced_table fk) = Some target"
    and col: "column child (fk_column fk) = Some c" "ix \<in> set (ts_indexes child)" "hd (ix_columns ix) = fk_column fk"
    and side: "if has_implicit_id target \<and> fk_referenced_column fk = ''id'' then col_ty c = Ty_Text
       else \<exists>rc. column target (fk_referenced_column fk) = Some rc \<and> col_ty rc = col_ty c
         \<and> (\<exists>ix \<in> set (ts_indexes target). hd (ix_columns ix) = fk_referenced_column fk \<and> ix_unique ix)" by blast
  have lead: "length (hd (ix_columns ix)) < 2 ^ 32" if "table (st_catalog st) t = Some schema" "ix \<in> set (ts_indexes schema)" for t schema ix
    using index_columns_named(2,4) [OF cat that] by (cases "ix_columns ix") (auto simp: short_names_def)
  show "column child (fk_column fk) \<noteq> None" using col by simp
  show "length (fk_column fk) < 2 ^ 32" using lead [OF child col(2)] col(3) by simp
  show "column_orderable V st staged (ts_name child) (fk_column fk)"
    unfolding column_orderable_def using leading_orderable [OF cat ord child col(2,3)] by blast
  show "length (fk_referenced_column fk) < 2 ^ 32"
  proof (cases "has_implicit_id target \<and> fk_referenced_column fk = ''id''")
    case False
    with side obtain ix where "ix \<in> set (ts_indexes target)" "hd (ix_columns ix) = fk_referenced_column fk" by auto
    with lead [OF target this(1)] show ?thesis by simp
  qed simp
  have "orderable w" if row: "final_row V st staged (fk_referenced_table fk) rid = Some r" "row_get r (fk_referenced_column fk) = Some w" for rid r w
  proof (cases "has_implicit_id target \<and> fk_referenced_column fk = ''id''")
    case True
    from final_row_shape [OF row(1) target] obtain r0 where "r = with_id target rid r0" by blast
    with spec [OF spec [OF spec [OF wf]]] row True have "w = Text rid" by (simp add: row_get_final)
    then show ?thesis by (simp add: orderable_def)
  next
    case False
    with side leading_orderable [OF cat ord target _ _ row] show ?thesis by auto
  qed
  then show "column_orderable V st staged (fk_referenced_table fk) (fk_referenced_column fk)" unfolding column_orderable_def by blast
qed

lemma matching_trans:
  assumes "value_eq E w v" "orderable w" "orderable v" "E = de_ext V"
    and "column_orderable V st staged t c"
  shows "matching_rows V st staged t c w \<subseteq> matching_rows V st staged t c v"
proof
  fix rid
  assume "rid \<in> matching_rows V st staged t c w"
  then obtain r u where u: "final_row V st staged t rid = Some r" "row_get r c = Some u" "value_eq (de_ext V) u w" by (auto simp: matching_rows_def)
  with value_eq_trans [OF column_orderableD [OF assms(5) u(1,2)] assms(2,3)] assms(1,4) show "rid \<in> matching_rows V st staged t c v" by (auto simp: matching_rows_def)
qed

lemma validate_foreign_keys_ok:
  assumes "validate_foreign_keys V st staged = Some (Inr ())" and fk: "child \<in> set (ca_tables (st_catalog st))" "fk \<in> set (ts_foreign_keys child)"
  shows "p \<in> set staged \<Longrightarrow> c \<in> set (pt_changes p) \<Longrightarrow> pc_operation c = Some r \<Longrightarrow> k \<in> set (ts_foreign_keys (pt_schema p)) \<Longrightarrow> check_child V st staged p r k = Some (Inr ())"
    and "p \<in> set staged \<Longrightarrow> pt_name p = fk_referenced_table fk \<Longrightarrow> c \<in> set (pt_changes p) \<Longrightarrow> check_parent V st staged p c = Some (Inr ())"
proof -
  have "list_ex (\<lambda>schema. ts_foreign_keys schema \<noteq> []) (ca_tables (st_catalog st))" using fk by (force simp: list_ex_iff)
  with assms(1) have ok: "\<forall>t \<in> set staged. for_each (\<lambda>change. case pc_operation change of None \<Rightarrow> Some (Inr ())
        | Some record \<Rightarrow> for_each (check_child V st staged t record) (ts_foreign_keys (pt_schema t))) (pt_changes t) = Some (Inr ())"
    "\<forall>parent \<in> set staged. (if \<not> list_ex (\<lambda>child. list_ex (\<lambda>fk. fk_referenced_table fk = pt_name parent) (ts_foreign_keys child)) (ca_tables (st_catalog st))
        then Some (Inr ()) else for_each (check_parent V st staged parent) (pt_changes parent)) = Some (Inr ())"
    unfolding validate_foreign_keys_def by (simp_all only: not_not if_False not_True_eq_False obind_unit) (simp_all only: for_each_ok, blast+)
  show "check_child V st staged p r k = Some (Inr ())"
    if "p \<in> set staged" "c \<in> set (pt_changes p)" "pc_operation c = Some r" "k \<in> set (ts_foreign_keys (pt_schema p))"
  proof -
    from bspec [OF iffD1 [OF for_each_ok bspec [OF ok(1) that(1)]] that(2)] that(3)
    have "for_each (check_child V st staged p r) (ts_foreign_keys (pt_schema p)) = Some (Inr ())" by simp
    with that(4) show ?thesis by (simp add: for_each_ok)
  qed
  show "check_parent V st staged p c = Some (Inr ())" if "p \<in> set staged" "pt_name p = fk_referenced_table fk" "c \<in> set (pt_changes p)"
  proof -
    have "list_ex (\<lambda>child. list_ex (\<lambda>fk. fk_referenced_table fk = pt_name p) (ts_foreign_keys child)) (ca_tables (st_catalog st))"
      using fk that(2) by (auto simp: list_ex_iff)
    with bspec [OF ok(2) that(1)] that(3) show ?thesis by (simp add: for_each_ok)
  qed
qed

text \<open>The row that was referenced, replaced or deleted by the transaction: a parent remains.\<close>

lemma staged_parent_remains:
  assumes sound: "state_sound S V st" and ok: "staged_ok st staged" and ord: "indexable V st staged"
    and fk: "child \<in> set (ca_tables (st_catalog st))" "fk \<in> set (ts_foreign_keys child)"
    and row: "final_row V st staged (ts_name child) rid = Some r" "row_get r (fk_column fk) = Some v" "\<not> is_null v"
    and parent: "final_row V st [] (fk_referenced_table fk) (pc_id c) = Some pr" "row_get pr (fk_referenced_column fk) = Some w" "value_eq (de_ext V) w v"
    and p: "p \<in> set staged" "pt_name p = fk_referenced_table fk" "c \<in> set (pt_changes p)" "check_parent V st staged p c = Some (Inr ())"
  shows "matching_rows V st staged (fk_referenced_table fk) (fk_referenced_column fk) v \<noteq> {}"
proof -
  have cat: "validate_catalog S (st_catalog st) = Inr ()" and now: "indexable V st []" and wf: "rows_wf V st" using sound by (simp_all add: state_sound_def)
  note wfs = staged_wf_row [OF ok wf]
  note old = foreign_key_facts [OF cat now wf [unfolded rows_wf_def] fk]
  have "\<forall>t rid r. final_row V st staged t rid = Some r \<longrightarrow> wf_row r" using wfs by blast
  note new = foreign_key_facts [OF cat ord this fk]
  have ords: "orderable v" "orderable w" using column_orderableD [OF new(5) row(1,2)] column_orderableD [OF old(6) parent(1,2)] by blast+
  obtain e r1 where pr: "latest_owned (de_ext V) st (pt_name p) (pc_id c) = Inr (Some e)" "\<not> is_tombstone e" "ve_version e > ts_epoch (pt_schema p)"
    "read_record_kind (de_ext V) (de_cache V) (st_blobs st) (st_readers st) (ve_kind e) (pt_schema p) = Some (Inr r1)" "pr = with_id (pt_schema p) (pc_id c) r1"
    using current_row [OF parent(1)] ok p(1,2) unfolding staged_ok_def by (metis option.inject)
  have "check_dependents V st staged p c pr child fk = Some (Inr ())"
    using p(4) pr(1-5) fk p(2) by (simp add: check_parent_def not_le [symmetric] for_each_ok)
  note dep = this [unfolded check_dependents_def parent(2) option.case]
  have nn: "\<not> is_null w" using value_eq_null [OF parent(3)] row(3) by blast
  show ?thesis
  proof (cases "\<exists>rec. pc_operation c = Some rec \<and> ((has_implicit_id (pt_schema p) \<and> fk_referenced_column fk = ID_COLUMN)
      \<or> (\<exists>u. row_get rec (fk_referenced_column fk) = Some u \<and> value_eq (de_ext V) u w))")
    case True
    then obtain rec where rec: "pc_operation c = Some rec" "(has_implicit_id (pt_schema p) \<and> fk_referenced_column fk = ID_COLUMN)
      \<or> (\<exists>u. row_get rec (fk_referenced_column fk) = Some u \<and> value_eq (de_ext V) u w)" by blast
    have final: "final_row V st staged (fk_referenced_table fk) (pc_id c) = Some (with_id (pt_schema p) (pc_id c) rec)"
      using final_row_staged [OF ok p(1,3), of V] rec(1) p(2) by simp
    have "wf_row pr" using wf parent(1) unfolding rows_wf_def by blast
    with pr(5) parent(2) have "has_implicit_id (pt_schema p) \<and> fk_referenced_column fk = ID_COLUMN \<Longrightarrow> w = Text (pc_id c)"
      by (simp add: row_get_final)
    then obtain u where u: "row_get (with_id (pt_schema p) (pc_id c) rec) (fk_referenced_column fk) = Some u" "u = w \<or> value_eq (de_ext V) u w"
      using rec(2) row_get_final [OF wfs [OF final], of "fk_referenced_column fk"]
      by (cases "has_implicit_id (pt_schema p) \<and> fk_referenced_column fk = ID_COLUMN") auto
    have "value_eq (de_ext V) u v" using u(2) value_eq_trans [OF column_orderableD [OF new(6) final u(1)] ords(2,1)] parent(3) by blast
    with final u(1) show ?thesis unfolding matching_rows_def by blast
  next
    case False
    then have "\<not> (case pc_operation c of None \<Rightarrow> False | Some record \<Rightarrow> (has_implicit_id (pt_schema p) \<and> fk_referenced_column fk = ID_COLUMN)
        \<or> (case row_get record (fk_referenced_column fk) of Some u \<Rightarrow> value_eq (de_ext V) u w | None \<Rightarrow> False))"
      by (auto split: option.splits)
    note dep' = dep [unfolded if_not_P [OF this] if_not_P [OF nn]]
    then obtain M where M: "final_ids_matching V st staged (pt_name p) (fk_referenced_column fk) w = Some (Inr M)" by (auto simp: obind_ok)
    from final_ids_exact [OF sound ok old(4) ords(2) old(6) M [unfolded p(2)]] have parents: "M = matching_rows V st staged (fk_referenced_table fk) (fk_referenced_column fk) w" .
    show ?thesis
    proof (cases "M = {}")
      case False
      with parents matching_trans [OF parent(3) ords(2,1) refl new(6)] show ?thesis by blast
    next
      case True
      with dep' M obtain C where C: "final_ids_matching V st staged (ts_name child) (fk_column fk) w = Some (Inr C)" "C = {}"
        by (auto simp: obind_ok split: if_splits referential_action.splits)
      from final_ids_exact [OF sound ok old(3) ords(2) old(5) C(1)] have "C = matching_rows V st staged (ts_name child) (fk_column fk) w" .
      moreover have "rid \<in> matching_rows V st staged (ts_name child) (fk_column fk) w"
        using row(1,2) parent(3) value_eq_sym [OF ords] by (auto simp: matching_rows_def)
      ultimately show ?thesis using C(2) by blast
    qed
  qed
qed

lemma references_kept:
  assumes sound: "state_sound S V st" and ok: "staged_ok st staged" and ord: "indexable V st staged"
    and now: "references_hold V st []" and valid: "validate_foreign_keys V st staged = Some (Inr ())"
  shows "references_hold V st staged"
  unfolding references_hold_def
proof (intro allI impI)
  fix child fk rid r v
  assume fk: "child \<in> set (ca_tables (st_catalog st))" "fk \<in> set (ts_foreign_keys child)"
    and row: "final_row V st staged (ts_name child) rid = Some r" "row_get r (fk_column fk) = Some v" "\<not> is_null v"
  have cat: "validate_catalog S (st_catalog st) = Inr ()" and ord0: "indexable V st []" and wf: "rows_wf V st" using sound by (simp_all add: state_sound_def)
  have "\<forall>t rid r. final_row V st staged t rid = Some r \<longrightarrow> wf_row r" using staged_wf_row [OF ok wf] by blast
  note new = foreign_key_facts [OF cat ord this fk]
  note old = foreign_key_facts [OF cat ord0 wf [unfolded rows_wf_def] fk]
  show "matching_rows V st staged (fk_referenced_table fk) (fk_referenced_column fk) v \<noteq> {}"
    using ok row(1)
  proof (cases rule: final_row_cases)
    case (staged p c r0)
    have schema: "pt_schema p = child" using ok staged(1,2) new(1) unfolding staged_ok_def by (metis option.inject)
    have "row_get r0 (fk_column fk) = Some v"
      using row(2) row_get_with_id [OF staged(7), of "pt_schema p" rid "fk_column fk"] new(2) staged(6) schema
      by (auto simp: has_implicit_id_def split: if_splits)
    moreover have "check_child V st staged p r0 fk = Some (Inr ())"
      using validate_foreign_keys_ok(1) [OF valid fk staged(1,3,5)] fk(2) schema by simp
    ultimately obtain M where M: "final_ids_matching V st staged (fk_referenced_table fk) (fk_referenced_column fk) v = Some (Inr M)" "M \<noteq> {}"
      using row(3) by (auto simp: check_child_def obind_ok split: if_splits)
    from final_ids_exact [OF sound ok old(4) column_orderableD [OF new(5) row(1,2)] old(6) M(1)] M(2) show ?thesis by blast
  next
    case unstaged
    with now fk row obtain prid pr w where parent: "final_row V st [] (fk_referenced_table fk) prid = Some pr"
      "row_get pr (fk_referenced_column fk) = Some w" "value_eq (de_ext V) w v"
      unfolding references_hold_def matching_rows_def by blast
    show ?thesis
    proof (cases "find_prepared_change staged (fk_referenced_table fk) prid")
      case None
      from final_row_unstaged [OF None, of V st] parent show ?thesis unfolding matching_rows_def by force
    next
      case (Some c)
      then obtain p where p: "p \<in> set staged" "pt_name p = fk_referenced_table fk" "c \<in> set (pt_changes p)" "pc_id c = prid"
        using find_prepared_change_iff [OF ok] by blast
      from staged_parent_remains [OF sound ok ord fk row parent [folded p(4)] p(1-3) validate_foreign_keys_ok(2) [OF valid fk p(1-3)]]
      show ?thesis .
    qed
  qed
qed

end
