(* ===== verification/Commit.thy ===== *)
theory Commit
  imports Constraints Wal_Writer
begin

text \<open>
  Committing a prepared transaction (\<open>db/commit.rs\<close>, \<open>db.rs\<close>): under the commit lock the staged rows
  are checked against the versions committed since the snapshot, increments are replayed over newer
  versions, unique indexes and foreign keys are validated on the result, the record is appended to
  the log, and the changes are applied to the primary and secondary indexes.

  A pass that waits for memory starts over on the state it then finds; the model is the pass that goes
  through, and \<open>pool_full\<close> says that the index pool stays full. \<open>background\<close> is the deferred error
  of a checkpoint, \<open>outcome\<close> and \<open>set_len_error\<close> are the outcomes of the write, \<open>sync_error\<close> that of the
  barrier the commit waits for. Text and vector indexes and the counters of statistics are left out.
\<close>

section \<open>Prior versions\<close>

definition id_is_above_high_watermark :: "'j db_state \<Rightarrow> string \<Rightarrow> string \<Rightarrow> bool" where
  "id_is_above_high_watermark st tname rid =
     (case map_of (st_table_high_ids st) tname of None \<Rightarrow> True | Some high \<Rightarrow> rid > high)"

definition record_high_id :: "string \<Rightarrow> string \<Rightarrow> 'j db_state \<Rightarrow> 'j db_state" where
  "record_high_id tname rid st =
     (case map_of (st_table_high_ids st) tname of
        Some high \<Rightarrow> if rid > high then st\<lparr>st_table_high_ids := AList.update tname rid (st_table_high_ids st)\<rparr> else st
      | None \<Rightarrow> st\<lparr>st_table_high_ids := AList.update tname rid (st_table_high_ids st)\<rparr>)"

definition indexed_columns :: "'j table_schema \<Rightarrow> string list" where
  "indexed_columns schema =
     foldl (\<lambda>columns name. if name \<in> set columns then columns else columns @ [name]) [] (concat (map ix_columns (ts_indexes schema)))"

definition read_prior_for_indexes :: "'j ext \<Rightarrow> layouts \<Rightarrow> blob_dir \<Rightarrow> (u32 \<times> bytes) list \<Rightarrow> vkind \<Rightarrow> 'j table_schema \<Rightarrow> 'j row result option" where
  "read_prior_for_indexes E cache blobs readers kind schema =
     read_record_kind_keep E cache blobs readers kind (snd (projection_new cache (Some schema) (Some (indexed_columns schema))))"

section \<open>Increments replayed over newer versions\<close>

fun replay_steps :: "string \<Rightarrow> 'j rebase_step list \<Rightarrow> 'j row \<Rightarrow> 'j row option" where
  "replay_steps rid [] record = Some record"
| "replay_steps rid (step # steps) record =
     (case step rid record of
        Inr (Some record) \<Rightarrow> replay_steps rid steps record
      | _ \<Rightarrow> None)"

definition rebase_change :: "'j db_env \<Rightarrow> 'j db_state \<Rightarrow> 'j table_schema \<Rightarrow> 'j prepared_change \<Rightarrow> version_entry \<Rightarrow> 'j row option result option" where
  "rebase_change V st schema change latest =
     (case pc_rebase change of
        None \<Rightarrow> Some (Inr None)
      | Some steps \<Rightarrow>
          if is_tombstone latest \<or> list_ex (\<lambda>c. col_ty c = Ty_Blob) (ts_columns schema) then Some (Inr None)
          else
            obind (read_record_kind (de_ext V) (de_cache V) (st_blobs st) (st_readers st) (ve_kind latest) schema) (\<lambda>record.
            Some (Inr (replay_steps (pc_id change) steps record))))"

section \<open>Validation under the lock\<close>

record 'j prepared_commit =
  pp_snap_version :: u64
  pp_staged :: "'j prepared_table list"
  pp_payload_arena :: bytes
  pp_preencoded_wal :: "bytes option"
  pp_optimistic :: "(u64 \<times> 'j row) option list list"

text \<open>What the pass learns of a change: the version it replaces, the row of that version where an index
  needs it, and the row of a replayed increment.\<close>

record 'j checked_change =
  cc_previous :: "version_entry option"
  cc_prior :: "'j row option"
  cc_rebased :: "'j row option"

fun for_map :: "('a \<Rightarrow> 'b result option) \<Rightarrow> 'a list \<Rightarrow> 'b list result option" where
  "for_map f [] = Some (Inr [])"
| "for_map f (x # xs) = obind (f x) (\<lambda>y. obind (for_map f xs) (\<lambda>ys. Some (Inr (y # ys))))"

definition check_change :: "'j db_env \<Rightarrow> 'j db_state \<Rightarrow> u64 \<Rightarrow> 'j prepared_table \<Rightarrow> 'j prepared_change \<times> (u64 \<times> 'j row) option
    \<Rightarrow> 'j checked_change result option" where
  "check_change V st snap_version t x =
     (case x of (change, optimistic) \<Rightarrow>
        obind (Some (if id_is_above_high_watermark st (pt_name t) (pc_id change) then Inr None
                     else latest_owned (de_ext V) st (pt_name t) (pc_id change))) (\<lambda>previous.
        obind (case previous of
                 None \<Rightarrow> Some (Inr None)
               | Some newest \<Rightarrow>
                   if ve_version newest > snap_version then
                     obind (rebase_change V st (pt_schema t) change newest) (\<lambda>rebased.
                       case rebased of
                         Some record \<Rightarrow> Some (Inr (Some record))
                       | None \<Rightarrow> Some (Inl (Conflict (pt_name t @ ''/'' @ pc_id change @ '' changed after this transaction began''))))
                   else Some (Inr None)) (\<lambda>rebased.
        obind (case previous of
                 None \<Rightarrow> Some (Inr None)
               | Some entry \<Rightarrow>
                   if \<not> is_tombstone entry \<and> ts_indexes (pt_schema t) \<noteq> [] then
                     (case optimistic of
                        Some (version, record) \<Rightarrow>
                          if version = ve_version entry then Some (Inr (Some record))
                          else obind (read_prior_for_indexes (de_ext V) (de_cache V) (st_blobs st) (st_readers st) (ve_kind entry) (pt_schema t))
                                 (\<lambda>r. Some (Inr (Some r)))
                      | None \<Rightarrow>
                          obind (read_prior_for_indexes (de_ext V) (de_cache V) (st_blobs st) (st_readers st) (ve_kind entry) (pt_schema t))
                            (\<lambda>r. Some (Inr (Some r))))
                   else Some (Inr None)) (\<lambda>prior.
        Some (Inr \<lparr>cc_previous = previous, cc_prior = prior, cc_rebased = rebased\<rparr>)))))"

text \<open>Equality of schemas is structural in the code; the model compares the modelled parts.\<close>

definition check_table :: "'j db_env \<Rightarrow> 'j db_state \<Rightarrow> u64 \<Rightarrow> 'j prepared_table \<times> (u64 \<times> 'j row) option list \<Rightarrow> 'j checked_change list result option" where
  "check_table V st snap_version x =
     (case x of (t, optimistic) \<Rightarrow>
        if table (st_catalog st) (pt_name t) \<noteq> Some (pt_schema t) then
          Some (Inl (Conflict (''schema for '' @ pt_name t @ '' changed while the transaction was preparing'')))
        else for_map (check_change V st snap_version t) (zip (pt_changes t) optimistic))"

abbreviation arena_error :: error where
  "arena_error \<equiv> InvalidArgument ''transaction payload arena exceeds the 4-GiB WAL limit''"

definition rebase_staged_change :: "'j db_env \<Rightarrow> blob_env \<Rightarrow> 'j table_schema \<Rightarrow> bytes \<times> 'j prepared_change list
    \<Rightarrow> 'j prepared_change \<times> 'j checked_change \<Rightarrow> (bytes \<times> 'j prepared_change list) result option" where
  "rebase_staged_change V B schema s x =
     (case s of (arena, changes) \<Rightarrow> case x of (change, checked) \<Rightarrow>
        (case cc_rebased checked of
           None \<Rightarrow> Some (Inr (arena, changes @ [change]))
         | Some record \<Rightarrow>
             if \<not> fits_u32 (length arena) then Some (Inl arena_error)
             else
               (case snd (encode_record_ordered (de_ext V) B schema record None) of
                  Inl err \<Rightarrow> Some (Inl err)
                | Inr encoded \<Rightarrow>
                    if \<not> fits_u32 (length (arena @ encoded)) then Some (Inl arena_error)
                    else Some (Inr (arena @ encoded,
                      changes @ [change\<lparr>pc_operation := Some record,
                        pc_payload := Some (of_nat (length arena), of_nat (length (arena @ encoded)) - of_nat (length arena))\<rparr>])))))"

definition rebase_staged_table :: "'j db_env \<Rightarrow> blob_env \<Rightarrow> bytes \<times> 'j prepared_table list \<Rightarrow> 'j prepared_table \<times> 'j checked_change list
    \<Rightarrow> (bytes \<times> 'j prepared_table list) result option" where
  "rebase_staged_table V B s x =
     (case s of (arena, tables) \<Rightarrow> case x of (t, checked) \<Rightarrow>
        obind (for_loop (rebase_staged_change V B (pt_schema t)) (zip (pt_changes t) checked) (arena, [])) (\<lambda>(arena, changes).
        Some (Inr (arena, tables @ [t\<lparr>pt_changes := changes\<rparr>]))))"

record 'j validated_commit =
  vc_staged :: "'j prepared_table list"
  vc_arena :: bytes
  vc_preencoded_wal :: "bytes option"
  vc_checked :: "'j checked_change list list"
  vc_version :: u64
  vc_identity :: "(string \<times> i64) list"

definition validate_commit :: "'j db_env \<Rightarrow> blob_env \<Rightarrow> 'j db_state \<Rightarrow> 'j prepared_commit \<Rightarrow> 'j validated_commit result option" where
  "validate_commit V B st pp =
     obind (for_map (check_table V st (pp_snap_version pp)) (zip (pp_staged pp) (pp_optimistic pp))) (\<lambda>checked.
     obind (for_loop (rebase_staged_table V B) (zip (pp_staged pp) checked) (pp_payload_arena pp, [])) (\<lambda>(arena, staged).
     obind (validate_unique V st staged) (\<lambda>_.
     obind (validate_foreign_keys V st staged) (\<lambda>_.
     Some (Inr \<lparr>vc_staged = staged, vc_arena = arena,
       vc_preencoded_wal = (if list_ex (list_ex (\<lambda>c. cc_rebased c \<noteq> None)) checked then None else pp_preencoded_wal pp),
       vc_checked = checked, vc_version = st_committed_version st + 1,
       vc_identity = List.map_filter (\<lambda>t. map_option (Pair (pt_name t)) (map_of (st_identity_high_water st) (pt_name t)))
         (filter (\<lambda>t. list_ex col_identity (ts_columns (pt_schema t))) staged)\<rparr>)))))"

section \<open>The record of the log\<close>

text \<open>The slice of the arena; \<open>None\<close> is the panic of a range outside it.\<close>

definition arena_slice :: "bytes \<Rightarrow> u32 \<times> u32 \<Rightarrow> bytes option" where
  "arena_slice arena payload_range = get_range arena (unat (fst payload_range)) (unat (fst payload_range) + unat (snd payload_range))"

definition wal_change_of :: "bytes \<Rightarrow> 'j prepared_table \<Rightarrow> 'j prepared_change \<Rightarrow> wal_change result option" where
  "wal_change_of arena t change =
     (case pc_payload change of
        None \<Rightarrow> Some (Inr \<lparr>wc_table = pt_name t, wc_id = pc_id change, wc_payload = None\<rparr>)
      | Some r \<Rightarrow> map_option (\<lambda>bs. Inr \<lparr>wc_table = pt_name t, wc_id = pc_id change, wc_payload = Some bs\<rparr>) (arena_slice arena r))"

definition wal_changes :: "bytes \<Rightarrow> 'j prepared_table list \<Rightarrow> wal_change list result option" where
  "wal_changes arena staged = for_map (\<lambda>(t, change). wal_change_of arena t change) (concat (map (\<lambda>t. map (Pair t) (pt_changes t)) staged))"

definition commit_record :: "'j ext \<Rightarrow> 'j validated_commit \<Rightarrow> bytes result option" where
  "commit_record E vc =
     obind (case vc_preencoded_wal vc of
              Some bs \<Rightarrow> Some (Inr bs)
            | None \<Rightarrow> obind (wal_changes (vc_arena vc) (vc_staged vc)) (\<lambda>changes. Some (encode_commit E (vc_version vc) changes (vc_identity vc)))) (\<lambda>bs.
     map_option Inr (set_encoded_commit_version E bs (vc_version vc)))"

section \<open>Applying the changes\<close>

definition modify_secondary :: "string \<times> string \<Rightarrow> (sec_idx \<Rightarrow> sec_idx) \<Rightarrow> 'j db_state \<Rightarrow> 'j db_state" where
  "modify_secondary key f st = st\<lparr>st_secondary := map (\<lambda>(k, si). (k, if k = key then f si else si)) (st_secondary st)\<rparr>"

definition unchanged :: "'j ext \<Rightarrow> 'j row option \<Rightarrow> 'j row option \<Rightarrow> string \<Rightarrow> bool" where
  "unchanged E prior put cname =
     (case (prior, put) of
        (Some p, Some r) \<Rightarrow> rel_option (value_eq E) (row_get p cname) (row_get r cname)
      | _ \<Rightarrow> False)"

definition remove_old_key :: "'j ext \<Rightarrow> string \<Rightarrow> string \<Rightarrow> 'j row option \<Rightarrow> 'j row option \<Rightarrow> index_def \<Rightarrow> 'j db_state \<Rightarrow> 'j db_state" where
  "remove_old_key E tname rid prior put def st =
     (case prior of
        None \<Rightarrow> st
      | Some p \<Rightarrow>
          if list_all (unchanged E prior put) (ix_columns def) then st
          else modify_secondary (secondary_index_key tname def) (sec_remove (crc32 E) (secondary_tuple_key E p (ix_columns def)) rid) st)"

definition add_new_key :: "'j ext \<Rightarrow> string \<Rightarrow> string \<Rightarrow> 'j row option \<Rightarrow> 'j row option \<Rightarrow> index_def \<Rightarrow> 'j db_state \<Rightarrow> 'j db_state" where
  "add_new_key E tname rid prior put def st =
     (case put of
        None \<Rightarrow> st
      | Some r \<Rightarrow>
          if list_all (unchanged E prior put) (ix_columns def) then st
          else modify_secondary (secondary_index_key tname def) (sec_add (secondary_tuple_key E r (ix_columns def)) rid) st)"

definition push_version :: "string \<Rightarrow> string \<Rightarrow> u64 \<Rightarrow> mem_payload option \<Rightarrow> 'j db_state \<Rightarrow> 'j db_state" where
  "push_version tname rid version put st =
     st\<lparr>st_index := primary_push tname rid \<lparr>ve_version = version, ve_kind = (case put of Some p \<Rightarrow> MemPut p | None \<Rightarrow> MemTombstone)\<rparr> (st_index st)\<rparr>"

definition apply_one_owned :: "'j ext \<Rightarrow> u64 \<Rightarrow> 'j table_schema \<Rightarrow> string \<Rightarrow> string \<Rightarrow> (mem_payload \<times> 'j row) option \<Rightarrow> 'j row option
    \<Rightarrow> 'j db_state \<Rightarrow> 'j db_state" where
  "apply_one_owned E version schema tname rid put prior st =
     (if ts_indexes schema = [] then push_version tname rid version (map_option fst put) st
      else
        let st = fold (remove_old_key E tname rid prior (map_option snd put)) (ts_indexes schema) st;
            st = fold (add_new_key E tname rid prior (map_option snd put)) (ts_indexes schema) st
        in push_version tname rid version (map_option fst put) st)"

definition note_superseded :: "version_entry option \<Rightarrow> 'j db_state \<Rightarrow> 'j db_state" where
  "note_superseded previous st =
     (case previous of
        Some e \<Rightarrow> (case ve_kind e of SegPut seg _ _ \<Rightarrow> st\<lparr>st_superseded_segments := insert seg (st_superseded_segments st)\<rparr> | _ \<Rightarrow> st)
      | None \<Rightarrow> st)"

definition put_of :: "bytes \<Rightarrow> 'j prepared_change \<Rightarrow> (mem_payload \<times> 'j row) option" where
  "put_of arena change =
     (case (pc_operation change, pc_payload change) of
        (Some record, Some (start, len)) \<Rightarrow> Some (\<lparr>mp_bytes = arena, mp_start = start, mp_len = len\<rparr>, record)
      | _ \<Rightarrow> None)"

definition apply_change :: "'j ext \<Rightarrow> bytes \<Rightarrow> u64 \<Rightarrow> 'j prepared_table \<Rightarrow> 'j prepared_change \<times> 'j checked_change \<Rightarrow> 'j db_state \<Rightarrow> 'j db_state" where
  "apply_change E arena version t x st =
     (case x of (change, checked) \<Rightarrow>
        apply_one_owned E version (pt_schema t) (pt_name t) (pc_id change) (put_of arena change) (cc_prior checked)
          (note_superseded (cc_previous checked) st))"

text \<open>\<open>None\<close> is the panic on a table without changes.\<close>

definition apply_table :: "'j ext \<Rightarrow> bytes \<Rightarrow> u64 \<Rightarrow> 'j prepared_table \<times> 'j checked_change list \<Rightarrow> 'j db_state \<Rightarrow> 'j db_state option" where
  "apply_table E arena version x st =
     (case x of (t, checked) \<Rightarrow>
        if pt_changes t = [] then None
        else
          let st = fold (apply_change E arena version t) (zip (pt_changes t) checked) st;
              st = record_high_id (pt_name t) (pc_id (last (pt_changes t))) st
          in map_option (\<lambda>l. st\<lparr>st_change_log := l\<rparr>) (log_push version (pt_name t) (map pc_id (pt_changes t)) (st_change_log st)))"

definition apply_commit :: "'j ext \<Rightarrow> 'j validated_commit \<Rightarrow> 'j db_state \<Rightarrow> 'j db_state option" where
  "apply_commit E vc st =
     map_option (\<lambda>st. st\<lparr>st_committed_version := vc_version vc\<rparr>)
       (fold (\<lambda>x st. Option.bind st (apply_table E (vc_arena vc) (vc_version vc) x)) (zip (vc_staged vc) (vc_checked vc)) (Some st))"

section \<open>The commit\<close>

definition finish_prepared_commit :: "'j db_env \<Rightarrow> blob_env \<Rightarrow> unit result \<Rightarrow> bool \<Rightarrow> write_all_outcome \<Rightarrow> string option \<Rightarrow> string option
    \<Rightarrow> 'j prepared_commit \<Rightarrow> 'j db_state \<times> wal_writer \<Rightarrow> (('j db_state \<times> wal_writer) \<times> u64 result) option" where
  "finish_prepared_commit V B background pool_full outcome set_len_error sync_error pp s =
     (case s of (st, w) \<Rightarrow>
        (case background of
           Inl err \<Rightarrow> Some (s, Inl err)
         | Inr _ \<Rightarrow>
             (case validate_commit V B st pp of
                None \<Rightarrow> None
              | Some (Inl err) \<Rightarrow> Some (s, Inl err)
              | Some (Inr vc) \<Rightarrow>
                  if pool_full then
                    Some (s, Inl (MemoryLimit ''index tombstones still fill the delta pool after consolidation; compact the database or raise memory.index_delta_pool_bytes''))
                  else
                    (case commit_record (de_ext V) vc of
                       None \<Rightarrow> None
                     | Some (Inl err) \<Rightarrow> Some (s, Inl err)
                     | Some (Inr bs) \<Rightarrow>
                         (case append_commit_unflushed w bs outcome set_len_error of
                            (w, Inl err) \<Rightarrow> Some ((st, w), Inl err)
                          | (w, Inr _) \<Rightarrow>
                              map_option (\<lambda>st. ((st, w),
                                case sync_error of
                                  None \<Rightarrow> Inr (vc_version vc)
                                | Some err \<Rightarrow> Inl (CommitUnknown (''version '' @ show_nat (unat (vc_version vc))
                                    @ '' was published, but syncing its WAL group failed: '' @ err))))
                                (apply_commit (de_ext V) vc st))))))"

section \<open>Names of indexes are distinct\<close>

lemma hex_byte_inject: "hex_byte a = hex_byte b \<longleftrightarrow> a = b"
proof -
  have digit: "hex_digit i = hex_digit j \<longleftrightarrow> i = j" if "i < 16" "j < 16" for i j
    using that nth_eq_iff_index_eq [of "''0123456789abcdef''" i j] by (simp add: hex_digit_def)
  have "unat a div 16 < 16" "unat b div 16 < 16" using unat_bound [of a] unat_bound [of b] by auto
  then have "hex_byte a = hex_byte b \<longleftrightarrow> unat a div 16 = unat b div 16 \<and> unat a mod 16 = unat b mod 16"
    by (simp add: hex_byte_def digit)
  also have "\<dots> \<longleftrightarrow> a = b" by (metis div_mult_mod_eq word_unat_eq_iff)
  finally show ?thesis .
qed

lemma hex_bytes_inject: "concat (map hex_byte xs) = concat (map hex_byte ys) \<Longrightarrow> xs = ys"
proof (induction xs arbitrary: ys)
  case Nil
  then show ?case by (cases ys) (simp_all add: hex_byte_def)
next
  case (Cons x xs)
  then obtain y ys' where ys: "ys = y # ys'" by (cases ys) (simp_all add: hex_byte_def)
  with Cons.prems have "hex_byte x @ concat (map hex_byte xs) = hex_byte y @ concat (map hex_byte ys')" by simp
  then have "hex_byte x = hex_byte y" "concat (map hex_byte xs) = concat (map hex_byte ys')" by (simp_all add: hex_byte_def)
  with Cons.IH ys show ?case by (simp add: hex_byte_inject)
qed

lemma be_u32_inject:
  assumes "a < 2 ^ 32" "b < 2 ^ 32" "to_be_bytes (of_nat a :: u32) = to_be_bytes (of_nat b :: u32)"
  shows "a = b"
proof -
  have "(of_nat a :: u32) = of_nat b" using assms(3) by (metis from_to_be_bytes_word(2))
  then have "unat (of_nat a :: u32) = unat (of_nat b :: u32)" by simp
  with assms(1,2) show ?thesis by (simp add: unat_of_nat take_bit_nat_def)
qed

lemma framed_names_inject:
  "list_all (\<lambda>c. length c < 2 ^ 32) xs \<Longrightarrow> list_all (\<lambda>c. length c < 2 ^ 32) ys \<Longrightarrow> length xs = length ys \<Longrightarrow>
     concat (map (\<lambda>c. to_be_bytes (of_nat (length c) :: u32) @ as_bytes c) xs) = concat (map (\<lambda>c. to_be_bytes (of_nat (length c) :: u32) @ as_bytes c) ys)
     \<Longrightarrow> xs = ys"
proof (induction xs arbitrary: ys)
  case (Cons x xs)
  then obtain y ys' where ys: "ys = y # ys'" by (cases ys) auto
  from Cons.prems(4) ys have eq: "to_be_bytes (of_nat (length x) :: u32) @ as_bytes x @ concat (map (\<lambda>c. to_be_bytes (of_nat (length c) :: u32) @ as_bytes c) xs)
      = to_be_bytes (of_nat (length y) :: u32) @ as_bytes y @ concat (map (\<lambda>c. to_be_bytes (of_nat (length c) :: u32) @ as_bytes c) ys')" by simp
  then have head: "to_be_bytes (of_nat (length x) :: u32) = to_be_bytes (of_nat (length y) :: u32)"
    and rest: "as_bytes x @ concat (map (\<lambda>c. to_be_bytes (of_nat (length c) :: u32) @ as_bytes c) xs)
      = as_bytes y @ concat (map (\<lambda>c. to_be_bytes (of_nat (length c) :: u32) @ as_bytes c) ys')" by (simp_all add: append_eq_append_conv)
  have "length x = length y" using be_u32_inject [OF _ _ head] Cons.prems(1,2) ys by simp
  with rest have "x = y" "concat (map (\<lambda>c. to_be_bytes (of_nat (length c) :: u32) @ as_bytes c) xs) = concat (map (\<lambda>c. to_be_bytes (of_nat (length c) :: u32) @ as_bytes c) ys')"
    by (simp_all add: append_eq_append_conv)
  with Cons.IH [of ys'] Cons.prems ys show ?case by simp
qed simp

lemma secondary_index_id_inject:
  assumes "short_names xs" "short_names ys" "secondary_index_id xs = secondary_index_id ys"
  shows "xs = ys"
proof -
  from assms(3) have eq: "to_be_bytes (of_nat (length xs) :: u32) @ concat (map (\<lambda>c. to_be_bytes (of_nat (length c) :: u32) @ as_bytes c) xs)
      = to_be_bytes (of_nat (length ys) :: u32) @ concat (map (\<lambda>c. to_be_bytes (of_nat (length c) :: u32) @ as_bytes c) ys)"
    unfolding secondary_index_id_def by (intro hex_bytes_inject) simp
  then have head: "to_be_bytes (of_nat (length xs) :: u32) = to_be_bytes (of_nat (length ys) :: u32)"
    and rest: "concat (map (\<lambda>c. to_be_bytes (of_nat (length c) :: u32) @ as_bytes c) xs) = concat (map (\<lambda>c. to_be_bytes (of_nat (length c) :: u32) @ as_bytes c) ys)"
    by (simp_all add: append_eq_append_conv)
  have "length xs = length ys" using be_u32_inject [OF _ _ head] assms(1,2) by (simp add: short_names_def)
  with framed_names_inject [OF _ _ _ rest] assms(1,2) show ?thesis by (simp add: short_names_def)
qed

section \<open>Loops that collect\<close>

lemma for_map_ok: "for_map f xs = Some (Inr ys) \<longleftrightarrow> list_all2 (\<lambda>x y. f x = Some (Inr y)) xs ys"
proof (induction xs arbitrary: ys)
  case (Cons x xs)
  show ?case by (cases ys) (auto simp: obind_ok Cons.IH)
qed (auto simp: list_all2_conv_all_nth)

section \<open>What a pass establishes\<close>

text \<open>The row that was read before the lock was taken is the row of its version.\<close>

definition optimistic_change :: "'j db_env \<Rightarrow> 'j db_state \<Rightarrow> 'j prepared_table \<Rightarrow> 'j prepared_change \<Rightarrow> (u64 \<times> 'j row) option \<Rightarrow> bool" where
  "optimistic_change V st p c opt \<longleftrightarrow>
     (case opt of None \<Rightarrow> True
      | Some (version, rec) \<Rightarrow> \<forall>e r. latest_owned (de_ext V) st (pt_name p) (pc_id c) = Inr (Some e) \<longrightarrow> version = ve_version e
          \<longrightarrow> final_row V st [] (pt_name p) (pc_id c) = Some r
          \<longrightarrow> (\<forall>d \<in> set (ts_indexes (pt_schema p)). \<forall>n \<in> set (ix_columns d). row_get rec n = row_get r n))"

definition commit_ok :: "'j db_env \<Rightarrow> 'j db_state \<Rightarrow> 'j prepared_commit \<Rightarrow> bool" where
  "commit_ok V st pp \<longleftrightarrow> distinct (map pt_name (pp_staged pp))
     \<and> (\<forall>p \<in> set (pp_staged pp). sorted_wrt (<) (map pc_id (pt_changes p)) \<and> pt_changes p \<noteq> [] \<and> (\<forall>c \<in> set (pt_changes p). rust_str (pc_id c)))
     \<and> list_all2 (\<lambda>p opt. list_all2 (optimistic_change V st p) (pt_changes p) opt) (pp_staged pp) (pp_optimistic pp)"

text \<open>A staged table after increments were replayed.\<close>

definition replayed_change :: "'j prepared_change \<Rightarrow> 'j checked_change \<Rightarrow> 'j prepared_change \<Rightarrow> bool" where
  "replayed_change c k c' \<longleftrightarrow> pc_id c' = pc_id c \<and> pc_operation c' = (case cc_rebased k of Some r \<Rightarrow> Some r | None \<Rightarrow> pc_operation c)"

definition replayed_table :: "'j prepared_table \<Rightarrow> 'j checked_change list \<Rightarrow> 'j prepared_table \<Rightarrow> bool" where
  "replayed_table p ks p' \<longleftrightarrow> pt_name p' = pt_name p \<and> pt_schema p' = pt_schema p
     \<and> list_all2 (\<lambda>(c, k) c'. replayed_change c k c') (zip (pt_changes p) ks) (pt_changes p')"

lemma rebase_changes_ok:
  "for_loop (rebase_staged_change V B schema) xs (arena, cs) = Some (Inr (arena', cs')) \<Longrightarrow>
     \<exists>ds. cs' = cs @ ds \<and> list_all2 (\<lambda>(c, k) c'. replayed_change c k c') xs ds"
proof (induction xs arbitrary: arena cs)
  case (Cons x xs)
  obtain c k where x: "x = (c, k)" by (cases x)
  from Cons.prems obtain a1 c1 where step: "rebase_staged_change V B schema (arena, cs) x = Some (Inr (a1, c1))"
    and rest: "for_loop (rebase_staged_change V B schema) xs (a1, c1) = Some (Inr (arena', cs'))" by (auto simp: obind_ok)
  from step x have "\<exists>d. c1 = cs @ [d] \<and> replayed_change c k d"
    by (auto simp: rebase_staged_change_def replayed_change_def split: option.splits if_splits sum.splits)
  with Cons.IH [OF rest] x show ?case by auto
qed simp

lemma rebase_tables_ok:
  "for_loop (rebase_staged_table V B) xs (arena, ts) = Some (Inr (arena', ts')) \<Longrightarrow>
     \<exists>us. ts' = ts @ us \<and> list_all2 (\<lambda>(p, ks) p'. replayed_table p ks p') xs us"
proof (induction xs arbitrary: arena ts)
  case (Cons x xs)
  obtain p ks where x: "x = (p, ks)" by (cases x)
  from Cons.prems obtain a1 t1 where step: "rebase_staged_table V B (arena, ts) x = Some (Inr (a1, t1))"
    and rest: "for_loop (rebase_staged_table V B) xs (a1, t1) = Some (Inr (arena', ts'))" by (auto simp: obind_ok)
  from step x obtain cs where cs: "for_loop (rebase_staged_change V B (pt_schema p)) (zip (pt_changes p) ks) (arena, []) = Some (Inr (a1, cs))"
    "t1 = ts @ [p\<lparr>pt_changes := cs\<rparr>]" by (auto simp: rebase_staged_table_def obind_ok)
  from rebase_changes_ok [OF cs(1)] have "replayed_table p ks (p\<lparr>pt_changes := cs\<rparr>)" by (simp add: replayed_table_def)
  with Cons.IH [OF rest] x cs(2) show ?case by auto
qed simp

text \<open>The checks and the replays of a pass.\<close>

definition checked_pass :: "'j db_env \<Rightarrow> blob_env \<Rightarrow> 'j db_state \<Rightarrow> 'j prepared_commit \<Rightarrow> 'j checked_change list list \<Rightarrow> bytes \<Rightarrow> 'j prepared_table list \<Rightarrow> bool" where
  "checked_pass V B st pp checked arena staged \<longleftrightarrow>
     for_map (check_table V st (pp_snap_version pp)) (zip (pp_staged pp) (pp_optimistic pp)) = Some (Inr checked)
     \<and> for_loop (rebase_staged_table V B) (zip (pp_staged pp) checked) (pp_payload_arena pp, []) = Some (Inr (arena, staged))"

lemma checked_pass_parts:
  assumes "checked_pass V B st pp checked arena staged" and "commit_ok V st pp"
  shows "list_all2 (\<lambda>(p, opt) ks. check_table V st (pp_snap_version pp) (p, opt) = Some (Inr ks)) (zip (pp_staged pp) (pp_optimistic pp)) checked"
    and "list_all2 (\<lambda>(p, ks) p'. replayed_table p ks p') (zip (pp_staged pp) checked) staged"
    and "length checked = length (pp_staged pp)" "length (pp_optimistic pp) = length (pp_staged pp)"
proof -
  show len: "length (pp_optimistic pp) = length (pp_staged pp)" using assms(2) by (auto simp: commit_ok_def dest: list_all2_lengthD)
  show "list_all2 (\<lambda>(p, opt) ks. check_table V st (pp_snap_version pp) (p, opt) = Some (Inr ks)) (zip (pp_staged pp) (pp_optimistic pp)) checked"
    using assms(1) unfolding checked_pass_def for_map_ok by (simp add: case_prod_unfold)
  then show "length checked = length (pp_staged pp)" using len by (auto dest: list_all2_lengthD)
  show "list_all2 (\<lambda>(p, ks) p'. replayed_table p ks p') (zip (pp_staged pp) checked) staged"
    using rebase_tables_ok [of V B "zip (pp_staged pp) checked" "pp_payload_arena pp" "[]" arena staged] assms(1) by (auto simp: checked_pass_def)
qed

lemma validate_commit_pass:
  assumes "validate_commit V B st pp = Some (Inr vc)"
  shows "checked_pass V B st pp (vc_checked vc) (vc_arena vc) (vc_staged vc)"
    and "validate_unique V st (vc_staged vc) = Some (Inr ())" and "validate_foreign_keys V st (vc_staged vc) = Some (Inr ())"
    and "vc_version vc = st_committed_version st + 1"
  using assms by (auto simp: validate_commit_def checked_pass_def obind_ok)

text \<open>One validated table: its declaration, its changes with their findings.\<close>

definition checked_as :: "'j db_env \<Rightarrow> 'j db_state \<Rightarrow> u64 \<Rightarrow> 'j prepared_table \<Rightarrow> 'j prepared_change \<Rightarrow> 'j checked_change \<Rightarrow> bool" where
  "checked_as V st snap p' c' k \<longleftrightarrow> (\<exists>p c opt. pt_name p = pt_name p' \<and> pt_schema p = pt_schema p'
     \<and> check_change V st snap p (c, opt) = Some (Inr k) \<and> optimistic_change V st p c opt \<and> replayed_change c k c')"

definition validated_table :: "'j db_env \<Rightarrow> 'j db_state \<Rightarrow> u64 \<Rightarrow> 'j prepared_table \<times> 'j checked_change list \<Rightarrow> bool" where
  "validated_table V st snap = (\<lambda>(p', ks). table (st_catalog st) (pt_name p') = Some (pt_schema p') \<and> pt_changes p' \<noteq> []
     \<and> sorted_wrt (<) (map pc_id (pt_changes p')) \<and> list_all (\<lambda>c. rust_str (pc_id c)) (pt_changes p')
     \<and> list_all2 (checked_as V st snap p') (pt_changes p') ks)"

lemma check_table_validated:
  assumes check: "check_table V st snap (p, opt) = Some (Inr ks)" and rep: "replayed_table p ks p'"
    and p: "sorted_wrt (<) (map pc_id (pt_changes p))" "pt_changes p \<noteq> []" "\<forall>c \<in> set (pt_changes p). rust_str (pc_id c)" "list_all2 (optimistic_change V st p) (pt_changes p) opt"
  shows "validated_table V st snap (p', ks)"
proof -
  from check have cat: "table (st_catalog st) (pt_name p) = Some (pt_schema p)"
    and map: "list_all2 (\<lambda>x k. check_change V st snap p x = Some (Inr k)) (zip (pt_changes p) opt) ks"
    by (auto simp: check_table_def for_map_ok split: if_splits)
  have opt: "length opt = length (pt_changes p)" using p(4) by (auto dest: list_all2_lengthD)
  then have len: "length ks = length (pt_changes p)" using map by (auto dest: list_all2_lengthD)
  from rep have rep': "pt_name p' = pt_name p" "pt_schema p' = pt_schema p"
    and all: "list_all2 (\<lambda>(c, k) c'. replayed_change c k c') (zip (pt_changes p) ks) (pt_changes p')"
    by (simp_all add: replayed_table_def)
  have n: "length (pt_changes p') = length (pt_changes p)" using all len by (auto dest: list_all2_lengthD)
  have each: "check_change V st snap p (pt_changes p ! i, opt ! i) = Some (Inr (ks ! i))" "replayed_change (pt_changes p ! i) (ks ! i) (pt_changes p' ! i)"
      "optimistic_change V st p (pt_changes p ! i) (opt ! i)"
    if "i < length (pt_changes p)" for i
    using list_all2_nthD [OF map, of i] list_all2_nthD [OF all, of i] list_all2_nthD [OF p(4), of i] that len opt by simp_all
  have ids: "map pc_id (pt_changes p') = map pc_id (pt_changes p)"
    using each(2) n by (intro nth_equalityI) (auto simp: replayed_change_def)
  have "rust_str (pc_id c)" if "c \<in> set (pt_changes p')" for c
    using that p(3) arg_cong [OF ids, of set] by (metis (no_types, lifting) image_iff list.set_map)
  moreover have "list_all2 (checked_as V st snap p') (pt_changes p') ks"
    unfolding list_all2_conv_all_nth checked_as_def using each rep' n len by metis
  ultimately show ?thesis using cat rep' ids p(1,2) n by (auto simp: validated_table_def list_all_iff)
qed

lemma checked_pass_tables:
  assumes "checked_pass V B st pp checked arena staged" and "commit_ok V st pp"
  shows "list_all (validated_table V st (pp_snap_version pp)) (zip staged checked)"
    and "length staged = length checked" and "map pt_name staged = map pt_name (pp_staged pp)"
proof -
  note parts = checked_pass_parts [OF assms]
  show len: "length staged = length checked" using parts(2,3) by (auto dest: list_all2_lengthD)
  have rep: "replayed_table (pp_staged pp ! i) (checked ! i) (staged ! i)" if "i < length staged" for i
    using list_all2_nthD [OF parts(2), of i] that len parts(3) by simp
  show "map pt_name staged = map pt_name (pp_staged pp)"
    using rep len parts(3) by (intro nth_equalityI) (auto simp: replayed_table_def)
  have "validated_table V st (pp_snap_version pp) (staged ! i, checked ! i)" if i: "i < length staged" for i
  proof (rule check_table_validated [OF _ rep [OF i]])
    have bounds: "i < length (pp_staged pp)" "i < length (pp_optimistic pp)" using i len parts(3,4) by simp_all
    show "check_table V st (pp_snap_version pp) (pp_staged pp ! i, pp_optimistic pp ! i) = Some (Inr (checked ! i))"
      using list_all2_nthD [OF parts(1), of i] bounds by simp
    have "pp_staged pp ! i \<in> set (pp_staged pp)" using bounds by simp
    with assms(2) show "sorted_wrt (<) (map pc_id (pt_changes (pp_staged pp ! i)))" "pt_changes (pp_staged pp ! i) \<noteq> []"
      "\<forall>c \<in> set (pt_changes (pp_staged pp ! i)). rust_str (pc_id c)" by (auto simp: commit_ok_def)
    show "list_all2 (optimistic_change V st (pp_staged pp ! i)) (pt_changes (pp_staged pp ! i)) (pp_optimistic pp ! i)"
      using assms(2) bounds by (auto simp: commit_ok_def list_all2_conv_all_nth)
  qed
  then show "list_all (validated_table V st (pp_snap_version pp)) (zip staged checked)"
    using len by (auto simp: list_all_length)
qed

end
