(* ===== verification/Commit_Apply.thy ===== *)
theory Commit_Apply
  imports Commit
begin

text \<open>
  What a commit leaves behind: the invariant of the state of an open database, that applying a
  validated transaction keeps it, and the rows, indexes and constraints after the commit.
\<close>

section \<open>A database in order\<close>

text \<open>A payload holds a row: every projection of the table reads the columns it wants of it.\<close>

definition holds :: "'j db_env \<Rightarrow> 'j db_state \<Rightarrow> 'j table_schema \<Rightarrow> vkind \<Rightarrow> 'j row \<Rightarrow> bool" where
  "holds V st schema kind r \<longleftrightarrow> (\<forall>keep. \<exists>r'. read_record_kind_keep (de_ext V) (de_cache V) (st_blobs st) (st_readers st) kind
       (snd (projection_new (de_cache V) (Some schema) keep)) = Some (Inr r') \<and> wf_row r'
     \<and> (\<forall>n. row_get r' n = (if column_kept keep n then row_get r n else None)))"

definition versions_below :: "'j db_env \<Rightarrow> 'j db_state \<Rightarrow> bool" where
  "versions_below V st \<longleftrightarrow> (\<forall>t rid. \<forall>e \<in> set (all_versions (crc32 (de_ext V)) (st_index st) t rid). ve_version e \<le> st_committed_version st)
     \<and> (\<forall>schema \<in> set (ca_tables (st_catalog st)). ts_epoch schema \<le> st_committed_version st)"

definition high_ids_ok :: "'j db_env \<Rightarrow> 'j db_state \<Rightarrow> bool" where
  "high_ids_ok V st \<longleftrightarrow> (\<forall>t schema rid. \<forall>e \<in> set (all_versions (crc32 (de_ext V)) (st_index st) t rid).
     table (st_catalog st) t = Some schema \<longrightarrow> ts_epoch schema < ve_version e \<longrightarrow> (\<exists>h. map_of (st_table_high_ids st) t = Some h \<and> rid \<le> h))"

definition rows_held :: "'j db_env \<Rightarrow> 'j db_state \<Rightarrow> bool" where
  "rows_held V st \<longleftrightarrow> (\<forall>t schema rid e. table (st_catalog st) t = Some schema \<longrightarrow> latest_owned (de_ext V) st t rid = Inr (Some e)
     \<longrightarrow> \<not> is_tombstone e \<longrightarrow> (\<exists>r. holds V st schema (ve_kind e) r))"

text \<open>The state holds an index for every declared one, and no others.\<close>

definition secondary_declared :: "'j db_state \<Rightarrow> bool" where
  "secondary_declared st \<longleftrightarrow> (\<forall>t cols. short_names cols \<longrightarrow> (map_of (st_secondary st) (t, secondary_index_id cols) \<noteq> None
     \<longleftrightarrow> (\<exists>schema. table (st_catalog st) t = Some schema \<and> cols \<in> ix_columns ` set (ts_indexes schema))))"

definition changes_logged :: "'j db_state \<Rightarrow> bool" where
  "changes_logged st \<longleftrightarrow> (\<exists>hist. log_ok hist (st_change_log st) \<and> (\<forall>e \<in> set hist. cl_version e \<le> st_committed_version st))"

definition db_ok :: "'j sys \<Rightarrow> 'j db_env \<Rightarrow> 'j db_state \<Rightarrow> bool" where
  "db_ok S V st \<longleftrightarrow> state_sound S V st \<and> versions_below V st \<and> high_ids_ok V st \<and> rows_held V st \<and> secondary_declared st \<and> changes_logged st"

lemma db_ok_parts:
  assumes "db_ok S V st"
  shows "state_sound S V st" "versions_below V st" "high_ids_ok V st" "rows_held V st" "secondary_declared st" "changes_logged st"
    "validate_catalog S (st_catalog st) = Inr ()" "idx_ok (crc32 (de_ext V)) (st_index st)" "sorts_by_version (de_sort V)" "rows_wf V st"
    "indexes_exact V st" "indexable V st []"
  using assms by (simp_all add: db_ok_def state_sound_def)

text \<open>What a transaction stages for a row: values in types that have an order where they are indexed, and a
  payload that holds the row.\<close>

definition staged_row_ok :: "'j db_env \<Rightarrow> 'j db_state \<Rightarrow> bytes \<Rightarrow> 'j table_schema \<Rightarrow> 'j prepared_change \<Rightarrow> bool" where
  "staged_row_ok V st arena schema c \<longleftrightarrow> (\<forall>r. pc_operation c = Some r \<longrightarrow>
     wf_row r \<and> (\<forall>d \<in> set (ts_indexes schema). orderable_row r (ix_columns d))
     \<and> (\<exists>put. put_of arena c = Some (put, r) \<and> holds V st schema (MemPut put) r))"

definition staged_rows_ok :: "'j db_env \<Rightarrow> 'j db_state \<Rightarrow> bytes \<Rightarrow> 'j prepared_table list \<Rightarrow> bool" where
  "staged_rows_ok V st arena staged \<longleftrightarrow> (\<forall>p \<in> set staged. \<forall>c \<in> set (pt_changes p). staged_row_ok V st arena (pt_schema p) c)"

lemma staged_rows_okD:
  assumes "staged_rows_ok V st arena staged" "p \<in> set staged" "c \<in> set (pt_changes p)" "pc_operation c = Some r"
  shows "wf_row r" "d \<in> set (ts_indexes (pt_schema p)) \<Longrightarrow> orderable_row r (ix_columns d)"
    and "\<exists>put. put_of arena c = Some (put, r) \<and> holds V st (pt_schema p) (MemPut put) r"
  using assms unfolding staged_rows_ok_def staged_row_ok_def by blast+

section \<open>The rows a commit replaces\<close>

lemma read_record_held:
  assumes "holds V st schema kind r"
  obtains r' where "read_record_kind (de_ext V) (de_cache V) (st_blobs st) (st_readers st) kind schema = Some (Inr r')" "wf_row r'"
    "\<And>n. row_get r' n = row_get r n"
  using assms unfolding holds_def read_record_kind_def by (metis (no_types, lifting) column_kept_def option.case(1))

lemma current_row_exists:
  assumes "rows_held V st" and "table (st_catalog st) t = Some schema" and "latest_owned (de_ext V) st t rid = Inr (Some e)"
  shows "final_row V st [] t rid = None \<longleftrightarrow> is_tombstone e"
proof (cases "is_tombstone e")
  case True
  with assms(2,3) show ?thesis by (simp add: final_row_def final_record_def)
next
  case False
  with assms obtain r where "holds V st schema (ve_kind e) r" unfolding rows_held_def by blast
  then obtain r' where "read_record_kind (de_ext V) (de_cache V) (st_blobs st) (st_readers st) (ve_kind e) schema = Some (Inr r')"
    using read_record_held by blast
  moreover have "ts_epoch schema < ve_version e"
    using assms(2,3) by (auto simp: latest_owned_def result_dests opt_filter_def split: option.splits if_splits)
  ultimately show ?thesis using False assms(2,3) by (simp add: final_row_def final_record_def)
qed

lemma above_watermark_absent:
  assumes "idx_ok (crc32 (de_ext V)) (st_index st)" "high_ids_ok V st" "table (st_catalog st) t = Some schema" "id_is_above_high_watermark st t rid"
  shows "latest_owned (de_ext V) st t rid = Inr None"
proof -
  obtain r where r: "fst (newest_at_or_before (crc32 (de_ext V)) (st_index st) t rid (- 1)) = Inr r"
    "is_newest (- 1) (all_versions (crc32 (de_ext V)) (st_index st) t rid) r"
    using newest_at_or_before_exact [OF assms(1), of t rid "- 1"] by force
  have "\<not> ts_epoch schema < ve_version e" if "r = Some e" for e
    using r(2) assms(2-4) that by (force simp: is_newest_def high_ids_ok_def id_is_above_high_watermark_def split: option.splits)
  with r(1) assms(3) show ?thesis by (auto simp: latest_owned_def opt_filter_def split: option.splits)
qed

lemma set_indexed_columns: "set (indexed_columns schema) = (\<Union>d \<in> set (ts_indexes schema). set (ix_columns d))"
proof -
  have "set (foldl (\<lambda>columns name. if name \<in> set columns then columns else columns @ [name]) acc names) = set acc \<union> set names" for acc names :: "string list"
    by (induction names arbitrary: acc) auto
  then show ?thesis by (simp add: indexed_columns_def)
qed

text \<open>The prior row of a validated change is the row it replaces, as far as the indexes read it.\<close>

lemma check_change_prior:
  assumes ok: "db_ok S V st" and t: "table (st_catalog st) (pt_name p) = Some (pt_schema p)" and check: "check_change V st snap p (c, opt) = Some (Inr k)"
    and opt: "optimistic_change V st p c opt" and ix: "ts_indexes (pt_schema p) \<noteq> []"
  shows "case final_row V st [] (pt_name p) (pc_id c) of
      None \<Rightarrow> cc_prior k = None
    | Some r \<Rightarrow> \<exists>prior. cc_prior k = Some prior \<and> (\<forall>d \<in> set (ts_indexes (pt_schema p)). \<forall>n \<in> set (ix_columns d). row_get prior n = row_get r n)"
proof -
  let ?E = "de_ext V"
  note parts = db_ok_parts [OF ok]
  from check obtain previous where prev: "(if id_is_above_high_watermark st (pt_name p) (pc_id c) then Inr None
      else latest_owned ?E st (pt_name p) (pc_id c)) = Inr previous"
    and prior: "(case previous of
                 None \<Rightarrow> Some (Inr None)
               | Some entry \<Rightarrow>
                   if \<not> is_tombstone entry \<and> ts_indexes (pt_schema p) \<noteq> [] then
                     (case opt of
                        Some (version, record) \<Rightarrow>
                          if version = ve_version entry then Some (Inr (Some record))
                          else obind (read_prior_for_indexes ?E (de_cache V) (st_blobs st) (st_readers st) (ve_kind entry) (pt_schema p))
                                 (\<lambda>r. Some (Inr (Some r)))
                      | None \<Rightarrow>
                          obind (read_prior_for_indexes ?E (de_cache V) (st_blobs st) (st_readers st) (ve_kind entry) (pt_schema p))
                            (\<lambda>r. Some (Inr (Some r))))
                   else Some (Inr None)) = Some (Inr (cc_prior k))"
    unfolding check_change_def prod.case obind_ok by auto
  have latest: "latest_owned ?E st (pt_name p) (pc_id c) = Inr previous"
    using prev above_watermark_absent [OF parts(8,3) t] by (auto split: if_splits)
  show ?thesis
  proof (cases previous)
    case None
    with latest t have "final_row V st [] (pt_name p) (pc_id c) = None" by (simp add: final_row_def final_record_def)
    with prior None show ?thesis by simp
  next
    case (Some e)
    note row = current_row_exists [OF parts(4) t, of "pc_id c" e]
    show ?thesis
    proof (cases "is_tombstone e")
      case True
      with row prior Some latest show ?thesis by simp
    next
      case False
      with row Some latest obtain r where r: "final_row V st [] (pt_name p) (pc_id c) = Some r" by auto
      have optimistic: "row_get rec n = row_get r n" if "opt = Some (ve_version e, rec)" "d \<in> set (ts_indexes (pt_schema p))" "n \<in> set (ix_columns d)" for rec d n
        using opt latest Some r that by (simp add: optimistic_change_def)
      obtain h where held: "holds V st (pt_schema p) (ve_kind e) h" using parts(4) t latest Some False unfolding rows_held_def by blast
      then obtain r' where r': "read_prior_for_indexes ?E (de_cache V) (st_blobs st) (st_readers st) (ve_kind e) (pt_schema p) = Some (Inr r')"
        "\<And>n. row_get r' n = (if n \<in> set (indexed_columns (pt_schema p)) then row_get h n else None)"
        unfolding holds_def read_prior_for_indexes_def column_kept_def by (metis (no_types, lifting) option.case(2))
      obtain r0 where r0: "r = with_id (pt_schema p) (pc_id c) r0" "wf_row r0"
        "\<And>n. row_get r0 n = row_get h n"
      proof -
        obtain e' r0 where e': "latest_owned ?E st (pt_name p) (pc_id c) = Inr (Some e')"
          "read_record_kind ?E (de_cache V) (st_blobs st) (st_readers st) (ve_kind e') (pt_schema p) = Some (Inr r0)" "r = with_id (pt_schema p) (pc_id c) r0"
          using current_row [OF r] t by (metis option.inject)
        then have "e' = e" using latest Some by simp
        with read_record_held [OF held] e'(2,3) that show ?thesis by (metis Inr_inject option.inject)
      qed
      have "row_get r' n = row_get r n" if "d \<in> set (ts_indexes (pt_schema p))" "n \<in> set (ix_columns d)" for d n
      proof -
        have col: "column (pt_schema p) n \<noteq> None" using index_columns_named(1) [OF parts(7) t that(1)] that(2) by blast
        then have "\<not> (has_implicit_id (pt_schema p) \<and> n = ID_COLUMN)" by (auto simp: has_implicit_id_def)
        then have "row_get r n = row_get r0 n" unfolding r0(1) row_get_with_id [OF r0(2)] by (rule if_not_P)
        with r'(2) r0(3) that show ?thesis by (auto simp: set_indexed_columns)
      qed
      note agrees = this
      have "\<exists>prior. cc_prior k = Some prior \<and> (prior = r' \<or> opt = Some (ve_version e, prior))"
        using prior Some False ix r'(1) by (cases opt) (auto split: if_splits dest: sym)
      then show ?thesis using agrees optimistic r by auto
    qed
  qed
qed

section \<open>Keeping an index\<close>

lemma modify_secondary_simps [simp]:
  "st_catalog (modify_secondary key f st) = st_catalog st" "st_index (modify_secondary key f st) = st_index st"
  "st_blobs (modify_secondary key f st) = st_blobs st" "st_readers (modify_secondary key f st) = st_readers st"
  "st_committed_version (modify_secondary key f st) = st_committed_version st" "st_table_high_ids (modify_secondary key f st) = st_table_high_ids st"
  "st_change_log (modify_secondary key f st) = st_change_log st" "st_identity_high_water (modify_secondary key f st) = st_identity_high_water st"
  by (simp_all add: modify_secondary_def)

lemma modify_secondary_lookup:
  "map_of (st_secondary (modify_secondary key f st)) k = (if k = key then map_option f (map_of (st_secondary st) k) else map_of (st_secondary st) k)"
proof -
  have "map_of (map (\<lambda>(k, si). (k, if k = key then f si else si)) xs) k = (if k = key then map_option f (map_of xs k) else map_of xs k)" for xs
    by (induction xs) auto
  then show ?thesis by (simp add: modify_secondary_def)
qed

text \<open>The updates of all indexes of a table, seen by one of them.\<close>

lemma fold_modify:
  assumes "\<forall>d \<in> set ds. short_names (ix_columns d)" and "short_names cols"
  shows "\<exists>n. (n > 0 \<longleftrightarrow> C cols \<and> cols \<in> ix_columns ` set ds)
    \<and> map_of (st_secondary (fold (\<lambda>d st. if C (ix_columns d) then modify_secondary (secondary_index_key t d) (F (ix_columns d)) st else st) ds st)) (t', secondary_index_id cols)
      = (if t' = t then map_option (F cols ^^ n) (map_of (st_secondary st) (t', secondary_index_id cols)) else map_of (st_secondary st) (t', secondary_index_id cols))"
  using assms(1)
proof (induction ds arbitrary: st)
  case Nil
  show ?case by (rule exI [of _ 0]) (simp add: option.map_id)
next
  case (Cons d ds)
  let ?step = "\<lambda>d st. if C (ix_columns d) then modify_secondary (secondary_index_key t d) (F (ix_columns d)) st else st"
  have same: "secondary_index_id (ix_columns d) = secondary_index_id cols \<longleftrightarrow> ix_columns d = cols"
    using secondary_index_id_inject assms(2) Cons.prems by auto
  from Cons.IH [of "?step d st"] Cons.prems obtain n where n: "n > 0 \<longleftrightarrow> C cols \<and> cols \<in> ix_columns ` set ds"
    "map_of (st_secondary (fold ?step ds (?step d st))) (t', secondary_index_id cols)
      = (if t' = t then map_option (F cols ^^ n) (map_of (st_secondary (?step d st)) (t', secondary_index_id cols)) else map_of (st_secondary (?step d st)) (t', secondary_index_id cols))"
    by auto
  show ?case
  proof (cases "C (ix_columns d) \<and> ix_columns d = cols")
    case True
    then have "map_of (st_secondary (fold ?step (d # ds) st)) (t', secondary_index_id cols)
      = (if t' = t then map_option (F cols ^^ Suc n) (map_of (st_secondary st) (t', secondary_index_id cols)) else map_of (st_secondary st) (t', secondary_index_id cols))"
      using n(2) by (auto simp: modify_secondary_lookup secondary_index_key_def option.map_comp comp_def funpow_swap1)
    with True show ?thesis by (intro exI [of _ "Suc n"]) auto
  next
    case False
    then have "map_of (st_secondary (?step d st)) (t', secondary_index_id cols) = map_of (st_secondary st) (t', secondary_index_id cols)"
      using same by (auto simp: modify_secondary_lookup secondary_index_key_def)
    moreover have "fold ?step (d # ds) st = fold ?step ds (?step d st)" by simp
    moreover have "n > 0 \<longleftrightarrow> C cols \<and> cols \<in> ix_columns ` set (d # ds)" using n(1) False by auto
    ultimately show ?thesis using n(2) by (intro exI [of _ n]) (simp only: simp_thms)
  qed
qed

text \<open>Removing or adding a pair more than once is doing it once.\<close>

context pair_index
begin

lemma tracks_removes:
  assumes "tracks key_of s" "key_of r = Some k" "rust_str r" "n > 0"
  shows "tracks (key_of(r := None)) ((del k r ^^ n) s)"
  using assms(4)
proof (induction n)
  case (Suc n)
  have k: "k \<in> keys" using assms(1,2) unfolding tracks_def by blast
  show ?case
  proof (cases "n = 0")
    case True
    then show ?thesis using tracks_delete [OF assms(1-3)] by (simp del: fun_upd_apply)
  next
    case False
    with Suc.IH have "tracks (key_of(r := None)) ((del k r ^^ n) s)" by (simp del: fun_upd_apply)
    with k assms(3) show ?thesis by (simp add: tracks_def invar_del member_del)
  qed
qed simp

lemma tracks_adds:
  assumes "tracks key_of s" "key_of r = None" "rust_str r" "k \<in> keys" "n > 0"
  shows "tracks (key_of(r := Some k)) ((ins k r ^^ n) s)"
  using assms(5)
proof (induction n)
  case (Suc n)
  show ?case
  proof (cases "n = 0")
    case True
    then show ?thesis using tracks_insert [OF assms(1-4)] by (simp del: fun_upd_apply)
  next
    case False
    with Suc.IH have "tracks (key_of(r := Some k)) ((ins k r ^^ n) s)" by (simp del: fun_upd_apply)
    with assms(3,4) show ?thesis by (auto simp: tracks_def invar_ins member_ins)
  qed
qed simp

end

text \<open>One change keeps an index: the pair of the old row is replaced by that of the new one.\<close>

lemma apply_keys_tracks:
  fixes prior put :: "'j row option"
  assumes ds: "\<forall>d \<in> set ds. short_names (ix_columns d)" and cols: "cols \<in> ix_columns ` set ds" and some: "cols \<noteq> []" and rid: "rust_str rid"
    and si: "map_of (st_secondary st) (t, secondary_index_id cols) = Some si"
    and tracks: "sec.tracks (crc32 E) (tuple_keys E (length cols)) key_of si"
    and old: "key_of rid = map_option (\<lambda>r. secondary_tuple_key E r cols) prior"
    and ord: "\<And>r. prior = Some r \<Longrightarrow> orderable_row r cols" "\<And>r. put = Some r \<Longrightarrow> orderable_row r cols"
    and st': "st' = fold (add_new_key E t rid prior put) ds (fold (remove_old_key E t rid prior put) ds st)"
  shows "\<exists>si'. map_of (st_secondary st') (t, secondary_index_id cols) = Some si'
    \<and> sec.tracks (crc32 E) (tuple_keys E (length cols)) (key_of(rid := map_option (\<lambda>r. secondary_tuple_key E r cols) put)) si'"
proof -
  let ?un = "\<lambda>cs. list_all (unchanged E prior put) cs"
  have short: "short_names cols" using ds cols by auto
  define rem where "rem = (\<lambda>cs. sec_remove (crc32 E) (secondary_tuple_key E (the prior) cs) rid)"
  define add where "add = (\<lambda>cs. sec_add (secondary_tuple_key E (the put) cs) rid)"
  have remove: "remove_old_key E t rid prior put = (\<lambda>d st. if prior \<noteq> None \<and> \<not> ?un (ix_columns d) then modify_secondary (secondary_index_key t d) (rem (ix_columns d)) st else st)"
    by (auto simp: fun_eq_iff remove_old_key_def rem_def split: option.split)
  have new: "add_new_key E t rid prior put = (\<lambda>d st. if put \<noteq> None \<and> \<not> ?un (ix_columns d) then modify_secondary (secondary_index_key t d) (add (ix_columns d)) st else st)"
    by (auto simp: fun_eq_iff add_new_key_def add_def split: option.split)
  obtain n where n: "n > 0 \<longleftrightarrow> (prior \<noteq> None \<and> \<not> ?un cols) \<and> cols \<in> ix_columns ` set ds"
    "map_of (st_secondary (fold (remove_old_key E t rid prior put) ds st)) (t, secondary_index_id cols) = map_option (rem cols ^^ n) (map_of (st_secondary st) (t, secondary_index_id cols))"
    using fold_modify [OF ds short, of "\<lambda>cs. prior \<noteq> None \<and> \<not> ?un cs" t rem st t] unfolding remove by auto
  obtain m where m: "m > 0 \<longleftrightarrow> (put \<noteq> None \<and> \<not> ?un cols) \<and> cols \<in> ix_columns ` set ds"
    "map_of (st_secondary st') (t, secondary_index_id cols)
      = map_option (add cols ^^ m) (map_of (st_secondary (fold (remove_old_key E t rid prior put) ds st)) (t, secondary_index_id cols))"
    using fold_modify [OF ds short, of "\<lambda>cs. put \<noteq> None \<and> \<not> ?un cs" t add "fold (remove_old_key E t rid prior put) ds st" t]
    unfolding st' new by auto
  have lookup: "map_of (st_secondary st') (t, secondary_index_id cols) = Some ((add cols ^^ m) ((rem cols ^^ n) si))"
    using n(2) m(2) si by simp
  let ?K = "tuple_keys E (length cols)" and ?key = "\<lambda>r. secondary_tuple_key E r cols"
  have "sec.tracks (crc32 E) ?K (key_of(rid := map_option ?key put)) ((add cols ^^ m) ((rem cols ^^ n) si))"
  proof (cases "?un cols")
    case True
    then have "n = 0" "m = 0" using n(1) m(1) by auto
    moreover have "map_option ?key put = map_option ?key prior"
    proof (cases "prior = None \<or> put = None")
      case True
      then have False using \<open>?un cols\<close> some by (cases cols) (auto simp: unchanged_def split: option.splits)
      then show ?thesis ..
    next
      case False
      then obtain p r where pr: "prior = Some p" "put = Some r" by auto
      with True have "same_values E cols p r"
        by (auto simp: same_values_def list_all_iff unchanged_def column_value_def value_eq_def elim!: option.rel_cases split: option.split)
      with same_key_iff [OF ord(1) ord(2), of p r E] pr show ?thesis by simp
    qed
    ultimately show ?thesis using tracks old by (simp add: fun_upd_idem)
  next
    case False
    have removed: "sec.tracks (crc32 E) ?K (key_of(rid := None)) ((rem cols ^^ n) si)"
    proof (cases prior)
      case None
      then have "n = 0" using n(1) by simp
      with None old tracks show ?thesis by (simp add: fun_upd_idem)
    next
      case (Some p)
      then have "n > 0" "key_of rid = Some (?key p)" using n(1) False cols old by auto
      from sec.tracks_removes [OF tracks this(2) rid this(1)] Some show ?thesis by (simp add: rem_def)
    qed
    show ?thesis
    proof (cases put)
      case None
      then have "m = 0" using m(1) by simp
      with None removed show ?thesis by simp
    next
      case (Some r)
      then have "m > 0" "?key r \<in> ?K" using m(1) False cols secondary_key_in [OF ord(2)] by auto
      from sec.tracks_adds [OF removed _ rid this(2,1)] Some show ?thesis by (simp add: add_def)
    qed
  qed
  with lookup show ?thesis by blast
qed

lemma apply_keys_other:
  assumes "\<forall>d \<in> set ds. short_names (ix_columns d)" and "short_names cols" and "t' \<noteq> t"
  shows "map_of (st_secondary (fold (add_new_key E t rid prior put) ds (fold (remove_old_key E t rid prior put) ds st))) (t', secondary_index_id cols)
    = map_of (st_secondary st) (t', secondary_index_id cols)"
proof -
  have remove: "remove_old_key E t rid prior put = (\<lambda>d st. if prior \<noteq> None \<and> \<not> list_all (unchanged E prior put) (ix_columns d)
      then modify_secondary (secondary_index_key t d) (sec_remove (crc32 E) (secondary_tuple_key E (the prior) (ix_columns d)) rid) st else st)"
    by (auto simp: fun_eq_iff remove_old_key_def split: option.split)
  have new: "add_new_key E t rid prior put = (\<lambda>d st. if put \<noteq> None \<and> \<not> list_all (unchanged E prior put) (ix_columns d)
      then modify_secondary (secondary_index_key t d) (sec_add (secondary_tuple_key E (the put) (ix_columns d)) rid) st else st)"
    by (auto simp: fun_eq_iff add_new_key_def split: option.split)
  have step: "map_of (st_secondary (fold (\<lambda>d st. if C (ix_columns d) then modify_secondary (secondary_index_key t d) (F (ix_columns d)) st else st) ds st0)) (t', secondary_index_id cols)
      = map_of (st_secondary st0) (t', secondary_index_id cols)" for C F and st0 :: "'b db_state"
    using fold_modify [OF assms(1,2), of C t F st0 t'] unfolding if_not_P [OF assms(3)] by blast
  show ?thesis
    unfolding remove new
    using step [of "\<lambda>cs. put \<noteq> None \<and> \<not> list_all (unchanged E prior put) cs" "\<lambda>cs. sec_add (secondary_tuple_key E (the put) cs) rid"]
      step [of "\<lambda>cs. prior \<noteq> None \<and> \<not> list_all (unchanged E prior put) cs" "\<lambda>cs. sec_remove (crc32 E) (secondary_tuple_key E (the prior) cs) rid"]
    by (rule trans)
qed

lemma keys_domain:
  "map_of (st_secondary (fold (remove_old_key E t rid prior put) ds st)) k = None \<longleftrightarrow> map_of (st_secondary st) k = None"
  "map_of (st_secondary (fold (add_new_key E t rid prior put) ds st)) k = None \<longleftrightarrow> map_of (st_secondary st) k = None"
  by (induction ds arbitrary: st) (auto simp: remove_old_key_def add_new_key_def modify_secondary_lookup split: option.split)

lemma keys_frame:
  "st_catalog (fold (remove_old_key E t rid prior put) ds st) = st_catalog st \<and> st_index (fold (remove_old_key E t rid prior put) ds st) = st_index st
   \<and> st_blobs (fold (remove_old_key E t rid prior put) ds st) = st_blobs st \<and> st_readers (fold (remove_old_key E t rid prior put) ds st) = st_readers st
   \<and> st_committed_version (fold (remove_old_key E t rid prior put) ds st) = st_committed_version st
   \<and> st_table_high_ids (fold (remove_old_key E t rid prior put) ds st) = st_table_high_ids st
   \<and> st_change_log (fold (remove_old_key E t rid prior put) ds st) = st_change_log st"
  "st_catalog (fold (add_new_key E t rid prior put) ds st) = st_catalog st \<and> st_index (fold (add_new_key E t rid prior put) ds st) = st_index st
   \<and> st_blobs (fold (add_new_key E t rid prior put) ds st) = st_blobs st \<and> st_readers (fold (add_new_key E t rid prior put) ds st) = st_readers st
   \<and> st_committed_version (fold (add_new_key E t rid prior put) ds st) = st_committed_version st
   \<and> st_table_high_ids (fold (add_new_key E t rid prior put) ds st) = st_table_high_ids st
   \<and> st_change_log (fold (add_new_key E t rid prior put) ds st) = st_change_log st"
  by (induction ds arbitrary: st) (auto simp: remove_old_key_def add_new_key_def split: option.split)

section \<open>The state while a commit is applied\<close>

definition row_key :: "'j ext \<Rightarrow> string list \<Rightarrow> 'j row option \<Rightarrow> bytes option" where
  "row_key E cols = map_option (\<lambda>r. secondary_tuple_key E r cols)"

definition row_keys :: "'j db_env \<Rightarrow> 'j db_state \<Rightarrow> 'j prepared_table list \<Rightarrow> (string \<times> string) set \<Rightarrow> string \<Rightarrow> string list \<Rightarrow> string \<Rightarrow> bytes option" where
  "row_keys V st staged D t cols rid = row_key (de_ext V) cols (if (t, rid) \<in> D then final_row V st staged t rid else final_row V st [] t rid)"

definition new_entry :: "bytes \<Rightarrow> u64 \<Rightarrow> 'j prepared_change \<Rightarrow> version_entry" where
  "new_entry arena version c = \<lparr>ve_version = version, ve_kind = (case put_of arena c of Some (put, _) \<Rightarrow> MemPut put | None \<Rightarrow> MemTombstone)\<rparr>"

definition new_versions :: "bytes \<Rightarrow> u64 \<Rightarrow> 'j prepared_table list \<Rightarrow> (string \<times> string) set \<Rightarrow> string \<Rightarrow> string \<Rightarrow> version_list" where
  "new_versions arena version staged D t rid =
     (if (t, rid) \<in> D then (case find_prepared_change staged t rid of Some c \<Rightarrow> [new_entry arena version c] | None \<Rightarrow> []) else [])"

definition index_current :: "'j db_env \<Rightarrow> 'j db_state \<Rightarrow> 'j prepared_table list \<Rightarrow> (string \<times> string) set \<Rightarrow> 'j db_state \<Rightarrow> string \<Rightarrow> string list \<Rightarrow> bool" where
  "index_current V st staged D st1 t cols \<longleftrightarrow>
     (case map_of (st_secondary st) (t, secondary_index_id cols) of
        None \<Rightarrow> map_of (st_secondary st1) (t, secondary_index_id cols) = None
      | Some _ \<Rightarrow> \<exists>si'. map_of (st_secondary st1) (t, secondary_index_id cols) = Some si'
          \<and> sec.tracks (crc32 (de_ext V)) (tuple_keys (de_ext V) (length cols)) (row_keys V st staged D t cols) si')"

text \<open>The part of a state that does not change while it is applied.\<close>

definition same_frame :: "'j db_state \<Rightarrow> 'j db_state \<Rightarrow> bool" where
  "same_frame st st1 \<longleftrightarrow> st_catalog st1 = st_catalog st \<and> st_blobs st1 = st_blobs st \<and> st_readers st1 = st_readers st
     \<and> st_committed_version st1 = st_committed_version st"

definition applied :: "'j db_env \<Rightarrow> 'j db_state \<Rightarrow> 'j prepared_table list \<Rightarrow> bytes \<Rightarrow> u64 \<Rightarrow> (string \<times> string) set \<Rightarrow> 'j db_state \<Rightarrow> bool" where
  "applied V st staged arena version D st1 \<longleftrightarrow> same_frame st st1 \<and> idx_ok (crc32 (de_ext V)) (st_index st1)
     \<and> (\<forall>t rid. all_versions (crc32 (de_ext V)) (st_index st1) t rid
          = all_versions (crc32 (de_ext V)) (st_index st) t rid @ new_versions arena version staged D t rid)
     \<and> (\<forall>t cols. short_names cols \<longrightarrow> index_current V st staged D st1 t cols)"

lemma applied_start:
  assumes ok: "db_ok S V st"
  shows "applied V st staged arena version {} st"
proof -
  note parts = db_ok_parts [OF ok]
  have "index_current V st staged {} st t cols" if short: "short_names cols" for t cols
  proof (cases "map_of (st_secondary st) (t, secondary_index_id cols)")
    case None
    then show ?thesis by (simp add: index_current_def)
  next
    case (Some si)
    then have exact: "index_exact V st t cols si" using parts(11) short unfolding indexes_exact_def by blast
    obtain schema d where d: "table (st_catalog st) t = Some schema" "d \<in> set (ts_indexes schema)" "cols = ix_columns d"
      using parts(5) short Some unfolding secondary_declared_def by blast
    have "k \<in> tuple_keys (de_ext V) (length cols)" if "row_keys V st staged {} t cols rid = Some k" for rid k
    proof -
      from that obtain r where "final_row V st [] t rid = Some r" "k = secondary_tuple_key (de_ext V) r cols"
        by (auto simp: row_keys_def row_key_def)
      with parts(12) d secondary_key_in [of r cols "de_ext V"] show ?thesis unfolding indexable_def by blast
    qed
    with exact have "sec.tracks (crc32 (de_ext V)) (tuple_keys (de_ext V) (length cols)) (row_keys V st staged {} t cols) si"
      unfolding sec.tracks_def index_exact_def by (auto simp: row_keys_def row_key_def)
    with Some show ?thesis by (simp add: index_current_def)
  qed
  then show ?thesis using parts(8) by (simp add: applied_def same_frame_def new_versions_def)
qed

lemma apply_one_owned_parts:
  shows "st_secondary (apply_one_owned E version schema t rid put prior st)
      = st_secondary (fold (add_new_key E t rid prior (map_option snd put)) (ts_indexes schema) (fold (remove_old_key E t rid prior (map_option snd put)) (ts_indexes schema) st))"
    and "st_index (apply_one_owned E version schema t rid put prior st)
      = primary_push t rid \<lparr>ve_version = version, ve_kind = (case map_option fst put of Some p \<Rightarrow> MemPut p | None \<Rightarrow> MemTombstone)\<rparr> (st_index st)"
    and "same_frame st (apply_one_owned E version schema t rid put prior st)"
    and "st_table_high_ids (apply_one_owned E version schema t rid put prior st) = st_table_high_ids st"
    and "st_change_log (apply_one_owned E version schema t rid put prior st) = st_change_log st"
  using keys_frame(1) [of E t rid prior "map_option snd put" "ts_indexes schema" st]
    keys_frame(2) [of E t rid prior "map_option snd put" "ts_indexes schema" "fold (remove_old_key E t rid prior (map_option snd put)) (ts_indexes schema) st"]
  by (auto simp: apply_one_owned_def push_version_def Let_def same_frame_def)

lemma note_superseded_simps [simp]:
  "st_secondary (note_superseded previous st) = st_secondary st" "st_index (note_superseded previous st) = st_index st"
  "same_frame st (note_superseded previous st)" "st_table_high_ids (note_superseded previous st) = st_table_high_ids st"
  "st_change_log (note_superseded previous st) = st_change_log st"
  by (auto simp: note_superseded_def same_frame_def split: option.split vkind.split)

lemma same_frame_trans: "same_frame a b \<Longrightarrow> same_frame b c \<Longrightarrow> same_frame a c"
  by (simp add: same_frame_def)

lemma apply_change_parts:
  shows "st_secondary (apply_change E arena version p (c, k) st)
      = st_secondary (fold (add_new_key E (pt_name p) (pc_id c) (cc_prior k) (map_option snd (put_of arena c))) (ts_indexes (pt_schema p))
          (fold (remove_old_key E (pt_name p) (pc_id c) (cc_prior k) (map_option snd (put_of arena c))) (ts_indexes (pt_schema p)) (note_superseded (cc_previous k) st)))"
    and "st_index (apply_change E arena version p (c, k) st) = primary_push (pt_name p) (pc_id c) (new_entry arena version c) (st_index st)"
    and "same_frame st (apply_change E arena version p (c, k) st)"
    and "st_table_high_ids (apply_change E arena version p (c, k) st) = st_table_high_ids st"
    and "st_change_log (apply_change E arena version p (c, k) st) = st_change_log st"
  using apply_one_owned_parts [where E = E and version = version and schema = "pt_schema p" and t = "pt_name p" and rid = "pc_id c"
      and put = "put_of arena c" and prior = "cc_prior k" and st = "note_superseded (cc_previous k) st"]
    same_frame_trans [OF note_superseded_simps(3) [of st "cc_previous k"]]
  by (auto simp: apply_change_def new_entry_def split: option.split)

text \<open>The row a change puts, and its keys.\<close>

lemma put_operation:
  assumes "staged_rows_ok V st arena staged" "p \<in> set staged" "c \<in> set (pt_changes p)"
  shows "map_option snd (put_of arena c) = pc_operation c"
  using staged_rows_okD(3) [OF assms] by (cases "pc_operation c") (force simp: put_of_def)+

lemma staged_key:
  assumes ok: "staged_ok st staged" and cat: "validate_catalog S (st_catalog st) = Inr ()" and p: "p \<in> set staged" "c \<in> set (pt_changes p)"
    and d: "d \<in> set (ts_indexes (pt_schema p))"
  shows "row_key E (ix_columns d) (final_row V st staged (pt_name p) (pc_id c)) = row_key E (ix_columns d) (pc_operation c)"
proof (cases "pc_operation c")
  case None
  then show ?thesis by (simp add: final_row_staged [OF ok p] row_key_def)
next
  case (Some r)
  have t: "table (st_catalog st) (pt_name p) = Some (pt_schema p)" and wf: "wf_row r" using ok p Some by (auto simp: staged_ok_def)
  from tuple_key_with_id [OF wf, of "ix_columns d" "pt_schema p" E "pc_id c"] index_columns_named(1) [OF cat t d] Some
  show ?thesis by (simp add: final_row_staged [OF ok p] row_key_def)
qed

text \<open>The keys of a row depend on the values of the columns.\<close>

lemma row_key_cong: "(\<And>n. n \<in> set cols \<Longrightarrow> row_get r n = row_get s n) \<Longrightarrow> secondary_tuple_key E r cols = secondary_tuple_key E s cols \<and> (orderable_row r cols \<longleftrightarrow> orderable_row s cols)"
  by (simp add: secondary_tuple_key_values orderable_row_def column_value_def list_all_iff cong: map_cong)

lemma next_version_less:
  assumes "(v :: u64) \<le> w" "w \<noteq> - 1"
  shows "v < w + 1"
proof -
  have "unat (w + 1) = Suc (unat w)" using assms(2) by (rule unat_succ)
  with assms(1) show ?thesis by (simp add: word_less_nat_alt word_le_nat_alt)
qed

lemma checked_prior:
  assumes ok: "db_ok S V st" and t: "table (st_catalog st) (pt_name p) = Some (pt_schema p)" and k: "checked_as V st snap p c k"
    and d: "d \<in> set (ts_indexes (pt_schema p))"
  shows "row_key E (ix_columns d) (cc_prior k) = row_key E (ix_columns d) (final_row V st [] (pt_name p) (pc_id c))"
    and "cc_prior k = Some r \<Longrightarrow> orderable_row r (ix_columns d)"
proof -
  from k obtain p0 c0 opt where k0: "pt_name p0 = pt_name p" "pt_schema p0 = pt_schema p" "check_change V st snap p0 (c0, opt) = Some (Inr k)"
    "optimistic_change V st p0 c0 opt" "pc_id c0 = pc_id c" by (auto simp: checked_as_def replayed_change_def)
  have "ts_indexes (pt_schema p0) \<noteq> []" using d k0(2) by auto
  from check_change_prior [OF ok _ k0(3,4) this, unfolded k0(1,2,5)] t
  have prior: "case final_row V st [] (pt_name p) (pc_id c) of None \<Rightarrow> cc_prior k = None
      | Some r \<Rightarrow> \<exists>q. cc_prior k = Some q \<and> (\<forall>d \<in> set (ts_indexes (pt_schema p)). \<forall>n \<in> set (ix_columns d). row_get q n = row_get r n)" by simp
  show "row_key E (ix_columns d) (cc_prior k) = row_key E (ix_columns d) (final_row V st [] (pt_name p) (pc_id c))"
  proof (cases "final_row V st [] (pt_name p) (pc_id c)")
    case None
    with prior show ?thesis by (simp add: row_key_def)
  next
    case (Some row)
    with prior d obtain q where "cc_prior k = Some q" "\<forall>n \<in> set (ix_columns d). row_get q n = row_get row n" by auto
    with Some row_key_cong [of "ix_columns d" q row E] show ?thesis by (simp add: row_key_def)
  qed
  assume r: "cc_prior k = Some r"
  then obtain row where row: "final_row V st [] (pt_name p) (pc_id c) = Some row" using prior by (cases "final_row V st [] (pt_name p) (pc_id c)") auto
  have "orderable_row row (ix_columns d)" using db_ok_parts(12) [OF ok] t d row unfolding indexable_def by blast
  with prior row r d row_key_cong [of "ix_columns d" r row] show "orderable_row r (ix_columns d)" by simp
qed

lemma applied_step:
  assumes ok: "db_ok S V st" and staged: "staged_ok st staged" and rows: "staged_rows_ok V st arena staged"
    and version: "version = st_committed_version st + 1" "st_committed_version st \<noteq> - 1"
    and p: "p \<in> set staged" "c \<in> set (pt_changes p)" and k: "checked_as V st snap p c k"
    and D: "(pt_name p, pc_id c) \<notin> D" and before: "applied V st staged arena version D st1"
  shows "applied V st staged arena version (insert (pt_name p, pc_id c) D) (apply_change (de_ext V) arena version p (c, k) st1)"
proof -
  let ?E = "de_ext V" and ?t = "pt_name p" and ?rid = "pc_id c" and ?st2 = "apply_change (de_ext V) arena version p (c, k) st1"
  let ?ds = "ts_indexes (pt_schema p)" and ?put = "map_option snd (put_of arena c)"
  note parts = db_ok_parts [OF ok] and change = apply_change_parts [where E = ?E and arena = arena and version = version and p = p and c = c and k = k and st = st1]
  have t: "table (st_catalog st) ?t = Some (pt_schema p)" and rid: "rust_str ?rid" using staged p by (auto simp: staged_ok_def)
  have find: "find_prepared_change staged ?t ?rid = Some c" by (rule staged_change [OF staged p])
  have put: "?put = pc_operation c" by (rule put_operation [OF rows p])
  have frame: "same_frame st ?st2" using before change(3) same_frame_trans by (auto simp: applied_def)
  have old: "all_versions (crc32 ?E) (st_index st1) ?t ?rid = all_versions (crc32 ?E) (st_index st) ?t ?rid"
    using before D by (simp add: applied_def new_versions_def)
  have less: "v < version" if "v \<le> st_committed_version st" for v
    using that version by (simp add: next_version_less)
  have newer: "\<forall>e \<in> set (all_versions (crc32 ?E) (st_index st1) ?t ?rid). ve_version e < ve_version (new_entry arena version c)"
    unfolding old using parts(2) less by (auto simp: versions_below_def new_entry_def)
  have fits: "table_fits ?t" by (rule declared_table_fits [OF parts(7) t])
  note push = primary_push_ok [OF _ fits rid newer]
  have idx1: "idx_ok (crc32 ?E) (st_index st1)" using before by (simp add: applied_def)
  have versions: "all_versions (crc32 ?E) (st_index ?st2) t' r = all_versions (crc32 ?E) (st_index st) t' r
      @ new_versions arena version staged (insert (?t, ?rid) D) t' r" for t' r
    using before push(2) [OF idx1, of t' r] D find unfolding change(2) by (auto simp: applied_def new_versions_def)
  have names: "\<forall>d \<in> set ?ds. short_names (ix_columns d)" using index_columns_named(2) [OF parts(7) t] by blast
  have "index_current V st staged (insert (?t, ?rid) D) ?st2 t' cols" if short: "short_names cols" for t' cols
  proof (cases "map_of (st_secondary st) (t', secondary_index_id cols)")
    case None
    have "index_current V st staged D st1 t' cols" using before short by (simp add: applied_def)
    with None have "map_of (st_secondary st1) (t', secondary_index_id cols) = None" by (simp add: index_current_def)
    then have "map_of (st_secondary ?st2) (t', secondary_index_id cols) = None" unfolding change(1) keys_domain by simp
    with None show ?thesis by (simp add: index_current_def)
  next
    case (Some si0)
    then obtain si where si: "map_of (st_secondary st1) (t', secondary_index_id cols) = Some si"
      and tracks: "sec.tracks (crc32 ?E) (tuple_keys ?E (length cols)) (row_keys V st staged D t' cols) si"
    proof -
      have "index_current V st staged D st1 t' cols" using before short by (simp add: applied_def)
      with Some that show ?thesis by (auto simp: index_current_def)
    qed
    show ?thesis
    proof (cases "t' = ?t")
      case False
      have "row_keys V st staged (insert (?t, ?rid) D) t' cols = row_keys V st staged D t' cols" using False by (auto simp: row_keys_def fun_eq_iff)
      moreover have "map_of (st_secondary ?st2) (t', secondary_index_id cols) = Some si"
        unfolding change(1) apply_keys_other [OF names short False] using si by simp
      ultimately show ?thesis using Some tracks by (auto simp: index_current_def)
    next
      case True
      from parts(5) short Some obtain schema where schema: "table (st_catalog st) t' = Some schema" "cols \<in> ix_columns ` set (ts_indexes schema)"
        unfolding secondary_declared_def by blast
      have "schema = pt_schema p" using schema(1) t True by simp
      with schema(2) obtain d where d: "d \<in> set ?ds" "cols = ix_columns d" by blast
      have old_key: "row_keys V st staged D t' cols ?rid = map_option (\<lambda>r. secondary_tuple_key ?E r cols) (cc_prior k)"
        using checked_prior(1) [OF ok t k d(1), of ?E] D True d(2) by (simp add: row_keys_def row_key_def)
      have new_key: "row_keys V st staged (insert (?t, ?rid) D) t' cols = (row_keys V st staged D t' cols)(?rid := map_option (\<lambda>r. secondary_tuple_key ?E r cols) ?put)"
        using staged_key [OF staged parts(7) p d(1), of ?E V] True d(2) put by (auto simp: row_keys_def row_key_def fun_eq_iff)
      have ord: "orderable_row r cols" if "pc_operation c = Some r" for r
        using staged_rows_okD(2) [OF rows p that d(1)] d(2) by simp
      have "map_of (st_secondary (note_superseded (cc_previous k) st1)) (t', secondary_index_id cols) = Some si" using si by simp
      note state = this
      have "\<exists>si'. map_of (st_secondary ?st2) (t', secondary_index_id cols) = Some si'
        \<and> sec.tracks (crc32 ?E) (tuple_keys ?E (length cols)) (row_keys V st staged (insert (?t, ?rid) D) t' cols) si'"
        unfolding change(1) new_key put unfolding True
      proof (rule apply_keys_tracks [OF names _ _ rid state [unfolded True] tracks [unfolded True] old_key [unfolded True] _ _ refl])
        show "cols \<in> ix_columns ` set ?ds" "cols \<noteq> []" using d index_columns_named(4) [OF parts(7) t d(1)] by auto
        show "orderable_row r cols" if "cc_prior k = Some r" for r using checked_prior(2) [OF ok t k d(1) that] d(2) by simp
        show "orderable_row r cols" if "pc_operation c = Some r" for r using that by (rule ord)
      qed
      with Some show ?thesis by (simp add: index_current_def)
    qed
  qed
  with frame versions push(1) [OF idx1] change(2) show ?thesis unfolding applied_def by simp
qed

section \<open>Applying all changes\<close>

lemma applied_cong:
  assumes "applied V st staged arena version D st1" and "same_frame st1 st2" "st_index st2 = st_index st1" "st_secondary st2 = st_secondary st1"
  shows "applied V st staged arena version D st2"
  using assms(1,2) same_frame_trans [of st st1 st2] unfolding applied_def index_current_def assms(3,4) by blast

text \<open>The greatest ids and the log of changes.\<close>

definition noted :: "'j db_state \<Rightarrow> u64 \<Rightarrow> (string \<times> string) set \<Rightarrow> 'j db_state \<Rightarrow> bool" where
  "noted st version D st1 \<longleftrightarrow>
     (\<forall>t h. map_of (st_table_high_ids st) t = Some h \<longrightarrow> (\<exists>h'. map_of (st_table_high_ids st1) t = Some h' \<and> h \<le> h'))
     \<and> (\<forall>t rid. (t, rid) \<in> D \<longrightarrow> (\<exists>h. map_of (st_table_high_ids st1) t = Some h \<and> rid \<le> h))
     \<and> (\<exists>hist. log_ok hist (st_change_log st1) \<and> (\<forall>e \<in> set hist. cl_version e \<le> version))"

lemma record_high_id_simps [simp]:
  "st_secondary (record_high_id t rid st) = st_secondary st" "st_index (record_high_id t rid st) = st_index st"
  "same_frame st (record_high_id t rid st)" "st_change_log (record_high_id t rid st) = st_change_log st"
  by (auto simp: record_high_id_def same_frame_def split: option.split)

lemma record_high_id_lookup:
  "map_of (st_table_high_ids (record_high_id t rid st)) t' =
     (if t' = t then Some (case map_of (st_table_high_ids st) t of None \<Rightarrow> rid | Some h \<Rightarrow> max h rid) else map_of (st_table_high_ids st) t')"
  by (auto simp: record_high_id_def update_conv' max_def not_less split: option.split)

definition change_keys :: "'j prepared_table \<Rightarrow> (string \<times> string) set" where
  "change_keys p = Pair (pt_name p) ` pc_id ` set (pt_changes p)"

text \<open>A commit that has passed its checks.\<close>

definition applying :: "'j sys \<Rightarrow> 'j db_env \<Rightarrow> 'j db_state \<Rightarrow> 'j prepared_table list \<Rightarrow> bytes \<Rightarrow> u64 \<Rightarrow> bool" where
  "applying S V st staged arena version \<longleftrightarrow> db_ok S V st \<and> staged_ok st staged \<and> staged_rows_ok V st arena staged
     \<and> version = st_committed_version st + 1 \<and> st_committed_version st \<noteq> - 1"

lemma applied_changes:
  assumes ctx: "applying S V st staged arena version" and p: "p \<in> set staged"
    and "fst ` set xs \<subseteq> set (pt_changes p)" and "\<forall>(c, k) \<in> set xs. checked_as V st snap p c k"
    and "distinct (map (pc_id \<circ> fst) xs)" and "\<forall>x \<in> set xs. (pt_name p, pc_id (fst x)) \<notin> D" and "applied V st staged arena version D st1"
  shows "applied V st staged arena version (D \<union> Pair (pt_name p) ` pc_id ` fst ` set xs) (fold (apply_change (de_ext V) arena version p) xs st1)
    \<and> st_table_high_ids (fold (apply_change (de_ext V) arena version p) xs st1) = st_table_high_ids st1
    \<and> st_change_log (fold (apply_change (de_ext V) arena version p) xs st1) = st_change_log st1"
  using assms(3-)
proof (induction xs arbitrary: D st1)
  case (Cons x xs)
  obtain c k where x: "x = (c, k)" by (cases x)
  have "applied V st staged arena version (insert (pt_name p, pc_id c) D) (apply_change (de_ext V) arena version p x st1)"
    unfolding x using ctx p Cons.prems x by (intro applied_step [where snap = snap and S = S]) (auto simp: applying_def)
  note step = Cons.IH [OF _ _ _ _ this]
  have "\<forall>y \<in> set xs. (pt_name p, pc_id (fst y)) \<notin> insert (pt_name p, pc_id c) D" using Cons.prems(3,4) x by force
  with step Cons.prems(1-3) x show ?case
    using apply_change_parts(4,5) [where E = "de_ext V" and arena = arena and version = version and p = p and c = c and k = k and st = st1] by simp
qed simp

lemma applied_table:
  assumes ctx: "applying S V st staged arena version" and p: "p \<in> set staged" and valid: "validated_table V st snap (p, ks)"
    and D: "\<forall>rid. (pt_name p, rid) \<notin> D" and before: "applied V st staged arena version D st1" "noted st version D st1"
  shows "\<exists>st2. apply_table (de_ext V) arena version (p, ks) st1 = Some st2
    \<and> applied V st staged arena version (D \<union> change_keys p) st2 \<and> noted st version (D \<union> change_keys p) st2"
proof -
  from valid have changes: "pt_changes p \<noteq> []" "sorted_wrt (<) (map pc_id (pt_changes p))" "list_all2 (checked_as V st snap p) (pt_changes p) ks"
    by (simp_all add: validated_table_def)
  let ?xs = "zip (pt_changes p) ks" and ?rid = "pc_id (last (pt_changes p))"
  let ?st1 = "fold (apply_change (de_ext V) arena version p) ?xs st1"
  let ?st2 = "record_high_id (pt_name p) ?rid ?st1"
  have len: "length ks = length (pt_changes p)" using changes(3) by (auto dest: list_all2_lengthD)
  have fst: "map fst ?xs = pt_changes p" using len by simp
  have "distinct (map pc_id (pt_changes p))" using changes(2) by (simp add: strict_sorted_iff)
  then have "distinct (map (pc_id \<circ> fst) ?xs)" using fst by (metis list.map_comp)
  moreover have "fst ` set ?xs = set (pt_changes p)" using fst by (metis list.set_map)
  moreover have "\<forall>(c, k) \<in> set ?xs. checked_as V st snap p c k" using changes(3) by (auto simp: list_all2_iff)
  ultimately have step: "applied V st staged arena version (D \<union> change_keys p) ?st1" "st_table_high_ids ?st1 = st_table_high_ids st1" "st_change_log ?st1 = st_change_log st1"
    using applied_changes [OF ctx p, of ?xs snap D st1] D before(1) by (simp_all add: change_keys_def)
  from before(2) obtain hist where hist: "log_ok hist (st_change_log st1)" "\<forall>e \<in> set hist. cl_version e \<le> version" by (auto simp: noted_def)
  let ?hist = "hist @ [\<lparr>cl_version = version, cl_table = pt_name p, cl_ids = map pc_id (pt_changes p)\<rparr>]"
  from log_push_ok [OF hist, of "pt_name p" "map pc_id (pt_changes p)"] changes(1) obtain l
    where l: "log_push version (pt_name p) (map pc_id (pt_changes p)) (st_change_log st1) = Some l" "log_ok ?hist l" by auto
  let ?st3 = "?st2\<lparr>st_change_log := l\<rparr>"
  have result: "apply_table (de_ext V) arena version (p, ks) st1 = Some ?st3"
    using changes(1) l(1) step(3) by (simp add: apply_table_def Let_def)
  have "same_frame ?st1 ?st3" using record_high_id_simps(3) [of ?st1 "pt_name p" ?rid] by (simp add: same_frame_def)
  then have "applied V st staged arena version (D \<union> change_keys p) ?st3" by (rule applied_cong [OF step(1)]) simp_all
  moreover have "noted st version (D \<union> change_keys p) ?st3"
  proof -
    have lower: "pc_id c \<le> ?rid" if "c \<in> set (pt_changes p)" for c
      using changes(1,2) that by (cases "pt_changes p" rule: rev_cases) (auto simp: sorted_wrt_append)
    have ids: "map_of (st_table_high_ids ?st3) t = (if t = pt_name p then Some (case map_of (st_table_high_ids st1) t of None \<Rightarrow> ?rid | Some h \<Rightarrow> max h ?rid) else map_of (st_table_high_ids st1) t)" for t
      using step(2) by (simp add: record_high_id_lookup)
    have "\<exists>h'. map_of (st_table_high_ids ?st3) t = Some h' \<and> h \<le> h'" if "map_of (st_table_high_ids st) t = Some h" for t h
    proof -
      from before(2) that obtain h' where "map_of (st_table_high_ids st1) t = Some h'" "h \<le> h'" unfolding noted_def by blast
      then show ?thesis unfolding ids by (auto intro: max.coboundedI1)
    qed
    moreover have "\<exists>h. map_of (st_table_high_ids ?st3) t = Some h \<and> rid \<le> h" if "(t, rid) \<in> D \<union> change_keys p" for t rid
    proof (cases "(t, rid) \<in> D")
      case True
      with before(2) obtain h where "map_of (st_table_high_ids st1) t = Some h" "rid \<le> h" unfolding noted_def by blast
      with True D show ?thesis unfolding ids by auto
    next
      case False
      with that lower have "t = pt_name p" "rid \<le> ?rid" by (auto simp: change_keys_def)
      then show ?thesis unfolding ids by (auto intro: max.coboundedI2 split: option.split)
    qed
    moreover have "log_ok ?hist (st_change_log ?st3)" "\<forall>e \<in> set ?hist. cl_version e \<le> version" using l(2) hist(2) by simp_all
    ultimately show ?thesis unfolding noted_def by blast
  qed
  ultimately show ?thesis using result by blast
qed

lemma applied_tables:
  assumes ctx: "applying S V st staged arena version" and "set (map fst xs) \<subseteq> set staged" and "list_all (validated_table V st snap) xs"
    and "distinct (map (pt_name \<circ> fst) xs)" and "\<forall>x \<in> set xs. \<forall>rid. (pt_name (fst x), rid) \<notin> D"
    and "applied V st staged arena version D st1" "noted st version D st1"
  shows "\<exists>st2. fold (\<lambda>x st. Option.bind st (apply_table (de_ext V) arena version x)) xs (Some st1) = Some st2
    \<and> applied V st staged arena version (D \<union> (\<Union>x \<in> set xs. change_keys (fst x))) st2 \<and> noted st version (D \<union> (\<Union>x \<in> set xs. change_keys (fst x))) st2"
  using assms(2-)
proof (induction xs arbitrary: D st1)
  case (Cons x xs)
  obtain p ks where x: "x = (p, ks)" by (cases x)
  from applied_table [OF ctx, of p snap ks D st1] Cons.prems x obtain st2 where st2: "apply_table (de_ext V) arena version (p, ks) st1 = Some st2"
    "applied V st staged arena version (D \<union> change_keys p) st2" "noted st version (D \<union> change_keys p) st2" by auto
  have "\<forall>y \<in> set xs. \<forall>rid. (pt_name (fst y), rid) \<notin> D \<union> change_keys p" using Cons.prems(3,4) x by (force simp: change_keys_def)
  with Cons.IH [OF _ _ _ _ st2(2,3)] Cons.prems(1-3) x st2(1) show ?case by (simp add: Un_assoc)
qed simp

section \<open>The state after a commit\<close>

definition same_row :: "'j row \<Rightarrow> 'j row \<Rightarrow> bool" where
  "same_row r s \<longleftrightarrow> wf_row r \<and> (\<forall>n. row_get r n = row_get s n)"

lemma latest_owned_newest:
  assumes "idx_ok (crc32 E) (st_index st)" "table (st_catalog st) t = Some schema" "is_newest (- 1) (all_versions (crc32 E) (st_index st) t rid) r"
  shows "latest_owned E st t rid = Inr (opt_filter (\<lambda>e. ve_version e > ts_epoch schema) r)"
proof -
  obtain r' where r': "fst (newest_at_or_before (crc32 E) (st_index st) t rid (- 1)) = Inr r'" "is_newest (- 1) (all_versions (crc32 E) (st_index st) t rid) r'"
    using newest_at_or_before_exact [OF assms(1), of t rid "- 1"] by force
  have top: "v \<le> - 1" "\<not> - 1 < v" for v :: u64 by (simp_all add: not_less)
  have "r' = r"
  proof (cases r)
    case None
    then show ?thesis using r'(2) assms(3) top by (cases r') (auto simp: is_newest_simps)
  next
    case (Some e)
    then obtain e' where e': "r' = Some e'" using r'(2) assms(3) top by (cases r') (auto simp: is_newest_simps)
    with Some have "ve_version e' = ve_version e" using r'(2) assms(3) top by (auto simp: is_newest_simps intro: order_antisym)
    then have "e' = e" by (rule inj_onD [OF idx_versions_unique [OF assms(1)]]) (use Some e' r'(2) assms(3) in \<open>auto simp: is_newest_simps\<close>)
    with Some e' show ?thesis by simp
  qed
  with r'(1) assms(2) show ?thesis by (simp add: latest_owned_def)
qed

lemma newest_versions:
  assumes "idx_ok (crc32 E) (st_index st)"
  obtains r where "is_newest (- 1) (all_versions (crc32 E) (st_index st) t rid) r"
  using newest_at_or_before_exact [OF assms, of t rid "- 1"] by force

text \<open>The state that \<open>apply_commit\<close> leaves.\<close>

definition committed :: "'j db_env \<Rightarrow> 'j db_state \<Rightarrow> 'j prepared_table list \<Rightarrow> bytes \<Rightarrow> u64 \<Rightarrow> 'j db_state \<Rightarrow> bool" where
  "committed V st staged arena version st' \<longleftrightarrow> (\<exists>st1. st' = st1\<lparr>st_committed_version := version\<rparr>
     \<and> applied V st staged arena version (staged_keys_of staged) st1 \<and> noted st version (staged_keys_of staged) st1)"

lemma committed_parts:
  assumes "committed V st staged arena version st'"
  shows "st_catalog st' = st_catalog st" "st_blobs st' = st_blobs st" "st_readers st' = st_readers st" "st_committed_version st' = version"
    "idx_ok (crc32 (de_ext V)) (st_index st')"
    "all_versions (crc32 (de_ext V)) (st_index st') t rid = all_versions (crc32 (de_ext V)) (st_index st) t rid @ new_versions arena version staged (staged_keys_of staged) t rid"
    "short_names cols \<Longrightarrow> index_current V st staged (staged_keys_of staged) st' t cols"
    "noted st version (staged_keys_of staged) st'"
  using assms by (auto simp: committed_def applied_def same_frame_def noted_def index_current_def cong: option.case_cong)

lemma committed_latest:
  assumes ctx: "applying S V st staged arena version" and st': "committed V st staged arena version st'" and t: "table (st_catalog st) t = Some schema"
  shows "latest_owned (de_ext V) st' t rid =
     (case find_prepared_change staged t rid of Some c \<Rightarrow> Inr (Some (new_entry arena version c)) | None \<Rightarrow> latest_owned (de_ext V) st t rid)"
proof -
  note parts = committed_parts [OF st'] and now = db_ok_parts [of S V st]
  have ok: "db_ok S V st" "staged_ok st staged" using ctx by (simp_all add: applying_def)
  have t': "table (st_catalog st') t = Some schema" using t parts(1) by simp
  have keys: "(t, rid) \<in> staged_keys_of staged \<longleftrightarrow> find_prepared_change staged t rid \<noteq> None" by (rule staged_keys_iff [OF ok(2)])
  obtain r where r: "is_newest (- 1) (all_versions (crc32 (de_ext V)) (st_index st) t rid) r"
    using newest_versions [OF now(8) [OF ok(1)]] by blast
  show ?thesis
  proof (cases "find_prepared_change staged t rid")
    case None
    then have "is_newest (- 1) (all_versions (crc32 (de_ext V)) (st_index st') t rid) r"
      using r parts(6) [of t rid] keys by (simp add: new_versions_def)
    from latest_owned_newest [OF parts(5) t' this] latest_owned_newest [OF now(8) [OF ok(1)] t r] None show ?thesis by simp
  next
    case (Some c)
    have below: "ve_version e < version" if "e \<in> set (all_versions (crc32 (de_ext V)) (st_index st) t rid)" for e
      using now(2) [OF ok(1)] that ctx next_version_less by (auto simp: versions_below_def applying_def)
    have "schema \<in> set (ca_tables (st_catalog st))" using t by (auto simp: table_def dest: find_table)
    then have epoch: "ts_epoch schema < version"
      using now(2) [OF ok(1)] ctx next_version_less by (auto simp: versions_below_def applying_def)
    have "is_newest (- 1) (all_versions (crc32 (de_ext V)) (st_index st') t rid) (Some (new_entry arena version c))"
      using parts(6) [of t rid] keys Some below by (auto simp: new_versions_def is_newest_simps new_entry_def intro: less_imp_le)
    from latest_owned_newest [OF parts(5) t' this] Some epoch show ?thesis by (simp add: opt_filter_def new_entry_def)
  qed
qed

lemma staged_put:
  assumes "staged_rows_ok V st arena staged" "p \<in> set staged" "c \<in> set (pt_changes p)"
  shows "is_tombstone (new_entry arena version c) \<longleftrightarrow> pc_operation c = None"
    and "pc_operation c = Some r \<Longrightarrow> holds V st (pt_schema p) (ve_kind (new_entry arena version c)) r"
proof -
  have held: "\<exists>put. put_of arena c = Some (put, r) \<and> holds V st (pt_schema p) (MemPut put) r" if "pc_operation c = Some r" for r
    by (rule staged_rows_okD(3) [OF assms that])
  show "is_tombstone (new_entry arena version c) \<longleftrightarrow> pc_operation c = None"
    using held by (cases "pc_operation c") (auto simp: new_entry_def is_tombstone_def put_of_def)
  show "holds V st (pt_schema p) (ve_kind (new_entry arena version c)) r" if "pc_operation c = Some r"
    using held [OF that] by (auto simp: new_entry_def)
qed

lemma committed_held:
  assumes ctx: "applying S V st staged arena version" and st': "committed V st staged arena version st'"
  shows "rows_held V st'"
  unfolding rows_held_def
proof (intro allI impI)
  fix t schema rid e
  assume t': "table (st_catalog st') t = Some schema" and e: "latest_owned (de_ext V) st' t rid = Inr (Some e)" "\<not> is_tombstone e"
  note parts = committed_parts [OF st']
  have ok: "db_ok S V st" "staged_ok st staged" "staged_rows_ok V st arena staged" using ctx by (simp_all add: applying_def)
  have t: "table (st_catalog st) t = Some schema" using t' parts(1) by simp
  have frame: "holds V st' sc k r \<longleftrightarrow> holds V st sc k r" for sc k r using parts(2,3) by (simp add: holds_def)
  note latest = committed_latest [OF ctx st' t, of rid]
  show "\<exists>r. holds V st' schema (ve_kind e) r"
  proof (cases "find_prepared_change staged t rid")
    case None
    with latest e db_ok_parts(4) [OF ok(1)] t show ?thesis unfolding frame rows_held_def by simp
  next
    case (Some c)
    then obtain p where p: "p \<in> set staged" "pt_name p = t" "c \<in> set (pt_changes p)"
      using find_prepared_change_iff [OF ok(2)] by blast
    then have "pt_schema p = schema" using ok(2) t by (auto simp: staged_ok_def)
    moreover have "e = new_entry arena version c" using latest e(1) Some by simp
    ultimately show ?thesis using staged_put(1,2) [OF ok(3) p(1,3), where version = version] e(2) unfolding frame by blast
  qed
qed

lemma committed_rows:
  assumes ctx: "applying S V st staged arena version" and st': "committed V st staged arena version st'"
  shows "rel_option same_row (final_row V st' [] t rid) (final_row V st staged t rid)"
proof (cases "table (st_catalog st) t")
  case None
  then show ?thesis using committed_parts(1) [OF st'] by (simp add: final_row_def final_record_def)
next
  case (Some schema)
  note parts = committed_parts [OF st'] and t = Some
  have ok: "db_ok S V st" "staged_ok st staged" "staged_rows_ok V st arena staged" using ctx by (simp_all add: applying_def)
  have t': "table (st_catalog st') t = Some schema" using t parts(1) by simp
  note latest = committed_latest [OF ctx st' t, of rid]
  show ?thesis
  proof (cases "find_prepared_change staged t rid")
    case None
    then have "final_row V st' [] t rid = final_row V st staged t rid"
      using latest t t' by (simp add: final_row_def final_record_def parts(2,3) cong: option.case_cong if_cong)
    moreover have "wf_row r" if "final_row V st staged t rid = Some r" for r
      using that final_row_unstaged [OF None, of V st] db_ok_parts(10) [OF ok(1)] unfolding rows_wf_def by metis
    ultimately show ?thesis by (cases "final_row V st staged t rid") (auto simp: same_row_def)
  next
    case (Some c)
    then obtain p where p: "p \<in> set staged" "pt_name p = t" "c \<in> set (pt_changes p)" "pc_id c = rid"
      using find_prepared_change_iff [OF ok(2)] by blast
    then have schema: "pt_schema p = schema" using ok(2) t by (auto simp: staged_ok_def)
    let ?e = "new_entry arena version c"
    have e: "latest_owned (de_ext V) st' t rid = Inr (Some ?e)" using latest Some by simp
    note put = staged_put [OF ok(3) p(1,3), where version = version]
    have staged: "final_row V st staged t rid = map_option (with_id schema rid) (pc_operation c)"
      using final_row_staged [OF ok(2) p(1,3), of V] p(2,4) schema by simp
    show ?thesis
    proof (cases "pc_operation c")
      case None
      with e t' put(1) have "final_row V st' [] t rid = None" by (simp add: final_row_def final_record_def)
      with staged None show ?thesis by simp
    next
      case (Some r)
      have held: "holds V st' schema (ve_kind ?e) r" using put(2) [OF Some] schema parts(2,3) by (simp add: holds_def)
      obtain r' where r': "read_record_kind (de_ext V) (de_cache V) (st_blobs st') (st_readers st') (ve_kind ?e) schema = Some (Inr r')" "wf_row r'"
        "\<And>n. row_get r' n = row_get r n" using read_record_held [OF held] by blast
      have wf: "wf_row r" by (rule staged_rows_okD(1) [OF ok(3) p(1,3) Some])
      have "ts_epoch schema < ve_version ?e"
        using e t' by (auto simp: latest_owned_def result_dests opt_filter_def split: option.splits if_splits)
      with e t' put(1) Some r'(1) have "final_row V st' [] t rid = Some (with_id schema rid r')"
        by (simp add: final_row_def final_record_def)
      moreover have "same_row (with_id schema rid r') (with_id schema rid r)"
        unfolding same_row_def row_get_with_id [OF r'(2)] row_get_with_id [OF wf] using r'(3) wf_row_insert [OF r'(2)] r'(2) by (simp add: with_id_def)
      ultimately show ?thesis using staged Some by simp
    qed
  qed
qed

lemma committed_row:
  assumes "applying S V st staged arena version" and "committed V st staged arena version st'"
  shows "final_row V st' [] t rid = Some r \<Longrightarrow> \<exists>s. final_row V st staged t rid = Some s \<and> same_row r s"
    and "final_row V st staged t rid = Some s \<Longrightarrow> \<exists>r. final_row V st' [] t rid = Some r \<and> same_row r s"
  using committed_rows [OF assms, of t rid] by (auto simp: rel_option_iff split: option.splits)

lemma same_row_values: "same_row r s \<Longrightarrow> column_value r = column_value s"
  by (simp add: same_row_def column_value_def fun_eq_iff)

lemma same_row_keys:
  assumes "same_row r s"
  shows "secondary_tuple_key E r cols = secondary_tuple_key E s cols" "orderable_row r cols \<longleftrightarrow> orderable_row s cols"
    "secondary_key_has_null r cols \<longleftrightarrow> secondary_key_has_null s cols"
  using same_row_values [OF assms] by (simp_all add: secondary_tuple_key_values orderable_row_def has_null_values)

lemma staged_indexable:
  assumes ctx: "applying S V st staged arena version"
  shows "indexable V st staged"
  unfolding indexable_def
proof (intro allI impI)
  fix t schema d rid r
  assume t: "table (st_catalog st) t = Some schema" "d \<in> set (ts_indexes schema)" and r: "final_row V st staged t rid = Some r"
  have ok: "db_ok S V st" "staged_ok st staged" "staged_rows_ok V st arena staged" using ctx by (simp_all add: applying_def)
  show "orderable_row r (ix_columns d)"
    using ok(2) r
  proof (cases rule: final_row_cases)
    case (staged p c r0)
    then have schema: "pt_schema p = schema" using ok(2) t(1) by (auto simp: staged_ok_def)
    have "orderable_row r0 (ix_columns d)" using staged_rows_okD(2) [OF ok(3) staged(1,3,5)] schema t(2) by simp
    moreover have "column_value r n = column_value r0 n" if "n \<in> set (ix_columns d)" for n
    proof -
      have "column schema n \<noteq> None" by (rule index_columns_named(1) [OF db_ok_parts(7) [OF ok(1)] t that])
      then show ?thesis using row_get_with_id [OF staged(7), of schema rid n] staged(6) schema
        by (auto simp: column_value_def has_implicit_id_def split: if_splits)
    qed
    ultimately show ?thesis by (simp add: orderable_row_def list_all_iff)
  next
    case unstaged
    then show ?thesis using db_ok_parts(12) [OF ok(1)] t unfolding indexable_def by blast
  qed
qed

lemma committed_indexable:
  assumes "applying S V st staged arena version" and "committed V st staged arena version st'"
  shows "indexable V st' []" "rows_wf V st'"
  using staged_indexable [OF assms(1)] committed_row(1) [OF assms] same_row_keys(2) committed_parts(1) [OF assms(2)]
  unfolding indexable_def rows_wf_def same_row_def by metis+

lemma unique_same_rows:
  assumes rows: "\<forall>t rid. rel_option same_row (final_row V st' [] t rid) (R t rid)" and cat: "st_catalog st' = st_catalog st" and unique: "unique_rows V st R"
  shows "unique_holds V st' []"
  unfolding unique_holds_def cat
proof (intro allI impI)
  fix t schema d a b r s
  assume d: "table (st_catalog st) t = Some schema" "d \<in> set (ts_indexes schema)" "ix_unique d"
    and r: "final_row V st' [] t a = Some r" "final_row V st' [] t b = Some s"
    and key: "\<not> secondary_key_has_null r (ix_columns d)" "same_values (de_ext V) (ix_columns d) r s"
  obtain r' s' where "R t a = Some r'" "same_row r r'" "R t b = Some s'" "same_row s s'" using rows r by (metis option_rel_Some1)
  moreover from this key have "\<not> secondary_key_has_null r' (ix_columns d)" "same_values (de_ext V) (ix_columns d) r' s'"
    by (simp_all add: same_row_keys(3) [symmetric] same_values_def same_row_values)
  ultimately show "a = b" using unique d unfolding unique_rows_def by blast
qed

lemma references_same_rows:
  assumes rows: "\<forall>t rid. rel_option same_row (final_row V st' [] t rid) (final_row V st staged t rid)" and cat: "st_catalog st' = st_catalog st" and refs: "references_hold V st staged"
  shows "references_hold V st' []"
proof -
  have new: "\<exists>r. final_row V st' [] t rid = Some r \<and> same_row r s" if "final_row V st staged t rid = Some s" for t rid s using rows that by (metis option_rel_Some2)
  have sub: "matching_rows V st staged t c v \<subseteq> matching_rows V st' [] t c v" for t c v
    using new unfolding matching_rows_def same_row_def by fastforce
  show ?thesis
    unfolding references_hold_def cat
  proof (intro allI impI)
    fix child fk rid r v
    assume fk: "child \<in> set (ca_tables (st_catalog st))" "fk \<in> set (ts_foreign_keys child)"
      and r: "final_row V st' [] (ts_name child) rid = Some r" "row_get r (fk_column fk) = Some v" "\<not> is_null v"
    obtain s where "final_row V st staged (ts_name child) rid = Some s" "same_row r s" using rows r(1) by (metis option_rel_Some1)
    with refs fk r(2,3) have "matching_rows V st staged (fk_referenced_table fk) (fk_referenced_column fk) v \<noteq> {}"
      unfolding references_hold_def same_row_def by metis
    with sub show "matching_rows V st' [] (fk_referenced_table fk) (fk_referenced_column fk) v \<noteq> {}" by blast
  qed
qed

lemma committed_unique:
  assumes "applying S V st staged arena version" and "committed V st staged arena version st'" and "unique_holds V st staged"
  shows "unique_holds V st' []"
  using unique_same_rows [of V st' "final_row V st staged" st] committed_rows [OF assms(1,2)] committed_parts(1) [OF assms(2)] assms(3) unfolding unique_holds_rows by blast

lemma committed_references:
  assumes "applying S V st staged arena version" and "committed V st staged arena version st'" and "references_hold V st staged"
  shows "references_hold V st' []"
  using references_same_rows [of V st' st staged] committed_rows [OF assms(1,2)] committed_parts(1) [OF assms(2)] assms(3) by blast

text \<open>The number of rows of a table is a \<open>usize\<close>.\<close>

definition rows_fit :: "'j db_env \<Rightarrow> 'j db_state \<Rightarrow> 'j prepared_table list \<Rightarrow> bool" where
  "rows_fit V st staged \<longleftrightarrow> (\<forall>t. card {rid. final_row V st staged t rid \<noteq> None} < usize_limit)"

lemma finite_rows:
  assumes "idx_ok (crc32 (de_ext V)) (st_index st)" and "validate_catalog S (st_catalog st) = Inr ()"
  shows "finite {rid. final_row V st [] t rid \<noteq> None}"
proof (cases "table (st_catalog st) t")
  case None
  then show ?thesis by (simp add: final_row_def final_record_def)
next
  case (Some schema)
  have "rid \<in> table_ids (crc32 (de_ext V)) (st_index st) t" if "final_row V st [] t rid = Some r" for rid r
  proof -
    from that obtain e where "latest_owned (de_ext V) st t rid = Inr (Some e)" by (rule current_row)
    from all_versions_table_ids [OF assms(1) latest_owned_versions [OF assms(1) this]] show ?thesis .
  qed
  then have "{rid. final_row V st [] t rid \<noteq> None} \<subseteq> table_ids (crc32 (de_ext V)) (st_index st) t" by auto
  with finite_table_ids [OF assms(1) declared_table_fits [OF assms(2) Some]] show ?thesis by (rule rev_finite_subset)
qed

lemma committed_index_exact:
  assumes ctx: "applying S V st staged arena version" and st': "committed V st staged arena version st'" and fit: "rows_fit V st staged"
  shows "indexes_exact V st'"
  unfolding indexes_exact_def
proof (intro allI impI)
  fix t cols si
  assume si: "map_of (st_secondary st') (t, secondary_index_id cols) = Some si" and short: "short_names cols"
  let ?E = "de_ext V"
  note parts = committed_parts [OF st']
  have ok: "db_ok S V st" "staged_ok st staged" using ctx by (simp_all add: applying_def)
  from parts(7) [OF short, of t] si have tracks: "sec.tracks (crc32 ?E) (tuple_keys ?E (length cols)) (row_keys V st staged (staged_keys_of staged) t cols) si"
    by (auto simp: index_current_def split: option.splits)
  have keys: "row_keys V st staged (staged_keys_of staged) t cols rid = row_key ?E cols (final_row V st staged t rid)" for rid
    using staged_keys_iff [OF ok(2), of t rid] final_row_unstaged [of staged t rid V st] by (auto simp: row_keys_def)
  have same: "row_key ?E cols (final_row V st' [] t rid) = row_key ?E cols (final_row V st staged t rid)" for rid
    using committed_rows [OF ctx st', of t rid] by (auto simp: row_key_def same_row_keys elim!: option.rel_cases)
  have live: "sec_live (crc32 ?E) si key rid \<longleftrightarrow> (\<exists>r. final_row V st' [] t rid = Some r \<and> secondary_tuple_key ?E r cols = key)" for key rid
    using tracks unfolding sec.tracks_def keys same [symmetric] by (auto simp: row_key_def)
  have "card (live_ids (crc32 ?E) si key None) < usize_limit" for key
  proof -
    have rows: "{rid. final_row V st' [] t rid \<noteq> None} = {rid. final_row V st staged t rid \<noteq> None}"
      using committed_row [OF ctx st', of t] by fastforce
    have "live_ids (crc32 ?E) si key None \<subseteq> {rid. final_row V st' [] t rid \<noteq> None}" by (auto simp: live_ids_def live)
    moreover have "finite {rid. final_row V st' [] t rid \<noteq> None}"
      using finite_rows [OF parts(5), of S t] db_ok_parts(7) [OF ok(1)] parts(1) by simp
    ultimately have "card (live_ids (crc32 ?E) si key None) \<le> card {rid. final_row V st' [] t rid \<noteq> None}" by (intro card_mono)
    also have "\<dots> < usize_limit" using fit rows by (simp add: rows_fit_def)
    finally show ?thesis .
  qed
  moreover have "sec_ok (crc32 ?E) (tuple_keys ?E (length cols)) si" using tracks unfolding sec.tracks_def by blast
  ultimately show "index_exact V st' t cols si" unfolding index_exact_def using live by blast
qed

lemma committed_high_ids:
  assumes ctx: "applying S V st staged arena version" and st': "committed V st staged arena version st'"
  shows "high_ids_ok V st'"
  unfolding high_ids_ok_def
proof (intro allI ballI impI)
  fix t schema rid e
  assume e: "e \<in> set (all_versions (crc32 (de_ext V)) (st_index st') t rid)" and t: "table (st_catalog st') t = Some schema" "ts_epoch schema < ve_version e"
  note parts = committed_parts [OF st']
  have ok: "db_ok S V st" using ctx by (simp add: applying_def)
  show "\<exists>h. map_of (st_table_high_ids st') t = Some h \<and> rid \<le> h"
  proof (cases "(t, rid) \<in> staged_keys_of staged")
    case True
    with parts(8) show ?thesis unfolding noted_def by blast
  next
    case False
    with e parts(6) [of t rid] have "e \<in> set (all_versions (crc32 (de_ext V)) (st_index st) t rid)" by (simp add: new_versions_def)
    moreover have "table (st_catalog st) t = Some schema" using t(1) parts(1) by simp
    ultimately obtain h where "map_of (st_table_high_ids st) t = Some h" "rid \<le> h"
      using db_ok_parts(3) [OF ok] t(2) unfolding high_ids_ok_def by blast
    with parts(8) show ?thesis unfolding noted_def by (meson order_trans)
  qed
qed

lemma new_versions_version:
  fixes staged :: "'j prepared_table list"
  assumes "e \<in> set (new_versions arena version staged D t rid)"
  shows "ve_version e = version"
proof -
  from assms obtain c :: "'j prepared_change" where "e = new_entry arena version c"
    by (cases "find_prepared_change staged t rid"; cases "(t, rid) \<in> D") (auto simp: new_versions_def)
  then show ?thesis by (simp add: new_entry_def)
qed

lemma committed_versions:
  assumes ctx: "applying S V st staged arena version" and st': "committed V st staged arena version st'"
  shows "versions_below V st'"
proof -
  note parts = committed_parts [OF st']
  have ok: "db_ok S V st" using ctx by (simp add: applying_def)
  have later: "v \<le> version" if "v \<le> st_committed_version st" for v
    using ctx next_version_less [OF that] less_imp_le unfolding applying_def by metis
  have "ve_version e \<le> version" if "e \<in> set (all_versions (crc32 (de_ext V)) (st_index st') t rid)" for t rid e
  proof -
    have "e \<in> set (all_versions (crc32 (de_ext V)) (st_index st) t rid) \<or> ve_version e = version"
      using that new_versions_version unfolding parts(6) [of t rid] set_append by blast
    moreover have "ve_version e \<le> st_committed_version st" if "e \<in> set (all_versions (crc32 (de_ext V)) (st_index st) t rid)"
      using db_ok_parts(2) [OF ok] that unfolding versions_below_def by blast
    ultimately show ?thesis using later by auto
  qed
  with later db_ok_parts(2) [OF ok] show ?thesis unfolding versions_below_def parts(1,4) by blast
qed

lemma committed_db_ok:
  assumes ctx: "applying S V st staged arena version" and st': "committed V st staged arena version st'" and fit: "rows_fit V st staged"
  shows "db_ok S V st'"
proof -
  note parts = committed_parts [OF st']
  have ok: "db_ok S V st" using ctx by (simp add: applying_def)
  have "map_of (st_secondary st') (t, secondary_index_id cols) = None \<longleftrightarrow> map_of (st_secondary st) (t, secondary_index_id cols) = None"
    if "short_names cols" for t cols
    using parts(7) [OF that, of t] by (auto simp: index_current_def split: option.splits)
  then have "secondary_declared st'" using db_ok_parts(5) [OF ok] unfolding secondary_declared_def parts(1) by simp
  moreover have "changes_logged st'" using parts(4,8) by (auto simp: changes_logged_def noted_def)
  moreover have "state_sound S V st'"
    using committed_index_exact [OF ctx st' fit] committed_indexable [OF ctx st'] parts(1,5) db_ok_parts(7,9) [OF ok]
    by (simp add: state_sound_def)
  ultimately show ?thesis
    using committed_versions [OF ctx st'] committed_high_ids [OF ctx st'] committed_held [OF ctx st'] by (simp add: db_ok_def)
qed

end
