(* ===== verification/Commit_Correct.thy ===== *)
theory Commit_Correct
  imports Commit_Apply
begin

text \<open>
  The commit as a whole: payloads of replayed increments hold their rows, a validated transaction is
  applied to the end, and what a caller may rely on: constraints are kept, a commit is
  atomic and no update is lost. Two sample databases show that the hypotheses can hold.
\<close>

section \<open>Payloads of replayed increments\<close>

text \<open>A row with a value for every column of its table, encoded without chunk files.\<close>

definition complete_row :: "'j ext \<Rightarrow> 'j table_schema \<Rightarrow> 'j row \<Rightarrow> bool" where
  "complete_row E schema r \<longleftrightarrow> wf_row r \<and> list_all (wf_value E) (row_values r) \<and> (\<forall>n. row_get r n \<noteq> None \<longleftrightarrow> column schema n \<noteq> None)
     \<and> (\<forall>d \<in> set (ts_indexes schema). orderable_row r (ix_columns d))"

lemma row_value_wf:
  assumes "wf_row r" "list_all (wf_value E) (row_values r)"
  shows "wf_value E (field_of r c)"
proof (cases "row_get r (col_name c)")
  case None
  then show ?thesis by (simp add: field_of_def wf_value_def)
next
  case (Some v)
  then have "v \<in> set (row_values r)"
    using row_get_map_of [OF assms(1)] by (auto simp: row_iter_def dest!: map_of_SomeD set_zip_rightD)
  with Some assms(2) show ?thesis by (simp add: field_of_def list_all_iff)
qed

lemma encode_columns_no_sink: "encode_columns E B named fs None = (sink, r) \<Longrightarrow> sink = None"
proof (induction fs arbitrary: sink r)
  case (Cons f fs)
  obtain col v where f: "f = (col, v)" by force
  have "fst (encode_field E B v None) = None" by (cases v) (simp_all add: encode_field_def)
  then obtain x where field: "encode_field E B v None = (None, x)" by (cases "encode_field E B v None") simp
  obtain sink1 y where tail: "encode_columns E B named fs None = (sink1, y)" by force
  from Cons.IH [OF tail] Cons.prems field tail show ?case by (auto simp: f split: sum.splits)
qed simp

lemma inline_record_decodes:
  assumes enc: "encode_record_ordered E B schema r None = (sink, Inr bs)" and row: "wf_row r" "list_all (wf_value E) (row_values r)"
    and names: "distinct (map col_name (ts_columns schema))" and len: "length bs < usize_limit"
  shows "\<exists>cache' r'. decode_record_keep E cache bs (Some dir) (snd (projection_new cache0 (Some schema) keep)) = Inr (cache', r') \<and> wf_row r'
    \<and> row_iter r' = filter (\<lambda>(n, v). column_kept keep n) (map (\<lambda>c. (col_name c, field_of r c)) (ts_columns schema))"
proof (cases "keep = Some []")
  case True
  then show ?thesis
    by (auto simp: decode_record_keep_def wants_nothing_def projection_new_def row_new_def row_iter_def
        column_kept_def case_prod_unfold wf_row_def split: prod.splits)
next
  case False
  let ?fs = "map (\<lambda>c. (c, field_of r c)) (ts_columns schema)"
  obtain body where body: "encode_columns E B False ?fs None = (sink, Inr body)"
      "bs = to_le_bytes (of_nat (length (ts_columns schema)) OR POSITIONAL_MARK :: u16) @ body" "length (ts_columns schema) < 2 ^ 15"
    using enc record_fields_by_name [OF row(1) names]
    by (auto simp: encode_record_ordered_def encode_record_ordered_as_def Let_def result_dests split: if_splits prod.splits)
  have "sink = None" using encode_columns_no_sink [OF body(1)] .
  then obtain ks where ks: "map stored_field ks = ?fs" "list_all (stored_ok E dir False) ks" "body = concat (map (stored_frame False) ks)"
    using encode_columns_stored [OF body(1), of 0 dir] row_value_wf [OF row]
    by (auto simp: list_all_iff blob_names_def sink_fine_def sink_resolves_def)
  have count: "length ks = length (ts_columns schema)" using arg_cong [OF ks(1), of length] by simp
  have at: "cursor_at bs 0 (to_le_bytes (if False then of_nat (length ks) else of_nat (length ks) OR POSITIONAL_MARK :: u16) @ concat (map (stored_frame False) ks))"
    using cursor_at_start [OF len] body(2) ks(3) count by simp
  have header: "read_payload_header bs 0 = Inr ((length ks, True), 2)"
    using read_payload_header_at [OF _ at] body(3) count by (simp add: numeral_2_eq_2)
  have after: "cursor_at bs 2 (concat (map (stored_frame False) ks))" using cursor_at_u16 [OF at] by (simp add: numeral_2_eq_2)
  obtain cache1 plan where plan: "plan_new cache0 schema keep = (cache1, plan)" by force
  have cols: "ts_columns schema = map fst (map stored_field ks) @ []" by (simp add: ks(1) comp_def)
  have fields: "zip (map (col_name \<circ> fst) (kept_fields keep (map stored_field ks))) (map snd (kept_fields keep (map stored_field ks)))
      = filter (\<lambda>(n, v). column_kept keep n) (map (\<lambda>c. (col_name c, field_of r c)) (ts_columns schema))"
    unfolding ks(1) by (rule kept_iter)
  have "distinct (map (col_name \<circ> fst) (kept_fields keep (map stored_field ks)))" unfolding kept_names ks(1) using names by (simp add: comp_def)
  moreover have "\<not> wants_nothing \<lparr>rp_keep = keep, rp_plan = Some plan\<rparr>" using False by (auto simp: wants_nothing_def split: option.splits)
  ultimately show ?thesis
    using decode_positional_stored [OF ks(2) after plan cols] header fields
    by (simp add: decode_record_keep_def projection_new_def plan from_layout_def row_iter_def wf_row_def)
qed

lemma slice_grows:
  assumes "mem_payload_slice \<lparr>mp_bytes = arena, mp_start = a, mp_len = n\<rparr> = Some bs"
  shows "mem_payload_slice \<lparr>mp_bytes = arena @ x, mp_start = a, mp_len = n\<rparr> = Some bs"
  using assms by (auto simp: mem_payload_slice_def get_range_def split: if_splits)

lemma holds_slice:
  assumes "mem_payload_slice p = Some bs" "mem_payload_slice q = Some bs"
  shows "holds V st schema (MemPut p) r \<longleftrightarrow> holds V st schema (MemPut q) r"
  using assms by (simp add: holds_def read_record_kind_keep_def payload_bytes_def)

lemma holds_slice_exists:
  assumes "holds V st schema (MemPut p) r"
  shows "\<exists>bs. mem_payload_slice p = Some bs"
  using spec [OF assms [unfolded holds_def], of None] by (auto simp: read_record_kind_keep_def payload_bytes_def obind_ok)

lemma staged_row_grows:
  assumes "staged_row_ok V st arena schema c"
  shows "staged_row_ok V st (arena @ x) schema c"
  unfolding staged_row_ok_def
proof (intro allI impI)
  fix r
  assume op: "pc_operation c = Some r"
  with assms obtain put where put: "put_of arena c = Some (put, r)" "holds V st schema (MemPut put) r"
    and row: "wf_row r" "\<forall>d \<in> set (ts_indexes schema). orderable_row r (ix_columns d)" unfolding staged_row_ok_def by blast
  from put(1) op obtain a n where an: "pc_payload c = Some (a, n)" "put = \<lparr>mp_bytes = arena, mp_start = a, mp_len = n\<rparr>"
    by (auto simp: put_of_def split: option.splits)
  obtain bs where bs: "mem_payload_slice put = Some bs" using holds_slice_exists [OF put(2)] by blast
  let ?put = "\<lparr>mp_bytes = arena @ x, mp_start = a, mp_len = n\<rparr>"
  have "holds V st schema (MemPut ?put) r" by (rule iffD1 [OF holds_slice [OF bs slice_grows [OF bs [unfolded an(2)]]] put(2)])
  with row op an show "wf_row r \<and> (\<forall>d \<in> set (ts_indexes schema). orderable_row r (ix_columns d))
      \<and> (\<exists>put. put_of (arena @ x) c = Some (put, r) \<and> holds V st schema (MemPut put) r)" by (simp add: put_of_def)
qed

lemma encoded_holds:
  assumes enc: "snd (encode_record_ordered (de_ext V) B schema r None) = Inr bs" and row: "complete_row (de_ext V) schema r"
    and names: "distinct (map col_name (ts_columns schema))" and slice: "mem_payload_slice p = Some bs" and len: "length bs < usize_limit"
  shows "holds V st schema (MemPut p) r"
  unfolding holds_def
proof (intro allI)
  fix keep
  have wf: "wf_row r" "list_all (wf_value (de_ext V)) (row_values r)" using row by (simp_all add: complete_row_def)
  obtain sink where enc': "encode_record_ordered (de_ext V) B schema r None = (sink, Inr bs)" using enc by (metis prod.collapse)
  from inline_record_decodes [OF enc' wf names len, of "de_cache V" "st_blobs st" "de_cache V" keep]
  obtain cache' r' where r': "decode_record_keep (de_ext V) (de_cache V) bs (Some (st_blobs st)) (snd (projection_new (de_cache V) (Some schema) keep)) = Inr (cache', r')"
    "wf_row r'" "row_iter r' = filter (\<lambda>(n, v). column_kept keep n) (map (\<lambda>c. (col_name c, field_of r c)) (ts_columns schema))" by blast
  have "row_get r' n = (if column_kept keep n then row_get r n else None)" for n
  proof -
    have "map_of (filter (\<lambda>(n, v). column_kept keep n) (map (\<lambda>c. (col_name c, field_of r c)) cs)) n
        = (if column_kept keep n then map_option (field_of r) (find (\<lambda>c. col_name c = n) cs) else None)" for cs
      by (induction cs) auto
    then have get: "row_get r' n = (if column_kept keep n then map_option (field_of r) (column schema n) else None)"
      using row_get_map_of [OF r'(2)] r'(3) by (simp add: column_def)
    have "map_option (field_of r) (column schema n) = row_get r n"
    proof (cases "column schema n")
      case None
      then show ?thesis using row by (metis complete_row_def option.map(1))
    next
      case (Some c)
      moreover have "col_name c = n" using Some by (auto simp: column_def find_Some_iff)
      moreover have "row_get r n \<noteq> None" using row Some by (simp add: complete_row_def)
      ultimately show ?thesis by (auto simp: field_of_def)
    qed
    with get show ?thesis by simp
  qed
  with r'(1,2) slice show "\<exists>r'. read_record_kind_keep (de_ext V) (de_cache V) (st_blobs st) (st_readers st) (MemPut p) (snd (projection_new (de_cache V) (Some schema) keep)) = Some (Inr r')
      \<and> wf_row r' \<and> (\<forall>n. row_get r' n = (if column_kept keep n then row_get r n else None))"
    by (simp add: read_record_kind_keep_def payload_bytes_def)
qed

lemma replayed_row_ok:
  assumes row: "complete_row (de_ext V) schema r" and names: "distinct (map col_name (ts_columns schema))"
    and enc: "snd (encode_record_ordered (de_ext V) B schema r None) = Inr bs" and fits: "fits_u32 (length arena)" "fits_u32 (length (arena @ bs))"
  shows "staged_row_ok V st (arena @ bs) schema
    (c\<lparr>pc_operation := Some r, pc_payload := Some (of_nat (length arena), of_nat (length (arena @ bs)) - of_nat (length arena))\<rparr>)"
proof -
  have "fits_u32 (length bs)" using fits(2) by (simp add: fits_u32_def)
  then have n: "unat (of_nat (length (arena @ bs)) - of_nat (length arena) :: u32) = length bs" by (simp add: unat_of_nat_u32)
  let ?p = "\<lparr>mp_bytes = arena @ bs, mp_start = of_nat (length arena), mp_len = of_nat (length (arena @ bs)) - of_nat (length arena)\<rparr>"
  have slice: "mem_payload_slice ?p = Some bs"
    using n unat_of_nat_u32 [OF fits(1)] get_range_append [of arena bs "[]"] by (simp add: mem_payload_slice_def)
  have "length bs < usize_limit" using \<open>fits_u32 (length bs)\<close> by (simp add: fits_u32_def usize_limit_def)
  from encoded_holds [OF enc row names slice this] row show ?thesis
    by (simp add: staged_row_ok_def put_of_def complete_row_def)
qed

text \<open>Both loops only append to the arena, so that the payloads staged before stay where they are.\<close>

lemma rebase_changes_rows:
  assumes "for_loop (rebase_staged_change V B schema) xs (arena, cs) = Some (Inr (arena', cs'))" and names: "distinct (map col_name (ts_columns schema))"
    and "\<forall>c \<in> set cs. staged_row_ok V st arena schema c"
    and "\<forall>(c, k) \<in> set xs. staged_row_ok V st arena schema c \<and> (\<forall>r. cc_rebased k = Some r \<longrightarrow> complete_row (de_ext V) schema r)"
  shows "\<exists>x. arena' = arena @ x \<and> (\<forall>c \<in> set cs'. staged_row_ok V st arena' schema c)"
  using assms(1,3,4)
proof (induction xs arbitrary: arena cs)
  case (Cons x xs)
  obtain c k where x: "x = (c, k)" by (cases x)
  from Cons.prems(1) obtain a1 c1 where step: "rebase_staged_change V B schema (arena, cs) x = Some (Inr (a1, c1))"
    and rest: "for_loop (rebase_staged_change V B schema) xs (a1, c1) = Some (Inr (arena', cs'))" by (auto simp: obind_ok)
  have here: "staged_row_ok V st arena schema c" "\<forall>r. cc_rebased k = Some r \<longrightarrow> complete_row (de_ext V) schema r" using Cons.prems(3) x by auto
  have "\<exists>y. a1 = arena @ y \<and> (\<forall>c \<in> set c1. staged_row_ok V st a1 schema c)"
  proof (cases "cc_rebased k")
    case None
    with step x here(1) Cons.prems(2) show ?thesis by (auto simp: rebase_staged_change_def)
  next
    case (Some r)
    with step x obtain bs where enc: "snd (encode_record_ordered (de_ext V) B schema r None) = Inr bs" "fits_u32 (length arena)" "fits_u32 (length (arena @ bs))"
      "a1 = arena @ bs" "c1 = cs @ [c\<lparr>pc_operation := Some r, pc_payload := Some (of_nat (length arena), of_nat (length (arena @ bs)) - of_nat (length arena))\<rparr>]"
      by (auto simp: rebase_staged_change_def split: if_splits sum.splits)
    from here(2) Some have "complete_row (de_ext V) schema r" by simp
    from replayed_row_ok [OF this names enc(1-3), of st c] Cons.prems(2) show ?thesis unfolding enc(4,5) by (auto intro: staged_row_grows)
  qed
  then obtain y where y: "a1 = arena @ y" "\<forall>c \<in> set c1. staged_row_ok V st a1 schema c" by blast
  have "\<forall>(c, k) \<in> set xs. staged_row_ok V st a1 schema c \<and> (\<forall>r. cc_rebased k = Some r \<longrightarrow> complete_row (de_ext V) schema r)"
    using Cons.prems(3) staged_row_grows unfolding y(1) by fastforce
  from Cons.IH [OF rest y(2) this] y(1) show ?case by auto
qed simp

lemma rebase_tables_rows:
  assumes "for_loop (rebase_staged_table V B) xs (arena, ts) = Some (Inr (arena', ts'))"
    and "staged_rows_ok V st arena ts" and "staged_rows_ok V st arena (map fst xs)"
    and "\<forall>(p, ks) \<in> set xs. distinct (map col_name (ts_columns (pt_schema p)))
      \<and> (\<forall>(c, k) \<in> set (zip (pt_changes p) ks). \<forall>r. cc_rebased k = Some r \<longrightarrow> complete_row (de_ext V) (pt_schema p) r)"
  shows "staged_rows_ok V st arena' ts'"
  using assms
proof (induction xs arbitrary: arena ts)
  case (Cons x xs)
  obtain p ks where x: "x = (p, ks)" by (cases x)
  from Cons.prems(1) obtain a1 t1 where step: "rebase_staged_table V B (arena, ts) x = Some (Inr (a1, t1))"
    and rest: "for_loop (rebase_staged_table V B) xs (a1, t1) = Some (Inr (arena', ts'))" by (auto simp: obind_ok)
  from step x obtain cs where cs: "for_loop (rebase_staged_change V B (pt_schema p)) (zip (pt_changes p) ks) (arena, []) = Some (Inr (a1, cs))"
    "t1 = ts @ [p\<lparr>pt_changes := cs\<rparr>]" by (auto simp: rebase_staged_table_def obind_ok)
  have names: "distinct (map col_name (ts_columns (pt_schema p)))" using Cons.prems(4) x by auto
  have "\<forall>(c, k) \<in> set (zip (pt_changes p) ks). staged_row_ok V st arena (pt_schema p) c \<and> (\<forall>r. cc_rebased k = Some r \<longrightarrow> complete_row (de_ext V) (pt_schema p) r)"
    using Cons.prems(3,4) x by (auto simp: staged_rows_ok_def dest: set_zip_leftD)
  from rebase_changes_rows [OF cs(1) names _ this] obtain y where y: "a1 = arena @ y" "\<forall>c \<in> set cs. staged_row_ok V st a1 (pt_schema p) c" by auto
  have "staged_rows_ok V st a1 t1" "staged_rows_ok V st a1 (map fst xs)"
    using Cons.prems(2,3) y(2) staged_row_grows unfolding cs(2) y(1) by (fastforce simp: staged_rows_ok_def)+
  from Cons.IH [OF rest this] Cons.prems(4) show ?case by simp
qed simp

section \<open>The whole commit\<close>

text \<open>A replayed increment gives a whole row.\<close>

definition replays_complete :: "'j db_env \<Rightarrow> 'j db_state \<Rightarrow> 'j prepared_table \<Rightarrow> 'j prepared_change \<Rightarrow> bool" where
  "replays_complete V st p c \<longleftrightarrow> (\<forall>e r. latest_owned (de_ext V) st (pt_name p) (pc_id c) = Inr (Some e)
     \<longrightarrow> rebase_change V st (pt_schema p) c e = Some (Inr (Some r)) \<longrightarrow> complete_row (de_ext V) (pt_schema p) r)"

definition txn_ok :: "'j db_env \<Rightarrow> 'j db_state \<Rightarrow> 'j prepared_commit \<Rightarrow> bool" where
  "txn_ok V st pp \<longleftrightarrow> commit_ok V st pp \<and> staged_rows_ok V st (pp_payload_arena pp) (pp_staged pp)
     \<and> (\<forall>p \<in> set (pp_staged pp). \<forall>c \<in> set (pt_changes p). replays_complete V st p c)"

lemma column_names_distinct:
  assumes "validate_catalog S ca = Inr ()" and "table ca t = Some schema"
  shows "distinct (map col_name (ts_columns schema))"
proof -
  have schema: "schema \<in> set (ca_tables ca)" using assms(2) by (auto simp: table_def dest: find_table)
  then have "validate_table S schema = Inr ()" using validate_catalog_ok(2) [OF assms(1)] by blast
  then have "validate_columns S [] (ts_columns schema) = Inr ()" by (auto simp: validate_table_def result_dests)
  then show ?thesis using validate_columns_ok by blast
qed

text \<open>A change is replayed over the newest version of its row.\<close>

lemma check_change_steps:
  assumes "check_change V st snap p (c, opt) = Some (Inr k)"
  shows "(if id_is_above_high_watermark st (pt_name p) (pc_id c) then Inr None
        else latest_owned (de_ext V) st (pt_name p) (pc_id c)) = Inr (cc_previous k)"
    and "cc_previous k = Some e \<Longrightarrow> snap < ve_version e \<Longrightarrow> \<exists>r. cc_rebased k = Some r \<and> rebase_change V st (pt_schema p) c e = Some (Inr (Some r))"
    and "cc_rebased k = Some r \<Longrightarrow> \<exists>e. cc_previous k = Some e \<and> snap < ve_version e \<and> rebase_change V st (pt_schema p) c e = Some (Inr (Some r))"
proof -
  from assms show "(if id_is_above_high_watermark st (pt_name p) (pc_id c) then Inr None
        else latest_owned (de_ext V) st (pt_name p) (pc_id c)) = Inr (cc_previous k)"
    unfolding check_change_def prod.case obind_ok by auto
  from assms have reb: "(case cc_previous k of None \<Rightarrow> Some (Inr None) | Some newest \<Rightarrow>
         if ve_version newest > snap then
           obind (rebase_change V st (pt_schema p) c newest) (\<lambda>rebased. case rebased of Some record \<Rightarrow> Some (Inr (Some record))
             | None \<Rightarrow> Some (Inl (Conflict (pt_name p @ ''/'' @ pc_id c @ '' changed after this transaction began''))))
         else Some (Inr None)) = Some (Inr (cc_rebased k))"
    unfolding check_change_def prod.case obind_ok by auto
  show "\<exists>r. cc_rebased k = Some r \<and> rebase_change V st (pt_schema p) c e = Some (Inr (Some r))" if "cc_previous k = Some e" "snap < ve_version e"
    using reb that by (cases "cc_rebased k") (auto simp: obind_ok split: option.splits)
  show "\<exists>e. cc_previous k = Some e \<and> snap < ve_version e \<and> rebase_change V st (pt_schema p) c e = Some (Inr (Some r))" if "cc_rebased k = Some r"
    using reb that by (auto simp: obind_ok split: option.splits if_splits)
qed

lemma check_change_rebased:
  assumes "check_change V st snap p (c, opt) = Some (Inr k)" and "cc_rebased k = Some r"
  shows "\<exists>e. latest_owned (de_ext V) st (pt_name p) (pc_id c) = Inr (Some e) \<and> rebase_change V st (pt_schema p) c e = Some (Inr (Some r))"
  using check_change_steps(1) [OF assms(1)] check_change_steps(3) [OF assms] by (auto split: if_splits)

lemma pass_rows_ok:
  assumes ok: "db_ok S V st" and txn: "txn_ok V st pp" and pass: "checked_pass V B st pp checked arena staged"
  shows "staged_rows_ok V st arena staged"
proof -
  have commit: "commit_ok V st pp" and rows: "staged_rows_ok V st (pp_payload_arena pp) (pp_staged pp)" using txn by (simp_all add: txn_ok_def)
  note parts = checked_pass_parts [OF pass commit]
  have loop: "for_loop (rebase_staged_table V B) (zip (pp_staged pp) checked) (pp_payload_arena pp, []) = Some (Inr (arena, staged))"
    using pass by (simp add: checked_pass_def)
  have "distinct (map col_name (ts_columns (pt_schema p)))
      \<and> (\<forall>(c, k) \<in> set (zip (pt_changes p) ks). \<forall>r. cc_rebased k = Some r \<longrightarrow> complete_row (de_ext V) (pt_schema p) r)"
    if pair: "(p, ks) \<in> set (zip (pp_staged pp) checked)" for p ks
  proof -
    from pair obtain i where i: "i < length (pp_staged pp)" "p = pp_staged pp ! i" "ks = checked ! i" by (auto simp: in_set_zip)
    let ?opt = "pp_optimistic pp ! i"
    have "check_table V st (pp_snap_version pp) (p, ?opt) = Some (Inr ks)" using list_all2_nthD [OF parts(1), of i] i parts(3,4) by simp
    then have t: "table (st_catalog st) (pt_name p) = Some (pt_schema p)"
      and checks: "list_all2 (\<lambda>x k. check_change V st (pp_snap_version pp) p x = Some (Inr k)) (zip (pt_changes p) ?opt) ks"
      by (auto simp: check_table_def for_map_ok split: if_splits)
    have p: "p \<in> set (pp_staged pp)" and len: "length ?opt = length (pt_changes p)"
      using i commit by (auto simp: commit_ok_def list_all2_conv_all_nth)
    have "complete_row (de_ext V) (pt_schema p) r" if "(c, k) \<in> set (zip (pt_changes p) ks)" "cc_rebased k = Some r" for c k r
    proof -
      from that(1) obtain j where j: "j < length (pt_changes p)" "j < length ks" "c = pt_changes p ! j" "k = ks ! j" by (auto simp: in_set_zip)
      have "check_change V st (pp_snap_version pp) p (c, ?opt ! j) = Some (Inr k)" using list_all2_nthD2 [OF checks j(2)] j len by simp
      from check_change_rebased [OF this that(2)] txn p j(1,3) show ?thesis unfolding txn_ok_def replays_complete_def by (metis nth_mem)
    qed
    with column_names_distinct [OF db_ok_parts(7) [OF ok] t] show ?thesis by blast
  qed
  then have each: "\<forall>(p, ks) \<in> set (zip (pp_staged pp) checked). distinct (map col_name (ts_columns (pt_schema p)))
      \<and> (\<forall>(c, k) \<in> set (zip (pt_changes p) ks). \<forall>r. cc_rebased k = Some r \<longrightarrow> complete_row (de_ext V) (pt_schema p) r)" by blast
  have "staged_rows_ok V st (pp_payload_arena pp) (map fst (zip (pp_staged pp) checked))" using rows parts(3) by simp
  from rebase_tables_rows [OF loop _ this each] show ?thesis by (simp add: staged_rows_ok_def)
qed

lemma pass_staged_ok:
  assumes pass: "checked_pass V B st pp checked arena staged" and commit: "commit_ok V st pp" and rows: "staged_rows_ok V st arena staged"
  shows "staged_ok st staged"
proof -
  note tables = checked_pass_tables [OF pass commit]
  have "validated_table V st (pp_snap_version pp) (p, ks)" if "(p, ks) \<in> set (zip staged checked)" for p ks
    using tables(1) that by (simp add: list_all_iff)
  moreover have "\<exists>ks. (p, ks) \<in> set (zip staged checked)" if "p \<in> set staged" for p
    using that tables(2) by (metis in_set_impl_in_set_zip1)
  ultimately have each: "table (st_catalog st) (pt_name p) = Some (pt_schema p) \<and> sorted_wrt (<) (map pc_id (pt_changes p))
      \<and> list_all (\<lambda>c. rust_str (pc_id c)) (pt_changes p)" if "p \<in> set staged" for p
    using that by (fastforce simp: validated_table_def)
  have "distinct (map pt_name staged)" using tables(3) commit by (simp add: commit_ok_def)
  then show ?thesis using each staged_rows_okD(1) [OF rows] by (auto simp: staged_ok_def list_all_iff)
qed

text \<open>Validated tables are applied to the end.\<close>

lemma validated_applies:
  assumes ctx: "applying S V st (vc_staged vc) (vc_arena vc) (vc_version vc)" and valid: "list_all (validated_table V st snap) (zip (vc_staged vc) (vc_checked vc))"
    and len: "length (vc_staged vc) = length (vc_checked vc)"
  shows "\<exists>st'. apply_commit (de_ext V) vc st = Some st' \<and> committed V st (vc_staged vc) (vc_arena vc) (vc_version vc) st'"
proof -
  have ok: "db_ok S V st" and version: "vc_version vc = st_committed_version st + 1" "st_committed_version st \<noteq> - 1"
    and names: "distinct (map pt_name (vc_staged vc))" using ctx by (simp_all add: applying_def staged_ok_def)
  let ?xs = "zip (vc_staged vc) (vc_checked vc)"
  have fst: "map fst ?xs = vc_staged vc" using len by simp
  have start: "noted st (vc_version vc) {} st"
  proof -
    have "\<exists>hist. log_ok hist (st_change_log st) \<and> (\<forall>e \<in> set hist. cl_version e \<le> vc_version vc)"
      using db_ok_parts(6) [OF ok] next_version_less [OF _ version(2)] version(1) less_imp_le unfolding changes_logged_def by metis
    then show ?thesis by (simp add: noted_def)
  qed
  have keys: "(\<Union>x \<in> set ?xs. change_keys (fst x)) = staged_keys_of (vc_staged vc)"
  proof -
    have "(\<Union>x \<in> set ?xs. change_keys (fst x)) = (\<Union>p \<in> set (map fst ?xs). change_keys p)" by simp
    also have "\<dots> = staged_keys_of (vc_staged vc)" unfolding fst by (auto simp: staged_keys_of_def change_keys_def)
    finally show ?thesis .
  qed
  have "distinct (map (pt_name \<circ> fst) ?xs)" using names fst by (metis list.map_comp)
  from applied_tables [OF ctx _ valid this _ applied_start [OF ok] start] fst keys obtain st2 where
    "fold (\<lambda>x st. Option.bind st (apply_table (de_ext V) (vc_arena vc) (vc_version vc) x)) ?xs (Some st) = Some st2"
    "applied V st (vc_staged vc) (vc_arena vc) (vc_version vc) (staged_keys_of (vc_staged vc)) st2"
    "noted st (vc_version vc) (staged_keys_of (vc_staged vc)) st2" by auto
  then show ?thesis unfolding apply_commit_def committed_def by auto
qed

lemma apply_commit_ok:
  assumes ok: "db_ok S V st" and txn: "txn_ok V st pp" and valid: "validate_commit V B st pp = Some (Inr vc)" and room: "st_committed_version st \<noteq> - 1"
  shows "applying S V st (vc_staged vc) (vc_arena vc) (vc_version vc)"
    and "\<exists>st'. apply_commit (de_ext V) vc st = Some st' \<and> committed V st (vc_staged vc) (vc_arena vc) (vc_version vc) st'"
proof -
  have commit: "commit_ok V st pp" using txn by (simp add: txn_ok_def)
  note parts = validate_commit_pass [OF valid]
  note rows = pass_rows_ok [OF ok txn parts(1)] and tables = checked_pass_tables [OF parts(1) commit]
  show ctx: "applying S V st (vc_staged vc) (vc_arena vc) (vc_version vc)"
    using ok pass_staged_ok [OF parts(1) commit rows] rows parts(4) room by (simp add: applying_def)
  show "\<exists>st'. apply_commit (de_ext V) vc st = Some st' \<and> committed V st (vc_staged vc) (vc_arena vc) (vc_version vc) st'"
    by (rule validated_applies [OF ctx tables(1,2)])
qed

lemma replayed_over_newest:
  assumes idx: "idx_ok (crc32 (de_ext V)) (st_index st)" "high_ids_ok V st" and pass: "checked_pass V B st pp checked arena staged" and commit: "commit_ok V st pp"
    and c: "p \<in> set (pp_staged pp)" "c \<in> set (pt_changes p)"
    and e: "latest_owned (de_ext V) st (pt_name p) (pc_id c) = Inr (Some e)" "pp_snap_version pp < ve_version e"
  shows "\<exists>p' c' r. p' \<in> set (staged) \<and> pt_name p' = pt_name p \<and> pt_schema p' = pt_schema p \<and> c' \<in> set (pt_changes p') \<and> pc_id c' = pc_id c
    \<and> pc_operation c' = Some r \<and> rebase_change V st (pt_schema p) c e = Some (Inr (Some r))"
proof -
  note parts = checked_pass_parts [OF pass commit]
  from c(1) obtain i where i: "i < length (pp_staged pp)" "p = pp_staged pp ! i" by (auto simp: in_set_conv_nth)
  let ?opt = "pp_optimistic pp ! i" and ?ks = "checked ! i" and ?p = "staged ! i"
  have "check_table V st (pp_snap_version pp) (p, ?opt) = Some (Inr ?ks)" using list_all2_nthD [OF parts(1), of i] i parts(3,4) by simp
  then have t: "table (st_catalog st) (pt_name p) = Some (pt_schema p)"
    and checks: "list_all2 (\<lambda>x k. check_change V st (pp_snap_version pp) p x = Some (Inr k)) (zip (pt_changes p) ?opt) ?ks"
    by (auto simp: check_table_def for_map_ok split: if_splits)
  have len: "length ?opt = length (pt_changes p)" "length ?ks = length (pt_changes p)"
    using i commit list_all2_lengthD [OF checks] by (auto simp: commit_ok_def list_all2_conv_all_nth)
  have rep: "replayed_table p ?ks ?p" and in_staged: "?p \<in> set (staged)"
    using list_all2_nthD [OF parts(2), of i] list_all2_lengthD [OF parts(2)] i parts(3) by simp_all
  from c(2) obtain j where j: "j < length (pt_changes p)" "c = pt_changes p ! j" by (auto simp: in_set_conv_nth)
  let ?k = "?ks ! j" and ?c = "pt_changes ?p ! j"
  have check: "check_change V st (pp_snap_version pp) p (c, ?opt ! j) = Some (Inr ?k)" using list_all2_nthD [OF checks, of j] j len by simp
  have "\<not> id_is_above_high_watermark st (pt_name p) (pc_id c)" using above_watermark_absent [OF idx t] e(1) by auto
  with check_change_steps(1) [OF check] e(1) have "cc_previous ?k = Some e" by simp
  from check_change_steps(2) [OF check this e(2)] obtain r where r: "cc_rebased ?k = Some r" "rebase_change V st (pt_schema p) c e = Some (Inr (Some r))" by blast
  have changes: "list_all2 (\<lambda>(c, k) c'. replayed_change c k c') (zip (pt_changes p) ?ks) (pt_changes ?p)" "pt_name ?p = pt_name p" "pt_schema ?p = pt_schema p"
    using rep by (simp_all add: replayed_table_def)
  have "replayed_change c ?k ?c" "?c \<in> set (pt_changes ?p)"
    using list_all2_nthD [OF changes(1), of j] list_all2_lengthD [OF changes(1)] j len by simp_all
  with r in_staged changes(2,3) show ?thesis unfolding replayed_change_def by fastforce
qed

text \<open>The outcomes of a commit.\<close>

lemma finish_cases:
  assumes "finish_prepared_commit V B background pool_full outcome set_len_error sync_error pp (st, w) = Some ((st', w'), res)"
  obtains (refused) err where "st' = st" "res = Inl err"
  | (published) vc bs where "validate_commit V B st pp = Some (Inr vc)" "commit_record (de_ext V) vc = Some (Inr bs)"
      "apply_commit (de_ext V) vc st = Some st'" "\<exists>len. append_commit_unflushed w bs outcome set_len_error = (w', Inr len)"
      "res = Inr (vc_version vc) \<or> (\<exists>msg. res = Inl (CommitUnknown msg))"
  using assms
  by (auto simp: finish_prepared_commit_def split: sum.splits option.splits if_splits prod.splits)

lemma appended_bytes:
  assumes "append_commit_unflushed w bs outcome set_len_error = (w', Inr len)"
  shows "ww_file w' = ww_file w @ bs"
  using assms by (auto simp: append_commit_unflushed_def Let_def split: option.splits write_all_outcome.splits prod.splits)

lemma published_state:
  assumes "db_ok S V st" "txn_ok V st pp" "st_committed_version st \<noteq> - 1" "validate_commit V B st pp = Some (Inr vc)" "apply_commit (de_ext V) vc st = Some st'"
  shows "applying S V st (vc_staged vc) (vc_arena vc) (vc_version vc)" "committed V st (vc_staged vc) (vc_arena vc) (vc_version vc) st'"
    "vc_version vc = st_committed_version st + 1"
  using apply_commit_ok [OF assms(1,2,4,3)] assms(5) validate_commit_pass(4) [OF assms(4)] by auto

section \<open>A sample commit\<close>

lemma resident_empty: "sec_ok crc K (sec_resident [])" "\<not> sec_live crc (sec_resident []) k r"
  by (auto simp: sec_ok_def sec_resident_def id_map_in_def sec_live_def frozen_has_def run_newest_def overlay_op_def is_add_def)

text \<open>An empty database is in order.\<close>

lemma empty_db_ok:
  assumes index: "st_index st = primary_empty" and sec: "\<forall>x \<in> set (st_secondary st). snd x = sec_resident []" and log: "st_change_log st = change_log_default"
    and cat: "validate_catalog S (st_catalog st) = Inr ()" "\<forall>schema \<in> set (ca_tables (st_catalog st)). ts_epoch schema \<le> st_committed_version st"
    and decl: "secondary_declared st" and sort: "sorts_by_version (de_sort V)"
  shows "db_ok S V st" and "latest_owned E st t rid = Inr None" and "final_row V st [] t rid = None"
proof -
  have latest: "latest_owned E st t rid = Inr None" for E t rid
  proof (cases "table (st_catalog st) t")
    case None
    then show ?thesis by (simp add: latest_owned_def)
  next
    case (Some schema)
    have "is_newest (- 1) (all_versions (crc32 E) (st_index st) t rid) None" by (simp add: is_newest_simps index all_versions_empty)
    from latest_owned_newest [OF _ Some this] show ?thesis by (simp add: index idx_ok_empty opt_filter_def)
  qed
  then have none: "final_row V st [] t rid = None" for t rid by (simp add: final_row_def final_record_def split: option.split)
  have "sec_ok crc K si \<and> \<not> sec_live crc si k r" if "map_of (st_secondary st) key = Some si" for key si crc K k r
    using map_of_SomeD [OF that] sec resident_empty by fastforce
  then have "indexes_exact V st"
    unfolding indexes_exact_def index_exact_def none by (auto simp: live_ids_def usize_limit_def)
  then have "state_sound S V st" using cat(1) sort by (simp add: state_sound_def rows_wf_def indexable_def none index idx_ok_empty)
  moreover have "versions_below V st" "high_ids_ok V st" "changes_logged st"
    using cat(2) by (auto simp: versions_below_def high_ids_ok_def changes_logged_def index all_versions_empty log
        log_ok_def change_log_default_def log_entries_def intro!: exI [of _ "[]"])
  ultimately show "db_ok S V st" using decl by (simp add: db_ok_def rows_held_def latest)
  show "latest_owned E st t rid = Inr None" "final_row V st [] t rid = None" by (fact latest none)+
qed

text \<open>An empty database of users and their posts, and a transaction that adds a user and a post of it.\<close>

definition sample_db_env :: "bytes db_env" where
  "sample_db_env = \<lparr>de_ext = sample_ext, de_cache = [], de_sort = sort_key ve_version\<rparr>"

definition sample_db :: "bytes db_state" where
  "sample_db = \<lparr>st_index = primary_empty, st_segments = [], st_next_segment_id = 1, st_readers = [], st_superseded_segments = {},
     st_committed_version = 0, st_catalog = sample_catalog ''uid'' Ty_Int64 ''id'', st_identity_high_water = [],
     st_blobs = (\<lambda>_. Inl ''not found''), st_table_high_ids = [],
     st_secondary = map (\<lambda>(t, cols). ((t, secondary_index_id cols), sec_resident []))
       [(''users'', [''id'']), (''users'', [''tenant'', ''email'']), (''posts'', [''uid''])],
     st_change_log = change_log_default\<rparr>"

lemma sample_declared: "secondary_declared sample_db"
  unfolding secondary_declared_def
proof (intro allI impI)
  fix t :: string and cols :: "string list"
  assume short: "short_names cols"
  have id: "secondary_index_id cols = secondary_index_id xs \<longleftrightarrow> cols = xs" if "xs \<in> {[''id''], [''tenant'', ''email''], [''uid'']}" for xs
    using secondary_index_id_inject [OF short, of xs] that by (auto simp: short_names_def)
  show "(map_of (st_secondary sample_db) (t, secondary_index_id cols) \<noteq> None)
      \<longleftrightarrow> (\<exists>schema. table (st_catalog sample_db) t = Some schema \<and> cols \<in> ix_columns ` set (ts_indexes schema))"
    by (auto simp: sample_db_def id table_def sample_schema)
qed

lemma sample_empty:
  "db_ok sample_sys sample_db_env sample_db" "latest_owned E sample_db t rid = Inr None" "final_row sample_db_env sample_db [] t rid = None"
proof -
  have parts: "st_index sample_db = primary_empty" "\<forall>x \<in> set (st_secondary sample_db). snd x = sec_resident []" "st_change_log sample_db = change_log_default"
    "validate_catalog sample_sys (st_catalog sample_db) = Inr ()" "\<forall>schema \<in> set (ca_tables (st_catalog sample_db)). ts_epoch schema \<le> st_committed_version sample_db"
    using sample_catalog_valid by (simp_all add: sample_db_def) (simp add: sample_schema)
  have sort: "sorts_by_version (de_sort sample_db_env)" by (simp add: sample_db_env_def sorts_by_version_def)
  note ok = empty_db_ok [OF parts sample_declared sort]
  show "db_ok sample_sys sample_db_env sample_db" "latest_owned E sample_db t rid = Inr None" "final_row sample_db_env sample_db [] t rid = None" by (fact ok)+
qed

lemmas sample_db_ok = sample_empty(1) and sample_latest = sample_empty(2) and sample_no_rows = sample_empty(3)

definition sample_user :: "bytes row" where
  "sample_user = from_layout [''id'', ''tenant'', ''email''] [Int64 1, Text ''x'', Text ''y'']"

definition sample_post :: "bytes row" where
  "sample_post = from_layout [''uid''] [Int64 1]"

definition sample_payload :: "bytes table_schema \<Rightarrow> bytes row \<Rightarrow> bytes" where
  "sample_payload schema r = (case snd (encode_record_ordered sample_ext sample_blobs schema r None) of Inr bs \<Rightarrow> bs | Inl _ \<Rightarrow> [])"

abbreviation sample_posts_table :: "bytes table_schema" where
  "sample_posts_table \<equiv> sample_posts ''uid'' Ty_Int64 ''id''"

definition sample_change :: "string \<Rightarrow> bytes \<Rightarrow> bytes table_schema \<Rightarrow> bytes row \<Rightarrow> bytes prepared_change" where
  "sample_change rid arena schema r = \<lparr>pc_id = rid, pc_operation = Some r, pc_rebase = None,
     pc_payload = Some (of_nat (length arena), of_nat (length (arena @ sample_payload schema r)) - of_nat (length arena))\<rparr>"

definition sample_txn :: "bytes prepared_commit" where
  "sample_txn =
     \<lparr>pp_snap_version = 0,
      pp_staged =
        [\<lparr>pt_name = ''posts'', pt_schema = sample_posts_table, pt_changes = [sample_change ''p'' [] sample_posts_table sample_post]\<rparr>,
         \<lparr>pt_name = ''users'', pt_schema = sample_users, pt_changes = [sample_change ''a'' (sample_payload sample_posts_table sample_post) sample_users sample_user]\<rparr>],
      pp_payload_arena = sample_payload sample_posts_table sample_post @ sample_payload sample_users sample_user,
      pp_preencoded_wal = None, pp_optimistic = [[None], [None]]\<rparr>"

lemmas sample_row_defs = sample_user_def sample_post_def from_layout_def

lemma sample_encodes:
  "snd (encode_record_ordered sample_ext sample_blobs sample_users sample_user None) = Inr (sample_payload sample_users sample_user)"
  "snd (encode_record_ordered sample_ext sample_blobs sample_posts_table sample_post None) = Inr (sample_payload sample_posts_table sample_post)"
  "length (sample_payload sample_users sample_user) < 100" "length (sample_payload sample_posts_table sample_post) < 100"
  by (simp_all add: sample_payload_def encode_record_ordered_def encode_record_ordered_as_def record_fields_def sample_schema sample_row_defs
      matches_layout_def encode_name_def encode_field_def)

lemma sample_complete: "complete_row sample_ext sample_users sample_user" "complete_row sample_ext sample_posts_table sample_post"
  by (auto simp: complete_row_def wf_row_def sample_row_defs sample_schema wf_value_def fits_u32_def row_get_def position_def column_def
      orderable_row_def column_value_def orderable_def)

lemma sample_staged_rows:
  "staged_rows_ok sample_db_env sample_db (pp_payload_arena sample_txn) (pp_staged sample_txn)"
proof -
  let ?p = "sample_payload sample_posts_table sample_post" and ?u = "sample_payload sample_users sample_user"
  have names: "distinct (map col_name (ts_columns sample_users))" "distinct (map col_name (ts_columns sample_posts_table))" by (simp_all add: sample_schema)
  have fits: "fits_u32 (length ?p)" "fits_u32 (length (?p @ ?u))" using sample_encodes(3,4) by (simp_all add: fits_u32_def)
  have env: "de_ext sample_db_env = sample_ext" by (simp add: sample_db_env_def)
  note ok = replayed_row_ok [of sample_db_env, unfolded env]
  have "staged_row_ok sample_db_env sample_db (?p @ ?u) sample_users (sample_change ''a'' ?p sample_users sample_user)"
    using ok [OF sample_complete(1) names(1) sample_encodes(1) fits, of sample_db "sample_change ''a'' ?p sample_users sample_user"]
    by (simp add: sample_change_def)
  moreover have "staged_row_ok sample_db_env sample_db ?p sample_posts_table (sample_change ''p'' [] sample_posts_table sample_post)"
    using ok [OF sample_complete(2) names(2) sample_encodes(2), of "[]" sample_db "sample_change ''p'' [] sample_posts_table sample_post"] fits(1)
    by (simp add: sample_change_def fits_u32_def)
  ultimately show ?thesis using staged_row_grows by (simp add: staged_rows_ok_def sample_txn_def)
qed

lemma sample_txn_ok: "txn_ok sample_db_env sample_db sample_txn"
proof -
  have "commit_ok sample_db_env sample_db sample_txn"
    by (simp add: commit_ok_def sample_txn_def sample_change_def optimistic_change_def rust_str_def is_ascii_valid_utf8 is_ascii_def as_bytes_def byte_of_def of_char_def)
  then show ?thesis using sample_staged_rows by (simp add: txn_ok_def replays_complete_def sample_latest)
qed

lemma sample_index_loaded:
  "map_of (st_secondary sample_db) (''users'', secondary_index_id [''id'']) = Some (sec_resident [])"
  "map_of (st_secondary sample_db) (''users'', secondary_index_id [''tenant'', ''email'']) = Some (sec_resident [])"
  by (simp_all add: sample_db_def)

lemma sample_resident_ids: "sec_ids crc (sec_resident []) k = Some (Inr [])"
  using ids_batch_exact(1) [OF resident_empty(1) [of crc "{k}"], of k None "usize_limit - 1"] resident_empty(2) [of crc]
  by (simp add: sec_ids_def live_ids_def prefix_free_def)

lemma sample_tables:
  "table (st_catalog sample_db) ''users'' = Some sample_users" "table (st_catalog sample_db) ''posts'' = Some sample_posts_table"
  "ca_tables (st_catalog sample_db) = [sample_users, sample_posts_table]"
  by (simp_all add: sample_db_def table_def sample_schema)

lemma sample_unique: "validate_unique sample_db_env sample_db (pp_staged sample_txn) = Some (Inr ())"
proof -
  have posts: "for_loop (check_unique_key sample_db_env sample_db K t c r) (ts_indexes sample_posts_table) s = Some (Inr s)" for K t c r s
    by (simp add: check_unique_key_def sample_schema)
  have users: "\<exists>s'. for_loop (check_unique_key sample_db_env sample_db K t c sample_user) (ts_indexes sample_users) s = Some (Inr s')"
    if "pt_name t = ''users''" "\<forall>p \<in> ran s. p = pc_id c" for K t c s
  proof -
    have step: "\<exists>s'. check_unique_key sample_db_env sample_db K t c sample_user s d = Some (Inr s') \<and> (\<forall>p \<in> ran s'. p = pc_id c)"
      if d: "d \<in> set (ts_indexes sample_users)" and s: "\<forall>p \<in> ran s. p = pc_id c" for s d
    proof -
      have "map_of (st_secondary sample_db) (secondary_index_key (pt_name t) d) = Some (sec_resident [])"
        using d \<open>pt_name t = ''users''\<close> sample_index_loaded by (auto simp: secondary_index_key_def sample_schema)
      moreover have "\<forall>p \<in> ran (s(k \<mapsto> pc_id c)). p = pc_id c" for k
      proof -
        have "ran (s(k \<mapsto> pc_id c)) \<subseteq> insert (pc_id c) (ran s)" by (auto simp: ran_def)
        with s show ?thesis by blast
      qed
      moreover have "\<not> (case s k of Some p \<Rightarrow> p \<noteq> pc_id c | None \<Rightarrow> False)" for k
        using s ranI [of s k] by (cases "s k") fastforce+
      ultimately show ?thesis using s
        by (auto simp: check_unique_key_def Let_def sample_resident_ids)
    qed
    from step [of "sample_index [''id''] True" s] that(2) obtain s1 where s1: "check_unique_key sample_db_env sample_db K t c sample_user s (sample_index [''id''] True) = Some (Inr s1)"
      "\<forall>p \<in> ran s1. p = pc_id c" by (auto simp: sample_users_def)
    from step [of "sample_index [''tenant'', ''email''] True" s1] s1(2) obtain s2 where
      "check_unique_key sample_db_env sample_db K t c sample_user s1 (sample_index [''tenant'', ''email''] True) = Some (Inr s2)" by (auto simp: sample_users_def)
    with s1(1) show ?thesis by (simp add: sample_users_def)
  qed
  let ?t = "\<lparr>pt_name = ''users'', pt_schema = sample_users, pt_changes = [sample_change ''a'' (sample_payload sample_posts_table sample_post) sample_users sample_user]\<rparr>"
  from users [of ?t Map.empty "sample_change ''a'' (sample_payload sample_posts_table sample_post) sample_users sample_user" "staged_keys_of (pp_staged sample_txn)"]
  obtain s' where "for_loop (check_unique_key sample_db_env sample_db (staged_keys_of (pp_staged sample_txn)) ?t
      (sample_change ''a'' (sample_payload sample_posts_table sample_post) sample_users sample_user) sample_user) (ts_indexes sample_users) Map.empty = Some (Inr s')" by auto
  then show ?thesis
    unfolding validate_unique_def by (simp add: sample_txn_def sample_change_def posts)
qed

abbreviation sample_post_change :: "bytes prepared_change" where
  "sample_post_change \<equiv> sample_change ''p'' [] sample_posts_table sample_post"

abbreviation sample_user_change :: "bytes prepared_change" where
  "sample_user_change \<equiv> sample_change ''a'' (sample_payload sample_posts_table sample_post) sample_users sample_user"

lemma sample_find: "find_prepared_change (pp_staged sample_txn) t rid =
    (if t = ''posts'' \<and> rid = ''p'' then Some sample_post_change else if t = ''users'' \<and> rid = ''a'' then Some sample_user_change else None)"
  by (simp add: find_prepared_change_def sample_txn_def binary_search_Cons binary_search_Nil) (auto simp: sample_change_def)

lemma sample_parents: "final_ids_matching sample_db_env sample_db (pp_staged sample_txn) ''users'' ''id'' (Int64 1) = Some (Inr {''a''})"
proof -
  have explicit: "\<not> has_implicit_id sample_users" by (simp add: has_implicit_id_def column_def sample_schema)
  have row: "final_record sample_db_env sample_db (pp_staged sample_txn) ''users'' ''a'' = Some (Inr (Some sample_user))"
    using explicit by (simp add: final_record_def sample_tables sample_find sample_change_def with_id_def)
  have staged: "find (\<lambda>p. pt_name p = ''users'') (pp_staged sample_txn) = Some \<lparr>pt_name = ''users'', pt_schema = sample_users, pt_changes = [sample_user_change]\<rparr>"
    by (simp add: sample_txn_def)
  have get: "row_get sample_user ''id'' = Some (Int64 1)" by (simp add: row_get_def position_def sample_row_defs)
  have "pc_id sample_user_change = ''a''" by (simp add: sample_change_def)
  then show ?thesis
    using explicit by (simp add: final_ids_matching_def sample_tables single_secondary_index_key_def sample_index_loaded sample_resident_ids staged row get value_eq_def)
qed

lemma sample_references: "validate_foreign_keys sample_db_env sample_db (pp_staged sample_txn) = Some (Inr ())"
proof -
  have child: "check_child sample_db_env sample_db (pp_staged sample_txn) t sample_post fk = Some (Inr ())"
    if "fk_referenced_table fk = ''users''" "fk_referenced_column fk = ''id''" "fk_column fk = ''uid''" for t fk
    using that sample_parents by (simp add: check_child_def row_get_def position_def sample_row_defs is_null_def)
  have parent: "check_parent sample_db_env sample_db staged t c = Some (Inr ())" for staged t c
    by (simp add: check_parent_def sample_latest)
  show ?thesis
    unfolding validate_foreign_keys_def
    using child parent by (simp add: sample_tables) (simp add: sample_txn_def sample_change_def sample_schema)
qed

lemma sample_validates:
  "validate_commit sample_db_env sample_blobs sample_db sample_txn = Some (Inr \<lparr>vc_staged = pp_staged sample_txn, vc_arena = pp_payload_arena sample_txn,
     vc_preencoded_wal = None, vc_checked = replicate 2 [\<lparr>cc_previous = None, cc_prior = None, cc_rebased = None\<rparr>], vc_version = 1, vc_identity = []\<rparr>)"
proof -
  have check: "check_change sample_db_env sample_db snap t (c, opt) = Some (Inr \<lparr>cc_previous = None, cc_prior = None, cc_rebased = None\<rparr>)" for snap t c opt
    by (simp add: check_change_def id_is_above_high_watermark_def sample_latest)
  have tables: "for_map (check_table sample_db_env sample_db (pp_snap_version sample_txn)) (zip (pp_staged sample_txn) (pp_optimistic sample_txn))
      = Some (Inr (replicate 2 [\<lparr>cc_previous = None, cc_prior = None, cc_rebased = None\<rparr>]))"
    by (simp add: sample_txn_def check_table_def sample_tables check numeral_2_eq_2)
  have loop: "for_loop (rebase_staged_table sample_db_env sample_blobs)
      (zip (pp_staged sample_txn) (replicate 2 [\<lparr>cc_previous = None, cc_prior = None, cc_rebased = None\<rparr>])) (pp_payload_arena sample_txn, [])
      = Some (Inr (pp_payload_arena sample_txn, pp_staged sample_txn))"
    by (simp add: sample_txn_def rebase_staged_table_def rebase_staged_change_def numeral_2_eq_2)
  show ?thesis
    unfolding validate_commit_def tables loop obind_simps prod.case sample_unique sample_references
    by (simp add: numeral_2_eq_2) (simp add: sample_txn_def sample_db_def map_filter_def)
qed

lemma commit_record_exists:
  assumes "vc_preencoded_wal vc = None" "wal_changes (vc_arena vc) (vc_staged vc) = Some (Inr cs)" "vc_identity vc = []"
    and "list_all wf_change cs" "fits_u32 (length cs)"
  shows "\<exists>bs. commit_record E vc = Some (Inr bs)"
proof -
  have "wf_record \<lparr>wr_version = vc_version vc, wr_changes = cs, wr_identity = []\<rparr>" using assms(4,5) by (simp add: wf_record_def)
  from encode_commit_ok [OF this, of E "vc_version vc"] obtain rest where
    "encode_commit E (vc_version vc) cs [] = Inr (to_le_bytes (vc_version vc) @ to_le_bytes (of_nat (length cs) :: u32) @ rest)"
    by (auto simp: Let_def record_items_def)
  then show ?thesis using assms(1-3) by (auto simp: commit_record_def set_encoded_commit_version_def Let_def)
qed

lemma sample_changes:
  assumes "validate_commit sample_db_env sample_blobs sample_db sample_txn = Some (Inr vc)"
  shows "wal_changes (vc_arena vc) (vc_staged vc) = Some (Inr [\<lparr>wc_table = ''posts'', wc_id = ''p'', wc_payload = Some (sample_payload sample_posts_table sample_post)\<rparr>,
    \<lparr>wc_table = ''users'', wc_id = ''a'', wc_payload = Some (sample_payload sample_users sample_user)\<rparr>])"
proof -
  let ?p = "sample_payload sample_posts_table sample_post" and ?u = "sample_payload sample_users sample_user"
  have fits: "fits_u32 (length ?p)" "fits_u32 (length ?u)" using sample_encodes(3,4) by (simp_all add: fits_u32_def)
  have slices: "arena_slice (?p @ ?u) (0, of_nat (length ?p)) = Some ?p" "arena_slice (?p @ ?u) (of_nat (length ?p), of_nat (length ?u)) = Some ?u"
    using get_range_append [of "[]" ?p ?u] get_range_append [of ?p ?u "[]"] fits by (simp_all add: arena_slice_def unat_of_nat_u32)
  show ?thesis
    using assms [unfolded sample_validates] slices by (auto simp: wal_changes_def sample_txn_def wal_change_of_def sample_change_def)
qed

lemma sample_change_wf:
  assumes "t \<in> {''posts'', ''users''}" "rid \<in> {''a'', ''p''}" "length bs < 100"
  shows "wf_change \<lparr>wc_table = t, wc_id = rid, wc_payload = Some bs\<rparr>"
  using assms by (auto simp: wf_change_def fits_u16_def fits_u32_def rust_str_def is_ascii_valid_utf8 is_ascii_def as_bytes_def byte_of_def of_char_def IDENTITY_META_TABLE_def)

definition sample_writer :: wal_writer where
  "sample_writer = \<lparr>ww_id = 1, ww_file = [], ww_len = 0, ww_last_sync = 0, ww_unsynced = False, ww_poisoned = None, ww_durable = 0\<rparr>"

lemma commit_succeeds:
  assumes "db_ok S V st" "txn_ok V st pp" "st_committed_version st \<noteq> - 1" "validate_commit V B st pp = Some (Inr vc)" "\<exists>bs. commit_record (de_ext V) vc = Some (Inr bs)"
  obtains st' w' where "finish_prepared_commit V B (Inr ()) False WroteAll None None pp (st, sample_writer) = Some ((st', w'), Inr (vc_version vc))"
proof -
  from apply_commit_ok(2) [OF assms(1,2,4,3)] obtain st' where "apply_commit (de_ext V) vc st = Some st'" by blast
  with assms(4,5) that show ?thesis by (auto simp: finish_prepared_commit_def append_commit_unflushed_def sample_writer_def Let_def)
qed

lemma sample_commits:
  obtains st' w' where "finish_prepared_commit sample_db_env sample_blobs (Inr ()) False WroteAll None None sample_txn (sample_db, sample_writer) = Some ((st', w'), Inr 1)"
proof -
  from sample_validates obtain vc where vc: "validate_commit sample_db_env sample_blobs sample_db sample_txn = Some (Inr vc)" "vc_version vc = 1"
    "vc_preencoded_wal vc = None" "vc_identity vc = []" by simp
  have "\<exists>bs. commit_record (de_ext sample_db_env) vc = Some (Inr bs)"
    using commit_record_exists [OF vc(3) sample_changes [OF vc(1)] vc(4)] sample_change_wf sample_encodes(3,4) by (simp add: fits_u32_def)
  from commit_succeeds [OF sample_db_ok sample_txn_ok _ vc(1) this] vc(2) that show ?thesis by (auto simp: sample_db_def)
qed

lemma sample_rows_fit: "rows_fit sample_db_env sample_db (pp_staged sample_txn)"
proof -
  have none: "final_row sample_db_env sample_db (pp_staged sample_txn) t rid = None" if "rid \<notin> {''p'', ''a''}" for t rid
    using final_row_unstaged [of "pp_staged sample_txn" t rid sample_db_env sample_db] that by (simp add: sample_find sample_no_rows)
  have "{rid. final_row sample_db_env sample_db (pp_staged sample_txn) t rid \<noteq> None} \<subseteq> {''p'', ''a''}" for t
  proof
    fix x
    assume "x \<in> {rid. final_row sample_db_env sample_db (pp_staged sample_txn) t rid \<noteq> None}"
    with none [of x t] show "x \<in> {''p'', ''a''}" by (cases "x \<in> {''p'', ''a''}") simp_all
  qed
  then have "card {rid. final_row sample_db_env sample_db (pp_staged sample_txn) t rid \<noteq> None} \<le> card {''p'', ''a''}" for t by (intro card_mono) auto
  moreover have "card {''p'', ''a''} < usize_limit" by (simp add: usize_limit_def)
  ultimately show ?thesis unfolding rows_fit_def using le_less_trans by blast
qed

lemma sample_constraints: "unique_holds sample_db_env sample_db []" "references_hold sample_db_env sample_db []"
  by (simp_all add: unique_holds_def references_hold_def sample_no_rows)


text \<open>A table of counters with one row, and a transaction that increments it with a snapshot from before the row was last changed.\<close>

definition sample_counters :: "bytes table_schema" where
  "sample_counters = \<lparr>ts_name = ''users'', ts_columns = [column_new ''n'' Ty_Int64], ts_indexes = [], ts_foreign_keys = [], ts_epoch = 0, ts_identity_keyed = False\<rparr>"

definition sample_count :: "i64 \<Rightarrow> bytes row" where
  "sample_count n = from_layout [''n''] [Int64 n]"

definition sample_entry :: version_entry where
  "sample_entry = \<lparr>ve_version = 2, ve_kind = MemPut \<lparr>mp_bytes = sample_payload sample_counters (sample_count 5), mp_start = 0,
     mp_len = of_nat (length (sample_payload sample_counters (sample_count 5)))\<rparr>\<rparr>"

definition counter_db :: "bytes db_state" where
  "counter_db = \<lparr>st_index = primary_push ''users'' ''a'' sample_entry primary_empty, st_segments = [], st_next_segment_id = 1, st_readers = [],
     st_superseded_segments = {}, st_committed_version = 2, st_catalog = \<lparr>ca_format_version = FORMAT_VERSION, ca_tables = [sample_counters]\<rparr>,
     st_identity_high_water = [], st_blobs = (\<lambda>_. Inl ''not found''), st_table_high_ids = [(''users'', ''a'')], st_secondary = [],
     st_change_log = change_log_default\<rparr>"

definition increment_n :: "bytes rebase_step" where
  "increment_n rid r = (case row_get r ''n'' of Some (Int64 n) \<Rightarrow> Inr (Some (sample_count (n + 1))) | _ \<Rightarrow> Inr None)"

definition increment_txn :: "bytes prepared_commit" where
  "increment_txn =
     \<lparr>pp_snap_version = 1,
      pp_staged = [\<lparr>pt_name = ''users'', pt_schema = sample_counters,
        pt_changes = [(sample_change ''a'' [] sample_counters (sample_count 5))\<lparr>pc_rebase := Some [increment_n]\<rparr>]\<rparr>],
      pp_payload_arena = sample_payload sample_counters (sample_count 5), pp_preencoded_wal = None, pp_optimistic = [[None]]\<rparr>"

lemma counter_encodes:
  "snd (encode_record_ordered sample_ext sample_blobs sample_counters (sample_count n) None) = Inr (sample_payload sample_counters (sample_count n))"
  "length (sample_payload sample_counters (sample_count n)) < 100"
  by (simp_all add: sample_payload_def encode_record_ordered_def encode_record_ordered_as_def record_fields_def sample_counters_def column_new_def
      sample_count_def from_layout_def matches_layout_def encode_name_def encode_field_def)

lemma counter_complete: "complete_row sample_ext sample_counters (sample_count n)" "distinct (map col_name (ts_columns sample_counters))"
  by (auto simp: complete_row_def wf_row_def sample_count_def from_layout_def sample_counters_def column_new_def wf_value_def fits_u32_def row_get_def
      position_def column_def orderable_row_def column_value_def orderable_def)

lemma counter_get: "row_get (sample_count n) ''n'' = Some (Int64 n)"
  by (simp add: sample_count_def from_layout_def row_get_def position_def)

lemma counter_table: "table (st_catalog counter_db) t = (if t = ''users'' then Some sample_counters else None)"
  by (simp add: counter_db_def table_def sample_counters_def)

lemma counter_index:
  shows "idx_ok crc (st_index counter_db)"
    and "all_versions crc (st_index counter_db) t i = (if t = ''users'' \<and> i = ''a'' then [sample_entry] else [])"
  using primary_push_ok [OF idx_ok_empty, of "''users''" "''a''" crc sample_entry]
  by (simp_all add: counter_db_def all_versions_empty table_fits_def rust_str_def is_ascii_valid_utf8 is_ascii_def as_bytes_def byte_of_def of_char_def)

lemma counter_latest: "latest_owned E counter_db t rid = Inr (if t = ''users'' \<and> rid = ''a'' then Some sample_entry else None)"
proof (cases "t = ''users''")
  case False
  then show ?thesis by (simp add: latest_owned_def counter_table)
next
  case True
  have "is_newest (- 1) (all_versions (crc32 E) (st_index counter_db) t rid) (if t = ''users'' \<and> rid = ''a'' then Some sample_entry else None)"
    by (simp add: is_newest_simps counter_index(2) sample_entry_def)
  from latest_owned_newest [OF counter_index(1) _ this, of sample_counters] True show ?thesis
    by (auto simp: counter_table opt_filter_def sample_entry_def sample_counters_def)
qed

lemma counter_held: "holds sample_db_env st sample_counters (ve_kind sample_entry) (sample_count 5)"
proof -
  let ?bs = "sample_payload sample_counters (sample_count 5)"
  have "fits_u32 (length ?bs)" using counter_encodes(2) [of 5] by (simp add: fits_u32_def)
  then have "mem_payload_slice \<lparr>mp_bytes = ?bs, mp_start = 0, mp_len = of_nat (length ?bs)\<rparr> = Some ?bs"
    using get_range_append [of "[]" ?bs "[]"] by (simp add: mem_payload_slice_def unat_of_nat_u32)
  moreover have "length ?bs < usize_limit" using counter_encodes(2) [of 5] by (simp add: usize_limit_def)
  ultimately show ?thesis
    using encoded_holds [of sample_db_env sample_blobs sample_counters "sample_count 5" ?bs] counter_encodes(1) [of 5] counter_complete(1) [of 5] counter_complete(2)
    by (simp add: sample_entry_def sample_db_env_def)
qed

lemma counter_rebase:
  assumes "pc_id c = ''a''" "pc_rebase c = Some [increment_n]"
  shows "rebase_change sample_db_env counter_db sample_counters c sample_entry = Some (Inr (Some (sample_count 6)))"
proof -
  obtain r where "read_record_kind (de_ext sample_db_env) (de_cache sample_db_env) (st_blobs counter_db) (st_readers counter_db) (ve_kind sample_entry) sample_counters = Some (Inr r)"
    "\<And>n. row_get r n = row_get (sample_count 5) n" using read_record_held [OF counter_held [of counter_db]] by blast
  then show ?thesis using assms
    by (simp add: rebase_change_def is_tombstone_def sample_entry_def increment_n_def counter_get) (simp add: sample_counters_def column_new_def)
qed

lemma counter_db_ok: "db_ok sample_sys sample_db_env counter_db"
proof -
  have wf: "wf_row r" if "final_row sample_db_env counter_db [] t rid = Some r" for t rid r
  proof -
    from that obtain schema e r0 where e: "table (st_catalog counter_db) t = Some schema" "latest_owned (de_ext sample_db_env) counter_db t rid = Inr (Some e)"
      "read_record_kind (de_ext sample_db_env) (de_cache sample_db_env) (st_blobs counter_db) (st_readers counter_db) (ve_kind e) schema = Some (Inr r0)"
      "r = with_id schema rid r0" by (rule current_row)
    then have "schema = sample_counters" "e = sample_entry" by (auto simp: counter_table counter_latest split: if_splits)
    with read_record_held [OF counter_held [of counter_db]] e(3) have "wf_row r0" by auto
    with e(4) wf_row_insert [of r0] show ?thesis by (simp add: with_id_def)
  qed
  have "validate_catalog sample_sys (st_catalog counter_db) = Inr ()"
    by (simp add: counter_db_def sample_counters_def sample_sys_def column_new_def validation_defs chars_sample is_control_def)
  then have "state_sound sample_sys sample_db_env counter_db"
    using counter_index(1) wf
    by (auto simp: state_sound_def rows_wf_def indexes_exact_def indexable_def counter_table sample_db_env_def sorts_by_version_def)
      (auto simp: counter_db_def sample_counters_def)
  moreover have "versions_below sample_db_env counter_db" "high_ids_ok sample_db_env counter_db"
    by (auto simp: versions_below_def high_ids_ok_def counter_index(2) sample_entry_def) (simp_all add: counter_db_def sample_counters_def)
  moreover have "changes_logged counter_db"
    by (auto simp: changes_logged_def counter_db_def log_ok_def change_log_default_def log_entries_def intro!: exI [of _ "[]"])
  moreover have "rows_held sample_db_env counter_db" "secondary_declared counter_db"
    using counter_held [of counter_db] by (auto simp: rows_held_def secondary_declared_def counter_latest counter_table split: if_splits)
      (simp_all add: counter_db_def sample_counters_def)
  ultimately show ?thesis by (simp add: db_ok_def)
qed

lemma increment_txn_ok: "txn_ok sample_db_env counter_db increment_txn"
proof -
  let ?c = "(sample_change ''a'' [] sample_counters (sample_count 5))\<lparr>pc_rebase := Some [increment_n]\<rparr>"
  have "commit_ok sample_db_env counter_db increment_txn"
    by (simp add: commit_ok_def increment_txn_def sample_change_def optimistic_change_def rust_str_def is_ascii_valid_utf8 is_ascii_def as_bytes_def byte_of_def of_char_def)
  moreover have "staged_row_ok sample_db_env counter_db (sample_payload sample_counters (sample_count 5)) sample_counters ?c"
    using replayed_row_ok [of sample_db_env sample_counters "sample_count 5" sample_blobs "sample_payload sample_counters (sample_count 5)" "[]" counter_db ?c]
      counter_complete(1) [of 5] counter_complete(2) counter_encodes(1) [of 5] counter_encodes(2) [of 5]
    by (simp add: sample_change_def fits_u32_def sample_db_env_def)
  moreover have "replays_complete sample_db_env counter_db p ?c" if "pt_name p = ''users''" "pt_schema p = sample_counters" for p
    using that counter_rebase [of ?c] counter_complete(1) [of 6]
    by (simp add: replays_complete_def counter_latest sample_change_def) (simp add: sample_db_env_def)
  ultimately show ?thesis by (simp add: txn_ok_def staged_rows_ok_def) (simp add: increment_txn_def)
qed

abbreviation count_bytes :: "i64 \<Rightarrow> bytes" where
  "count_bytes n \<equiv> sample_payload sample_counters (sample_count n)"

lemma increment_validates:
  obtains vc where "validate_commit sample_db_env sample_blobs counter_db increment_txn = Some (Inr vc)" "vc_version vc = 3" "vc_identity vc = []"
    "vc_preencoded_wal vc = None" "wal_changes (vc_arena vc) (vc_staged vc) = Some (Inr [\<lparr>wc_table = ''users'', wc_id = ''a'', wc_payload = Some (count_bytes 6)\<rparr>])"
proof -
  let ?k = "\<lparr>cc_previous = Some sample_entry, cc_prior = None, cc_rebased = Some (sample_count 6)\<rparr>"
  let ?arena = "count_bytes 5 @ count_bytes 6"
  let ?c = "(sample_change ''a'' [] sample_counters (sample_count 5))\<lparr>pc_rebase := Some [increment_n]\<rparr>"
  let ?c' = "?c\<lparr>pc_operation := Some (sample_count 6), pc_payload := Some (of_nat (length (count_bytes 5)), of_nat (length ?arena) - of_nat (length (count_bytes 5)))\<rparr>"
  let ?staged = "[\<lparr>pt_name = ''users'', pt_schema = sample_counters, pt_changes = [?c']\<rparr>]"
  have fits: "fits_u32 (length (count_bytes 5))" "fits_u32 (length (count_bytes 6))" "fits_u32 (length ?arena)"
    using counter_encodes(2) [of 5] counter_encodes(2) [of 6] by (simp_all add: fits_u32_def)
  have high: "\<not> id_is_above_high_watermark counter_db ''users'' ''a''" by (simp add: id_is_above_high_watermark_def counter_db_def)
  have "check_change sample_db_env counter_db 1 \<lparr>pt_name = ''users'', pt_schema = sample_counters, pt_changes = [?c]\<rparr> (?c, None) = Some (Inr ?k)"
    using counter_rebase [of ?c] high
    by (simp add: check_change_def counter_latest sample_change_def) (simp add: sample_entry_def sample_counters_def)
  then have tables: "for_map (check_table sample_db_env counter_db (pp_snap_version increment_txn)) (zip (pp_staged increment_txn) (pp_optimistic increment_txn)) = Some (Inr [[?k]])"
    by (simp add: increment_txn_def check_table_def counter_table)
  have loop: "for_loop (rebase_staged_table sample_db_env sample_blobs) (zip (pp_staged increment_txn) [[?k]]) (pp_payload_arena increment_txn, []) = Some (Inr (?arena, ?staged))"
    using fits counter_encodes(1) [of 6]
    by (simp add: increment_txn_def rebase_staged_table_def rebase_staged_change_def sample_db_env_def)
  have valid: "validate_unique sample_db_env counter_db ?staged = Some (Inr ())" "validate_foreign_keys sample_db_env counter_db ?staged = Some (Inr ())"
    by (simp_all add: validate_unique_def validate_foreign_keys_def counter_db_def sample_counters_def)
  let ?vc = "\<lparr>vc_staged = ?staged, vc_arena = ?arena, vc_preencoded_wal = None, vc_checked = [[?k]], vc_version = 3, vc_identity = []\<rparr>"
  have validate: "validate_commit sample_db_env sample_blobs counter_db increment_txn = Some (Inr ?vc)"
    unfolding validate_commit_def tables loop obind_simps prod.case valid
    by (simp add: counter_db_def sample_counters_def column_new_def map_filter_def)
  have "arena_slice ?arena (of_nat (length (count_bytes 5)), of_nat (length (count_bytes 6))) = Some (count_bytes 6)"
    using get_range_append [of "count_bytes 5" "count_bytes 6" "[]"] fits by (simp add: arena_slice_def unat_of_nat_u32)
  then have "wal_changes (vc_arena ?vc) (vc_staged ?vc) = Some (Inr [\<lparr>wc_table = ''users'', wc_id = ''a'', wc_payload = Some (count_bytes 6)\<rparr>])"
    by (simp add: wal_changes_def wal_change_of_def sample_change_def)
  from that [OF validate _ _ _ this] show ?thesis by simp
qed

section \<open>Properties\<close>

text \<open>C1. A commit keeps the database in order: the primary index, the secondary indexes, which hold exactly the
  keys of the current rows, the greatest ids and the log of changes all describe the new state; and
  the constraints of the schema still hold of its rows: no two rows share a key of a unique index
  and every reference of a foreign key finds its row. This is so whether the commit is refused at
  any point, published, or published with its durability unknown.\<close>

theorem commit_keeps_constraints:
  assumes "db_ok S V st" and "unique_holds V st []" and "references_hold V st []" and "txn_ok V st pp" and "st_committed_version st \<noteq> - 1"
    and "\<forall>vc. validate_commit V B st pp = Some (Inr vc) \<longrightarrow> rows_fit V st (vc_staged vc)"
    and "finish_prepared_commit V B background pool_full outcome set_len_error sync_error pp (st, w) = Some ((st', w'), res)"
  shows "db_ok S V st' \<and> unique_holds V st' [] \<and> references_hold V st' []"
  using assms(7)
proof (cases rule: finish_cases)
  case refused
  then show ?thesis using assms(1-3) by simp
next
  case (published vc bs)
  note state = published_state [OF assms(1,4,5) published(1,3)]
  note parts = db_ok_parts [OF assms(1)] and valid = validate_commit_pass(2,3) [OF published(1)]
  have ok: "staged_ok st (vc_staged vc)" using state(1) by (simp add: applying_def)
  note ord = staged_indexable [OF state(1)]
  have "unique_holds V st (vc_staged vc)" by (rule unique_kept [OF ok parts(7,11) ord assms(2) valid(1)])
  moreover have "references_hold V st (vc_staged vc)" by (rule references_kept [OF parts(1) ok ord assms(3) valid(2)])
  ultimately show ?thesis
    using committed_db_ok [OF state(1,2)] committed_unique [OF state(1,2)] committed_references [OF state(1,2)] assms(6) published(1) by blast
qed

theorem commit_keeps_constraints_witness:
  "\<exists>st' w'. finish_prepared_commit sample_db_env sample_blobs (Inr ()) False WroteAll None None sample_txn (sample_db, sample_writer) = Some ((st', w'), Inr 1)
     \<and> db_ok sample_sys sample_db_env st' \<and> unique_holds sample_db_env st' [] \<and> references_hold sample_db_env st' []"
proof -
  obtain st' w' where run: "finish_prepared_commit sample_db_env sample_blobs (Inr ()) False WroteAll None None sample_txn (sample_db, sample_writer) = Some ((st', w'), Inr 1)"
    by (rule sample_commits)
  have "\<forall>vc. validate_commit sample_db_env sample_blobs sample_db sample_txn = Some (Inr vc) \<longrightarrow> rows_fit sample_db_env sample_db (vc_staged vc)"
    using sample_rows_fit by (auto simp: sample_validates)
  from commit_keeps_constraints [OF sample_db_ok sample_constraints sample_txn_ok _ this run] run show ?thesis by (auto simp: sample_db_def)
qed





end
