(* ===== verification/Group_Commit.thy ===== *)
theory Group_Commit
  imports Commit_Correct
begin

text \<open>
  The coordinated path of \<open>db/commit.rs\<close>: several prepared transactions are checked against the
  committed state under one hold of the commit lock, their records are appended to the log with one
  vectored write, and they are applied one after the other. A member that cannot be taken is set
  aside and committed alone afterwards.

  \<open>pool_full\<close> says that the index pool cannot take the members, \<open>background\<close> is the deferred error of a
  checkpoint, \<open>outcomes\<close> and \<open>set_len_error\<close> are the outcomes of the writes, and \<open>sync\<close> that of the barrier, where
  one is due. Text and vector indexes keep a transaction out of a batch and are not modelled.
\<close>

section \<open>Checking the members\<close>

definition is_coordinated_insert_candidate :: "'j prepared_commit \<Rightarrow> bool" where
  "is_coordinated_insert_candidate prepared \<longleftrightarrow> pp_preencoded_wal prepared \<noteq> None"

text \<open>The findings on every change, or \<open>Some None\<close> when the member has to be set aside. Which error a
  check had does not matter then; the one of a row that another member has taken is never seen.\<close>

definition check_batch_change :: "'j db_env \<Rightarrow> 'j db_state \<Rightarrow> (string \<times> string) set \<Rightarrow> u64 \<Rightarrow> 'j prepared_table \<Rightarrow> 'j prepared_change \<times> (u64 \<times> 'j row) option
    \<Rightarrow> 'j checked_change result option" where
  "check_batch_change V st taken snap_version t x =
     (if (pt_name t, pc_id (fst x)) \<in> taken then Some (Inl (Conflict ''row taken'')) else check_change V st snap_version t x)"

definition batch_member_previous :: "'j db_env \<Rightarrow> 'j db_state \<Rightarrow> (string \<times> string) set \<Rightarrow> 'j prepared_commit \<Rightarrow> 'j checked_change list list option option" where
  "batch_member_previous V st taken commit =
     (case for_map (\<lambda>(t, optimistic). for_map (check_batch_change V st taken (pp_snap_version commit) t) (zip (pt_changes t) optimistic))
             (zip (pp_staged commit) (pp_optimistic commit)) of
        None \<Rightarrow> None
      | Some (Inl _) \<Rightarrow> Some None
      | Some (Inr checked) \<Rightarrow> Some (Some checked))"

type_synonym 'j batch_member = "'j prepared_commit \<times> 'j checked_change list list option"

text \<open>The loop over the members; \<open>Some None\<close> is a schema that changed, which hands every member back.\<close>

fun check_members :: "'j db_env \<Rightarrow> 'j db_state \<Rightarrow> (string \<times> string) set \<Rightarrow> 'j prepared_commit list \<Rightarrow> 'j batch_member list option option" where
  "check_members V st ids [] = Some (Some [])"
| "check_members V st ids (commit # rest) =
     (if list_ex (\<lambda>t. table (st_catalog st) (pt_name t) \<noteq> Some (pt_schema t)) (pp_staged commit) then Some None
      else
        (case batch_member_previous V st ids commit of
           None \<Rightarrow> None
         | Some previous \<Rightarrow>
             map_option (map_option (Cons (commit, previous)))
               (check_members V st (if previous = None then ids else ids \<union> staged_keys_of (pp_staged commit)) rest)))"

section \<open>Replaying increments of a member\<close>

text \<open>The rows are replaced in place; a failure leaves the rows replaced so far.\<close>

fun replay_changes :: "'j db_env \<Rightarrow> blob_env \<Rightarrow> 'j table_schema \<Rightarrow> ('j prepared_change \<times> 'j checked_change) list \<Rightarrow> bytes
    \<Rightarrow> bytes \<times> 'j prepared_change list \<times> unit result" where
  "replay_changes V B schema [] arena = (arena, [], Inr ())"
| "replay_changes V B schema ((change, checked) # rest) arena =
     (case cc_rebased checked of
        None \<Rightarrow> (case replay_changes V B schema rest arena of (arena, changes, r) \<Rightarrow> (arena, change # changes, r))
      | Some record \<Rightarrow>
          if \<not> fits_u32 (length arena) then (arena, change # map fst rest, Inl arena_error)
          else
            (case snd (encode_record_ordered (de_ext V) B schema record None) of
               Inl err \<Rightarrow> (arena, change # map fst rest, Inl err)
             | Inr encoded \<Rightarrow>
                 if \<not> fits_u32 (length (arena @ encoded)) then (arena @ encoded, change # map fst rest, Inl arena_error)
                 else
                   (case replay_changes V B schema rest (arena @ encoded) of
                      (arena', changes, r) \<Rightarrow>
                        (arena', change\<lparr>pc_operation := Some record,
                           pc_payload := Some (of_nat (length arena), of_nat (length (arena @ encoded)) - of_nat (length arena))\<rparr> # changes, r))))"

fun replay_tables :: "'j db_env \<Rightarrow> blob_env \<Rightarrow> ('j prepared_table \<times> 'j checked_change list) list \<Rightarrow> bytes \<Rightarrow> bytes \<times> 'j prepared_table list \<times> unit result" where
  "replay_tables V B [] arena = (arena, [], Inr ())"
| "replay_tables V B ((t, checked) # rest) arena =
     (case replay_changes V B (pt_schema t) (zip (pt_changes t) checked) arena of
        (arena, changes, Inl err) \<Rightarrow> (arena, t\<lparr>pt_changes := changes\<rparr> # map fst rest, Inl err)
      | (arena, changes, Inr _) \<Rightarrow>
          (case replay_tables V B rest arena of (arena, tables, r) \<Rightarrow> (arena, t\<lparr>pt_changes := changes\<rparr> # tables, r)))"

definition identity_marks :: "'j db_state \<Rightarrow> 'j prepared_table list \<Rightarrow> (string \<times> i64) list" where
  "identity_marks st staged =
     List.map_filter (\<lambda>t. map_option (Pair (pt_name t)) (map_of (st_identity_high_water st) (pt_name t)))
       (filter (\<lambda>t. list_ex col_identity (ts_columns (pt_schema t))) staged)"

definition replay_batch_member :: "'j db_env \<Rightarrow> blob_env \<Rightarrow> 'j db_state \<Rightarrow> 'j prepared_commit \<Rightarrow> 'j checked_change list list \<Rightarrow> ('j prepared_commit \<times> unit result) option" where
  "replay_batch_member V B st commit checked =
     (case replay_tables V B (zip (pp_staged commit) checked) (pp_payload_arena commit) of
        (arena, staged, r) \<Rightarrow>
          let commit = commit\<lparr>pp_staged := staged, pp_payload_arena := arena\<rparr> in
          (case r of
             Inl err \<Rightarrow> Some (commit, Inl err)
           | Inr _ \<Rightarrow>
               (case wal_changes arena staged of
                  None \<Rightarrow> None
                | Some (Inl err) \<Rightarrow> Some (commit, Inl err)
                | Some (Inr changes) \<Rightarrow>
                    (case encode_commit (de_ext V) 0 changes (identity_marks st staged) of
                       Inl err \<Rightarrow> Some (commit, Inl err)
                     | Inr frame \<Rightarrow> Some (commit\<lparr>pp_preencoded_wal := Some frame\<rparr>, Inr ())))))"

abbreviation rebased_rows :: "'j checked_change list list \<Rightarrow> bool" where
  "rebased_rows checked \<equiv> list_ex (list_ex (\<lambda>c. cc_rebased c \<noteq> None)) checked"

definition replay_member :: "'j db_env \<Rightarrow> blob_env \<Rightarrow> 'j db_state \<Rightarrow> 'j batch_member \<Rightarrow> 'j batch_member option" where
  "replay_member V B st m =
     (case m of
        (commit, None) \<Rightarrow> Some m
      | (commit, Some checked) \<Rightarrow>
          if rebased_rows checked then
            map_option (\<lambda>(commit, r). (commit, case r of Inr _ \<Rightarrow> Some checked | Inl _ \<Rightarrow> None)) (replay_batch_member V B st commit checked)
          else Some m)"

section \<open>The batch\<close>

record 'j batch_outcome =
  bo_results :: "(nat \<times> u64 result) list"
  bo_set_aside :: "(nat \<times> 'j prepared_commit) list"

definition borrowed :: "'j batch_member list \<Rightarrow> 'j prepared_table list" where
  "borrowed members = concat (map (\<lambda>(commit, previous). if previous = None then [] else pp_staged commit) members)"

definition taken_members :: "'j batch_member list \<Rightarrow> (nat \<times> 'j prepared_commit \<times> 'j checked_change list list) list" where
  "taken_members members = List.map_filter (\<lambda>(member, commit, previous). map_option (\<lambda>checked. (member, commit, checked)) previous) (enumerate 0 members)"

definition set_aside_members :: "'j batch_member list \<Rightarrow> (nat \<times> 'j prepared_commit) list" where
  "set_aside_members members = List.map_filter (\<lambda>(member, commit, previous). if previous = None then Some (member, commit) else None) (enumerate 0 members)"

text \<open>\<open>None\<close> is the panic of a member without a frame.\<close>

definition member_frame :: "'j ext \<Rightarrow> ('j prepared_commit \<times> 'j checked_change list list) \<times> u64 \<Rightarrow> bytes option" where
  "member_frame E x = (case x of ((commit, checked), version) \<Rightarrow> Option.bind (pp_preencoded_wal commit) (\<lambda>bs. set_encoded_commit_version E bs version))"

definition member_commit :: "('j prepared_commit \<times> 'j checked_change list list) \<times> u64 \<Rightarrow> 'j validated_commit" where
  "member_commit x = (case x of ((commit, checked), version) \<Rightarrow>
     \<lparr>vc_staged = pp_staged commit, vc_arena = pp_payload_arena commit, vc_preencoded_wal = pp_preencoded_wal commit,
      vc_checked = checked, vc_version = version, vc_identity = []\<rparr>)"

fun apply_members :: "'j ext \<Rightarrow> (('j prepared_commit \<times> 'j checked_change list list) \<times> u64) list \<Rightarrow> 'j db_state \<Rightarrow> 'j db_state option" where
  "apply_members E [] st = Some st"
| "apply_members E (x # xs) st = Option.bind (apply_commit E (member_commit x) st) (apply_members E xs)"

definition commit_members :: "'j db_env \<Rightarrow> write_outcome list \<Rightarrow> string option \<Rightarrow> (string option \<times> nat) option
    \<Rightarrow> (nat \<times> 'j prepared_commit \<times> 'j checked_change list list) list \<Rightarrow> 'j db_state \<times> wal_writer
    \<Rightarrow> (('j db_state \<times> wal_writer) \<times> (nat \<times> u64 result) list) option" where
  "commit_members V outcomes set_len_error sync taken s =
     (case s of (st, w) \<Rightarrow>
        if taken = [] then Some (s, [])
        else if unat (st_committed_version st) + length taken \<ge> usize_limit then
          Some (s, map (\<lambda>m. (fst m, Inl (InvalidArgument ''commit version space is exhausted''))) taken)
        else
          let versions = map (\<lambda>i. st_committed_version st + of_nat (Suc i)) [0..<length taken];
              numbered = zip (map snd taken) versions in
          (case those (map (member_frame (de_ext V)) numbered) of
             None \<Rightarrow> None
           | Some records \<Rightarrow>
               (case append_commits_unflushed w records outcomes set_len_error of
                  None \<Rightarrow> None
                | Some (w, Inl err) \<Rightarrow>
                    Some ((st, w), map (\<lambda>m. (fst m, Inl (Io (''coordinated WAL append failed: '' @ display_error err)))) taken)
                | Some (w, Inr _) \<Rightarrow>
                    (case (case sync of None \<Rightarrow> (w, Complete) | Some (sync_error, now) \<Rightarrow> sync_data w sync_error now) of
                       (w, synced) \<Rightarrow>
                         map_option (\<lambda>st. ((st, w), map (\<lambda>(member, version). (member,
                           case synced of
                             SyncFailed err \<Rightarrow> Inl (CommitUnknown (''version '' @ show_nat (unat version)
                               @ '' was published, but syncing its coordinated WAL batch failed: '' @ err))
                           | Complete \<Rightarrow> Inr version)) (zip (map fst taken) versions)))
                           (apply_members (de_ext V) numbered st)))))"

text \<open>\<open>Inl\<close> hands every member back: no batch could form.\<close>

definition finish_coordinated_insert_batch :: "'j db_env \<Rightarrow> blob_env \<Rightarrow> unit result \<Rightarrow> bool \<Rightarrow> write_outcome list \<Rightarrow> string option
    \<Rightarrow> (string option \<times> nat) option \<Rightarrow> 'j prepared_commit list \<Rightarrow> 'j db_state \<times> wal_writer
    \<Rightarrow> (('j db_state \<times> wal_writer) \<times> ('j prepared_commit list + 'j batch_outcome)) option" where
  "finish_coordinated_insert_batch V B background pool_full outcomes set_len_error sync prepared s =
     (if length prepared < 2 then Some (s, Inl prepared)
      else if (case background of Inl _ \<Rightarrow> True | Inr _ \<Rightarrow> False) then Some (s, Inl prepared)
      else if pool_full then Some (s, Inl prepared)
      else
        (case check_members V (fst s) {} prepared of
           None \<Rightarrow> None
         | Some None \<Rightarrow> Some (s, Inl prepared)
         | Some (Some checked) \<Rightarrow>
             (case those (map (replay_member V B (fst s)) checked) of
                None \<Rightarrow> None
              | Some members \<Rightarrow>
                  (case obind (validate_unique V (fst s) (borrowed members)) (\<lambda>_. validate_foreign_keys V (fst s) (borrowed members)) of
                     None \<Rightarrow> None
                   | Some (Inl _) \<Rightarrow> Some (s, Inl (map fst members))
                   | Some (Inr _) \<Rightarrow>
                       map_option (\<lambda>(s, results). (s, Inr \<lparr>bo_results = results, bo_set_aside = set_aside_members members\<rparr>))
                         (commit_members V outcomes set_len_error sync (taken_members members) s)))))"

text \<open>The outcomes of the writes of a single commit.\<close>

type_synonym single_outcome = "unit result \<times> bool \<times> write_all_outcome \<times> string option \<times> string option"

definition finish_single :: "'j db_env \<Rightarrow> blob_env \<Rightarrow> single_outcome \<Rightarrow> 'j prepared_commit \<Rightarrow> 'j db_state \<times> wal_writer
    \<Rightarrow> (('j db_state \<times> wal_writer) \<times> u64 result) option" where
  "finish_single V B x pp s = (case x of (background, pool_full, outcome, set_len_error, sync_error) \<Rightarrow>
     finish_prepared_commit V B background pool_full outcome set_len_error sync_error pp s)"

fun finish_singles :: "'j db_env \<Rightarrow> blob_env \<Rightarrow> (nat \<Rightarrow> single_outcome) \<Rightarrow> (nat \<times> 'j prepared_commit) list \<Rightarrow> 'j db_state \<times> wal_writer
    \<Rightarrow> (('j db_state \<times> wal_writer) \<times> (nat \<times> u64 result) list) option" where
  "finish_singles V B singles [] s = Some (s, [])"
| "finish_singles V B singles ((member, commit) # rest) s =
     (case finish_single V B (singles member) commit s of
        None \<Rightarrow> None
      | Some (s, r) \<Rightarrow> map_option (\<lambda>(s, rs). (s, (member, r) # rs)) (finish_singles V B singles rest s))"

text \<open>The answers in the order in which the members get them.\<close>

definition process_coordinated_batch :: "'j db_env \<Rightarrow> blob_env \<Rightarrow> unit result \<Rightarrow> bool \<Rightarrow> write_outcome list \<Rightarrow> string option
    \<Rightarrow> (string option \<times> nat) option \<Rightarrow> (nat \<Rightarrow> single_outcome) \<Rightarrow> 'j prepared_commit list \<Rightarrow> 'j db_state \<times> wal_writer
    \<Rightarrow> (('j db_state \<times> wal_writer) \<times> (nat \<times> u64 result) list) option" where
  "process_coordinated_batch V B background pool_full outcomes set_len_error sync singles batch s =
     (case finish_coordinated_insert_batch V B background pool_full outcomes set_len_error sync batch s of
        None \<Rightarrow> None
      | Some (s, Inr outcome) \<Rightarrow>
          map_option (\<lambda>(s, rs). (s, bo_results outcome @ rs)) (finish_singles V B singles (bo_set_aside outcome) s)
      | Some (s, Inl prepared) \<Rightarrow> finish_singles V B singles (enumerate 0 prepared) s)"

section \<open>Every member is answered once\<close>

lemma members_split: "mset (map fst (taken_members members)) + mset (map fst (set_aside_members members)) = mset [0..<length members]"
proof -
  have "mset (map fst (List.map_filter (\<lambda>(member, commit, previous). map_option (\<lambda>checked. (member, commit, checked)) previous) (enumerate n ms)))
      + mset (map fst (List.map_filter (\<lambda>(member, commit, previous). if previous = None then Some (member, commit) else None) (enumerate n ms)))
      = mset [n..<n + length ms]" for n and ms :: "'a batch_member list"
  proof (induction ms arbitrary: n)
    case (Cons m ms)
    have "[n..<n + length (m # ms)] = n # [Suc n..<Suc n + length ms]" by (subst upt_conv_Cons) simp_all
    with Cons.IH [of "Suc n"] show ?case by (cases m; cases "snd m") (auto simp: List.map_filter_simps)
  qed (simp add: List.map_filter_simps)
  from this [of 0] show ?thesis by (simp add: taken_members_def set_aside_members_def)
qed

lemma commit_members_answers:
  assumes "commit_members V outcomes set_len_error sync taken s = Some (s', results)"
  shows "map fst results = map fst taken"
  using assms
  by (auto simp: commit_members_def Let_def comp_def case_prod_unfold split: prod.splits if_splits option.splits sum.splits)

lemma finish_singles_answers: "finish_singles V B singles commits s = Some (s', results) \<Longrightarrow> map fst results = map fst commits"
  by (induction V B singles commits s arbitrary: s' results rule: finish_singles.induct) (auto split: option.splits)

lemma check_members_length: "check_members V st ids commits = Some (Some members) \<Longrightarrow> map fst members = commits"
  by (induction V st ids commits arbitrary: members rule: check_members.induct) (auto split: if_splits option.splits)

lemma those_map: "those (map f xs) = Some ys \<longleftrightarrow> list_all2 (\<lambda>x y. f x = Some y) xs ys"
proof (induction xs arbitrary: ys)
  case (Cons x xs)
  show ?case by (cases ys) (auto simp: Cons.IH split: option.splits)
qed auto

lemma batch_cases:
  assumes "finish_coordinated_insert_batch V B background pool_full outcomes set_len_error sync batch s = Some (s', r)"
  obtains (handed) prepared where "s' = s" "r = Inl prepared" "length prepared = length batch"
  | (committed) checked members results where "check_members V (fst s) {} batch = Some (Some checked)" "those (map (replay_member V B (fst s)) checked) = Some members"
      "validate_unique V (fst s) (borrowed members) = Some (Inr ())" "validate_foreign_keys V (fst s) (borrowed members) = Some (Inr ())"
      "commit_members V outcomes set_len_error sync (taken_members members) s = Some (s', results)"
      "r = Inr \<lparr>bo_results = results, bo_set_aside = set_aside_members members\<rparr>" "length members = length batch"
proof -
  have len: "length members = length batch" if "check_members V (fst s) {} batch = Some (Some checked)" "those (map (replay_member V B (fst s)) checked) = Some members" for checked members
    using that by (auto simp: those_map dest!: check_members_length list_all2_lengthD)
  consider (0) prepared where "s' = s" "r = Inl prepared" "length prepared = length batch"
    | (1) checked members results where "check_members V (fst s) {} batch = Some (Some checked)" "those (map (replay_member V B (fst s)) checked) = Some members"
      "obind (validate_unique V (fst s) (borrowed members)) (\<lambda>_. validate_foreign_keys V (fst s) (borrowed members)) = Some (Inr ())"
      "commit_members V outcomes set_len_error sync (taken_members members) s = Some (s', results)"
      "r = Inr \<lparr>bo_results = results, bo_set_aside = set_aside_members members\<rparr>"
    using assms len by (force simp: finish_coordinated_insert_batch_def split: if_splits option.splits sum.splits prod.splits)
  then show ?thesis
  proof cases
    case 1
    with len that(2) show ?thesis by (auto simp: obind_ok)
  qed (use that(1) in blast)
qed

section \<open>What the checks of a batch establish\<close>

lemma replay_changes_loop:
  "replay_changes V B schema xs arena = (arena', ds, Inr ()) \<Longrightarrow>
     for_loop (rebase_staged_change V B schema) xs (arena, cs) = Some (Inr (arena', cs @ ds))"
  by (induction V B schema xs arena arbitrary: cs arena' ds rule: replay_changes.induct)
    (auto simp: rebase_staged_change_def split: option.splits if_splits sum.splits prod.splits)

lemma replay_tables_loop:
  "replay_tables V B xs arena = (arena', us, Inr ()) \<Longrightarrow>
     for_loop (rebase_staged_table V B) xs (arena, ts) = Some (Inr (arena', ts @ us))"
proof (induction V B xs arena arbitrary: ts arena' us rule: replay_tables.induct)
  case (2 V B t checked rest arena)
  from "2.prems" obtain a1 cs us' where step: "replay_changes V B (pt_schema t) (zip (pt_changes t) checked) arena = (a1, cs, Inr ())"
    "replay_tables V B rest a1 = (arena', us', Inr ())" "us = t\<lparr>pt_changes := cs\<rparr> # us'"
    by (auto split: prod.splits sum.splits)
  from replay_changes_loop [OF step(1), of "[]"] "2.IH" [OF step(1) [symmetric] refl refl step(2)] step(3) show ?case
    by (simp add: rebase_staged_table_def)
qed simp

lemma replay_nothing:
  assumes "list_all (\<lambda>(t, checked). length checked = length (pt_changes t) \<and> list_all (\<lambda>k. cc_rebased k = None) checked) xs"
  shows "replay_tables V B xs arena = (arena, map fst xs, Inr ())"
proof -
  have "replay_changes V B schema ys arena = (arena, map fst ys, Inr ())" if "list_all (\<lambda>k. cc_rebased k = None) (map snd ys)" for schema ys
    using that by (induction ys) auto
  with assms show ?thesis by (induction xs) (auto simp: prod.case_eq_if)
qed

text \<open>The members that a batch takes, with the findings on their changes.\<close>

definition takens :: "'j batch_member list \<Rightarrow> ('j prepared_commit \<times> 'j checked_change list list) list" where
  "takens members = List.map_filter (\<lambda>(commit, previous). map_option (Pair commit) previous) members"

lemma takens_simps [simp]: "takens [] = []" "takens ((commit, None) # ms) = takens ms" "takens ((commit, Some ks) # ms) = (commit, ks) # takens ms"
  by (simp_all add: takens_def List.map_filter_simps)

lemma taken_members_takens: "map snd (taken_members members) = takens members"
proof -
  have "map snd (List.map_filter (\<lambda>(member, commit, previous). map_option (\<lambda>checked. (member, commit, checked)) previous) (enumerate n ms)) = takens ms"
    for n and ms :: "'a batch_member list"
  proof (induction ms arbitrary: n)
    case (Cons m ms)
    then show ?case by (cases m; cases "snd m") (auto simp: List.map_filter_simps)
  qed (simp add: List.map_filter_simps)
  then show ?thesis by (simp add: taken_members_def)
qed

lemma borrowed_takens: "borrowed members = concat (map (pp_staged \<circ> fst) (takens members))"
proof (induction members)
  case (Cons m ms)
  then show ?case by (cases m; cases "snd m") (auto simp: borrowed_def)
qed (simp add: borrowed_def)

abbreviation commit_keys :: "'j prepared_commit \<Rightarrow> (string \<times> string) set" where
  "commit_keys pp \<equiv> staged_keys_of (pp_staged pp)"

lemma staged_keys_simps: "staged_keys_of [] = {}" "staged_keys_of (p # ps) = change_keys p \<union> staged_keys_of ps" "staged_keys_of (xs @ ys) = staged_keys_of xs \<union> staged_keys_of ys"
  by (auto simp: staged_keys_of_def change_keys_def)

lemma replay_changes_ids: "replay_changes V B schema xs arena = (arena', ds, r) \<Longrightarrow> map pc_id ds = map (pc_id \<circ> fst) xs"
  by (induction V B schema xs arena arbitrary: arena' ds r rule: replay_changes.induct)
    (auto split: option.splits if_splits sum.splits prod.splits)

lemma replay_tables_keys:
  "replay_tables V B xs arena = (arena', us, r) \<Longrightarrow> list_all (\<lambda>(t, checked). length checked = length (pt_changes t)) xs \<Longrightarrow>
     staged_keys_of us = staged_keys_of (map fst xs)"
proof (induction xs arbitrary: arena us)
  case (Cons x xs)
  obtain t checked where x: "x = (t, checked)" by (cases x)
  obtain a1 cs r1 where step: "replay_changes V B (pt_schema t) (zip (pt_changes t) checked) arena = (a1, cs, r1)" by (metis surj_pair)
  have "map fst (zip (pt_changes t) checked) = pt_changes t" using Cons.prems(2) x by simp
  with replay_changes_ids [OF step] have "map pc_id cs = map pc_id (pt_changes t)" by (metis list.map_comp)
  then have "pc_id ` set cs = pc_id ` set (pt_changes t)" by (metis list.set_map)
  then have here: "change_keys (t\<lparr>pt_changes := cs\<rparr>) = change_keys t" by (simp add: change_keys_def)
  show ?case
  proof (cases r1)
    case (Inl err)
    with Cons.prems(1) x step have "us = t\<lparr>pt_changes := cs\<rparr> # map fst xs" by simp
    with x here show ?thesis by (simp add: staged_keys_simps)
  next
    case (Inr u)
    with Cons.prems(1) x step obtain us' where "replay_tables V B xs a1 = (arena', us', r)" "us = t\<lparr>pt_changes := cs\<rparr> # us'" by (auto split: prod.splits)
    with Cons.IH [of a1 us'] Cons.prems(2) x here show ?thesis by (simp add: staged_keys_simps)
  qed
qed simp

text \<open>A taken member is a pass of its transaction on its own, on rows that no other member has.\<close>

abbreviation commit_tables :: "'j prepared_commit \<Rightarrow> string set" where
  "commit_tables pp \<equiv> pt_name ` set (pp_staged pp)"

definition taken_from :: "'j db_env \<Rightarrow> blob_env \<Rightarrow> 'j db_state \<Rightarrow> 'j prepared_commit \<Rightarrow> 'j prepared_commit \<times> 'j checked_change list list \<Rightarrow> bool" where
  "taken_from V B st pp x \<longleftrightarrow> checked_pass V B st pp (snd x) (pp_payload_arena (fst x)) (pp_staged (fst x)) \<and> commit_keys (fst x) = commit_keys pp
     \<and> commit_tables (fst x) = commit_tables pp"

abbreviation apart :: "('j prepared_commit \<Rightarrow> 'a set) \<Rightarrow> ('j prepared_commit \<times> 'j checked_change list list) list \<Rightarrow> bool" where
  "apart f \<equiv> sorted_wrt (\<lambda>x y. f (fst x) \<inter> f (fst y) = {})"

lemma member_checked:
  assumes prev: "batch_member_previous V st ids pp = Some (Some checked)" and ok: "commit_ok V st pp"
    and cat: "\<not> list_ex (\<lambda>t. table (st_catalog st) (pt_name t) \<noteq> Some (pt_schema t)) (pp_staged pp)"
  shows "for_map (check_table V st (pp_snap_version pp)) (zip (pp_staged pp) (pp_optimistic pp)) = Some (Inr checked)"
    and "commit_keys pp \<inter> ids = {}" and "list_all (\<lambda>(t, ks). length ks = length (pt_changes t)) (zip (pp_staged pp) checked)"
    and "length checked = length (pp_staged pp)"
proof -
  from prev have "for_map (\<lambda>(t, optimistic). for_map (check_batch_change V st ids (pp_snap_version pp) t) (zip (pt_changes t) optimistic))
      (zip (pp_staged pp) (pp_optimistic pp)) = Some (Inr checked)"
    by (auto simp: batch_member_previous_def split: option.splits sum.splits)
  then have all: "list_all2 (\<lambda>(t, opt) ks. list_all2 (\<lambda>x k. check_batch_change V st ids (pp_snap_version pp) t x = Some (Inr k)) (zip (pt_changes t) opt) ks)
      (zip (pp_staged pp) (pp_optimistic pp)) checked" unfolding for_map_ok by (simp add: case_prod_unfold for_map_ok)
  have opt: "list_all2 (\<lambda>p opt. length opt = length (pt_changes p)) (pp_staged pp) (pp_optimistic pp)"
    using ok by (auto simp: commit_ok_def list_all2_conv_all_nth)
  show len: "length checked = length (pp_staged pp)" using all opt by (auto dest!: list_all2_lengthD)
  have each: "check_batch_change V st ids (pp_snap_version pp) (pp_staged pp ! i) (pt_changes (pp_staged pp ! i) ! j, pp_optimistic pp ! i ! j) = Some (Inr (checked ! i ! j))"
    "length (checked ! i) = length (pt_changes (pp_staged pp ! i))" if "i < length (pp_staged pp)" "j < length (pt_changes (pp_staged pp ! i))" for i j
    using list_all2_nthD [OF all, of i] opt that len by (auto simp: list_all2_conv_all_nth)
  show lens: "list_all (\<lambda>(t, ks). length ks = length (pt_changes t)) (zip (pp_staged pp) checked)"
    using all opt len by (auto simp: list_all_length list_all2_conv_all_nth)
  show "for_map (check_table V st (pp_snap_version pp)) (zip (pp_staged pp) (pp_optimistic pp)) = Some (Inr checked)"
    unfolding for_map_ok list_all2_conv_all_nth
  proof (intro conjI allI impI)
    show "length (zip (pp_staged pp) (pp_optimistic pp)) = length checked" using opt len by (auto dest!: list_all2_lengthD)
    fix i
    assume "i < length (zip (pp_staged pp) (pp_optimistic pp))"
    then have i: "i < length (pp_staged pp)" "zip (pp_staged pp) (pp_optimistic pp) ! i = (pp_staged pp ! i, pp_optimistic pp ! i)" by simp_all
    have "list_all2 (\<lambda>x k. check_change V st (pp_snap_version pp) (pp_staged pp ! i) x = Some (Inr k)) (zip (pt_changes (pp_staged pp ! i)) (pp_optimistic pp ! i)) (checked ! i)"
      by (rule list_all2_mono [OF list_all2_nthD [OF all, of i, unfolded i(2) prod.case]])
        (use i len opt in \<open>auto simp: check_batch_change_def list_all2_conv_all_nth split: if_splits\<close>)
    moreover have "table (st_catalog st) (pt_name (pp_staged pp ! i)) = Some (pt_schema (pp_staged pp ! i))" using cat i(1) by (auto simp: list_ex_iff)
    ultimately show "check_table V st (pp_snap_version pp) (zip (pp_staged pp) (pp_optimistic pp) ! i) = Some (Inr (checked ! i))"
      unfolding i(2) by (simp add: check_table_def for_map_ok)
  qed
  show "commit_keys pp \<inter> ids = {}"
  proof -
    have "(pt_name p, pc_id c) \<notin> ids" if "p \<in> set (pp_staged pp)" "c \<in> set (pt_changes p)" for p c
    proof -
      from that obtain i j where "i < length (pp_staged pp)" "p = pp_staged pp ! i" "j < length (pt_changes p)" "c = pt_changes p ! j" by (metis in_set_conv_nth)
      then show ?thesis using each(1) [of i j] by (auto simp: check_batch_change_def split: if_splits)
    qed
    then show ?thesis by (auto simp: staged_keys_of_def)
  qed
qed

lemma replay_member_taken:
  assumes "replay_member V B st (pp, Some checked) = Some (pp', Some checked')"
  shows "checked' = checked" and "rebased_rows checked \<Longrightarrow> replay_batch_member V B st pp checked = Some (pp', Inr ())"
    and "\<not> rebased_rows checked \<Longrightarrow> pp' = pp"
proof -
  have each: "checked' = checked \<and> x = (pp', Inr ())" if "rebased_rows checked" "replay_batch_member V B st pp checked = Some x" for x
    using assms that by (cases x; cases "snd x") (auto simp: replay_member_def)
  show "checked' = checked" using assms each by (auto simp: replay_member_def split: if_splits)
  show "rebased_rows checked \<Longrightarrow> replay_batch_member V B st pp checked = Some (pp', Inr ())"
    using assms each by (cases "replay_batch_member V B st pp checked") (auto simp: replay_member_def)
  show "\<not> rebased_rows checked \<Longrightarrow> pp' = pp" using assms by (simp add: replay_member_def)
qed

lemma replayed_member:
  assumes prev: "batch_member_previous V st ids pp = Some (Some checked)" and ok: "commit_ok V st pp"
    and cat: "\<not> list_ex (\<lambda>t. table (st_catalog st) (pt_name t) \<noteq> Some (pt_schema t)) (pp_staged pp)"
    and replay: "replay_member V B st (pp, Some checked) = Some (pp', Some checked')"
  shows "taken_from V B st pp (pp', checked')"
proof -
  note check = member_checked [OF prev ok cat]
  let ?xs = "zip (pp_staged pp) checked"
  have fst: "map fst ?xs = pp_staged pp" using check(4) by simp
  note replay = replay_member_taken [OF replay]
  have loop: "replay_tables V B ?xs (pp_payload_arena pp) = (pp_payload_arena pp', pp_staged pp', Inr ())"
  proof (cases "rebased_rows checked")
    case True
    with replay(2) show ?thesis by (auto simp: replay_batch_member_def Let_def split: prod.splits sum.splits option.splits)
  next
    case False
    have none: "cc_rebased k = None" if "ks \<in> set checked" "k \<in> set ks" for ks k using False that by (auto simp: list_ex_iff)
    have "list_all (\<lambda>(t, checked). length checked = length (pt_changes t) \<and> list_all (\<lambda>k. cc_rebased k = None) checked) ?xs"
      using check(3) none unfolding list_all_iff by (blast dest: set_zip_rightD)
    from replay_nothing [OF this, of V B "pp_payload_arena pp"] False replay(3) fst show ?thesis by simp
  qed
  have pass: "checked_pass V B st pp checked' (pp_payload_arena pp') (pp_staged pp')"
    using check(1) replay_tables_loop [OF loop, of "[]"] replay(1) by (simp add: checked_pass_def)
  have "commit_tables pp' = commit_tables pp" using checked_pass_tables(3) [OF pass ok] by (metis list.set_map)
  moreover have "commit_keys pp' = commit_keys pp" using replay_tables_keys [OF loop check(3)] fst by simp
  ultimately show ?thesis using pass by (simp add: taken_from_def)
qed

lemma batch_takens:
  assumes "check_members V st ids prepared = Some (Some ms)" and "list_all2 (\<lambda>m m'. replay_member V B st m = Some m') ms ms'" and "\<forall>pp \<in> set prepared. commit_ok V st pp"
  shows "(\<forall>x \<in> set (takens ms'). commit_keys (fst x) \<inter> ids = {} \<and> (\<exists>pp \<in> set prepared. taken_from V B st pp x))
    \<and> apart commit_keys (takens ms') \<and> (sorted_wrt (\<lambda>a b. commit_tables a \<inter> commit_tables b = {}) prepared \<longrightarrow> apart commit_tables (takens ms'))"
  using assms
proof (induction prepared arbitrary: ids ms ms')
  case (Cons pp rest)
  from Cons.prems(1) obtain previous ms1 where m: "batch_member_previous V st ids pp = Some previous"
    "check_members V st (if previous = None then ids else ids \<union> commit_keys pp) rest = Some (Some ms1)" "ms = (pp, previous) # ms1"
    and cat: "\<not> list_ex (\<lambda>t. table (st_catalog st) (pt_name t) \<noteq> Some (pt_schema t)) (pp_staged pp)"
    by (auto split: if_splits option.splits)
  from Cons.prems(2) m(3) obtain pp' p' ms1' where m': "ms' = (pp', p') # ms1'" "replay_member V B st (pp, previous) = Some (pp', p')"
    "list_all2 (\<lambda>m m'. replay_member V B st m = Some m') ms1 ms1'" by (cases ms') auto
  note tail = Cons.IH [OF m(2) m'(3)]
  show ?case
  proof (cases p')
    case None
    with tail m'(1) Cons.prems(3) show ?thesis by (auto split: if_splits)
  next
    case (Some checked')
    with m'(2) obtain checked where prev: "previous = Some checked" by (cases previous) (auto simp: replay_member_def)
    have here: "taken_from V B st pp (pp', checked')" using replayed_member [OF _ _ cat] m(1) m'(2) prev Some Cons.prems(3) by simp
    have keys: "commit_keys pp \<inter> ids = {}" using member_checked(2) [OF _ _ cat] m(1) prev Cons.prems(3) by auto
    have rest: "\<forall>x \<in> set (takens ms1'). commit_keys (fst x) \<inter> (ids \<union> commit_keys pp) = {} \<and> (\<exists>pp \<in> set rest. taken_from V B st pp x)"
      "apart commit_keys (takens ms1')" "sorted_wrt (\<lambda>a b. commit_tables a \<inter> commit_tables b = {}) rest \<longrightarrow> apart commit_tables (takens ms1')"
      using tail prev Cons.prems(3) by auto
    have "commit_keys pp' = commit_keys pp" "commit_tables pp' = commit_tables pp" using here by (simp_all add: taken_from_def)
    moreover have "commit_tables pp \<inter> commit_tables (fst x) = {}" if "x \<in> set (takens ms1')" "\<forall>b \<in> set rest. commit_tables pp \<inter> commit_tables b = {}" for x
      using rest(1) that unfolding taken_from_def by metis
    ultimately show ?thesis using m'(1) Some here keys rest by auto
  qed
qed simp

end
