(* ===== verification/Group_Correct.thy ===== *)
theory Group_Correct
  imports Group_Commit
begin

text \<open>
  What a coordinated batch of commits leaves behind: each member is applied as if it were alone, since no two
  have a row in common; what this gives for constraints and atomicity; and a batch whose members
  pass the check of foreign keys together although one of them breaks a reference.
\<close>

section \<open>Applying the members in turn\<close>

definition member_ready :: "'j db_env \<Rightarrow> 'j db_state \<Rightarrow> 'j prepared_commit \<times> 'j checked_change list list \<Rightarrow> bool" where
  "member_ready V st x \<longleftrightarrow> staged_ok st (pp_staged (fst x)) \<and> staged_rows_ok V st (pp_payload_arena (fst x)) (pp_staged (fst x))
     \<and> (\<exists>snap. list_all (validated_table V st snap) (zip (pp_staged (fst x)) (snd x))) \<and> length (pp_staged (fst x)) = length (snd x)"

lemma taken_ready:
  assumes "db_ok S V st" and "txn_ok V st pp" and "taken_from V B st pp x"
  shows "member_ready V st x"
proof -
  have pass: "checked_pass V B st pp (snd x) (pp_payload_arena (fst x)) (pp_staged (fst x))" using assms(3) by (simp add: taken_from_def)
  have commit: "commit_ok V st pp" using assms(2) by (simp add: txn_ok_def)
  note rows = pass_rows_ok [OF assms(1,2) pass] and tables = checked_pass_tables [OF pass commit]
  show ?thesis unfolding member_ready_def using rows tables(1,2) pass_staged_ok [OF pass commit rows] by blast
qed

text \<open>A commit leaves the checks of rows that it does not touch as they were.\<close>

lemma checked_previous:
  assumes "db_ok S V st" and "table (st_catalog st) (pt_name p) = Some (pt_schema p)"
  shows "(if id_is_above_high_watermark st (pt_name p) rid then Inr None else latest_owned (de_ext V) st (pt_name p) rid) = latest_owned (de_ext V) st (pt_name p) rid"
  using above_watermark_absent [OF db_ok_parts(8,3) [OF assms(1)] assms(2)] by simp

lemma untouched_row:
  assumes ctx: "applying S V st staged arena version" and st': "committed V st staged arena version st'" and key: "(t, rid) \<notin> staged_keys_of staged"
  shows "latest_owned (de_ext V) st' t rid = latest_owned (de_ext V) st t rid" "final_row V st' [] t rid = final_row V st [] t rid"
proof -
  have "staged_ok st staged" using ctx by (simp add: applying_def)
  from staged_keys_iff [OF this, of t rid] key have find: "find_prepared_change staged t rid = None" by simp
  note parts = committed_parts(1-3) [OF st']
  show latest: "latest_owned (de_ext V) st' t rid = latest_owned (de_ext V) st t rid"
  proof (cases "table (st_catalog st) t")
    case None
    with parts(1) show ?thesis by (simp add: latest_owned_def)
  next
    case (Some schema)
    from committed_latest [OF ctx st' Some, of rid] find show ?thesis by simp
  qed
  show "final_row V st' [] t rid = final_row V st [] t rid" unfolding final_row_def final_record_def latest parts ..
qed

lemma untouched_check:
  assumes ctx: "applying S V st staged arena version" and st': "committed V st staged arena version st'" and ok: "db_ok S V st'"
    and t: "table (st_catalog st) (pt_name p) = Some (pt_schema p)" and key: "(pt_name p, pc_id c) \<notin> staged_keys_of staged"
  shows "check_change V st' snap p (c, opt) = check_change V st snap p (c, opt)" "optimistic_change V st' p c opt = optimistic_change V st p c opt"
proof -
  have now: "db_ok S V st" using ctx by (simp add: applying_def)
  note parts = committed_parts(1-3) [OF st'] and same = untouched_row [OF ctx st' key]
  have t': "table (st_catalog st') (pt_name p) = Some (pt_schema p)" using t parts(1) by simp
  have rebase: "rebase_change V st' schema change e = rebase_change V st schema change e" for schema change e
    unfolding rebase_change_def parts ..
  show "check_change V st' snap p (c, opt) = check_change V st snap p (c, opt)"
    unfolding check_change_def prod.case checked_previous [OF ok t'] checked_previous [OF now t] same(1) rebase parts ..
  show "optimistic_change V st' p c opt = optimistic_change V st p c opt"
    unfolding optimistic_change_def same ..
qed

lemma ready_transfer:
  assumes ctx: "applying S V st staged arena version" and st': "committed V st staged arena version st'" and ok: "db_ok S V st'"
    and ready: "member_ready V st x" and keys: "commit_keys (fst x) \<inter> staged_keys_of staged = {}"
  shows "member_ready V st' x"
proof -
  note parts = committed_parts(1-3) [OF st']
  have held: "holds V st' schema kind r = holds V st schema kind r" for schema kind r by (simp add: holds_def parts)
  have "validated_table V st' snap (p, ks)" if p: "(p, ks) \<in> set (zip (pp_staged (fst x)) (snd x))" "validated_table V st snap (p, ks)" for snap p ks
  proof -
    have "checked_as V st' snap p c k" if "c \<in> set (pt_changes p)" "checked_as V st snap p c k" for c k
    proof -
      from that(2) obtain p0 c0 opt where c0: "pt_name p0 = pt_name p" "pt_schema p0 = pt_schema p" "check_change V st snap p0 (c0, opt) = Some (Inr k)"
        "optimistic_change V st p0 c0 opt" "replayed_change c0 k c" unfolding checked_as_def by blast
      have "(pt_name p, pc_id c) \<in> commit_keys (fst x)" using p(1) that(1) by (force simp: staged_keys_of_def dest: set_zip_leftD)
      then have "(pt_name p0, pc_id c0) \<notin> staged_keys_of staged" using keys c0(1,5) by (auto simp: replayed_change_def)
      moreover have "table (st_catalog st) (pt_name p0) = Some (pt_schema p0)" using p(2) c0(1,2) by (simp add: validated_table_def)
      ultimately show ?thesis using untouched_check [OF ctx st' ok, of p0 c0] c0 unfolding checked_as_def by metis
    qed
    then show ?thesis using p(2) by (auto simp: validated_table_def parts list_all2_conv_all_nth)
  qed
  note table_valid = this
  from ready obtain snap where "list_all (validated_table V st snap) (zip (pp_staged (fst x)) (snd x))" unfolding member_ready_def by blast
  with table_valid have "\<forall>y \<in> set (zip (pp_staged (fst x)) (snd x)). validated_table V st' snap y" unfolding list_all_iff by (metis surj_pair)
  moreover have "staged_ok st' (pp_staged (fst x))" "staged_rows_ok V st' (pp_payload_arena (fst x)) (pp_staged (fst x))" "length (pp_staged (fst x)) = length (snd x)"
    using ready unfolding member_ready_def staged_ok_def staged_rows_ok_def staged_row_ok_def held parts by blast+
  ultimately show ?thesis unfolding member_ready_def list_all_iff by blast
qed

text \<open>The rows as the members leave them.\<close>

definition staged_row :: "'j prepared_table list \<Rightarrow> string \<Rightarrow> string \<Rightarrow> ('j prepared_table \<times> 'j prepared_change) option" where
  "staged_row staged t rid = find (\<lambda>(p, c). pt_name p = t \<and> pc_id c = rid) (concat (map (\<lambda>p. map (Pair p) (pt_changes p)) staged))"

definition batch_row :: "'j db_env \<Rightarrow> 'j db_state \<Rightarrow> 'j prepared_table list \<Rightarrow> string \<Rightarrow> string \<Rightarrow> 'j row option" where
  "batch_row V st staged t rid =
     (case staged_row staged t rid of Some (p, c) \<Rightarrow> map_option (with_id (pt_schema p) rid) (pc_operation c) | None \<Rightarrow> final_row V st [] t rid)"

lemma find_append: "find P (xs @ ys) = (case find P xs of Some x \<Rightarrow> Some x | None \<Rightarrow> find P ys)"
  by (induction xs) auto

lemma staged_row_append: "staged_row (xs @ ys) t rid = (case staged_row xs t rid of Some x \<Rightarrow> Some x | None \<Rightarrow> staged_row ys t rid)"
  unfolding staged_row_def map_append concat_append find_append ..

lemma staged_row_SomeD:
  assumes "staged_row staged t rid = Some (p, c)"
  shows "p \<in> set staged" "c \<in> set (pt_changes p)" "pt_name p = t" "pc_id c = rid"
  using assms by (auto simp: staged_row_def find_Some_iff dest!: nth_mem)

lemma staged_row_None: "staged_row staged t rid = None \<longleftrightarrow> (t, rid) \<notin> staged_keys_of staged"
  by (fastforce simp: staged_row_def find_None_iff staged_keys_of_def)

lemma batch_row_single:
  assumes "staged_ok st staged"
  shows "batch_row V st staged t rid = final_row V st staged t rid"
proof (cases "staged_row staged t rid")
  case None
  then have "find_prepared_change staged t rid = None" using staged_keys_iff [OF assms, of t rid] by (simp add: staged_row_None)
  with None final_row_unstaged [of staged t rid V st] show ?thesis by (simp add: batch_row_def)
next
  case (Some x)
  obtain p c where x: "x = (p, c)" by (cases x)
  note row = staged_row_SomeD [OF Some [unfolded x]]
  from final_row_staged [OF assms row(1,2), of V] row(3,4) Some x show ?thesis by (simp add: batch_row_def)
qed

lemma same_row_trans: "rel_option same_row a b \<Longrightarrow> rel_option same_row b c \<Longrightarrow> rel_option same_row a c"
  by (auto simp: same_row_def elim!: option.rel_cases)

text \<open>The rows of a table with all that are staged are a \<open>usize\<close>.\<close>

definition room :: "'j db_env \<Rightarrow> 'j db_state \<Rightarrow> (string \<times> string) set \<Rightarrow> bool" where
  "room V st keys \<longleftrightarrow> finite keys \<and> (\<forall>t. card ({rid. final_row V st [] t rid \<noteq> None} \<union> {rid. (t, rid) \<in> keys}) < usize_limit)"

lemma room_mono:
  assumes "room V st keys" and "finite {rid. final_row V st [] t rid \<noteq> None}" and "A \<subseteq> {rid. final_row V st [] t rid \<noteq> None} \<union> {rid. (t, rid) \<in> keys}"
  shows "card A < usize_limit"
proof -
  have "{rid. (t, rid) \<in> keys} \<subseteq> snd ` keys" by force
  then have "finite {rid. (t, rid) \<in> keys}" using assms(1) by (meson finite_imageI finite_subset room_def)
  with assms(2,3) have "card A \<le> card ({rid. final_row V st [] t rid \<noteq> None} \<union> {rid. (t, rid) \<in> keys})" by (intro card_mono) auto
  also have "\<dots> < usize_limit" using assms(1) by (simp add: room_def)
  finally show ?thesis .
qed

lemma room_commit:
  assumes ctx: "applying S V st staged arena version" and room: "room V st keys" and sub: "staged_keys_of staged \<subseteq> keys"
  shows "rows_fit V st staged" and "committed V st staged arena version st' \<Longrightarrow> room V st' keys"
proof -
  have ok: "db_ok S V st" "staged_ok st staged" using ctx by (simp_all add: applying_def)
  note fin = finite_rows [OF db_ok_parts(8,7) [OF ok(1)]]
  have rows: "{rid. final_row V st staged t rid \<noteq> None} \<subseteq> {rid. final_row V st [] t rid \<noteq> None} \<union> {rid. (t, rid) \<in> staged_keys_of staged}" for t
    using staged_keys_iff [OF ok(2)] final_row_unstaged by fastforce
  have grown: "{rid. final_row V st staged t rid \<noteq> None} \<union> {rid. (t, rid) \<in> keys} \<subseteq> {rid. final_row V st [] t rid \<noteq> None} \<union> {rid. (t, rid) \<in> keys}" for t
    using rows [of t] sub by blast
  show "rows_fit V st staged" unfolding rows_fit_def using room_mono [OF room fin] grown by (meson le_sup_iff)
  show "room V st' keys" if "committed V st staged arena version st'"
  proof -
    have "{rid. final_row V st' [] t rid \<noteq> None} = {rid. final_row V st staged t rid \<noteq> None}" for t
      using committed_row [OF ctx that, of t] by fastforce
    then show ?thesis using room_mono [OF room fin grown] room by (simp add: room_def)
  qed
qed

lemma apply_members_ok:
  assumes "db_ok S V st" and "\<forall>x \<in> set xs. member_ready V st x" and "apart commit_keys xs"
    and "room V st keys" and "\<forall>x \<in> set xs. commit_keys (fst x) \<subseteq> keys" and "unat (st_committed_version st) + length xs < usize_limit"
  shows "\<exists>st'. apply_members (de_ext V) (zip xs (map (\<lambda>i. st_committed_version st + of_nat (Suc i)) [0..<length xs])) st = Some st'
    \<and> db_ok S V st' \<and> st_catalog st' = st_catalog st \<and> st_committed_version st' = st_committed_version st + of_nat (length xs)
    \<and> (\<forall>t rid. rel_option same_row (final_row V st' [] t rid) (batch_row V st (concat (map (pp_staged \<circ> fst) xs)) t rid))"
  using assms
proof (induction xs arbitrary: st)
  case Nil
  have "rel_option same_row (final_row V st [] t rid) (final_row V st [] t rid)" for t rid
    using db_ok_parts(10) [OF Nil(1)] by (cases "final_row V st [] t rid") (auto simp: same_row_def rows_wf_def)
  with Nil show ?case by (simp add: batch_row_def staged_row_def)
next
  case (Cons x xs)
  let ?v = "st_committed_version st + 1" and ?staged = "pp_staged (fst x)" and ?arena = "pp_payload_arena (fst x)"
  let ?vc = "member_commit (x, ?v)"
  have room1: "st_committed_version st \<noteq> - 1"
  proof
    assume "st_committed_version st = - 1"
    then have "unat (st_committed_version st) = 2 ^ 64 - 1" by (simp add: unat_minus_one)
    with Cons.prems(6) show False by (simp add: usize_limit_def)
  qed
  from Cons.prems(2) have ready: "member_ready V st x" by simp
  then obtain snap where x: "staged_ok st ?staged" "staged_rows_ok V st ?arena ?staged" "list_all (validated_table V st snap) (zip ?staged (snd x))" "length ?staged = length (snd x)"
    unfolding member_ready_def by blast
  have vc: "vc_staged ?vc = ?staged" "vc_arena ?vc = ?arena" "vc_version ?vc = ?v" "vc_checked ?vc = snd x" by (simp_all add: member_commit_def prod.case_eq_if)
  have ctx: "applying S V st ?staged ?arena ?v" using Cons.prems(1) x(1,2) room1 by (simp add: applying_def)
  from validated_applies [of S V st ?vc snap] ctx x(3,4) obtain st1 where st1: "apply_commit (de_ext V) ?vc st = Some st1" "committed V st ?staged ?arena ?v st1"
    unfolding vc by blast
  note fit = room_commit [OF ctx Cons.prems(4)] and parts = committed_parts(1,4) [OF st1(2)]
  have ok1: "db_ok S V st1" using committed_db_ok [OF ctx st1(2) fit(1)] Cons.prems(5) by simp
  have "member_ready V st1 y" if "y \<in> set xs" for y
    by (rule ready_transfer [OF ctx st1(2) ok1]) (use Cons.prems(2,3) that in auto)
  then have "\<forall>y \<in> set xs. member_ready V st1 y" by blast
  moreover have "room V st1 keys" by (rule fit(2)) (use Cons.prems(5) st1(2) in auto)
  moreover have "apart commit_keys xs" "\<forall>y \<in> set xs. commit_keys (fst y) \<subseteq> keys" using Cons.prems(3,5) by simp_all
  moreover have "unat (st_committed_version st1) + length xs < usize_limit"
  proof -
    have "1 + st_committed_version st \<noteq> 0" using room1 by (metis add.commute add_eq_0_iff2)
    from unatSuc [OF this] parts(2) Cons.prems(6) show ?thesis by (simp add: add.commute)
  qed
  ultimately obtain st' where st': "apply_members (de_ext V) (zip xs (map (\<lambda>i. st_committed_version st1 + of_nat (Suc i)) [0..<length xs])) st1 = Some st'"
    "db_ok S V st'" "st_catalog st' = st_catalog st1" "st_committed_version st' = st_committed_version st1 + of_nat (length xs)"
    "\<forall>t rid. rel_option same_row (final_row V st' [] t rid) (batch_row V st1 (concat (map (pp_staged \<circ> fst) xs)) t rid)"
    using Cons.IH [OF ok1] by blast
  let ?rest = "concat (map (pp_staged \<circ> fst) xs)"
  have versions: "map (\<lambda>i. st_committed_version st + of_nat (Suc i)) [0..<length (x # xs)] = ?v # map (\<lambda>i. st_committed_version st1 + of_nat (Suc i)) [0..<length xs]"
    unfolding parts(2) length_Cons map_upt_Suc by (simp add: add.assoc)
  have rows: "rel_option same_row (final_row V st' [] t rid) (batch_row V st (?staged @ ?rest) t rid)" for t rid
  proof (cases "staged_row ?rest t rid")
    case None
    then have "batch_row V st1 ?rest t rid = final_row V st1 [] t rid" "batch_row V st (?staged @ ?rest) t rid = batch_row V st ?staged t rid"
      by (auto simp: batch_row_def staged_row_append split: option.split)
    with st'(5) committed_rows [OF ctx st1(2), of t rid] show ?thesis by (metis batch_row_single [OF x(1)] same_row_trans)
  next
    case (Some y)
    have "(t, rid) \<notin> staged_keys_of ?staged"
    proof -
      have "(t, rid) \<in> staged_keys_of ?rest" using Some staged_row_None [of ?rest t rid] by auto
      then obtain z where "z \<in> set xs" "(t, rid) \<in> commit_keys (fst z)" by (auto simp: staged_keys_of_def)
      with Cons.prems(3) show ?thesis by auto
    qed
    then have "staged_row ?staged t rid = None" by (simp add: staged_row_None)
    with Some have "batch_row V st (?staged @ ?rest) t rid = batch_row V st1 ?rest t rid" by (simp add: batch_row_def staged_row_append)
    with st'(5) show ?thesis by simp
  qed
  have "st_committed_version st' = st_committed_version st + of_nat (length (x # xs))" using st'(4) parts(2) by simp
  moreover have "apply_members (de_ext V) (zip (x # xs) (map (\<lambda>i. st_committed_version st + of_nat (Suc i)) [0..<length (x # xs)])) st = Some st'"
    unfolding versions using st1(1) st'(1) by simp
  moreover have "concat (map (pp_staged \<circ> fst) (x # xs)) = ?staged @ ?rest" by simp
  ultimately show ?case using st'(2,3) parts(1) rows by metis
qed

section \<open>Constraints after a batch\<close>

lemma batch_rows_after:
  assumes "\<forall>p \<in> set staged. \<forall>c \<in> set (pt_changes p). \<forall>r. pc_operation c = Some r \<longrightarrow> wf_row r"
  shows "rows_after V st staged (batch_row V st staged)"
  unfolding rows_after_def
proof (intro allI impI)
  fix t rid r
  assume r: "batch_row V st staged t rid = Some r"
  show "(\<exists>p \<in> set staged. \<exists>c \<in> set (pt_changes p). \<exists>r0. pt_name p = t \<and> pc_id c = rid \<and> pc_operation c = Some r0 \<and> r = with_id (pt_schema p) rid r0 \<and> wf_row r0)
      \<or> (t, rid) \<notin> staged_keys_of staged \<and> final_row V st [] t rid = Some r"
  proof (cases "staged_row staged t rid")
    case None
    moreover from this have "(t, rid) \<notin> staged_keys_of staged" by (simp only: staged_row_None not_False_eq_True)
    ultimately show ?thesis using r by (simp add: batch_row_def)
  next
    case (Some x)
    obtain p c where x: "x = (p, c)" by (cases x)
    note row = staged_row_SomeD [OF Some [unfolded x]]
    from r Some x obtain r0 where "pc_operation c = Some r0" "r = with_id (pt_schema p) rid r0" by (auto simp: batch_row_def)
    with row assms show ?thesis by blast
  qed
qed

lemma staged_row_orderable:
  assumes cat: "validate_catalog S (st_catalog st) = Inr ()" and p: "table (st_catalog st) (pt_name p) = Some (pt_schema p)" and d: "d \<in> set (ts_indexes (pt_schema p))"
    and c: "staged_row_ok V st arena (pt_schema p) c" "pc_operation c = Some r0"
  shows "orderable_row (with_id (pt_schema p) rid r0) (ix_columns d)"
proof -
  have r0: "wf_row r0" "orderable_row r0 (ix_columns d)" using c d unfolding staged_row_ok_def by blast+
  have "column_value (with_id (pt_schema p) rid r0) n = column_value r0 n" if "n \<in> set (ix_columns d)" for n
  proof -
    have "column (pt_schema p) n \<noteq> None" by (rule index_columns_named(1) [OF cat p d that])
    then show ?thesis using row_get_with_id [OF r0(1), of "pt_schema p" rid n] by (auto simp: column_value_def has_implicit_id_def split: if_splits)
  qed
  with r0(2) show ?thesis by (simp add: orderable_row_def list_all_iff)
qed

lemma batch_constraints:
  assumes ok: "db_ok S V st" and ready: "\<forall>x \<in> set xs. member_ready V st x" and staged: "staged = concat (map (pp_staged \<circ> fst) xs)"
    and rows: "\<forall>t rid. rel_option same_row (final_row V st' [] t rid) (batch_row V st staged t rid)" and cat: "st_catalog st' = st_catalog st"
  shows "unique_holds V st [] \<Longrightarrow> validate_unique V st staged = Some (Inr ()) \<Longrightarrow> unique_holds V st' []"
    and "references_hold V st [] \<Longrightarrow> apart commit_tables xs \<Longrightarrow> validate_foreign_keys V st staged = Some (Inr ()) \<Longrightarrow> references_hold V st' []"
proof -
  note parts = db_ok_parts [OF ok]
  have each: "table (st_catalog st) (pt_name p) = Some (pt_schema p) \<and> (\<forall>c \<in> set (pt_changes p). \<exists>arena. staged_row_ok V st arena (pt_schema p) c)" if "p \<in> set staged" for p
    using that ready unfolding staged member_ready_def staged_ok_def staged_rows_ok_def by fastforce
  have wf: "\<forall>p \<in> set staged. \<forall>c \<in> set (pt_changes p). \<forall>r. pc_operation c = Some r \<longrightarrow> wf_row r"
    using each unfolding staged_row_ok_def by blast
  have ord: "orderable_row r (ix_columns d)" if r: "table (st_catalog st) t = Some schema" "d \<in> set (ts_indexes schema)" "batch_row V st staged t rid = Some r" for t schema d rid r
  proof -
    consider (new) p c r0 where "p \<in> set staged" "c \<in> set (pt_changes p)" "pt_name p = t" "pc_operation c = Some r0" "r = with_id (pt_schema p) rid r0"
      | (old) "final_row V st [] t rid = Some r" using batch_rows_after [OF wf, of V st] r(3) unfolding rows_after_def by metis
    then show ?thesis
    proof cases
      case new
      then show ?thesis using staged_row_orderable [OF parts(7), of p d V _ c r0 rid] each [OF new(1)] r(1,2) by force
    next
      case old
      then show ?thesis using parts(12) r(1,2) unfolding indexable_def by blast
    qed
  qed
  show "unique_holds V st' []" if "unique_holds V st []" "validate_unique V st staged = Some (Inr ())"
  proof (rule unique_same_rows [OF rows cat])
    show "unique_rows V st (batch_row V st staged)"
      by (rule unique_rows_kept [OF _ batch_rows_after [OF wf] parts(7,11) _ _ that(2)]) (use each ord that(1) in \<open>auto simp: unique_holds_rows\<close>)
  qed
  show "references_hold V st' []" if now: "references_hold V st []" "apart commit_tables xs" "validate_foreign_keys V st staged = Some (Inr ())"
  proof -
    have "distinct (map pt_name staged)"
      using now(2) ready unfolding staged
    proof (induction xs)
      case (Cons x xs)
      then show ?case by (auto simp: member_ready_def staged_ok_def)
    qed simp
    moreover have "sorted_wrt (<) (map pc_id (pt_changes p)) \<and> (\<forall>c \<in> set (pt_changes p). rust_str (pc_id c))" if "p \<in> set staged" for p
      using that ready unfolding staged member_ready_def staged_ok_def by fastforce
    ultimately have sok: "staged_ok st staged" using each wf unfolding staged_ok_def by blast
    have "indexable V st staged" unfolding indexable_def using ord batch_row_single [OF sok] by metis
    from references_kept [OF parts(1) sok this now(1,3)] show ?thesis
      by (rule references_same_rows [OF _ cat, rotated]) (use rows batch_row_single [OF sok] in simp)
  qed
qed

section \<open>The outcomes of a batch\<close>

lemma append_batch_bytes:
  assumes "append_commits_unflushed w records outcomes set_len_error = Some (w', Inr len)"
  shows "ww_file w' = ww_file w @ concat records"
proof -
  from assms obtain count where count: "total_len 0 records = Inr count" by (auto simp: append_commits_unflushed_def split: option.splits sum.splits)
  note total = total_len_sum [OF count]
  show ?thesis
  proof (cases "count = 0")
    case True
    with assms count total show ?thesis by (auto simp: append_commits_unflushed_def split: option.splits)
  next
    case False
    with assms count obtain part where part: "write_batch records 0 0 outcomes = Some (part, BatchDone)" "ww_file w' = ww_file w @ part"
      by (auto simp: append_commits_unflushed_def Let_def split: option.splits prod.splits batch_end.splits)
    from write_batch_written [OF part(1)] part(2) show ?thesis by (simp add: pending_start)
  qed
qed

abbreviation batch_versions :: "'j db_state \<Rightarrow> nat \<Rightarrow> u64 list" where
  "batch_versions st n \<equiv> map (\<lambda>i. st_committed_version st + of_nat (Suc i)) [0..<n]"

lemma commit_members_cases:
  assumes "commit_members V outcomes set_len_error sync taken (st, w) = Some ((st', w'), results)"
  obtains (refused) "st' = st" "\<forall>x \<in> set results. \<exists>err. snd x = Inl err"
  | (published) records where "those (map (member_frame (de_ext V)) (zip (map snd taken) (batch_versions st (length taken)))) = Some records"
      "ww_file w' = ww_file w @ concat records" "apply_members (de_ext V) (zip (map snd taken) (batch_versions st (length taken))) st = Some st'"
      "unat (st_committed_version st) + length taken < usize_limit" "taken \<noteq> []"
      "map snd results = map Inr (batch_versions st (length taken)) \<or> (\<forall>x \<in> set results. \<exists>msg. snd x = Inl (CommitUnknown msg))"
proof -
  consider (0) "taken = []" | (1) "taken \<noteq> []" "unat (st_committed_version st) + length taken \<ge> usize_limit"
    | (2) "taken \<noteq> []" "unat (st_committed_version st) + length taken < usize_limit" by fastforce
  then show ?thesis
  proof cases
    case 0
    with assms that(1) show ?thesis by (auto simp: commit_members_def)
  next
    case 1
    with assms that(1) show ?thesis by (auto simp: commit_members_def)
  next
    case 2
    let ?numbered = "zip (map snd taken) (batch_versions st (length taken))"
    from 2 assms obtain records w1 r where step: "those (map (member_frame (de_ext V)) ?numbered) = Some records"
      "append_commits_unflushed w records outcomes set_len_error = Some (w1, r)"
      by (auto simp: commit_members_def Let_def split: option.splits)
    show ?thesis
    proof (cases r)
      case (Inl err)
      with 2 assms step that(1) show ?thesis by (auto simp: commit_members_def Let_def)
    next
      case (Inr len)
      obtain w2 synced where sync: "(case sync of None \<Rightarrow> (w1, Complete) | Some (sync_error, now) \<Rightarrow> sync_data w1 sync_error now) = (w2, synced)" by fastforce
      have same: "ww_file w2 = ww_file w1" using sync by (auto simp: sync_data_def split: option.splits)
      from 2 assms step Inr sync have run: "apply_members (de_ext V) ?numbered st = Some st'" "w' = w2"
        and results: "results = map (\<lambda>(member, version). (member,
           case synced of SyncFailed err \<Rightarrow> Inl (CommitUnknown (''version '' @ show_nat (unat version) @ '' was published, but syncing its coordinated WAL batch failed: '' @ err))
             | Complete \<Rightarrow> Inr version)) (zip (map fst taken) (batch_versions st (length taken)))"
        by (auto simp: commit_members_def Let_def)
      have "map snd results = map Inr (batch_versions st (length taken)) \<or> (\<forall>x \<in> set results. \<exists>msg. snd x = Inl (CommitUnknown msg))"
      proof (cases synced)
        case Complete
        then have "map snd results = map Inr (batch_versions st (length taken))"
          unfolding results by (intro nth_equalityI) auto
        then show ?thesis ..
      qed (auto simp: results)
      with that(2) [OF step(1) _ run(1) 2(2,1)] append_batch_bytes [of w records outcomes set_len_error w1 len] step(2) Inr run(2) same show ?thesis by simp
    qed
  qed
qed

text \<open>The members that passed their checks are applied to the end.\<close>

lemma batch_applies:
  assumes ok: "db_ok S V st" and txns: "\<forall>pp \<in> set batch. txn_ok V st pp" and room: "room V st (\<Union> (commit_keys ` set batch))"
    and members: "check_members V st {} batch = Some (Some checked)" "those (map (replay_member V B st) checked) = Some members"
    and version: "unat (st_committed_version st) + length (taken_members members) < usize_limit"
  shows "\<exists>st'. apply_members (de_ext V) (zip (map snd (taken_members members)) (batch_versions st (length (taken_members members)))) st = Some st'
      \<and> db_ok S V st' \<and> st_catalog st' = st_catalog st \<and> st_committed_version st' = st_committed_version st + of_nat (length (takens members))
      \<and> (\<forall>t rid. rel_option same_row (final_row V st' [] t rid) (batch_row V st (borrowed members) t rid))"
    and "\<forall>x \<in> set (takens members). member_ready V st x"
proof -
  have commits: "\<forall>pp \<in> set batch. commit_ok V st pp" using txns by (simp add: txn_ok_def)
  note taken = batch_takens [OF members(1) members(2) [unfolded those_map] commits]
  show ready: "\<forall>x \<in> set (takens members). member_ready V st x" using taken taken_ready [OF ok] txns by blast
  have keys: "\<forall>x \<in> set (takens members). commit_keys (fst x) \<subseteq> \<Union> (commit_keys ` set batch)" using taken unfolding taken_from_def by blast
  have len: "length (taken_members members) = length (takens members)" by (metis length_map taken_members_takens)
  from apply_members_ok [OF ok ready _ room keys] taken version
  show "\<exists>st'. apply_members (de_ext V) (zip (map snd (taken_members members)) (batch_versions st (length (taken_members members)))) st = Some st'
      \<and> db_ok S V st' \<and> st_catalog st' = st_catalog st \<and> st_committed_version st' = st_committed_version st + of_nat (length (takens members))
      \<and> (\<forall>t rid. rel_option same_row (final_row V st' [] t rid) (batch_row V st (borrowed members) t rid))"
    unfolding taken_members_takens len borrowed_takens by auto
qed

lemma published_batch:
  assumes "db_ok S V st" and "\<forall>pp \<in> set batch. txn_ok V st pp" and "room V st (\<Union> (commit_keys ` set batch))"
    and "check_members V st {} batch = Some (Some checked)" "those (map (replay_member V B st) checked) = Some members"
    and "unat (st_committed_version st) + length (taken_members members) < usize_limit"
    and run: "apply_members (de_ext V) (zip (map snd (taken_members members)) (batch_versions st (length (taken_members members)))) st = Some st'"
  shows "db_ok S V st'" and "st_catalog st' = st_catalog st" and "st_committed_version st' = st_committed_version st + of_nat (length (takens members))"
    and "\<forall>t rid. rel_option same_row (final_row V st' [] t rid) (batch_row V st (borrowed members) t rid)"
  using batch_applies(1) [OF assms(1-6)] unfolding run by blast+

section \<open>Samples\<close>

text \<open>Users with implicit ids and posts that refer to them.\<close>

abbreviation ref_posts :: "bytes table_schema" where
  "ref_posts \<equiv> sample_posts ''uid'' Ty_Text ''id''"

definition ref_empty :: "bytes db_state" where
  "ref_empty = sample_db\<lparr>st_catalog := \<lparr>ca_format_version = FORMAT_VERSION, ca_tables = [sample_counters, ref_posts]\<rparr>,
     st_secondary := [((''posts'', secondary_index_id [''uid'']), sec_resident [])]\<rparr>"

lemma ref_empty_ok: "db_ok sample_sys sample_db_env ref_empty" "latest_owned E ref_empty t rid = Inr None" "final_row sample_db_env ref_empty [] t rid = None"
proof -
  have cat: "validate_catalog sample_sys (st_catalog ref_empty) = Inr ()"
    by (simp add: ref_empty_def sample_counters_def sample_schema validation_defs chars_sample is_control_def)
  have id: "secondary_index_id cols = secondary_index_id [''uid''] \<longleftrightarrow> cols = [''uid'']" if "short_names cols" for cols
    using secondary_index_id_inject [OF that, of "[''uid'']"] by (auto simp: short_names_def)
  have decl: "secondary_declared ref_empty"
    unfolding secondary_declared_def by (auto simp: ref_empty_def id table_def sample_counters_def sample_schema)
  have parts: "st_index ref_empty = primary_empty" "\<forall>x \<in> set (st_secondary ref_empty). snd x = sec_resident []" "st_change_log ref_empty = change_log_default"
    "\<forall>schema \<in> set (ca_tables (st_catalog ref_empty)). ts_epoch schema \<le> st_committed_version ref_empty"
    by (simp_all add: ref_empty_def sample_db_def sample_counters_def sample_schema)
  have sort: "sorts_by_version (de_sort sample_db_env)" by (simp add: sample_db_env_def sorts_by_version_def)
  note ok = empty_db_ok [OF parts(1-3) cat parts(4) decl sort]
  show "db_ok sample_sys sample_db_env ref_empty" "latest_owned E ref_empty t rid = Inr None" "final_row sample_db_env ref_empty [] t rid = None" by (fact ok)+
qed

definition ref_post :: "string \<Rightarrow> bytes row" where
  "ref_post uid = from_layout [''uid''] [Text uid]"

lemma ref_encodes:
  assumes "length uid < 50"
  shows "snd (encode_record_ordered sample_ext sample_blobs ref_posts (ref_post uid) None) = Inr (sample_payload ref_posts (ref_post uid))"
    "length (sample_payload ref_posts (ref_post uid)) < 100"
  using assms by (simp_all add: sample_payload_def encode_record_ordered_def encode_record_ordered_as_def record_fields_def sample_schema
      ref_post_def from_layout_def matches_layout_def encode_name_def encode_field_def)

lemma ref_ids: "rust_str ''a''" "rust_str ''b''" "rust_str ''p''" "rust_str ''q''"
  by (simp_all add: rust_str_def is_ascii_valid_utf8 is_ascii_def as_bytes_def byte_of_def of_char_def)

lemma ref_complete: "complete_row sample_ext ref_posts (ref_post ''a'')" "distinct (map col_name (ts_columns ref_posts))"
  by (auto simp: complete_row_def wf_row_def ref_post_def from_layout_def sample_schema wf_value_def fits_u32_def row_get_def position_def column_def
      orderable_row_def column_value_def orderable_def ref_ids)

abbreviation post_bytes :: bytes where
  "post_bytes \<equiv> sample_payload ref_posts (ref_post ''a'')"

definition ref_staged :: "bytes prepared_table list" where
  "ref_staged = [\<lparr>pt_name = ''posts'', pt_schema = ref_posts, pt_changes = [sample_change ''p'' [] ref_posts (ref_post ''a'')]\<rparr>,
     \<lparr>pt_name = ''users'', pt_schema = sample_counters, pt_changes = [sample_change ''a'' post_bytes sample_counters (sample_count 5)]\<rparr>]"

abbreviation ref_arena :: bytes where
  "ref_arena \<equiv> post_bytes @ count_bytes 5"

lemma ref_fits: "fits_u32 (length post_bytes)" "fits_u32 (length (count_bytes n))" "fits_u32 (length (post_bytes @ count_bytes n))"
  using ref_encodes(2) [of "''a''"] counter_encodes(2) [of n] by (simp_all add: fits_u32_def)

text \<open>A row that a sample stages after the bytes \<open>before\<close> is held by its payload.\<close>

lemma sample_row_staged:
  shows "fits_u32 (length before) \<Longrightarrow> fits_u32 (length (before @ count_bytes n)) \<Longrightarrow>
      staged_row_ok sample_db_env st (before @ count_bytes n) sample_counters (sample_change rid before sample_counters (sample_count n))"
    and "fits_u32 (length before) \<Longrightarrow> fits_u32 (length (before @ post_bytes)) \<Longrightarrow>
      staged_row_ok sample_db_env st (before @ post_bytes) ref_posts (sample_change rid before ref_posts (ref_post ''a''))"
proof -
  have env: "de_ext sample_db_env = sample_ext" by (simp add: sample_db_env_def)
  note ok = replayed_row_ok [of sample_db_env, unfolded env]
  show "fits_u32 (length before) \<Longrightarrow> fits_u32 (length (before @ count_bytes n)) \<Longrightarrow>
      staged_row_ok sample_db_env st (before @ count_bytes n) sample_counters (sample_change rid before sample_counters (sample_count n))"
    using ok [OF counter_complete counter_encodes(1) [of n], of before st "sample_change rid before sample_counters (sample_count n)"] by (simp add: sample_change_def)
  show "fits_u32 (length before) \<Longrightarrow> fits_u32 (length (before @ post_bytes)) \<Longrightarrow>
      staged_row_ok sample_db_env st (before @ post_bytes) ref_posts (sample_change rid before ref_posts (ref_post ''a''))"
    using ok [OF ref_complete ref_encodes(1) [of "''a''"], of before st "sample_change rid before ref_posts (ref_post ''a'')"] by (simp add: sample_change_def)
qed

lemma ref_tables:
  "table (st_catalog ref_empty) t = (if t = ''users'' then Some sample_counters else if t = ''posts'' then Some ref_posts else None)"
  "ca_tables (st_catalog ref_empty) = [sample_counters, ref_posts]" "st_committed_version ref_empty = 0"
  by (simp_all add: ref_empty_def table_def sample_counters_def sample_posts_def sample_db_def)

lemma ref_applying: "applying sample_sys sample_db_env ref_empty ref_staged ref_arena 1"
proof -
  have "staged_row_ok sample_db_env ref_empty ref_arena ref_posts (sample_change ''p'' [] ref_posts (ref_post ''a''))"
    using staged_row_grows [OF sample_row_staged(2) [of "[]"]] ref_fits(1) by (simp add: fits_u32_def)
  moreover have "staged_row_ok sample_db_env ref_empty ref_arena sample_counters (sample_change ''a'' post_bytes sample_counters (sample_count 5))"
    using sample_row_staged(1) [of post_bytes] ref_fits by simp
  ultimately have rows: "staged_rows_ok sample_db_env ref_empty ref_arena ref_staged" by (simp add: staged_rows_ok_def ref_staged_def)
  have "wf_row (ref_post ''a'')" "wf_row (sample_count 5)" using ref_complete(1) counter_complete(1) [of 5] by (simp_all add: complete_row_def)
  then have "staged_ok ref_empty ref_staged" by (simp add: staged_ok_def ref_staged_def ref_tables sample_change_def ref_ids)
  with rows ref_empty_ok(1) show ?thesis by (simp add: applying_def ref_tables)
qed

text \<open>The state after a first commit: the user \<open>a\<close> and a post \<open>p\<close> of it.\<close>

definition ref_state :: "bytes db_state \<Rightarrow> bool" where
  "ref_state st \<longleftrightarrow> committed sample_db_env ref_empty ref_staged ref_arena 1 st"

lemma ref_state_exists: "\<exists>st. ref_state st"
proof -
  let ?k = "\<lparr>cc_previous = None, cc_prior = None, cc_rebased = None\<rparr> :: bytes checked_change"
  let ?vc = "\<lparr>vc_staged = ref_staged, vc_arena = ref_arena, vc_preencoded_wal = None, vc_checked = [[?k], [?k]], vc_version = 1, vc_identity = []\<rparr>"
  have check: "check_change sample_db_env ref_empty 0 p (c, None) = Some (Inr ?k)" for p c
    by (simp add: check_change_def ref_empty_ok(2))
  have "checked_as sample_db_env ref_empty 0 p c ?k" for p c
    unfolding checked_as_def using check [of p c]
    by (intro exI [of _ p] exI [of _ c] exI [of _ None]) (simp add: optimistic_change_def replayed_change_def)
  then have "list_all (validated_table sample_db_env ref_empty 0) (zip (vc_staged ?vc) (vc_checked ?vc))"
    by (simp add: ref_staged_def validated_table_def ref_tables sample_change_def ref_ids)
  moreover have "length (vc_staged ?vc) = length (vc_checked ?vc)" by (simp add: ref_staged_def)
  ultimately obtain st where "committed sample_db_env ref_empty ref_staged ref_arena 1 st"
    using validated_applies [of sample_sys sample_db_env ref_empty ?vc 0] ref_applying by auto
  then show ?thesis unfolding ref_state_def by blast
qed

lemma ref_find: "find_prepared_change ref_staged t rid = (if t = ''posts'' \<and> rid = ''p'' then Some (sample_change ''p'' [] ref_posts (ref_post ''a''))
    else if t = ''users'' \<and> rid = ''a'' then Some (sample_change ''a'' post_bytes sample_counters (sample_count 5)) else None)"
  by (simp add: find_prepared_change_def ref_staged_def binary_search_Cons binary_search_Nil) (auto simp: sample_change_def)

lemma ref_rows_after: "final_row sample_db_env ref_empty ref_staged t rid = (if t = ''posts'' \<and> rid = ''p'' then Some (with_id ref_posts rid (ref_post ''a''))
    else if t = ''users'' \<and> rid = ''a'' then Some (with_id sample_counters rid (sample_count 5)) else None)"
proof (cases "find_prepared_change ref_staged t rid")
  case None
  from final_row_unstaged [OF None] None show ?thesis by (auto simp: ref_empty_ok(3) ref_find split: if_splits)
next
  case (Some c)
  then show ?thesis by (auto simp: final_row_def final_record_def ref_find ref_tables sample_change_def split: if_splits)
qed

lemma ref_db:
  assumes "ref_state st"
  shows "db_ok sample_sys sample_db_env st" "st_catalog st = st_catalog ref_empty" "st_committed_version st = 1" "unique_holds sample_db_env st []"
    and "latest_owned sample_ext st ''users'' rid = Inr (if rid = ''a'' then Some (new_entry ref_arena 1 (sample_change ''a'' post_bytes sample_counters (sample_count 5))) else None)"
    and "latest_owned sample_ext st ''posts'' rid = Inr (if rid = ''p'' then Some (new_entry ref_arena 1 (sample_change ''p'' [] ref_posts (ref_post ''a''))) else None)"
    and "rel_option same_row (final_row sample_db_env st [] t rid) (final_row sample_db_env ref_empty ref_staged t rid)"
proof -
  have st: "committed sample_db_env ref_empty ref_staged ref_arena 1 st" using assms by (simp add: ref_state_def)
  have "card {rid. final_row sample_db_env ref_empty ref_staged t rid \<noteq> None} < usize_limit" for t
  proof -
    have "{rid. final_row sample_db_env ref_empty ref_staged t rid \<noteq> None} \<subseteq> {''a'', ''p''}" by (auto simp: ref_rows_after split: if_splits)
    from card_mono [OF _ this] show ?thesis by (simp add: usize_limit_def)
  qed
  then show "db_ok sample_sys sample_db_env st" using committed_db_ok [OF ref_applying st] by (simp add: rows_fit_def)
  show cat: "st_catalog st = st_catalog ref_empty" "st_committed_version st = 1" using committed_parts(1,4) [OF st] by simp_all
  have "\<not> ix_unique d" if "table (st_catalog st) t = Some schema" "d \<in> set (ts_indexes schema)" for t schema d
    using that by (auto simp: cat ref_tables sample_counters_def sample_schema split: if_splits)
  then show "unique_holds sample_db_env st []" unfolding unique_holds_def by blast
  have env: "de_ext sample_db_env = sample_ext" by (simp add: sample_db_env_def)
  note latest = committed_latest [OF ref_applying st, unfolded env ref_empty_ok(2) ref_find]
  show "latest_owned sample_ext st ''users'' rid = Inr (if rid = ''a'' then Some (new_entry ref_arena 1 (sample_change ''a'' post_bytes sample_counters (sample_count 5))) else None)"
    "latest_owned sample_ext st ''posts'' rid = Inr (if rid = ''p'' then Some (new_entry ref_arena 1 (sample_change ''p'' [] ref_posts (ref_post ''a''))) else None)"
    using latest [of "''users''" sample_counters rid] latest [of "''posts''" ref_posts rid] by (simp_all add: ref_tables)
  show "rel_option same_row (final_row sample_db_env st [] t rid) (final_row sample_db_env ref_empty ref_staged t rid)"
    by (rule committed_rows [OF ref_applying st])
qed

lemma ref_implicit: "has_implicit_id sample_counters" "has_implicit_id ref_posts"
  by (simp_all add: has_implicit_id_def column_def sample_counters_def sample_schema)

lemma ref_gets: "row_get (with_id ref_posts rid (ref_post uid)) ''uid'' = Some (Text uid)" "row_get (with_id sample_counters rid (sample_count n)) ID_COLUMN = Some (Text rid)"
proof -
  have "wf_row (ref_post uid)" by (simp add: ref_post_def from_layout_def wf_row_def)
  then show "row_get (with_id ref_posts rid (ref_post uid)) ''uid'' = Some (Text uid)"
    by (simp add: row_get_with_id) (simp add: ref_post_def from_layout_def row_get_def position_def)
  have "wf_row (sample_count n)" using counter_complete(1) [of n] by (simp add: complete_row_def)
  then show "row_get (with_id sample_counters rid (sample_count n)) ID_COLUMN = Some (Text rid)" by (simp add: row_get_with_id ref_implicit)
qed

text \<open>The current rows of the sample.\<close>

lemma ref_current:
  assumes "ref_state st"
  shows "final_row sample_db_env st [] ''users'' rid = Some r \<Longrightarrow> rid = ''a''"
    and "final_row sample_db_env st [] ''posts'' rid = Some r \<Longrightarrow> rid = ''p''"
    and "\<exists>r. final_row sample_db_env st [] ''users'' ''a'' = Some r \<and> row_get r ID_COLUMN = Some (Text ''a'')"
    and "\<exists>r. final_row sample_db_env st [] ''posts'' ''p'' = Some r \<and> row_get r ''uid'' = Some (Text ''a'')"
proof -
  note rows = ref_db(7) [OF assms, unfolded ref_rows_after]
  show "rid = ''a''" if "final_row sample_db_env st [] ''users'' rid = Some r" using rows [of "''users''" rid] that by (auto split: if_splits)
  show "rid = ''p''" if "final_row sample_db_env st [] ''posts'' rid = Some r" using rows [of "''posts''" rid] that by (auto split: if_splits)
  show "\<exists>r. final_row sample_db_env st [] ''users'' ''a'' = Some r \<and> row_get r ID_COLUMN = Some (Text ''a'')"
    using rows [of "''users''" "''a''"] ref_gets(2) [of "''a''" 5] by (auto simp: option_rel_Some2 same_row_def)
  show "\<exists>r. final_row sample_db_env st [] ''posts'' ''p'' = Some r \<and> row_get r ''uid'' = Some (Text ''a'')"
    using rows [of "''posts''" "''p''"] ref_gets(1) [of "''p''" "''a''"] by (auto simp: option_rel_Some2 same_row_def)
qed

lemma text_eq [simp]: "value_eq E (Text a) (Text b) \<longleftrightarrow> a = b"
  by (simp add: value_eq_def)

lemma ref_references:
  assumes "ref_state st"
  shows "references_hold sample_db_env st []"
proof -
  have "matching_rows sample_db_env st [] ''users'' ''id'' (Text ''a'') \<noteq> {}"
    using ref_current(3) [OF assms] text_eq unfolding matching_rows_def by blast
  then show ?thesis
    unfolding references_hold_def ref_db(2) [OF assms] ref_tables using ref_current(2,4) [OF assms] by (fastforce simp: sample_counters_def sample_schema)
qed

text \<open>Three transactions: a new user \<open>b\<close>, the removal of \<open>a\<close>, and a new post \<open>q\<close> of \<open>a\<close>.\<close>

definition sample_frame :: "wal_change list \<Rightarrow> bytes" where
  "sample_frame cs = (case encode_commit sample_ext 0 cs [] of Inr bs \<Rightarrow> bs | Inl _ \<Rightarrow> [])"

definition sample_member :: "string \<Rightarrow> bytes table_schema \<Rightarrow> bytes prepared_change \<Rightarrow> bytes \<Rightarrow> bytes prepared_commit" where
  "sample_member t schema c arena = \<lparr>pp_snap_version = 1, pp_staged = [\<lparr>pt_name = t, pt_schema = schema, pt_changes = [c]\<rparr>], pp_payload_arena = arena,
     pp_preencoded_wal = Some (sample_frame [\<lparr>wc_table = t, wc_id = pc_id c, wc_payload = (if pc_operation c = None then None else Some arena)\<rparr>]),
     pp_optimistic = [[None]]\<rparr>"

definition add_user :: "bytes prepared_commit" where
  "add_user = sample_member ''users'' sample_counters (sample_change ''b'' [] sample_counters (sample_count 7)) (count_bytes 7)"

definition remove_user :: "bytes prepared_commit" where
  "remove_user = sample_member ''users'' sample_counters \<lparr>pc_id = ''a'', pc_operation = None, pc_rebase = None, pc_payload = None\<rparr> []"

definition add_post :: "bytes prepared_commit" where
  "add_post = sample_member ''posts'' ref_posts (sample_change ''q'' [] ref_posts (ref_post ''a'')) post_bytes"

abbreviation user_change :: "bytes prepared_change" where
  "user_change \<equiv> sample_change ''b'' [] sample_counters (sample_count 7)"

abbreviation removal :: "bytes prepared_change" where
  "removal \<equiv> \<lparr>pc_id = ''a'', pc_operation = None, pc_rebase = None, pc_payload = None\<rparr>"

abbreviation post_change :: "bytes prepared_change" where
  "post_change \<equiv> sample_change ''q'' [] ref_posts (ref_post ''a'')"

lemma ref_members:
  "pp_staged add_user = [\<lparr>pt_name = ''users'', pt_schema = sample_counters, pt_changes = [user_change]\<rparr>]"
  "pp_staged remove_user = [\<lparr>pt_name = ''users'', pt_schema = sample_counters, pt_changes = [removal]\<rparr>]"
  "pp_staged add_post = [\<lparr>pt_name = ''posts'', pt_schema = ref_posts, pt_changes = [post_change]\<rparr>]"
  "pc_operation user_change = Some (sample_count 7)" "pc_operation post_change = Some (ref_post ''a'')" "pc_id user_change = ''b''" "pc_id post_change = ''q''"
  by (simp_all add: add_user_def remove_user_def add_post_def sample_member_def sample_change_def)

lemma ref_txns_ok:
  assumes "pp \<in> {add_user, remove_user, add_post}"
  shows "txn_ok sample_db_env st pp"
proof -
  have "staged_row_ok sample_db_env st (count_bytes 7) sample_counters (sample_change ''b'' [] sample_counters (sample_count 7))"
    "staged_row_ok sample_db_env st post_bytes ref_posts (sample_change ''q'' [] ref_posts (ref_post ''a''))"
    "staged_row_ok sample_db_env st [] sample_counters \<lparr>pc_id = ''a'', pc_operation = None, pc_rebase = None, pc_payload = None\<rparr>"
    using sample_row_staged(1) [of "[]" 7] sample_row_staged(2) [of "[]"] ref_fits(1,2) by (simp_all add: fits_u32_def staged_row_ok_def)
  with assms show ?thesis
    by (auto simp: txn_ok_def commit_ok_def staged_rows_ok_def optimistic_change_def replays_complete_def rebase_change_def
        add_user_def remove_user_def add_post_def sample_member_def) (auto simp: sample_change_def ref_ids)
qed

lemma check_plain:
  assumes "db_ok S V st" and t: "table (st_catalog st) (pt_name p) = Some (pt_schema p)" and latest: "latest_owned (de_ext V) st (pt_name p) (pc_id c) = Inr prev"
    and "case prev of None \<Rightarrow> True | Some e \<Rightarrow> ve_version e \<le> snap \<and> ts_indexes (pt_schema p) = []"
  shows "check_change V st snap p (c, opt) = Some (Inr \<lparr>cc_previous = prev, cc_prior = None, cc_rebased = None\<rparr>)"
  unfolding check_change_def prod.case checked_previous [OF assms(1,2)] latest using assms(4) by (auto simp: not_less split: option.split)

lemma ref_candidates: "sorted_list_of_set {''a'', ''b''} = [''a'', ''b'']"
proof -
  have "sorted [''a'', ''b'']" by (simp add: less_eq_char_def)
  from sorted_list_of_set.idem_if_sorted_distinct [OF this] show ?thesis by simp
qed

lemma ref_parent_record:
  assumes "ref_state st"
  shows "\<exists>r. read_record_kind sample_ext (de_cache sample_db_env) (st_blobs st) (st_readers st)
      (ve_kind (new_entry ref_arena 1 (sample_change ''a'' post_bytes sample_counters (sample_count 5)))) sample_counters = Some (Inr r) \<and> wf_row r"
    and "\<not> is_tombstone (new_entry ref_arena 1 (sample_change ''a'' post_bytes sample_counters (sample_count 5)))"
proof -
  let ?e = "new_entry ref_arena 1 (sample_change ''a'' post_bytes sample_counters (sample_count 5))"
  show put: "\<not> is_tombstone ?e" by (simp add: new_entry_def put_of_def sample_change_def is_tombstone_def)
  have env: "de_ext sample_db_env = sample_ext" by (simp add: sample_db_env_def)
  have "table (st_catalog st) ''users'' = Some sample_counters" by (simp add: ref_db(2) [OF assms] ref_tables)
  with db_ok_parts(4) [OF ref_db(1) [OF assms]] ref_db(5) [OF assms, of "''a''"] put obtain h where "holds sample_db_env st sample_counters (ve_kind ?e) h"
    unfolding rows_held_def env by fastforce
  from read_record_held [OF this] show "\<exists>r. read_record_kind sample_ext (de_cache sample_db_env) (st_blobs st) (st_readers st) (ve_kind ?e) sample_counters = Some (Inr r) \<and> wf_row r"
    unfolding env by metis
qed

text \<open>Only the first table of a name is looked at: the removal of \<open>a\<close> by a later member is not seen.\<close>

lemma ref_parents:
  assumes st: "ref_state st"
  shows "final_ids_matching sample_db_env st (pp_staged add_user @ rest) ''users'' ''id'' (Text ''a'') = Some (Inr {''a''})"
proof -
  let ?staged = "pp_staged add_user @ rest" and ?c = "sample_change ''b'' [] sample_counters (sample_count 7)"
  have env: "de_ext sample_db_env = sample_ext" by (simp add: sample_db_env_def)
  have t: "table (st_catalog st) ''users'' = Some sample_counters" by (simp add: ref_db(2) [OF st] ref_tables)
  have staged: "find (\<lambda>p. pt_name p = ''users'') ?staged = Some \<lparr>pt_name = ''users'', pt_schema = sample_counters, pt_changes = [?c]\<rparr>"
    by (simp add: add_user_def sample_member_def)
  have found: "find_prepared_change ?staged ''users'' rid = (if rid = ''b'' then Some ?c else None)" for rid
    unfolding find_prepared_change_def staged by (auto simp: binary_search_Cons binary_search_Nil sample_change_def)
  obtain r where r: "read_record_kind sample_ext (de_cache sample_db_env) (st_blobs st) (st_readers st)
      (ve_kind (new_entry ref_arena 1 (sample_change ''a'' post_bytes sample_counters (sample_count 5)))) sample_counters = Some (Inr r)" "wf_row r"
    using ref_parent_record(1) [OF st] by blast
  have a: "final_record sample_db_env st ?staged ''users'' ''a'' = Some (Inr (Some (with_id sample_counters ''a'' r)))"
    using ref_parent_record(2) [OF st] r(1) by (simp add: final_record_def t found env ref_db(5) [OF st]) (simp add: new_entry_def sample_counters_def)
  have b: "final_record sample_db_env st ?staged ''users'' ''b'' = Some (Inr (Some (with_id sample_counters ''b'' (sample_count 7))))"
    by (simp add: final_record_def t found) (simp add: sample_change_def)
  have id: "row_get (with_id sample_counters ''a'' r) ''id'' = Some (Text ''a'')" using row_get_with_id [OF r(2)] ref_implicit(1) by simp
  have "pc_id ?c = ''b''" by (simp add: sample_change_def)
  then show ?thesis
    using ref_gets(2) [of "''b''" 7] by (simp add: final_ids_matching_def t staged ref_implicit Let_def ref_candidates a b id)
qed

lemma ref_foreign_keys:
  assumes st: "ref_state st" and batch: "rest = pp_staged remove_user \<or> rest = pp_staged add_post"
  shows "validate_foreign_keys sample_db_env st (pp_staged add_user @ rest) = Some (Inr ())"
proof -
  let ?staged = "pp_staged add_user @ rest"
  have env: "de_ext sample_db_env = sample_ext" by (simp add: sample_db_env_def)
  let ?fk = "\<lparr>fk_column = ''uid'', fk_referenced_table = ''users'', fk_referenced_column = ''id'', fk_on_delete = Restrict\<rparr>"
  have child: "check_child sample_db_env st ?staged t (ref_post ''a'') ?fk = Some (Inr ())" for t
    using ref_parents [OF st, of rest] by (simp add: check_child_def is_null_def) (simp add: ref_post_def from_layout_def row_get_def position_def)
  have absent: "check_parent sample_db_env st ?staged p c = Some (Inr ())" if "pt_name p = ''users''" "pc_id c \<noteq> ''a''" for p c
    using that by (simp add: check_parent_def env ref_db(5) [OF st])
  obtain r where r: "read_record_kind sample_ext (de_cache sample_db_env) (st_blobs st) (st_readers st)
      (ve_kind (new_entry ref_arena 1 (sample_change ''a'' post_bytes sample_counters (sample_count 5)))) sample_counters = Some (Inr r)" "wf_row r"
    using ref_parent_record(1) [OF st] by blast
  have id: "row_get (with_id sample_counters ''a'' r) ''id'' = Some (Text ''a'')" using row_get_with_id [OF r(2)] ref_implicit(1) by simp
  have tables: "ca_tables (st_catalog st) = [sample_counters, ref_posts]" "ts_foreign_keys sample_counters = []" "ts_foreign_keys ref_posts = [?fk]" "ts_epoch sample_counters = 0"
    by (simp_all add: ref_db(2) [OF st] ref_tables) (simp_all add: sample_counters_def sample_posts_def)
  have removed: "check_parent sample_db_env st ?staged p c = Some (Inr ())"
    if "pt_name p = ''users''" "pt_schema p = sample_counters" "pc_id c = ''a''" "pc_operation c = None" for p c
    using that ref_parent_record(2) [OF st] r(1) id ref_parents [OF st, of rest]
    by (simp add: check_parent_def env ref_db(5) [OF st] tables Let_def check_dependents_def is_null_def)
  from batch show ?thesis
  proof
    assume rest: "rest = pp_staged remove_user"
    note parents = absent [of _ user_change] removed [of _ removal]
    show ?thesis unfolding validate_foreign_keys_def tables(1)
      using parents unfolding rest by (simp add: tables(2,3) ref_members)
  next
    assume rest: "rest = pp_staged add_post"
    show ?thesis unfolding validate_foreign_keys_def tables(1)
      using absent [of _ user_change] child unfolding rest by (simp add: tables(2,3) ref_members)
  qed
qed

lemma sample_frame_ok:
  assumes "length t < 100" "length rid < 100" "case p of None \<Rightarrow> True | Some bs \<Rightarrow> length bs < 100"
  shows "\<exists>bs. set_encoded_commit_version E (sample_frame [\<lparr>wc_table = t, wc_id = rid, wc_payload = p\<rparr>]) v = Some bs \<and> bs \<noteq> [] \<and> length bs < 2000"
proof -
  let ?cs = "[\<lparr>wc_table = t, wc_id = rid, wc_payload = p\<rparr>]"
  have "\<exists>bs. encode_commit sample_ext 0 ?cs [] = Inr bs \<and> 12 \<le> length bs \<and> length bs < 2000"
    using assms by (cases p) (simp_all add: encode_commit_def encode_change_def checked_add_def usize_limit_def fits_u16_def fits_u32_def Let_def)
  then have frame: "12 \<le> length (sample_frame ?cs)" "length (sample_frame ?cs) < 2000" by (auto simp: sample_frame_def)
  then obtain bs where "set_encoded_commit_version E (sample_frame ?cs) v = Some bs" "length bs = length (sample_frame ?cs)"
    by (simp add: set_encoded_commit_version_def Let_def)
  with frame show ?thesis by (metis le_zero_eq list.size(3) zero_neq_numeral)
qed

text \<open>One vectored write takes both records of a batch of two.\<close>

lemma append_two:
  assumes "r1 \<noteq> []" "r2 \<noteq> []" "length r1 + length r2 < usize_limit"
  shows "\<exists>w'. append_commits_unflushed sample_writer [r1, r2] [Wrote (length r1 + length r2)] None = Some (w', Inr (length r1 + length r2)) \<and> ww_file w' = r1 @ r2"
  using assms
  by (simp add: append_commits_unflushed_def sample_writer_def checked_add_def write_batch.simps advance.simps io_slices_def saturating_add_def Let_def)

lemma ref_room:
  assumes st: "ref_state st" and batch: "set batch \<subseteq> {add_user, remove_user, add_post}"
  shows "room sample_db_env st (\<Union> (commit_keys ` set batch))"
proof -
  have keys: "\<Union> (commit_keys ` set batch) \<subseteq> {(''users'', ''b''), (''users'', ''a''), (''posts'', ''q'')}"
    using batch by (auto simp: staged_keys_of_def ref_members dest!: subsetD)
  have "{rid. final_row sample_db_env st [] t rid \<noteq> None} \<union> {rid. (t, rid) \<in> \<Union> (commit_keys ` set batch)} \<subseteq> {''a'', ''b'', ''p'', ''q''}" for t
  proof -
    have "{rid. final_row sample_db_env st [] t rid \<noteq> None} \<subseteq> {''a'', ''p''}"
      using ref_db(7) [OF st, of t, unfolded ref_rows_after] by (force split: if_splits)
    with keys show ?thesis by auto
  qed
  note sub = this
  have "card ({rid. final_row sample_db_env st [] t rid \<noteq> None} \<union> {rid. (t, rid) \<in> \<Union> (commit_keys ` set batch)}) \<le> card {''a'', ''b'', ''p'', ''q''}" for t
    by (rule card_mono [OF _ sub]) simp
  then have "card ({rid. final_row sample_db_env st [] t rid \<noteq> None} \<union> {rid. (t, rid) \<in> \<Union> (commit_keys ` set batch)}) < usize_limit" for t
    by (rule le_less_trans) (simp add: usize_limit_def)
  moreover have "finite (\<Union> (commit_keys ` set batch))" using keys finite_subset by blast
  ultimately show ?thesis unfolding room_def by blast
qed

lemma ref_checks:
  assumes st: "ref_state st" and x: "x \<in> {remove_user, add_post}"
  obtains k0 k1 where "check_members sample_db_env st {} [add_user, x] = Some (Some [(add_user, Some [[k0]]), (x, Some [[k1]])])"
    "cc_rebased k0 = None" "cc_rebased k1 = None"
proof -
  note check = check_plain [OF ref_db(1) [OF st]]
  have t: "table (st_catalog st) ''users'' = Some sample_counters" "table (st_catalog st) ''posts'' = Some ref_posts" by (simp_all add: ref_db(2) [OF st] ref_tables)
  have env: "de_ext sample_db_env = sample_ext" by (simp add: sample_db_env_def)
  let ?e = "new_entry ref_arena 1 (sample_change ''a'' post_bytes sample_counters (sample_count 5))"
  let ?k = "\<lambda>prev. \<lparr>cc_previous = prev, cc_prior = None, cc_rebased = None\<rparr> :: bytes checked_change"
  have absent: "check_change sample_db_env st 1 p (c, None) = Some (Inr (?k None))"
    if "pt_name p = ''users'' \<and> pt_schema p = sample_counters \<and> pc_id c = ''b'' \<or> pt_name p = ''posts'' \<and> pt_schema p = ref_posts \<and> pc_id c = ''q''" for p c
    using that check [of p c None 1 None] t ref_db(5,6) [OF st, of "pc_id c"] by (auto simp: env)
  have here: "check_change sample_db_env st 1 p (c, None) = Some (Inr (?k (Some ?e)))" if "pt_name p = ''users''" "pt_schema p = sample_counters" "pc_id c = ''a''" for p c
    using that check [of p c "Some ?e" 1 None] t ref_db(5) [OF st, of "pc_id c"] by (simp add: env) (simp add: new_entry_def sample_counters_def)
  have fields: "pp_snap_version add_user = 1" "pp_snap_version remove_user = 1" "pp_snap_version add_post = 1"
    "pp_optimistic add_user = [[None]]" "pp_optimistic remove_user = [[None]]" "pp_optimistic add_post = [[None]]"
    by (simp_all add: add_user_def remove_user_def add_post_def sample_member_def)
  have user: "batch_member_previous sample_db_env st {} add_user = Some (Some [[?k None]])"
    by (simp add: batch_member_previous_def ref_members fields check_batch_change_def absent)
  have keys: "commit_keys add_user = {(''users'', ''b'')}" by (simp add: staged_keys_of_def ref_members)
  have removed: "batch_member_previous sample_db_env st {(''users'', ''b'')} remove_user = Some (Some [[?k (Some ?e)]])"
    by (simp add: batch_member_previous_def ref_members fields check_batch_change_def here)
  have post: "batch_member_previous sample_db_env st {(''users'', ''b'')} add_post = Some (Some [[?k None]])"
    by (simp add: batch_member_previous_def ref_members fields check_batch_change_def absent)
  from x consider (0) "x = remove_user" | (1) "x = add_post" by blast
  then show ?thesis
  proof cases
    case 0
    have "check_members sample_db_env st {} [add_user, remove_user] = Some (Some [(add_user, Some [[?k None]]), (remove_user, Some [[?k (Some ?e)]])])"
      by (simp add: user removed keys) (simp add: ref_members t)
    from that [OF this [folded 0]] show ?thesis by simp
  next
    case 1
    have "check_members sample_db_env st {} [add_user, add_post] = Some (Some [(add_user, Some [[?k None]]), (add_post, Some [[?k None]])])"
      by (simp add: user post keys) (simp add: ref_members t)
    from that [OF this [folded 1]] show ?thesis by simp
  qed
qed

lemma ref_frame:
  assumes "x \<in> {add_user, remove_user, add_post}"
  shows "\<exists>bs. member_frame sample_ext ((x, ks), v) = Some bs \<and> bs \<noteq> [] \<and> length bs < 2000"
proof -
  have "length (count_bytes 7) < 100" "length post_bytes < 100" using counter_encodes(2) [of 7] ref_encodes(2) [of "''a''"] by simp_all
  then show ?thesis
    using assms sample_frame_ok [of "''users''" "''b''" "Some (count_bytes 7)" sample_ext v] sample_frame_ok [of "''users''" "''a''" None sample_ext v]
      sample_frame_ok [of "''posts''" "''q''" "Some post_bytes" sample_ext v]
    by (auto simp: member_frame_def add_user_def remove_user_def add_post_def sample_member_def) (simp_all add: sample_change_def)
qed

text \<open>Both batches are published.\<close>

lemma ref_batch_runs:
  assumes st: "ref_state st" and x: "x \<in> {remove_user, add_post}"
  obtains n st' w' where "finish_coordinated_insert_batch sample_db_env sample_blobs (Inr ()) False [Wrote n] None None [add_user, x] (st, sample_writer)
      = Some ((st', w'), Inr \<lparr>bo_results = [(0, Inr 2), (1, Inr 3)], bo_set_aside = []\<rparr>)"
    "db_ok sample_sys sample_db_env st'" "st_catalog st' = st_catalog st"
    "\<forall>t rid. rel_option same_row (final_row sample_db_env st' [] t rid) (batch_row sample_db_env st (pp_staged add_user @ pp_staged x) t rid)"
proof -
  obtain k0 k1 where check: "check_members sample_db_env st {} [add_user, x] = Some (Some [(add_user, Some [[k0]]), (x, Some [[k1]])])"
    and plain: "cc_rebased k0 = None" "cc_rebased k1 = None" by (rule ref_checks [OF st x])
  let ?ms = "[(add_user, Some [[k0]]), (x, Some [[k1]])]"
  have replay: "those (map (replay_member sample_db_env sample_blobs st) ?ms) = Some ?ms" using plain by (simp add: replay_member_def)
  have taken: "taken_members ?ms = [(0, add_user, [[k0]]), (1, x, [[k1]])]" "set_aside_members ?ms = []" "borrowed ?ms = pp_staged add_user @ pp_staged x"
    by (simp_all add: taken_members_def set_aside_members_def borrowed_def List.map_filter_simps)
  have "validate_unique sample_db_env st (borrowed ?ms) = Some (Inr ())"
    by (simp add: validate_unique_def ref_db(2) [OF st] ref_tables) (simp add: sample_counters_def sample_schema)
  moreover have "validate_foreign_keys sample_db_env st (borrowed ?ms) = Some (Inr ())" using ref_foreign_keys [OF st] x unfolding taken(3) by blast
  ultimately have valid: "obind (validate_unique sample_db_env st (borrowed ?ms)) (\<lambda>_. validate_foreign_keys sample_db_env st (borrowed ?ms)) = Some (Inr ())" by simp
  have env: "de_ext sample_db_env = sample_ext" by (simp add: sample_db_env_def)
  obtain r1 r2 where r: "member_frame sample_ext ((add_user, [[k0]]), 2) = Some r1" "r1 \<noteq> []" "length r1 < 2000"
    "member_frame sample_ext ((x, [[k1]]), 3) = Some r2" "r2 \<noteq> []" "length r2 < 2000"
    using ref_frame [of add_user "[[k0]]" 2] ref_frame [of x "[[k1]]" 3] x by blast
  then obtain w' where w': "append_commits_unflushed sample_writer [r1, r2] [Wrote (length r1 + length r2)] None = Some (w', Inr (length r1 + length r2))"
    using append_two [of r1 r2] by (auto simp: usize_limit_def)
  have versions: "batch_versions st (length (taken_members ?ms)) = [2, 3]" "unat (st_committed_version st) + length (taken_members ?ms) < usize_limit"
    unfolding taken(1) by (simp_all add: ref_db(3) [OF st] usize_limit_def)
  then have numbered: "zip (map snd (taken_members ?ms)) (batch_versions st (length (taken_members ?ms))) = [((add_user, [[k0]]), 2), ((x, [[k1]]), 3)]"
    unfolding taken(1) by simp
  have "\<forall>pp \<in> set [add_user, x]. txn_ok sample_db_env st pp" using ref_txns_ok x by auto
  moreover have "room sample_db_env st (\<Union> (commit_keys ` set [add_user, x]))" by (rule ref_room [OF st]) (use x in auto)
  ultimately obtain st' where st': "apply_members sample_ext [((add_user, [[k0]]), 2), ((x, [[k1]]), 3)] st = Some st'" "db_ok sample_sys sample_db_env st'"
    "st_catalog st' = st_catalog st" "\<forall>t rid. rel_option same_row (final_row sample_db_env st' [] t rid) (batch_row sample_db_env st (borrowed ?ms) t rid)"
    using batch_applies(1) [OF ref_db(1) [OF st] _ _ check replay versions(2)] unfolding numbered env by blast
  have "commit_members sample_db_env [Wrote (length r1 + length r2)] None None (taken_members ?ms) (st, sample_writer) = Some ((st', w'), [(0, Inr 2), (1, Inr 3)])"
    unfolding commit_members_def prod.case Let_def numbered env using versions r(1,4) w' st'(1) by (simp add: taken(1) not_le [symmetric])
  then have "finish_coordinated_insert_batch sample_db_env sample_blobs (Inr ()) False [Wrote (length r1 + length r2)] None None [add_user, x] (st, sample_writer)
      = Some ((st', w'), Inr \<lparr>bo_results = [(0, Inr 2), (1, Inr 3)], bo_set_aside = []\<rparr>)"
    using check replay valid unfolding finish_coordinated_insert_batch_def by (simp add: taken(2))
  from that [OF this st'(2,3) st'(4) [unfolded taken(3)]] show ?thesis .
qed

lemma ref_post_runs:
  obtains st n st' w' where "ref_state st"
    "finish_coordinated_insert_batch sample_db_env sample_blobs (Inr ()) False [Wrote n] None None [add_user, add_post] (st, sample_writer)
      = Some ((st', w'), Inr \<lparr>bo_results = [(0, Inr 2), (1, Inr 3)], bo_set_aside = []\<rparr>)"
proof -
  obtain st where st: "ref_state st" using ref_state_exists by blast
  have "add_post \<in> {remove_user, add_post}" by simp
  from ref_batch_runs [OF st this that [OF st]] show ?thesis .
qed

lemma is_null_text: "\<not> is_null (Text a)"
  by (simp add: is_null_def)

text \<open>The post of a user that is gone.\<close>

lemma ref_dangling:
  assumes "st_catalog st' = st_catalog ref_empty" and "\<exists>r. final_row V st' staged ''posts'' ''p'' = Some r \<and> row_get r ''uid'' = Some (Text ''a'')"
    and "\<And>rid r. final_row V st' staged ''users'' rid = Some r \<Longrightarrow> \<exists>other. row_get r ''id'' = Some (Text other) \<and> other \<noteq> ''a''"
  shows "\<not> references_hold V st' staged"
proof
  assume refs: "references_hold V st' staged"
  obtain r where r: "final_row V st' staged ''posts'' ''p'' = Some r" "row_get r ''uid'' = Some (Text ''a'')" using assms(2) by blast
  let ?fk = "\<lparr>fk_column = ''uid'', fk_referenced_table = ''users'', fk_referenced_column = ''id'', fk_on_delete = Restrict\<rparr>"
  have fk: "ref_posts \<in> set (ca_tables (st_catalog st'))" "?fk \<in> set (ts_foreign_keys ref_posts)" "ts_name ref_posts = ''posts''"
    by (simp_all add: assms(1) ref_tables sample_posts_def)
  have "matching_rows V st' staged (fk_referenced_table ?fk) (fk_referenced_column ?fk) (Text ''a'') \<noteq> {}"
    using refs fk r unfolding references_hold_def by (metis (full_types) foreign_key_def.select_convs(1) is_null_text)
  then obtain rid r' w where "final_row V st' staged ''users'' rid = Some r'" "row_get r' ''id'' = Some w" "value_eq (de_ext V) w (Text ''a'')"
    by (auto simp: matching_rows_def)
  with assms(3) [of rid r'] show False by auto
qed

lemma ref_batch_dangles:
  assumes st: "ref_state st" and cat: "st_catalog st' = st_catalog st"
    and rows: "\<forall>t rid. rel_option same_row (final_row sample_db_env st' [] t rid) (batch_row sample_db_env st (pp_staged add_user @ pp_staged remove_user) t rid)"
  shows "\<not> references_hold sample_db_env st' []"
proof (rule ref_dangling)
  let ?staged = "pp_staged add_user @ pp_staged remove_user"
  show "st_catalog st' = st_catalog ref_empty" using cat ref_db(2) [OF st] by simp
  have "batch_row sample_db_env st ?staged ''posts'' ''p'' = final_row sample_db_env st [] ''posts'' ''p''"
    by (simp add: batch_row_def staged_row_def ref_members)
  with rows [rule_format, of "''posts''" "''p''"] ref_current(4) [OF st]
  show "\<exists>r. final_row sample_db_env st' [] ''posts'' ''p'' = Some r \<and> row_get r ''uid'' = Some (Text ''a'')"
    by (auto simp: option_rel_Some2 same_row_def)
  show "\<exists>other. row_get r ''id'' = Some (Text other) \<and> other \<noteq> ''a''" if r: "final_row sample_db_env st' [] ''users'' rid = Some r" for rid r
  proof -
    obtain s where s: "batch_row sample_db_env st ?staged ''users'' rid = Some s" "same_row r s" using rows [rule_format, of "''users''" rid] r by (auto simp: option_rel_Some1)
    have "rid = ''b'' \<and> s = with_id sample_counters ''b'' (sample_count 7)"
      using s(1) ref_current(1) [OF st, of rid] by (auto simp: batch_row_def staged_row_def ref_members split: if_splits)
    with s(2) ref_gets(2) [of "''b''" 7] show ?thesis by (auto simp: same_row_def)
  qed
qed

text \<open>On its own the removal is refused.\<close>

lemma ref_removal_refused:
  assumes st: "ref_state st"
  shows "finish_prepared_commit sample_db_env sample_blobs background pool_full outcome set_len_error sync_error remove_user (st, w) \<noteq> Some ((st', w'), Inr v)"
proof
  assume "finish_prepared_commit sample_db_env sample_blobs background pool_full outcome set_len_error sync_error remove_user (st, w) = Some ((st', w'), Inr v)"
  then obtain vc where valid: "validate_commit sample_db_env sample_blobs st remove_user = Some (Inr vc)" by (cases rule: finish_cases) auto
  have ok: "db_ok sample_sys sample_db_env st" and txn: "txn_ok sample_db_env st remove_user" using ref_db(1) [OF st] ref_txns_ok by auto
  have "st_committed_version st \<noteq> - 1" by (simp add: ref_db(3) [OF st])
  from apply_commit_ok(1) [OF ok txn valid this] have ctx: "applying sample_sys sample_db_env st (vc_staged vc) (vc_arena vc) (vc_version vc)" .
  have sok: "staged_ok st (vc_staged vc)" using ctx by (simp add: applying_def)
  from references_kept [OF db_ok_parts(1) [OF ok] sok staged_indexable [OF ctx] ref_references [OF st] validate_commit_pass(3) [OF valid]]
  have refs: "references_hold sample_db_env st (vc_staged vc)" .
  have staged: "vc_staged vc = pp_staged remove_user"
  proof -
    let ?e = "new_entry ref_arena 1 (sample_change ''a'' post_bytes sample_counters (sample_count 5))"
    have t: "table (st_catalog st) ''users'' = Some sample_counters" by (simp add: ref_db(2) [OF st] ref_tables)
    have "check_change sample_db_env st 1 \<lparr>pt_name = ''users'', pt_schema = sample_counters, pt_changes = [removal]\<rparr> (removal, None)
        = Some (Inr \<lparr>cc_previous = Some ?e, cc_prior = None, cc_rebased = None\<rparr>)"
      by (rule check_plain [OF ok]) (simp_all add: t sample_db_env_def ref_db(5) [OF st] new_entry_def, simp add: sample_counters_def)
    moreover have "pp_snap_version remove_user = 1" "pp_optimistic remove_user = [[None]]" by (simp_all add: remove_user_def sample_member_def)
    ultimately show ?thesis
      using valid by (auto simp: validate_commit_def ref_members check_table_def t rebase_staged_table_def rebase_staged_change_def obind_ok)
  qed
  have find: "find_prepared_change (pp_staged remove_user) t rid = (if t = ''users'' \<and> rid = ''a'' then Some removal else None)" for t rid
    by (auto simp: find_prepared_change_def ref_members binary_search_Cons binary_search_Nil)
  have "\<not> references_hold sample_db_env st (pp_staged remove_user)"
  proof (rule ref_dangling)
    show "st_catalog st = st_catalog ref_empty" by (rule ref_db(2) [OF st])
    show "\<exists>r. final_row sample_db_env st (pp_staged remove_user) ''posts'' ''p'' = Some r \<and> row_get r ''uid'' = Some (Text ''a'')"
      using ref_current(4) [OF st] final_row_unstaged [of "pp_staged remove_user" "''posts''" "''p''" sample_db_env st] by (simp add: find)
    have "final_row sample_db_env st (pp_staged remove_user) ''users'' rid = None" for rid
    proof (cases "rid = ''a''")
      case True
      then show ?thesis by (simp add: final_row_def final_record_def find ref_db(2) [OF st] ref_tables)
    next
      case False
      then have "final_row sample_db_env st [] ''users'' rid = None" using ref_current(1) [OF st, of rid] by (meson not_None_eq)
      with False final_row_unstaged [of "pp_staged remove_user" "''users''" rid sample_db_env st] show ?thesis by (simp add: find)
    qed
    then show "\<exists>other. row_get r ''id'' = Some (Text other) \<and> other \<noteq> ''a''" if "final_row sample_db_env st (pp_staged remove_user) ''users'' rid = Some r" for rid r
      using that by simp
  qed
  with refs staged show False by simp
qed

section \<open>Properties of a batch\<close>

text \<open>C4. A batch keeps the database in order, and its unique indexes: its members are checked against each other and
  against the committed rows, so that no two rows share a key afterwards. References are kept when no two members
  write the same table.\<close>

theorem batch_keeps_unique:
  assumes "db_ok S V st" and "unique_holds V st []" and "\<forall>pp \<in> set batch. txn_ok V st pp" and "room V st (\<Union> (commit_keys ` set batch))"
    and "finish_coordinated_insert_batch V B background pool_full outcomes set_len_error sync batch (st, w) = Some ((st', w'), res)"
  shows "db_ok S V st' \<and> unique_holds V st' []
    \<and> (references_hold V st [] \<and> sorted_wrt (\<lambda>a b. commit_tables a \<inter> commit_tables b = {}) batch \<longrightarrow> references_hold V st' [])"
  using assms(5)
proof (cases rule: batch_cases)
  case (handed prepared)
  with assms(1,2) show ?thesis by simp
next
  case (committed checked members results)
  from committed(5) show ?thesis
  proof (cases rule: commit_members_cases)
    case refused
    with assms(1,2) show ?thesis by simp
  next
    case (published records)
    note members = committed(1,2) [unfolded fst_conv]
    note state = published_batch [OF assms(1,3,4) members published(4,3)]
    note kept = batch_constraints [OF assms(1) batch_applies(2) [OF assms(1,3,4) members published(4)] borrowed_takens state(4,2)]
    have "\<forall>pp \<in> set batch. commit_ok V st pp" using assms(3) by (simp add: txn_ok_def)
    note taken = batch_takens [OF members(1) members(2) [unfolded those_map] this]
    from kept assms(2) taken committed(3,4) state(1) show ?thesis by auto
  qed
qed

theorem batch_keeps_unique_witness:
  "\<exists>st n st' w'. finish_coordinated_insert_batch sample_db_env sample_blobs (Inr ()) False [Wrote n] None None [add_user, add_post] (st, sample_writer)
       = Some ((st', w'), Inr \<lparr>bo_results = [(0, Inr 2), (1, Inr 3)], bo_set_aside = []\<rparr>)
     \<and> db_ok sample_sys sample_db_env st' \<and> unique_holds sample_db_env st' [] \<and> references_hold sample_db_env st' []"
proof -
  obtain st n st' w' where st: "ref_state st" and
    run: "finish_coordinated_insert_batch sample_db_env sample_blobs (Inr ()) False [Wrote n] None None [add_user, add_post] (st, sample_writer)
      = Some ((st', w'), Inr \<lparr>bo_results = [(0, Inr 2), (1, Inr 3)], bo_set_aside = []\<rparr>)" by (rule ref_post_runs)
  have txns: "\<forall>pp \<in> set [add_user, add_post]. txn_ok sample_db_env st pp" using ref_txns_ok by simp
  have room: "room sample_db_env st (\<Union> (commit_keys ` set [add_user, add_post]))" by (rule ref_room [OF st]) simp
  have "sorted_wrt (\<lambda>a b. commit_tables a \<inter> commit_tables b = {}) [add_user, add_post]" by (simp add: ref_members)
  with batch_keeps_unique [OF ref_db(1) [OF st] ref_db(4) [OF st] txns room run] ref_references [OF st] run show ?thesis by blast
qed



text \<open>C35. Every member of a batch is answered exactly once: with the outcome of the batch, or, when it was set aside
  or no batch could form, with that of a commit of its own.\<close>

theorem batch_answers_once:
  assumes "process_coordinated_batch V B background pool_full outcomes set_len_error sync singles batch s = Some (s', answers)"
  shows "mset (map fst answers) = mset [0..<length batch]"
proof -
  from assms obtain s1 r where r: "finish_coordinated_insert_batch V B background pool_full outcomes set_len_error sync batch s = Some (s1, r)"
    by (auto simp: process_coordinated_batch_def split: option.splits)
  then show ?thesis
  proof (cases rule: batch_cases)
    case (handed prepared)
    with assms r have "map fst answers = [0..<length batch]" by (auto simp: process_coordinated_batch_def dest!: finish_singles_answers)
    then show ?thesis by (rule arg_cong)
  next
    case (committed checked members results)
    with assms r obtain rs where rs: "answers = results @ rs" "map fst rs = map fst (set_aside_members members)"
      by (auto simp: process_coordinated_batch_def dest!: finish_singles_answers)
    show ?thesis
      unfolding rs(1) map_append mset_append rs(2) commit_members_answers [OF committed(5)] members_split committed(7) ..
  qed
qed

theorem batch_answers_once_witness:
  "\<exists>st n s' answers. process_coordinated_batch sample_db_env sample_blobs (Inr ()) False [Wrote n] None None (\<lambda>_. (Inr (), False, WroteAll, None, None)) [add_user, add_post] (st, sample_writer)
       = Some (s', answers) \<and> answers = [(0, Inr 2), (1, Inr 3)] \<and> mset (map fst answers) = mset [0..<length [add_user, add_post]]"
proof -
  obtain st n st' w' where "ref_state st" and
    "finish_coordinated_insert_batch sample_db_env sample_blobs (Inr ()) False [Wrote n] None None [add_user, add_post] (st, sample_writer)
      = Some ((st', w'), Inr \<lparr>bo_results = [(0, Inr 2), (1, Inr 3)], bo_set_aside = []\<rparr>)" by (rule ref_post_runs)
  then have run: "process_coordinated_batch sample_db_env sample_blobs (Inr ()) False [Wrote n] None None (\<lambda>_. (Inr (), False, WroteAll, None, None)) [add_user, add_post] (st, sample_writer)
      = Some ((st', w'), [(0, Inr 2), (1, Inr 3)])" by (simp add: process_coordinated_batch_def)
  from batch_answers_once [OF run] run show ?thesis by blast
qed

text \<open>C6. The check of foreign keys is wrong for a batch in which two members write the same table: it sees the staged rows of
  the first of them only. A database in order has a user with a post. Removing the user is refused when
  it is committed alone; together with a transaction that adds another user it is committed, and the post then
  refers to a user that does not exist.\<close>

theorem batch_breaks_reference:
  "\<exists>st n st' w'. db_ok sample_sys sample_db_env st \<and> references_hold sample_db_env st [] \<and> txn_ok sample_db_env st add_user \<and> txn_ok sample_db_env st remove_user
     \<and> (\<forall>background pool_full outcome set_len_error sync_error w st1 w1 v.
          finish_prepared_commit sample_db_env sample_blobs background pool_full outcome set_len_error sync_error remove_user (st, w) \<noteq> Some ((st1, w1), Inr v))
     \<and> finish_coordinated_insert_batch sample_db_env sample_blobs (Inr ()) False [Wrote n] None None [add_user, remove_user] (st, sample_writer)
         = Some ((st', w'), Inr \<lparr>bo_results = [(0, Inr 2), (1, Inr 3)], bo_set_aside = []\<rparr>)
     \<and> \<not> references_hold sample_db_env st' []"
proof -
  obtain st where st: "ref_state st" using ref_state_exists by blast
  have removal: "remove_user \<in> {remove_user, add_post}" by simp
  obtain n st' w' where
    run: "finish_coordinated_insert_batch sample_db_env sample_blobs (Inr ()) False [Wrote n] None None [add_user, remove_user] (st, sample_writer)
      = Some ((st', w'), Inr \<lparr>bo_results = [(0, Inr 2), (1, Inr 3)], bo_set_aside = []\<rparr>)"
    and "db_ok sample_sys sample_db_env st'" and rows: "st_catalog st' = st_catalog st" "\<forall>t rid. rel_option same_row (final_row sample_db_env st' [] t rid) (batch_row sample_db_env st (pp_staged add_user @ pp_staged remove_user) t rid)"
    by (rule ref_batch_runs [OF st removal])
  have "txn_ok sample_db_env st add_user" "txn_ok sample_db_env st remove_user" using ref_txns_ok by simp_all
  with run ref_db(1) [OF st] ref_references [OF st] ref_removal_refused [OF st] ref_batch_dangles [OF st rows] show ?thesis by blast
qed

end
