(* ===== verification/Spec2Isabelle.thy ===== *)
theory Spec2Isabelle
  imports Wal_Recovery Primary_Delta Payload Record_Check Paged_Index Checkpoint Wal_Handover Run_Manifest Group_Correct
begin

text \<open>
  \<^bold>\<open>EliteSQL, the storage core.\<close>

  EliteSQL is an embedded database written in Rust: tables of typed rows, a write-ahead log for
  durability, immutable segments for checkpointed rows, a versioned primary index, secondary,
  text and vector indexes, and a SQL front end. This development models the storage core, the
  crate \<open>src/crates/elitesql-core\<close>; file names below are relative to its \<open>src\<close> directory.

  \<^bold>\<open>How the parts fit.\<close> A write normalizes a row against its table (\<open>normalize_record\<close>), encodes it
  into a payload (large values go to blob files through a sink), and appends one record per
  commit to the log. Replay at open reads the logs the manifest names, checks that they form a
  chain, and pushes the changes into the resident primary index. A checkpoint moves payloads to
  segments. Keys of secondary and unique indexes are byte strings whose order is the order of
  the values. The theories follow that path:

  \<^item> \<open>Prelude\<close>: bytes, little- and big-endian words, UTF-8 strings, results, list lemmas, the lemma
    collections. The checksum (crate \<open>crc32fast\<close>) and the digest (crate \<open>sha2\<close>) are parameters of
    the definitions that use them.
  \<^item> \<open>Cursor\<close>: \<open>error.rs\<close> and the reading primitives of \<open>value.rs\<close>.
  \<^item> \<open>Frames\<close>: the interface of a scanned file of checksummed frames, as a locale: a complete file
    scans to its frames and a torn one to the frames before the tear. Segments and logs
    interpret it.
  \<^item> \<open>Value_Codec\<close>, \<open>Index_Key\<close>: \<open>value.rs\<close>: values, their encoding, decoding, skipping and
    comparison in encoded form, blob references and files; order-preserving index keys.
  \<^item> \<open>Segment\<close>: \<open>segment.rs\<close>: entries and the three scans.
  \<^item> \<open>Wal\<close>, \<open>Wal_Writer\<close>: \<open>wal.rs\<close>: records, scan, chain preflight; the appending writer with short
    writes, failures, rollback, poisoning and sync barriers, against a file with a durable part.
  \<^item> \<open>Wal_Recovery\<close>: the replay loop of \<open>Database::open\<close> (\<open>db.rs\<close>).
  \<^item> \<open>Map_Interface\<close>: the finite map interface (locale \<open>map_ops\<close>) and sorted association lists.
  \<^item> \<open>Row\<close>: \<open>record.rs\<close>: the row and the per-thread cache of layouts.
  \<^item> \<open>Cow_Map\<close>: \<open>db/cow.rs\<close>: the chunked copy-on-write map and set.
  \<^item> \<open>Primary_Delta\<close>: \<open>db.rs\<close>: versions of a record and the resident primary index.
  \<^item> \<open>Paged_Format\<close>, \<open>Paged_Write\<close>, \<open>Paged_Read\<close>, \<open>Paged_Cursor\<close>, \<open>Paged_Merge\<close>, \<open>Paged_Latest\<close>,
    \<open>Paged_Index\<close>: \<open>paged.rs\<close>: immutable sorted runs in checksummed pages: the formats and opening, the
    writer, lookups and fences, prefix cursors, merges of any sources (locales \<open>source\<close> and
    \<open>keyed_source\<close>, interpreted by open runs and temporary runs), the external sorter, and the
    properties of runs.
  \<^item> \<open>Primary_Codec\<close>, \<open>Primary_Index\<close>, \<open>Primary_Scan\<close>: \<open>db.rs\<close>: the primary directory: keys and entries of
    primary runs; runs with a frozen and an active delta on top, lookups and table views; the
    merge that walks a table.
  \<^item> \<open>Publish\<close>, \<open>Manifest\<close>, \<open>Run_Manifest\<close>: \<open>manifest.rs\<close>, \<open>run_manifest.rs\<close>: files published by rename on a
    directory whose calls may fail and whose every intermediate state a crash may leave (locale
    \<open>document\<close>); the manifest with its fallback copy and its part of opening; run sets.
  \<^item> \<open>Checkpoint\<close>: \<open>db/maintenance.rs\<close>: the background checkpoint: freezing the active delta, its segment and
    its run, adoption or thawing; reads of rows through segments.
  \<^item> \<open>Wal_Handover\<close>: \<open>db/maintenance.rs\<close>, \<open>db.rs\<close>: the moves of the log during checkpoints as a state machine,
    with commits, failures, crashes and reopenings.
  \<^item> \<open>Secondary\<close>: \<open>db/secondary.rs\<close>: secondary indexes as runs of operations on pairs with a frozen and a
    mutable overlay; the interface of an index for the commit path (locale \<open>pair_index\<close>).
  \<^item> \<open>Change_Log\<close>: \<open>db.rs\<close>: the log of ids that recent commits changed.
  \<^item> \<open>Constraints\<close>: \<open>db/commit.rs\<close>: the state a commit works on, and the checks of unique indexes and foreign keys on
    the rows as they would be after it.
  \<^item> \<open>Commit\<close>, \<open>Commit_Apply\<close>, \<open>Commit_Correct\<close>: \<open>db/commit.rs\<close>, \<open>db.rs\<close>: the commit of a prepared transaction: conflicts
    and replayed increments, the record of the log, the changes of the primary and secondary indexes; the invariant
    of the state of an open database (\<open>db_ok\<close>) and what a commit keeps.
  \<^item> \<open>Group_Commit\<close>, \<open>Group_Correct\<close>: \<open>db/commit.rs\<close>: the coordinated batch: several prepared transactions checked, logged and
    applied together, the members that are set aside, and what a batch keeps and what it does not.
  \<^item> \<open>Schema\<close>: \<open>schema.rs\<close>: declarations and the validation of tables and catalogs.
  \<^item> \<open>Payload\<close>: \<open>db.rs\<close>: both payload forms, projections, the blob sink, the blob reference scan.
  \<^item> \<open>Record_Check\<close>: \<open>db.rs\<close>: the checks and normalization of a row, and its unique keys.

  \<^bold>\<open>What is shown.\<close> Round trips of every format (values, blob references, index keys as an order
  embedding, segments, log records, payloads); what scans of torn files return; that the writer
  keeps whole records whatever fails and that a barrier makes them durable; that an accepted log
  chain is gapless and that replay applies exactly its committed records, again when it is
  repeated after a crash; that the chunked containers implement sorted finite maps; that
  paged runs open without panics, read back as written, answer lookups exactly, are merged and
  sorted without loss, and never serve a damaged page; that lookups and walks of the primary
  directory see exactly the versions of all runs and deltas; that manifests and run sets are
  published atomically; that a checkpoint completes and is transparent to readers, and that its
  hand-over of the log loses no commit wherever it is interrupted; that a secondary index is
  the set of its pairs however they are spread over runs and overlays; that a commit is atomic,
  keeps every index exact, unique keys unique and foreign keys satisfied, and loses no concurrent
  update; that a coordinated batch of commits is atomic, keeps the indexes exact and unique keys unique and
  answers each member once, and how it can break a foreign key; that the change log never misses an id; that an
  accepted row conforms to its table and unique keys identify indexed values; that a validated
  catalog resolves its references and fits the formats. The findings are proved or reported
  where the code does not do what it says.

  \<^bold>\<open>Conventions.\<close> Results are \<open>error + 'a\<close>. A Rust panic is \<open>None\<close> of an option where it can be
  reached. Machine integers are words; \<open>usize\<close> is \<open>nat\<close> with the 64-bit limit stated where a
  length is narrowed. Loops are functions with measures (the bytes left to scan, the width of a
  binary search); no definition uses fuel. The merge loops, whose
  sources may fail, are partial functions whose \<open>None\<close> would be a loop that never ends; the theorems
  show that they return. \<open>Arc\<close>, \<open>make_mut\<close> and borrowed buffers are immutability
  of values. Sorting by an unstable sort is a parameter known only to permute and to sort.

  \<^bold>\<open>Not modelled.\<close> The preparation of a transaction, the queue of the commit coordinator, the blocking checkpoint, compaction,
  SQL, text and vector search, JSON, the memory governor, backup and repair, the command line
  and the bindings. File access is modelled as byte strings and outcomes of calls, and for published files as a
  directory of names; threads and locks are not modelled, except the interleaving of a sync barrier with
  later appends.

  \<^bold>\<open>Left to do.\<close> Compaction of runs and segments, whose merges are modelled and whose bookkeeping is not;
  transactions as sequences of statements; SQL lexing, planning and three-valued logic.
\<close>

end
